(* ===== verification/Prelude.thy ===== *)
theory Prelude
  imports Main "HOL-Library.Multiset" "HOL-Library.Product_Lexorder" "HOL-Library.List_Lexorder"
begin

text \<open>
  Shared vocabulary of the development.

  \<^item> \<open>py_error\<close> and \<open>'a result\<close>: Python exceptions as values, with the sequencing operators
    \<open>rbind\<close>, \<open>rfold\<close> and \<open>rmap\<close> that stop at the first exception, as a raised exception does.
  \<^item> Python list operations whose behaviour differs from the HOL library: indexing that raises
    (\<open>py_get\<close>), slices (\<open>py_slice\<close>), \<open>sorted(..., reverse=True)\<close> (\<open>py_sorted_rev\<close>), integer
    ceiling division.
  \<^item> The collections \<open>result_simps\<close>, \<open>perm_simps\<close> and \<open>slice_simps\<close> used by the component proofs.
\<close>

section \<open>Results of fallible code\<close>

datatype py_error =
    AssertionError
  | ValueError
  | KeyError
  | IndexError
  | RuntimeError
  | TypeError
  | AttributeError
  | NotImplementedError
  | ZeroDivisionError

type_synonym 'a result = "py_error + 'a"

definition rbind :: "'a result \<Rightarrow> ('a \<Rightarrow> 'b result) \<Rightarrow> 'b result" where
  "rbind r f = (case r of Inl e \<Rightarrow> Inl e | Inr x \<Rightarrow> f x)"

text \<open>A \<open>for\<close> loop over a list whose body may raise.\<close>

fun rfold :: "('a \<Rightarrow> 's \<Rightarrow> 's result) \<Rightarrow> 'a list \<Rightarrow> 's \<Rightarrow> 's result" where
  "rfold f [] s = Inr s"
| "rfold f (x # xs) s = rbind (f x s) (rfold f xs)"

text \<open>A list comprehension whose element expression may raise.\<close>

fun rmap :: "('a \<Rightarrow> 'b result) \<Rightarrow> 'a list \<Rightarrow> 'b list result" where
  "rmap f [] = Inr []"
| "rmap f (x # xs) = rbind (f x) (\<lambda>y. rbind (rmap f xs) (\<lambda>ys. Inr (y # ys)))"

section \<open>Python list and integer operations\<close>

definition py_get :: "'a list \<Rightarrow> nat \<Rightarrow> 'a result" where
  "py_get xs i = (if i < length xs then Inr (xs ! i) else Inl IndexError)"

definition py_set :: "'a list \<Rightarrow> nat \<Rightarrow> 'a \<Rightarrow> 'a list result" where
  "py_set xs i v = (if i < length xs then Inr (xs[i := v]) else Inl IndexError)"

text \<open>\<open>xs[a:b]\<close> for \<open>0 \<le> a\<close> and \<open>0 \<le> b\<close>.\<close>

definition py_slice :: "nat \<Rightarrow> nat \<Rightarrow> 'a list \<Rightarrow> 'a list" where
  "py_slice a b xs = take (b - a) (drop a xs)"

text \<open>\<open>xs[a:b]\<close> and \<open>xs[i]\<close> for integer bounds: a negative bound counts from the end.\<close>

definition py_bound :: "nat \<Rightarrow> int \<Rightarrow> nat" where
  "py_bound n i = nat (if i < 0 then i + int n else i)"

definition py_islice :: "int \<Rightarrow> int \<Rightarrow> 'a list \<Rightarrow> 'a list" where
  "py_islice a b xs = py_slice (py_bound (length xs) a) (py_bound (length xs) b) xs"

definition py_iget :: "'a list \<Rightarrow> int \<Rightarrow> 'a result" where
  "py_iget xs i = (let j = (if i < 0 then i + int (length xs) else i)
     in if 0 \<le> j \<and> j < int (length xs) then Inr (xs ! nat j) else Inl IndexError)"

text \<open>\<open>cdiv(a, b)\<close>, written \<open>-(a // -b)\<close> with Python's floor division.\<close>

definition cdiv :: "int \<Rightarrow> int \<Rightarrow> int" where
  "cdiv a b = - (a div (- b))"

text \<open>
  \<open>sorted(xs, key=f, reverse=True)\<close>: Python reverses the list, sorts it stably and reverses it
  again, so that equal elements keep their order.
\<close>

definition py_sorted_rev :: "('a \<Rightarrow> 'k::linorder) \<Rightarrow> 'a list \<Rightarrow> 'a list" where
  "py_sorted_rev f xs = rev (sort_key f (rev xs))"

named_theorems result_simps \<open>evaluation of fallible code\<close>
named_theorems perm_simps \<open>multisets and sets of rearranged lists\<close>
named_theorems slice_simps \<open>slices and chunks of lists\<close>

section \<open>Lemmas on results\<close>

lemma rbind_simps [simp, result_simps]:
  "rbind (Inr x) f = f x"
  "rbind (Inl e) f = Inl e"
  by (simp_all add: rbind_def)

lemma rbind_Inr_iff [simp]: "rbind r f = Inr y \<longleftrightarrow> (\<exists>x. r = Inr x \<and> f x = Inr y)"
  by (cases r) auto

lemma rbind_assoc: "rbind (rbind r f) g = rbind r (\<lambda>x. rbind (f x) g)"
  by (cases r) auto

lemma rbind_Inr_right [simp]: "rbind r Inr = r"
  by (cases r) auto

lemma rfold_append: "rfold f (xs @ ys) s = rbind (rfold f xs s) (rfold f ys)"
proof (induction xs arbitrary: s)
  case Nil
  then show ?case by simp
next
  case (Cons x xs)
  then show ?case by (cases "f x s") simp_all
qed

text \<open>An invariant that every iteration keeps holds after the loop.\<close>

lemma rfold_invariant:
  assumes "rfold f xs s = Inr t" and "P s"
    and "\<And>x s t. x \<in> set xs \<Longrightarrow> P s \<Longrightarrow> f x s = Inr t \<Longrightarrow> P t"
  shows "P t"
  using assms by (induction xs arbitrary: s) auto

text \<open>A loop whose iterations never raise under an invariant does not raise.\<close>

lemma rfold_total:
  assumes "P s"
    and "\<And>x s. x \<in> set xs \<Longrightarrow> P s \<Longrightarrow> \<exists>t. f x s = Inr t \<and> P t"
  shows "\<exists>t. rfold f xs s = Inr t \<and> P t"
  using assms
proof (induction xs arbitrary: s)
  case Nil
  then show ?case by simp
next
  case (Cons x xs)
  from Cons.prems obtain t where "f x s = Inr t" and "P t"
    by (metis list.set_intros(1))
  then show ?case
    using Cons.IH [of t] Cons.prems(2) by (metis list.set_intros(2) rbind_simps(1) rfold.simps(2))
qed

lemma rfold_pure: "(\<And>x s. x \<in> set xs \<Longrightarrow> f x s = Inr (g x s)) \<Longrightarrow> rfold f xs s = Inr (fold g xs s)"
  by (induction xs arbitrary: s) auto

lemma rmap_Inr_iff: "rmap f xs = Inr ys \<longleftrightarrow> list_all2 (\<lambda>x y. f x = Inr y) xs ys"
proof (induction xs arbitrary: ys)
  case Nil
  then show ?case by auto
next
  case (Cons x xs)
  then show ?case by (cases ys) auto
qed

lemma length_rmap: "rmap f xs = Inr ys \<Longrightarrow> length ys = length xs"
  by (auto simp: rmap_Inr_iff dest: list_all2_lengthD)

lemma rmap_pure: "(\<And>x. x \<in> set xs \<Longrightarrow> f x = Inr (g x)) \<Longrightarrow> rmap f xs = Inr (map g xs)"
  by (induction xs) auto

lemma py_get_Inr [simp]: "py_get xs i = Inr v \<longleftrightarrow> i < length xs \<and> v = xs ! i"
  by (auto simp: py_get_def)

lemma py_get_ok [result_simps]: "i < length xs \<Longrightarrow> py_get xs i = Inr (xs ! i)"
  by simp

lemma py_set_Inr [simp]: "py_set xs i v = Inr ys \<longleftrightarrow> i < length xs \<and> ys = xs[i := v]"
  by (auto simp: py_set_def)

lemma py_islice_nat [slice_simps]: "py_islice (int a) (int b) xs = py_slice a b xs"
  by (simp add: py_islice_def py_bound_def)

lemma py_iget_nat: "i < length xs \<Longrightarrow> py_iget xs (int i) = Inr (xs ! i)"
  by (simp add: py_iget_def)

lemma cdiv_bounds:
  assumes "0 < b"
  shows "a \<le> cdiv a b * b" "cdiv a b * b < a + b"
proof -
  have "a = (a div (- b)) * (- b) + a mod (- b)" by (rule div_mult_mod_eq [symmetric])
  moreover have "a mod (- b) \<le> 0" "- b < a mod (- b)" using assms neg_mod_sign [of "- b" a] neg_mod_bound [of "- b" a] by simp_all
  moreover have "cdiv a b * b = (a div (- b)) * (- b)" by (simp add: cdiv_def)
  ultimately show "a \<le> cdiv a b * b" "cdiv a b * b < a + b" by linarith+
qed

lemma cdiv_mono: "0 < b \<Longrightarrow> a \<le> c \<Longrightarrow> cdiv a b \<le> cdiv c b"
  by (simp add: cdiv_def zdiv_mono1_neg)

lemma cdiv_nonneg: "0 < b \<Longrightarrow> 0 \<le> a \<Longrightarrow> 0 \<le> cdiv a b"
  using cdiv_mono [of b 0 a] by (simp add: cdiv_def)

section \<open>Lemmas on rearranged lists\<close>

lemma mset_py_sorted_rev [simp, perm_simps]: "mset (py_sorted_rev f xs) = mset xs"
  by (simp add: py_sorted_rev_def)

lemma set_py_sorted_rev [simp, perm_simps]: "set (py_sorted_rev f xs) = set xs"
  by (simp add: py_sorted_rev_def)

lemma length_py_sorted_rev [simp, perm_simps]: "length (py_sorted_rev f xs) = length xs"
  by (simp add: py_sorted_rev_def)

lemma sorted_rev_py_sorted_rev: "sorted (rev (map f (py_sorted_rev f xs)))"
  by (simp add: py_sorted_rev_def rev_map)

lemma py_sorted_rev_nth_mono:
  "i \<le> j \<Longrightarrow> j < length xs \<Longrightarrow> f (py_sorted_rev f xs ! j) \<le> f (py_sorted_rev f xs ! i)"
  using sorted_rev_nth_mono [OF sorted_rev_py_sorted_rev [of f xs], of i j] by simp

lemma mset_concat_mset_map: "mset (concat xss) = sum_list (map mset xss)"
  by (induction xss) auto

lemma mset_concat_eq: "mset xss = mset yss \<Longrightarrow> mset (concat xss) = mset (concat yss)"
  by (metis mset_concat_mset_map mset_map sum_mset_sum_list)

lemma distinct_mset_upt: "mset xs = mset [0..<n] \<Longrightarrow> distinct xs"
  by (metis distinct_upt mset_eq_imp_distinct_iff)

lemma set_mset_upt: "mset xs = mset [0..<n] \<Longrightarrow> set xs = {..<n}"
  by (metis atLeast_upt mset_eq_setD)

lemma length_mset_upt: "mset xs = mset [0..<n] \<Longrightarrow> length xs = n"
  by (metis diff_zero length_upt mset_eq_length)

lemma downward_closed_card:
  fixes U :: "nat set"
  assumes fin: "finite U" and closed: "\<And>i j. j \<in> U \<Longrightarrow> i \<le> j \<Longrightarrow> i \<in> U"
  shows "U = {..<card U}"
proof (cases "U = {}")
  case True
  then show ?thesis by simp
next
  case False
  have "U = {..Max U}"
    using Max_ge [OF fin] closed [OF Max_in [OF fin False]] by blast
  then obtain m where "U = {..m}" ..
  then show ?thesis by (simp add: lessThan_Suc_atMost)
qed

section \<open>Lemmas on slices\<close>

lemma length_py_slice [simp, slice_simps]: "length (py_slice a b xs) = min (b - a) (length xs - a)"
  by (simp add: py_slice_def)

lemma py_slice_append:
  "a \<le> b \<Longrightarrow> b \<le> c \<Longrightarrow> py_slice a b xs @ py_slice b c xs = py_slice a c xs"
proof -
  assume "a \<le> b" and "b \<le> c"
  then have "py_slice b c xs = take (c - b) (drop (b - a) (drop a xs))"
    and "c - a = (b - a) + (c - b)"
    by (simp_all add: py_slice_def)
  then show ?thesis
    by (simp only: py_slice_def take_add)
qed

lemma py_slice_all [simp, slice_simps]: "length xs \<le> b \<Longrightarrow> py_slice 0 b xs = xs"
  by (simp add: py_slice_def)

lemma py_slice_empty [simp, slice_simps]: "b \<le> a \<Longrightarrow> py_slice a b xs = []"
  by (simp add: py_slice_def)

text \<open>Reading \<open>m\<close> consecutive chunks of \<open>k\<close> elements by index reads the list.\<close>

lemma concat_chunks_nth:
  "m * k \<le> length xs \<Longrightarrow>
   concat (map (\<lambda>j. map (\<lambda>i. f (xs ! (j * k + i))) [0..<k]) [0..<m]) = map f (take (m * k) xs)"
proof (induction m)
  case 0
  then show ?case by simp
next
  case (Suc m)
  have "map (\<lambda>i. f (xs ! (m * k + i))) [0..<k] = map f (take k (drop (m * k) xs))"
    using Suc.prems by (intro nth_equalityI) auto
  then show ?case
    using Suc by (simp add: take_add add.commute [of k])
qed

end
