(* ===== verification/Heapq.thy ===== *)
theory Heapq
  imports Prelude
begin

text \<open>
  Python's \<open>heapq\<close> as the repository's code uses it: \<open>heappush\<close> and \<open>heappop\<close> on a list, with the
  library's two sifting loops. The order is a parameter \<open>lt\<close> (the elements' \<open>__lt__\<close>), because which
  of two tied elements is popped first is decided by the loops, not by the order.

  The locale \<open>priority_bag\<close> is what clients rely on. \<open>heap_order\<close> proves it for any strict weak
  order.
\<close>

section \<open>The two sifting loops and the operations\<close>

function siftdown :: "('a \<Rightarrow> 'a \<Rightarrow> bool) \<Rightarrow> 'a \<Rightarrow> 'a list \<Rightarrow> nat \<Rightarrow> nat \<Rightarrow> 'a list" where
  "siftdown lt newitem heap startpos pos =
     (if startpos < pos then
        (let parentpos = (pos - 1) div 2; parent = heap ! parentpos
         in if lt newitem parent
            then siftdown lt newitem (heap[pos := parent]) startpos parentpos
            else heap[pos := newitem])
      else heap[pos := newitem])"
  by pat_completeness auto
termination
  by (relation "measure (\<lambda>(lt, newitem, heap, startpos, pos). pos)") auto

definition smaller_child :: "('a \<Rightarrow> 'a \<Rightarrow> bool) \<Rightarrow> 'a list \<Rightarrow> nat \<Rightarrow> nat" where
  "smaller_child lt heap pos =
     (let childpos = 2 * pos + 1; rightpos = childpos + 1
      in if rightpos < length heap \<and> \<not> lt (heap ! childpos) (heap ! rightpos)
         then rightpos else childpos)"

function siftup :: "('a \<Rightarrow> 'a \<Rightarrow> bool) \<Rightarrow> 'a list \<Rightarrow> nat \<Rightarrow> 'a list \<times> nat" where
  "siftup lt heap pos =
     (if 2 * pos + 1 < length heap
      then siftup lt (heap[pos := heap ! smaller_child lt heap pos]) (smaller_child lt heap pos)
      else (heap, pos))"
  by pat_completeness auto
termination
  by (relation "measure (\<lambda>(lt, heap, pos). length heap - pos)")
     (auto simp: smaller_child_def Let_def)

definition heappush :: "('a \<Rightarrow> 'a \<Rightarrow> bool) \<Rightarrow> 'a list \<Rightarrow> 'a \<Rightarrow> 'a list" where
  "heappush lt heap item = siftdown lt item (heap @ [item]) 0 (length heap)"

definition heappop :: "('a \<Rightarrow> 'a \<Rightarrow> bool) \<Rightarrow> 'a list \<Rightarrow> ('a \<times> 'a list) result" where
  "heappop lt heap =
     (if heap = [] then Inl IndexError
      else let lastelt = last heap; rest = butlast heap
        in if rest = [] then Inr (lastelt, [])
           else let up = siftup lt (rest[0 := lastelt]) 0
             in Inr (hd rest, siftdown lt lastelt (fst up) 0 (snd up)))"

declare siftdown.simps [simp del] siftup.simps [simp del]

definition is_heap :: "('a \<Rightarrow> 'a \<Rightarrow> bool) \<Rightarrow> 'a list \<Rightarrow> bool" where
  "is_heap lt h \<longleftrightarrow> (\<forall>i. 0 < i \<and> i < length h \<longrightarrow> \<not> lt (h ! i) (h ! ((i - 1) div 2)))"

text \<open>The heap order everywhere but at \<open>pos\<close>, before and after the new item is written there.\<close>

definition up_inv :: "('a \<Rightarrow> 'a \<Rightarrow> bool) \<Rightarrow> 'a list \<Rightarrow> nat \<Rightarrow> bool" where
  "up_inv lt h pos \<longleftrightarrow>
     (\<forall>i. 0 < i \<and> i < length h \<and> i \<noteq> pos \<and> (i - 1) div 2 \<noteq> pos \<longrightarrow>
        \<not> lt (h ! i) (h ! ((i - 1) div 2))) \<and>
     (\<forall>c. 0 < c \<and> c < length h \<and> (c - 1) div 2 = pos \<and> 0 < pos \<longrightarrow>
        \<not> lt (h ! c) (h ! ((pos - 1) div 2)))"

definition down_inv :: "('a \<Rightarrow> 'a \<Rightarrow> bool) \<Rightarrow> 'a list \<Rightarrow> nat \<Rightarrow> bool" where
  "down_inv lt h pos \<longleftrightarrow>
     (\<forall>i. 0 < i \<and> i < length h \<and> i \<noteq> pos \<longrightarrow> \<not> lt (h ! i) (h ! ((i - 1) div 2))) \<and>
     (\<forall>c. 0 < c \<and> c < length h \<and> (c - 1) div 2 = pos \<and> 0 < pos \<longrightarrow>
        \<not> lt (h ! c) (h ! ((pos - 1) div 2)))"

section \<open>The loops permute the list\<close>

lemma list_update_swap_mset:
  assumes "i < length xs" and "j < length xs"
  shows "mset (xs[i := xs ! j, j := v]) = mset (xs[i := v])"
proof (cases "i = j")
  case True
  then show ?thesis by simp
next
  case False
  let ?ys = "xs[i := v]"
  have "xs[i := xs ! j, j := v] = ?ys[i := ?ys ! j, j := ?ys ! i]"
    using assms False by (simp add: nth_list_update)
  then show ?thesis
    using assms by (metis length_list_update mset_swap)
qed

lemma mset_siftdown: "pos < length heap \<Longrightarrow> mset (siftdown lt x heap s pos) = mset (heap[pos := x])"
proof (induction lt x heap s pos rule: siftdown.induct)
  case (1 lt x heap s pos)
  let ?p = "(pos - 1) div 2"
  show ?case
  proof (cases "s < pos \<and> lt x (heap ! ?p)")
    case True
    then have "mset (siftdown lt x heap s pos) = mset (heap[pos := heap ! ?p, ?p := x])"
      using 1 by (simp add: siftdown.simps [of lt x heap s pos] Let_def)
    also have "\<dots> = mset (heap[pos := x])"
      using 1 True by (intro list_update_swap_mset) auto
    finally show ?thesis .
  next
    case False
    then show ?thesis by (auto simp: siftdown.simps [of lt x heap s pos] Let_def)
  qed
qed

lemma length_siftdown [simp]: "length (siftdown lt x heap s pos) = length heap"
  by (induction lt x heap s pos rule: siftdown.induct)
     (subst siftdown.simps, simp add: Let_def)

lemma smaller_child_bound: "2 * pos + 1 < length h \<Longrightarrow> smaller_child lt h pos < length h"
  by (auto simp: smaller_child_def Let_def)

lemma siftup_spec:
  "siftup lt heap pos = (h, p) \<Longrightarrow> pos < length heap \<Longrightarrow>
     length h = length heap \<and> p < length heap \<and> length heap \<le> 2 * p + 1 \<and>
     mset (h[p := x]) = mset (heap[pos := x])"
proof (induction lt heap pos rule: siftup.induct)
  case (1 lt heap pos)
  let ?c = "smaller_child lt heap pos"
  show ?case
  proof (cases "2 * pos + 1 < length heap")
    case True
    have "mset (heap[pos := heap ! ?c, ?c := x]) = mset (heap[pos := x])"
      using 1 True smaller_child_bound by (intro list_update_swap_mset) auto
    then show ?thesis
      using 1 True smaller_child_bound [OF True, of lt]
      by (auto simp: siftup.simps [of lt heap pos])
  next
    case False
    then show ?thesis using 1 by (auto simp: siftup.simps [of lt heap pos])
  qed
qed

lemma mset_heappush [perm_simps]: "mset (heappush lt heap x) = add_mset x (mset heap)"
  by (simp add: heappush_def mset_siftdown)

lemma length_heappush [simp]: "length (heappush lt heap x) = Suc (length heap)"
  by (simp add: heappush_def)

lemma mset_heappop: "heappop lt heap = Inr (x, h) \<Longrightarrow> mset heap = add_mset x (mset h)"
proof -
  assume pop: "heappop lt heap = Inr (x, h)"
  then have ne: "heap \<noteq> []" by (auto simp: heappop_def)
  show ?thesis
  proof (cases "butlast heap = []")
    case True
    with ne have "heap = [last heap]"
      by (metis append_Nil append_butlast_last_id)
    with pop True ne have "x = last heap" "h = []"
      by (auto simp: heappop_def Let_def)
    with \<open>heap = [last heap]\<close> show ?thesis by (metis mset.simps)
  next
    case False
    obtain h' p where up: "siftup lt ((butlast heap)[0 := last heap]) 0 = (h', p)"
      by fastforce
    have spec: "length h' = length (butlast heap)" "p < length h'"
      "mset (h'[p := last heap]) = mset ((butlast heap)[0 := last heap])"
      using siftup_spec [OF up, of "last heap"] False
      by (simp_all only: length_list_update length_greater_0_conv not_False_eq_True True_implies_equals
          list_update_overwrite)
    obtain a as where b: "butlast heap = a # as"
      using False by (cases "butlast heap") auto
    have hd: "x = a" "h = siftdown lt (last heap) h' 0 p"
      using pop up False ne b by (auto simp: heappop_def Let_def)
    have "mset heap = mset (butlast heap @ [last heap])"
      using ne by simp
    also have "\<dots> = add_mset a (mset ((butlast heap)[0 := last heap]))"
      using b by simp
    finally show ?thesis
      using hd spec by (simp add: mset_siftdown)
  qed
qed

lemma length_heappop: "heappop lt heap = Inr (x, h) \<Longrightarrow> length heap = Suc (length h)"
  using mset_heappop [of lt heap x h] by (metis size_add_mset size_mset)

lemma heappop_total: "heap \<noteq> [] \<Longrightarrow> \<exists>x h. heappop lt heap = Inr (x, h) \<and> length heap = Suc (length h)"
proof -
  assume ne: "heap \<noteq> []"
  then obtain x h where "heappop lt heap = Inr (x, h)"
    by (cases "butlast heap = []") (auto simp: heappop_def Let_def)
  then show ?thesis using length_heappop [of lt heap x h] by blast
qed

section \<open>Heap order\<close>

locale priority_bag =
  fixes push :: "'q \<Rightarrow> 'a \<Rightarrow> 'q"
    and pop :: "'q \<Rightarrow> ('a \<times> 'q) result"
    and bag :: "'q \<Rightarrow> 'a multiset"
    and invar :: "'q \<Rightarrow> bool"
    and before :: "'a \<Rightarrow> 'a \<Rightarrow> bool"
  assumes bag_push: "bag (push q x) = add_mset x (bag q)"
    and bag_pop: "pop q = Inr (x, q') \<Longrightarrow> bag q = add_mset x (bag q')"
    and pop_total: "bag q \<noteq> {#} \<Longrightarrow> \<exists>x q'. pop q = Inr (x, q')"
    and invar_push: "invar q \<Longrightarrow> invar (push q x)"
    and invar_pop: "invar q \<Longrightarrow> pop q = Inr (x, q') \<Longrightarrow> invar q'"
    and pop_least: "invar q \<Longrightarrow> pop q = Inr (x, q') \<Longrightarrow> y \<in># bag q \<Longrightarrow> \<not> before y x"
begin

lemma bag_push_all: "bag (fold (\<lambda>x q. push q x) xs q) = mset xs + bag q"
  by (induction xs arbitrary: q) (simp_all add: bag_push)

lemma invar_push_all: "invar q \<Longrightarrow> invar (fold (\<lambda>x q. push q x) xs q)"
  by (induction xs arbitrary: q) (simp_all add: invar_push)

end

locale heap_order =
  fixes lt :: "'a \<Rightarrow> 'a \<Rightarrow> bool"
  assumes asym: "lt a b \<Longrightarrow> \<not> lt b a"
    and neg_trans: "\<not> lt a b \<Longrightarrow> \<not> lt b c \<Longrightarrow> \<not> lt a c"
begin

lemma irrefl: "\<not> lt a a"
  using asym by blast

lemma below_new: "\<not> lt a p \<Longrightarrow> lt x p \<Longrightarrow> \<not> lt a x"
  using asym neg_trans by blast

lemma siftdown_step:
  assumes inv: "down_inv lt (h[pos := x]) pos" and pos: "0 < pos" "pos < length h"
    and less: "lt x (h ! ((pos - 1) div 2))"
  shows "down_inv lt (h[pos := h ! ((pos - 1) div 2), (pos - 1) div 2 := x]) ((pos - 1) div 2)"
proof -
  let ?p = "(pos - 1) div 2"
  let ?g = "h[pos := h ! ?p, ?p := x]"
  have p: "?p < pos" using pos by auto
  have old: "\<not> lt (h ! i) (h[pos := x] ! ((i - 1) div 2))"
    if "0 < i" "i < length h" "i \<noteq> pos" for i
    using inv that unfolding down_inv_def by (metis length_list_update nth_list_update_neq)
  have kids: "\<not> lt (h ! c) (h ! ?p)" if c: "0 < c" "c < length h" "(c - 1) div 2 = pos" for c
  proof -
    have "c \<noteq> pos" "?p \<noteq> pos" using c p by auto
    with inv c pos show ?thesis
      unfolding down_inv_def by (metis length_list_update nth_list_update_neq)
  qed
  have 1: "\<not> lt (?g ! i) (?g ! ((i - 1) div 2))" if i: "0 < i" "i < length h" "i \<noteq> ?p" for i
  proof -
    consider "i = pos" | "i \<noteq> pos" "(i - 1) div 2 = ?p" | "i \<noteq> pos" "(i - 1) div 2 = pos"
      | "i \<noteq> pos" "(i - 1) div 2 \<noteq> ?p" "(i - 1) div 2 \<noteq> pos"
      by blast
    then show ?thesis
    proof cases
      case 1
      then show ?thesis using less asym p pos by (auto simp: nth_list_update)
    next
      case 2
      then have "\<not> lt (h ! i) (h ! ?p)" using old [of i] i p by auto
      then have "\<not> lt (h ! i) x" using less by (rule below_new)
      then show ?thesis using 2 i p pos by (auto simp: nth_list_update)
    next
      case 3
      then show ?thesis using kids [of i] i p pos by (auto simp: nth_list_update)
    next
      case 4
      then show ?thesis using old [of i] i p pos by (auto simp: nth_list_update)
    qed
  qed
  have up: "\<not> lt (h ! ?p) (h ! ((?p - 1) div 2))" if "0 < ?p"
  proof -
    have "\<not> lt (h ! ?p) (h[pos := x] ! ((?p - 1) div 2))" using that p pos by (intro old) auto
    moreover have "(?p - 1) div 2 \<noteq> pos" using p by linarith
    ultimately show ?thesis by simp
  qed
  have g: "?g ! ((?p - 1) div 2) = h ! ((?p - 1) div 2)" if "0 < ?p"
  proof -
    have "(?p - 1) div 2 \<noteq> pos" "(?p - 1) div 2 \<noteq> ?p" using p that by linarith+
    then show ?thesis by simp
  qed
  have 2: "\<not> lt (?g ! c) (?g ! ((?p - 1) div 2))"
    if c: "0 < c" "c < length h" "(c - 1) div 2 = ?p" "0 < ?p" for c
  proof (cases "c = pos")
    case True
    then have "?g ! c = h ! ?p" using p pos by simp
    then show ?thesis using up [OF c(4)] g [OF c(4)] by simp
  next
    case False
    then have "\<not> lt (h ! c) (h ! ?p)" using old [of c] c p by (auto split: if_splits)
    then have "\<not> lt (h ! c) (h ! ((?p - 1) div 2))" using up [OF c(4)] by (rule neg_trans)
    moreover have "c \<noteq> ?p" using c by linarith
    ultimately show ?thesis using False g [OF c(4)] by simp
  qed
  from 1 2 show ?thesis unfolding down_inv_def length_list_update by blast
qed

lemma siftdown_heap:
  "down_inv lt (h[pos := x]) pos \<Longrightarrow> pos < length h \<Longrightarrow> is_heap lt (siftdown lt x h 0 pos)"
proof (induction pos arbitrary: h rule: less_induct)
  case (less pos)
  let ?p = "(pos - 1) div 2"
  show ?case
  proof (cases "0 < pos \<and> lt x (h ! ?p)")
    case True
    then have "?p < pos" by auto
    with True less siftdown_step [of h pos x] show ?thesis
      by (subst siftdown.simps) (simp add: Let_def)
  next
    case False
    then have "siftdown lt x h 0 pos = h[pos := x]"
      by (subst siftdown.simps) (auto simp: Let_def)
    moreover have "is_heap lt (h[pos := x])"
      using less.prems False unfolding is_heap_def down_inv_def
      by (metis (no_types, lifting) bot_nat_0.not_eq_extremum diff_less div_le_dividend le_less_trans
          length_list_update less_one nth_list_update_eq nth_list_update_neq order_less_irrefl zero_less_one)
    ultimately show ?thesis by simp
  qed
qed

lemma siftup_step:
  assumes inv: "up_inv lt h pos" and b: "2 * pos + 1 < length h"
  shows "up_inv lt (h[pos := h ! smaller_child lt h pos]) (smaller_child lt h pos)"
proof -
  let ?c = "smaller_child lt h pos"
  let ?g = "h[pos := h ! ?c]"
  have c: "?c < length h" "(?c - 1) div 2 = pos" "pos < ?c"
    using b by (auto simp: smaller_child_def Let_def)
  have least: "\<not> lt (h ! i) (h ! ?c)" if "0 < i" "i < length h" "(i - 1) div 2 = pos" for i
  proof -
    have "i = 2 * pos + 1 \<or> i = 2 * pos + 2" using that by auto
    then show ?thesis
      using that irrefl asym by (auto simp: smaller_child_def Let_def split: if_splits)
  qed
  have 1: "\<not> lt (?g ! i) (?g ! ((i - 1) div 2))"
    if i: "0 < i" "i < length h" "i \<noteq> ?c" "(i - 1) div 2 \<noteq> ?c" for i
  proof (cases "i = pos")
    case True
    then have "\<not> lt (h ! ?c) (h ! ((pos - 1) div 2))"
      using inv c i unfolding up_inv_def by auto
    with True i show ?thesis by (auto simp: nth_list_update)
  next
    case False
    then show ?thesis
      using inv i least [of i] b unfolding up_inv_def by (auto simp: nth_list_update)
  qed
  have 2: "\<not> lt (?g ! d) (?g ! ((?c - 1) div 2))"
    if d: "0 < d" "d < length h" "(d - 1) div 2 = ?c" for d
  proof -
    have "\<not> lt (h ! d) (h ! ?c)" using inv c d unfolding up_inv_def by auto
    moreover have "d \<noteq> pos" using c d by auto
    ultimately show ?thesis using b c by (simp add: nth_list_update)
  qed
  from 1 2 show ?thesis by (auto simp: up_inv_def)
qed

lemma siftup_inv: "up_inv lt h pos \<Longrightarrow> siftup lt h pos = (h', p) \<Longrightarrow> up_inv lt h' p"
proof (induction "length h - pos" arbitrary: h pos rule: less_induct)
  case less
  let ?c = "smaller_child lt h pos"
  show ?case
  proof (cases "2 * pos + 1 < length h")
    case True
    then have "length h - ?c < length h - pos"
      by (auto simp: smaller_child_def Let_def)
    then show ?thesis
      using less.hyps [of "h[pos := h ! ?c]" ?c] less.prems(2) True siftup_step [OF less.prems(1) True]
      by (simp add: siftup.simps [of lt h pos])
  next
    case False
    with less.prems show ?thesis by (simp add: siftup.simps [of lt h pos])
  qed
qed

lemma heap_root_least: "is_heap lt h \<Longrightarrow> i < length h \<Longrightarrow> \<not> lt (h ! i) (h ! 0)"
proof (induction i rule: less_induct)
  case (less i)
  show ?case
  proof (cases "i = 0")
    case True
    then show ?thesis using irrefl by simp
  next
    case False
    then have "(i - 1) div 2 < i" by auto
    with less have "\<not> lt (h ! ((i - 1) div 2)) (h ! 0)" by simp
    moreover have "\<not> lt (h ! i) (h ! ((i - 1) div 2))"
      using less.prems False unfolding is_heap_def by auto
    ultimately show ?thesis by (rule neg_trans [rotated])
  qed
qed

lemma heappush_heap:
  assumes "is_heap lt h"
  shows "is_heap lt (heappush lt h x)"
proof -
  have "down_inv lt ((h @ [x])[length h := x]) (length h)"
    unfolding down_inv_def
  proof (intro conjI allI impI; elim conjE)
    fix i
    assume i: "0 < i" "i < length ((h @ [x])[length h := x])" "i \<noteq> length h"
    then have "i < length h" "(i - 1) div 2 < length h" by auto
    with i assms show "\<not> lt ((h @ [x])[length h := x] ! i) ((h @ [x])[length h := x] ! ((i - 1) div 2))"
      by (simp add: is_heap_def nth_append)
  qed auto
  then show ?thesis
    unfolding heappush_def by (rule siftdown_heap) simp
qed

lemma heappop_heap:
  assumes heap: "is_heap lt h" and pop: "heappop lt h = Inr (x, h')"
  shows "is_heap lt h'"
proof (cases "butlast h = []")
  case True
  with pop show ?thesis by (auto simp: heappop_def is_heap_def Let_def split: if_splits)
next
  case False
  let ?r = "(butlast h)[0 := last h]"
  obtain g p where up: "siftup lt ?r 0 = (g, p)" by fastforce
  have h': "h' = siftdown lt (last h) g 0 p"
    using pop False up by (auto simp: heappop_def Let_def split: if_splits)
  have spec: "length g = length ?r" "p < length g" "length g \<le> 2 * p + 1"
    using siftup_spec [OF up, of "last h"] False by (auto simp: length_greater_0_conv [symmetric])
  have "up_inv lt ?r 0"
    unfolding up_inv_def
  proof (intro conjI allI impI; elim conjE)
    fix i
    assume i: "0 < i" "i < length ?r" "i \<noteq> 0" "(i - 1) div 2 \<noteq> 0"
    then have j: "i < length (butlast h)" "(i - 1) div 2 < length (butlast h)" by simp_all
    have "?r ! i = h ! i" "?r ! ((i - 1) div 2) = h ! ((i - 1) div 2)"
      using i j by (simp_all add: nth_butlast del: length_butlast)
    then show "\<not> lt (?r ! i) (?r ! ((i - 1) div 2))"
      using heap i j unfolding is_heap_def by simp
  qed simp
  then have "up_inv lt g p" using up by (rule siftup_inv)
  then have "down_inv lt (g[p := last h]) p"
    using spec unfolding up_inv_def down_inv_def
  proof (intro conjI allI impI; elim conjE)
    fix i
    assume inv: "\<forall>i. 0 < i \<and> i < length g \<and> i \<noteq> p \<and> (i - 1) div 2 \<noteq> p \<longrightarrow>
        \<not> lt (g ! i) (g ! ((i - 1) div 2))"
      and i: "0 < i" "i < length (g[p := last h])" "i \<noteq> p"
    then have "i < 2 * p + 1" using spec by simp
    then have "(i - 1) div 2 \<noteq> p" using i(1) by linarith
    with inv i show "\<not> lt (g[p := last h] ! i) (g[p := last h] ! ((i - 1) div 2))" by simp
  next
    fix c
    assume c: "0 < c" "c < length (g[p := last h])" "(c - 1) div 2 = p"
    then have False using spec by simp
    then show "\<not> lt (g[p := last h] ! c) (g[p := last h] ! ((p - 1) div 2))" ..
  qed
  then show ?thesis unfolding h' using spec by (intro siftdown_heap)
qed

lemma heappop_root: "heappop lt h = Inr (x, h') \<Longrightarrow> h \<noteq> [] \<and> x = h ! 0"
proof -
  assume pop: "heappop lt h = Inr (x, h')"
  then have "h \<noteq> []" by (auto simp: heappop_def)
  then obtain ys y where h: "h = ys @ [y]" by (metis append_butlast_last_id)
  then show ?thesis using pop by (cases ys) (auto simp: heappop_def Let_def)
qed

lemma heappop_least: "is_heap lt h \<Longrightarrow> heappop lt h = Inr (x, h') \<Longrightarrow> y \<in> set h \<Longrightarrow> \<not> lt y x"
  by (metis heap_root_least heappop_root in_set_conv_nth)

end

text \<open>Python's heap is a priority bag for every strict weak order.\<close>

sublocale heap_order \<subseteq> heapq: priority_bag "heappush lt" "heappop lt" mset "is_heap lt" lt
proof
  show "mset (heappush lt q x) = add_mset x (mset q)" for q x
    by (rule mset_heappush)
  show "mset q = add_mset x (mset q')" if "heappop lt q = Inr (x, q')" for q x q'
    using that by (rule mset_heappop)
  show "\<exists>x q'. heappop lt q = Inr (x, q')" if "mset q \<noteq> {#}" for q
    using that heappop_total [of q lt] by auto
  show "is_heap lt (heappush lt q x)" if "is_heap lt q" for q x
    using that by (rule heappush_heap)
  show "is_heap lt q'" if "is_heap lt q" "heappop lt q = Inr (x, q')" for q x q'
    using that by (rule heappop_heap)
  show "\<not> lt y x" if "is_heap lt q" "heappop lt q = Inr (x, q')" "y \<in># mset q" for q x q' y
    using that heappop_least by simp
qed

end
