(* ===== verification/Karmarkar_Karp.thy ===== *)
theory Karmarkar_Karp
  imports Heapq
begin

text \<open>
  The partitioning routines of \<open>verl/utils/seqlen_balancing.py\<close>: \<open>karmarkar_karp\<close> with its inner
  classes \<open>Set\<close> and \<open>State\<close>, \<open>greedy_partition\<close> and \<open>get_seqlen_balanced_partitions\<close>.
  Sequence lengths are Python integers (\<open>int\<close>), indices and the number of partitions are \<open>nat\<close>.
  Every \<open>assert\<close> and every index access of the source is a branch of the model.
\<close>

section \<open>Class Set\<close>

record kk_set =
  ks_sum :: int
  ks_items :: "(nat \<times> int) list"

definition kk_set_init :: kk_set where
  "kk_set_init = \<lparr>ks_sum = 0, ks_items = []\<rparr>"

definition kk_set_add :: "kk_set \<Rightarrow> nat \<Rightarrow> int \<Rightarrow> kk_set" where
  "kk_set_add s idx val = s\<lparr>ks_items := ks_items s @ [(idx, val)], ks_sum := ks_sum s + val\<rparr>"

definition kk_set_merge :: "kk_set \<Rightarrow> kk_set \<Rightarrow> kk_set" where
  "kk_set_merge s other = fold (\<lambda>(idx, val) s. kk_set_add s idx val) (ks_items other) s"

definition kk_set_lt :: "kk_set \<Rightarrow> kk_set \<Rightarrow> bool" where
  "kk_set_lt s other =
     (if ks_sum s \<noteq> ks_sum other then ks_sum s < ks_sum other
      else if length (ks_items s) \<noteq> length (ks_items other)
        then length (ks_items s) < length (ks_items other)
      else ks_items s < ks_items other)"

text \<open>The key that orders sets as \<open>__lt__\<close> does (lemma \<open>kk_set_lt_key\<close>).\<close>

definition kk_key :: "kk_set \<Rightarrow> int \<times> nat \<times> (nat \<times> int) list" where
  "kk_key s = (ks_sum s, length (ks_items s), ks_items s)"

section \<open>Class State\<close>

record kk_state =
  st_k :: nat
  st_sets :: "kk_set list"

definition kk_state_init :: "(nat \<times> int) list \<Rightarrow> nat \<Rightarrow> kk_state result" where
  "kk_state_init items k =
     (if length items \<noteq> 1 \<and> length items \<noteq> k then Inl AssertionError
      else rbind (rfold (\<lambda>(i, idx, seqlen) sets.
                    rbind (py_get sets i) (\<lambda>s. py_set sets i (kk_set_add s idx seqlen)))
                  (enumerate 0 items) (replicate k kk_set_init))
           (\<lambda>sets. Inr \<lparr>st_k = k, st_sets = py_sorted_rev kk_key sets\<rparr>))"

definition kk_get_partitions :: "kk_state \<Rightarrow> nat list list" where
  "kk_get_partitions st = map (\<lambda>s. map fst (ks_items s)) (st_sets st)"

definition kk_state_merge :: "kk_state \<Rightarrow> kk_state \<Rightarrow> kk_state result" where
  "kk_state_merge st other =
     rbind (rfold (\<lambda>i sets.
              rbind (py_get sets i) (\<lambda>s.
              rbind (py_get (st_sets other) (st_k st - 1 - i)) (\<lambda>t.
              py_set sets i (kk_set_merge s t))))
            [0..<st_k st] (st_sets st))
     (\<lambda>sets. Inr (st\<lparr>st_sets := py_sorted_rev kk_key sets\<rparr>))"

definition kk_spread :: "kk_state \<Rightarrow> int" where
  "kk_spread st = ks_sum (hd (st_sets st)) - ks_sum (last (st_sets st))"

text \<open>\<open>self.sets[0] > other.sets[0]\<close> is Python's reflected \<open>other.sets[0] < self.sets[0]\<close>.\<close>

definition kk_state_lt :: "kk_state \<Rightarrow> kk_state \<Rightarrow> bool" where
  "kk_state_lt st other =
     (if kk_spread st \<noteq> kk_spread other then kk_spread st > kk_spread other
      else kk_set_lt (hd (st_sets other)) (hd (st_sets st)))"

section \<open>The partitioning functions\<close>

function kk_loop :: "kk_state list \<Rightarrow> kk_state list result" where
  "kk_loop pq =
     (if 1 < length pq then
        (case heappop kk_state_lt pq of Inl e \<Rightarrow> Inl e | Inr (state0, pq1) \<Rightarrow>
        (case heappop kk_state_lt pq1 of Inl e \<Rightarrow> Inl e | Inr (state1, pq2) \<Rightarrow>
        (case kk_state_merge state0 state1 of Inl e \<Rightarrow> Inl e | Inr merged \<Rightarrow>
           kk_loop (heappush kk_state_lt pq2 merged))))
      else Inr pq)"
  by pat_completeness auto
termination
  by (relation "measure length") (auto dest!: length_heappop)

declare kk_loop.simps [simp del]

definition karmarkar_karp :: "int list \<Rightarrow> nat \<Rightarrow> bool \<Rightarrow> nat list list result" where
  "karmarkar_karp seqlen_list k_partitions equal_size =
     (let n = length seqlen_list;
          sorted_seqlen_list = sort (zip seqlen_list [0..<n]);
          push = (\<lambda>items pq. rbind (kk_state_init items k_partitions)
                   (\<lambda>st. Inr (heappush kk_state_lt pq st)));
          states_pq =
            (if equal_size then
               (if k_partitions = 0 then Inl ZeroDivisionError
                else if n mod k_partitions \<noteq> 0 then Inl AssertionError
                else rfold (\<lambda>offset pq.
                       rbind (rmap (\<lambda>i. rbind (py_get sorted_seqlen_list (offset + i))
                                         (\<lambda>(seqlen, idx). Inr (idx, seqlen))) [0..<k_partitions])
                         (\<lambda>items. push items pq))
                     (map (\<lambda>j. j * k_partitions) [0..<n div k_partitions]) [])
             else rfold (\<lambda>(seqlen, idx) pq. push [(idx, seqlen)] pq) sorted_seqlen_list [])
      in rbind states_pq (\<lambda>pq0.
         rbind (kk_loop pq0) (\<lambda>pq.
         rbind (py_get pq 0) (\<lambda>final_state.
           let partitions = kk_get_partitions final_state
           in if equal_size \<and> (\<exists>p \<in> set partitions. length p * k_partitions \<noteq> n)
              then Inl AssertionError
              else Inr partitions))))"

text \<open>The inner loop of \<open>greedy_partition\<close>: the first index with the smallest sum.\<close>

definition greedy_min_idx :: "int list \<Rightarrow> nat \<Rightarrow> nat option" where
  "greedy_min_idx sums k =
     fold (\<lambda>j m. case m of None \<Rightarrow> Some j
                | Some m' \<Rightarrow> if sums ! j < sums ! m' then Some j else Some m') [0..<k] None"

definition greedy_partition :: "int list \<Rightarrow> nat \<Rightarrow> bool \<Rightarrow> nat list list result" where
  "greedy_partition seqlen_list k_partitions equal_size =
     (let bias = (if equal_size then sum_list seqlen_list + 1 else 0);
          sorted_seqlen = zip (map (\<lambda>s. s + bias) seqlen_list) [0..<length seqlen_list]
      in rbind (rfold (\<lambda>(seqlen, i) (partitions, sums).
             case greedy_min_idx sums k_partitions of
               None \<Rightarrow> Inl TypeError
             | Some m \<Rightarrow> Inr (partitions[m := partitions ! m @ [i]], sums[m := sums ! m + seqlen]))
           sorted_seqlen (replicate k_partitions [], replicate k_partitions 0))
         (\<lambda>(partitions, sums).
            if equal_size \<and> (\<exists>p \<in> set partitions. length p * k_partitions \<noteq> length seqlen_list)
            then Inl AssertionError else Inr partitions))"

definition check_and_sort_partitions :: "nat \<Rightarrow> nat \<Rightarrow> nat list list \<Rightarrow> nat list list result" where
  "check_and_sort_partitions n k_partitions partitions =
     (if length partitions \<noteq> k_partitions then Inl AssertionError
      else if [] \<in> set partitions then Inl AssertionError
      else if set (concat partitions) \<noteq> set [0..<n] then Inl AssertionError
      else Inr (map sort partitions))"

definition get_seqlen_balanced_partitions :: "int list \<Rightarrow> nat \<Rightarrow> bool \<Rightarrow> nat list list result" where
  "get_seqlen_balanced_partitions seqlen_list k_partitions equal_size =
     (if length seqlen_list < k_partitions then Inl AssertionError
      else rbind (karmarkar_karp seqlen_list k_partitions equal_size)
             (check_and_sort_partitions (length seqlen_list) k_partitions))"

section \<open>Sets: sums, contents and order\<close>

definition kk_set_ok :: "kk_set \<Rightarrow> bool" where
  "kk_set_ok s \<longleftrightarrow> ks_sum s = sum_list (map snd (ks_items s))"

lemma kk_set_lt_key: "kk_set_lt s t \<longleftrightarrow> kk_key s < kk_key t"
  by (auto simp: kk_set_lt_def kk_key_def less_prod_def)

lemma kk_set_merge_fields:
  "ks_items (kk_set_merge s t) = ks_items s @ ks_items t"
  "kk_set_ok s \<Longrightarrow> kk_set_ok t \<Longrightarrow> kk_set_ok (kk_set_merge s t)"
  "kk_set_ok t \<Longrightarrow> ks_sum (kk_set_merge s t) = ks_sum s + ks_sum t"
proof -
  have loop: "ks_items (fold (\<lambda>(idx, val) s. kk_set_add s idx val) xs s) = ks_items s @ xs \<and>
      ks_sum (fold (\<lambda>(idx, val) s. kk_set_add s idx val) xs s) = ks_sum s + sum_list (map snd xs)"
    for xs s
    by (induction xs arbitrary: s) (auto simp: kk_set_add_def)
  show "ks_items (kk_set_merge s t) = ks_items s @ ks_items t"
    and "kk_set_ok s \<Longrightarrow> kk_set_ok t \<Longrightarrow> kk_set_ok (kk_set_merge s t)"
    and "kk_set_ok t \<Longrightarrow> ks_sum (kk_set_merge s t) = ks_sum s + ks_sum t"
    using loop [of "ks_items t" s] by (simp_all add: kk_set_merge_def kk_set_ok_def)
qed

section \<open>States: the well-formedness invariant\<close>

text \<open>
  A state has \<open>k\<close> sets in decreasing order (the comment "sets should always be decreasing order" of
  the source), each with the sum of its items.
\<close>

definition kk_wf :: "nat \<Rightarrow> kk_state \<Rightarrow> bool" where
  "kk_wf k st \<longleftrightarrow> st_k st = k \<and> length (st_sets st) = k \<and>
     sorted (rev (map kk_key (st_sets st))) \<and> (\<forall>s \<in> set (st_sets st). kk_set_ok s)"

definition kk_items :: "kk_state \<Rightarrow> (nat \<times> int) multiset" where
  "kk_items st = mset (concat (map ks_items (st_sets st)))"

definition kk_used :: "kk_state \<Rightarrow> nat" where
  "kk_used st = length (filter (\<lambda>s. ks_items s \<noteq> []) (st_sets st))"

definition kk_uniform :: "kk_state \<Rightarrow> nat \<Rightarrow> bool" where
  "kk_uniform st m \<longleftrightarrow> (\<forall>s \<in> set (st_sets st). length (ks_items s) = m)"

definition kk_nonneg :: "kk_state \<Rightarrow> bool" where
  "kk_nonneg st \<longleftrightarrow> (\<forall>(i, v) \<in># kk_items st. 0 \<le> v)"

text \<open>What a loop that replaces the elements of a list one after the other computes.\<close>

lemma rfold_update_all:
  assumes "length xs = k" and "\<And>i s. i < k \<Longrightarrow> s = xs ! i \<Longrightarrow> g i s = Inr (f i s)"
  shows "rfold (\<lambda>i ys. rbind (py_get ys i) (\<lambda>s. rbind (g i s) (py_set ys i))) [0..<k] xs
         = Inr (map (\<lambda>i. f i (xs ! i)) [0..<k])"
proof -
  have "m \<le> k \<Longrightarrow> rfold (\<lambda>i ys. rbind (py_get ys i) (\<lambda>s. rbind (g i s) (py_set ys i))) [0..<m] xs
      = Inr (map (\<lambda>i. f i (xs ! i)) [0..<m] @ drop m xs)" for m
  proof (induction m)
    case 0
    then show ?case by simp
  next
    case (Suc m)
    let ?ys = "map (\<lambda>i. f i (xs ! i)) [0..<m] @ drop m xs"
    have "?ys ! m = xs ! m" "m < length ?ys" using Suc assms(1) by (auto simp: nth_append)
    moreover have "?ys[m := f m (xs ! m)] = map (\<lambda>i. f i (xs ! i)) [0..<Suc m] @ drop (Suc m) xs"
      using Suc assms(1)
      by (simp add: list_update_append Cons_nth_drop_Suc [symmetric])
    ultimately show ?case
      using Suc assms(2) [of m "xs ! m"] by (simp add: rfold_append result_simps py_set_def)
  qed
  from this [of k] assms(1) show ?thesis by simp
qed

lemma kk_state_merge_eq:
  assumes "kk_wf k a" and "kk_wf k b"
  shows "kk_state_merge a b = Inr \<lparr>st_k = k, st_sets = py_sorted_rev kk_key
           (map (\<lambda>i. kk_set_merge (st_sets a ! i) (st_sets b ! (k - 1 - i))) [0..<k])\<rparr>"
proof -
  have "rfold (\<lambda>i sets. rbind (py_get sets i) (\<lambda>s.
              rbind (py_get (st_sets b) (k - 1 - i)) (\<lambda>t. py_set sets i (kk_set_merge s t))))
            [0..<k] (st_sets a)
      = rfold (\<lambda>i sets. rbind (py_get sets i) (\<lambda>s.
              rbind (rbind (py_get (st_sets b) (k - 1 - i)) (\<lambda>t. Inr (kk_set_merge s t))) (py_set sets i)))
            [0..<k] (st_sets a)"
    by (simp add: rbind_assoc)
  also have "\<dots> = Inr (map (\<lambda>i. kk_set_merge (st_sets a ! i) (st_sets b ! (k - 1 - i))) [0..<k])"
    using assms by (subst rfold_update_all) (auto simp: kk_wf_def result_simps)
  finally show ?thesis
    using assms by (cases a) (simp add: kk_state_merge_def kk_wf_def)
qed

lemma kk_wf_desc:
  assumes "kk_wf k st" and "i \<le> j" and "j < k"
  shows "kk_key (st_sets st ! j) \<le> kk_key (st_sets st ! i)"
  using assms sorted_rev_nth_mono [of "map kk_key (st_sets st)" i j] by (simp add: kk_wf_def)

lemma kk_key_sum: "kk_key s \<le> kk_key t \<Longrightarrow> ks_sum s \<le> ks_sum t"
  by (auto simp: kk_key_def less_eq_prod_def)

lemma kk_sums_desc:
  "kk_wf k st \<Longrightarrow> i \<le> j \<Longrightarrow> j < k \<Longrightarrow> ks_sum (st_sets st ! j) \<le> ks_sum (st_sets st ! i)"
  by (rule kk_key_sum [OF kk_wf_desc])

lemma kk_spread_nth: "kk_wf k st \<Longrightarrow> 0 < k \<Longrightarrow>
    kk_spread st = ks_sum (st_sets st ! 0) - ks_sum (st_sets st ! (k - 1))"
proof -
  assume "kk_wf k st" and "0 < k"
  then have "st_sets st \<noteq> []" "length (st_sets st) = k" by (auto simp: kk_wf_def)
  then show ?thesis by (simp add: kk_spread_def hd_conv_nth last_conv_nth)
qed

lemma kk_spread_bounds:
  assumes wf: "kk_wf k st" and "i < k" and "j < k"
  shows "ks_sum (st_sets st ! i) - ks_sum (st_sets st ! j) \<le> kk_spread st"
    and "i \<le> j \<Longrightarrow> 0 \<le> ks_sum (st_sets st ! i) - ks_sum (st_sets st ! j)"
proof -
  have "ks_sum (st_sets st ! i) \<le> ks_sum (st_sets st ! 0)"
    and "ks_sum (st_sets st ! (k - 1)) \<le> ks_sum (st_sets st ! j)"
    using kk_sums_desc [OF wf] assms by simp_all
  then show "ks_sum (st_sets st ! i) - ks_sum (st_sets st ! j) \<le> kk_spread st"
    using kk_spread_nth [OF wf] assms by simp
  show "i \<le> j \<Longrightarrow> 0 \<le> ks_sum (st_sets st ! i) - ks_sum (st_sets st ! j)"
    using kk_sums_desc [OF wf] assms by simp
qed

lemma kk_used_prefix:
  assumes wf: "kk_wf k st" and nn: "kk_nonneg st"
  shows "{i. i < k \<and> ks_items (st_sets st ! i) \<noteq> []} = {..<kk_used st}"
proof -
  let ?U = "{i. i < k \<and> ks_items (st_sets st ! i) \<noteq> []}"
  have len: "length (st_sets st) = k" using wf by (simp add: kk_wf_def)
  have closed: "i \<in> ?U" if "j \<in> ?U" "i \<le> j" for i j
  proof -
    have ij: "i < k" "j < k" using that by auto
    let ?s = "st_sets st ! i" and ?t = "st_sets st ! j"
    have mem: "?s \<in> set (st_sets st)" "?t \<in> set (st_sets st)" using ij len by auto
    have "\<forall>v \<in> set (map snd (ks_items ?t)). 0 \<le> v"
      using nn mem unfolding kk_nonneg_def kk_items_def by fastforce
    then have "0 \<le> sum_list (map snd (ks_items ?t))" by (intro sum_list_nonneg) auto
    then have "0 \<le> ks_sum ?t" using wf mem by (simp add: kk_wf_def kk_set_ok_def)
    moreover have "kk_key ?t \<le> kk_key ?s" using wf that(2) ij by (intro kk_wf_desc)
    moreover have "ks_items ?s = [] \<Longrightarrow> ks_sum ?s = 0" using wf mem by (simp add: kk_wf_def kk_set_ok_def)
    ultimately show ?thesis using that ij by (auto simp: kk_key_def less_eq_prod_def less_prod_def)
  qed
  have "?U = {..<card ?U}"
    by (rule downward_closed_card) (simp, rule closed)
  moreover have "card ?U = kk_used st" by (simp add: kk_used_def length_filter_conv_card len)
  ultimately show ?thesis by simp
qed

lemma concat_items_map2:
  "length xs = length ys \<Longrightarrow>
   mset (concat (map ks_items (map2 kk_set_merge xs ys))) =
   mset (concat (map ks_items xs)) + mset (concat (map ks_items ys))"
  by (induction xs ys rule: list_induct2) (auto simp: kk_set_merge_fields)

lemma kk_merged_map2:
  assumes "length xs = k" and "length ys = k"
  shows "map (\<lambda>i. kk_set_merge (xs ! i) (ys ! (k - 1 - i))) [0..<k] = map2 kk_set_merge xs (rev ys)"
  using assms by (intro nth_equalityI) (auto simp: rev_nth)

text \<open>One merge: it cannot raise, keeps the invariant and adds up the contents.\<close>

lemma kk_merge_step:
  assumes a: "kk_wf k a" and b: "kk_wf k b"
  obtains c where "kk_state_merge a b = Inr c" and "kk_wf k c"
    and "kk_items c = kk_items a + kk_items b"
    and "mset (st_sets c) = mset (map (\<lambda>i. kk_set_merge (st_sets a ! i) (st_sets b ! (k - 1 - i))) [0..<k])"
proof -
  let ?S = "map (\<lambda>i. kk_set_merge (st_sets a ! i) (st_sets b ! (k - 1 - i))) [0..<k]"
  let ?c = "\<lparr>st_k = k, st_sets = py_sorted_rev kk_key ?S\<rparr>"
  have len: "length (st_sets a) = k" "length (st_sets b) = k" using a b by (auto simp: kk_wf_def)
  have "\<forall>s \<in> set ?S. kk_set_ok s"
    using a b len by (auto simp: kk_wf_def intro!: kk_set_merge_fields)
  then have wf: "kk_wf k ?c"
    using sorted_rev_py_sorted_rev [of kk_key ?S] by (simp add: kk_wf_def)
  have "kk_items ?c = mset (concat (map ks_items ?S))"
    by (simp only: kk_items_def kk_state.simps)
       (intro mset_concat_eq, simp only: mset_map mset_py_sorted_rev)
  also have "\<dots> = kk_items a + kk_items b"
    using kk_merged_map2 [OF len] concat_items_map2 [of "st_sets a" "rev (st_sets b)"] len
    by (simp add: kk_items_def) (intro mset_concat_eq, simp add: rev_map [symmetric])
  finally show ?thesis
    using that [of ?c] kk_state_merge_eq [OF a b] wf by simp
qed

lemma kk_merge_set_cases:
  assumes "mset (st_sets c) = mset (map (\<lambda>i. kk_set_merge (st_sets a ! i) (st_sets b ! (k - 1 - i))) [0..<k])"
    and "s \<in> set (st_sets c)"
  obtains i where "i < k" and "s = kk_set_merge (st_sets a ! i) (st_sets b ! (k - 1 - i))"
  using assms(2) mset_eq_setD [OF assms(1)] by auto

text \<open>Merging in opposite order never widens the spread beyond the wider of the two states.\<close>

lemma kk_merge_spread:
  assumes a: "kk_wf k a" and b: "kk_wf k b" and c: "kk_wf k c" and "0 < k"
    and sets: "mset (st_sets c) = mset (map (\<lambda>i. kk_set_merge (st_sets a ! i) (st_sets b ! (k - 1 - i))) [0..<k])"
  shows "kk_spread c \<le> max (kk_spread a) (kk_spread b)"
proof -
  have len: "length (st_sets c) = k" using c by (simp add: kk_wf_def)
  obtain i where i: "i < k" "st_sets c ! 0 = kk_set_merge (st_sets a ! i) (st_sets b ! (k - 1 - i))"
    using kk_merge_set_cases [OF sets] len \<open>0 < k\<close> by (metis nth_mem)
  have last: "k - 1 < length (st_sets c)" using len \<open>0 < k\<close> by simp
  obtain j where j: "j < k" "st_sets c ! (k - 1) = kk_set_merge (st_sets a ! j) (st_sets b ! (k - 1 - j))"
    using kk_merge_set_cases [OF sets nth_mem [OF last]] by metis
  have ok: "kk_set_ok (st_sets b ! (k - 1 - i))" "kk_set_ok (st_sets b ! (k - 1 - j))"
    using b \<open>0 < k\<close> by (auto simp: kk_wf_def)
  have "kk_spread c = (ks_sum (st_sets a ! i) - ks_sum (st_sets a ! j)) +
      (ks_sum (st_sets b ! (k - 1 - i)) - ks_sum (st_sets b ! (k - 1 - j)))"
    using kk_spread_nth [OF c \<open>0 < k\<close>] i j ok by (simp add: kk_set_merge_fields)
  moreover have ij: "k - 1 - i < k" "k - 1 - j < k" using \<open>0 < k\<close> by auto
  ultimately show ?thesis
    using kk_spread_bounds [OF a i(1) j(1)] kk_spread_bounds(2) [OF a j(1) i(1)]
      kk_spread_bounds(1) [OF b ij] kk_spread_bounds(2) [OF b ij(2,1)]
    by (cases "i \<le> j") linarith+
qed

lemma kk_merge_uniform:
  assumes "kk_wf k a" and "kk_wf k b" and "kk_uniform a m" and "kk_uniform b n"
    and "mset (st_sets c) = mset (map (\<lambda>i. kk_set_merge (st_sets a ! i) (st_sets b ! (k - 1 - i))) [0..<k])"
  shows "kk_uniform c (m + n)"
  unfolding kk_uniform_def
proof
  fix s
  assume "s \<in> set (st_sets c)"
  then obtain i where "i < k" "s = kk_set_merge (st_sets a ! i) (st_sets b ! (k - 1 - i))"
    by (rule kk_merge_set_cases [OF assms(5)])
  then show "length (ks_items s) = m + n"
    using assms by (auto simp: kk_uniform_def kk_wf_def kk_set_merge_fields)
qed

text \<open>Merging fills empty sets first: no set stays empty while another holds items of both.\<close>

lemma kk_merge_used:
  assumes a: "kk_wf k a" "kk_nonneg a" and b: "kk_wf k b" "kk_nonneg b"
    and sets: "mset (st_sets c) = mset (map (\<lambda>i. kk_set_merge (st_sets a ! i) (st_sets b ! (k - 1 - i))) [0..<k])"
  shows "min k (kk_used a + kk_used b) \<le> kk_used c"
proof -
  let ?S = "map (\<lambda>i. kk_set_merge (st_sets a ! i) (st_sets b ! (k - 1 - i))) [0..<k]"
  have le: "kk_used a \<le> k" "kk_used b \<le> k"
    using a b by (auto simp: kk_used_def kk_wf_def intro: order_trans [OF length_filter_le])
  have "mset (filter (\<lambda>s. ks_items s \<noteq> []) (st_sets c)) = mset (filter (\<lambda>s. ks_items s \<noteq> []) ?S)"
    by (simp only: mset_filter sets)
  then have "kk_used c = length (filter (\<lambda>s. ks_items s \<noteq> []) ?S)"
    unfolding kk_used_def by (rule mset_eq_length)
  also have "\<dots> = card {i. i < k \<and> (ks_items (st_sets a ! i) \<noteq> [] \<or> ks_items (st_sets b ! (k - 1 - i)) \<noteq> [])}"
    by (simp only: length_filter_conv_card) (rule arg_cong [where f = card], auto simp: kk_set_merge_fields)
  also have "\<dots> \<ge> card ({..<kk_used a} \<union> {k - kk_used b..<k})"
  proof (rule card_mono, simp, rule subsetI)
    fix i
    assume i: "i \<in> {..<kk_used a} \<union> {k - kk_used b..<k}"
    then have "i < k" using le by auto
    have "ks_items (st_sets a ! i) \<noteq> []" if "i < kk_used a"
      using kk_used_prefix [OF a] that by blast
    moreover have "ks_items (st_sets b ! (k - 1 - i)) \<noteq> []" if "k - kk_used b \<le> i"
    proof -
      have "k - 1 - i \<in> {..<kk_used b}" using that \<open>i < k\<close> by auto
      then show ?thesis using kk_used_prefix [OF b] by blast
    qed
    ultimately show "i \<in> {i. i < k \<and> (ks_items (st_sets a ! i) \<noteq> [] \<or> ks_items (st_sets b ! (k - 1 - i)) \<noteq> [])}"
      using i \<open>i < k\<close> by auto
  qed
  moreover have "min k (kk_used a + kk_used b) \<le> card ({..<kk_used a} \<union> {k - kk_used b..<k})"
  proof (cases "kk_used a + kk_used b \<le> k")
    case True
    then have "{..<kk_used a} \<inter> {k - kk_used b..<k} = {}" by auto
    then show ?thesis using True le by (simp add: card_Un_disjoint)
  next
    case False
    then have "{..<k} \<subseteq> {..<kk_used a} \<union> {k - kk_used b..<k}" by auto
    then have "card {..<k} \<le> card ({..<kk_used a} \<union> {k - kk_used b..<k})" by (intro card_mono) auto
    then show ?thesis using False by simp
  qed
  ultimately show ?thesis by linarith
qed

section \<open>The loop\<close>

interpretation kkq: heap_order kk_state_lt
proof
  show "\<not> kk_state_lt b a" if "kk_state_lt a b" for a b
    using that by (auto simp: kk_state_lt_def kk_set_lt_key split: if_splits)
  show "\<not> kk_state_lt a c" if "\<not> kk_state_lt a b" "\<not> kk_state_lt b c" for a b c
    using that by (auto simp: kk_state_lt_def kk_set_lt_key split: if_splits)
qed

text \<open>
  The loop rule: a property of the bag of states that survives replacing any two states by their
  merge holds of the single state that is left.
\<close>

lemma kk_loop_rule:
  assumes step: "\<And>a b M. Q (add_mset a (add_mset b M)) \<Longrightarrow>
      \<exists>c. kk_state_merge a b = Inr c \<and> Q (add_mset c M)"
    and "Q (mset pq)" and "pq \<noteq> []"
  shows "\<exists>st. kk_loop pq = Inr [st] \<and> Q {#st#}"
  using assms(2,3)
proof (induction "length pq" arbitrary: pq rule: less_induct)
  case less
  show ?case
  proof (cases "1 < length pq")
    case False
    with less.prems obtain st where "pq = [st]" by (cases pq) auto
    with less.prems show ?thesis by (simp add: kk_loop.simps)
  next
    case True
    obtain a q1 where a: "heappop kk_state_lt pq = Inr (a, q1)" "length pq = Suc (length q1)"
      using heappop_total [OF less.prems(2)] by blast
    then have "q1 \<noteq> []" using True by auto
    then obtain b q2 where b: "heappop kk_state_lt q1 = Inr (b, q2)" "length q1 = Suc (length q2)"
      using heappop_total by blast
    have "mset pq = add_mset a (add_mset b (mset q2))"
      using kkq.heapq.bag_pop a(1) b(1) by metis
    then obtain c where c: "kk_state_merge a b = Inr c" "Q (add_mset c (mset q2))"
      using step less.prems by metis
    let ?pq = "heappush kk_state_lt q2 c"
    have "\<exists>st. kk_loop ?pq = Inr [st] \<and> Q {#st#}"
      using a b c by (intro less.hyps) (auto simp: mset_heappush simp flip: length_greater_0_conv)
    then show ?thesis
      using a b c True by (simp add: kk_loop.simps [of pq])
  qed
qed

section \<open>Initial states\<close>

definition kk_start :: "nat \<Rightarrow> (nat \<times> int) list \<Rightarrow> kk_state" where
  "kk_start k items = \<lparr>st_k = k, st_sets = py_sorted_rev kk_key
     (map (\<lambda>(i, v). kk_set_add kk_set_init i v) items @ replicate (k - length items) kk_set_init)\<rparr>"

lemma kk_fill_loop:
  "rfold (\<lambda>(i, idx, seqlen) sets.
       rbind (py_get sets i) (\<lambda>s. py_set sets i (kk_set_add s idx seqlen)))
     (enumerate (length pre) items) (pre @ replicate (length items + r) kk_set_init)
   = Inr (pre @ map (\<lambda>(i, v). kk_set_add kk_set_init i v) items @ replicate r kk_set_init)"
proof (induction items arbitrary: pre)
  case Nil
  then show ?case by simp
next
  case (Cons x xs)
  obtain i v where x: "x = (i, v)" by (cases x)
  show ?case
    using Cons.IH [of "pre @ [kk_set_add kk_set_init i v]"] x
    by (simp add: result_simps py_set_def py_get_def)
qed

lemma kk_state_init_ok:
  assumes "length items = 1 \<or> length items = k" and "0 < k"
  shows "kk_state_init items k = Inr (kk_start k items)"
proof -
  have "length items + (k - length items) = k" using assms by auto
  then show ?thesis
    using kk_fill_loop [of "[]" items "k - length items"] assms
    by (auto simp: kk_state_init_def kk_start_def)
qed

lemma kk_start_facts:
  assumes "length items \<le> k"
  shows "kk_wf k (kk_start k items)"
    and "kk_items (kk_start k items) = mset items"
    and "kk_used (kk_start k items) = length items"
    and "length items = k \<Longrightarrow> kk_uniform (kk_start k items) 1"
    and "0 < k \<Longrightarrow> \<forall>(i, v) \<in> set items. 0 \<le> v \<and> v \<le> B \<Longrightarrow> 0 \<le> B \<Longrightarrow> kk_spread (kk_start k items) \<le> B"
proof -
  let ?S = "map (\<lambda>(i, v). kk_set_add kk_set_init i v) items @ replicate (k - length items) kk_set_init"
  have sets: "set (st_sets (kk_start k items)) = set ?S"
    by (simp add: kk_start_def)
  show wf: "kk_wf k (kk_start k items)"
    using assms sorted_rev_py_sorted_rev [of kk_key ?S]
    by (auto simp: kk_wf_def kk_start_def kk_set_ok_def kk_set_add_def kk_set_init_def)
  have "concat (map ks_items (map (\<lambda>(i, v). kk_set_add kk_set_init i v) items)) = items"
    by (induction items) (auto simp: kk_set_add_def kk_set_init_def)
  moreover have "concat (map ks_items (replicate r kk_set_init)) = []" for r
    by (induction r) (auto simp: kk_set_init_def)
  ultimately have "mset (concat (map ks_items ?S)) = mset items"
    by (simp only: map_append concat_append mset_append) simp
  moreover have "mset (concat (map ks_items (py_sorted_rev kk_key ?S))) = mset (concat (map ks_items ?S))"
    by (intro mset_concat_eq) (simp only: mset_map mset_py_sorted_rev)
  ultimately show "kk_items (kk_start k items) = mset items"
    by (simp add: kk_items_def kk_start_def)
  have "mset (filter (\<lambda>s. ks_items s \<noteq> []) (py_sorted_rev kk_key ?S)) =
      mset (filter (\<lambda>s. ks_items s \<noteq> []) ?S)"
    by (simp only: mset_filter mset_py_sorted_rev)
  then have "kk_used (kk_start k items) = length (filter (\<lambda>s. ks_items s \<noteq> []) ?S)"
    unfolding kk_used_def kk_start_def by (simp only: kk_state.simps) (rule mset_eq_length)
  also have "\<dots> = length items"
    by (auto simp: filter_map comp_def kk_set_add_def kk_set_init_def split_def)
  finally show "kk_used (kk_start k items) = length items" .
  show "length items = k \<Longrightarrow> kk_uniform (kk_start k items) 1"
    using sets by (auto simp: kk_uniform_def kk_set_add_def kk_set_init_def)
  assume k: "0 < k" and vals: "\<forall>(i, v) \<in> set items. 0 \<le> v \<and> v \<le> B" and "0 \<le> B"
  have "\<forall>s \<in> set (st_sets (kk_start k items)). 0 \<le> ks_sum s \<and> ks_sum s \<le> B"
    using vals \<open>0 \<le> B\<close> unfolding sets by (auto simp: kk_set_add_def kk_set_init_def)
  moreover have "hd (st_sets (kk_start k items)) \<in> set (st_sets (kk_start k items))"
    "last (st_sets (kk_start k items)) \<in> set (st_sets (kk_start k items))"
    using wf k by (auto simp: kk_wf_def intro: hd_in_set last_in_set)
  ultimately show "kk_spread (kk_start k items) \<le> B"
    unfolding kk_spread_def by (metis diff_left_mono diff_zero order_trans)
qed

section \<open>Correctness of the partitioning\<close>

text \<open>
  The invariant of the bag of states: \<open>B\<close> bounds the sequence lengths, \<open>T\<close> is the multiset of all
  items, \<open>eq\<close> says whether the sets of each state have one size.
\<close>

definition kk_bag_inv :: "nat \<Rightarrow> bool \<Rightarrow> int \<Rightarrow> (nat \<times> int) multiset \<Rightarrow> kk_state multiset \<Rightarrow> bool" where
  "kk_bag_inv k eq B T M \<longleftrightarrow>
     (\<forall>st \<in># M. kk_wf k st \<and> (eq \<longrightarrow> (\<exists>m. kk_uniform st m))) \<and>
     sum_mset (image_mset kk_items M) = T \<and>
     ((\<forall>(i, v) \<in># T. 0 \<le> v \<and> v \<le> B) \<longrightarrow>
        (\<forall>st \<in># M. kk_spread st \<le> B) \<and> (k \<le> size T \<longrightarrow> k \<le> sum_mset (image_mset kk_used M)))"

lemma kk_bag_step:
  assumes inv: "kk_bag_inv k eq B T (add_mset a (add_mset b M))" and "0 < k"
  shows "\<exists>c. kk_state_merge a b = Inr c \<and> kk_bag_inv k eq B T (add_mset c M)"
proof -
  have a: "kk_wf k a" and b: "kk_wf k b" using inv by (auto simp: kk_bag_inv_def)
  obtain c where c: "kk_state_merge a b = Inr c" "kk_wf k c" "kk_items c = kk_items a + kk_items b"
    and sets: "mset (st_sets c) = mset (map (\<lambda>i. kk_set_merge (st_sets a ! i) (st_sets b ! (k - 1 - i))) [0..<k])"
    using kk_merge_step [OF a b] .
  have T: "T = kk_items a + (kk_items b + sum_mset (image_mset kk_items M))"
    using inv by (simp add: kk_bag_inv_def)
  have uni: "\<exists>m. kk_uniform c m" if eq
    using inv that kk_merge_uniform [OF a b _ _ sets] by (auto simp: kk_bag_inv_def)
  have sp: "kk_spread c \<le> B" and us: "k \<le> size T \<Longrightarrow> k \<le> kk_used c + sum_mset (image_mset kk_used M)"
    if vals: "\<forall>(i, v) \<in># T. 0 \<le> v \<and> v \<le> B"
  proof -
    have "kk_spread a \<le> B" "kk_spread b \<le> B" using inv vals by (auto simp: kk_bag_inv_def)
    then show "kk_spread c \<le> B" using kk_merge_spread [OF a b c(2) \<open>0 < k\<close> sets] by linarith
    assume "k \<le> size T"
    then have "k \<le> kk_used a + (kk_used b + sum_mset (image_mset kk_used M))"
      using inv vals by (simp add: kk_bag_inv_def)
    moreover have "kk_nonneg a" "kk_nonneg b" using vals T by (auto simp: kk_nonneg_def)
    ultimately show "k \<le> kk_used c + sum_mset (image_mset kk_used M)"
      using kk_merge_used [OF a _ b _ sets] by linarith
  qed
  have "kk_bag_inv k eq B T (add_mset c M)"
    using inv c(2,3) T uni sp us unfolding kk_bag_inv_def by (auto simp: add.assoc)
  with c(1) show ?thesis by blast
qed

text \<open>Both branches of \<open>karmarkar_karp\<close> push one state per group of sorted items.\<close>

lemma kk_push_all:
  assumes "0 < k" and "\<And>x. x \<in> set xs \<Longrightarrow> length (g x) = 1 \<or> length (g x) = k"
    and "\<And>x pq. x \<in> set xs \<Longrightarrow> f x pq = rbind (kk_state_init (g x) k) (\<lambda>st. Inr (heappush kk_state_lt pq st))"
  shows "\<exists>pq. rfold f xs pq0 = Inr pq \<and> mset pq = image_mset (kk_start k) (mset (map g xs)) + mset pq0"
  using assms(2,3)
proof (induction xs arbitrary: pq0)
  case Nil
  then show ?case by simp
next
  case (Cons x xs)
  then show ?case
    using Cons.IH [of "heappush kk_state_lt pq0 (kk_start k (g x))"] kk_state_init_ok [OF _ assms(1), of "g x"]
    by (simp add: mset_heappush)
qed

lemma kk_bag_start:
  assumes "0 < k" and groups: "\<And>g. g \<in> set gs \<Longrightarrow> length g = 1 \<or> length g = k"
    and "eq \<Longrightarrow> \<forall>g \<in> set gs. length g = k" and "0 \<le> B"
  shows "kk_bag_inv k eq B (mset (concat gs)) (image_mset (kk_start k) (mset gs))"
proof -
  have le: "length g \<le> k" if "g \<in> set gs" for g using groups [OF that] assms(1) by auto
  have items: "sum_mset (image_mset kk_items (image_mset (kk_start k) (mset gs))) = mset (concat gs)"
    using le by (induction gs) (auto simp: kk_start_facts)
  have used: "sum_mset (image_mset kk_used (image_mset (kk_start k) (mset gs))) = size (mset (concat gs))"
    using le by (induction gs) (auto simp: kk_start_facts)
  show ?thesis
    unfolding kk_bag_inv_def
    using assms le items used kk_start_facts(1,4) kk_start_facts(5) [where B = B]
    by (fastforce simp: image_image)
qed

definition kk_sorted :: "int list \<Rightarrow> (int \<times> nat) list" where
  "kk_sorted xs = sort (zip xs [0..<length xs])"

lemma kk_sorted_facts:
  "length (kk_sorted xs) = length xs"
  "mset (map snd (kk_sorted xs)) = mset [0..<length xs]"
  "set (map fst (kk_sorted xs)) = set xs"
  "set (kk_sorted xs) = set (zip xs [0..<length xs])"
proof -
  have "mset (map snd (kk_sorted xs)) = mset (map snd (zip xs [0..<length xs]))"
    by (simp only: kk_sorted_def mset_map mset_sort)
  also have "map snd (zip xs [0..<length xs]) = [0..<length xs]" by simp
  finally show "mset (map snd (kk_sorted xs)) = mset [0..<length xs]" .
  have "set (map fst (kk_sorted xs)) = set (map fst (zip xs [0..<length xs]))"
    by (simp only: kk_sorted_def set_map set_sort)
  also have "map fst (zip xs [0..<length xs]) = xs" by simp
  finally show "set (map fst (kk_sorted xs)) = set xs" .
qed (simp_all add: kk_sorted_def)

definition kk_groups :: "int list \<Rightarrow> nat \<Rightarrow> bool \<Rightarrow> (nat \<times> int) list list" where
  "kk_groups xs k eq =
     (if eq then map (\<lambda>j. map (\<lambda>i. prod.swap (kk_sorted xs ! (j * k + i))) [0..<k]) [0..<length xs div k]
      else map (\<lambda>(v, i). [(i, v)]) (kk_sorted xs))"

lemma kk_groups_concat:
  "(eq \<Longrightarrow> k dvd length xs) \<Longrightarrow> concat (kk_groups xs k eq) = map prod.swap (kk_sorted xs)"
proof (cases eq)
  case True
  assume "eq \<Longrightarrow> k dvd length xs"
  with True have "length xs div k * k = length (kk_sorted xs)" by (simp add: kk_sorted_facts)
  then show ?thesis
    using True concat_chunks_nth [of "length xs div k" k "kk_sorted xs" prod.swap]
    by (simp add: kk_groups_def)
next
  case False
  then show ?thesis by (simp add: kk_groups_def prod.swap_def case_prod_unfold)
qed

lemma karmarkar_karp_states:
  assumes "0 < k" and "eq \<Longrightarrow> k dvd length xs"
  shows "\<exists>pq. mset pq = image_mset (kk_start k) (mset (kk_groups xs k eq)) \<and>
     karmarkar_karp xs k eq =
       rbind (kk_loop pq) (\<lambda>pq. rbind (py_get pq 0) (\<lambda>st.
         if eq \<and> (\<exists>p \<in> set (kk_get_partitions st). length p * k \<noteq> length xs)
         then Inl AssertionError else Inr (kk_get_partitions st)))"
proof (cases eq)
  case True
  let ?f = "\<lambda>offset pq.
      rbind (rmap (\<lambda>i. rbind (py_get (kk_sorted xs) (offset + i))
                        (\<lambda>(seqlen, idx). Inr (idx, seqlen))) [0..<k])
        (\<lambda>items. rbind (kk_state_init items k) (\<lambda>st. Inr (heappush kk_state_lt pq st)))"
  let ?g = "\<lambda>offset. map (\<lambda>i. prod.swap (kk_sorted xs ! (offset + i))) [0..<k]"
  let ?offs = "map (\<lambda>j. j * k) [0..<length xs div k]"
  have div: "length xs div k * k = length xs" "length xs mod k = 0" using True assms(2) by auto
  have items: "rmap (\<lambda>i. rbind (py_get (kk_sorted xs) (offset + i)) (\<lambda>(seqlen, idx). Inr (idx, seqlen))) [0..<k]
      = Inr (?g offset)" if off: "offset \<in> set ?offs" for offset
  proof (rule rmap_pure)
    fix i
    assume "i \<in> set [0..<k]"
    obtain j where j: "offset = j * k" "j < length xs div k"
      using off unfolding set_map set_upt by fastforce
    then have "Suc j * k \<le> length xs div k * k" by (intro mult_le_mono1) simp
    then have "offset + i < length (kk_sorted xs)"
      using j \<open>i \<in> set [0..<k]\<close> div by (simp add: kk_sorted_facts)
    then show "rbind (py_get (kk_sorted xs) (offset + i)) (\<lambda>(seqlen, idx). Inr (idx, seqlen))
        = Inr (prod.swap (kk_sorted xs ! (offset + i)))"
      by (simp add: py_get_ok split: prod.split)
  qed
  have "\<exists>pq. rfold ?f ?offs [] = Inr pq \<and> mset pq = image_mset (kk_start k) (mset (map ?g ?offs)) + mset []"
    using assms(1) items by (intro kk_push_all) auto
  then show ?thesis
    using True assms(1) div by (auto simp: karmarkar_karp_def kk_groups_def kk_sorted_def Let_def comp_def)
next
  case False
  have "\<exists>pq. rfold (\<lambda>(seqlen, idx) pq. rbind (kk_state_init [(idx, seqlen)] k)
        (\<lambda>st. Inr (heappush kk_state_lt pq st))) (kk_sorted xs) [] = Inr pq \<and>
      mset pq = image_mset (kk_start k) (mset (map (\<lambda>(v, i). [(i, v)]) (kk_sorted xs))) + mset []"
    using assms(1) by (intro kk_push_all) auto
  then show ?thesis
    using False by (auto simp: karmarkar_karp_def kk_groups_def kk_sorted_def Let_def)
qed

lemma kk_partitions_items:
  "mset (concat (kk_get_partitions st)) = image_mset fst (kk_items st)"
proof -
  have "concat (kk_get_partitions st) = map fst (concat (map ks_items (st_sets st)))"
    by (simp add: kk_get_partitions_def map_concat comp_def)
  then show ?thesis by (simp only: kk_items_def mset_map)
qed

text \<open>The sum of a partition of indices.\<close>

definition partition_sum :: "int list \<Rightarrow> nat list \<Rightarrow> int" where
  "partition_sum seqlen_list p = sum_list (map (\<lambda>i. seqlen_list ! i) p)"

lemma kk_set_partition_sum:
  assumes "kk_items st = image_mset prod.swap (mset (kk_sorted xs))" and "s \<in> set (st_sets st)"
    and "kk_set_ok s"
  shows "partition_sum xs (map fst (ks_items s)) = ks_sum s"
proof -
  have "v = xs ! i" if "(i, v) \<in> set (ks_items s)" for i v
  proof -
    have "(i, v) \<in># kk_items st" using that assms(2) by (auto simp: kk_items_def)
    then have "(v, i) \<in> set (zip xs [0..<length xs])"
      unfolding assms(1) by (auto simp: kk_sorted_facts(4) [symmetric])
    then show ?thesis by (auto simp: set_zip)
  qed
  then have "map (\<lambda>i. xs ! i) (map fst (ks_items s)) = map snd (ks_items s)"
    by (auto intro!: map_cong)
  then show ?thesis using assms(3) by (simp only: partition_sum_def kk_set_ok_def)
qed

lemma karmarkar_karp_run:
  assumes "0 < k" and "xs \<noteq> []" and "eq \<Longrightarrow> k dvd length xs" and "0 \<le> B"
  shows "\<exists>st. karmarkar_karp xs k eq = Inr (kk_get_partitions st) \<and>
     kk_bag_inv k eq B (image_mset prod.swap (mset (kk_sorted xs))) {#st#}"
proof -
  let ?T = "image_mset prod.swap (mset (kk_sorted xs))"
  obtain pq where pq: "mset pq = image_mset (kk_start k) (mset (kk_groups xs k eq))"
    and run: "karmarkar_karp xs k eq =
       rbind (kk_loop pq) (\<lambda>pq. rbind (py_get pq 0) (\<lambda>st.
         if eq \<and> (\<exists>p \<in> set (kk_get_partitions st). length p * k \<noteq> length xs)
         then Inl AssertionError else Inr (kk_get_partitions st)))"
    using karmarkar_karp_states [OF assms(1), of eq xs] assms(3) by blast
  have T: "mset (concat (kk_groups xs k eq)) = ?T"
    using kk_groups_concat [of eq k xs] assms(3) by simp
  have "size ?T = length xs" by (simp add: kk_sorted_facts)
  then have ne: "kk_groups xs k eq \<noteq> []" using T assms(2) by auto
  have "kk_bag_inv k eq B (mset (concat (kk_groups xs k eq))) (mset pq)"
    unfolding pq using assms by (intro kk_bag_start) (auto simp: kk_groups_def split: if_splits)
  then have inv: "kk_bag_inv k eq B ?T (mset pq)" unfolding T .
  obtain st where st: "kk_loop pq = Inr [st]" "kk_bag_inv k eq B ?T {#st#}"
    using kk_loop_rule [where Q = "kk_bag_inv k eq B ?T", OF kk_bag_step inv] assms(1) pq ne
    by (metis image_mset_is_empty_iff mset_zero_iff)
  have "length p * k = length xs" if eq and p: "p \<in> set (kk_get_partitions st)" for p
  proof -
    have len: "length (st_sets st) = k" using st(2) by (simp add: kk_bag_inv_def kk_wf_def)
    obtain m where m: "kk_uniform st m" using st(2) \<open>eq\<close> by (auto simp: kk_bag_inv_def)
    then have "map (length \<circ> ks_items) (st_sets st) = replicate k m"
      using len by (intro nth_equalityI) (auto simp: kk_uniform_def)
    then have "size (kk_items st) = k * m"
      by (simp add: kk_items_def length_concat comp_def sum_list_replicate)
    moreover have "length p = m" using p m by (auto simp: kk_get_partitions_def kk_uniform_def)
    moreover have "kk_items st = ?T" using st(2) by (simp add: kk_bag_inv_def)
    ultimately show ?thesis using \<open>size ?T = length xs\<close> by (simp add: mult.commute)
  qed
  with st run show ?thesis by (auto simp: py_get_def)
qed

text \<open>Everything the callers rely on, in one statement.\<close>

definition kk_result :: "int list \<Rightarrow> nat \<Rightarrow> bool \<Rightarrow> int \<Rightarrow> nat list list \<Rightarrow> bool" where
  "kk_result xs k eq B ps \<longleftrightarrow> length ps = k \<and> mset (concat ps) = mset [0..<length xs] \<and>
     (eq \<longrightarrow> (\<forall>p \<in> set ps. length p * k = length xs)) \<and>
     (k \<le> length xs \<and> (\<forall>x \<in> set xs. 0 \<le> x \<and> x \<le> B) \<longrightarrow> [] \<notin> set ps \<and>
        (\<forall>p \<in> set ps. \<forall>q \<in> set ps. partition_sum xs p - partition_sum xs q \<le> B))"

lemma kk_final_balanced:
  assumes inv: "kk_bag_inv k eq B (image_mset prod.swap (mset (kk_sorted xs))) {#st#}"
    and "k \<le> length xs" and vals: "\<forall>x \<in> set xs. 0 \<le> x \<and> x \<le> B"
  shows "[] \<notin> set (kk_get_partitions st)"
    and "p \<in> set (kk_get_partitions st) \<Longrightarrow> q \<in> set (kk_get_partitions st) \<Longrightarrow>
      partition_sum xs p - partition_sum xs q \<le> B"
proof -
  let ?T = "image_mset prod.swap (mset (kk_sorted xs))"
  have "0 \<le> v \<and> v \<le> B" if "(v, i) \<in> set (kk_sorted xs)" for v i
    using that vals kk_sorted_facts(3) [of xs] by (metis fst_conv image_eqI set_map)
  then have wf: "kk_wf k st" and spread: "kk_spread st \<le> B" and used: "k \<le> kk_used st"
    and items: "kk_items st = ?T"
    using inv assms(2) by (auto simp: kk_bag_inv_def kk_sorted_facts)
  have ok: "kk_set_ok s" if "s \<in> set (st_sets st)" for s using that wf by (simp add: kk_wf_def)
  have "ks_items s \<noteq> []" if "s \<in> set (st_sets st)" for s
    using used wf that length_filter_less [of s "st_sets st" "\<lambda>s. ks_items s \<noteq> []"]
    unfolding kk_used_def kk_wf_def by fastforce
  then show "[] \<notin> set (kk_get_partitions st)"
    by (auto simp: kk_get_partitions_def)
  assume "p \<in> set (kk_get_partitions st)" "q \<in> set (kk_get_partitions st)"
  then obtain s t where "s \<in> set (st_sets st)" "t \<in> set (st_sets st)"
    and "p = map fst (ks_items s)" "q = map fst (ks_items t)"
    by (auto simp: kk_get_partitions_def)
  moreover from this obtain i j where "i < k" "j < k" "s = st_sets st ! i" "t = st_sets st ! j"
    using wf by (auto simp: kk_wf_def in_set_conv_nth)
  ultimately show "partition_sum xs p - partition_sum xs q \<le> B"
    using kk_set_partition_sum [OF items _ ok] kk_spread_bounds(1) [OF wf, of i j] spread by auto
qed

lemma karmarkar_karp_result:
  assumes "0 < k" and "xs \<noteq> []" and "eq \<Longrightarrow> k dvd length xs" and "0 \<le> B"
  shows "\<exists>ps. karmarkar_karp xs k eq = Inr ps \<and> kk_result xs k eq B ps"
proof -
  obtain st where st: "karmarkar_karp xs k eq = Inr (kk_get_partitions st)"
    and inv: "kk_bag_inv k eq B (image_mset prod.swap (mset (kk_sorted xs))) {#st#}"
    using karmarkar_karp_run [OF assms] by auto
  then have "mset (concat (kk_get_partitions st)) = mset [0..<length xs]"
    using kk_sorted_facts(2) [of xs]
    by (simp add: kk_partitions_items kk_bag_inv_def multiset.map_comp comp_def)
  moreover have "length (kk_get_partitions st) = k"
    using inv by (simp add: kk_get_partitions_def kk_bag_inv_def kk_wf_def)
  moreover have "eq \<longrightarrow> (\<forall>p \<in> set (kk_get_partitions st). length p * k = length xs)"
    using st by (auto simp: karmarkar_karp_def Let_def split: if_splits)
  ultimately show ?thesis
    using st kk_final_balanced [OF inv] unfolding kk_result_def by blast
qed

section \<open>Properties\<close>

text \<open>
  C1. Karmarkar-Karp always returns a partition. For at least one item and one partition (and a
  divisible number of items when \<open>equal_size\<close> is set) \<open>karmarkar_karp\<close> raises nothing, returns exactly
  \<open>k_partitions\<close> lists, every index occurs in exactly one of them, and with \<open>equal_size\<close> every list
  has \<open>n / k\<close> indices.
\<close>

theorem karmarkar_karp_partition:
  assumes "0 < k" and "xs \<noteq> []" and "equal_size \<Longrightarrow> k dvd length xs"
  shows "\<exists>ps. karmarkar_karp xs k equal_size = Inr ps \<and> length ps = k \<and>
     mset (concat ps) = mset [0..<length xs] \<and>
     (equal_size \<longrightarrow> (\<forall>p \<in> set ps. length p * k = length xs))"
  using karmarkar_karp_result [where B = 0 and eq = equal_size, OF assms]
  unfolding kk_result_def by blast

theorem karmarkar_karp_partition_witness:
  "\<exists>ps. karmarkar_karp [5, 3, 8, 1] 2 True = Inr ps \<and> length ps = 2 \<and>
     mset (concat ps) = mset [0..<length [5, 3, 8, 1 :: int]] \<and> (\<forall>p \<in> set ps. length p * 2 = length [5, 3, 8, 1 :: int])"
  using karmarkar_karp_partition [of 2 "[5, 3, 8, 1]" True] by auto

text \<open>
  C2. The partitions are balanced and none is empty. For non-negative sequence lengths and at least
  as many items as partitions, every partition of \<open>karmarkar_karp\<close> is non-empty and the sums of any
  two partitions differ by at most the largest sequence length \<open>B\<close>.
\<close>

theorem karmarkar_karp_balanced:
  assumes "0 < k" and "k \<le> length xs" and "equal_size \<Longrightarrow> k dvd length xs"
    and "\<forall>x \<in> set xs. 0 \<le> x \<and> x \<le> B"
  shows "\<exists>ps. karmarkar_karp xs k equal_size = Inr ps \<and> [] \<notin> set ps \<and>
     (\<forall>p \<in> set ps. \<forall>q \<in> set ps. partition_sum xs p - partition_sum xs q \<le> B)"
proof -
  have ne: "xs \<noteq> []" using assms by auto
  then have "0 \<le> B" using assms(4) by (cases xs) auto
  from karmarkar_karp_result [OF assms(1) ne assms(3) this] show ?thesis
    using assms(2,4) unfolding kk_result_def by blast
qed

theorem karmarkar_karp_balanced_witness:
  "\<exists>ps. karmarkar_karp [5, 3, 8, 1] 2 False = Inr ps \<and> [] \<notin> set ps \<and>
     (\<forall>p \<in> set ps. \<forall>q \<in> set ps. partition_sum [5, 3, 8, 1] p - partition_sum [5, 3, 8, 1] q \<le> 8)"
  using karmarkar_karp_balanced [of 2 "[5, 3, 8, 1]" False 8] by simp

section \<open>Checked and sorted partitions\<close>

lemma check_and_sort_ok:
  assumes "length ps = k" and "[] \<notin> set ps" and "mset (concat ps) = mset [0..<n]"
  shows "check_and_sort_partitions n k ps = Inr (map sort ps)"
  using assms mset_eq_setD [OF assms(3)] by (simp add: check_and_sort_partitions_def)

lemma mset_concat_map_sort: "mset (concat (map sort ps)) = mset (concat ps)"
  by (induction ps) auto

lemma balanced_partitions_result:
  assumes "0 < k" and "k \<le> length xs" and "eq \<Longrightarrow> k dvd length xs" and "\<forall>x \<in> set xs. 0 \<le> x"
  shows "\<exists>ps. get_seqlen_balanced_partitions xs k eq = Inr ps \<and> length ps = k \<and>
     [] \<notin> set ps \<and> (\<forall>p \<in> set ps. sorted p) \<and> mset (concat ps) = mset [0..<length xs] \<and>
     (eq \<longrightarrow> (\<forall>p \<in> set ps. length p * k = length xs))"
proof -
  have ne: "xs \<noteq> []" using assms by auto
  have B: "\<forall>x \<in> set xs. 0 \<le> x \<and> x \<le> Max (set xs)" "0 \<le> Max (set xs)"
    using assms(4) ne by (auto simp: Max_ge_iff) (metis hd_in_set)
  obtain ps where ps: "karmarkar_karp xs k eq = Inr ps" "kk_result xs k eq (Max (set xs)) ps"
    using karmarkar_karp_result [OF assms(1) ne assms(3) B(2)] by blast
  then have "check_and_sort_partitions (length xs) k ps = Inr (map sort ps)" and "[] \<notin> set ps"
    using B assms(2) check_and_sort_ok [of ps k "length xs"] by (auto simp: kk_result_def)
  moreover have "[] \<notin> set (map sort ps)"
    using \<open>[] \<notin> set ps\<close> by (auto dest: arg_cong [where f = length])
  ultimately show ?thesis
    using ps assms(2) mset_concat_map_sort [of ps]
    unfolding kk_result_def get_seqlen_balanced_partitions_def by (intro exI [of _ "map sort ps"]) auto
qed

text \<open>
  \<open>get_seqlen_balanced_partitions\<close> meets its contract: with non-negative lengths and
  \<open>1 \<le> k \<le> n\<close> (divisible for \<open>equal_size\<close>) none of its assertions fails, and the result is \<open>k\<close>
  non-empty sorted index lists that partition \<open>0..n-1\<close>.
\<close>

theorem get_seqlen_balanced_partitions_ok:
  assumes "0 < k" and "k \<le> length xs" and "equal_size \<Longrightarrow> k dvd length xs"
    and "\<forall>x \<in> set xs. 0 \<le> x"
  shows "\<exists>ps. get_seqlen_balanced_partitions xs k equal_size = Inr ps \<and> length ps = k \<and>
     [] \<notin> set ps \<and> (\<forall>p \<in> set ps. sorted p) \<and> mset (concat ps) = mset [0..<length xs] \<and>
     (equal_size \<longrightarrow> (\<forall>p \<in> set ps. length p * k = length xs))"
  using assms by (rule balanced_partitions_result)

theorem get_seqlen_balanced_partitions_ok_witness:
  "\<exists>ps. get_seqlen_balanced_partitions [4, 4, 1, 7] 2 True = Inr ps \<and> length ps = 2 \<and> [] \<notin> set ps"
  using get_seqlen_balanced_partitions_ok [of 2 "[4, 4, 1, 7]" True] by auto

end
