(* ===== verification/Greedy_Partition.thy ===== *)
theory Greedy_Partition
  imports Karmarkar_Karp
begin

text \<open>
  Correctness of \<open>greedy_partition\<close> (\<open>verl/utils/seqlen_balancing.py\<close>): the bias added for
  \<open>equal_size\<close> makes the smallest sum belong to a partition with the fewest items, so the final
  assertion on the sizes cannot fail.
\<close>

lemma greedy_min_idx_spec:
  assumes "0 < k"
  obtains m where "greedy_min_idx sums k = Some m" and "m < k" and "\<forall>j < k. sums ! m \<le> sums ! j"
proof -
  have "\<exists>m. greedy_min_idx sums (Suc n) = Some m \<and> m < Suc n \<and> (\<forall>j < Suc n. sums ! m \<le> sums ! j)" for n
  proof (induction n)
    case 0
    then show ?case by (simp add: greedy_min_idx_def)
  next
    case (Suc n)
    then obtain m where m: "greedy_min_idx sums (Suc n) = Some m" "m < Suc n"
      "\<forall>j < Suc n. sums ! m \<le> sums ! j"
      by blast
    have "greedy_min_idx sums (Suc (Suc n)) =
        (if sums ! Suc n < sums ! m then Some (Suc n) else Some m)"
      using m(1) by (simp add: greedy_min_idx_def)
    then show ?case using m(2,3) by (auto simp: less_Suc_eq)
  qed
  then show ?thesis using that assms by (metis Suc_pred)
qed

definition greedy_inv :: "int list \<Rightarrow> nat \<Rightarrow> int \<Rightarrow> nat \<Rightarrow> nat list list \<times> int list \<Rightarrow> bool" where
  "greedy_inv xs k bias m s \<longleftrightarrow> (case s of (ps, sums) \<Rightarrow>
     length ps = k \<and> length sums = k \<and> mset (concat ps) = mset [0..<m] \<and>
     (\<forall>j < k. sums ! j = int (length (ps ! j)) * bias + partition_sum xs (ps ! j)))"

lemma mset_concat_update_snoc:
  "m < length ps \<Longrightarrow> mset (concat (ps[m := ps ! m @ [i]])) = add_mset i (mset (concat ps))"
proof -
  assume m: "m < length ps"
  have "mset (concat (take m ps @ ps ! m # drop (Suc m) ps)) = mset (concat ps)"
    using m by (simp add: id_take_nth_drop [symmetric])
  then show ?thesis using m by (simp add: upd_conv_take_nth_drop add.assoc)
qed

lemma greedy_step:
  assumes inv: "greedy_inv xs k bias m (ps, sums)" and "j < k"
  shows "greedy_inv xs k bias (Suc m) (ps[j := ps ! j @ [m]], sums[j := sums ! j + (xs ! m + bias)])"
  using assms mset_concat_update_snoc [of j ps m]
  by (auto simp: greedy_inv_def nth_list_update partition_sum_def algebra_simps)

definition level :: "nat \<Rightarrow> nat list list \<Rightarrow> bool" where
  "level k ps \<longleftrightarrow> (\<exists>c. \<forall>j < k. length (ps ! j) = c \<or> length (ps ! j) = Suc c)"

lemma level_step:
  assumes "level k ps" and "length ps = k" and "m < k" and "\<forall>j < k. length (ps ! m) \<le> length (ps ! j)"
  shows "level k (ps[m := ps ! m @ [i]])"
proof -
  obtain c where c: "\<forall>j < k. length (ps ! j) = c \<or> length (ps ! j) = Suc c"
    using assms(1) by (auto simp: level_def)
  show ?thesis
  proof (cases "length (ps ! m) = c")
    case True
    have "length (ps[m := ps ! m @ [i]] ! j) = c \<or> length (ps[m := ps ! m @ [i]] ! j) = Suc c"
      if "j < k" for j
      using c that True assms(2) by (cases "j = m") auto
    then show ?thesis by (auto simp: level_def)
  next
    case False
    with assms c have "\<forall>j < k. length (ps ! j) = Suc c"
      by (metis Suc_n_not_le_n)
    then have "length (ps[m := ps ! m @ [i]] ! j) = Suc c \<or> length (ps[m := ps ! m @ [i]] ! j) = Suc (Suc c)"
      if "j < k" for j
      using that assms(2) by (cases "j = m") auto
    then show ?thesis by (auto simp: level_def)
  qed
qed

lemma level_exact:
  assumes "level k ps" and len: "length ps = k" and "0 < k" and total: "sum_list (map length ps) = k * m"
    and q: "q \<in> set ps"
  shows "length q = m"
proof -
  obtain c where c: "\<And>j. j < k \<Longrightarrow> length (ps ! j) = c \<or> length (ps ! j) = Suc c"
    using assms(1) by (auto simp: level_def)
  have sums: "(\<Sum>j < k. length (ps ! j)) = k * m"
    using total by (simp add: sum_list_sum_nth len atLeast0LessThan)
  obtain i where i: "i < k" "ps ! i = q" using q len by (auto simp: in_set_conv_nth)
  have lo: "(\<Sum>j < k. c) \<le> k * m" and hi: "k * m \<le> (\<Sum>j < k. Suc c)"
    unfolding sums [symmetric] by (rule sum_mono, use c in force)+
  have "k * c \<le> k * m" "k * m \<le> k * Suc c" using lo hi by simp_all
  then have "c \<le> m" "m \<le> Suc c" using assms(3) by (simp_all only: mult_le_cancel1)
  then have "m = c \<or> m = Suc c" by linarith
  moreover have "(\<Sum>j < k. c) < (\<Sum>j < k. length (ps ! j))" if "length q = Suc c"
    using c i that by (intro sum_strict_mono_ex1) force+
  moreover have "(\<Sum>j < k. length (ps ! j)) < (\<Sum>j < k. Suc c)" if "length q = c"
    using c i that by (intro sum_strict_mono_ex1) force+
  ultimately show ?thesis using c [OF i(1)] i(2) sums by auto
qed

text \<open>With the bias, comparing sums compares sizes.\<close>

lemma biased_order:
  fixes t u S :: int
  assumes "int a * (S + 1) + t \<le> int b * (S + 1) + u" and "0 \<le> t" and "u \<le> S" and "0 \<le> S"
  shows "a \<le> b"
proof (rule ccontr)
  assume "\<not> a \<le> b"
  then have "int b + 1 \<le> int a" by simp
  then have "(int b + 1) * (S + 1) \<le> int a * (S + 1)" using assms(4) by (intro mult_right_mono) auto
  then show False using assms by (simp add: algebra_simps)
qed

lemma partition_sum_bounds:
  assumes "\<forall>x \<in> set xs. 0 \<le> x" and "mset (concat ps) = mset [0..<m]" and "m \<le> length xs" and "p \<in> set ps"
  shows "0 \<le> partition_sum xs p" and "partition_sum xs p \<le> sum_list xs"
proof -
  have nn: "0 \<le> xs ! i" if "i < length xs" for i using assms(1) that by simp
  have mem: "i < length xs" if "i \<in> set (concat ps)" for i
    using that assms(3) unfolding set_mset_upt [OF assms(2)] by simp
  then have "i < length xs" if "i \<in> set p" for i using that assms(4) by auto
  then show "0 \<le> partition_sum xs p"
    unfolding partition_sum_def by (intro sum_list_nonneg) (auto intro: nn)
  obtain ys zs where ps: "ps = ys @ p # zs" using assms(4) by (meson split_list)
  have "partition_sum xs p \<le> partition_sum xs (concat ys) + partition_sum xs p + partition_sum xs (concat zs)"
    using mem ps by (simp add: partition_sum_def) (intro add_nonneg_nonneg sum_list_nonneg; auto intro: nn)
  also have "\<dots> = sum_mset (image_mset ((!) xs) (mset (concat ps)))"
    unfolding ps by (simp add: partition_sum_def sum_mset_sum_list [symmetric])
  also have "\<dots> = sum_list (map ((!) xs) [0..<m])"
    unfolding assms(2) by (metis mset_map sum_mset_sum_list)
  also have "map ((!) xs) [0..<m] = take m xs"
    using assms(3) by (intro nth_equalityI) auto
  also have "sum_list (take m xs) \<le> sum_list (take m xs) + sum_list (drop m xs)"
    using assms(1) by (simp add: sum_list_nonneg) (meson in_set_dropD sum_list_nonneg)
  also have "\<dots> = sum_list xs" by (metis append_take_drop_id sum_list_append)
  finally show "partition_sum xs p \<le> sum_list xs" .
qed

lemma greedy_loop:
  assumes "0 < k" and "m \<le> length xs"
  shows "\<exists>ps sums. rfold (\<lambda>(seqlen, i) (partitions, sums).
             case greedy_min_idx sums k of
               None \<Rightarrow> Inl TypeError
             | Some m \<Rightarrow> Inr (partitions[m := partitions ! m @ [i]], sums[m := sums ! m + seqlen]))
           (zip (map (\<lambda>s. s + bias) (take m xs)) [0..<m]) (replicate k [], replicate k 0)
         = Inr (ps, sums) \<and> greedy_inv xs k bias m (ps, sums) \<and>
           (bias = sum_list xs + 1 \<and> (\<forall>x \<in> set xs. 0 \<le> x) \<longrightarrow> level k ps)"
  using assms(2)
proof (induction m)
  case 0
  then show ?case by (simp add: greedy_inv_def partition_sum_def level_def)
next
  case (Suc m)
  then obtain ps sums where IH: "rfold (\<lambda>(seqlen, i) (partitions, sums).
             case greedy_min_idx sums k of
               None \<Rightarrow> Inl TypeError
             | Some m \<Rightarrow> Inr (partitions[m := partitions ! m @ [i]], sums[m := sums ! m + seqlen]))
           (zip (map (\<lambda>s. s + bias) (take m xs)) [0..<m]) (replicate k [], replicate k 0) = Inr (ps, sums)"
    and inv: "greedy_inv xs k bias m (ps, sums)"
    and lev: "bias = sum_list xs + 1 \<and> (\<forall>x \<in> set xs. 0 \<le> x) \<longrightarrow> level k ps"
    by (meson Suc_leD)
  obtain j where j: "greedy_min_idx sums k = Some j" "j < k" "\<forall>i < k. sums ! j \<le> sums ! i"
    using greedy_min_idx_spec [OF assms(1)] by metis
  have split: "zip (map (\<lambda>s. s + bias) (take (Suc m) xs)) [0..<Suc m] =
      zip (map (\<lambda>s. s + bias) (take m xs)) [0..<m] @ [(xs ! m + bias, m)]"
    using Suc.prems by (simp add: take_Suc_conv_app_nth)
  have "level k (ps[j := ps ! j @ [m]])" if b: "bias = sum_list xs + 1" and nn: "\<forall>x \<in> set xs. 0 \<le> x"
  proof (rule level_step)
    show "level k ps" using lev that by simp
    show "length ps = k" "j < k" using inv j by (simp_all add: greedy_inv_def)
    have "length (ps ! j) \<le> length (ps ! i)" if "i < k" for i
    proof (rule biased_order)
      show "int (length (ps ! j)) * (sum_list xs + 1) + partition_sum xs (ps ! j)
          \<le> int (length (ps ! i)) * (sum_list xs + 1) + partition_sum xs (ps ! i)"
        using inv j that b by (simp add: greedy_inv_def)
      show "0 \<le> partition_sum xs (ps ! j)" "partition_sum xs (ps ! i) \<le> sum_list xs" "0 \<le> sum_list xs"
        using partition_sum_bounds [OF nn, of ps m] inv j that Suc.prems nn
        by (auto simp: greedy_inv_def intro: sum_list_nonneg)
    qed
    then show "\<forall>i < k. length (ps ! j) \<le> length (ps ! i)" by blast
  qed
  then show ?case
    using greedy_step [OF inv j(2)] j(1) IH by (simp only: split rfold_append) (simp add: rfold_append)
qed

text \<open>
  \<open>greedy_partition\<close> returns a partition of the indices into \<open>k\<close> lists, and with \<open>equal_size\<close>,
  non-negative lengths and a divisible number of items its final size assertion never fails.
\<close>

theorem greedy_partition_ok:
  assumes "0 < k" and "equal_size \<Longrightarrow> k dvd length xs \<and> (\<forall>x \<in> set xs. 0 \<le> x)"
  shows "\<exists>ps. greedy_partition xs k equal_size = Inr ps \<and> length ps = k \<and>
     mset (concat ps) = mset [0..<length xs] \<and>
     (equal_size \<longrightarrow> (\<forall>p \<in> set ps. length p * k = length xs))"
proof -
  let ?bias = "if equal_size then sum_list xs + 1 else 0"
  obtain ps sums where run: "rfold (\<lambda>(seqlen, i) (partitions, sums).
             case greedy_min_idx sums k of
               None \<Rightarrow> Inl TypeError
             | Some m \<Rightarrow> Inr (partitions[m := partitions ! m @ [i]], sums[m := sums ! m + seqlen]))
           (zip (map (\<lambda>s. s + ?bias) xs) [0..<length xs]) (replicate k [], replicate k 0) = Inr (ps, sums)"
    and inv: "greedy_inv xs k ?bias (length xs) (ps, sums)"
    and lev: "?bias = sum_list xs + 1 \<and> (\<forall>x \<in> set xs. 0 \<le> x) \<longrightarrow> level k ps"
    using greedy_loop [OF assms(1), of "length xs" xs ?bias] by auto
  have len: "length ps = k" and ms: "mset (concat ps) = mset [0..<length xs]"
    using inv by (auto simp: greedy_inv_def)
  have sizes: "length p * k = length xs" if eq: equal_size and p: "p \<in> set ps" for p
  proof -
    obtain m where m: "length xs = k * m" using assms(2) eq by auto
    then have "sum_list (map length ps) = k * m"
      using length_mset_upt [OF ms] by (simp add: length_concat)
    moreover have "level k ps" using lev eq assms(2) by simp
    ultimately show ?thesis using level_exact [OF _ len assms(1) _ p] m by simp
  qed
  show ?thesis
    using run len ms sizes by (auto simp: greedy_partition_def Let_def)
qed

theorem greedy_partition_ok_witness:
  "\<exists>ps. greedy_partition [9, 1, 1, 1] 2 True = Inr ps \<and> length ps = 2 \<and> (\<forall>p \<in> set ps. length p * 2 = length [9, 1, 1, 1 :: int])"
  using greedy_partition_ok [of 2 True "[9, 1, 1, 1]"] by auto

end
