(* ===== verification/Micro_Batches.thy ===== *)
theory Micro_Batches
  imports Karmarkar_Karp Complex_Main
begin

text \<open>
  Dynamic micro-batching of \<open>verl/utils/seqlen_balancing.py\<close>: \<open>rearrange_micro_batches\<close>, the
  index bookkeeping that puts results back in order (\<open>get_reverse_idx\<close>, \<open>restore_dynamic_batch\<close>), the
  uid-preserving \<open>get_group_balanced_partitions\<close> and the imbalance report \<open>log_seqlen_unbalance\<close>.

  A batch is a list of samples together with its \<open>input_ids\<close>, either nested (one row per sample) or
  padded with an attention mask. The collective \<open>all_reduce(MAX)\<close> of \<open>torch.distributed\<close> is the
  parameter \<open>dp_group\<close>, a function from the local to the reduced value.
\<close>

definition calculate_workload :: "int list \<Rightarrow> int list" where
  "calculate_workload seqlen_list = map (\<lambda>s. 24576 * s + s ^ 2) seqlen_list"

definition ceildiv :: "int \<Rightarrow> int \<Rightarrow> int result" where
  "ceildiv a b = (if b = 0 then Inl ZeroDivisionError else Inr (- (a div (- b))))"

definition roundup_divisible :: "int \<Rightarrow> int \<Rightarrow> int result" where
  "roundup_divisible a b = (if b = 0 then Inl ZeroDivisionError else Inr ((a + b - 1) div b * b))"

datatype input_ids =
    Nested "int list list"
  | Padded "int list list"  \<comment> \<open>the rows of the attention mask\<close>

fun seq_len_effective :: "input_ids \<Rightarrow> int list" where
  "seq_len_effective (Nested rows) = map (\<lambda>r. int (length r)) rows"
| "seq_len_effective (Padded attn) = map sum_list attn"

text \<open>\<open>max\<close> of an empty sequence raises; the shape of an empty mask is not recorded in its rows.\<close>

fun max_seq_len :: "nat \<Rightarrow> input_ids \<Rightarrow> int result" where
  "max_seq_len width (Nested rows) =
     (if rows = [] then Inl ValueError else Inr (Max (set (map (\<lambda>r. int (length r)) rows))))"
| "max_seq_len width (Padded attn) = Inr (int width)"

definition every_other :: "nat \<Rightarrow> 'a list \<Rightarrow> 'a list" where
  \<comment> \<open>\<open>xs[start::2]\<close>\<close>
  "every_other start xs = map (\<lambda>i. xs ! i) (filter (\<lambda>i. start \<le> i \<and> even (i - start)) [0..<length xs])"

definition micro_key :: "int list \<Rightarrow> nat \<Rightarrow> nat list \<Rightarrow> int \<times> nat" where
  "micro_key workloads force_group_size part =
     (if 1 < force_group_size
      then (sum_list (map (\<lambda>i. workloads ! (part ! i div force_group_size))
              (filter (\<lambda>i. i mod force_group_size = 0) [0..<length part])),
            if part = [] then 0 else hd part)
      else (sum_list (map (\<lambda>idx. workloads ! idx) part),
            if part = [] then 0 else hd part))"

definition num_micro_batches ::
  "int list \<Rightarrow> int \<Rightarrow> nat \<Rightarrow> int option \<Rightarrow> bool \<Rightarrow> bool \<Rightarrow> (int \<Rightarrow> int) option \<Rightarrow> int option \<Rightarrow> int result" where
  "num_micro_batches seqlens max_token_len num_groups min_num_micro_batch dist_initialized
     same_micro_num_in_dp dp_group num_batches_divided_by =
     rbind (ceildiv (sum_list seqlens) max_token_len) (\<lambda>c.
       let n0 = min (int num_groups) c;
           n1 = (case min_num_micro_batch of None \<Rightarrow> n0 | Some m \<Rightarrow> max m n0);
           n2 = (case dp_group of
                   Some all_reduce_max \<Rightarrow>
                     if dist_initialized \<and> same_micro_num_in_dp then all_reduce_max n1 else n1
                 | None \<Rightarrow> n1)
       in case num_batches_divided_by of None \<Rightarrow> Inr n2 | Some d \<Rightarrow> roundup_divisible n2 d)"

definition group_workloads :: "int list \<Rightarrow> nat \<Rightarrow> nat \<Rightarrow> int list" where
  \<comment> \<open>\<open>workloads.view(num_groups, force_group_size).sum(dim=1)\<close>\<close>
  "group_workloads workloads num_groups force_group_size =
     map (\<lambda>g. sum_list (py_slice (g * force_group_size) (g * force_group_size + force_group_size) workloads))
       [0..<num_groups]"

definition expand_groups :: "nat \<Rightarrow> nat list list \<Rightarrow> nat list list" where
  "expand_groups force_group_size =
     map (\<lambda>part. concat (map (\<lambda>g. [g * force_group_size..<g * force_group_size + force_group_size]) part))"

definition micro_bsz_idx ::
  "int list \<Rightarrow> nat \<Rightarrow> nat \<Rightarrow> nat \<Rightarrow> bool \<Rightarrow> nat list list result" where
  "micro_bsz_idx seqlens num_groups n_micro force_group_size use_dynamic_bsz_balance =
     (let workloads =
            (if 1 < force_group_size
             then group_workloads (calculate_workload seqlens) num_groups force_group_size
             else calculate_workload seqlens)
      in rbind (get_seqlen_balanced_partitions workloads n_micro False) (\<lambda>parts.
           let idx = (if 1 < force_group_size then expand_groups force_group_size parts else parts)
           in Inr (if use_dynamic_bsz_balance
                   then (let srt = py_sorted_rev (micro_key workloads force_group_size) idx
                         in rev (every_other 0 srt) @ every_other 1 srt)
                   else idx)))"

definition rearrange_micro_batches ::
  "'a list \<Rightarrow> input_ids \<Rightarrow> nat \<Rightarrow> int \<Rightarrow> bool \<Rightarrow> (int \<Rightarrow> int) option \<Rightarrow> int option \<Rightarrow> bool \<Rightarrow>
   int option \<Rightarrow> bool \<Rightarrow> nat \<Rightarrow> ('a list list \<times> nat list list) result" where
  "rearrange_micro_batches batch ids width max_token_len dist_initialized dp_group
     num_batches_divided_by same_micro_num_in_dp min_num_micro_batch use_dynamic_bsz_balance
     force_group_size =
     rbind (max_seq_len width ids) (\<lambda>max_len.
       let seqlens = seq_len_effective ids; batch_size = length seqlens
       in if max_token_len < max_len then Inl AssertionError
          else if force_group_size = 0 then Inl ZeroDivisionError
          else if batch_size mod force_group_size \<noteq> 0 then Inl AssertionError
          else let num_groups = batch_size div force_group_size
            in rbind (num_micro_batches seqlens max_token_len num_groups min_num_micro_batch
                 dist_initialized same_micro_num_in_dp dp_group num_batches_divided_by) (\<lambda>n_micro.
                 if int num_groups < n_micro then Inl AssertionError
                 else rbind (micro_bsz_idx seqlens num_groups (nat n_micro) force_group_size
                               use_dynamic_bsz_balance) (\<lambda>idx.
                      Inr (map (map (\<lambda>i. batch ! i)) idx, idx))))"

definition get_reverse_idx :: "nat list \<Rightarrow> nat list result" where
  "get_reverse_idx idx_map = rfold (\<lambda>(i, idx) rev_map. py_set rev_map idx i) (enumerate 0 idx_map) idx_map"

definition restore_dynamic_batch :: "'a list \<Rightarrow> nat list list \<Rightarrow> 'a list result" where
  "restore_dynamic_batch data batch_idx_list =
     (let indices = concat batch_idx_list
      in if length indices \<noteq> length data then Inl AssertionError
         else rbind (get_reverse_idx indices) (\<lambda>revert_indices. rmap (py_get data) revert_indices))"

text \<open>The loop of \<open>get_group_balanced_partitions\<close>: contiguous runs of equal uids (\<open>None\<close> is Python's).\<close>

definition uid_step ::
  "int \<times> 'u option \<Rightarrow> nat \<times> (nat list \<times> int) list \<times> 'u option \<times> nat list \<times> int \<Rightarrow>
   nat \<times> (nat list \<times> int) list \<times> 'u option \<times> nat list \<times> int" where
  "uid_step x s = (case (x, s) of ((seqlen, uid), (i, groups, current_uid, indices, current_seqlen)) \<Rightarrow>
     if uid \<noteq> current_uid
     then (Suc i, (if indices \<noteq> [] then groups @ [(indices, current_seqlen)] else groups), uid, [i], seqlen)
     else (Suc i, groups, current_uid, indices @ [i], current_seqlen + seqlen))"

definition uid_groups :: "int list \<Rightarrow> 'u option list \<Rightarrow> (nat list \<times> int) list" where
  "uid_groups seqlen_list uid_list =
     (case fold uid_step (zip seqlen_list uid_list) (0, [], None, [], 0) of
        (i, groups, current_uid, indices, current_seqlen) \<Rightarrow>
          if indices \<noteq> [] then groups @ [(indices, current_seqlen)] else groups)"

definition get_group_balanced_partitions :: "int list \<Rightarrow> 'u option list \<Rightarrow> nat \<Rightarrow> nat list list result" where
  "get_group_balanced_partitions seqlen_list uid_list k_partitions =
     (if length seqlen_list \<noteq> length uid_list then Inl AssertionError
      else let groups = uid_groups seqlen_list uid_list
        in if length groups < k_partitions then Inl AssertionError
           else let workloads = map (\<lambda>(indices, total). sum_list (map (\<lambda>i. hd (calculate_workload [seqlen_list ! i])) indices)) groups
             in rbind (get_seqlen_balanced_partitions workloads k_partitions True) (\<lambda>parts.
                  Inr (map (\<lambda>part. sort (concat (map (\<lambda>g. fst (groups ! g)) part))) parts)))"

record seqlen_metrics =
  sm_min :: int
  sm_max :: int
  sm_minmax_diff :: int
  sm_balanced_min :: int
  sm_balanced_max :: int
  sm_mean :: real

definition log_seqlen_unbalance :: "int list \<Rightarrow> nat list list \<Rightarrow> seqlen_metrics result" where
  "log_seqlen_unbalance seqlen_list partitions =
     (let k = length partitions
      in if k = 0 then Inl ZeroDivisionError
         else let batch_size = length seqlen_list div k
           in if batch_size = 0 then Inl ValueError
              else let offsets = map (\<lambda>j. j * batch_size)
                         [0..<(length seqlen_list + batch_size - 1) div batch_size];
                       batch_sums = map (\<lambda>ofs. sum_list (py_slice ofs (ofs + batch_size) seqlen_list)) offsets
                in rbind (rmap (\<lambda>p. rbind (rmap (py_get seqlen_list) p) (\<lambda>vs. Inr (sum_list vs))) partitions)
                   (\<lambda>balanced. Inr \<lparr>sm_min = Min (set batch_sums), sm_max = Max (set batch_sums),
                      sm_minmax_diff = Max (set batch_sums) - Min (set batch_sums),
                      sm_balanced_min = Min (set balanced), sm_balanced_max = Max (set balanced),
                      sm_mean = real_of_int (sum_list batch_sums) / real k\<rparr>))"

section \<open>Reordering micro-batches\<close>

lemma mset_every_other: "mset (rev (every_other 0 xs) @ every_other 1 xs) = mset xs"
proof -
  have odd: "filter (\<lambda>i. 1 \<le> i \<and> even (i - 1)) [0..<length xs] = filter (\<lambda>i. \<not> even i) [0..<length xs]"
    by (rule filter_cong) (auto simp: Suc_le_eq intro!: gr0I)
  have "mset (rev (every_other 0 xs) @ every_other 1 xs) =
      image_mset ((!) xs) (mset (filter even [0..<length xs]) + mset (filter (\<lambda>i. \<not> even i) [0..<length xs]))"
    unfolding every_other_def odd by simp
  also have "mset (filter even [0..<length xs]) + mset (filter (\<lambda>i. \<not> even i) [0..<length xs]) = mset [0..<length xs]"
    by (metis mset_filter multiset_partition)
  also have "image_mset ((!) xs) (mset [0..<length xs]) = mset (map ((!) xs) [0..<length xs])"
    by (simp only: mset_map)
  finally show ?thesis by (simp only: map_nth)
qed

lemma expand_groups_concat:
  "concat (expand_groups n parts) = concat (map (\<lambda>g. [g * n..<g * n + n]) (concat parts))"
  by (induction parts) (auto simp: expand_groups_def)

lemma concat_blocks: "concat (map (\<lambda>g. [g * n..<g * n + n]) [0..<m]) = [0..<m * n]"
proof (induction m)
  case (Suc m)
  then show ?case using upt_add_eq_append [of 0 "m * n" n] by (simp add: add.commute)
qed simp

lemma mset_expand_groups:
  assumes "mset (concat parts) = mset [0..<m]"
  shows "mset (concat (expand_groups n parts)) = mset [0..<m * n]"
proof -
  have "mset (map (\<lambda>g. [g * n..<g * n + n]) (concat parts)) = mset (map (\<lambda>g. [g * n..<g * n + n]) [0..<m])"
    by (simp only: mset_map assms)
  then have "mset (concat (map (\<lambda>g. [g * n..<g * n + n]) (concat parts))) =
      mset (concat (map (\<lambda>g. [g * n..<g * n + n]) [0..<m]))"
    by (rule mset_concat_eq)
  then show ?thesis by (simp only: expand_groups_concat concat_blocks)
qed

text \<open>Samples of one group stay in one micro-batch.\<close>

definition keeps_groups :: "nat \<Rightarrow> nat list list \<Rightarrow> bool" where
  "keeps_groups n parts \<longleftrightarrow> (\<forall>p \<in> set parts. \<forall>i \<in> set p. \<forall>j. j div n = i div n \<longrightarrow> j \<in> set p)"

lemma keeps_groups_expand: "0 < n \<Longrightarrow> keeps_groups n (expand_groups n parts)"
  unfolding keeps_groups_def
proof (intro ballI allI impI)
  fix p i j
  assume "0 < n" and p: "p \<in> set (expand_groups n parts)" and i: "i \<in> set p" and j: "j div n = i div n"
  obtain part where part: "p = concat (map (\<lambda>g. [g * n..<g * n + n]) part)"
    using p by (auto simp: expand_groups_def)
  then obtain g where g: "g \<in> set part" "g * n \<le> i" "i < g * n + n" using i by auto
  have "i div n = g" using g by (intro div_nat_eqI) (simp_all add: mult.commute)
  then have "g * n \<le> j" "j < g * n + n"
    using j dividend_less_div_times [OF \<open>0 < n\<close>, of j] div_times_less_eq_dividend [of j n] by auto
  then show "j \<in> set p" using g(1) unfolding part by auto
qed

lemma keeps_groups_one: "keeps_groups 1 parts"
  by (simp add: keeps_groups_def)

lemma calculate_workload_nonneg: "\<forall>x \<in> set xs. 0 \<le> x \<Longrightarrow> \<forall>x \<in> set (calculate_workload xs). 0 \<le> x"
  by (auto simp: calculate_workload_def)

lemma group_workloads_nonneg:
  "\<forall>x \<in> set ws. 0 \<le> x \<Longrightarrow> \<forall>x \<in> set (group_workloads ws m n). 0 \<le> x"
  by (auto simp: group_workloads_def py_slice_def intro!: sum_list_nonneg dest!: in_set_takeD in_set_dropD)

definition good_index :: "nat \<Rightarrow> nat \<Rightarrow> nat \<Rightarrow> nat list list \<Rightarrow> bool" where
  "good_index batch_size n_micro gsize idx \<longleftrightarrow>
     length idx = n_micro \<and> [] \<notin> set idx \<and> mset (concat idx) = mset [0..<batch_size] \<and> keeps_groups gsize idx"

lemma good_index_perm:
  "mset ys = mset xs \<Longrightarrow> good_index b n g xs \<Longrightarrow> good_index b n g ys"
proof -
  assume perm: "mset ys = mset xs" and good: "good_index b n g xs"
  from perm have "mset (concat ys) = mset (concat xs)" "length ys = length xs" "set ys = set xs"
    by (rule mset_concat_eq, rule mset_eq_length, rule mset_eq_setD)
  with good show ?thesis unfolding good_index_def keeps_groups_def by simp
qed

lemma micro_bsz_idx_ok:
  assumes "0 < n" and "n \<le> m" and "0 < g" and len: "length xs = m * g" and nn: "\<forall>x \<in> set xs. 0 \<le> x"
  shows "\<exists>idx. micro_bsz_idx xs m n g bal = Inr idx \<and> good_index (length xs) n g idx"
proof -
  define ws where "ws = (if 1 < g then group_workloads (calculate_workload xs) m g else calculate_workload xs)"
  have ws: "\<forall>x \<in> set ws. 0 \<le> x" "length ws = m"
  proof -
    show "\<forall>x \<in> set ws. 0 \<le> x"
      using calculate_workload_nonneg [OF nn] group_workloads_nonneg [OF calculate_workload_nonneg [OF nn]]
      by (cases "1 < g") (simp_all add: ws_def)
    show "length ws = m"
      using assms(3) len by (cases "1 < g") (simp_all add: ws_def group_workloads_def calculate_workload_def)
  qed
  obtain ps where ps: "get_seqlen_balanced_partitions ws n False = Inr ps" "length ps = n" "[] \<notin> set ps"
    "mset (concat ps) = mset [0..<m]"
    using balanced_partitions_result [of n ws False] assms(1,2) ws by auto
  define idx where "idx = (if 1 < g then expand_groups g ps else ps)"
  have "good_index (length xs) n g idx"
  proof (cases "1 < g")
    case True
    have "[] \<notin> set (expand_groups g ps)"
      using ps(3) True by (force simp: expand_groups_def)
    then show ?thesis
      using True ps mset_expand_groups [OF ps(4), of g] keeps_groups_expand [of g ps] len
      by (auto simp: good_index_def idx_def expand_groups_def)
  next
    case False
    then have "g = 1" using assms(3) by simp
    then show ?thesis using ps len keeps_groups_one [of ps] by (simp add: good_index_def idx_def)
  qed
  moreover have "mset (rev (every_other 0 (py_sorted_rev f idx)) @ every_other 1 (py_sorted_rev f idx)) = mset idx"
    for f :: "nat list \<Rightarrow> int \<times> nat"
    by (simp only: mset_every_other mset_py_sorted_rev)
  ultimately have "good_index (length xs) n g (if bal then
      rev (every_other 0 (py_sorted_rev (micro_key ws g) idx)) @ every_other 1 (py_sorted_rev (micro_key ws g) idx) else idx)"
    using good_index_perm by (cases bal) simp_all
  then show ?thesis
    using ps(1) unfolding micro_bsz_idx_def ws_def [symmetric] Let_def
    by (simp only: rbind_simps(1) idx_def [symmetric]) blast
qed

section \<open>Putting the results back\<close>

lemma get_reverse_idx_ok:
  assumes "mset xs = mset [0..<n]"
  shows "\<exists>r. get_reverse_idx xs = Inr r \<and> length r = n \<and> (\<forall>i < n. r ! (xs ! i) = i)"
proof -
  have len: "length xs = n" and dist: "distinct xs" and mem: "\<And>i. i < n \<Longrightarrow> xs ! i < n"
    using length_mset_upt [OF assms] distinct_mset_upt [OF assms] set_mset_upt [OF assms] by (auto dest: nth_mem)
  have "m \<le> n \<Longrightarrow> \<exists>r. rfold (\<lambda>(i, idx) rev_map. py_set rev_map idx i) (enumerate 0 (take m xs)) xs = Inr r \<and>
      length r = n \<and> (\<forall>i < m. r ! (xs ! i) = i)" for m
  proof (induction m)
    case 0
    then show ?case using len by simp
  next
    case (Suc m)
    then obtain r where r: "rfold (\<lambda>(i, idx) rev_map. py_set rev_map idx i) (enumerate 0 (take m xs)) xs = Inr r"
      "length r = n" "\<forall>i < m. r ! (xs ! i) = i" by auto
    have "enumerate 0 (take (Suc m) xs) = enumerate 0 (take m xs) @ [(m, xs ! m)]"
      using Suc.prems len by (simp add: take_Suc_conv_app_nth enumerate_append_eq)
    moreover have "r[xs ! m := m] ! (xs ! i) = i" if "i < Suc m" for i
      using that r dist len Suc.prems mem by (auto simp: nth_list_update nth_eq_iff_index_eq less_Suc_eq)
    ultimately show ?case
      using r mem [of m] Suc.prems by (simp add: rfold_append py_set_def)
  qed
  from this [of n] len show ?thesis by (simp add: get_reverse_idx_def)
qed

lemma restore_ok:
  assumes perm: "mset (concat idx) = mset [0..<length xs]"
  shows "restore_dynamic_batch (map (\<lambda>i. f (xs ! i)) (concat idx)) idx = Inr (map f xs)"
proof -
  let ?c = "concat idx" and ?data = "map (\<lambda>i. f (xs ! i)) (concat idx)"
  obtain r where r: "get_reverse_idx ?c = Inr r" "length r = length xs" "\<forall>i < length xs. r ! (?c ! i) = i"
    using get_reverse_idx_ok [OF perm] by blast
  have len: "length ?c = length xs" using length_mset_upt [OF perm] .
  have get: "r ! j < length ?data \<and> ?data ! (r ! j) = f (xs ! j)" if "j < length xs" for j
  proof -
    have "j \<in> set ?c" using that set_mset_upt [OF perm] by simp
    then obtain i where "i < length xs" "?c ! i = j" using len unfolding in_set_conv_nth by auto
    then show ?thesis using r(3) len by auto
  qed
  have "rmap (py_get ?data) r = Inr (map (\<lambda>j. ?data ! j) r)"
    using get r(2) by (intro rmap_pure) (auto simp: in_set_conv_nth py_get_def)
  moreover have "map (\<lambda>j. ?data ! j) r = map f xs"
  proof (rule nth_equalityI)
    fix j
    assume "j < length (map (\<lambda>j. ?data ! j) r)"
    then have j: "j < length xs" "j < length r" using r(2) by simp_all
    then show "map (\<lambda>j. ?data ! j) r ! j = map f xs ! j" using get [of j] by (simp only: nth_map)
  qed (simp add: r(2))
  ultimately show ?thesis
    using r(1) len by (simp add: restore_dynamic_batch_def)
qed

section \<open>Groups of equal uids\<close>

definition uid_inv :: "'u option list \<Rightarrow> nat \<Rightarrow> nat \<times> (nat list \<times> int) list \<times> 'u option \<times> nat list \<times> int \<Rightarrow> bool" where
  "uid_inv us m s \<longleftrightarrow> (case s of (i, groups, uid, indices, len) \<Rightarrow>
     i = m \<and> concat (map fst groups) @ indices = [0..<m] \<and> [] \<notin> set (map fst groups) \<and>
     (0 < m \<longrightarrow> indices \<noteq> [] \<and> uid = us ! (m - 1)) \<and>
     (\<forall>j. Suc j < m \<and> us ! j = us ! Suc j \<longrightarrow>
        (\<exists>g \<in> set (map fst groups @ [indices]). j \<in> set g \<and> Suc j \<in> set g)))"

lemma uid_last_in_indices:
  "concat gs @ indices = [0..<Suc n] \<Longrightarrow> indices \<noteq> [] \<Longrightarrow> n \<in> set indices"
  by (metis last_appendR last_in_set last_snoc upt_Suc_append zero_le)

lemma uid_step_inv:
  assumes inv: "uid_inv us m s" and "m < length us"
  shows "uid_inv us (Suc m) (uid_step (v, us ! m) s)"
proof -
  obtain gs uid ind len where s: "s = (m, gs, uid, ind, len)"
    and cat: "concat (map fst gs) @ ind = [0..<m]" and ne: "[] \<notin> set (map fst gs)"
    and cur: "0 < m \<Longrightarrow> ind \<noteq> [] \<and> uid = us ! (m - 1)"
    and adj: "\<And>j. Suc j < m \<Longrightarrow> us ! j = us ! Suc j \<Longrightarrow>
        \<exists>g \<in> set (map fst gs @ [ind]). j \<in> set g \<and> Suc j \<in> set g"
    using inv by (cases s) (auto simp: uid_inv_def)
  show ?thesis
  proof (cases "us ! m = uid")
    case True
    have "\<exists>g \<in> set (map fst gs @ [ind @ [m]]). j \<in> set g \<and> Suc j \<in> set g"
      if "Suc j < Suc m" "us ! j = us ! Suc j" for j
    proof (cases "Suc j < m")
      case True
      with adj [of j] that show ?thesis by auto
    next
      case False
      then have m: "m = Suc j" using that by simp
      then have "j \<in> set ind" using cat cur uid_last_in_indices by (metis zero_less_Suc)
      then show ?thesis using m by auto
    qed
    then show ?thesis
      using True s cat ne by (auto simp: uid_inv_def uid_step_def)
  next
    case False
    have "\<exists>g \<in> set (map fst (if ind \<noteq> [] then gs @ [(ind, len)] else gs) @ [[m]]). j \<in> set g \<and> Suc j \<in> set g"
      if "Suc j < Suc m" "us ! j = us ! Suc j" for j
    proof -
      have "Suc j \<noteq> m" using that False cur by auto
      then have "Suc j < m" using that by simp
      then show ?thesis using adj [of j] that by (auto split: if_splits)
    qed
    then show ?thesis
      using False s cat ne by (auto simp: uid_inv_def uid_step_def)
  qed
qed

lemma uid_groups_facts:
  assumes "length xs = length us"
  shows "concat (map fst (uid_groups xs us)) = [0..<length us]"
    and "[] \<notin> set (map fst (uid_groups xs us))"
    and "Suc j < length us \<Longrightarrow> us ! j = us ! Suc j \<Longrightarrow>
      \<exists>g \<in> set (map fst (uid_groups xs us)). j \<in> set g \<and> Suc j \<in> set g"
proof -
  have "m \<le> length us \<Longrightarrow> uid_inv us m (fold uid_step (zip (take m xs) (take m us)) (0, [], None, [], 0))" for m
  proof (induction m)
    case 0
    then show ?case by (simp add: uid_inv_def)
  next
    case (Suc m)
    have "zip (take (Suc m) xs) (take (Suc m) us) = zip (take m xs) (take m us) @ [(xs ! m, us ! m)]"
      using Suc.prems assms by (simp add: take_Suc_conv_app_nth)
    then show ?case using Suc uid_step_inv [of us m _ "xs ! m"] by simp
  qed
  from this [of "length us"] have inv: "uid_inv us (length us) (fold uid_step (zip xs us) (0, [], None, [], 0))"
    using assms by simp
  obtain i gs uid ind len where f: "fold uid_step (zip xs us) (0, [], None, [], 0) = (i, gs, uid, ind, len)"
    by (metis prod_cases5)
  have u: "map fst (uid_groups xs us) = (if ind \<noteq> [] then map fst gs @ [ind] else map fst gs)"
    by (simp add: uid_groups_def f)
  show "concat (map fst (uid_groups xs us)) = [0..<length us]" "[] \<notin> set (map fst (uid_groups xs us))"
    using inv by (auto simp: u f uid_inv_def)
  show "\<exists>g \<in> set (map fst (uid_groups xs us)). j \<in> set g \<and> Suc j \<in> set g"
    if "Suc j < length us" "us ! j = us ! Suc j"
    using inv that unfolding u f uid_inv_def by auto
qed

section \<open>Properties\<close>

text \<open>
  C5. Dynamic micro-batching loses and duplicates nothing. When the number of micro-batches computed
  for the batch lies between one and the number of groups, \<open>rearrange_micro_batches\<close> returns that many
  non-empty micro-batches, every sample is in exactly one of them, samples of one forced group stay
  together, and \<open>restore_dynamic_batch\<close> on any per-sample result of the concatenated micro-batches
  puts the results back in the original order.
\<close>

theorem rearrange_micro_batches_roundtrip:
  assumes "max_seq_len width ids = Inr max_len" and "max_len \<le> max_token_len"
    and "0 < g" and "g dvd length (seq_len_effective ids)" and "\<forall>x \<in> set (seq_len_effective ids). 0 \<le> x"
    and "num_micro_batches (seq_len_effective ids) max_token_len (length (seq_len_effective ids) div g)
           min_num dist_init same_num dp_group divided_by = Inr n"
    and "0 < n" and "n \<le> int (length (seq_len_effective ids) div g)"
    and "length batch = length (seq_len_effective ids)"
  shows "\<exists>mbs idx. rearrange_micro_batches batch ids width max_token_len dist_init dp_group divided_by
           same_num min_num balance g = Inr (mbs, idx) \<and>
         length mbs = nat n \<and> [] \<notin> set mbs \<and> mset (concat idx) = mset [0..<length batch] \<and>
         keeps_groups g idx \<and> restore_dynamic_batch (map f (concat mbs)) idx = Inr (map f batch)"
proof -
  let ?xs = "seq_len_effective ids"
  have g: "?xs = [] \<or> length ?xs = length ?xs div g * g" using assms(4) by simp
  then have "\<exists>idx. micro_bsz_idx ?xs (length ?xs div g) (nat n) g balance = Inr idx \<and>
      good_index (length ?xs) (nat n) g idx"
    using assms(3,4,5,7,8) by (intro micro_bsz_idx_ok) auto
  then obtain idx where idx: "micro_bsz_idx ?xs (length ?xs div g) (nat n) g balance = Inr idx"
    and good: "good_index (length batch) (nat n) g idx"
    using assms(9) by auto
  let ?mbs = "map (map (\<lambda>i. batch ! i)) idx"
  have "rearrange_micro_batches batch ids width max_token_len dist_init dp_group divided_by
           same_num min_num balance g = Inr (?mbs, idx)"
    using assms(1-4,6,8) idx by (simp add: rearrange_micro_batches_def Let_def mod_eq_0_iff_dvd)
  moreover have "map f (concat ?mbs) = map (\<lambda>i. f (batch ! i)) (concat idx)"
    by (simp add: map_concat comp_def)
  moreover have "restore_dynamic_batch (map (\<lambda>i. f (batch ! i)) (concat idx)) idx = Inr (map f batch)"
    using good by (intro restore_ok) (simp only: good_index_def)
  ultimately show ?thesis
    using good unfolding good_index_def by (intro exI [of _ ?mbs] exI [of _ idx]) auto
qed

theorem rearrange_micro_batches_roundtrip_witness:
  "\<exists>mbs idx. rearrange_micro_batches [10, 20, 30 :: nat] (Nested [[1, 1], [1], [1, 1, 1]]) 0 4 False None None
      True None True 1 = Inr (mbs, idx) \<and> length mbs = 2 \<and>
      restore_dynamic_batch (map Suc (concat mbs)) idx = Inr [11, 21, 31]"
proof -
  have n: "num_micro_batches [2, 1, 3] 4 3 None False True None None = Inr 2"
    by (simp add: num_micro_batches_def ceildiv_def)
  show ?thesis
    using rearrange_micro_batches_roundtrip [of 0 "Nested [[1, 1], [1], [1, 1, 1]]" 3 4 1 None False True None None 2
        "[10, 20, 30]" True Suc] n
    by (auto simp: numeral_3_eq_3)
qed

text \<open>
  The number of micro-batches. Without data-parallel synchronisation and divisor it is at least one
  when there are tokens, at most the number of groups unless a minimum forces more, and, when it is not
  capped by the number of groups, large enough that the average micro-batch fits \<open>max_token_len\<close>.
\<close>

theorem num_micro_batches_bounds:
  assumes "0 < max_token_len" and "0 < num_groups" and "0 < sum_list seqlens"
  shows "\<exists>n. num_micro_batches seqlens max_token_len num_groups min_num di same None None = Inr n \<and> 1 \<le> n \<and>
     n \<le> max (int num_groups) (case min_num of None \<Rightarrow> 0 | Some m \<Rightarrow> m) \<and>
     (n < int num_groups \<longrightarrow> sum_list seqlens \<le> n * max_token_len)"
proof -
  let ?t = "sum_list seqlens"
  let ?c = "- (?t div (- max_token_len))"
  let ?d = "(- ?t) div max_token_len"
  have cd: "?c = - ?d" by (simp add: div_minus_right)
  have "?d * max_token_len + (- ?t) mod max_token_len = - ?t" "0 \<le> (- ?t) mod max_token_len"
    using assms(1) by simp_all
  then have "?t \<le> - (?d * max_token_len)" by linarith
  then have c: "?t \<le> ?c * max_token_len" "1 \<le> ?c"
    using cd assms(1,3) pos_imp_zdiv_neg_iff [OF assms(1), of "- ?t"] by auto
  let ?n0 = "min (int num_groups) ?c"
  let ?n = "case min_num of None \<Rightarrow> ?n0 | Some m \<Rightarrow> max m ?n0"
  have "?t \<le> ?n * max_token_len" if "?n < int num_groups"
  proof -
    have "?c \<le> ?n" using that by (auto split: option.splits)
    then have "?c * max_token_len \<le> ?n * max_token_len" using assms(1) by (intro mult_right_mono) auto
    with c show ?thesis by linarith
  qed
  moreover have "num_micro_batches seqlens max_token_len num_groups min_num di same None None = Inr ?n"
    using assms(1) by (simp add: num_micro_batches_def ceildiv_def split: option.split)
  moreover have "1 \<le> ?n" "?n \<le> max (int num_groups) (case min_num of None \<Rightarrow> 0 | Some m \<Rightarrow> m)"
    using c assms(2) by (auto split: option.splits)
  ultimately show ?thesis by blast
qed

theorem num_micro_batches_bounds_witness:
  "\<exists>n. num_micro_batches [2, 1, 3] 4 3 None False True None None = Inr n \<and> 1 \<le> n \<and> n \<le> 3 \<and>
     (n < 3 \<longrightarrow> (6::int) \<le> n * 4)"
  using num_micro_batches_bounds [of 4 3 "[2, 1, 3]" None False True] by simp

text \<open>
  \<open>max_token_len\<close> does not bound a micro-batch. The documentation of \<open>rearrange_micro_batches\<close>
  calls it the "max sum of attention_mask per micro-batch", but three sequences of six tokens with
  \<open>max_token_len = 10\<close> are split in two micro-batches, one of which has twelve tokens.
\<close>

theorem max_token_len_exceeded:
  "\<exists>idx. micro_bsz_idx [6, 6, 6] 3 2 1 True = Inr idx \<and>
     num_micro_batches [6, 6, 6] 10 3 None False True None None = Inr 2 \<and>
     (\<exists>p \<in> set idx. 10 < partition_sum [6, 6, 6] p)"
proof -
  have "micro_bsz_idx [6, 6, 6] 3 2 1 True = Inr [[0, 1], [2]]"
    by code_simp
  then show ?thesis
    by (auto simp: partition_sum_def num_micro_batches_def ceildiv_def)
qed

text \<open>
  Partitioning by uid. For non-negative lengths, if the number of runs of equal uids is a positive
  multiple of \<open>k\<close>, \<open>get_group_balanced_partitions\<close> returns \<open>k\<close> sorted lists that partition the
  samples, and neighbouring samples with the same uid are never separated.
\<close>

theorem get_group_balanced_partitions_ok:
  assumes "length xs = length us" and "0 < k" and "k \<le> length (uid_groups xs us)"
    and "k dvd length (uid_groups xs us)" and "\<forall>x \<in> set xs. 0 \<le> x"
  shows "\<exists>ps. get_group_balanced_partitions xs us k = Inr ps \<and> length ps = k \<and> (\<forall>p \<in> set ps. sorted p) \<and>
     mset (concat ps) = mset [0..<length xs] \<and>
     (\<forall>j. Suc j < length xs \<and> us ! j = us ! Suc j \<longrightarrow> (\<exists>p \<in> set ps. j \<in> set p \<and> Suc j \<in> set p))"
proof -
  let ?gs = "uid_groups xs us"
  define ws where "ws = map (\<lambda>(indices, total). sum_list (map (\<lambda>i. hd (calculate_workload [xs ! i])) indices)) ?gs"
  note facts = uid_groups_facts [OF assms(1)]
  have mem: "i < length xs" if "g \<in> set ?gs" "i \<in> set (fst g)" for g i
  proof -
    have "i \<in> set (concat (map fst ?gs))" using that by auto
    then show ?thesis unfolding facts(1) using assms(1) by simp
  qed
  have "\<forall>w \<in> set ws. 0 \<le> w"
    using mem assms(5) by (fastforce simp: ws_def calculate_workload_def intro!: sum_list_nonneg)
  then obtain ps where ps: "get_seqlen_balanced_partitions ws k True = Inr ps" "length ps = k"
    "mset (concat ps) = mset [0..<length ?gs]"
    using balanced_partitions_result [of k ws True] assms(2-4) by (auto simp: ws_def)
  let ?f = "\<lambda>part. concat (map (\<lambda>g. fst (?gs ! g)) part)"
  have run: "get_group_balanced_partitions xs us k = Inr (map (\<lambda>part. sort (?f part)) ps)"
    using ps(1) assms(1,3) by (simp add: get_group_balanced_partitions_def ws_def Let_def)
  have "mset (concat (map (\<lambda>part. sort (?f part)) ps)) = mset (concat (map ?f ps))"
    using mset_concat_map_sort [of "map ?f ps"] by (simp add: comp_def)
  also have "\<dots> = mset (concat (map (\<lambda>g. fst (?gs ! g)) (concat ps)))"
    by (induction ps) auto
  also have "\<dots> = mset (concat (map (\<lambda>g. fst (?gs ! g)) [0..<length ?gs]))"
    by (rule mset_concat_eq) (simp only: mset_map ps(3))
  also have "map (\<lambda>g. fst (?gs ! g)) [0..<length ?gs] = map fst ?gs"
    by (intro nth_equalityI) auto
  finally have ms: "mset (concat (map (\<lambda>part. sort (?f part)) ps)) = mset [0..<length xs]"
    by (simp only: facts(1) assms(1))
  have "\<exists>p \<in> set (map (\<lambda>part. sort (?f part)) ps). j \<in> set p \<and> Suc j \<in> set p"
    if adj: "Suc j < length xs" "us ! j = us ! Suc j" for j
  proof -
    obtain h where h: "h < length ?gs" "j \<in> set (fst (?gs ! h))" "Suc j \<in> set (fst (?gs ! h))"
      using facts(3) [of j] adj assms(1) by (fastforce simp: in_set_conv_nth)
    then have "h \<in> set (concat ps)" using set_mset_upt [OF ps(3)] by simp
    then obtain part where "part \<in> set ps" "h \<in> set part" by auto
    then show ?thesis using h(2,3) by auto
  qed
  then show ?thesis using run ms ps(2) by auto
qed

theorem get_group_balanced_partitions_ok_witness:
  "\<exists>ps. get_group_balanced_partitions [3, 1, 2, 2] [Some ''a'', Some ''a'', Some ''b'', None] 1 = Inr ps \<and>
     length ps = 1"
proof -
  have g: "length (uid_groups [3, 1, 2, 2] [Some ''a'', Some ''a'', Some ''b'', None]) = 3"
    by (simp add: uid_groups_def uid_step_def)
  show ?thesis
    using get_group_balanced_partitions_ok [of "[3, 1, 2, 2]" "[Some ''a'', Some ''a'', Some ''b'', None]" 1] g
    by auto
qed

end
