(* ===== verification/Free_Block_Queue.thy ===== *)
theory Free_Block_Queue
  imports Prelude
begin

text \<open>
  \<open>KVCacheBlock\<close> and \<open>FreeKVCacheBlockQueue\<close> of \<open>vllm/v1/core/kv_cache_utils.py\<close>.

  A \<open>KVCacheBlock\<close> object is identified with its \<open>block_id\<close>, its index in the pool's list of blocks:
  the ids are distinct, so the dataclass comparison \<open>block == other\<close> is equality of ids. The links
  \<open>prev_free_block\<close> and \<open>next_free_block\<close> are ids, and the operations mutate the block store as the
  source mutates the objects.

  \<open>dll q xs\<close> says that the pointer structure \<open>q\<close> represents the list \<open>xs\<close> of free blocks; the locale
  \<open>block_queue\<close> states the queue contract over that list and is interpreted on the pointer operations.
\<close>

section \<open>Blocks and the queue\<close>

record 'h kv_cache_block =
  ref_cnt :: int
  blk_hash :: "'h option"
  prev_free_block :: "nat option"
  next_free_block :: "nat option"

record 'h free_queue =
  q_blocks :: "'h kv_cache_block list"
  num_free_blocks :: int
  free_list_head :: "nat option"
  free_list_tail :: "nat option"

definition new_block :: "'h kv_cache_block" where
  "new_block = \<lparr>ref_cnt = 0, blk_hash = None, prev_free_block = None, next_free_block = None\<rparr>"

definition incr_ref :: "'h kv_cache_block \<Rightarrow> 'h kv_cache_block" where
  "incr_ref b = b\<lparr>ref_cnt := ref_cnt b + 1\<rparr>"

definition decr_ref :: "'h kv_cache_block \<Rightarrow> 'h kv_cache_block" where
  "decr_ref b = b\<lparr>ref_cnt := ref_cnt b - 1\<rparr>"

definition set_block_hash :: "'h kv_cache_block \<Rightarrow> 'h \<Rightarrow> 'h kv_cache_block result" where
  "set_block_hash b h = (if blk_hash b \<noteq> None then Inl AssertionError else Inr (b\<lparr>blk_hash := Some h\<rparr>))"

definition reset_hash :: "'h kv_cache_block \<Rightarrow> 'h kv_cache_block" where
  "reset_hash b = b\<lparr>blk_hash := None\<rparr>"

text \<open>Assignment to fields of the block object with a given id.\<close>

definition upd_block :: "nat \<Rightarrow> ('h kv_cache_block \<Rightarrow> 'h kv_cache_block) \<Rightarrow> 'h free_queue \<Rightarrow> 'h free_queue" where
  "upd_block i f q = q\<lparr>q_blocks := (q_blocks q)[i := f (q_blocks q ! i)]\<rparr>"

abbreviation blk :: "'h free_queue \<Rightarrow> nat \<Rightarrow> 'h kv_cache_block" where
  "blk q i \<equiv> q_blocks q ! i"

definition queue_init :: "'h kv_cache_block list \<Rightarrow> 'h free_queue result" where
  "queue_init blocks =
     (if blocks = [] then Inl IndexError
      else let n = length blocks
        in Inr \<lparr>q_blocks = map (\<lambda>(i, b).
                    let b1 = (if 0 < i then b\<lparr>prev_free_block := Some (i - 1)\<rparr> else b)
                    in if i < n - 1 then b1\<lparr>next_free_block := Some (i + 1)\<rparr> else b1) (enumerate 0 blocks),
                num_free_blocks = int n,
                free_list_head = Some 0, free_list_tail = Some (n - 1)\<rparr>)"

definition queue_remove :: "nat \<Rightarrow> 'h free_queue \<Rightarrow> 'h free_queue" where
  "queue_remove b q =
     (let q1 = (case prev_free_block (blk q b) of None \<Rightarrow> q
                | Some p \<Rightarrow> upd_block p (\<lambda>x. x\<lparr>next_free_block := next_free_block (blk q b)\<rparr>) q);
          q2 = (case next_free_block (blk q1 b) of None \<Rightarrow> q1
                | Some n \<Rightarrow> upd_block n (\<lambda>x. x\<lparr>prev_free_block := prev_free_block (blk q1 b)\<rparr>) q1);
          q3 = (if free_list_head q2 = Some b then q2\<lparr>free_list_head := next_free_block (blk q2 b)\<rparr> else q2);
          q4 = (if free_list_tail q3 = Some b then q3\<lparr>free_list_tail := prev_free_block (blk q3 b)\<rparr> else q3)
      in upd_block b (\<lambda>x. x\<lparr>prev_free_block := None, next_free_block := None\<rparr>)
           (q4\<lparr>num_free_blocks := num_free_blocks q4 - 1\<rparr>))"

definition popleft :: "'h free_queue \<Rightarrow> (nat \<times> 'h free_queue) result" where
  "popleft q = (case free_list_head q of None \<Rightarrow> Inl ValueError
                | Some b \<Rightarrow> Inr (b, queue_remove b q))"

definition queue_append :: "nat \<Rightarrow> 'h free_queue \<Rightarrow> 'h free_queue result" where
  "queue_append b q =
     rbind (case free_list_tail q of
              Some t \<Rightarrow> Inr ((upd_block b (\<lambda>x. x\<lparr>prev_free_block := Some t\<rparr>)
                             (upd_block t (\<lambda>x. x\<lparr>next_free_block := Some b\<rparr>) q))\<lparr>free_list_tail := Some b\<rparr>)
            | None \<Rightarrow> if free_list_head q \<noteq> None then Inl AssertionError
                      else Inr (q\<lparr>free_list_head := Some b, free_list_tail := Some b\<rparr>))
       (\<lambda>q'. Inr (upd_block b (\<lambda>x. x\<lparr>next_free_block := None\<rparr>)
                  (q'\<lparr>num_free_blocks := num_free_blocks q' + 1\<rparr>)))"

text \<open>The walk of \<open>get_all_free_blocks\<close> follows \<open>next\<close> links; \<open>None\<close> would be a walk that never ends.\<close>

partial_function (option) walk_free :: "'h free_queue \<Rightarrow> nat option \<Rightarrow> nat list \<Rightarrow> nat list option" where
  "walk_free q cur ret =
     (case cur of None \<Rightarrow> Some ret
      | Some b \<Rightarrow> walk_free q (next_free_block (blk q b)) (ret @ [b]))"

definition get_all_free_blocks :: "'h free_queue \<Rightarrow> nat list option" where
  "get_all_free_blocks q = walk_free q (free_list_head q) []"

section \<open>Doubly linked segments\<close>

definition first_or :: "nat list \<Rightarrow> nat option \<Rightarrow> nat option" where
  "first_or xs n = (case xs of [] \<Rightarrow> n | y # _ \<Rightarrow> Some y)"

definition last_or :: "nat list \<Rightarrow> nat option \<Rightarrow> nat option" where
  "last_or xs p = (if xs = [] then p else Some (last xs))"

fun dseg :: "(nat \<Rightarrow> nat option) \<Rightarrow> (nat \<Rightarrow> nat option) \<Rightarrow> nat option \<Rightarrow> nat list \<Rightarrow> nat option \<Rightarrow> bool" where
  "dseg pv nx p [] n = True"
| "dseg pv nx p (x # xs) n \<longleftrightarrow> pv x = p \<and> nx x = first_or xs n \<and> dseg pv nx (Some x) xs n"

lemma or_simps [simp]:
  "first_or [] n = n" "first_or (x # xs) n = Some x"
  "last_or [] p = p" "last_or (x # xs) p = last_or xs (Some x)" "last_or (xs @ [x]) p = Some x"
  "first_or (xs @ ys) n = first_or xs (first_or ys n)"
  by (auto simp: first_or_def last_or_def split: list.splits)

lemma dseg_append:
  "dseg pv nx p (xs @ ys) n \<longleftrightarrow> dseg pv nx p xs (first_or ys n) \<and> dseg pv nx (last_or xs p) ys n"
  by (induction xs arbitrary: p) auto

lemma dseg_frame:
  "(\<And>x. x \<in> set xs \<Longrightarrow> pv' x = pv x \<and> nx' x = nx x) \<Longrightarrow> dseg pv' nx' p xs n = dseg pv nx p xs n"
  by (induction xs arbitrary: p) auto

lemma dseg_relink_next:
  "dseg pv nx p (xs @ [x]) n \<Longrightarrow> x \<notin> set xs \<Longrightarrow> dseg pv (nx(x := n')) p (xs @ [x]) n'"
  by (subst (asm) dseg_append, subst dseg_append) (auto intro: dseg_frame [THEN iffD2, of _ pv pv "nx(x := n')" nx])

lemma dseg_relink_prev:
  "dseg pv nx p (x # xs) n \<Longrightarrow> x \<notin> set xs \<Longrightarrow> dseg (pv(x := p')) nx p' (x # xs) n"
  by (auto intro: dseg_frame [THEN iffD2, of _ "pv(x := p')" pv nx nx])

section \<open>The representation relation\<close>

abbreviation pvf :: "'h free_queue \<Rightarrow> nat \<Rightarrow> nat option" where
  "pvf q \<equiv> \<lambda>i. prev_free_block (blk q i)"

abbreviation nxf :: "'h free_queue \<Rightarrow> nat \<Rightarrow> nat option" where
  "nxf q \<equiv> \<lambda>i. next_free_block (blk q i)"

definition dll :: "'h free_queue \<Rightarrow> nat list \<Rightarrow> bool" where
  "dll q xs \<longleftrightarrow> distinct xs \<and> set xs \<subseteq> {..<length (q_blocks q)} \<and>
     dseg (pvf q) (nxf q) None xs None \<and>
     free_list_head q = first_or xs None \<and> free_list_tail q = last_or xs None \<and>
     num_free_blocks q = int (length xs) \<and>
     (\<forall>b. b < length (q_blocks q) \<and> b \<notin> set xs \<longrightarrow> pvf q b = None \<and> nxf q b = None)"

lemma dll_unique: "dll q xs \<Longrightarrow> dll q ys \<Longrightarrow> xs = ys"
proof -
  have "dseg pv nx p xs None \<Longrightarrow> dseg pv nx p' ys None \<Longrightarrow> first_or xs None = first_or ys None \<Longrightarrow> xs = ys"
    for pv nx p p'
  proof (induction xs arbitrary: ys p p')
    case Nil
    then show ?case by (cases ys) auto
  next
    case (Cons x xs)
    then obtain ys' where "ys = x # ys'" by (cases ys) auto
    with Cons show ?case by auto
  qed
  then show "dll q xs \<Longrightarrow> dll q ys \<Longrightarrow> xs = ys" by (metis dll_def)
qed

text \<open>Updating fields other than the links changes neither the links nor the list.\<close>

definition keeps_links :: "('h kv_cache_block \<Rightarrow> 'h kv_cache_block) \<Rightarrow> bool" where
  "keeps_links f \<longleftrightarrow> (\<forall>b. prev_free_block (f b) = prev_free_block b \<and> next_free_block (f b) = next_free_block b)"

lemma keeps_links_intros [intro, simp]:
  "keeps_links incr_ref" "keeps_links decr_ref" "keeps_links reset_hash"
  "keeps_links (\<lambda>b. b\<lparr>blk_hash := h\<rparr>)"
  by (simp_all add: keeps_links_def incr_ref_def decr_ref_def reset_hash_def)

lemma nth_beyond: "length xs = length ys \<Longrightarrow> length xs \<le> j \<Longrightarrow> xs ! j = ys ! j"
proof (induction xs ys arbitrary: j rule: list_induct2)
  case (Cons x xs y ys)
  then show ?case by (cases j) auto
qed simp

lemma blk_upd_block: "blk (upd_block i f q) j = (if i = j \<and> i < length (q_blocks q) then f (blk q j) else blk q j)"
  by (cases "j < length (q_blocks q)")
     (auto simp: upd_block_def nth_list_update intro: nth_beyond)

lemma upd_block_fields [simp]:
  "length (q_blocks (upd_block i f q)) = length (q_blocks q)"
  "num_free_blocks (upd_block i f q) = num_free_blocks q"
  "free_list_head (upd_block i f q) = free_list_head q"
  "free_list_tail (upd_block i f q) = free_list_tail q"
  by (simp_all add: upd_block_def)

lemma dll_upd_data: "keeps_links f \<Longrightarrow> dll (upd_block i f q) xs = dll q xs"
proof -
  assume f: "keeps_links f"
  then have "pvf (upd_block i f q) = pvf q" "nxf (upd_block i f q) = nxf q"
    by (auto simp: blk_upd_block keeps_links_def fun_eq_iff)
  then show ?thesis unfolding dll_def by (simp add: fun_eq_iff)
qed

section \<open>Removal, pop and append\<close>

lemma queue_remove_fields [simp]:
  "length (q_blocks (queue_remove b q)) = length (q_blocks q)"
  "num_free_blocks (queue_remove b q) = num_free_blocks q - 1"
  by (simp_all add: queue_remove_def Let_def split: option.splits)

lemma queue_remove_data:
  "ref_cnt (blk (queue_remove b q) i) = ref_cnt (blk q i)"
  "blk_hash (blk (queue_remove b q) i) = blk_hash (blk q i)"
  by (simp_all add: queue_remove_def Let_def blk_upd_block split: option.splits)

lemma queue_remove_links:
  assumes "b < length (q_blocks q)" "pvf q b \<noteq> Some b" "nxf q b \<noteq> Some b"
    "\<forall>p. pvf q b = Some p \<longrightarrow> p < length (q_blocks q)" "\<forall>n. nxf q b = Some n \<longrightarrow> n < length (q_blocks q)"
  shows "pvf (queue_remove b q) i = (if i = b then None else if nxf q b = Some i then pvf q b else pvf q i)"
    "nxf (queue_remove b q) i = (if i = b then None else if pvf q b = Some i then nxf q b else nxf q i)"
    "free_list_head (queue_remove b q) = (if free_list_head q = Some b then nxf q b else free_list_head q)"
    "free_list_tail (queue_remove b q) = (if free_list_tail q = Some b then pvf q b else free_list_tail q)"
  using assms by (auto simp: queue_remove_def Let_def blk_upd_block split: option.splits)

lemma last_or_in_set: "last_or xs None = Some p \<Longrightarrow> p \<in> set xs"
  by (auto simp: last_or_def split: if_splits)

lemma first_or_in_set: "first_or xs None = Some p \<Longrightarrow> p \<in> set xs"
  by (auto simp: first_or_def split: list.splits)

lemma last_or_append: "last_or (xs @ ys) p = last_or ys (last_or xs p)"
  by (simp add: last_or_def)

lemma dll_remove_mid:
  assumes "dll q (as @ b # cs)"
  shows "dll (queue_remove b q) (as @ cs)"
proof -
  let ?q = "queue_remove b q"
  note d = assms [unfolded dll_def]
  have b: "b < length (q_blocks q)" "b \<notin> set as" "b \<notin> set cs" and dis: "distinct (as @ cs)" "set as \<inter> set cs = {}"
    using d by auto
  have seg: "dseg (pvf q) (nxf q) None as (Some b)" "dseg (pvf q) (nxf q) (Some b) cs None"
    and pb: "pvf q b = last_or as None" and nb: "nxf q b = first_or cs None"
    using d by (simp_all add: dseg_append)
  have ne: "pvf q b \<noteq> Some b" "nxf q b \<noteq> Some b"
    using b pb nb last_or_in_set first_or_in_set by metis+
  have lens: "\<forall>p. pvf q b = Some p \<longrightarrow> p < length (q_blocks q)" "\<forall>n. nxf q b = Some n \<longrightarrow> n < length (q_blocks q)"
  proof -
    have "set as \<subseteq> {..<length (q_blocks q)}" "set cs \<subseteq> {..<length (q_blocks q)}" using d by auto
    then show "\<forall>p. pvf q b = Some p \<longrightarrow> p < length (q_blocks q)" "\<forall>n. nxf q b = Some n \<longrightarrow> n < length (q_blocks q)"
      unfolding pb nb using last_or_in_set [of as] first_or_in_set [of cs] by auto
  qed
  note links = queue_remove_links [OF b(1) ne lens]
  have s1: "dseg (pvf ?q) (nxf ?q) None as (first_or cs None)"
  proof (cases as rule: rev_cases)
    case (snoc as' p)
    have "dseg (pvf q) ((nxf q)(p := first_or cs None)) None (as' @ [p]) (first_or cs None)"
      using seg(1) d snoc by (intro dseg_relink_next) auto
    moreover have "pvf ?q x = pvf q x \<and> nxf ?q x = ((nxf q)(p := first_or cs None)) x" if "x \<in> set as" for x
    proof -
      have "x \<noteq> b" using that b by auto
      moreover have "nxf q b \<noteq> Some x" using that nb dis(2) first_or_in_set [of cs x] by auto
      ultimately show ?thesis unfolding links using pb nb snoc by auto
    qed
    ultimately show ?thesis using dseg_frame snoc by (metis (no_types, lifting))
  qed simp
  have s2: "dseg (pvf ?q) (nxf ?q) (last_or as None) cs None"
  proof (cases cs)
    case (Cons n cs')
    have "dseg ((pvf q)(n := last_or as None)) (nxf q) (last_or as None) (n # cs') None"
      using seg(2) d Cons by (intro dseg_relink_prev [where p = "Some b"]) auto
    moreover have "pvf ?q x = ((pvf q)(n := last_or as None)) x \<and> nxf ?q x = nxf q x" if "x \<in> set cs" for x
    proof -
      have "x \<noteq> b" using that b by auto
      moreover have "pvf q b \<noteq> Some x" using that pb dis(2) last_or_in_set [of as x] by auto
      ultimately show ?thesis unfolding links using pb nb Cons by auto
    qed
    ultimately show ?thesis using dseg_frame Cons by (metis (no_types, lifting))
  qed simp
  have hd: "free_list_head ?q = first_or (as @ cs) None"
    using d b nb links(3) by (cases as) auto
  have tl: "free_list_tail ?q = last_or (as @ cs) None"
    using d b pb links(4) by (cases cs rule: rev_cases) (auto simp: last_or_append last_or_def)
  have out: "pvf ?q x = None \<and> nxf ?q x = None" if "x < length (q_blocks q)" "x \<notin> set (as @ cs)" for x
  proof (cases "x = b")
    case False
    then have "pvf q x = None \<and> nxf q x = None" using d that by auto
    moreover have "nxf q b \<noteq> Some x" "pvf q b \<noteq> Some x"
      using that nb pb first_or_in_set [of cs x] last_or_in_set [of as x] by auto
    ultimately show ?thesis unfolding links using False by simp
  qed (simp add: links)
  show ?thesis unfolding dll_def using d dis s1 s2 hd tl out by (auto simp: dseg_append)
qed

lemma dll_remove:
  assumes "dll q xs" "b \<in> set xs"
  shows "dll (queue_remove b q) (remove1 b xs)"
proof -
  obtain as cs where xs: "xs = as @ b # cs" "b \<notin> set as" using assms(2) by (metis split_list_first)
  then show ?thesis using dll_remove_mid [of q as b cs] assms(1) by (simp add: remove1_append)
qed

lemma dll_popleft_Cons: "dll q (b # xs) \<Longrightarrow> popleft q = Inr (b, queue_remove b q) \<and> dll (queue_remove b q) xs"
  using dll_remove_mid [of q "[]" b xs] by (simp add: popleft_def dll_def)

lemma dll_popleft_Nil: "dll q [] \<Longrightarrow> popleft q = Inl ValueError"
  by (simp add: popleft_def dll_def)

lemma queue_append_data:
  assumes "queue_append b q = Inr q'"
  shows "length (q_blocks q') = length (q_blocks q)"
    "ref_cnt (blk q' i) = ref_cnt (blk q i)" "blk_hash (blk q' i) = blk_hash (blk q i)"
  using assms by (auto simp: queue_append_def rbind_def blk_upd_block split: option.splits if_splits)

lemma dll_append:
  assumes d: "dll q xs" and b: "b \<notin> set xs" "b < length (q_blocks q)"
  obtains q' where "queue_append b q = Inr q'" "dll q' (xs @ [b])"
proof (cases xs rule: rev_cases)
  case Nil
  then show ?thesis using d b that by (auto simp: queue_append_def dll_def blk_upd_block)
next
  case (snoc ys t)
  let ?q = "upd_block b (\<lambda>x. x\<lparr>next_free_block := None\<rparr>) ((upd_block b (\<lambda>x. x\<lparr>prev_free_block := Some t\<rparr>)
             (upd_block t (\<lambda>x. x\<lparr>next_free_block := Some b\<rparr>) q))
             \<lparr>free_list_tail := Some b, num_free_blocks := num_free_blocks q + 1\<rparr>)"
  note dd = d [unfolded dll_def]
  have t: "t < length (q_blocks q)" "t \<noteq> b" and tail: "free_list_tail q = Some t" using dd b snoc by auto
  have eq: "queue_append b q = Inr ?q" using tail by (simp add: queue_append_def rbind_def)
  have pv: "pvf ?q i = (if i = b then Some t else pvf q i)" and nx: "nxf ?q i = (if i = b then None else if i = t then Some b else nxf q i)"
    for i using t b by (auto simp: blk_upd_block)
  have "dseg (pvf q) ((nxf q)(t := Some b)) None (ys @ [t]) (Some b)"
    using dd snoc by (intro dseg_relink_next) auto
  moreover have "pvf ?q x = pvf q x \<and> nxf ?q x = ((nxf q)(t := Some b)) x" if "x \<in> set xs" for x
    using that b unfolding pv nx by auto
  ultimately have "dseg (pvf ?q) (nxf ?q) None xs (Some b)"
    using dseg_frame snoc by (metis (no_types, lifting))
  moreover have "dseg (pvf ?q) (nxf ?q) (last_or xs None) [b] None"
    unfolding dseg.simps pv nx using snoc by simp
  ultimately have seg: "dseg (pvf ?q) (nxf ?q) None (xs @ [b]) None" by (simp add: dseg_append)
  have out: "pvf ?q x = None \<and> nxf ?q x = None" if "x < length (q_blocks q)" "x \<notin> set (xs @ [b])" for x
    using that dd snoc unfolding pv nx by auto
  have "free_list_head q = first_or (xs @ [b]) None" using dd snoc by (cases ys) auto
  then have "dll ?q (xs @ [b])"
    unfolding dll_def using dd b seg out by auto
  then show ?thesis using eq that by blast
qed

section \<open>Construction and the walk\<close>

lemma walk_free_seg: "dseg (pvf q) (nxf q) p xs None \<Longrightarrow> walk_free q (first_or xs None) ret = Some (ret @ xs)"
proof (induction xs arbitrary: p ret)
  case Nil
  then show ?case by (simp add: walk_free.simps)
next
  case (Cons x xs)
  then show ?case by (auto simp: walk_free.simps [of q "Some x"])
qed

lemma dll_walk: "dll q xs \<Longrightarrow> get_all_free_blocks q = Some xs"
  using walk_free_seg [of q None xs "[]"] by (simp add: get_all_free_blocks_def dll_def)

lemma dseg_upt:
  assumes "\<And>i. a \<le> i \<Longrightarrow> i < n \<Longrightarrow> pv i = (if i = a then p else Some (i - 1)) \<and> nx i = (if i < n - 1 then Some (i + 1) else None)"
  shows "dseg pv nx p [a..<n] None"
  using assms
proof (induction "n - a" arbitrary: a p)
  case (Suc k)
  have a: "a < n" using Suc.hyps(2) by simp
  have "dseg pv nx (Some a) [Suc a..<n] None"
    by (rule Suc.hyps(1)) (use Suc.hyps(2) Suc.prems a in auto)
  moreover have "nx a = first_or [Suc a..<n] None" "pv a = p"
    using Suc.prems [of a] a by (cases "Suc a < n"; simp add: upt_rec)+
  ultimately show ?case using a by (simp add: upt_rec [of a])
qed simp

lemma queue_init_dll:
  assumes "bs \<noteq> []" and "\<forall>b \<in> set bs. prev_free_block b = None \<and> next_free_block b = None"
  obtains q where "queue_init bs = Inr q" "dll q [0..<length bs]" "length (q_blocks q) = length bs"
    "\<And>i. i < length bs \<Longrightarrow> ref_cnt (blk q i) = ref_cnt (bs ! i) \<and> blk_hash (blk q i) = blk_hash (bs ! i)"
proof -
  obtain q where q: "queue_init bs = Inr q" using assms(1) by (simp add: queue_init_def Let_def)
  have len: "length (q_blocks q) = length bs" and fields: "num_free_blocks q = int (length bs)"
    "free_list_head q = Some 0" "free_list_tail q = Some (length bs - 1)"
    using q assms(1) by (auto simp: queue_init_def Let_def)
  have b: "blk q i = (let b1 = (if 0 < i then (bs ! i)\<lparr>prev_free_block := Some (i - 1)\<rparr> else bs ! i)
             in if i < length bs - 1 then b1\<lparr>next_free_block := Some (i + 1)\<rparr> else b1)" if "i < length bs" for i
    using q assms(1) that by (auto simp: queue_init_def Let_def nth_enumerate_eq)
  have "pvf q i = (if i = 0 then None else Some (i - 1)) \<and> nxf q i = (if i < length bs - 1 then Some (i + 1) else None)"
    if "i < length bs" for i
  proof -
    have "prev_free_block (bs ! i) = None" "next_free_block (bs ! i) = None" using assms(2) that by simp_all
    then show ?thesis using that unfolding b [OF that] Let_def by (cases i) simp_all
  qed
  then have "dseg (pvf q) (nxf q) None [0..<length bs] None" by (intro dseg_upt) auto
  moreover have "first_or [0..<length bs] None = Some 0" using assms(1) by (simp add: upt_conv_Cons)
  moreover have "last_or [0..<length bs] None = Some (length bs - 1)" using assms(1) by (simp add: last_or_def)
  ultimately have "dll q [0..<length bs]" by (auto simp: dll_def len fields)
  moreover have "ref_cnt (blk q i) = ref_cnt (bs ! i) \<and> blk_hash (blk q i) = blk_hash (bs ! i)" if "i < length bs" for i
    unfolding b [OF that] by (simp add: Let_def)
  ultimately show ?thesis using that q len by blast
qed

section \<open>The queue contract\<close>

datatype queue_op = QPop | QRemove nat | QAppend nat

text \<open>The specification: the blocks popped so far, and the list of free blocks.\<close>

fun queue_spec :: "queue_op \<Rightarrow> nat list \<times> nat list \<Rightarrow> (nat list \<times> nat list) result" where
  "queue_spec QPop (popped, []) = Inl ValueError"
| "queue_spec QPop (popped, x # xs) = Inr (popped @ [x], xs)"
| "queue_spec (QRemove b) (popped, xs) = Inr (popped, remove1 b xs)"
| "queue_spec (QAppend b) (popped, xs) = Inr (popped, xs @ [b])"

text \<open>The callers' obligations: only a free block is removed, and only a non-free one appended.\<close>

fun legal_op :: "nat \<Rightarrow> queue_op \<Rightarrow> nat list \<Rightarrow> bool" where
  "legal_op n QPop xs = True"
| "legal_op n (QRemove b) xs = (b \<in> set xs)"
| "legal_op n (QAppend b) xs = (b \<notin> set xs \<and> b < n)"

fun legal_ops :: "nat \<Rightarrow> queue_op list \<Rightarrow> nat list \<times> nat list \<Rightarrow> bool" where
  "legal_ops n [] s = True"
| "legal_ops n (p # ps) s = (legal_op n p (snd s) \<and> (case queue_spec p s of Inl _ \<Rightarrow> True | Inr t \<Rightarrow> legal_ops n ps t))"

locale block_queue =
  fixes rep :: "'q \<Rightarrow> nat list \<Rightarrow> bool" and capacity :: "'q \<Rightarrow> nat"
    and pop :: "'q \<Rightarrow> (nat \<times> 'q) result" and rm :: "nat \<Rightarrow> 'q \<Rightarrow> 'q" and app :: "nat \<Rightarrow> 'q \<Rightarrow> 'q result"
  assumes pop_empty: "rep q [] \<Longrightarrow> pop q = Inl ValueError"
    and pop_front: "rep q (b # xs) \<Longrightarrow> \<exists>q'. pop q = Inr (b, q') \<and> rep q' xs \<and> capacity q' = capacity q"
    and rm_rep: "rep q xs \<Longrightarrow> b \<in> set xs \<Longrightarrow> rep (rm b q) (remove1 b xs) \<and> capacity (rm b q) = capacity q"
    and app_rep: "rep q xs \<Longrightarrow> b \<notin> set xs \<Longrightarrow> b < capacity q \<Longrightarrow>
           \<exists>q'. app b q = Inr q' \<and> rep q' (xs @ [b]) \<and> capacity q' = capacity q"
begin

definition do_op :: "queue_op \<Rightarrow> nat list \<times> 'q \<Rightarrow> (nat list \<times> 'q) result" where
  "do_op p = (\<lambda>(popped, q). case p of QPop \<Rightarrow> rbind (pop q) (\<lambda>(b, q'). Inr (popped @ [b], q'))
     | QRemove b \<Rightarrow> Inr (popped, rm b q) | QAppend b \<Rightarrow> rbind (app b q) (\<lambda>q'. Inr (popped, q')))"

definition sim :: "nat \<Rightarrow> (nat list \<times> 'q) result \<Rightarrow> (nat list \<times> nat list) result \<Rightarrow> bool" where
  "sim n r s = (case s of Inl e \<Rightarrow> r = Inl e | Inr (popped, xs) \<Rightarrow> \<exists>q. r = Inr (popped, q) \<and> rep q xs \<and> capacity q = n)"

lemma step_sim: "rep q xs \<Longrightarrow> capacity q = n \<Longrightarrow> legal_op n p xs \<Longrightarrow> sim n (do_op p (popped, q)) (queue_spec p (popped, xs))"
proof (cases p)
  case QPop
  then show "rep q xs \<Longrightarrow> capacity q = n \<Longrightarrow> ?thesis"
    using pop_empty [of q] pop_front [of q] by (cases xs) (fastforce simp: do_op_def sim_def rbind_def)+
next
  case (QRemove b)
  then show "rep q xs \<Longrightarrow> capacity q = n \<Longrightarrow> legal_op n p xs \<Longrightarrow> ?thesis"
    using rm_rep by (simp add: do_op_def sim_def)
next
  case (QAppend b)
  then show "rep q xs \<Longrightarrow> capacity q = n \<Longrightarrow> legal_op n p xs \<Longrightarrow> ?thesis"
    using app_rep [of q xs b] by (auto simp: do_op_def sim_def)
qed

lemma run_sim:
  "rep q xs \<Longrightarrow> capacity q = n \<Longrightarrow> legal_ops n ps (popped, xs) \<Longrightarrow> sim n (rfold do_op ps (popped, q)) (rfold queue_spec ps (popped, xs))"
proof (induction ps arbitrary: q xs popped)
  case Nil
  then show ?case by (simp add: sim_def)
next
  case (Cons p ps)
  then have "sim n (do_op p (popped, q)) (queue_spec p (popped, xs))" using step_sim by simp
  then consider e where "queue_spec p (popped, xs) = Inl e" "do_op p (popped, q) = Inl e"
    | popped' ys q' where "queue_spec p (popped, xs) = Inr (popped', ys)" "do_op p (popped, q) = Inr (popped', q')" "rep q' ys" "capacity q' = n"
    by (auto simp: sim_def split: sum.splits)
  then show ?case
  proof cases
    case 1
    then show ?thesis by (simp add: sim_def)
  next
    case 2
    then show ?thesis using Cons.IH [of q' ys popped'] Cons.prems by simp
  qed
qed

end

section \<open>The pointer structure implements the contract\<close>

interpretation fq: block_queue "dll :: 'h free_queue \<Rightarrow> nat list \<Rightarrow> bool" "\<lambda>q. length (q_blocks q)" popleft queue_remove queue_append
proof unfold_locales
  fix q :: "'h free_queue" and b xs
  show "dll q [] \<Longrightarrow> popleft q = Inl ValueError" by (rule dll_popleft_Nil)
  show "dll q (b # xs) \<Longrightarrow> \<exists>q'. popleft q = Inr (b, q') \<and> dll q' xs \<and> length (q_blocks q') = length (q_blocks q)"
    using dll_popleft_Cons by fastforce
  show "dll q xs \<Longrightarrow> b \<in> set xs \<Longrightarrow> dll (queue_remove b q) (remove1 b xs) \<and> length (q_blocks (queue_remove b q)) = length (q_blocks q)"
    by (simp add: dll_remove)
  show "dll q xs \<Longrightarrow> b \<notin> set xs \<Longrightarrow> b < length (q_blocks q) \<Longrightarrow>
        \<exists>q'. queue_append b q = Inr q' \<and> dll q' (xs @ [b]) \<and> length (q_blocks q') = length (q_blocks q)"
    by (metis dll_append queue_append_data(1))
qed

definition queue_step :: "queue_op \<Rightarrow> nat list \<times> 'h free_queue \<Rightarrow> (nat list \<times> 'h free_queue) result" where
  "queue_step p = (\<lambda>(popped, q). case p of QPop \<Rightarrow> rbind (popleft q) (\<lambda>(b, q'). Inr (popped @ [b], q'))
     | QRemove b \<Rightarrow> Inr (popped, queue_remove b q) | QAppend b \<Rightarrow> rbind (queue_append b q) (\<lambda>q'. Inr (popped, q')))"

definition fresh_blocks :: "nat \<Rightarrow> 'h kv_cache_block list" where
  "fresh_blocks n = replicate n new_block"

text \<open>
  C9. The intrusive doubly linked list implements a plain list. Starting from the queue that the
  constructor builds over \<open>n > 0\<close> fresh blocks, every sequence of pops, removals of free blocks and
  appends of non-free blocks has the outcome it has on the list of block ids: it raises \<open>ValueError\<close>
  exactly when a pop meets the empty list, and otherwise the pops return the same blocks, the walk over
  the links terminates with exactly that list and \<open>num_free_blocks\<close> is its length.
\<close>

theorem free_queue_refines_list:
  assumes "0 < n" and "legal_ops n ops ([], [0..<n])"
  shows "case rfold queue_spec ops ([], [0..<n]) of
           Inl e \<Rightarrow> rbind (queue_init (fresh_blocks n)) (\<lambda>q. rfold queue_step ops ([], q)) = (Inl e :: (nat list \<times> 'h free_queue) result)
         | Inr (popped, xs) \<Rightarrow> \<exists>q :: 'h free_queue. rbind (queue_init (fresh_blocks n)) (\<lambda>q. rfold queue_step ops ([], q)) = Inr (popped, q) \<and>
             get_all_free_blocks q = Some xs \<and> num_free_blocks q = int (length xs)"
proof -
  have step: "fq.do_op = (queue_step :: queue_op \<Rightarrow> nat list \<times> 'h free_queue \<Rightarrow> _)"
    by (intro ext) (simp add: fq.do_op_def queue_step_def)
  obtain q0 :: "'h free_queue" where q0: "queue_init (fresh_blocks n) = Inr q0" "dll q0 [0..<n]" "length (q_blocks q0) = n"
    by (rule queue_init_dll [of "fresh_blocks n"]) (use assms(1) in \<open>auto simp: fresh_blocks_def new_block_def\<close>)
  have "fq.sim n (rfold queue_step ops ([], q0)) (rfold queue_spec ops ([], [0..<n]))"
    using fq.run_sim [OF q0(2,3) assms(2)] unfolding step .
  then show ?thesis using dll_walk by (auto simp: fq.sim_def q0(1) dll_def split: sum.splits)
qed

theorem free_queue_refines_list_witness:
  "\<exists>q :: nat free_queue. rbind (queue_init (fresh_blocks 4)) (\<lambda>q. rfold queue_step [QPop, QRemove 2, QAppend 0] ([], q)) = Inr ([0], q) \<and>
     get_all_free_blocks q = Some [1, 3, 0] \<and> num_free_blocks q = 3"
proof -
  have spec: "rfold queue_spec [QPop, QRemove 2, QAppend 0] ([], [0..<4]) = Inr ([0], [1, 3, 0])" by code_simp
  have "legal_ops 4 [QPop, QRemove 2, QAppend 0] ([], [0..<4])" by code_simp
  from free_queue_refines_list [OF _ this, where 'h = nat, unfolded spec sum.case prod.case] show ?thesis by (simp only: list.size) simp
qed

end
