(* ===== verification/Request.thy ===== *)
theory Request
  imports Prelude
begin

text \<open>
  The request object of the rollout engine: \<open>vllm/v1/request.py\<close>, and the stop check of
  \<open>vllm/v1/core/sched/utils.py\<close>.

  Timestamps and the multi-modal payloads are not part of the model: an encoder input is its
  placeholder range and its hash. The grammar of a structured-output request is the flag
  \<open>grammar_ready\<close>, which the grammar compiler sets.
\<close>

section \<open>Status and parameters\<close>

datatype request_status = WAITING | WAITING_FOR_FSM | RUNNING | PREEMPTED
  | FINISHED_STOPPED | FINISHED_LENGTH_CAPPED | FINISHED_ABORTED | FINISHED_IGNORED

datatype finish_reason = STOP | LENGTH | ABORT

datatype event_type = QUEUED | SCHEDULED | PREEMPTED_EV

text \<open>\<open>RequestStatus\<close> is an \<open>IntEnum\<close> numbered by \<open>enum.auto()\<close>, and the finish test compares the numbers.\<close>

fun status_value :: "request_status \<Rightarrow> nat" where
  "status_value WAITING = 1"
| "status_value WAITING_FOR_FSM = 2"
| "status_value RUNNING = 3"
| "status_value PREEMPTED = 4"
| "status_value FINISHED_STOPPED = 5"
| "status_value FINISHED_LENGTH_CAPPED = 6"
| "status_value FINISHED_ABORTED = 7"
| "status_value FINISHED_IGNORED = 8"

instantiation request_status :: linorder
begin

definition less_eq_request_status :: "request_status \<Rightarrow> request_status \<Rightarrow> bool" where
  [simp]: "s \<le> t \<longleftrightarrow> status_value s \<le> status_value t"

definition less_request_status :: "request_status \<Rightarrow> request_status \<Rightarrow> bool" where
  [simp]: "s < t \<longleftrightarrow> status_value s < status_value t"

instance
proof
  fix s t :: request_status
  assume "s \<le> t" "t \<le> s"
  then show "s = t" by (cases s; cases t) simp_all
qed auto

end

definition status_finished :: "request_status \<Rightarrow> bool" where
  "status_finished s \<longleftrightarrow> s > PREEMPTED"

fun finished_reason :: "request_status \<Rightarrow> finish_reason option" where
  "finished_reason FINISHED_STOPPED = Some STOP"
| "finished_reason FINISHED_LENGTH_CAPPED = Some LENGTH"
| "finished_reason FINISHED_ABORTED = Some ABORT"
| "finished_reason FINISHED_IGNORED = Some LENGTH"
| "finished_reason _ = None"

record placeholder_range =
  offset :: int
  plen :: int

record sampling_params =
  sp_max_tokens :: "int option"
  ignore_eos :: bool
  stop_token_ids :: "int list option"
  prompt_logprobs :: "int option"
  guided_decoding :: bool

record request =
  request_id :: string
  sampling :: sampling_params
  eos_token_id :: "int option"
  lora_request :: "int option"
  grammar_ready :: bool
  status :: request_status
  events :: "event_type list"
  stop_reason :: "int option"
  max_tokens :: int
  prompt_token_ids :: "int list"
  num_prompt_tokens :: nat
  output_token_ids :: "int list"
  all_token_ids :: "int list"
  spec_token_ids :: "int list"
  num_computed_tokens :: int
  mm_positions :: "placeholder_range list"
  mm_hashes :: "string option list"
  num_encoder_inputs :: nat

section \<open>Operations\<close>

definition new_request ::
  "string \<Rightarrow> int list \<Rightarrow> nat \<Rightarrow> string option list \<Rightarrow> placeholder_range list \<Rightarrow> sampling_params \<Rightarrow> int option \<Rightarrow> int option \<Rightarrow> bool \<Rightarrow> request result" where
  "new_request rid prompt n_inputs hashes placeholders sp eos lora grammar =
     (case sp_max_tokens sp of None \<Rightarrow> Inl AssertionError
      | Some mt \<Rightarrow>
          if n_inputs \<noteq> length placeholders then Inl AssertionError
          else if hashes \<noteq> [] \<and> n_inputs \<noteq> length hashes then Inl AssertionError
          else Inr \<lparr>request_id = rid, sampling = sp, eos_token_id = eos, lora_request = lora, grammar_ready = grammar,
                 status = (if guided_decoding sp then WAITING_FOR_FSM else WAITING),
                 events = [], stop_reason = None, max_tokens = mt,
                 prompt_token_ids = prompt, num_prompt_tokens = length prompt, output_token_ids = [],
                 all_token_ids = prompt, spec_token_ids = [], num_computed_tokens = 0,
                 mm_positions = placeholders, mm_hashes = hashes, num_encoder_inputs = n_inputs\<rparr>)"

definition append_output_token_ids :: "int list \<Rightarrow> request \<Rightarrow> request" where
  "append_output_token_ids ts r =
     r\<lparr>output_token_ids := output_token_ids r @ ts, all_token_ids := all_token_ids r @ ts\<rparr>"

definition num_tokens :: "request \<Rightarrow> nat" where
  "num_tokens r = length (all_token_ids r)"

definition num_tokens_with_spec :: "request \<Rightarrow> nat" where
  "num_tokens_with_spec r = length (all_token_ids r) + length (spec_token_ids r)"

definition num_output_tokens :: "request \<Rightarrow> nat" where
  "num_output_tokens r = length (output_token_ids r)"

definition has_encoder_inputs :: "request \<Rightarrow> bool" where
  "has_encoder_inputs r \<longleftrightarrow> num_encoder_inputs r > 0"

definition is_finished :: "request \<Rightarrow> bool" where
  "is_finished r = status_finished (status r)"

definition get_finished_reason :: "request \<Rightarrow> finish_reason option" where
  "get_finished_reason r = finished_reason (status r)"

definition get_num_encoder_tokens :: "request \<Rightarrow> nat \<Rightarrow> int result" where
  "get_num_encoder_tokens r i =
     (if i < length (mm_positions r) then Inr (plen (mm_positions r ! i)) else Inl AssertionError)"

definition use_structured_output :: "request \<Rightarrow> bool" where
  "use_structured_output r = guided_decoding (sampling r)"

definition record_event :: "event_type \<Rightarrow> request \<Rightarrow> request" where
  "record_event e r = r\<lparr>events := events r @ [e]\<rparr>"

definition take_events :: "request \<Rightarrow> event_type list option \<times> request" where
  "take_events r = (if events r = [] then (None, r) else (Some (events r), r\<lparr>events := []\<rparr>))"

definition check_stop :: "request \<Rightarrow> int \<Rightarrow> (bool \<times> request) result" where
  "check_stop r max_model_len =
     (if int (num_tokens r) \<ge> max_model_len \<or> int (num_output_tokens r) \<ge> max_tokens r
      then Inr (True, r\<lparr>status := FINISHED_LENGTH_CAPPED\<rparr>)
      else if output_token_ids r = [] then Inl IndexError
      else let last_token_id = last (output_token_ids r)
        in if \<not> ignore_eos (sampling r) \<and> Some last_token_id = eos_token_id r
           then Inr (True, r\<lparr>status := FINISHED_STOPPED\<rparr>)
           else if last_token_id \<in> set (case stop_token_ids (sampling r) of None \<Rightarrow> [] | Some ts \<Rightarrow> ts)
           then Inr (True, r\<lparr>status := FINISHED_STOPPED, stop_reason := Some last_token_id\<rparr>)
           else Inr (False, r))"

section \<open>Well-formed requests\<close>

definition request_ok :: "request \<Rightarrow> bool" where
  "request_ok r \<longleftrightarrow> all_token_ids r = prompt_token_ids r @ output_token_ids r \<and>
     num_prompt_tokens r = length (prompt_token_ids r) \<and>
     num_encoder_inputs r = length (mm_positions r) \<and>
     (mm_hashes r = [] \<or> length (mm_hashes r) = length (mm_positions r))"

lemma new_request_ok:
  "new_request rid p n hs ps sp eos lora g = Inr r \<Longrightarrow>
     request_ok r \<and> \<not> is_finished r \<and> num_computed_tokens r = 0 \<and> num_tokens r = length p"
  by (auto simp: new_request_def request_ok_def is_finished_def status_finished_def num_tokens_def
      split: option.splits if_splits)

lemma append_output_ok: "request_ok r \<Longrightarrow> request_ok (append_output_token_ids ts r)"
  by (simp add: request_ok_def append_output_token_ids_def)

lemma finished_reason_iff: "status_finished s \<longleftrightarrow> finished_reason s \<noteq> None"
  by (cases s) (simp_all add: status_finished_def)

lemma check_stop_cases:
  assumes "check_stop r m = Inr (b, r')"
  obtains st sr where "r' = r\<lparr>status := st, stop_reason := sr\<rparr>"
    "b \<longrightarrow> status_finished st" "\<not> b \<longrightarrow> r' = r"
proof (rule that)
  show "r' = r\<lparr>status := status r', stop_reason := stop_reason r'\<rparr>"
    using assms by (auto simp: check_stop_def Let_def split: if_splits)
  show "b \<longrightarrow> status_finished (status r')" "\<not> b \<longrightarrow> r' = r"
    using assms by (auto simp: check_stop_def Let_def status_finished_def split: if_splits)
qed

end
