(* ===== verification/Block_Hash.thy ===== *)
theory Block_Hash
  imports Request "HOL-Library.Countable"
begin

text \<open>
  Block hashing for prefix caching, \<open>vllm/v1/core/kv_cache_utils.py\<close>: \<open>BlockHashType\<close>,
  \<open>need_extra_keys\<close>, the extra-key generators, \<open>hash_block_tokens\<close> and \<open>hash_request_tokens\<close>.

  The hash function is Python's \<open>hash\<close> or SHA-256, both outside the repository, and the seed
  \<open>NONE_HASH\<close> is drawn at start-up: they are the parameters \<open>hf\<close> and \<open>nh\<close>. The soundness theorem
  assumes of them what the source's comment on SHA-256 claims, that collisions do not occur.
\<close>

section \<open>Hashes and extra keys\<close>

datatype extra_key = LoraKey int | MMKey string

record block_hash =
  hash_value :: int
  token_ids :: "int list"
  extra_keys :: "extra_key list option"

type_synonym hash_fn = "int \<times> int list \<times> extra_key list option \<Rightarrow> int"

definition need_extra_keys :: "request \<Rightarrow> bool" where
  "need_extra_keys r \<longleftrightarrow> mm_positions r \<noteq> [] \<or> lora_request r \<noteq> None"

text \<open>The \<open>while\<close> loop of \<open>_gen_mm_extra_hash_keys\<close> at multi-modal index \<open>i\<close>.\<close>

function mm_keys_loop ::
  "placeholder_range list \<Rightarrow> string option list \<Rightarrow> int \<Rightarrow> int \<Rightarrow> nat \<Rightarrow> extra_key list \<Rightarrow> (extra_key list \<times> nat) result" where
  "mm_keys_loop ps hs start_token_idx end_token_idx i acc =
     (if i < length ps then
        (case hs ! i of None \<Rightarrow> Inl AssertionError
         | Some h \<Rightarrow>
             let off = offset (ps ! i); len = plen (ps ! i)
             in if end_token_idx > off then
                  if start_token_idx > off + len
                  then mm_keys_loop ps hs start_token_idx end_token_idx (i + 1) acc
                  else if end_token_idx \<ge> off + len
                  then mm_keys_loop ps hs start_token_idx end_token_idx (i + 1) (acc @ [MMKey h])
                  else Inr (acc @ [MMKey h], i)
                else Inr (acc, i))
      else Inr (acc, i))"
  by pat_completeness auto
termination by (relation "measure (\<lambda>(ps, hs, s, e, i, acc). length ps - i)") auto

declare mm_keys_loop.simps [simp del]

definition gen_mm_extra_hash_keys :: "request \<Rightarrow> int \<Rightarrow> int \<Rightarrow> int \<Rightarrow> (extra_key list \<times> int) result" where
  "gen_mm_extra_hash_keys r start_token_idx end_token_idx start_mm_idx =
     (let ps = mm_positions r; hs = mm_hashes r
      in if ps = [] then Inr ([], start_mm_idx)
         else if length ps \<noteq> length hs then Inl ValueError
         else if offset (last ps) + plen (last ps) < start_token_idx then Inr ([], start_mm_idx)
         else rbind (if start_mm_idx < 0
                     then if - start_mm_idx \<le> int (length ps) then Inr (nat (int (length ps) + start_mm_idx))
                          else Inl AssertionError
                     else Inr (nat start_mm_idx))
                (\<lambda>i. rbind (mm_keys_loop ps hs start_token_idx end_token_idx i [])
                   (\<lambda>(ks, j). Inr (ks, int j))))"

definition gen_lora_extra_hash_keys :: "request \<Rightarrow> extra_key list" where
  "gen_lora_extra_hash_keys r = (case lora_request r of None \<Rightarrow> [] | Some l \<Rightarrow> [LoraKey l])"

definition generate_block_hash_extra_keys ::
  "request \<Rightarrow> int \<Rightarrow> int \<Rightarrow> int \<Rightarrow> (extra_key list option \<times> int) result" where
  "generate_block_hash_extra_keys r start_token_idx end_token_idx start_mm_idx =
     rbind (gen_mm_extra_hash_keys r start_token_idx end_token_idx start_mm_idx)
       (\<lambda>(mm_extra_keys, new_start_mm_idx).
          let ks = gen_lora_extra_hash_keys r @ mm_extra_keys
          in Inr (if ks = [] then None else Some ks, new_start_mm_idx))"

text \<open>The test \<open>not parent_block_hash\<close> also sends the hash value 0 to the seed.\<close>

definition parent_value :: "int \<Rightarrow> int option \<Rightarrow> int" where
  "parent_value nh parent = (case parent of None \<Rightarrow> nh | Some v \<Rightarrow> if v = 0 then nh else v)"

definition hash_block_tokens ::
  "hash_fn \<Rightarrow> int \<Rightarrow> int option \<Rightarrow> int list \<Rightarrow> extra_key list option \<Rightarrow> block_hash" where
  "hash_block_tokens hf nh parent ts ks =
     \<lparr>hash_value = hf (parent_value nh parent, ts, ks), token_ids = ts, extra_keys = ks\<rparr>"

function hash_request_loop ::
  "hash_fn \<Rightarrow> int \<Rightarrow> nat \<Rightarrow> request \<Rightarrow> nat \<Rightarrow> int option \<Rightarrow> extra_key list option \<Rightarrow> int \<Rightarrow> block_hash list result" where
  "hash_request_loop hf nh bs r start parent ks mm_idx =
     (if 0 < bs \<and> start < length (all_token_ids r) then
        let toks = py_slice start (start + bs) (all_token_ids r)
        in if length toks < bs then Inr []
           else rbind (if need_extra_keys r
                       then generate_block_hash_extra_keys r (int start) (int (start + bs)) mm_idx
                       else Inr (ks, mm_idx))
             (\<lambda>(ks', mm_idx').
                let h = hash_block_tokens hf nh parent toks ks'
                in rbind (hash_request_loop hf nh bs r (start + bs) (Some (hash_value h)) ks' mm_idx')
                     (\<lambda>hs. Inr (h # hs)))
      else Inr [])"
  by pat_completeness auto
termination
  by (relation "measure (\<lambda>(hf, nh, bs, r, start, parent, ks, mm). length (all_token_ids r) - start)") auto

declare hash_request_loop.simps [simp del]

text \<open>\<open>range(0, n, 0)\<close> raises \<open>ValueError\<close>.\<close>

definition hash_request_tokens :: "hash_fn \<Rightarrow> int \<Rightarrow> nat \<Rightarrow> request \<Rightarrow> block_hash list result" where
  "hash_request_tokens hf nh bs r =
     (if bs = 0 then Inl ValueError else hash_request_loop hf nh bs r 0 None None 0)"

section \<open>Hash chains\<close>

fun hash_chain :: "hash_fn \<Rightarrow> int \<Rightarrow> int option \<Rightarrow> block_hash list \<Rightarrow> bool" where
  "hash_chain hf nh parent [] = True"
| "hash_chain hf nh parent (h # hs) =
     (hash_value h = hf (parent_value nh parent, token_ids h, extra_keys h) \<and> hash_chain hf nh (Some (hash_value h)) hs)"

definition chain_end :: "int option \<Rightarrow> block_hash list \<Rightarrow> int option" where
  "chain_end p hs = (if hs = [] then p else Some (hash_value (last hs)))"

lemma hash_chain_append:
  "hash_chain hf nh p (xs @ ys) \<longleftrightarrow> hash_chain hf nh p xs \<and> hash_chain hf nh (chain_end p xs) ys"
  by (induction xs arbitrary: p) (auto simp: chain_end_def)

lemma hash_chain_take: "hash_chain hf nh p xs \<Longrightarrow> hash_chain hf nh p (take n xs)"
  using hash_chain_append [of hf nh p "take n xs" "drop n xs"] by simp

text \<open>A hash function without collisions, whose values are neither 0 nor the seed.\<close>

definition collision_free :: "hash_fn \<Rightarrow> int \<Rightarrow> bool" where
  "collision_free hf nh \<longleftrightarrow> inj hf \<and> (\<forall>x. hf x \<noteq> 0 \<and> hf x \<noteq> nh)"

lemma chain_parent_eq:
  assumes cf: "collision_free hf nh" and x: "hash_chain hf nh None (xs @ [x])" and y: "hash_chain hf nh None (ys @ [y])"
    and eq: "hash_value x = hash_value y"
  shows "x = y" and "xs = [] \<longleftrightarrow> ys = []" and "xs \<noteq> [] \<Longrightarrow> hash_value (last xs) = hash_value (last ys)"
proof -
  let ?p = "\<lambda>zs. parent_value nh (chain_end None zs)"
  have hv: "hash_value z = hf (?p zs, token_ids z, extra_keys z)" if "hash_chain hf nh None (zs @ [z])" for zs z
    using that by (simp add: hash_chain_append)
  have "inj hf" using cf by (simp add: collision_free_def)
  then have inj: "?p xs = ?p ys" "token_ids x = token_ids y" "extra_keys x = extra_keys y"
    using eq hv [OF x] hv [OF y] by (simp_all add: inj_eq)
  then show "x = y" using eq by simp
  have nz: "hash_value (last zs) \<noteq> 0 \<and> hash_value (last zs) \<noteq> nh" if "hash_chain hf nh None (zs @ [z])" "zs \<noteq> []" for zs z
    using that cf hv [of "butlast zs" "last zs"] by (auto simp: hash_chain_append collision_free_def)
  have p: "?p zs = (if zs = [] then nh else hash_value (last zs))" if "hash_chain hf nh None (zs @ [z])" for zs z
    using nz [OF that] by (auto simp: chain_end_def parent_value_def)
  show "xs = [] \<longleftrightarrow> ys = []" using inj(1) p [OF x] p [OF y] nz [OF x] nz [OF y] by (auto split: if_splits)
  then show "xs \<noteq> [] \<Longrightarrow> hash_value (last xs) = hash_value (last ys)" using inj(1) p [OF x] p [OF y] by (auto split: if_splits)
qed

lemma hash_chain_inj:
  assumes cf: "collision_free hf nh"
  shows "hash_chain hf nh None xs \<Longrightarrow> hash_chain hf nh None ys \<Longrightarrow> xs \<noteq> [] \<Longrightarrow> ys \<noteq> [] \<Longrightarrow>
    hash_value (last xs) = hash_value (last ys) \<Longrightarrow> xs = ys"
proof (induction xs arbitrary: ys rule: rev_induct)
  case (snoc x xs)
  obtain ys' y where ys: "ys = ys' @ [y]" using snoc.prems(4) by (metis rev_exhaust)
  have h: "hash_chain hf nh None (ys' @ [y])" "hash_value x = hash_value y" using snoc.prems ys by auto
  note pe = chain_parent_eq [OF cf snoc.prems(1) h]
  show ?case
  proof (cases "xs = []")
    case True
    then show ?thesis using pe ys by simp
  next
    case False
    have "xs = ys'" using False pe h(1) snoc.prems(1) by (intro snoc.IH) (auto simp: hash_chain_append)
    then show ?thesis using pe(1) ys by simp
  qed
qed simp

section \<open>The hashes of a request\<close>

lemma hash_request_loop_chain:
  "hash_request_loop hf nh bs r start parent ks mm = Inr hs \<Longrightarrow> 0 < bs \<Longrightarrow>
     hash_chain hf nh parent hs \<and> length hs = (length (all_token_ids r) - start) div bs \<and>
     (\<forall>i < length hs. token_ids (hs ! i) = py_slice (start + i * bs) (start + i * bs + bs) (all_token_ids r))"
proof (induction hf nh bs r start parent ks mm arbitrary: hs rule: hash_request_loop.induct)
  case (1 hf nh bs r start parent ks mm)
  let ?T = "all_token_ids r" and ?s = "py_slice start (start + bs) (all_token_ids r)"
  show ?case
  proof (cases "start < length ?T \<and> \<not> length ?s < bs")
    case False
    then have "hs = []" "length ?T - start < bs" using 1(2,3)
      by (auto simp: hash_request_loop.simps [of hf nh bs r start] Let_def py_slice_def split: if_splits)
    then show ?thesis by simp
  next
    case True
    then have lt: "start < length ?T" and full: "start + bs \<le> length ?T" by (auto simp: py_slice_def)
    from 1(2,3) True obtain ks' mm' hs' where
      g: "(if need_extra_keys r then generate_block_hash_extra_keys r (int start) (int (start + bs)) mm else Inr (ks, mm)) = Inr (ks', mm')"
      and rec: "hash_request_loop hf nh bs r (start + bs) (Some (hash_value (hash_block_tokens hf nh parent ?s ks'))) ks' mm' = Inr hs'"
      and hs: "hs = hash_block_tokens hf nh parent ?s ks' # hs'"
      by (subst (asm) (2) hash_request_loop.simps) (auto simp: Let_def)
    have ih: "hash_chain hf nh (Some (hash_value (hash_block_tokens hf nh parent ?s ks'))) hs'"
      "length hs' = (length ?T - (start + bs)) div bs"
      "\<And>i. i < length hs' \<Longrightarrow> token_ids (hs' ! i) = py_slice (start + bs + i * bs) (start + bs + i * bs + bs) ?T"
      using 1(1) [OF _ refl _ refl rec] 1(3) lt True by auto
    have "length hs = (length ?T - start) div bs"
      using hs ih(2) full 1(3) by (simp add: le_div_geq diff_diff_eq)
    moreover have "token_ids (hs ! i) = py_slice (start + i * bs) (start + i * bs + bs) ?T" if "i < length hs" for i
      using that ih(3) hs by (cases i) (auto simp: hash_block_tokens_def algebra_simps)
    ultimately show ?thesis using hs ih(1) by (simp add: hash_block_tokens_def)
  qed
qed

text \<open>Hashing a request raises nothing when every multi-modal input carries its hash.\<close>

definition request_hashable :: "request \<Rightarrow> bool" where
  "request_hashable r \<longleftrightarrow> length (mm_hashes r) = length (mm_positions r) \<and> None \<notin> set (mm_hashes r)"

lemma mm_keys_loop_total: "length hs = length ps \<Longrightarrow> None \<notin> set hs \<Longrightarrow> \<exists>ks j. mm_keys_loop ps hs s e i acc = Inr (ks, j)"
proof (induction ps hs s e i acc rule: mm_keys_loop.induct)
  case (1 ps hs s e i acc)
  show ?case
  proof (cases "i < length ps")
    case True
    then have "hs ! i \<in> set hs" using 1(3) by simp
    then obtain h where h: "hs ! i = Some h" using 1(4) by (metis not_None_eq)
    show ?thesis using 1(1) [OF True h refl refl] 1(2) [OF True h refl refl] 1(3,4) h True
      by (auto simp: mm_keys_loop.simps [of ps hs s e i acc] Let_def)
  qed (simp add: mm_keys_loop.simps [of ps hs s e i acc])
qed

lemma generate_total:
  assumes "request_hashable r" "0 \<le> m \<or> m = -1"
  shows "\<exists>ks j. generate_block_hash_extra_keys r s e m = Inr (ks, j) \<and> (0 \<le> m \<longrightarrow> 0 \<le> j)"
proof -
  have "\<exists>ks j. gen_mm_extra_hash_keys r s e m = Inr (ks, j) \<and> (0 \<le> m \<longrightarrow> 0 \<le> j)"
  proof (cases "mm_positions r = [] \<or> offset (last (mm_positions r)) + plen (last (mm_positions r)) < s")
    case True
    then show ?thesis using assms(1) by (auto simp: gen_mm_extra_hash_keys_def request_hashable_def Let_def)
  next
    case False
    let ?i = "if m < 0 then nat (int (length (mm_positions r)) + m) else nat m"
    obtain ks j where l: "mm_keys_loop (mm_positions r) (mm_hashes r) s e ?i [] = Inr (ks, j)"
      using mm_keys_loop_total assms(1) by (metis request_hashable_def)
    have "m < 0 \<longrightarrow> - m \<le> int (length (mm_positions r))" using False assms(2) by (cases "mm_positions r") auto
    then show ?thesis using False assms(1) l by (auto simp: gen_mm_extra_hash_keys_def request_hashable_def Let_def split: if_splits)
  qed
  then obtain ks j where "gen_mm_extra_hash_keys r s e m = Inr (ks, j)" "0 \<le> m \<longrightarrow> 0 \<le> j" by blast
  then show ?thesis unfolding generate_block_hash_extra_keys_def Let_def by simp
qed

lemma hash_request_loop_total:
  "request_hashable r \<Longrightarrow> 0 \<le> mm \<Longrightarrow> \<exists>hs. hash_request_loop hf nh bs r start parent ks mm = Inr hs"
proof (induction hf nh bs r start parent ks mm rule: hash_request_loop.induct)
  case (1 hf nh bs r start parent ks mm)
  show ?case
  proof (cases "0 < bs \<and> start < length (all_token_ids r) \<and> \<not> length (py_slice start (start + bs) (all_token_ids r)) < bs")
    case True
    obtain ks' mm' where g: "(if need_extra_keys r then generate_block_hash_extra_keys r (int start) (int (start + bs)) mm
        else Inr (ks, mm)) = Inr (ks', mm')" and m: "0 \<le> mm'"
      using generate_total [OF 1(2), of mm "int start" "int (start + bs)"] 1(3) by (cases "need_extra_keys r") auto
    show ?thesis using 1(1) [OF _ refl _ refl, where xa = ks' and xb = mm'] 1(2) m True g
      by (auto simp: hash_request_loop.simps [of hf nh bs r start parent ks mm] Let_def)
  qed (auto simp: hash_request_loop.simps [of hf nh bs r start parent ks mm] Let_def)
qed

lemma hash_request_tokens_total:
  "request_hashable r \<Longrightarrow> 0 < bs \<Longrightarrow> \<exists>hs. hash_request_tokens hf nh bs r = Inr hs"
  by (simp add: hash_request_tokens_def hash_request_loop_total)

lemma hash_request_tokens_chain:
  assumes "hash_request_tokens hf nh bs r = Inr hs"
  shows "0 < bs" "hash_chain hf nh None hs" "length hs = num_tokens r div bs"
    "\<And>i. i < length hs \<Longrightarrow> token_ids (hs ! i) = py_slice (i * bs) (i * bs + bs) (all_token_ids r)"
  using assms hash_request_loop_chain [of hf nh bs r 0 None None 0 hs]
  by (auto simp: hash_request_tokens_def num_tokens_def split: if_splits)

lemma concat_slices: "concat (map (\<lambda>i. py_slice (i * bs) (i * bs + bs) xs) [0..<n]) = take (n * bs) xs"
proof (induction n)
  case (Suc n)
  have "take (Suc n * bs) xs = take (n * bs) xs @ take bs (drop (n * bs) xs)"
    using take_add [of "n * bs" bs xs] by (simp add: add.commute)
  then show ?case using Suc by (simp add: py_slice_def)
qed simp

lemma chain_tokens:
  assumes "\<And>i. i < length hs \<Longrightarrow> token_ids (hs ! i) = py_slice (i * bs) (i * bs + bs) ts" "n \<le> length hs"
  shows "concat (map token_ids (take n hs)) = take (n * bs) ts"
proof -
  have "map token_ids (take n hs) = map (\<lambda>i. py_slice (i * bs) (i * bs + bs) ts) [0..<n]"
    using assms by (intro nth_equalityI) auto
  then show ?thesis by (simp add: concat_slices)
qed

text \<open>Two hash chains that meet in one hash value agree up to that block.\<close>

lemma chains_meet:
  assumes "collision_free hf nh" "hash_chain hf nh None xs" "hash_chain hf nh None ys" "i < length xs" "j < length ys"
    "hash_value (xs ! i) = hash_value (ys ! j)"
  shows "i = j \<and> take (Suc i) xs = take (Suc j) ys"
proof -
  have "take (Suc i) xs = take (Suc j) ys"
  proof (rule hash_chain_inj [OF assms(1)])
    show "hash_value (last (take (Suc i) xs)) = hash_value (last (take (Suc j) ys))"
      using assms(4-6) by (simp add: take_Suc_conv_app_nth)
  qed (use assms in \<open>auto simp: hash_chain_take\<close>)
  moreover have "length (take (Suc i) xs) = Suc i" "length (take (Suc j) ys) = Suc j" using assms(4,5) by simp_all
  ultimately show ?thesis by simp
qed

section \<open>Properties\<close>

definition key_code :: "extra_key \<Rightarrow> nat" where
  "key_code k = (case k of LoraKey l \<Rightarrow> prod_encode (0, int_encode l) | MMKey s \<Rightarrow> prod_encode (1, list_encode (map of_char s)))"

text \<open>An injective encoding of the hash input by positive integers, for which \<open>-1\<close> can serve as seed.\<close>

definition encode_hash :: hash_fn where
  "encode_hash x = (case x of (p, ts, ks) \<Rightarrow>
     1 + int (prod_encode (int_encode p, prod_encode (list_encode (map int_encode ts),
       (case ks of None \<Rightarrow> 0 | Some l \<Rightarrow> Suc (list_encode (map key_code l)))))))"

lemma encode_hash_collision_free: "collision_free encode_hash (-1)"
proof -
  have "inj key_code"
  proof (rule injI)
    fix x y assume "key_code x = key_code y"
    then show "x = y" by (cases x; cases y) (auto simp: key_code_def inj_int_encode inj_eq list_encode_eq
        dest!: injD [OF inj_mapI, rotated] intro: injI)
  qed
  then show ?thesis
    by (auto simp: collision_free_def encode_hash_def inj_def list_encode_eq inj_int_encode [THEN inj_eq]
        inj_mapI inj_eq split: option.splits prod.splits)
qed

text \<open>
  \<open>hash_request_tokens\<close> never raises on a request whose multi-modal inputs all carry a hash: it
  returns one hash per full block, the blocks' tokens are the successive slices of the request's
  tokens, and each hash value is computed from the value of its predecessor.
\<close>

theorem hash_request_tokens_ok:
  assumes "request_hashable r" "0 < bs"
  shows "\<exists>hs. hash_request_tokens hf nh bs r = Inr hs \<and> length hs = num_tokens r div bs \<and>
    concat (map token_ids hs) = take (num_tokens r div bs * bs) (all_token_ids r) \<and> hash_chain hf nh None hs"
proof -
  obtain hs where hs: "hash_request_tokens hf nh bs r = Inr hs" using hash_request_tokens_total [OF assms] by blast
  note c = hash_request_tokens_chain [OF hs]
  have "concat (map token_ids hs) = take (length hs * bs) (all_token_ids r)"
    using chain_tokens [OF c(4), of "length hs"] by simp
  then show ?thesis using hs c by auto
qed

definition sample_params :: sampling_params where
  "sample_params = \<lparr>sp_max_tokens = Some 16, ignore_eos = False, stop_token_ids = None, prompt_logprobs = None, guided_decoding = False\<rparr>"

definition text_request :: "string \<Rightarrow> int list \<Rightarrow> request" where
  "text_request rid ts = \<lparr>request_id = rid, sampling = sample_params, eos_token_id = Some 2, lora_request = None, grammar_ready = False,
     status = WAITING, events = [], stop_reason = None, max_tokens = 16, prompt_token_ids = ts, num_prompt_tokens = length ts,
     output_token_ids = [], all_token_ids = ts, spec_token_ids = [], num_computed_tokens = 0,
     mm_positions = [], mm_hashes = [], num_encoder_inputs = 0\<rparr>"

lemma text_request_hashable [simp]: "request_hashable (text_request rid ts)" "request_ok (text_request rid ts)"
  "num_tokens (text_request rid ts) = length ts" "all_token_ids (text_request rid ts) = ts" "request_id (text_request rid ts) = rid"
  by (simp_all add: request_hashable_def text_request_def request_ok_def num_tokens_def)

theorem hash_request_tokens_ok_witness:
  "\<exists>hs. hash_request_tokens encode_hash (-1) 2 (text_request ''a'' [5, 6, 7, 8, 9]) = Inr hs \<and> length hs = Suc 1 \<and>
    concat (map token_ids hs) = [5, 6, 7, 8] \<and> hash_chain encode_hash (-1) None hs"
  using hash_request_tokens_ok [of "text_request ''a'' [5, 6, 7, 8, 9]" 2 encode_hash "-1"] by simp

text \<open>
  C11. Prefix hashes identify prefixes: if the hash function has no collisions and never returns 0 or
  the seed, two requests that have a common hash value have it at the same block, agree on all tokens
  up to the end of that block and on the extra keys (LoRA adapter, multi-modal inputs) of all blocks
  up to it.
\<close>

theorem prefix_hash_sound:
  assumes "collision_free hf nh" "hash_request_tokens hf nh bs r = Inr hs" "hash_request_tokens hf nh bs r' = Inr hs'"
    "i < length hs" "j < length hs'" "hash_value (hs ! i) = hash_value (hs' ! j)"
  shows "i = j \<and> take (Suc i * bs) (all_token_ids r) = take (Suc i * bs) (all_token_ids r') \<and>
    map extra_keys (take (Suc i) hs) = map extra_keys (take (Suc i) hs')"
proof -
  note c = hash_request_tokens_chain [OF assms(2)] and c' = hash_request_tokens_chain [OF assms(3)]
  have m: "i = j" "take (Suc i) hs = take (Suc j) hs'" using chains_meet [OF assms(1) c(2) c'(2) assms(4-6)] by auto
  have "take (Suc i * bs) (all_token_ids r) = concat (map token_ids (take (Suc i) hs))"
    using chain_tokens [OF c(4), of "Suc i"] assms(4) by simp
  moreover have "take (Suc i * bs) (all_token_ids r') = concat (map token_ids (take (Suc i) hs'))"
    using chain_tokens [OF c'(4), of "Suc i"] assms(5) m(1) by simp
  ultimately show ?thesis using m by simp
qed

theorem prefix_hash_sound_witness:
  "\<exists>hs hs'. hash_request_tokens encode_hash (-1) 1 (text_request ''a'' [5, 6]) = Inr hs \<and>
     hash_request_tokens encode_hash (-1) 1 (text_request ''b'' [5, 7]) = Inr hs' \<and>
     hash_value (hs ! 0) = hash_value (hs' ! 0) \<and> hash_value (hs ! 1) \<noteq> hash_value (hs' ! 1)"
proof -
  let ?r = "text_request ''a'' [5, 6]" and ?r' = "text_request ''b'' [5, 7]"
  obtain hs hs' where h: "hash_request_tokens encode_hash (-1) 1 ?r = Inr hs" "hash_request_tokens encode_hash (-1) 1 ?r' = Inr hs'"
    using hash_request_tokens_total by (metis text_request_hashable(1) zero_less_one)
  note c = hash_request_tokens_chain [OF h(1)] and c' = hash_request_tokens_chain [OF h(2)]
  have len: "length hs = 2" "length hs' = 2" using c(3) c'(3) by simp_all
  have "hash_value (hs ! 1) \<noteq> hash_value (hs' ! 1)"
    using prefix_hash_sound [OF encode_hash_collision_free h, of 1 1] len by auto
  moreover have "hash_value (hs ! 0) = hash_value (hs' ! 0)"
    using h by (auto simp: hash_request_tokens_def hash_request_loop.simps [of _ _ _ _ 0] need_extra_keys_def text_request_def
        py_slice_def hash_block_tokens_def Let_def)
  ultimately show ?thesis using h by blast
qed

end
