(* ===== verification/Block_Pool.thy ===== *)
theory Block_Pool
  imports Free_Block_Queue Block_Hash Complex_Main
begin

text \<open>
  \<open>BlockPool\<close> of \<open>vllm/v1/core/block_pool.py\<close>: allocation, reference counts, the prefix-cache index
  and eviction.

  \<open>cached_block_hash_to_block\<close> is a dict of dicts that keep insertion order; an inner dict is the
  list of its block ids. The invariant \<open>pool_ok p fl\<close> says that the free queue represents \<open>fl\<close>, that
  \<open>fl\<close> holds exactly the blocks other than the null block whose reference count is 0, and that the
  index maps a hash to exactly the blocks that carry it.
\<close>

section \<open>State and operations\<close>

record block_pool =
  num_gpu_blocks :: nat
  enable_caching :: bool
  free_block_queue :: "block_hash free_queue"
  cached_blocks :: "block_hash \<Rightarrow> nat list option"
  null_block :: nat

abbreviation pblk :: "block_pool \<Rightarrow> nat \<Rightarrow> block_hash kv_cache_block" where
  "pblk p b \<equiv> blk (free_block_queue p) b"

definition upd_pool_block ::
  "nat \<Rightarrow> (block_hash kv_cache_block \<Rightarrow> block_hash kv_cache_block) \<Rightarrow> block_pool \<Rightarrow> block_pool" where
  "upd_pool_block b f p = p\<lparr>free_block_queue := upd_block b f (free_block_queue p)\<rparr>"

definition pool_init :: "nat \<Rightarrow> bool \<Rightarrow> block_pool result" where
  "pool_init n caching =
     (if n = 0 then Inl AssertionError
      else rbind (queue_init (fresh_blocks n))
        (\<lambda>q. rbind (popleft q)
          (\<lambda>(nb, q'). Inr \<lparr>num_gpu_blocks = n, enable_caching = caching, free_block_queue = q',
                           cached_blocks = (\<lambda>_. None), null_block = nb\<rparr>)))"

definition get_cached_block :: "block_pool \<Rightarrow> block_hash \<Rightarrow> nat option" where
  "get_cached_block p h = (case cached_blocks p h of None \<Rightarrow> None | Some [] \<Rightarrow> None | Some (b # _) \<Rightarrow> Some b)"

definition cache_insert :: "block_hash \<Rightarrow> nat \<Rightarrow> (block_hash \<Rightarrow> nat list option) \<Rightarrow> block_hash \<Rightarrow> nat list option" where
  "cache_insert h b c = c(h := Some (let l = (case c h of None \<Rightarrow> [] | Some l \<Rightarrow> l) in if b \<in> set l then l else l @ [b]))"

text \<open>One iteration of the loop of \<open>cache_full_blocks\<close>, at index \<open>i\<close> of the new full blocks.\<close>

definition cache_full_block_step ::
  "hash_fn \<Rightarrow> int \<Rightarrow> request \<Rightarrow> block_hash list \<Rightarrow> int \<Rightarrow> nat \<Rightarrow> nat \<times> nat \<Rightarrow>
   block_pool \<times> block_hash list \<times> int option \<Rightarrow> (block_pool \<times> block_hash list \<times> int option) result" where
  "cache_full_block_step hf nh r new_block_hashes num_cached_blocks block_size = (\<lambda>(i, b) (p, block_hashes, prev).
     if blk_hash (pblk p b) \<noteq> None then Inl AssertionError
     else rbind
       (if i < length new_block_hashes then Inr (new_block_hashes ! i, block_hashes)
        else let blk_idx = num_cached_blocks + int i;
                 start_token_idx = blk_idx * int block_size;
                 end_token_idx = (blk_idx + 1) * int block_size;
                 block_tokens = py_islice start_token_idx end_token_idx (all_token_ids r)
          in if length block_tokens \<noteq> block_size then Inl AssertionError
             else rbind (generate_block_hash_extra_keys r start_token_idx end_token_idx (-1))
               (\<lambda>(ks, _). let h = hash_block_tokens hf nh prev block_tokens ks in Inr (h, block_hashes @ [h])))
       (\<lambda>(h, block_hashes').
          rbind (set_block_hash (pblk p b) h)
            (\<lambda>b'. Inr ((upd_pool_block b (\<lambda>_. b') p)\<lparr>cached_blocks := cache_insert h b (cached_blocks p)\<rparr>,
                     block_hashes', Some (hash_value h)))))"

definition cache_full_blocks ::
  "hash_fn \<Rightarrow> int \<Rightarrow> request \<Rightarrow> nat list \<Rightarrow> block_hash list \<Rightarrow> int \<Rightarrow> int \<Rightarrow> nat \<Rightarrow> block_pool \<Rightarrow> (block_pool \<times> block_hash list) result" where
  "cache_full_blocks hf nh r blocks block_hashes num_cached_blocks num_full_blocks block_size p =
     (if num_cached_blocks = num_full_blocks then Inr (p, block_hashes)
      else if int (length block_hashes) < num_cached_blocks then Inl AssertionError
      else let new_full_blocks = py_islice num_cached_blocks num_full_blocks blocks;
               new_block_hashes = py_islice num_cached_blocks (int (length block_hashes)) block_hashes
        in rbind (if num_cached_blocks = 0 then Inr None
                  else rbind (py_iget blocks (num_cached_blocks - 1))
                    (\<lambda>pb. case blk_hash (pblk p pb) of None \<Rightarrow> Inl AssertionError | Some h \<Rightarrow> Inr (Some (hash_value h))))
             (\<lambda>prev. rbind (rfold (cache_full_block_step hf nh r new_block_hashes num_cached_blocks block_size)
                             (enumerate 0 new_full_blocks) (p, block_hashes, prev))
                (\<lambda>(p', bh, _). Inr (p', bh))))"

definition get_num_free_blocks :: "block_pool \<Rightarrow> int" where
  "get_num_free_blocks p = num_free_blocks (free_block_queue p)"

definition maybe_evict_cached_block :: "nat \<Rightarrow> block_pool \<Rightarrow> (bool \<times> block_pool) result" where
  "maybe_evict_cached_block b p =
     (case blk_hash (pblk p b) of None \<Rightarrow> Inr (False, p)
      | Some h \<Rightarrow>
         (case cached_blocks p h of None \<Rightarrow> Inr (False, p)
          | Some l \<Rightarrow>
              let p1 = upd_pool_block b reset_hash p
              in if b \<notin> set l then Inl KeyError
                 else let l' = remove1 b l
                   in Inr (True, p1\<lparr>cached_blocks := (cached_blocks p)(h := (if l' = [] then None else Some l'))\<rparr>)))"

fun get_new_blocks_loop :: "nat \<Rightarrow> nat list \<Rightarrow> block_pool \<Rightarrow> (nat list \<times> block_pool) result" where
  "get_new_blocks_loop 0 ret p = Inr (ret, p)"
| "get_new_blocks_loop (Suc k) ret p =
     rbind (popleft (free_block_queue p))
       (\<lambda>(b, q).
          let p1 = p\<lparr>free_block_queue := q\<rparr>
          in if ref_cnt (pblk p1 b) \<noteq> 0 then Inl AssertionError
             else rbind (if enable_caching p1 then maybe_evict_cached_block b p1 else Inr (False, p1))
               (\<lambda>(_, p2). get_new_blocks_loop k (ret @ [b]) (upd_pool_block b incr_ref p2)))"

definition get_new_blocks :: "int \<Rightarrow> block_pool \<Rightarrow> (nat list \<times> block_pool) result" where
  "get_new_blocks num_blocks p =
     (if num_blocks > get_num_free_blocks p then Inl ValueError else get_new_blocks_loop (nat num_blocks) [] p)"

definition touch_block :: "nat \<Rightarrow> block_pool \<Rightarrow> block_pool" where
  "touch_block b p =
     (let p1 = (if ref_cnt (pblk p b) = 0 \<and> b \<noteq> null_block p
                then p\<lparr>free_block_queue := queue_remove b (free_block_queue p)\<rparr> else p)
      in upd_pool_block b incr_ref p1)"

definition touch :: "nat list \<Rightarrow> block_pool \<Rightarrow> block_pool" where
  "touch bs p = fold touch_block bs p"

definition free_block :: "nat \<Rightarrow> block_pool \<Rightarrow> block_pool result" where
  "free_block b p =
     (let p1 = upd_pool_block b decr_ref p
      in if ref_cnt (pblk p1 b) = 0 \<and> b \<noteq> null_block p1
         then rbind (queue_append b (free_block_queue p1)) (\<lambda>q. Inr (p1\<lparr>free_block_queue := q\<rparr>))
         else Inr p1)"

definition free_blocks :: "nat list \<Rightarrow> block_pool \<Rightarrow> block_pool result" where
  "free_blocks bs p = rfold free_block bs p"

definition reset_prefix_cache :: "block_pool \<Rightarrow> bool \<times> block_pool" where
  "reset_prefix_cache p =
     (let num_used_blocks = int (num_gpu_blocks p) - get_num_free_blocks p
      in if num_used_blocks \<noteq> 1 then (False, p)
         else (True, p\<lparr>cached_blocks := (\<lambda>_. None),
                 free_block_queue := (free_block_queue p)\<lparr>q_blocks := map reset_hash (q_blocks (free_block_queue p))\<rparr>\<rparr>))"

definition get_usage :: "block_pool \<Rightarrow> real" where
  "get_usage p = 1 - real_of_int (get_num_free_blocks p) / real (num_gpu_blocks p)"

section \<open>The invariant\<close>

definition cache_list :: "(block_hash \<Rightarrow> nat list option) \<Rightarrow> block_hash \<Rightarrow> nat list" where
  "cache_list c h = (case c h of None \<Rightarrow> [] | Some l \<Rightarrow> l)"

definition cache_ok :: "(block_hash \<Rightarrow> nat list option) \<Rightarrow> (nat \<Rightarrow> block_hash option) \<Rightarrow> nat \<Rightarrow> bool" where
  "cache_ok c hs n \<longleftrightarrow> (\<forall>h b. b \<in> set (cache_list c h) \<longleftrightarrow> b < n \<and> hs b = Some h) \<and>
     (\<forall>h. c h \<noteq> Some [] \<and> distinct (cache_list c h))"

definition refs :: "block_pool \<Rightarrow> nat \<Rightarrow> int" where
  "refs p b = ref_cnt (pblk p b)"

definition hashes :: "block_pool \<Rightarrow> nat \<Rightarrow> block_hash option" where
  "hashes p b = blk_hash (pblk p b)"

lemma refs_fold: "ref_cnt (pblk p b) = refs p b" "blk_hash (pblk p b) = hashes p b"
  by (simp_all add: refs_def hashes_def)

definition pool_ok :: "block_pool \<Rightarrow> nat list \<Rightarrow> bool" where
  "pool_ok p fl \<longleftrightarrow> dll (free_block_queue p) fl \<and> 0 < num_gpu_blocks p \<and>
     length (q_blocks (free_block_queue p)) = num_gpu_blocks p \<and> null_block p = 0 \<and>
     (\<forall>b < num_gpu_blocks p. b \<in> set fl \<longleftrightarrow> b \<noteq> 0 \<and> refs p b = 0) \<and>
     (\<forall>b < num_gpu_blocks p. b \<noteq> 0 \<longrightarrow> 0 \<le> refs p b) \<and>
     cache_ok (cached_blocks p) (hashes p) (num_gpu_blocks p)"

lemma ref_simps [simp]:
  "ref_cnt (incr_ref x) = ref_cnt x + 1" "ref_cnt (decr_ref x) = ref_cnt x - 1" "ref_cnt (reset_hash x) = ref_cnt x"
  "blk_hash (incr_ref x) = blk_hash x" "blk_hash (decr_ref x) = blk_hash x" "blk_hash (reset_hash x) = None"
  by (simp_all add: incr_ref_def decr_ref_def reset_hash_def)

lemma upd_pool_block_fields [simp]:
  "num_gpu_blocks (upd_pool_block b f p) = num_gpu_blocks p"
  "enable_caching (upd_pool_block b f p) = enable_caching p"
  "cached_blocks (upd_pool_block b f p) = cached_blocks p"
  "null_block (upd_pool_block b f p) = null_block p"
  "length (q_blocks (free_block_queue (upd_pool_block b f p))) = length (q_blocks (free_block_queue p))"
  "pblk (upd_pool_block b f p) c = (if b = c \<and> b < length (q_blocks (free_block_queue p)) then f (pblk p c) else pblk p c)"
  by (simp_all add: upd_pool_block_def blk_upd_block)

lemma upd_pool_view:
  assumes "b < length (q_blocks (free_block_queue p))"
  shows "refs (upd_pool_block b incr_ref p) = (refs p)(b := refs p b + 1)"
    "refs (upd_pool_block b decr_ref p) = (refs p)(b := refs p b - 1)"
    "refs (upd_pool_block b reset_hash p) = refs p"
    "hashes (upd_pool_block b incr_ref p) = hashes p" "hashes (upd_pool_block b decr_ref p) = hashes p"
    "hashes (upd_pool_block b reset_hash p) = (hashes p)(b := None)"
  using assms by (auto simp: fun_eq_iff refs_def hashes_def)

lemma refs_queue_remove [simp]:
  "refs (p\<lparr>free_block_queue := queue_remove b (free_block_queue p)\<rparr>) = refs p"
  "hashes (p\<lparr>free_block_queue := queue_remove b (free_block_queue p)\<rparr>) = hashes p"
  by (simp_all add: fun_eq_iff refs_def hashes_def queue_remove_data)

lemma dll_upd_pool: "keeps_links f \<Longrightarrow> dll (free_block_queue (upd_pool_block b f p)) xs = dll (free_block_queue p) xs"
  by (simp add: upd_pool_block_def dll_upd_data)

lemma pool_ok_free_list: "pool_ok p fl \<Longrightarrow> distinct fl \<and> set fl \<subseteq> {1..<num_gpu_blocks p}"
proof -
  assume ok: "pool_ok p fl"
  then have "distinct fl" "set fl \<subseteq> {..<num_gpu_blocks p}" by (auto simp: pool_ok_def dll_def)
  moreover have "b \<noteq> 0" if "b \<in> set fl" for b using ok that calculation(2) by (auto simp: pool_ok_def)
  ultimately show ?thesis by (auto simp: Suc_le_eq)
qed

lemma pool_ok_num_free: "pool_ok p fl \<Longrightarrow> get_num_free_blocks p = int (length fl)"
  by (simp add: pool_ok_def dll_def get_num_free_blocks_def)

lemma pool_init_ok:
  assumes "0 < n"
  obtains p where "pool_init n caching = Inr p" "pool_ok p [1..<n]" "num_gpu_blocks p = n" "enable_caching p = caching"
    "\<And>b. b < n \<Longrightarrow> refs p b = 0 \<and> hashes p b = None" "cached_blocks p = (\<lambda>_. None)"
proof -
  obtain q :: "block_hash free_queue" where q: "queue_init (fresh_blocks n) = Inr q" "dll q [0..<n]" "length (q_blocks q) = n"
    and dat: "\<And>i. i < n \<Longrightarrow> ref_cnt (blk q i) = 0 \<and> blk_hash (blk q i) = None"
    by (rule queue_init_dll [of "fresh_blocks n"]) (use assms in \<open>auto simp: fresh_blocks_def new_block_def\<close>)
  have up: "[0..<n] = 0 # [1..<n]" using assms by (simp add: upt_conv_Cons)
  have pop: "popleft q = Inr (0, queue_remove 0 q)" "dll (queue_remove 0 q) [1..<n]"
    using dll_popleft_Cons [of q 0 "[1..<n]"] q(2) unfolding up by auto
  define p where "p = \<lparr>num_gpu_blocks = n, enable_caching = caching, free_block_queue = queue_remove 0 q,
                        cached_blocks = (\<lambda>_. None), null_block = 0\<rparr>"
  have "pool_init n caching = Inr p" using assms q pop by (simp add: pool_init_def p_def)
  moreover have "pool_ok p [1..<n]" using assms pop q dat
    by (auto simp: pool_ok_def p_def queue_remove_data cache_ok_def cache_list_def refs_def hashes_def)
  ultimately show ?thesis using that [of p] dat by (simp add: p_def queue_remove_data refs_def hashes_def)
qed

section \<open>Reference counting\<close>

lemma touch_block_ok:
  assumes "pool_ok p fl" "b < num_gpu_blocks p"
  shows "pool_ok (touch_block b p) (remove1 b fl)"
    "refs (touch_block b p) = (refs p)(b := refs p b + 1)" "hashes (touch_block b p) = hashes p"
    "cached_blocks (touch_block b p) = cached_blocks p" "num_gpu_blocks (touch_block b p) = num_gpu_blocks p"
    "enable_caching (touch_block b p) = enable_caching p"
proof -
  note ok = assms(1) [unfolded pool_ok_def]
  have b: "b < length (q_blocks (free_block_queue p))" using ok assms(2) by simp
  show r: "refs (touch_block b p) = (refs p)(b := refs p b + 1)" and h: "hashes (touch_block b p) = hashes p"
    using b by (simp_all add: touch_block_def Let_def upd_pool_view)
  show c: "cached_blocks (touch_block b p) = cached_blocks p" and n: "num_gpu_blocks (touch_block b p) = num_gpu_blocks p"
    and "enable_caching (touch_block b p) = enable_caching p"
    by (simp_all add: touch_block_def Let_def)
  have iff: "b \<in> set fl \<longleftrightarrow> refs p b = 0 \<and> b \<noteq> null_block p" using ok assms(2) by auto
  have "dll (free_block_queue (touch_block b p)) (remove1 b fl)"
  proof (cases "b \<in> set fl")
    case True
    then show ?thesis using ok iff by (simp add: touch_block_def refs_fold dll_upd_pool dll_remove)
  next
    case False
    then have "remove1 b fl = fl" by (rule remove1_idem)
    then show ?thesis using False iff ok by (auto simp: touch_block_def refs_fold dll_upd_pool)
  qed
  moreover have "c \<in> set (remove1 b fl) \<longleftrightarrow> c \<noteq> 0 \<and> refs (touch_block b p) c = 0" if "c < num_gpu_blocks p" for c
    using ok that pool_ok_free_list [OF assms(1)] unfolding r by (cases "c = b") auto
  moreover have "0 \<le> refs (touch_block b p) c" if "c < num_gpu_blocks p" "c \<noteq> 0" for c
    using ok that unfolding r by auto
  ultimately show "pool_ok (touch_block b p) (remove1 b fl)"
    using ok unfolding pool_ok_def n c h by (simp add: touch_block_def Let_def)
qed

lemma touch_ok:
  assumes "pool_ok p fl" "set bs \<subseteq> {..<num_gpu_blocks p}"
  shows "pool_ok (touch bs p) (filter (\<lambda>b. b \<notin> set bs) fl) \<and> refs (touch bs p) = (\<lambda>b. refs p b + int (count_list bs b)) \<and>
    hashes (touch bs p) = hashes p \<and> cached_blocks (touch bs p) = cached_blocks p \<and>
    num_gpu_blocks (touch bs p) = num_gpu_blocks p \<and> enable_caching (touch bs p) = enable_caching p"
  using assms
proof (induction bs arbitrary: p fl)
  case Nil
  then show ?case by (simp add: touch_def)
next
  case (Cons b bs)
  have b: "b < num_gpu_blocks p" using Cons.prems(2) by simp
  note st = touch_block_ok [OF Cons.prems(1) b]
  have "distinct fl" using pool_ok_free_list [OF Cons.prems(1)] by simp
  then have fl: "filter (\<lambda>x. x \<notin> set bs) (remove1 b fl) = filter (\<lambda>x. x \<notin> set (b # bs)) fl"
    by (auto simp: distinct_remove1_removeAll removeAll_filter_not_eq intro: filter_cong)
  have "touch (b # bs) p = touch bs (touch_block b p)" by (simp add: touch_def)
  then show ?case using Cons.IH [OF st(1)] Cons.prems(2) unfolding st fl by (simp add: fun_eq_iff)
qed

lemma pool_okI:
  assumes "pool_ok p fl" "dll (free_block_queue p') fl'" "length (q_blocks (free_block_queue p')) = num_gpu_blocks p"
    "num_gpu_blocks p' = num_gpu_blocks p" "null_block p' = null_block p"
    "\<And>b. b < num_gpu_blocks p \<Longrightarrow> b \<in> set fl' \<longleftrightarrow> b \<noteq> 0 \<and> refs p' b = 0"
    "\<And>b. b < num_gpu_blocks p \<Longrightarrow> b \<noteq> 0 \<Longrightarrow> 0 \<le> refs p' b"
    "cache_ok (cached_blocks p') (hashes p') (num_gpu_blocks p)"
  shows "pool_ok p' fl'"
  using assms(1) unfolding pool_ok_def by (simp add: assms)

lemma free_block_ok:
  assumes "pool_ok p fl" "b < num_gpu_blocks p" "b \<noteq> 0 \<longrightarrow> 1 \<le> refs p b"
  obtains p' where "free_block b p = Inr p'" "pool_ok p' (if b \<noteq> 0 \<and> refs p b = 1 then fl @ [b] else fl)"
    "refs p' = (refs p)(b := refs p b - 1)" "hashes p' = hashes p" "cached_blocks p' = cached_blocks p"
    "num_gpu_blocks p' = num_gpu_blocks p" "enable_caching p' = enable_caching p"
proof -
  note ok = assms(1) [unfolded pool_ok_def]
  let ?p = "upd_pool_block b decr_ref p"
  have len: "length (q_blocks (free_block_queue p)) = num_gpu_blocks p" and nb: "null_block p = 0"
    and c: "cache_ok (cached_blocks p) (hashes p) (num_gpu_blocks p)" using ok by simp_all
  have fl: "c \<in> set fl \<longleftrightarrow> c \<noteq> 0 \<and> refs p c = 0" "c \<noteq> 0 \<Longrightarrow> 0 \<le> refs p c" if "c < num_gpu_blocks p" for c
    using ok that by auto
  have b: "b \<notin> set fl" "b < length (q_blocks (free_block_queue p))" using fl(1) [OF assms(2)] assms(2,3) len by auto
  have d: "dll (free_block_queue ?p) fl" using ok by (simp add: dll_upd_pool)
  have rp: "refs ?p = (refs p)(b := refs p b - 1)" and hp: "hashes ?p = hashes p" using b by (simp_all add: upd_pool_view)
  have rb: "ref_cnt (pblk ?p b) = refs p b - 1" using b by (simp add: refs_def)
  show ?thesis
  proof (cases "b \<noteq> 0 \<and> refs p b = 1")
    case False
    have eq: "free_block b p = Inr ?p" unfolding free_block_def Let_def rb using False nb by auto
    have "pool_ok ?p fl"
    proof (rule pool_okI [OF assms(1) d])
      fix x assume x: "x < num_gpu_blocks p"
      show "x \<in> set fl \<longleftrightarrow> x \<noteq> 0 \<and> refs ?p x = 0"
        using fl(1) [OF x] False assms(3) b(1) unfolding rp by (cases "x = b") auto
      show "x \<noteq> 0 \<Longrightarrow> 0 \<le> refs ?p x" using fl(2) [OF x] assms(3) unfolding rp by (cases "x = b") auto
    qed (simp_all add: hp c len)
    then have "pool_ok ?p (if b \<noteq> 0 \<and> refs p b = 1 then fl @ [b] else fl)" using False by (simp only: if_False)
    then show ?thesis using that [OF eq] rp hp by simp
  next
    case True
    obtain q where q: "queue_append b (free_block_queue ?p) = Inr q" "dll q (fl @ [b])"
      using dll_append [OF d b(1)] b(2) by auto
    note dat = queue_append_data [OF q(1)]
    let ?q = "?p\<lparr>free_block_queue := q\<rparr>"
    have eq: "free_block b p = Inr ?q" unfolding free_block_def Let_def rb using True nb q(1) by simp
    have rq: "refs ?q = (refs p)(b := refs p b - 1)" and hq: "hashes ?q = hashes p"
      using rp hp dat by (simp_all add: fun_eq_iff refs_def hashes_def)
    have "pool_ok ?q (fl @ [b])"
    proof (rule pool_okI [OF assms(1)])
      fix x assume x: "x < num_gpu_blocks p"
      show "x \<in> set (fl @ [b]) \<longleftrightarrow> x \<noteq> 0 \<and> refs ?q x = 0" using fl(1) [OF x] True unfolding rq by (cases "x = b") auto
      show "x \<noteq> 0 \<Longrightarrow> 0 \<le> refs ?q x" using fl(2) [OF x] True unfolding rq by (cases "x = b") auto
    qed (simp_all add: hq c len dat(1) q(2))
    then show ?thesis using that [OF eq] True rq hq by simp
  qed
qed


text \<open>The blocks a call of \<open>free_blocks\<close> puts back, in the order in which their last reference goes.\<close>

fun released :: "(nat \<Rightarrow> int) \<Rightarrow> nat list \<Rightarrow> nat list" where
  "released rf [] = []"
| "released rf (b # bs) = (if b \<noteq> 0 \<and> rf b = 1 then [b] else []) @ released (rf(b := rf b - 1)) bs"

lemma free_blocks_ok:
  assumes "pool_ok p fl" "set bs \<subseteq> {..<num_gpu_blocks p}" "\<And>b. b \<noteq> 0 \<Longrightarrow> int (count_list bs b) \<le> refs p b \<or> b \<notin> set bs"
  shows "\<exists>p'. free_blocks bs p = Inr p' \<and> pool_ok p' (fl @ released (refs p) bs) \<and>
    refs p' = (\<lambda>b. refs p b - int (count_list bs b)) \<and> hashes p' = hashes p \<and> cached_blocks p' = cached_blocks p \<and>
    num_gpu_blocks p' = num_gpu_blocks p \<and> enable_caching p' = enable_caching p"
  using assms
proof (induction bs arbitrary: p fl)
  case Nil
  then show ?case by (simp add: free_blocks_def)
next
  case (Cons b bs)
  have b: "b < num_gpu_blocks p" "b \<noteq> 0 \<longrightarrow> 1 \<le> refs p b" using Cons.prems(2) Cons.prems(3) [of b] by auto
  obtain p1 where p1: "free_block b p = Inr p1" "pool_ok p1 (if b \<noteq> 0 \<and> refs p b = 1 then fl @ [b] else fl)"
    "refs p1 = (refs p)(b := refs p b - 1)" "hashes p1 = hashes p" "cached_blocks p1 = cached_blocks p"
    "num_gpu_blocks p1 = num_gpu_blocks p" "enable_caching p1 = enable_caching p"
    using free_block_ok [OF Cons.prems(1) b] by metis
  have "\<exists>p'. free_blocks bs p1 = Inr p' \<and> pool_ok p' ((if b \<noteq> 0 \<and> refs p b = 1 then fl @ [b] else fl) @ released (refs p1) bs) \<and>
    refs p' = (\<lambda>x. refs p1 x - int (count_list bs x)) \<and> hashes p' = hashes p1 \<and> cached_blocks p' = cached_blocks p1 \<and>
    num_gpu_blocks p' = num_gpu_blocks p1 \<and> enable_caching p' = enable_caching p1"
  proof (rule Cons.IH [OF p1(2)])
    show "set bs \<subseteq> {..<num_gpu_blocks p1}" using Cons.prems(2) p1(6) by simp
    show "int (count_list bs x) \<le> refs p1 x \<or> x \<notin> set bs" if "x \<noteq> 0" for x
      using Cons.prems(3) [OF that] unfolding p1(3) by (auto split: if_splits)
  qed
  then show ?case using p1 by (auto simp: free_blocks_def fun_eq_iff)
qed

section \<open>Eviction and allocation\<close>

lemma cache_ok_remove:
  assumes c: "cache_ok c hs n" and h: "hs b = Some h" "c h = Some l" and b: "b < n"
  shows "b \<in> set l" and "cache_ok (c(h := (if remove1 b l = [] then None else Some (remove1 b l)))) (hs(b := None)) n"
proof -
  have l: "cache_list c h = l" using h by (simp add: cache_list_def)
  show bl: "b \<in> set l" using c h b unfolding cache_ok_def by (metis l)
  have dl: "distinct l" using c l unfolding cache_ok_def by metis
  let ?c = "c(h := (if remove1 b l = [] then None else Some (remove1 b l)))"
  have cl: "cache_list ?c k = (if k = h then remove1 b l else cache_list c k)" for k
    by (simp add: cache_list_def)
  have "x \<in> set (cache_list ?c k) \<longleftrightarrow> x < n \<and> (hs(b := None)) x = Some k" for x k
    using c dl h l unfolding cl cache_ok_def by (auto split: if_splits)
  moreover have "?c k \<noteq> Some [] \<and> distinct (cache_list ?c k)" for k
    using c dl unfolding cl cache_ok_def by auto
  ultimately show "cache_ok ?c (hs(b := None)) n" unfolding cache_ok_def by blast
qed

definition evicted :: "nat \<Rightarrow> (nat \<Rightarrow> block_hash option) \<Rightarrow> (block_hash \<Rightarrow> nat list option) \<Rightarrow> block_hash \<Rightarrow> nat list option" where
  "evicted b hs c = (case hs b of None \<Rightarrow> c
     | Some h \<Rightarrow> c(h := (let l = remove1 b (cache_list c h) in if l = [] then None else Some l)))"

lemma maybe_evict_ok:
  assumes "pool_ok p fl" "b < num_gpu_blocks p"
  obtains p' where "maybe_evict_cached_block b p = Inr (hashes p b \<noteq> None, p')" "pool_ok p' fl" "refs p' = refs p"
    "hashes p' = (hashes p)(b := None)" "cached_blocks p' = evicted b (hashes p) (cached_blocks p)"
    "num_gpu_blocks p' = num_gpu_blocks p" "enable_caching p' = enable_caching p"
proof (cases "hashes p b")
  case None
  then have "(hashes p)(b := None) = hashes p" by auto
  then show ?thesis using that [of p] None assms by (simp add: maybe_evict_cached_block_def refs_fold evicted_def)
next
  case (Some h)
  note ok = assms(1) [unfolded pool_ok_def]
  have c: "cache_ok (cached_blocks p) (hashes p) (num_gpu_blocks p)" and len: "length (q_blocks (free_block_queue p)) = num_gpu_blocks p"
    using ok by auto
  then have "b \<in> set (cache_list (cached_blocks p) h)" using Some assms(2) by (simp add: cache_ok_def)
  then obtain l where l: "cached_blocks p h = Some l" by (cases "cached_blocks p h") (auto simp: cache_list_def)
  note cr = cache_ok_remove [OF c Some l assms(2)]
  let ?c = "(cached_blocks p)(h := (if remove1 b l = [] then None else Some (remove1 b l)))"
  let ?p = "(upd_pool_block b reset_hash p)\<lparr>cached_blocks := ?c\<rparr>"
  have eq: "maybe_evict_cached_block b p = Inr (True, ?p)"
    using Some l cr(1) by (simp add: maybe_evict_cached_block_def refs_fold Let_def)
  have r: "refs ?p = refs p" and h: "hashes ?p = (hashes p)(b := None)"
    using assms(2) len by (simp_all add: fun_eq_iff refs_def hashes_def)
  have "pool_ok ?p fl"
    by (rule pool_okI [OF assms(1)]) (use ok cr(2) in \<open>simp_all add: r h dll_upd_pool\<close>)
  then show ?thesis using that [of ?p] eq Some r h l by (simp add: evicted_def cache_list_def Let_def)
qed

text \<open>What allocation of the block list \<open>bs\<close> leaves in the prefix-cache index.\<close>

fun evict_all :: "nat list \<Rightarrow> (nat \<Rightarrow> block_hash option) \<Rightarrow> (block_hash \<Rightarrow> nat list option) \<Rightarrow> block_hash \<Rightarrow> nat list option" where
  "evict_all [] hs c = c"
| "evict_all (b # bs) hs c = evict_all bs (hs(b := None)) (evicted b hs c)"

text \<open>Resetting the hash of a block and taking a reference to it commute.\<close>

lemma upd_pool_commute:
  "upd_pool_block b incr_ref ((upd_pool_block b reset_hash p)\<lparr>cached_blocks := c\<rparr>) =
     (upd_pool_block b reset_hash (upd_pool_block b incr_ref p))\<lparr>cached_blocks := c\<rparr>"
proof (cases "b < length (q_blocks (free_block_queue p))")
  case True
  have "incr_ref (reset_hash x) = reset_hash (incr_ref x)" for x :: "block_hash kv_cache_block"
    by (cases x) (simp add: incr_ref_def reset_hash_def)
  then show ?thesis using True by (cases p) (simp add: upd_pool_block_def upd_block_def)
next
  case False
  then show ?thesis by (cases p) (simp add: upd_pool_block_def upd_block_def list_update_beyond)
qed

lemma evict_then_incr:
  "rbind (maybe_evict_cached_block b p) (\<lambda>(e, p'). g (upd_pool_block b incr_ref p')) =
   rbind (maybe_evict_cached_block b (upd_pool_block b incr_ref p)) (\<lambda>(e, p'). g p')"
proof -
  have h: "blk_hash (pblk (upd_pool_block b incr_ref p) b) = blk_hash (pblk p b)" by simp
  show ?thesis unfolding maybe_evict_cached_block_def h
    by (auto simp: Let_def upd_pool_commute simp del: upd_pool_block_fields(6) split: option.splits)
qed

lemma get_new_blocks_loop_ok:
  assumes "pool_ok p (bs @ fl)" "enable_caching p \<or> (\<forall>b < num_gpu_blocks p. hashes p b = None)"
  shows "\<exists>p'. get_new_blocks_loop (length bs) ret p = Inr (ret @ bs, p') \<and> pool_ok p' fl \<and>
    refs p' = (\<lambda>b. if b \<in> set bs then 1 else refs p b) \<and>
    (\<forall>b < num_gpu_blocks p. hashes p' b = (if b \<in> set bs then None else hashes p b)) \<and>
    num_gpu_blocks p' = num_gpu_blocks p \<and> enable_caching p' = enable_caching p"
  using assms
proof (induction bs arbitrary: p ret)
  case Nil
  then show ?case by simp
next
  case (Cons b bs)
  note ok = Cons.prems(1) [unfolded pool_ok_def]
  let ?p1 = "p\<lparr>free_block_queue := queue_remove b (free_block_queue p)\<rparr>"
  have n: "b < num_gpu_blocks p" "b \<noteq> 0" "b \<notin> set (bs @ fl)" using pool_ok_free_list [OF Cons.prems(1)] by auto
  have rb: "refs p b = 0" and len: "length (q_blocks (free_block_queue p)) = num_gpu_blocks p" using ok n by auto
  have pop: "popleft (free_block_queue p) = Inr (b, free_block_queue ?p1)" "dll (free_block_queue ?p1) (bs @ fl)"
    using dll_popleft_Cons [of "free_block_queue p" b "bs @ fl"] ok by auto
  define p2 where "p2 = upd_pool_block b incr_ref ?p1"
  have r2: "refs p2 = (refs p)(b := 1)" and h2: "hashes p2 = hashes p"
    using n len rb by (simp_all add: p2_def upd_pool_view)
  have ok2: "pool_ok p2 (bs @ fl)"
  proof (rule pool_okI [OF Cons.prems(1)])
    show "dll (free_block_queue p2) (bs @ fl)" unfolding p2_def dll_upd_pool [OF keeps_links_intros(1)] by (rule pop(2))
    fix x assume x: "x < num_gpu_blocks p"
    show "x \<in> set (bs @ fl) \<longleftrightarrow> x \<noteq> 0 \<and> refs p2 x = 0" using ok x n unfolding r2 by (cases "x = b") auto
    show "x \<noteq> 0 \<Longrightarrow> 0 \<le> refs p2 x" using ok x unfolding r2 by (cases "x = b") auto
  qed (use ok in \<open>simp_all add: h2\<close>, simp_all add: p2_def)
  have nf: "ref_cnt (pblk ?p1 b) = 0" using rb by (simp add: refs_def queue_remove_data)
  obtain p3 where p3: "(if enable_caching p then maybe_evict_cached_block b p2 else Inr (False, p2)) = Inr (hashes p b \<noteq> None, p3)"
    "pool_ok p3 (bs @ fl)" "refs p3 = (refs p)(b := 1)" "\<forall>x < num_gpu_blocks p. hashes p3 x = (if x = b then None else hashes p x)"
    "num_gpu_blocks p3 = num_gpu_blocks p" "enable_caching p3 = enable_caching p"
  proof (cases "enable_caching p")
    case True
    have n2: "num_gpu_blocks p2 = num_gpu_blocks p" "enable_caching p2 = enable_caching p" by (simp_all add: p2_def)
    then have "b < num_gpu_blocks p2" using n by simp
    then obtain p' where "maybe_evict_cached_block b p2 = Inr (hashes p2 b \<noteq> None, p')" "pool_ok p' (bs @ fl)"
      "refs p' = refs p2" "hashes p' = (hashes p2)(b := None)" "num_gpu_blocks p' = num_gpu_blocks p2" "enable_caching p' = enable_caching p2"
      using maybe_evict_ok [OF ok2] by metis
    then show ?thesis using that [of p'] True unfolding h2 r2 n2 by simp
  next
    case False
    then have none: "\<forall>x < num_gpu_blocks p. hashes p x = None" using Cons.prems(2) by simp
    then have "(hashes p b \<noteq> None) = False" using n(1) by simp
    moreover have "num_gpu_blocks p2 = num_gpu_blocks p" "enable_caching p2 = enable_caching p" by (simp_all add: p2_def)
    ultimately show ?thesis using that [of p2] ok2 none False unfolding h2 r2 by simp
  qed
  have step: "get_new_blocks_loop (length (b # bs)) ret p = get_new_blocks_loop (length bs) (ret @ [b]) p3"
  proof -
    have "get_new_blocks_loop (length (b # bs)) ret p =
        rbind (if enable_caching p then maybe_evict_cached_block b ?p1 else Inr (False, ?p1))
          (\<lambda>(_, p'). get_new_blocks_loop (length bs) (ret @ [b]) (upd_pool_block b incr_ref p'))"
      using pop(1) nf by simp
    also have "\<dots> = rbind (if enable_caching p then maybe_evict_cached_block b p2 else Inr (False, p2))
          (\<lambda>(_, p'). get_new_blocks_loop (length bs) (ret @ [b]) p')"
      using evict_then_incr [of b ?p1 "get_new_blocks_loop (length bs) (ret @ [b])"] by (simp add: p2_def)
    finally show ?thesis unfolding p3(1) by simp
  qed
  have "enable_caching p3 \<or> (\<forall>x < num_gpu_blocks p3. hashes p3 x = None)"
    using Cons.prems(2) p3(4-6) by auto
  from Cons.IH [OF p3(2) this, of "ret @ [b]"] show ?case
    unfolding step p3(3,5,6) using p3(4) by (auto simp: fun_eq_iff)
qed

lemma get_new_blocks_ok:
  assumes "pool_ok p fl" "enable_caching p \<or> (\<forall>b < num_gpu_blocks p. hashes p b = None)" "k \<le> length fl"
  shows "\<exists>p'. get_new_blocks (int k) p = Inr (take k fl, p') \<and> pool_ok p' (drop k fl) \<and>
    refs p' = (\<lambda>b. if b \<in> set (take k fl) then 1 else refs p b) \<and>
    (\<forall>b < num_gpu_blocks p. hashes p' b = (if b \<in> set (take k fl) then None else hashes p b)) \<and>
    num_gpu_blocks p' = num_gpu_blocks p \<and> enable_caching p' = enable_caching p"
proof -
  have "length (take k fl) = k" using assms(3) by simp
  then show ?thesis
    using get_new_blocks_loop_ok [of p "take k fl" "drop k fl" "[]"] assms pool_ok_num_free [OF assms(1)]
    by (simp add: get_new_blocks_def)
qed

lemma get_new_blocks_fail: "pool_ok p fl \<Longrightarrow> int (length fl) < k \<Longrightarrow> get_new_blocks k p = Inl ValueError"
  by (simp add: get_new_blocks_def pool_ok_num_free)


section \<open>Reset and usage\<close>

lemma free_list_bound: "pool_ok p fl \<Longrightarrow> length fl \<le> num_gpu_blocks p - 1"
proof -
  assume ok: "pool_ok p fl"
  then have "card (set fl) \<le> card {1..<num_gpu_blocks p}"
    using pool_ok_free_list by (intro card_mono) auto
  then show ?thesis using pool_ok_free_list [OF ok] by (simp add: distinct_card)
qed

lemma all_free_iff:
  assumes ok: "pool_ok p fl"
  shows "length fl = num_gpu_blocks p - 1 \<longleftrightarrow> (\<forall>b < num_gpu_blocks p. b \<noteq> 0 \<longrightarrow> refs p b = 0)"
proof -
  have sub: "set fl \<subseteq> {1..<num_gpu_blocks p}" "distinct fl" using pool_ok_free_list [OF ok] by auto
  have "length fl = num_gpu_blocks p - 1 \<longleftrightarrow> card (set fl) = card {1..<num_gpu_blocks p}" using sub by (simp add: distinct_card)
  also have "\<dots> \<longleftrightarrow> set fl = {1..<num_gpu_blocks p}" using sub card_subset_eq [of "{1..<num_gpu_blocks p}"] by auto
  also have "\<dots> \<longleftrightarrow> (\<forall>b < num_gpu_blocks p. b \<noteq> 0 \<longrightarrow> refs p b = 0)"
    using ok sub by (auto simp: pool_ok_def Suc_le_eq set_eq_iff)
  finally show ?thesis .
qed

lemma reset_ok:
  assumes ok: "pool_ok p fl"
  shows "fst (reset_prefix_cache p) \<longleftrightarrow> (\<forall>b < num_gpu_blocks p. b \<noteq> 0 \<longrightarrow> refs p b = 0)"
    and "\<not> fst (reset_prefix_cache p) \<Longrightarrow> snd (reset_prefix_cache p) = p"
    and "fst (reset_prefix_cache p) \<Longrightarrow> cached_blocks (snd (reset_prefix_cache p)) = (\<lambda>_. None) \<and>
           refs (snd (reset_prefix_cache p)) = refs p \<and>
           (\<forall>b < num_gpu_blocks p. hashes (snd (reset_prefix_cache p)) b = None)"
    and "pool_ok (snd (reset_prefix_cache p)) fl"
    and "num_gpu_blocks (snd (reset_prefix_cache p)) = num_gpu_blocks p"
    and "enable_caching (snd (reset_prefix_cache p)) = enable_caching p"
proof -
  let ?q = "(free_block_queue p)\<lparr>q_blocks := map reset_hash (q_blocks (free_block_queue p))\<rparr>"
  let ?p = "p\<lparr>cached_blocks := (\<lambda>_. None), free_block_queue := ?q\<rparr>"
  have len: "length (q_blocks (free_block_queue p)) = num_gpu_blocks p" and n: "0 < num_gpu_blocks p" using ok by (simp_all add: pool_ok_def)
  have used: "int (num_gpu_blocks p) - get_num_free_blocks p \<noteq> 1 \<longleftrightarrow> length fl \<noteq> num_gpu_blocks p - 1"
    using pool_ok_num_free [OF ok] n by auto
  have eq: "reset_prefix_cache p = (if length fl = num_gpu_blocks p - 1 then (True, ?p) else (False, p))"
    using used by (simp add: reset_prefix_cache_def)
  show "fst (reset_prefix_cache p) \<longleftrightarrow> (\<forall>b < num_gpu_blocks p. b \<noteq> 0 \<longrightarrow> refs p b = 0)"
    using eq all_free_iff [OF ok] by simp
  show "\<not> fst (reset_prefix_cache p) \<Longrightarrow> snd (reset_prefix_cache p) = p" using eq by (auto split: if_splits)
  have b: "i < num_gpu_blocks p \<Longrightarrow> pblk ?p i = reset_hash (pblk p i)" for i using len by simp
  have nb: "num_gpu_blocks p \<le> i \<Longrightarrow> pblk ?p i = pblk p i" for i using len nth_beyond [of "q_blocks ?q" "q_blocks (free_block_queue p)" i] by simp
  have r: "refs ?p = refs p" and h: "i < num_gpu_blocks p \<Longrightarrow> hashes ?p i = None" for i
  proof -
    show "refs ?p = refs p" using b nb by (metis (no_types, lifting) ext not_less ref_simps(3) refs_def)
    show "i < num_gpu_blocks p \<Longrightarrow> hashes ?p i = None" using b [of i] by (simp add: hashes_def)
  qed
  then show "fst (reset_prefix_cache p) \<Longrightarrow> cached_blocks (snd (reset_prefix_cache p)) = (\<lambda>_. None) \<and>
           refs (snd (reset_prefix_cache p)) = refs p \<and>
           (\<forall>b < num_gpu_blocks p. hashes (snd (reset_prefix_cache p)) b = None)"
    using eq by (auto split: if_splits)
  have links: "pvf ?q = pvf (free_block_queue p)" "nxf ?q = nxf (free_block_queue p)"
  proof -
    have "prev_free_block (pblk ?p i) = prev_free_block (pblk p i) \<and> next_free_block (pblk ?p i) = next_free_block (pblk p i)" for i
      using b [of i] nb [of i] by (cases "i < num_gpu_blocks p") (simp_all add: reset_hash_def)
    then show "pvf ?q = pvf (free_block_queue p)" "nxf ?q = nxf (free_block_queue p)" by (simp_all add: fun_eq_iff)
  qed
  have "dll (free_block_queue p) fl" using ok by (simp add: pool_ok_def)
  then have "dll ?q fl" unfolding dll_def links by (simp add: reset_hash_def)
  then have "pool_ok ?p fl" using ok h by (intro pool_okI [OF ok]) (auto simp: r len pool_ok_def cache_ok_def cache_list_def)
  then show "pool_ok (snd (reset_prefix_cache p)) fl" using eq ok by simp
  show "num_gpu_blocks (snd (reset_prefix_cache p)) = num_gpu_blocks p"
    "enable_caching (snd (reset_prefix_cache p)) = enable_caching p" using eq by simp_all
qed

lemma usage_bounds: "pool_ok p fl \<Longrightarrow> 0 < get_usage p \<and> get_usage p \<le> 1"
proof -
  assume ok: "pool_ok p fl"
  have n: "0 < num_gpu_blocks p" using ok by (simp add: pool_ok_def)
  have "length fl < num_gpu_blocks p" using free_list_bound [OF ok] n by simp
  then show ?thesis using n pool_ok_num_free [OF ok] by (simp add: get_usage_def field_simps)
qed


section \<open>Caching full blocks\<close>

lemma cache_ok_insert:
  assumes c: "cache_ok c hs n" and b: "hs b = None" "b < n"
  shows "cache_ok (cache_insert h b c) (hs(b := Some h)) n"
proof -
  have cl: "cache_list (cache_insert h b c) k = (if k = h then cache_list c h @ [b] else cache_list c k)" for k
  proof -
    have "b \<notin> set (cache_list c h)" using c b by (simp add: cache_ok_def)
    then show ?thesis by (auto simp: cache_insert_def cache_list_def Let_def split: option.splits)
  qed
  have "x \<in> set (cache_list (cache_insert h b c) k) \<longleftrightarrow> x < n \<and> (hs(b := Some h)) x = Some k" for x k
    using c b unfolding cl cache_ok_def by (auto split: if_splits)
  moreover have "distinct (cache_list (cache_insert h b c) k)" for k
    using c b unfolding cl cache_ok_def by auto
  moreover have "cache_insert h b c k \<noteq> Some []" for k
    using c by (auto simp: cache_insert_def cache_ok_def Let_def split: option.splits)
  ultimately show ?thesis unfolding cache_ok_def by blast
qed

text \<open>Giving block \<open>b\<close> its hash and entering it into the index.\<close>

definition with_hash :: "nat \<Rightarrow> block_hash \<Rightarrow> block_pool \<Rightarrow> block_pool" where
  "with_hash b h p = (upd_pool_block b (\<lambda>x. x\<lparr>blk_hash := Some h\<rparr>) p)\<lparr>cached_blocks := cache_insert h b (cached_blocks p)\<rparr>"

lemma with_hash_ok:
  assumes "pool_ok p fl" "b < num_gpu_blocks p" "hashes p b = None"
  shows "pool_ok (with_hash b h p) fl" "refs (with_hash b h p) = refs p" "hashes (with_hash b h p) = (hashes p)(b := Some h)"
    "num_gpu_blocks (with_hash b h p) = num_gpu_blocks p" "enable_caching (with_hash b h p) = enable_caching p"
proof -
  note ok = assms(1) [unfolded pool_ok_def]
  show n: "num_gpu_blocks (with_hash b h p) = num_gpu_blocks p" "enable_caching (with_hash b h p) = enable_caching p"
    by (simp_all add: with_hash_def)
  show r: "refs (with_hash b h p) = refs p" and h: "hashes (with_hash b h p) = (hashes p)(b := Some h)"
    using ok assms(2) by (simp_all add: with_hash_def fun_eq_iff refs_def hashes_def)
  show "pool_ok (with_hash b h p) fl"
  proof (rule pool_okI [OF assms(1)])
    show "cache_ok (cached_blocks (with_hash b h p)) (hashes (with_hash b h p)) (num_gpu_blocks p)"
      unfolding h using cache_ok_insert [of "cached_blocks p" "hashes p"] ok assms(2,3) by (simp add: with_hash_def)
    show "dll (free_block_queue (with_hash b h p)) fl" using ok by (simp add: with_hash_def dll_upd_pool)
  qed (use ok in \<open>simp_all add: r n\<close>, simp_all add: with_hash_def)
qed

text \<open>The block hashes kept for a request are a chain over the successive blocks of its tokens.\<close>

definition req_hashes_ok :: "hash_fn \<Rightarrow> int \<Rightarrow> nat \<Rightarrow> request \<Rightarrow> block_hash list \<Rightarrow> bool" where
  "req_hashes_ok hf nh bs r hs \<longleftrightarrow> hash_chain hf nh None hs \<and> length hs * bs \<le> num_tokens r \<and>
     (\<forall>i < length hs. token_ids (hs ! i) = py_slice (i * bs) (i * bs + bs) (all_token_ids r))"

lemma req_hashes_ok_snoc:
  assumes "req_hashes_ok hf nh bs r hs" "(length hs + 1) * bs \<le> num_tokens r"
  shows "req_hashes_ok hf nh bs r (hs @ [hash_block_tokens hf nh (chain_end None hs)
           (py_slice (length hs * bs) (length hs * bs + bs) (all_token_ids r)) ks])"
  using assms by (auto simp: req_hashes_ok_def hash_chain_append hash_block_tokens_def nth_append less_Suc_eq)

text \<open>The state of the caching loop before its iteration \<open>i\<close>: the hashes so far extend those given.\<close>

definition cfb_inv :: "hash_fn \<Rightarrow> int \<Rightarrow> nat \<Rightarrow> request \<Rightarrow> block_hash list \<Rightarrow> nat \<Rightarrow> block_hash list \<Rightarrow> int option \<Rightarrow> bool" where
  "cfb_inv hf nh bs r bh0 k bh prev \<longleftrightarrow> req_hashes_ok hf nh bs r bh \<and> length bh = max (length bh0) k \<and>
     take (length bh0) bh = bh0 \<and> prev = chain_end None (take k bh)"

lemma chain_end_take_Suc: "k < length hs \<Longrightarrow> chain_end None (take (Suc k) hs) = Some (hash_value (hs ! k))"
  by (simp add: chain_end_def take_Suc_conv_app_nth)

lemma cfb_step:
  assumes inv: "cfb_inv hf nh bs r bh0 (nc + i) bh prev" and none: "hashes p b = None"
    and ext: "request_hashable r" and toks: "(nc + i + 1) * bs \<le> num_tokens r" and nc: "nc \<le> length bh0"
  shows "\<exists>bh'. cache_full_block_step hf nh r (drop nc bh0) (int nc) bs (i, b) (p, bh, prev) =
           Inr (with_hash b (bh' ! (nc + i)) p, bh', Some (hash_value (bh' ! (nc + i)))) \<and>
         cfb_inv hf nh bs r bh0 (nc + i + 1) bh' (Some (hash_value (bh' ! (nc + i)))) \<and> take (length bh) bh' = bh"
proof -
  note iv = inv [unfolded cfb_inv_def]
  have set: "set_block_hash (pblk p b) h = Inr ((pblk p b)\<lparr>blk_hash := Some h\<rparr>)" for h
    using none by (simp add: set_block_hash_def hashes_def)
  have wh: "(upd_pool_block b (\<lambda>_. (pblk p b)\<lparr>blk_hash := Some h\<rparr>) p)\<lparr>cached_blocks := cache_insert h b (cached_blocks p)\<rparr> = with_hash b h p" for h
    by (simp add: with_hash_def upd_pool_block_def upd_block_def)
  show ?thesis
  proof (cases "nc + i < length bh0")
    case True
    then have "bh ! (nc + i) = bh0 ! (nc + i)" using iv by (metis nth_take)
    then have "cache_full_block_step hf nh r (drop nc bh0) (int nc) bs (i, b) (p, bh, prev) =
        Inr (with_hash b (bh ! (nc + i)) p, bh, Some (hash_value (bh ! (nc + i))))"
      using True none nc by (simp add: cache_full_block_step_def hashes_def [symmetric] set wh less_diff_conv add.commute)
    moreover have "cfb_inv hf nh bs r bh0 (nc + i + 1) bh (Some (hash_value (bh ! (nc + i))))"
      using iv True chain_end_take_Suc [of "nc + i" bh] by (simp add: cfb_inv_def)
    ultimately show ?thesis by auto
  next
    case False
    then have len: "length bh = nc + i" "take (nc + i) bh = bh" using iv by auto
    let ?s = "py_slice ((nc + i) * bs) ((nc + i) * bs + bs) (all_token_ids r)"
    have sl: "length ?s = bs" using toks by (simp add: py_slice_def num_tokens_def)
    obtain ks j where g: "generate_block_hash_extra_keys r (int ((nc + i) * bs)) (int ((nc + i) * bs + bs)) (-1) = Inr (ks, j)"
      using generate_total [OF ext, of "-1" "int ((nc + i) * bs)" "int ((nc + i) * bs + bs)"] by blast
    let ?h = "hash_block_tokens hf nh prev ?s ks"
    have "\<not> i < length (drop nc bh0)" using False nc by auto
    moreover have e: "(int nc + int i) * int bs = int ((nc + i) * bs)" "(int nc + int i + 1) * int bs = int ((nc + i) * bs + bs)"
      by (simp_all add: algebra_simps)
    ultimately have "cache_full_block_step hf nh r (drop nc bh0) (int nc) bs (i, b) (p, bh, prev) =
        Inr (with_hash b ?h p, bh @ [?h], Some (hash_value ?h))"
      using none sl g unfolding cache_full_block_step_def prod.case Let_def e py_islice_nat hashes_def [symmetric] by (simp add: set wh)
    moreover have "prev = chain_end None bh" using iv len by simp
    then have "req_hashes_ok hf nh bs r (bh @ [?h])"
      using req_hashes_ok_snoc [of hf nh bs r bh ks] iv toks len by simp
    then have "cfb_inv hf nh bs r bh0 (nc + i + 1) (bh @ [?h]) (Some (hash_value ?h))"
      using iv len False chain_end_take_Suc [of "nc + i" "bh @ [?h]"] by (auto simp: cfb_inv_def nth_append)
    moreover have "(bh @ [?h]) ! (nc + i) = ?h" using len by (simp add: nth_append)
    ultimately show ?thesis by (intro exI [of _ "bh @ [?h]"]) simp
  qed
qed

lemma cfb_loop:
  assumes "cfb_inv hf nh bs r bh0 (nc + i) bh prev" "pool_ok p fl" "distinct xs" "set xs \<subseteq> {..<num_gpu_blocks p}"
    "\<forall>b \<in> set xs. hashes p b = None" "request_hashable r" "(nc + i + length xs) * bs \<le> num_tokens r" "nc \<le> length bh0"
  shows "\<exists>p' bh' prev'. rfold (cache_full_block_step hf nh r (drop nc bh0) (int nc) bs) (enumerate i xs) (p, bh, prev) = Inr (p', bh', prev') \<and>
    cfb_inv hf nh bs r bh0 (nc + i + length xs) bh' prev' \<and> pool_ok p' fl \<and> refs p' = refs p \<and>
    (\<forall>j < length xs. hashes p' (xs ! j) = Some (bh' ! (nc + i + j))) \<and> (\<forall>b. b \<notin> set xs \<longrightarrow> hashes p' b = hashes p b) \<and>
    num_gpu_blocks p' = num_gpu_blocks p \<and> enable_caching p' = enable_caching p \<and> take (length bh) bh' = bh"
  using assms
proof (induction xs arbitrary: i p bh prev)
  case Nil
  then show ?case by simp
next
  case (Cons b xs)
  have b: "b < num_gpu_blocks p" "hashes p b = None" using Cons.prems(4,5) by auto
  have "(nc + i + 1) * bs \<le> (nc + i + length (b # xs)) * bs" by (intro mult_le_mono1) simp
  then have tk: "(nc + i + 1) * bs \<le> num_tokens r" using Cons.prems(7) by linarith
  from cfb_step [OF Cons.prems(1) b(2) Cons.prems(6) tk Cons.prems(8)] obtain bh1 where
    st: "cache_full_block_step hf nh r (drop nc bh0) (int nc) bs (i, b) (p, bh, prev) =
           Inr (with_hash b (bh1 ! (nc + i)) p, bh1, Some (hash_value (bh1 ! (nc + i))))"
    and inv1: "cfb_inv hf nh bs r bh0 (nc + i + 1) bh1 (Some (hash_value (bh1 ! (nc + i))))" and t1: "take (length bh) bh1 = bh" by blast
  let ?p = "with_hash b (bh1 ! (nc + i)) p"
  note wh = with_hash_ok [OF Cons.prems(2) b]
  have "\<exists>p' bh' prev'. rfold (cache_full_block_step hf nh r (drop nc bh0) (int nc) bs) (enumerate (Suc i) xs) (?p, bh1, Some (hash_value (bh1 ! (nc + i)))) = Inr (p', bh', prev') \<and>
    cfb_inv hf nh bs r bh0 (nc + Suc i + length xs) bh' prev' \<and> pool_ok p' fl \<and> refs p' = refs ?p \<and>
    (\<forall>j < length xs. hashes p' (xs ! j) = Some (bh' ! (nc + Suc i + j))) \<and> (\<forall>c. c \<notin> set xs \<longrightarrow> hashes p' c = hashes ?p c) \<and>
    num_gpu_blocks p' = num_gpu_blocks ?p \<and> enable_caching p' = enable_caching ?p \<and> take (length bh1) bh' = bh1"
    by (rule Cons.IH) (use Cons.prems inv1 wh in auto)
  then obtain p' bh' prev' where
    r: "rfold (cache_full_block_step hf nh r (drop nc bh0) (int nc) bs) (enumerate (Suc i) xs) (?p, bh1, Some (hash_value (bh1 ! (nc + i)))) = Inr (p', bh', prev')"
      "cfb_inv hf nh bs r bh0 (nc + Suc i + length xs) bh' prev'" "pool_ok p' fl" "refs p' = refs ?p"
    and hx: "\<forall>j < length xs. hashes p' (xs ! j) = Some (bh' ! (nc + Suc i + j))" "\<forall>c. c \<notin> set xs \<longrightarrow> hashes p' c = hashes ?p c"
    and nn: "num_gpu_blocks p' = num_gpu_blocks ?p" "enable_caching p' = enable_caching ?p" and t2: "take (length bh1) bh' = bh1" by blast
  have l1: "nc + i < length bh1" "length bh \<le> length bh1" using inv1 t1 by (auto simp: cfb_inv_def) (metis length_take min.cobounded1 nat_le_linear)
  have e: "bh' ! (nc + i) = bh1 ! (nc + i)" using l1(1) t2 by (metis nth_take)
  have "hashes p' ((b # xs) ! j) = Some (bh' ! (nc + i + j))" if "j < length (b # xs)" for j
    using that hx wh(3) e Cons.prems(3) by (cases j) auto
  moreover have "take (length bh) bh' = bh" using t1 t2 l1(2) by (metis min.absorb1 take_take)
  moreover have "\<forall>c. c \<notin> set (b # xs) \<longrightarrow> hashes p' c = hashes p c" using hx(2) wh(3) by auto
  ultimately show ?case using st r nn wh by (intro exI [of _ p'] exI [of _ bh'] exI [of _ prev']) simp
qed

lemma cache_full_blocks_ok:
  assumes "pool_ok p fl" "req_hashes_ok hf nh bs r bh" "request_hashable r"
    "nc \<le> length bh" "nc \<le> nf" "nf \<le> length blocks" "nf * bs \<le> num_tokens r"
    "distinct (py_slice nc nf blocks)" "set (py_slice nc nf blocks) \<subseteq> {..<num_gpu_blocks p}"
    "\<forall>b \<in> set (py_slice nc nf blocks). hashes p b = None" "0 < nc \<longrightarrow> hashes p (blocks ! (nc - 1)) = Some (bh ! (nc - 1))"
  shows "\<exists>p' bh'. cache_full_blocks hf nh r blocks bh (int nc) (int nf) bs p = Inr (p', bh') \<and> pool_ok p' fl \<and> refs p' = refs p \<and>
    req_hashes_ok hf nh bs r bh' \<and> length bh' = max (length bh) nf \<and> take (length bh) bh' = bh \<and>
    (\<forall>j. nc \<le> j \<and> j < nf \<longrightarrow> hashes p' (blocks ! j) = Some (bh' ! j)) \<and>
    (\<forall>b. b \<notin> set (py_slice nc nf blocks) \<longrightarrow> hashes p' b = hashes p b) \<and>
    num_gpu_blocks p' = num_gpu_blocks p \<and> enable_caching p' = enable_caching p"
proof (cases "nc = nf")
  case True
  then show ?thesis using assms by (auto simp: cache_full_blocks_def py_slice_def)
next
  case False
  let ?xs = "py_slice nc nf blocks" and ?prev = "chain_end None (take nc bh)"
  have len: "nc + length ?xs = nf" using assms(5,6) by (simp add: py_slice_def)
  have inv: "cfb_inv hf nh bs r bh (nc + 0) bh ?prev" using assms(2,4) by (simp add: cfb_inv_def)
  have prev: "(if int nc = 0 then Inr None else rbind (py_iget blocks (int nc - 1))
       (\<lambda>pb. case blk_hash (pblk p pb) of None \<Rightarrow> Inl AssertionError | Some h \<Rightarrow> Inr (Some (hash_value h)))) = Inr ?prev"
  proof (cases nc)
    case 0
    then show ?thesis by (simp add: chain_end_def)
  next
    case (Suc m)
    then have "blk_hash (pblk p (blocks ! m)) = Some (bh ! m)" using assms(11) by (simp add: hashes_def)
    then show ?thesis using Suc assms(4-6) chain_end_take_Suc [of m bh] by (simp add: py_iget_nat)
  qed
  have "(nc + 0 + length ?xs) * bs \<le> num_tokens r" using assms(7) len by simp
  from cfb_loop [OF inv assms(1,8-10,3) this assms(4)] obtain p' bh' prev' where
    l: "rfold (cache_full_block_step hf nh r (drop nc bh) (int nc) bs) (enumerate 0 ?xs) (p, bh, ?prev) = Inr (p', bh', prev')"
      "cfb_inv hf nh bs r bh nf bh' prev'" "pool_ok p' fl" "refs p' = refs p"
      "\<forall>j < length ?xs. hashes p' (?xs ! j) = Some (bh' ! (nc + j))" "\<forall>b. b \<notin> set ?xs \<longrightarrow> hashes p' b = hashes p b"
      "num_gpu_blocks p' = num_gpu_blocks p" "enable_caching p' = enable_caching p" "take (length bh) bh' = bh"
    using len by auto
  have eq: "cache_full_blocks hf nh r blocks bh (int nc) (int nf) bs p = Inr (p', bh')"
    using False assms(4) prev l(1) unfolding cache_full_blocks_def Let_def py_islice_nat by (simp add: py_slice_def)
  have "hashes p' (blocks ! j) = Some (bh' ! j)" if "nc \<le> j" "j < nf" for j
    using l(5) [rule_format, of "j - nc"] that assms(6) by (simp add: py_slice_def)
  then show ?thesis using eq l by (auto simp: cfb_inv_def)
qed

section \<open>Properties\<close>

lemma get_cached_block_hash:
  assumes "pool_ok p fl" "get_cached_block p h = Some b"
  shows "b < num_gpu_blocks p \<and> hashes p b = Some h"
proof -
  have "b \<in> set (cache_list (cached_blocks p) h)"
    using assms(2) by (auto simp: get_cached_block_def cache_list_def split: option.splits list.splits)
  then show ?thesis using assms(1) by (simp add: pool_ok_def cache_ok_def)
qed

lemma get_cached_block_complete:
  assumes "pool_ok p fl" "b < num_gpu_blocks p" "hashes p b = Some h"
  shows "get_cached_block p h \<noteq> None"
proof -
  have "b \<in> set (cache_list (cached_blocks p) h)" using assms by (simp add: pool_ok_def cache_ok_def)
  then show ?thesis by (cases "cached_blocks p h") (auto simp: get_cached_block_def cache_list_def split: list.splits)
qed

text \<open>
  Allocation. On a consistent pool, \<open>get_new_blocks(k)\<close> raises \<open>ValueError\<close> exactly when fewer
  than \<open>k\<close> blocks are free. Otherwise it returns the first \<open>k\<close> blocks of the eviction order, each with
  exactly one reference and without a hash, never the null block and never a block that was in use;
  the rest of the queue keeps its order, no other block changes, and no lookup returns an allocated
  block any more.
\<close>

theorem get_new_blocks_spec:
  assumes "pool_ok p fl" "enable_caching p \<or> (\<forall>b < num_gpu_blocks p. hashes p b = None)"
  shows "if length fl < k then get_new_blocks (int k) p = Inl ValueError
    else \<exists>p'. get_new_blocks (int k) p = Inr (take k fl, p') \<and> pool_ok p' (drop k fl) \<and>
      (\<forall>b \<in> set (take k fl). b \<noteq> null_block p \<and> refs p b = 0 \<and> refs p' b = 1 \<and> hashes p' b = None) \<and>
      (\<forall>b < num_gpu_blocks p. b \<notin> set (take k fl) \<longrightarrow> refs p' b = refs p b \<and> hashes p' b = hashes p b) \<and>
      (\<forall>h. \<forall>b \<in> set (take k fl). get_cached_block p' h \<noteq> Some b)"
proof (cases "length fl < k")
  case True
  then show ?thesis using get_new_blocks_fail [OF assms(1), of "int k"] by simp
next
  case False
  then obtain p' where p': "get_new_blocks (int k) p = Inr (take k fl, p')" "pool_ok p' (drop k fl)"
    "refs p' = (\<lambda>b. if b \<in> set (take k fl) then 1 else refs p b)"
    "\<forall>b < num_gpu_blocks p. hashes p' b = (if b \<in> set (take k fl) then None else hashes p b)" "num_gpu_blocks p' = num_gpu_blocks p"
    using get_new_blocks_ok [OF assms, of k] by auto
  have sub: "b \<noteq> 0 \<and> b < num_gpu_blocks p \<and> refs p b = 0" if "b \<in> set (take k fl)" for b
    using in_set_takeD [OF that] pool_ok_free_list [OF assms(1)] assms(1) by (auto simp: pool_ok_def)
  have "get_cached_block p' h \<noteq> Some b" if "b \<in> set (take k fl)" for h b
    using get_cached_block_hash [OF p'(2), of h b] p'(4,5) that by auto
  then show ?thesis using False p' sub assms(1) by (auto simp: pool_ok_def)
qed

theorem get_new_blocks_spec_witness:
  "\<exists>p. pool_init 4 True = Inr p \<and> get_new_blocks 4 p = Inl ValueError \<and> (\<exists>p'. get_new_blocks 2 p = Inr ([1, 2], p') \<and> pool_ok p' [3])"
proof -
  have e: "[1..<4] = [1, 2, 3::nat]" by (simp add: upt_rec)
  obtain p where p: "pool_init 4 True = Inr p" "pool_ok p [1, 2, 3]" "enable_caching p"
    using pool_init_ok [of 4 True] unfolding e by auto
  have "get_new_blocks 4 p = Inl ValueError" using get_new_blocks_spec [OF p(2), of 4] p(3) by simp
  moreover have "\<exists>p'. get_new_blocks 2 p = Inr ([1, 2], p') \<and> pool_ok p' [3]"
    using get_new_blocks_spec [OF p(2), of 2] p(3) by auto
  ultimately show ?thesis using p(1) by blast
qed

lemma released_distinct:
  "distinct bs \<Longrightarrow> 0 \<notin> set bs \<Longrightarrow> \<forall>b \<in> set bs. rf b = 1 \<Longrightarrow> released rf bs = bs"
proof (induction bs arbitrary: rf)
  case (Cons b bs)
  have "released (rf(b := rf b - 1)) bs = bs" using Cons.prems by (intro Cons.IH) auto
  then show ?case using Cons.prems by simp
qed simp

text \<open>
  Freeing what was allocated gives the pool back. After \<open>get_new_blocks(k)\<close>, freeing those blocks
  in any order raises nothing, puts exactly them at the back of the eviction order in the order given,
  and restores every reference count.
\<close>

theorem allocate_free_roundtrip:
  assumes "pool_ok p fl" "enable_caching p \<or> (\<forall>b < num_gpu_blocks p. hashes p b = None)" "k \<le> length fl"
    and "get_new_blocks (int k) p = Inr (bs, p1)" "mset cs = mset bs"
  shows "\<exists>p2. free_blocks cs p1 = Inr p2 \<and> pool_ok p2 (drop k fl @ cs) \<and> (\<forall>b < num_gpu_blocks p. refs p2 b = refs p b)"
proof -
  have g: "bs = take k fl" "pool_ok p1 (drop k fl)" "refs p1 = (\<lambda>b. if b \<in> set (take k fl) then 1 else refs p b)"
    "num_gpu_blocks p1 = num_gpu_blocks p" using get_new_blocks_ok [OF assms(1-3)] assms(4) by auto
  have fl: "distinct fl" "set fl \<subseteq> {1..<num_gpu_blocks p}" using pool_ok_free_list [OF assms(1)] by auto
  have cs: "set cs = set (take k fl)" "distinct cs"
    using assms(5) g(1) fl(1) by (metis set_mset_mset, metis distinct_take mset_eq_imp_distinct_iff)
  have cnt: "count_list cs b = (if b \<in> set (take k fl) then 1 else 0)" for b
    using cs by (metis count_list_0_iff distinct_count_atmost_1 count_mset)
  have sub: "set cs \<subseteq> {1..<num_gpu_blocks p}" using cs(1) fl(2) set_take_subset by fastforce
  have "\<exists>p2. free_blocks cs p1 = Inr p2 \<and> pool_ok p2 (drop k fl @ released (refs p1) cs) \<and>
    refs p2 = (\<lambda>b. refs p1 b - int (count_list cs b)) \<and> hashes p2 = hashes p1 \<and> cached_blocks p2 = cached_blocks p1 \<and>
    num_gpu_blocks p2 = num_gpu_blocks p1 \<and> enable_caching p2 = enable_caching p1"
    using sub by (intro free_blocks_ok [OF g(2)]) (auto simp: g cnt cs(1))
  moreover have "released (refs p1) cs = cs" using cs sub by (intro released_distinct) (auto simp: g(3))
  moreover have "refs p b = 0" if "b \<in> set (take k fl)" "b < num_gpu_blocks p" for b
    using in_set_takeD [OF that(1)] that(2) assms(1) by (auto simp: pool_ok_def)
  ultimately show ?thesis by (auto simp: g(3) cnt)
qed

theorem allocate_free_roundtrip_witness:
  "\<exists>p p1 p2. pool_init 4 True = Inr p \<and> get_new_blocks 2 p = Inr ([1, 2], p1) \<and> free_blocks [2, 1] p1 = Inr p2 \<and> pool_ok p2 [3, 2, 1]"
proof -
  have e: "[1..<4] = [1, 2, 3::nat]" by (simp add: upt_rec)
  obtain p where p: "pool_init 4 True = Inr p" "pool_ok p [1, 2, 3]" "enable_caching p"
    using pool_init_ok [of 4 True] unfolding e by auto
  obtain p1 where p1: "get_new_blocks (int 2) p = Inr ([1, 2], p1)"
    using get_new_blocks_ok [OF p(2), of 2] p(3) by auto
  have "\<exists>p2. free_blocks [2, 1] p1 = Inr p2 \<and> pool_ok p2 (drop 2 [1, 2, 3] @ [2, 1]) \<and> (\<forall>b < num_gpu_blocks p. refs p2 b = refs p b)"
    using p(3) by (intro allocate_free_roundtrip [OF p(2) _ _ p1]) simp_all
  then show ?thesis using p(1) p1 by auto
qed

text \<open>
  \<open>reset_prefix_cache\<close> succeeds exactly when no block but the null block is in use; it then leaves
  no hash that could be hit, and otherwise changes nothing. Usage stays in \<open>(0, 1]\<close>.
\<close>

theorem reset_prefix_cache_spec:
  assumes "pool_ok p fl"
  shows "(case reset_prefix_cache p of (ok, p') \<Rightarrow>
      (ok \<longleftrightarrow> (\<forall>b < num_gpu_blocks p. b \<noteq> null_block p \<longrightarrow> refs p b = 0)) \<and> pool_ok p' fl \<and>
      (if ok then (\<forall>h. get_cached_block p' h = None) \<and> refs p' = refs p else p' = p) \<and>
      0 < get_usage p' \<and> get_usage p' \<le> 1)"
proof -
  note r = reset_ok [OF assms]
  obtain ok p' where e: "reset_prefix_cache p = (ok, p')" by (cases "reset_prefix_cache p")
  have "ok \<Longrightarrow> get_cached_block p' h = None" for h using r(3) e by (simp add: get_cached_block_def)
  then show ?thesis using r assms e usage_bounds [OF r(4)] by (auto simp: pool_ok_def)
qed

theorem reset_prefix_cache_spec_witness:
  "\<exists>p. pool_init 2 True = Inr p \<and> fst (reset_prefix_cache p) \<and> 0 < get_usage (snd (reset_prefix_cache p))"
proof -
  obtain p where p: "pool_init 2 True = Inr p" "pool_ok p [1..<2]" "num_gpu_blocks p = 2"
    "\<And>b. b < 2 \<Longrightarrow> refs p b = 0 \<and> hashes p b = None"
    using pool_init_ok [of 2 True] by auto
  from reset_prefix_cache_spec [OF p(2)] p(3,4) have "fst (reset_prefix_cache p) \<and> 0 < get_usage (snd (reset_prefix_cache p))"
    by (auto split: prod.splits)
  then show ?thesis using p(1) by blast
qed

end
