(* ===== verification/KV_Cache_Manager.thy ===== *)
theory KV_Cache_Manager
  imports Block_Pool
begin

text \<open>
  \<open>KVCacheManager\<close> of \<open>vllm/v1/core/kv_cache_manager.py\<close> with the attention-specific managers of
  \<open>vllm/v1/core/specialized_manager.py\<close>.

  The dicts with a \<open>list\<close> default factory are total functions to lists: reading an absent key and
  popping a key both leave the empty list. The hash function \<open>hf\<close> and the seed \<open>nh\<close> are parameters.
\<close>

section \<open>Attention-specific managers\<close>

datatype attention_spec = FullAttention | SlidingWindow int

fun full_cache_hit :: "block_pool \<Rightarrow> block_hash list \<Rightarrow> nat list" where
  "full_cache_hit p [] = []"
| "full_cache_hit p (h # hs) = (case get_cached_block p h of Some b \<Rightarrow> b # full_cache_hit p hs | None \<Rightarrow> [])"

text \<open>
  The sliding-window search runs over the indices from right to left; the first argument is the
  number of indices left.
\<close>

fun sw_hit_loop :: "nat \<Rightarrow> block_pool \<Rightarrow> block_hash list \<Rightarrow> int \<Rightarrow> nat list \<Rightarrow> nat \<Rightarrow> nat list" where
  "sw_hit_loop 0 p hs cw computed num = take num computed"
| "sw_hit_loop (Suc i) p hs cw computed num =
     (case get_cached_block p (hs ! i) of
        Some b \<Rightarrow>
          let computed' = computed[i := b]; num' = num + 1
          in if int num' \<ge> cw then take (i + num') computed' else sw_hit_loop i p hs cw computed' num'
      | None \<Rightarrow> sw_hit_loop i p hs cw computed 0)"

definition sliding_window_contiguous_blocks :: "int \<Rightarrow> nat \<Rightarrow> int" where
  "sliding_window_contiguous_blocks w bs = cdiv (w - 1) (int bs)"

definition find_longest_cache_hit :: "attention_spec \<Rightarrow> nat \<Rightarrow> block_pool \<Rightarrow> block_hash list \<Rightarrow> nat list" where
  "find_longest_cache_hit spec bs p hs =
     (case spec of FullAttention \<Rightarrow> full_cache_hit p hs
      | SlidingWindow w \<Rightarrow>
          sw_hit_loop (length hs) p hs (sliding_window_contiguous_blocks w bs) (replicate (length hs) (null_block p)) 0)"

text \<open>The loop of \<open>remove_skipped_blocks\<close> over \<open>i\<close> from \<open>last_useful_block - 1\<close> down to 0.\<close>

fun remove_skipped_loop :: "nat \<Rightarrow> nat \<Rightarrow> nat list \<Rightarrow> nat list \<Rightarrow> (nat list \<times> nat list) result" where
  "remove_skipped_loop 0 null blocks removed = Inr (removed, blocks)"
| "remove_skipped_loop (Suc i) null blocks removed =
     rbind (py_get blocks i)
       (\<lambda>b. if b = null then Inr (removed, blocks)
            else remove_skipped_loop i null (blocks[i := null]) (removed @ [b]))"

definition remove_skipped_blocks ::
  "attention_spec \<Rightarrow> nat \<Rightarrow> nat \<Rightarrow> nat list \<Rightarrow> int \<Rightarrow> (nat list \<times> nat list) result" where
  "remove_skipped_blocks spec bs null blocks computed_tokens =
     (case spec of FullAttention \<Rightarrow> Inr ([], blocks)
      | SlidingWindow w \<Rightarrow>
          let last_useful_token = computed_tokens - w + 1;
              last_useful_block = last_useful_token div int bs
          in remove_skipped_loop (nat last_useful_block) null blocks [])"

section \<open>The manager\<close>

record prefix_cache_stats =
  stats_reset :: bool
  stats_requests :: nat
  stats_queries :: nat
  stats_hits :: nat

definition new_stats :: prefix_cache_stats where
  "new_stats = \<lparr>stats_reset = False, stats_requests = 0, stats_queries = 0, stats_hits = 0\<rparr>"

record kv_cache_manager =
  block_size :: nat
  max_model_len :: int
  max_num_blocks_per_req :: int
  kvm_caching :: bool
  use_eagle :: bool
  log_stats :: bool
  cache_stats :: "prefix_cache_stats option"
  pool :: block_pool
  attn_spec :: attention_spec
  req_to_blocks :: "string \<Rightarrow> nat list"
  req_to_block_hashes :: "string \<Rightarrow> block_hash list"
  num_cached_block :: "string \<Rightarrow> int option"

definition kvm_init :: "nat \<Rightarrow> attention_spec list \<Rightarrow> nat \<Rightarrow> int \<Rightarrow> bool \<Rightarrow> bool \<Rightarrow> bool \<Rightarrow> kv_cache_manager result" where
  "kvm_init bs groups num_blocks max_len caching eagle logging =
     (case groups of
        [spec] \<Rightarrow>
          if bs = 0 then Inl ZeroDivisionError
          else rbind (pool_init num_blocks caching)
            (\<lambda>p. Inr \<lparr>block_size = bs, max_model_len = max_len, max_num_blocks_per_req = cdiv max_len (int bs),
                     kvm_caching = caching, use_eagle = eagle, log_stats = logging,
                     cache_stats = (if logging then Some new_stats else None), pool = p, attn_spec = spec,
                     req_to_blocks = (\<lambda>_. []), req_to_block_hashes = (\<lambda>_. []), num_cached_block = (\<lambda>_. None)\<rparr>)
      | _ \<Rightarrow> Inl AssertionError)"

definition usage :: "kv_cache_manager \<Rightarrow> real" where
  "usage m = get_usage (pool m)"

definition make_prefix_cache_stats :: "kv_cache_manager \<Rightarrow> prefix_cache_stats option \<times> kv_cache_manager" where
  "make_prefix_cache_stats m =
     (if \<not> log_stats m then (None, m) else (cache_stats m, m\<lparr>cache_stats := Some new_stats\<rparr>))"

text \<open>Updates of the statistics are guarded by \<open>log_stats\<close> and an assertion that they exist.\<close>

definition upd_stats :: "(prefix_cache_stats \<Rightarrow> prefix_cache_stats) \<Rightarrow> kv_cache_manager \<Rightarrow> kv_cache_manager result" where
  "upd_stats f m =
     (if \<not> log_stats m then Inr m
      else case cache_stats m of None \<Rightarrow> Inl AssertionError | Some s \<Rightarrow> Inr (m\<lparr>cache_stats := Some (f s)\<rparr>))"

text \<open>The block hashes of a request, computed on first use and kept.\<close>

definition request_block_hashes ::
  "hash_fn \<Rightarrow> int \<Rightarrow> request \<Rightarrow> kv_cache_manager \<Rightarrow> (block_hash list \<times> kv_cache_manager) result" where
  "request_block_hashes hf nh r m =
     (if req_to_block_hashes m (request_id r) = []
      then rbind (hash_request_tokens hf nh (block_size m) r)
             (\<lambda>hs. Inr (hs, m\<lparr>req_to_block_hashes := (req_to_block_hashes m)(request_id r := hs)\<rparr>))
      else Inr (req_to_block_hashes m (request_id r), m))"

definition hit_blocks :: "kv_cache_manager \<Rightarrow> block_hash list \<Rightarrow> nat list" where
  "hit_blocks m hs =
     (let computed_blocks = find_longest_cache_hit (attn_spec m) (block_size m) (pool m) hs
      in if use_eagle m \<and> length computed_blocks > 0 then butlast computed_blocks else computed_blocks)"

text \<open>
  The lookup itself. The last hash is popped before the search when it would cover all tokens, and
  appended again after it; the kept list is unchanged in the end.
\<close>

definition lookup_computed :: "request \<Rightarrow> block_hash list \<Rightarrow> kv_cache_manager \<Rightarrow> ((nat list \<times> int) \<times> kv_cache_manager) result" where
  "lookup_computed r block_hashes m =
     rbind (if length block_hashes * block_size m = num_tokens r
            then if block_hashes = [] then Inl IndexError else Inr (butlast block_hashes)
            else Inr block_hashes)
       (\<lambda>hs.
         let computed_blocks = hit_blocks m hs
         in rbind (upd_stats (\<lambda>s. s\<lparr>stats_queries := stats_queries s + length hs,
                                     stats_hits := stats_hits s + length computed_blocks\<rparr>) m)
              (\<lambda>m'. Inr ((computed_blocks, int (length computed_blocks * block_size m)), m')))"

definition get_computed_blocks ::
  "hash_fn \<Rightarrow> int \<Rightarrow> request \<Rightarrow> kv_cache_manager \<Rightarrow> ((nat list \<times> int) \<times> kv_cache_manager) result" where
  "get_computed_blocks hf nh r m =
     (if \<not> kvm_caching m then Inr (([], 0), m)
      else rbind (request_block_hashes hf nh r m)
        (\<lambda>(block_hashes, m1).
          rbind (upd_stats (\<lambda>s. s\<lparr>stats_requests := stats_requests s + 1\<rparr>) m1)
            (\<lambda>m2. if prompt_logprobs (sampling r) \<noteq> None then Inr (([], 0), m2)
                  else lookup_computed r block_hashes m2)))"

definition set_blocks :: "string \<Rightarrow> nat list \<Rightarrow> kv_cache_manager \<Rightarrow> kv_cache_manager" where
  "set_blocks rid bs m = m\<lparr>req_to_blocks := (req_to_blocks m)(rid := bs)\<rparr>"

text \<open>
  The tail of \<open>allocate_slots\<close> that caches the full blocks. \<open>total_computed\<close> is the number of computed
  tokens with the new prefix-cache hits.
\<close>

definition cache_allocated ::
  "hash_fn \<Rightarrow> int \<Rightarrow> request \<Rightarrow> int \<Rightarrow> int \<Rightarrow> nat \<Rightarrow> nat list \<Rightarrow> kv_cache_manager \<Rightarrow> (nat list option \<times> kv_cache_manager) result" where
  "cache_allocated hf nh r total_computed num_toks n_new_computed new_blocks m =
     (if \<not> kvm_caching m then Inr (Some new_blocks, m)
      else let rid = request_id r;
               num_cached_blocks = (case num_cached_block m rid of None \<Rightarrow> int n_new_computed | Some k \<Rightarrow> k);
               num_full_blocks_after_append =
                 (total_computed + num_toks - int (length (spec_token_ids r))) div int (block_size m)
        in rbind (cache_full_blocks hf nh r (req_to_blocks m rid) (req_to_block_hashes m rid)
                    num_cached_blocks num_full_blocks_after_append (block_size m) (pool m))
             (\<lambda>(p, bh). Inr (Some new_blocks,
                 m\<lparr>pool := p, req_to_block_hashes := (req_to_block_hashes m)(rid := bh),
                   num_cached_block := (num_cached_block m)(rid \<mapsto> num_full_blocks_after_append)\<rparr>)))"

definition allocate_slots ::
  "hash_fn \<Rightarrow> int \<Rightarrow> request \<Rightarrow> int \<Rightarrow> nat list \<Rightarrow> int \<Rightarrow> kv_cache_manager \<Rightarrow> (nat list option \<times> kv_cache_manager) result" where
  "allocate_slots hf nh r num_toks new_computed_blocks num_lookahead_tokens m =
     (if num_toks = 0 then Inl ValueError
      else let rid = request_id r; bs = int (block_size m)
      in rbind (remove_skipped_blocks (attn_spec m) (block_size m) (null_block (pool m)) (req_to_blocks m rid) (num_computed_tokens r))
        (\<lambda>(removed_blocks, req_blocks).
         rbind (free_blocks removed_blocks (pool m))
          (\<lambda>p1.
            let m1 = (set_blocks rid req_blocks m)\<lparr>pool := p1\<rparr>;
                total_computed = num_computed_tokens r + int (length new_computed_blocks) * bs;
                num_required_blocks = cdiv (total_computed + num_toks + num_lookahead_tokens) bs;
                num_new_blocks = num_required_blocks - int (length req_blocks) - int (length new_computed_blocks);
                num_evictable = int (length (filter (\<lambda>b. ref_cnt (pblk p1 b) = 0) new_computed_blocks))
            in if num_new_blocks > get_num_free_blocks p1 - num_evictable then Inr (None, m1)
               else if \<not> kvm_caching m \<and> new_computed_blocks \<noteq> [] then Inl AssertionError
               else let p2 = (if kvm_caching m then touch new_computed_blocks p1 else p1);
                        req_blocks2 = req_blocks @ new_computed_blocks;
                        m2 = (set_blocks rid req_blocks2 m1)\<lparr>pool := p2\<rparr>
                 in if num_new_blocks \<le> 0
                    then cache_allocated hf nh r total_computed num_toks (length new_computed_blocks) [] m2
                    else let n = min (min num_new_blocks (get_num_free_blocks p2))
                                   (max_num_blocks_per_req m - int (length req_blocks2))
                      in if n \<le> 0 then Inl AssertionError
                         else rbind (get_new_blocks n p2)
                           (\<lambda>(new_blocks, p3).
                              cache_allocated hf nh r total_computed num_toks (length new_computed_blocks) new_blocks
                                ((set_blocks rid (req_blocks2 @ new_blocks) m2)\<lparr>pool := p3\<rparr>)))))"

definition kvm_free :: "request \<Rightarrow> kv_cache_manager \<Rightarrow> kv_cache_manager result" where
  "kvm_free r m =
     (let rid = request_id r;
          blocks = req_to_blocks m rid;
          ordered_blocks = (if kvm_caching m then rev blocks else blocks)
      in rbind (free_blocks ordered_blocks (pool m))
           (\<lambda>p. Inr ((set_blocks rid [] m)\<lparr>pool := p, num_cached_block := (num_cached_block m)(rid := None)\<rparr>)))"

definition kvm_reset_prefix_cache :: "kv_cache_manager \<Rightarrow> (bool \<times> kv_cache_manager) result" where
  "kvm_reset_prefix_cache m =
     (case reset_prefix_cache (pool m) of (ok, p) \<Rightarrow>
        if \<not> ok then Inr (False, m)
        else rbind (upd_stats (\<lambda>s. s\<lparr>stats_reset := True\<rparr>) (m\<lparr>pool := p\<rparr>)) (\<lambda>m'. Inr (True, m')))"

definition get_num_common_prefix_blocks :: "request \<Rightarrow> int \<Rightarrow> kv_cache_manager \<Rightarrow> nat result" where
  "get_num_common_prefix_blocks r num_running_requests m =
     (if status r \<noteq> RUNNING then Inl AssertionError
      else Inr (length (takeWhile (\<lambda>b. ref_cnt (pblk (pool m) b) = num_running_requests) (req_to_blocks m (request_id r)))))"

definition free_block_hashes :: "request \<Rightarrow> kv_cache_manager \<Rightarrow> kv_cache_manager" where
  "free_block_hashes r m = m\<lparr>req_to_block_hashes := (req_to_block_hashes m)(request_id r := [])\<rparr>"

section \<open>Blocks held by requests\<close>

definition held :: "(string \<Rightarrow> nat list) \<Rightarrow> nat \<Rightarrow> int" where
  "held f b = (\<Sum>rid | f rid \<noteq> []. int (count_list (f rid) b))"

definition holders_finite :: "(string \<Rightarrow> nat list) \<Rightarrow> bool" where
  "holders_finite f \<longleftrightarrow> finite {rid. f rid \<noteq> []}"

lemma held_superset:
  assumes "finite S" "{rid. f rid \<noteq> []} \<subseteq> S"
  shows "held f b = (\<Sum>rid \<in> S. int (count_list (f rid) b))"
  unfolding held_def using assms by (intro sum.mono_neutral_left) auto

lemma held_upd:
  assumes "holders_finite f"
  shows "held (f(rid := xs)) b = held f b - int (count_list (f rid) b) + int (count_list xs b)"
    "holders_finite (f(rid := xs))"
proof -
  let ?S = "insert rid {rid. f rid \<noteq> []}"
  have fin: "finite ?S" using assms by (simp add: holders_finite_def)
  have "held (f(rid := xs)) b = (\<Sum>r \<in> ?S. int (count_list ((f(rid := xs)) r) b))" by (rule held_superset [OF fin]) auto
  also have "\<dots> = int (count_list xs b) + (\<Sum>r \<in> ?S - {rid}. int (count_list (f r) b))"
    using fin by (subst sum.remove [of _ rid]) (auto intro!: sum.cong)
  also have "(\<Sum>r \<in> ?S - {rid}. int (count_list (f r) b)) = held f b - int (count_list (f rid) b)"
    using held_superset [OF fin subset_insertI, of b] sum.remove [OF fin, of rid "\<lambda>r. int (count_list (f r) b)"] by simp
  finally show "held (f(rid := xs)) b = held f b - int (count_list (f rid) b) + int (count_list xs b)" by (simp only: algebra_simps)
  show "holders_finite (f(rid := xs))" unfolding holders_finite_def
    by (rule finite_subset [OF _ fin]) auto
qed

lemma count_le_held: "holders_finite f \<Longrightarrow> int (count_list (f rid) b) \<le> held f b"
proof (cases "f rid = []")
  case True
  then show ?thesis by (simp add: held_def sum_nonneg)
next
  case False
  assume "holders_finite f"
  then show ?thesis unfolding held_def holders_finite_def using False
    by (intro member_le_sum [of rid "{r. f r \<noteq> []}" "\<lambda>r. int (count_list (f r) b)"]) auto
qed

lemma held_zero_iff: "holders_finite f \<Longrightarrow> held f b = 0 \<longleftrightarrow> (\<forall>rid. b \<notin> set (f rid))"
proof
  assume fin: "holders_finite f"
  show "held f b = 0 \<Longrightarrow> \<forall>rid. b \<notin> set (f rid)"
    using count_le_held [OF fin, of _ b] by (metis count_list_0_iff of_nat_le_0_iff)
  show "\<forall>rid. b \<notin> set (f rid) \<Longrightarrow> held f b = 0" by (simp add: held_def count_list_0_iff)
qed

text \<open>
  The ownership invariant: the reference count of every block but the null block is the number of
  its occurrences in the block tables of the requests.
\<close>

definition owned :: "block_pool \<Rightarrow> (string \<Rightarrow> nat list) \<Rightarrow> bool" where
  "owned p f \<longleftrightarrow> holders_finite f \<and> (\<forall>rid. set (f rid) \<subseteq> {..<num_gpu_blocks p}) \<and>
     (\<forall>b < num_gpu_blocks p. b \<noteq> 0 \<longrightarrow> refs p b = held f b)"

definition pool_conf :: "block_pool \<Rightarrow> bool" where
  "pool_conf p \<longleftrightarrow> enable_caching p \<or> (\<forall>b < num_gpu_blocks p. hashes p b = None)"

definition kvm_inv :: "kv_cache_manager \<Rightarrow> bool" where
  "kvm_inv m \<longleftrightarrow> (\<exists>fl. pool_ok (pool m) fl) \<and> owned (pool m) (req_to_blocks m) \<and> pool_conf (pool m) \<and>
     enable_caching (pool m) = kvm_caching m \<and> 0 < block_size m \<and> (log_stats m \<longrightarrow> cache_stats m \<noteq> None)"


lemma owned_free:
  assumes "pool_ok p fl" "owned p f" "pool_conf p" "set bs \<subseteq> {..<num_gpu_blocks p}"
    "\<And>b. b \<noteq> 0 \<Longrightarrow> count_list (f rid) b = count_list bs b + count_list xs b" "set xs \<subseteq> {..<num_gpu_blocks p}"
  shows "\<exists>p'. free_blocks bs p = Inr p' \<and> pool_ok p' (fl @ released (refs p) bs) \<and> owned p' (f(rid := xs)) \<and> pool_conf p' \<and>
    num_gpu_blocks p' = num_gpu_blocks p \<and> enable_caching p' = enable_caching p \<and> hashes p' = hashes p \<and>
    cached_blocks p' = cached_blocks p \<and> refs p' = (\<lambda>b. refs p b - int (count_list bs b))"
proof -
  have fin: "holders_finite f" using assms(2) by (simp add: owned_def)
  have cnt: "int (count_list bs b) \<le> refs p b \<or> b \<notin> set bs" if "b \<noteq> 0" for b
  proof (cases "b < num_gpu_blocks p")
    case True
    then show ?thesis using assms(2) that assms(5) [OF that] count_le_held [OF fin, of rid b] by (auto simp: owned_def)
  qed (use assms(4) in auto)
  obtain p' where p': "free_blocks bs p = Inr p'" "pool_ok p' (fl @ released (refs p) bs)"
    "refs p' = (\<lambda>b. refs p b - int (count_list bs b))" "hashes p' = hashes p" "num_gpu_blocks p' = num_gpu_blocks p"
    "enable_caching p' = enable_caching p" "cached_blocks p' = cached_blocks p" using free_blocks_ok [OF assms(1,4) cnt] by blast
  have "owned p' (f(rid := xs))"
    using assms(2,5,6) held_upd [OF fin, of rid xs] unfolding owned_def p' by simp
  then show ?thesis using p' assms(3) by (simp add: pool_conf_def)
qed

lemma owned_touch:
  assumes "pool_ok p fl" "owned p f" "pool_conf p" "set bs \<subseteq> {..<num_gpu_blocks p}"
  shows "\<exists>fl'. pool_ok (touch bs p) fl'" "owned (touch bs p) (f(rid := f rid @ bs))" "pool_conf (touch bs p)"
    "num_gpu_blocks (touch bs p) = num_gpu_blocks p" "enable_caching (touch bs p) = enable_caching p"
proof -
  note t = touch_ok [OF assms(1,4)]
  have fin: "holders_finite f" using assms(2) by (simp add: owned_def)
  show "\<exists>fl'. pool_ok (touch bs p) fl'" "pool_conf (touch bs p)" using t assms(3) by (auto simp: pool_conf_def)
  show "num_gpu_blocks (touch bs p) = num_gpu_blocks p" "enable_caching (touch bs p) = enable_caching p" using t by auto
  show "owned (touch bs p) (f(rid := f rid @ bs))"
    using assms(2,4) held_upd [OF fin, of rid "f rid @ bs"] t by (simp add: owned_def)
qed

lemma owned_new:
  assumes "pool_ok p fl" "owned p f" "pool_conf p" "k \<le> length fl"
  shows "\<exists>p'. get_new_blocks (int k) p = Inr (take k fl, p') \<and> pool_ok p' (drop k fl) \<and>
    owned p' (f(rid := f rid @ take k fl)) \<and> pool_conf p' \<and>
    num_gpu_blocks p' = num_gpu_blocks p \<and> enable_caching p' = enable_caching p \<and>
    (\<forall>b \<in> set (take k fl). \<forall>rid'. b \<notin> set (f rid'))"
proof -
  have fin: "holders_finite f" using assms(2) by (simp add: owned_def)
  obtain p' where p': "get_new_blocks (int k) p = Inr (take k fl, p')" "pool_ok p' (drop k fl)"
    "refs p' = (\<lambda>b. if b \<in> set (take k fl) then 1 else refs p b)"
    "\<forall>b < num_gpu_blocks p. hashes p' b = (if b \<in> set (take k fl) then None else hashes p b)"
    "num_gpu_blocks p' = num_gpu_blocks p" "enable_caching p' = enable_caching p"
    using get_new_blocks_ok [OF assms(1) assms(3) [unfolded pool_conf_def] assms(4)] by auto
  have fl: "distinct (take k fl)" "set (take k fl) \<subseteq> {1..<num_gpu_blocks p}"
    using pool_ok_free_list [OF assms(1)] set_take_subset [of k fl] by auto
  have z: "held f b = 0" if "b \<in> set (take k fl)" for b
    using in_set_takeD [OF that] fl(2) that assms(1,2) by (auto simp: pool_ok_def owned_def)
  have cnt: "count_list (take k fl) b = (if b \<in> set (take k fl) then 1 else 0)" for b
    using fl(1) by (metis count_list_0_iff distinct_count_atmost_1 count_mset)
  have "refs p' b = held (f(rid := f rid @ take k fl)) b" if "b < num_gpu_blocks p" "b \<noteq> 0" for b
    using assms(2) that z [of b] held_upd(1) [OF fin, of rid "f rid @ take k fl" b] by (simp add: p'(3) owned_def cnt)
  then have "owned p' (f(rid := f rid @ take k fl))"
    using assms(2) fl(2) held_upd(2) [OF fin] unfolding owned_def p'(5) by auto
  then show ?thesis using p' z held_zero_iff [OF fin] assms(3) by (auto simp: pool_conf_def)
qed

section \<open>Preservation of the invariant\<close>

lemma count_list_update:
  assumes "i < length xs"
  shows "count_list (xs[i := v]) b + (if xs ! i = b then 1 else 0) = count_list xs b + (if v = b then 1 else 0)"
proof -
  have xs: "xs = take i xs @ xs ! i # drop (Suc i) xs" and up: "xs[i := v] = take i xs @ v # drop (Suc i) xs"
    using assms by (simp_all add: id_take_nth_drop upd_conv_take_nth_drop)
  have "count_list xs b = count_list (take i xs @ xs ! i # drop (Suc i) xs) b" using xs by simp
  then show ?thesis unfolding up by simp
qed

lemma remove_skipped_loop_ok:
  "remove_skipped_loop i 0 blocks removed = Inr (removed', blocks') \<Longrightarrow>
     length blocks' = length blocks \<and> set blocks' \<subseteq> insert 0 (set blocks) \<and>
     set removed' \<subseteq> set removed \<union> (set blocks - {0}) \<and>
     (\<forall>b. b \<noteq> 0 \<longrightarrow> count_list removed b + count_list blocks b = count_list removed' b + count_list blocks' b)"
proof (induction i arbitrary: blocks removed)
  case (Suc i)
  show ?case
  proof (cases "blocks ! i = 0")
    case False
    let ?bs = "blocks[i := 0]"
    have i: "i < length blocks" and rec: "remove_skipped_loop i 0 ?bs (removed @ [blocks ! i]) = Inr (removed', blocks')"
      using Suc.prems False by auto
    have sub: "set ?bs \<subseteq> insert 0 (set blocks)" by (rule set_update_subset_insert)
    note IH = Suc.IH [OF rec]
    have "count_list removed b + count_list blocks b = count_list removed' b + count_list blocks' b" if "b \<noteq> 0" for b
    proof -
      have "count_list (removed @ [blocks ! i]) b + count_list ?bs b = count_list removed' b + count_list blocks' b"
        using IH that by blast
      then show ?thesis using count_list_update [OF i, of 0 b] that by (simp split: if_splits)
    qed
    moreover have "blocks ! i \<in> set blocks - {0}" using i False by simp
    ultimately show ?thesis using IH sub by auto
  qed (use Suc.prems in auto)
qed auto

lemma cfb_step_pool:
  assumes "cache_full_block_step hf nh r nbh nc bs (i, b) (p, bh, prev) = Inr (p', bh', prev')" "b < num_gpu_blocks p"
  obtains h where "p' = with_hash b h p" "hashes p b = None"
  using assms by (auto simp: cache_full_block_step_def hashes_def set_block_hash_def with_hash_def upd_pool_block_def upd_block_def
      split: if_splits)

lemma set_enumerate_snd: "(i, x) \<in> set (enumerate n xs) \<Longrightarrow> x \<in> set xs"
  by (auto simp: enumerate_eq_zip dest: set_zip_rightD)

lemma cache_full_blocks_pool:
  assumes "cache_full_blocks hf nh r blocks bh nc nf bs p = Inr (p', bh')" "pool_ok p fl" "set blocks \<subseteq> {..<num_gpu_blocks p}"
  shows "pool_ok p' fl \<and> refs p' = refs p \<and> num_gpu_blocks p' = num_gpu_blocks p \<and> enable_caching p' = enable_caching p"
proof (cases "nc = nf")
  case True
  then show ?thesis using assms by (simp add: cache_full_blocks_def)
next
  case False
  let ?I = "\<lambda>(q, bh :: block_hash list, prev :: int option). pool_ok q fl \<and> refs q = refs p \<and>
     num_gpu_blocks q = num_gpu_blocks p \<and> enable_caching q = enable_caching p"
  from assms(1) False obtain prev prev' nbh where
    l: "rfold (cache_full_block_step hf nh r nbh nc bs) (enumerate 0 (py_islice nc nf blocks)) (p, bh, prev) = Inr (p', bh', prev')"
    by (auto simp: cache_full_blocks_def Let_def split: if_splits)
  have "?I (p', bh', prev')"
  proof (rule rfold_invariant [OF l, where P = ?I])
    fix x s t assume x: "x \<in> set (enumerate 0 (py_islice nc nf blocks))" and s: "?I s"
      and st: "cache_full_block_step hf nh r nbh nc bs x s = Inr t"
    obtain i b q bh1 pr where e: "x = (i, b)" "s = (q, bh1, pr)" by (metis prod.exhaust)
    obtain q' bh2 pr2 where t: "t = (q', bh2, pr2)" by (metis prod.exhaust)
    have "b \<in> set (py_islice nc nf blocks)" using x unfolding e(1) by (rule set_enumerate_snd)
    then have "b \<in> set blocks" unfolding py_islice_def py_slice_def by (meson in_set_dropD in_set_takeD)
    then have b: "b < num_gpu_blocks q" using assms(3) s e by auto
    obtain h where "q' = with_hash b h q" "hashes q b = None"
      using cfb_step_pool [OF _ b] st unfolding e t by metis
    then show "?I t" using with_hash_ok [of q fl b h] s b unfolding e t by auto
  qed (use assms(2) in auto)
  then show ?thesis by simp
qed

lemma cache_allocated_inv:
  assumes "cache_allocated hf nh r tc k nn nb m = Inr (res, m')" "kvm_inv m"
  shows "kvm_inv m' \<and> res = Some nb \<and> req_to_blocks m' = req_to_blocks m"
proof (cases "kvm_caching m")
  case False
  then show ?thesis using assms by (simp add: cache_allocated_def)
next
  case True
  obtain fl where fl: "pool_ok (pool m) fl" using assms(2) by (auto simp: kvm_inv_def)
  have sub: "set (req_to_blocks m (request_id r)) \<subseteq> {..<num_gpu_blocks (pool m)}" using assms(2) by (auto simp: kvm_inv_def owned_def)
  from assms(1) True obtain p bh nc nf where
    c: "cache_full_blocks hf nh r (req_to_blocks m (request_id r)) (req_to_block_hashes m (request_id r)) nc nf (block_size m) (pool m) = Inr (p, bh)"
    and m': "m' = m\<lparr>pool := p, req_to_block_hashes := (req_to_block_hashes m)(request_id r := bh),
                   num_cached_block := (num_cached_block m)(request_id r \<mapsto> nf)\<rparr>" "res = Some nb"
    by (auto simp: cache_allocated_def Let_def)
  show ?thesis using cache_full_blocks_pool [OF c fl sub] assms(2) True m' by (auto simp: kvm_inv_def owned_def pool_conf_def)
qed

lemma remove_skipped_ok:
  assumes "remove_skipped_blocks spec bs 0 blocks c = Inr (removed, blocks')"
  shows "length blocks' = length blocks" "set blocks' \<subseteq> insert 0 (set blocks)" "set removed \<subseteq> set blocks"
    "\<And>b. b \<noteq> 0 \<Longrightarrow> count_list blocks b = count_list removed b + count_list blocks' b"
  using assms remove_skipped_loop_ok [of _ blocks "[]" removed blocks']
  by (auto simp: remove_skipped_blocks_def Let_def split: attention_spec.splits)

lemma kvm_inv_set:
  "pool_ok p fl \<Longrightarrow> owned p ((req_to_blocks m)(rid := xs)) \<Longrightarrow> pool_conf p \<Longrightarrow> enable_caching p = kvm_caching m \<Longrightarrow>
     kvm_inv m \<Longrightarrow> kvm_inv ((set_blocks rid xs m)\<lparr>pool := p\<rparr>)"
  by (auto simp: kvm_inv_def set_blocks_def)

text \<open>The last part of \<open>allocate_slots\<close>, from a manager state that owns the prefix-cache hits already.\<close>

definition take_new_blocks ::
  "hash_fn \<Rightarrow> int \<Rightarrow> request \<Rightarrow> int \<Rightarrow> int \<Rightarrow> nat \<Rightarrow> int \<Rightarrow> nat list \<Rightarrow> kv_cache_manager \<Rightarrow> (nat list option \<times> kv_cache_manager) result" where
  "take_new_blocks hf nh r tc k nn want xs m =
     (if want \<le> 0 then cache_allocated hf nh r tc k nn [] m
      else let n = min (min want (get_num_free_blocks (pool m))) (max_num_blocks_per_req m - int (length xs))
        in if n \<le> 0 then Inl AssertionError
           else rbind (get_new_blocks n (pool m))
             (\<lambda>(nb, p3). cache_allocated hf nh r tc k nn nb ((set_blocks (request_id r) (xs @ nb) m)\<lparr>pool := p3\<rparr>)))"

lemma take_new_blocks_inv:
  assumes "take_new_blocks hf nh r tc k nn want xs m = Inr (res, m')" "kvm_inv m" "req_to_blocks m (request_id r) = xs"
  shows "\<exists>nb. res = Some nb \<and> kvm_inv m' \<and> req_to_blocks m' = (req_to_blocks m)(request_id r := xs @ nb) \<and>
    (\<forall>b \<in> set nb. \<forall>rid. b \<notin> set (req_to_blocks m rid)) \<and> int (length nb) \<le> max 0 want \<and>
    (nb = [] \<or> int (length xs + length nb) \<le> max_num_blocks_per_req m)"
proof (cases "want \<le> 0")
  case True
  then show ?thesis using assms cache_allocated_inv [of hf nh r tc k nn "[]" m res m'] by (auto simp: take_new_blocks_def)
next
  case False
  define n where "n = min (min want (get_num_free_blocks (pool m))) (max_num_blocks_per_req m - int (length xs))"
  obtain fl where fl: "pool_ok (pool m) fl" using assms(2) by (auto simp: kvm_inv_def)
  note inv = assms(2) [unfolded kvm_inv_def]
  have eq: "take_new_blocks hf nh r tc k nn want xs m = (if n \<le> 0 then Inl AssertionError
       else rbind (get_new_blocks n (pool m))
             (\<lambda>(nb, p3). cache_allocated hf nh r tc k nn nb ((set_blocks (request_id r) (xs @ nb) m)\<lparr>pool := p3\<rparr>)))"
    unfolding take_new_blocks_def n_def Let_def using False by simp
  have le: "n \<le> want" "int (length xs) + n \<le> max_num_blocks_per_req m" "n \<le> int (length fl)"
    using pool_ok_num_free [OF fl] unfolding n_def by linarith+
  have pos: "0 < n" using assms(1) eq by (cases "n \<le> 0") auto
  have k: "int (nat n) = n" "nat n \<le> length fl" using pos le by auto
  obtain p3 where p3: "get_new_blocks (int (nat n)) (pool m) = Inr (take (nat n) fl, p3)" "pool_ok p3 (drop (nat n) fl)"
    "owned p3 ((req_to_blocks m)(request_id r := xs @ take (nat n) fl))" "pool_conf p3" "enable_caching p3 = enable_caching (pool m)"
    and excl: "\<forall>b \<in> set (take (nat n) fl). \<forall>rid. b \<notin> set (req_to_blocks m rid)"
    using owned_new [OF fl _ _ k(2), of "req_to_blocks m" "request_id r"] inv assms(3) by auto
  let ?m = "(set_blocks (request_id r) (xs @ take (nat n) fl) m)\<lparr>pool := p3\<rparr>"
  have im: "kvm_inv ?m" using p3 inv assms(2) by (intro kvm_inv_set [OF p3(2)]) auto
  have "cache_allocated hf nh r tc k nn (take (nat n) fl) ?m = Inr (res, m')"
    using assms(1) eq pos p3(1) k(1) by simp
  from cache_allocated_inv [OF this im] have "kvm_inv m'" "res = Some (take (nat n) fl)"
    "req_to_blocks m' = (req_to_blocks m)(request_id r := xs @ take (nat n) fl)" by (auto simp: set_blocks_def)
  moreover have "int (length (take (nat n) fl)) = n" using k by simp
  ultimately show ?thesis using excl le by auto
qed

lemma allocate_slots_unfold:
  assumes "kvm_inv m" "set ncb \<subseteq> {..<num_gpu_blocks (pool m)}" "allocate_slots hf nh r k ncb la m = Inr (res, m')"
  obtains xs m1 where "kvm_inv m1" "req_to_blocks m1 = (req_to_blocks m)(request_id r := xs)" "length xs = length (req_to_blocks m (request_id r))"
      "res = None" "m' = m1"
    | xs m2 tc want where "kvm_inv m2" "req_to_blocks m2 = (req_to_blocks m)(request_id r := xs @ ncb)" "length xs = length (req_to_blocks m (request_id r))"
      "tc = num_computed_tokens r + int (length ncb) * int (block_size m)"
      "want = cdiv (tc + k + la) (int (block_size m)) - int (length xs) - int (length ncb)"
      "take_new_blocks hf nh r tc k (length ncb) want (xs @ ncb) m2 = Inr (res, m')" "block_size m2 = block_size m"
      "max_num_blocks_per_req m2 = max_num_blocks_per_req m"
proof -
  let ?f = "req_to_blocks m" and ?rid = "request_id r"
  note inv = assms(1) [unfolded kvm_inv_def]
  obtain fl where fl: "pool_ok (pool m) fl" using inv by auto
  have null: "null_block (pool m) = 0" using fl by (simp add: pool_ok_def)
  from assms(3) null obtain removed xs where rs: "remove_skipped_blocks (attn_spec m) (block_size m) 0 (?f ?rid) (num_computed_tokens r) = Inr (removed, xs)"
    by (auto simp: allocate_slots_def Let_def split: if_splits)
  note rok = remove_skipped_ok [OF rs]
  have sub: "set (?f ?rid) \<subseteq> {..<num_gpu_blocks (pool m)}" using inv by (auto simp: owned_def)
  moreover have "0 < num_gpu_blocks (pool m)" using fl by (simp add: pool_ok_def)
  ultimately have subs: "set removed \<subseteq> {..<num_gpu_blocks (pool m)}" "set xs \<subseteq> {..<num_gpu_blocks (pool m)}" using rok(2,3) by auto
  obtain p1 fl1 where p1: "free_blocks removed (pool m) = Inr p1" "pool_ok p1 fl1" "owned p1 (?f(?rid := xs))" "pool_conf p1"
    "num_gpu_blocks p1 = num_gpu_blocks (pool m)" "enable_caching p1 = enable_caching (pool m)"
    using owned_free [of "pool m" fl ?f removed ?rid xs] fl inv subs rok(4) by blast
  let ?m1 = "(set_blocks ?rid xs m)\<lparr>pool := p1\<rparr>"
  let ?tc = "num_computed_tokens r + int (length ncb) * int (block_size m)"
  let ?want = "cdiv (?tc + k + la) (int (block_size m)) - int (length xs) - int (length ncb)"
  let ?p2 = "if kvm_caching m then touch ncb p1 else p1"
  let ?m2 = "(set_blocks ?rid (xs @ ncb) ?m1)\<lparr>pool := ?p2\<rparr>"
  have i1: "kvm_inv ?m1" using p1 inv assms(1) by (intro kvm_inv_set [OF p1(2)]) auto
  show thesis
  proof (cases "?want > get_num_free_blocks p1 - int (length (filter (\<lambda>b. ref_cnt (pblk p1 b) = 0) ncb))")
    case True
    then have "res = None" "m' = ?m1" using assms(3) rs p1(1) null by (auto simp: allocate_slots_def Let_def split: if_splits)
    then show thesis using that(1) [OF i1, of xs] rok(1) by (simp add: set_blocks_def)
  next
    case False
    have nc: "kvm_caching m \<or> ncb = []" using assms(3) rs p1(1) null False by (auto simp: allocate_slots_def Let_def split: if_splits)
    have "take_new_blocks hf nh r ?tc k (length ncb) ?want (xs @ ncb) ?m2 = Inr (res, m')"
      using assms(3) rs p1(1) null False nc
      by (auto simp: allocate_slots_def take_new_blocks_def Let_def set_blocks_def split: if_splits)
    moreover have "kvm_inv ?m2"
    proof (cases "kvm_caching m")
      case True
      have "set ncb \<subseteq> {..<num_gpu_blocks p1}" using assms(2) p1(5) by simp
      note t = owned_touch [OF p1(2-4) this]
      obtain fl2 where "pool_ok (touch ncb p1) fl2" using t(1) by blast
      then show ?thesis using True t(2) [of ?rid] t(3,5) p1(6) inv by (auto simp: kvm_inv_def set_blocks_def)
    next
      case False
      then show ?thesis using i1 nc by (simp add: kvm_inv_def set_blocks_def)
    qed
    ultimately show thesis using that(2) [of ?m2 xs ?tc ?want] rok(1) by (simp add: set_blocks_def)
  qed
qed

lemma allocate_slots_inv:
  assumes "kvm_inv m" "set ncb \<subseteq> {..<num_gpu_blocks (pool m)}" "allocate_slots hf nh r k ncb la m = Inr (res, m')"
  shows "kvm_inv m'" "\<And>rid. rid \<noteq> request_id r \<Longrightarrow> req_to_blocks m' rid = req_to_blocks m rid"
    "\<And>nb. res = Some nb \<Longrightarrow> \<exists>xs. req_to_blocks m' (request_id r) = xs @ ncb @ nb \<and> length xs = length (req_to_blocks m (request_id r)) \<and>
       (\<forall>b \<in> set nb. b \<notin> set (xs @ ncb) \<and> (\<forall>rid. rid \<noteq> request_id r \<longrightarrow> b \<notin> set (req_to_blocks m' rid)))"
proof -
  have "kvm_inv m' \<and> (\<forall>rid. rid \<noteq> request_id r \<longrightarrow> req_to_blocks m' rid = req_to_blocks m rid) \<and>
    (\<forall>nb. res = Some nb \<longrightarrow> (\<exists>xs. req_to_blocks m' (request_id r) = xs @ ncb @ nb \<and> length xs = length (req_to_blocks m (request_id r)) \<and>
       (\<forall>b \<in> set nb. b \<notin> set (xs @ ncb) \<and> (\<forall>rid. rid \<noteq> request_id r \<longrightarrow> b \<notin> set (req_to_blocks m' rid)))))"
    using allocate_slots_unfold [OF assms]
  proof cases
    case (1 xs m1)
    then show ?thesis by simp
  next
    case (2 xs m2 tc want)
    have "req_to_blocks m2 (request_id r) = xs @ ncb" using 2(2) by simp
    from take_new_blocks_inv [OF 2(6,1) this] obtain nb where nb: "res = Some nb" "kvm_inv m'"
      "req_to_blocks m' = (req_to_blocks m2)(request_id r := (xs @ ncb) @ nb)" "\<forall>b \<in> set nb. \<forall>rid. b \<notin> set (req_to_blocks m2 rid)" by blast
    have "b \<notin> set (xs @ ncb)" "rid \<noteq> request_id r \<Longrightarrow> b \<notin> set (req_to_blocks m rid)" if "b \<in> set nb" for b rid
      using nb(4) [rule_format, OF that, of "request_id r"] nb(4) [rule_format, OF that, of rid] unfolding 2(2) by simp_all
    then show ?thesis using nb 2(2,3) by (intro conjI allI impI) (auto intro!: exI [of _ xs])
  qed
  then show "kvm_inv m'" "\<And>rid. rid \<noteq> request_id r \<Longrightarrow> req_to_blocks m' rid = req_to_blocks m rid"
    "\<And>nb. res = Some nb \<Longrightarrow> \<exists>xs. req_to_blocks m' (request_id r) = xs @ ncb @ nb \<and> length xs = length (req_to_blocks m (request_id r)) \<and>
       (\<forall>b \<in> set nb. b \<notin> set (xs @ ncb) \<and> (\<forall>rid. rid \<noteq> request_id r \<longrightarrow> b \<notin> set (req_to_blocks m' rid)))" by blast+
qed



lemma kvm_free_ok:
  assumes "kvm_inv m"
  shows "\<exists>m'. kvm_free r m = Inr m' \<and> kvm_inv m' \<and> req_to_blocks m' = (req_to_blocks m)(request_id r := []) \<and>
    (\<forall>b < num_gpu_blocks (pool m). b \<noteq> 0 \<longrightarrow> refs (pool m') b = refs (pool m) b - int (count_list (req_to_blocks m (request_id r)) b))"
proof -
  let ?f = "req_to_blocks m" and ?rid = "request_id r"
  let ?bs = "if kvm_caching m then rev (?f ?rid) else ?f ?rid"
  note inv = assms [unfolded kvm_inv_def]
  obtain fl where fl: "pool_ok (pool m) fl" using inv by auto
  have sub: "set ?bs \<subseteq> {..<num_gpu_blocks (pool m)}" using inv by (auto simp: owned_def)
  have cnt: "count_list (?f ?rid) b = count_list ?bs b + count_list [] b" for b by simp
  obtain p' fl' where p': "free_blocks ?bs (pool m) = Inr p'" "pool_ok p' fl'" "owned p' (?f(?rid := []))" "pool_conf p'"
    "enable_caching p' = enable_caching (pool m)" "refs p' = (\<lambda>b. refs (pool m) b - int (count_list ?bs b))"
    using owned_free [of "pool m" fl ?f ?bs ?rid "[]"] fl inv sub cnt by auto
  let ?m = "(set_blocks ?rid [] m)\<lparr>pool := p', num_cached_block := (num_cached_block m)(?rid := None)\<rparr>"
  have "kvm_free r m = Inr ?m" using p'(1) by (simp add: kvm_free_def Let_def)
  moreover have "kvm_inv ?m" using p' inv by (auto simp: kvm_inv_def set_blocks_def)
  moreover have "count_list ?bs b = count_list (?f ?rid) b" for b by simp
  ultimately show ?thesis using p'(6) by (intro exI [of _ ?m]) (simp add: set_blocks_def)
qed

lemma upd_stats_fields:
  assumes "upd_stats f m = Inr m'"
  shows "kvm_inv m' = kvm_inv m" "req_to_blocks m' = req_to_blocks m" "pool m' = pool m" "block_size m' = block_size m"
    "num_cached_block m' = num_cached_block m" "req_to_block_hashes m' = req_to_block_hashes m" "kvm_caching m' = kvm_caching m"
    "attn_spec m' = attn_spec m" "max_num_blocks_per_req m' = max_num_blocks_per_req m"
  using assms by (auto simp: upd_stats_def kvm_inv_def split: if_splits option.splits)

lemma full_cache_hit_hashes:
  assumes "pool_ok p fl"
  shows "length (full_cache_hit p hs) \<le> length hs" "i < length (full_cache_hit p hs) \<Longrightarrow>
    full_cache_hit p hs ! i < num_gpu_blocks p \<and> hashes p (full_cache_hit p hs ! i) = Some (hs ! i)"
proof -
  show "length (full_cache_hit p hs) \<le> length hs" by (induction hs) (auto split: option.splits)
  show "i < length (full_cache_hit p hs) \<Longrightarrow>
    full_cache_hit p hs ! i < num_gpu_blocks p \<and> hashes p (full_cache_hit p hs ! i) = Some (hs ! i)"
  proof (induction hs arbitrary: i)
    case (Cons h hs)
    then show ?case using get_cached_block_hash [OF assms, of h] by (cases i) (auto split: option.splits)
  qed simp
qed

lemma sw_hit_loop_set:
  assumes "pool_ok p fl"
  shows "set computed \<subseteq> {..<num_gpu_blocks p} \<Longrightarrow> set (sw_hit_loop i p hs cw computed num) \<subseteq> {..<num_gpu_blocks p}"
proof (induction i arbitrary: computed num)
  case 0
  then show ?case using set_take_subset [of num computed] by auto
next
  case (Suc i)
  show ?case
  proof (cases "get_cached_block p (hs ! i)")
    case None
    then show ?thesis using Suc by simp
  next
    case (Some b)
    have "set (computed[i := b]) \<subseteq> {..<num_gpu_blocks p}"
      using set_update_subset_insert [of computed i b] Suc.prems get_cached_block_hash [OF assms Some] by auto
    then show ?thesis using Some Suc.IH [of "computed[i := b]"] set_take_subset [of "i + Suc num" "computed[i := b]"] by (auto simp: Let_def)
  qed
qed

lemma find_longest_cache_hit_set:
  assumes "pool_ok p fl"
  shows "set (find_longest_cache_hit spec bs p hs) \<subseteq> {..<num_gpu_blocks p}"
proof (cases spec)
  case FullAttention
  then show ?thesis using full_cache_hit_hashes(2) [OF assms] by (auto simp: find_longest_cache_hit_def in_set_conv_nth)
next
  case (SlidingWindow w)
  have "set (replicate (length hs) (null_block p)) \<subseteq> {..<num_gpu_blocks p}" using assms by (auto simp: pool_ok_def)
  then show ?thesis using sw_hit_loop_set [OF assms] SlidingWindow by (simp add: find_longest_cache_hit_def)
qed

lemma request_block_hashes_fields:
  assumes "request_block_hashes hf nh r m = Inr (bh, m')"
  shows "kvm_inv m' = kvm_inv m" "pool m' = pool m" "req_to_blocks m' = req_to_blocks m" "block_size m' = block_size m"
    "num_cached_block m' = num_cached_block m" "kvm_caching m' = kvm_caching m" "attn_spec m' = attn_spec m"
    "max_num_blocks_per_req m' = max_num_blocks_per_req m" "req_to_block_hashes m' (request_id r) = bh"
    "\<And>rid. rid \<noteq> request_id r \<Longrightarrow> req_to_block_hashes m' rid = req_to_block_hashes m rid"
  using assms by (auto simp: request_block_hashes_def kvm_inv_def split: if_splits)

lemma lookup_computed_ok:
  assumes "pool_ok (pool m) fl" "lookup_computed r bh m = Inr ((cb, n), m')"
  shows "set cb \<subseteq> {..<num_gpu_blocks (pool m)}" "n = int (length cb * block_size m)" "\<exists>f. upd_stats f m = Inr m'"
proof -
  from assms(2) obtain hs m1 where
    "upd_stats (\<lambda>s. s\<lparr>stats_queries := stats_queries s + length hs, stats_hits := stats_hits s + length (hit_blocks m hs)\<rparr>) m = Inr m1"
    "((hit_blocks m hs, int (length (hit_blocks m hs) * block_size m)), m1) = ((cb, n), m')"
    unfolding lookup_computed_def Let_def rbind_Inr_iff by auto
  moreover have "set (hit_blocks m hs) \<subseteq> {..<num_gpu_blocks (pool m)}"
    using find_longest_cache_hit_set [OF assms(1), of "attn_spec m" "block_size m" hs]
    by (auto simp: hit_blocks_def Let_def dest: in_set_butlastD)
  ultimately show "set cb \<subseteq> {..<num_gpu_blocks (pool m)}" "n = int (length cb * block_size m)" "\<exists>f. upd_stats f m = Inr m'"
    by auto
qed

lemma get_computed_blocks_inv:
  assumes "kvm_inv m" "get_computed_blocks hf nh r m = Inr ((cb, n), m')"
  shows "kvm_inv m'" "pool m' = pool m" "req_to_blocks m' = req_to_blocks m" "set cb \<subseteq> {..<num_gpu_blocks (pool m)}"
    "n = int (length cb * block_size m)" "block_size m' = block_size m" "num_cached_block m' = num_cached_block m"
    "kvm_caching m' = kvm_caching m" "attn_spec m' = attn_spec m" "max_num_blocks_per_req m' = max_num_blocks_per_req m"
proof -
  obtain fl where fl: "pool_ok (pool m) fl" using assms(1) by (auto simp: kvm_inv_def)
  consider "cb = []" "n = 0" "m' = m"
    | bh m1 f m2 where "request_block_hashes hf nh r m = Inr (bh, m1)" "upd_stats f m1 = Inr m2" "cb = []" "n = 0" "m' = m2"
    | bh m1 f m2 where "request_block_hashes hf nh r m = Inr (bh, m1)" "upd_stats f m1 = Inr m2" "lookup_computed r bh m2 = Inr ((cb, n), m')"
    using assms(2) by (auto simp: get_computed_blocks_def split: if_splits)
  then have "kvm_inv m' \<and> pool m' = pool m \<and> req_to_blocks m' = req_to_blocks m \<and> set cb \<subseteq> {..<num_gpu_blocks (pool m)} \<and>
    n = int (length cb * block_size m) \<and> block_size m' = block_size m \<and> num_cached_block m' = num_cached_block m \<and>
    kvm_caching m' = kvm_caching m \<and> attn_spec m' = attn_spec m \<and> max_num_blocks_per_req m' = max_num_blocks_per_req m"
  proof cases
    case 1
    then show ?thesis using assms(1) by simp
  next
    case 2
    then show ?thesis using assms(1) request_block_hashes_fields [OF 2(1)] upd_stats_fields [OF 2(2)] by simp
  next
    case 3
    note s = request_block_hashes_fields [OF 3(1)] upd_stats_fields [OF 3(2)]
    have "pool_ok (pool m2) fl" using fl s by simp
    from lookup_computed_ok [OF this 3(3)] obtain f' where l: "set cb \<subseteq> {..<num_gpu_blocks (pool m2)}"
      "n = int (length cb * block_size m2)" "upd_stats f' m2 = Inr m'" by auto
    show ?thesis using assms(1) s l(1,2) upd_stats_fields [OF l(3)] by simp
  qed
  then show "kvm_inv m'" "pool m' = pool m" "req_to_blocks m' = req_to_blocks m" "set cb \<subseteq> {..<num_gpu_blocks (pool m)}"
    "n = int (length cb * block_size m)" "block_size m' = block_size m" "num_cached_block m' = num_cached_block m"
    "kvm_caching m' = kvm_caching m" "attn_spec m' = attn_spec m" "max_num_blocks_per_req m' = max_num_blocks_per_req m" by auto
qed

lemma kvm_reset_inv:
  assumes "kvm_inv m" "kvm_reset_prefix_cache m = Inr (ok, m')"
  shows "kvm_inv m'"
proof -
  obtain fl where fl: "pool_ok (pool m) fl" using assms(1) by (auto simp: kvm_inv_def)
  note r = reset_ok [OF fl]
  obtain k p where e: "reset_prefix_cache (pool m) = (k, p)" by (cases "reset_prefix_cache (pool m)")
  show ?thesis
  proof (cases k)
    case False
    then show ?thesis using assms e by (simp add: kvm_reset_prefix_cache_def)
  next
    case True
    have "kvm_inv (m\<lparr>pool := p\<rparr>)"
      using assms(1) r True e by (auto simp: kvm_inv_def owned_def pool_conf_def)
    then show ?thesis using assms(2) True e upd_stats_fields(1) by (auto simp: kvm_reset_prefix_cache_def)
  qed
qed

lemma kvm_init_inv: "kvm_init bs groups n len caching eagle logging = Inr m \<Longrightarrow> kvm_inv m"
proof -
  assume i: "kvm_init bs groups n len caching eagle logging = Inr m"
  then obtain p where p: "pool_init n caching = Inr p" and bs: "0 < bs" and m: "pool m = p" "block_size m = bs" "kvm_caching m = caching"
    "req_to_blocks m = (\<lambda>_. [])" "log_stats m \<longrightarrow> cache_stats m \<noteq> None"
    by (auto simp: kvm_init_def split: list.splits if_splits)
  have "0 < n" using p by (auto simp: pool_init_def split: if_splits)
  then obtain q where q: "pool_init n caching = Inr q" "pool_ok q [1..<n]" "enable_caching q = caching" "num_gpu_blocks q = n"
    "\<And>b. b < n \<Longrightarrow> refs q b = 0 \<and> hashes q b = None" using pool_init_ok [of n caching] by metis
  then show ?thesis using p m bs by (auto simp: kvm_inv_def owned_def pool_conf_def holders_finite_def held_def)
qed

section \<open>Reachable states\<close>

text \<open>
  The calls the scheduler makes: slots for a running request, lookup and slots for a waiting one,
  freeing (with or without the hashes), and the reset of the prefix cache.
\<close>

inductive kvm_step :: "hash_fn \<Rightarrow> int \<Rightarrow> kv_cache_manager \<Rightarrow> kv_cache_manager \<Rightarrow> bool" for hf nh where
  step_running: "allocate_slots hf nh r k [] la m = Inr (res, m') \<Longrightarrow> kvm_step hf nh m m'"
| step_lookup: "get_computed_blocks hf nh r m = Inr (cb, m') \<Longrightarrow> kvm_step hf nh m m'"
| step_waiting: "get_computed_blocks hf nh r m = Inr ((cb, n), m1) \<Longrightarrow>
    allocate_slots hf nh r k cb la m1 = Inr (res, m') \<Longrightarrow> kvm_step hf nh m m'"
| step_free: "kvm_free r m = Inr m' \<Longrightarrow> kvm_step hf nh m m'"
| step_free_hashes: "kvm_step hf nh m (free_block_hashes r m)"
| step_stats: "make_prefix_cache_stats m = (s, m') \<Longrightarrow> kvm_step hf nh m m'"
| step_reset: "kvm_reset_prefix_cache m = Inr (ok, m') \<Longrightarrow> kvm_step hf nh m m'"

inductive_cases kvm_stepE: "kvm_step hf nh m m'"

inductive kvm_reachable :: "hash_fn \<Rightarrow> int \<Rightarrow> kv_cache_manager \<Rightarrow> bool" for hf nh where
  reach_init: "kvm_init bs groups n len caching eagle logging = Inr m \<Longrightarrow> kvm_reachable hf nh m"
| reach_step: "kvm_reachable hf nh m \<Longrightarrow> kvm_step hf nh m m' \<Longrightarrow> kvm_reachable hf nh m'"

lemma kvm_step_inv: "kvm_step hf nh m m' \<Longrightarrow> kvm_inv m \<Longrightarrow> kvm_inv m'"
proof (induction rule: kvm_step.induct)
  case (step_running r k la m res m')
  then show ?case using allocate_slots_inv(1) [of m "[]"] by simp
next
  case (step_lookup r m cb m')
  then show ?case using get_computed_blocks_inv(1) by (metis prod.collapse)
next
  case (step_waiting r m cb n m1 k la res m')
  note g = get_computed_blocks_inv [OF step_waiting.prems step_waiting.hyps(1)]
  have "set cb \<subseteq> {..<num_gpu_blocks (pool m1)}" using g(2,4) by simp
  then show ?case using allocate_slots_inv(1) [OF g(1) _ step_waiting.hyps(2)] by simp
next
  case (step_free r m m')
  then show ?case using kvm_free_ok [of m r] by auto
next
  case (step_free_hashes m r)
  then show ?case by (simp add: free_block_hashes_def kvm_inv_def)
next
  case (step_stats m s m')
  then show ?case by (auto simp: make_prefix_cache_stats_def kvm_inv_def split: if_splits)
next
  case (step_reset m ok m')
  then show ?case using kvm_reset_inv by blast
qed

lemma kvm_reachable_inv: "kvm_reachable hf nh m \<Longrightarrow> kvm_inv m"
  by (induction rule: kvm_reachable.induct) (blast intro: kvm_init_inv kvm_step_inv)+

section \<open>Successful allocation\<close>








section \<open>Properties\<close>

text \<open>
  C15. No leak, no double use. In every state the manager can reach, for every block but the null
  block, the reference count is exactly the number of times the block occurs in the block tables of
  all requests; a block is in the free queue if and only if it occurs in no table; and the walk over
  the free queue terminates and counts \<open>num_free_blocks\<close> blocks.
\<close>

theorem block_ownership:
  assumes "kvm_reachable hf nh m"
  shows "\<exists>fl. get_all_free_blocks (free_block_queue (pool m)) = Some fl \<and> distinct fl \<and> get_num_free_blocks (pool m) = int (length fl) \<and>
    (\<forall>b < num_gpu_blocks (pool m). b \<noteq> null_block (pool m) \<longrightarrow>
       refs (pool m) b = (\<Sum>rid | req_to_blocks m rid \<noteq> []. int (count_list (req_to_blocks m rid) b)) \<and>
       (b \<in> set fl \<longleftrightarrow> (\<forall>rid. b \<notin> set (req_to_blocks m rid))))"
proof -
  have inv: "kvm_inv m" using kvm_reachable_inv [OF assms] .
  then obtain fl where fl: "pool_ok (pool m) fl" by (auto simp: kvm_inv_def)
  then have "get_all_free_blocks (free_block_queue (pool m)) = Some fl" using dll_walk by (auto simp: pool_ok_def)
  moreover have "b \<in> set fl \<longleftrightarrow> (\<forall>rid. b \<notin> set (req_to_blocks m rid))" if "b < num_gpu_blocks (pool m)" "b \<noteq> 0" for b
    using that inv fl held_zero_iff [of "req_to_blocks m" b] by (auto simp: kvm_inv_def owned_def pool_ok_def)
  ultimately show ?thesis
    using fl inv pool_ok_free_list [OF fl] pool_ok_num_free [OF fl]
    by (auto simp: pool_ok_def kvm_inv_def owned_def held_def)
qed

definition sample_manager :: "nat \<Rightarrow> kv_cache_manager result" where
  "sample_manager n = kvm_init 2 [FullAttention] n 64 True False True"

lemma sample_manager_ok: "0 < n \<Longrightarrow> \<exists>m. sample_manager n = Inr m \<and> kvm_reachable hf nh m \<and> num_gpu_blocks (pool m) = n"
proof -
  assume n: "0 < n"
  obtain p where p: "pool_init n True = Inr p" "num_gpu_blocks p = n" using pool_init_ok [OF n, of True] by metis
  then obtain m where m: "sample_manager n = Inr m" "pool m = p" by (auto simp: sample_manager_def kvm_init_def)
  moreover have "kvm_reachable hf nh m" using m(1) unfolding sample_manager_def by (rule reach_init)
  ultimately show ?thesis using p by auto
qed

theorem block_ownership_witness:
  "\<exists>m. sample_manager 3 = Inr m \<and> (\<exists>fl. get_all_free_blocks (free_block_queue (pool m)) = Some fl \<and> distinct fl)"
proof -
  obtain m where m: "sample_manager 3 = Inr m" "kvm_reachable encode_hash (-1) m"
    using sample_manager_ok [of 3 encode_hash "-1"] by auto
  then show ?thesis using block_ownership [OF m(2)] by blast
qed

text \<open>
  C16. A successful \<open>allocate_slots\<close> extends the block table of the request by the prefix-cache hits
  and the new blocks, leaves all other tables alone, and gives out only blocks that no table holds.
  When it returns \<open>None\<close> no table of another request changed.
\<close>

theorem allocate_slots_exclusive:
  assumes "kvm_reachable hf nh m" "set ncb \<subseteq> {..<num_gpu_blocks (pool m)}" "allocate_slots hf nh r k ncb la m = Inr (res, m')"
  shows "(\<forall>rid. rid \<noteq> request_id r \<longrightarrow> req_to_blocks m' rid = req_to_blocks m rid) \<and>
    (case res of None \<Rightarrow> True
     | Some new \<Rightarrow> \<exists>old. req_to_blocks m' (request_id r) = old @ ncb @ new \<and> length old = length (req_to_blocks m (request_id r)) \<and>
         (\<forall>b \<in> set new. b \<notin> set (old @ ncb) \<and> (\<forall>rid. rid \<noteq> request_id r \<longrightarrow> b \<notin> set (req_to_blocks m' rid))))"
  using allocate_slots_inv(2,3) [OF kvm_reachable_inv [OF assms(1)] assms(2,3)] by (auto split: option.splits)

definition allocate_example :: "(nat list option \<times> nat list) result" where
  "allocate_example = rbind (sample_manager 3) (\<lambda>m.
     rbind (allocate_slots (\<lambda>_. 7) 1 (text_request ''a'' [1, 2, 3]) 3 [] 0 m) (\<lambda>(res, m'). Inr (res, req_to_blocks m' ''a'')))"

lemma allocate_example_eval: "allocate_example = Inr (Some [1, 2], [1, 2])"
  by code_simp

theorem allocate_slots_exclusive_witness:
  "\<exists>m m'. sample_manager 3 = Inr m \<and> allocate_slots (\<lambda>_. 7) 1 (text_request ''a'' [1, 2, 3]) 3 [] 0 m = Inr (Some [1, 2], m') \<and>
     req_to_blocks m' ''a'' = [1, 2] \<and> req_to_blocks m' ''b'' = req_to_blocks m ''b''"
proof -
  obtain m m' where m: "sample_manager 3 = Inr m"
      "allocate_slots (\<lambda>_. 7) 1 (text_request ''a'' [1, 2, 3]) 3 [] 0 m = Inr (Some [1, 2], m')" "req_to_blocks m' ''a'' = [1, 2]"
    using allocate_example_eval by (auto simp: allocate_example_def)
  have "kvm_reachable (\<lambda>_. 7) 1 m" using sample_manager_ok [of 3 "\<lambda>_. 7" 1] m(1) by auto
  then have "req_to_blocks m' ''b'' = req_to_blocks m ''b''"
    using allocate_slots_exclusive [OF _ _ m(2)] by simp
  then show ?thesis using m by blast
qed

text \<open>
  Freeing a request never fails in a reachable state. It drops the whole table of the request,
  keeps the others, and takes back exactly the references that table held.
\<close>

theorem kvm_free_total:
  assumes "kvm_reachable hf nh m"
  shows "\<exists>m'. kvm_free r m = Inr m' \<and> kvm_reachable hf nh m' \<and> req_to_blocks m' = (req_to_blocks m)(request_id r := []) \<and>
    (\<forall>b < num_gpu_blocks (pool m). b \<noteq> null_block (pool m) \<longrightarrow>
       refs (pool m') b = refs (pool m) b - int (count_list (req_to_blocks m (request_id r)) b))"
proof -
  have inv: "kvm_inv m" using kvm_reachable_inv [OF assms] .
  then have null: "null_block (pool m) = 0" by (auto simp: kvm_inv_def pool_ok_def)
  obtain m' where m': "kvm_free r m = Inr m'" "req_to_blocks m' = (req_to_blocks m)(request_id r := [])"
    "\<forall>b < num_gpu_blocks (pool m). b \<noteq> 0 \<longrightarrow> refs (pool m') b = refs (pool m) b - int (count_list (req_to_blocks m (request_id r)) b)"
    using kvm_free_ok [OF inv, of r] by blast
  then show ?thesis using assms null by (auto intro: reach_step step_free)
qed

theorem kvm_free_total_witness:
  "\<exists>m m'. sample_manager 3 = Inr m \<and> kvm_free (text_request ''a'' [1]) m = Inr m' \<and> req_to_blocks m' ''a'' = []"
proof -
  obtain m where m: "sample_manager 3 = Inr m" "kvm_reachable encode_hash (-1) m"
    using sample_manager_ok [of 3 encode_hash "-1"] by auto
  then show ?thesis using kvm_free_total [OF m(2), of "text_request ''a'' [1]"] by auto
qed






lemma request_block_hashes_ok:
  assumes "request_hashable r" "0 < block_size m"
    "req_to_block_hashes m (request_id r) = [] \<or> req_hashes_ok hf nh (block_size m) r (req_to_block_hashes m (request_id r))"
  shows "\<exists>bh m'. request_block_hashes hf nh r m = Inr (bh, m') \<and> req_hashes_ok hf nh (block_size m) r bh \<and>
    log_stats m' = log_stats m \<and> cache_stats m' = cache_stats m \<and> use_eagle m' = use_eagle m"
proof (cases "req_to_block_hashes m (request_id r) = []")
  case True
  obtain hs where hs: "hash_request_tokens hf nh (block_size m) r = Inr hs" using hash_request_tokens_total [OF assms(1,2)] by blast
  note c = hash_request_tokens_chain [OF hs]
  have "req_hashes_ok hf nh (block_size m) r hs" unfolding req_hashes_ok_def using c by (simp add: num_tokens_def)
  then show ?thesis using True hs by (simp add: request_block_hashes_def)
next
  case False
  then show ?thesis using assms(3) by (simp add: request_block_hashes_def)
qed

lemma upd_stats_total: "(log_stats m \<longrightarrow> cache_stats m \<noteq> None) \<Longrightarrow> \<exists>m'. upd_stats f m = Inr m' \<and>
   (log_stats m' \<longrightarrow> cache_stats m' \<noteq> None) \<and> use_eagle m' = use_eagle m"
  by (auto simp: upd_stats_def)

lemma lookup_computed_full:
  assumes "pool_ok (pool m) fl" "attn_spec m = FullAttention" "0 < block_size m" "0 < num_tokens r"
    "req_hashes_ok hf nh (block_size m) r bh" "log_stats m \<longrightarrow> cache_stats m \<noteq> None"
  shows "\<exists>cb m'. lookup_computed r bh m = Inr ((cb, int (length cb * block_size m)), m') \<and> length cb \<le> length bh \<and>
    length cb * block_size m < num_tokens r \<and> (\<forall>i < length cb. hashes (pool m) (cb ! i) = Some (bh ! i)) \<and>
    req_to_block_hashes m' = req_to_block_hashes m"
proof -
  let ?bs = "block_size m"
  have le: "length bh * ?bs \<le> num_tokens r" using assms(5) by (simp add: req_hashes_ok_def)
  obtain hs where hs: "(if length bh * ?bs = num_tokens r then if bh = [] then Inl IndexError else Inr (butlast bh) else Inr bh) = Inr hs"
    using assms(4) by (cases "length bh * ?bs = num_tokens r"; cases "bh = []") auto
  have h: "hs = take (length hs) bh" "length hs * ?bs < num_tokens r" "length hs \<le> length bh"
  proof -
    show "hs = take (length hs) bh" "length hs \<le> length bh" using hs by (auto simp: butlast_conv_take split: if_splits)
    show "length hs * ?bs < num_tokens r"
    proof (cases "length bh * ?bs = num_tokens r")
      case True
      then have "length hs < length bh" using hs by (auto split: if_splits)
      then have "length hs * ?bs < length bh * ?bs" using assms(3) by simp
      then show ?thesis using True by simp
    qed (use hs le in auto)
  qed
  have hit: "hit_blocks m hs = take (length (hit_blocks m hs)) (full_cache_hit (pool m) hs)"
    using assms(2) by (auto simp: hit_blocks_def find_longest_cache_hit_def Let_def butlast_conv_take)
  note fh = full_cache_hit_hashes [OF assms(1), where hs = hs]
  have lh: "length (hit_blocks m hs) \<le> length (full_cache_hit (pool m) hs)" by (subst hit) simp
  have hv: "hashes (pool m) (hit_blocks m hs ! i) = Some (bh ! i)" if "i < length (hit_blocks m hs)" for i
  proof -
    have "hit_blocks m hs ! i = full_cache_hit (pool m) hs ! i" using that by (subst hit) simp
    moreover have "hs ! i = bh ! i" using that lh fh(1) h(1) by (metis less_le_trans nth_take)
    ultimately show ?thesis using fh(2) [of i] that lh by simp
  qed
  have "length (hit_blocks m hs) \<le> length hs" using lh fh(1) by simp
  then have lt: "length (hit_blocks m hs) * ?bs < num_tokens r" using h(2) mult_le_mono1 [of "length (hit_blocks m hs)" "length hs" ?bs] by linarith
  obtain m' where m': "upd_stats (\<lambda>s. s\<lparr>stats_queries := stats_queries s + length hs, stats_hits := stats_hits s + length (hit_blocks m hs)\<rparr>) m = Inr m'"
    using upd_stats_total [OF assms(6)] by blast
  have "lookup_computed r bh m = Inr ((hit_blocks m hs, int (length (hit_blocks m hs) * ?bs)), m')"
    unfolding lookup_computed_def hs Let_def rbind_simps m' by simp
  then show ?thesis using lt hv h(3) lh fh(1) upd_stats_fields(6) [OF m'] by (intro exI [of _ "hit_blocks m hs"] exI [of _ m']) simp
qed

text \<open>
  C19. Prefix-cache hits are sound. For a waiting request on a reachable manager with full attention,
  the lookup raises nothing; the hits are whole blocks and never cover all tokens, so that at least one
  token is left to compute; the \<open>i\<close>-th hit carries the \<open>i\<close>-th block hash of the request. If the hash
  function has no collisions, any other request whose hash chain gave the block its hash agrees with
  this one on all tokens up to the end of that block.
\<close>

theorem get_computed_blocks_sound:
  assumes "kvm_reachable hf nh m" "attn_spec m = FullAttention" "kvm_caching m" "request_hashable r" "0 < num_tokens r"
    "prompt_logprobs (sampling r) = None"
    "req_to_block_hashes m (request_id r) = [] \<or> req_hashes_ok hf nh (block_size m) r (req_to_block_hashes m (request_id r))"
  shows "\<exists>cb m'. get_computed_blocks hf nh r m = Inr ((cb, int (length cb * block_size m)), m') \<and> length cb * block_size m < num_tokens r \<and>
    req_hashes_ok hf nh (block_size m) r (req_to_block_hashes m' (request_id r)) \<and> length cb \<le> length (req_to_block_hashes m' (request_id r)) \<and>
    (\<forall>i < length cb. hashes (pool m) (cb ! i) = Some (req_to_block_hashes m' (request_id r) ! i) \<and>
      (\<forall>r' bh j. collision_free hf nh \<and> req_hashes_ok hf nh (block_size m) r' bh \<and> j < length bh \<and> hashes (pool m) (cb ! i) = Some (bh ! j) \<longrightarrow>
         j = i \<and> take (Suc i * block_size m) (all_token_ids r') = take (Suc i * block_size m) (all_token_ids r)))"
proof -
  note inv = kvm_reachable_inv [OF assms(1), unfolded kvm_inv_def]
  obtain fl where fl: "pool_ok (pool m) fl" using inv by auto
  have bs: "0 < block_size m" using inv by simp
  obtain bh m1 where m1: "request_block_hashes hf nh r m = Inr (bh, m1)" "req_hashes_ok hf nh (block_size m) r bh"
    "log_stats m1 \<longrightarrow> cache_stats m1 \<noteq> None" using request_block_hashes_ok [OF assms(4) bs assms(7)] inv by auto
  note f1 = request_block_hashes_fields [OF m1(1)]
  obtain m2 where m2: "upd_stats (\<lambda>s. s\<lparr>stats_requests := stats_requests s + 1\<rparr>) m1 = Inr m2" "log_stats m2 \<longrightarrow> cache_stats m2 \<noteq> None"
    using upd_stats_total [OF m1(3)] by blast
  note f2 = upd_stats_fields [OF m2(1)]
  obtain cb m3 where l: "lookup_computed r bh m2 = Inr ((cb, int (length cb * block_size m2)), m3)" "length cb \<le> length bh"
    "length cb * block_size m2 < num_tokens r" "\<forall>i < length cb. hashes (pool m2) (cb ! i) = Some (bh ! i)"
    "req_to_block_hashes m3 = req_to_block_hashes m2"
    using lookup_computed_full [of m2 fl r hf nh bh] fl f1 f2 assms(2,5) bs m1(2) m2(2) by auto
  have same: "pool m2 = pool m" "block_size m2 = block_size m" "req_to_block_hashes m3 (request_id r) = bh" using f1 f2 l(5) by simp_all
  have eq: "get_computed_blocks hf nh r m = Inr ((cb, int (length cb * block_size m)), m3)"
    using assms(3,6) m1(1) m2(1) l(1) same by (simp add: get_computed_blocks_def)
  have tok: "j = i \<and> take (Suc i * block_size m) (all_token_ids r') = take (Suc i * block_size m) (all_token_ids r)"
    if i: "i < length cb" and cf: "collision_free hf nh" and r': "req_hashes_ok hf nh (block_size m) r' bh'" "j < length bh'"
      "hashes (pool m) (cb ! i) = Some (bh' ! j)" for i j r' bh'
  proof -
    have "bh ! i = bh' ! j" using l(4) i r'(3) same(1) by simp
    then have m: "i = j" "take (Suc i) bh = take (Suc j) bh'"
      using chains_meet [OF cf, of bh bh' i j] m1(2) r' i l(2) by (auto simp: req_hashes_ok_def)
    have "concat (map token_ids (take (Suc i) bh)) = take (Suc i * block_size m) (all_token_ids r)"
      using m1(2) i l(2) by (intro chain_tokens) (auto simp: req_hashes_ok_def)
    moreover have "concat (map token_ids (take (Suc j) bh')) = take (Suc j * block_size m) (all_token_ids r')"
      using r' by (intro chain_tokens) (auto simp: req_hashes_ok_def)
    ultimately show ?thesis using m by simp
  qed
  show ?thesis using eq l(2,3,4) m1(2) same tok by (intro exI [of _ cb] exI [of _ m3]) auto
qed

text \<open>A request that shares the first block with a running one, for any hash function.\<close>

definition hit_example :: "hash_fn \<Rightarrow> int \<Rightarrow> (bool \<times> nat list \<times> int) result" where
  "hit_example hf nh = rbind (sample_manager 4) (\<lambda>m.
     rbind (allocate_slots hf nh (text_request ''a'' [1, 2, 3]) 3 [] 0 m) (\<lambda>(_, m1).
     rbind (get_computed_blocks hf nh (text_request ''b'' [1, 2, 4]) m1) (\<lambda>((cb, n), _).
       Inr (attn_spec m1 = FullAttention \<and> kvm_caching m1 \<and> block_size m1 = 2 \<and> req_to_block_hashes m1 ''b'' = [], cb, n))))"

lemma hit_example_eval: "hit_example hf nh = Inr (True, [1], 2)"
  unfolding hit_example_def by code_simp

theorem get_computed_blocks_sound_witness:
  "\<exists>m m'. kvm_reachable encode_hash (-1) m \<and> get_computed_blocks encode_hash (-1) (text_request ''b'' [1, 2, 4]) m = Inr (([1], 2), m') \<and>
     hashes (pool m) 1 = Some (req_to_block_hashes m' ''b'' ! 0) \<and>
     (\<forall>r' bh j. req_hashes_ok encode_hash (-1) 2 r' bh \<and> j < length bh \<and> hashes (pool m) 1 = Some (bh ! j) \<longrightarrow>
        j = 0 \<and> take 2 (all_token_ids r') = [1, 2])"
proof -
  let ?r = "text_request ''b'' [1, 2, 4]"
  obtain m0 m res m' where m: "sample_manager 4 = Inr m0" "allocate_slots encode_hash (-1) (text_request ''a'' [1, 2, 3]) 3 [] 0 m0 = Inr (res, m)"
    and hit: "get_computed_blocks encode_hash (-1) ?r m = Inr (([1], 2), m')"
    and f: "attn_spec m = FullAttention" "kvm_caching m" "block_size m = 2" "req_to_block_hashes m ''b'' = []"
    using hit_example_eval [of encode_hash "-1"] by (auto simp: hit_example_def)
  have "kvm_reachable encode_hash (-1) m0" using sample_manager_ok [of 4 encode_hash "-1"] m(1) by auto
  then have reach: "kvm_reachable encode_hash (-1) m" using m(2) by (blast intro: reach_step step_running)
  have r: "prompt_logprobs (sampling ?r) = None" "0 < num_tokens ?r" "request_id ?r = ''b''" "take 2 (all_token_ids ?r) = [1, 2]"
    by (simp_all add: text_request_def sample_params_def num_tokens_def)
  show ?thesis
    using get_computed_blocks_sound [OF reach f(1,2) text_request_hashable(1) r(2,1)] hit f(3,4) r(3,4) reach encode_hash_collision_free
    by - (rule exI [of _ m], rule exI [of _ m'], auto simp: numeral_2_eq_2)
qed

end
