(* ===== verification/Message_Queue.thy ===== *)
theory Message_Queue
  imports Prelude "HOL-Library.Sublist"
begin

text \<open>
  \<open>MessageQueue\<close> of \<open>verl/experimental/fully_async_policy/message_queue.py\<close>: the bounded queue between
  rollouter and trainer.

  Every method holds the actor's lock from its first to its last statement, so a method is one atomic
  function on the state; only \<open>get_sample\<close> gives the lock up, in the \<open>wait\<close> of its loop. The step
  relation \<open>mq_step\<close> interleaves the methods with the consumers that wait there. The size estimate of
  \<open>get_memory_usage\<close> depends on \<open>sys.getsizeof\<close> of a sample, which is the argument \<open>sz\<close>.
\<close>

section \<open>State and methods\<close>

record ('a, 'v) message_queue =
  max_queue_size :: nat
  mq_queue :: "'a list"
  val_queue :: "'v list"
  mq_running :: bool
  total_produced :: nat
  total_consumed :: nat
  dropped_samples :: nat

text \<open>\<open>deque(maxlen=n)\<close> raises \<open>ValueError\<close> for a negative \<open>n\<close>, the constructor itself for \<open>None\<close>.\<close>

definition mq_init :: "int option \<Rightarrow> ('a, 'v) message_queue result" where
  "mq_init cap = (case cap of None \<Rightarrow> Inl ValueError
     | Some n \<Rightarrow> if n < 0 then Inl ValueError
        else Inr \<lparr>max_queue_size = nat n, mq_queue = [], val_queue = [], mq_running = True,
                  total_produced = 0, total_consumed = 0, dropped_samples = 0\<rparr>)"

text \<open>\<open>popleft\<close> of an empty deque raises \<open>IndexError\<close>, which happens when the capacity is 0.\<close>

definition put_sample :: "'a \<Rightarrow> ('a, 'v) message_queue \<Rightarrow> (bool \<times> ('a, 'v) message_queue) result" where
  "put_sample x q =
     rbind (if length (mq_queue q) \<ge> max_queue_size q
            then if mq_queue q = [] then Inl IndexError
                 else Inr (True, q\<lparr>mq_queue := tl (mq_queue q), dropped_samples := dropped_samples q + 1\<rparr>)
            else Inr (False, q))
       (\<lambda>(is_drop, q1).
          let q2 = q1\<lparr>mq_queue := mq_queue q1 @ [x], total_produced := total_produced q1 + 1\<rparr>
          in Inr (\<not> is_drop, q2))"

text \<open>The two ways out of the waiting loop of \<open>get_sample\<close>, and the wait.\<close>

datatype 'a get_outcome = Wait | Closed | Got 'a nat

definition get_sample :: "('a, 'v) message_queue \<Rightarrow> 'a get_outcome \<times> ('a, 'v) message_queue" where
  "get_sample q =
     (if mq_queue q = [] \<and> mq_running q then (Wait, q)
      else if \<not> mq_running q \<and> mq_queue q = [] then (Closed, q)
      else (Got (hd (mq_queue q)) (length (tl (mq_queue q))),
            q\<lparr>mq_queue := tl (mq_queue q), total_consumed := total_consumed q + 1\<rparr>))"

definition get_queue_size :: "('a, 'v) message_queue \<Rightarrow> nat" where
  "get_queue_size q = length (mq_queue q)"

definition get_statistics :: "('a, 'v) message_queue \<Rightarrow> (string \<times> nat) list" where
  "get_statistics q = [(''queue_size'', length (mq_queue q)), (''total_produced'', total_produced q),
     (''total_consumed'', total_consumed q), (''dropped_samples'', dropped_samples q), (''max_queue_size'', max_queue_size q)]"

definition clear_queue :: "('a, 'v) message_queue \<Rightarrow> ('a, 'v) message_queue" where
  "clear_queue q = q\<lparr>mq_queue := []\<rparr>"

definition mq_shutdown :: "('a, 'v) message_queue \<Rightarrow> ('a, 'v) message_queue" where
  "mq_shutdown q = q\<lparr>mq_running := False\<rparr>"

text \<open>
  \<open>sz\<close> gives the size of a sample, the number of entries of its batch dict when it has a non-empty
  one, and whether it has an \<open>agent_loop_output\<close>; \<open>None\<close> stands for an exception in the estimate.
\<close>

definition get_memory_usage :: "('a \<Rightarrow> (nat \<times> nat \<times> bool) option) \<Rightarrow> ('a, 'v) message_queue \<Rightarrow> nat \<times> nat" where
  "get_memory_usage sz q =
     (let sample_count = length (mq_queue q)
      in (sample_count,
          if sample_count > 0
          then (case sz (hd (mq_queue q)) of None \<Rightarrow> sample_count * 15000
                | Some (s, entries, has_out) \<Rightarrow> (s + entries * 1000 + (if has_out then 5000 else 0)) * sample_count)
          else 0))"

definition put_validate :: "'v \<Rightarrow> ('a, 'v) message_queue \<Rightarrow> ('a, 'v) message_queue" where
  "put_validate v q = q\<lparr>val_queue := val_queue q @ [v]\<rparr>"

definition get_validate :: "('a, 'v) message_queue \<Rightarrow> 'v option \<times> ('a, 'v) message_queue" where
  "get_validate q = (case val_queue q of [] \<Rightarrow> (None, q) | v # vs \<Rightarrow> (Some v, q\<lparr>val_queue := vs\<rparr>))"

section \<open>The actor with its waiting consumers\<close>

text \<open>
  A consumer is the coroutine of one \<open>get_sample\<close> call: \<open>Ready\<close> to run under the lock, or \<open>Waiting\<close> on
  the condition. \<open>notify_all\<close> makes all waiting consumers ready. \<open>history\<close> and \<open>fates\<close> are history
  variables: the samples put, and the samples that left the queue with the way they left it, in order.
\<close>

datatype consumer = Ready | Waiting

datatype fate = Delivered | Dropped | Cleared

record ('a, 'v) actor =
  mq :: "('a, 'v) message_queue"
  consumers :: "nat \<Rightarrow> consumer option"
  history :: "'a list"
  fates :: "('a \<times> fate) list"
  validations :: "'v list"
  validated :: "'v list"

definition notify_all :: "(nat \<Rightarrow> consumer option) \<Rightarrow> nat \<Rightarrow> consumer option" where
  "notify_all f c = (case f c of None \<Rightarrow> None | Some _ \<Rightarrow> Some Ready)"

definition with_fate :: "fate \<Rightarrow> ('a \<times> fate) list \<Rightarrow> 'a list" where
  "with_fate f xs = map fst (filter (\<lambda>x. snd x = f) xs)"

inductive mq_step :: "('a, 'v) actor \<Rightarrow> ('a, 'v) actor \<Rightarrow> bool" where
  put: "put_sample x (mq a) = Inr (ok, q) \<Longrightarrow>
     mq_step a (a\<lparr>mq := q, consumers := notify_all (consumers a), history := history a @ [x],
       fates := fates a @ (if max_queue_size (mq a) \<le> length (mq_queue (mq a)) then [(hd (mq_queue (mq a)), Dropped)] else [])\<rparr>)"
| call: "consumers a c = None \<Longrightarrow> mq_step a (a\<lparr>consumers := (consumers a)(c \<mapsto> Ready)\<rparr>)"
| wait: "consumers a c = Some Ready \<Longrightarrow> get_sample (mq a) = (Wait, q) \<Longrightarrow>
     mq_step a (a\<lparr>mq := q, consumers := (consumers a)(c \<mapsto> Waiting)\<rparr>)"
| closed: "consumers a c = Some Ready \<Longrightarrow> get_sample (mq a) = (Closed, q) \<Longrightarrow>
     mq_step a (a\<lparr>mq := q, consumers := (consumers a)(c := None)\<rparr>)"
| got: "consumers a c = Some Ready \<Longrightarrow> get_sample (mq a) = (Got x n, q) \<Longrightarrow>
     mq_step a (a\<lparr>mq := q, consumers := (consumers a)(c := None), fates := fates a @ [(x, Delivered)]\<rparr>)"
| clear: "mq_step a (a\<lparr>mq := clear_queue (mq a), fates := fates a @ map (\<lambda>x. (x, Cleared)) (mq_queue (mq a))\<rparr>)"
| shutdown: "mq_step a (a\<lparr>mq := mq_shutdown (mq a), consumers := notify_all (consumers a)\<rparr>)"
| put_val: "mq_step a (a\<lparr>mq := put_validate v (mq a), validations := validations a @ [v]\<rparr>)"
| get_val: "get_validate (mq a) = (r, q) \<Longrightarrow>
     mq_step a (a\<lparr>mq := q, validated := validated a @ (case r of None \<Rightarrow> [] | Some v \<Rightarrow> [v])\<rparr>)"

definition actor_init :: "int option \<Rightarrow> ('a, 'v) actor result" where
  "actor_init cap = rbind (mq_init cap)
     (\<lambda>q. Inr \<lparr>mq = q, consumers = (\<lambda>_. None), history = [], fates = [], validations = [], validated = []\<rparr>)"

inductive mq_reachable :: "('a, 'v) actor \<Rightarrow> bool" where
  init: "actor_init cap = Inr a \<Longrightarrow> mq_reachable a"
| step: "mq_reachable a \<Longrightarrow> mq_step a b \<Longrightarrow> mq_reachable b"

inductive_cases mq_stepE: "mq_step a b"

section \<open>The invariant\<close>

definition mq_inv :: "('a, 'v) actor \<Rightarrow> bool" where
  "mq_inv a \<longleftrightarrow> history a = map fst (fates a) @ mq_queue (mq a) \<and>
     total_produced (mq a) = length (history a) \<and> total_consumed (mq a) = length (with_fate Delivered (fates a)) \<and>
     dropped_samples (mq a) = length (with_fate Dropped (fates a)) \<and>
     length (mq_queue (mq a)) \<le> max_queue_size (mq a) \<and>
     validations a = validated a @ val_queue (mq a) \<and>
     (\<forall>c. consumers a c = Some Waiting \<longrightarrow> mq_queue (mq a) = [] \<and> mq_running (mq a))"

lemma with_fate_simps [simp]:
  "with_fate f [] = []" "with_fate f (xs @ ys) = with_fate f xs @ with_fate f ys"
  "with_fate f [(x, g)] = (if g = f then [x] else [])" "with_fate f (map (\<lambda>x. (x, g)) zs) = (if g = f then zs else [])"
  by (simp_all add: with_fate_def filter_map comp_def)

lemma length_fates: "length (with_fate Delivered xs) + length (with_fate Dropped xs) + length (with_fate Cleared xs) = length xs"
proof (induction xs)
  case (Cons x xs)
  then show ?case by (cases "snd x") (simp_all add: with_fate_def)
qed simp

lemma subseq_with_fate: "subseq (with_fate f xs) (map fst xs)"
  unfolding with_fate_def by (rule subseq_map) (rule subseq_filter_left)

lemma put_sample_cases:
  assumes "put_sample x q = Inr (ok, q')"
  obtains "length (mq_queue q) < max_queue_size q" "ok" "q' = q\<lparr>mq_queue := mq_queue q @ [x], total_produced := total_produced q + 1\<rparr>"
    | y ys where "mq_queue q = y # ys" "max_queue_size q \<le> length (mq_queue q)" "\<not> ok"
        "q' = q\<lparr>mq_queue := ys @ [x], dropped_samples := dropped_samples q + 1, total_produced := total_produced q + 1\<rparr>"
  using assms by (cases "mq_queue q") (auto simp: put_sample_def Let_def split: if_splits)

lemma get_sample_cases:
  obtains "mq_queue q = []" "mq_running q" "get_sample q = (Wait, q)"
    | "mq_queue q = []" "\<not> mq_running q" "get_sample q = (Closed, q)"
    | y ys where "mq_queue q = y # ys" "get_sample q = (Got y (length ys), q\<lparr>mq_queue := ys, total_consumed := total_consumed q + 1\<rparr>)"
  by (cases "mq_queue q") (auto simp: get_sample_def)

lemma notify_all_not_waiting [simp]: "notify_all f c \<noteq> Some Waiting"
  by (simp add: notify_all_def split: option.splits)

lemma mq_inv_init: "actor_init cap = Inr a \<Longrightarrow> mq_inv a"
  by (auto simp: actor_init_def mq_init_def mq_inv_def split: option.splits if_splits)

lemma mq_inv_put:
  assumes "mq_inv a" "put_sample x (mq a) = Inr (ok, q)"
  shows "mq_inv (a\<lparr>mq := q, consumers := notify_all (consumers a), history := history a @ [x],
    fates := fates a @ (if max_queue_size (mq a) \<le> length (mq_queue (mq a)) then [(hd (mq_queue (mq a)), Dropped)] else [])\<rparr>)"
  using assms(2)
proof (cases rule: put_sample_cases)
  case 1
  then show ?thesis using assms(1) by (auto simp: mq_inv_def)
next
  case (2 y ys)
  then show ?thesis using assms(1) by (auto simp: mq_inv_def)
qed

lemma mq_inv_got:
  assumes "mq_inv a" "get_sample (mq a) = (Got x n, q)"
  shows "mq_inv (a\<lparr>mq := q, consumers := (consumers a)(c := None), fates := fates a @ [(x, Delivered)]\<rparr>)"
proof -
  obtain ys where "mq_queue (mq a) = x # ys" "q = (mq a)\<lparr>mq_queue := ys, total_consumed := total_consumed (mq a) + 1\<rparr>"
    using assms(2) by (cases "mq_queue (mq a)") (auto simp: get_sample_def split: if_splits)
  then show ?thesis using assms(1) by (auto simp: mq_inv_def)
qed

lemma mq_inv_clear: "mq_inv a \<Longrightarrow> mq_inv (a\<lparr>mq := clear_queue (mq a), fates := fates a @ map (\<lambda>x. (x, Cleared)) (mq_queue (mq a))\<rparr>)"
  by (auto simp: mq_inv_def clear_queue_def comp_def)

lemma mq_step_inv: "mq_step a b \<Longrightarrow> mq_inv a \<Longrightarrow> mq_inv b"
proof (induction rule: mq_step.induct)
  case (put x a ok q)
  then show ?case by (intro mq_inv_put)
next
  case (wait a c q)
  then have "mq_queue (mq a) = []" "mq_running (mq a)" "q = mq a" by (auto simp: get_sample_def split: if_splits)
  then show ?case using wait.prems by (auto simp: mq_inv_def)
next
  case (closed a c q)
  then have "q = mq a" by (auto simp: get_sample_def split: if_splits)
  then show ?case using closed.prems by (auto simp: mq_inv_def)
next
  case (got a c x n q)
  then show ?case by (intro mq_inv_got)
next
  case (clear a)
  then show ?case by (rule mq_inv_clear)
next
  case (get_val a r q)
  then show ?case by (auto simp: mq_inv_def get_validate_def split: list.splits)
qed (auto simp: mq_inv_def mq_shutdown_def put_validate_def)

lemma mq_reachable_inv: "mq_reachable a \<Longrightarrow> mq_inv a"
  by (induction rule: mq_reachable.induct) (auto intro: mq_inv_init mq_step_inv)

section \<open>Properties\<close>

text \<open>
  C24. Order and accounting. Whatever the interleaving of producers, consumers, clearing and shutdown:
  the queue never exceeds its capacity; the samples put are, in order, those that left the queue followed by
  those still in it, so that the returned ones are in the order in which they were put and none twice;
  \<open>total_consumed\<close> and \<open>dropped_samples\<close> are exactly the numbers of returned samples and of samples
  pushed out of a full queue, so that the samples produced are those consumed, dropped, cleared and queued
  (cleared ones have no counter); and validation results come out in order and without loss.
\<close>

theorem message_queue_fifo:
  assumes "mq_reachable a"
  shows "length (mq_queue (mq a)) \<le> max_queue_size (mq a) \<and>
    history a = map fst (fates a) @ mq_queue (mq a) \<and> subseq (with_fate Delivered (fates a)) (history a) \<and>
    total_consumed (mq a) = length (with_fate Delivered (fates a)) \<and> dropped_samples (mq a) = length (with_fate Dropped (fates a)) \<and>
    total_produced (mq a) = total_consumed (mq a) + dropped_samples (mq a) + length (with_fate Cleared (fates a)) + length (mq_queue (mq a)) \<and>
    validations a = validated a @ val_queue (mq a)"
proof -
  note inv = mq_reachable_inv [OF assms, unfolded mq_inv_def]
  have "subseq (with_fate Delivered (fates a)) (history a)" using inv subseq_with_fate by auto
  then show ?thesis using inv length_fates [of "fates a"] by auto
qed

definition queue_of :: "nat \<Rightarrow> nat list \<Rightarrow> (nat, nat) actor" where
  "queue_of n xs = \<lparr>mq = \<lparr>max_queue_size = n, mq_queue = xs, val_queue = [], mq_running = True, total_produced = length xs,
      total_consumed = 0, dropped_samples = 0\<rparr>, consumers = (\<lambda>_. None), history = xs, fates = [], validations = [], validated = []\<rparr>"

lemma queue_of_reachable: "length xs \<le> n \<Longrightarrow> mq_reachable (queue_of n xs)"
proof (induction xs rule: rev_induct)
  case Nil
  have "actor_init (Some (int n)) = Inr (queue_of n [])" by (simp add: actor_init_def mq_init_def queue_of_def)
  then show ?case by (rule mq_reachable.init)
next
  case (snoc x xs)
  have "put_sample x (mq (queue_of n xs)) = Inr (True, mq (queue_of n (xs @ [x])))"
    using snoc.prems by (simp add: put_sample_def queue_of_def)
  moreover have "notify_all (\<lambda>_. None) = (\<lambda>_. None)" by (simp add: notify_all_def fun_eq_iff)
  ultimately have "mq_step (queue_of n xs) (queue_of n (xs @ [x]))"
    using mq_step.put [of x "queue_of n xs"] snoc.prems by (simp add: queue_of_def)
  then show ?case using snoc by (auto intro: mq_reachable.step)
qed

text \<open>A queue of capacity 2 gets three samples, so that the oldest is dropped; a consumer takes the next one, and the last is cleared.\<close>

definition busy_queue :: "(nat, nat) actor" where
  "busy_queue = \<lparr>mq = \<lparr>max_queue_size = 2, mq_queue = [], val_queue = [], mq_running = True, total_produced = 3,
      total_consumed = 1, dropped_samples = 1\<rparr>, consumers = (\<lambda>_. None), history = [7, 8, 9],
      fates = [(7, Dropped), (8, Delivered), (9, Cleared)], validations = [], validated = []\<rparr>"

lemma busy_queue_reachable: "mq_reachable busy_queue"
proof -
  let ?a = "queue_of 2 [7, 8]"
  let ?b = "?a\<lparr>mq := (mq ?a)\<lparr>mq_queue := [8, 9], total_produced := 3, dropped_samples := 1\<rparr>, history := [7, 8, 9], fates := [(7, Dropped)]\<rparr>"
  let ?c = "?b\<lparr>consumers := [3 \<mapsto> Ready]\<rparr>"
  let ?d = "?b\<lparr>mq := (mq ?b)\<lparr>mq_queue := [9], total_consumed := 1\<rparr>, fates := [(7, Dropped), (8, Delivered)]\<rparr>"
  have none: "notify_all (\<lambda>_. None) = (\<lambda>_. None)" by (simp add: notify_all_def fun_eq_iff)
  have "put_sample 9 (mq ?a) = Inr (False, mq ?b)" by (simp add: put_sample_def queue_of_def)
  then have ab: "mq_step ?a ?b" using mq_step.put [of 9 ?a False "mq ?b"] by (simp add: queue_of_def none)
  have bc: "mq_step ?b ?c" using mq_step.call [of ?b 3] by (simp add: queue_of_def)
  have cd: "mq_step ?c ?d"
  proof -
    have "get_sample (mq ?c) = (Got 8 1, mq ?d)" by (simp add: get_sample_def queue_of_def)
    from mq_step.got [OF _ this, of 3] show ?thesis by (simp add: queue_of_def)
  qed
  have de: "mq_step ?d busy_queue" using mq_step.clear [of ?d] by (simp add: queue_of_def busy_queue_def clear_queue_def)
  have "mq_reachable ?a" using queue_of_reachable [of "[7, 8]" 2] by simp
  from mq_reachable.step [OF mq_reachable.step [OF mq_reachable.step [OF mq_reachable.step [OF this ab] bc] cd] de] show ?thesis .
qed

theorem message_queue_fifo_witness:
  "history busy_queue = [7, 8, 9] \<and> map fst (fates busy_queue) = [7, 8, 9] \<and> with_fate Delivered (fates busy_queue) = [8] \<and>
   total_produced (mq busy_queue) = 1 + 1 + 1 + 0"
  using message_queue_fifo [OF busy_queue_reachable] by (simp add: busy_queue_def with_fate_def)

text \<open>
  C25. No lost wake-up. Whenever a sample is queued or the queue was shut down, no consumer is left
  waiting: each pending \<open>get_sample\<close> call can run, and running it returns to its caller.
\<close>

theorem no_lost_wakeup:
  assumes "mq_reachable a" "mq_queue (mq a) \<noteq> [] \<or> \<not> mq_running (mq a)" "consumers a c \<noteq> None"
  shows "consumers a c = Some Ready \<and> (\<exists>b. mq_step a b \<and> consumers b c = None)"
proof -
  have ready: "consumers a c = Some Ready"
    using mq_reachable_inv [OF assms(1)] assms(2,3) by (cases "consumers a c"; cases "the (consumers a c)") (auto simp: mq_inv_def)
  have "\<exists>b. mq_step a b \<and> consumers b c = None"
  proof (cases "mq a" rule: get_sample_cases)
    case 1
    then show ?thesis using assms(2) by simp
  next
    case 2
    show ?thesis by (intro exI conjI, rule mq_step.closed [OF ready 2(3)]) simp
  next
    case (3 y ys)
    show ?thesis by (intro exI conjI, rule mq_step.got [OF ready 3(2)]) simp
  qed
  then show ?thesis using ready by blast
qed

definition waiting_then_put :: "(nat, nat) actor" where
  "waiting_then_put = (queue_of 2 [7])\<lparr>consumers := [3 \<mapsto> Ready]\<rparr>"

lemma waiting_then_put_reachable: "mq_reachable waiting_then_put"
proof -
  have "mq_reachable (queue_of 2 [7])" using queue_of_reachable [of "[7]" 2] by simp
  moreover have "mq_step (queue_of 2 [7]) waiting_then_put"
    using mq_step.call [of "queue_of 2 [7]" 3] by (simp add: waiting_then_put_def queue_of_def)
  ultimately show ?thesis by (rule mq_reachable.step)
qed

theorem no_lost_wakeup_witness:
  "consumers waiting_then_put 3 = Some Ready \<and> (\<exists>b. mq_step waiting_then_put b \<and> consumers b 3 = None)"
  by (rule no_lost_wakeup [OF waiting_then_put_reachable]) (simp_all add: waiting_then_put_def queue_of_def)

text \<open>
  \<open>put_sample\<close> raises (\<open>IndexError\<close>) only for a queue of capacity 0. Otherwise the sample is always
  stored as the newest one; the result is \<open>False\<close> exactly when the queue was full, in which case it is
  the oldest sample that was dropped.
\<close>

theorem put_sample_always_stores:
  "if max_queue_size q = 0 \<and> mq_queue q = [] then put_sample x q = Inl IndexError
   else \<exists>ok q'. put_sample x q = Inr (ok, q') \<and>
     (ok \<longleftrightarrow> length (mq_queue q) < max_queue_size q) \<and>
     mq_queue q' = (if ok then mq_queue q else tl (mq_queue q)) @ [x] \<and>
     dropped_samples q' = dropped_samples q + (if ok then 0 else 1)"
  by (cases "mq_queue q") (auto simp: put_sample_def Let_def)

end
