(* ===== verification/Load_Balancer.thy ===== *)
theory Load_Balancer
  imports Prelude "HOL-Library.AList"
begin

text \<open>
  \<open>GlobalRequestLoadBalancer\<close> and the replica arithmetic of \<open>LLMServerManager\<close>, both in
  \<open>verl/workers/rollout/llm_server.py\<close>.

  A Python dict keeps insertion order, which decides ties in \<open>min\<close>; it is an association list with
  distinct keys, updated by \<open>AList.update\<close> (in place, or at the end for a new key). The routing cache is
  an \<open>LRUCache\<close> of the package \<open>cachetools\<close>: a parameter \<open>L\<close> with the operations the source uses, of which
  \<open>lru_laws\<close> states the documented behaviour.
\<close>

section \<open>The routing cache\<close>

record 'c lru_ops =
  lru_new :: "int \<Rightarrow> 'c"
  lru_mem :: "'c \<Rightarrow> string \<Rightarrow> bool"
  lru_get :: "'c \<Rightarrow> string \<Rightarrow> string \<times> 'c"
  lru_del :: "string \<Rightarrow> 'c \<Rightarrow> 'c"
  lru_put :: "string \<Rightarrow> string \<Rightarrow> 'c \<Rightarrow> 'c result"

definition lru_content :: "'c lru_ops \<Rightarrow> 'c \<Rightarrow> string \<Rightarrow> string option" where
  "lru_content L c k = (if lru_mem L c k then Some (fst (lru_get L c k)) else None)"

text \<open>
  Reading an entry does not change the contents, deleting removes just that entry, and storing into
  a cache of positive size succeeds, may evict other entries, and changes none of them.
\<close>

definition lru_laws :: "'c lru_ops \<Rightarrow> ('c \<Rightarrow> bool) \<Rightarrow> bool" where
  "lru_laws L good \<longleftrightarrow>
     (\<forall>n. 1 \<le> n \<longrightarrow> good (lru_new L n) \<and> (\<forall>k. lru_content L (lru_new L n) k = None)) \<and>
     (\<forall>c k. good c \<and> lru_mem L c k \<longrightarrow> good (snd (lru_get L c k)) \<and> lru_content L (snd (lru_get L c k)) = lru_content L c) \<and>
     (\<forall>c k. good c \<longrightarrow> good (lru_del L k c) \<and> lru_content L (lru_del L k c) = (lru_content L c)(k := None)) \<and>
     (\<forall>c k v. good c \<longrightarrow> (\<exists>c'. lru_put L k v c = Inr c' \<and> good c' \<and> lru_content L c' k = Some v \<and>
        (\<forall>k'. k' \<noteq> k \<longrightarrow> lru_content L c' k' = None \<or> lru_content L c' k' = lru_content L c k')))"

lemma lru_get_law:
  "lru_laws L good \<Longrightarrow> good c \<Longrightarrow> lru_mem L c k \<Longrightarrow> good (snd (lru_get L c k)) \<and> lru_content L (snd (lru_get L c k)) = lru_content L c"
  by (simp add: lru_laws_def)

lemma lru_del_law:
  "lru_laws L good \<Longrightarrow> good c \<Longrightarrow> good (lru_del L k c) \<and> lru_content L (lru_del L k c) = (lru_content L c)(k := None)"
  by (simp add: lru_laws_def)

lemma lru_put_law:
  "lru_laws L good \<Longrightarrow> good c \<Longrightarrow> \<exists>c'. lru_put L k v c = Inr c' \<and> good c' \<and> lru_content L c' k = Some v \<and>
     (\<forall>k'. k' \<noteq> k \<longrightarrow> lru_content L c' k' = None \<or> lru_content L c' k' = lru_content L c k')"
  by (simp add: lru_laws_def)

section \<open>The balancer\<close>

record ('h, 'c) balancer =
  servers :: "(string \<times> 'h) list"
  inflight_requests :: "(string \<times> int) list"
  request_id_to_server :: 'c

definition balancer_init :: "'c lru_ops \<Rightarrow> (string \<times> 'h) list \<Rightarrow> int \<Rightarrow> ('h, 'c) balancer result" where
  "balancer_init L svs max_cache_size =
     (if svs = [] then Inl ValueError
      else Inr \<lparr>servers = svs, inflight_requests = map (\<lambda>(sid, _). (sid, 0)) svs, request_id_to_server = lru_new L max_cache_size\<rparr>)"

text \<open>\<open>min(d, key=d.get)\<close>: the first key with the smallest value.\<close>

fun min_server :: "(string \<times> int) list \<Rightarrow> string \<times> int \<Rightarrow> string \<times> int" where
  "min_server [] best = best"
| "min_server ((k, v) # d) best = min_server d (if v < snd best then (k, v) else best)"

definition py_getitem :: "(string \<times> 'v) list \<Rightarrow> string \<Rightarrow> 'v result" where
  "py_getitem d k = (case map_of d k of None \<Rightarrow> Inl KeyError | Some v \<Rightarrow> Inr v)"

definition dict_add :: "string \<Rightarrow> int \<Rightarrow> (string \<times> int) list \<Rightarrow> (string \<times> int) list result" where
  "dict_add k n d = rbind (py_getitem d k) (\<lambda>v. Inr (AList.update k (v + n) d))"

definition take_server :: "string \<Rightarrow> ('h, 'c) balancer \<Rightarrow> ((string \<times> 'h) \<times> ('h, 'c) balancer) result" where
  "take_server sid b =
     rbind (dict_add sid 1 (inflight_requests b))
       (\<lambda>d. let b' = b\<lparr>inflight_requests := d\<rparr> in rbind (py_getitem (servers b') sid) (\<lambda>h. Inr ((sid, h), b')))"

definition select_server :: "'c lru_ops \<Rightarrow> string \<Rightarrow> ('h, 'c) balancer \<Rightarrow> ((string \<times> 'h) \<times> ('h, 'c) balancer) result" where
  "select_server L rid b =
     (case inflight_requests b of [] \<Rightarrow> Inl RuntimeError
      | p # d \<Rightarrow>
          let sid = fst (min_server d p)
          in rbind (lru_put L rid sid (request_id_to_server b)) (\<lambda>c. take_server sid (b\<lparr>request_id_to_server := c\<rparr>)))"

definition acquire_server :: "'c lru_ops \<Rightarrow> string \<Rightarrow> ('h, 'c) balancer \<Rightarrow> ((string \<times> 'h) \<times> ('h, 'c) balancer) result" where
  "acquire_server L rid b =
     (if lru_mem L (request_id_to_server b) rid then
        let (sid, c) = lru_get L (request_id_to_server b) rid; b1 = b\<lparr>request_id_to_server := c\<rparr>
        in if sid \<in> fst ` set (inflight_requests b1) then take_server sid b1
           else select_server L rid (b1\<lparr>request_id_to_server := lru_del L rid (request_id_to_server b1)\<rparr>)
      else select_server L rid b)"

definition release_server :: "string \<Rightarrow> ('h, 'c) balancer \<Rightarrow> ('h, 'c) balancer" where
  "release_server sid b =
     (case map_of (inflight_requests b) sid of None \<Rightarrow> b
      | Some n \<Rightarrow> if n > 0 then b\<lparr>inflight_requests := AList.update sid (n - 1) (inflight_requests b)\<rparr> else b)"

definition add_servers :: "(string \<times> 'h) list \<Rightarrow> ('h, 'c) balancer \<Rightarrow> ('h, 'c) balancer" where
  "add_servers svs b =
     fold (\<lambda>(sid, h) b. b\<lparr>inflight_requests := AList.update sid 0 (inflight_requests b), servers := AList.update sid h (servers b)\<rparr>) svs b"

definition remove_servers :: "string list \<Rightarrow> ('h, 'c) balancer \<Rightarrow> ('h, 'c) balancer" where
  "remove_servers sids b =
     fold (\<lambda>sid b. b\<lparr>inflight_requests := AList.delete sid (inflight_requests b), servers := AList.delete sid (servers b)\<rparr>) sids b"

definition get_inflight_count :: "string \<Rightarrow> ('h, 'c) balancer \<Rightarrow> int" where
  "get_inflight_count sid b = (case map_of (inflight_requests b) sid of None \<Rightarrow> 0 | Some n \<Rightarrow> n)"

definition get_all_servers :: "('h, 'c) balancer \<Rightarrow> string list" where
  "get_all_servers b = map fst (inflight_requests b)"

definition get_status :: "('h, 'c) balancer \<Rightarrow> (string \<times> int) list \<times> int \<times> nat \<times> string list" where
  "get_status b = (inflight_requests b, sum_list (map snd (inflight_requests b)), length (inflight_requests b), map fst (servers b))"

text \<open>The number of replicas in \<open>_initialize_llm_servers\<close>; \<open>disagg\<close> holds prefill and decode replicas and the decode size.\<close>

definition rollout_world_size :: "int \<Rightarrow> int \<Rightarrow> int \<Rightarrow> (int \<times> int \<times> int option) option \<Rightarrow> int" where
  "rollout_world_size tp dp pp disagg =
     (case disagg of None \<Rightarrow> tp * dp * pp
      | Some (prefill_replicas, decode_replicas, decode_tp) \<Rightarrow>
          (tp * prefill_replicas + (case decode_tp of None \<Rightarrow> tp | Some d \<Rightarrow> d) * decode_replicas) * dp * pp)"

definition num_replicas :: "int \<Rightarrow> int \<Rightarrow> int \<Rightarrow> int \<Rightarrow> (int \<times> int \<times> int option) option \<Rightarrow> int result" where
  "num_replicas world_size tp dp pp disagg =
     (let w = rollout_world_size tp dp pp disagg in if w = 0 then Inl ZeroDivisionError else Inr (world_size div w))"

section \<open>The invariant\<close>

definition balancer_ok :: "('c \<Rightarrow> bool) \<Rightarrow> ('h, 'c) balancer \<Rightarrow> bool" where
  "balancer_ok good b \<longleftrightarrow> distinct (map fst (inflight_requests b)) \<and> distinct (map fst (servers b)) \<and>
     fst ` set (inflight_requests b) = fst ` set (servers b) \<and> (\<forall>n \<in> snd ` set (inflight_requests b). 0 \<le> n) \<and>
     good (request_id_to_server b)"

lemma min_server_min: "min_server d best \<in> insert best (set d) \<and> (\<forall>p \<in> insert best (set d). snd (min_server d best) \<le> snd p)"
proof (induction d arbitrary: best)
  case (Cons p d)
  obtain k v where p: "p = (k, v)" by (cases p)
  show ?case using Cons.IH [of "if v < snd best then (k, v) else best"] unfolding p by (auto split: if_splits intro: order.trans)
qed simp

lemma snd_update_subset: "snd ` set (AList.update k v d) \<subseteq> insert v (snd ` set d)"
  by (induction d) auto

lemma fst_update: "fst ` set (AList.update k v d) = insert k (fst ` set d)"
  by (induction d) auto

lemma map_of_key: "k \<in> fst ` set d \<Longrightarrow> \<exists>v. map_of d k = Some v"
  by (metis domI domIff dom_map_of_conv_image_fst not_None_eq)

lemma take_server_ok:
  assumes "balancer_ok good b" "sid \<in> fst ` set (inflight_requests b)"
  obtains h n where "map_of (servers b) sid = Some h" "map_of (inflight_requests b) sid = Some n"
    "take_server sid b = Inr ((sid, h), b\<lparr>inflight_requests := AList.update sid (n + 1) (inflight_requests b)\<rparr>)"
    "balancer_ok good (b\<lparr>inflight_requests := AList.update sid (n + 1) (inflight_requests b)\<rparr>)"
proof -
  obtain n where n: "map_of (inflight_requests b) sid = Some n" using map_of_key [OF assms(2)] by blast
  obtain h where h: "map_of (servers b) sid = Some h" using map_of_key [of sid "servers b"] assms by (auto simp: balancer_ok_def)
  have nn: "\<forall>x \<in> snd ` set (inflight_requests b). 0 \<le> x" using assms(1) by (simp add: balancer_ok_def)
  moreover have "n \<in> snd ` set (inflight_requests b)" using map_of_SomeD [OF n] by force
  moreover from calculation have "0 \<le> n" by blast
  ultimately have "\<forall>x \<in> insert (n + 1) (snd ` set (inflight_requests b)). 0 \<le> x" by (simp add: add_nonneg_nonneg)
  then have "\<forall>x \<in> snd ` set (AList.update sid (n + 1) (inflight_requests b)). 0 \<le> x"
    using snd_update_subset [of sid "n + 1" "inflight_requests b"] by blast
  then have "balancer_ok good (b\<lparr>inflight_requests := AList.update sid (n + 1) (inflight_requests b)\<rparr>)"
    using assms unfolding balancer_ok_def by (auto simp: fst_update distinct_update)
  then show ?thesis using that n h by (simp add: take_server_def dict_add_def py_getitem_def Let_def)
qed

text \<open>The server a request is routed to, if its routing entry is still valid.\<close>

definition sticky :: "'c lru_ops \<Rightarrow> string \<Rightarrow> ('h, 'c) balancer \<Rightarrow> string option" where
  "sticky L rid b = (case lru_content L (request_id_to_server b) rid of None \<Rightarrow> None
     | Some sid \<Rightarrow> if sid \<in> fst ` set (inflight_requests b) then Some sid else None)"

lemma select_server_ok:
  assumes "lru_laws L good" "balancer_ok good b" "inflight_requests b \<noteq> []"
  shows "\<exists>sid n h b'. select_server L rid b = Inr ((sid, h), b') \<and> map_of (servers b) sid = Some h \<and>
    (sid, n) \<in> set (inflight_requests b) \<and> (\<forall>p \<in> set (inflight_requests b). n \<le> snd p) \<and>
    inflight_requests b' = AList.update sid (n + 1) (inflight_requests b) \<and> balancer_ok good b' \<and>
    servers b' = servers b \<and> lru_content L (request_id_to_server b') rid = Some sid \<and>
    (\<forall>k. k \<noteq> rid \<longrightarrow> lru_content L (request_id_to_server b') k = None \<or> lru_content L (request_id_to_server b') k = lru_content L (request_id_to_server b) k)"
proof -
  obtain p d where d: "inflight_requests b = p # d" using assms(3) by (cases "inflight_requests b") auto
  let ?sid = "fst (min_server d p)"
  note mn = min_server_min [of d p]
  have mem: "min_server d p \<in> set (inflight_requests b)" using mn d by auto
  obtain c where c: "lru_put L rid ?sid (request_id_to_server b) = Inr c" "good c" "lru_content L c rid = Some ?sid"
    "\<forall>k. k \<noteq> rid \<longrightarrow> lru_content L c k = None \<or> lru_content L c k = lru_content L (request_id_to_server b) k"
    using lru_put_law [OF assms(1), of "request_id_to_server b" rid ?sid] assms(2) by (auto simp: balancer_ok_def)
  let ?b = "b\<lparr>request_id_to_server := c\<rparr>"
  have ok: "balancer_ok good ?b" "?sid \<in> fst ` set (inflight_requests ?b)" using assms(2) c(2) mem by (auto simp: balancer_ok_def)
  obtain h n where t: "map_of (servers ?b) ?sid = Some h" "map_of (inflight_requests ?b) ?sid = Some n"
    "take_server ?sid ?b = Inr ((?sid, h), ?b\<lparr>inflight_requests := AList.update ?sid (n + 1) (inflight_requests ?b)\<rparr>)"
    "balancer_ok good (?b\<lparr>inflight_requests := AList.update ?sid (n + 1) (inflight_requests ?b)\<rparr>)"
    using take_server_ok [OF ok] by metis
  have n: "n = snd (min_server d p)"
  proof -
    have "map_of (inflight_requests b) ?sid = Some (snd (min_server d p))"
      using mem assms(2) by (intro map_of_is_SomeI) (simp_all add: balancer_ok_def)
    then show ?thesis using t(2) by simp
  qed
  have "select_server L rid b = Inr ((?sid, h), ?b\<lparr>inflight_requests := AList.update ?sid (n + 1) (inflight_requests ?b)\<rparr>)"
    using d c(1) t(3) by (simp add: select_server_def Let_def)
  moreover have "(?sid, n) \<in> set (inflight_requests b)" "\<forall>q \<in> set (inflight_requests b). n \<le> snd q" using mem n mn d by auto
  ultimately show ?thesis using t c(3,4) by auto
qed

lemma acquire_sticky:
  assumes "lru_laws L good" "balancer_ok good b" "sticky L rid b = Some sid"
  shows "\<exists>h n b'. acquire_server L rid b = Inr ((sid, h), b') \<and> map_of (servers b) sid = Some h \<and>
    map_of (inflight_requests b) sid = Some n \<and> inflight_requests b' = AList.update sid (n + 1) (inflight_requests b) \<and>
    balancer_ok good b' \<and> servers b' = servers b \<and> lru_content L (request_id_to_server b') = lru_content L (request_id_to_server b)"
proof -
  have s: "lru_mem L (request_id_to_server b) rid" "fst (lru_get L (request_id_to_server b) rid) = sid" "sid \<in> fst ` set (inflight_requests b)"
    using assms(3) by (auto simp: sticky_def lru_content_def split: option.splits if_splits)
  let ?b = "b\<lparr>request_id_to_server := snd (lru_get L (request_id_to_server b) rid)\<rparr>"
  have g: "good (snd (lru_get L (request_id_to_server b) rid))"
    "lru_content L (snd (lru_get L (request_id_to_server b) rid)) = lru_content L (request_id_to_server b)"
    using lru_get_law [OF assms(1) _ s(1)] assms(2) by (simp_all add: balancer_ok_def)
  have ok: "balancer_ok good ?b" "sid \<in> fst ` set (inflight_requests ?b)" using assms(2) g(1) s(3) by (auto simp: balancer_ok_def)
  obtain h n where t: "map_of (servers ?b) sid = Some h" "map_of (inflight_requests ?b) sid = Some n"
    "take_server sid ?b = Inr ((sid, h), ?b\<lparr>inflight_requests := AList.update sid (n + 1) (inflight_requests ?b)\<rparr>)"
    "balancer_ok good (?b\<lparr>inflight_requests := AList.update sid (n + 1) (inflight_requests ?b)\<rparr>)"
    using take_server_ok [OF ok] by metis
  have "acquire_server L rid b = take_server sid ?b"
    using s by (simp add: acquire_server_def Let_def case_prod_beta)
  then show ?thesis using t g(2) by auto
qed

lemma acquire_fresh:
  assumes "lru_laws L good" "balancer_ok good b" "sticky L rid b = None"
  shows "\<exists>b0. acquire_server L rid b = select_server L rid b0 \<and> balancer_ok good b0 \<and> servers b0 = servers b \<and>
    inflight_requests b0 = inflight_requests b \<and>
    (\<forall>k. k \<noteq> rid \<longrightarrow> lru_content L (request_id_to_server b0) k = lru_content L (request_id_to_server b) k)"
proof (cases "lru_mem L (request_id_to_server b) rid")
  case False
  then show ?thesis using assms(2) by (intro exI [of _ b]) (simp add: acquire_server_def)
next
  case True
  let ?c = "snd (lru_get L (request_id_to_server b) rid)"
  have nin: "fst (lru_get L (request_id_to_server b) rid) \<notin> fst ` set (inflight_requests b)"
    using assms(3) True by (auto simp: sticky_def lru_content_def split: if_splits)
  have g: "good ?c" "lru_content L ?c = lru_content L (request_id_to_server b)"
    using lru_get_law [OF assms(1) _ True] assms(2) by (simp_all add: balancer_ok_def)
  have d: "good (lru_del L rid ?c)" "lru_content L (lru_del L rid ?c) = (lru_content L ?c)(rid := None)"
    using lru_del_law [OF assms(1) g(1)] by simp_all
  let ?b = "b\<lparr>request_id_to_server := lru_del L rid ?c\<rparr>"
  have "acquire_server L rid b = select_server L rid ?b"
    using True nin by (simp add: acquire_server_def Let_def case_prod_beta)
  moreover have "balancer_ok good ?b" using assms(2) d(1) by (simp add: balancer_ok_def)
  ultimately show ?thesis using d(2) g(2) by (intro exI [of _ ?b]) simp
qed

lemma release_after_take:
  assumes "distinct (map fst d)" "map_of d sid = Some n"
  shows "AList.update sid n (AList.update sid (n + 1) d) = d"
  using assms by (induction d) (auto dest: map_of_SomeD)

section \<open>A concrete routing cache\<close>

text \<open>A least-recently-used cache of bounded size, the most recently used entry last.\<close>

type_synonym lru_list = "nat \<times> (string \<times> string) list"

definition lru_list_ops :: "lru_list lru_ops" where
  "lru_list_ops = \<lparr>lru_new = (\<lambda>n. (nat n, [])), lru_mem = (\<lambda>(n, d) k. k \<in> fst ` set d),
     lru_get = (\<lambda>(n, d) k. let v = the (map_of d k) in (v, (n, AList.delete k d @ [(k, v)]))),
     lru_del = (\<lambda>k (n, d). (n, AList.delete k d)),
     lru_put = (\<lambda>k v (n, d). if n = 0 then Inl ValueError
        else let d1 = AList.delete k d; d2 = (if length d1 < n then d1 else drop (Suc (length d1) - n) d1) in Inr (n, d2 @ [(k, v)]))\<rparr>"

definition lru_list_ok :: "lru_list \<Rightarrow> bool" where
  "lru_list_ok c \<longleftrightarrow> 0 < fst c \<and> distinct (map fst (snd c))"

lemma lru_list_content: "lru_content lru_list_ops (n, d) = map_of d"
proof (rule ext)
  fix k
  show "lru_content lru_list_ops (n, d) k = map_of d k"
    using map_of_key [of k d] map_of_eq_None_iff [of d k] by (auto simp: lru_content_def lru_list_ops_def Let_def)
qed

lemma distinct_drop_keys: "distinct (map fst d) \<Longrightarrow> distinct (map fst (drop k d))"
  by (simp add: drop_map [symmetric])

lemma map_of_drop: "distinct (map fst d) \<Longrightarrow> map_of (drop k d) x = None \<or> map_of (drop k d) x = map_of d x"
proof (induction d arbitrary: k)
  case (Cons p d)
  obtain a b where p: "p = (a, b)" by (cases p)
  show ?case
  proof (cases k)
    case (Suc j)
    have "a \<notin> fst ` set (drop j d)" using Cons.prems p by (auto dest: in_set_dropD)
    then have "map_of (drop j d) a = None" by (simp add: map_of_eq_None_iff)
    then show ?thesis using Cons.IH [of j] Cons.prems Suc p by auto
  qed simp
qed simp

lemma keys_delete: "fst ` set (AList.delete k d) = fst ` set d - {k}"
  by (metis delete_keys set_map set_removeAll)

lemma lru_list_laws: "lru_laws lru_list_ops lru_list_ok"
proof -
  have snoc: "[k \<mapsto> v] ++ map_of d = (map_of d)(k \<mapsto> v)" if "k \<notin> fst ` set d" for d :: "(string \<times> string) list" and k v
  proof -
    have "map_of d k = None" using that by (simp add: map_of_eq_None_iff)
    then show ?thesis by (auto simp: fun_eq_iff map_add_def split: option.splits)
  qed
  have nk: "k \<notin> fst ` set (drop j (AList.delete k d))" for k j and d :: "(string \<times> string) list"
    using image_mono [OF set_drop_subset [of j "AList.delete k d"], of fst] unfolding keys_delete by blast
  have upd: "(map_of (AList.delete k d))(k \<mapsto> v) = map_of d" if "map_of d k = Some v" for d :: "(string \<times> string) list" and k v
    using that by (auto simp: delete_conv' fun_eq_iff)
  have get: "lru_list_ok (snd (lru_get lru_list_ops c k)) \<and> lru_content lru_list_ops (snd (lru_get lru_list_ops c k)) = lru_content lru_list_ops c"
    if okc: "lru_list_ok c" and mem: "lru_mem lru_list_ops c k" for c k
  proof -
    obtain n d where c: "c = (n, d)" by (cases c)
    obtain v where v: "map_of d k = Some v" using mem map_of_key [of k d] unfolding c lru_list_ops_def by auto
    have g: "lru_get lru_list_ops (n, d) k = (v, (n, AList.delete k d @ [(k, v)]))" using v by (simp add: lru_list_ops_def)
    show ?thesis unfolding c g snd_conv lru_list_content using okc nk [of k 0 d] upd [OF v]
      by (auto simp: c lru_list_ok_def snoc distinct_delete)
  qed
  have put: "\<exists>c'. lru_put lru_list_ops k v c = Inr c' \<and> lru_list_ok c' \<and> lru_content lru_list_ops c' k = Some v \<and>
        (\<forall>k'. k' \<noteq> k \<longrightarrow> lru_content lru_list_ops c' k' = None \<or> lru_content lru_list_ops c' k' = lru_content lru_list_ops c k')"
    if okc: "lru_list_ok c" for c k v
  proof -
    obtain n d where c: "c = (n, d)" by (cases c)
    let ?d = "AList.delete k d"
    have n: "0 < n" "distinct (map fst ?d)" using okc by (auto simp: c lru_list_ok_def distinct_delete)
    obtain j where j: "lru_put lru_list_ops k v (n, d) = Inr (n, drop j ?d @ [(k, v)])"
      using n(1) by (cases "length ?d < n") (auto simp: c lru_list_ops_def Let_def intro: that [of 0])
    have "map_of (drop j ?d) k' = None \<or> map_of (drop j ?d) k' = map_of d k'" if "k' \<noteq> k" for k'
      using map_of_drop [OF n(2), of j k'] that by (simp add: delete_conv')
    then show ?thesis unfolding c j lru_list_content using n nk [of k j d] distinct_drop_keys [OF n(2), of j]
      by (intro exI [of _ "(n, drop j ?d @ [(k, v)])"]) (auto simp: snoc lru_list_content lru_list_ok_def)
  qed
  have new: "lru_list_ok (lru_new lru_list_ops n) \<and> (\<forall>k. lru_content lru_list_ops (lru_new lru_list_ops n) k = None)" if "1 \<le> n" for n
  proof -
    have "lru_new lru_list_ops n = (nat n, [])" by (simp add: lru_list_ops_def)
    then show ?thesis using that by (simp add: lru_list_content lru_list_ok_def)
  qed
  have del: "lru_list_ok (lru_del lru_list_ops k c) \<and> lru_content lru_list_ops (lru_del lru_list_ops k c) = (lru_content lru_list_ops c)(k := None)"
    if okc: "lru_list_ok c" for c k
  proof -
    obtain n d where c: "c = (n, d)" by (cases c)
    have "lru_del lru_list_ops k c = (n, AList.delete k d)" by (simp add: c lru_list_ops_def)
    then show ?thesis using okc by (simp add: c lru_list_content lru_list_ok_def distinct_delete delete_conv')
  qed
  show ?thesis unfolding lru_laws_def using new get del put by blast
qed

section \<open>Properties\<close>

text \<open>
  Routing. On a consistent pool a request with a valid sticky entry goes to that server; any
  other request goes to a server with the fewest in-flight requests, and \<open>RuntimeError\<close> is raised
  exactly when there is no server. In both cases the handle is the registered one, only the chosen
  server's count changes (by one), the request is sticky to that server afterwards, the pool stays
  consistent, and releasing the server restores the counts.
\<close>

theorem acquire_server_spec:
  assumes "lru_laws L good" "balancer_ok good b"
  shows "if sticky L rid b = None \<and> inflight_requests b = [] then acquire_server L rid b = Inl RuntimeError
    else \<exists>sid h n b'. acquire_server L rid b = Inr ((sid, h), b') \<and> map_of (servers b) sid = Some h \<and>
      (case sticky L rid b of Some s \<Rightarrow> sid = s | None \<Rightarrow> \<forall>p \<in> set (inflight_requests b). n \<le> snd p) \<and>
      map_of (inflight_requests b) sid = Some n \<and> inflight_requests b' = AList.update sid (n + 1) (inflight_requests b) \<and>
      sticky L rid b' = Some sid \<and> balancer_ok good b' \<and> release_server sid b' = b'\<lparr>inflight_requests := inflight_requests b\<rparr>"
proof -
  have dis: "distinct (map fst (inflight_requests b))" and nn: "\<forall>n \<in> snd ` set (inflight_requests b). 0 \<le> n" using assms(2) by (simp_all add: balancer_ok_def)
  have rel: "release_server sid b' = b'\<lparr>inflight_requests := inflight_requests b\<rparr>"
    if "map_of (inflight_requests b) sid = Some n" "inflight_requests b' = AList.update sid (n + 1) (inflight_requests b)" for sid n and b' :: "('b, 'a) balancer"
  proof -
    have "n \<in> snd ` set (inflight_requests b)" using map_of_SomeD [OF that(1)] by force
    then have "0 < n + 1" using nn by fastforce
    moreover have "map_of (inflight_requests b') sid = Some (n + 1)" unfolding that(2) by (simp add: update_conv')
    ultimately show ?thesis using release_after_take [OF dis that(1)] that(2) by (simp add: release_server_def)
  qed
  show ?thesis
  proof (cases "sticky L rid b")
    case (Some sid)
    obtain h n b' where a: "acquire_server L rid b = Inr ((sid, h), b')" "map_of (servers b) sid = Some h"
      "map_of (inflight_requests b) sid = Some n" "inflight_requests b' = AList.update sid (n + 1) (inflight_requests b)"
      "balancer_ok good b'" "lru_content L (request_id_to_server b') = lru_content L (request_id_to_server b)"
      using acquire_sticky [OF assms Some] by blast
    have "sticky L rid b' = Some sid" using Some a(4,6) by (auto simp: sticky_def fst_update split: option.splits if_splits)
    then show ?thesis using a rel [OF a(3,4)] Some by auto
  next
    case None
    obtain b0 where b0: "acquire_server L rid b = select_server L rid b0" "balancer_ok good b0" "servers b0 = servers b"
      "inflight_requests b0 = inflight_requests b" using acquire_fresh [OF assms None] by blast
    show ?thesis
    proof (cases "inflight_requests b = []")
      case True
      then show ?thesis using None b0 by (simp add: select_server_def)
    next
      case False
      obtain sid n h b' where a: "select_server L rid b0 = Inr ((sid, h), b')" "map_of (servers b0) sid = Some h"
        "(sid, n) \<in> set (inflight_requests b0)" "\<forall>p \<in> set (inflight_requests b0). n \<le> snd p"
        "inflight_requests b' = AList.update sid (n + 1) (inflight_requests b0)" "balancer_ok good b'"
        "lru_content L (request_id_to_server b') rid = Some sid"
        using select_server_ok [OF assms(1) b0(2), of rid] False b0(4) by auto
      have m: "map_of (inflight_requests b) sid = Some n" using a(3) b0(4) dis by (simp add: map_of_is_SomeI)
      have "sticky L rid b' = Some sid" using a(5,7) by (simp add: sticky_def fst_update)
      then show ?thesis using a b0 m rel [OF m] None False by auto
    qed
  qed
qed

theorem acquire_server_spec_witness:
  "\<exists>b b1. balancer_init lru_list_ops [(''s1'', 1), (''s2'', 2 :: nat)] 10 = Inr b \<and>
     acquire_server lru_list_ops ''r'' b = Inr ((''s1'', 1), b1) \<and> sticky lru_list_ops ''r'' b1 = Some ''s1''"
proof -
  obtain b where b: "balancer_init lru_list_ops [(''s1'', 1), (''s2'', 2 :: nat)] 10 = Inr b" by (simp add: balancer_init_def)
  then have bd: "inflight_requests b = [(''s1'', 0), (''s2'', 0)]" "servers b = [(''s1'', 1), (''s2'', 2)]" "request_id_to_server b = (10, [])"
    by (auto simp: balancer_init_def lru_list_ops_def)
  have "balancer_ok lru_list_ok b" by (simp add: balancer_ok_def bd lru_list_ok_def)
  moreover have "acquire_server lru_list_ops ''r'' b = Inr ((''s1'', 1), b\<lparr>inflight_requests := [(''s1'', 1), (''s2'', 0)], request_id_to_server := (10, [(''r'', ''s1'')])\<rparr>)"
    by (simp add: acquire_server_def select_server_def take_server_def dict_add_def py_getitem_def bd lru_list_ops_def Let_def)
  ultimately show ?thesis using acquire_server_spec [OF lru_list_laws, of b "''r''"] b bd by auto
qed

definition acquire_all :: "'c lru_ops \<Rightarrow> string list \<Rightarrow> ('h, 'c) balancer \<Rightarrow> ('h, 'c) balancer result" where
  "acquire_all L rids b = rfold (\<lambda>rid b. rbind (acquire_server L rid b) (\<lambda>(_, b'). Inr b')) rids b"

text \<open>All counts are one of two neighbouring numbers.\<close>

definition spread :: "(string \<times> int) list \<Rightarrow> bool" where
  "spread d \<longleftrightarrow> (\<exists>m. \<forall>v \<in> snd ` set d. v = m \<or> v = m + 1)"

lemma spread_update:
  assumes "spread d" "n \<in> snd ` set d" "\<forall>v \<in> snd ` set d. n \<le> v"
  shows "spread (AList.update k (n + 1) d)"
proof -
  obtain m where m: "\<forall>v \<in> snd ` set d. v = m \<or> v = m + 1" using assms(1) by (auto simp: spread_def)
  have sub: "snd ` set (AList.update k (n + 1) d) \<subseteq> insert (n + 1) (snd ` set d)" by (rule snd_update_subset)
  have "\<forall>v \<in> insert (n + 1) (snd ` set d). v = n \<or> v = n + 1"
  proof
    fix v assume "v \<in> insert (n + 1) (snd ` set d)"
    then consider "v = n + 1" | "v \<in> snd ` set d" by blast
    then show "v = n \<or> v = n + 1"
    proof cases
      case 2
      then have "v = m \<or> v = m + 1" "n = m \<or> n = m + 1" "n \<le> v" using m assms(2,3) by auto
      then show ?thesis by auto
    qed simp
  qed
  then show ?thesis unfolding spread_def using sub by blast
qed

lemma sum_update: "map_of d k = Some n \<Longrightarrow> sum_list (map snd (AList.update k (n + 1) d)) = sum_list (map snd d) + (1 :: int)"
  by (induction d) auto

lemma acquire_all_spread:
  assumes "lru_laws L good" "balancer_ok good b" "inflight_requests b \<noteq> []" "spread (inflight_requests b)"
    "distinct rids" "\<forall>rid \<in> set rids. lru_content L (request_id_to_server b) rid = None"
  shows "\<exists>b'. acquire_all L rids b = Inr b' \<and> spread (inflight_requests b') \<and>
    sum_list (map snd (inflight_requests b')) = sum_list (map snd (inflight_requests b)) + int (length rids)"
  using assms
proof (induction rids arbitrary: b)
  case Nil
  then show ?case by (simp add: acquire_all_def)
next
  case (Cons rid rids)
  have st: "sticky L rid b = None" using Cons.prems(6) by (simp add: sticky_def)
  obtain b0 where b0: "acquire_server L rid b = select_server L rid b0" "balancer_ok good b0"
    "inflight_requests b0 = inflight_requests b"
    "\<forall>k. k \<noteq> rid \<longrightarrow> lru_content L (request_id_to_server b0) k = lru_content L (request_id_to_server b) k"
    using acquire_fresh [OF Cons.prems(1,2) st] by blast
  obtain sid n h b1 where a: "select_server L rid b0 = Inr ((sid, h), b1)" "(sid, n) \<in> set (inflight_requests b)"
    "\<forall>p \<in> set (inflight_requests b). n \<le> snd p" "inflight_requests b1 = AList.update sid (n + 1) (inflight_requests b)" "balancer_ok good b1"
    "\<forall>k. k \<noteq> rid \<longrightarrow> lru_content L (request_id_to_server b1) k = None \<or> lru_content L (request_id_to_server b1) k = lru_content L (request_id_to_server b0) k"
    using select_server_ok [OF Cons.prems(1) b0(2), of rid] Cons.prems(3) unfolding b0(3) by blast
  have "n \<in> snd ` set (inflight_requests b)" using a(2) by force
  then have sp: "spread (inflight_requests b1)" unfolding a(4) using a(3) Cons.prems(4) by (intro spread_update) auto
  have ne: "inflight_requests b1 \<noteq> []" using fst_update [of sid "n + 1" "inflight_requests b"] unfolding a(4) by auto
  have fresh: "\<forall>k \<in> set rids. lru_content L (request_id_to_server b1) k = None"
  proof
    fix k assume k: "k \<in> set rids"
    then have "k \<noteq> rid" "lru_content L (request_id_to_server b) k = None" using Cons.prems(5,6) by auto
    then show "lru_content L (request_id_to_server b1) k = None" using a(6) b0(4) by metis
  qed
  have m: "map_of (inflight_requests b) sid = Some n" using a(2) Cons.prems(2) by (simp add: map_of_is_SomeI balancer_ok_def)
  obtain b' where "acquire_all L rids b1 = Inr b'" "spread (inflight_requests b')"
    "sum_list (map snd (inflight_requests b')) = sum_list (map snd (inflight_requests b1)) + int (length rids)"
    using Cons.IH [OF Cons.prems(1) a(5) ne sp _ fresh] Cons.prems(5) by auto
  then show ?case using a(1,4) b0(1) sum_update [OF m] by (auto simp: acquire_all_def)
qed

text \<open>
  Spreading. From a fresh balancer, after any number of first requests of different conversations
  (no releases in between), the in-flight counts of any two servers differ by at most one and add up
  to the number of requests.
\<close>

theorem balancer_spreads:
  assumes "lru_laws L good" "svs \<noteq> []" "distinct (map fst svs)" "1 \<le> cap" "distinct rids"
  shows "\<exists>b b'. balancer_init L svs cap = Inr b \<and> acquire_all L rids b = Inr b' \<and>
    (\<forall>v \<in> snd ` set (inflight_requests b'). \<forall>w \<in> snd ` set (inflight_requests b'). v \<le> w + 1) \<and>
    sum_list (map snd (inflight_requests b')) = int (length rids)"
proof -
  define b where "b = \<lparr>servers = svs, inflight_requests = map (\<lambda>(sid, _). (sid, 0)) svs, request_id_to_server = lru_new L cap\<rparr>"
  then have b: "balancer_init L svs cap = Inr b" "inflight_requests b = map (\<lambda>(sid, _). (sid, 0)) svs" "servers b = svs"
    "request_id_to_server b = lru_new L cap" using assms(2) by (simp_all add: balancer_init_def)
  have new: "good (lru_new L cap)" "\<forall>k. lru_content L (lru_new L cap) k = None" using assms(1,4) by (auto simp: lru_laws_def)
  have keys: "map fst (inflight_requests b) = map fst svs" "snd ` set (inflight_requests b) \<subseteq> {0}" unfolding b(2) by (auto simp: case_prod_beta)
  have ok: "balancer_ok good b" unfolding balancer_ok_def using keys assms(3) b(3,4) new(1) by (auto simp flip: set_map)
  have "sum_list (map snd (inflight_requests b)) = 0" unfolding b(2) by (simp add: case_prod_beta comp_def)
  moreover have "spread (inflight_requests b)" using keys(2) by (auto simp: spread_def)
  moreover have "inflight_requests b \<noteq> []" using b(2) assms(2) by simp
  ultimately obtain b' where b': "acquire_all L rids b = Inr b'" "spread (inflight_requests b')"
    "sum_list (map snd (inflight_requests b')) = int (length rids)"
    using acquire_all_spread [OF assms(1) ok _ _ assms(5)] new(2) b(4) by auto
  have "v \<le> w + 1" if "v \<in> snd ` set (inflight_requests b')" "w \<in> snd ` set (inflight_requests b')" for v w
  proof -
    obtain m where "\<forall>v \<in> snd ` set (inflight_requests b'). v = m \<or> v = m + 1" using b'(2) unfolding spread_def by blast
    then have "v = m \<or> v = m + 1" "w = m \<or> w = m + 1" using that by blast+
    then show ?thesis by linarith
  qed
  then show ?thesis using b(1) b'(1,3) by auto
qed

theorem balancer_spreads_witness:
  "\<exists>b b'. balancer_init lru_list_ops [(''s1'', ()), (''s2'', ())] 5 = Inr b \<and> acquire_all lru_list_ops [''a'', ''b'', ''c''] b = Inr b' \<and>
    sum_list (map snd (inflight_requests b')) = 3"
  using balancer_spreads [OF lru_list_laws, of "[(''s1'', ()), (''s2'', ())]" 5 "[''a'', ''b'', ''c'']"] by auto

end
