(* ===== verification/KV_Cache_Config.thy ===== *)
theory KV_Cache_Config
  imports Prelude "HOL-Library.AList" "HOL-Library.Char_ord"
begin

text \<open>
  Sizing of the KV cache: the cache specifications of \<open>vllm/v1/kv_cache_interface.py\<close> and the second
  half of \<open>vllm/v1/core/kv_cache_utils.py\<close>, with the hit-rate metrics of the same file.

  A torch dtype is its name with its element size in bytes. A dict from layer names to specifications
  is an association list. Block sizes are positive (the division by a zero block size is not modelled).
  Log output is left out, but the division it performs is not.
\<close>

section \<open>Cache specifications\<close>

datatype spec_kind = FullAttentionSpec | SlidingWindowSpec int

datatype torch_dtype = Dtype (dtype_name: string) (element_size: int)

record kv_cache_spec =
  kind :: spec_kind
  spec_block_size :: int
  num_kv_heads :: int
  head_size :: int
  dtype :: torch_dtype
  use_mla :: bool

record vllm_config =
  cfg_max_model_len :: int
  max_num_batched_tokens :: int
  cfg_block_size :: int
  num_gpu_blocks_override :: "int option"

definition sliding_window_spec_ok :: "kv_cache_spec \<Rightarrow> bool" where
  "sliding_window_spec_ok s \<longleftrightarrow> (kind s = FullAttentionSpec \<or> \<not> use_mla s)"

definition page_size_bytes :: "kv_cache_spec \<Rightarrow> int" where
  "page_size_bytes s = (if use_mla s then 1 else 2) * spec_block_size s * num_kv_heads s * head_size s * element_size (dtype s)"

definition max_memory_usage_bytes :: "vllm_config \<Rightarrow> kv_cache_spec \<Rightarrow> int" where
  "max_memory_usage_bytes c s =
     (case kind s of
        FullAttentionSpec \<Rightarrow> cdiv (cfg_max_model_len c) (spec_block_size s) * page_size_bytes s
      | SlidingWindowSpec w \<Rightarrow>
          let n = min (w - 1 + max_num_batched_tokens c) (cfg_max_model_len c)
          in (cdiv n (spec_block_size s) + 1) * page_size_bytes s)"

fun nat_digits :: "nat \<Rightarrow> string" where
  "nat_digits n = (if n < 10 then [char_of (48 + n)] else nat_digits (n div 10) @ [char_of (48 + n mod 10)])"

declare nat_digits.simps [simp del]

definition int_str :: "int \<Rightarrow> string" where
  "int_str i = (if i < 0 then ''-'' @ nat_digits (nat (- i)) else nat_digits (nat i))"

definition type_id :: "kv_cache_spec \<Rightarrow> string" where
  "type_id s = (case kind s of
      FullAttentionSpec \<Rightarrow> ''full_attention_'' @ int_str (spec_block_size s) @ ''_'' @ int_str (page_size_bytes s)
    | SlidingWindowSpec w \<Rightarrow> ''sliding_window_'' @ int_str w @ ''_'' @ int_str (spec_block_size s) @ ''_'' @ int_str (page_size_bytes s))"

record kv_cache_group = layer_names :: "string list" group_spec :: kv_cache_spec

record kv_cache_config =
  num_blocks :: int
  tensors :: "(string \<times> int) list"
  kv_cache_groups :: "kv_cache_group list"

section \<open>Memory check and estimate\<close>

definition memory_needed :: "vllm_config \<Rightarrow> (string \<times> kv_cache_spec) list \<Rightarrow> int" where
  "memory_needed c specs = sum_list (map (max_memory_usage_bytes c \<circ> snd) specs)"

definition fits_in_memory :: "vllm_config \<Rightarrow> (string \<times> kv_cache_spec) list \<Rightarrow> int \<Rightarrow> int \<Rightarrow> bool" where
  "fits_in_memory c specs available_memory model_len \<longleftrightarrow> memory_needed (c\<lparr>cfg_max_model_len := model_len\<rparr>) specs \<le> available_memory"

function estimate_loop :: "(int \<Rightarrow> bool) \<Rightarrow> int \<Rightarrow> int \<Rightarrow> int \<Rightarrow> int" where
  "estimate_loop fits left right res =
     (if left \<le> right then
        let mid = (left + right) div 2
        in if fits mid then estimate_loop fits (mid + 1) right mid else estimate_loop fits left (mid - 1) res
      else res)"
  by pat_completeness auto
termination by (relation "measure (\<lambda>(f, l, r, res). nat (r - l + 1))") auto

declare estimate_loop.simps [simp del]

definition estimate_max_model_len :: "vllm_config \<Rightarrow> (string \<times> kv_cache_spec) list \<Rightarrow> int \<Rightarrow> int" where
  "estimate_max_model_len c specs available_memory =
     (let current_max = cfg_max_model_len c
      in if \<not> fits_in_memory c specs available_memory 1 then 0
         else estimate_loop (fits_in_memory c specs available_memory) 1 current_max 1)"

text \<open>
  The estimate is computed for the message of the exception only; the probed lengths it leaves in the
  configuration are lost with the exception.
\<close>

definition check_enough_kv_cache_memory :: "vllm_config \<Rightarrow> (string \<times> kv_cache_spec) list \<Rightarrow> int \<Rightarrow> unit result" where
  "check_enough_kv_cache_memory c specs available_memory =
     (if available_memory \<le> 0 then Inl ValueError
      else if memory_needed c specs > available_memory then Inl ValueError
      else Inr ())"

section \<open>The configuration\<close>

definition spec_of :: "(string \<times> kv_cache_spec) list \<Rightarrow> string \<Rightarrow> kv_cache_spec result" where
  "spec_of specs l = (case map_of specs l of None \<Rightarrow> Inl KeyError | Some s \<Rightarrow> Inr s)"

definition create_kv_cache_group_spec :: "(string \<times> kv_cache_spec) list \<Rightarrow> string list \<Rightarrow> kv_cache_group result" where
  "create_kv_cache_group_spec specs layers =
     (case layers of [] \<Rightarrow> Inl IndexError
      | l # ls \<Rightarrow> rbind (spec_of specs l) (\<lambda>s.
          rbind (rfold (\<lambda>l' _. rbind (spec_of specs l') (\<lambda>t. if t = s then Inr () else Inl AssertionError)) ls ())
            (\<lambda>_. Inr \<lparr>layer_names = layers, group_spec = s\<rparr>)))"

definition create_kv_cache_group_specs :: "(string \<times> kv_cache_spec) list \<Rightarrow> string list list \<Rightarrow> kv_cache_group list result" where
  "create_kv_cache_group_specs specs grouped = rmap (create_kv_cache_group_spec specs) grouped"

definition is_kv_cache_type_uniform :: "(string \<times> kv_cache_spec) list \<Rightarrow> bool" where
  "is_kv_cache_type_uniform specs \<longleftrightarrow> length (remdups (map (type_id \<circ> snd) specs)) = 1"

definition uniform_kv_cache_config :: "vllm_config \<Rightarrow> (string \<times> kv_cache_spec) list \<Rightarrow> int \<Rightarrow> kv_cache_config result" where
  "uniform_kv_cache_config c specs available_memory =
     (case remdups (map (page_size_bytes \<circ> snd) specs) of
        [page_size] \<Rightarrow>
          if page_size = 0 then Inl ZeroDivisionError
          else let n0 = max (available_memory div page_size div int (length specs)) 0;
                   n = (case num_gpu_blocks_override c of None \<Rightarrow> n0 | Some k \<Rightarrow> k)
            in if cfg_max_model_len c = 0 then Inl ZeroDivisionError
               else rbind (create_kv_cache_group_specs specs [map fst specs])
                 (\<lambda>gs. Inr \<lparr>num_blocks = n, tensors = map (\<lambda>(l, _). (l, page_size * n)) specs, kv_cache_groups = gs\<rparr>)
      | _ \<Rightarrow> Inl AssertionError)"

definition unify_hybrid_kv_cache_specs :: "(string \<times> kv_cache_spec) list \<Rightarrow> (string \<times> kv_cache_spec) list" where
  "unify_hybrid_kv_cache_specs specs =
     (if (\<exists>(_, s) \<in> set specs. kind s = FullAttentionSpec) \<and> (\<exists>(_, s) \<in> set specs. kind s \<noteq> FullAttentionSpec)
      then map (\<lambda>(l, s). (l, if kind s = FullAttentionSpec then s else s\<lparr>kind := FullAttentionSpec\<rparr>)) specs
      else specs)"

definition get_kv_cache_config :: "vllm_config \<Rightarrow> (string \<times> kv_cache_spec) list \<Rightarrow> int \<Rightarrow> kv_cache_config result" where
  "get_kv_cache_config c specs available_memory =
     rbind (check_enough_kv_cache_memory c specs available_memory)
       (\<lambda>_. let specs' = unify_hybrid_kv_cache_specs specs
            in if is_kv_cache_type_uniform specs' then uniform_kv_cache_config c specs' available_memory
               else Inl NotImplementedError)"

definition unify_kv_cache_configs :: "kv_cache_config list \<Rightarrow> kv_cache_config list result" where
  "unify_kv_cache_configs cs =
     (let sorted = map (\<lambda>c. c\<lparr>kv_cache_groups := sort_key (type_id \<circ> group_spec) (kv_cache_groups c)\<rparr>) cs
      in case sorted of [] \<Rightarrow> Inl ValueError
         | c0 # rest \<Rightarrow>
             if list_all (\<lambda>c. list_all (\<lambda>(g0, g). group_spec g0 = group_spec g) (zip (kv_cache_groups c0) (kv_cache_groups c))) rest
             then let m = Min (set (map num_blocks sorted)) in Inr (map (\<lambda>c. c\<lparr>num_blocks := m\<rparr>) sorted)
             else Inl AssertionError)"

section \<open>Hit-rate metrics\<close>

record caching_metrics =
  max_recent_requests :: nat
  aggregated_requests :: int
  aggregated_query_total :: int
  aggregated_query_hit :: int
  query_queue :: "(int \<times> int \<times> int) list"

definition metrics_init :: "nat \<Rightarrow> caching_metrics" where
  "metrics_init n = \<lparr>max_recent_requests = n, aggregated_requests = 0, aggregated_query_total = 0, aggregated_query_hit = 0, query_queue = []\<rparr>"

definition metrics_reset :: "caching_metrics \<Rightarrow> caching_metrics" where
  "metrics_reset m = m\<lparr>aggregated_requests := 0, aggregated_query_total := 0, aggregated_query_hit := 0, query_queue := []\<rparr>"

definition metrics_observe :: "bool \<Rightarrow> int \<Rightarrow> int \<Rightarrow> int \<Rightarrow> caching_metrics \<Rightarrow> caching_metrics" where
  "metrics_observe rst requests queries hits m =
     (let m0 = (if rst then metrics_reset m else m);
          m1 = m0\<lparr>query_queue := query_queue m0 @ [(requests, queries, hits)],
                  aggregated_requests := aggregated_requests m0 + requests,
                  aggregated_query_total := aggregated_query_total m0 + queries,
                  aggregated_query_hit := aggregated_query_hit m0 + hits\<rparr>
      in if aggregated_requests m1 > int (max_recent_requests m1)
         then (case query_queue m1 of [] \<Rightarrow> m1
               | (r, q, h) # qs \<Rightarrow> m1\<lparr>query_queue := qs, aggregated_requests := aggregated_requests m1 - r,
                    aggregated_query_total := aggregated_query_total m1 - q, aggregated_query_hit := aggregated_query_hit m1 - h\<rparr>)
         else m1)"

definition hit_rate_parts :: "caching_metrics \<Rightarrow> (int \<times> int) option" where
  "hit_rate_parts m = (if aggregated_query_total m = 0 then None else Some (aggregated_query_hit m, aggregated_query_total m))"

section \<open>The estimate is the greatest length that fits\<close>

definition down_closed :: "(int \<Rightarrow> bool) \<Rightarrow> bool" where
  "down_closed f \<longleftrightarrow> (\<forall>m n. m \<le> n \<longrightarrow> f n \<longrightarrow> f m)"

lemma down_closedD: "down_closed f \<Longrightarrow> m \<le> n \<Longrightarrow> \<not> f m \<Longrightarrow> \<not> f n"
  by (auto simp: down_closed_def)

lemma estimate_loop_greatest:
  "down_closed fits \<Longrightarrow> fits res \<Longrightarrow> left - 1 \<le> res \<Longrightarrow> res \<le> left \<Longrightarrow> right \<le> hi \<Longrightarrow> res \<le> hi \<Longrightarrow> (\<And>n. right < n \<Longrightarrow> n \<le> hi \<Longrightarrow> \<not> fits n) \<Longrightarrow>
    fits (estimate_loop fits left right res) \<and> res \<le> estimate_loop fits left right res \<and> estimate_loop fits left right res \<le> hi \<and>
    (\<forall>n. estimate_loop fits left right res < n \<longrightarrow> n \<le> hi \<longrightarrow> \<not> fits n)"
proof (induction fits left right res rule: estimate_loop.induct)
  case (1 f left right res)
  note unfold = estimate_loop.simps [of f left right res]
  define mid where "mid = (left + right) div 2"
  show ?case
  proof (cases "left \<le> right")
    case False
    then show ?thesis using "1.prems" by (auto simp: unfold)
  next
    case True
    then have mid: "left \<le> mid" "mid \<le> right" by (auto simp: mid_def)
    show ?thesis
    proof (cases "f mid")
      case True
      have step: "estimate_loop f left right res = estimate_loop f (mid + 1) right mid"
        using True \<open>left \<le> right\<close> by (simp add: unfold Let_def flip: mid_def)
      have "res \<le> mid" using "1.prems"(4) mid(1) by linarith
      then show ?thesis
        using "1.IH"(1) [OF \<open>left \<le> right\<close> mid_def True "1.prems"(1) True _ _ "1.prems"(5) _ "1.prems"(7)] "1.prems"(5) mid
        unfolding step by simp
    next
      case False
      have step: "estimate_loop f left right res = estimate_loop f left (mid - 1) res"
        using False \<open>left \<le> right\<close> by (simp add: unfold Let_def flip: mid_def)
      have "\<not> f n" if "mid - 1 < n" for n using down_closedD [OF "1.prems"(1) _ False] that by simp
      then show ?thesis
        using "1.IH"(2) [OF \<open>left \<le> right\<close> mid_def False "1.prems"(1-4) _ "1.prems"(6)] "1.prems"(5) mid
        unfolding step by simp
    qed
  qed
qed

lemma max_memory_mono:
  assumes "0 < spec_block_size s" "0 \<le> page_size_bytes s" "m \<le> n"
  shows "max_memory_usage_bytes (c\<lparr>cfg_max_model_len := m\<rparr>) s \<le> max_memory_usage_bytes (c\<lparr>cfg_max_model_len := n\<rparr>) s"
  using assms by (auto simp: max_memory_usage_bytes_def Let_def cdiv_mono intro!: mult_right_mono split: spec_kind.split)

definition specs_positive :: "(string \<times> kv_cache_spec) list \<Rightarrow> bool" where
  "specs_positive specs \<longleftrightarrow> distinct (map fst specs) \<and> (\<forall>(l, s) \<in> set specs. 0 < spec_block_size s \<and> 0 < page_size_bytes s)"

lemma fits_in_memory_mono:
  assumes "specs_positive specs"
  shows "down_closed (fits_in_memory c specs mem)"
proof -
  have "memory_needed (c\<lparr>cfg_max_model_len := m\<rparr>) specs \<le> memory_needed (c\<lparr>cfg_max_model_len := n\<rparr>) specs" if "m \<le> n" for m n
    unfolding memory_needed_def using assms that by (intro sum_list_mono) (auto simp: specs_positive_def intro!: max_memory_mono)
  then show ?thesis unfolding down_closed_def fits_in_memory_def by (meson order_trans)
qed

text \<open>
  C30: The binary search of \<open>estimate_max_model_len\<close> ends, and its result is the greatest model length
  up to the configured one whose cache fits into the available memory, or zero when not even one token fits.
\<close>

theorem estimate_max_model_len_greatest:
  assumes "specs_positive specs" and "1 \<le> cfg_max_model_len c"
  shows "let n = estimate_max_model_len c specs mem in 0 \<le> n \<and> n \<le> cfg_max_model_len c \<and>
    (n = 0 \<longleftrightarrow> \<not> fits_in_memory c specs mem 1) \<and> (0 < n \<longrightarrow> fits_in_memory c specs mem n) \<and>
    (\<forall>k. n < k \<longrightarrow> k \<le> cfg_max_model_len c \<longrightarrow> \<not> fits_in_memory c specs mem k)"
proof (cases "fits_in_memory c specs mem 1")
  case True
  then show ?thesis
    using estimate_loop_greatest [OF fits_in_memory_mono [OF assms(1)], of c mem 1 1 "cfg_max_model_len c" "cfg_max_model_len c"] assms
    by (auto simp: estimate_max_model_len_def Let_def)
next
  case False
  then show ?thesis using down_closedD [OF fits_in_memory_mono [OF assms(1)], of 1 _ c mem] assms(2) by (auto simp: estimate_max_model_len_def Let_def)
qed

definition full_spec :: kv_cache_spec where
  "full_spec = \<lparr>kind = FullAttentionSpec, spec_block_size = 16, num_kv_heads = 2, head_size = 4, dtype = Dtype ''bfloat16'' 2, use_mla = False\<rparr>"

definition sample_config :: vllm_config where
  "sample_config = \<lparr>cfg_max_model_len = 64, max_num_batched_tokens = 16, cfg_block_size = 16, num_gpu_blocks_override = None\<rparr>"

lemma sample_specs_positive: "specs_positive [(''l0'', full_spec), (''l1'', full_spec)]"
  by (simp add: specs_positive_def full_spec_def page_size_bytes_def)

theorem estimate_max_model_len_greatest_witness:
  "estimate_max_model_len sample_config [(''l0'', full_spec), (''l1'', full_spec)] 2000 = 16 \<and>
   \<not> fits_in_memory sample_config [(''l0'', full_spec), (''l1'', full_spec)] 2000 17"
proof -
  have "estimate_max_model_len sample_config [(''l0'', full_spec), (''l1'', full_spec)] 2000 = 16" by code_simp
  then show ?thesis
    using estimate_max_model_len_greatest [OF sample_specs_positive, of sample_config 2000]
    by (simp add: Let_def sample_config_def)
qed

section \<open>The configuration fits into memory\<close>

lemma remdups_single: "remdups xs = [x] \<Longrightarrow> set xs = {x}"
  by (metis list.set(1) list.simps(15) set_remdups)

lemma group_spec_uniform:
  assumes "create_kv_cache_group_specs specs [map fst specs] = Inr gs" and "distinct (map fst specs)"
  obtains s where "gs = [\<lparr>layer_names = map fst specs, group_spec = s\<rparr>]" "\<And>l t. (l, t) \<in> set specs \<Longrightarrow> t = s" "specs \<noteq> []"
proof -
  obtain l t rest where specs: "specs = (l, t) # rest"
    using assms(1) by (cases specs) (auto simp: create_kv_cache_group_specs_def create_kv_cache_group_spec_def)
  define body where "body = (\<lambda>l' (_::unit). rbind (spec_of specs l') (\<lambda>u. if u = t then Inr () else Inl AssertionError))"
  have ok: "rfold body (map fst rest) () = Inr ()" and gs: "gs = [\<lparr>layer_names = map fst specs, group_spec = t\<rparr>]"
    using assms(1) unfolding body_def create_kv_cache_group_specs_def create_kv_cache_group_spec_def
    by (auto simp: specs spec_of_def)
  have "u = t" if "(k, u) \<in> set rest" for k u
  proof -
    have "\<forall>k \<in> set ks. body k () = Inr ()" if "rfold body ks () = Inr ()" for ks
      using that by (induction ks) auto
    then have "body k () = Inr ()" using ok \<open>(k, u) \<in> set rest\<close> by force
    moreover have "map_of specs k = Some u" using assms(2) \<open>(k, u) \<in> set rest\<close> by (simp add: specs image_iff) force
    ultimately show ?thesis by (auto simp: body_def spec_of_def split: if_splits)
  qed
  then show ?thesis using that [OF gs] specs by auto
qed

lemma uniform_config_cases:
  assumes "uniform_kv_cache_config c specs mem = Inr k" "distinct (map fst specs)" "\<And>l t. (l, t) \<in> set specs \<Longrightarrow> 0 < page_size_bytes t"
    and "0 < mem" "num_gpu_blocks_override c = None"
  obtains s where "\<And>l t. (l, t) \<in> set specs \<Longrightarrow> t = s" "specs \<noteq> []" "0 < page_size_bytes s"
    "num_blocks k = mem div (page_size_bytes s * int (length specs))" "0 \<le> num_blocks k"
    "tensors k = map (\<lambda>(l, _). (l, page_size_bytes s * num_blocks k)) specs"
    "kv_cache_groups k = [\<lparr>layer_names = map fst specs, group_spec = s\<rparr>]"
proof -
  obtain p where p: "remdups (map (page_size_bytes \<circ> snd) specs) = [p]" and ne: "p \<noteq> 0"
    using assms(1) by (auto simp: uniform_kv_cache_config_def split: list.splits if_splits)
  define n where "n = max (mem div p div int (length specs)) 0"
  obtain gs where gs: "create_kv_cache_group_specs specs [map fst specs] = Inr gs"
    and k: "k = \<lparr>num_blocks = n, tensors = map (\<lambda>(l, _). (l, p * n)) specs, kv_cache_groups = gs\<rparr>"
    using assms(1,5) p unfolding uniform_kv_cache_config_def n_def by (auto simp: Let_def split: if_splits)
  obtain s where s: "gs = [\<lparr>layer_names = map fst specs, group_spec = s\<rparr>]" "\<And>l t. (l, t) \<in> set specs \<Longrightarrow> t = s" "specs \<noteq> []"
    by (rule group_spec_uniform [OF gs assms(2)]) blast
  obtain l t where lt: "(l, t) \<in> set specs" using s(3) by (cases specs) auto
  then have "page_size_bytes t \<in> {p}" using remdups_single [OF p] by force
  then have ps: "p = page_size_bytes s" "0 < p" using s(2) lt assms(3) by auto
  have "0 \<le> mem div p div int (length specs)" using assms(4) ps(2) by (simp add: pos_imp_zdiv_nonneg_iff div_int_pos_iff)
  then have nb: "num_blocks k = mem div (p * int (length specs))" "0 \<le> num_blocks k"
    using ps(2) by (simp_all add: k n_def zdiv_zmult2_eq)
  show ?thesis using that [OF s(2,3)] ps nb s(1) unfolding k by simp
qed

lemma same_specs_eq: "(\<And>l t. (l, t) \<in> set specs \<Longrightarrow> t = s) \<Longrightarrow> sum_list (map (f \<circ> snd) specs) = int (length specs) * (f s :: int)"
proof (induction specs)
  case (Cons p specs)
  have "snd p = s" using Cons.prems [of "fst p" "snd p"] by simp
  moreover have "sum_list (map (f \<circ> snd) specs) = int (length specs) * f s" using Cons.IH Cons.prems by (meson list.set_intros(2))
  ultimately show ?case by (simp add: algebra_simps comp_def)
qed simp

lemma unify_hybrid_full: "(\<forall>(l, t) \<in> set specs. kind t = FullAttentionSpec) \<Longrightarrow> unify_hybrid_kv_cache_specs specs = specs"
  by (auto simp: unify_hybrid_kv_cache_specs_def)

lemma unify_hybrid_fst: "map fst (unify_hybrid_kv_cache_specs specs) = map fst specs"
  by (auto simp: unify_hybrid_kv_cache_specs_def)

lemma unify_hybrid_page:
  "(\<And>l t. (l, t) \<in> set specs \<Longrightarrow> 0 < page_size_bytes t) \<Longrightarrow> (l, t) \<in> set (unify_hybrid_kv_cache_specs specs) \<Longrightarrow> 0 < page_size_bytes t"
  by (force simp: unify_hybrid_kv_cache_specs_def page_size_bytes_def split: if_splits)

lemma get_kv_cache_config_cases:
  assumes "get_kv_cache_config c specs mem = Inr k"
  shows "0 < mem" "memory_needed c specs \<le> mem" "uniform_kv_cache_config c (unify_hybrid_kv_cache_specs specs) mem = Inr k"
  using assms by (auto simp: get_kv_cache_config_def check_enough_kv_cache_memory_def Let_def split: if_splits)

text \<open>
  C31: A KV cache configuration without an override of the number of blocks gives every layer one
  tensor that holds all blocks, and the tensors together fit into the available memory. When all layers
  use full attention, the blocks hold at least one request of the maximal model length.
\<close>

theorem kv_cache_config_fits:
  assumes "get_kv_cache_config c specs mem = Inr k" and "specs_positive specs" and "num_gpu_blocks_override c = None"
  shows "map fst (tensors k) = map fst specs \<and>
    (\<exists>s. kv_cache_groups k = [\<lparr>layer_names = map fst specs, group_spec = s\<rparr>] \<and>
      (\<forall>(l, n) \<in> set (tensors k). n = num_blocks k * page_size_bytes s) \<and>
      ((\<forall>(l, t) \<in> set specs. kind t = FullAttentionSpec) \<longrightarrow> cfg_max_model_len c \<le> num_blocks k * spec_block_size s)) \<and>
    sum_list (map snd (tensors k)) \<le> mem"
proof -
  define us where "us = unify_hybrid_kv_cache_specs specs"
  have pos: "0 < page_size_bytes t" if "(l, t) \<in> set us" for l t
    using unify_hybrid_page [of specs l t] that assms(2) by (auto simp: us_def specs_positive_def)
  have dist: "distinct (map fst us)" using assms(2) by (simp add: us_def unify_hybrid_fst specs_positive_def)
  obtain s where same: "\<And>l t. (l, t) \<in> set us \<Longrightarrow> t = s" and ne: "us \<noteq> []" and ps: "0 < page_size_bytes s"
    and n: "num_blocks k = mem div (page_size_bytes s * int (length us))"
    and ten: "tensors k = map (\<lambda>(l, _). (l, page_size_bytes s * num_blocks k)) us"
    and grp: "kv_cache_groups k = [\<lparr>layer_names = map fst us, group_spec = s\<rparr>]"
    by (rule uniform_config_cases [OF get_kv_cache_config_cases(3) [OF assms(1), folded us_def] dist pos get_kv_cache_config_cases(1) [OF assms(1)] assms(3)]) blast+
  have fst_us: "map fst us = map fst specs" by (simp add: us_def unify_hybrid_fst)
  have len0: "0 < page_size_bytes s * int (length us)" using ps ne by simp
  have "sum_list (map snd (tensors k)) = int (length us) * (page_size_bytes s * num_blocks k)"
    by (simp add: ten comp_def case_prod_beta sum_list_triv)
  also have "\<dots> = num_blocks k * (page_size_bytes s * int (length us))" by simp
  also have "\<dots> \<le> mem" using len0 div_mult_mod_eq [of mem "page_size_bytes s * int (length us)"] pos_mod_sign [of "page_size_bytes s * int (length us)" mem] unfolding n by linarith
  finally have total: "sum_list (map snd (tensors k)) \<le> mem" .
  have full: "cfg_max_model_len c \<le> num_blocks k * spec_block_size s" if all: "\<forall>(l, t) \<in> set specs. kind t = FullAttentionSpec"
  proof -
    have us: "us = specs" using unify_hybrid_full [OF all] by (simp add: us_def)
    obtain l t where "(l, t) \<in> set specs" using ne us by (cases specs) auto
    then have s: "kind s = FullAttentionSpec" "0 < spec_block_size s"
      using all same assms(2) by (auto simp: us specs_positive_def)
    have "int (length us) * max_memory_usage_bytes c s \<le> mem"
      using get_kv_cache_config_cases(2) [OF assms(1)] same_specs_eq [of specs s "max_memory_usage_bytes c"] same
      by (simp add: memory_needed_def us)
    then have "cdiv (cfg_max_model_len c) (spec_block_size s) * (page_size_bytes s * int (length us)) \<le> mem"
      by (simp add: max_memory_usage_bytes_def s algebra_simps)
    then have "cdiv (cfg_max_model_len c) (spec_block_size s) \<le> num_blocks k"
      unfolding n using len0 by (metis nonzero_mult_div_cancel_right order_less_irrefl zdiv_mono1)
    then show ?thesis
      using cdiv_bounds(1) [OF s(2), of "cfg_max_model_len c"] s(2) by (meson mult_right_mono order_less_imp_le order_trans)
  qed
  show ?thesis using ten grp total full fst_us by (auto simp: case_prod_beta comp_def intro!: exI [of _ s])
qed

theorem kv_cache_config_fits_witness:
  "\<exists>k. get_kv_cache_config sample_config [(''l0'', full_spec), (''l1'', full_spec)] 5000 = Inr k \<and> 64 \<le> num_blocks k * 16 \<and>
     sum_list (map snd (tensors k)) \<le> 5000"
proof -
  define k where "k = projr (get_kv_cache_config sample_config [(''l0'', full_spec), (''l1'', full_spec)] 5000)"
  have "isl (get_kv_cache_config sample_config [(''l0'', full_spec), (''l1'', full_spec)] 5000) = False" by code_simp
  then have k: "get_kv_cache_config sample_config [(''l0'', full_spec), (''l1'', full_spec)] 5000 = Inr k"
    by (simp add: k_def)
  have grp: "kv_cache_groups k = [\<lparr>layer_names = [''l0'', ''l1''], group_spec = full_spec\<rparr>]"
    unfolding k_def by code_simp
  have "num_gpu_blocks_override sample_config = None" by (simp add: sample_config_def)
  then show ?thesis
    using kv_cache_config_fits [OF k sample_specs_positive] k grp by (simp add: sample_config_def full_spec_def)
qed

text \<open>
  For a model with full and sliding-window layers the memory check is too weak. It runs before the
  sliding-window layers are turned into full-attention layers, so a configuration can be accepted whose
  blocks cannot hold one request of the maximal model length, although that is what the check promises.
\<close>

theorem hybrid_config_too_small:
  "(case get_kv_cache_config sample_config [(''l0'', full_spec), (''l1'', full_spec\<lparr>kind := SlidingWindowSpec 8\<rparr>)] 3600 of
      Inl _ \<Rightarrow> False
    | Inr k \<Rightarrow> num_blocks k * spec_block_size full_spec < cfg_max_model_len sample_config) \<and>
   check_enough_kv_cache_memory sample_config
     (unify_hybrid_kv_cache_specs [(''l0'', full_spec), (''l1'', full_spec\<lparr>kind := SlidingWindowSpec 8\<rparr>)]) 3600 = Inl ValueError"
  by code_simp

section \<open>Agreement of the workers\<close>

lemma unify_kv_cache_configs_ok:
  assumes "unify_kv_cache_configs cs = Inr cs'"
  shows "cs \<noteq> []" "\<And>c'. c' \<in> set cs' \<Longrightarrow> num_blocks c' = Min (num_blocks ` set cs)" "map tensors cs' = map tensors cs"
proof -
  define f where "f = (\<lambda>c::kv_cache_config. c\<lparr>kv_cache_groups := sort_key (type_id \<circ> group_spec) (kv_cache_groups c)\<rparr>)"
  have f: "num_blocks (f c) = num_blocks c" "tensors (f c) = tensors c" for c by (simp_all add: f_def)
  have m: "num_blocks ` set (map f cs) = num_blocks ` set cs" by (simp add: image_image f)
  have "cs' = map (\<lambda>c. c\<lparr>num_blocks := Min (num_blocks ` set cs)\<rparr>) (map f cs) \<and> cs \<noteq> []"
    using assms unfolding unify_kv_cache_configs_def Let_def f_def [symmetric] m [symmetric]
    by (cases cs) (auto simp: image_image split: if_splits)
  then show "cs \<noteq> []" "\<And>c'. c' \<in> set cs' \<Longrightarrow> num_blocks c' = Min (num_blocks ` set cs)" "map tensors cs' = map tensors cs"
    by (auto simp: f)
qed

section \<open>The metrics cover the recent queries\<close>

inductive metrics_reachable :: "nat \<Rightarrow> caching_metrics \<Rightarrow> bool" for n where
  start: "metrics_reachable n (metrics_init n)"
| observe: "metrics_reachable n m \<Longrightarrow> 0 \<le> h \<Longrightarrow> h \<le> q \<Longrightarrow> metrics_reachable n (metrics_observe rst r q h m)"

definition metrics_ok :: "caching_metrics \<Rightarrow> bool" where
  "metrics_ok m \<longleftrightarrow> aggregated_requests m = sum_list (map fst (query_queue m)) \<and>
    aggregated_query_total m = sum_list (map (\<lambda>x. fst (snd x)) (query_queue m)) \<and>
    aggregated_query_hit m = sum_list (map (\<lambda>x. snd (snd x)) (query_queue m)) \<and>
    (\<forall>x \<in> set (query_queue m). 0 \<le> snd (snd x) \<and> snd (snd x) \<le> fst (snd x))"

lemma metrics_observe_ok:
  assumes "metrics_ok m" "0 \<le> h" "h \<le> q"
  shows "metrics_ok (metrics_observe rst r q h m)"
proof -
  define m0 where "m0 = (if rst then metrics_reset m else m)"
  have "metrics_ok m0" using assms(1) by (simp add: m0_def metrics_ok_def metrics_reset_def)
  define m1 where "m1 = m0\<lparr>query_queue := query_queue m0 @ [(r, q, h)], aggregated_requests := aggregated_requests m0 + r,
    aggregated_query_total := aggregated_query_total m0 + q, aggregated_query_hit := aggregated_query_hit m0 + h\<rparr>"
  have m1: "metrics_ok m1" using \<open>metrics_ok m0\<close> assms(2,3) by (auto simp: m1_def metrics_ok_def)
  have "metrics_observe rst r q h m = (if aggregated_requests m1 > int (max_recent_requests m1)
         then (case query_queue m1 of [] \<Rightarrow> m1
               | (r, q, h) # qs \<Rightarrow> m1\<lparr>query_queue := qs, aggregated_requests := aggregated_requests m1 - r,
                    aggregated_query_total := aggregated_query_total m1 - q, aggregated_query_hit := aggregated_query_hit m1 - h\<rparr>)
         else m1)"
    unfolding metrics_observe_def Let_def m0_def [symmetric] m1_def by simp
  then show ?thesis using m1 by (auto simp: metrics_ok_def split: list.split)
qed

lemma metrics_reachable_ok: "metrics_reachable n m \<Longrightarrow> metrics_ok m"
  by (induction rule: metrics_reachable.induct) (simp_all add: metrics_observe_ok, simp add: metrics_ok_def metrics_init_def)

lemma hit_rate_between:
  assumes "metrics_reachable n m" and "hit_rate_parts m = Some (h, q)"
  shows "0 \<le> h \<and> h \<le> q \<and> 0 < q"
proof -
  have ok: "metrics_ok m" by (rule metrics_reachable_ok) fact
  then have "0 \<le> aggregated_query_hit m" "aggregated_query_hit m \<le> aggregated_query_total m"
    unfolding metrics_ok_def by (auto intro!: sum_list_nonneg sum_list_mono)
  then show ?thesis using assms(2) by (auto simp: hit_rate_parts_def split: if_splits)
qed

end
