(* ===== verification/Encoder_Cache.thy ===== *)
theory Encoder_Cache
  imports Block_Hash "HOL-Library.AList"
begin

text \<open>
  \<open>EncoderCacheManager\<close> and the encoder budget of \<open>vllm/v1/core/encoder_cache_manager.py\<close>.

  The dict of cached inputs is an association list; the set of input ids of a request is a list
  without repetition. Python does not specify the iteration order of a set, so nothing depends on it
  but the order of \<open>freed\<close>. The multi-modal registry and the configuration objects are arguments.
\<close>

section \<open>The manager\<close>

record encoder_cache =
  cache_size :: int
  num_free_slots :: int
  cached :: "(string \<times> nat list) list"
  freed :: "(string \<times> nat) list"

definition encoder_init :: "int \<Rightarrow> encoder_cache" where
  "encoder_init n = \<lparr>cache_size = n, num_free_slots = n, cached = [], freed = []\<rparr>"

definition get_cached_input_ids :: "request \<Rightarrow> encoder_cache \<Rightarrow> nat list" where
  "get_cached_input_ids r e = (case map_of (cached e) (request_id r) of None \<Rightarrow> [] | Some ids \<Rightarrow> ids)"

definition has_cache :: "request \<Rightarrow> nat \<Rightarrow> encoder_cache \<Rightarrow> bool" where
  "has_cache r i e \<longleftrightarrow> i \<in> set (get_cached_input_ids r e)"

definition can_allocate :: "request \<Rightarrow> nat \<Rightarrow> encoder_cache \<Rightarrow> bool result" where
  "can_allocate r i e = rbind (get_num_encoder_tokens r i) (\<lambda>n. Inr (n \<le> num_free_slots e))"

definition encoder_allocate :: "request \<Rightarrow> nat \<Rightarrow> encoder_cache \<Rightarrow> encoder_cache result" where
  "encoder_allocate r i e =
     (let ids = get_cached_input_ids r e;
          e1 = e\<lparr>cached := AList.update (request_id r) (List.insert i ids) (cached e)\<rparr>
      in rbind (get_num_encoder_tokens r i) (\<lambda>n. Inr (e1\<lparr>num_free_slots := num_free_slots e1 - n\<rparr>)))"

definition free_encoder_input :: "request \<Rightarrow> nat \<Rightarrow> encoder_cache \<Rightarrow> encoder_cache result" where
  "free_encoder_input r i e =
     (case map_of (cached e) (request_id r) of None \<Rightarrow> Inr e
      | Some ids \<Rightarrow>
          let ids' = remove1 i ids;
              e1 = e\<lparr>cached := (if ids' = [] then AList.delete (request_id r) (cached e)
                               else AList.update (request_id r) ids' (cached e))\<rparr>
          in rbind (get_num_encoder_tokens r i)
               (\<lambda>n. Inr (e1\<lparr>num_free_slots := num_free_slots e1 + n, freed := freed e1 @ [(request_id r, i)]\<rparr>)))"

definition encoder_free :: "request \<Rightarrow> encoder_cache \<Rightarrow> encoder_cache result" where
  "encoder_free r e = rfold (free_encoder_input r) (get_cached_input_ids r e) e"

definition get_freed_ids :: "encoder_cache \<Rightarrow> (string \<times> nat) list \<times> encoder_cache" where
  "get_freed_ids e = (freed e, e\<lparr>freed := []\<rparr>)"

section \<open>The budget\<close>

fun max_item :: "(string \<times> int) list \<Rightarrow> int \<Rightarrow> int" where
  "max_item [] best = best"
| "max_item ((_, v) # d) best = max_item d (if v > best then v else best)"

definition compute_encoder_budget_multimodal :: "(string \<times> int) list \<Rightarrow> bool \<Rightarrow> int \<Rightarrow> int \<Rightarrow> int \<Rightarrow> (int \<times> int) result" where
  "compute_encoder_budget_multimodal by_modality disable_chunked_mm_input max_num_batched_tokens max_num_encoder_input_tokens encoder_cache_size =
     (case by_modality of [] \<Rightarrow> Inr (0, 0)
      | p # d \<Rightarrow>
          let max_tokens_per_mm_item = max_item d (snd p)
          in if disable_chunked_mm_input \<and> max_tokens_per_mm_item > max_num_batched_tokens then Inl ValueError
             else Inr (max max_num_encoder_input_tokens max_tokens_per_mm_item, max encoder_cache_size max_tokens_per_mm_item))"

definition compute_encoder_budget :: "bool \<Rightarrow> (string \<times> int) list \<Rightarrow> bool \<Rightarrow> int \<Rightarrow> int \<Rightarrow> int \<Rightarrow> (int \<times> int) result" where
  "compute_encoder_budget is_multimodal_model by_modality disable_chunked max_batched max_input cache =
     (if \<not> is_multimodal_model then Inr (0, 0)
      else compute_encoder_budget_multimodal by_modality disable_chunked max_batched max_input cache)"

section \<open>Accounting\<close>

text \<open>The slots in use, for requests whose \<open>i\<close>-th input has \<open>len rid i\<close> tokens.\<close>

definition used_slots :: "(string \<Rightarrow> nat \<Rightarrow> int) \<Rightarrow> (string \<times> nat list) list \<Rightarrow> int" where
  "used_slots len d = sum_list (map (\<lambda>(rid, ids). sum_list (map (len rid) ids)) d)"

definition entry_slots :: "(string \<Rightarrow> nat \<Rightarrow> int) \<Rightarrow> (string \<times> nat list) list \<Rightarrow> string \<Rightarrow> int" where
  "entry_slots len d rid = (case map_of d rid of None \<Rightarrow> 0 | Some ids \<Rightarrow> sum_list (map (len rid) ids))"

lemma used_update: "used_slots len (AList.update rid ids d) = used_slots len d - entry_slots len d rid + sum_list (map (len rid) ids)"
  by (induction d) (auto simp: used_slots_def entry_slots_def)

lemma used_delete: "distinct (map fst d) \<Longrightarrow> used_slots len (AList.delete rid d) = used_slots len d - entry_slots len d rid"
proof (induction d)
  case (Cons p d)
  obtain k v where p: "p = (k, v)" by (cases p)
  have "AList.delete k d = d" if "k = rid" using Cons.prems p that by (simp add: delete_idem)
  then show ?case using Cons p by (auto simp: used_slots_def entry_slots_def)
qed (simp add: used_slots_def entry_slots_def)

text \<open>
  The invariant, for requests whose multi-modal positions are \<open>P rid\<close>: the cached ids are valid
  inputs, no entry is empty, and free and used slots add up to the size of the cache.
\<close>

definition slots :: "(string \<Rightarrow> placeholder_range list) \<Rightarrow> string \<Rightarrow> nat \<Rightarrow> int" where
  "slots P rid i = plen (P rid ! i)"

definition encoder_ok :: "(string \<Rightarrow> placeholder_range list) \<Rightarrow> encoder_cache \<Rightarrow> bool" where
  "encoder_ok P e \<longleftrightarrow> distinct (map fst (cached e)) \<and>
     (\<forall>rid ids. map_of (cached e) rid = Some ids \<longrightarrow> ids \<noteq> [] \<and> distinct ids \<and> (\<forall>i \<in> set ids. i < length (P rid))) \<and>
     num_free_slots e + used_slots (slots P) (cached e) = cache_size e"

lemma encoder_ok_entry:
  assumes "encoder_ok P e" and "map_of (cached e) rid = Some ids"
  shows "ids \<noteq> []" "distinct ids" "i \<in> set ids \<Longrightarrow> i < length (P rid)"
  using assms unfolding encoder_ok_def by metis+

lemma encoder_init_ok: "encoder_ok P (encoder_init n)"
  by (simp add: encoder_ok_def encoder_init_def used_slots_def)

lemma entry_slots_ids: "entry_slots len (cached e) (request_id r) = sum_list (map (len (request_id r)) (get_cached_input_ids r e))"
  by (simp add: entry_slots_def get_cached_input_ids_def split: option.split)

lemma encoder_allocate_ok:
  assumes ok: "encoder_ok P e" and P: "P (request_id r) = mm_positions r"
    and i: "i < length (mm_positions r)" and new: "\<not> has_cache r i e"
  obtains e' where "encoder_allocate r i e = Inr e'" "encoder_ok P e'" "cache_size e' = cache_size e"
    "num_free_slots e' = num_free_slots e - plen (mm_positions r ! i)" "has_cache r i e'" "freed e' = freed e"
proof -
  define ids where "ids = get_cached_input_ids r e"
  define e' where "e' = e\<lparr>cached := AList.update (request_id r) (i # ids) (cached e),
     num_free_slots := num_free_slots e - plen (mm_positions r ! i)\<rparr>"
  have ins: "List.insert i ids = i # ids" using new by (simp add: has_cache_def ids_def)
  have ids: "distinct ids" "\<forall>j \<in> set ids. j < length (mm_positions r)"
    using encoder_ok_entry [OF ok, of "request_id r"] P
    by (cases "map_of (cached e) (request_id r)"; simp add: ids_def get_cached_input_ids_def)+
  have res: "encoder_allocate r i e = Inr e'"
    using i ins by (simp add: encoder_allocate_def get_num_encoder_tokens_def e'_def flip: ids_def)
  have "entry_slots (slots P) (cached e) (request_id r) = sum_list (map (slots P (request_id r)) ids)"
    by (simp add: entry_slots_ids ids_def)
  then have "used_slots (slots P) (cached e') = used_slots (slots P) (cached e) + plen (mm_positions r ! i)"
    using P by (simp add: e'_def used_update slots_def)
  moreover have "distinct (map fst (cached e'))"
    using ok by (simp add: e'_def encoder_ok_def distinct_update)
  moreover have "\<forall>rid js. map_of (cached e') rid = Some js \<longrightarrow> js \<noteq> [] \<and> distinct js \<and> (\<forall>j \<in> set js. j < length (P rid))"
    using ok ids new i P by (auto simp: e'_def encoder_ok_def update_conv has_cache_def simp flip: ids_def split: if_splits)
  ultimately have "encoder_ok P e'" using ok by (simp add: encoder_ok_def e'_def)
  moreover have "has_cache r i e'" by (simp add: has_cache_def get_cached_input_ids_def e'_def update_conv)
  ultimately show ?thesis using that [OF res] by (simp add: e'_def)
qed

lemma free_encoder_input_ok:
  assumes ok: "encoder_ok P e" and P: "P (request_id r) = mm_positions r" and has: "has_cache r i e"
  obtains e' where "free_encoder_input r i e = Inr e'" "encoder_ok P e'" "cache_size e' = cache_size e"
    "get_cached_input_ids r e' = remove1 i (get_cached_input_ids r e)"
    "num_free_slots e' = num_free_slots e + plen (mm_positions r ! i)" "freed e' = freed e @ [(request_id r, i)]"
    "\<And>rid. rid \<noteq> request_id r \<Longrightarrow> map_of (cached e') rid = map_of (cached e) rid"
proof -
  obtain ids where ids: "map_of (cached e) (request_id r) = Some ids" and i: "i \<in> set ids"
    using has by (cases "map_of (cached e) (request_id r)") (auto simp: has_cache_def get_cached_input_ids_def)
  have okd: "distinct (map fst (cached e))" "distinct ids" "\<forall>j \<in> set ids. j < length (mm_positions r)"
    using encoder_ok_entry [OF ok ids] ok P by (simp_all add: encoder_ok_def)
  define d where "d = (if remove1 i ids = [] then AList.delete (request_id r) (cached e) else AList.update (request_id r) (remove1 i ids) (cached e))"
  define e' where "e' = e\<lparr>cached := d, num_free_slots := num_free_slots e + plen (mm_positions r ! i), freed := freed e @ [(request_id r, i)]\<rparr>"
  have res: "free_encoder_input r i e = Inr e'"
    using ids i okd by (simp add: free_encoder_input_def get_num_encoder_tokens_def e'_def d_def)
  have look: "map_of d = (if remove1 i ids = [] then (map_of (cached e))(request_id r := None) else (map_of (cached e))(request_id r \<mapsto> remove1 i ids))"
    by (simp add: d_def delete_conv' update_conv')
  have "sum_list (map (slots P (request_id r)) (remove1 i ids)) = sum_list (map (slots P (request_id r)) ids) - plen (mm_positions r ! i)"
    using i P by (simp add: sum_list_map_remove1 [of i ids] slots_def)
  moreover have "sum_list (map (slots P (request_id r)) (remove1 i ids)) = 0" if "remove1 i ids = []" using that by simp
  ultimately have "used_slots (slots P) d = used_slots (slots P) (cached e) - plen (mm_positions r ! i)"
    using okd ids by (auto simp: d_def used_update used_delete entry_slots_def)
  moreover have "distinct (map fst d)" using okd by (simp add: d_def distinct_update distinct_delete)
  moreover have "\<forall>rid js. map_of d rid = Some js \<longrightarrow> js \<noteq> [] \<and> distinct js \<and> (\<forall>j \<in> set js. j < length (P rid))"
    using ok okd P notin_set_remove1 by (auto simp: look encoder_ok_def split: if_splits dest: set_remove1_subset [THEN subsetD])
  ultimately have "encoder_ok P e'" using ok by (simp add: encoder_ok_def e'_def)
  moreover have "get_cached_input_ids r e' = remove1 i (get_cached_input_ids r e)"
    using ids by (simp add: get_cached_input_ids_def e'_def look)
  ultimately show ?thesis using that [OF res] by (simp add: e'_def look)
qed

text \<open>The loop of \<open>free\<close> over the remaining ids.\<close>

lemma free_inputs_ok:
  "encoder_ok P e \<Longrightarrow> P (request_id r) = mm_positions r \<Longrightarrow> get_cached_input_ids r e = ids \<Longrightarrow>
   \<exists>e'. rfold (free_encoder_input r) ids e = Inr e' \<and> encoder_ok P e' \<and> cache_size e' = cache_size e \<and>
     get_cached_input_ids r e' = [] \<and> freed e' = freed e @ map (Pair (request_id r)) ids \<and>
     num_free_slots e' = num_free_slots e + sum_list (map (slots P (request_id r)) ids) \<and>
     (\<forall>rid. rid \<noteq> request_id r \<longrightarrow> map_of (cached e') rid = map_of (cached e) rid)"
proof (induction ids arbitrary: e)
  case (Cons i ids)
  then have "has_cache r i e" by (simp add: has_cache_def)
  then obtain e1 where e1: "free_encoder_input r i e = Inr e1" "encoder_ok P e1" "cache_size e1 = cache_size e"
    "get_cached_input_ids r e1 = ids" "num_free_slots e1 = num_free_slots e + plen (mm_positions r ! i)"
    "freed e1 = freed e @ [(request_id r, i)]" "\<And>rid. rid \<noteq> request_id r \<Longrightarrow> map_of (cached e1) rid = map_of (cached e) rid"
    using free_encoder_input_ok [OF Cons.prems(1,2), of i] unfolding Cons.prems(3) remove1.simps by auto
  then obtain e' where "rfold (free_encoder_input r) ids e1 = Inr e'" "encoder_ok P e'" "cache_size e' = cache_size e1"
    "get_cached_input_ids r e' = []" "freed e' = freed e1 @ map (Pair (request_id r)) ids"
    "num_free_slots e' = num_free_slots e1 + sum_list (map (slots P (request_id r)) ids)"
    "\<forall>rid. rid \<noteq> request_id r \<longrightarrow> map_of (cached e') rid = map_of (cached e1) rid"
    using Cons.IH [OF e1(2) Cons.prems(2) e1(4)] by blast
  moreover have "slots P (request_id r) i = plen (mm_positions r ! i)" using Cons.prems(2) by (simp add: slots_def)
  ultimately show ?case using e1 by (intro exI [of _ e']) simp
qed simp

section \<open>Reachable states\<close>

text \<open>
  The calls of the scheduler: it allocates inputs that are not cached, frees cached inputs one by one
  or all inputs of a request, and collects the freed ids. Requests do not change their positions.
\<close>

inductive encoder_reachable :: "(string \<Rightarrow> placeholder_range list) \<Rightarrow> int \<Rightarrow> encoder_cache \<Rightarrow> bool" for P n where
  start: "encoder_reachable P n (encoder_init n)"
| allocate: "encoder_reachable P n e \<Longrightarrow> P (request_id r) = mm_positions r \<Longrightarrow> i < length (mm_positions r) \<Longrightarrow>
    \<not> has_cache r i e \<Longrightarrow> encoder_allocate r i e = Inr e' \<Longrightarrow> encoder_reachable P n e'"
| free_input: "encoder_reachable P n e \<Longrightarrow> P (request_id r) = mm_positions r \<Longrightarrow> has_cache r i e \<Longrightarrow>
    free_encoder_input r i e = Inr e' \<Longrightarrow> encoder_reachable P n e'"
| free: "encoder_reachable P n e \<Longrightarrow> P (request_id r) = mm_positions r \<Longrightarrow> encoder_free r e = Inr e' \<Longrightarrow> encoder_reachable P n e'"
| collect: "encoder_reachable P n e \<Longrightarrow> get_freed_ids e = (ids, e') \<Longrightarrow> encoder_reachable P n e'"

lemma encoder_reachable_ok: "encoder_reachable P n e \<Longrightarrow> encoder_ok P e \<and> cache_size e = n"
proof (induction rule: encoder_reachable.induct)
  case start
  then show ?case by (simp add: encoder_init_ok) (simp add: encoder_init_def)
next
  case (allocate e r i e')
  then show ?case using encoder_allocate_ok [of P e r i] by (metis sum.inject(2))
next
  case (free_input e r i e')
  then show ?case using free_encoder_input_ok [of P e r i] by (metis sum.inject(2))
next
  case (free e r e')
  then show ?case using free_inputs_ok [of P e r "get_cached_input_ids r e"] by (auto simp: encoder_free_def)
next
  case (collect e ids e')
  have "encoder_ok P (e\<lparr>freed := []\<rparr>) = encoder_ok P e" by (simp add: encoder_ok_def)
  then show ?case using collect by (auto simp: get_freed_ids_def)
qed

text \<open>
  C29: In every state the scheduler can reach, the free slots of the encoder cache and the tokens of
  the cached inputs add up to the size of the cache. Freeing a request then never raises, gives back
  exactly the slots of its inputs, reports each of them once as freed, and leaves the other requests alone.
\<close>

theorem encoder_cache_accounting:
  assumes "encoder_reachable P n e" and "P (request_id r) = mm_positions r"
  shows "num_free_slots e + used_slots (slots P) (cached e) = n \<and>
    (\<exists>e'. encoder_free r e = Inr e' \<and> get_cached_input_ids r e' = [] \<and>
       num_free_slots e' = num_free_slots e + sum_list (map (slots P (request_id r)) (get_cached_input_ids r e)) \<and>
       freed e' = freed e @ map (Pair (request_id r)) (get_cached_input_ids r e) \<and> distinct (get_cached_input_ids r e) \<and>
       (\<forall>rid. rid \<noteq> request_id r \<longrightarrow> map_of (cached e') rid = map_of (cached e) rid))"
proof -
  have ok: "encoder_ok P e" "cache_size e = n" using encoder_reachable_ok [OF assms(1)] by auto
  moreover have "distinct (get_cached_input_ids r e)"
    using ok by (auto simp: get_cached_input_ids_def encoder_ok_def split: option.split)
  ultimately show ?thesis
    using free_inputs_ok [OF ok(1) assms(2) refl] by (auto simp: encoder_free_def encoder_ok_def)
qed

definition image_request :: "string \<Rightarrow> request" where
  "image_request rid = (text_request rid [1, 2, 3, 4, 5])
     \<lparr>mm_positions := [\<lparr>offset = 0, plen = 2\<rparr>, \<lparr>offset = 2, plen = 3\<rparr>], num_encoder_inputs := 2\<rparr>"

lemma image_request_simps [simp]:
  "request_id (image_request rid) = rid" "mm_positions (image_request rid) = [\<lparr>offset = 0, plen = 2\<rparr>, \<lparr>offset = 2, plen = 3\<rparr>]"
  by (simp_all add: image_request_def text_request_def)

text \<open>One of two inputs is cached in a cache of eight slots.\<close>

lemma image_reachable:
  "encoder_reachable (\<lambda>_. mm_positions (image_request [])) 8
     \<lparr>cache_size = 8, num_free_slots = 5, cached = [(''a'', [1])], freed = []\<rparr>"
  by (rule encoder_reachable.allocate [OF encoder_reachable.start, of _ "image_request ''a''" 1])
    (simp_all add: has_cache_def get_cached_input_ids_def encoder_init_def encoder_allocate_def get_num_encoder_tokens_def)

theorem encoder_cache_accounting_witness:
  "\<exists>e'. encoder_free (image_request ''a'') \<lparr>cache_size = 8, num_free_slots = 5, cached = [(''a'', [1])], freed = []\<rparr> = Inr e' \<and>
     num_free_slots e' = 8 \<and> freed e' = [(''a'', 1)]"
  using encoder_cache_accounting [OF image_reachable, of "image_request ''a''"]
  by (auto simp: get_cached_input_ids_def slots_def)

section \<open>The budget\<close>

lemma max_item_ge: "best \<le> max_item d best" "(k, v) \<in> set d \<Longrightarrow> v \<le> max_item d best"
proof (induction d best rule: max_item.induct)
  case (2 a v d best)
  { case 1 then show ?case using 2(1) by (auto split: if_splits intro: order_trans) }
  { case 2 then show ?case using "2.IH" by (auto split: if_splits intro: order_trans) }
qed auto

lemma compute_encoder_budget_mm:
  assumes "compute_encoder_budget True ms d b t c = Inr (budget, csize)" and "(k, v) \<in> set ms"
  shows "v \<le> budget" "v \<le> csize" "d \<Longrightarrow> v \<le> b"
proof -
  obtain p q where ms: "ms = p # q" using assms(2) by (cases ms) auto
  have "v \<le> max_item q (snd p)" using assms(2) max_item_ge [where d = q and best = "snd p"] by (auto simp: ms)
  then show "v \<le> budget" "v \<le> csize" "d \<Longrightarrow> v \<le> b"
    using assms(1) by (auto simp: compute_encoder_budget_def compute_encoder_budget_multimodal_def ms Let_def split: if_splits)
qed

end
