(* ===== verification/Scheduler.thy ===== *)
theory Scheduler
  imports KV_Cache_Manager Encoder_Cache
begin

text \<open>
  The scheduler of the vLLM V1 engine, \<open>vllm/v1/core/sched/scheduler.py\<close>.

  Request objects live in a store indexed by their \<open>request_id\<close> (\<open>objs\<close>); the dict \<open>requests\<close> is the
  list of its keys, and the queues \<open>waiting\<close> and \<open>running\<close> hold ids. Dicts built during a step are
  association lists in insertion order, sets are lists without repetition.

  Parameters: the hash function of the block hashes (\<open>hf\<close>, \<open>nh\<close>) and the number of tokens the
  KV connector can load for a request, \<open>ext\<close> (zero when no connector is configured). Timestamps, the
  grammar bitmask, the connector metadata and log-probability payloads are not modelled.
\<close>

section \<open>State\<close>

record cached_request_data =
  crd_req_id :: string
  resumed_from_preemption :: bool
  crd_new_token_ids :: "int list"
  new_block_ids :: "nat list"
  crd_num_computed_tokens :: int

record new_request_data =
  nrd_req_id :: string
  nrd_prompt_token_ids :: "int list"
  nrd_mm_hashes :: "string option list"
  nrd_mm_positions :: "placeholder_range list"
  nrd_sampling :: sampling_params
  nrd_block_ids :: "nat list"
  nrd_num_computed_tokens :: int
  nrd_lora_request :: "int option"

record scheduler_output =
  scheduled_new_reqs :: "new_request_data list"
  scheduled_cached_reqs :: "cached_request_data list"
  out_num_scheduled_tokens :: "(string \<times> int) list"
  total_num_scheduled_tokens :: int
  out_spec_decode_tokens :: "(string \<times> int list) list"
  out_encoder_inputs :: "(string \<times> nat list) list"
  num_common_prefix_blocks :: nat
  out_finished_req_ids :: "string list"
  free_encoder_input_ids :: "(string \<times> nat) list"
  out_structured_ids :: "(string \<times> nat) list"

record scheduler =
  max_num_running_reqs :: nat
  max_num_scheduled_tokens :: int
  sch_max_model_len :: int
  long_prefill_token_threshold :: int
  disable_chunked_mm_input :: bool
  max_loras :: "nat option"
  max_num_encoder_input_tokens :: int
  num_spec_tokens :: nat
  num_lookahead_tokens :: int
  sch_log_stats :: bool
  include_finished_set :: bool
  kvm :: kv_cache_manager
  encoder_cache_manager :: encoder_cache
  objs :: "string \<Rightarrow> request"
  requests :: "string list"
  waiting :: "string list"
  running :: "string list"
  finished_req_ids :: "string list"
  cached_reqs_data :: "string \<Rightarrow> cached_request_data list"

definition upd_obj :: "string \<Rightarrow> (request \<Rightarrow> request) \<Rightarrow> scheduler \<Rightarrow> scheduler" where
  "upd_obj rid f s = s\<lparr>objs := (objs s)(rid := f (objs s rid))\<rparr>"

text \<open>
  The constructor. The encoder budget comes from \<open>compute_encoder_budget\<close>; lookahead slots are
  reserved for EAGLE only.
\<close>

definition scheduler_init ::
  "nat \<Rightarrow> int \<Rightarrow> int \<Rightarrow> int \<Rightarrow> bool \<Rightarrow> nat option \<Rightarrow> (int \<times> int) result \<Rightarrow> (nat \<times> bool) option \<Rightarrow> bool \<Rightarrow> bool \<Rightarrow>
   nat option \<Rightarrow> nat \<Rightarrow> nat \<Rightarrow> attention_spec list \<Rightarrow> bool \<Rightarrow> (string \<Rightarrow> request) \<Rightarrow> scheduler result" where
  "scheduler_init max_seqs max_tokens' max_len threshold disable_chunked loras encoder_budget speculative logging fin
     gpu_blocks n_blocks bs groups caching store =
     (if gpu_blocks = None \<or> gpu_blocks = Some 0 then Inl AssertionError
      else rbind encoder_budget (\<lambda>(encoder_compute_budget, encoder_cache_size).
        let eagle = (case speculative of None \<Rightarrow> False | Some (_, e) \<Rightarrow> e);
            n_spec = (case speculative of None \<Rightarrow> 0 | Some (n, _) \<Rightarrow> n)
        in rbind (kvm_init bs groups n_blocks max_len caching eagle logging)
          (\<lambda>m. Inr \<lparr>max_num_running_reqs = max_seqs, max_num_scheduled_tokens = max_tokens', sch_max_model_len = max_len,
             long_prefill_token_threshold = threshold, disable_chunked_mm_input = disable_chunked, max_loras = loras,
             max_num_encoder_input_tokens = encoder_compute_budget, num_spec_tokens = n_spec,
             num_lookahead_tokens = (if eagle then int n_spec else 0), sch_log_stats = logging, include_finished_set = fin,
             kvm = m, encoder_cache_manager = encoder_init encoder_cache_size, objs = store, requests = [],
             waiting = [], running = [], finished_req_ids = [], cached_reqs_data = (\<lambda>_. [])\<rparr>)))"

section \<open>Encoder inputs\<close>

text \<open>The loop over the multi-modal inputs from index \<open>i\<close> on.\<close>

fun encoder_inputs_loop ::
  "bool \<Rightarrow> encoder_cache \<Rightarrow> request \<Rightarrow> int \<Rightarrow> placeholder_range list \<Rightarrow> nat \<Rightarrow> int \<Rightarrow> int \<Rightarrow> nat list \<Rightarrow> (nat list \<times> int \<times> int) result" where
  "encoder_inputs_loop dis e r computed [] i num_new budget acc = Inr (acc, num_new, budget)"
| "encoder_inputs_loop dis e r computed (pos # ps) i num_new budget acc =
     (let start_pos = offset pos; num_encoder_tokens = plen pos
      in if start_pos \<ge> computed + num_new then Inr (acc, num_new, budget)
         else if start_pos + num_encoder_tokens \<le> computed then encoder_inputs_loop dis e r computed ps (Suc i) num_new budget acc
         else if has_cache r i e then encoder_inputs_loop dis e r computed ps (Suc i) num_new budget acc
         else if dis \<and> computed < start_pos \<and> computed + num_new < start_pos + num_encoder_tokens
              then Inr (acc, start_pos - computed, budget)
         else rbind (can_allocate r i e) (\<lambda>ok.
           if \<not> ok \<or> num_encoder_tokens > budget
           then Inr (acc, if computed < start_pos then start_pos - computed else 0, budget)
           else encoder_inputs_loop dis e r computed ps (Suc i) num_new (budget - num_encoder_tokens) (acc @ [i])))"

definition try_schedule_encoder_inputs :: "scheduler \<Rightarrow> request \<Rightarrow> int \<Rightarrow> int \<Rightarrow> int \<Rightarrow> (nat list \<times> int \<times> int) result" where
  "try_schedule_encoder_inputs s r computed num_new budget =
     (if num_new = 0 \<or> \<not> has_encoder_inputs r then Inr ([], num_new, budget)
      else if mm_positions r = [] then Inl AssertionError
      else encoder_inputs_loop (disable_chunked_mm_input s) (encoder_cache_manager s) r computed (mm_positions r) 0 num_new budget [])"

section \<open>Scheduling the running requests\<close>

record sched_vars =
  v_new_reqs :: "string list"
  v_resumed_reqs :: "string list"
  v_running_reqs :: "string list"
  v_preempted_reqs :: "string list"
  structured_ids :: "(string \<times> nat) list"
  req_to_new_block_ids :: "(string \<times> nat list) list"
  num_scheduled_tokens :: "(string \<times> int) list"
  token_budget :: int
  scheduled_encoder_inputs :: "(string \<times> nat list) list"
  encoder_budget :: int
  scheduled_spec_decode_tokens :: "(string \<times> int list) list"
  req_index :: nat
  scheduled_loras :: "int list"
  skipped_waiting :: "string list"

definition sched_vars_init :: "scheduler \<Rightarrow> sched_vars" where
  "sched_vars_init s = \<lparr>v_new_reqs = [], v_resumed_reqs = [], v_running_reqs = [], v_preempted_reqs = [], structured_ids = [],
     req_to_new_block_ids = [], num_scheduled_tokens = [], token_budget = max_num_scheduled_tokens s, scheduled_encoder_inputs = [],
     encoder_budget = max_num_encoder_input_tokens s, scheduled_spec_decode_tokens = [], req_index = 0, scheduled_loras = [],
     skipped_waiting = []\<rparr>"

definition cap_prefill :: "scheduler \<Rightarrow> int \<Rightarrow> int" where
  "cap_prefill s n = (if 0 < long_prefill_token_threshold s \<and> long_prefill_token_threshold s < n then long_prefill_token_threshold s else n)"

definition running_new_tokens :: "scheduler \<Rightarrow> request \<Rightarrow> int \<Rightarrow> int" where
  "running_new_tokens s r budget =
     min (min (cap_prefill s (int (num_tokens_with_spec r) - num_computed_tokens r)) budget) (sch_max_model_len s - num_computed_tokens r)"

definition preempt_last :: "scheduler \<Rightarrow> (string \<times> scheduler) result" where
  "preempt_last s =
     (if running s = [] then Inl IndexError
      else let p = last (running s)
        in rbind (kvm_free (objs s p) (kvm s)) (\<lambda>m.
             let f = (\<lambda>r. let r1 = r\<lparr>status := PREEMPTED, num_computed_tokens := 0\<rparr>
                          in if sch_log_stats s then record_event PREEMPTED_EV r1 else r1)
             in Inr (p, (upd_obj p f s)\<lparr>running := butlast (running s), kvm := m, waiting := p # waiting s\<rparr>)))"

lemma rbind_fundef_cong [fundef_cong]:
  "r = r' \<Longrightarrow> (\<And>x. r' = Inr x \<Longrightarrow> f x = g x) \<Longrightarrow> rbind r f = rbind r' g"
  by (cases r') auto

lemma preempt_last_running: "preempt_last s = Inr (p, s') \<Longrightarrow> running s = running s' @ [p]"
  by (auto simp: preempt_last_def upd_obj_def Let_def split: if_splits)

text \<open>The inner loop: preempt requests from the end until the slots can be allocated.\<close>

function allocate_or_preempt ::
  "hash_fn \<Rightarrow> int \<Rightarrow> string \<Rightarrow> int \<Rightarrow> string list \<Rightarrow> scheduler \<Rightarrow> (nat list option \<times> string list \<times> scheduler) result" where
  "allocate_or_preempt hf nh rid num_new preempted s =
     rbind (allocate_slots hf nh (objs s rid) num_new [] (num_lookahead_tokens s) (kvm s))
       (\<lambda>(res, m). case res of
          Some blocks \<Rightarrow> Inr (Some blocks, preempted, s\<lparr>kvm := m\<rparr>)
        | None \<Rightarrow> rbind (preempt_last (s\<lparr>kvm := m\<rparr>)) (\<lambda>(p, s2).
            if p = rid then Inr (None, preempted @ [p], s2)
            else allocate_or_preempt hf nh rid num_new (preempted @ [p]) s2))"
  by pat_completeness auto
termination
  by (relation "measure (\<lambda>(hf, nh, rid, n, pre, s). length (running s))")
    (auto dest!: preempt_last_running dest: arg_cong [where f = length])

declare allocate_or_preempt.simps [simp del]

text \<open>Draft tokens that do not fit into the scheduled tokens are cut off.\<close>

definition schedule_spec_tokens :: "string \<Rightarrow> int \<Rightarrow> scheduler \<times> sched_vars \<Rightarrow> scheduler \<times> sched_vars" where
  "schedule_spec_tokens rid num_new = (\<lambda>(s, v).
     let r = objs s rid; n = num_new + num_computed_tokens r - int (num_tokens r)
     in if spec_token_ids r \<noteq> [] \<and> n > 0
        then let ts = take (nat n) (spec_token_ids r)
             in (upd_obj rid (\<lambda>r. r\<lparr>spec_token_ids := ts\<rparr>) s,
                 v\<lparr>scheduled_spec_decode_tokens := AList.update rid ts (scheduled_spec_decode_tokens v)\<rparr>)
        else (s, v))"

definition allocate_encoder_inputs :: "string \<Rightarrow> nat list \<Rightarrow> int \<Rightarrow> scheduler \<times> sched_vars \<Rightarrow> (scheduler \<times> sched_vars) result" where
  "allocate_encoder_inputs rid inputs new_budget = (\<lambda>(s, v).
     if inputs = [] then Inr (s, v)
     else rbind (rfold (encoder_allocate (objs s rid)) inputs (encoder_cache_manager s))
       (\<lambda>e. Inr (s\<lparr>encoder_cache_manager := e\<rparr>,
                 v\<lparr>scheduled_encoder_inputs := AList.update rid inputs (scheduled_encoder_inputs v), encoder_budget := new_budget\<rparr>)))"

definition record_scheduled :: "string \<Rightarrow> bool \<Rightarrow> nat list \<Rightarrow> int \<Rightarrow> sched_vars \<Rightarrow> sched_vars" where
  "record_scheduled rid structured block_ids num_new v =
     v\<lparr>structured_ids := (if structured then AList.update rid (req_index v) (structured_ids v) else structured_ids v),
       req_to_new_block_ids := AList.update rid block_ids (req_to_new_block_ids v),
       num_scheduled_tokens := AList.update rid num_new (num_scheduled_tokens v),
       token_budget := token_budget v - num_new, req_index := Suc (req_index v)\<rparr>"

text \<open>The encoder inputs and the number of tokens to schedule for a running request.\<close>

definition plan_running :: "scheduler \<Rightarrow> sched_vars \<Rightarrow> request \<Rightarrow> (nat list \<times> int \<times> int) result" where
  "plan_running s v r =
     (let num_new = running_new_tokens s r (token_budget v)
      in if has_encoder_inputs r then try_schedule_encoder_inputs s r (num_computed_tokens r) num_new (encoder_budget v)
         else Inr ([], num_new, encoder_budget v))"

definition schedule_running ::
  "hash_fn \<Rightarrow> int \<Rightarrow> string \<Rightarrow> nat list \<Rightarrow> int \<Rightarrow> int \<Rightarrow> scheduler \<Rightarrow> sched_vars \<Rightarrow> (bool \<times> scheduler \<times> sched_vars) result" where
  "schedule_running hf nh rid inputs num_new new_budget s v =
     rbind (allocate_or_preempt hf nh rid num_new (v_preempted_reqs v) s)
       (\<lambda>(res, preempted, s1).
         case res of
           None \<Rightarrow> Inr (False, s1, v\<lparr>v_preempted_reqs := preempted\<rparr>)
         | Some blocks \<Rightarrow>
             let v1 = record_scheduled rid (use_structured_output (objs s1 rid)) blocks num_new
                        (v\<lparr>v_preempted_reqs := preempted, v_running_reqs := v_running_reqs v @ [rid]\<rparr>)
             in rbind (allocate_encoder_inputs rid inputs new_budget (schedule_spec_tokens rid num_new (s1, v1)))
                  (\<lambda>(s2, v2). Inr (True, s2, v2)))"

text \<open>One iteration of the first loop; the Boolean says whether the loop goes on.\<close>

definition running_step ::
  "hash_fn \<Rightarrow> int \<Rightarrow> scheduler \<Rightarrow> sched_vars \<Rightarrow> (bool \<times> scheduler \<times> sched_vars) result" where
  "running_step hf nh s v =
     (let rid = running s ! req_index v
      in rbind (plan_running s v (objs s rid)) (\<lambda>(inputs, num_new, new_budget).
           if num_new = 0 then Inr (True, s, v\<lparr>req_index := Suc (req_index v)\<rparr>)
           else schedule_running hf nh rid inputs num_new new_budget s v))"

text \<open>The ways an iteration ends.\<close>

lemma running_step_cases:
  assumes "running_step hf nh s v = Inr (go, s', v')"
  obtains (skip) inputs nb where "plan_running s v (objs s (running s ! req_index v)) = Inr (inputs, 0, nb)"
      "go" "s' = s" "v' = v\<lparr>req_index := Suc (req_index v)\<rparr>"
  | (preempted) pre inputs n nb where "plan_running s v (objs s (running s ! req_index v)) = Inr (inputs, n, nb)" "n \<noteq> 0" "\<not> go"
      "allocate_or_preempt hf nh (running s ! req_index v) n (v_preempted_reqs v) s = Inr (None, pre, s')"
      "v' = v\<lparr>v_preempted_reqs := pre\<rparr>"
  | (scheduled) inputs n nb pre blocks s1 v1 where "plan_running s v (objs s (running s ! req_index v)) = Inr (inputs, n, nb)" "n \<noteq> 0" "go"
      "allocate_or_preempt hf nh (running s ! req_index v) n (v_preempted_reqs v) s = Inr (Some blocks, pre, s1)"
      "v1 = record_scheduled (running s ! req_index v) (use_structured_output (objs s1 (running s ! req_index v))) blocks n
          (v\<lparr>v_preempted_reqs := pre, v_running_reqs := v_running_reqs v @ [running s ! req_index v]\<rparr>)"
      "allocate_encoder_inputs (running s ! req_index v) inputs nb (schedule_spec_tokens (running s ! req_index v) n (s1, v1)) = Inr (s', v')"
proof -
  define rid where "rid = running s ! req_index v"
  have step: "rbind (plan_running s v (objs s rid)) (\<lambda>(inputs, num_new, new_budget).
           if num_new = 0 then Inr (True, s, v\<lparr>req_index := Suc (req_index v)\<rparr>)
           else schedule_running hf nh rid inputs num_new new_budget s v) = Inr (go, s', v')"
    using assms by (simp only: running_step_def Let_def rid_def)
  obtain x where x: "plan_running s v (objs s rid) = Inr x" using step by (cases "plan_running s v (objs s rid)") simp_all
  obtain inputs n nb where xs: "x = (inputs, n, nb)" by (cases x)
  note plan = x [unfolded xs]
  have rest: "(if n = 0 then Inr (True, s, v\<lparr>req_index := Suc (req_index v)\<rparr>) else schedule_running hf nh rid inputs n nb s v) = Inr (go, s', v')"
    using step by (simp only: plan rbind_simps prod.case)
  show ?thesis
  proof (cases "n = 0")
    case True
    show ?thesis by (rule skip [OF plan [unfolded True rid_def]]) (use rest True in simp_all)
  next
    case False
    define k where "k = (\<lambda>(res, preempted, s1).
         case res of
           None \<Rightarrow> Inr (False, s1, v\<lparr>v_preempted_reqs := preempted\<rparr>)
         | Some blocks \<Rightarrow>
             rbind (allocate_encoder_inputs rid inputs nb (schedule_spec_tokens rid n (s1, record_scheduled rid (use_structured_output (objs s1 rid)) blocks n
                        (v\<lparr>v_preempted_reqs := preempted, v_running_reqs := v_running_reqs v @ [rid]\<rparr>))))
                  (\<lambda>(s2, v2). Inr (True, s2, v2)))"
    have run: "rbind (allocate_or_preempt hf nh rid n (v_preempted_reqs v) s) k = Inr (go, s', v')"
      using rest False by (simp only: if_False schedule_running_def Let_def k_def)
    obtain y where y: "allocate_or_preempt hf nh rid n (v_preempted_reqs v) s = Inr y"
      using run by (cases "allocate_or_preempt hf nh rid n (v_preempted_reqs v) s") simp_all
    obtain res pre s1 where ys: "y = (res, pre, s1)" by (cases y)
    note a = y [unfolded ys]
    have r2: "k (res, pre, s1) = Inr (go, s', v')" using run by (simp only: a rbind_simps)
    show ?thesis
    proof (cases res)
      case None
      have r3: "\<not> go" "s1 = s'" "v' = v\<lparr>v_preempted_reqs := pre\<rparr>" using r2 unfolding k_def None by simp_all
      show ?thesis by (rule preempted [OF plan [unfolded rid_def] False r3(1) a [unfolded None r3(2) rid_def] r3(3)])
    next
      case (Some blocks)
      have r3: "go" "allocate_encoder_inputs rid inputs nb (schedule_spec_tokens rid n (s1, record_scheduled rid (use_structured_output (objs s1 rid)) blocks n
                        (v\<lparr>v_preempted_reqs := pre, v_running_reqs := v_running_reqs v @ [rid]\<rparr>))) = Inr (s', v')"
        using r2 unfolding k_def Some by auto
      show ?thesis by (rule scheduled [OF plan [unfolded rid_def] False r3(1) a [unfolded Some rid_def] refl r3(2) [unfolded rid_def]])
    qed
  qed
qed

lemma allocate_or_preempt_running:
  "allocate_or_preempt hf nh rid n pre s = Inr (res, pre', s') \<Longrightarrow> \<exists>ys. running s = running s' @ ys"
proof (induction hf nh rid n pre s arbitrary: res pre' s' rule: allocate_or_preempt.induct)
  case (1 hf nh rid n pre s)
  from "1.prems" obtain x m where a: "allocate_slots hf nh (objs s rid) n [] (num_lookahead_tokens s) (kvm s) = Inr (x, m)"
    and rest: "(case x of Some blocks \<Rightarrow> Inr (Some blocks, pre, s\<lparr>kvm := m\<rparr>)
        | None \<Rightarrow> rbind (preempt_last (s\<lparr>kvm := m\<rparr>)) (\<lambda>(p, s2).
            if p = rid then Inr (None, pre @ [p], s2)
            else allocate_or_preempt hf nh rid n (pre @ [p]) s2)) = Inr (res, pre', s')"
    unfolding allocate_or_preempt.simps [of hf nh rid n pre s] by auto
  show ?case
  proof (cases x)
    case None
    with rest obtain p s2 where p: "preempt_last (s\<lparr>kvm := m\<rparr>) = Inr (p, s2)"
      and "(if p = rid then Inr (None, pre @ [p], s2) else allocate_or_preempt hf nh rid n (pre @ [p]) s2) = Inr (res, pre', s')"
      by auto
    then show ?thesis
      using "1.IH" [OF a refl None p refl] preempt_last_running [OF p] by (auto split: if_splits)
  qed (use rest in auto)
qed

lemma schedule_spec_tokens_frame [simp]:
  "running (fst (schedule_spec_tokens rid n (s, v))) = running s"
  "waiting (fst (schedule_spec_tokens rid n (s, v))) = waiting s"
  "req_index (snd (schedule_spec_tokens rid n (s, v))) = req_index v"
  by (simp_all add: schedule_spec_tokens_def upd_obj_def Let_def)

lemma allocate_encoder_inputs_cases:
  assumes "allocate_encoder_inputs rid is b (s, v) = Inr (s', v')"
  obtains e d nb where "s' = s\<lparr>encoder_cache_manager := e\<rparr>" "v' = v\<lparr>scheduled_encoder_inputs := d, encoder_budget := nb\<rparr>"
proof (cases "is = []")
  case True
  then show ?thesis
    using assms that [where e = "encoder_cache_manager s" and d = "scheduled_encoder_inputs v" and nb = "encoder_budget v"] by (simp add: allocate_encoder_inputs_def)
next
  case False
  then show ?thesis using assms that by (auto simp: allocate_encoder_inputs_def)
qed

lemma allocate_encoder_inputs_frame:
  "allocate_encoder_inputs rid is b (s, v) = Inr (s', v') \<Longrightarrow>
     running s' = running s \<and> waiting s' = waiting s \<and> req_index v' = req_index v"
  by (auto simp: allocate_encoder_inputs_def split: if_splits)

lemma running_step_progress:
  assumes "running_step hf nh s v = Inr (True, s', v')"
  shows "req_index v' = Suc (req_index v) \<and> length (running s') \<le> length (running s)"
  using assms
proof (cases rule: running_step_cases)
  case (scheduled inputs n nb pre blocks s1 v1)
  define rid where "rid = running s ! req_index v"
  obtain s2 v2 where sv: "schedule_spec_tokens rid n (s1, v1) = (s2, v2)" by (metis surj_pair)
  have "running s' = running s1" "req_index v' = req_index v1"
    using allocate_encoder_inputs_frame [of rid inputs nb s2 v2 s' v'] scheduled(6) schedule_spec_tokens_frame [of rid n s1 v1]
    by (simp_all add: sv flip: rid_def)
  then show ?thesis using allocate_or_preempt_running [OF scheduled(4)] by (auto simp: scheduled(5) record_scheduled_def)
qed simp_all

function running_loop :: "hash_fn \<Rightarrow> int \<Rightarrow> scheduler \<Rightarrow> sched_vars \<Rightarrow> (scheduler \<times> sched_vars) result" where
  "running_loop hf nh s v =
     (if req_index v < length (running s) \<and> token_budget v > 0
      then rbind (running_step hf nh s v) (\<lambda>(go_on, s', v'). if go_on then running_loop hf nh s' v' else Inr (s', v'))
      else Inr (s, v))"
  by pat_completeness auto
termination
  by (relation "measure (\<lambda>(hf, nh, s, v). length (running s) - req_index v)") (auto dest!: running_step_progress)

declare running_loop.simps [simp del]

section \<open>Scheduling the waiting requests\<close>

definition record_loras :: "scheduler \<Rightarrow> sched_vars \<Rightarrow> sched_vars result" where
  "record_loras s v =
     (case max_loras s of None \<Rightarrow> Inr v
      | Some k \<Rightarrow>
          let loras = remdups (concat (map (\<lambda>rid. case lora_request (objs s rid) of None \<Rightarrow> [] | Some i \<Rightarrow> if i > 0 then [i] else []) (v_running_reqs v)))
          in if length loras \<le> k then Inr (v\<lparr>scheduled_loras := loras\<rparr>) else Inl AssertionError)"

definition skip_waiting :: "scheduler \<Rightarrow> sched_vars \<Rightarrow> bool \<times> scheduler \<times> sched_vars" where
  "skip_waiting s v = (True, s\<lparr>waiting := tl (waiting s)\<rparr>, v\<lparr>skipped_waiting := hd (waiting s) # skipped_waiting v\<rparr>)"

definition lora_blocked :: "scheduler \<Rightarrow> sched_vars \<Rightarrow> request \<Rightarrow> bool" where
  "lora_blocked s v r =
     (case (max_loras s, lora_request r) of
        (Some k, Some i) \<Rightarrow> length (scheduled_loras v) = k \<and> i \<notin> set (scheduled_loras v)
      | _ \<Rightarrow> False)"

definition classify_scheduled :: "string \<Rightarrow> request_status \<Rightarrow> sched_vars \<Rightarrow> sched_vars result" where
  "classify_scheduled rid st v =
     (if st = WAITING then Inr (v\<lparr>v_new_reqs := v_new_reqs v @ [rid]\<rparr>)
      else if st = PREEMPTED then Inr (v\<lparr>v_resumed_reqs := v_resumed_reqs v @ [rid]\<rparr>)
      else Inl RuntimeError)"

definition add_lora :: "scheduler \<Rightarrow> request \<Rightarrow> sched_vars \<Rightarrow> sched_vars" where
  "add_lora s r v = (case (max_loras s, lora_request r) of
      (Some _, Some i) \<Rightarrow> v\<lparr>scheduled_loras := List.insert i (scheduled_loras v)\<rparr>
    | _ \<Rightarrow> v)"

text \<open>The head of the waiting queue joins the running requests; \<open>blocks\<close> are its computed and new blocks.\<close>

definition admit ::
  "string \<Rightarrow> nat list \<Rightarrow> int \<Rightarrow> int \<Rightarrow> nat list \<Rightarrow> int \<Rightarrow> scheduler \<Rightarrow> sched_vars \<Rightarrow> (scheduler \<times> sched_vars) result" where
  "admit rid blocks computed num_new inputs new_budget s v =
     (let s1 = (upd_obj rid (\<lambda>r. if sch_log_stats s then record_event SCHEDULED r else r) s)
                 \<lparr>waiting := tl (waiting s), running := running s @ [rid]\<rparr>;
          r = objs s1 rid
      in rbind (classify_scheduled rid (status r) v) (\<lambda>v1.
           let v2 = record_scheduled rid (use_structured_output r) blocks num_new (add_lora s r v1);
               s2 = upd_obj rid (\<lambda>r. r\<lparr>status := RUNNING, num_computed_tokens := computed\<rparr>) s1
           in allocate_encoder_inputs rid inputs new_budget (s2, v2)))"

text \<open>What admission does to the local variables of the step, apart from the encoder inputs.\<close>

lemma add_lora_frame [simp]:
  "v_new_reqs (add_lora s r v) = v_new_reqs v" "v_resumed_reqs (add_lora s r v) = v_resumed_reqs v"
  "v_running_reqs (add_lora s r v) = v_running_reqs v" "v_preempted_reqs (add_lora s r v) = v_preempted_reqs v"
  "num_scheduled_tokens (add_lora s r v) = num_scheduled_tokens v" "token_budget (add_lora s r v) = token_budget v"
  "req_to_new_block_ids (add_lora s r v) = req_to_new_block_ids v" "skipped_waiting (add_lora s r v) = skipped_waiting v"
  "req_index (add_lora s r v) = req_index v" "encoder_budget (add_lora s r v) = encoder_budget v"
  by (auto simp: add_lora_def split: option.split)

lemma record_event_frame [simp]: "status (record_event ev r) = status r" "request_id (record_event ev r) = request_id r"
  by (simp_all add: record_event_def)

text \<open>
  What is known of the head of the waiting queue before slots are allocated: its computed blocks and
  tokens, the external tokens among them, and the encoder inputs and tokens to schedule.
\<close>

definition plan_waiting ::
  "hash_fn \<Rightarrow> int \<Rightarrow> (request \<Rightarrow> int \<Rightarrow> int) \<Rightarrow> scheduler \<Rightarrow> sched_vars \<Rightarrow> request \<Rightarrow>
   ((nat list \<times> int \<times> int) \<times> (nat list \<times> int \<times> int) \<times> scheduler) result" where
  "plan_waiting hf nh ext s v r =
     rbind (get_computed_blocks hf nh r (kvm s)) (\<lambda>((computed_blocks, local), m).
       let num_external = ext r local;
           computed = local + num_external;
           num_new = min (cap_prefill s (int (num_tokens r) - computed)) (token_budget v);
           s0 = s\<lparr>kvm := m\<rparr>
       in if num_new \<le> 0 then Inl AssertionError
          else rbind (if has_encoder_inputs r then try_schedule_encoder_inputs s0 r computed num_new (encoder_budget v)
                      else Inr ([], num_new, encoder_budget v))
            (\<lambda>plan. Inr ((computed_blocks, computed, num_external), plan, s0)))"

definition schedule_waiting ::
  "hash_fn \<Rightarrow> int \<Rightarrow> (request \<Rightarrow> int \<Rightarrow> int) \<Rightarrow> scheduler \<Rightarrow> sched_vars \<Rightarrow> (bool \<times> scheduler \<times> sched_vars) result" where
  "schedule_waiting hf nh ext s v =
     (let rid = hd (waiting s); r = objs s rid
      in rbind (plan_waiting hf nh ext s v r) (\<lambda>((computed_blocks, computed, num_external), (inputs, num_new, new_budget), s0).
           if has_encoder_inputs r \<and> num_new = 0 then Inr (False, s0, v)
           else rbind (allocate_slots hf nh r (num_new + num_external) computed_blocks (num_lookahead_tokens s) (kvm s0))
             (\<lambda>(res, m).
               case res of None \<Rightarrow> Inr (False, s0\<lparr>kvm := m\<rparr>, v)
               | Some blocks \<Rightarrow>
                   rbind (admit rid (computed_blocks @ blocks) computed num_new inputs new_budget (s0\<lparr>kvm := m\<rparr>) v)
                     (\<lambda>(s2, v2). Inr (True, s2, v2)))))"

lemma schedule_waiting_cases:
  assumes "schedule_waiting hf nh ext s v = Inr (go, s', v')"
  obtains (stop) m where "\<not> go" "s' = s\<lparr>kvm := m\<rparr>" "v' = v"
  | (admitted) cb computed x inputs n nb s0 blocks m where "go"
      "plan_waiting hf nh ext s v (objs s (hd (waiting s))) = Inr ((cb, computed, x), (inputs, n, nb), s0)"
      "has_encoder_inputs (objs s (hd (waiting s))) \<Longrightarrow> n \<noteq> 0"
      "allocate_slots hf nh (objs s (hd (waiting s))) (n + x) cb (num_lookahead_tokens s) (kvm s0) = Inr (Some blocks, m)"
      "admit (hd (waiting s)) (cb @ blocks) computed n inputs nb (s\<lparr>kvm := m\<rparr>) v = Inr (s', v')"
proof -
  define r where "r = objs s (hd (waiting s))"
  have s: "rbind (plan_waiting hf nh ext s v r) (\<lambda>((computed_blocks, computed, num_external), (inputs, num_new, new_budget), s0).
           if has_encoder_inputs r \<and> num_new = 0 then Inr (False, s0, v)
           else rbind (allocate_slots hf nh r (num_new + num_external) computed_blocks (num_lookahead_tokens s) (kvm s0))
             (\<lambda>(res, m).
               case res of None \<Rightarrow> Inr (False, s0\<lparr>kvm := m\<rparr>, v)
               | Some blocks \<Rightarrow>
                   rbind (admit (hd (waiting s)) (computed_blocks @ blocks) computed num_new inputs new_budget (s0\<lparr>kvm := m\<rparr>) v)
                     (\<lambda>(s2, v2). Inr (True, s2, v2)))) = Inr (go, s', v')"
    using assms by (simp only: schedule_waiting_def Let_def r_def)
  obtain p where p: "plan_waiting hf nh ext s v r = Inr p" using s by (cases "plan_waiting hf nh ext s v r") simp_all
  obtain cb computed x inputs n nb s0 where ps: "p = ((cb, computed, x), (inputs, n, nb), s0)" by (metis prod.exhaust)
  note plan = p [unfolded ps]
  obtain m0 where s0: "s0 = s\<lparr>kvm := m0\<rparr>" using plan by (auto simp: plan_waiting_def Let_def split: if_splits)
  show ?thesis
  proof (cases "has_encoder_inputs r \<and> n = 0")
    case True
    have "\<not> go" "s' = s0" "v' = v" using s by (simp_all add: plan True)
    then show ?thesis using stop [of m0] s0 by simp
  next
    case False
    define k where "k = (\<lambda>(res, m).
               case res of None \<Rightarrow> Inr (False, s0\<lparr>kvm := m\<rparr>, v)
               | Some blocks \<Rightarrow>
                   rbind (admit (hd (waiting s)) (cb @ blocks) computed n inputs nb (s0\<lparr>kvm := m\<rparr>) v)
                     (\<lambda>(s2, v2). Inr (True, s2, v2)))"
    have run: "rbind (allocate_slots hf nh r (n + x) cb (num_lookahead_tokens s) (kvm s0)) k = Inr (go, s', v')"
      using s False by (simp only: plan rbind_simps prod.case if_False k_def)
    obtain y where y: "allocate_slots hf nh r (n + x) cb (num_lookahead_tokens s) (kvm s0) = Inr y"
      using run by (cases "allocate_slots hf nh r (n + x) cb (num_lookahead_tokens s) (kvm s0)") simp_all
    obtain res m where ys: "y = (res, m)" by (cases y)
    have r2: "k (res, m) = Inr (go, s', v')" using run by (simp only: y ys rbind_simps)
    show ?thesis
    proof (cases res)
      case None
      have "\<not> go" "s' = s\<lparr>kvm := m\<rparr>" "v' = v" using r2 unfolding k_def None s0 by simp_all
      then show ?thesis by (rule stop)
    next
      case (Some blocks)
      have r3: "go" "admit (hd (waiting s)) (cb @ blocks) computed n inputs nb (s\<lparr>kvm := m\<rparr>) v = Inr (s', v')"
        using r2 unfolding k_def Some s0 by auto
      have enc: "has_encoder_inputs (objs s (hd (waiting s))) \<Longrightarrow> n \<noteq> 0" using False by (simp add: r_def)
      show ?thesis by (rule admitted [OF r3(1) plan [unfolded r_def] enc y [unfolded ys Some r_def] r3(2)])
    qed
  qed
qed

definition waiting_step ::
  "hash_fn \<Rightarrow> int \<Rightarrow> (request \<Rightarrow> int \<Rightarrow> int) \<Rightarrow> scheduler \<Rightarrow> sched_vars \<Rightarrow> (bool \<times> scheduler \<times> sched_vars) result" where
  "waiting_step hf nh ext s v =
     (if length (running s) = max_num_running_reqs s then Inr (False, s, v)
      else let rid = hd (waiting s); r = objs s rid
      in if status r = WAITING_FOR_FSM \<and> \<not> grammar_ready r then Inr (skip_waiting s v)
         else let s1 = (if status r = WAITING_FOR_FSM then upd_obj rid (\<lambda>r. r\<lparr>status := WAITING\<rparr>) s else s)
              in if lora_blocked s1 v (objs s1 rid) then Inr (skip_waiting s1 v)
                 else schedule_waiting hf nh ext s1 v)"

lemma admit_cases:
  assumes "admit rid blocks computed n inputs nb s v = Inr (s', v')"
  obtains e r' where "s' = s\<lparr>waiting := tl (waiting s), running := running s @ [rid], objs := (objs s)(rid := r'), encoder_cache_manager := e\<rparr>"
    "status r' = RUNNING" "request_id r' = request_id (objs s rid)"
    "status (objs s rid) = WAITING \<and> v_new_reqs v' = v_new_reqs v @ [rid] \<and> v_resumed_reqs v' = v_resumed_reqs v \<or>
     status (objs s rid) = PREEMPTED \<and> v_new_reqs v' = v_new_reqs v \<and> v_resumed_reqs v' = v_resumed_reqs v @ [rid]"
    "v_running_reqs v' = v_running_reqs v" "v_preempted_reqs v' = v_preempted_reqs v" "skipped_waiting v' = skipped_waiting v"
    "num_scheduled_tokens v' = AList.update rid n (num_scheduled_tokens v)" "token_budget v' = token_budget v - n"
proof -
  define r1 where "r1 = (if sch_log_stats s then record_event SCHEDULED (objs s rid) else objs s rid)"
  define s2 where "s2 = s\<lparr>waiting := tl (waiting s), running := running s @ [rid],
     objs := (objs s)(rid := r1\<lparr>status := RUNNING, num_computed_tokens := computed\<rparr>)\<rparr>"
  have st: "status r1 = status (objs s rid)" "request_id r1 = request_id (objs s rid)" by (simp_all add: r1_def)
  obtain v1 where v1: "classify_scheduled rid (status (objs s rid)) v = Inr v1"
    and enc: "allocate_encoder_inputs rid inputs nb (s2, record_scheduled rid (use_structured_output r1) blocks n (add_lora s r1 v1)) = Inr (s', v')"
    using assms unfolding admit_def by (auto simp: Let_def upd_obj_def s2_def st simp flip: r1_def)
  obtain e d b where e: "s' = s2\<lparr>encoder_cache_manager := e\<rparr>"
    and vd: "v' = (record_scheduled rid (use_structured_output r1) blocks n (add_lora s r1 v1))\<lparr>scheduled_encoder_inputs := d, encoder_budget := b\<rparr>"
    by (rule allocate_encoder_inputs_cases [OF enc])
  have v': "v_new_reqs v' = v_new_reqs v1" "v_resumed_reqs v' = v_resumed_reqs v1" "v_running_reqs v' = v_running_reqs v1"
      "v_preempted_reqs v' = v_preempted_reqs v1" "skipped_waiting v' = skipped_waiting v1"
      "num_scheduled_tokens v' = AList.update rid n (num_scheduled_tokens v1)" "token_budget v' = token_budget v1 - n"
    by (simp_all add: vd record_scheduled_def)
  have v1': "status (objs s rid) = WAITING \<and> v1 = v\<lparr>v_new_reqs := v_new_reqs v @ [rid]\<rparr> \<or>
     status (objs s rid) = PREEMPTED \<and> v1 = v\<lparr>v_resumed_reqs := v_resumed_reqs v @ [rid]\<rparr>"
    using v1 by (auto simp: classify_scheduled_def split: if_splits)
  show ?thesis
    by (rule that [where r' = "r1\<lparr>status := RUNNING, num_computed_tokens := computed\<rparr>" and e = e])
      (use v1' v' e st in \<open>auto simp: s2_def\<close>)
qed

text \<open>The ways an iteration of the second loop ends, in terms of the queues.\<close>

lemma waiting_step_queues:
  assumes "waiting_step hf nh ext s v = Inr (go, s', v')"
  shows "(\<not> go \<longrightarrow> waiting s' = waiting s \<and> running s' = running s \<and> v' = v) \<and>
    (go \<longrightarrow> waiting s' = tl (waiting s) \<and>
      (running s' = running s \<and> skipped_waiting v' = hd (waiting s) # skipped_waiting v \<or>
       running s' = running s @ [hd (waiting s)] \<and> skipped_waiting v' = skipped_waiting v \<and> length (running s) \<noteq> max_num_running_reqs s))"
proof -
  define s1 where "s1 = (if status (objs s (hd (waiting s))) = WAITING_FOR_FSM
    then upd_obj (hd (waiting s)) (\<lambda>r. r\<lparr>status := WAITING\<rparr>) s else s)"
  have q: "waiting s1 = waiting s" "running s1 = running s" "max_num_running_reqs s1 = max_num_running_reqs s"
    by (simp_all add: s1_def upd_obj_def)
  consider "\<not> go" "s' = s" "v' = v" | "(go, s', v') = skip_waiting s v \<or> (go, s', v') = skip_waiting s1 v"
    | "length (running s) \<noteq> max_num_running_reqs s" "schedule_waiting hf nh ext s1 v = Inr (go, s', v')"
    using assms unfolding waiting_step_def Let_def s1_def [symmetric] by (auto split: if_splits)
  then show ?thesis
  proof cases
    case 3
    from 3(2) show ?thesis
    proof (cases rule: schedule_waiting_cases)
      case (admitted cb computed x inputs n nb s0 blocks m)
      show ?thesis by (rule admit_cases [OF admitted(5)]) (use admitted(1) 3(1) q in auto)
    qed (simp_all add: q)
  qed (auto simp: skip_waiting_def q)
qed

function waiting_loop ::
  "hash_fn \<Rightarrow> int \<Rightarrow> (request \<Rightarrow> int \<Rightarrow> int) \<Rightarrow> scheduler \<Rightarrow> sched_vars \<Rightarrow> (scheduler \<times> sched_vars) result" where
  "waiting_loop hf nh ext s v =
     (if waiting s \<noteq> [] \<and> token_budget v > 0
      then rbind (waiting_step hf nh ext s v) (\<lambda>(go_on, s', v'). if go_on then waiting_loop hf nh ext s' v' else Inr (s', v'))
      else Inr (s, v))"
  by pat_completeness auto
termination
  by (relation "measure (\<lambda>(hf, nh, ext, s, v). length (waiting s))") (auto dest!: waiting_step_queues)

declare waiting_loop.simps [simp del]

text \<open>Both loops of \<open>schedule\<close>; the skipped requests go back to the head of the queue.\<close>

definition schedule_loops :: "hash_fn \<Rightarrow> int \<Rightarrow> (request \<Rightarrow> int \<Rightarrow> int) \<Rightarrow> scheduler \<Rightarrow> (scheduler \<times> sched_vars) result" where
  "schedule_loops hf nh ext s =
     rbind (running_loop hf nh s (sched_vars_init s)) (\<lambda>(s1, v1).
     rbind (record_loras s1 v1) (\<lambda>v2.
     rbind (if v_preempted_reqs v2 = [] then waiting_loop hf nh ext s1 v2 else Inr (s1, v2)) (\<lambda>(s3, v3).
       Inr (s3\<lparr>waiting := rev (skipped_waiting v3) @ waiting s3\<rparr>, v3))))"

section \<open>The output of a step\<close>

definition total_scheduled :: "sched_vars \<Rightarrow> int" where
  "total_scheduled v = sum_list (map snd (num_scheduled_tokens v))"

text \<open>The assertions after the loops.\<close>

definition constraints_ok :: "scheduler \<Rightarrow> sched_vars \<Rightarrow> bool" where
  "constraints_ok s v \<longleftrightarrow> total_scheduled v \<le> max_num_scheduled_tokens s \<and> token_budget v \<ge> 0 \<and>
     length (running s) \<le> max_num_running_reqs s \<and>
     length (v_new_reqs v) + length (v_resumed_reqs v) + length (v_running_reqs v) \<le> length (running s)"

definition new_request_data_of :: "request \<Rightarrow> nat list \<Rightarrow> new_request_data" where
  "new_request_data_of r block_ids =
     \<lparr>nrd_req_id = request_id r, nrd_prompt_token_ids = prompt_token_ids r, nrd_mm_hashes = mm_hashes r,
      nrd_mm_positions = mm_positions r, nrd_sampling = sampling r, nrd_block_ids = block_ids,
      nrd_num_computed_tokens = num_computed_tokens r, nrd_lora_request = lora_request r\<rparr>"

definition cached_request_data_of :: "request \<Rightarrow> bool \<Rightarrow> int list \<Rightarrow> nat list \<Rightarrow> cached_request_data" where
  "cached_request_data_of r resumed tokens block_ids =
     \<lparr>crd_req_id = request_id r, resumed_from_preemption = resumed, crd_new_token_ids = tokens, new_block_ids = block_ids,
      crd_num_computed_tokens = num_computed_tokens r\<rparr>"

text \<open>A kept data object is reused when there is one.\<close>

definition make_cached_request_data ::
  "request \<Rightarrow> int \<Rightarrow> nat \<Rightarrow> nat list \<Rightarrow> bool \<Rightarrow> scheduler \<Rightarrow> cached_request_data \<times> scheduler" where
  "make_cached_request_data r n_scheduled n_spec block_ids resumed s =
     (let computed = num_computed_tokens r;
          num_regular_tokens = n_scheduled - int n_spec;
          tokens = py_islice computed (computed + num_regular_tokens) (all_token_ids r)
      in case cached_reqs_data s (request_id r) of
           d # ds \<Rightarrow>
             (d\<lparr>resumed_from_preemption := resumed, crd_new_token_ids := tokens, new_block_ids := block_ids, crd_num_computed_tokens := computed\<rparr>,
              s\<lparr>cached_reqs_data := (cached_reqs_data s)(request_id r := ds)\<rparr>)
         | [] \<Rightarrow> (cached_request_data_of r resumed tokens block_ids, s))"

definition lookup_dict :: "(string \<times> 'a) list \<Rightarrow> string \<Rightarrow> 'a result" where
  "lookup_dict d k = (case map_of d k of None \<Rightarrow> Inl KeyError | Some x \<Rightarrow> Inr x)"

definition spec_len :: "sched_vars \<Rightarrow> string \<Rightarrow> nat" where
  "spec_len v rid = (case map_of (scheduled_spec_decode_tokens v) rid of None \<Rightarrow> 0 | Some ts \<Rightarrow> length ts)"

fun make_cached_list ::
  "sched_vars \<Rightarrow> bool \<Rightarrow> string list \<Rightarrow> scheduler \<Rightarrow> (cached_request_data list \<times> scheduler) result" where
  "make_cached_list v resumed [] s = Inr ([], s)"
| "make_cached_list v resumed (rid # rids) s =
     rbind (lookup_dict (num_scheduled_tokens v) rid) (\<lambda>n.
     rbind (lookup_dict (req_to_new_block_ids v) rid) (\<lambda>bs.
       case make_cached_request_data (objs s rid) n (spec_len v rid) bs resumed s of
         (d, s1) \<Rightarrow> rbind (make_cached_list v resumed rids s1) (\<lambda>(ds, s2). Inr (d # ds, s2))))"

definition advance_computed :: "(string \<times> int) list \<Rightarrow> scheduler \<Rightarrow> scheduler result" where
  "advance_computed d s =
     rfold (\<lambda>(rid, n) s. if rid \<in> set (requests s)
                         then Inr (upd_obj rid (\<lambda>r. r\<lparr>num_computed_tokens := num_computed_tokens r + n\<rparr>) s)
                         else Inl KeyError) d s"

definition build_output :: "scheduler \<Rightarrow> sched_vars \<Rightarrow> (scheduler_output \<times> scheduler) result" where
  "build_output s v =
     rbind (if running s = [] then Inr 0
            else get_num_common_prefix_blocks (objs s (hd (running s))) (int (length (running s))) (kvm s)) (\<lambda>common.
     rbind (rmap (\<lambda>rid. rbind (lookup_dict (req_to_new_block_ids v) rid) (\<lambda>bs. Inr (new_request_data_of (objs s rid) bs))) (v_new_reqs v)) (\<lambda>new_data.
     rbind (make_cached_list v True (v_resumed_reqs v) s) (\<lambda>(resumed_data, s1).
     rbind (make_cached_list v False (v_running_reqs v) s1) (\<lambda>(running_data, s2).
       case get_freed_ids (encoder_cache_manager s2) of (freed_ids, e) \<Rightarrow>
         Inr (\<lparr>scheduled_new_reqs = new_data, scheduled_cached_reqs = resumed_data @ running_data,
               out_num_scheduled_tokens = num_scheduled_tokens v, total_num_scheduled_tokens = total_scheduled v,
               out_spec_decode_tokens = scheduled_spec_decode_tokens v, out_encoder_inputs = scheduled_encoder_inputs v,
               num_common_prefix_blocks = common, out_finished_req_ids = finished_req_ids s2, free_encoder_input_ids = freed_ids,
               out_structured_ids = structured_ids v\<rparr>,
              s2\<lparr>encoder_cache_manager := e\<rparr>)))))"

definition schedule :: "hash_fn \<Rightarrow> int \<Rightarrow> (request \<Rightarrow> int \<Rightarrow> int) \<Rightarrow> scheduler \<Rightarrow> (scheduler_output \<times> scheduler) result" where
  "schedule hf nh ext s =
     rbind (schedule_loops hf nh ext s) (\<lambda>(s1, v).
       if \<not> constraints_ok s1 v then Inl AssertionError
       else rbind (build_output s1 v) (\<lambda>(out, s2).
         rbind (advance_computed (num_scheduled_tokens v) s2) (\<lambda>s3. Inr (out, s3\<lparr>finished_req_ids := []\<rparr>))))"

section \<open>Requests come and go\<close>

definition add_request :: "request \<Rightarrow> scheduler \<Rightarrow> scheduler" where
  "add_request r s =
     s\<lparr>objs := (objs s)(request_id r := (if sch_log_stats s then record_event QUEUED r else r)),
       waiting := waiting s @ [request_id r], requests := List.insert (request_id r) (requests s)\<rparr>"

definition free_request :: "string \<Rightarrow> scheduler \<Rightarrow> scheduler result" where
  "free_request rid s =
     (let r = objs s rid
      in if \<not> is_finished r then Inl AssertionError
         else rbind (kvm_free r (kvm s)) (\<lambda>m.
           rbind (encoder_free r (encoder_cache_manager s)) (\<lambda>e.
             if rid \<notin> set (requests s) then Inl KeyError
             else Inr (s\<lparr>kvm := free_block_hashes r m, encoder_cache_manager := e, cached_reqs_data := (cached_reqs_data s)(rid := []),
                         requests := remove1 rid (requests s), finished_req_ids := List.insert rid (finished_req_ids s)\<rparr>))))"

text \<open>An id that is not in the queue makes \<open>remove\<close> raise.\<close>

definition finish_request :: "request_status \<Rightarrow> string \<Rightarrow> scheduler \<Rightarrow> scheduler result" where
  "finish_request finished_status rid s =
     (if rid \<notin> set (requests s) then Inr s
      else rbind (if status (objs s rid) = RUNNING
                  then if rid \<in> set (running s) then Inr (s\<lparr>running := remove1 rid (running s)\<rparr>) else Inl ValueError
                  else if rid \<in> set (waiting s) then Inr (s\<lparr>waiting := remove1 rid (waiting s)\<rparr>) else Inl ValueError)
        (\<lambda>s1. free_request rid (upd_obj rid (\<lambda>r. r\<lparr>status := finished_status\<rparr>) s1)))"

definition finish_requests :: "string list \<Rightarrow> request_status \<Rightarrow> scheduler \<Rightarrow> scheduler result" where
  "finish_requests request_ids finished_status s =
     (if \<not> status_finished finished_status then Inl AssertionError
      else rfold (finish_request finished_status) (remdups request_ids) s)"

definition get_num_unfinished_requests :: "scheduler \<Rightarrow> nat" where
  "get_num_unfinished_requests s = length (waiting s) + length (running s)"

definition has_finished_requests :: "scheduler \<Rightarrow> bool" where
  "has_finished_requests s \<longleftrightarrow> length (finished_req_ids s) > 0"

definition sch_reset_prefix_cache :: "scheduler \<Rightarrow> (bool \<times> scheduler) result" where
  "sch_reset_prefix_cache s = rbind (kvm_reset_prefix_cache (kvm s)) (\<lambda>(b, m). Inr (b, s\<lparr>kvm := m\<rparr>))"

section \<open>Statistics\<close>

record spec_decoding_stats =
  st_num_spec_tokens :: nat
  num_drafts :: nat
  num_draft_tokens :: nat
  num_accepted_tokens :: int
  num_accepted_tokens_per_pos :: "int list"

definition new_spec_stats :: "nat \<Rightarrow> spec_decoding_stats" where
  "new_spec_stats n = \<lparr>st_num_spec_tokens = n, num_drafts = 0, num_draft_tokens = 0, num_accepted_tokens = 0,
     num_accepted_tokens_per_pos = replicate n 0\<rparr>"

definition observe_draft :: "nat \<Rightarrow> int \<Rightarrow> spec_decoding_stats \<Rightarrow> spec_decoding_stats result" where
  "observe_draft n_draft n_accepted st =
     (if n_accepted > int (st_num_spec_tokens st) then Inl AssertionError
      else rbind (rfold (\<lambda>i xs. rbind (py_get xs i) (\<lambda>x. py_set xs i (x + 1))) [0..<nat n_accepted] (num_accepted_tokens_per_pos st))
        (\<lambda>xs. Inr (st\<lparr>num_drafts := num_drafts st + 1, num_draft_tokens := num_draft_tokens st + n_draft,
                      num_accepted_tokens := num_accepted_tokens st + n_accepted, num_accepted_tokens_per_pos := xs\<rparr>)))"

definition make_spec_decoding_stats ::
  "scheduler \<Rightarrow> spec_decoding_stats option \<Rightarrow> nat \<Rightarrow> int \<Rightarrow> spec_decoding_stats option result" where
  "make_spec_decoding_stats s st n_draft n_accepted =
     (if \<not> sch_log_stats s then Inr None
      else rbind (observe_draft n_draft n_accepted (case st of None \<Rightarrow> new_spec_stats (num_spec_tokens s) | Some x \<Rightarrow> x))
        (\<lambda>x. Inr (Some x)))"

record scheduler_stats =
  num_running_reqs :: nat
  num_waiting_reqs :: nat
  gpu_cache_usage :: real
  stats_prefix_cache :: prefix_cache_stats
  stats_spec_decoding :: "spec_decoding_stats option"

definition make_stats :: "scheduler \<Rightarrow> spec_decoding_stats option \<Rightarrow> (scheduler_stats option \<times> scheduler) result" where
  "make_stats s st =
     (if \<not> sch_log_stats s then Inr (None, s)
      else case make_prefix_cache_stats (kvm s) of (pst, m) \<Rightarrow>
        case pst of None \<Rightarrow> Inl AssertionError
        | Some p \<Rightarrow> Inr (Some \<lparr>num_running_reqs = length (running s), num_waiting_reqs = length (waiting s), gpu_cache_usage = usage m,
                             stats_prefix_cache = p, stats_spec_decoding = st\<rparr>, s\<lparr>kvm := m\<rparr>))"

section \<open>The model's answer\<close>

record model_runner_output =
  req_id_to_index :: "(string \<times> nat) list"
  sampled_token_ids :: "int list list"
  mro_spec_token_ids :: "int list list option"
  prompt_logprobs_ids :: "string list"

record engine_core_output =
  eco_request_id :: string
  eco_new_token_ids :: "int list"
  eco_finish_reason :: "finish_reason option"
  eco_stop_reason :: "int option"
  eco_events :: "event_type list option"

record engine_core_outputs =
  outputs :: "engine_core_output list"
  scheduler_stats_of :: "scheduler_stats option"
  finished_requests :: "string list option"

text \<open>Tokens of rejected drafts are not computed.\<close>

definition reject_drafts ::
  "scheduler_output \<Rightarrow> string \<Rightarrow> int list \<Rightarrow> scheduler \<Rightarrow> spec_decoding_stats option \<Rightarrow> (scheduler \<times> spec_decoding_stats option) result" where
  "reject_drafts so rid generated s st =
     (case map_of (out_spec_decode_tokens so) rid of
        Some (t # ts) \<Rightarrow>
          let drafts = t # ts;
              num_tokens_rejected = int (length drafts) + 1 - int (length generated)
          in rbind (make_spec_decoding_stats s st (length drafts) (int (length generated) - 1))
               (\<lambda>st'. Inr (upd_obj rid (\<lambda>r. r\<lparr>num_computed_tokens := num_computed_tokens r - num_tokens_rejected\<rparr>) s, st'))
      | _ \<Rightarrow> Inr (s, st))"

text \<open>Encoder outputs that are in the decoder's KV cache are freed.\<close>

definition free_processed_inputs :: "request \<Rightarrow> encoder_cache \<Rightarrow> encoder_cache result" where
  "free_processed_inputs r e =
     rfold (\<lambda>i e. rbind (py_get (mm_positions r) i) (\<lambda>pos.
              if offset pos + plen pos \<le> num_computed_tokens r then free_encoder_input r i e else Inr e))
       (get_cached_input_ids r e) e"

text \<open>
  The generated tokens are appended one by one until the stop check fires. The result is whether it
  fired and how many tokens were appended.
\<close>

fun append_tokens :: "string \<Rightarrow> int list \<Rightarrow> nat \<Rightarrow> scheduler \<Rightarrow> (bool \<times> nat \<times> scheduler) result" where
  "append_tokens rid [] n s = Inr (False, n, s)"
| "append_tokens rid (t # ts) n s =
     rbind (check_stop (append_output_token_ids [t] (objs s rid)) (sch_max_model_len s)) (\<lambda>(stopped, r).
       let s1 = upd_obj rid (\<lambda>_. r) s
       in if stopped then rbind (free_request rid s1) (\<lambda>s2. Inr (True, Suc n, s2))
          else append_tokens rid ts (Suc n) s1)"

definition emit_output ::
  "model_runner_output \<Rightarrow> string \<Rightarrow> int list \<Rightarrow> scheduler \<Rightarrow> engine_core_output list \<Rightarrow> (scheduler \<times> engine_core_output list) result" where
  "emit_output mo rid new_tokens s outs =
     (if new_tokens \<noteq> []
      then case take_events (objs s rid) of (evs, r) \<Rightarrow>
        Inr (upd_obj rid (\<lambda>_. r) s,
             outs @ [\<lparr>eco_request_id = rid, eco_new_token_ids = new_tokens, eco_finish_reason = get_finished_reason r,
                      eco_stop_reason = stop_reason r, eco_events = evs\<rparr>])
      else if rid \<in> set (prompt_logprobs_ids mo) then Inl AssertionError
      else Inr (s, outs))"

text \<open>The body of the loop over the running requests.\<close>

definition update_request ::
  "scheduler_output \<Rightarrow> model_runner_output \<Rightarrow> string \<Rightarrow>
   scheduler \<times> string list \<times> engine_core_output list \<times> spec_decoding_stats option \<Rightarrow>
   (scheduler \<times> string list \<times> engine_core_output list \<times> spec_decoding_stats option) result" where
  "update_request so mo rid = (\<lambda>(s, new_running, outs, st).
     case map_of (out_num_scheduled_tokens so) rid of
       None \<Rightarrow> Inr (s, new_running @ [rid], outs, st)
     | Some n \<Rightarrow>
       if n = 0 then Inr (s, new_running @ [rid], outs, st)
       else rbind (lookup_dict (req_id_to_index mo) rid) (\<lambda>i.
         rbind (py_get (sampled_token_ids mo) i) (\<lambda>generated.
         rbind (reject_drafts so rid generated s st) (\<lambda>(s1, st1).
         rbind (free_processed_inputs (objs s1 rid) (encoder_cache_manager s1)) (\<lambda>e.
         rbind (case mro_spec_token_ids mo of None \<Rightarrow> Inr (s1\<lparr>encoder_cache_manager := e\<rparr>)
                | Some sp \<Rightarrow> rbind (py_get sp i) (\<lambda>ts. Inr (upd_obj rid (\<lambda>r. r\<lparr>spec_token_ids := ts\<rparr>) (s1\<lparr>encoder_cache_manager := e\<rparr>)))) (\<lambda>s2.
         rbind (append_tokens rid generated 0 s2) (\<lambda>(stopped, k, s3).
         rbind (emit_output mo rid (take k generated) s3 outs) (\<lambda>(s4, outs').
           Inr (s4, if stopped then new_running else new_running @ [rid], outs', st1)))))))))"

definition return_cached_data :: "cached_request_data list \<Rightarrow> scheduler \<Rightarrow> scheduler" where
  "return_cached_data ds s =
     fold (\<lambda>d s. if crd_req_id d \<in> set (finished_req_ids s) then s
                 else s\<lparr>cached_reqs_data := (cached_reqs_data s)(crd_req_id d := cached_reqs_data s (crd_req_id d) @ [d])\<rparr>) ds s"

definition update_from_output ::
  "scheduler_output \<Rightarrow> model_runner_output \<Rightarrow> scheduler \<Rightarrow> (engine_core_outputs \<times> scheduler) result" where
  "update_from_output so mo s =
     rbind (rfold (update_request so mo) (running s) (s, [], [], None)) (\<lambda>(s1, new_running, outs, st).
       let s2 = (return_cached_data (scheduled_cached_reqs so) s1)\<lparr>running := new_running\<rparr>
       in rbind (make_stats s2 st) (\<lambda>(stats, s3).
            Inr (\<lparr>outputs = outs, scheduler_stats_of = stats,
                  finished_requests = (if include_finished_set s3
                    then Some (remdups (out_finished_req_ids so @ finished_req_ids s3)) else None)\<rparr>, s3)))"

end
