(* ===== verification/Scheduler_Invariants.thy ===== *)
theory Scheduler_Invariants
  imports Scheduler
begin

text \<open>
  Invariants of the scheduler: its queues, the KV cache manager and the encoder cache it drives.
\<close>

section \<open>Queues\<close>

definition waiting_status :: "request_status \<Rightarrow> bool" where
  "waiting_status st \<longleftrightarrow> st = WAITING \<or> st = WAITING_FOR_FSM \<or> st = PREEMPTED"

text \<open>Every known request is in exactly one queue, with the status of that queue.\<close>

definition queues_ok :: "scheduler \<Rightarrow> bool" where
  "queues_ok s \<longleftrightarrow> distinct (running s @ waiting s) \<and> distinct (requests s) \<and> set (requests s) = set (running s @ waiting s) \<and>
     (\<forall>rid \<in> set (running s). status (objs s rid) = RUNNING) \<and>
     (\<forall>rid \<in> set (waiting s). waiting_status (status (objs s rid))) \<and>
     (\<forall>rid \<in> set (requests s). request_id (objs s rid) = rid)"

text \<open>Only queues, request objects and the two caches change while requests are scheduled.\<close>

definition same_config :: "scheduler \<Rightarrow> scheduler \<Rightarrow> bool" where
  "same_config s s' \<longleftrightarrow> max_num_running_reqs s' = max_num_running_reqs s \<and> max_num_scheduled_tokens s' = max_num_scheduled_tokens s \<and>
     requests s' = requests s \<and> finished_req_ids s' = finished_req_ids s \<and> cached_reqs_data s' = cached_reqs_data s"

lemma same_config_refl [simp]: "same_config s s"
  by (simp add: same_config_def)

lemma same_config_trans: "same_config s t \<Longrightarrow> same_config t u \<Longrightarrow> same_config s u"
  by (simp add: same_config_def)

lemma queues_ok_caches [simp]:
  "queues_ok (s\<lparr>kvm := m\<rparr>) = queues_ok s" "queues_ok (s\<lparr>encoder_cache_manager := e\<rparr>) = queues_ok s"
  "same_config s (s\<lparr>kvm := m\<rparr>)" "same_config s (s\<lparr>encoder_cache_manager := e\<rparr>)"
  "same_config (s\<lparr>kvm := m\<rparr>) t = same_config s t"
  by (simp_all add: queues_ok_def same_config_def)

lemma queues_ok_upd:
  assumes "queues_ok s" "\<And>r. status (f r) = status r" "\<And>r. request_id (f r) = request_id r"
  shows "queues_ok (upd_obj rid f s)"
  using assms by (auto simp: queues_ok_def upd_obj_def)

lemma preempt_last_cases:
  assumes "preempt_last s = Inr (p, s')"
  obtains r m where "s' = s\<lparr>objs := (objs s)(p := r), running := butlast (running s), kvm := m, waiting := p # waiting s\<rparr>"
    "running s = butlast (running s) @ [p]" "status r = PREEMPTED" "request_id r = request_id (objs s p)"
    "mm_positions r = mm_positions (objs s p)" "kvm_free (objs s p) (kvm s) = Inr m"
proof -
  have ne: "running s \<noteq> []" and p: "p = last (running s)"
    using assms by (auto simp: preempt_last_def Let_def split: if_splits)
  define r where "r = (let r1 = (objs s p)\<lparr>status := PREEMPTED, num_computed_tokens := 0\<rparr>
    in if sch_log_stats s then record_event PREEMPTED_EV r1 else r1)"
  obtain m where "kvm_free (objs s p) (kvm s) = Inr m"
    "s' = s\<lparr>objs := (objs s)(p := r), running := butlast (running s), kvm := m, waiting := p # waiting s\<rparr>"
    using assms ne p by (auto simp: preempt_last_def upd_obj_def r_def Let_def)
  then show ?thesis using that [where r = r and m = m] ne p by (simp add: r_def record_event_def Let_def)
qed

lemma preempt_last_ok:
  assumes "preempt_last s = Inr (p, s')" "queues_ok s"
  shows "queues_ok s'" "same_config s s'" "running s = running s' @ [p]" "waiting s' = p # waiting s"
proof -
  obtain r m where s': "s' = s\<lparr>objs := (objs s)(p := r), running := butlast (running s), kvm := m, waiting := p # waiting s\<rparr>"
    and run: "running s = butlast (running s) @ [p]" and r: "status r = PREEMPTED" "request_id r = request_id (objs s p)"
    by (rule preempt_last_cases [OF assms(1)])
  define ys where "ys = butlast (running s)"
  have rs: "running s = ys @ [p]" using run by (simp add: ys_def)
  show "running s = running s' @ [p]" "waiting s' = p # waiting s" using rs by (simp_all add: s' ys_def)
  show "same_config s s'" by (simp add: s' same_config_def)
  show "queues_ok s'"
    using assms(2) r unfolding s' ys_def [symmetric] by (auto simp: queues_ok_def rs waiting_status_def)
qed

text \<open>The preemption loop moves requests from the end of the running to the head of the waiting queue.\<close>

lemma allocate_or_preempt_ok:
  assumes "allocate_or_preempt hf nh rid n pre s = Inr (res, pre', s')" "queues_ok s" "rid \<in> set (running s)"
  shows "\<exists>qs. pre' = pre @ qs \<and> running s = running s' @ rev qs \<and> waiting s' = rev qs @ waiting s \<and> queues_ok s' \<and> same_config s s' \<and>
    (case res of None \<Rightarrow> qs \<noteq> [] \<and> last qs = rid | Some _ \<Rightarrow> rid \<in> set (running s'))"
  using assms
proof (induction hf nh rid n pre s arbitrary: res pre' s' rule: allocate_or_preempt.induct)
  case (1 hf nh rid n pre s)
  define k where "k = (\<lambda>(res, m). case res of
          Some blocks \<Rightarrow> Inr (Some blocks, pre, s\<lparr>kvm := m\<rparr>)
        | None \<Rightarrow> rbind (preempt_last (s\<lparr>kvm := m\<rparr>)) (\<lambda>(p, s2).
            if p = rid then Inr (None, pre @ [p], s2)
            else allocate_or_preempt hf nh rid n (pre @ [p]) s2))"
  have run: "rbind (allocate_slots hf nh (objs s rid) n [] (num_lookahead_tokens s) (kvm s)) k = Inr (res, pre', s')"
    using "1.prems"(1) unfolding allocate_or_preempt.simps [of hf nh rid n pre s] k_def .
  then obtain y where y: "allocate_slots hf nh (objs s rid) n [] (num_lookahead_tokens s) (kvm s) = Inr y" and ky: "k y = Inr (res, pre', s')"
    by auto
  obtain x m where xm: "y = (x, m)" by (cases y)
  show ?case
  proof (cases x)
    case None
    obtain p s2 where p: "preempt_last (s\<lparr>kvm := m\<rparr>) = Inr (p, s2)"
      and rest: "(if p = rid then Inr (None, pre @ [p], s2) else allocate_or_preempt hf nh rid n (pre @ [p]) s2) = Inr (res, pre', s')"
      using ky unfolding k_def xm None by auto
    have ok: "queues_ok (s\<lparr>kvm := m\<rparr>)" using "1.prems"(2) by simp
    note ps = preempt_last_ok [OF p ok]
    have s: "same_config s s2" "running s = running s2 @ [p]" "waiting s2 = p # waiting s" using ps by simp_all
    show ?thesis
    proof (cases "p = rid")
      case True
      then show ?thesis using rest ps(1) s by (intro exI [of _ "[p]"]) auto
    next
      case False
      have "rid \<in> set (running s2)" using "1.prems"(3) s(2) False by auto
      moreover have "allocate_or_preempt hf nh rid n (pre @ [p]) s2 = Inr (res, pre', s')" using rest False by simp
      ultimately obtain qs where "pre' = (pre @ [p]) @ qs" "running s2 = running s' @ rev qs" "waiting s' = rev qs @ waiting s2"
        "queues_ok s'" "same_config s2 s'" "(case res of None \<Rightarrow> qs \<noteq> [] \<and> last qs = rid | Some _ \<Rightarrow> rid \<in> set (running s'))"
        using "1.IH" [OF y xm [symmetric] None p refl False _ ps(1)] by blast
      then show ?thesis using s same_config_trans [OF s(1)]
        by (intro exI [of _ "p # qs"]) (auto split: option.splits)
    qed
  next
    case (Some blocks)
    then show ?thesis using ky "1.prems"(2,3) by (intro exI [of _ "[]"]) (auto simp: k_def xm)
  qed
qed

lemma schedule_spec_tokens_cases:
  assumes "schedule_spec_tokens rid n (s, v) = (s', v')"
  obtains ts d where "s' = upd_obj rid (\<lambda>r. r\<lparr>spec_token_ids := ts\<rparr>) s" "v' = v\<lparr>scheduled_spec_decode_tokens := d\<rparr>"
proof (cases "spec_token_ids (objs s rid) \<noteq> [] \<and> n + num_computed_tokens (objs s rid) - int (num_tokens (objs s rid)) > 0")
  case True
  then show ?thesis using assms that by (auto simp: schedule_spec_tokens_def Let_def)
next
  case False
  then have "s' = s" "v' = v" using assms unfolding schedule_spec_tokens_def Let_def prod.case by (auto split: if_splits)
  moreover have "s = upd_obj rid (\<lambda>r. r\<lparr>spec_token_ids := spec_token_ids (objs s rid)\<rparr>) s" by (simp add: upd_obj_def)
  ultimately show ?thesis using that [of "spec_token_ids (objs s rid)" "scheduled_spec_decode_tokens v"] by simp
qed

lemma encoder_inputs_loop_le:
  "encoder_inputs_loop dis e r computed ps i num_new budget acc = Inr (inputs, n, nb) \<Longrightarrow> n \<le> max num_new 0"
proof (induction dis e r computed ps i num_new budget acc rule: encoder_inputs_loop.induct)
  case (2 dis e r computed pos ps i num_new budget acc)
  then show ?case by (auto simp: Let_def split: if_splits)
qed auto

lemma try_schedule_encoder_inputs_le:
  "try_schedule_encoder_inputs s r computed num_new budget = Inr (inputs, n, nb) \<Longrightarrow> n \<le> max num_new 0"
  by (auto simp: try_schedule_encoder_inputs_def dest: encoder_inputs_loop_le split: if_splits)

lemma plan_running_le: "plan_running s v r = Inr (inputs, n, nb) \<Longrightarrow> 0 < token_budget v \<Longrightarrow> n \<le> token_budget v"
  by (auto simp: plan_running_def Let_def running_new_tokens_def dest!: try_schedule_encoder_inputs_le split: if_splits)

lemma plan_waiting_cases:
  assumes "plan_waiting hf nh ext s v r = Inr ((cb, computed, x), (inputs, n, nb), s0)"
  obtains m l num_new where "get_computed_blocks hf nh r (kvm s) = Inr ((cb, l), m)" "s0 = s\<lparr>kvm := m\<rparr>" "computed = l + x"
    "0 < num_new" "num_new \<le> token_budget v"
    "(if has_encoder_inputs r then try_schedule_encoder_inputs s0 r computed num_new (encoder_budget v)
      else Inr ([], num_new, encoder_budget v)) = Inr (inputs, n, nb)"
proof -
  obtain l m where g: "get_computed_blocks hf nh r (kvm s) = Inr ((cb, l), m)" "s0 = s\<lparr>kvm := m\<rparr>" "computed = l + x"
    and n: "\<not> min (cap_prefill s (int (num_tokens r) - computed)) (token_budget v) \<le> 0"
    and plan: "(if has_encoder_inputs r then try_schedule_encoder_inputs s0 r computed (min (cap_prefill s (int (num_tokens r) - computed)) (token_budget v)) (encoder_budget v)
      else Inr ([], min (cap_prefill s (int (num_tokens r) - computed)) (token_budget v), encoder_budget v)) = Inr (inputs, n, nb)"
    using assms by (auto simp: plan_waiting_def Let_def split: if_splits)
  show ?thesis by (rule that [OF g _ _ plan]) (use n in auto)
qed

lemma plan_waiting_le:
  assumes "plan_waiting hf nh ext s v r = Inr ((cb, computed, x), (inputs, n, nb), s0)"
  shows "n \<le> token_budget v"
  by (rule plan_waiting_cases [OF assms]) (auto dest!: try_schedule_encoder_inputs_le split: if_splits)

lemma update_fresh: "k \<notin> fst ` set d \<Longrightarrow> AList.update k x d = d @ [(k, x)]"
  by (induction d) auto

lemma nth_append_distinct:
  "distinct (xs @ ys) \<Longrightarrow> i < length (xs @ ys) \<Longrightarrow> (xs @ ys) ! i \<in> set xs \<longleftrightarrow> i < length xs"
  by (metis UnI2 disjoint_iff distinct_append length_append nat_add_left_cancel_less not_less nth_append nth_mem le_add_diff_inverse)

definition run_inv :: "scheduler \<Rightarrow> scheduler \<Rightarrow> sched_vars \<Rightarrow> bool" where
  "run_inv s0 s v \<longleftrightarrow> queues_ok s \<and> same_config s0 s \<and> running s0 = running s @ rev (v_preempted_reqs v) \<and>
     waiting s = rev (v_preempted_reqs v) @ waiting s0 \<and> map fst (num_scheduled_tokens v) = v_running_reqs v \<and>
     distinct (v_running_reqs v) \<and> set (v_running_reqs v) \<subseteq> set (take (req_index v) (running s)) \<and>
     token_budget v = max_num_scheduled_tokens s0 - total_scheduled v \<and> 0 \<le> token_budget v \<and>
     v_new_reqs v = [] \<and> v_resumed_reqs v = [] \<and> skipped_waiting v = []"

lemma run_inv_init: "queues_ok s \<Longrightarrow> 0 \<le> max_num_scheduled_tokens s \<Longrightarrow> run_inv s s (sched_vars_init s)"
  by (simp add: run_inv_def sched_vars_init_def total_scheduled_def)

lemma run_inv_step:
  assumes inv: "run_inv s0 s v" and idx: "req_index v < length (running s)" and bud: "0 < token_budget v"
    and step: "running_step hf nh s v = Inr (go, s', v')"
  shows "run_inv s0 s' v'"
proof -
  define i where "i = req_index v"
  define rid where "rid = running s ! i"
  have ok: "queues_ok s" and conf: "same_config s0 s" and rs: "set (v_running_reqs v) \<subseteq> set (take i (running s))"
    using inv by (simp_all add: run_inv_def i_def)
  have dist: "distinct (running s)" using ok by (simp add: queues_ok_def)
  have rid: "rid \<in> set (running s)" "rid \<notin> set (take i (running s))"
    using idx dist by (auto simp: rid_def i_def in_set_conv_nth nth_eq_iff_index_eq)
  have tk: "set (take i xs) \<subseteq> set (take (Suc i) xs)" for xs :: "string list" by (simp add: set_take_subset_set_take)
  from step show ?thesis
  proof (cases rule: running_step_cases)
    case (skip inputs nb)
    then show ?thesis using inv tk [of "running s"] by (auto simp: run_inv_def i_def total_scheduled_def)
  next
    case (preempted pre inputs n nb)
    obtain qs where qs: "pre = v_preempted_reqs v @ qs" "running s = running s' @ rev qs" "waiting s' = rev qs @ waiting s" "queues_ok s'"
      "same_config s s'" "qs \<noteq> []" "last qs = rid"
      using allocate_or_preempt_ok [OF preempted(4) ok rid(1) [unfolded rid_def i_def]] by (auto simp: rid_def i_def)
    have "rid \<notin> set (running s')" using dist qs(2,6,7) by (auto simp: last_in_set)
    then have "length (running s') \<le> i"
      using nth_append_distinct [of "running s'" "rev qs" i] dist idx unfolding qs(2) [symmetric] by (auto simp: i_def rid_def)
    then have "take i (running s) = running s' @ take (i - length (running s')) (rev qs)" using qs(2) by simp
    moreover have "i = length (running s')"
    proof -
      have "running s ! length (running s') = rid" using qs(2,6,7) by (simp add: nth_append rev_nth last_conv_nth)
      moreover have "length (running s') < length (running s)" using qs(2,6) by simp
      ultimately show ?thesis using dist idx by (simp add: rid_def nth_eq_iff_index_eq i_def)
    qed
    ultimately have "take i (running s) = take i (running s')" by simp
    then show ?thesis using inv qs same_config_trans [OF conf qs(5)] preempted(5) by (auto simp: run_inv_def i_def total_scheduled_def)
  next
    case (scheduled inputs n nb pre blocks s1 v1)
    obtain qs where qs: "pre = v_preempted_reqs v @ qs" "running s = running s1 @ rev qs" "waiting s1 = rev qs @ waiting s" "queues_ok s1"
      "same_config s s1" "rid \<in> set (running s1)"
      using allocate_or_preempt_ok [OF scheduled(4) ok rid(1) [unfolded rid_def i_def]] by (auto simp: rid_def i_def)
    have lt: "i < length (running s1)"
      using nth_append_distinct [of "running s1" "rev qs" i] dist idx qs(6) unfolding qs(2) [symmetric] by (simp add: i_def rid_def)
    then have nth: "running s1 ! i = rid" and tk1: "take i (running s) = take i (running s1)"
      using qs(2) by (simp_all add: rid_def nth_append)
    obtain s2 v2 where sv: "schedule_spec_tokens rid n (s1, v1) = (s2, v2)" by (metis surj_pair)
    obtain ts d0 where s2: "s2 = upd_obj rid (\<lambda>r. r\<lparr>spec_token_ids := ts\<rparr>) s1" and v2: "v2 = v1\<lparr>scheduled_spec_decode_tokens := d0\<rparr>"
      by (rule schedule_spec_tokens_cases [OF sv])
    have q2: "queues_ok s2" unfolding s2 by (rule queues_ok_upd [OF qs(4)]) simp_all
    have q3: "same_config s1 s2" "running s2 = running s1" "waiting s2 = waiting s1" by (simp_all add: s2 upd_obj_def same_config_def)
    obtain e d b where s': "s' = s2\<lparr>encoder_cache_manager := e\<rparr>" and v': "v' = v2\<lparr>scheduled_encoder_inputs := d, encoder_budget := b\<rparr>"
      by (rule allocate_encoder_inputs_cases [OF scheduled(6) [folded i_def, folded rid_def, unfolded sv]])
    have "rid \<notin> fst ` set (num_scheduled_tokens v)"
      using inv rs rid(2) by (metis image_set in_mono run_inv_def)
    then have upd: "num_scheduled_tokens v' = num_scheduled_tokens v @ [(rid, n)]"
      by (simp add: v' v2 scheduled(5) record_scheduled_def update_fresh rid_def i_def)
    have "n \<le> token_budget v" using plan_running_le [OF scheduled(1) bud] .
    moreover have "same_config s0 s'" using same_config_trans [OF conf same_config_trans [OF qs(5) q3(1)]] by (simp add: s' same_config_def)
    moreover have "set (v_running_reqs v @ [rid]) \<subseteq> set (take (Suc i) (running s1))"
      using rs lt nth tk1 by (auto simp: take_Suc_conv_app_nth)
    moreover have "rid \<notin> set (v_running_reqs v)" using rs rid(2) by auto
    moreover have "v_running_reqs v' = v_running_reqs v @ [rid]" "v_preempted_reqs v' = pre" "req_index v' = Suc i" "token_budget v' = token_budget v - n"
      "v_new_reqs v' = v_new_reqs v" "v_resumed_reqs v' = v_resumed_reqs v" "skipped_waiting v' = skipped_waiting v"
      by (simp_all add: v' v2 scheduled(5) record_scheduled_def rid_def i_def)
    moreover have "queues_ok s'" "running s' = running s1" "waiting s' = waiting s1" using q2 q3 by (simp_all add: s')
    ultimately show ?thesis using inv qs(1-3) upd unfolding run_inv_def total_scheduled_def by simp
  qed
qed

lemma run_inv_loop: "run_inv s0 s v \<Longrightarrow> running_loop hf nh s v = Inr (s', v') \<Longrightarrow> run_inv s0 s' v'"
proof (induction hf nh s v rule: running_loop.induct)
  case (1 hf nh s v)
  show ?case
  proof (cases "req_index v < length (running s) \<and> token_budget v > 0")
    case True
    then obtain go s1 v1 where step: "running_step hf nh s v = Inr (go, s1, v1)"
      and rest: "(if go then running_loop hf nh s1 v1 else Inr (s1, v1)) = Inr (s', v')"
      using "1.prems"(2) unfolding running_loop.simps [of hf nh s v] by auto
    have "run_inv s0 s1 v1" using run_inv_step [OF "1.prems"(1) _ _ step] True by blast
    then show ?thesis using "1.IH" [OF True step refl refl] rest by (cases go) auto
  next
    case False
    then show ?thesis using "1.prems" unfolding running_loop.simps [of hf nh s v] by auto
  qed
qed

text \<open>The state with the skipped requests put back, as after the loop.\<close>

definition put_back :: "scheduler \<Rightarrow> sched_vars \<Rightarrow> scheduler" where
  "put_back s v = s\<lparr>waiting := rev (skipped_waiting v) @ waiting s\<rparr>"

definition fsm_ready :: "scheduler \<Rightarrow> scheduler" where
  "fsm_ready s = (if status (objs s (hd (waiting s))) = WAITING_FOR_FSM
     then upd_obj (hd (waiting s)) (\<lambda>r. r\<lparr>status := WAITING\<rparr>) s else s)"

lemma fsm_ready_frame [simp]:
  "waiting (fsm_ready s) = waiting s" "running (fsm_ready s) = running s" "kvm (fsm_ready s) = kvm s"
  "encoder_cache_manager (fsm_ready s) = encoder_cache_manager s" "same_config s (fsm_ready s)"
  "mm_positions (objs (fsm_ready s) rid) = mm_positions (objs s rid)"
  "max_num_running_reqs (fsm_ready s) = max_num_running_reqs s"
  by (auto simp: fsm_ready_def upd_obj_def same_config_def)

lemma waiting_step_cases:
  assumes "waiting_step hf nh ext s v = Inr (go, s', v')"
  obtains (full) "\<not> go" "s' = s" "v' = v"
  | (skip) t where "t = s \<or> t = fsm_ready s" "go" "s' = t\<lparr>waiting := tl (waiting t)\<rparr>"
      "v' = v\<lparr>skipped_waiting := hd (waiting s) # skipped_waiting v\<rparr>"
  | (schedule) "length (running s) \<noteq> max_num_running_reqs s" "schedule_waiting hf nh ext (fsm_ready s) v = Inr (go, s', v')"
proof -
  have q: "(if length (running s) = max_num_running_reqs s then Inr (False, s, v)
      else if status (objs s (hd (waiting s))) = WAITING_FOR_FSM \<and> \<not> grammar_ready (objs s (hd (waiting s))) then Inr (skip_waiting s v)
      else if lora_blocked (fsm_ready s) v (objs (fsm_ready s) (hd (waiting s))) then Inr (skip_waiting (fsm_ready s) v)
      else schedule_waiting hf nh ext (fsm_ready s) v) = Inr (go, s', v')"
    using assms unfolding waiting_step_def Let_def fsm_ready_def .
  consider "\<not> go" "s' = s" "v' = v" | "skip_waiting s v = (go, s', v')" | "skip_waiting (fsm_ready s) v = (go, s', v')"
    | "length (running s) \<noteq> max_num_running_reqs s" "schedule_waiting hf nh ext (fsm_ready s) v = Inr (go, s', v')"
    using q
    by (cases "length (running s) = max_num_running_reqs s"; cases "lora_blocked (fsm_ready s) v (objs (fsm_ready s) (hd (waiting s)))";
        cases "status (objs s (hd (waiting s))) = WAITING_FOR_FSM \<and> \<not> grammar_ready (objs s (hd (waiting s)))") (simp_all only: if_True if_False sum.inject prod.inject simp_thms)
  then show ?thesis
  proof cases
    case 1
    then show ?thesis by (rule full)
  next
    case 2
    show ?thesis by (rule skip [of s]) (use 2 in \<open>simp_all add: skip_waiting_def\<close>)
  next
    case 3
    show ?thesis by (rule skip [of "fsm_ready s"]) (use 3 in \<open>simp_all add: skip_waiting_def\<close>)
  next
    case 4
    then show ?thesis by (rule schedule)
  qed
qed

lemma fsm_ready_put_back:
  assumes "queues_ok (put_back s v)" "waiting s \<noteq> []"
  shows "queues_ok (put_back (fsm_ready s) v)"
proof (cases "status (objs s (hd (waiting s))) = WAITING_FOR_FSM")
  case True
  have "hd (waiting s) \<in> set (waiting s)" using assms(2) by simp
  then have "hd (waiting s) \<notin> set (running s)" using assms(1) by (auto simp: queues_ok_def put_back_def)
  then show ?thesis using assms(1) True by (auto simp: queues_ok_def put_back_def fsm_ready_def upd_obj_def waiting_status_def)
qed (use assms in \<open>simp add: fsm_ready_def\<close>)

text \<open>
  The invariant of the second loop, with \<open>adm\<close> the admitted requests in order: they run behind the
  others, and what still waits keeps the order of the queue.
\<close>

definition wait_inv :: "scheduler \<Rightarrow> sched_vars \<Rightarrow> scheduler \<Rightarrow> sched_vars \<Rightarrow> string list \<Rightarrow> bool" where
  "wait_inv s1 v1 s v adm \<longleftrightarrow> queues_ok (put_back s v) \<and> same_config s1 s \<and> running s = running s1 @ adm \<and>
     (\<exists>past. waiting s1 = past @ waiting s \<and> rev (skipped_waiting v) = filter (\<lambda>x. x \<notin> set adm) past \<and> set adm \<subseteq> set past) \<and>
     length (running s) \<le> max_num_running_reqs s1 \<and>
     map fst (num_scheduled_tokens v) = v_running_reqs v1 @ adm \<and> v_running_reqs v = v_running_reqs v1 \<and>
     v_preempted_reqs v = v_preempted_reqs v1 \<and> length (v_new_reqs v) + length (v_resumed_reqs v) = length adm \<and>
     token_budget v = max_num_scheduled_tokens s1 - total_scheduled v \<and> 0 \<le> token_budget v"

lemma wait_inv_skip:
  assumes inv: "wait_inv s1 v1 s v adm" and ne: "waiting s \<noteq> []" and t: "t = s \<or> t = fsm_ready s"
  shows "wait_inv s1 v1 (t\<lparr>waiting := tl (waiting t)\<rparr>) (v\<lparr>skipped_waiting := hd (waiting s) # skipped_waiting v\<rparr>) adm"
proof -
  have tw: "waiting t = waiting s" "running t = running s" "same_config s t" using t by auto
  have ok: "queues_ok (put_back t v)" using t inv fsm_ready_put_back [OF _ ne] by (auto simp: wait_inv_def)
  obtain w ws where w: "waiting s = w # ws" using ne by (cases "waiting s") auto
  obtain past where past: "waiting s1 = past @ w # ws" "rev (skipped_waiting v) = filter (\<lambda>x. x \<notin> set adm) past" "set adm \<subseteq> set past"
    using inv w by (auto simp: wait_inv_def)
  have "w \<notin> set (running s)" using ok tw w by (auto simp: queues_ok_def put_back_def)
  then have "w \<notin> set adm" using inv by (auto simp: wait_inv_def)
  then have "\<exists>past. waiting s1 = past @ ws \<and> rev (w # skipped_waiting v) = filter (\<lambda>x. x \<notin> set adm) past \<and> set adm \<subseteq> set past"
    using past by (intro exI [of _ "past @ [w]"]) auto
  moreover have "put_back (t\<lparr>waiting := tl (waiting t)\<rparr>) (v\<lparr>skipped_waiting := w # skipped_waiting v\<rparr>) = put_back t v"
    by (simp add: put_back_def tw w)
  moreover have "same_config s1 (t\<lparr>waiting := tl (waiting t)\<rparr>)"
    using inv tw(3) by (auto simp: wait_inv_def same_config_def)
  moreover have "length (running t) \<le> max_num_running_reqs s1" using inv unfolding wait_inv_def tw(2) by metis
  ultimately show ?thesis
    using inv tw w ok unfolding wait_inv_def total_scheduled_def w list.sel by (intro conjI) simp_all
qed

lemma wait_inv_admit:
  assumes inv: "wait_inv s1 v1 s v adm" and ne: "waiting s \<noteq> []" and dist: "set (v_running_reqs v1) \<subseteq> set (running s1)"
    and room: "length (running s) \<noteq> max_num_running_reqs s" and n: "n \<le> token_budget v"
    and adm: "admit (hd (waiting s)) blocks computed n inputs nb ((fsm_ready s)\<lparr>kvm := m\<rparr>) v = Inr (s', v')"
  shows "wait_inv s1 v1 s' v' (adm @ [hd (waiting s)])"
proof -
  obtain w ws where w: "waiting s = w # ws" using ne by (cases "waiting s") auto
  define t where "t = fsm_ready s"
  have ok: "queues_ok (put_back t v)" using inv fsm_ready_put_back [OF _ ne] by (auto simp: wait_inv_def t_def)
  have tw: "waiting t = w # ws" "running t = running s" "same_config s t" by (simp_all add: t_def w)
  define u where "u = t\<lparr>kvm := m\<rparr>"
  obtain e r' where s': "s' = u\<lparr>waiting := tl (waiting u), running := running u @ [w], objs := (objs u)(w := r'), encoder_cache_manager := e\<rparr>"
    and r': "status r' = RUNNING" "request_id r' = request_id (objs u w)"
    and cls: "status (objs u w) = WAITING \<and> v_new_reqs v' = v_new_reqs v @ [w] \<and> v_resumed_reqs v' = v_resumed_reqs v \<or>
      status (objs u w) = PREEMPTED \<and> v_new_reqs v' = v_new_reqs v \<and> v_resumed_reqs v' = v_resumed_reqs v @ [w]"
    and v': "v_running_reqs v' = v_running_reqs v" "v_preempted_reqs v' = v_preempted_reqs v" "skipped_waiting v' = skipped_waiting v"
      "num_scheduled_tokens v' = AList.update w n (num_scheduled_tokens v)" "token_budget v' = token_budget v - n"
    by (rule admit_cases [OF adm [unfolded w list.sel, folded t_def, folded u_def]])
  have u: "waiting u = w # ws" "running u = running s" "objs u = objs t" "requests u = requests t" "same_config t u"
    using tw by (simp_all add: u_def)
  have lens: "length (v_new_reqs v') + length (v_resumed_reqs v') = Suc (length (v_new_reqs v) + length (v_resumed_reqs v))"
    using cls by auto
  obtain past where past: "waiting s1 = past @ w # ws" "rev (skipped_waiting v) = filter (\<lambda>x. x \<notin> set adm) past" "set adm \<subseteq> set past"
    using inv w by (auto simp: wait_inv_def)
  have fresh: "w \<notin> set (running s)" "w \<notin> set ws" "w \<notin> set (skipped_waiting v)" using ok tw by (auto simp: queues_ok_def put_back_def)
  have run: "running s = running s1 @ adm" using inv by (simp add: wait_inv_def)
  have "w \<notin> set (v_running_reqs v1 @ adm)" using fresh(1) dist run by auto
  then have "w \<notin> fst ` set (num_scheduled_tokens v)" using inv by (metis image_set wait_inv_def)
  then have upd: "num_scheduled_tokens v' = num_scheduled_tokens v @ [(w, n)]" using v'(4) by (simp add: update_fresh)
  have "w \<notin> set past"
  proof
    assume "w \<in> set past"
    then have "w \<in> set (filter (\<lambda>x. x \<notin> set adm) past)" using \<open>w \<notin> set (v_running_reqs v1 @ adm)\<close> by simp
    then show False using fresh(3) past(2) [symmetric] by simp
  qed
  then have "filter (\<lambda>x. x \<notin> set (adm @ [w])) (past @ [w]) = filter (\<lambda>x. x \<notin> set adm) past"
    by (auto intro: filter_cong)
  then have "\<exists>past. waiting s1 = past @ ws \<and> rev (skipped_waiting v) = filter (\<lambda>x. x \<notin> set (adm @ [w])) past \<and> set (adm @ [w]) \<subseteq> set past"
    using past by (intro exI [of _ "past @ [w]"]) auto
  moreover have "queues_ok (put_back s' v')"
    using ok r' fresh tw u unfolding s' queues_ok_def put_back_def by (auto simp: v'(3))
  moreover have "same_config s1 s'" using inv tw(3) u(5) by (simp add: wait_inv_def same_config_def s')
  moreover have "length (running s') \<le> max_num_running_reqs s1"
    using inv room u(2) by (auto simp: wait_inv_def s' same_config_def)
  ultimately show ?thesis
    using inv upd v' lens n run u unfolding wait_inv_def total_scheduled_def by (simp add: s' w)
qed

lemma wait_inv_step:
  assumes inv: "wait_inv s1 v1 s v adm" and ne: "waiting s \<noteq> []" and dist: "set (v_running_reqs v1) \<subseteq> set (running s1)"
    and step: "waiting_step hf nh ext s v = Inr (go, s', v')"
  shows "\<exists>adm'. wait_inv s1 v1 s' v' adm'"
  using step
proof (cases rule: waiting_step_cases)
  case full
  then show ?thesis using inv by auto
next
  case (skip t)
  then show ?thesis using wait_inv_skip [OF inv ne] by auto
next
  case schedule
  from schedule(2) show ?thesis
  proof (cases rule: schedule_waiting_cases)
    case (stop m)
    have "put_back ((fsm_ready s)\<lparr>kvm := m\<rparr>) v = (put_back (fsm_ready s) v)\<lparr>kvm := m\<rparr>" by (simp add: put_back_def)
    then have "queues_ok (put_back s' v')" using fsm_ready_put_back [OF _ ne, of v] inv stop by (simp add: wait_inv_def)
    moreover have "same_config s1 (fsm_ready s)" by (rule same_config_trans [of _ s]) (use inv in \<open>simp_all add: wait_inv_def\<close>)
    then have "same_config s1 s'" by (simp add: stop same_config_def)
    moreover have st: "running s' = running s" "waiting s' = waiting s" "v' = v" using stop by simp_all
    moreover have "length (running s') \<le> max_num_running_reqs s1" using inv unfolding wait_inv_def st(1) by metis
    ultimately have "wait_inv s1 v1 s' v' adm" using inv unfolding wait_inv_def by simp
    then show ?thesis by blast
  next
    case (admitted cb computed x inputs n nb s0 blocks m)
    have adm: "admit (hd (waiting s)) (cb @ blocks) computed n inputs nb ((fsm_ready s)\<lparr>kvm := m\<rparr>) v = Inr (s', v')"
      using admitted(5) by simp
    show ?thesis using wait_inv_admit [OF inv ne dist schedule(1) plan_waiting_le [OF admitted(2)] adm] by blast
  qed
qed

lemma wait_inv_loop:
  "wait_inv s1 v1 s v adm \<Longrightarrow> set (v_running_reqs v1) \<subseteq> set (running s1) \<Longrightarrow> waiting_loop hf nh ext s v = Inr (s', v') \<Longrightarrow>
   \<exists>adm'. wait_inv s1 v1 s' v' adm'"
proof (induction hf nh ext s v arbitrary: adm rule: waiting_loop.induct)
  case (1 hf nh ext s v)
  show ?case
  proof (cases "waiting s \<noteq> [] \<and> token_budget v > 0")
    case True
    then obtain go s2 v2 where step: "waiting_step hf nh ext s v = Inr (go, s2, v2)"
      and rest: "(if go then waiting_loop hf nh ext s2 v2 else Inr (s2, v2)) = Inr (s', v')"
      using "1.prems"(3) unfolding waiting_loop.simps [of hf nh ext s v] by auto
    obtain adm' where "wait_inv s1 v1 s2 v2 adm'" using wait_inv_step [OF "1.prems"(1) _ "1.prems"(2) step] True by blast
    then show ?thesis using "1.IH" [OF True step refl refl _ _ "1.prems"(2)] rest by (cases go) auto
  next
    case False
    then show ?thesis using "1.prems" unfolding waiting_loop.simps [of hf nh ext s v] by auto
  qed
qed

text \<open>
  The result of both loops: which requests were preempted and admitted, what was scheduled, and the
  queues afterwards.
\<close>

lemma schedule_loops_result:
  assumes "schedule_loops hf nh ext s = Inr (s', v)" and ok: "queues_ok s"
    and len: "length (running s) \<le> max_num_running_reqs s" and nonneg: "0 \<le> max_num_scheduled_tokens s"
  obtains pre kept adm where "running s = kept @ rev pre" "running s' = kept @ adm" "v_preempted_reqs v = pre"
    "pre = [] \<or> adm = []" "set adm \<subseteq> set (waiting s)" "waiting s' = rev pre @ filter (\<lambda>x. x \<notin> set adm) (waiting s)"
    "map fst (num_scheduled_tokens v) = v_running_reqs v @ adm" "distinct (v_running_reqs v)" "set (v_running_reqs v) \<subseteq> set kept"
    "length (v_new_reqs v) + length (v_resumed_reqs v) = length adm" "length (running s') \<le> max_num_running_reqs s"
    "token_budget v = max_num_scheduled_tokens s - total_scheduled v" "0 \<le> token_budget v" "queues_ok s'" "same_config s s'"
proof -
  obtain s1 v1 v2 s3 v3 where a: "running_loop hf nh s (sched_vars_init s) = Inr (s1, v1)" and b: "record_loras s1 v1 = Inr v2"
    and c: "(if v_preempted_reqs v2 = [] then waiting_loop hf nh ext s1 v2 else Inr (s1, v2)) = Inr (s3, v)"
    and s': "s' = put_back s3 v" and v3: "v3 = v"
    using assms(1) unfolding schedule_loops_def put_back_def by auto
  have run: "run_inv s s1 v1" by (rule run_inv_loop [OF run_inv_init [OF ok nonneg] a])
  obtain ls where v2: "v2 = v1\<lparr>scheduled_loras := ls\<rparr>"
  proof (cases "max_loras s1")
    case None
    then have "v2 = v1\<lparr>scheduled_loras := scheduled_loras v1\<rparr>" using b by (simp add: record_loras_def)
    then show ?thesis by (rule that)
  next
    case (Some k)
    then show ?thesis using b that by (auto simp: record_loras_def Let_def split: if_splits)
  qed
  have sub: "set (v_running_reqs v2) \<subseteq> set (running s1)" using run set_take_subset by (force simp: run_inv_def v2)
  have len1: "length (running s1) \<le> max_num_running_reqs s1" using run len by (auto simp: run_inv_def same_config_def)
  have pb: "put_back s1 v2 = s1" using run by (simp add: put_back_def run_inv_def v2)
  have start: "wait_inv s1 v2 s1 v2 []"
    using run len1 pb by (auto simp: wait_inv_def run_inv_def v2 total_scheduled_def same_config_def)
  obtain adm where w: "wait_inv s1 v2 s3 v adm" and adm: "v_preempted_reqs v2 = [] \<or> adm = []"
  proof (cases "v_preempted_reqs v2 = []")
    case True
    then have "waiting_loop hf nh ext s1 v2 = Inr (s3, v)" using c by simp
    then obtain adm where "wait_inv s1 v2 s3 v adm" using wait_inv_loop [OF start sub] by blast
    then show ?thesis using that True by blast
  next
    case False
    then show ?thesis using start c that [of "[]"] by auto
  qed
  obtain past where past: "waiting s1 = past @ waiting s3" "rev (skipped_waiting v) = filter (\<lambda>x. x \<notin> set adm) past" "set adm \<subseteq> set past"
    using w by (auto simp: wait_inv_def)
  define pre where "pre = v_preempted_reqs v2"
  have w1: "waiting s1 = rev pre @ waiting s" "running s = running s1 @ rev pre" using run by (simp_all add: run_inv_def v2 pre_def)
  have "queues_ok s1" using run by (simp add: run_inv_def)
  then have "distinct (waiting s1)" by (simp add: queues_ok_def)
  then have "filter (\<lambda>x. x \<notin> set adm) (waiting s3) = waiting s3" using past(1,3) by (auto simp: filter_id_conv)
  then have ws: "waiting s' = filter (\<lambda>x. x \<notin> set adm) (waiting s1)" by (simp add: s' put_back_def past(1,2))
  have ws': "waiting s' = rev pre @ filter (\<lambda>x. x \<notin> set adm) (waiting s)" using ws w1(1) adm by (auto simp: pre_def)
  have sa: "set adm \<subseteq> set (waiting s)" using adm past(1,3) w1(1) by (auto simp: pre_def)
  have r': "running s' = running s1 @ adm" "v_preempted_reqs v = pre" "v_running_reqs v = v_running_reqs v2"
    using w by (simp_all add: wait_inv_def s' put_back_def pre_def)
  have fin: "map fst (num_scheduled_tokens v) = v_running_reqs v @ adm" "length (v_new_reqs v) + length (v_resumed_reqs v) = length adm"
    "0 \<le> token_budget v" "queues_ok s'" using w r' by (simp_all add: wait_inv_def s')
  have conf: "same_config s s1" "same_config s1 s3" using run w by (simp_all add: run_inv_def wait_inv_def)
  have fin2: "token_budget v = max_num_scheduled_tokens s - total_scheduled v" "same_config s s'" "length (running s') \<le> max_num_running_reqs s"
    using w conf by (auto simp: wait_inv_def same_config_def s' put_back_def)
  have "distinct (v_running_reqs v)" "set (v_running_reqs v) \<subseteq> set (running s1)" using run sub r'(3) by (simp_all add: run_inv_def v2)
  moreover have "pre = [] \<or> adm = []" using adm by (simp add: pre_def)
  ultimately show ?thesis by (intro that [OF w1(2) r'(1,2) _ sa ws' fin(1) _ _ fin(2) fin2(3,1) fin(3,4) fin2(2)])
qed

end
