(* ===== verification/Scheduler_Safety.thy ===== *)
theory Scheduler_Safety
  imports Scheduler_Invariants
begin

text \<open>
  The scheduler drives its two caches only through the calls their invariants are proved for, and
  therefore keeps those invariants; the reachable states of the scheduler and their properties.
\<close>

section \<open>The caches during a step\<close>

definition positions :: "scheduler \<Rightarrow> string \<Rightarrow> placeholder_range list" where
  "positions s rid = mm_positions (objs s rid)"

definition caches_ok :: "hash_fn \<Rightarrow> int \<Rightarrow> scheduler \<Rightarrow> bool" where
  "caches_ok hf nh s \<longleftrightarrow> kvm_reachable hf nh (kvm s) \<and> encoder_ok (positions s) (encoder_cache_manager s) \<and>
     fst ` set (cached (encoder_cache_manager s)) \<subseteq> set (requests s)"

lemma caches_ok_kvm: "caches_ok hf nh s \<Longrightarrow> kvm_step hf nh (kvm s) m \<Longrightarrow> caches_ok hf nh (s\<lparr>kvm := m\<rparr>)"
  by (auto simp: caches_ok_def positions_def [abs_def] intro: kvm_reachable.reach_step)

lemma caches_ok_frame:
  assumes "caches_ok hf nh s" "kvm s' = kvm s" "encoder_cache_manager s' = encoder_cache_manager s" "requests s' = requests s"
    "\<And>rid. mm_positions (objs s' rid) = mm_positions (objs s rid)"
  shows "caches_ok hf nh s'"
  using assms by (simp add: caches_ok_def positions_def [abs_def])

lemma preempt_last_caches:
  assumes "preempt_last s = Inr (p, s')" "caches_ok hf nh s"
  shows "caches_ok hf nh s'" "encoder_cache_manager s' = encoder_cache_manager s" "\<And>rid. mm_positions (objs s' rid) = mm_positions (objs s rid)"
proof -
  obtain r m where s': "s' = s\<lparr>objs := (objs s)(p := r), running := butlast (running s), kvm := m, waiting := p # waiting s\<rparr>"
    and r: "mm_positions r = mm_positions (objs s p)" and m: "kvm_free (objs s p) (kvm s) = Inr m"
    by (rule preempt_last_cases [OF assms(1)])
  have "caches_ok hf nh (s\<lparr>kvm := m\<rparr>)" by (rule caches_ok_kvm [OF assms(2) step_free [OF m]])
  then show "caches_ok hf nh s'" by (rule caches_ok_frame) (simp_all add: s' r)
  show "encoder_cache_manager s' = encoder_cache_manager s" "\<And>rid. mm_positions (objs s' rid) = mm_positions (objs s rid)"
    by (simp_all add: s' r)
qed

lemma allocate_or_preempt_caches:
  assumes "allocate_or_preempt hf nh rid n pre s = Inr (res, pre', s')" "caches_ok hf nh s"
  shows "caches_ok hf nh s' \<and> encoder_cache_manager s' = encoder_cache_manager s \<and> (\<forall>rid. mm_positions (objs s' rid) = mm_positions (objs s rid))"
  using assms
proof (induction hf nh rid n pre s arbitrary: res pre' s' rule: allocate_or_preempt.induct)
  case (1 hf nh rid n pre s)
  define k where "k = (\<lambda>(res, m). case res of
          Some blocks \<Rightarrow> Inr (Some blocks, pre, s\<lparr>kvm := m\<rparr>)
        | None \<Rightarrow> rbind (preempt_last (s\<lparr>kvm := m\<rparr>)) (\<lambda>(p, s2).
            if p = rid then Inr (None, pre @ [p], s2)
            else allocate_or_preempt hf nh rid n (pre @ [p]) s2))"
  have "rbind (allocate_slots hf nh (objs s rid) n [] (num_lookahead_tokens s) (kvm s)) k = Inr (res, pre', s')"
    using "1.prems"(1) unfolding allocate_or_preempt.simps [of hf nh rid n pre s] k_def .
  then obtain x m where y: "allocate_slots hf nh (objs s rid) n [] (num_lookahead_tokens s) (kvm s) = Inr (x, m)" and ky: "k (x, m) = Inr (res, pre', s')"
    by auto
  have ok: "caches_ok hf nh (s\<lparr>kvm := m\<rparr>)" by (rule caches_ok_kvm [OF "1.prems"(2) step_running [OF y]])
  show ?case
  proof (cases x)
    case None
    obtain p s2 where p: "preempt_last (s\<lparr>kvm := m\<rparr>) = Inr (p, s2)"
      and rest: "(if p = rid then Inr (None, pre @ [p], s2) else allocate_or_preempt hf nh rid n (pre @ [p]) s2) = Inr (res, pre', s')"
      using ky unfolding k_def None by auto
    note s2 = preempt_last_caches [OF p ok]
    show ?thesis
    proof (cases "p = rid")
      case True
      then show ?thesis using rest s2 by simp
    next
      case False
      then have rest': "allocate_or_preempt hf nh rid n (pre @ [p]) s2 = Inr (res, pre', s')" using rest by simp
      show ?thesis using "1.IH" [OF y refl None p refl False rest' s2(1)] s2(2,3) by simp
    qed
  next
    case (Some blocks)
    then show ?thesis using ky ok by (auto simp: k_def)
  qed
qed

section \<open>Encoder inputs\<close>

text \<open>The inputs chosen for a request are distinct, valid and not cached.\<close>

definition fresh_inputs :: "request \<Rightarrow> encoder_cache \<Rightarrow> nat list \<Rightarrow> bool" where
  "fresh_inputs r e is \<longleftrightarrow> distinct is \<and> (\<forall>i \<in> set is. i < length (mm_positions r) \<and> \<not> has_cache r i e)"

lemma fresh_inputs_cong:
  "mm_positions r' = mm_positions r \<Longrightarrow> request_id r' = request_id r \<Longrightarrow> fresh_inputs r' e is = fresh_inputs r e is"
  by (simp add: fresh_inputs_def has_cache_def get_cached_input_ids_def)

lemma encoder_inputs_loop_fresh:
  "encoder_inputs_loop dis e r computed ps i num_new budget acc = Inr (inputs, n, nb) \<Longrightarrow>
   fresh_inputs r e acc \<Longrightarrow> (\<forall>j \<in> set acc. j < i) \<Longrightarrow> i + length ps \<le> length (mm_positions r) \<Longrightarrow> fresh_inputs r e inputs"
proof (induction dis e r computed ps i num_new budget acc rule: encoder_inputs_loop.induct)
  case (2 dis e r computed pos ps i num_new budget acc)
  have lt: "\<forall>j \<in> set acc. j < Suc i" using "2.prems"(3) by auto
  have len: "Suc i + length ps \<le> length (mm_positions r)" using "2.prems"(4) by simp
  have more: "fresh_inputs r e (acc @ [i])" if "\<not> has_cache r i e" using "2.prems"(2-4) that by (auto simp: fresh_inputs_def)
  have lt': "\<forall>j \<in> set (acc @ [i]). j < Suc i" using lt by simp
  show ?case
    using "2.prems"(1,2) "2.IH" [OF refl refl] lt lt' len more
    by (simp add: Let_def split: if_splits) (auto split: if_splits)
qed auto

lemma try_schedule_fresh:
  assumes "try_schedule_encoder_inputs s r computed num_new budget = Inr (inputs, n, nb)"
  shows "fresh_inputs r (encoder_cache_manager s) inputs"
proof (cases "num_new = 0 \<or> \<not> has_encoder_inputs r")
  case True
  then show ?thesis using assms by (auto simp: try_schedule_encoder_inputs_def fresh_inputs_def)
next
  case False
  then have "encoder_inputs_loop (disable_chunked_mm_input s) (encoder_cache_manager s) r computed (mm_positions r) 0 num_new budget [] = Inr (inputs, n, nb)"
    using assms by (simp add: try_schedule_encoder_inputs_def split: if_splits)
  then show ?thesis by (rule encoder_inputs_loop_fresh) (simp_all add: fresh_inputs_def)
qed

lemma encoder_allocate_cached:
  "encoder_allocate r i e = Inr e' \<Longrightarrow> cached e' = AList.update (request_id r) (List.insert i (get_cached_input_ids r e)) (cached e)"
  by (auto simp: encoder_allocate_def Let_def)

lemma encoder_allocate_list_ok:
  "rfold (encoder_allocate r) is e = Inr e' \<Longrightarrow> encoder_ok P e \<Longrightarrow> P (request_id r) = mm_positions r \<Longrightarrow> fresh_inputs r e is \<Longrightarrow>
   encoder_ok P e' \<and> fst ` set (cached e') \<subseteq> insert (request_id r) (fst ` set (cached e))"
proof (induction "is" arbitrary: e)
  case (Cons i "is")
  obtain e1 where a: "encoder_allocate r i e = Inr e1" and rest: "rfold (encoder_allocate r) is e1 = Inr e'" using Cons.prems(1) by auto
  have i: "i < length (mm_positions r)" "\<not> has_cache r i e" using Cons.prems(4) by (simp_all add: fresh_inputs_def)
  have ok: "encoder_ok P e1" using encoder_allocate_ok [OF Cons.prems(2,3) i] a by (metis sum.inject(2))
  have c: "cached e1 = AList.update (request_id r) (List.insert i (get_cached_input_ids r e)) (cached e)" by (rule encoder_allocate_cached [OF a])
  have "has_cache r j e1 \<longleftrightarrow> j = i \<or> has_cache r j e" for j
    by (auto simp: has_cache_def get_cached_input_ids_def c update_conv split: option.splits)
  then have "fresh_inputs r e1 is" using Cons.prems(4) by (auto simp: fresh_inputs_def)
  then show ?case using Cons.IH [OF rest ok Cons.prems(3)] c by (auto simp: dom_update)
qed auto

lemma allocate_encoder_inputs_caches:
  assumes "allocate_encoder_inputs rid inputs nb (s, v) = Inr (s', v')" "caches_ok hf nh s"
    "request_id (objs s rid) = rid" "rid \<in> set (requests s)" "fresh_inputs (objs s rid) (encoder_cache_manager s) inputs"
  shows "caches_ok hf nh s'"
proof (cases "inputs = []")
  case True
  then show ?thesis using assms by (simp add: allocate_encoder_inputs_def)
next
  case False
  then obtain e where e: "rfold (encoder_allocate (objs s rid)) inputs (encoder_cache_manager s) = Inr e" and s': "s' = s\<lparr>encoder_cache_manager := e\<rparr>"
    using assms(1) by (auto simp: allocate_encoder_inputs_def)
  have ok: "encoder_ok (positions s) (encoder_cache_manager s)" "fst ` set (cached (encoder_cache_manager s)) \<subseteq> set (requests s)"
    using assms(2) by (simp_all add: caches_ok_def)
  have "positions s (request_id (objs s rid)) = mm_positions (objs s rid)" by (simp add: positions_def assms(3))
  then have e': "encoder_ok (positions s) e" "fst ` set (cached e) \<subseteq> insert rid (fst ` set (cached (encoder_cache_manager s)))"
    using encoder_allocate_list_ok [OF e ok(1) _ assms(5)] assms(3) by simp_all
  have "fst ` set (cached e) \<subseteq> set (requests s)" using e'(2) ok(2) assms(4) by blast
  then show ?thesis using assms(2) e'(1) by (simp add: caches_ok_def s' positions_def [abs_def])
qed

section \<open>The loops keep the caches\<close>

lemma running_step_caches:
  assumes step: "running_step hf nh s v = Inr (go, s', v')" and ok: "caches_ok hf nh s" and q: "queues_ok s" and idx: "req_index v < length (running s)"
  shows "caches_ok hf nh s'"
proof -
  define rid where "rid = running s ! req_index v"
  have rid: "rid \<in> set (running s)" using idx by (simp add: rid_def)
  from step show ?thesis
  proof (cases rule: running_step_cases)
    case (scheduled inputs n nb pre blocks s1 v1)
    note a = allocate_or_preempt_caches [OF scheduled(4) ok]
    obtain qs where qs: "queues_ok s1" "same_config s s1" "rid \<in> set (running s1)"
      using allocate_or_preempt_ok [OF scheduled(4) q rid [unfolded rid_def]] by (auto simp: rid_def)
    obtain s2 v2 where sv: "schedule_spec_tokens rid n (s1, v1) = (s2, v2)" by (metis surj_pair)
    obtain ts d0 where s2: "s2 = upd_obj rid (\<lambda>r. r\<lparr>spec_token_ids := ts\<rparr>) s1" by (rule schedule_spec_tokens_cases [OF sv])
    have ok2: "caches_ok hf nh s2" by (rule caches_ok_frame [of _ _ s1]) (use a in \<open>simp_all add: s2 upd_obj_def\<close>)
    have id: "rid \<in> set (requests s1)" "request_id (objs s1 rid) = rid" using qs by (auto simp: queues_ok_def)
    have id0: "request_id (objs s rid) = rid" using q rid by (auto simp: queues_ok_def)
    have "fresh_inputs (objs s rid) (encoder_cache_manager s) inputs"
      using scheduled(1) try_schedule_fresh by (auto simp: plan_running_def Let_def fresh_inputs_def rid_def split: if_splits)
    then have "fresh_inputs (objs s2 rid) (encoder_cache_manager s2) inputs"
      using a id id0 fresh_inputs_cong [of "objs s2 rid" "objs s rid"] by (simp add: s2 upd_obj_def)
    then show ?thesis
      using allocate_encoder_inputs_caches [OF scheduled(6) [folded rid_def, unfolded sv] ok2] id by (simp add: s2 upd_obj_def)
  next
    case (preempted pre inputs n nb)
    then show ?thesis using allocate_or_preempt_caches [OF preempted(4) ok] by simp
  qed (use ok in simp)
qed

lemma running_loop_caches:
  "run_inv s0 s v \<Longrightarrow> caches_ok hf nh s \<Longrightarrow> running_loop hf nh s v = Inr (s', v') \<Longrightarrow> caches_ok hf nh s'"
proof (induction hf nh s v rule: running_loop.induct)
  case (1 hf nh s v)
  show ?case
  proof (cases "req_index v < length (running s) \<and> token_budget v > 0")
    case True
    then obtain go s1 v1 where step: "running_step hf nh s v = Inr (go, s1, v1)"
      and rest: "(if go then running_loop hf nh s1 v1 else Inr (s1, v1)) = Inr (s', v')"
      using "1.prems"(3) unfolding running_loop.simps [of hf nh s v] by auto
    have "queues_ok s" using "1.prems"(1) by (simp add: run_inv_def)
    then have "caches_ok hf nh s1" using running_step_caches [OF step "1.prems"(2)] True by blast
    moreover have "run_inv s0 s1 v1" using run_inv_step [OF "1.prems"(1) _ _ step] True by blast
    ultimately show ?thesis using "1.IH" [OF True step refl refl] rest by (cases go) auto
  next
    case False
    then show ?thesis using "1.prems" unfolding running_loop.simps [of hf nh s v] by auto
  qed
qed

lemma waiting_step_caches:
  assumes step: "waiting_step hf nh ext s v = Inr (go, s', v')" and ok: "caches_ok hf nh s" and q: "queues_ok (put_back s v)" and ne: "waiting s \<noteq> []"
  shows "caches_ok hf nh s'"
proof -
  define t where "t = fsm_ready s"
  have okt: "caches_ok hf nh t" by (rule caches_ok_frame [OF ok]) (simp_all add: t_def fsm_ready_def upd_obj_def)
  have qt: "queues_ok (put_back t v)" unfolding t_def by (rule fsm_ready_put_back [OF q ne])
  define w where "w = hd (waiting s)"
  have "w \<in> set (waiting t)" using ne by (simp add: w_def t_def)
  then have w: "w \<in> set (requests t)" "request_id (objs t w) = w" using qt by (auto simp: queues_ok_def put_back_def)
  from step show ?thesis
  proof (cases rule: waiting_step_cases)
    case (skip u)
    have "caches_ok hf nh u" using skip(1) ok okt by (auto simp: t_def)
    then show ?thesis by (rule caches_ok_frame) (simp_all add: skip(3))
  next
    case schedule
    have sch: "schedule_waiting hf nh ext t v = Inr (go, s', v')" using schedule(2) by (simp add: t_def)
    have ht: "hd (waiting t) = w" by (simp add: t_def w_def)
    obtain cb computed x inputs n nb s0 where plan: "plan_waiting hf nh ext t v (objs t w) = Inr ((cb, computed, x), (inputs, n, nb), s0)"
      using sch unfolding schedule_waiting_def Let_def ht by (auto split: if_splits)
    obtain m l num_new where g: "get_computed_blocks hf nh (objs t w) (kvm t) = Inr ((cb, l), m)" and s0: "s0 = t\<lparr>kvm := m\<rparr>"
      and enc: "(if has_encoder_inputs (objs t w) then try_schedule_encoder_inputs s0 (objs t w) computed num_new (encoder_budget v)
        else Inr ([], num_new, encoder_budget v)) = Inr (inputs, n, nb)"
      by (rule plan_waiting_cases [OF plan])
    have fresh: "fresh_inputs (objs t w) (encoder_cache_manager t) inputs"
      using enc try_schedule_fresh [of s0] by (auto simp: s0 fresh_inputs_def split: if_splits)
    show ?thesis
    proof (cases "has_encoder_inputs (objs t w) \<and> n = 0")
      case True
      then have "s' = t\<lparr>kvm := m\<rparr>" using sch plan unfolding schedule_waiting_def Let_def ht by (simp add: s0)
      then show ?thesis using caches_ok_kvm [OF okt step_lookup [OF g]] by simp
    next
      case False
      obtain res m1 where a: "allocate_slots hf nh (objs t w) (n + x) cb (num_lookahead_tokens t) m = Inr (res, m1)"
        and rest: "(case res of None \<Rightarrow> Inr (False, s0\<lparr>kvm := m1\<rparr>, v) | Some blocks \<Rightarrow>
          rbind (admit w (cb @ blocks) computed n inputs nb (s0\<lparr>kvm := m1\<rparr>) v) (\<lambda>(s2, v2). Inr (True, s2, v2))) = Inr (go, s', v')"
        using sch False unfolding schedule_waiting_def Let_def ht plan s0 by auto
      have ok1: "caches_ok hf nh (t\<lparr>kvm := m1\<rparr>)" by (rule caches_ok_kvm [OF okt step_waiting [OF g a]])
      show ?thesis
      proof (cases res)
        case None
        then show ?thesis using rest ok1 by (simp add: s0)
      next
        case (Some blocks)
        define u where "u = t\<lparr>kvm := m1\<rparr>"
        have adm: "admit w (cb @ blocks) computed n inputs nb u v = Inr (s', v')" using rest by (auto simp: Some u_def s0)
        define r1 where "r1 = (if sch_log_stats u then record_event SCHEDULED (objs u w) else objs u w)"
        define s2 where "s2 = u\<lparr>waiting := tl (waiting u), running := running u @ [w],
          objs := (objs u)(w := r1\<lparr>status := RUNNING, num_computed_tokens := computed\<rparr>)\<rparr>"
        obtain v2 where e: "allocate_encoder_inputs w inputs nb (s2, v2) = Inr (s', v')"
          using adm unfolding admit_def Let_def upd_obj_def s2_def r1_def by auto
        have r1: "mm_positions r1 = mm_positions (objs u w)" "request_id r1 = request_id (objs u w)" by (simp_all add: r1_def record_event_def)
        have u: "objs u = objs t" "encoder_cache_manager u = encoder_cache_manager t" "requests u = requests t" by (simp_all add: u_def)
        have ok2: "caches_ok hf nh s2" by (rule caches_ok_frame [of _ _ u]) (use ok1 r1 in \<open>simp_all add: u_def s2_def\<close>)
        have "fresh_inputs (objs s2 w) (encoder_cache_manager s2) inputs"
          using fresh fresh_inputs_cong [of "objs s2 w" "objs t w"] r1 u by (simp add: s2_def)
        then show ?thesis using allocate_encoder_inputs_caches [OF e ok2] w r1 u by (simp add: s2_def)
      qed
    qed
  qed (use ok in simp)
qed

lemma waiting_loop_caches:
  "wait_inv s1 v1 s v adm \<Longrightarrow> set (v_running_reqs v1) \<subseteq> set (running s1) \<Longrightarrow> caches_ok hf nh s \<Longrightarrow>
   waiting_loop hf nh ext s v = Inr (s', v') \<Longrightarrow> caches_ok hf nh s'"
proof (induction hf nh ext s v arbitrary: adm rule: waiting_loop.induct)
  case (1 hf nh ext s v)
  show ?case
  proof (cases "waiting s \<noteq> [] \<and> token_budget v > 0")
    case True
    then obtain go s2 v2 where step: "waiting_step hf nh ext s v = Inr (go, s2, v2)"
      and rest: "(if go then waiting_loop hf nh ext s2 v2 else Inr (s2, v2)) = Inr (s', v')"
      using "1.prems"(4) unfolding waiting_loop.simps [of hf nh ext s v] by auto
    have "queues_ok (put_back s v)" using "1.prems"(1) by (simp add: wait_inv_def)
    then have ok: "caches_ok hf nh s2" using waiting_step_caches [OF step "1.prems"(3)] True by blast
    obtain adm' where inv: "wait_inv s1 v1 s2 v2 adm'" using wait_inv_step [OF "1.prems"(1) _ "1.prems"(2) step] True by blast
    show ?thesis using "1.IH" [OF True step refl refl _ inv "1.prems"(2) ok] rest ok by (cases go) auto
  next
    case False
    then show ?thesis using "1.prems" unfolding waiting_loop.simps [of hf nh ext s v] by auto
  qed
qed

lemma schedule_loops_caches:
  assumes "schedule_loops hf nh ext s = Inr (s', v)" "queues_ok s" "caches_ok hf nh s"
    "length (running s) \<le> max_num_running_reqs s" "0 \<le> max_num_scheduled_tokens s"
  shows "caches_ok hf nh s'"
proof -
  obtain s1 v1 v2 s3 where a: "running_loop hf nh s (sched_vars_init s) = Inr (s1, v1)" and b: "record_loras s1 v1 = Inr v2"
    and c: "(if v_preempted_reqs v2 = [] then waiting_loop hf nh ext s1 v2 else Inr (s1, v2)) = Inr (s3, v)"
    and s': "s' = put_back s3 v"
    using assms(1) unfolding schedule_loops_def put_back_def by auto
  have run: "run_inv s s1 v1" by (rule run_inv_loop [OF run_inv_init [OF assms(2,5)] a])
  have ok1: "caches_ok hf nh s1" by (rule running_loop_caches [OF run_inv_init [OF assms(2,5)] assms(3) a])
  have v2: "v_running_reqs v2 = v_running_reqs v1" "skipped_waiting v2 = skipped_waiting v1" "num_scheduled_tokens v2 = num_scheduled_tokens v1"
    "v_new_reqs v2 = v_new_reqs v1" "v_resumed_reqs v2 = v_resumed_reqs v1" "token_budget v2 = token_budget v1"
    using b by (auto simp: record_loras_def Let_def split: option.splits if_splits)
  have sub: "set (v_running_reqs v2) \<subseteq> set (running s1)" using run set_take_subset by (force simp: run_inv_def v2)
  have len1: "length (running s1) \<le> max_num_running_reqs s1" using run assms(4) by (auto simp: run_inv_def same_config_def)
  have pb: "put_back s1 v2 = s1" using run by (simp add: put_back_def run_inv_def v2)
  have start: "wait_inv s1 v2 s1 v2 []"
    using run len1 pb by (auto simp: wait_inv_def run_inv_def v2 total_scheduled_def same_config_def)
  have "caches_ok hf nh s3" using waiting_loop_caches [OF start sub ok1] c ok1 by (auto split: if_splits)
  then show ?thesis by (rule caches_ok_frame) (simp_all add: s' put_back_def)
qed

section \<open>Output and finished requests\<close>

lemma make_cached_request_data_frame:
  assumes "make_cached_request_data r n k bs b s = (d, s')"
  obtains c where "s' = s\<lparr>cached_reqs_data := c\<rparr>" "\<forall>rid. set (c rid) \<subseteq> set (cached_reqs_data s rid)"
proof (cases "cached_reqs_data s (request_id r)")
  case Nil
  then show ?thesis using assms that [of "cached_reqs_data s"] by (simp add: make_cached_request_data_def Let_def)
next
  case (Cons x xs)
  show ?thesis by (rule that [of "(cached_reqs_data s)(request_id r := xs)"])
    (use assms Cons in \<open>auto simp: make_cached_request_data_def Let_def\<close>)
qed

lemma make_cached_list_frame:
  "make_cached_list v b rids s = Inr (ds, s') \<Longrightarrow> \<exists>c. s' = s\<lparr>cached_reqs_data := c\<rparr> \<and> (\<forall>rid. set (c rid) \<subseteq> set (cached_reqs_data s rid))"
proof (induction v b rids s arbitrary: ds s' rule: make_cached_list.induct)
  case (1 v b s)
  then show ?case by (intro exI [of _ "cached_reqs_data s"]) simp
next
  case (2 v b rid rids s)
  obtain n bs d s1 ds' where n: "lookup_dict (num_scheduled_tokens v) rid = Inr n" "lookup_dict (req_to_new_block_ids v) rid = Inr bs"
    and d: "make_cached_request_data (objs s rid) n (spec_len v rid) bs b s = (d, s1)"
    and rest: "make_cached_list v b rids s1 = Inr (ds', s')"
    using "2.prems" by (auto simp: case_prod_beta) (metis prod.collapse)
  obtain c where c: "s1 = s\<lparr>cached_reqs_data := c\<rparr>" "\<forall>rid. set (c rid) \<subseteq> set (cached_reqs_data s rid)"
    by (rule make_cached_request_data_frame [OF d])
  have "\<exists>c'. s' = s1\<lparr>cached_reqs_data := c'\<rparr> \<and> (\<forall>rid. set (c' rid) \<subseteq> set (cached_reqs_data s1 rid))"
    using "2.IH" n d rest by auto
  then show ?case using c by fastforce
qed

lemma build_output_frame:
  assumes "build_output s v = Inr (out, s')"
  obtains c where "s' = s\<lparr>cached_reqs_data := c, encoder_cache_manager := (encoder_cache_manager s)\<lparr>freed := []\<rparr>\<rparr>"
    "\<forall>rid. set (c rid) \<subseteq> set (cached_reqs_data s rid)"
proof -
  obtain ds1 s1 ds2 s2 where a: "make_cached_list v True (v_resumed_reqs v) s = Inr (ds1, s1)"
    and b: "make_cached_list v False (v_running_reqs v) s1 = Inr (ds2, s2)"
    and s': "s' = s2\<lparr>encoder_cache_manager := (encoder_cache_manager s2)\<lparr>freed := []\<rparr>\<rparr>"
    using assms unfolding build_output_def get_freed_ids_def by auto
  obtain c1 where c1: "s1 = s\<lparr>cached_reqs_data := c1\<rparr>" "\<forall>rid. set (c1 rid) \<subseteq> set (cached_reqs_data s rid)"
    using make_cached_list_frame [OF a] by blast
  obtain c2 where c2: "s2 = s1\<lparr>cached_reqs_data := c2\<rparr>" "\<forall>rid. set (c2 rid) \<subseteq> set (cached_reqs_data s1 rid)"
    using make_cached_list_frame [OF b] by blast
  show ?thesis by (rule that [of c2]) (use c1 c2 s' in auto)
qed

lemma advance_computed_frame:
  assumes "advance_computed d s = Inr s'"
  shows "\<exists>f. s' = s\<lparr>objs := f\<rparr> \<and> (\<forall>rid. status (f rid) = status (objs s rid) \<and> request_id (f rid) = request_id (objs s rid) \<and>
    mm_positions (f rid) = mm_positions (objs s rid))"
  unfolding advance_computed_def
  using assms
proof (induction d arbitrary: s)
  case Nil
  then show ?case by (intro exI [of _ "objs s"]) (simp add: advance_computed_def)
next
  case (Cons p d)
  obtain rid n where p: "p = (rid, n)" by (cases p)
  define s1 where "s1 = upd_obj rid (\<lambda>r. r\<lparr>num_computed_tokens := num_computed_tokens r + n\<rparr>) s"
  have "advance_computed d s1 = Inr s'" using Cons.prems by (auto simp: advance_computed_def p s1_def split: if_splits)
  then obtain f where f: "s' = s1\<lparr>objs := f\<rparr>" "\<forall>rid. status (f rid) = status (objs s1 rid) \<and> request_id (f rid) = request_id (objs s1 rid) \<and>
    mm_positions (f rid) = mm_positions (objs s1 rid)" using Cons.IH by blast
  then show ?case by (intro exI [of _ f]) (auto simp: s1_def upd_obj_def)
qed

lemma free_request_ok:
  assumes ok: "caches_ok hf nh s" and id: "request_id (objs s rid) = rid" and fin: "is_finished (objs s rid)"
    and rid: "rid \<in> set (requests s)" and dist: "distinct (requests s)"
  obtains m e where "free_request rid s = Inr (s\<lparr>kvm := m, encoder_cache_manager := e, cached_reqs_data := (cached_reqs_data s)(rid := []),
      requests := remove1 rid (requests s), finished_req_ids := List.insert rid (finished_req_ids s)\<rparr>)"
    "req_to_blocks m = (req_to_blocks (kvm s))(rid := [])" "req_to_block_hashes m rid = []" "rid \<notin> fst ` set (cached e)"
    "kvm_reachable hf nh m" "encoder_ok (positions s) e" "fst ` set (cached e) \<subseteq> set (remove1 rid (requests s))"
proof -
  have k: "kvm_reachable hf nh (kvm s)" and e0: "encoder_ok (positions s) (encoder_cache_manager s)"
    and keys: "fst ` set (cached (encoder_cache_manager s)) \<subseteq> set (requests s)" using ok by (simp_all add: caches_ok_def)
  obtain m where m: "kvm_free (objs s rid) (kvm s) = Inr m" "req_to_blocks m = (req_to_blocks (kvm s))(rid := [])"
    using kvm_free_ok [OF kvm_reachable_inv [OF k], of "objs s rid"] id by auto
  have reach: "kvm_reachable hf nh (free_block_hashes (objs s rid) m)"
    by (rule kvm_reachable.reach_step [OF kvm_reachable.reach_step [OF k step_free [OF m(1)]] step_free_hashes])
  have "positions s (request_id (objs s rid)) = mm_positions (objs s rid)" by (simp add: positions_def id)
  then obtain e where e: "encoder_free (objs s rid) (encoder_cache_manager s) = Inr e" "encoder_ok (positions s) e"
    "get_cached_input_ids (objs s rid) e = []" "\<forall>q. q \<noteq> rid \<longrightarrow> map_of (cached e) q = map_of (cached (encoder_cache_manager s)) q"
    using free_inputs_ok [OF e0 _ refl, of "objs s rid"] id unfolding encoder_free_def by auto
  have none: "map_of (cached e) rid = None"
    using e(3) encoder_ok_entry(1) [OF e(2), of rid] id by (cases "map_of (cached e) rid") (auto simp: get_cached_input_ids_def)
  have sub: "fst ` set (cached e) \<subseteq> fst ` set (cached (encoder_cache_manager s)) - {rid}"
  proof
    fix q assume "q \<in> fst ` set (cached e)"
    then have "map_of (cached e) q \<noteq> None" by (simp add: map_of_eq_None_iff)
    then have "q \<noteq> rid" using none by auto
    then have "map_of (cached (encoder_cache_manager s)) q \<noteq> None" using \<open>map_of (cached e) q \<noteq> None\<close> e(4) by simp
    then show "q \<in> fst ` set (cached (encoder_cache_manager s)) - {rid}" using \<open>q \<noteq> rid\<close> by (simp add: map_of_eq_None_iff)
  qed
  have res: "free_request rid s = Inr (s\<lparr>kvm := free_block_hashes (objs s rid) m, encoder_cache_manager := e, cached_reqs_data := (cached_reqs_data s)(rid := []),
      requests := remove1 rid (requests s), finished_req_ids := List.insert rid (finished_req_ids s)\<rparr>)"
    by (simp add: free_request_def Let_def fin m e rid)
  show ?thesis
    by (rule that [OF res _ _ _ reach e(2)]) (use m sub keys dist none in \<open>auto simp: free_block_hashes_def id map_of_eq_None_iff\<close>)
qed

end
