(* ===== verification/Scheduler_Reachable.thy ===== *)
theory Scheduler_Reachable
  imports Scheduler_Safety
begin

text \<open>The reachable states of the scheduler and the properties that hold in all of them.\<close>

section \<open>The invariant\<close>

definition sched_inv :: "hash_fn \<Rightarrow> int \<Rightarrow> scheduler \<Rightarrow> bool" where
  "sched_inv hf nh s \<longleftrightarrow> queues_ok s \<and> caches_ok hf nh s \<and> length (running s) \<le> max_num_running_reqs s \<and>
     0 \<le> max_num_scheduled_tokens s \<and> (\<forall>rid. \<forall>d \<in> set (cached_reqs_data s rid). crd_req_id d = rid)"

lemma sched_inv_upd:
  assumes "sched_inv hf nh s" "\<And>r. status (f r) = status r" "\<And>r. request_id (f r) = request_id r" "\<And>r. mm_positions (f r) = mm_positions r"
  shows "sched_inv hf nh (upd_obj rid f s)"
proof -
  have "queues_ok (upd_obj rid f s)" using assms(1) by (intro queues_ok_upd assms(2,3)) (simp add: sched_inv_def)
  moreover have "caches_ok hf nh (upd_obj rid f s)"
    by (rule caches_ok_frame [of _ _ s]) (use assms in \<open>simp_all add: sched_inv_def upd_obj_def\<close>)
  ultimately show ?thesis using assms(1) by (simp add: sched_inv_def upd_obj_def)
qed

lemma upd_obj_running [simp]: "(upd_obj rid f s)\<lparr>running := q\<rparr> = upd_obj rid f (s\<lparr>running := q\<rparr>)"
  by (simp add: upd_obj_def)

lemma objs_upd_obj [simp]: "objs (upd_obj rid f s) rid = f (objs s rid)"
  by (simp add: upd_obj_def)

text \<open>Changing the encoder cache within its invariant.\<close>

lemma sched_inv_encoder:
  assumes "sched_inv hf nh s" "encoder_ok (positions s) e" "fst ` set (cached e) \<subseteq> fst ` set (cached (encoder_cache_manager s))"
  shows "sched_inv hf nh (s\<lparr>encoder_cache_manager := e\<rparr>)"
  using assms by (auto simp: sched_inv_def caches_ok_def positions_def [abs_def])

lemma sched_inv_kvm: "sched_inv hf nh s \<Longrightarrow> kvm_step hf nh (kvm s) m \<Longrightarrow> sched_inv hf nh (s\<lparr>kvm := m\<rparr>)"
  using caches_ok_kvm by (auto simp: sched_inv_def)

lemma sched_inv_data:
  assumes "sched_inv hf nh s" "\<forall>rid. \<forall>d \<in> set (c rid). crd_req_id d = rid"
  shows "sched_inv hf nh (s\<lparr>cached_reqs_data := c\<rparr>)"
proof -
  have "queues_ok (s\<lparr>cached_reqs_data := c\<rparr>) = queues_ok s" by (simp add: queues_ok_def)
  moreover have "caches_ok hf nh (s\<lparr>cached_reqs_data := c\<rparr>)" by (rule caches_ok_frame [of _ _ s]) (use assms(1) in \<open>simp_all add: sched_inv_def\<close>)
  ultimately show ?thesis using assms by (simp add: sched_inv_def)
qed

section \<open>Schedule\<close>

lemma schedule_inv:
  assumes "schedule hf nh ext s = Inr (out, s')" "sched_inv hf nh s"
  shows "sched_inv hf nh s'"
proof -
  have q: "queues_ok s" "caches_ok hf nh s" "length (running s) \<le> max_num_running_reqs s" "0 \<le> max_num_scheduled_tokens s"
    and data: "\<forall>rid. \<forall>d \<in> set (cached_reqs_data s rid). crd_req_id d = rid"
    using assms(2) by (simp_all add: sched_inv_def)
  obtain s1 v out2 s2 s3 where l: "schedule_loops hf nh ext s = Inr (s1, v)" and b: "build_output s1 v = Inr (out2, s2)"
    and a: "advance_computed (num_scheduled_tokens v) s2 = Inr s3" and s': "s' = s3\<lparr>finished_req_ids := []\<rparr>"
    using assms(1) by (auto simp: schedule_def split: if_splits)
  have r1: "queues_ok s1" "same_config s s1" "length (running s1) \<le> max_num_running_reqs s"
    by (rule schedule_loops_result [OF l q(1,3,4)], assumption)+
  have ok1: "caches_ok hf nh s1" by (rule schedule_loops_caches [OF l q])
  obtain c where s2: "s2 = s1\<lparr>cached_reqs_data := c, encoder_cache_manager := (encoder_cache_manager s1)\<lparr>freed := []\<rparr>\<rparr>"
    and c: "\<forall>rid. set (c rid) \<subseteq> set (cached_reqs_data s1 rid)" by (rule build_output_frame [OF b])
  obtain f where s3: "s3 = s2\<lparr>objs := f\<rparr>" and f: "\<forall>rid. status (f rid) = status (objs s2 rid) \<and> request_id (f rid) = request_id (objs s2 rid) \<and>
    mm_positions (f rid) = mm_positions (objs s2 rid)" using advance_computed_frame [OF a] by blast
  have enc: "encoder_ok (positions s1) ((encoder_cache_manager s1)\<lparr>freed := []\<rparr>)" using ok1 by (simp add: caches_ok_def encoder_ok_def)
  have "positions s' = positions s1" using f by (simp add: positions_def [abs_def] s' s3 s2)
  then have "caches_ok hf nh s'" using ok1 enc by (simp add: caches_ok_def s' s3 s2)
  moreover have "queues_ok s'" using r1(1) f unfolding s' s3 by (simp add: queues_ok_def s2)
  moreover have "\<forall>rid. \<forall>d \<in> set (cached_reqs_data s' rid). crd_req_id d = rid"
    using data c r1(2) by (simp add: s' s3 s2 same_config_def) blast
  ultimately show ?thesis using r1 q(4) by (simp add: sched_inv_def s' s3 s2 same_config_def)
qed

section \<open>Freeing requests\<close>

lemma finished_not_running: "status_finished st \<Longrightarrow> st \<noteq> RUNNING" "status_finished st \<Longrightarrow> \<not> waiting_status st"
  by (auto simp: status_finished_def waiting_status_def)

text \<open>A request taken out of its queue and marked as finished is freed, with everything it holds.\<close>

lemma free_finished:
  assumes inv: "sched_inv hf nh s" and rid: "rid \<in> set (requests s)" and st: "status_finished (status r)"
    and r: "request_id r = rid" "mm_positions r = mm_positions (objs s rid)"
    and t: "t = (s\<lparr>objs := (objs s)(rid := r)\<rparr>)\<lparr>running := remove1 rid (running s), waiting := remove1 rid (waiting s)\<rparr>"
  obtains s' where "free_request rid t = Inr s'" "sched_inv hf nh s'" "requests s' = remove1 rid (requests s)"
    "running s' = remove1 rid (running s)" "waiting s' = remove1 rid (waiting s)" "objs s' = objs t"
    "req_to_blocks (kvm s') = (req_to_blocks (kvm s))(rid := [])" "rid \<in> set (finished_req_ids s')" "same_config s (s'\<lparr>requests := requests s, finished_req_ids := finished_req_ids s, cached_reqs_data := cached_reqs_data s\<rparr>)"
proof -
  have q: "queues_ok s" and ok: "caches_ok hf nh s" and len: "length (running s) \<le> max_num_running_reqs s"
    and data: "\<forall>rid. \<forall>d \<in> set (cached_reqs_data s rid). crd_req_id d = rid" and nn: "0 \<le> max_num_scheduled_tokens s"
    using inv by (simp_all add: sched_inv_def)
  have tf: "kvm t = kvm s" "encoder_cache_manager t = encoder_cache_manager s" "requests t = requests s" by (simp_all add: t)
  have pos: "positions t = positions s" using r(2) by (auto simp: positions_def t)
  have okt: "caches_ok hf nh t" using ok by (simp add: caches_ok_def tf pos)
  have dist: "distinct (requests t)" using q by (simp add: queues_ok_def tf)
  have "request_id (objs t rid) = rid" "is_finished (objs t rid)" using r(1) st by (simp_all add: t is_finished_def)
  then obtain m e where f: "free_request rid t = Inr (t\<lparr>kvm := m, encoder_cache_manager := e, cached_reqs_data := (cached_reqs_data t)(rid := []),
      requests := remove1 rid (requests t), finished_req_ids := List.insert rid (finished_req_ids t)\<rparr>)"
    and m: "req_to_blocks m = (req_to_blocks (kvm t))(rid := [])" "kvm_reachable hf nh m"
    and e: "encoder_ok (positions t) e" "fst ` set (cached e) \<subseteq> set (remove1 rid (requests t))"
    using free_request_ok [OF okt _ _ _ dist] rid tf(3) by metis
  define s' where "s' = t\<lparr>kvm := m, encoder_cache_manager := e, cached_reqs_data := (cached_reqs_data t)(rid := []),
      requests := remove1 rid (requests t), finished_req_ids := List.insert rid (finished_req_ids t)\<rparr>"
  have "positions s' = positions t" by (simp add: s'_def positions_def [abs_def])
  then have "caches_ok hf nh s'" using m e by (simp add: caches_ok_def s'_def)
  moreover have "queues_ok s'"
    using q unfolding queues_ok_def s'_def t by (auto simp: distinct_remove1)
  moreover have "length (running s') \<le> max_num_running_reqs s'"
    using len by (auto simp: s'_def t length_remove1)
  ultimately have "sched_inv hf nh s'" using data nn by (simp add: sched_inv_def s'_def t)
  moreover have "free_request rid t = Inr s'" using f by (simp add: s'_def)
  ultimately show ?thesis using that [of s'] m(1) tf by (simp add: s'_def t same_config_def)
qed

lemma finish_request_ok:
  assumes inv: "sched_inv hf nh s" and st: "status_finished st" and rid: "rid \<in> set (requests s)"
  obtains s' where "finish_request st rid s = Inr s'" "sched_inv hf nh s'" "requests s' = remove1 rid (requests s)"
    "running s' = remove1 rid (running s)" "waiting s' = remove1 rid (waiting s)"
    "req_to_blocks (kvm s') = (req_to_blocks (kvm s))(rid := [])"
proof -
  have q: "queues_ok s" using inv by (simp add: sched_inv_def)
  define r where "r = (objs s rid)\<lparr>status := st\<rparr>"
  define t where "t = (s\<lparr>objs := (objs s)(rid := r)\<rparr>)\<lparr>running := remove1 rid (running s), waiting := remove1 rid (waiting s)\<rparr>"
  have r: "status_finished (status r)" "request_id r = rid" "mm_positions r = mm_positions (objs s rid)"
    using q rid st by (auto simp: r_def queues_ok_def)
  have eq: "finish_request st rid s = free_request rid t"
  proof (cases "rid \<in> set (running s)")
    case True
    then have "status (objs s rid) = RUNNING" "rid \<notin> set (waiting s)" using q by (auto simp: queues_ok_def)
    moreover from this have "upd_obj rid (\<lambda>r. r\<lparr>status := st\<rparr>) (s\<lparr>running := remove1 rid (running s)\<rparr>) = t"
      by (intro scheduler.equality) (simp_all add: t_def r_def upd_obj_def remove1_idem)
    ultimately show ?thesis using True rid by (simp add: finish_request_def)
  next
    case False
    then have "rid \<in> set (waiting s)" "status (objs s rid) \<noteq> RUNNING" using q rid by (auto simp: queues_ok_def waiting_status_def)
    moreover from this have "upd_obj rid (\<lambda>r. r\<lparr>status := st\<rparr>) (s\<lparr>waiting := remove1 rid (waiting s)\<rparr>) = t"
      using False by (intro scheduler.equality) (simp_all add: t_def r_def upd_obj_def remove1_idem)
    ultimately show ?thesis using rid by (simp add: finish_request_def)
  qed
  show ?thesis by (rule free_finished [OF inv rid r t_def]) (use that eq in simp)
qed

lemma filter_remove1: "distinct xs \<Longrightarrow> filter P (remove1 x xs) = filter (\<lambda>y. P y \<and> y \<noteq> x) xs"
  by (simp add: distinct_remove1_removeAll removeAll_filter_not_eq conj_commute eq_commute)

lemma finish_requests_loop:
  "sched_inv hf nh s \<Longrightarrow> status_finished st \<Longrightarrow> \<exists>s'. rfold (finish_request st) ids s = Inr s' \<and> sched_inv hf nh s' \<and>
     requests s' = filter (\<lambda>x. x \<notin> set ids) (requests s) \<and> running s' = filter (\<lambda>x. x \<notin> set ids) (running s) \<and>
     waiting s' = filter (\<lambda>x. x \<notin> set ids) (waiting s) \<and>
     (\<forall>rid. req_to_blocks (kvm s') rid = (if rid \<in> set ids \<inter> set (requests s) then [] else req_to_blocks (kvm s) rid))"
proof (induction ids arbitrary: s)
  case (Cons i ids)
  have dist: "distinct (requests s)" "distinct (running s)" "distinct (waiting s)" "set (requests s) = set (running s @ waiting s)"
    using Cons.prems(1) by (simp_all add: sched_inv_def queues_ok_def)
  show ?case
  proof (cases "i \<in> set (requests s)")
    case True
    obtain s1 where s1: "finish_request st i s = Inr s1" "sched_inv hf nh s1" "requests s1 = remove1 i (requests s)"
      "running s1 = remove1 i (running s)" "waiting s1 = remove1 i (waiting s)" "req_to_blocks (kvm s1) = (req_to_blocks (kvm s))(i := [])"
      by (rule finish_request_ok [OF Cons.prems True])
    obtain s' where "rfold (finish_request st) ids s1 = Inr s'" "sched_inv hf nh s'"
      "requests s' = filter (\<lambda>x. x \<notin> set ids) (requests s1)" "running s' = filter (\<lambda>x. x \<notin> set ids) (running s1)"
      "waiting s' = filter (\<lambda>x. x \<notin> set ids) (waiting s1)"
      "\<forall>rid. req_to_blocks (kvm s') rid = (if rid \<in> set ids \<inter> set (requests s1) then [] else req_to_blocks (kvm s1) rid)"
      using Cons.IH [OF s1(2) Cons.prems(2)] by blast
    then show ?thesis using s1 True dist by (intro exI [of _ s']) (auto simp: filter_remove1 conj_commute)
  next
    case False
    then have "i \<notin> set (running s)" "i \<notin> set (waiting s)" using dist(4) by auto
    moreover have "finish_request st i s = Inr s" using False by (simp add: finish_request_def)
    moreover obtain s' where "rfold (finish_request st) ids s = Inr s'" "sched_inv hf nh s'"
      "requests s' = filter (\<lambda>x. x \<notin> set ids) (requests s)" "running s' = filter (\<lambda>x. x \<notin> set ids) (running s)"
      "waiting s' = filter (\<lambda>x. x \<notin> set ids) (waiting s)"
      "\<forall>rid. req_to_blocks (kvm s') rid = (if rid \<in> set ids \<inter> set (requests s) then [] else req_to_blocks (kvm s) rid)"
      using Cons.IH [OF Cons.prems] by blast
    ultimately show ?thesis using False by (intro exI [of _ s']) (auto intro!: filter_cong)
  qed
qed simp

section \<open>Update\<close>

lemma free_processed_ok:
  assumes "free_processed_inputs r e = Inr e'" "encoder_ok P e" "P (request_id r) = mm_positions r"
  shows "encoder_ok P e' \<and> fst ` set (cached e') \<subseteq> fst ` set (cached e)"
proof -
  define body where "body = (\<lambda>i e. rbind (py_get (mm_positions r) i) (\<lambda>pos.
              if offset pos + plen pos \<le> num_computed_tokens r then free_encoder_input r i e else Inr e))"
  have "encoder_ok P e' \<and> fst ` set (cached e') \<subseteq> fst ` set (cached e)"
    if "rfold body ids e = Inr e'" "encoder_ok P e" "distinct ids" "\<forall>i \<in> set ids. has_cache r i e" for ids e
    using that
  proof (induction ids arbitrary: e)
    case (Cons i ids)
    obtain e1 where b: "body i e = Inr e1" and rest: "rfold body ids e1 = Inr e'" using Cons.prems(1) by auto
    show ?case
    proof (cases "e1 = e")
      case True
      then show ?thesis using Cons.IH [OF rest] Cons.prems by simp
    next
      case False
      have f: "free_encoder_input r i e = Inr e1" using b False by (auto simp: body_def split: if_splits)
      have has: "has_cache r i e" using Cons.prems(4) by simp
      obtain e2 where e2: "free_encoder_input r i e = Inr e2" "encoder_ok P e2" "get_cached_input_ids r e2 = remove1 i (get_cached_input_ids r e)"
        "\<forall>rid. rid \<noteq> request_id r \<longrightarrow> map_of (cached e2) rid = map_of (cached e) rid"
        by (rule free_encoder_input_ok [OF Cons.prems(2) assms(3) has]) blast
      have e12: "e2 = e1" using e2(1) f by simp
      have "\<forall>j \<in> set ids. has_cache r j e1" using Cons.prems(3,4) e2(3) unfolding has_cache_def e12 by (metis distinct.simps(2) in_set_remove1 list.set_intros(2))
      then have ih: "encoder_ok P e' \<and> fst ` set (cached e') \<subseteq> fst ` set (cached e1)"
        using Cons.IH [OF rest] e2(2) Cons.prems(3) by (simp add: e12)
      have "fst ` set (cached e1) \<subseteq> fst ` set (cached e)"
      proof
        fix q assume q: "q \<in> fst ` set (cached e1)"
        show "q \<in> fst ` set (cached e)"
        proof (cases "q = request_id r")
          case True
          have "map_of (cached e) q \<noteq> None" using has True by (cases "map_of (cached e) q") (simp_all add: has_cache_def get_cached_input_ids_def)
          then show ?thesis by (simp add: map_of_eq_None_iff)
        next
          case False
          have "map_of (cached e1) q \<noteq> None" using q by (simp add: map_of_eq_None_iff)
          then have "map_of (cached e) q \<noteq> None" using e2(4) False e12 by simp
          then show ?thesis by (simp add: map_of_eq_None_iff)
        qed
      qed
      then show ?thesis using ih by blast
    qed
  qed simp
  moreover have "distinct (get_cached_input_ids r e)" "\<forall>i \<in> set (get_cached_input_ids r e). has_cache r i e"
    using encoder_ok_entry(2) [OF assms(2), of "request_id r"] by (simp_all add: get_cached_input_ids_def has_cache_def split: option.split)
  ultimately show ?thesis using assms(1,2) by (simp add: free_processed_inputs_def body_def)
qed

lemma append_tokens_inv:
  assumes "append_tokens rid ts n s = Inr (stopped, k, s')" "sched_inv hf nh (s\<lparr>running := new @ rid # rest\<rparr>)"
  shows "if stopped then sched_inv hf nh (s'\<lparr>running := new @ rest\<rparr>) else sched_inv hf nh (s'\<lparr>running := new @ rid # rest\<rparr>)"
  using assms
proof (induction rid ts n s arbitrary: stopped k s' rule: append_tokens.induct)
  case (2 rid t ts n s)
  define r0 where "r0 = append_output_token_ids [t] (objs s rid)"
  obtain b r where c: "check_stop r0 (sch_max_model_len s) = Inr (b, r)"
    and rest2: "(if b then rbind (free_request rid (upd_obj rid (\<lambda>_. r) s)) (\<lambda>s2. Inr (True, Suc n, s2))
      else append_tokens rid ts (Suc n) (upd_obj rid (\<lambda>_. r) s)) = Inr (stopped, k, s')"
    using "2.prems"(1) by (auto simp: r0_def Let_def)
  obtain st sr where r: "r = r0\<lparr>status := st, stop_reason := sr\<rparr>" and fin: "b \<longrightarrow> status_finished st" and nfin: "\<not> b \<longrightarrow> r = r0"
    by (rule check_stop_cases [OF c])
  have r0: "status r0 = status (objs s rid)" "request_id r0 = request_id (objs s rid)" "mm_positions r0 = mm_positions (objs s rid)"
    by (simp_all add: r0_def append_output_token_ids_def)
  define u where "u = s\<lparr>running := new @ rid # rest\<rparr>"
  have inv: "sched_inv hf nh u" using "2.prems"(2) by (simp add: u_def)
  have q: "queues_ok u" using inv by (simp add: sched_inv_def)
  then have rid: "rid \<in> set (requests u)" "rid \<notin> set (new @ rest)" "rid \<notin> set (waiting u)" "request_id (objs u rid) = rid"
    by (auto simp: queues_ok_def u_def)
  show ?case
  proof (cases b)
    case True
    have rr: "status_finished (status r)" "request_id r = rid" "mm_positions r = mm_positions (objs u rid)"
      using fin True r0 rid(4) by (simp_all add: r u_def)
    define t where "t = (u\<lparr>objs := (objs u)(rid := r)\<rparr>)\<lparr>running := remove1 rid (running u), waiting := remove1 rid (waiting u)\<rparr>"
    obtain s1 where s1: "free_request rid t = Inr s1" "sched_inv hf nh s1" "running s1 = remove1 rid (running u)"
      by (rule free_finished [OF inv rid(1) rr t_def])
    have ru: "remove1 rid (running u) = new @ rest" using rid(2) by (simp add: u_def remove1_append)
    have tt: "t = (upd_obj rid (\<lambda>_. r) s)\<lparr>running := new @ rest\<rparr>"
      by (rule scheduler.equality) (use ru rid(3) in \<open>simp_all add: t_def u_def upd_obj_def remove1_idem\<close>)
    obtain s2 where s2: "free_request rid (upd_obj rid (\<lambda>_. r) s) = Inr s2" "s' = s2" "stopped" using rest2 True by auto
    have "free_request rid t = Inr (s2\<lparr>running := new @ rest\<rparr>)"
      using s2(1) unfolding tt by (auto simp: free_request_def Let_def upd_obj_def split: if_splits)
    then show ?thesis using s1(1,2) s2 by simp
  next
    case False
    have "upd_obj rid (\<lambda>_. r) u = upd_obj rid (\<lambda>x. x\<lparr>output_token_ids := output_token_ids r, all_token_ids := all_token_ids r\<rparr>) u"
      using nfin False by (simp add: upd_obj_def r0_def append_output_token_ids_def u_def)
    moreover have "sched_inv hf nh (upd_obj rid (\<lambda>x. x\<lparr>output_token_ids := output_token_ids r, all_token_ids := all_token_ids r\<rparr>) u)"
      by (rule sched_inv_upd [OF inv]) simp_all
    ultimately have "sched_inv hf nh ((upd_obj rid (\<lambda>_. r) s)\<lparr>running := new @ rid # rest\<rparr>)" by (simp add: u_def)
    then show ?thesis using "2.IH" [OF c [unfolded r0_def] refl refl False] rest2 False by simp
  qed
qed simp

lemma emit_output_inv:
  assumes "emit_output mo rid ts s outs = Inr (s', outs')" "sched_inv hf nh (s\<lparr>running := q\<rparr>)"
  shows "sched_inv hf nh (s'\<lparr>running := q\<rparr>)"
proof (cases "ts = []")
  case True
  then show ?thesis using assms by (auto simp: emit_output_def split: if_splits)
next
  case False
  obtain evs r where t: "take_events (objs s rid) = (evs, r)" by (cases "take_events (objs s rid)")
  have "upd_obj rid (\<lambda>_. r) (s\<lparr>running := q\<rparr>) = upd_obj rid (\<lambda>x. x\<lparr>events := []\<rparr>) (s\<lparr>running := q\<rparr>)"
    using t by (intro scheduler.equality) (auto simp: upd_obj_def take_events_def split: if_splits)
  moreover have "sched_inv hf nh (upd_obj rid (\<lambda>x. x\<lparr>events := []\<rparr>) (s\<lparr>running := q\<rparr>))" by (rule sched_inv_upd [OF assms(2)]) simp_all
  ultimately show ?thesis using assms(1) False t by (auto simp: emit_output_def)
qed

lemma reject_drafts_frame:
  assumes "reject_drafts so rid g s st = Inr (s', st')"
  shows "\<exists>x. s' = upd_obj rid (\<lambda>r. r\<lparr>num_computed_tokens := x\<rparr>) s"
proof (cases "map_of (out_spec_decode_tokens so) rid = None \<or> map_of (out_spec_decode_tokens so) rid = Some []")
  case True
  then have "s' = s" using assms by (auto simp: reject_drafts_def)
  then show ?thesis by (intro exI [of _ "num_computed_tokens (objs s rid)"]) (simp add: upd_obj_def)
next
  case False
  then obtain t ts where "map_of (out_spec_decode_tokens so) rid = Some (t # ts)" by (cases "map_of (out_spec_decode_tokens so) rid") (auto simp: neq_Nil_conv)
  then show ?thesis using assms by (auto simp: reject_drafts_def Let_def upd_obj_def)
qed

lemma update_request_inv:
  assumes "update_request so mo rid (s, new, outs, st) = Inr (s', new', outs', st')" "sched_inv hf nh (s\<lparr>running := new @ rid # rest\<rparr>)"
  shows "sched_inv hf nh (s'\<lparr>running := new' @ rest\<rparr>)"
proof (cases "map_of (out_num_scheduled_tokens so) rid = None \<or> map_of (out_num_scheduled_tokens so) rid = Some 0")
  case True
  then show ?thesis using assms by (auto simp: update_request_def)
next
  case False
  then obtain n where n: "map_of (out_num_scheduled_tokens so) rid = Some n" "n \<noteq> 0" by auto
  define q where "q = new @ rid # rest"
  obtain i g s1 st1 e s2 stopped k s3 s4 where
    rej: "reject_drafts so rid g s st = Inr (s1, st1)" and e: "free_processed_inputs (objs s1 rid) (encoder_cache_manager s1) = Inr e"
    and s2: "(case mro_spec_token_ids mo of None \<Rightarrow> Inr (s1\<lparr>encoder_cache_manager := e\<rparr>)
                | Some sp \<Rightarrow> rbind (py_get sp i) (\<lambda>ts. Inr (upd_obj rid (\<lambda>r. r\<lparr>spec_token_ids := ts\<rparr>) (s1\<lparr>encoder_cache_manager := e\<rparr>)))) = Inr s2"
    and app: "append_tokens rid g 0 s2 = Inr (stopped, k, s3)" and em: "emit_output mo rid (take k g) s3 outs = Inr (s', outs')"
    and new': "new' = (if stopped then new else new @ [rid])"
    using assms(1) n unfolding update_request_def by auto
  obtain x where s1: "s1 = upd_obj rid (\<lambda>r. r\<lparr>num_computed_tokens := x\<rparr>) s" using reject_drafts_frame [OF rej] by blast
  have inv1: "sched_inv hf nh (s1\<lparr>running := q\<rparr>)" unfolding s1 upd_obj_running by (rule sched_inv_upd) (use assms(2) in \<open>simp_all add: q_def\<close>)
  define u where "u = s1\<lparr>running := q\<rparr>"
  have "rid \<in> set (requests u)" "queues_ok u" using inv1 by (auto simp: sched_inv_def queues_ok_def u_def q_def)
  then have id: "request_id (objs u rid) = rid" by (simp add: queues_ok_def)
  have eo: "encoder_ok (positions u) (encoder_cache_manager u)" using inv1 by (simp add: sched_inv_def caches_ok_def u_def)
  have "encoder_ok (positions u) e \<and> fst ` set (cached e) \<subseteq> fst ` set (cached (encoder_cache_manager u))"
    using free_processed_ok [OF e, of "positions u"] eo id by (simp add: u_def positions_def)
  then have inv2: "sched_inv hf nh (u\<lparr>encoder_cache_manager := e\<rparr>)" using sched_inv_encoder inv1 by (simp add: u_def)
  have "sched_inv hf nh (s2\<lparr>running := q\<rparr>)"
  proof (cases "mro_spec_token_ids mo")
    case None
    then have "s2 = s1\<lparr>encoder_cache_manager := e\<rparr>" using s2 by simp
    then have "s2\<lparr>running := q\<rparr> = u\<lparr>encoder_cache_manager := e\<rparr>" by (intro scheduler.equality) (simp_all add: u_def)
    then show ?thesis using inv2 by simp
  next
    case (Some sp)
    then obtain ts where "s2 = upd_obj rid (\<lambda>r. r\<lparr>spec_token_ids := ts\<rparr>) (s1\<lparr>encoder_cache_manager := e\<rparr>)" using s2 by auto
    then have "s2\<lparr>running := q\<rparr> = upd_obj rid (\<lambda>r. r\<lparr>spec_token_ids := ts\<rparr>) (u\<lparr>encoder_cache_manager := e\<rparr>)"
      by (intro scheduler.equality) (simp_all add: u_def upd_obj_def)
    moreover have "sched_inv hf nh (upd_obj rid (\<lambda>r. r\<lparr>spec_token_ids := ts\<rparr>) (u\<lparr>encoder_cache_manager := e\<rparr>))"
      by (rule sched_inv_upd [OF inv2]) simp_all
    ultimately show ?thesis by simp
  qed
  then have "if stopped then sched_inv hf nh (s3\<lparr>running := new @ rest\<rparr>) else sched_inv hf nh (s3\<lparr>running := new @ rid # rest\<rparr>)"
    using append_tokens_inv [OF app] by (simp add: q_def)
  then show ?thesis using emit_output_inv [OF em] by (cases stopped) (auto simp: new')
qed

lemma update_loop_inv:
  "rfold (update_request so mo) rest (s, new, outs, st) = Inr (s', new', outs', st') \<Longrightarrow> sched_inv hf nh (s\<lparr>running := new @ rest\<rparr>) \<Longrightarrow>
   sched_inv hf nh (s'\<lparr>running := new'\<rparr>)"
proof (induction rest arbitrary: s new outs st)
  case (Cons rid rest)
  obtain s1 new1 outs1 st1 where a: "update_request so mo rid (s, new, outs, st) = Inr (s1, new1, outs1, st1)"
    and b: "rfold (update_request so mo) rest (s1, new1, outs1, st1) = Inr (s', new', outs', st')" using Cons.prems(1) by auto
  show ?case by (rule Cons.IH [OF b update_request_inv [OF a Cons.prems(2)]])
qed simp

lemma return_cached_data_frame:
  "\<exists>c. return_cached_data ds s = s\<lparr>cached_reqs_data := c\<rparr> \<and>
     ((\<forall>rid. \<forall>d \<in> set (cached_reqs_data s rid). crd_req_id d = rid) \<longrightarrow> (\<forall>rid. \<forall>d \<in> set (c rid). crd_req_id d = rid))"
proof (induction ds arbitrary: s)
  case Nil
  then show ?case by (intro exI [of _ "cached_reqs_data s"]) (simp add: return_cached_data_def)
next
  case (Cons d ds)
  define s1 where "s1 = (if crd_req_id d \<in> set (finished_req_ids s) then s
                 else s\<lparr>cached_reqs_data := (cached_reqs_data s)(crd_req_id d := cached_reqs_data s (crd_req_id d) @ [d])\<rparr>)"
  obtain c where c: "return_cached_data ds s1 = s1\<lparr>cached_reqs_data := c\<rparr>"
    "(\<forall>rid. \<forall>d \<in> set (cached_reqs_data s1 rid). crd_req_id d = rid) \<longrightarrow> (\<forall>rid. \<forall>d \<in> set (c rid). crd_req_id d = rid)"
    using Cons.IH by blast
  have "return_cached_data (d # ds) s = s\<lparr>cached_reqs_data := c\<rparr>" using c(1) by (simp add: return_cached_data_def s1_def)
  moreover have "(\<forall>rid. \<forall>d \<in> set (cached_reqs_data s rid). crd_req_id d = rid) \<longrightarrow> (\<forall>rid. \<forall>d \<in> set (cached_reqs_data s1 rid). crd_req_id d = rid)"
    by (auto simp: s1_def)
  ultimately show ?case using c(2) by blast
qed

lemma update_from_output_inv:
  assumes "update_from_output so mo s = Inr (out, s')" "sched_inv hf nh s"
  shows "sched_inv hf nh s'"
proof -
  obtain s1 new outs st stats where l: "rfold (update_request so mo) (running s) (s, [], [], None) = Inr (s1, new, outs, st)"
    and m: "make_stats ((return_cached_data (scheduled_cached_reqs so) s1)\<lparr>running := new\<rparr>) st = Inr (stats, s')"
    using assms(1) by (auto simp: update_from_output_def Let_def)
  have inv1: "sched_inv hf nh (s1\<lparr>running := new\<rparr>)" using update_loop_inv [OF l] assms(2) by simp
  obtain c where c: "return_cached_data (scheduled_cached_reqs so) s1 = s1\<lparr>cached_reqs_data := c\<rparr>"
    "(\<forall>rid. \<forall>d \<in> set (cached_reqs_data s1 rid). crd_req_id d = rid) \<longrightarrow> (\<forall>rid. \<forall>d \<in> set (c rid). crd_req_id d = rid)"
    using return_cached_data_frame by blast
  define u where "u = (s1\<lparr>cached_reqs_data := c\<rparr>)\<lparr>running := new\<rparr>"
  have u: "u = (s1\<lparr>running := new\<rparr>)\<lparr>cached_reqs_data := c\<rparr>" by (rule scheduler.equality) (simp_all add: u_def)
  have "\<forall>rid. \<forall>d \<in> set (c rid). crd_req_id d = rid" using inv1 c(2) by (simp add: sched_inv_def)
  then have inv2: "sched_inv hf nh u" unfolding u by (rule sched_inv_data [OF inv1])
  have "s' = u \<or> (\<exists>p. make_prefix_cache_stats (kvm u) = (p, kvm s') \<and> s' = u\<lparr>kvm := kvm s'\<rparr>)"
    using m unfolding c(1) u_def [symmetric] by (auto simp: make_stats_def split: if_splits prod.splits option.splits)
  then show ?thesis using inv2 sched_inv_kvm [OF inv2] step_stats by metis
qed

section \<open>Reachable states\<close>

lemma encoder_ok_cong:
  assumes "\<And>rid. rid \<in> fst ` set (cached e) \<Longrightarrow> P rid = Q rid"
  shows "encoder_ok P e = encoder_ok Q e"
proof -
  have "P rid = Q rid" if "map_of (cached e) rid = Some ids" for rid ids
    using assms [of rid] map_of_SomeD [OF that] by force
  moreover have "used_slots (slots P) (cached e) = used_slots (slots Q) (cached e)"
  proof -
    have "slots P a = slots Q a" if "(a, b) \<in> set (cached e)" for a b
      using assms [of a] that by (force simp: slots_def fun_eq_iff)
    then show ?thesis unfolding used_slots_def by (intro arg_cong [where f = sum_list] map_cong refl) auto
  qed
  ultimately show ?thesis unfolding encoder_ok_def by metis
qed

lemma add_request_inv:
  assumes "sched_inv hf nh s" "request_id r \<notin> set (requests s)" "waiting_status (status r)"
  shows "sched_inv hf nh (add_request r s)"
proof -
  define r' where "r' = (if sch_log_stats s then record_event QUEUED r else r)"
  have r': "status r' = status r" "request_id r' = request_id r" by (simp_all add: r'_def)
  have a: "add_request r s = s\<lparr>objs := (objs s)(request_id r := r'), waiting := waiting s @ [request_id r], requests := request_id r # requests s\<rparr>"
    using assms(2) by (simp add: add_request_def r'_def)
  have q: "queues_ok s" and c: "caches_ok hf nh s" using assms(1) by (simp_all add: sched_inv_def)
  have "queues_ok (add_request r s)"
    using q assms(2,3) r' unfolding a queues_ok_def by auto
  moreover have "encoder_ok (positions (add_request r s)) (encoder_cache_manager s) = encoder_ok (positions s) (encoder_cache_manager s)"
    by (rule encoder_ok_cong) (use c assms(2) in \<open>auto simp: positions_def a caches_ok_def\<close>)
  then have "caches_ok hf nh (add_request r s)" using c by (auto simp: caches_ok_def a)
  ultimately show ?thesis using assms(1) by (simp add: sched_inv_def a)
qed

lemma scheduler_init_inv:
  assumes "scheduler_init a b c d e f g h i j k l m n q st = Inr s" "0 \<le> b"
  shows "sched_inv hf nh s"
proof -
  obtain x y kv eg lo where g: "g = Inr (x, y)" and kv: "kvm_init m n l c q eg lo = Inr kv"
    and s: "s = \<lparr>max_num_running_reqs = a, max_num_scheduled_tokens = b, sch_max_model_len = c,
             long_prefill_token_threshold = d, disable_chunked_mm_input = e, max_loras = f,
             max_num_encoder_input_tokens = x, num_spec_tokens = num_spec_tokens s,
             num_lookahead_tokens = num_lookahead_tokens s, sch_log_stats = i, include_finished_set = j,
             kvm = kv, encoder_cache_manager = encoder_init y, objs = st, requests = [],
             waiting = [], running = [], finished_req_ids = [], cached_reqs_data = (\<lambda>_. [])\<rparr>"
    using assms(1) unfolding scheduler_init_def by (auto simp: Let_def split: if_splits)
  have k: "kvm_reachable hf nh kv" by (rule kvm_reachable.reach_init [OF kv])
  have "kvm s = kv" "encoder_cache_manager s = encoder_init y" "requests s = []" "waiting s = []" "running s = []"
    "max_num_scheduled_tokens s = b" "cached_reqs_data s = (\<lambda>_. [])"
    by (subst s, simp)+
  then show ?thesis using k encoder_init_ok [of "positions s" y] assms(2)
    by (simp add: sched_inv_def queues_ok_def caches_ok_def) (simp add: encoder_init_def)
qed

text \<open>
  The engine adds new requests under fresh ids, alternates \<open>schedule\<close> and \<open>update_from_output\<close> with
  arbitrary answers of the model, aborts requests at any time, and resets the prefix cache; grammars
  become ready in the background. Connector answers may differ from step to step.
\<close>

inductive sched_reachable :: "hash_fn \<Rightarrow> int \<Rightarrow> scheduler \<Rightarrow> bool" for hf nh where
  init: "scheduler_init a b c d e f g h i j k l m n q st = Inr s \<Longrightarrow> 0 \<le> b \<Longrightarrow> sched_reachable hf nh s"
| add: "sched_reachable hf nh s \<Longrightarrow> request_id r \<notin> set (requests s) \<Longrightarrow> status r = WAITING \<or> status r = WAITING_FOR_FSM \<Longrightarrow>
    sched_reachable hf nh (add_request r s)"
| schedule: "sched_reachable hf nh s \<Longrightarrow> schedule hf nh ext s = Inr (out, s') \<Longrightarrow> sched_reachable hf nh s'"
| update: "sched_reachable hf nh s \<Longrightarrow> update_from_output so mo s = Inr (outs, s') \<Longrightarrow> sched_reachable hf nh s'"
| finish: "sched_reachable hf nh s \<Longrightarrow> finish_requests ids st s = Inr s' \<Longrightarrow> sched_reachable hf nh s'"
| grammar: "sched_reachable hf nh s \<Longrightarrow> sched_reachable hf nh (upd_obj rid (\<lambda>r. r\<lparr>grammar_ready := True\<rparr>) s)"
| reset: "sched_reachable hf nh s \<Longrightarrow> sch_reset_prefix_cache s = Inr (b, s') \<Longrightarrow> sched_reachable hf nh s'"

lemma finish_requests_inv:
  assumes "finish_requests ids st s = Inr s'" "sched_inv hf nh s"
  shows "sched_inv hf nh s'"
proof -
  have "status_finished st" "rfold (finish_request st) (remdups ids) s = Inr s'"
    using assms(1) by (auto simp: finish_requests_def split: if_splits)
  then show ?thesis using finish_requests_loop [OF assms(2), of st "remdups ids"] by auto
qed

lemma sched_reachable_inv: "sched_reachable hf nh s \<Longrightarrow> sched_inv hf nh s"
proof (induction rule: sched_reachable.induct)
  case (init a b c d e f g h i j k l m n q st s)
  then show ?case by (rule scheduler_init_inv)
next
  case (add s r)
  then show ?case by (intro add_request_inv) (auto simp: waiting_status_def)
next
  case (grammar s rid)
  then show ?case by (intro sched_inv_upd) simp_all
next
  case (reset s b s')
  then obtain m where "kvm_reset_prefix_cache (kvm s) = Inr (b, m)" "s' = s\<lparr>kvm := m\<rparr>" by (auto simp: sch_reset_prefix_cache_def)
  then show ?case using sched_inv_kvm [OF reset.IH step_reset] by simp
qed (blast intro: schedule_inv update_from_output_inv finish_requests_inv)+

section \<open>Properties\<close>

text \<open>
  C33: Scheduling respects its limits. From every reachable state, whatever the KV cache, the encoder
  budget and the connector answer, the assertions after the two loops hold: the scheduled tokens
  stay within the token budget and the running requests within their limit. Tokens are scheduled for
  running requests only, once each, and never for a request that the same step preempted; after a
  preemption no waiting request is admitted. Preempted requests return to the head of the queue,
  and the requests that stay waiting keep their order.
\<close>

theorem schedule_within_limits:
  assumes "sched_reachable hf nh s" and "schedule_loops hf nh ext s = Inr (s', v)"
  shows "constraints_ok s' v \<and> distinct (map fst (num_scheduled_tokens v)) \<and> set (map fst (num_scheduled_tokens v)) \<subseteq> set (running s') \<and>
    set (v_preempted_reqs v) \<inter> set (running s') = {} \<and>
    (\<exists>kept adm. running s = kept @ rev (v_preempted_reqs v) \<and> running s' = kept @ adm \<and> (v_preempted_reqs v = [] \<or> adm = []) \<and>
      waiting s' = rev (v_preempted_reqs v) @ filter (\<lambda>x. x \<notin> set adm) (waiting s))"
proof -
  have q: "queues_ok s" "length (running s) \<le> max_num_running_reqs s" "0 \<le> max_num_scheduled_tokens s"
    using sched_reachable_inv [OF assms(1)] by (simp_all add: sched_inv_def)
  obtain pre kept adm where r: "running s = kept @ rev pre" "running s' = kept @ adm" "v_preempted_reqs v = pre"
    "pre = [] \<or> adm = []" "set adm \<subseteq> set (waiting s)" "waiting s' = rev pre @ filter (\<lambda>x. x \<notin> set adm) (waiting s)"
    "map fst (num_scheduled_tokens v) = v_running_reqs v @ adm" "distinct (v_running_reqs v)" "set (v_running_reqs v) \<subseteq> set kept"
    "length (v_new_reqs v) + length (v_resumed_reqs v) = length adm" "length (running s') \<le> max_num_running_reqs s"
    "token_budget v = max_num_scheduled_tokens s - total_scheduled v" "0 \<le> token_budget v" "queues_ok s'" "same_config s s'"
    by (rule schedule_loops_result [OF assms(2) q])
  have dist: "distinct (running s')" "set (running s') \<inter> set (waiting s') = {}" using r(14) by (auto simp: queues_ok_def)
  have "length (v_running_reqs v) \<le> length kept" using r(8,9) by (metis card_mono distinct_card finite_set card_length order_trans)
  then have "constraints_ok s' v" using r(2,10-13,15) by (simp add: constraints_ok_def same_config_def)
  moreover have "distinct (v_running_reqs v @ adm)" using dist(1) r(2,8,9) by auto
  moreover have "set (v_running_reqs v @ adm) \<subseteq> set (running s')" using r(2,9) by auto
  moreover have "set pre \<inter> set (running s') = {}" using dist(2) r(6) by auto
  ultimately show ?thesis using r(1-4,6,7) by auto
qed

text \<open>
  C34: No request is lost or duplicated. In every reachable state each request the scheduler knows is
  in exactly one of the two queues, with the status of that queue, and at most the permitted number of
  requests runs.
\<close>

theorem every_request_queued_once:
  assumes "sched_reachable hf nh s"
  shows "get_num_unfinished_requests s = length (requests s) \<and>
    (\<forall>rid. rid \<in> set (requests s) \<longleftrightarrow> (rid \<in> set (running s)) \<noteq> (rid \<in> set (waiting s))) \<and>
    (\<forall>rid. rid \<in> set (running s) \<union> set (waiting s) \<longrightarrow> rid \<in> set (requests s) \<and> request_id (objs s rid) = rid \<and>
      (status (objs s rid) = RUNNING \<longleftrightarrow> rid \<in> set (running s)) \<and> \<not> is_finished (objs s rid)) \<and>
    length (running s) \<le> max_num_running_reqs s"
proof -
  have inv: "sched_inv hf nh s" by (rule sched_reachable_inv [OF assms])
  have q: "distinct (running s @ waiting s)" "distinct (requests s)" "set (requests s) = set (running s @ waiting s)"
    and st: "\<forall>rid \<in> set (running s). status (objs s rid) = RUNNING" "\<forall>rid \<in> set (waiting s). waiting_status (status (objs s rid))"
      "\<forall>rid \<in> set (requests s). request_id (objs s rid) = rid"
    using inv by (simp_all add: sched_inv_def queues_ok_def)
  have "length (requests s) = length (running s @ waiting s)" using q by (metis distinct_card)
  moreover have disj: "set (running s) \<inter> set (waiting s) = {}" using q(1) by simp
  moreover have "\<not> is_finished (objs s rid)" if "rid \<in> set (running s) \<union> set (waiting s)" for rid
    using that st finished_not_running by (auto simp: is_finished_def)
  moreover have "status (objs s rid) = RUNNING \<longleftrightarrow> rid \<in> set (running s)" if "rid \<in> set (running s) \<union> set (waiting s)" for rid
    using that st by (auto simp: waiting_status_def)
  ultimately show ?thesis using q(3) st(3) inv by (auto simp: get_num_unfinished_requests_def sched_inv_def)
qed

text \<open>
  C35: Aborting requests never fails. In every reachable state \<open>finish_requests\<close> with a finished status
  returns; the named requests leave the scheduler and give back all their KV blocks, the others keep
  their places in the queues and their blocks.
\<close>

theorem finish_requests_total:
  assumes "sched_reachable hf nh s" and "status_finished st"
  shows "\<exists>s'. finish_requests ids st s = Inr s' \<and> requests s' = filter (\<lambda>x. x \<notin> set ids) (requests s) \<and>
    running s' = filter (\<lambda>x. x \<notin> set ids) (running s) \<and> waiting s' = filter (\<lambda>x. x \<notin> set ids) (waiting s) \<and>
    (\<forall>rid. req_to_blocks (kvm s') rid = (if rid \<in> set ids \<inter> set (requests s) then [] else req_to_blocks (kvm s) rid))"
  using finish_requests_loop [OF sched_reachable_inv [OF assms(1)] assms(2), of "remdups ids"] assms(2)
  by (auto simp: finish_requests_def)

text \<open>
  Reusing the kept data objects is invisible. In every reachable state the message made for a
  request that was scheduled before equals the one built from scratch, and it carries the tokens
  from the computed ones on.
\<close>

theorem cached_request_data_fresh:
  assumes "sched_reachable hf nh s" and "rid \<in> set (requests s)"
  shows "fst (make_cached_request_data (objs s rid) n k bs resumed s) =
    cached_request_data_of (objs s rid) resumed
      (py_islice (num_computed_tokens (objs s rid)) (num_computed_tokens (objs s rid) + (n - int k)) (all_token_ids (objs s rid))) bs"
proof -
  have inv: "sched_inv hf nh s" by (rule sched_reachable_inv [OF assms(1)])
  have id: "request_id (objs s rid) = rid" using inv assms(2) by (simp add: sched_inv_def queues_ok_def)
  have "crd_req_id d = rid" if "cached_reqs_data s rid = d # ds" for d ds
    using inv that unfolding sched_inv_def by (metis list.set_intros(1))
  then show ?thesis
    by (cases "cached_reqs_data s rid") (auto simp: make_cached_request_data_def cached_request_data_of_def Let_def id)
qed

section \<open>A run\<close>

text \<open>
  Two requests with images on a scheduler with a token limit of two per prefill. The encoder cache has
  six slots.
\<close>

definition sample_scheduler :: "scheduler result" where
  "sample_scheduler = scheduler_init 4 16 64 2 False None (Inr (6, 6)) None True False (Some 10) 10 4 [FullAttention] True (\<lambda>rid. text_request rid [])"

definition vision_request :: "string \<Rightarrow> placeholder_range list \<Rightarrow> request" where
  "vision_request rid ps = (text_request rid [1, 2, 3, 4, 5, 6])
     \<lparr>mm_positions := ps, num_encoder_inputs := length ps, mm_hashes := map (\<lambda>_. Some rid) ps\<rparr>"

definition prefill_answer :: model_runner_output where
  "prefill_answer = \<lparr>req_id_to_index = [(''a'', 0), (''b'', 1)], sampled_token_ids = [[], []], mro_spec_token_ids = None, prompt_logprobs_ids = []\<rparr>"

definition first_step :: "(scheduler_output \<times> scheduler) result" where
  "first_step = rbind sample_scheduler (\<lambda>s. schedule (\<lambda>_. 7) 0 (\<lambda>_ _. 0) (add_request (vision_request ''a'' [\<lparr>offset = 0, plen = 3\<rparr>]) s))"

definition second_state :: "scheduler result" where
  "second_state = rbind first_step (\<lambda>(out, s). rbind (update_from_output out prefill_answer s) (\<lambda>(eo, s').
     Inr (add_request (vision_request ''b'' [\<lparr>offset = 0, plen = 1\<rparr>, \<lparr>offset = 1, plen = 3\<rparr>]) s')))"

lemma second_state_reachable:
  assumes "second_state = Inr s"
  shows "sched_reachable (\<lambda>_. 7) 0 s"
proof -
  obtain s0 out s1 eo s2 where a: "sample_scheduler = Inr s0"
    and b: "schedule (\<lambda>_. 7) 0 (\<lambda>_ _. 0) (add_request (vision_request ''a'' [\<lparr>offset = 0, plen = 3\<rparr>]) s0) = Inr (out, s1)"
    and c: "update_from_output out prefill_answer s1 = Inr (eo, s2)"
    and d: "s = add_request (vision_request ''b'' [\<lparr>offset = 0, plen = 1\<rparr>, \<lparr>offset = 1, plen = 3\<rparr>]) s2"
    using assms unfolding second_state_def first_step_def by auto
  have st: "status (vision_request rid ps) = WAITING" "request_id (vision_request rid ps) = rid" for rid ps
    by (simp_all add: vision_request_def text_request_def)
  have r0: "sched_reachable (\<lambda>_. 7) 0 s0" by (rule sched_reachable.init [OF a [unfolded sample_scheduler_def]]) simp
  have "rbind sample_scheduler (\<lambda>s. Inr (requests s)) = Inr []" by code_simp
  then have e0: "requests s0 = []" by (simp only: a rbind_simps sum.inject)
  have r1: "sched_reachable (\<lambda>_. 7) 0 s1"
    by (rule sched_reachable.schedule [OF sched_reachable.add [OF r0] b]) (simp_all add: st e0)
  have r2: "sched_reachable (\<lambda>_. 7) 0 s2" by (rule sched_reachable.update [OF r1 c])
  have "rbind first_step (\<lambda>(out, s). rbind (update_from_output out prefill_answer s) (\<lambda>(eo, s'). Inr (requests s'))) = Inr [''a'']" by code_simp
  then have "requests s2 = [''a'']" by (simp only: first_step_def a b c rbind_simps sum.inject prod.case)
  then show ?thesis unfolding d by (intro sched_reachable.add [OF r2]) (simp_all add: st)
qed

lemma second_state_ok: "second_state = Inr (projr second_state)"
proof -
  have "isl second_state = False" by code_simp
  then show ?thesis by simp
qed

lemmas second_reachable = second_state_reachable [OF second_state_ok]

theorem schedule_within_limits_witness:
  "\<exists>s' v. schedule_loops (\<lambda>_. 7) 0 (\<lambda>_ _. 0) (projr second_state) = Inr (s', v) \<and> constraints_ok s' v \<and>
     num_scheduled_tokens v = [(''a'', 2), (''b'', 2)] \<and> set (map fst (num_scheduled_tokens v)) \<subseteq> set (running s')"
proof -
  define x where "x = schedule_loops (\<lambda>_. 7) 0 (\<lambda>_ _. 0) (projr second_state)"
  have "rbind x (\<lambda>(s', v). Inr (num_scheduled_tokens v)) = Inr [(''a'', 2), (''b'', 2)]" unfolding x_def by code_simp
  then obtain s' v where x: "x = Inr (s', v)" "num_scheduled_tokens v = [(''a'', 2), (''b'', 2)]" by auto
  show ?thesis using schedule_within_limits [OF second_reachable x(1) [unfolded x_def]] x unfolding x_def by blast
qed

theorem every_request_queued_once_witness:
  "get_num_unfinished_requests (projr second_state) = 2 \<and> status (objs (projr second_state) ''a'') = RUNNING \<and> ''b'' \<in> set (waiting (projr second_state))"
proof -
  have r: "requests (projr second_state) = [''b'', ''a'']" "running (projr second_state) = [''a'']" by code_simp+
  note q = every_request_queued_once [OF second_reachable]
  have "get_num_unfinished_requests (projr second_state) = 2" using conjunct1 [OF q] by (simp add: r)
  moreover have "''b'' \<in> set (waiting (projr second_state))" using spec [OF conjunct1 [OF conjunct2 [OF q]], of "''b''"] by (simp add: r)
  moreover have "status (objs (projr second_state) ''a'') = RUNNING"
    using spec [OF conjunct1 [OF conjunct2 [OF conjunct2 [OF q]]], of "''a''"] by (simp add: r)
  ultimately show ?thesis by blast
qed

theorem finish_requests_total_witness:
  "\<exists>s'. finish_requests [''a'', ''zz''] FINISHED_ABORTED (projr second_state) = Inr s' \<and> requests s' = [''b''] \<and> running s' = [] \<and>
     waiting s' = [''b''] \<and> req_to_blocks (kvm s') ''a'' = []"
proof -
  have r: "requests (projr second_state) = [''b'', ''a'']" "running (projr second_state) = [''a'']" "waiting (projr second_state) = [''b'']"
    by code_simp+
  have "status_finished FINISHED_ABORTED" by (simp add: status_finished_def)
  then obtain s' where "finish_requests [''a'', ''zz''] FINISHED_ABORTED (projr second_state) = Inr s'"
    "requests s' = filter (\<lambda>x. x \<notin> set [''a'', ''zz'']) (requests (projr second_state))"
    "running s' = filter (\<lambda>x. x \<notin> set [''a'', ''zz'']) (running (projr second_state))"
    "waiting s' = filter (\<lambda>x. x \<notin> set [''a'', ''zz'']) (waiting (projr second_state))"
    "\<forall>rid. req_to_blocks (kvm s') rid = (if rid \<in> set [''a'', ''zz''] \<inter> set (requests (projr second_state)) then [] else req_to_blocks (kvm (projr second_state)) rid)"
    using finish_requests_total [OF second_reachable, of FINISHED_ABORTED "[''a'', ''zz'']"] by blast
  then show ?thesis by (intro exI [of _ s']) (simp add: r)
qed

theorem cached_request_data_fresh_witness:
  "fst (make_cached_request_data (objs (projr second_state) ''a'') 2 0 [] False (projr second_state)) =
     cached_request_data_of (objs (projr second_state) ''a'') False [3, 4] []"
proof -
  have "requests (projr second_state) = [''b'', ''a'']" by code_simp
  then have a: "''a'' \<in> set (requests (projr second_state))" by simp
  have t: "py_islice (num_computed_tokens (objs (projr second_state) ''a'')) (num_computed_tokens (objs (projr second_state) ''a'') + (2 - int 0))
    (all_token_ids (objs (projr second_state) ''a'')) = [3, 4]" by code_simp
  show ?thesis unfolding cached_request_data_fresh [OF second_reachable a] t ..
qed

text \<open>
  The encoder cache can be overcommitted. The scheduler asks for each input of a request whether it
  fits before it allocates any of them, so the inputs of one request can together exceed the free
  slots, and the count of free slots becomes negative.
\<close>

theorem encoder_cache_overcommitted:
  "\<exists>s. sched_reachable (\<lambda>_. 7) 0 s \<and> num_free_slots (encoder_cache_manager s) < 0"
proof -
  define x where "x = schedule (\<lambda>_. 7) 0 (\<lambda>_ _. 0) (projr second_state)"
  have "rbind x (\<lambda>(out, s'). Inr (num_free_slots (encoder_cache_manager s'))) = Inr (- 1)" unfolding x_def by code_simp
  then obtain out s' where x: "x = Inr (out, s')" "num_free_slots (encoder_cache_manager s') = - 1" by auto
  have "sched_reachable (\<lambda>_. 7) 0 s'" by (rule sched_reachable.schedule [OF second_reachable x(1) [unfolded x_def]])
  then show ?thesis using x(2) by (intro exI [of _ s']) simp
qed

end
