(* ===== verification/Data_Proto.thy ===== *)
theory Data_Proto
  imports Prelude "HOL-Library.AList"
begin

text \<open>
  \<open>DataProto\<close> of \<open>verl/protocol.py\<close>, the batches that trainer and workers exchange.

  A tensor or an object array is the list of its rows (the first dimension); the rows are abstract.
  A \<open>TensorDict\<close> is its batch size with an association list of tensors, a dict is an association list.
  How torch and numpy cut a dimension of \<open>n\<close> rows into \<open>k\<close> pieces is a parameter of type \<open>split_fn\<close>,
  of which \<open>split_law\<close> states the documented behaviour. Methods that work in place return the changed object.
\<close>

section \<open>Dicts\<close>

text \<open>\<open>list_of_dict_to_dict_of_list\<close> of \<open>verl/utils/py_functional.py\<close>.\<close>

definition append_item :: "string \<times> 'a \<Rightarrow> (string \<times> 'a list) list \<Rightarrow> (string \<times> 'a list) list result" where
  "append_item kx out = (case map_of out (fst kx) of None \<Rightarrow> Inl AssertionError
     | Some xs \<Rightarrow> Inr (AList.update (fst kx) (xs @ [snd kx]) out))"

definition list_of_dict_to_dict_of_list :: "(string \<times> 'a) list list \<Rightarrow> (string \<times> 'a list) list result" where
  "list_of_dict_to_dict_of_list ds = (case ds of [] \<Rightarrow> Inr []
     | d0 # _ \<Rightarrow> rfold (\<lambda>d out. rfold append_item d out) ds (map (\<lambda>kv. (fst kv, [])) d0))"

text \<open>\<open>union_two_dict\<close> and \<open>union_numpy_dict\<close>: common keys must have equal values.\<close>

definition union_two_dict :: "(string \<times> 'a) list \<Rightarrow> (string \<times> 'a) list \<Rightarrow> (string \<times> 'a) list result" where
  "union_two_dict dict1 dict2 =
     rfold (\<lambda>(k, v) d. case map_of d k of Some w \<Rightarrow> if v = w then Inr (AList.update k v d) else Inl AssertionError
                       | None \<Rightarrow> Inr (AList.update k v d)) dict2 dict1"

section \<open>The data\<close>

datatype meta_value = MNone | MBool bool | MInt int | MStr string | MList "meta_value list" | MDict "(string \<times> meta_value) list"

fun truthy :: "meta_value \<Rightarrow> bool" where
  "truthy MNone = False"
| "truthy (MBool b) = b"
| "truthy (MInt i) = (i \<noteq> 0)"
| "truthy (MStr s) = (s \<noteq> [])"
| "truthy (MList xs) = (xs \<noteq> [])"
| "truthy (MDict d) = (d \<noteq> [])"

record 't tensor_dict =
  td_size :: nat
  td_items :: "(string \<times> 't list) list"

record ('t, 'n) data_proto =
  batch :: "'t tensor_dict option"
  non_tensor_batch :: "(string \<times> 'n list) list"
  meta_info :: "(string \<times> meta_value) list"

definition dp_len :: "('t, 'n) data_proto \<Rightarrow> nat" where
  "dp_len d = (case batch d of Some b \<Rightarrow> td_size b
     | None \<Rightarrow> (case non_tensor_batch d of [] \<Rightarrow> 0 | (_, v) # _ \<Rightarrow> length v))"

definition check_consistency :: "('t, 'n) data_proto \<Rightarrow> unit result" where
  "check_consistency d = (case batch d of None \<Rightarrow> Inr ()
     | Some b \<Rightarrow> if list_all (\<lambda>(k, v). length v = td_size b) (non_tensor_batch d) then Inr () else Inl AssertionError)"

text \<open>The constructor checks the consistency.\<close>

definition mk_data_proto ::
  "'t tensor_dict option \<Rightarrow> (string \<times> 'n list) list \<Rightarrow> (string \<times> meta_value) list \<Rightarrow> ('t, 'n) data_proto result" where
  "mk_data_proto b nt mi =
     (let d = \<lparr>batch = b, non_tensor_batch = nt, meta_info = mi\<rparr> in rbind (check_consistency d) (\<lambda>_. Inr d))"

definition auto_padding_key :: string where
  "auto_padding_key = ''_verl_auto_padding''"

text \<open>The global setting \<open>DataProtoConfig.auto_padding\<close> is the argument \<open>cfg\<close>.\<close>

definition is_padding_enabled :: "bool \<Rightarrow> ('t, 'n) data_proto \<Rightarrow> bool" where
  "is_padding_enabled cfg d = ((case map_of (meta_info d) auto_padding_key of None \<Rightarrow> False | Some v \<Rightarrow> truthy v) \<or> cfg)"

section \<open>Selecting rows\<close>

definition py_slice_opt :: "int option \<Rightarrow> int option \<Rightarrow> 'a list \<Rightarrow> 'a list" where
  "py_slice_opt a b xs = py_islice (case a of None \<Rightarrow> 0 | Some i \<Rightarrow> i) (case b of None \<Rightarrow> int (length xs) | Some j \<Rightarrow> j) xs"

definition dict_map :: "('a \<Rightarrow> 'b) \<Rightarrow> (string \<times> 'a) list \<Rightarrow> (string \<times> 'b) list" where
  "dict_map f d = map (\<lambda>kv. (fst kv, f (snd kv))) d"

text \<open>\<open>slice\<close> with the default step.\<close>

definition dp_slice :: "int option \<Rightarrow> int option \<Rightarrow> ('t, 'n) data_proto \<Rightarrow> ('t, 'n) data_proto result" where
  "dp_slice a b d =
     mk_data_proto (map_option (\<lambda>t. \<lparr>td_size = length (py_slice_opt a b [0..<td_size t]), td_items = dict_map (py_slice_opt a b) (td_items t)\<rparr>) (batch d))
       (dict_map (py_slice_opt a b) (non_tensor_batch d)) (meta_info d)"

text \<open>Indexing with a list of integers; negative indices count from the end, others raise. Boolean masks are not modelled.\<close>

definition dp_index :: "int list \<Rightarrow> 'a list \<Rightarrow> 'a list result" where
  "dp_index is xs = rmap (py_iget xs) is"

definition rmap_dict :: "('a \<Rightarrow> 'b result) \<Rightarrow> (string \<times> 'a) list \<Rightarrow> (string \<times> 'b) list result" where
  "rmap_dict f d = rmap (\<lambda>(k, v). rbind (f v) (\<lambda>w. Inr (k, w))) d"

definition select_idxs :: "int list \<Rightarrow> ('t, 'n) data_proto \<Rightarrow> ('t, 'n) data_proto result" where
  "select_idxs is d =
     rbind (case batch d of None \<Rightarrow> Inr None
            | Some t \<Rightarrow> rbind (rmap_dict (dp_index is) (td_items t)) (\<lambda>items. Inr (Some \<lparr>td_size = length is, td_items = items\<rparr>)))
       (\<lambda>b. rbind (rmap_dict (dp_index is) (non_tensor_batch d)) (\<lambda>nt. mk_data_proto b nt (meta_info d)))"

definition reorder :: "int list \<Rightarrow> ('t, 'n) data_proto \<Rightarrow> ('t, 'n) data_proto result" where
  "reorder is d =
     (case batch d of None \<Rightarrow> Inl TypeError
      | Some t \<Rightarrow> rbind (rmap_dict (dp_index is) (td_items t)) (\<lambda>items.
          rbind (rmap_dict (dp_index is) (non_tensor_batch d)) (\<lambda>nt.
            Inr (d\<lparr>batch := Some \<lparr>td_size = length is, td_items = items\<rparr>, non_tensor_batch := nt\<rparr>))))"

definition repeat_rows :: "nat \<Rightarrow> bool \<Rightarrow> 'a list \<Rightarrow> 'a list" where
  "repeat_rows k interleave xs = (if interleave then concat (map (replicate k) xs) else concat (replicate k xs))"

definition dp_repeat :: "nat \<Rightarrow> bool \<Rightarrow> ('t, 'n) data_proto \<Rightarrow> ('t, 'n) data_proto result" where
  "dp_repeat k interleave d =
     mk_data_proto (map_option (\<lambda>t. \<lparr>td_size = td_size t * k, td_items = dict_map (repeat_rows k interleave) (td_items t)\<rparr>) (batch d))
       (dict_map (repeat_rows k interleave) (non_tensor_batch d)) (meta_info d)"

text \<open>Each row has its own number of repetitions; a wrong number of them raises.\<close>

definition repeat_each :: "py_error \<Rightarrow> nat list \<Rightarrow> 'a list \<Rightarrow> 'a list result" where
  "repeat_each err ks xs = (if length ks = length xs then Inr (concat (map2 replicate ks xs)) else Inl err)"

definition sample_level_repeat :: "nat list \<Rightarrow> ('t, 'n) data_proto \<Rightarrow> ('t, 'n) data_proto result" where
  "sample_level_repeat ks d =
     rbind (case batch d of None \<Rightarrow> Inr None
            | Some t \<Rightarrow> rbind (rmap_dict (repeat_each RuntimeError ks) (td_items t)) (\<lambda>items. Inr (Some \<lparr>td_size = sum_list ks, td_items = items\<rparr>)))
       (\<lambda>b. rbind (rmap_dict (repeat_each ValueError ks) (non_tensor_batch d)) (\<lambda>nt. mk_data_proto b nt (meta_info d)))"

section \<open>Selecting columns\<close>

definition dp_select :: "string list option \<Rightarrow> string list option \<Rightarrow> string list option \<Rightarrow> ('t, 'n) data_proto \<Rightarrow> ('t, 'n) data_proto result" where
  "dp_select batch_keys nt_keys meta_keys d =
     rbind (case batch_keys of None \<Rightarrow> Inr (batch d)
            | Some ks \<Rightarrow> (case batch d of None \<Rightarrow> Inl AttributeError
                | Some t \<Rightarrow> if set ks \<subseteq> fst ` set (td_items t) then Inr (Some (t\<lparr>td_items := filter (\<lambda>kv. fst kv \<in> set ks) (td_items t)\<rparr>))
                            else Inl KeyError))
       (\<lambda>b. mk_data_proto b
              (case nt_keys of None \<Rightarrow> non_tensor_batch d | Some ks \<Rightarrow> filter (\<lambda>kv. fst kv \<in> set ks) (non_tensor_batch d))
              (case meta_keys of None \<Rightarrow> meta_info d | Some ks \<Rightarrow> filter (\<lambda>kv. fst kv \<in> set ks) (meta_info d)))"

definition pop_keys :: "string list \<Rightarrow> (string \<times> 'a) list \<Rightarrow> ((string \<times> 'a) list \<times> (string \<times> 'a) list) result" where
  "pop_keys ks d = rfold (\<lambda>k (out, d). case map_of d k of None \<Rightarrow> Inl AssertionError
     | Some v \<Rightarrow> Inr (AList.update k v out, AList.delete k d)) ks ([], d)"

text \<open>The batch size is that of the first tensor.\<close>

definition from_dict :: "bool \<Rightarrow> (string \<times> 't list) list \<Rightarrow> (string \<times> 'n list) list \<Rightarrow> (string \<times> meta_value) list \<Rightarrow> ('t, 'n) data_proto result" where
  "from_dict auto_padding tensors non_tensors mi =
     (let mi = (if auto_padding then AList.update auto_padding_key (MBool True) mi else mi)
      in case tensors of [] \<Rightarrow> mk_data_proto None non_tensors mi
      | (_, v) # rest \<Rightarrow>
          if list_all (\<lambda>kv. length (snd kv) = length v) rest
          then mk_data_proto (Some \<lparr>td_size = length v, td_items = tensors\<rparr>) non_tensors mi
          else Inl AssertionError)"

definition dp_pop :: "string list \<Rightarrow> string list \<Rightarrow> string list \<Rightarrow> ('t, 'n) data_proto \<Rightarrow> (('t, 'n) data_proto \<times> ('t, 'n) data_proto) result" where
  "dp_pop batch_keys nt_keys meta_keys d =
     rbind (case batch d of None \<Rightarrow> if batch_keys = [] then Inr ([], None) else Inl AttributeError
            | Some t \<Rightarrow> rbind (pop_keys batch_keys (td_items t)) (\<lambda>(out, items). Inr (out, Some (t\<lparr>td_items := items\<rparr>)))) (\<lambda>(tensors, b).
     rbind (pop_keys nt_keys (non_tensor_batch d)) (\<lambda>(non_tensors, nt).
     rbind (pop_keys meta_keys (meta_info d)) (\<lambda>(mi_out, mi).
     rbind (from_dict False tensors non_tensors mi_out) (\<lambda>popped.
       Inr (popped, \<lparr>batch = b, non_tensor_batch = nt, meta_info = mi\<rparr>)))))"

section \<open>Union\<close>

definition union_tensor_dict :: "'t tensor_dict \<Rightarrow> 't tensor_dict \<Rightarrow> 't tensor_dict result" where
  "union_tensor_dict t1 t2 =
     (if td_size t1 \<noteq> td_size t2 then Inl AssertionError
      else rbind (rfold (\<lambda>(k, v) d. case map_of d k of None \<Rightarrow> Inr (AList.update k v d)
                                   | Some w \<Rightarrow> if v = w then Inr d else Inl AssertionError) (td_items t2) (td_items t1))
        (\<lambda>items. Inr (t1\<lparr>td_items := items\<rparr>)))"

definition dp_union :: "('t, 'n) data_proto \<Rightarrow> ('t, 'n) data_proto \<Rightarrow> ('t, 'n) data_proto result" where
  "dp_union d other =
     (case (batch d, batch other) of
        (Some t1, Some t2) \<Rightarrow>
          rbind (union_tensor_dict t1 t2) (\<lambda>t.
          rbind (union_two_dict (non_tensor_batch d) (non_tensor_batch other)) (\<lambda>nt.
          rbind (union_two_dict (meta_info d) (meta_info other)) (\<lambda>mi.
            Inr \<lparr>batch = Some t, non_tensor_batch = nt, meta_info = mi\<rparr>)))
      | _ \<Rightarrow> Inl AttributeError)"

section \<open>Concatenation\<close>

text \<open>\<open>torch.cat\<close> of TensorDicts: all have the keys of the first one.\<close>

definition td_cat :: "'t tensor_dict option list \<Rightarrow> 't tensor_dict result" where
  "td_cat bs =
     (if None \<in> set bs then Inl TypeError
      else let ts = map the bs; ks = map fst (td_items (hd ts))
        in if list_all (\<lambda>t. set (map fst (td_items t)) = set ks) ts
           then Inr \<lparr>td_size = sum_list (map td_size ts),
                     td_items = map (\<lambda>k. (k, concat (map (\<lambda>t. the (map_of (td_items t) k)) ts))) ks\<rparr>
           else Inl KeyError)"

text \<open>Metrics are collected, all other values must agree.\<close>

definition merge_item :: "string \<times> meta_value \<Rightarrow> (string \<times> meta_value) list \<times> meta_value list \<Rightarrow> ((string \<times> meta_value) list \<times> meta_value list) result" where
  "merge_item = (\<lambda>(k, v) (merged, metrics).
     if k = ''metrics'' then
       Inr (merged, case v of MNone \<Rightarrow> metrics | MList xs \<Rightarrow> metrics @ xs | _ \<Rightarrow> metrics @ [v])
     else case map_of merged k of Some w \<Rightarrow> if w = v then Inr (merged, metrics) else Inl AssertionError
       | None \<Rightarrow> Inr (AList.update k v merged, metrics))"

fun dict_of_meta :: "meta_value \<Rightarrow> (string \<times> meta_value) list result" where
  "dict_of_meta (MDict d) = Inr d"
| "dict_of_meta _ = Inl AttributeError"

text \<open>\<open>list_of_dict_to_dict_of_list\<close> on the collected metrics; what is not a dict has no keys.\<close>

definition metrics_dict :: "meta_value list \<Rightarrow> (string \<times> meta_value list) list result" where
  "metrics_dict ms = (case ms of [] \<Rightarrow> Inr []
     | m0 # _ \<Rightarrow> rbind (dict_of_meta m0) (\<lambda>d0.
         rfold (\<lambda>m out. rbind (dict_of_meta m) (\<lambda>d. rfold append_item d out)) ms (map (\<lambda>kv. (fst kv, [])) d0)))"

definition merge_meta :: "(string \<times> meta_value) list list \<Rightarrow> (string \<times> meta_value) list result" where
  "merge_meta ms =
     rbind (rfold (\<lambda>m st. rfold merge_item m st) ms ([], [])) (\<lambda>(merged, metrics).
       if metrics = [] then Inr merged
       else rbind (metrics_dict metrics) (\<lambda>out. Inr (AList.update ''metrics'' (MDict (dict_map MList out)) merged)))"

definition dp_concat :: "('t, 'n) data_proto list \<Rightarrow> ('t, 'n) data_proto result" where
  "dp_concat ds =
     (case ds of [] \<Rightarrow> Inl IndexError
      | d0 # _ \<Rightarrow>
          rbind (if batch d0 = None then Inr None else rbind (td_cat (map batch ds)) (\<lambda>t. Inr (Some t))) (\<lambda>b.
          rbind (list_of_dict_to_dict_of_list (map non_tensor_batch ds)) (\<lambda>nt.
          rbind (merge_meta (map meta_info ds)) (\<lambda>mi. mk_data_proto b (dict_map concat nt) mi))))"

section \<open>Padding and splitting\<close>

fun pad_loop :: "nat \<Rightarrow> nat \<Rightarrow> nat list" where
  "pad_loop remaining_pad n = (if remaining_pad = 0 \<or> n = 0 then [] else min remaining_pad n # pad_loop (remaining_pad - min remaining_pad n) n)"

declare pad_loop.simps [simp del]

text \<open>
  \<open>pad_loop\<close> gives the sizes of the copies that are appended. It is only called for a batch with rows;
  for an empty one the length is a multiple of every divisor.
\<close>

definition pad_dataproto_to_divisor :: "nat \<Rightarrow> ('t, 'n) data_proto \<Rightarrow> (('t, 'n) data_proto \<times> nat) result" where
  "pad_dataproto_to_divisor size_divisor d =
     (if size_divisor = 0 then Inl ZeroDivisionError
      else if dp_len d mod size_divisor \<noteq> 0 then
        let pad_size = size_divisor - dp_len d mod size_divisor
        in rbind (rmap (\<lambda>k. dp_slice None (Some (int k)) d) (pad_loop pad_size (dp_len d))) (\<lambda>padding_protos.
             rbind (dp_concat (d # padding_protos)) (\<lambda>p. Inr (p, pad_size)))
      else Inr (d, 0))"

definition unpad_dataproto :: "nat \<Rightarrow> ('t, 'n) data_proto \<Rightarrow> ('t, 'n) data_proto result" where
  "unpad_dataproto pad_size d = (if pad_size \<noteq> 0 then dp_slice None (Some (- int pad_size)) d else Inr d)"

definition dp_padding :: "nat \<Rightarrow> bool \<Rightarrow> ('t, 'n) data_proto \<Rightarrow> ('t, 'n) data_proto result" where
  "dp_padding padding_size use_first d =
     (if padding_size = 0 then Inr d
      else rbind (select_idxs [if use_first then 0 else int (dp_len d) - 1] d) (\<lambda>candidate.
           rbind (dp_repeat padding_size True candidate) (\<lambda>part.
           rbind (dp_concat [d, part]) (\<lambda>p. Inr (d\<lparr>batch := batch p, non_tensor_batch := non_tensor_batch p\<rparr>)))))"

type_synonym split_fn = "nat \<Rightarrow> nat \<Rightarrow> nat list"

text \<open>Both libraries return all rows, in equal pieces when the number of pieces divides that of the rows.\<close>

definition split_law :: "split_fn \<Rightarrow> bool" where
  "split_law f \<longleftrightarrow> (\<forall>n k. 0 < n \<longrightarrow> 0 < k \<longrightarrow> sum_list (f n k) = n \<and> (k dvd n \<longrightarrow> f n k = replicate k (n div k)))"

fun split_sizes :: "nat list \<Rightarrow> 'a list \<Rightarrow> 'a list list" where
  "split_sizes [] xs = []"
| "split_sizes (n # ns) xs = take n xs # split_sizes ns (drop n xs)"

text \<open>\<open>numpy.array_split\<close> at the ends of all pieces but the last, which takes the rest.\<close>

fun split_rest :: "nat list \<Rightarrow> 'a list \<Rightarrow> 'a list list" where
  "split_rest [] xs = [xs]"
| "split_rest [n] xs = [xs]"
| "split_rest (n # m # ns) xs = take n xs # split_rest (m # ns) (drop n xs)"

definition chunk_column :: "nat list \<Rightarrow> nat \<Rightarrow> 'a list \<Rightarrow> 'a list list result" where
  "chunk_column sizes k v = (let parts = split_rest sizes v in if length parts = k then Inr parts else Inl AssertionError)"

definition td_chunk :: "nat list \<Rightarrow> 't tensor_dict \<Rightarrow> 't tensor_dict list" where
  "td_chunk sizes t = map (\<lambda>j. \<lparr>td_size = sizes ! j, td_items = dict_map (\<lambda>v. split_sizes sizes v ! j) (td_items t)\<rparr>) [0..<length sizes]"

definition dp_chunk :: "split_fn \<Rightarrow> split_fn \<Rightarrow> bool \<Rightarrow> nat \<Rightarrow> ('t, 'n) data_proto \<Rightarrow> ('t, 'n) data_proto list result" where
  "dp_chunk torch_chunk np_split cfg k d =
     (if k = 0 then
        if \<not> is_padding_enabled cfg d then Inl ZeroDivisionError
        else if batch d = None \<and> non_tensor_batch d = [] then Inr [] else Inl ValueError
      else if \<not> is_padding_enabled cfg d \<and> dp_len d mod k \<noteq> 0 then Inl AssertionError
      else let sizes = (case batch d of Some t \<Rightarrow> torch_chunk (td_size t) k | None \<Rightarrow> np_split (dp_len d) k);
               batch_lst = (case batch d of Some t \<Rightarrow> map Some (td_chunk sizes t) | None \<Rightarrow> replicate k None)
        in rbind (rmap_dict (\<lambda>v. chunk_column (if batch d = None then np_split (length v) k else sizes) k v) (non_tensor_batch d)) (\<lambda>cols.
             rmap (\<lambda>i. rbind (py_get batch_lst i) (\<lambda>b. mk_data_proto b (dict_map (\<lambda>parts. parts ! i) cols) (meta_info d))) [0..<k]))"

definition dp_split :: "nat \<Rightarrow> ('t, 'n) data_proto \<Rightarrow> ('t, 'n) data_proto list result" where
  "dp_split split_size d =
     (if split_size = 0 then Inl ValueError
      else rmap (\<lambda>j. dp_slice (Some (int (j * split_size))) (Some (int (j * split_size + split_size))) d)
             [0..<(dp_len d + split_size - 1) div split_size])"

section \<open>Row selection by indices\<close>

text \<open>All operations on rows select the same rows of every column.\<close>

definition pick :: "nat list \<Rightarrow> 'a list \<Rightarrow> 'a list" where
  "pick is xs = map (\<lambda>i. xs ! i) is"

definition td_pick :: "nat list \<Rightarrow> 't tensor_dict \<Rightarrow> 't tensor_dict" where
  "td_pick is t = \<lparr>td_size = length is, td_items = dict_map (pick is) (td_items t)\<rparr>"

definition dp_pick :: "nat list \<Rightarrow> ('t, 'n) data_proto \<Rightarrow> ('t, 'n) data_proto" where
  "dp_pick is d = \<lparr>batch = map_option (td_pick is) (batch d), non_tensor_batch = dict_map (pick is) (non_tensor_batch d), meta_info = meta_info d\<rparr>"

text \<open>A well-formed batch: every column has as many rows as the batch, no key occurs twice.\<close>

definition dict_ok :: "nat \<Rightarrow> (string \<times> 'a list) list \<Rightarrow> bool" where
  "dict_ok n d \<longleftrightarrow> distinct (map fst d) \<and> (\<forall>kv \<in> set d. length (snd kv) = n)"

definition dp_ok :: "('t, 'n) data_proto \<Rightarrow> bool" where
  "dp_ok d \<longleftrightarrow> (\<forall>t. batch d = Some t \<longrightarrow> dict_ok (td_size t) (td_items t)) \<and> dict_ok (dp_len d) (non_tensor_batch d) \<and>
     distinct (map fst (meta_info d)) \<and> ''metrics'' \<notin> fst ` set (meta_info d)"

lemma pick_upt: "length xs = n \<Longrightarrow> pick [0..<n] xs = xs"
  by (metis map_nth pick_def)

lemma pick_append: "pick (is @ js) xs = pick is xs @ pick js xs"
  by (simp add: pick_def)

lemma pick_concat: "pick (concat Is) xs = concat (map (\<lambda>i. pick i xs) Is)"
  by (induction Is) (simp_all add: pick_append, simp add: pick_def)

lemma length_pick [simp]: "length (pick is xs) = length is"
  by (simp add: pick_def)

lemma dict_map_id: "(\<And>kv. kv \<in> set d \<Longrightarrow> f (snd kv) = snd kv) \<Longrightarrow> dict_map f d = d"
  by (simp add: dict_map_def map_idI)

lemma dict_map_cong: "(\<And>kv. kv \<in> set d \<Longrightarrow> f (snd kv) = g (snd kv)) \<Longrightarrow> dict_map f d = dict_map g d"
  by (simp add: dict_map_def)

lemma fst_dict_map [simp]: "map fst (dict_map f d) = map fst d" "fst ` set (dict_map f d) = fst ` set d"
  by (simp_all add: dict_map_def comp_def image_image)

lemma dp_pick_all: "dp_ok d \<Longrightarrow> dp_pick [0..<dp_len d] d = d"
proof -
  assume ok: "dp_ok d"
  have "map_option (td_pick [0..<dp_len d]) (batch d) = batch d"
  proof (cases "batch d")
    case (Some t)
    then have "dict_map (pick [0..<td_size t]) (td_items t) = td_items t"
      using ok by (intro dict_map_id pick_upt) (simp add: dp_ok_def dict_ok_def)
    then show ?thesis using Some by (simp add: td_pick_def dp_len_def)
  qed simp
  moreover have "dict_map (pick [0..<dp_len d]) (non_tensor_batch d) = non_tensor_batch d"
    using ok by (intro dict_map_id pick_upt) (simp add: dp_ok_def dict_ok_def)
  ultimately show ?thesis by (simp add: dp_pick_def)
qed

lemma mk_pick:
  "mk_data_proto (map_option (td_pick is) (batch d)) (dict_map (pick is) (non_tensor_batch d)) (meta_info d) = Inr (dp_pick is d)"
  by (cases "batch d") (auto simp: mk_data_proto_def check_consistency_def dp_pick_def dict_map_def td_pick_def list_all_iff)

text \<open>Dicts with the same keys, as functions on the keys.\<close>

abbreviation dict_of :: "string list \<Rightarrow> (string \<Rightarrow> 'a) \<Rightarrow> (string \<times> 'a) list" where
  "dict_of ks f \<equiv> map (\<lambda>k. (k, f k)) ks"

lemma dict_eq_dict_of: "distinct (map fst d) \<Longrightarrow> d = dict_of (map fst d) (\<lambda>k. the (map_of d k))"
proof -
  assume d: "distinct (map fst d)"
  have "(fst kv, the (map_of d (fst kv))) = kv" if "kv \<in> set d" for kv
    using d that by (cases kv) simp
  then show ?thesis by (simp add: map_idI)
qed

lemma map_of_dict_of: "k \<in> set ks \<Longrightarrow> map_of (dict_of ks f) k = Some (f k)"
  by (induction ks) auto

lemma update_dict_of: "k \<in> set ks \<Longrightarrow> distinct ks \<Longrightarrow> AList.update k y (dict_of ks f) = dict_of ks (f(k := y))"
  by (induction ks) auto

lemma dict_map_dict_of: "dict_map g (dict_of ks f) = dict_of ks (\<lambda>k. g (f k))"
  by (simp add: dict_map_def)

lemma append_items:
  "distinct ks \<Longrightarrow> distinct ls \<Longrightarrow> set ls \<subseteq> set ks \<Longrightarrow>
   rfold append_item (dict_of ls g) (dict_of ks f) = Inr (dict_of ks (\<lambda>k. f k @ (if k \<in> set ls then [g k] else [])))"
proof (induction ls arbitrary: f)
  case (Cons l ls)
  have "append_item (l, g l) (dict_of ks f) = Inr (dict_of ks (f(l := f l @ [g l])))"
    using Cons.prems by (simp add: append_item_def map_of_dict_of update_dict_of)
  then show ?case using Cons by (auto intro!: map_cong)
qed simp

lemma collect_dicts:
  assumes "distinct ks" "gs \<noteq> []"
  shows "list_of_dict_to_dict_of_list (map (dict_of ks) gs) = Inr (dict_of ks (\<lambda>k. map (\<lambda>g. g k) gs))"
proof -
  have "rfold (\<lambda>d out. rfold append_item d out) (map (dict_of ks) gs) (dict_of ks f) = Inr (dict_of ks (\<lambda>k. f k @ map (\<lambda>g. g k) gs))" for f
  proof (induction gs arbitrary: f)
    case (Cons g gs)
    have "rfold append_item (dict_of ks g) (dict_of ks f) = Inr (dict_of ks (\<lambda>k. f k @ [g k]))"
      using append_items [OF assms(1) assms(1) subset_refl, of g f] by (simp cong: map_cong)
    then show ?case using Cons by simp
  qed simp
  from this [of "\<lambda>_. []"] show ?thesis using assms(2) by (cases gs) (simp_all add: list_of_dict_to_dict_of_list_def comp_def)
qed

lemma merge_equal_items:
  assumes "distinct (map fst mi)" "''metrics'' \<notin> fst ` set mi"
  shows "rfold merge_item mi (mi, []) = Inr (mi, [])" "rfold merge_item mi ([], []) = Inr (mi, [])"
proof -
  have "rfold merge_item m (mi, []) = Inr (mi, [])" if "set m \<subseteq> set mi" for m
    using that
  proof (induction m)
    case (Cons p m)
    obtain k v where p: "p = (k, v)" by (cases p)
    have "(k, v) \<in> set mi" using Cons.prems p by simp
    then have "map_of mi k = Some v" "k \<noteq> ''metrics''" using assms by (auto simp: image_iff)
    then show ?case using Cons p by (simp add: merge_item_def)
  qed simp
  then show "rfold merge_item mi (mi, []) = Inr (mi, [])" by simp
  have "rfold merge_item m (acc, []) = Inr (acc @ m, [])" if "distinct (map fst (acc @ m))" "''metrics'' \<notin> fst ` set m" for acc m
    using that
  proof (induction m arbitrary: acc)
    case (Cons p m)
    obtain k v where p: "p = (k, v)" by (cases p)
    have new: "k \<notin> fst ` set acc" "k \<noteq> ''metrics''" using Cons.prems p by auto
    then have "map_of acc k = None" by (simp add: map_of_eq_None_iff)
    moreover have "AList.update k v acc = acc @ [(k, v)]" using new(1) by (induction acc) auto
    ultimately have "merge_item (k, v) (acc, []) = Inr (acc @ [(k, v)], [])" using new(2) by (simp add: merge_item_def)
    then show ?case using Cons.IH [of "acc @ [(k, v)]"] Cons.prems p by simp
  qed simp
  then show "rfold merge_item mi ([], []) = Inr (mi, [])" using assms by (metis append_Nil)
qed

lemma merge_meta_same:
  assumes "distinct (map fst mi)" "''metrics'' \<notin> fst ` set mi"
  shows "merge_meta (replicate (Suc n) mi) = Inr mi"
proof -
  have "rfold (\<lambda>m st. rfold merge_item m st) (replicate n mi) (mi, []) = Inr (mi, [])"
    by (induction n) (simp_all add: merge_equal_items [OF assms])
  then show ?thesis by (simp add: merge_meta_def merge_equal_items [OF assms])
qed

lemma dp_concat_split:
  assumes "xs = x # ys"
  shows "dp_concat (map f xs) =
     rbind (if batch (f x) = None then Inr None else rbind (td_cat (map batch (map f xs))) (\<lambda>t. Inr (Some t))) (\<lambda>b.
     rbind (list_of_dict_to_dict_of_list (map non_tensor_batch (map f xs))) (\<lambda>nt.
     rbind (merge_meta (map meta_info (map f xs))) (\<lambda>mi. mk_data_proto b (dict_map concat nt) mi)))"
  by (simp only: assms dp_concat_def list.map list.case)

text \<open>Concatenating selections of rows selects the concatenated indices.\<close>

lemma dp_concat_pick:
  assumes ok: "dp_ok d" and ne: "Is \<noteq> []"
  shows "dp_concat (map (\<lambda>I. dp_pick I d) Is) = Inr (dp_pick (concat Is) d)"
proof -
  obtain I0 Is' where Is: "Is = I0 # Is'" using ne by (cases Is) auto
  define ks where "ks = map fst (non_tensor_batch d)"
  define f where "f = (\<lambda>k. the (map_of (non_tensor_batch d) k))"
  have dist: "distinct ks" using ok by (simp add: ks_def dp_ok_def dict_ok_def)
  have nt: "non_tensor_batch d = dict_of ks f" unfolding ks_def f_def using ok by (intro dict_eq_dict_of) (simp add: dp_ok_def dict_ok_def)
  have nts: "map non_tensor_batch (map (\<lambda>I. dp_pick I d) Is) = map (dict_of ks) (map (\<lambda>I k. pick I (f k)) Is)"
    by (simp add: dp_pick_def nt dict_map_dict_of comp_def)
  have a: "rbind (list_of_dict_to_dict_of_list (map non_tensor_batch (map (\<lambda>I. dp_pick I d) Is))) k =
    k (dict_of ks (\<lambda>k. map (\<lambda>I. pick I (f k)) Is))" for k :: "_ \<Rightarrow> ('a, 'b) data_proto result"
  proof -
    have "map (\<lambda>I k. pick I (f k)) Is \<noteq> []" using ne by simp
    then show ?thesis unfolding nts by (subst collect_dicts [OF dist]) (simp_all add: comp_def)
  qed
  have nt2: "dict_map concat (dict_of ks (\<lambda>k. map (\<lambda>I. pick I (f k)) Is)) = dict_map (pick (concat Is)) (non_tensor_batch d)"
    by (simp add: nt dict_map_dict_of pick_concat)
  have "map meta_info (map (\<lambda>I. dp_pick I d) Is) = replicate (Suc (length Is')) (meta_info d)"
    by (simp add: Is dp_pick_def comp_def map_replicate_const)
  then have m: "merge_meta (map meta_info (map (\<lambda>I. dp_pick I d) Is)) = Inr (meta_info d)"
    using merge_meta_same [of "meta_info d" "length Is'"] ok by (simp add: dp_ok_def del: replicate_Suc)
  have b: "(if batch (dp_pick I0 d) = None then Inr None else rbind (td_cat (map batch (map (\<lambda>I. dp_pick I d) Is))) (\<lambda>t. Inr (Some t))) =
    Inr (map_option (td_pick (concat Is)) (batch d))"
  proof (cases "batch d")
    case None
    then show ?thesis by (simp add: dp_pick_def)
  next
    case (Some t)
    define ls where "ls = map fst (td_items t)"
    define g where "g = (\<lambda>k. the (map_of (td_items t) k))"
    have items: "td_items t = dict_of ls g" unfolding ls_def g_def using ok Some by (intro dict_eq_dict_of) (simp add: dp_ok_def dict_ok_def)
    have bs: "map batch (map (\<lambda>I. dp_pick I d) Is) = map (\<lambda>I. Some \<lparr>td_size = length I, td_items = dict_of ls (\<lambda>k. pick I (g k))\<rparr>) Is"
      by (simp add: dp_pick_def Some td_pick_def items dict_map_dict_of comp_def)
    have "td_cat (map batch (map (\<lambda>I. dp_pick I d) Is)) = Inr (td_pick (concat Is) t)"
      unfolding bs by (auto simp: td_cat_def Let_def Is comp_def list_all_iff td_pick_def items dict_map_dict_of pick_concat pick_append length_concat
          map_of_dict_of image_image intro!: map_cong arg_cong2 [where f = append])
    then show ?thesis by (simp add: Some dp_pick_def)
  qed
  have "dp_concat (map (\<lambda>I. dp_pick I d) Is) =
    mk_data_proto (map_option (td_pick (concat Is)) (batch d)) (dict_map (pick (concat Is)) (non_tensor_batch d)) (meta_info d)"
    unfolding dp_concat_split [OF Is, of "\<lambda>I. dp_pick I d"] b rbind_simps a m nt2 ..
  then show ?thesis by (simp only: mk_pick)
qed

lemma map_nth_upt: "j \<le> length xs \<Longrightarrow> map ((!) xs) [i..<j] = take (j - i) (drop i xs)"
  by (rule nth_equalityI) auto

lemma py_slice_pick: "py_slice a b xs = pick [min a (length xs)..<min b (length xs)] xs"
proof -
  have "pick [min a (length xs)..<min b (length xs)] xs = take (min b (length xs) - min a (length xs)) (drop (min a (length xs)) xs)"
    unfolding pick_def by (simp add: map_nth_upt)
  also have "\<dots> = py_slice a b xs" by (cases "a \<le> length xs") (auto simp: py_slice_def min_def not_le)
  finally show ?thesis by simp
qed

lemma dp_slice_pick:
  assumes ok: "dp_ok d" and ab: "\<And>n. n = dp_len d \<Longrightarrow> py_bound n (case a of None \<Rightarrow> 0 | Some i \<Rightarrow> i) = l \<and> py_bound n (case b of None \<Rightarrow> int n | Some j \<Rightarrow> j) = h"
  shows "dp_slice a b d = Inr (dp_pick [min l (dp_len d)..<min h (dp_len d)] d)"
proof -
  define I where "I = [min l (dp_len d)..<min h (dp_len d)]"
  have s: "py_slice_opt a b xs = pick I xs" if "length xs = dp_len d" for xs :: "'c list"
    using ab [OF that] that by (simp add: py_slice_opt_def py_islice_def py_slice_pick I_def)
  have "map_option (\<lambda>t. \<lparr>td_size = length (py_slice_opt a b [0..<td_size t]), td_items = dict_map (py_slice_opt a b) (td_items t)\<rparr>) (batch d) =
    map_option (td_pick I) (batch d)"
  proof (cases "batch d")
    case (Some t)
    then have t: "td_size t = dp_len d" by (simp add: dp_len_def)
    have "dict_map (py_slice_opt a b) (td_items t) = dict_map (pick I) (td_items t)"
      using ok Some t by (intro dict_map_cong s) (simp add: dp_ok_def dict_ok_def)
    moreover have "length (py_slice_opt a b [0..<td_size t]) = length I" using s [of "[0..<td_size t]"] t by simp
    ultimately show ?thesis using Some by (simp add: td_pick_def)
  qed simp
  moreover have "dict_map (py_slice_opt a b) (non_tensor_batch d) = dict_map (pick I) (non_tensor_batch d)"
    using ok by (intro dict_map_cong s) (simp add: dp_ok_def dict_ok_def)
  ultimately show ?thesis using mk_pick [of I d] by (simp add: dp_slice_def I_def)
qed

lemma pad_loop_rec: "0 < n \<Longrightarrow> pad_loop p n = (if p = 0 then [] else min p n # pad_loop (p - min p n) n)"
  by (subst pad_loop.simps) simp

lemma pad_loop_sizes: "0 < n \<Longrightarrow> sum_list (pad_loop p n) = p \<and> (\<forall>k \<in> set (pad_loop p n). k \<le> n)"
proof (induction p rule: less_induct)
  case (less p)
  show ?case
  proof (cases "p = 0")
    case True
    then show ?thesis using less.prems by (subst (1 2) pad_loop_rec) simp_all
  next
    case False
    then have "p - min p n < p" using less.prems by simp
    then have "sum_list (pad_loop (p - min p n) n) = p - min p n \<and> (\<forall>k \<in> set (pad_loop (p - min p n) n). k \<le> n)"
      using less.IH less.prems by blast
    moreover have "pad_loop p n = min p n # pad_loop (p - min p n) n" using pad_loop_rec [OF less.prems, of p] False by (simp only: if_False)
    moreover have "min p n + (p - min p n) = p" "min p n \<le> n" by simp_all
    ultimately show ?thesis by (metis sum_list.Cons set_ConsD)
  qed
qed

text \<open>Picking from a selection.\<close>

lemma pick_pick: "\<forall>i \<in> set is. i < length js \<Longrightarrow> pick is (pick js xs) = pick (pick is js) xs"
  by (simp add: pick_def)

lemma dp_pick_ok:
  assumes "dp_ok d"
  shows "dp_ok (dp_pick is d) \<and> (batch d \<noteq> None \<or> non_tensor_batch d \<noteq> [] \<longrightarrow> dp_len (dp_pick is d) = length is)"
proof -
  have n: "dict_ok (length is) (dict_map (pick is) x)" if "distinct (map fst x)" for x :: "(string \<times> 'c list) list"
    using that by (auto simp: dict_ok_def dict_map_def comp_def)
  have len: "dp_len (dp_pick is d) = length is" if "batch d \<noteq> None \<or> non_tensor_batch d \<noteq> []"
    using that by (auto simp: dp_len_def dp_pick_def td_pick_def dict_map_def split: option.splits list.splits)
  have "dict_ok (dp_len (dp_pick is d)) (non_tensor_batch (dp_pick is d))"
    using n [of "non_tensor_batch d"] len assms by (cases "non_tensor_batch d = []") (auto simp: dp_pick_def dp_ok_def dict_ok_def dict_map_def)
  moreover have "dict_ok (td_size t) (td_items t)" if "batch (dp_pick is d) = Some t" for t
  proof -
    obtain z where z: "batch d = Some z" "t = td_pick is z" using \<open>batch (dp_pick is d) = Some t\<close> by (auto simp: dp_pick_def)
    then have "distinct (map fst (td_items z))" using assms by (simp add: dp_ok_def dict_ok_def)
    then show ?thesis using n [of "td_items z"] z by (simp add: td_pick_def)
  qed
  ultimately show ?thesis using len assms by (simp add: dp_ok_def dp_pick_def)
qed

lemma dp_pick_pick: "\<forall>i \<in> set is. i < length js \<Longrightarrow> dp_pick is (dp_pick js d) = dp_pick (pick is js) d"
  by (cases "batch d") (auto simp: dp_pick_def td_pick_def dict_map_def comp_def pick_pick)

lemma dp_len_rows: "0 < dp_len d \<Longrightarrow> batch d \<noteq> None \<or> non_tensor_batch d \<noteq> []"
  by (auto simp: dp_len_def)

lemma dp_len_pick: "dp_ok d \<Longrightarrow> 0 < dp_len d \<Longrightarrow> dp_len (dp_pick is d) = length is"
  using dp_pick_ok dp_len_rows by blast

section \<open>The interface of batches\<close>

text \<open>The indices of the \<open>i\<close>-th of several parts of \<open>n\<close> rows.\<close>

definition chunk_rows :: "nat \<Rightarrow> nat \<Rightarrow> nat list" where
  "chunk_rows n i = [i * n..<Suc i * n]"

lemma concat_chunk_rows: "concat (map (chunk_rows n) [0..<k]) = [0..<k * n]"
proof (induction k)
  case (Suc k)
  then show ?case using upt_add_eq_append [of 0 "k * n" n] by (simp add: chunk_rows_def add.commute)
qed simp

text \<open>
  What padding, chunking and the worker calls rely on: rows can be selected, selections compose, and
  concatenating selections selects the concatenated indices.
\<close>

locale row_batch =
  fixes ok :: "'b \<Rightarrow> bool" and len :: "'b \<Rightarrow> nat" and sel :: "nat list \<Rightarrow> 'b \<Rightarrow> 'b" and cat :: "'b list \<Rightarrow> 'b result"
  assumes sel_all: "ok b \<Longrightarrow> sel [0..<len b] b = b"
    and sel_sel: "\<forall>i \<in> set is. i < length js \<Longrightarrow> sel is (sel js b) = sel (pick is js) b"
    and cat_sel: "ok b \<Longrightarrow> Is \<noteq> [] \<Longrightarrow> cat (map (\<lambda>I. sel I b) Is) = Inr (sel (concat Is) b)"
begin

lemma sel_prefix: "ok b \<Longrightarrow> sel [0..<len b] (sel ([0..<len b] @ I) b) = b"
proof -
  assume "ok b"
  moreover have "pick [0..<len b] ([0..<len b] @ I) = [0..<len b]" by (simp add: pick_def nth_append list_eq_iff_nth_eq)
  ultimately show ?thesis by (simp add: sel_sel sel_all)
qed

lemma cat_parts:
  assumes "ok b" "0 < k" "length J = k * n"
  shows "cat (map (\<lambda>i. sel (pick (chunk_rows n i) J) b) [0..<k]) = Inr (sel J b)"
proof -
  have "concat (map (\<lambda>i. pick (chunk_rows n i) J) [0..<k]) = J"
    using pick_concat [of "map (chunk_rows n) [0..<k]" J] assms(3) by (simp add: concat_chunk_rows comp_def pick_upt)
  then show ?thesis using cat_sel [OF assms(1), of "map (\<lambda>i. pick (chunk_rows n i) J) [0..<k]"] assms(2) by (simp add: comp_def)
qed

lemma cat_chunks:
  assumes "ok b" "0 < k" "len b = k * n"
  shows "cat (map (\<lambda>i. sel (chunk_rows n i) b) [0..<k]) = Inr b"
  using cat_sel [OF assms(1), of "map (chunk_rows n) [0..<k]"] sel_all [OF assms(1)] assms(2,3) by (simp add: comp_def concat_chunk_rows)

lemma cat_padded: "ok b \<Longrightarrow> cat (b # map (\<lambda>I. sel I b) Is) = Inr (sel ([0..<len b] @ concat Is) b)"
  using cat_sel [of b "[0..<len b] # Is"] by (simp add: sel_all)

end

interpretation dp: row_batch "dp_ok :: ('t, 'n) data_proto \<Rightarrow> bool" dp_len dp_pick dp_concat
  by unfold_locales (rule dp_pick_all dp_pick_pick dp_concat_pick; assumption)+

text \<open>The rows that padding appends.\<close>

definition pad_rows :: "nat \<Rightarrow> nat \<Rightarrow> nat list" where
  "pad_rows n m = concat (map (\<lambda>k. [0..<k]) (pad_loop n m))"

lemma pad_rows: "0 < m \<Longrightarrow> length (pad_rows n m) = n \<and> set (pad_rows n m) \<subseteq> {..<m}"
  using pad_loop_sizes [of m n] by (fastforce simp: pad_rows_def length_concat comp_def)

lemma dp_slice_upto: "dp_ok d \<Longrightarrow> k \<le> dp_len d \<Longrightarrow> dp_slice None (Some (int k)) d = Inr (dp_pick [0..<k] d)"
  by (subst dp_slice_pick [where l = 0 and h = k]) (simp_all add: py_bound_def)

lemma dp_slice_cut:
  assumes "dp_ok d" "0 < k" "k \<le> dp_len d"
  shows "dp_slice None (Some (- int k)) d = Inr (dp_pick [0..<dp_len d - k] d)"
  by (subst dp_slice_pick [where l = 0 and h = "dp_len d - k"]) (use assms in \<open>simp_all add: py_bound_def\<close>)

lemma pad_dataproto_pick:
  assumes ok: "dp_ok d" and k: "0 < k" "dp_len d mod k \<noteq> 0"
  shows "pad_dataproto_to_divisor k d =
    Inr (dp_pick ([0..<dp_len d] @ pad_rows (k - dp_len d mod k) (dp_len d)) d, k - dp_len d mod k)"
proof -
  define pads where "pads = pad_loop (k - dp_len d mod k) (dp_len d)"
  have "0 < dp_len d" using k by (metis gr0I mod_0)
  then have "\<forall>j \<in> set pads. j \<le> dp_len d" using pad_loop_sizes by (simp add: pads_def)
  then have slices: "rmap (\<lambda>j. dp_slice None (Some (int j)) d) pads = Inr (map (\<lambda>j. dp_pick [0..<j] d) pads)"
    by (induction pads) (simp_all add: dp_slice_upto [OF ok])
  have "dp_concat (d # map (\<lambda>j. dp_pick [0..<j] d) pads) = Inr (dp_pick ([0..<dp_len d] @ concat (map (\<lambda>j. [0..<j]) pads)) d)"
    using dp.cat_padded [OF ok, of "map (\<lambda>j. [0..<j]) pads"] by (simp add: comp_def)
  then show ?thesis using k slices by (simp add: pad_dataproto_to_divisor_def Let_def pad_rows_def flip: pads_def)
qed

lemma unpad_pick:
  assumes "dp_ok d" "0 < dp_len d"
  shows "unpad_dataproto (length I) (dp_pick ([0..<dp_len d] @ I) d) = Inr d"
proof (cases "I = []")
  case True
  then show ?thesis by (simp add: unpad_dataproto_def dp_pick_all [OF assms(1)])
next
  case False
  define p where "p = dp_pick ([0..<dp_len d] @ I) d"
  have p: "dp_ok p" "dp_len p = dp_len d + length I"
    using dp_pick_ok [OF assms(1)] dp_len_pick [OF assms] by (simp_all add: p_def)
  have "dp_pick [0..<dp_len d] p = d" unfolding p_def by (rule dp.sel_prefix [OF assms(1)])
  then show ?thesis using False p dp_slice_cut [of p "length I"] by (simp add: unpad_dataproto_def flip: p_def)
qed

lemma padded_length:
  assumes "0 < k" "m mod k \<noteq> (0::nat)"
  shows "k dvd m + (k - m mod k)" "0 < k - m mod k" "k - m mod k < k"
proof -
  have "m mod k < k" using assms by simp
  then have "m + (k - m mod k) = (m div k) * k + k" using div_mult_mod_eq [of m k] by linarith
  then show "k dvd m + (k - m mod k)" by (metis dvd_add_triv_right_iff dvd_triv_right)
  show "0 < k - m mod k" "k - m mod k < k" using assms \<open>m mod k < k\<close> by simp_all
qed

text \<open>
  C38: Padding a batch to a multiple of the number of workers and removing the padding gives the batch
  back. For every well-formed batch without metrics, \<open>pad_dataproto_to_divisor\<close> returns a batch whose
  length is the next multiple of the divisor and that is the given one followed by copies of its rows, and
  \<open>unpad_dataproto\<close> undoes it exactly.
\<close>

theorem pad_unpad_roundtrip:
  assumes "dp_ok d" and "0 < k"
  shows "\<exists>p n. pad_dataproto_to_divisor k d = Inr (p, n) \<and> n < k \<and> k dvd dp_len p \<and> dp_len p = dp_len d + n \<and>
    (\<exists>I. p = dp_pick ([0..<dp_len d] @ I) d \<and> set I \<subseteq> {..<dp_len d}) \<and> unpad_dataproto n p = Inr d"
proof (cases "dp_len d mod k = 0")
  case True
  then have "pad_dataproto_to_divisor k d = Inr (d, 0)" using assms(2) by (simp add: pad_dataproto_to_divisor_def)
  moreover have "d = dp_pick ([0..<dp_len d] @ []) d" by (simp add: dp_pick_all [OF assms(1)])
  moreover have "k dvd dp_len d" using True by (simp add: mod_eq_0_iff_dvd)
  moreover have "unpad_dataproto 0 d = Inr d" by (simp add: unpad_dataproto_def)
  ultimately show ?thesis using assms(2) by fastforce
next
  case False
  define n where "n = k - dp_len d mod k"
  define p where "p = dp_pick ([0..<dp_len d] @ pad_rows n (dp_len d)) d"
  have pos: "0 < dp_len d" using False by (metis gr0I mod_0)
  have n: "n < k" "k dvd dp_len d + n" unfolding n_def using padded_length [OF assms(2) False] by auto
  have "dp_len p = dp_len d + n"
    using dp_len_pick [OF assms(1) pos] pad_rows [OF pos, of n] by (simp add: p_def)
  moreover have "pad_dataproto_to_divisor k d = Inr (p, n)"
    unfolding n_def p_def by (rule pad_dataproto_pick [OF assms False])
  moreover have "unpad_dataproto n p = Inr d"
    using unpad_pick [OF assms(1) pos, of "pad_rows n (dp_len d)"] pad_rows [OF pos, of n] by (simp add: p_def)
  ultimately show ?thesis using n pad_rows [OF pos, of n] p_def by metis
qed

text \<open>Witness of C38: five rows for four workers.\<close>

theorem pad_unpad_roundtrip_witness:
  "let d = \<lparr>batch = Some \<lparr>td_size = 5, td_items = [(''ids'', [10, 11, 12, 13, 14 :: int])]\<rparr>,
            non_tensor_batch = [(''uid'', ''abcde'')], meta_info = [(''step'', MInt 3)]\<rparr>
   in dp_ok d \<and> (\<exists>p n. pad_dataproto_to_divisor 4 d = Inr (p, n) \<and> 4 dvd dp_len p \<and> unpad_dataproto n p = Inr d)"
proof -
  have ok: "dp_ok \<lparr>batch = Some \<lparr>td_size = 5, td_items = [(''ids'', [10, 11, 12, 13, 14 :: int])]\<rparr>,
    non_tensor_batch = [(''uid'', ''abcde'')], meta_info = [(''step'', MInt 3)]\<rparr>"
    by (simp add: dp_ok_def dict_ok_def dp_len_def)
  show ?thesis using pad_unpad_roundtrip [OF ok, of 4] ok unfolding Let_def by fastforce
qed

lemma rmap_dict_pure: "(\<And>kv. kv \<in> set d \<Longrightarrow> f (snd kv) = Inr (g (snd kv))) \<Longrightarrow> rmap_dict f d = Inr (dict_map g d)"
  unfolding rmap_dict_def dict_map_def by (rule rmap_pure) (auto split: prod.splits)

text \<open>Selection by a list of indices, and automatic padding with the last row.\<close>

lemma dp_index_pick: "\<forall>i \<in> set is. i < length xs \<Longrightarrow> dp_index (map int is) xs = Inr (pick is xs)"
  by (induction "is") (simp_all add: dp_index_def pick_def py_iget_nat)

lemma select_idxs_pick:
  assumes ok: "dp_ok d" and "is": "\<forall>i \<in> set is. i < dp_len d"
  shows "select_idxs (map int is) d = Inr (dp_pick is d)"
proof -
  have cols: "rmap_dict (dp_index (map int is)) x = Inr (dict_map (pick is) x)" if "dict_ok (dp_len d) x" for x :: "(string \<times> 'c list) list"
    using that "is" by (intro rmap_dict_pure dp_index_pick) (simp add: dict_ok_def)
  have "(case batch d of None \<Rightarrow> Inr None
      | Some t \<Rightarrow> rbind (rmap_dict (dp_index (map int is)) (td_items t)) (\<lambda>items. Inr (Some \<lparr>td_size = length (map int is), td_items = items\<rparr>))) =
    Inr (map_option (td_pick is) (batch d))"
    using ok by (cases "batch d") (simp_all add: cols dp_ok_def dp_len_def td_pick_def)
  moreover have "rmap_dict (dp_index (map int is)) (non_tensor_batch d) = Inr (dict_map (pick is) (non_tensor_batch d))"
    using ok by (intro cols) (simp add: dp_ok_def)
  ultimately show ?thesis unfolding select_idxs_def by (simp only: rbind_simps mk_pick)
qed

lemma dp_repeat_pick: "dp_repeat k True (dp_pick [i] d) = Inr (dp_pick (replicate k i) d)"
proof -
  have cols: "dict_map (repeat_rows k True) (dict_map (pick [i]) x) = dict_map (pick (replicate k i)) x" for x :: "(string \<times> 'c list) list"
    by (simp add: dict_map_def repeat_rows_def pick_def)
  show ?thesis using mk_pick [of "replicate k i" d]
    by (cases "batch d") (simp_all add: dp_repeat_def dp_pick_def td_pick_def cols)
qed

lemma dp_padding_pick:
  assumes "dp_ok d" "0 < dp_len d"
  shows "dp_padding k False d = Inr (dp_pick ([0..<dp_len d] @ replicate k (dp_len d - 1)) d)"
proof (cases "k = 0")
  case True
  then show ?thesis by (simp add: dp_padding_def dp_pick_all [OF assms(1)])
next
  case False
  define n where "n = dp_len d"
  have "[int n - 1] = map int [n - 1]" using assms(2) by (simp add: n_def of_nat_diff)
  then have sel: "select_idxs [int n - 1] d = Inr (dp_pick [n - 1] d)"
    using select_idxs_pick [OF assms(1), of "[n - 1]"] assms(2) by (simp add: n_def)
  have "dp_concat [d, dp_pick (replicate k (n - 1)) d] = Inr (dp_pick ([0..<n] @ replicate k (n - 1)) d)"
    using dp.cat_padded [OF assms(1), of "[replicate k (n - 1)]"] by (simp add: n_def)
  then show ?thesis using False sel by (simp add: dp_padding_def dp_repeat_pick flip: n_def) (simp add: dp_pick_def)
qed

text \<open>Equal chunks.\<close>

lemma split_rest_sizes: "sizes \<noteq> [] \<Longrightarrow> sum_list sizes = length xs \<Longrightarrow> split_rest sizes xs = split_sizes sizes xs"
  by (induction sizes xs rule: split_rest.induct) simp_all

lemma length_split_sizes [simp]: "length (split_sizes sizes xs) = length sizes"
  by (induction sizes xs rule: split_sizes.induct) simp_all

lemma nth_split_sizes:
  "i < k \<Longrightarrow> length xs = k * n \<Longrightarrow> split_sizes (replicate k n) xs ! i = pick (chunk_rows n i) xs"
proof -
  assume ik: "i < k" and len: "length xs = k * n"
  have "split_sizes (replicate k n) ys ! i = take n (drop (i * n) ys)" for ys :: "'a list"
    using ik
  proof (induction k arbitrary: i ys)
    case (Suc k)
    then show ?case by (cases i) (simp_all add: add.commute)
  qed simp
  moreover have "Suc i * n \<le> length xs" using ik len by (metis Suc_leI mult_le_mono1)
  then have "pick (chunk_rows n i) xs = take n (drop (i * n) xs)" by (simp add: pick_def chunk_rows_def map_nth_upt)
  ultimately show ?thesis by simp
qed

lemma td_chunk_equal:
  assumes "dict_ok (td_size t) (td_items t)" "td_size t = k * n"
  shows "td_chunk (replicate k n) t = map (\<lambda>i. td_pick (chunk_rows n i) t) [0..<k]"
proof -
  have "dict_map (\<lambda>v. split_sizes (replicate k n) v ! i) (td_items t) = dict_map (pick (chunk_rows n i)) (td_items t)" if "i < k" for i
    using assms that by (intro dict_map_cong nth_split_sizes) (simp_all add: dict_ok_def)
  then show ?thesis by (simp add: td_chunk_def td_pick_def chunk_rows_def)
qed

lemma dp_chunk_equal:
  assumes laws: "split_law torch_chunk" "split_law np_split" and ok: "dp_ok d" and k: "0 < k" and n: "0 < n" "dp_len d = k * n"
  shows "dp_chunk torch_chunk np_split cfg k d = Inr (map (\<lambda>i. dp_pick (chunk_rows n i) d) [0..<k])"
proof -
  have cut: "torch_chunk (k * n) k = replicate k n" "np_split (k * n) k = replicate k n"
    using laws k n(1) by (simp_all add: split_law_def)
  define sizes where "sizes = (case batch d of Some t \<Rightarrow> torch_chunk (td_size t) k | None \<Rightarrow> np_split (dp_len d) k)"
  have sizes: "sizes = replicate k n" using cut n(2) by (auto simp: sizes_def dp_len_def split: option.splits)
  define cols where "cols = dict_map (\<lambda>v. split_sizes (replicate k n) v) (non_tensor_batch d)"
  have len: "length (snd kv) = k * n" if "kv \<in> set (non_tensor_batch d)" for kv
    using ok that n(2) by (simp add: dp_ok_def dict_ok_def)
  have "rmap_dict (\<lambda>v. chunk_column (if batch d = None then np_split (length v) k else sizes) k v) (non_tensor_batch d) = Inr cols"
    unfolding cols_def using k cut sizes
    by (intro rmap_dict_pure) (simp add: chunk_column_def len split_rest_sizes sum_list_replicate)
  moreover have col: "dict_map (\<lambda>parts. parts ! i) cols = dict_map (pick (chunk_rows n i)) (non_tensor_batch d)" if "i < k" for i
    using that len by (simp add: cols_def dict_map_def nth_split_sizes)
  moreover define bs where "bs = (case batch d of Some t \<Rightarrow> map Some (td_chunk sizes t) | None \<Rightarrow> replicate k None)"
  have bs: "py_get bs i = Inr (map_option (td_pick (chunk_rows n i)) (batch d))" if "i < k" for i
    using that ok n(2) by (auto simp: bs_def sizes py_get_def td_chunk_equal dp_ok_def dp_len_def split: option.splits)
  have part: "rbind (py_get bs i) (\<lambda>b. mk_data_proto b (dict_map (\<lambda>parts. parts ! i) cols) (meta_info d)) = Inr (dp_pick (chunk_rows n i) d)"
    if "i < k" for i unfolding bs [OF that] col [OF that] rbind_simps by (rule mk_pick)
  then have "rmap (\<lambda>i. rbind (py_get bs i) (\<lambda>b. mk_data_proto b (dict_map (\<lambda>parts. parts ! i) cols) (meta_info d))) [0..<k] =
    Inr (map (\<lambda>i. dp_pick (chunk_rows n i) d) [0..<k])" by (intro rmap_pure) simp
  ultimately show ?thesis using k n(2) by (simp add: dp_chunk_def Let_def flip: sizes_def bs_def)
qed

text \<open>
  Chunks put together again are the batch. For a well-formed batch with rows, without metrics, and a
  number of chunks that divides its length, \<open>chunk\<close> returns that many well-formed batches of equal length
  with the meta information of the batch, and \<open>concat\<close> of them returns the batch.
\<close>

theorem chunk_concat_roundtrip:
  assumes "split_law torch_chunk" and "split_law np_split" and "dp_ok d" and "0 < dp_len d" and "k dvd dp_len d"
  shows "\<exists>ds. dp_chunk torch_chunk np_split cfg k d = Inr ds \<and> length ds = k \<and>
    (\<forall>x \<in> set ds. dp_ok x \<and> dp_len x = dp_len d div k \<and> meta_info x = meta_info d) \<and> dp_concat ds = Inr d"
proof -
  obtain n where n: "dp_len d = k * n" using assms(5) by blast
  then have pos: "0 < k" "0 < n" using assms(4) by simp_all
  have "dp_ok (dp_pick (chunk_rows n i) d) \<and> dp_len (dp_pick (chunk_rows n i) d) = dp_len d div k \<and> meta_info (dp_pick (chunk_rows n i) d) = meta_info d" for i
    using dp_pick_ok [OF assms(3)] dp_len_pick [OF assms(3,4)] n pos by (simp add: chunk_rows_def dp_pick_def)
  then show ?thesis using dp_chunk_equal [OF assms(1-3) pos n] dp.cat_chunks [OF assms(3) pos(1) n] by auto
qed

text \<open>
  The sizes that the documentation of \<open>torch.chunk\<close> and of \<open>numpy.array_split\<close> gives; both satisfy the law.
\<close>

definition torch_chunk_sizes :: split_fn where
  "torch_chunk_sizes n k = (let s = (n + k - 1) div k in replicate (n div s) s @ (if n mod s = 0 then [] else [n mod s]))"

definition array_split_sizes :: split_fn where
  "array_split_sizes n k = replicate (n mod k) (n div k + 1) @ replicate (k - n mod k) (n div k)"

lemma split_law_torch: "split_law torch_chunk_sizes"
proof -
  have "torch_chunk_sizes n k = replicate k (n div k)" if "0 < n" "0 < k" "k dvd n" for n k
  proof -
    obtain m where m: "n = k * m" using \<open>k dvd n\<close> by blast
    have "(n + k - 1) div k = m" using that(2) m by (simp add: div_nat_eqI)
    then show ?thesis using m that by (simp add: torch_chunk_sizes_def)
  qed
  moreover have "sum_list (torch_chunk_sizes n k) = n" if "0 < n" "0 < k" for n k
    using div_mult_mod_eq [of n "(n + k - 1) div k"] by (auto simp: torch_chunk_sizes_def Let_def sum_list_replicate)
  ultimately show ?thesis by (simp add: split_law_def)
qed

lemma split_law_array: "split_law array_split_sizes"
proof -
  have "sum_list (array_split_sizes n k) = n" if "0 < k" for n k
  proof -
    have "r * (q + 1) + (k - r) * q = k * q + r" if "r \<le> k" for q r :: nat
      using that by (auto simp: le_iff_add algebra_simps)
    from this [of "n mod k" "n div k"] have "n mod k * (n div k + 1) + (k - n mod k) * (n div k) = k * (n div k) + n mod k"
      using \<open>0 < k\<close> by simp
    then show ?thesis by (simp add: array_split_sizes_def sum_list_replicate)
  qed
  then show ?thesis by (auto simp: split_law_def array_split_sizes_def)
qed

text \<open>The round trip at six rows in three chunks.\<close>

theorem chunk_concat_roundtrip_witness:
  "let d = \<lparr>batch = Some \<lparr>td_size = 6, td_items = [(''ids'', [10, 11, 12, 13, 14, 15 :: int])]\<rparr>,
            non_tensor_batch = [(''uid'', ''abcdef'')], meta_info = [(''step'', MInt 3)]\<rparr>
   in split_law torch_chunk_sizes \<and> split_law array_split_sizes \<and> dp_ok d \<and>
      (\<exists>ds. dp_chunk torch_chunk_sizes array_split_sizes False 3 d = Inr ds \<and> length ds = 3 \<and> dp_concat ds = Inr d)"
proof -
  have ok: "dp_ok \<lparr>batch = Some \<lparr>td_size = 6, td_items = [(''ids'', [10, 11, 12, 13, 14, 15 :: int])]\<rparr>,
    non_tensor_batch = [(''uid'', ''abcdef'')], meta_info = [(''step'', MInt 3)]\<rparr>" (is "dp_ok ?d")
    by (simp add: dp_ok_def dict_ok_def dp_len_def)
  have len: "0 < dp_len ?d" "3 dvd dp_len ?d" by (simp_all add: dp_len_def)
  have "\<exists>ds. dp_chunk torch_chunk_sizes array_split_sizes False 3 ?d = Inr ds \<and> length ds = 3 \<and> dp_concat ds = Inr ?d"
    using chunk_concat_roundtrip [OF split_law_torch split_law_array ok len, of False] by fast
  then show ?thesis unfolding Let_def using split_law_torch split_law_array ok by (intro conjI)
qed

end
