(* ===== verification/Dispatch.thy ===== *)
theory Dispatch
  imports Data_Proto
begin

text \<open>
  Dispatch and collection of worker calls: \<open>verl/single_controller/base/decorator.py\<close>, the mesh information
  of \<open>base/worker.py\<close>, and the calls of \<open>ray/base.py\<close> (\<open>func_generator\<close>, \<open>execute_all\<close>).

  Ray itself is outside of the model: a remote call is the function \<open>run\<close> of the worker's number and its
  arguments, the object store keeps what is put into it. All calls are blocking, and batches are \<open>DataProto\<close> objects.
  A batch that the automatic padding changes in place is returned beside the result.
\<close>

section \<open>Values\<close>

datatype 'a py_arg = Obj 'a | PyList "'a list" | PyTuple "'a list"

fun arg_len :: "'a py_arg \<Rightarrow> nat option" where
  "arg_len (Obj _) = None"
| "arg_len (PyList xs) = Some (length xs)"
| "arg_len (PyTuple xs) = Some (length xs)"

datatype ('t, 'n, 'x) py_out = OProto "('t, 'n) data_proto" | OObj 'x | OList "('t, 'n, 'x) py_out list"

section \<open>Splitting the arguments\<close>

definition split_data :: "split_fn \<Rightarrow> split_fn \<Rightarrow> bool \<Rightarrow> nat \<Rightarrow> ('t, 'n) data_proto \<Rightarrow> ('t, 'n) data_proto list result" where
  "split_data tc np cfg chunks arg =
     rbind (dp_chunk tc np cfg chunks arg) (\<lambda>ds. if length ds = chunks then Inr ds else Inl AssertionError)"

definition split_args_kwargs_data_proto ::
  "split_fn \<Rightarrow> split_fn \<Rightarrow> bool \<Rightarrow> nat \<Rightarrow> ('t, 'n) data_proto list \<Rightarrow> (string \<times> ('t, 'n) data_proto) list \<Rightarrow>
   (('t, 'n) data_proto list list \<times> (string \<times> ('t, 'n) data_proto list) list) result" where
  "split_args_kwargs_data_proto tc np cfg chunks args kwargs =
     rbind (rmap (split_data tc np cfg chunks) args) (\<lambda>splitted_args.
     rbind (rmap_dict (split_data tc np cfg chunks) kwargs) (\<lambda>splitted_kwargs. Inr (splitted_args, splitted_kwargs)))"

text \<open>
  The state of the automatic padding: \<open>None\<close> before the first padded batch, then its length and the number of
  rows to append. Next to the parts the changed batch is returned.
\<close>

type_synonym pad_state = "(nat \<times> nat) option"

definition padding_and_split_data ::
  "split_fn \<Rightarrow> split_fn \<Rightarrow> bool \<Rightarrow> nat \<Rightarrow> ('t, 'n) data_proto \<Rightarrow> pad_state \<Rightarrow>
   (('t, 'n) data_proto list \<times> ('t, 'n) data_proto \<times> pad_state) result" where
  "padding_and_split_data tc np cfg chunks obj st =
     (if is_padding_enabled cfg obj then
        rbind (case st of
            None \<Rightarrow> if chunks = 0 then Inl ZeroDivisionError
                    else Inr (dp_len obj, if 0 < dp_len obj mod chunks then chunks - dp_len obj mod chunks else 0)
          | Some (l, p) \<Rightarrow> if l = dp_len obj then Inr (l, p) else Inl AssertionError) (\<lambda>(l, p).
        rbind (dp_padding p False obj) (\<lambda>padded.
        rbind (dp_chunk tc np cfg chunks padded) (\<lambda>parts. Inr (parts, padded, Some (l, p)))))
      else rbind (dp_chunk tc np cfg chunks obj) (\<lambda>parts. Inr (parts, obj, st)))"

fun pad_split_args ::
  "split_fn \<Rightarrow> split_fn \<Rightarrow> bool \<Rightarrow> nat \<Rightarrow> ('t, 'n) data_proto list \<Rightarrow> pad_state \<Rightarrow>
   (('t, 'n) data_proto list list \<times> ('t, 'n) data_proto list \<times> pad_state) result" where
  "pad_split_args tc np cfg chunks [] st = Inr ([], [], st)"
| "pad_split_args tc np cfg chunks (a # as) st =
     rbind (padding_and_split_data tc np cfg chunks a st) (\<lambda>(parts, a', st).
     rbind (pad_split_args tc np cfg chunks as st) (\<lambda>(rest, as', st). Inr (parts # rest, a' # as', st)))"

record ('t, 'n) dispatched =
  d_args :: "('t, 'n) data_proto list list"
  d_kwargs :: "(string \<times> ('t, 'n) data_proto list) list"
  d_padding :: "nat option"
  d_callers :: "('t, 'n) data_proto list"

text \<open>
  The entry \<open>_padding_size_key\<close> of the keyword arguments is the field \<open>d_padding\<close>; \<open>d_callers\<close> are the
  caller's batches afterwards, positional ones first.
\<close>

definition split_args_kwargs_data_proto_with_auto_padding ::
  "split_fn \<Rightarrow> split_fn \<Rightarrow> bool \<Rightarrow> nat \<Rightarrow> ('t, 'n) data_proto list \<Rightarrow> (string \<times> ('t, 'n) data_proto) list \<Rightarrow> ('t, 'n) dispatched result" where
  "split_args_kwargs_data_proto_with_auto_padding tc np cfg chunks args kwargs =
     rbind (pad_split_args tc np cfg chunks args None) (\<lambda>(splitted_args, args', st).
     rbind (pad_split_args tc np cfg chunks (map snd kwargs) st) (\<lambda>(splitted, kwargs', st).
       Inr \<lparr>d_args = splitted_args, d_kwargs = zip (map fst kwargs) splitted, d_padding = map_option snd st, d_callers = args' @ kwargs'\<rparr>))"

section \<open>Dispatch and collect functions\<close>

definition dispatch_one_to_all :: "nat \<Rightarrow> 'a list \<Rightarrow> (string \<times> 'a) list \<Rightarrow> 'a py_arg list \<times> (string \<times> 'a py_arg) list" where
  "dispatch_one_to_all world_size args kwargs =
     (map (\<lambda>a. PyList (replicate world_size a)) args, dict_map (\<lambda>v. PyList (replicate world_size v)) kwargs)"

definition dispatch_all_to_all :: "'a py_arg list \<Rightarrow> (string \<times> 'a py_arg) list \<Rightarrow> 'a py_arg list \<times> (string \<times> 'a py_arg) list" where
  "dispatch_all_to_all args kwargs = (args, kwargs)"

definition collect_all_to_all :: "('t, 'n, 'x) py_out list \<Rightarrow> ('t, 'n, 'x) py_out result" where
  "collect_all_to_all output = Inr (OList output)"

definition dummy_direct_rollout_call :: "'a result" where
  "dummy_direct_rollout_call = Inl NotImplementedError"

definition dispatch_dp_compute ::
  "nat \<Rightarrow> 'a py_arg list \<Rightarrow> (string \<times> 'a py_arg) list \<Rightarrow> ('a py_arg list \<times> (string \<times> 'a py_arg) list) result" where
  "dispatch_dp_compute world_size args kwargs =
     (if list_all (\<lambda>a. arg_len a = Some world_size) args \<and> list_all (\<lambda>kv. arg_len (snd kv) = Some world_size) kwargs
      then Inr (args, kwargs) else Inl AssertionError)"

definition collect_dp_compute :: "nat \<Rightarrow> ('t, 'n, 'x) py_out list \<Rightarrow> ('t, 'n, 'x) py_out list result" where
  "collect_dp_compute world_size output = (if length output = world_size then Inr output else Inl AssertionError)"

definition dispatch_dp_compute_data_proto ::
  "split_fn \<Rightarrow> split_fn \<Rightarrow> bool \<Rightarrow> nat \<Rightarrow> ('t, 'n) data_proto list \<Rightarrow> (string \<times> ('t, 'n) data_proto) list \<Rightarrow> ('t, 'n) dispatched result" where
  "dispatch_dp_compute_data_proto tc np cfg world_size args kwargs =
     split_args_kwargs_data_proto_with_auto_padding tc np cfg world_size args kwargs"

text \<open>The function is the first argument of every worker, the batches follow.\<close>

definition dispatch_dp_compute_data_proto_with_func ::
  "split_fn \<Rightarrow> split_fn \<Rightarrow> bool \<Rightarrow> nat \<Rightarrow> 'f \<Rightarrow> ('t, 'n) data_proto list \<Rightarrow> (string \<times> ('t, 'n) data_proto) list \<Rightarrow>
   ('f list \<times> ('t, 'n) data_proto list list \<times> (string \<times> ('t, 'n) data_proto list) list) result" where
  "dispatch_dp_compute_data_proto_with_func tc np cfg world_size f args kwargs =
     rbind (split_args_kwargs_data_proto tc np cfg world_size args kwargs) (\<lambda>(splitted_args, splitted_kwargs).
       Inr (replicate world_size f, splitted_args, splitted_kwargs))"

text \<open>\<open>BatchData.is_concatable\<close> and \<open>_concat_data_proto_or_future\<close> for outputs that are batches.\<close>

fun is_proto :: "('t, 'n, 'x) py_out \<Rightarrow> bool" where
  "is_proto (OProto _) = True"
| "is_proto _ = False"

fun the_proto :: "('t, 'n, 'x) py_out \<Rightarrow> ('t, 'n) data_proto result" where
  "the_proto (OProto d) = Inr d"
| "the_proto _ = Inl AssertionError"

definition is_concatable :: "('t, 'n, 'x) py_out list \<Rightarrow> bool" where
  "is_concatable output = (case output of [] \<Rightarrow> False | o1 # _ \<Rightarrow> is_proto o1)"

definition concat_data_proto :: "('t, 'n, 'x) py_out list \<Rightarrow> ('t, 'n, 'x) py_out result" where
  "concat_data_proto output =
     rbind (rmap the_proto output) (\<lambda>ds. if ds = [] then Inl ValueError else rbind (dp_concat ds) (\<lambda>d. Inr (OProto d)))"

definition collect_dp_compute_data_proto :: "nat \<Rightarrow> ('t, 'n, 'x) py_out list \<Rightarrow> ('t, 'n, 'x) py_out result" where
  "collect_dp_compute_data_proto world_size output =
     (if is_concatable output then rbind (collect_dp_compute world_size output) concat_data_proto else Inl AssertionError)"

text \<open>
  \<open>parallel_put\<close> of \<open>verl/utils/ray_utils.py\<close>: the threads finish in any order, \<open>completion n\<close> is the order in
  which \<open>as_completed\<close> yields the \<open>n\<close> futures. An entry that no future wrote would stay \<open>None\<close>.
\<close>

definition parallel_put :: "(nat \<Rightarrow> nat list) \<Rightarrow> 'a list \<Rightarrow> 'a list result" where
  "parallel_put completion data_list =
     (if data_list = [] then Inl AssertionError
      else case those (fold (\<lambda>(i, v) out. out[i := Some v]) (map (\<lambda>i. (i, data_list ! i)) (completion (length data_list)))
                        (replicate (length data_list) None))
        of None \<Rightarrow> Inl TypeError | Some out \<Rightarrow> Inr out)"

definition completion_law :: "(nat \<Rightarrow> nat list) \<Rightarrow> bool" where
  "completion_law c \<longleftrightarrow> (\<forall>n. distinct (c n) \<and> set (c n) = {..<n})"

definition transform_arg :: "int list \<Rightarrow> nat \<Rightarrow> nat \<Rightarrow> 'a list \<Rightarrow> 'a list result" where
  "transform_arg dp_rank_mapping dp_size world_size arg =
     (if length arg = dp_size
      then rmap (\<lambda>i. rbind (py_get dp_rank_mapping i) (py_iget arg)) [0..<world_size]
      else Inl AssertionError)"

definition dispatch_nd_compute ::
  "(nat \<Rightarrow> nat list) \<Rightarrow> int list \<Rightarrow> nat \<Rightarrow> nat \<Rightarrow> 'a list list \<Rightarrow> (string \<times> 'a list) list \<Rightarrow> ('a list list \<times> (string \<times> 'a list) list) result" where
  "dispatch_nd_compute completion dp_rank_mapping dp_size world_size args kwargs =
     (if args = [] then Inl IndexError
      else rbind (rmap (parallel_put completion) args) (\<lambda>args.
           rbind (rmap_dict (parallel_put completion) kwargs) (\<lambda>kwargs.
           rbind (rmap (transform_arg dp_rank_mapping dp_size world_size) args) (\<lambda>all_args.
           rbind (rmap_dict (transform_arg dp_rank_mapping dp_size world_size) kwargs) (\<lambda>all_kwargs. Inr (all_args, all_kwargs))))))"

definition collect_nd_compute :: "bool list \<Rightarrow> nat \<Rightarrow> 'a list \<Rightarrow> 'a list result" where
  "collect_nd_compute collect_mask world_size output =
     (if length output \<noteq> world_size then Inl AssertionError
      else rfold (\<lambda>global_rank output_in_dp. rbind (py_get collect_mask global_rank) (\<lambda>collect_dp_rank.
             Inr (if collect_dp_rank then output_in_dp @ [output ! global_rank] else output_in_dp))) [0..<world_size] [])"

definition dispatch_nd_compute_dataproto ::
  "split_fn \<Rightarrow> split_fn \<Rightarrow> bool \<Rightarrow> (nat \<Rightarrow> nat list) \<Rightarrow> int list \<Rightarrow> nat \<Rightarrow> nat \<Rightarrow>
   ('t, 'n) data_proto list \<Rightarrow> (string \<times> ('t, 'n) data_proto) list \<Rightarrow>
   (('t, 'n) data_proto list list \<times> (string \<times> ('t, 'n) data_proto list) list) result" where
  "dispatch_nd_compute_dataproto tc np cfg completion dp_rank_mapping dp_size world_size args kwargs =
     rbind (split_args_kwargs_data_proto tc np cfg dp_size args kwargs) (\<lambda>(splitted_args, splitted_kwargs).
       dispatch_nd_compute completion dp_rank_mapping dp_size world_size splitted_args splitted_kwargs)"

definition collect_nd_compute_dataproto :: "bool list \<Rightarrow> nat \<Rightarrow> ('t, 'n, 'x) py_out list \<Rightarrow> ('t, 'n, 'x) py_out result" where
  "collect_nd_compute_dataproto collect_mask world_size output =
     rbind (collect_nd_compute collect_mask world_size output) (\<lambda>output.
       if is_concatable output then concat_data_proto output else Inl AssertionError)"

section \<open>Worker groups\<close>

record worker =
  dispatch_dp_rank :: "(string \<times> int) list"
  collect_dp_rank :: "(string \<times> bool) list"

definition register_dispatch_collect_info :: "string \<Rightarrow> int \<Rightarrow> bool \<Rightarrow> worker \<Rightarrow> worker result" where
  "register_dispatch_collect_info mesh_name dp_rank is_collect w =
     (if map_of (dispatch_dp_rank w) mesh_name \<noteq> None \<or> map_of (collect_dp_rank w) mesh_name \<noteq> None then Inl ValueError
      else Inr (w\<lparr>dispatch_dp_rank := AList.update mesh_name dp_rank (dispatch_dp_rank w),
                 collect_dp_rank := AList.update mesh_name is_collect (collect_dp_rank w)\<rparr>))"

definition query_dispatch_info :: "string \<Rightarrow> worker \<Rightarrow> int result" where
  "query_dispatch_info mesh_name w = (case map_of (dispatch_dp_rank w) mesh_name of None \<Rightarrow> Inl AssertionError | Some r \<Rightarrow> Inr r)"

definition query_collect_info :: "string \<Rightarrow> worker \<Rightarrow> bool result" where
  "query_collect_info mesh_name w = (case map_of (collect_dp_rank w) mesh_name of None \<Rightarrow> Inl AssertionError | Some b \<Rightarrow> Inr b)"

text \<open>The group keeps what the workers answered.\<close>

record worker_group =
  workers :: "worker list"
  wg_dispatch_info :: "(string \<times> int list) list"
  wg_collect_info :: "(string \<times> bool list) list"

definition world_size :: "worker_group \<Rightarrow> nat" where
  "world_size wg = length (workers wg)"

definition dispatch_lazy_compute_data_proto ::
  "split_fn \<Rightarrow> split_fn \<Rightarrow> bool \<Rightarrow> (nat \<Rightarrow> nat list) \<Rightarrow> string \<Rightarrow> ('t, 'n) data_proto list \<Rightarrow> (string \<times> ('t, 'n) data_proto) list \<Rightarrow>
   worker_group \<Rightarrow> ((('t, 'n) data_proto list list \<times> (string \<times> ('t, 'n) data_proto list) list) \<times> worker_group) result" where
  "dispatch_lazy_compute_data_proto tc np cfg completion mesh_name args kwargs wg =
     rbind (case map_of (wg_dispatch_info wg) mesh_name of
         Some m \<Rightarrow> Inr (m, wg)
       | None \<Rightarrow> rbind (rmap (query_dispatch_info mesh_name) (workers wg)) (\<lambda>m.
           Inr (m, wg\<lparr>wg_dispatch_info := AList.update mesh_name m (wg_dispatch_info wg)\<rparr>))) (\<lambda>(dp_rank_mapping, wg).
       if dp_rank_mapping = [] then Inl ValueError
       else rbind (dispatch_nd_compute_dataproto tc np cfg completion dp_rank_mapping (nat (Max (set dp_rank_mapping) + 1)) (world_size wg) args kwargs)
              (\<lambda>out. Inr (out, wg)))"

definition collect_lazy_compute_data_proto ::
  "string \<Rightarrow> ('t, 'n, 'x) py_out list \<Rightarrow> worker_group \<Rightarrow> (('t, 'n, 'x) py_out \<times> worker_group) result" where
  "collect_lazy_compute_data_proto mesh_name output wg =
     (if map_of (wg_dispatch_info wg) mesh_name = None then Inl AssertionError
      else rbind (case map_of (wg_collect_info wg) mesh_name of
          Some c \<Rightarrow> Inr (c, wg)
        | None \<Rightarrow> rbind (rmap (query_collect_info mesh_name) (workers wg)) (\<lambda>c.
            Inr (c, wg\<lparr>wg_collect_info := AList.update mesh_name c (wg_collect_info wg)\<rparr>))) (\<lambda>(collect_mask, wg).
          rbind (collect_nd_compute_dataproto collect_mask (world_size wg) output) (\<lambda>out. Inr (out, wg))))"

section \<open>Calls\<close>

text \<open>\<open>execute_all_async\<close>: lists with one element for every worker are distributed, otherwise all workers get all arguments.\<close>

definition list_elem :: "nat \<Rightarrow> 'a py_arg \<Rightarrow> 'a py_arg" where
  "list_elem i a = (case a of PyList xs \<Rightarrow> Obj (xs ! i) | _ \<Rightarrow> a)"

definition is_list_of :: "nat \<Rightarrow> 'a py_arg \<Rightarrow> bool" where
  "is_list_of n a = (case a of PyList xs \<Rightarrow> length xs = n | _ \<Rightarrow> False)"

definition execute_all ::
  "(nat \<Rightarrow> 'a py_arg list \<Rightarrow> (string \<times> 'a py_arg) list \<Rightarrow> 'b result) \<Rightarrow> nat \<Rightarrow> 'a py_arg list \<Rightarrow> (string \<times> 'a py_arg) list \<Rightarrow> 'b list result" where
  "execute_all run n args kwargs =
     (if list_all (is_list_of n) args \<and> list_all (\<lambda>kv. is_list_of n (snd kv)) kwargs
      then rmap (\<lambda>i. run i (map (list_elem i) args) (dict_map (list_elem i) kwargs)) [0..<n]
      else rmap (\<lambda>i. run i args kwargs) [0..<n])"

definition trim_output :: "nat \<Rightarrow> ('t, 'n, 'x) py_out \<Rightarrow> ('t, 'n, 'x) py_out result" where
  "trim_output padding_count output =
     (if padding_count = 0 then Inr output
      else case output of
        OProto d \<Rightarrow> rbind (select_idxs (py_islice 0 (- int padding_count) (map int [0..<dp_len d])) d) (\<lambda>d. Inr (OProto d))
      | OList xs \<Rightarrow> Inr (OList (py_islice 0 (- int padding_count) xs))
      | OObj x \<Rightarrow> Inr output)"

text \<open>\<open>func_generator\<close> with the modes \<open>DP_COMPUTE_PROTO\<close> and \<open>DP_COMPUTE_METRIC\<close>, which differ in the collection.\<close>

definition call_dp_compute_proto ::
  "split_fn \<Rightarrow> split_fn \<Rightarrow> bool \<Rightarrow> (nat \<Rightarrow> ('t, 'n) data_proto py_arg list \<Rightarrow> (string \<times> ('t, 'n) data_proto py_arg) list \<Rightarrow> ('u, 'm, 'x) py_out result) \<Rightarrow>
   (('u, 'm, 'x) py_out list \<Rightarrow> ('u, 'm, 'x) py_out result) \<Rightarrow> nat \<Rightarrow> ('t, 'n) data_proto list \<Rightarrow> (string \<times> ('t, 'n) data_proto) list \<Rightarrow>
   (('u, 'm, 'x) py_out \<times> ('t, 'n) data_proto list) result" where
  "call_dp_compute_proto tc np cfg run collect_fn n args kwargs =
     rbind (dispatch_dp_compute_data_proto tc np cfg n args kwargs) (\<lambda>d.
     rbind (execute_all run n (map PyList (d_args d)) (dict_map PyList (d_kwargs d))) (\<lambda>output.
     rbind (collect_fn output) (\<lambda>output.
     rbind (trim_output (case d_padding d of None \<Rightarrow> 0 | Some p \<Rightarrow> p) output) (\<lambda>output. Inr (output, d_callers d)))))"

text \<open>\<open>func_generator\<close> with the functions of \<open>make_nd_compute_dataproto_dispatch_fn\<close>.\<close>

definition call_nd_compute ::
  "split_fn \<Rightarrow> split_fn \<Rightarrow> bool \<Rightarrow> (nat \<Rightarrow> nat list) \<Rightarrow>
   (nat \<Rightarrow> ('t, 'n) data_proto py_arg list \<Rightarrow> (string \<times> ('t, 'n) data_proto py_arg) list \<Rightarrow> ('u, 'm, 'x) py_out result) \<Rightarrow>
   string \<Rightarrow> ('t, 'n) data_proto list \<Rightarrow> (string \<times> ('t, 'n) data_proto) list \<Rightarrow> worker_group \<Rightarrow> (('u, 'm, 'x) py_out \<times> worker_group) result" where
  "call_nd_compute tc np cfg completion run mesh_name args kwargs wg =
     rbind (dispatch_lazy_compute_data_proto tc np cfg completion mesh_name args kwargs wg) (\<lambda>((args, kwargs), wg).
     rbind (execute_all run (world_size wg) (map PyList args) (dict_map PyList kwargs)) (\<lambda>output.
       collect_lazy_compute_data_proto mesh_name output wg))"

section \<open>Row-wise methods\<close>

text \<open>A method of a worker that takes one batch and returns one.\<close>

definition worker_method ::
  "(('t, 'n) data_proto \<Rightarrow> ('u, 'm) data_proto result) \<Rightarrow> nat \<Rightarrow> ('t, 'n) data_proto py_arg list \<Rightarrow> (string \<times> ('t, 'n) data_proto py_arg) list \<Rightarrow>
   ('u, 'm, 'x) py_out result" where
  "worker_method f i args kwargs = (case args of [Obj d] \<Rightarrow> rbind (f d) (\<lambda>y. Inr (OProto y)) | _ \<Rightarrow> Inl TypeError)"

text \<open>On every selection of rows of \<open>d\<close> the method returns the corresponding rows of \<open>out\<close>.\<close>

definition row_wise :: "(('t, 'n) data_proto \<Rightarrow> ('u, 'm) data_proto result) \<Rightarrow> ('t, 'n) data_proto \<Rightarrow> ('u, 'm) data_proto \<Rightarrow> bool" where
  "row_wise f d out \<longleftrightarrow> dp_ok out \<and> dp_len out = dp_len d \<and>
     (\<forall>I. I \<noteq> [] \<longrightarrow> set I \<subseteq> {..<dp_len d} \<longrightarrow> f (dp_pick I d) = Inr (dp_pick I out))"

lemma row_wise_all: "row_wise f d out \<Longrightarrow> dp_ok d \<Longrightarrow> 0 < dp_len d \<Longrightarrow> f d = Inr out"
  unfolding row_wise_def by (metis atLeast_upt dp_pick_all less_numeral_extra(3) list.size(3) length_upt diff_zero order_refl)

lemma execute_row_wise:
  assumes "row_wise f d out" "\<And>i. i < n \<Longrightarrow> K i \<noteq> [] \<and> set (K i) \<subseteq> {..<dp_len d}"
  shows "execute_all (worker_method f) n [PyList (map (\<lambda>i. dp_pick (K i) d) [0..<n])] [] = Inr (map (\<lambda>i. OProto (dp_pick (K i) out)) [0..<n])"
proof -
  have "rmap (\<lambda>i. worker_method f i (map (list_elem i) [PyList (map (\<lambda>i. dp_pick (K i) d) [0..<n])]) (dict_map (list_elem i) [])) [0..<n] =
    Inr (map (\<lambda>i. OProto (dp_pick (K i) out)) [0..<n])"
    using assms by (intro rmap_pure) (simp add: worker_method_def list_elem_def row_wise_def)
  then show ?thesis by (simp add: execute_all_def is_list_of_def)
qed

lemma rmap_the_proto: "rmap the_proto (map OProto ds) = Inr ds"
  by (induction ds) simp_all

lemma concat_outputs:
  assumes "ds \<noteq> []" "dp_concat ds = Inr d"
  shows "is_concatable (map OProto ds)" "concat_data_proto (map OProto ds) = Inr (OProto d)"
proof -
  show "is_concatable (map OProto ds)" using assms(1) by (cases ds) (simp_all add: is_concatable_def)
  show "concat_data_proto (map OProto ds) = Inr (OProto d)" using assms unfolding concat_data_proto_def by (simp add: rmap_the_proto)
qed

lemma collect_outputs:
  "ds \<noteq> [] \<Longrightarrow> dp_concat ds = Inr d \<Longrightarrow> collect_dp_compute_data_proto (length ds) (map OProto ds) = Inr (OProto d)"
  by (simp add: collect_dp_compute_data_proto_def collect_dp_compute_def concat_outputs [of ds d])

lemma trim_output_pick:
  assumes "dp_ok d" "0 < dp_len d"
  shows "trim_output (length I) (OProto (dp_pick ([0..<dp_len d] @ I) d)) = Inr (OProto d)"
proof (cases "I = []")
  case True
  then show ?thesis by (simp add: trim_output_def dp_pick_all [OF assms(1)])
next
  case False
  define p where "p = dp_pick ([0..<dp_len d] @ I) d"
  have p: "dp_ok p" "dp_len p = dp_len d + length I"
    using dp_pick_ok [OF assms(1)] dp_len_pick [OF assms] by (simp_all add: p_def)
  have "py_islice 0 (- int (length I)) (map int [0..<dp_len p]) = map int [0..<dp_len d]"
    using False p(2) by (simp add: py_islice_def py_bound_def py_slice_def take_map)
  moreover have "dp_pick [0..<dp_len d] p = d" unfolding p_def by (rule dp.sel_prefix [OF assms(1)])
  ultimately show ?thesis using False p select_idxs_pick [OF p(1), of "[0..<dp_len d]"] by (simp add: trim_output_def flip: p_def)
qed

section \<open>Automatic padding\<close>

definition auto_pad_size :: "nat \<Rightarrow> nat \<Rightarrow> nat" where
  "auto_pad_size w n = (if 0 < n mod w then w - n mod w else 0)"

definition auto_pad_rows :: "nat \<Rightarrow> nat \<Rightarrow> nat list" where
  "auto_pad_rows w n = [0..<n] @ replicate (auto_pad_size w n) (n - 1)"

lemma auto_pad_rows_length: "length (auto_pad_rows w n) = n + auto_pad_size w n"
  by (simp add: auto_pad_rows_def)

lemma auto_pad_dvd: "0 < w \<Longrightarrow> w dvd n + auto_pad_size w n"
  using padded_length(1) [of w n] by (auto simp: auto_pad_size_def)

lemma auto_pad_rows_set: "0 < n \<Longrightarrow> set (auto_pad_rows w n) \<subseteq> {..<n}"
  by (auto simp: auto_pad_rows_def)

lemma auto_pad_none: "w dvd n \<Longrightarrow> auto_pad_size w n = 0"
  by (simp add: auto_pad_size_def)

text \<open>The rows of a part of a selection.\<close>

lemma pick_chunk_rows:
  assumes "length J = w * s" "i < w" "0 < s"
  shows "pick (chunk_rows s i) J \<noteq> []" "set (pick (chunk_rows s i) J) \<subseteq> set J" "\<forall>j \<in> set (chunk_rows s i). j < length J"
proof -
  have "Suc i * s \<le> length J" using assms by (metis Suc_leI mult_le_mono1)
  then show b: "\<forall>j \<in> set (chunk_rows s i). j < length J" by (auto simp: chunk_rows_def)
  then show "set (pick (chunk_rows s i) J) \<subseteq> set J" by (auto simp: pick_def)
  show "pick (chunk_rows s i) J \<noteq> []" using assms(3) by (simp add: pick_def chunk_rows_def)
qed

lemma padding_and_split_ok:
  assumes laws: "split_law tc" "split_law np" and ok: "dp_ok d" and pos: "0 < dp_len d" "0 < w"
    and pad: "is_padding_enabled cfg d \<or> w dvd dp_len d" and s: "dp_len d + auto_pad_size w (dp_len d) = w * s"
  defines "J \<equiv> auto_pad_rows w (dp_len d)"
  shows "\<exists>st. padding_and_split_data tc np cfg w d None = Inr (map (\<lambda>i. dp_pick (pick (chunk_rows s i) J) d) [0..<w], dp_pick J d, st) \<and>
    (case map_option snd st of None \<Rightarrow> 0 | Some p \<Rightarrow> p) = auto_pad_size w (dp_len d)"
proof -
  have s0: "0 < s" using s pos by (metis add_is_0 gr0I mult_0_right)
  have J: "length J = w * s" using s by (simp add: J_def auto_pad_rows_length)
  have Jlen: "dp_ok (dp_pick J d)" "dp_len (dp_pick J d) = w * s" using dp_pick_ok [OF ok] dp_len_pick [OF ok pos(1)] J by simp_all
  have "dp_pick (chunk_rows s i) (dp_pick J d) = dp_pick (pick (chunk_rows s i) J) d" if "i < w" for i
    using pick_chunk_rows(3) [OF J that s0] by (rule dp_pick_pick)
  then have parts: "dp_chunk tc np cfg w (dp_pick J d) = Inr (map (\<lambda>i. dp_pick (pick (chunk_rows s i) J) d) [0..<w])"
    using dp_chunk_equal [OF laws Jlen(1) pos(2) s0 Jlen(2), of cfg] by simp
  show ?thesis
  proof (cases "is_padding_enabled cfg d")
    case True
    have "dp_padding (auto_pad_size w (dp_len d)) False d = Inr (dp_pick J d)"
      using dp_padding_pick [OF ok pos(1)] by (simp add: J_def auto_pad_rows_def)
    then show ?thesis using True parts pos(2)
      by (intro exI [of _ "Some (dp_len d, auto_pad_size w (dp_len d))"])
        (simp add: padding_and_split_data_def flip: auto_pad_size_def del: rbind_Inr_iff)
  next
    case False
    then have "auto_pad_size w (dp_len d) = 0" using pad auto_pad_none by blast
    moreover from this have "dp_pick J d = d" by (simp add: J_def auto_pad_rows_def dp_pick_all [OF ok])
    ultimately show ?thesis using False parts by (intro exI [of _ None]) (simp add: padding_and_split_data_def)
  qed
qed

text \<open>A call in the mode \<open>DP_COMPUTE_PROTO\<close> gives what the method gives on the whole batch.\<close>

lemma call_dp_row_wise:
  assumes laws: "split_law tc" "split_law np" and ok: "dp_ok d" and pos: "0 < dp_len d" "0 < w"
    and pad: "is_padding_enabled cfg d \<or> w dvd dp_len d" and f: "row_wise f d out"
  shows "call_dp_compute_proto tc np cfg (worker_method f) (collect_dp_compute_data_proto w) w [d] [] =
    Inr (OProto out, [dp_pick (auto_pad_rows w (dp_len d)) d])"
proof -
  define n where "n = dp_len d"
  define J where "J = auto_pad_rows w n"
  obtain s where s: "n + auto_pad_size w n = w * s" using auto_pad_dvd [OF pos(2), of n] by blast
  have s0: "0 < s" using s pos by (metis add_is_0 gr0I mult_0_right n_def)
  have J: "length J = w * s" using s by (simp add: J_def auto_pad_rows_length)
  define K where "K = (\<lambda>i. pick (chunk_rows s i) J)"
  obtain st where st: "padding_and_split_data tc np cfg w d None = Inr (map (\<lambda>i. dp_pick (K i) d) [0..<w], dp_pick J d, st)"
    "(case map_option snd st of None \<Rightarrow> 0 | Some p \<Rightarrow> p) = auto_pad_size w n"
    using padding_and_split_ok [OF laws ok pos pad s [unfolded n_def]] unfolding K_def J_def n_def by blast
  have out: "dp_ok out" "dp_len out = n" using f by (simp_all add: row_wise_def n_def)
  have K: "K i \<noteq> [] \<and> set (K i) \<subseteq> {..<dp_len d}" if "i < w" for i
    using pick_chunk_rows [OF J that s0] auto_pad_rows_set [of n w] pos(1) unfolding K_def J_def n_def by blast
  have conc: "dp_concat (map (\<lambda>i. dp_pick (K i) out) [0..<w]) = Inr (dp_pick J out)"
    unfolding K_def by (rule dp.cat_parts [OF out(1) pos(2) J])
  have outs: "map (\<lambda>i. OProto (dp_pick (K i) out)) [0..<w] = map OProto (map (\<lambda>i. dp_pick (K i) out) [0..<w])" by simp
  have coll: "collect_dp_compute_data_proto w (map (\<lambda>i. OProto (dp_pick (K i) out)) [0..<w]) = Inr (OProto (dp_pick J out))"
    using collect_outputs [OF _ conc] pos(2) unfolding outs by simp
  have trim: "trim_output (auto_pad_size w n) (OProto (dp_pick J out)) = Inr (OProto out)"
    using trim_output_pick [OF out(1), of "replicate (auto_pad_size w n) (n - 1)"] pos(1) out(2) by (simp add: J_def auto_pad_rows_def n_def)
  show ?thesis
    unfolding call_dp_compute_proto_def dispatch_dp_compute_data_proto_def split_args_kwargs_data_proto_with_auto_padding_def
    using st by (simp add: dict_map_def execute_row_wise [OF f K] coll trim J_def [symmetric] n_def [symmetric] del: rbind_Inr_iff)
qed

section \<open>Mesh dispatch\<close>

lemma fold_update:
  "distinct js \<Longrightarrow> set js \<subseteq> {..<length out} \<Longrightarrow> length out = length xs \<Longrightarrow>
   fold (\<lambda>(i, v) out. out[i := Some v]) (map (\<lambda>i. (i, xs ! i)) js) out = map (\<lambda>i. if i \<in> set js then Some (xs ! i) else out ! i) [0..<length out]"
proof (induction js arbitrary: out)
  case Nil
  then show ?case by simp (rule nth_equalityI, simp_all)
next
  case (Cons j js)
  then show ?case by (auto simp: nth_list_update)
qed

lemma those_map_Some: "those (map Some xs) = Some xs"
  by (induction xs) simp_all

text \<open>The object references keep the order of the data, in whatever order the threads finish.\<close>

lemma parallel_put_id:
  assumes "completion_law c" "xs \<noteq> []"
  shows "parallel_put c xs = Inr xs"
proof -
  have "fold (\<lambda>(i, v) out. out[i := Some v]) (map (\<lambda>i. (i, xs ! i)) (c (length xs))) (replicate (length xs) None) =
    map (\<lambda>i. if i \<in> set (c (length xs)) then Some (xs ! i) else replicate (length xs) None ! i) [0..<length xs]"
    using assms(1) by (subst fold_update) (simp_all add: completion_law_def)
  also have "\<dots> = map Some (map ((!) xs) [0..<length xs])" using assms(1) by (simp add: completion_law_def)
  finally show ?thesis using assms(2) by (simp add: parallel_put_def map_nth those_map_Some)
qed

lemma collect_nd_compute_filter:
  assumes "length collect_mask = n" "length output = n"
  shows "collect_nd_compute collect_mask n output = Inr (map ((!) output) (filter ((!) collect_mask) [0..<n]))"
proof -
  have "rfold (\<lambda>i acc. rbind (py_get collect_mask i) (\<lambda>b. Inr (if b then acc @ [output ! i] else acc))) js acc =
    Inr (acc @ map ((!) output) (filter ((!) collect_mask) js))" if "set js \<subseteq> {..<n}" for js acc
    using that assms(1) by (induction js arbitrary: acc) (simp_all add: py_get_def)
  from this [of "[0..<n]" "[]"] show ?thesis using assms(2) unfolding collect_nd_compute_def by (simp add: atLeast0LessThan)
qed

lemma collect_nd_outputs:
  assumes "length cs = w" "map ((!) output) (filter ((!) cs) [0..<w]) = map OProto ds" "length output = w" "ds \<noteq> []" "dp_concat ds = Inr d"
  shows "collect_nd_compute_dataproto cs w output = Inr (OProto d)"
  by (simp add: collect_nd_compute_dataproto_def collect_nd_compute_filter [OF assms(1,3)] assms(2) concat_outputs [OF assms(4,5)] del: rbind_Inr_iff)

text \<open>
  A group whose workers have registered the mesh: \<open>ms\<close> are their data-parallel ranks, all below \<open>k\<close>, and the
  workers that are collected from have the ranks 0 to \<open>k - 1\<close> in this order. What the group has kept agrees.
\<close>

definition mesh_ok :: "string \<Rightarrow> nat \<Rightarrow> worker_group \<Rightarrow> bool" where
  "mesh_ok mesh_name k wg \<longleftrightarrow> (\<exists>ms cs.
     rmap (query_dispatch_info mesh_name) (workers wg) = Inr ms \<and> rmap (query_collect_info mesh_name) (workers wg) = Inr cs \<and>
     map_of (wg_dispatch_info wg) mesh_name \<in> {None, Some ms} \<and> map_of (wg_collect_info wg) mesh_name \<in> {None, Some cs} \<and>
     set ms \<subseteq> {0..<int k} \<and> map ((!) ms) (filter ((!) cs) [0..<world_size wg]) = map int [0..<k])"

lemma dispatch_nd_parts:
  assumes laws: "split_law tc" "split_law np" "completion_law c" and ok: "dp_ok d" and k: "0 < k" "0 < s" "dp_len d = k * s"
    and ms: "length ms = w" "set ms \<subseteq> {0..<int k}"
  shows "dispatch_nd_compute_dataproto tc np cfg c ms k w [d] [] = Inr ([map (\<lambda>i. dp_pick (chunk_rows s (nat (ms ! i))) d) [0..<w]], [])"
proof -
  define parts where "parts = map (\<lambda>i. dp_pick (chunk_rows s i) d) [0..<k]"
  have parts: "dp_chunk tc np cfg k d = Inr parts" "length parts = k" "parts \<noteq> []"
    using dp_chunk_equal [OF laws(1,2) ok k] k(1) by (simp_all add: parts_def)
  have "rbind (py_get ms i) (py_iget parts) = Inr (dp_pick (chunk_rows s (nat (ms ! i))) d)" if "i < w" for i
  proof -
    have r: "0 \<le> ms ! i" "ms ! i < int k" using ms that nth_mem [of i ms] by (metis atLeastLessThan_iff subsetD)+
    then have "py_iget parts (ms ! i) = Inr (parts ! nat (ms ! i))" using parts(2) py_iget_nat [of "nat (ms ! i)" parts] by simp
    then show ?thesis using r that ms(1) by (simp add: py_get_def parts_def nat_less_iff)
  qed
  then have "transform_arg ms k w parts = Inr (map (\<lambda>i. dp_pick (chunk_rows s (nat (ms ! i))) d) [0..<w])"
    using parts(2) rmap_pure [of "[0..<w]" "\<lambda>i. rbind (py_get ms i) (py_iget parts)"] by (simp add: transform_arg_def)
  then show ?thesis
    using parts parallel_put_id [OF laws(3) parts(3)]
    by (simp add: dispatch_nd_compute_dataproto_def split_args_kwargs_data_proto_def split_data_def rmap_dict_def dispatch_nd_compute_def del: rbind_Inr_iff)
qed

text \<open>The kept answers of the workers are the ones they give.\<close>

lemma dispatch_lazy_ok:
  assumes q: "rmap (query_dispatch_info mesh_name) (workers wg) = Inr ms" "map_of (wg_dispatch_info wg) mesh_name \<in> {None, Some ms}"
    and ms: "ms \<noteq> []" "nat (Max (set ms) + 1) = k"
    and d: "dispatch_nd_compute_dataproto tc np cfg c ms k (world_size wg) args kwargs = Inr res"
  shows "\<exists>wg'. dispatch_lazy_compute_data_proto tc np cfg c mesh_name args kwargs wg = Inr (res, wg') \<and> workers wg' = workers wg \<and>
    map_of (wg_dispatch_info wg') mesh_name = Some ms \<and> wg_collect_info wg' = wg_collect_info wg"
proof (cases "map_of (wg_dispatch_info wg) mesh_name")
  case None
  then show ?thesis using assms
    by (intro exI [of _ "wg\<lparr>wg_dispatch_info := AList.update mesh_name ms (wg_dispatch_info wg)\<rparr>"])
      (simp add: dispatch_lazy_compute_data_proto_def world_size_def update_conv' del: rbind_Inr_iff)
next
  case (Some m)
  then show ?thesis using assms by (intro exI [of _ wg]) (simp add: dispatch_lazy_compute_data_proto_def world_size_def del: rbind_Inr_iff)
qed

lemma collect_lazy_ok:
  assumes "rmap (query_collect_info mesh_name) (workers wg) = Inr cs" "map_of (wg_collect_info wg) mesh_name \<in> {None, Some cs}"
    "map_of (wg_dispatch_info wg) mesh_name = Some ms" "collect_nd_compute_dataproto cs (world_size wg) output = Inr res"
  shows "\<exists>wg'. collect_lazy_compute_data_proto mesh_name output wg = Inr (res, wg') \<and> workers wg' = workers wg \<and>
    wg_dispatch_info wg' = wg_dispatch_info wg \<and> map_of (wg_collect_info wg') mesh_name = Some cs"
proof (cases "map_of (wg_collect_info wg) mesh_name")
  case None
  then show ?thesis using assms
    by (intro exI [of _ "wg\<lparr>wg_collect_info := AList.update mesh_name cs (wg_collect_info wg)\<rparr>"])
      (simp add: collect_lazy_compute_data_proto_def world_size_def update_conv' del: rbind_Inr_iff)
next
  case (Some m)
  then show ?thesis using assms by (intro exI [of _ wg]) (simp add: collect_lazy_compute_data_proto_def world_size_def del: rbind_Inr_iff)
qed

text \<open>The greatest rank of a mesh is that of the last group that is collected from.\<close>

lemma mesh_size:
  assumes "set ms \<subseteq> {0..<int k}" "map ((!) ms) (filter ((!) cs) [0..<length ms]) = map int [0..<k]" "0 < k"
  shows "ms \<noteq> []" "nat (Max (set ms) + 1) = k"
proof -
  have "set (map ((!) ms) (filter ((!) cs) [0..<length ms])) \<subseteq> set ms" by auto
  moreover have "int (k - 1) \<in> set (map int [0..<k])" using assms(3) unfolding set_map by (intro imageI) simp
  ultimately have last: "int (k - 1) \<in> set ms" using assms(2) by (metis subsetD)
  then show "ms \<noteq> []" by auto
  have "Max (set ms) = int (k - 1)" using last assms(1,3) by (intro Max_eqI) (auto simp: of_nat_diff)
  then show "nat (Max (set ms) + 1) = k" using assms(3) by (simp add: of_nat_diff)
qed

lemma call_nd_row_wise:
  fixes out :: "('u, 'm) data_proto"
  assumes laws: "split_law tc" "split_law np" "completion_law c" and ok: "dp_ok d" "0 < dp_len d" and f: "row_wise f d out"
    and k: "k dvd dp_len d" and mesh: "mesh_ok mesh_name k wg"
  shows "\<exists>wg'. call_nd_compute tc np cfg c (worker_method f) mesh_name [d] [] wg = Inr (OProto out :: ('u, 'm, 'x) py_out, wg') \<and>
    workers wg' = workers wg \<and> mesh_ok mesh_name k wg'"
proof -
  obtain s where s: "dp_len d = k * s" using k by blast
  then have pos: "0 < k" "0 < s" using ok(2) by simp_all
  define w where "w = world_size wg"
  obtain ms cs where q: "rmap (query_dispatch_info mesh_name) (workers wg) = Inr ms" "rmap (query_collect_info mesh_name) (workers wg) = Inr cs"
    "map_of (wg_dispatch_info wg) mesh_name \<in> {None, Some ms}" "map_of (wg_collect_info wg) mesh_name \<in> {None, Some cs}"
    and ms: "set ms \<subseteq> {0..<int k}" "map ((!) ms) (filter ((!) cs) [0..<w]) = map int [0..<k]"
    using mesh unfolding mesh_ok_def w_def by blast
  have len: "length ms = w" "length cs = w" using q length_rmap by (auto simp: w_def world_size_def)
  define K where "K = (\<lambda>i. chunk_rows s (nat (ms ! i)))"
  have parts: "dispatch_nd_compute_dataproto tc np cfg c ms k w [d] [] = Inr ([map (\<lambda>i. dp_pick (K i) d) [0..<w]], [])"
    unfolding K_def by (rule dispatch_nd_parts [OF laws ok(1) pos s len(1) ms(1)])
  obtain wg1 where wg1: "dispatch_lazy_compute_data_proto tc np cfg c mesh_name [d] [] wg = Inr (([map (\<lambda>i. dp_pick (K i) d) [0..<w]], []), wg1)"
    "workers wg1 = workers wg" "map_of (wg_dispatch_info wg1) mesh_name = Some ms" "wg_collect_info wg1 = wg_collect_info wg"
    using dispatch_lazy_ok [OF q(1,3) mesh_size [OF ms(1) ms(2) [folded len(1)] pos(1)] parts [unfolded w_def]] unfolding w_def by blast
  have "K i \<noteq> [] \<and> set (K i) \<subseteq> {..<dp_len d}" if "i < w" for i
  proof -
    have "nat (ms ! i) < k" using ms(1) len(1) that nth_mem [of i ms] pos(1) by (metis atLeastLessThan_iff nat_less_iff subsetD)
    then have "Suc (nat (ms ! i)) * s \<le> dp_len d" using s by (metis Suc_leI mult_le_mono1)
    then show ?thesis using pos(2) by (auto simp: K_def chunk_rows_def)
  qed
  note run = execute_row_wise [OF f this, of w "\<lambda>i. i"]
  have "map (\<lambda>i. dp_pick (K i) out) (filter ((!) cs) [0..<w]) = map (\<lambda>r. dp_pick (chunk_rows s (nat r)) out) (map int [0..<k])"
    by (simp add: K_def comp_def flip: ms(2))
  then have sel: "map (\<lambda>i. dp_pick (K i) out) (filter ((!) cs) [0..<w]) = map (\<lambda>i. dp_pick (chunk_rows s i) out) [0..<k]" by (simp add: comp_def)
  have conc: "dp_concat (map (\<lambda>i. dp_pick (chunk_rows s i) out) [0..<k]) = Inr out" "map (\<lambda>i. dp_pick (chunk_rows s i) out) [0..<k] \<noteq> []"
    using dp.cat_chunks [of out k s] f s pos(1) by (auto simp: row_wise_def)
  have "map ((!) (map (\<lambda>i. OProto (dp_pick (K i) out)) [0..<w])) (filter ((!) cs) [0..<w]) =
    map OProto (map (\<lambda>i. dp_pick (chunk_rows s i) out) [0..<k])" by (simp flip: sel)
  then have coll: "collect_nd_compute_dataproto cs w (map (\<lambda>i. OProto (dp_pick (K i) out)) [0..<w]) = Inr (OProto out)"
    by (rule collect_nd_outputs [OF len(2) _ _ conc(2,1)]) simp
  obtain wg2 where wg2: "collect_lazy_compute_data_proto mesh_name (map (\<lambda>i. OProto (dp_pick (K i) out)) [0..<w]) wg1 = Inr (OProto out :: ('u, 'm, 'x) py_out, wg2)"
    "workers wg2 = workers wg" "wg_dispatch_info wg2 = wg_dispatch_info wg1" "map_of (wg_collect_info wg2) mesh_name = Some cs"
    using collect_lazy_ok [of mesh_name wg1 cs ms, OF _ _ wg1(3)] coll q(2,4) wg1(2,4) by (metis w_def world_size_def)
  have "mesh_ok mesh_name k wg2" unfolding mesh_ok_def
    using q(1,2) ms wg1(3) wg2(2-4) by (intro exI [of _ ms] exI [of _ cs]) (simp add: w_def world_size_def)
  moreover have "world_size wg1 = w" using wg1(2) by (simp add: w_def world_size_def)
  ultimately show ?thesis using wg1(1) wg2(1,2) unfolding call_nd_compute_def by (intro exI [of _ wg2]) (simp add: dict_map_def run del: rbind_Inr_iff)
qed

text \<open>
  C40: A distributed call computes what the method computes on the whole batch. Let the method work row by
  row on a well-formed batch with rows. Called in the mode \<open>DP_COMPUTE_PROTO\<close> on any number of workers, with
  automatic padding or with a length that the number of workers divides, the result is that of the local call; the
  caller's batch is left with the padding, its last row repeated up to the next multiple. Called over a mesh whose number of
  data-parallel ranks divides the length, the result is the same, whatever the order in which the parts reach the
  object store; replicas of a rank do not count twice.
\<close>

theorem distributed_call_local:
  assumes "split_law tc" and "split_law np" and "completion_law c" and "dp_ok d" and "0 < dp_len d" and "row_wise f d out"
  shows "f d = Inr out \<and>
    (\<forall>w > 0. is_padding_enabled cfg d \<or> w dvd dp_len d \<longrightarrow>
       call_dp_compute_proto tc np cfg (worker_method f) (collect_dp_compute_data_proto w) w [d] [] =
         Inr (OProto out, [dp_pick ([0..<dp_len d] @ replicate (if 0 < dp_len d mod w then w - dp_len d mod w else 0) (dp_len d - 1)) d])) \<and>
    (\<forall>mesh_name k wg. mesh_ok mesh_name k wg \<and> k dvd dp_len d \<longrightarrow>
       (\<exists>wg'. call_nd_compute tc np cfg c (worker_method f) mesh_name [d] [] wg = Inr (OProto out, wg') \<and>
          workers wg' = workers wg \<and> mesh_ok mesh_name k wg'))"
  using row_wise_all [OF assms(6,4,5)] call_dp_row_wise [OF assms(1,2,4,5) _ _ assms(6)] call_nd_row_wise [OF assms(1-6)]
  unfolding auto_pad_rows_def auto_pad_size_def by blast

text \<open>
  Witness of C40: five rows, padded for four workers; and six rows over four workers with two data-parallel
  ranks. The method adds one to every element.
\<close>

definition add_one :: "(int, char) data_proto \<Rightarrow> (int, char) data_proto result" where
  "add_one d = Inr (d\<lparr>batch := map_option (\<lambda>t. t\<lparr>td_items := dict_map (map (\<lambda>x. x + 1)) (td_items t)\<rparr>) (batch d)\<rparr>)"

lemma add_one_row_wise: "dp_ok d \<Longrightarrow> row_wise add_one d (projr (add_one d))"
proof -
  assume ok: "dp_ok d"
  define out where "out = d\<lparr>batch := map_option (\<lambda>t. t\<lparr>td_items := dict_map (map (\<lambda>x. x + 1)) (td_items t)\<rparr>) (batch d)\<rparr>"
  have len: "dp_len out = dp_len d" by (cases "batch d") (simp_all add: out_def dp_len_def)
  moreover have "dp_ok out"
    using ok len by (cases "batch d") (auto simp: out_def dp_ok_def dict_ok_def dict_map_def comp_def)
  moreover have "add_one (dp_pick I d) = Inr (dp_pick I out)" if I: "set I \<subseteq> {..<dp_len d}" for I
  proof (cases "batch d")
    case (Some t)
    have "map (\<lambda>x. x + 1) (pick I v) = pick I (map (\<lambda>x. x + 1) v)" if "length v = td_size t" for v :: "int list"
      using I Some that by (auto simp: pick_def dp_len_def)
    then have "dict_map (map (\<lambda>x. x + 1)) (dict_map (pick I) (td_items t)) = dict_map (pick I) (dict_map (map (\<lambda>x. x + 1)) (td_items t))"
      using ok Some by (auto simp: dict_map_def dp_ok_def dict_ok_def)
    then show ?thesis using Some by (simp add: add_one_def dp_pick_def td_pick_def out_def)
  qed (simp add: add_one_def dp_pick_def out_def)
  ultimately have "row_wise add_one d out" by (simp add: row_wise_def)
  then show ?thesis by (simp add: add_one_def out_def)
qed

definition four_workers :: worker_group where
  "four_workers = \<lparr>workers = map (\<lambda>(r, b). \<lparr>dispatch_dp_rank = [(''actor'', r)], collect_dp_rank = [(''actor'', b)]\<rparr>)
     [(0, True), (0, False), (1, True), (1, False)], wg_dispatch_info = [], wg_collect_info = []\<rparr>"

lemma four_workers_mesh: "mesh_ok ''actor'' 2 four_workers"
  unfolding mesh_ok_def
  by (intro exI [of _ "[0, 0, 1, 1]"] exI [of _ "[True, False, True, False]"])
    (simp add: four_workers_def query_dispatch_info_def query_collect_info_def world_size_def upt_rec)

theorem distributed_call_local_witness:
  "let d5 = \<lparr>batch = Some \<lparr>td_size = 5, td_items = [(''ids'', [10, 11, 12, 13, 14 :: int])]\<rparr>,
             non_tensor_batch = [(''uid'', ''abcde'')], meta_info = [(''_verl_auto_padding'', MBool True)]\<rparr>;
       d6 = \<lparr>batch = Some \<lparr>td_size = 6, td_items = [(''ids'', [10, 11, 12, 13, 14, 15 :: int])]\<rparr>,
             non_tensor_batch = [(''uid'', ''abcdef'')], meta_info = []\<rparr>
   in (\<exists>d'. call_dp_compute_proto torch_chunk_sizes array_split_sizes False (worker_method add_one) (collect_dp_compute_data_proto 4) 4 [d5] [] =
         Inr (OProto (projr (add_one d5)) :: (int, char, unit) py_out, [d'])) \<and>
      (\<exists>wg'. call_nd_compute torch_chunk_sizes array_split_sizes False (\<lambda>n. rev [0..<n]) (worker_method add_one) ''actor'' [d6] [] four_workers =
         Inr (OProto (projr (add_one d6)) :: (int, char, unit) py_out, wg'))"
proof -
  have c: "completion_law (\<lambda>n. rev [0..<n])" by (auto simp: completion_law_def)
  define d5 :: "(int, char) data_proto" where "d5 = \<lparr>batch = Some \<lparr>td_size = 5, td_items = [(''ids'', [10, 11, 12, 13, 14 :: int])]\<rparr>,
             non_tensor_batch = [(''uid'', ''abcde'')], meta_info = [(''_verl_auto_padding'', MBool True)]\<rparr>"
  define d6 :: "(int, char) data_proto" where "d6 = \<lparr>batch = Some \<lparr>td_size = 6, td_items = [(''ids'', [10, 11, 12, 13, 14, 15 :: int])]\<rparr>,
             non_tensor_batch = [(''uid'', ''abcdef'')], meta_info = []\<rparr>"
  have ok: "dp_ok d5" "dp_ok d6" "0 < dp_len d5" "0 < dp_len d6" "2 dvd dp_len d6" "is_padding_enabled False d5"
    by (simp_all add: d5_def d6_def dp_ok_def dict_ok_def dp_len_def is_padding_enabled_def auto_padding_key_def)
  have "\<exists>d'. call_dp_compute_proto torch_chunk_sizes array_split_sizes False (worker_method add_one) (collect_dp_compute_data_proto 4) 4 [d5] [] =
         Inr (OProto (projr (add_one d5)) :: (int, char, unit) py_out, [d'])"
    using distributed_call_local [OF split_law_torch split_law_array c ok(1,3) add_one_row_wise [OF ok(1)], of False, where 'e = unit] ok(6) by auto
  moreover have "\<exists>wg'. call_nd_compute torch_chunk_sizes array_split_sizes False (\<lambda>n. rev [0..<n]) (worker_method add_one) ''actor'' [d6] [] four_workers =
         Inr (OProto (projr (add_one d6)) :: (int, char, unit) py_out, wg')"
    using distributed_call_local [OF split_law_torch split_law_array c ok(2,4) add_one_row_wise [OF ok(2)], of False, where 'e = unit] four_workers_mesh ok(5) by blast
  ultimately show ?thesis unfolding Let_def d5_def d6_def by blast
qed

end
