(* ===== verification/Input_Batch.thy ===== *)
theory Input_Batch
  imports Complex_Main Request "HOL-Library.AList"
begin

text \<open>
  The persistent batch of a GPU worker: \<open>vllm/v1/worker/block_table.py\<close> and
  \<open>vllm/v1/worker/gpu_input_batch.py\<close>.

  The arrays with one row per request have type \<open>arr\<close>; all of them but the block table are the fields of
  \<open>batch_row\<close>. Sets of request ids are lists without repetition, dicts are association lists, dicts keyed by
  row numbers are arrays of optional values. \<open>req_output_token_ids\<close> holds references to the token lists of the
  cached states and is modelled by the ids of their owners. Floating-point parameters are rationals; rows that
  \<open>torch.empty\<close> leaves uninitialised start as zero. The tensors of prompt log-probabilities in progress are left out.
\<close>

section \<open>Arrays\<close>

text \<open>
  An array with one entry per row: the entries written so far, and the value of all others. Indices are in range where the
  code uses them, so reading and writing are total.
\<close>

datatype 'a arr = Arr (entries: "'a list") (rest: 'a)

definition aget :: "'a arr \<Rightarrow> nat \<Rightarrow> 'a" where
  "aget a i = (if i < length (entries a) then entries a ! i else rest a)"

definition aset :: "'a arr \<Rightarrow> nat \<Rightarrow> 'a \<Rightarrow> 'a arr" where
  "aset a i v = Arr ((entries a @ replicate (Suc i - length (entries a)) (rest a))[i := v]) (rest a)"

lemma aget_aset [simp]: "aget (aset a i v) = (aget a)(i := v)"
proof (rule ext)
  fix j show "aget (aset a i v) j = ((aget a)(i := v)) j"
    by (cases "j < length (entries a)"; cases "j = i") (auto simp: aget_def aset_def nth_append)
qed

lemma aget_Arr [simp]: "aget (Arr [] v) = (\<lambda>_. v)"
  by (simp add: aget_def fun_eq_iff)

text \<open>The array whose first \<open>n\<close> entries are those of \<open>a\<close>, the others those of \<open>b\<close>.\<close>

definition acopy :: "nat \<Rightarrow> 'a arr \<Rightarrow> 'a arr \<Rightarrow> 'a arr" where
  "acopy n a b = fold (\<lambda>i b. aset b i (aget a i)) [0..<n] b"

lemma aget_acopy: "aget (acopy n a b) i = (if i < n then aget a i else aget b i)"
  by (induction n) (auto simp: acopy_def)

text \<open>
  \<open>row[a:b] = vals\<close> of numpy: the slice is clipped, a single value is broadcast, other sizes raise.
\<close>

definition np_assign :: "int \<Rightarrow> int \<Rightarrow> 'a list \<Rightarrow> 'a list \<Rightarrow> 'a list result" where
  "np_assign a b vals row =
     (let n = length row; l = min (py_bound n a) n; h = max l (min (py_bound n b) n)
      in if length vals = h - l then Inr (take l row @ vals @ drop h row)
         else if length vals = 1 then Inr (take l row @ replicate (h - l) (hd vals) @ drop h row)
         else Inl ValueError)"

section \<open>Block table\<close>

record block_table =
  bt_max_num_reqs :: nat
  max_num_blocks_per_req :: nat
  bt_device :: "nat list arr"
  bt_rows :: "nat list arr"
  bt_counts :: "nat arr"

abbreviation bt_np :: "block_table \<Rightarrow> nat \<Rightarrow> nat list" where
  "bt_np t \<equiv> aget (bt_rows t)"

abbreviation num_blocks_per_row :: "block_table \<Rightarrow> nat \<Rightarrow> nat" where
  "num_blocks_per_row t \<equiv> aget (bt_counts t)"

definition block_table_init :: "nat \<Rightarrow> nat \<Rightarrow> block_table" where
  "block_table_init max_reqs max_blocks =
     \<lparr>bt_max_num_reqs = max_reqs, max_num_blocks_per_req = max_blocks, bt_device = Arr [] (replicate max_blocks 0),
      bt_rows = Arr [] (replicate max_blocks 0), bt_counts = Arr [] 0\<rparr>"

definition append_row :: "nat list \<Rightarrow> nat \<Rightarrow> block_table \<Rightarrow> block_table result" where
  "append_row ids i t =
     (if ids = [] then Inr t
      else if bt_max_num_reqs t \<le> i then Inl IndexError
      else let start = num_blocks_per_row t i
        in rbind (np_assign (int start) (int (start + length ids)) ids (bt_np t i)) (\<lambda>row.
             Inr (t\<lparr>bt_rows := aset (bt_rows t) i row, bt_counts := aset (bt_counts t) i (start + length ids)\<rparr>)))"

definition add_row :: "nat list \<Rightarrow> nat \<Rightarrow> block_table \<Rightarrow> block_table result" where
  "add_row ids i t =
     (if bt_max_num_reqs t \<le> i then Inl IndexError
      else append_row ids i (t\<lparr>bt_counts := aset (bt_counts t) i 0\<rparr>))"

definition move_row :: "nat \<Rightarrow> nat \<Rightarrow> block_table \<Rightarrow> block_table" where
  "move_row src tgt t =
     (let n = num_blocks_per_row t src
      in t\<lparr>bt_rows := aset (bt_rows t) tgt (take n (bt_np t src) @ drop n (bt_np t tgt)), bt_counts := aset (bt_counts t) tgt n\<rparr>)"

definition swap_row :: "nat \<Rightarrow> nat \<Rightarrow> block_table \<Rightarrow> block_table" where
  "swap_row src tgt t =
     t\<lparr>bt_counts := aset (aset (bt_counts t) src (num_blocks_per_row t tgt)) tgt (num_blocks_per_row t src),
       bt_rows := aset (aset (bt_rows t) src (bt_np t tgt)) tgt (bt_np t src)\<rparr>"

definition bt_commit :: "nat \<Rightarrow> block_table \<Rightarrow> block_table" where
  "bt_commit num_reqs t = t\<lparr>bt_device := acopy num_reqs (bt_rows t) (bt_device t)\<rparr>"

definition bt_clear :: "block_table \<Rightarrow> block_table" where
  "bt_clear t = t\<lparr>bt_device := Arr [] (replicate (max_num_blocks_per_req t) 0), bt_rows := Arr [] (replicate (max_num_blocks_per_req t) 0)\<rparr>"

section \<open>State\<close>

datatype sampling_type = GREEDY | RANDOM | RANDOM_SEED

record worker_sampling =
  sampling_type_of :: sampling_type
  temperature :: rat
  top_p :: rat
  top_k :: int
  min_p :: rat
  frequency_penalty :: rat
  presence_penalty :: rat
  repetition_penalty :: rat
  min_tokens :: int
  all_stop_token_ids :: "int list"
  logprobs :: "int option"
  ws_prompt_logprobs :: "int option"
  logit_bias :: "(int \<times> rat) list option"
  allowed_token_ids :: "int list option"
  bad_words_token_ids :: "int list list option"

record cached_request_state =
  cs_req_id :: string
  cs_prompt_token_ids :: "int list"
  cs_sampling :: worker_sampling
  cs_generator :: "int option"
  cs_block_ids :: "nat list"
  cs_num_computed_tokens :: int
  cs_output_token_ids :: "int list"
  cs_lora_request :: "int option"

definition cs_num_tokens :: "cached_request_state \<Rightarrow> nat" where
  "cs_num_tokens c = length (cs_prompt_token_ids c) + length (cs_output_token_ids c)"

definition get_token_id :: "nat \<Rightarrow> cached_request_state \<Rightarrow> int result" where
  "get_token_id i c =
     (if i < length (cs_prompt_token_ids c) then py_get (cs_prompt_token_ids c) i
      else py_get (cs_output_token_ids c) (i - length (cs_prompt_token_ids c)))"

record batch_row =
  row_token_ids :: "int list"
  row_num_tokens :: int
  row_num_tokens_no_spec :: int
  row_num_prompt_tokens :: nat
  row_num_computed_tokens :: int
  row_temperature :: rat
  row_top_p :: rat
  row_top_k :: int
  row_min_p :: rat
  row_frequency_penalty :: rat
  row_presence_penalty :: rat
  row_repetition_penalty :: rat
  row_lora :: int
  row_logit_bias :: "(int \<times> rat) list option"
  row_allowed_mask :: "bool list"

record input_batch =
  ib_max_num_reqs :: nat
  vocab_size :: nat
  ib_req_ids :: "string option list"
  req_id_to_index :: "(string \<times> nat) list"
  ib_row_arr :: "batch_row arr"
  ib_block_table :: block_table
  greedy_reqs :: "string list"
  random_reqs :: "string list"
  top_p_reqs :: "string list"
  top_k_reqs :: "string list"
  min_p_reqs :: "string list"
  frequency_penalties_reqs :: "string list"
  presence_penalties_reqs :: "string list"
  repetition_penalties_reqs :: "string list"
  ib_min_tokens :: "((int \<times> int list) option) arr"
  lora_id_to_request_ids :: "(int \<times> string list) list"
  lora_id_to_lora_request :: "(int \<times> int) list"
  ib_generators :: "(int option) arr"
  num_logprobs :: "(string \<times> int) list"
  num_prompt_logprobs :: "(string \<times> int) list"
  has_allowed_token_ids :: "string list"
  mask_allocated :: bool
  ib_bad_words :: "(int list list option) arr"
  req_output_token_ids :: "string option list"

abbreviation ib_rows :: "input_batch \<Rightarrow> nat \<Rightarrow> batch_row" where
  "ib_rows b \<equiv> aget (ib_row_arr b)"

definition input_batch_init :: "nat \<Rightarrow> nat \<Rightarrow> nat \<Rightarrow> nat \<Rightarrow> input_batch" where
  "input_batch_init max_reqs max_len max_blocks vocab =
     \<lparr>ib_max_num_reqs = max_reqs, vocab_size = vocab, ib_req_ids = [], req_id_to_index = [],
      ib_row_arr = Arr [] (\<lparr>row_token_ids = replicate max_len 0, row_num_tokens = 0, row_num_tokens_no_spec = 0, row_num_prompt_tokens = 0,
        row_num_computed_tokens = 0, row_temperature = 0, row_top_p = 0, row_top_k = 0, row_min_p = 0, row_frequency_penalty = 0,
        row_presence_penalty = 0, row_repetition_penalty = 0, row_lora = 0, row_logit_bias = None, row_allowed_mask = replicate vocab False\<rparr>),
      ib_block_table = block_table_init max_reqs max_blocks,
      greedy_reqs = [], random_reqs = [], top_p_reqs = [], top_k_reqs = [], min_p_reqs = [], frequency_penalties_reqs = [],
      presence_penalties_reqs = [], repetition_penalties_reqs = [], ib_min_tokens = Arr [] None, lora_id_to_request_ids = [],
      lora_id_to_lora_request = [], ib_generators = Arr [] None, num_logprobs = [], num_prompt_logprobs = [], has_allowed_token_ids = [],
      mask_allocated = False, ib_bad_words = Arr [] None, req_output_token_ids = []\<rparr>"

definition num_reqs :: "input_batch \<Rightarrow> nat" where
  "num_reqs b = length (req_id_to_index b)"

definition upd_row :: "nat \<Rightarrow> (batch_row \<Rightarrow> batch_row) \<Rightarrow> input_batch \<Rightarrow> input_batch" where
  "upd_row i f b = b\<lparr>ib_row_arr := aset (ib_row_arr b) i (f (ib_rows b i))\<rparr>"

section \<open>Adding a request\<close>

definition sampling_eps :: rat where
  "sampling_eps = 1 / 100000"

text \<open>The request takes row \<open>i\<close>: a new one at the end of the lists, or one that has become free.\<close>

definition take_slot :: "string \<Rightarrow> nat \<Rightarrow> input_batch \<Rightarrow> input_batch result" where
  "take_slot rid i b =
     (if i = length (ib_req_ids b) then
        Inr (b\<lparr>ib_req_ids := ib_req_ids b @ [Some rid], req_output_token_ids := req_output_token_ids b @ [Some rid],
               req_id_to_index := AList.update rid i (req_id_to_index b)\<rparr>)
      else rbind (py_set (ib_req_ids b) i (Some rid)) (\<lambda>ids. rbind (py_set (req_output_token_ids b) i (Some rid)) (\<lambda>outs.
        Inr (b\<lparr>ib_req_ids := ids, req_output_token_ids := outs, req_id_to_index := AList.update rid i (req_id_to_index b)\<rparr>))))"

definition add_tokens :: "cached_request_state \<Rightarrow> batch_row \<Rightarrow> batch_row result" where
  "add_tokens c r =
     (let n = length (cs_prompt_token_ids c); e = n + length (cs_output_token_ids c)
      in rbind (np_assign 0 (int n) (cs_prompt_token_ids c) (row_token_ids r)) (\<lambda>ts.
         rbind (np_assign (int n) (int e) (cs_output_token_ids c) ts) (\<lambda>ts.
           Inr (r\<lparr>row_num_prompt_tokens := n, row_token_ids := ts, row_num_tokens := int (cs_num_tokens c),
                  row_num_tokens_no_spec := int (cs_num_tokens c), row_num_computed_tokens := cs_num_computed_tokens c\<rparr>))))"

definition clear_mask :: "int \<Rightarrow> bool list \<Rightarrow> bool list result" where
  "clear_mask t m =
     (let j = (if t < 0 then t + int (length m) else t)
      in if 0 \<le> j \<and> j < int (length m) then Inr (m[nat j := False]) else Inl IndexError)"

text \<open>The numeric sampling parameters and the sets of the requests that use them.\<close>

definition add_sampling :: "string \<Rightarrow> nat \<Rightarrow> worker_sampling \<Rightarrow> input_batch \<Rightarrow> input_batch" where
  "add_sampling rid i p b =
     (let k = (if 0 < top_k p \<and> top_k p < int (vocab_size b) then top_k p else int (vocab_size b))
      in upd_row i (\<lambda>r. r\<lparr>row_temperature := (if sampling_type_of p = GREEDY then -1 else temperature p), row_top_p := top_p p, row_top_k := k,
             row_min_p := min_p p, row_frequency_penalty := frequency_penalty p, row_presence_penalty := presence_penalty p,
             row_repetition_penalty := repetition_penalty p\<rparr>)
           (b\<lparr>greedy_reqs := (if sampling_type_of p = GREEDY then List.insert rid (greedy_reqs b) else greedy_reqs b),
              random_reqs := (if sampling_type_of p = GREEDY then random_reqs b else List.insert rid (random_reqs b)),
              top_p_reqs := (if top_p p < 1 then List.insert rid (top_p_reqs b) else top_p_reqs b),
              top_k_reqs := (if 0 < top_k p \<and> top_k p < int (vocab_size b) then List.insert rid (top_k_reqs b) else top_k_reqs b),
              min_p_reqs := (if sampling_eps < min_p p then List.insert rid (min_p_reqs b) else min_p_reqs b),
              frequency_penalties_reqs := (if frequency_penalty p \<noteq> 0 then List.insert rid (frequency_penalties_reqs b) else frequency_penalties_reqs b),
              presence_penalties_reqs := (if presence_penalty p \<noteq> 0 then List.insert rid (presence_penalties_reqs b) else presence_penalties_reqs b),
              repetition_penalties_reqs := (if repetition_penalty p \<noteq> 1 then List.insert rid (repetition_penalties_reqs b) else repetition_penalties_reqs b)\<rparr>))"

text \<open>The optional parameters; rows are only written when the request has the parameter.\<close>

definition add_options :: "cached_request_state \<Rightarrow> nat \<Rightarrow> input_batch \<Rightarrow> input_batch result" where
  "add_options c i b =
     (let rid = cs_req_id c; p = cs_sampling c;
          b1 = b\<lparr>ib_min_tokens := (if min_tokens p \<noteq> 0 then aset (ib_min_tokens b) i (Some (min_tokens p, all_stop_token_ids p)) else ib_min_tokens b),
                 ib_generators := (if cs_generator c \<noteq> None then aset (ib_generators b) i (cs_generator c) else ib_generators b),
                 num_logprobs := (case logprobs p of None \<Rightarrow> num_logprobs b | Some n \<Rightarrow> AList.update rid n (num_logprobs b)),
                 num_prompt_logprobs := (case ws_prompt_logprobs p of None \<Rightarrow> num_prompt_logprobs b | Some n \<Rightarrow> AList.update rid n (num_prompt_logprobs b))\<rparr>;
          b2 = (if logit_bias p \<noteq> None then upd_row i (\<lambda>r. r\<lparr>row_logit_bias := logit_bias p\<rparr>) b1 else b1)
      in rbind (case allowed_token_ids p of Some (t # ts) \<Rightarrow>
             rbind (rfold clear_mask (t # ts) (replicate (vocab_size b2) True)) (\<lambda>m.
               Inr (upd_row i (\<lambda>r. r\<lparr>row_allowed_mask := m\<rparr>) (b2\<lparr>has_allowed_token_ids := List.insert rid (has_allowed_token_ids b2), mask_allocated := True\<rparr>)))
           | _ \<Rightarrow> Inr b2) (\<lambda>b3.
         Inr (case bad_words_token_ids p of Some (w # ws) \<Rightarrow> b3\<lparr>ib_bad_words := aset (ib_bad_words b3) i (Some (w # ws))\<rparr> | _ \<Rightarrow> b3)))"

definition batch_add_lora :: "string \<Rightarrow> nat \<Rightarrow> int option \<Rightarrow> input_batch \<Rightarrow> input_batch" where
  "batch_add_lora rid i lora b =
     (case lora of None \<Rightarrow> upd_row i (\<lambda>r. r\<lparr>row_lora := 0\<rparr>) b
      | Some l \<Rightarrow>
          let ids = (case map_of (lora_id_to_request_ids b) l of None \<Rightarrow> [] | Some ids \<Rightarrow> ids)
          in upd_row i (\<lambda>r. r\<lparr>row_lora := l\<rparr>)
               (b\<lparr>lora_id_to_request_ids := AList.update l (List.insert rid ids) (lora_id_to_request_ids b),
                  lora_id_to_lora_request := AList.update l l (lora_id_to_lora_request b)\<rparr>))"

definition batch_add_request :: "cached_request_state \<Rightarrow> nat option \<Rightarrow> input_batch \<Rightarrow> input_batch result" where
  "batch_add_request c req_index b =
     (let i = (case req_index of None \<Rightarrow> num_reqs b | Some i \<Rightarrow> i); rid = cs_req_id c
      in if ib_max_num_reqs b \<le> i then Inl AssertionError
         else rbind (take_slot rid i b) (\<lambda>b.
              rbind (add_tokens c (ib_rows b i)) (\<lambda>r.
              rbind (add_row (cs_block_ids c) i (ib_block_table b)) (\<lambda>t.
              rbind (add_options c i (add_sampling rid i (cs_sampling c) ((upd_row i (\<lambda>_. r) b)\<lparr>ib_block_table := t\<rparr>))) (\<lambda>b.
                Inr (batch_add_lora rid i (cs_lora_request c) b))))))"

section \<open>Removing a request\<close>

definition remove_lora :: "string \<Rightarrow> nat \<Rightarrow> input_batch \<Rightarrow> input_batch result" where
  "remove_lora rid i b =
     (let l = row_lora (ib_rows b i)
      in if l = 0 then Inr b
         else case map_of (lora_id_to_request_ids b) l of None \<Rightarrow> Inl KeyError
           | Some ids \<Rightarrow>
               if removeAll rid ids \<noteq> [] then
                 Inr (upd_row i (\<lambda>r. r\<lparr>row_lora := 0\<rparr>) (b\<lparr>lora_id_to_request_ids := AList.update l (removeAll rid ids) (lora_id_to_request_ids b)\<rparr>))
               else if map_of (lora_id_to_lora_request b) l = None then Inl KeyError
               else Inr (upd_row i (\<lambda>r. r\<lparr>row_lora := 0\<rparr>)
                      (b\<lparr>lora_id_to_request_ids := AList.delete l (lora_id_to_request_ids b),
                         lora_id_to_lora_request := AList.delete l (lora_id_to_lora_request b)\<rparr>)))"

definition discard_sampling :: "string \<Rightarrow> nat \<Rightarrow> input_batch \<Rightarrow> input_batch" where
  "discard_sampling rid i b =
     b\<lparr>greedy_reqs := removeAll rid (greedy_reqs b), random_reqs := removeAll rid (random_reqs b), top_p_reqs := removeAll rid (top_p_reqs b),
       top_k_reqs := removeAll rid (top_k_reqs b), min_p_reqs := removeAll rid (min_p_reqs b), ib_min_tokens := aset (ib_min_tokens b) i None,
       frequency_penalties_reqs := removeAll rid (frequency_penalties_reqs b), presence_penalties_reqs := removeAll rid (presence_penalties_reqs b),
       repetition_penalties_reqs := removeAll rid (repetition_penalties_reqs b), ib_generators := aset (ib_generators b) i None,
       num_logprobs := AList.delete rid (num_logprobs b), num_prompt_logprobs := AList.delete rid (num_prompt_logprobs b)\<rparr>"

definition batch_remove_request :: "string \<Rightarrow> input_batch \<Rightarrow> (nat option \<times> input_batch) result" where
  "batch_remove_request rid b =
     (case map_of (req_id_to_index b) rid of None \<Rightarrow> Inr (None, b)
      | Some i \<Rightarrow>
          rbind (py_set (ib_req_ids b) i None) (\<lambda>ids. rbind (py_set (req_output_token_ids b) i None) (\<lambda>outs.
          rbind (remove_lora rid i (discard_sampling rid i
                   (b\<lparr>req_id_to_index := AList.delete rid (req_id_to_index b), ib_req_ids := ids, req_output_token_ids := outs\<rparr>))) (\<lambda>b.
            Inr (Some i, (upd_row i (\<lambda>r. r\<lparr>row_logit_bias := None,
                            row_allowed_mask := (if mask_allocated b then replicate (vocab_size b) False else row_allowed_mask r)\<rparr>) b)
                  \<lparr>has_allowed_token_ids := removeAll rid (has_allowed_token_ids b), ib_bad_words := aset (ib_bad_words b) i None\<rparr>)))))"

section \<open>Swapping and condensing\<close>

definition swap_dict_values :: "nat \<Rightarrow> nat \<Rightarrow> 'a option arr \<Rightarrow> 'a option arr" where
  "swap_dict_values k1 k2 d = aset (aset d k2 (aget d k1)) k1 (aget d k2)"

text \<open>
  Swapped values are scalars, or copies, except for the rows of the torch tensor \<open>allowed_token_ids_mask_cpu_tensor\<close>:
  there the right-hand sides are views, so the second assignment copies the row that the first one has just overwritten.
\<close>

definition swap_rows :: "bool \<Rightarrow> nat \<Rightarrow> nat \<Rightarrow> batch_row arr \<Rightarrow> batch_row arr" where
  "swap_rows allocated i1 i2 rows =
     (let r1 = aget rows i1; r2 = aget rows i2;
          m1 = (if allocated then row_allowed_mask r2 else row_allowed_mask r1);
          m2 = (if allocated then m1 else row_allowed_mask r2)
      in aset (aset rows i1 (r2\<lparr>row_allowed_mask := m1\<rparr>)) i2 (r1\<lparr>row_allowed_mask := m2\<rparr>))"

definition swap_states :: "nat \<Rightarrow> nat \<Rightarrow> input_batch \<Rightarrow> input_batch result" where
  "swap_states i1 i2 b =
     rbind (py_get (ib_req_ids b) i1) (\<lambda>old1. rbind (py_get (ib_req_ids b) i2) (\<lambda>old2.
     rbind (py_get (req_output_token_ids b) i1) (\<lambda>o1. rbind (py_get (req_output_token_ids b) i2) (\<lambda>o2.
       case (old1, old2) of
         (Some r1, Some r2) \<Rightarrow>
           (case (map_of (req_id_to_index b) r1, map_of (req_id_to_index b) r2) of
              (Some j1, Some j2) \<Rightarrow>
                Inr (b\<lparr>ib_req_ids := (ib_req_ids b)[i1 := old2, i2 := old1], req_output_token_ids := (req_output_token_ids b)[i1 := o2, i2 := o1],
                       req_id_to_index := AList.update r2 j1 (AList.update r1 j2 (req_id_to_index b)),
                       ib_row_arr := swap_rows (mask_allocated b) i1 i2 (ib_row_arr b),
                       ib_generators := swap_dict_values i1 i2 (ib_generators b), ib_min_tokens := swap_dict_values i1 i2 (ib_min_tokens b),
                       ib_bad_words := swap_dict_values i1 i2 (ib_bad_words b), ib_block_table := swap_row i1 i2 (ib_block_table b)\<rparr>)
            | _ \<Rightarrow> Inl KeyError)
       | _ \<Rightarrow> Inl AssertionError))))"

text \<open>The greatest row number up to \<open>last\<close> that is not empty.\<close>

fun last_used :: "nat list \<Rightarrow> nat \<Rightarrow> nat option" where
  "last_used es 0 = (if 0 \<in> set es then None else Some 0)"
| "last_used es (Suc n) = (if Suc n \<in> set es then last_used es n else Some (Suc n))"

definition move_dict :: "nat \<Rightarrow> nat \<Rightarrow> 'a option arr \<Rightarrow> 'a option arr" where
  "move_dict l e d = (case aget d l of None \<Rightarrow> d | Some v \<Rightarrow> aset (aset d l None) e (Some v))"

text \<open>Row \<open>l\<close> moves to row \<open>e\<close>; only its valid tokens and blocks are copied.\<close>

definition move_fields :: "bool \<Rightarrow> batch_row \<Rightarrow> batch_row \<Rightarrow> batch_row" where
  "move_fields allocated src tgt =
     (let n = nat (row_num_tokens src)
      in tgt\<lparr>row_token_ids := take n (row_token_ids src) @ drop n (row_token_ids tgt), row_num_tokens := row_num_tokens src,
             row_num_tokens_no_spec := row_num_tokens_no_spec src, row_num_prompt_tokens := row_num_prompt_tokens src,
             row_num_computed_tokens := row_num_computed_tokens src, row_temperature := row_temperature src, row_top_p := row_top_p src,
             row_top_k := row_top_k src, row_frequency_penalty := row_frequency_penalty src, row_presence_penalty := row_presence_penalty src,
             row_repetition_penalty := row_repetition_penalty src, row_min_p := row_min_p src, row_lora := row_lora src,
             row_logit_bias := row_logit_bias src,
             row_allowed_mask := (if allocated then row_allowed_mask src else row_allowed_mask tgt)\<rparr>)"

definition move_state :: "nat \<Rightarrow> nat \<Rightarrow> input_batch \<Rightarrow> input_batch result" where
  "move_state l e b =
     rbind (py_get (ib_req_ids b) l) (\<lambda>req_id. rbind (py_get (req_output_token_ids b) l) (\<lambda>out.
       case req_id of None \<Rightarrow> Inl AssertionError
       | Some rid \<Rightarrow>
           rbind (py_set (ib_req_ids b) e req_id) (\<lambda>ids. rbind (py_set (req_output_token_ids b) e out) (\<lambda>outs.
             Inr (upd_row e (move_fields (mask_allocated b) (ib_rows b l))
               (b\<lparr>ib_req_ids := ids[l := None], req_output_token_ids := outs[l := None], req_id_to_index := AList.update rid e (req_id_to_index b),
                  ib_block_table := move_row l e (ib_block_table b), ib_generators := move_dict l e (ib_generators b),
                  ib_min_tokens := move_dict l e (ib_min_tokens b), ib_bad_words := move_dict l e (ib_bad_words b)\<rparr>))))))"

function condense_loop :: "nat \<Rightarrow> nat list \<Rightarrow> input_batch \<Rightarrow> input_batch result" where
  "condense_loop last_req_index es b =
     (if es = [] then Inr b
      else case last_used es last_req_index of None \<Rightarrow> Inr b
        | Some l \<Rightarrow> if l \<le> last es then Inr b
            else rbind (move_state l (last es) b) (condense_loop (l - 1) (butlast es)))"
  by pat_completeness auto
termination by (relation "measure (\<lambda>(l, es, b). length es)") simp_all

declare condense_loop.simps [simp del]

definition condense :: "nat list \<Rightarrow> input_batch \<Rightarrow> input_batch result" where
  "condense empty_req_indices b =
     (if num_reqs b = 0 then Inr (b\<lparr>ib_req_ids := [], req_output_token_ids := []\<rparr>)
      else rbind (condense_loop (num_reqs b + length empty_req_indices - 1) empty_req_indices b) (\<lambda>b.
        Inr (b\<lparr>ib_req_ids := take (num_reqs b) (ib_req_ids b), req_output_token_ids := take (num_reqs b) (req_output_token_ids b)\<rparr>)))"

section \<open>Sampling metadata\<close>

text \<open>
  Device buffers are the first rows of the arrays at the last refresh; those that a refresh does not copy and the sampler then
  does not read are \<open>None\<close>.
\<close>

record sampling_metadata =
  md_temperature :: "rat list option"
  all_greedy :: bool
  all_random :: bool
  md_top_p :: "rat list option"
  md_top_k :: "int list option"
  md_min_p :: "rat list option"
  md_generators :: "(int option) arr"
  max_num_logprobs :: "int option"
  md_prompt_token_ids :: "int list list option"
  md_penalties :: "(rat list \<times> rat list \<times> rat list) option"
  md_output_token_ids :: "string option list"
  md_min_tokens :: "((int \<times> int list) option) arr"
  md_logit_bias :: "(int \<times> rat) list option list"
  md_allowed_mask :: "bool list list option"
  md_bad_words :: "(int list list option) arr"

definition column :: "(batch_row \<Rightarrow> 'a) \<Rightarrow> input_batch \<Rightarrow> 'a list" where
  "column f b = map (\<lambda>i. f (ib_rows b i)) [0..<num_reqs b]"

definition no_penalties :: "input_batch \<Rightarrow> bool" where
  "no_penalties b \<longleftrightarrow> presence_penalties_reqs b = [] \<and> frequency_penalties_reqs b = [] \<and> repetition_penalties_reqs b = []"

text \<open>Prompts are padded with \<open>vocab_size\<close>, which is not a token.\<close>

definition make_prompt_token_ids_tensor :: "input_batch \<Rightarrow> int list list result" where
  "make_prompt_token_ids_tensor b =
     (if num_reqs b = 0 then Inl ValueError
      else let n = Max (set (column row_num_prompt_tokens b))
        in Inr (column (\<lambda>r. take (row_num_prompt_tokens r) (take n (row_token_ids r)) @ replicate (n - row_num_prompt_tokens r) (int (vocab_size b))) b))"

definition make_sampling_metadata :: "input_batch \<Rightarrow> sampling_metadata result" where
  "make_sampling_metadata b =
     rbind (if no_penalties b then Inr None else rbind (make_prompt_token_ids_tensor b) (\<lambda>ts. Inr (Some ts))) (\<lambda>prompts.
     if has_allowed_token_ids b \<noteq> [] \<and> \<not> mask_allocated b then Inl AssertionError
     else Inr \<lparr>md_temperature = (if random_reqs b = [] then None else Some (column row_temperature b)),
               all_greedy = (random_reqs b = []), all_random = (greedy_reqs b = []),
               md_top_p = (if top_p_reqs b = [] then None else Some (column row_top_p b)),
               md_top_k = (if top_k_reqs b = [] then None else Some (column row_top_k b)),
               md_min_p = (if min_p_reqs b = [] then None else Some (column row_min_p b)),
               md_generators = ib_generators b,
               max_num_logprobs = (if num_logprobs b = [] then None else Some (Max (snd ` set (num_logprobs b)))),
               md_prompt_token_ids = prompts,
               md_penalties = (if no_penalties b then None
                 else Some (column row_frequency_penalty b, column row_presence_penalty b, column row_repetition_penalty b)),
               md_output_token_ids = req_output_token_ids b, md_min_tokens = ib_min_tokens b, md_logit_bias = column row_logit_bias b,
               md_allowed_mask = (if has_allowed_token_ids b = [] then None else Some (column row_allowed_mask b)),
               md_bad_words = ib_bad_words b\<rparr>)"

text \<open>\<open>make_lora_inputs\<close>: the adapter of every request and of every token, and the active adapters.\<close>

definition make_lora_inputs :: "nat list \<Rightarrow> input_batch \<Rightarrow> (int list \<times> int list \<times> int list) result" where
  "make_lora_inputs num_scheduled_tokens b =
     (if length num_scheduled_tokens \<noteq> num_reqs b then Inl ValueError
      else Inr (column row_lora b, concat (map2 replicate num_scheduled_tokens (column row_lora b)), remdups (map snd (lora_id_to_lora_request b))))"

section \<open>Rows and slots\<close>

text \<open>
  \<open>H\<close> are the empty rows. All other rows belong to the request that the index maps to them.
\<close>

definition slots_ok :: "nat set \<Rightarrow> input_batch \<Rightarrow> bool" where
  "slots_ok H b \<longleftrightarrow> distinct (map fst (req_id_to_index b)) \<and> req_output_token_ids b = ib_req_ids b \<and>
     H = {i. i < length (ib_req_ids b) \<and> ib_req_ids b ! i = None} \<and>
     (\<forall>rid i. map_of (req_id_to_index b) rid = Some i \<longleftrightarrow> i < length (ib_req_ids b) \<and> ib_req_ids b ! i = Some rid)"

text \<open>A row that agrees with a cached state, up to the last token that is not speculative.\<close>

definition tokens_of :: "cached_request_state \<Rightarrow> int list" where
  "tokens_of c = cs_prompt_token_ids c @ cs_output_token_ids c"

definition row_ok :: "cached_request_state \<Rightarrow> batch_row \<Rightarrow> bool" where
  "row_ok c r \<longleftrightarrow> row_num_prompt_tokens r = length (cs_prompt_token_ids c) \<and> row_num_computed_tokens r = cs_num_computed_tokens c \<and>
     0 \<le> row_num_tokens_no_spec r \<and> row_num_tokens_no_spec r \<le> row_num_tokens r \<and> row_num_tokens_no_spec r \<le> int (cs_num_tokens c) \<and>
     take (nat (row_num_tokens_no_spec r)) (row_token_ids r) = take (nat (row_num_tokens_no_spec r)) (tokens_of c)"

definition blocks_ok :: "nat list \<Rightarrow> block_table \<Rightarrow> nat \<Rightarrow> bool" where
  "blocks_ok ids t i \<longleftrightarrow> num_blocks_per_row t i = length ids \<and> take (length ids) (bt_np t i) = ids"

definition slot_ok :: "cached_request_state \<Rightarrow> input_batch \<Rightarrow> nat \<Rightarrow> bool" where
  "slot_ok c b i \<longleftrightarrow> row_ok c (ib_rows b i) \<and> blocks_ok (cs_block_ids c) (ib_block_table b) i"

text \<open>The sizes of the arrays.\<close>

definition dims_ok :: "nat \<Rightarrow> nat \<Rightarrow> input_batch \<Rightarrow> bool" where
  "dims_ok max_len max_blocks b \<longleftrightarrow> (\<forall>i. length (row_token_ids (ib_rows b i)) = max_len \<and> length (bt_np (ib_block_table b) i) = max_blocks)"

lemma np_assign_length: "np_assign a e vals row = Inr row' \<Longrightarrow> length row' = length row"
  by (auto simp: np_assign_def Let_def split: if_splits)

lemma np_assign_fits:
  assumes "int (length vals) = e - a" "0 \<le> a" "e \<le> int (length row)"
  shows "np_assign a e vals row = Inr (take (nat a) row @ vals @ drop (nat e) row)"
proof -
  have "min (py_bound (length row) a) (length row) = nat a" "min (py_bound (length row) e) (length row) = nat e"
    using assms by (auto simp: py_bound_def)
  moreover have "max (nat a) (nat e) = nat e" "length vals = nat e - nat a" using assms by linarith+
  ultimately show ?thesis by (simp add: np_assign_def Let_def)
qed

lemma slots_count:
  assumes "slots_ok H b"
  shows "length (ib_req_ids b) = num_reqs b + card H"
proof -
  define idx where "idx = req_id_to_index b"
  have d: "distinct (map fst idx)" and H: "H = {i. i < length (ib_req_ids b) \<and> ib_req_ids b ! i = None}"
    and m: "\<And>rid i. map_of idx rid = Some i \<longleftrightarrow> i < length (ib_req_ids b) \<and> ib_req_ids b ! i = Some rid"
    using assms by (auto simp: slots_ok_def idx_def)
  have mem: "(rid, i) \<in> set idx \<longleftrightarrow> i < length (ib_req_ids b) \<and> ib_req_ids b ! i = Some rid" for rid i
    using m d by (metis map_of_eq_Some_iff)
  have "inj_on snd (set idx)" using mem by (intro inj_onI) (metis option.inject prod.collapse)
  then have "card (snd ` set idx) = length idx" using d by (metis card_image distinct_card distinct_map)
  moreover have "snd ` set idx = {i. i < length (ib_req_ids b) \<and> ib_req_ids b ! i \<noteq> None}"
    unfolding image_def Bex_def split_paired_Ex mem by auto
  moreover from this have "snd ` set idx \<union> H = {..<length (ib_req_ids b)}" "snd ` set idx \<inter> H = {}" unfolding H by blast+
  moreover have "finite H" by (simp add: H)
  ultimately show ?thesis using card_Un_disjoint [of "snd ` set idx" H] by (simp add: num_reqs_def idx_def)
qed

subsection \<open>Removing\<close>

text \<open>What the bookkeeping of rows does not touch.\<close>

definition same_shape :: "nat \<Rightarrow> input_batch \<Rightarrow> input_batch \<Rightarrow> bool" where
  "same_shape i b b' \<longleftrightarrow> ib_max_num_reqs b' = ib_max_num_reqs b \<and> vocab_size b' = vocab_size b \<and> ib_req_ids b' = ib_req_ids b \<and>
     req_output_token_ids b' = req_output_token_ids b \<and> req_id_to_index b' = req_id_to_index b \<and>
     (\<forall>j. j \<noteq> i \<longrightarrow> ib_rows b' j = ib_rows b j) \<and> ib_block_table b' = ib_block_table b"

lemma same_shape_trans: "same_shape i b b' \<Longrightarrow> same_shape i b' b'' \<Longrightarrow> same_shape i b b''"
  by (simp add: same_shape_def)

lemma remove_lora_shape: "remove_lora rid i b = Inr b' \<Longrightarrow> same_shape i b b' \<and> row_token_ids (ib_rows b' i) = row_token_ids (ib_rows b i)"
  by (auto simp: remove_lora_def same_shape_def upd_row_def Let_def split: if_splits option.splits)

lemma remove_request_frame:
  assumes "batch_remove_request rid b = Inr (Some i, b')"
  shows "map_of (req_id_to_index b) rid = Some i" "ib_req_ids b' = (ib_req_ids b)[i := None]"
    "req_output_token_ids b' = (req_output_token_ids b)[i := None]" "req_id_to_index b' = AList.delete rid (req_id_to_index b)"
    "ib_block_table b' = ib_block_table b" "ib_max_num_reqs b' = ib_max_num_reqs b" "\<forall>j. j \<noteq> i \<longrightarrow> ib_rows b' j = ib_rows b j"
    "row_token_ids (ib_rows b' i) = row_token_ids (ib_rows b i)"
proof -
  obtain j where j: "map_of (req_id_to_index b) rid = Some j" using assms by (auto simp: batch_remove_request_def split: option.splits)
  then obtain ids outs b1 where b1: "py_set (ib_req_ids b) j None = Inr ids" "py_set (req_output_token_ids b) j None = Inr outs"
    "remove_lora rid j (discard_sampling rid j (b\<lparr>req_id_to_index := AList.delete rid (req_id_to_index b), ib_req_ids := ids, req_output_token_ids := outs\<rparr>)) = Inr b1"
    "i = j" "b' = (upd_row j (\<lambda>r. r\<lparr>row_logit_bias := None, row_allowed_mask := (if mask_allocated b1 then replicate (vocab_size b1) False else row_allowed_mask r)\<rparr>) b1)
       \<lparr>has_allowed_token_ids := removeAll rid (has_allowed_token_ids b1), ib_bad_words := aset (ib_bad_words b1) j None\<rparr>"
    using assms by (auto simp: batch_remove_request_def)
  have ids: "ids = (ib_req_ids b)[i := None]" "outs = (req_output_token_ids b)[i := None]" using b1(1,2,4) by (auto simp: py_set_def split: if_splits)
  note sh = remove_lora_shape [OF b1(3)]
  show "map_of (req_id_to_index b) rid = Some i" using j b1(4) by simp
  show "ib_req_ids b' = (ib_req_ids b)[i := None]" "req_output_token_ids b' = (req_output_token_ids b)[i := None]"
    "req_id_to_index b' = AList.delete rid (req_id_to_index b)" "ib_block_table b' = ib_block_table b" "ib_max_num_reqs b' = ib_max_num_reqs b"
    "\<forall>j. j \<noteq> i \<longrightarrow> ib_rows b' j = ib_rows b j" "row_token_ids (ib_rows b' i) = row_token_ids (ib_rows b i)"
    using sh by (simp_all add: b1(4,5) ids upd_row_def discard_sampling_def same_shape_def)
qed

lemma remove_request_None: "batch_remove_request rid b = Inr (None, b') \<Longrightarrow> b' = b \<and> map_of (req_id_to_index b) rid = None"
  by (auto simp: batch_remove_request_def split: option.splits)

lemma map_of_delete: "map_of (AList.delete k xs) k' = (if k' = k then None else map_of xs k')"
  by (simp add: AList.delete_conv')

lemma remove_request_slots:
  assumes "slots_ok H b" "batch_remove_request rid b = Inr (Some i, b')"
  shows "slots_ok (insert i H) b'" "i \<notin> H"
proof -
  note f = remove_request_frame [OF assms(2)]
  have m: "map_of (req_id_to_index b) r = Some j \<longleftrightarrow> j < length (ib_req_ids b) \<and> ib_req_ids b ! j = Some r" for r j
    using assms(1) by (simp add: slots_ok_def)
  have i: "i < length (ib_req_ids b)" "ib_req_ids b ! i = Some rid" using f(1) m by auto
  have "map_of (req_id_to_index b') r = Some j \<longleftrightarrow> j < length (ib_req_ids b') \<and> ib_req_ids b' ! j = Some r" for r j
    using m [of r j] m [of rid j] i f(1) by (auto simp: f(2,4) map_of_delete nth_list_update)
  moreover have "distinct (map fst (req_id_to_index b'))" using assms(1) by (simp add: f(4) slots_ok_def distinct_delete)
  ultimately show "slots_ok (insert i H) b'" using assms(1) i f(2,3) by (auto simp: slots_ok_def nth_list_update)
  show "i \<notin> H" using assms(1) i by (auto simp: slots_ok_def)
qed

subsection \<open>Adding\<close>

text \<open>The fields of a row that do not belong to sampling.\<close>

definition core :: "batch_row \<Rightarrow> int list \<times> int \<times> int \<times> nat \<times> int" where
  "core r = (row_token_ids r, row_num_tokens r, row_num_tokens_no_spec r, row_num_prompt_tokens r, row_num_computed_tokens r)"

lemma row_ok_core: "core r = core r' \<Longrightarrow> row_ok c r = row_ok c r'"
  by (simp add: core_def row_ok_def)

lemma add_options_shape:
  assumes "add_options c i b = Inr b'"
  shows "same_shape i b b' \<and> core (ib_rows b' i) = core (ib_rows b i)"
proof -
  define p where "p = cs_sampling c"
  define b1 where "b1 = b\<lparr>ib_min_tokens := (if min_tokens p \<noteq> 0 then aset (ib_min_tokens b) i (Some (min_tokens p, all_stop_token_ids p)) else ib_min_tokens b),
    ib_generators := (if cs_generator c \<noteq> None then aset (ib_generators b) i (cs_generator c) else ib_generators b),
    num_logprobs := (case logprobs p of None \<Rightarrow> num_logprobs b | Some n \<Rightarrow> AList.update (cs_req_id c) n (num_logprobs b)),
    num_prompt_logprobs := (case ws_prompt_logprobs p of None \<Rightarrow> num_prompt_logprobs b | Some n \<Rightarrow> AList.update (cs_req_id c) n (num_prompt_logprobs b))\<rparr>"
  define b2 where "b2 = (if logit_bias p \<noteq> None then upd_row i (\<lambda>r. r\<lparr>row_logit_bias := logit_bias p\<rparr>) b1 else b1)"
  have s2: "same_shape i b b2 \<and> core (ib_rows b2 i) = core (ib_rows b i)"
    by (simp add: b2_def same_shape_def upd_row_def core_def) (simp add: b1_def)
  have "rbind (case allowed_token_ids p of Some (t # ts) \<Rightarrow>
             rbind (rfold clear_mask (t # ts) (replicate (vocab_size b2) True)) (\<lambda>m.
               Inr (upd_row i (\<lambda>r. r\<lparr>row_allowed_mask := m\<rparr>) (b2\<lparr>has_allowed_token_ids := List.insert (cs_req_id c) (has_allowed_token_ids b2), mask_allocated := True\<rparr>)))
           | _ \<Rightarrow> Inr b2) (\<lambda>b3.
         Inr (case bad_words_token_ids p of Some (w # ws) \<Rightarrow> b3\<lparr>ib_bad_words := aset (ib_bad_words b3) i (Some (w # ws))\<rparr> | _ \<Rightarrow> b3)) = Inr b'"
    using assms unfolding add_options_def Let_def by (fold p_def) (fold b1_def, fold b2_def, assumption)
  then obtain b3 where b3: "(case allowed_token_ids p of Some (t # ts) \<Rightarrow>
             rbind (rfold clear_mask (t # ts) (replicate (vocab_size b2) True)) (\<lambda>m.
               Inr (upd_row i (\<lambda>r. r\<lparr>row_allowed_mask := m\<rparr>) (b2\<lparr>has_allowed_token_ids := List.insert (cs_req_id c) (has_allowed_token_ids b2), mask_allocated := True\<rparr>)))
           | _ \<Rightarrow> Inr b2) = Inr b3" "b' = (case bad_words_token_ids p of Some (w # ws) \<Rightarrow> b3\<lparr>ib_bad_words := aset (ib_bad_words b3) i (Some (w # ws))\<rparr> | _ \<Rightarrow> b3)"
    by (auto simp del: rfold.simps)
  have "same_shape i b2 b3 \<and> core (ib_rows b3 i) = core (ib_rows b2 i)"
    using b3(1) by (auto simp: same_shape_def upd_row_def core_def simp del: rfold.simps split: option.splits list.splits)
  moreover have "same_shape i b3 b' \<and> core (ib_rows b' i) = core (ib_rows b3 i)"
    unfolding b3(2) by (simp add: same_shape_def split: option.splits list.splits)
  ultimately show ?thesis using s2 by (metis same_shape_trans)
qed

lemma add_sampling_shape: "same_shape i b (add_sampling rid i p b) \<and> core (ib_rows (add_sampling rid i p b) i) = core (ib_rows b i)"
  by (simp add: add_sampling_def same_shape_def upd_row_def core_def Let_def)

lemma batch_add_lora_shape: "same_shape i b (batch_add_lora rid i l b) \<and> core (ib_rows (batch_add_lora rid i l b) i) = core (ib_rows b i)"
  by (simp add: batch_add_lora_def same_shape_def upd_row_def core_def Let_def split: option.splits)

lemma add_request_frame:
  assumes "batch_add_request c idx b = Inr b'"
  defines "i \<equiv> (case idx of None \<Rightarrow> num_reqs b | Some i \<Rightarrow> i)"
  obtains b1 r t where "take_slot (cs_req_id c) i b = Inr b1" "add_tokens c (ib_rows b i) = Inr r" "add_row (cs_block_ids c) i (ib_block_table b) = Inr t"
    "ib_req_ids b' = ib_req_ids b1" "req_output_token_ids b' = req_output_token_ids b1" "req_id_to_index b' = req_id_to_index b1"
    "ib_block_table b' = t" "core (ib_rows b' i) = core r" "\<forall>j. j \<noteq> i \<longrightarrow> ib_rows b' j = ib_rows b j" "i < ib_max_num_reqs b"
    "ib_max_num_reqs b' = ib_max_num_reqs b"
proof -
  obtain b1 r t b3 where b1: "take_slot (cs_req_id c) i b = Inr b1" "add_tokens c (ib_rows b1 i) = Inr r" "add_row (cs_block_ids c) i (ib_block_table b1) = Inr t"
    "add_options c i (add_sampling (cs_req_id c) i (cs_sampling c) ((upd_row i (\<lambda>_. r) b1)\<lparr>ib_block_table := t\<rparr>)) = Inr b3"
    "b' = batch_add_lora (cs_req_id c) i (cs_lora_request c) b3" "i < ib_max_num_reqs b"
    using assms by (auto simp: batch_add_request_def Let_def split: if_splits)
  have slot: "ib_rows b1 = ib_rows b" "ib_block_table b1 = ib_block_table b" "ib_max_num_reqs b1 = ib_max_num_reqs b"
    using b1(1) by (auto simp: take_slot_def split: if_splits)
  define b2 where "b2 = (upd_row i (\<lambda>_. r) b1)\<lparr>ib_block_table := t\<rparr>"
  have "same_shape i b2 b' \<and> core (ib_rows b' i) = core (ib_rows b2 i)"
    using add_options_shape [OF b1(4)] add_sampling_shape [of i b2] batch_add_lora_shape [of i b3] b1(5)
    by (fold b2_def) (metis same_shape_trans)
  then show ?thesis using that b1 slot by (simp add: same_shape_def b2_def upd_row_def)
qed

lemma add_tokens_ok:
  assumes "length (tokens_of c) \<le> length (row_token_ids r)" "add_tokens c r = Inr r'"
  shows "row_ok c r'" "length (row_token_ids r') = length (row_token_ids r)"
proof -
  define n where "n = length (cs_prompt_token_ids c)"
  have a: "np_assign 0 (int n) (cs_prompt_token_ids c) (row_token_ids r) = Inr (cs_prompt_token_ids c @ drop n (row_token_ids r))"
    using assms(1) by (subst np_assign_fits) (auto simp: n_def tokens_of_def)
  have b: "np_assign (int n) (int (n + length (cs_output_token_ids c))) (cs_output_token_ids c) (cs_prompt_token_ids c @ drop n (row_token_ids r)) =
    Inr (tokens_of c @ drop (length (tokens_of c)) (row_token_ids r))"
    using assms(1) by (subst np_assign_fits) (auto simp: n_def tokens_of_def nat_int_add add.commute)
  show "row_ok c r'" "length (row_token_ids r') = length (row_token_ids r)"
    using assms(2) a b assms(1) by (auto simp: add_tokens_def Let_def row_ok_def cs_num_tokens_def tokens_of_def simp flip: n_def)
qed

lemma append_row_ok:
  assumes "append_row ids i t = Inr t'" "blocks_ok old t i" "length old + length ids \<le> length (bt_np t i)"
  shows "blocks_ok (old @ ids) t' i" "\<forall>j. j \<noteq> i \<longrightarrow> bt_np t' j = bt_np t j \<and> num_blocks_per_row t' j = num_blocks_per_row t j"
    "\<forall>j. length (bt_np t' j) = length (bt_np t j)" "bt_max_num_reqs t' = bt_max_num_reqs t"
proof -
  have "np_assign (int (length old)) (int (length old + length ids)) ids (bt_np t i) = Inr (old @ ids @ drop (length old + length ids) (bt_np t i))"
    using assms(2,3) by (subst np_assign_fits) (auto simp: blocks_ok_def nat_int_add)
  then show "blocks_ok (old @ ids) t' i" "\<forall>j. j \<noteq> i \<longrightarrow> bt_np t' j = bt_np t j \<and> num_blocks_per_row t' j = num_blocks_per_row t j"
    "\<forall>j. length (bt_np t' j) = length (bt_np t j)" "bt_max_num_reqs t' = bt_max_num_reqs t"
    using assms by (auto simp: append_row_def blocks_ok_def Let_def split: if_splits)
qed

lemma add_row_ok:
  assumes "add_row ids i t = Inr t'" "length ids \<le> length (bt_np t i)"
  shows "blocks_ok ids t' i" "\<forall>j. j \<noteq> i \<longrightarrow> bt_np t' j = bt_np t j \<and> num_blocks_per_row t' j = num_blocks_per_row t j"
    "\<forall>j. length (bt_np t' j) = length (bt_np t j)"
proof -
  define t0 where "t0 = t\<lparr>bt_counts := aset (bt_counts t) i 0\<rparr>"
  have "append_row ids i t0 = Inr t'" "blocks_ok [] t0 i" "length [] + length ids \<le> length (bt_np t0 i)"
    using assms by (auto simp: add_row_def t0_def blocks_ok_def split: if_splits)
  note ap = append_row_ok [OF this]
  show "blocks_ok ids t' i" using ap(1) by simp
  show "\<forall>j. j \<noteq> i \<longrightarrow> bt_np t' j = bt_np t j \<and> num_blocks_per_row t' j = num_blocks_per_row t j"
    "\<forall>j. length (bt_np t' j) = length (bt_np t j)" using ap(2,3) by (simp_all add: t0_def)
qed

lemma take_slot_slots:
  assumes "slots_ok H b" "take_slot rid i b = Inr b1" "map_of (req_id_to_index b) rid = None" "i \<in> H \<or> i = length (ib_req_ids b)"
    "ib_req_ids b' = ib_req_ids b1" "req_output_token_ids b' = req_output_token_ids b1" "req_id_to_index b' = req_id_to_index b1"
  shows "slots_ok (H - {i}) b'" "req_id_to_index b' = AList.update rid i (req_id_to_index b)"
proof -
  have m: "map_of (req_id_to_index b) r = Some j \<longleftrightarrow> j < length (ib_req_ids b) \<and> ib_req_ids b ! j = Some r" for r j
    using assms(1) by (simp add: slots_ok_def)
  show idx: "req_id_to_index b' = AList.update rid i (req_id_to_index b)" using assms(2,7) by (auto simp: take_slot_def split: if_splits)
  have hole: "ib_req_ids b ! i = None" if "i \<noteq> length (ib_req_ids b)" using that assms(1,4) by (auto simp: slots_ok_def)
  have d: "distinct (map fst (req_id_to_index b'))" using assms(1) by (simp add: idx slots_ok_def distinct_update)
  have free: "ib_req_ids b ! j \<noteq> Some rid" if "j < length (ib_req_ids b)" for j using m [of rid j] assms(3) that by simp
  show "slots_ok (H - {i}) b'"
  proof (cases "i = length (ib_req_ids b)")
    case True
    then have ids: "ib_req_ids b' = ib_req_ids b @ [Some rid]" "req_output_token_ids b' = ib_req_ids b'"
      using assms(1,2,5,6) by (auto simp: take_slot_def slots_ok_def)
    have "map_of (req_id_to_index b') r = Some j \<longleftrightarrow> j < length (ib_req_ids b') \<and> ib_req_ids b' ! j = Some r" for r j
      using m [of r j] free [of j] by (auto simp: idx ids(1) update_conv' True nth_append less_Suc_eq split: if_splits)
    then show ?thesis using d ids assms(1) True by (auto simp: slots_ok_def nth_append less_Suc_eq)
  next
    case False
    then have ids: "ib_req_ids b' = (ib_req_ids b)[i := Some rid]" "req_output_token_ids b' = ib_req_ids b'" "i < length (ib_req_ids b)"
      using assms(1,2,5,6) by (auto simp: take_slot_def slots_ok_def py_set_def split: if_splits)
    have "map_of (req_id_to_index b') r = Some j \<longleftrightarrow> j < length (ib_req_ids b') \<and> ib_req_ids b' ! j = Some r" for r j
      using m [of r j] free [of j] hole [OF False] ids(3) by (auto simp: idx ids(1) update_conv' nth_list_update split: if_splits)
    then show ?thesis using d ids assms(1) by (auto simp: slots_ok_def nth_list_update)
  qed
qed

subsection \<open>Condensing\<close>

text \<open>Every request keeps a row, with the contents of its former row.\<close>

definition rows_kept :: "input_batch \<Rightarrow> input_batch \<Rightarrow> bool" where
  "rows_kept b b' \<longleftrightarrow> num_reqs b' = num_reqs b \<and> (\<forall>rid. map_of (req_id_to_index b') rid = None \<longleftrightarrow> map_of (req_id_to_index b) rid = None) \<and>
     (\<forall>rid i i'. map_of (req_id_to_index b) rid = Some i \<longrightarrow> map_of (req_id_to_index b') rid = Some i' \<longrightarrow> (\<forall>c. slot_ok c b i \<longrightarrow> slot_ok c b' i'))"

lemma rows_kept_refl: "rows_kept b b"
  by (simp add: rows_kept_def)

lemma rows_kept_trans: "rows_kept b b1 \<Longrightarrow> rows_kept b1 b2 \<Longrightarrow> rows_kept b b2"
  unfolding rows_kept_def by (metis option.exhaust)

lemma take_overlay: "length xs = length ys \<Longrightarrow> k \<le> n \<Longrightarrow> take k (take n xs @ drop n ys) = take k xs"
  by (cases "n \<le> length xs") (simp_all add: min_def)

lemma move_fields_ok:
  assumes "row_ok c src" "length (row_token_ids src) = length (row_token_ids tgt)"
  shows "row_ok c (move_fields a src tgt)"
  using assms take_overlay [OF assms(2), of "nat (row_num_tokens_no_spec src)" "nat (row_num_tokens src)"]
  by (simp add: row_ok_def move_fields_def Let_def nat_mono)

lemma move_row_ok:
  assumes "blocks_ok ids t l"
  shows "blocks_ok ids (move_row l e t) e"
proof -
  have "length ids \<le> length (bt_np t l)" using assms by (metis blocks_ok_def length_take min.cobounded1)
  then show ?thesis using assms by (simp add: blocks_ok_def move_row_def Let_def)
qed

lemma length_update_old: "map_of xs k = Some v \<Longrightarrow> length (AList.update k w xs) = length xs"
  by (induction xs) (auto split: if_splits)

lemma move_state_frame:
  assumes "move_state l e b = Inr b'"
  obtains rid where "ib_req_ids b ! l = Some rid" "l < length (ib_req_ids b)" "e < length (ib_req_ids b)"
    "ib_req_ids b' = (ib_req_ids b)[e := Some rid, l := None]"
    "req_output_token_ids b' = (req_output_token_ids b)[e := req_output_token_ids b ! l, l := None]"
    "req_id_to_index b' = AList.update rid e (req_id_to_index b)" "ib_rows b' = (ib_rows b)(e := move_fields (mask_allocated b) (ib_rows b l) (ib_rows b e))"
    "ib_block_table b' = move_row l e (ib_block_table b)" "ib_max_num_reqs b' = ib_max_num_reqs b"
  using assms by (auto simp: move_state_def upd_row_def py_set_def split: option.splits if_splits)

lemma move_state_ok:
  assumes ok: "slots_ok H b" "dims_ok ml mb b" and e: "e \<in> H" and mv: "move_state l e b = Inr b'"
  shows "slots_ok (insert l (H - {e})) b'" "dims_ok ml mb b'" "rows_kept b b'" "length (ib_req_ids b') = length (ib_req_ids b)"
    "ib_max_num_reqs b' = ib_max_num_reqs b"
proof -
  obtain rid where f: "ib_req_ids b ! l = Some rid" "l < length (ib_req_ids b)" "e < length (ib_req_ids b)"
    "ib_req_ids b' = (ib_req_ids b)[e := Some rid, l := None]"
    "req_output_token_ids b' = (req_output_token_ids b)[e := req_output_token_ids b ! l, l := None]"
    "req_id_to_index b' = AList.update rid e (req_id_to_index b)" "ib_rows b' = (ib_rows b)(e := move_fields (mask_allocated b) (ib_rows b l) (ib_rows b e))"
    "ib_block_table b' = move_row l e (ib_block_table b)" "ib_max_num_reqs b' = ib_max_num_reqs b"
    using mv by (rule move_state_frame)
  have m: "map_of (req_id_to_index b) r = Some j \<longleftrightarrow> j < length (ib_req_ids b) \<and> ib_req_ids b ! j = Some r" for r j
    using ok(1) by (simp add: slots_ok_def)
  have e_none: "ib_req_ids b ! e = None" using ok(1) e by (simp add: slots_ok_def)
  then have le: "l \<noteq> e" using f(1) by auto
  have l: "map_of (req_id_to_index b) rid = Some l" using m f(1,2) by simp
  have m': "map_of (req_id_to_index b') r = Some j \<longleftrightarrow> j < length (ib_req_ids b') \<and> ib_req_ids b' ! j = Some r" for r j
  proof (cases "r = rid")
    case True
    have "j = l" if "j < length (ib_req_ids b)" "ib_req_ids b ! j = Some rid" using m [of rid j] l that by simp
    then show ?thesis using True f(2,3) le by (auto simp: f(4,6) update_conv' nth_list_update)
  next
    case False
    then show ?thesis using m [of r j] f(1,2,3) e_none by (auto simp: f(4,6) update_conv' nth_list_update)
  qed
  have d: "distinct (map fst (req_id_to_index b'))" using ok(1) by (simp add: f(6) slots_ok_def distinct_update)
  have "H = {i. i < length (ib_req_ids b) \<and> ib_req_ids b ! i = None}" "req_output_token_ids b = ib_req_ids b" using ok(1) by (simp_all add: slots_ok_def)
  then have "insert l (H - {e}) = {i. i < length (ib_req_ids b') \<and> ib_req_ids b' ! i = None}" "req_output_token_ids b' = ib_req_ids b'"
    using f(1,2,3) le by (auto simp: f(4,5) nth_list_update)
  then show "slots_ok (insert l (H - {e})) b'" using m' d by (simp add: slots_ok_def)
  show "dims_ok ml mb b'" using ok(2) by (auto simp: dims_ok_def f(7,8) move_fields_def move_row_def Let_def min_def)
  show "length (ib_req_ids b') = length (ib_req_ids b)" by (simp add: f(4))
  show "ib_max_num_reqs b' = ib_max_num_reqs b" by (rule f(9))
  have "num_reqs b' = num_reqs b" using l by (simp add: num_reqs_def f(6) length_update_old)
  moreover have "slot_ok c b' i'" if i: "map_of (req_id_to_index b) r = Some i" "map_of (req_id_to_index b') r = Some i'" "slot_ok c b i" for r i i' c
  proof (cases "r = rid")
    case True
    then have "i = l" "i' = e" using i(1,2) l by (simp_all add: f(6) update_conv')
    then show ?thesis using i(3) ok(2) move_fields_ok move_row_ok by (simp add: slot_ok_def f(7,8) dims_ok_def)
  next
    case False
    then have "i' = i" "i \<noteq> e" using i(1,2) m [of r i] e_none by (auto simp: f(6) update_conv')
    then show ?thesis using i(3) by (simp add: slot_ok_def f(7,8) blocks_ok_def move_row_def Let_def)
  qed
  ultimately show "rows_kept b b'" using l by (auto simp: rows_kept_def f(6) update_conv')
qed

lemma last_used_cases:
  "case last_used es n of None \<Rightarrow> {0..n} \<subseteq> set es | Some l \<Rightarrow> l \<le> n \<and> l \<notin> set es \<and> {l<..n} \<subseteq> set es"
proof (induction n)
  case (Suc n)
  have "{0..Suc n} = insert (Suc n) {0..n}" "{l<..Suc n} \<subseteq> insert (Suc n) {l<..n}" for l by auto
  then show ?case using Suc by (auto split: option.splits)
qed auto

lemma last_min: "es \<noteq> [] \<Longrightarrow> sorted_wrt (>) es \<Longrightarrow> \<forall>x \<in> set es. last es \<le> (x :: nat)"
  by (induction es) (auto simp: less_imp_le)

text \<open>
  The loop keeps: rows above \<open>n\<close> are empty, the other empty rows are in the list, in descending order.
\<close>

definition condensing :: "nat \<Rightarrow> nat list \<Rightarrow> input_batch \<Rightarrow> bool" where
  "condensing n es b \<longleftrightarrow> slots_ok (set es \<union> {n<..<length (ib_req_ids b)}) b \<and> sorted_wrt (>) es \<and> n < length (ib_req_ids b) \<and> 0 < num_reqs b"

lemma condensing_bound: "condensing n es b \<Longrightarrow> set es \<subseteq> {..<length (ib_req_ids b)}"
  by (auto simp: condensing_def slots_ok_def)

lemma slots_tail:
  assumes "slots_ok H b" "H = {k..<length (ib_req_ids b)}" "k \<le> length (ib_req_ids b)"
  shows "slots_ok {num_reqs b..<length (ib_req_ids b)} b" "num_reqs b = k"
proof -
  show "num_reqs b = k" using slots_count [OF assms(1)] assms(3) unfolding assms(2) card_atLeastLessThan by linarith
  then show "slots_ok {num_reqs b..<length (ib_req_ids b)} b" using assms(1,2) by simp
qed

text \<open>Some row is not empty, and when it is not above the first empty row, the empty rows are the last ones.\<close>

lemma condensing_used:
  assumes "condensing n es b"
  obtains l where "last_used es n = Some l" "l \<le> n" "l \<notin> set es" "{l<..n} \<subseteq> set es"
proof (cases "last_used es n")
  case None
  then have "set es \<union> {n<..<length (ib_req_ids b)} = {0..<length (ib_req_ids b)}"
    using last_used_cases [where es = es and n = n] condensing_bound [OF assms] by auto
  then have "num_reqs b = 0" using assms slots_tail(2) [where k = 0] by (simp add: condensing_def)
  then show ?thesis using assms by (simp add: condensing_def)
next
  case (Some l)
  then show ?thesis using that last_used_cases [where es = es and n = n] by auto
qed

lemma condensing_empty:
  assumes "condensing n [] b"
  shows "slots_ok {num_reqs b..<length (ib_req_ids b)} b"
  using assms by (intro slots_tail(1) [where k = "Suc n"]) (auto simp: condensing_def atLeastSucLessThan_greaterThanLessThan)

lemma condensing_done:
  assumes c: "condensing n es b" and es: "es \<noteq> []" and l: "last_used es n = Some l" "l \<le> last es"
  shows "slots_ok {num_reqs b..<length (ib_req_ids b)} b"
proof -
  have u: "l \<le> n" "l \<notin> set es" "{l<..n} \<subseteq> set es" using condensing_used [OF c] l(1) by auto
  have "l < x" if "x \<in> set es" for x
    using last_min [OF es] c l(2) u(2) that unfolding condensing_def by (metis le_neq_implies_less order_trans)
  then have "set es \<union> {n<..<length (ib_req_ids b)} = {Suc l..<length (ib_req_ids b)}"
    using u(1,3) condensing_bound [OF c] by (auto simp: not_less Suc_le_eq)
  moreover have "Suc l \<le> length (ib_req_ids b)" using u(1) c by (simp add: condensing_def)
  ultimately show ?thesis using slots_tail(1) c unfolding condensing_def by blast
qed

lemma condensing_move:
  assumes c: "condensing n es b" and dims: "dims_ok ml mb b" and es: "es \<noteq> []" and l: "last_used es n = Some l" "\<not> l \<le> last es"
    and mv: "move_state l (last es) b = Inr b'"
  shows "condensing (l - 1) (butlast es) b'" "dims_ok ml mb b'" "rows_kept b b'" "length (ib_req_ids b') = length (ib_req_ids b)"
    "ib_max_num_reqs b' = ib_max_num_reqs b"
proof -
  define L where "L = length (ib_req_ids b)"
  have ok: "slots_ok (set es \<union> {n<..<L}) b" "sorted_wrt (>) es" "n < L" "0 < num_reqs b" using c by (simp_all add: condensing_def L_def)
  have u: "l \<le> n" "l \<notin> set es" "{l<..n} \<subseteq> set es" using condensing_used [OF c] l(1) by auto
  have e: "last es \<in> set es \<union> {n<..<L}" using es by simp
  note m = move_state_ok [OF ok(1) dims e mv]
  show "dims_ok ml mb b'" "rows_kept b b'" "length (ib_req_ids b') = length (ib_req_ids b)" "ib_max_num_reqs b' = ib_max_num_reqs b" by (fact m)+
  have split: "es = butlast es @ [last es]" using es by simp
  have nots: "last es \<notin> set (butlast es)" using ok(2) split by (metis less_irrefl sorted_wrt_append list.set_intros(1))
  have "set es = insert (last es) (set (butlast es))" using split by (metis list.simps(15) set_append Un_insert_right sup_bot_right empty_set)
  moreover have "{l<..n} \<subseteq> set (butlast es)" using u(3) l(2) calculation by auto
  ultimately have "insert l ((set es \<union> {n<..<L}) - {last es}) = set (butlast es) \<union> {l - 1<..<L}"
    using nots u l(2) ok(3) by auto
  then have "slots_ok (set (butlast es) \<union> {l - 1<..<length (ib_req_ids b')}) b'" using m(1,4) by (simp add: L_def)
  moreover have "sorted_wrt (>) (butlast es)" using ok(2) split by (metis sorted_wrt_append)
  moreover have "l - 1 < length (ib_req_ids b')" using m(4) u(1) ok(3) by (simp add: L_def)
  moreover have "0 < num_reqs b'" using m(3) ok(4) by (simp add: rows_kept_def)
  ultimately show "condensing (l - 1) (butlast es) b'" by (simp add: condensing_def)
qed

text \<open>At the end the empty rows are the last ones.\<close>

lemma condense_loop_ok:
  assumes "condense_loop n es b = Inr b'" "condensing n es b" "dims_ok ml mb b"
  shows "slots_ok {num_reqs b..<length (ib_req_ids b)} b' \<and> dims_ok ml mb b' \<and> rows_kept b b' \<and> length (ib_req_ids b') = length (ib_req_ids b) \<and>
    ib_max_num_reqs b' = ib_max_num_reqs b"
  using assms
proof (induction n es b arbitrary: b' rule: condense_loop.induct)
  case (1 n es b)
  have here: "?case" if "slots_ok {num_reqs b..<length (ib_req_ids b)} b" "b' = b"
    using that "1.prems"(3) rows_kept_refl by simp
  obtain l where l: "last_used es n = Some l" using condensing_used [OF "1.prems"(2)] .
  consider "es = []" | "es \<noteq> []" "l \<le> last es" | "es \<noteq> []" "\<not> l \<le> last es" by blast
  then show ?case
  proof cases
    case 1
    moreover from this have "b' = b" using "1.prems"(1) by (subst (asm) condense_loop.simps) simp
    ultimately show ?thesis using here condensing_empty "1.prems"(2) by blast
  next
    case 2
    then have "b' = b" using "1.prems"(1) l by (subst (asm) condense_loop.simps) simp
    then show ?thesis using here condensing_done [OF "1.prems"(2) 2(1) l 2(2)] by blast
  next
    case 3
    then obtain b1 where b1: "move_state l (last es) b = Inr b1" "condense_loop (l - 1) (butlast es) b1 = Inr b'"
      using "1.prems"(1) l by (subst (asm) condense_loop.simps) auto
    note m = condensing_move [OF "1.prems"(2,3) 3(1) l 3(2) b1(1)]
    have nr: "num_reqs b1 = num_reqs b" using m(3) by (simp add: rows_kept_def)
    show ?thesis using "1.IH" [OF 3(1) l 3(2) b1(2) m(1,2)] rows_kept_trans [OF m(3)] unfolding nr m(4,5) by blast
  qed
qed

lemma rows_kept_trim:
  "slots_ok {k..<length (ib_req_ids b)} b \<Longrightarrow> k \<le> length (ib_req_ids b) \<Longrightarrow>
   slots_ok {} (b\<lparr>ib_req_ids := take k (ib_req_ids b), req_output_token_ids := take k (req_output_token_ids b)\<rparr>)"
proof -
  assume ok: "slots_ok {k..<length (ib_req_ids b)} b" and k: "k \<le> length (ib_req_ids b)"
  have H: "k \<le> i \<and> i < length (ib_req_ids b) \<longleftrightarrow> i < length (ib_req_ids b) \<and> ib_req_ids b ! i = None" for i
    using ok unfolding slots_ok_def by (metis (mono_tags, lifting) atLeastLessThan_iff mem_Collect_eq)
  have "ib_req_ids b ! i \<noteq> None" if "i < k" for i using H [of i] that k by auto
  moreover have "i < length (ib_req_ids b) \<and> ib_req_ids b ! i = Some rid \<longleftrightarrow> i < k \<and> take k (ib_req_ids b) ! i = Some rid" for i rid
    using H [of i] k by (cases "i < k") auto
  ultimately show ?thesis using ok k by (auto simp: slots_ok_def)
qed

lemma condense_ok:
  assumes "condense es b = Inr b'" "slots_ok (set es) b" "dims_ok ml mb b" "sorted_wrt (>) es"
  shows "slots_ok {} b' \<and> dims_ok ml mb b' \<and> rows_kept b b' \<and> ib_max_num_reqs b' = ib_max_num_reqs b"
proof (cases "num_reqs b = 0")
  case True
  then have b': "b' = b\<lparr>ib_req_ids := [], req_output_token_ids := []\<rparr>" "req_id_to_index b = []" using assms(1) by (simp_all add: condense_def num_reqs_def)
  then show ?thesis using assms(3) by (simp add: slots_ok_def dims_ok_def rows_kept_def num_reqs_def)
next
  case False
  define L where "L = length (ib_req_ids b)"
  have "distinct es" using assms(4) by (induction es) auto
  then have L: "L = num_reqs b + length es" using slots_count [OF assms(2)] by (simp add: L_def distinct_card)
  obtain b1 where b1: "condense_loop (L - 1) es b = Inr b1" "b' = b1\<lparr>ib_req_ids := take (num_reqs b1) (ib_req_ids b1), req_output_token_ids := take (num_reqs b1) (req_output_token_ids b1)\<rparr>"
    using assms(1) False L by (auto simp: condense_def)
  have "{L - 1<..<length (ib_req_ids b)} = {}" by (auto simp: L_def)
  then have "slots_ok {num_reqs b..<L} b1 \<and> dims_ok ml mb b1 \<and> rows_kept b b1 \<and> length (ib_req_ids b1) = L \<and> ib_max_num_reqs b1 = ib_max_num_reqs b"
    using condense_loop_ok [OF b1(1) _ assms(3)] assms(2,4) False L by (simp add: L_def condensing_def)
  then have f: "slots_ok {num_reqs b..<length (ib_req_ids b1)} b1" "dims_ok ml mb b1" "rows_kept b b1" "num_reqs b1 = num_reqs b"
    "num_reqs b \<le> length (ib_req_ids b1)" "ib_max_num_reqs b1 = ib_max_num_reqs b" using L by (auto simp: rows_kept_def)
  have "slots_ok {} b'" unfolding b1(2) f(4) by (rule rows_kept_trim [OF f(1,5)])
  moreover have "rows_kept b b'" using f(3) by (simp add: b1(2) rows_kept_def slot_ok_def num_reqs_def)
  ultimately show ?thesis using f(2,6) by (simp add: b1(2) dims_ok_def)
qed

end
