(* ===== verification/Model_Runner.thy ===== *)
theory Model_Runner
  imports Scheduler Input_Batch
begin

text \<open>
  \<open>GPUModelRunner._update_states\<close> of \<open>vllm/v1/worker/gpu_model_runner.py\<close>: the worker applies the message of the
  scheduler to its cached request states and to the persistent batch.

  The sampling parameters that the scheduler does not read are the argument \<open>params\<close>, by request id. Positions of
  M-RoPE models are left out, and the attention backend is one that does not reorder the batch.
\<close>

record model_runner =
  mr_states :: "(string \<times> cached_request_state) list"
  mr_encoder_cache :: "(string \<times> nat list) list"
  mr_batch :: input_batch
  mr_metadata :: sampling_metadata

abbreviation mr_requests :: "model_runner \<Rightarrow> string \<Rightarrow> cached_request_state option" where
  "mr_requests mr \<equiv> map_of (mr_states mr)"

text \<open>Removing requests from the batch, collecting their rows.\<close>

definition drop_finished :: "string \<Rightarrow> nat list \<times> input_batch \<Rightarrow> (nat list \<times> input_batch) result" where
  "drop_finished rid = (\<lambda>(removed, b).
     rbind (batch_remove_request rid b) (\<lambda>(i, b). Inr (case i of None \<Rightarrow> removed | Some i \<Rightarrow> removed @ [i], b)))"

definition drop_unscheduled :: "string \<Rightarrow> nat list \<times> input_batch \<Rightarrow> (nat list \<times> input_batch) result" where
  "drop_unscheduled rid = (\<lambda>(removed, b).
     rbind (batch_remove_request rid b) (\<lambda>(i, b). case i of None \<Rightarrow> Inl AssertionError | Some i \<Rightarrow> Inr (removed @ [i], b)))"

definition free_encoder_output :: "string \<times> nat \<Rightarrow> (string \<times> nat list) list \<Rightarrow> (string \<times> nat list) list" where
  "free_encoder_output = (\<lambda>(rid, i) cache. case map_of cache rid of None \<Rightarrow> cache
     | Some outs \<Rightarrow> let outs' = removeAll i outs in if outs' = [] then AList.delete rid cache else AList.update rid outs' cache)"

definition new_state :: "(string \<Rightarrow> worker_sampling) \<Rightarrow> (string \<Rightarrow> int) \<Rightarrow> new_request_data \<Rightarrow> cached_request_state" where
  "new_state params seed d =
     (let rid = nrd_req_id d
      in \<lparr>cs_req_id = rid, cs_prompt_token_ids = nrd_prompt_token_ids d, cs_sampling = params rid,
          cs_generator = (if sampling_type_of (params rid) = RANDOM_SEED then Some (seed rid) else None),
          cs_block_ids = nrd_block_ids d, cs_num_computed_tokens = nrd_num_computed_tokens d, cs_output_token_ids = [],
          cs_lora_request = nrd_lora_request d\<rparr>)"

text \<open>A running or resumed request: first its cached state, then its row if it has one.\<close>

definition update_state :: "cached_request_data \<Rightarrow> cached_request_state \<Rightarrow> cached_request_state result" where
  "update_state d c =
     (let new = crd_new_token_ids d;
          num_new_tokens = crd_num_computed_tokens d + int (length new) - int (cs_num_tokens c)
      in if num_new_tokens = 1 \<and> new = [] then Inl IndexError
         else Inr (c\<lparr>cs_num_computed_tokens := crd_num_computed_tokens d,
           cs_output_token_ids := (if 0 < num_new_tokens then cs_output_token_ids c @ py_islice (- num_new_tokens) (int (length new)) new
                                   else cs_output_token_ids c),
           cs_block_ids := (if resumed_from_preemption d then new_block_ids d else cs_block_ids c @ new_block_ids d)\<rparr>))"

definition update_row :: "int list \<Rightarrow> cached_request_data \<Rightarrow> nat \<Rightarrow> input_batch \<Rightarrow> input_batch result" where
  "update_row spec d i b =
     (let n = crd_num_computed_tokens d; e = n + int (length (crd_new_token_ids d)); e' = e + int (length spec)
      in rbind (append_row (new_block_ids d) i (ib_block_table b)) (\<lambda>t.
         rbind (np_assign n e (crd_new_token_ids d) (row_token_ids (ib_rows b i))) (\<lambda>ts.
         rbind (if spec = [] then Inr ts else np_assign e e' spec ts) (\<lambda>ts.
           Inr ((upd_row i (\<lambda>r. r\<lparr>row_num_computed_tokens := n, row_token_ids := ts, row_num_tokens_no_spec := e, row_num_tokens := e'\<rparr>) b)
                  \<lparr>ib_block_table := t\<rparr>)))))"

definition update_cached ::
  "(string \<times> int list) list \<Rightarrow> cached_request_data \<Rightarrow> (string \<times> cached_request_state) list \<times> string list \<times> input_batch \<Rightarrow>
   ((string \<times> cached_request_state) list \<times> string list \<times> input_batch) result" where
  "update_cached spec_tokens d = (\<lambda>(reqs, to_add, b).
     let rid = crd_req_id d
     in case map_of reqs rid of None \<Rightarrow> Inl KeyError
        | Some c \<Rightarrow> rbind (update_state d c) (\<lambda>c'.
            let reqs = AList.update rid c' reqs
            in case map_of (req_id_to_index b) rid of None \<Rightarrow> Inr (reqs, to_add @ [rid], b)
               | Some i \<Rightarrow> rbind (update_row (case map_of spec_tokens rid of None \<Rightarrow> [] | Some ts \<Rightarrow> ts) d i b) (\<lambda>b. Inr (reqs, to_add, b))))"

text \<open>Requests are added to the smallest empty row, or at the end; \<open>removed\<close> is sorted in descending order.\<close>

definition add_next :: "(string \<times> cached_request_state) list \<Rightarrow> string \<Rightarrow> nat list \<times> input_batch \<Rightarrow> (nat list \<times> input_batch) result" where
  "add_next reqs rid = (\<lambda>(removed, b).
     case map_of reqs rid of None \<Rightarrow> Inl KeyError
     | Some c \<Rightarrow>
         if removed \<noteq> [] then rbind (batch_add_request c (Some (last removed)) b) (\<lambda>b. Inr (butlast removed, b))
         else rbind (batch_add_request c None b) (\<lambda>b. Inr (removed, b)))"

definition update_states ::
  "(string \<Rightarrow> worker_sampling) \<Rightarrow> (string \<Rightarrow> int) \<Rightarrow> scheduler_output \<Rightarrow> model_runner \<Rightarrow> model_runner result" where
  "update_states params seed so mr =
     (let finished = out_finished_req_ids so;
          reqs = fold AList.delete finished (mr_states mr);
          enc = fold AList.delete finished (mr_encoder_cache mr)
      in rbind (rfold drop_finished finished ([], mr_batch mr)) (\<lambda>(removed, b).
         let enc = fold free_encoder_output (free_encoder_input_ids so) enc;
             unscheduled = filter (\<lambda>rid. map_of (out_num_scheduled_tokens so) rid = None) (map fst (req_id_to_index b))
         in rbind (rfold drop_unscheduled unscheduled (removed, b)) (\<lambda>(removed, b).
            let reqs = fold (\<lambda>d reqs. AList.update (nrd_req_id d) (new_state params seed d) reqs) (scheduled_new_reqs so) reqs
            in rbind (rfold (update_cached (out_spec_decode_tokens so)) (scheduled_cached_reqs so) (reqs, map nrd_req_id (scheduled_new_reqs so), b))
               (\<lambda>(reqs, to_add, b).
            let changed = removed \<noteq> [] \<or> to_add \<noteq> []
            in rbind (rfold (add_next reqs) to_add (rev (sort removed), b)) (\<lambda>(removed, b).
            rbind (if removed \<noteq> [] then condense removed b else Inr b) (\<lambda>b.
            rbind (if changed then make_sampling_metadata b else Inr (mr_metadata mr)) (\<lambda>md.
              Inr \<lparr>mr_states = reqs, mr_encoder_cache = enc, mr_batch = b, mr_metadata = md\<rparr>)))))))"

section \<open>Agreement of batch and cached states\<close>

definition batch_ok :: "(string \<Rightarrow> cached_request_state option) \<Rightarrow> input_batch \<Rightarrow> bool" where
  "batch_ok reqs b \<longleftrightarrow> (\<forall>rid i. map_of (req_id_to_index b) rid = Some i \<longrightarrow> (\<exists>c. reqs rid = Some c \<and> slot_ok c b i))"

definition states_ok :: "(string \<Rightarrow> cached_request_state option) \<Rightarrow> bool" where
  "states_ok reqs \<longleftrightarrow> (\<forall>rid c. reqs rid = Some c \<longrightarrow> cs_req_id c = rid)"

definition runner_ok :: "nat \<Rightarrow> nat \<Rightarrow> model_runner \<Rightarrow> bool" where
  "runner_ok max_len max_blocks mr \<longleftrightarrow> slots_ok {} (mr_batch mr) \<and> dims_ok max_len max_blocks (mr_batch mr) \<and>
     batch_ok (mr_requests mr) (mr_batch mr) \<and> states_ok (mr_requests mr)"

text \<open>
  What the worker relies on. A message repeats at most what the worker knows of a request's tokens, and continues it
  without a gap; the arrays are large enough.
\<close>

definition cached_ok :: "nat \<Rightarrow> nat \<Rightarrow> int list \<Rightarrow> cached_request_data \<Rightarrow> cached_request_state \<Rightarrow> bool" where
  "cached_ok max_len max_blocks spec d c \<longleftrightarrow>
     (let n = nat (crd_num_computed_tokens d); new = crd_new_token_ids d; ts = tokens_of c
      in 0 \<le> crd_num_computed_tokens d \<and> n \<le> length ts \<and> take (length ts - n) new = take (length new) (drop n ts) \<and>
         length ts \<le> max_len \<and> n + length new + length spec \<le> max_len \<and>
         length (if resumed_from_preemption d then new_block_ids d else cs_block_ids c @ new_block_ids d) \<le> max_blocks)"

definition spec_of :: "scheduler_output \<Rightarrow> string \<Rightarrow> int list" where
  "spec_of so rid = (case map_of (out_spec_decode_tokens so) rid of None \<Rightarrow> [] | Some ts \<Rightarrow> ts)"

definition message_ok :: "nat \<Rightarrow> nat \<Rightarrow> scheduler_output \<Rightarrow> model_runner \<Rightarrow> bool" where
  "message_ok max_len max_blocks so mr \<longleftrightarrow>
     distinct (map nrd_req_id (scheduled_new_reqs so) @ map crd_req_id (scheduled_cached_reqs so)) \<and>
     fst ` set (out_num_scheduled_tokens so) = nrd_req_id ` set (scheduled_new_reqs so) \<union> crd_req_id ` set (scheduled_cached_reqs so) \<and>
     (\<forall>d \<in> set (scheduled_new_reqs so). length (nrd_prompt_token_ids d) \<le> max_len \<and> length (nrd_block_ids d) \<le> max_blocks \<and>
        (nrd_req_id d \<in> set (out_finished_req_ids so) \<or> map_of (req_id_to_index (mr_batch mr)) (nrd_req_id d) = None)) \<and>
     (\<forall>d \<in> set (scheduled_cached_reqs so). crd_req_id d \<notin> set (out_finished_req_ids so) \<and>
        (\<forall>c. mr_requests mr (crd_req_id d) = Some c \<longrightarrow> cached_ok max_len max_blocks (spec_of so (crd_req_id d)) d c) \<and>
        (\<forall>i. map_of (req_id_to_index (mr_batch mr)) (crd_req_id d) = Some i \<longrightarrow>
           \<not> resumed_from_preemption d \<and> crd_num_computed_tokens d \<le> row_num_tokens_no_spec (ib_rows (mr_batch mr) i)))"

section \<open>Removing\<close>

text \<open>The rows collected so far are the empty rows.\<close>

definition removing :: "nat \<Rightarrow> nat \<Rightarrow> (string \<Rightarrow> cached_request_state option) \<Rightarrow> nat list \<times> input_batch \<Rightarrow> bool" where
  "removing max_len max_blocks reqs st \<longleftrightarrow> slots_ok (set (fst st)) (snd st) \<and> distinct (fst st) \<and> dims_ok max_len max_blocks (snd st) \<and> batch_ok reqs (snd st)"

lemma slots_inj:
  "slots_ok H b \<Longrightarrow> map_of (req_id_to_index b) r = Some i \<Longrightarrow> map_of (req_id_to_index b) r' = Some i \<Longrightarrow> r' = r"
  by (simp add: slots_ok_def)

lemma batch_ok_frame:
  assumes "batch_ok reqs b" "\<And>r j. map_of (req_id_to_index b') r = Some j \<Longrightarrow> map_of (req_id_to_index b) r = Some j \<and>
    ib_rows b' j = ib_rows b j \<and> bt_np (ib_block_table b') j = bt_np (ib_block_table b) j \<and>
    num_blocks_per_row (ib_block_table b') j = num_blocks_per_row (ib_block_table b) j"
  shows "batch_ok reqs b'"
  unfolding batch_ok_def
proof (intro allI impI)
  fix r j assume r: "map_of (req_id_to_index b') r = Some j"
  note f = assms(2) [OF r]
  then obtain c where "reqs r = Some c" "slot_ok c b j" using assms(1) by (auto simp: batch_ok_def)
  then show "\<exists>c. reqs r = Some c \<and> slot_ok c b' j" using f by (auto simp: slot_ok_def blocks_ok_def)
qed

lemma drop_finished_ok:
  assumes "drop_finished rid st = Inr st'" "removing ml mb reqs st"
  shows "removing ml mb reqs st' \<and> (\<forall>r. map_of (req_id_to_index (snd st')) r = (if r = rid then None else map_of (req_id_to_index (snd st)) r)) \<and>
    (\<forall>r i. map_of (req_id_to_index (snd st')) r = Some i \<longrightarrow> ib_rows (snd st') i = ib_rows (snd st) i) \<and> ib_max_num_reqs (snd st') = ib_max_num_reqs (snd st)"
proof -
  obtain removed b where st: "st = (removed, b)" by (cases st)
  obtain i b' where rem: "batch_remove_request rid b = Inr (i, b')" "st' = (case i of None \<Rightarrow> removed | Some i \<Rightarrow> removed @ [i], b')"
    using assms(1) by (auto simp: drop_finished_def st)
  have ok: "slots_ok (set removed) b" "distinct removed" "dims_ok ml mb b" "batch_ok reqs b" using assms(2) by (simp_all add: removing_def st)
  show ?thesis
  proof (cases i)
    case None
    then show ?thesis using remove_request_None rem assms(2) st by auto
  next
    case (Some j)
    note f = remove_request_frame [OF rem(1) [unfolded Some]]
    note s = remove_request_slots [OF ok(1) rem(1) [unfolded Some]]
    have idx: "map_of (req_id_to_index b') r = (if r = rid then None else map_of (req_id_to_index b) r)" for r
      by (simp add: f(4) map_of_delete)
    have ne: "k \<noteq> j" if "map_of (req_id_to_index b') r = Some k" for r k
      using that slots_inj [OF ok(1) f(1)] by (auto simp: idx split: if_splits)
    have "batch_ok reqs b'"
      by (rule batch_ok_frame [OF ok(4)]) (use ne f(5,7) in \<open>auto simp: idx split: if_splits\<close>)
    moreover have "dims_ok ml mb b'" using ok(3) f(5,7,8) unfolding dims_ok_def by metis
    ultimately have "removing ml mb reqs st'" using s ok(2) by (simp add: removing_def rem(2) Some)
    then show ?thesis using idx f(6,7) ne by (auto simp: st rem(2) Some)
  qed
qed

lemma drop_loop_ok:
  assumes "rfold drop_finished rids st = Inr st'" "removing ml mb reqs st"
  shows "removing ml mb reqs st' \<and> (\<forall>r. map_of (req_id_to_index (snd st')) r = (if r \<in> set rids then None else map_of (req_id_to_index (snd st)) r)) \<and>
    (\<forall>r i. map_of (req_id_to_index (snd st')) r = Some i \<longrightarrow> ib_rows (snd st') i = ib_rows (snd st) i) \<and> ib_max_num_reqs (snd st') = ib_max_num_reqs (snd st)"
  using assms
proof (induction rids arbitrary: st)
  case (Cons rid rids)
  then obtain st1 where st1: "drop_finished rid st = Inr st1" "rfold drop_finished rids st1 = Inr st'" by auto
  note one = drop_finished_ok [OF st1(1) Cons.prems(2)]
  note rest = Cons.IH [OF st1(2)]
  show ?case using one rest by (auto split: if_splits)
qed simp

lemma drop_unscheduled_finished: "drop_unscheduled rid st = Inr st' \<Longrightarrow> drop_finished rid st = Inr st'"
  by (auto simp: drop_unscheduled_def drop_finished_def split: option.splits prod.splits)

lemma drop_unscheduled_loop: "rfold drop_unscheduled rids st = Inr st' \<Longrightarrow> rfold drop_finished rids st = Inr st'"
  by (induction rids arbitrary: st) (auto dest: drop_unscheduled_finished)

section \<open>Updating\<close>

lemma update_state_tokens:
  assumes "cached_ok ml mb spec d c" "update_state d c = Inr c'"
  defines "n \<equiv> nat (crd_num_computed_tokens d)" and "new \<equiv> crd_new_token_ids d"
  shows "tokens_of c' = tokens_of c @ drop (length (tokens_of c) - n) new"
    "take (n + length new) (tokens_of c') = take n (tokens_of c) @ new" "n + length new \<le> length (tokens_of c')"
    "cs_req_id c' = cs_req_id c" "cs_prompt_token_ids c' = cs_prompt_token_ids c" "cs_num_computed_tokens c' = crd_num_computed_tokens d"
    "cs_block_ids c' = (if resumed_from_preemption d then new_block_ids d else cs_block_ids c @ new_block_ids d)"
    "length (tokens_of c') \<le> ml" "length (cs_block_ids c') \<le> mb"
proof -
  define ts where "ts = tokens_of c"
  have n: "crd_num_computed_tokens d = int n" "n \<le> length ts" and ov: "take (length ts - n) new = take (length new) (drop n ts)"
    and len: "length ts \<le> ml" "n + length new + length spec \<le> ml" "length (if resumed_from_preemption d then new_block_ids d else cs_block_ids c @ new_block_ids d) \<le> mb"
    using assms(1) by (auto simp: cached_ok_def Let_def ts_def n_def new_def)
  have k: "crd_num_computed_tokens d + int (length new) - int (cs_num_tokens c) = int (n + length new) - int (length ts)"
    using n(1) by (simp add: cs_num_tokens_def ts_def tokens_of_def)
  have out: "cs_output_token_ids c' = cs_output_token_ids c @ drop (length ts - n) new"
  proof (cases "length ts < n + length new")
    case True
    then have b: "py_bound (length new) (int (length ts) - int (n + length new)) = length ts - n"
      using n(2) by (auto simp: py_bound_def nat_diff_distrib')
    have "py_islice (- (int (n + length new) - int (length ts))) (int (length new)) new = drop (length ts - n) new"
      using b by (simp add: py_islice_def py_slice_def) (simp add: py_bound_def)
    then show ?thesis using assms(2) True by (auto simp: update_state_def Let_def k simp flip: new_def split: if_splits)
  next
    case False
    then show ?thesis using assms(2) by (auto simp: update_state_def Let_def k simp flip: new_def split: if_splits)
  qed
  show t: "tokens_of c' = tokens_of c @ drop (length (tokens_of c) - n) new"
    and "cs_req_id c' = cs_req_id c" "cs_prompt_token_ids c' = cs_prompt_token_ids c" "cs_num_computed_tokens c' = crd_num_computed_tokens d"
    "cs_block_ids c' = (if resumed_from_preemption d then new_block_ids d else cs_block_ids c @ new_block_ids d)"
    using out assms(2) by (auto simp: update_state_def Let_def tokens_of_def ts_def split: if_splits)
  then show "length (cs_block_ids c') \<le> mb" using len(3) by simp
  show "n + length new \<le> length (tokens_of c')" "length (tokens_of c') \<le> ml" using t n(2) len by (auto simp: ts_def)
  show "take (n + length new) (tokens_of c') = take n (tokens_of c) @ new"
  proof (cases "length ts < n + length new")
    case True
    then have "take (length ts - n) new = drop n ts" using ov by simp
    then have "new = drop n ts @ drop (length ts - n) new" by (metis append_take_drop_id)
    then have "take n ts @ new = ts @ drop (length ts - n) new" by (metis append.assoc append_take_drop_id)
    then show ?thesis using True n(2) by (simp add: t ts_def [symmetric])
  next
    case False
    then have "new = take (length new) (drop n ts)" using ov by simp
    then show ?thesis using False by (simp add: t ts_def [symmetric] take_add)
  qed
qed

lemma update_row_ok:
  assumes up: "update_row spec d i b = Inr b'" and ok: "slot_ok c b i" "dims_ok ml mb b" and c: "cached_ok ml mb spec d c" "update_state d c = Inr c'"
    and d: "\<not> resumed_from_preemption d" "crd_num_computed_tokens d \<le> row_num_tokens_no_spec (ib_rows b i)"
  shows "slot_ok c' b' i" "dims_ok ml mb b'" "same_shape i (b\<lparr>ib_block_table := ib_block_table b'\<rparr>) b'"
    "\<forall>j. j \<noteq> i \<longrightarrow> bt_np (ib_block_table b') j = bt_np (ib_block_table b) j \<and> num_blocks_per_row (ib_block_table b') j = num_blocks_per_row (ib_block_table b) j"
proof -
  define n where "n = nat (crd_num_computed_tokens d)"
  define new where "new = crd_new_token_ids d"
  define row where "row = row_token_ids (ib_rows b i)"
  have n: "crd_num_computed_tokens d = int n" "n + length new + length spec \<le> ml" "length (cs_block_ids c @ new_block_ids d) \<le> mb"
    using c(1) d(1) by (auto simp: cached_ok_def Let_def n_def new_def)
  have dims: "length row = ml" "length (bt_np (ib_block_table b) i) = mb" using ok(2) by (simp_all add: dims_ok_def row_def)
  have a1: "np_assign (int n) (int n + int (length new)) new row = Inr (take n row @ new @ drop (n + length new) row)"
    using n dims by (subst np_assign_fits) (auto simp: nat_int_add)
  define row1 where "row1 = take n row @ new @ drop (n + length new) row"
  have row1: "length row1 = ml" using n(2) dims(1) by (simp add: row1_def)
  have a2: "np_assign (int n + int (length new)) (int n + int (length new) + int (length spec)) spec row1 =
    Inr (take (n + length new) row1 @ spec @ drop (n + length new + length spec) row1)"
  proof -
    have "nat (int n + int (length new) + int (length spec)) = n + length new + length spec" by linarith
    then show ?thesis using n row1 by (subst np_assign_fits) (auto simp: nat_int_add)
  qed
  obtain t where t: "append_row (new_block_ids d) i (ib_block_table b) = Inr t" using up by (auto simp: update_row_def Let_def)
  define row2 where "row2 = (if spec = [] then row1 else take (n + length new) row1 @ spec @ drop (n + length new + length spec) row1)"
  have b': "b' = (upd_row i (\<lambda>r. r\<lparr>row_num_computed_tokens := int n, row_token_ids := row2, row_num_tokens_no_spec := int n + int (length new),
      row_num_tokens := int n + int (length new) + int (length spec)\<rparr>) b)\<lparr>ib_block_table := t\<rparr>"
    using up t a1 a2 by (auto simp: update_row_def Let_def n(1) row2_def row1_def row_def new_def split: if_splits)
  have row2: "length row2 = ml" "take (n + length new) row2 = take n row @ new" using n(2) dims(1) by (auto simp: row2_def row1_def)
  have bl: "blocks_ok (cs_block_ids c) (ib_block_table b) i" using ok(1) by (simp add: slot_ok_def)
  have "length (cs_block_ids c) + length (new_block_ids d) \<le> length (bt_np (ib_block_table b) i)" using n(3) dims by simp
  note ap = append_row_ok [OF t bl this]
  note us = update_state_tokens [OF c]
  have r: "row_ok c (ib_rows b i)" using ok(1) by (simp add: slot_ok_def)
  have "take n row = take n (tokens_of c)"
  proof -
    define m where "m = nat (row_num_tokens_no_spec (ib_rows b i))"
    have "take m row = take m (tokens_of c)" "n \<le> m" using r d(2) n(1) by (simp_all add: row_ok_def m_def row_def)
    then show ?thesis by (metis min.absorb1 take_take)
  qed
  then have "take (n + length new) row2 = take (n + length new) (tokens_of c')" using us(2) row2(2) by (simp add: n_def new_def)
  moreover have "int n + int (length new) \<le> int (cs_num_tokens c')"
    using us(3) unfolding n_def [symmetric] new_def [symmetric] by (simp add: cs_num_tokens_def tokens_of_def)
  ultimately have "row_ok c' (ib_rows b' i)" using r us(5,6) n(1) by (simp add: b' upd_row_def row_ok_def nat_int_add)
  then show "slot_ok c' b' i" using ap(1) us(7) d(1) by (simp add: slot_ok_def b')
  show "dims_ok ml mb b'" using ok(2) ap(3) row2(1) by (simp add: dims_ok_def b' upd_row_def)
  show "same_shape i (b\<lparr>ib_block_table := ib_block_table b'\<rparr>) b'" by (simp add: same_shape_def b' upd_row_def)
  show "\<forall>j. j \<noteq> i \<longrightarrow> bt_np (ib_block_table b') j = bt_np (ib_block_table b) j \<and> num_blocks_per_row (ib_block_table b') j = num_blocks_per_row (ib_block_table b) j"
    using ap(2) by (simp add: b')
qed

definition updating :: "nat \<Rightarrow> nat \<Rightarrow> nat set \<Rightarrow> (string \<Rightarrow> cached_request_state option) \<Rightarrow> input_batch \<Rightarrow> bool" where
  "updating max_len max_blocks H reqs b \<longleftrightarrow> slots_ok H b \<and> dims_ok max_len max_blocks b \<and> batch_ok reqs b \<and> states_ok reqs"

definition entry_ok :: "nat \<Rightarrow> nat \<Rightarrow> scheduler_output \<Rightarrow> (string \<Rightarrow> cached_request_state option) \<Rightarrow> input_batch \<Rightarrow> cached_request_data \<Rightarrow> bool" where
  "entry_ok max_len max_blocks so reqs b d \<longleftrightarrow>
     (\<forall>c. reqs (crd_req_id d) = Some c \<longrightarrow> cached_ok max_len max_blocks (spec_of so (crd_req_id d)) d c) \<and>
     (\<forall>i. map_of (req_id_to_index b) (crd_req_id d) = Some i \<longrightarrow>
        \<not> resumed_from_preemption d \<and> crd_num_computed_tokens d \<le> row_num_tokens_no_spec (ib_rows b i))"

lemma update_cached_ok:
  assumes up: "update_cached (out_spec_decode_tokens so) d (reqs, to_add, b) = Inr (reqs', to_add', b')"
    and inv: "updating ml mb H (map_of reqs) b" and e: "entry_ok ml mb so (map_of reqs) b d"
  obtains c c' where "map_of reqs (crd_req_id d) = Some c" "update_state d c = Inr c'" "reqs' = AList.update (crd_req_id d) c' reqs" "updating ml mb H (map_of reqs') b'"
    "req_id_to_index b' = req_id_to_index b" "ib_max_num_reqs b' = ib_max_num_reqs b"
    "to_add' = to_add @ (if map_of (req_id_to_index b) (crd_req_id d) = None then [crd_req_id d] else [])"
    "\<forall>r i. r \<noteq> crd_req_id d \<longrightarrow> map_of (req_id_to_index b) r = Some i \<longrightarrow> ib_rows b' i = ib_rows b i"
    "length (tokens_of c') \<le> ml" "length (cs_block_ids c') \<le> mb" "cs_req_id c' = crd_req_id d"
proof -
  define rid where "rid = crd_req_id d"
  obtain c c' where c: "map_of reqs rid = Some c" "update_state d c = Inr c'"
    using up by (auto simp: update_cached_def Let_def rid_def split: option.splits)
  have inv': "slots_ok H b" "dims_ok ml mb b" "batch_ok (map_of reqs) b" "states_ok (map_of reqs)" using inv by (simp_all add: updating_def)
  have cok: "cached_ok ml mb (spec_of so rid) d c" using e c(1) by (simp add: entry_ok_def rid_def)
  note us = update_state_tokens [OF cok c(2)]
  have idc: "cs_req_id c' = rid" using us(4) inv'(4) c(1) by (simp add: states_ok_def)
  have st: "states_ok (map_of (AList.update rid c' reqs))" using inv'(4) idc by (simp add: states_ok_def update_conv')
  show ?thesis
  proof (cases "map_of (req_id_to_index b) rid")
    case None
    then have r: "reqs' = AList.update rid c' reqs" "to_add' = to_add @ [rid]" "b' = b"
      using up c by (auto simp: update_cached_def Let_def rid_def)
    have "batch_ok (map_of reqs') b" using inv'(3) None unfolding batch_ok_def r(1) update_conv' by (metis fun_upd_other option.distinct(1))
    then show ?thesis using that [OF c(1) [unfolded rid_def] c(2)] r inv' st None idc us(8,9) by (simp add: updating_def rid_def)
  next
    case (Some i)
    then have r: "reqs' = AList.update rid c' reqs" "to_add' = to_add" "update_row (spec_of so rid) d i b = Inr b'"
      using up c by (auto simp: update_cached_def Let_def rid_def spec_of_def)
    have d: "\<not> resumed_from_preemption d" "crd_num_computed_tokens d \<le> row_num_tokens_no_spec (ib_rows b i)"
      using e Some by (simp_all add: entry_ok_def rid_def)
    have "slot_ok c b i" using inv'(3) Some c(1) by (metis batch_ok_def option.inject)
    note ur = update_row_ok [OF r(3) this inv'(2) cok c(2) d]
    have sh: "req_id_to_index b' = req_id_to_index b" "ib_req_ids b' = ib_req_ids b" "req_output_token_ids b' = req_output_token_ids b"
      "\<forall>j. j \<noteq> i \<longrightarrow> ib_rows b' j = ib_rows b j" "ib_max_num_reqs b' = ib_max_num_reqs b" using ur(3) by (simp_all add: same_shape_def)
    have ne: "j \<noteq> i" if "map_of (req_id_to_index b) r = Some j" "r \<noteq> rid" for r j using slots_inj [OF inv'(1) Some] that by blast
    have "\<exists>x. map_of reqs' r = Some x \<and> slot_ok x b' j" if m: "map_of (req_id_to_index b') r = Some j" for r j
    proof (cases "r = rid")
      case True
      then show ?thesis using ur(1) Some m sh(1) r(1) by (simp add: update_conv')
    next
      case False
      then obtain x where "map_of reqs r = Some x" "slot_ok x b j" using inv'(3) m sh(1) by (auto simp: batch_ok_def)
      then show ?thesis using False ne [of r j] m sh(1,4) ur(4) r(1) by (simp add: slot_ok_def blocks_ok_def update_conv')
    qed
    then have "batch_ok (map_of reqs') b'" by (simp add: batch_ok_def)
    moreover have "slots_ok H b'" using inv'(1) sh by (simp add: slots_ok_def)
    ultimately have "updating ml mb H (map_of reqs') b'" using ur(2) st r(1) by (simp add: updating_def)
    then show ?thesis using that [OF c(1) [unfolded rid_def] c(2)] r(1,2) sh(1,4,5) ne Some idc us(8,9) by (simp add: rid_def)
  qed
qed

lemma update_loop_ok:
  assumes "rfold (update_cached (out_spec_decode_tokens so)) ds (reqs, to_add, b) = Inr (reqs', to_add', b')"
    "updating ml mb H (map_of reqs) b" "\<forall>d \<in> set ds. entry_ok ml mb so (map_of reqs) b d" "distinct (map crd_req_id ds)"
  shows "updating ml mb H (map_of reqs') b' \<and> req_id_to_index b' = req_id_to_index b \<and> ib_max_num_reqs b' = ib_max_num_reqs b \<and>
    to_add' = to_add @ filter (\<lambda>rid. map_of (req_id_to_index b) rid = None) (map crd_req_id ds) \<and>
    (\<forall>rid. rid \<notin> crd_req_id ` set ds \<longrightarrow> map_of reqs' rid = map_of reqs rid) \<and>
    (\<forall>d \<in> set ds. \<exists>c c'. map_of reqs (crd_req_id d) = Some c \<and> update_state d c = Inr c' \<and> map_of reqs' (crd_req_id d) = Some c' \<and>
       length (tokens_of c') \<le> ml \<and> length (cs_block_ids c') \<le> mb)"
  using assms
proof (induction ds arbitrary: reqs to_add b)
  case (Cons d ds)
  obtain reqs1 to_add1 b1 where 1: "update_cached (out_spec_decode_tokens so) d (reqs, to_add, b) = Inr (reqs1, to_add1, b1)"
    "rfold (update_cached (out_spec_decode_tokens so)) ds (reqs1, to_add1, b1) = Inr (reqs', to_add', b')"
    using Cons.prems(1) by auto
  have "entry_ok ml mb so (map_of reqs) b d" using Cons.prems(3) by simp
  with 1(1) Cons.prems(2) obtain c c' where s: "map_of reqs (crd_req_id d) = Some c" "update_state d c = Inr c'" "reqs1 = AList.update (crd_req_id d) c' reqs"
    "updating ml mb H (map_of reqs1) b1" "req_id_to_index b1 = req_id_to_index b" "ib_max_num_reqs b1 = ib_max_num_reqs b"
    "to_add1 = to_add @ (if map_of (req_id_to_index b) (crd_req_id d) = None then [crd_req_id d] else [])"
    "\<forall>r i. r \<noteq> crd_req_id d \<longrightarrow> map_of (req_id_to_index b) r = Some i \<longrightarrow> ib_rows b1 i = ib_rows b i"
    "length (tokens_of c') \<le> ml" "length (cs_block_ids c') \<le> mb"
    by (rule update_cached_ok) blast
  have new: "crd_req_id x \<noteq> crd_req_id d" if "x \<in> set ds" for x using Cons.prems(4) that by (metis distinct.simps(2) imageI list.simps(9) set_map)
  have "entry_ok ml mb so (map_of reqs1) b1 x" if "x \<in> set ds" for x
    using Cons.prems(3) new [OF that] that s(3,5,8) by (auto simp: entry_ok_def update_conv')
  then have IH: "updating ml mb H (map_of reqs') b' \<and> req_id_to_index b' = req_id_to_index b1 \<and> ib_max_num_reqs b' = ib_max_num_reqs b1 \<and>
    to_add' = to_add1 @ filter (\<lambda>rid. map_of (req_id_to_index b1) rid = None) (map crd_req_id ds) \<and>
    (\<forall>rid. rid \<notin> crd_req_id ` set ds \<longrightarrow> map_of reqs' rid = map_of reqs1 rid) \<and>
    (\<forall>x \<in> set ds. \<exists>c c'. map_of reqs1 (crd_req_id x) = Some c \<and> update_state x c = Inr c' \<and> map_of reqs' (crd_req_id x) = Some c' \<and>
       length (tokens_of c') \<le> ml \<and> length (cs_block_ids c') \<le> mb)"
    using Cons.IH [OF 1(2) s(4)] Cons.prems(4) by simp
  have "\<exists>c c'. map_of reqs (crd_req_id x) = Some c \<and> update_state x c = Inr c' \<and> map_of reqs' (crd_req_id x) = Some c' \<and>
     length (tokens_of c') \<le> ml \<and> length (cs_block_ids c') \<le> mb" if x: "x \<in> set (d # ds)" for x
  proof (cases "x = d")
    case True
    have "crd_req_id d \<notin> crd_req_id ` set ds" using new by (metis imageE)
    then have "map_of reqs' (crd_req_id d) = Some c'" using IH s(3) by (simp add: update_conv')
    then show ?thesis using True s by blast
  next
    case False
    then have "x \<in> set ds" using x by simp
    then have "map_of reqs1 (crd_req_id x) = map_of reqs (crd_req_id x)" using new by (simp add: s(3) update_conv')
    then show ?thesis using bspec [OF IH [THEN conjunct2, THEN conjunct2, THEN conjunct2, THEN conjunct2, THEN conjunct2] \<open>x \<in> set ds\<close>] by simp
  qed
  then show ?case using IH s(3,5,6,7) by (auto simp: image_iff update_conv')
qed simp

section \<open>Adding\<close>

definition fits :: "nat \<Rightarrow> nat \<Rightarrow> (string \<Rightarrow> cached_request_state option) \<Rightarrow> string \<Rightarrow> bool" where
  "fits max_len max_blocks reqs rid \<longleftrightarrow>
     (\<forall>c. reqs rid = Some c \<longrightarrow> length (tokens_of c) \<le> max_len \<and> length (cs_block_ids c) \<le> max_blocks)"

lemma batch_add_ok:
  assumes add: "batch_add_request c idx b = Inr b'" and inv: "updating ml mb H reqs b"
    and c: "reqs (cs_req_id c) = Some c" "fits ml mb reqs (cs_req_id c)" "map_of (req_id_to_index b) (cs_req_id c) = None"
    and i: "case idx of None \<Rightarrow> H = {} | Some i \<Rightarrow> i \<in> H"
  defines "i \<equiv> (case idx of None \<Rightarrow> num_reqs b | Some i \<Rightarrow> i)"
  shows "updating ml mb (H - {i}) reqs b'" "\<forall>r. map_of (req_id_to_index b') r = (if r = cs_req_id c then Some i else map_of (req_id_to_index b) r)"
    "i < ib_max_num_reqs b" "ib_max_num_reqs b' = ib_max_num_reqs b"
proof -
  have inv': "slots_ok H b" "dims_ok ml mb b" "batch_ok reqs b" "states_ok reqs" using inv by (simp_all add: updating_def)
  obtain b1 r t where f: "take_slot (cs_req_id c) i b = Inr b1" "add_tokens c (ib_rows b i) = Inr r" "add_row (cs_block_ids c) i (ib_block_table b) = Inr t"
    "ib_req_ids b' = ib_req_ids b1" "req_output_token_ids b' = req_output_token_ids b1" "req_id_to_index b' = req_id_to_index b1"
    "ib_block_table b' = t" "core (ib_rows b' i) = core r" "\<forall>j. j \<noteq> i \<longrightarrow> ib_rows b' j = ib_rows b j" "i < ib_max_num_reqs b"
    "ib_max_num_reqs b' = ib_max_num_reqs b"
    using add unfolding i_def by (rule add_request_frame)
  have slot: "i \<in> H \<or> i = length (ib_req_ids b)"
    using i slots_count [OF inv'(1)] by (cases idx) (simp_all add: i_def)
  note ts = take_slot_slots [OF inv'(1) f(1) c(3) slot f(4,5,6)]
  show idx: "\<forall>r. map_of (req_id_to_index b') r = (if r = cs_req_id c then Some i else map_of (req_id_to_index b) r)"
    by (simp add: ts(2) update_conv')
  have cap: "length (tokens_of c) \<le> length (row_token_ids (ib_rows b i))" "length (cs_block_ids c) \<le> length (bt_np (ib_block_table b) i)"
    using c(1,2) inv'(2) by (simp_all add: fits_def dims_ok_def)
  note at = add_tokens_ok [OF cap(1) f(2)]
  note ar = add_row_ok [OF f(3) cap(2)]
  have here: "slot_ok c b' i" using at(1) ar(1) row_ok_core [OF f(8)] by (simp add: slot_ok_def f(7))
  have ne: "j \<noteq> i" if "map_of (req_id_to_index b) x = Some j" for x j
  proof -
    have "j < length (ib_req_ids b)" "ib_req_ids b ! j = Some x" using that inv'(1) by (simp_all add: slots_ok_def)
    then show ?thesis using slot inv'(1) by (auto simp: slots_ok_def)
  qed
  have "\<exists>z. reqs x = Some z \<and> slot_ok z b' j" if x: "map_of (req_id_to_index b') x = Some j" for x j
  proof (cases "x = cs_req_id c")
    case True
    then show ?thesis using here c(1) idx x by simp
  next
    case False
    then have m: "map_of (req_id_to_index b) x = Some j" using idx x by simp
    then obtain z where "reqs x = Some z" "slot_ok z b j" using inv'(3) by (auto simp: batch_ok_def)
    then show ?thesis using ne [OF m] f(7,9) ar(2) by (auto simp: slot_ok_def blocks_ok_def)
  qed
  then have "batch_ok reqs b'" by (simp add: batch_ok_def)
  moreover have "dims_ok ml mb b'"
  proof -
    have "length (row_token_ids (ib_rows b' i)) = ml" using f(8) at(2) inv'(2) by (simp add: core_def dims_ok_def)
    then have "length (row_token_ids (ib_rows b' j)) = ml" for j using f(9) inv'(2) by (cases "j = i") (simp_all add: dims_ok_def)
    then show ?thesis using ar(3) inv'(2) by (simp add: dims_ok_def f(7))
  qed
  ultimately show "updating ml mb (H - {i}) reqs b'" using ts(1) inv'(4) by (simp add: updating_def)
  show "i < ib_max_num_reqs b" "ib_max_num_reqs b' = ib_max_num_reqs b" by (rule f(10), rule f(11))
qed

lemma add_loop_ok:
  assumes "rfold (add_next reqs) rids (removed, b) = Inr (removed', b')" "updating ml mb (set removed) (map_of reqs) b" "sorted_wrt (>) removed"
    "distinct rids" "\<forall>rid \<in> set rids. map_of (req_id_to_index b) rid = None \<and> fits ml mb (map_of reqs) rid"
  shows "updating ml mb (set removed') (map_of reqs) b' \<and> sorted_wrt (>) removed' \<and> ib_max_num_reqs b' = ib_max_num_reqs b \<and>
    (\<forall>r. map_of (req_id_to_index b') r = None \<longleftrightarrow> map_of (req_id_to_index b) r = None \<and> r \<notin> set rids)"
  using assms
proof (induction rids arbitrary: removed b)
  case (Cons rid rids)
  obtain removed1 b1 where 1: "add_next reqs rid (removed, b) = Inr (removed1, b1)" "rfold (add_next reqs) rids (removed1, b1) = Inr (removed', b')"
    using Cons.prems(1) by auto
  obtain c where c: "map_of reqs rid = Some c" using 1(1) by (auto simp: add_next_def split: option.splits)
  have cid: "cs_req_id c = rid" using c Cons.prems(2) by (simp add: updating_def states_ok_def)
  define idx where "idx = (if removed \<noteq> [] then Some (last removed) else None)"
  have add: "batch_add_request c idx b = Inr b1" and rm: "removed1 = butlast removed"
    using 1(1) c by (auto simp: add_next_def idx_def split: if_splits)
  have "case idx of None \<Rightarrow> set removed = {} | Some i \<Rightarrow> i \<in> set removed" by (simp add: idx_def)
  note one = batch_add_ok [OF add Cons.prems(2) _ _ _ this, unfolded cid, OF c]
  have hyps: "fits ml mb (map_of reqs) rid" "map_of (req_id_to_index b) rid = None" using Cons.prems(5) by simp_all
  have split: "removed = butlast removed @ [last removed]" if "removed \<noteq> []" using that by simp
  have H: "set removed - {case idx of None \<Rightarrow> num_reqs b | Some i \<Rightarrow> i} = set removed1"
  proof (cases "removed = []")
    case False
    have "last removed \<notin> set (butlast removed)" using Cons.prems(3) split [OF False] by (metis less_irrefl sorted_wrt_append list.set_intros(1))
    moreover have "set removed = insert (last removed) (set (butlast removed))"
      using split [OF False] by (metis Un_insert_right empty_set list.simps(15) set_append sup_bot_right)
    ultimately show ?thesis using False by (simp add: idx_def rm)
  qed (simp add: rm)
  have srt: "sorted_wrt (>) removed1" using Cons.prems(3) split unfolding rm by (cases "removed = []") (simp, metis sorted_wrt_append)
  have next_ok: "\<forall>r \<in> set rids. map_of (req_id_to_index b1) r = None \<and> fits ml mb (map_of reqs) r"
    using Cons.prems(4,5) one(2) [OF hyps] by auto
  show ?case
    using Cons.IH [OF 1(2) one(1) [OF hyps, unfolded H] srt _ next_ok] Cons.prems(4) one(2,4) [OF hyps] by (auto split: if_splits)
qed simp

section \<open>The whole update\<close>

abbreviation add_new_states :: "(string \<Rightarrow> worker_sampling) \<Rightarrow> (string \<Rightarrow> int) \<Rightarrow> new_request_data list \<Rightarrow>
    (string \<times> cached_request_state) list \<Rightarrow> (string \<times> cached_request_state) list" where
  "add_new_states params seed \<equiv> fold (\<lambda>d reqs. AList.update (nrd_req_id d) (new_state params seed d) reqs)"

lemma new_states_other: "rid \<notin> nrd_req_id ` set ds \<Longrightarrow> map_of (add_new_states params seed ds reqs) rid = map_of reqs rid"
  by (induction ds arbitrary: reqs) (auto simp: update_conv')

lemma new_states_new:
  "distinct (map nrd_req_id ds) \<Longrightarrow> d \<in> set ds \<Longrightarrow> map_of (add_new_states params seed ds reqs) (nrd_req_id d) = Some (new_state params seed d)"
proof (induction ds arbitrary: reqs)
  case (Cons x ds)
  show ?case
  proof (cases "d = x")
    case True
    then have "nrd_req_id x \<notin> nrd_req_id ` set ds" using Cons.prems(1) by simp
    then show ?thesis unfolding True fold_simps comp_def by (subst new_states_other) (simp_all add: update_conv')
  next
    case False
    then have "d \<in> set ds" "distinct (map nrd_req_id ds)" using Cons.prems by simp_all
    then show ?thesis by (simp only: fold_simps Cons.IH)
  qed
qed simp

lemma new_states_ids: "states_ok (map_of reqs) \<Longrightarrow> states_ok (map_of (add_new_states params seed ds reqs))"
proof (induction ds arbitrary: reqs)
  case (Cons d ds)
  have "states_ok (map_of (AList.update (nrd_req_id d) (new_state params seed d) reqs))"
    using Cons.prems by (simp add: states_ok_def new_state_def Let_def update_conv')
  then show ?case unfolding fold_simps comp_def by (rule Cons.IH)
qed (simp only: fold_simps)

lemma map_of_delete_all: "map_of (fold AList.delete ks xs) k = (if k \<in> set ks then None else map_of xs k)"
  by (induction ks arbitrary: xs) (auto simp: map_of_delete)

lemma sorted_desc: "distinct xs \<Longrightarrow> sorted_wrt (>) (rev (sort xs :: nat list))"
  by (simp add: sorted_wrt_rev strict_sorted_iff)

text \<open>The requests that stay in the batch, after removal.\<close>

lemma removal_ok:
  assumes run: "runner_ok ml mb mr"
    and fin: "rfold drop_finished (out_finished_req_ids so) ([], mr_batch mr) = Inr (removed0, b0)"
    and uns: "rfold drop_unscheduled (filter (\<lambda>rid. map_of (out_num_scheduled_tokens so) rid = None) (map fst (req_id_to_index b0))) (removed0, b0) = Inr (removed, b)"
  shows "removing ml mb (mr_requests mr) (removed, b)" "ib_max_num_reqs b = ib_max_num_reqs (mr_batch mr)"
    "map_of (req_id_to_index b) r = (if r \<in> set (out_finished_req_ids so) \<or> r \<notin> fst ` set (out_num_scheduled_tokens so) then None
       else map_of (req_id_to_index (mr_batch mr)) r)"
    "map_of (req_id_to_index b) r = Some i \<Longrightarrow> ib_rows b i = ib_rows (mr_batch mr) i"
proof -
  have "removing ml mb (mr_requests mr) ([], mr_batch mr)" using run by (simp add: removing_def runner_ok_def)
  note 1 = drop_loop_ok [OF fin this]
  note 2 = drop_loop_ok [OF drop_unscheduled_loop [OF uns] 1 [THEN conjunct1]]
  show "removing ml mb (mr_requests mr) (removed, b)" "ib_max_num_reqs b = ib_max_num_reqs (mr_batch mr)" using 1 2 by simp_all
  have idx0: "map_of (req_id_to_index b0) r = (if r \<in> set (out_finished_req_ids so) then None else map_of (req_id_to_index (mr_batch mr)) r)" for r
    using 1 by simp
  have idx: "map_of (req_id_to_index b) r = (if r \<in> set (filter (\<lambda>rid. map_of (out_num_scheduled_tokens so) rid = None) (map fst (req_id_to_index b0)))
      then None else map_of (req_id_to_index b0) r)" for r
    using 2 by simp
  show "map_of (req_id_to_index b) r = (if r \<in> set (out_finished_req_ids so) \<or> r \<notin> fst ` set (out_num_scheduled_tokens so) then None
       else map_of (req_id_to_index (mr_batch mr)) r)"
  proof (cases "map_of (req_id_to_index b0) r")
    case None
    then show ?thesis using idx [of r] idx0 [of r] by (auto split: if_splits)
  next
    case (Some i)
    then have "r \<in> set (map fst (req_id_to_index b0))" by (metis image_eqI map_of_SomeD fst_conv set_map)
    then have "r \<in> set (filter (\<lambda>rid. map_of (out_num_scheduled_tokens so) rid = None) (map fst (req_id_to_index b0))) \<longleftrightarrow> r \<notin> fst ` set (out_num_scheduled_tokens so)"
      by (simp add: map_of_eq_None_iff)
    then show ?thesis using idx [of r] idx0 [of r] Some by (auto split: if_splits)
  qed
  assume r: "map_of (req_id_to_index b) r = Some i"
  then have "ib_rows b i = ib_rows b0 i" "map_of (req_id_to_index b0) r = Some i" using 2 idx [of r] by (auto split: if_splits)
  then show "ib_rows b i = ib_rows (mr_batch mr) i" using 1 by simp
qed

lemma update_states_cases:
  assumes "update_states params seed so mr = Inr mr'"
  obtains removed0 b0 removed b1 reqs to_add b2 removed' b3 where
    "rfold drop_finished (out_finished_req_ids so) ([], mr_batch mr) = Inr (removed0, b0)"
    "rfold drop_unscheduled (filter (\<lambda>rid. map_of (out_num_scheduled_tokens so) rid = None) (map fst (req_id_to_index b0))) (removed0, b0) = Inr (removed, b1)"
    "rfold (update_cached (out_spec_decode_tokens so)) (scheduled_cached_reqs so)
       (add_new_states params seed (scheduled_new_reqs so) (fold AList.delete (out_finished_req_ids so) (mr_states mr)),
        map nrd_req_id (scheduled_new_reqs so), b1) = Inr (reqs, to_add, b2)"
    "rfold (add_next reqs) to_add (rev (sort removed), b2) = Inr (removed', b3)"
    "(if removed' \<noteq> [] then condense removed' b3 else Inr b3) = Inr (mr_batch mr')" "mr_states mr' = reqs"
proof -
  obtain removed0 b0 where 1: "rfold drop_finished (out_finished_req_ids so) ([], mr_batch mr) = Inr (removed0, b0)"
    using assms unfolding update_states_def Let_def by (auto simp only: rbind_Inr_iff split_paired_Ex)
  obtain removed b1 where 2: "rfold drop_unscheduled (filter (\<lambda>rid. map_of (out_num_scheduled_tokens so) rid = None) (map fst (req_id_to_index b0))) (removed0, b0) = Inr (removed, b1)"
    using assms 1 unfolding update_states_def Let_def by (auto simp only: rbind_Inr_iff rbind_simps split_paired_Ex prod.case)
  obtain reqs to_add b2 where 3: "rfold (update_cached (out_spec_decode_tokens so)) (scheduled_cached_reqs so)
       (add_new_states params seed (scheduled_new_reqs so) (fold AList.delete (out_finished_req_ids so) (mr_states mr)),
        map nrd_req_id (scheduled_new_reqs so), b1) = Inr (reqs, to_add, b2)"
    using assms 1 2 unfolding update_states_def Let_def by (auto simp only: rbind_Inr_iff rbind_simps split_paired_Ex prod.case)
  obtain removed' b3 where 4: "rfold (add_next reqs) to_add (rev (sort removed), b2) = Inr (removed', b3)"
    using assms 1 2 3 unfolding update_states_def Let_def by (auto simp only: rbind_Inr_iff rbind_simps split_paired_Ex prod.case)
  obtain b4 md where "(if removed' \<noteq> [] then condense removed' b3 else Inr b3) = Inr b4" "mr' = \<lparr>mr_states = reqs, mr_encoder_cache = mr_encoder_cache mr', mr_batch = b4, mr_metadata = md\<rparr>"
    using assms 1 2 3 4 unfolding update_states_def Let_def by (auto simp only: rbind_Inr_iff rbind_simps split_paired_Ex prod.case sum.inject model_runner.simps)
  then have "(if removed' \<noteq> [] then condense removed' b3 else Inr b3) = Inr (mr_batch mr')" "mr_states mr' = reqs" by (metis model_runner.select_convs(3), metis model_runner.select_convs(1))
  then show ?thesis using that [OF 1 2 3 4] by blast
qed

lemma batch_ok_kept: "batch_ok reqs b \<Longrightarrow> rows_kept b b' \<Longrightarrow> batch_ok reqs b'"
  unfolding batch_ok_def rows_kept_def by (metis option.exhaust)

lemma compaction_ok:
  assumes "(if removed \<noteq> [] then condense removed b else Inr b) = Inr b'" "updating ml mb (set removed) reqs b" "sorted_wrt (>) removed"
  shows "updating ml mb {} reqs b'" "ib_max_num_reqs b' = ib_max_num_reqs b" "map_of (req_id_to_index b') r = None \<longleftrightarrow> map_of (req_id_to_index b) r = None"
proof -
  have "slots_ok {} b' \<and> dims_ok ml mb b' \<and> rows_kept b b' \<and> ib_max_num_reqs b' = ib_max_num_reqs b"
  proof (cases "removed = []")
    case True
    then show ?thesis using assms(1,2) rows_kept_refl by (simp add: updating_def)
  next
    case False
    then show ?thesis using condense_ok [of removed b b' ml mb] assms by (simp add: updating_def)
  qed
  then show "updating ml mb {} reqs b'" "ib_max_num_reqs b' = ib_max_num_reqs b" "map_of (req_id_to_index b') r = None \<longleftrightarrow> map_of (req_id_to_index b) r = None"
    using assms(2) batch_ok_kept by (auto simp: updating_def rows_kept_def)
qed

abbreviation start_states :: "(string \<Rightarrow> worker_sampling) \<Rightarrow> (string \<Rightarrow> int) \<Rightarrow> scheduler_output \<Rightarrow> model_runner \<Rightarrow> (string \<times> cached_request_state) list" where
  "start_states params seed so mr \<equiv> add_new_states params seed (scheduled_new_reqs so) (fold AList.delete (out_finished_req_ids so) (mr_states mr))"

lemma start_states_other:
  "rid \<notin> nrd_req_id ` set (scheduled_new_reqs so) \<Longrightarrow> rid \<notin> set (out_finished_req_ids so) \<Longrightarrow>
   map_of (start_states params seed so mr) rid = mr_requests mr rid"
  by (subst new_states_other) (simp_all add: map_of_delete_all)

lemma batch_ok_states:
  "batch_ok reqs b \<Longrightarrow> (\<And>rid i. map_of (req_id_to_index b) rid = Some i \<Longrightarrow> reqs' rid = reqs rid) \<Longrightarrow> batch_ok reqs' b"
  by (simp add: batch_ok_def)

lemma message_ids:
  assumes "message_ok ml mb so mr"
  shows "distinct (map nrd_req_id (scheduled_new_reqs so))" "distinct (map crd_req_id (scheduled_cached_reqs so))"
    "nrd_req_id ` set (scheduled_new_reqs so) \<inter> crd_req_id ` set (scheduled_cached_reqs so) = {}"
    "fst ` set (out_num_scheduled_tokens so) = nrd_req_id ` set (scheduled_new_reqs so) \<union> crd_req_id ` set (scheduled_cached_reqs so)"
    "e \<in> set (scheduled_cached_reqs so) \<Longrightarrow> crd_req_id e \<notin> set (out_finished_req_ids so)"
  using assms by (auto simp: message_ok_def)

text \<open>After the removal, the states of the new requests are added and the entries of the others apply.\<close>

lemma removal_updating:
  assumes run: "runner_ok ml mb mr" and msg: "message_ok ml mb so mr"
    and fin: "rfold drop_finished (out_finished_req_ids so) ([], mr_batch mr) = Inr (removed0, b0)"
    and uns: "rfold drop_unscheduled (filter (\<lambda>rid. map_of (out_num_scheduled_tokens so) rid = None) (map fst (req_id_to_index b0))) (removed0, b0) = Inr (removed, b)"
  shows "rid \<in> nrd_req_id ` set (scheduled_new_reqs so) \<Longrightarrow> map_of (req_id_to_index b) rid = None"
    "updating ml mb (set removed) (map_of (start_states params seed so mr)) b"
    "\<forall>e \<in> set (scheduled_cached_reqs so). entry_ok ml mb so (map_of (start_states params seed so mr)) b e"
proof -
  note rem = removal_ok [OF run fin uns] and ids = message_ids [OF msg]
  have new_free: "map_of (req_id_to_index b) rid = None" if "rid \<in> nrd_req_id ` set (scheduled_new_reqs so)" for rid
    using msg that by (auto simp: rem(3) message_ok_def)
  then show "rid \<in> nrd_req_id ` set (scheduled_new_reqs so) \<Longrightarrow> map_of (req_id_to_index b) rid = None" .
  have keep: "rid \<notin> nrd_req_id ` set (scheduled_new_reqs so) \<and> rid \<notin> set (out_finished_req_ids so)"
    if "map_of (req_id_to_index b) rid = Some i" for rid i
    using that new_free rem(3) [of rid] by (auto split: if_splits)
  have r: "slots_ok (set removed) b" "dims_ok ml mb b" "batch_ok (mr_requests mr) b" using rem(1) by (simp_all add: removing_def)
  have "batch_ok (map_of (start_states params seed so mr)) b"
    by (rule batch_ok_states [OF r(3)], rule start_states_other) (use keep in blast)+
  moreover have "states_ok (map_of (fold AList.delete (out_finished_req_ids so) (mr_states mr)))"
    using run by (simp add: runner_ok_def states_ok_def map_of_delete_all)
  ultimately show "updating ml mb (set removed) (map_of (start_states params seed so mr)) b"
    using r new_states_ids by (simp add: updating_def)
  show "\<forall>e \<in> set (scheduled_cached_reqs so). entry_ok ml mb so (map_of (start_states params seed so mr)) b e"
  proof
    fix e assume e: "e \<in> set (scheduled_cached_reqs so)"
    have "map_of (start_states params seed so mr) (crd_req_id e) = mr_requests mr (crd_req_id e)"
      using ids(3,5) e by (intro start_states_other) auto
    then show "entry_ok ml mb so (map_of (start_states params seed so mr)) b e"
      using msg e rem(3) [of "crd_req_id e"] rem(4) by (auto simp: entry_ok_def message_ok_def split: if_splits)
  qed
qed

text \<open>After the update, every scheduled request is in the batch or waits to be added, and fits.\<close>

lemma states_after_update:
  assumes msg: "message_ok ml mb so mr" and free: "\<And>rid. rid \<in> nrd_req_id ` set (scheduled_new_reqs so) \<Longrightarrow> map_of (req_id_to_index b) rid = None"
    and inv: "updating ml mb H (map_of (start_states params seed so mr)) b"
    and entries: "\<forall>e \<in> set (scheduled_cached_reqs so). entry_ok ml mb so (map_of (start_states params seed so mr)) b e"
    and up: "rfold (update_cached (out_spec_decode_tokens so)) (scheduled_cached_reqs so)
       (start_states params seed so mr, map nrd_req_id (scheduled_new_reqs so), b) = Inr (reqs, to_add, b')"
  shows "updating ml mb H (map_of reqs) b'" "req_id_to_index b' = req_id_to_index b" "distinct to_add"
    "\<forall>rid \<in> set to_add. map_of (req_id_to_index b') rid = None \<and> fits ml mb (map_of reqs) rid"
    "set to_add = nrd_req_id ` set (scheduled_new_reqs so) \<union> {rid \<in> crd_req_id ` set (scheduled_cached_reqs so). map_of (req_id_to_index b) rid = None}"
    "d \<in> set (scheduled_new_reqs so) \<Longrightarrow> map_of reqs (nrd_req_id d) = Some (new_state params seed d)"
    "e \<in> set (scheduled_cached_reqs so) \<Longrightarrow> \<exists>c c'. mr_requests mr (crd_req_id e) = Some c \<and> update_state e c = Inr c' \<and> map_of reqs (crd_req_id e) = Some c'"
proof -
  note ids = message_ids [OF msg]
  have upd: "updating ml mb H (map_of reqs) b' \<and> req_id_to_index b' = req_id_to_index b \<and> ib_max_num_reqs b' = ib_max_num_reqs b \<and>
    to_add = map nrd_req_id (scheduled_new_reqs so) @ filter (\<lambda>rid. map_of (req_id_to_index b) rid = None) (map crd_req_id (scheduled_cached_reqs so)) \<and>
    (\<forall>rid. rid \<notin> crd_req_id ` set (scheduled_cached_reqs so) \<longrightarrow> map_of reqs rid = map_of (start_states params seed so mr) rid) \<and>
    (\<forall>d \<in> set (scheduled_cached_reqs so). \<exists>c c'. map_of (start_states params seed so mr) (crd_req_id d) = Some c \<and> update_state d c = Inr c' \<and>
       map_of reqs (crd_req_id d) = Some c' \<and> length (tokens_of c') \<le> ml \<and> length (cs_block_ids c') \<le> mb)"
    by (rule update_loop_ok [OF up inv entries ids(2)])
  show "updating ml mb H (map_of reqs) b'" and idx: "req_id_to_index b' = req_id_to_index b" using upd by simp_all
  show add: "set to_add = nrd_req_id ` set (scheduled_new_reqs so) \<union> {rid \<in> crd_req_id ` set (scheduled_cached_reqs so). map_of (req_id_to_index b) rid = None}"
    using upd by auto
  show "distinct to_add" using upd ids(1-3) by (auto simp: distinct_map)
  have new: "map_of reqs (nrd_req_id d) = Some (new_state params seed d)" if d: "d \<in> set (scheduled_new_reqs so)" for d
  proof -
    have "nrd_req_id d \<notin> crd_req_id ` set (scheduled_cached_reqs so)" using d ids(3) by auto
    then have "map_of reqs (nrd_req_id d) = map_of (start_states params seed so mr) (nrd_req_id d)" using upd by blast
    then show ?thesis using new_states_new [OF ids(1) d] by (rule trans)
  qed
  then show "d \<in> set (scheduled_new_reqs so) \<Longrightarrow> map_of reqs (nrd_req_id d) = Some (new_state params seed d)" .
  have "fits ml mb (map_of reqs) rid" if "rid \<in> set to_add" for rid
  proof (cases "rid \<in> nrd_req_id ` set (scheduled_new_reqs so)")
    case True
    then obtain d where d: "d \<in> set (scheduled_new_reqs so)" "rid = nrd_req_id d" by blast
    then have "length (nrd_prompt_token_ids d) \<le> ml" "length (nrd_block_ids d) \<le> mb" using msg by (simp_all add: message_ok_def)
    then show ?thesis using new [OF d(1)] d(2) by (simp add: fits_def new_state_def tokens_of_def Let_def)
  next
    case False
    then have "rid \<in> crd_req_id ` set (scheduled_cached_reqs so)" using that add by simp
    then show ?thesis using upd by (auto simp: fits_def)
  qed
  then show "\<forall>rid \<in> set to_add. map_of (req_id_to_index b') rid = None \<and> fits ml mb (map_of reqs) rid"
    using add free idx by auto
  assume e: "e \<in> set (scheduled_cached_reqs so)"
  have same: "map_of (start_states params seed so mr) (crd_req_id e) = mr_requests mr (crd_req_id e)"
    using ids(3,5) e by (intro start_states_other) auto
  show "\<exists>c c'. mr_requests mr (crd_req_id e) = Some c \<and> update_state e c = Inr c' \<and> map_of reqs (crd_req_id e) = Some c'"
    using bspec [OF upd [THEN conjunct2, THEN conjunct2, THEN conjunct2, THEN conjunct2, THEN conjunct2] e] unfolding same by blast
qed

lemma update_states_ok:
  assumes up: "update_states params seed so mr = Inr mr'" and run: "runner_ok ml mb mr" and msg: "message_ok ml mb so mr"
  shows "runner_ok ml mb mr'" "map_of (req_id_to_index (mr_batch mr')) r \<noteq> None \<longleftrightarrow> r \<in> fst ` set (out_num_scheduled_tokens so)"
    "d \<in> set (scheduled_new_reqs so) \<Longrightarrow> mr_requests mr' (nrd_req_id d) = Some (new_state params seed d)"
    "e \<in> set (scheduled_cached_reqs so) \<Longrightarrow> \<exists>c c'. mr_requests mr (crd_req_id e) = Some c \<and> update_state e c = Inr c' \<and> mr_requests mr' (crd_req_id e) = Some c'"
proof -
  obtain removed0 b0 removed b1 reqs to_add b2 removed' b3 where st:
    "rfold drop_finished (out_finished_req_ids so) ([], mr_batch mr) = Inr (removed0, b0)"
    "rfold drop_unscheduled (filter (\<lambda>rid. map_of (out_num_scheduled_tokens so) rid = None) (map fst (req_id_to_index b0))) (removed0, b0) = Inr (removed, b1)"
    "rfold (update_cached (out_spec_decode_tokens so)) (scheduled_cached_reqs so)
       (start_states params seed so mr, map nrd_req_id (scheduled_new_reqs so), b1) = Inr (reqs, to_add, b2)"
    "rfold (add_next reqs) to_add (rev (sort removed), b2) = Inr (removed', b3)"
    "(if removed' \<noteq> [] then condense removed' b3 else Inr b3) = Inr (mr_batch mr')" "mr_states mr' = reqs"
    using up by (rule update_states_cases)
  note rem = removal_ok [OF run st(1,2)]
  note upd = states_after_update [OF msg removal_updating [OF run msg st(1,2)] st(3)]
  have "sorted_wrt (>) (rev (sort removed))" using rem(1) sorted_desc by (simp add: removing_def)
  moreover have "updating ml mb (set (rev (sort removed))) (map_of reqs) b2" using upd(1) by simp
  ultimately have added: "updating ml mb (set removed') (map_of reqs) b3 \<and> sorted_wrt (>) removed' \<and> ib_max_num_reqs b3 = ib_max_num_reqs b2 \<and>
    (\<forall>r. map_of (req_id_to_index b3) r = None \<longleftrightarrow> map_of (req_id_to_index b2) r = None \<and> r \<notin> set to_add)"
    using add_loop_ok [OF st(4) _ _ upd(3,4)] by blast
  note comp = compaction_ok [OF st(5) added [THEN conjunct1]]
  show "runner_ok ml mb mr'" using comp(1) added st(6) by (simp add: runner_ok_def updating_def)
  have "map_of (req_id_to_index b1) r \<noteq> None \<or> r \<in> set to_add \<longleftrightarrow> r \<in> fst ` set (out_num_scheduled_tokens so)"
    using upd(5) message_ids(4,5) [OF msg] rem(3) [of r] by (auto split: if_splits)
  then show "map_of (req_id_to_index (mr_batch mr')) r \<noteq> None \<longleftrightarrow> r \<in> fst ` set (out_num_scheduled_tokens so)"
    using comp(3) [of r] added upd(2) by auto
  show "d \<in> set (scheduled_new_reqs so) \<Longrightarrow> mr_requests mr' (nrd_req_id d) = Some (new_state params seed d)" using upd(6) st(6) by simp
  show "e \<in> set (scheduled_cached_reqs so) \<Longrightarrow>
    \<exists>c c'. mr_requests mr (crd_req_id e) = Some c \<and> update_state e c = Inr c' \<and> mr_requests mr' (crd_req_id e) = Some c'" using upd(7) st(6) by simp
qed

section \<open>The first state\<close>

text \<open>The state of a worker that has just started.\<close>

definition runner_init :: "nat \<Rightarrow> nat \<Rightarrow> nat \<Rightarrow> nat \<Rightarrow> model_runner result" where
  "runner_init max_reqs max_len max_blocks vocab =
     (let b = input_batch_init max_reqs max_len max_blocks vocab
      in rbind (make_sampling_metadata b) (\<lambda>md. Inr \<lparr>mr_states = [], mr_encoder_cache = [], mr_batch = b, mr_metadata = md\<rparr>))"

lemma runner_init_ok: "runner_init max_reqs max_len max_blocks vocab = Inr mr \<Longrightarrow> runner_ok max_len max_blocks mr"
  by (auto simp: runner_init_def Let_def runner_ok_def input_batch_init_def block_table_init_def slots_ok_def dims_ok_def batch_ok_def states_ok_def)

end
