(* ===== verification/Worker_Progress.thy ===== *)
theory Worker_Progress
  imports Model_Runner
begin

text \<open>
  The update of the worker does not raise, and its result follows the message of the scheduler.
\<close>

section \<open>Side tables\<close>

text \<open>
  The tables that removal, addition and the sampling metadata rely on: the requests of an adapter that is in use are listed, the
  mask of allowed tokens exists once a request needs it, the sets of requests with penalties name requests of the batch.
\<close>

definition lora_ok :: "input_batch \<Rightarrow> bool" where
  "lora_ok b \<longleftrightarrow> (\<forall>rid i l. map_of (req_id_to_index b) rid = Some i \<longrightarrow> l = row_lora (ib_rows b i) \<longrightarrow> l \<noteq> 0 \<longrightarrow>
     (\<exists>ids. map_of (lora_id_to_request_ids b) l = Some ids \<and> rid \<in> set ids) \<and> map_of (lora_id_to_lora_request b) l \<noteq> None)"

definition penalty_reqs :: "input_batch \<Rightarrow> string set" where
  "penalty_reqs b = set (presence_penalties_reqs b) \<union> set (frequency_penalties_reqs b) \<union> set (repetition_penalties_reqs b)"

definition side_ok :: "nat \<Rightarrow> input_batch \<Rightarrow> bool" where
  "side_ok vocab b \<longleftrightarrow> lora_ok b \<and> vocab_size b = vocab \<and> bt_max_num_reqs (ib_block_table b) = ib_max_num_reqs b \<and>
     length (ib_req_ids b) \<le> ib_max_num_reqs b \<and> (has_allowed_token_ids b = [] \<or> mask_allocated b) \<and> penalty_reqs b \<subseteq> dom (map_of (req_id_to_index b))"

lemma lora_okD:
  "lora_ok b \<Longrightarrow> map_of (req_id_to_index b) rid = Some i \<Longrightarrow> row_lora (ib_rows b i) \<noteq> 0 \<Longrightarrow>
   (\<exists>ids. map_of (lora_id_to_request_ids b) (row_lora (ib_rows b i)) = Some ids \<and> rid \<in> set ids) \<and>
   map_of (lora_id_to_lora_request b) (row_lora (ib_rows b i)) \<noteq> None"
  by (simp add: lora_ok_def)

text \<open>Requests listed under an adapter in both tables stay listed in \<open>b'\<close>, except for \<open>rid\<close>.\<close>

definition lora_kept :: "string set \<Rightarrow> input_batch \<Rightarrow> input_batch \<Rightarrow> bool" where
  "lora_kept R b b' \<longleftrightarrow> (\<forall>r l ids. r \<notin> R \<longrightarrow> map_of (lora_id_to_request_ids b) l = Some ids \<longrightarrow> r \<in> set ids \<longrightarrow> map_of (lora_id_to_lora_request b) l \<noteq> None \<longrightarrow>
     (\<exists>ids'. map_of (lora_id_to_request_ids b') l = Some ids' \<and> r \<in> set ids') \<and> map_of (lora_id_to_lora_request b') l \<noteq> None)"

lemma lora_ok_kept:
  assumes "lora_ok b" "lora_kept R b b'"
    "\<And>r j. map_of (req_id_to_index b') r = Some j \<Longrightarrow> r \<notin> R \<Longrightarrow> \<exists>i. map_of (req_id_to_index b) r = Some i \<and> row_lora (ib_rows b' j) = row_lora (ib_rows b i)"
    "\<And>r j. map_of (req_id_to_index b') r = Some j \<Longrightarrow> r \<in> R \<Longrightarrow> row_lora (ib_rows b' j) \<noteq> 0 \<Longrightarrow>
       (\<exists>ids. map_of (lora_id_to_request_ids b') (row_lora (ib_rows b' j)) = Some ids \<and> r \<in> set ids) \<and>
       map_of (lora_id_to_lora_request b') (row_lora (ib_rows b' j)) \<noteq> None"
  shows "lora_ok b'"
  unfolding lora_ok_def
proof (intro allI impI)
  fix r j l assume r: "map_of (req_id_to_index b') r = Some j" and l: "l = row_lora (ib_rows b' j)" "l \<noteq> 0"
  show "(\<exists>ids. map_of (lora_id_to_request_ids b') l = Some ids \<and> r \<in> set ids) \<and> map_of (lora_id_to_lora_request b') l \<noteq> None"
  proof (cases "r \<in> R")
    case True
    then show ?thesis using assms(4) [OF r True] l by simp
  next
    case False
    then obtain i where "map_of (req_id_to_index b) r = Some i" "l = row_lora (ib_rows b i)" using assms(3) [OF r] l(1) by auto
    then show ?thesis using lora_okD [OF assms(1)] l(2) False assms(2) by (metis lora_kept_def)
  qed
qed

section \<open>Removing\<close>

lemma remove_lora_total:
  assumes "row_lora (ib_rows b i) \<noteq> 0 \<Longrightarrow> map_of (lora_id_to_request_ids b) (row_lora (ib_rows b i)) \<noteq> None \<and> map_of (lora_id_to_lora_request b) (row_lora (ib_rows b i)) \<noteq> None"
  obtains b' where "remove_lora rid i b = Inr b'" "lora_kept {rid} b b'" "has_allowed_token_ids b' = has_allowed_token_ids b" "mask_allocated b' = mask_allocated b"
    "penalty_reqs b' = penalty_reqs b"
proof (cases "row_lora (ib_rows b i) = 0")
  case True
  then show ?thesis using that by (simp add: remove_lora_def lora_kept_def)
next
  case False
  then obtain ids where ids: "map_of (lora_id_to_request_ids b) (row_lora (ib_rows b i)) = Some ids" "map_of (lora_id_to_lora_request b) (row_lora (ib_rows b i)) \<noteq> None"
    using assms by auto
  show ?thesis
  proof (cases "removeAll rid ids = []")
    case True
    then have "\<forall>r \<in> set ids. r = rid" by (auto simp: removeAll_filter_not_eq filter_empty_conv)
    moreover have "remove_lora rid i b = Inr (upd_row i (\<lambda>r. r\<lparr>row_lora := 0\<rparr>) (b\<lparr>lora_id_to_request_ids := AList.delete (row_lora (ib_rows b i)) (lora_id_to_request_ids b),
        lora_id_to_lora_request := AList.delete (row_lora (ib_rows b i)) (lora_id_to_lora_request b)\<rparr>))"
      using False True ids by (simp add: remove_lora_def Let_def)
    ultimately show ?thesis using ids by (intro that) (assumption, auto simp: lora_kept_def upd_row_def penalty_reqs_def map_of_delete)
  next
    case ne: False
    then have "remove_lora rid i b = Inr (upd_row i (\<lambda>r. r\<lparr>row_lora := 0\<rparr>)
        (b\<lparr>lora_id_to_request_ids := AList.update (row_lora (ib_rows b i)) (removeAll rid ids) (lora_id_to_request_ids b)\<rparr>))"
      using False ids by (simp add: remove_lora_def Let_def)
    then show ?thesis using ids by (intro that) (assumption, auto simp: lora_kept_def upd_row_def penalty_reqs_def update_conv')
  qed
qed

lemma remove_request_total:
  assumes "slots_ok H b" "side_ok V b"
  obtains b' where "batch_remove_request rid b = Inr (map_of (req_id_to_index b) rid, b')" "side_ok V b'"
proof (cases "map_of (req_id_to_index b) rid")
  case None
  then show ?thesis using that assms(2) by (simp add: batch_remove_request_def)
next
  case (Some i)
  have m: "map_of (req_id_to_index b) r = Some j \<longleftrightarrow> j < length (ib_req_ids b) \<and> ib_req_ids b ! j = Some r" for r j
    using assms(1) by (simp add: slots_ok_def)
  define b1 where "b1 = discard_sampling rid i (b\<lparr>req_id_to_index := AList.delete rid (req_id_to_index b), ib_req_ids := (ib_req_ids b)[i := None],
    req_output_token_ids := (req_output_token_ids b)[i := None]\<rparr>)"
  have b1: "lora_id_to_request_ids b1 = lora_id_to_request_ids b" "lora_id_to_lora_request b1 = lora_id_to_lora_request b" "ib_rows b1 = ib_rows b"
    "has_allowed_token_ids b1 = has_allowed_token_ids b" "mask_allocated b1 = mask_allocated b" "penalty_reqs b1 = penalty_reqs b - {rid}"
    "vocab_size b1 = vocab_size b" "ib_max_num_reqs b1 = ib_max_num_reqs b" "ib_block_table b1 = ib_block_table b"
    by (auto simp: b1_def discard_sampling_def penalty_reqs_def)
  have side: "lora_ok b" "vocab_size b = V" "bt_max_num_reqs (ib_block_table b) = ib_max_num_reqs b" "has_allowed_token_ids b = [] \<or> mask_allocated b"
    "penalty_reqs b \<subseteq> dom (map_of (req_id_to_index b))" "length (ib_req_ids b) \<le> ib_max_num_reqs b" using assms(2) by (simp_all add: side_ok_def)
  have "row_lora (ib_rows b1 i) \<noteq> 0 \<Longrightarrow> map_of (lora_id_to_request_ids b1) (row_lora (ib_rows b1 i)) \<noteq> None \<and> map_of (lora_id_to_lora_request b1) (row_lora (ib_rows b1 i)) \<noteq> None"
    using lora_okD [OF side(1) Some] by (auto simp: b1)
  then obtain b2 where b2: "remove_lora rid i b1 = Inr b2" "lora_kept {rid} b1 b2" "has_allowed_token_ids b2 = has_allowed_token_ids b1" "mask_allocated b2 = mask_allocated b1"
    "penalty_reqs b2 = penalty_reqs b1" by (rule remove_lora_total)
  note sh = remove_lora_shape [OF b2(1), THEN conjunct1, unfolded same_shape_def]
  define b3 where "b3 = (upd_row i (\<lambda>r. r\<lparr>row_logit_bias := None, row_allowed_mask := (if mask_allocated b2 then replicate (vocab_size b2) False else row_allowed_mask r)\<rparr>) b2)
    \<lparr>has_allowed_token_ids := removeAll rid (has_allowed_token_ids b2), ib_bad_words := aset (ib_bad_words b2) i None\<rparr>"
  have rem: "batch_remove_request rid b = Inr (Some i, b3)"
  proof -
    have "i < length (ib_req_ids b)" "req_output_token_ids b = ib_req_ids b" using Some assms(1) by (simp_all add: slots_ok_def)
    then show ?thesis using b2(1) by (simp add: batch_remove_request_def Some b1_def b3_def py_set_def)
  qed
  note f = remove_request_frame [OF rem]
  have "lora_kept {rid} b b3" using b2(2) by (simp add: lora_kept_def b1 b3_def upd_row_def)
  moreover have "map_of (req_id_to_index b) r = Some j \<and> row_lora (ib_rows b3 j) = row_lora (ib_rows b j)"
    if "map_of (req_id_to_index b3) r = Some j" "r \<notin> {rid}" for r j
    using that f(7) slots_inj [OF assms(1) Some, of r] by (cases "j = i") (auto simp: f(4) map_of_delete)
  ultimately have "lora_ok b3" by (intro lora_ok_kept [OF side(1)]) (auto simp: f(4) map_of_delete)
  moreover have "penalty_reqs b3 \<subseteq> dom (map_of (req_id_to_index b3))"
  proof -
    have p: "penalty_reqs b3 = penalty_reqs b - {rid}" using b2(5) b1(6) by (simp add: b3_def penalty_reqs_def upd_row_def)
    have d: "dom (map_of (req_id_to_index b3)) = dom (map_of (req_id_to_index b)) - {rid}" by (auto simp: f(4) map_of_delete split: if_splits)
    show ?thesis unfolding p d by (rule Diff_mono [OF side(5) order_refl])
  qed
  moreover have "has_allowed_token_ids b3 = [] \<or> mask_allocated b3" using side(4) b2(3,4) b1(4,5) by (auto simp: b3_def upd_row_def)
  ultimately have "side_ok V b3" using side(2,3,6) f(2,5,6) sh b1(7) by (simp add: side_ok_def) (simp add: b3_def upd_row_def)
  then show ?thesis using that rem Some by simp
qed

lemma drop_finished_total:
  assumes "removing ml mb reqs st" "side_ok V (snd st)"
  shows "\<exists>st'. drop_finished rid st = Inr st' \<and> removing ml mb reqs st' \<and> side_ok V (snd st')"
proof -
  obtain removed b where st: "st = (removed, b)" by (cases st)
  have "slots_ok (set removed) b" "side_ok V b" using assms by (simp_all add: removing_def st)
  then obtain b' where "batch_remove_request rid b = Inr (map_of (req_id_to_index b) rid, b')" "side_ok V b'" by (rule remove_request_total)
  then have "drop_finished rid st = Inr (case map_of (req_id_to_index b) rid of None \<Rightarrow> removed | Some i \<Rightarrow> removed @ [i], b')"
    by (simp add: drop_finished_def st)
  then show ?thesis using drop_finished_ok [OF _ assms(1)] \<open>side_ok V b'\<close> by fastforce
qed

lemma drop_loop_total:
  assumes "removing ml mb reqs st" "side_ok V (snd st)"
  shows "\<exists>st'. rfold drop_finished rids st = Inr st' \<and> removing ml mb reqs st' \<and> side_ok V (snd st')"
  by (rule rfold_total) (use assms drop_finished_total in blast)+

lemma drop_unscheduled_total:
  assumes "removing ml mb reqs st" "side_ok V (snd st)" "distinct rids" "set rids \<subseteq> dom (map_of (req_id_to_index (snd st)))"
  shows "\<exists>st'. rfold drop_unscheduled rids st = Inr st' \<and> removing ml mb reqs st' \<and> side_ok V (snd st')"
  using assms
proof (induction rids arbitrary: st)
  case (Cons rid rids)
  obtain st1 where st1: "drop_finished rid st = Inr st1" "removing ml mb reqs st1" "side_ok V (snd st1)"
    using drop_finished_total [OF Cons.prems(1,2)] by blast
  obtain i where i: "map_of (req_id_to_index (snd st)) rid = Some i" using Cons.prems(4) by auto
  have "drop_unscheduled rid st = Inr st1"
  proof -
    have "i' = Some i" if "batch_remove_request rid (snd st) = Inr (i', b')" for i' b'
      using that remove_request_None [of rid "snd st" b'] remove_request_frame(1) [of rid "snd st" _ b'] i by (cases i') auto
    then show ?thesis using st1(1) by (cases st) (auto simp: drop_finished_def drop_unscheduled_def split: prod.splits option.splits)
  qed
  moreover have "set rids \<subseteq> dom (map_of (req_id_to_index (snd st1)))"
  proof
    fix r assume "r \<in> set rids"
    then have "r \<noteq> rid" "map_of (req_id_to_index (snd st)) r \<noteq> None" using Cons.prems(3,4) by auto
    then show "r \<in> dom (map_of (req_id_to_index (snd st1)))" using drop_finished_ok [OF st1(1) Cons.prems(1)] by auto
  qed
  ultimately show ?case using Cons.IH [OF st1(2,3)] Cons.prems(3) by simp
qed simp

section \<open>Updating\<close>

lemma append_row_total:
  assumes "i < bt_max_num_reqs t" "blocks_ok old t i" "length old + length ids \<le> length (bt_np t i)"
  shows "\<exists>t'. append_row ids i t = Inr t' \<and> bt_max_num_reqs t' = bt_max_num_reqs t"
proof -
  have "np_assign (int (length old)) (int (length old + length ids)) ids (bt_np t i) = Inr (old @ ids @ drop (length old + length ids) (bt_np t i))"
    using assms(2,3) by (subst np_assign_fits) (auto simp: blocks_ok_def nat_int_add)
  then show ?thesis using assms(1,2) by (auto simp: append_row_def blocks_ok_def Let_def)
qed

lemma update_state_total: "cached_ok ml mb spec d c \<Longrightarrow> \<exists>c'. update_state d c = Inr c' \<and> cs_sampling c' = cs_sampling c"
  by (auto simp: cached_ok_def update_state_def Let_def cs_num_tokens_def tokens_of_def)

lemma update_row_total:
  assumes ok: "slot_ok c b i" "dims_ok ml mb b" and side: "side_ok V b" "i < ib_max_num_reqs b" and c: "cached_ok ml mb spec d c" "\<not> resumed_from_preemption d"
  obtains b' where "update_row spec d i b = Inr b'" "side_ok V b'"
proof -
  define n where "n = nat (crd_num_computed_tokens d)"
  define new where "new = crd_new_token_ids d"
  define row where "row = row_token_ids (ib_rows b i)"
  have n: "crd_num_computed_tokens d = int n" "n + length new + length spec \<le> ml" "length (cs_block_ids c @ new_block_ids d) \<le> mb"
    using c by (auto simp: cached_ok_def Let_def n_def new_def)
  have dims: "length row = ml" "length (bt_np (ib_block_table b) i) = mb" using ok(2) by (simp_all add: dims_ok_def row_def)
  have "\<exists>t. append_row (new_block_ids d) i (ib_block_table b) = Inr t \<and> bt_max_num_reqs t = bt_max_num_reqs (ib_block_table b)"
    using ok(1) side dims(2) n(3) by (intro append_row_total [where old = "cs_block_ids c"]) (simp_all add: side_ok_def slot_ok_def)
  then obtain t where t: "append_row (new_block_ids d) i (ib_block_table b) = Inr t" "bt_max_num_reqs t = bt_max_num_reqs (ib_block_table b)" by blast
  obtain row1 where r1: "np_assign (int n) (int n + int (length new)) new row = Inr row1"
    using n dims np_assign_fits [of new "int n + int (length new)" "int n" row] by auto
  then have len: "length row1 = ml" using np_assign_length dims(1) by metis
  obtain row2 where r2: "(if spec = [] then Inr row1 else np_assign (int n + int (length new)) (int n + int (length new) + int (length spec)) spec row1) = Inr row2"
    using n len by (cases "spec = []") (auto simp: np_assign_fits)
  have "\<exists>b'. update_row spec d i b = Inr b' \<and> side_ok V b'"
    using t r1 r2 side(1) by (auto simp: update_row_def Let_def n(1) side_ok_def lora_ok_def upd_row_def penalty_reqs_def simp flip: new_def row_def)
  then show ?thesis using that by blast
qed

definition params_ok :: "nat \<Rightarrow> (string \<Rightarrow> cached_request_state option) \<Rightarrow> bool" where
  "params_ok vocab reqs \<longleftrightarrow> (\<forall>rid c ts. reqs rid = Some c \<longrightarrow> allowed_token_ids (cs_sampling c) = Some ts \<longrightarrow> (\<forall>t \<in> set ts. - int vocab \<le> t \<and> t < int vocab))"

lemma update_cached_total:
  assumes inv: "updating ml mb H (map_of reqs) b" and e: "entry_ok ml mb so (map_of reqs) b d"
    and side: "side_ok V b" "params_ok V (map_of reqs)" and known: "map_of reqs (crd_req_id d) \<noteq> None"
  shows "\<exists>reqs' to_add' b'. update_cached (out_spec_decode_tokens so) d (reqs, to_add, b) = Inr (reqs', to_add', b') \<and> side_ok V b' \<and> params_ok V (map_of reqs')"
proof -
  define rid where "rid = crd_req_id d"
  obtain c where c: "map_of reqs rid = Some c" using known by (auto simp: rid_def)
  have cok: "cached_ok ml mb (spec_of so rid) d c" using e c by (simp add: entry_ok_def rid_def)
  obtain c' where c': "update_state d c = Inr c'" "cs_sampling c' = cs_sampling c" using update_state_total [OF cok] by blast
  have par: "params_ok V (map_of (AList.update rid c' reqs))" using side(2) c c'(2) by (auto simp: params_ok_def update_conv')
  show ?thesis
  proof (cases "map_of (req_id_to_index b) rid")
    case None
    then show ?thesis using c c'(1) par side(1) by (simp add: update_cached_def Let_def rid_def)
  next
    case (Some i)
    have inv': "slots_ok H b" "dims_ok ml mb b" "batch_ok (map_of reqs) b" using inv by (simp_all add: updating_def)
    have "slot_ok c b i" using inv'(3) Some c by (metis batch_ok_def option.inject)
    moreover have "i < ib_max_num_reqs b" using Some inv'(1) side(1) by (auto simp: slots_ok_def side_ok_def)
    moreover have "\<not> resumed_from_preemption d" using e Some by (simp add: entry_ok_def rid_def)
    ultimately obtain b' where "update_row (spec_of so rid) d i b = Inr b'" "side_ok V b'"
      using update_row_total [OF _ inv'(2) side(1) _ cok] by blast
    then show ?thesis using c c'(1) par Some by (auto simp: update_cached_def Let_def spec_of_def simp flip: rid_def)
  qed
qed

lemma update_loop_total:
  assumes "updating ml mb H (map_of reqs) b" "\<forall>d \<in> set ds. entry_ok ml mb so (map_of reqs) b d" "distinct (map crd_req_id ds)"
    "side_ok V b" "params_ok V (map_of reqs)" "\<forall>d \<in> set ds. map_of reqs (crd_req_id d) \<noteq> None"
  shows "\<exists>reqs' to_add' b'. rfold (update_cached (out_spec_decode_tokens so)) ds (reqs, to_add, b) = Inr (reqs', to_add', b') \<and>
    side_ok V b' \<and> params_ok V (map_of reqs')"
  using assms
proof (induction ds arbitrary: reqs to_add b)
  case (Cons d ds)
  have e: "entry_ok ml mb so (map_of reqs) b d" "map_of reqs (crd_req_id d) \<noteq> None" using Cons.prems(2,6) by simp_all
  obtain reqs1 to_add1 b1 where 1: "update_cached (out_spec_decode_tokens so) d (reqs, to_add, b) = Inr (reqs1, to_add1, b1)" "side_ok V b1" "params_ok V (map_of reqs1)"
    using update_cached_total [OF Cons.prems(1) e(1) Cons.prems(4,5) e(2)] by blast
  obtain c' where s: "reqs1 = AList.update (crd_req_id d) c' reqs" "updating ml mb H (map_of reqs1) b1" "req_id_to_index b1 = req_id_to_index b"
    "\<forall>r i. r \<noteq> crd_req_id d \<longrightarrow> map_of (req_id_to_index b) r = Some i \<longrightarrow> ib_rows b1 i = ib_rows b i"
    using 1(1) Cons.prems(1) e(1) by (rule update_cached_ok) blast
  have new: "crd_req_id x \<noteq> crd_req_id d" if "x \<in> set ds" for x using Cons.prems(3) that by (metis distinct.simps(2) imageI list.simps(9) set_map)
  have "entry_ok ml mb so (map_of reqs1) b1 x" if "x \<in> set ds" for x
    using Cons.prems(2) new [OF that] that s(1,3,4) by (auto simp: entry_ok_def update_conv')
  then have "\<forall>x \<in> set ds. entry_ok ml mb so (map_of reqs1) b1 x" ..
  moreover have "\<forall>x \<in> set ds. map_of reqs1 (crd_req_id x) \<noteq> None" using Cons.prems(6) by (simp add: s(1) update_conv')
  ultimately show ?case using Cons.IH [OF s(2) _ _ 1(2,3), where to_add = to_add1] Cons.prems(3) 1(1) by simp
qed simp

section \<open>Adding\<close>

lemma clear_mask_total: "- int (length m) \<le> t \<Longrightarrow> t < int (length m) \<Longrightarrow> \<exists>m'. clear_mask t m = Inr m' \<and> length m' = length m"
  by (auto simp: clear_mask_def Let_def)

lemma clear_all_total:
  assumes "\<forall>t \<in> set ts. - int n \<le> t \<and> t < int n"
  shows "\<exists>m. rfold clear_mask ts (replicate n True) = Inr m"
proof -
  have "\<exists>m. rfold clear_mask ts (replicate n True) = Inr m \<and> length m = n"
    by (rule rfold_total) (use assms clear_mask_total in \<open>auto\<close>)
  then show ?thesis by blast
qed

text \<open>The options and the numeric parameters leave the tables of adapters alone.\<close>

definition options_frame :: "input_batch \<Rightarrow> input_batch \<Rightarrow> bool" where
  "options_frame b b' \<longleftrightarrow> lora_id_to_request_ids b' = lora_id_to_request_ids b \<and> lora_id_to_lora_request b' = lora_id_to_lora_request b \<and>
     penalty_reqs b' = penalty_reqs b \<and> (has_allowed_token_ids b = [] \<or> mask_allocated b \<longrightarrow> has_allowed_token_ids b' = [] \<or> mask_allocated b')"

lemma options_frame_trans: "options_frame b b' \<Longrightarrow> options_frame b' b'' \<Longrightarrow> options_frame b b''"
  by (auto simp: options_frame_def)

lemma add_options_total:
  assumes "\<And>ts. allowed_token_ids (cs_sampling c) = Some ts \<Longrightarrow> \<forall>t \<in> set ts. - int (vocab_size b) \<le> t \<and> t < int (vocab_size b)"
  shows "\<exists>b'. add_options c i b = Inr b' \<and> options_frame b b'"
proof -
  define p where "p = cs_sampling c"
  define b1 where "b1 = b\<lparr>ib_min_tokens := (if min_tokens p \<noteq> 0 then aset (ib_min_tokens b) i (Some (min_tokens p, all_stop_token_ids p)) else ib_min_tokens b),
    ib_generators := (if cs_generator c \<noteq> None then aset (ib_generators b) i (cs_generator c) else ib_generators b),
    num_logprobs := (case logprobs p of None \<Rightarrow> num_logprobs b | Some n \<Rightarrow> AList.update (cs_req_id c) n (num_logprobs b)),
    num_prompt_logprobs := (case ws_prompt_logprobs p of None \<Rightarrow> num_prompt_logprobs b | Some n \<Rightarrow> AList.update (cs_req_id c) n (num_prompt_logprobs b))\<rparr>"
  define b2 where "b2 = (if logit_bias p \<noteq> None then upd_row i (\<lambda>r. r\<lparr>row_logit_bias := logit_bias p\<rparr>) b1 else b1)"
  have f2: "options_frame b b2" "vocab_size b2 = vocab_size b" by (simp_all add: options_frame_def b2_def b1_def upd_row_def penalty_reqs_def)
  have "\<exists>b3. (case allowed_token_ids p of Some (t # ts) \<Rightarrow>
             rbind (rfold clear_mask (t # ts) (replicate (vocab_size b2) True)) (\<lambda>m.
               Inr (upd_row i (\<lambda>r. r\<lparr>row_allowed_mask := m\<rparr>) (b2\<lparr>has_allowed_token_ids := List.insert (cs_req_id c) (has_allowed_token_ids b2), mask_allocated := True\<rparr>)))
           | _ \<Rightarrow> Inr b2) = Inr b3 \<and> options_frame b2 b3"
  proof (cases "allowed_token_ids p")
    case (Some us)
    show ?thesis
    proof (cases us)
      case (Cons t ts)
      obtain m where "rfold clear_mask (t # ts) (replicate (vocab_size b2) True) = Inr m"
        using clear_all_total [of "t # ts" "vocab_size b2"] assms [of us] Some Cons f2(2) by (auto simp: p_def simp del: rfold.simps)
      then show ?thesis using Some Cons by (simp add: options_frame_def upd_row_def penalty_reqs_def del: rfold.simps)
    qed (simp add: Some options_frame_def)
  qed (simp add: options_frame_def)
  then obtain b3 where b3: "(case allowed_token_ids p of Some (t # ts) \<Rightarrow>
             rbind (rfold clear_mask (t # ts) (replicate (vocab_size b2) True)) (\<lambda>m.
               Inr (upd_row i (\<lambda>r. r\<lparr>row_allowed_mask := m\<rparr>) (b2\<lparr>has_allowed_token_ids := List.insert (cs_req_id c) (has_allowed_token_ids b2), mask_allocated := True\<rparr>)))
           | _ \<Rightarrow> Inr b2) = Inr b3" "options_frame b2 b3" by blast
  define b4 where "b4 = (case bad_words_token_ids p of Some (w # ws) \<Rightarrow> b3\<lparr>ib_bad_words := aset (ib_bad_words b3) i (Some (w # ws))\<rparr> | _ \<Rightarrow> b3)"
  have "add_options c i b = Inr b4"
    unfolding add_options_def Let_def by (fold p_def, fold b1_def, fold b2_def) (simp only: b3(1) rbind_simps b4_def)
  moreover have "options_frame b3 b4" by (simp add: b4_def options_frame_def penalty_reqs_def split: option.splits list.splits)
  then have "options_frame b b4" using options_frame_trans [OF f2(1) options_frame_trans [OF b3(2)]] by blast
  ultimately show ?thesis by blast
qed

lemma take_slot_total:
  assumes "slots_ok H b" "i \<in> H \<or> i = length (ib_req_ids b)"
  obtains ids where "take_slot rid i b = Inr (b\<lparr>ib_req_ids := ids, req_output_token_ids := ids, req_id_to_index := AList.update rid i (req_id_to_index b)\<rparr>)"
    "length ids = max (length (ib_req_ids b)) (Suc i)"
  using assms by (cases "i = length (ib_req_ids b)") (auto simp: take_slot_def slots_ok_def py_set_def)

lemma add_tokens_total:
  assumes "length (tokens_of c) \<le> length (row_token_ids r)"
  shows "\<exists>r'. add_tokens c r = Inr r'"
proof -
  define n where "n = length (cs_prompt_token_ids c)"
  have a: "np_assign 0 (int n) (cs_prompt_token_ids c) (row_token_ids r) = Inr (cs_prompt_token_ids c @ drop n (row_token_ids r))"
    using assms(1) by (subst np_assign_fits) (auto simp: n_def tokens_of_def)
  have "np_assign (int n) (int (n + length (cs_output_token_ids c))) (cs_output_token_ids c) (cs_prompt_token_ids c @ drop n (row_token_ids r)) =
    Inr (tokens_of c @ drop (length (tokens_of c)) (row_token_ids r))"
    using assms(1) by (subst np_assign_fits) (auto simp: n_def tokens_of_def nat_int_add add.commute)
  with a show ?thesis by (simp add: add_tokens_def Let_def flip: n_def)
qed

lemma add_row_total:
  assumes "i < bt_max_num_reqs t" "length ids \<le> length (bt_np t i)"
  shows "\<exists>t'. add_row ids i t = Inr t' \<and> bt_max_num_reqs t' = bt_max_num_reqs t"
  using append_row_total [of i "t\<lparr>bt_counts := aset (bt_counts t) i 0\<rparr>" "[]" ids] assms by (simp add: add_row_def blocks_ok_def)

lemma add_sampling_side:
  "lora_id_to_request_ids (add_sampling rid i p b) = lora_id_to_request_ids b" "lora_id_to_lora_request (add_sampling rid i p b) = lora_id_to_lora_request b"
  "has_allowed_token_ids (add_sampling rid i p b) = has_allowed_token_ids b" "mask_allocated (add_sampling rid i p b) = mask_allocated b"
  "penalty_reqs (add_sampling rid i p b) \<subseteq> insert rid (penalty_reqs b)"
  by (auto simp: add_sampling_def upd_row_def Let_def penalty_reqs_def)

lemma batch_add_lora_side:
  assumes "b' = batch_add_lora rid i lora b"
  shows "lora_kept {} b b'" "has_allowed_token_ids b' = has_allowed_token_ids b" "mask_allocated b' = mask_allocated b" "penalty_reqs b' = penalty_reqs b"
    "row_lora (ib_rows b' i) \<noteq> 0 \<Longrightarrow> (\<exists>ids. map_of (lora_id_to_request_ids b') (row_lora (ib_rows b' i)) = Some ids \<and> rid \<in> set ids) \<and>
       map_of (lora_id_to_lora_request b') (row_lora (ib_rows b' i)) \<noteq> None"
  by (auto simp: assms batch_add_lora_def upd_row_def Let_def penalty_reqs_def lora_kept_def update_conv' split: option.splits)

lemma batch_add_total:
  assumes slots: "slots_ok H b" and dims: "dims_ok ml mb b" and side: "side_ok V b"
    and c: "length (tokens_of c) \<le> ml" "length (cs_block_ids c) \<le> mb" "map_of (req_id_to_index b) (cs_req_id c) = None"
      "\<And>ts. allowed_token_ids (cs_sampling c) = Some ts \<Longrightarrow> \<forall>t \<in> set ts. - int V \<le> t \<and> t < int V"
    and i: "i \<in> H \<or> i = length (ib_req_ids b)" "i < ib_max_num_reqs b" "i = (case idx of None \<Rightarrow> num_reqs b | Some i \<Rightarrow> i)"
  shows "\<exists>b'. batch_add_request c idx b = Inr b' \<and> side_ok V b'"
proof -
  define rid where "rid = cs_req_id c"
  have sd: "lora_ok b" "vocab_size b = V" "bt_max_num_reqs (ib_block_table b) = ib_max_num_reqs b" "has_allowed_token_ids b = [] \<or> mask_allocated b"
    "penalty_reqs b \<subseteq> dom (map_of (req_id_to_index b))" "length (ib_req_ids b) \<le> ib_max_num_reqs b" using side by (simp_all add: side_ok_def)
  obtain ids where t: "take_slot rid i b = Inr (b\<lparr>ib_req_ids := ids, req_output_token_ids := ids, req_id_to_index := AList.update rid i (req_id_to_index b)\<rparr>)"
    "length ids = max (length (ib_req_ids b)) (Suc i)" using slots i(1) by (rule take_slot_total)
  define b1 where "b1 = b\<lparr>ib_req_ids := ids, req_output_token_ids := ids, req_id_to_index := AList.update rid i (req_id_to_index b)\<rparr>"
  obtain r where r: "add_tokens c (ib_rows b1 i) = Inr r" using add_tokens_total [of c "ib_rows b1 i"] c(1) dims by (auto simp: b1_def dims_ok_def)
  obtain t' where t': "add_row (cs_block_ids c) i (ib_block_table b1) = Inr t'" "bt_max_num_reqs t' = bt_max_num_reqs (ib_block_table b)"
    using add_row_total [of i "ib_block_table b" "cs_block_ids c"] c(2) dims i(2) sd(3) by (auto simp: b1_def dims_ok_def)
  define b2 where "b2 = (upd_row i (\<lambda>_. r) b1)\<lparr>ib_block_table := t'\<rparr>"
  define b3 where "b3 = add_sampling rid i (cs_sampling c) b2"
  have v3: "vocab_size b3 = V" using add_sampling_shape [of i b2 rid "cs_sampling c"] sd(2) by (simp add: b3_def same_shape_def b2_def b1_def upd_row_def)
  obtain b4 where b4: "add_options c i b3 = Inr b4" "options_frame b3 b4" using add_options_total [of c b3 i] c(4) unfolding v3 by blast
  define b5 where "b5 = batch_add_lora rid i (cs_lora_request c) b4"
  note ls = batch_add_lora_side [OF b5_def]
  have add: "batch_add_request c idx b = Inr b5"
    using t(1) r t'(1) b4(1) i(2,3) by (simp add: batch_add_request_def Let_def b5_def b3_def b2_def b1_def flip: rid_def)
  have sh: "same_shape i b2 b5"
    using add_sampling_shape [of i b2] add_options_shape [OF b4(1)] batch_add_lora_shape [of i b4] unfolding b3_def b5_def by (metis same_shape_trans)
  have idx5: "map_of (req_id_to_index b5) r = (if r = rid then Some i else map_of (req_id_to_index b) r)" for r
    using sh by (simp add: same_shape_def b2_def b1_def upd_row_def update_conv')
  have ne: "j \<noteq> i" if "map_of (req_id_to_index b) x = Some j" for x j
  proof -
    have "j < length (ib_req_ids b)" "ib_req_ids b ! j = Some x" using that slots by (simp_all add: slots_ok_def)
    then show ?thesis using i(1) slots by (auto simp: slots_ok_def)
  qed
  have tabs: "lora_id_to_request_ids b4 = lora_id_to_request_ids b" "lora_id_to_lora_request b4 = lora_id_to_lora_request b"
    "penalty_reqs b4 \<subseteq> insert rid (penalty_reqs b)" "has_allowed_token_ids b4 = [] \<or> mask_allocated b4"
  proof -
    have b2: "lora_id_to_request_ids b2 = lora_id_to_request_ids b" "lora_id_to_lora_request b2 = lora_id_to_lora_request b" "penalty_reqs b2 = penalty_reqs b"
      "has_allowed_token_ids b2 = has_allowed_token_ids b" "mask_allocated b2 = mask_allocated b" by (simp_all add: b2_def b1_def upd_row_def penalty_reqs_def)
    note sa = add_sampling_side [of rid i "cs_sampling c" b2, folded b3_def, unfolded b2] and of = b4(2) [unfolded options_frame_def]
    show "lora_id_to_request_ids b4 = lora_id_to_request_ids b" "lora_id_to_lora_request b4 = lora_id_to_lora_request b" using sa(1,2) of by simp_all
    show "penalty_reqs b4 \<subseteq> insert rid (penalty_reqs b)" using sa(5) of by simp
    show "has_allowed_token_ids b4 = [] \<or> mask_allocated b4" using sa(3,4) of sd(4) by simp
  qed
  have "lora_ok b5"
  proof (rule lora_ok_kept [OF sd(1), where R = "{rid}"])
    show "lora_kept {rid} b b5" using ls(1) by (auto simp: lora_kept_def tabs)
    show "\<exists>k. map_of (req_id_to_index b) r = Some k \<and> row_lora (ib_rows b5 j) = row_lora (ib_rows b k)"
      if "map_of (req_id_to_index b5) r = Some j" "r \<notin> {rid}" for r j
      using that ne [of r j] sh by (auto simp: idx5 same_shape_def b2_def b1_def upd_row_def)
  qed (use ls(5) in \<open>auto simp: idx5\<close>)
  moreover have "penalty_reqs b5 \<subseteq> dom (map_of (req_id_to_index b5))"
  proof -
    have "dom (map_of (req_id_to_index b5)) = insert rid (dom (map_of (req_id_to_index b)))" by (auto simp: idx5 split: if_splits)
    then show ?thesis using order_trans [OF tabs(3) insert_mono [OF sd(5)]] ls(4) by simp
  qed
  moreover have "length (ib_req_ids b5) \<le> ib_max_num_reqs b5" using sh t(2) sd(6) i(2) by (simp add: same_shape_def b2_def b1_def upd_row_def)
  ultimately have "side_ok V b5" using sh tabs(4) t'(2) sd(2,3) by (simp add: side_ok_def ls(2,3) same_shape_def b2_def b1_def upd_row_def)
  with add show ?thesis by blast
qed

lemma length_update_new: "map_of xs k = None \<Longrightarrow> length (AList.update k v xs) = Suc (length xs)"
  by (induction xs) (auto split: if_splits)

lemma add_loop_total:
  assumes "updating ml mb (set removed) (map_of reqs) b" "sorted_wrt (>) removed" "distinct rids"
    "\<forall>rid \<in> set rids. map_of (req_id_to_index b) rid = None \<and> fits ml mb (map_of reqs) rid" "\<forall>rid \<in> set rids. map_of reqs rid \<noteq> None"
    "side_ok V b" "params_ok V (map_of reqs)" "num_reqs b + length rids \<le> ib_max_num_reqs b"
  shows "\<exists>removed' b'. rfold (add_next reqs) rids (removed, b) = Inr (removed', b') \<and> side_ok V b'"
  using assms
proof (induction rids arbitrary: removed b)
  case (Cons rid rids)
  have inv: "slots_ok (set removed) b" "dims_ok ml mb b" "states_ok (map_of reqs)" using Cons.prems(1) by (simp_all add: updating_def)
  obtain c where c: "map_of reqs rid = Some c" using Cons.prems(5) by auto
  have cid: "cs_req_id c = rid" using c inv(3) by (simp add: states_ok_def)
  have fit: "length (tokens_of c) \<le> ml" "length (cs_block_ids c) \<le> mb" "map_of (req_id_to_index b) (cs_req_id c) = None"
    using Cons.prems(4) c cid by (simp_all add: fits_def)
  define idx where "idx = (if removed \<noteq> [] then Some (last removed) else None)"
  define i where "i = (case idx of None \<Rightarrow> num_reqs b | Some i \<Rightarrow> i)"
  have i: "i \<in> set removed \<or> i = length (ib_req_ids b)" "i < ib_max_num_reqs b"
  proof -
    have "length (ib_req_ids b) = num_reqs b + card (set removed)" by (rule slots_count [OF inv(1)])
    moreover have "removed \<noteq> [] \<Longrightarrow> last removed < length (ib_req_ids b)" using inv(1) last_in_set [of removed] by (auto simp: slots_ok_def)
    moreover have "length (ib_req_ids b) \<le> ib_max_num_reqs b" using Cons.prems(6) by (simp add: side_ok_def)
    ultimately show "i \<in> set removed \<or> i = length (ib_req_ids b)" "i < ib_max_num_reqs b"
      using Cons.prems(8) by (auto simp: i_def idx_def)
  qed
  obtain b1 where b1: "batch_add_request c idx b = Inr b1" "side_ok V b1"
    using batch_add_total [OF inv(1,2) Cons.prems(6) fit _ i i_def] Cons.prems(7) c by (auto simp: params_ok_def)
  have step: "add_next reqs rid (removed, b) = Inr (butlast removed, b1)" using b1(1) c by (auto simp: add_next_def idx_def)
  then have one: "rfold (add_next reqs) [rid] (removed, b) = Inr (butlast removed, b1)" by simp
  have "updating ml mb (set (butlast removed)) (map_of reqs) b1 \<and> sorted_wrt (>) (butlast removed) \<and> ib_max_num_reqs b1 = ib_max_num_reqs b \<and>
    (\<forall>r. map_of (req_id_to_index b1) r = None \<longleftrightarrow> map_of (req_id_to_index b) r = None \<and> r \<notin> set [rid])"
    by (rule add_loop_ok [OF one Cons.prems(1,2)]) (use Cons.prems(4) in simp_all)
  moreover have "num_reqs b1 = Suc (num_reqs b)"
  proof -
    obtain b2 where "take_slot (cs_req_id c) i b = Inr b2" "req_id_to_index b1 = req_id_to_index b2" using b1(1) unfolding i_def by (rule add_request_frame)
    then have "req_id_to_index b1 = AList.update (cs_req_id c) i (req_id_to_index b)" by (auto simp: take_slot_def split: if_splits)
    then show ?thesis using fit(3) by (simp add: num_reqs_def length_update_new)
  qed
  ultimately have "\<exists>removed' b'. rfold (add_next reqs) rids (butlast removed, b1) = Inr (removed', b') \<and> side_ok V b'"
    using Cons.prems(3,4,5,8) by (intro Cons.IH [OF _ _ _ _ _ b1(2) Cons.prems(7)]) auto
  then show ?case using step by simp
qed simp

section \<open>Condensing\<close>

lemma move_state_total:
  assumes "slots_ok H b" "side_ok V b" "e \<in> H" "l < length (ib_req_ids b)" "l \<notin> H"
  obtains b' where "move_state l e b = Inr b'" "side_ok V b'"
proof -
  obtain rid where rid: "ib_req_ids b ! l = Some rid" using assms(1,4,5) by (auto simp: slots_ok_def)
  have out: "req_output_token_ids b = ib_req_ids b" and e: "e < length (ib_req_ids b)" "ib_req_ids b ! e = None" using assms(1,3) by (auto simp: slots_ok_def)
  have l: "map_of (req_id_to_index b) rid = Some l" using rid assms(1,4) by (simp add: slots_ok_def)
  obtain b' where mv: "move_state l e b = Inr b'" using rid out e assms(4) by (simp add: move_state_def py_get_def py_set_def)
  have f: "req_id_to_index b' = AList.update rid e (req_id_to_index b)" "ib_rows b' = (ib_rows b)(e := move_fields (mask_allocated b) (ib_rows b l) (ib_rows b e))"
    "bt_max_num_reqs (ib_block_table b') = bt_max_num_reqs (ib_block_table b)" "length (ib_req_ids b') = length (ib_req_ids b)"
    "lora_id_to_request_ids b' = lora_id_to_request_ids b" "lora_id_to_lora_request b' = lora_id_to_lora_request b" "penalty_reqs b' = penalty_reqs b"
    "has_allowed_token_ids b' = has_allowed_token_ids b" "mask_allocated b' = mask_allocated b" "vocab_size b' = vocab_size b" "ib_max_num_reqs b' = ib_max_num_reqs b"
    using mv rid out e(1) assms(4) by (auto simp: move_state_def py_get_def py_set_def upd_row_def move_row_def Let_def penalty_reqs_def)
  have "lora_ok b'"
  proof (rule lora_ok_kept [where R = "{}" and b = b])
    show "lora_ok b" using assms(2) by (simp add: side_ok_def)
    show "lora_kept {} b b'" by (auto simp: lora_kept_def f)
    show "\<exists>i. map_of (req_id_to_index b) r = Some i \<and> row_lora (ib_rows b' j) = row_lora (ib_rows b i)" if "map_of (req_id_to_index b') r = Some j" for r j
    proof (cases "r = rid")
      case True
      then show ?thesis using that l by (auto simp: f(1,2) update_conv' move_fields_def Let_def)
    next
      case False
      then have "map_of (req_id_to_index b) r = Some j" using that by (simp add: f(1) update_conv')
      moreover from this have "j \<noteq> e" using assms(1) e(2) by (auto simp: slots_ok_def)
      ultimately show ?thesis by (simp add: f(2))
    qed
  qed simp
  moreover have "dom (map_of (req_id_to_index b')) = dom (map_of (req_id_to_index b))" using l by (auto simp: f(1) update_conv' split: if_splits)
  ultimately have "side_ok V b'" using assms(2) by (simp add: side_ok_def f)
  with mv show ?thesis using that by blast
qed

lemma condense_loop_total:
  assumes "condensing n es b" "dims_ok ml mb b" "side_ok V b"
  shows "\<exists>b'. condense_loop n es b = Inr b' \<and> side_ok V b'"
  using assms
proof (induction n es b rule: condense_loop.induct)
  case (1 n es b)
  obtain l where l: "last_used es n = Some l" "l \<le> n" "l \<notin> set es" using condensing_used [OF "1.prems"(1)] .
  show ?case
  proof (cases "es = [] \<or> l \<le> last es")
    case True
    then have "condense_loop n es b = Inr b" using l(1) by (subst condense_loop.simps) auto
    then show ?thesis using "1.prems"(3) by simp
  next
    case False
    have "slots_ok (set es \<union> {n<..<length (ib_req_ids b)}) b" "n < length (ib_req_ids b)" using "1.prems"(1) by (simp_all add: condensing_def)
    then obtain b1 where b1: "move_state l (last es) b = Inr b1" "side_ok V b1"
      using False l(2,3) move_state_total [OF _ "1.prems"(3), where e = "last es" and l = l] by fastforce
    note m = condensing_move [OF "1.prems"(1,2) _ l(1) _ b1(1)]
    have "\<exists>b'. condense_loop (l - 1) (butlast es) b1 = Inr b' \<and> side_ok V b'"
      using "1.IH" [OF _ l(1)] m(1,2) False b1(2) by blast
    then show ?thesis using False l(1) b1(1) by (subst condense_loop.simps) simp
  qed
qed

lemma condense_total:
  assumes "slots_ok (set es) b" "dims_ok ml mb b" "sorted_wrt (>) es" "side_ok V b"
  shows "\<exists>b'. condense es b = Inr b' \<and> side_ok V b'"
proof (cases "num_reqs b = 0")
  case True
  then show ?thesis using assms(4) by (simp add: condense_def side_ok_def lora_ok_def penalty_reqs_def)
next
  case False
  have "distinct es" using assms(3) by (induction es) auto
  then have L: "length (ib_req_ids b) = num_reqs b + length es" using slots_count [OF assms(1)] by (simp add: distinct_card)
  then have "{num_reqs b + length es - 1<..<length (ib_req_ids b)} = {}" by auto
  then have "condensing (num_reqs b + length es - 1) es b" using assms(1,3) False L by (simp add: condensing_def)
  then obtain b1 where "condense_loop (num_reqs b + length es - 1) es b = Inr b1" "side_ok V b1" using condense_loop_total assms(2,4) by blast
  then show ?thesis using False by (simp add: condense_def side_ok_def lora_ok_def penalty_reqs_def min.coboundedI1)
qed

lemma make_metadata_total:
  assumes "side_ok V b"
  shows "\<exists>md. make_sampling_metadata b = Inr md"
proof -
  have "no_penalties b" if "num_reqs b = 0"
    using that assms by (auto simp: num_reqs_def side_ok_def penalty_reqs_def no_penalties_def)
  then show ?thesis using assms by (auto simp: make_sampling_metadata_def make_prompt_token_ids_tensor_def Let_def side_ok_def)
qed

section \<open>The whole update\<close>

definition worker_ok :: "nat \<Rightarrow> nat \<Rightarrow> nat \<Rightarrow> model_runner \<Rightarrow> bool" where
  "worker_ok max_len max_blocks vocab mr \<longleftrightarrow> runner_ok max_len max_blocks mr \<and> side_ok vocab (mr_batch mr) \<and> params_ok vocab (mr_requests mr)"

text \<open>
  A message that can be carried out: the worker knows the requests that are not new, there are rows for all of them, and allowed
  tokens are tokens.
\<close>

definition accepted_message :: "nat \<Rightarrow> nat \<Rightarrow> nat \<Rightarrow> (string \<Rightarrow> worker_sampling) \<Rightarrow> scheduler_output \<Rightarrow> model_runner \<Rightarrow> bool" where
  "accepted_message max_len max_blocks vocab params so mr \<longleftrightarrow> message_ok max_len max_blocks so mr \<and>
     (\<forall>d \<in> set (scheduled_cached_reqs so). mr_requests mr (crd_req_id d) \<noteq> None) \<and>
     card (fst ` set (out_num_scheduled_tokens so)) \<le> ib_max_num_reqs (mr_batch mr) \<and>
     (\<forall>d \<in> set (scheduled_new_reqs so). \<forall>ts. allowed_token_ids (params (nrd_req_id d)) = Some ts \<longrightarrow> (\<forall>t \<in> set ts. - int vocab \<le> t \<and> t < int vocab))"

lemma new_states_params:
  assumes "params_ok V (map_of reqs)" "\<forall>d \<in> set ds. \<forall>ts. allowed_token_ids (params (nrd_req_id d)) = Some ts \<longrightarrow> (\<forall>t \<in> set ts. - int V \<le> t \<and> t < int V)"
  shows "params_ok V (map_of (add_new_states params seed ds reqs))"
  using assms
proof (induction ds arbitrary: reqs)
  case (Cons d ds)
  have "params_ok V (map_of (AList.update (nrd_req_id d) (new_state params seed d) reqs))"
    using Cons.prems by (auto simp: params_ok_def update_conv' new_state_def Let_def)
  then show ?case unfolding fold_simps comp_def by (rule Cons.IH) (use Cons.prems(2) in simp)
qed (simp only: fold_simps)

lemma removal_total:
  assumes "worker_ok ml mb V mr"
  obtains removed0 b0 removed b where "rfold drop_finished (out_finished_req_ids so) ([], mr_batch mr) = Inr (removed0, b0)"
    "rfold drop_unscheduled (filter (\<lambda>rid. map_of (out_num_scheduled_tokens so) rid = None) (map fst (req_id_to_index b0))) (removed0, b0) = Inr (removed, b)"
    "side_ok V b"
proof -
  have "removing ml mb (mr_requests mr) ([], mr_batch mr)" "side_ok V (snd ([] :: nat list, mr_batch mr))"
    using assms by (simp_all add: worker_ok_def runner_ok_def removing_def)
  from drop_loop_total [OF this, of "out_finished_req_ids so"] obtain removed0 b0 where
    1: "rfold drop_finished (out_finished_req_ids so) ([], mr_batch mr) = Inr (removed0, b0)" "removing ml mb (mr_requests mr) (removed0, b0)" "side_ok V b0" by auto
  have "distinct (map fst (req_id_to_index b0))" using 1(2) by (simp add: removing_def slots_ok_def)
  then have "\<exists>st. rfold drop_unscheduled (filter (\<lambda>rid. map_of (out_num_scheduled_tokens so) rid = None) (map fst (req_id_to_index b0))) (removed0, b0) = Inr st \<and>
    removing ml mb (mr_requests mr) st \<and> side_ok V (snd st)"
    using 1(2,3) by (intro drop_unscheduled_total) (auto simp: dom_map_of_conv_image_fst)
  then show ?thesis using that 1(1) by (metis prod.collapse)
qed

lemma card_index: "slots_ok H b \<Longrightarrow> num_reqs b = card (dom (map_of (req_id_to_index b)))"
  by (simp add: slots_ok_def num_reqs_def dom_map_of_conv_image_fst distinct_card flip: set_map)

lemma update_total:
  assumes ok: "worker_ok ml mb V mr" and msg: "accepted_message ml mb V params so mr"
    and rem: "rfold drop_finished (out_finished_req_ids so) ([], mr_batch mr) = Inr (removed0, b0)"
      "rfold drop_unscheduled (filter (\<lambda>rid. map_of (out_num_scheduled_tokens so) rid = None) (map fst (req_id_to_index b0))) (removed0, b0) = Inr (removed, b)"
    and side: "side_ok V b"
  obtains reqs to_add b' removed' b'' where "rfold (update_cached (out_spec_decode_tokens so)) (scheduled_cached_reqs so)
       (start_states params seed so mr, map nrd_req_id (scheduled_new_reqs so), b) = Inr (reqs, to_add, b')"
    "rfold (add_next reqs) to_add (rev (sort removed), b') = Inr (removed', b'')" "side_ok V b''" "params_ok V (map_of reqs)"
    "updating ml mb (set removed') (map_of reqs) b''" "sorted_wrt (>) removed'"
proof -
  have run: "runner_ok ml mb mr" "params_ok V (mr_requests mr)" and m: "message_ok ml mb so mr" using ok msg by (simp_all add: worker_ok_def accepted_message_def)
  note ids = message_ids [OF m] and start = removal_updating [OF run(1) m rem] and r = removal_ok [OF run(1) rem]
  have par: "params_ok V (map_of (start_states params seed so mr))"
  proof (rule new_states_params)
    show "params_ok V (map_of (fold AList.delete (out_finished_req_ids so) (mr_states mr)))" using run(2) by (auto simp: params_ok_def map_of_delete_all split: if_splits)
    show "\<forall>d \<in> set (scheduled_new_reqs so). \<forall>ts. allowed_token_ids (params (nrd_req_id d)) = Some ts \<longrightarrow> (\<forall>t \<in> set ts. - int V \<le> t \<and> t < int V)"
      using msg by (simp add: accepted_message_def)
  qed
  have known: "\<forall>d \<in> set (scheduled_cached_reqs so). map_of (start_states params seed so mr) (crd_req_id d) \<noteq> None"
  proof
    fix d assume d: "d \<in> set (scheduled_cached_reqs so)"
    have "map_of (start_states params seed so mr) (crd_req_id d) = mr_requests mr (crd_req_id d)" using ids(3,5) d by (intro start_states_other) auto
    then show "map_of (start_states params seed so mr) (crd_req_id d) \<noteq> None" using msg d by (simp add: accepted_message_def)
  qed
  obtain reqs to_add b' where up: "rfold (update_cached (out_spec_decode_tokens so)) (scheduled_cached_reqs so)
       (start_states params seed so mr, map nrd_req_id (scheduled_new_reqs so), b) = Inr (reqs, to_add, b')" "side_ok V b'" "params_ok V (map_of reqs)"
    using update_loop_total [OF start(2,3) ids(2) side par known] by blast
  note upd = states_after_update [OF m start up(1)]
  have upd': "updating ml mb (set (rev (sort removed))) (map_of reqs) b'" using upd(1) by simp
  have srt: "sorted_wrt (>) (rev (sort removed))" using r(1) sorted_desc by (simp add: removing_def)
  have states: "\<forall>rid \<in> set to_add. map_of reqs rid \<noteq> None" using upd(5,6,7) by fastforce
  have room: "num_reqs b' + length to_add \<le> ib_max_num_reqs b'"
  proof -
    have "num_reqs b' = card (dom (map_of (req_id_to_index b')))" using upd(1) by (intro card_index [where H = "set removed"]) (simp add: updating_def)
    moreover have "length to_add = card (set to_add)" using upd(3) by (simp add: distinct_card)
    moreover have "dom (map_of (req_id_to_index b')) \<inter> set to_add = {}" using upd(4) by auto
    moreover have "dom (map_of (req_id_to_index b')) \<union> set to_add \<subseteq> fst ` set (out_num_scheduled_tokens so)"
    proof -
      have "rid \<in> fst ` set (out_num_scheduled_tokens so)" if "map_of (req_id_to_index b) rid = Some i" for rid i
        using that unfolding r(3) by (auto split: if_splits)
      then have "dom (map_of (req_id_to_index b')) \<subseteq> fst ` set (out_num_scheduled_tokens so)" using upd(2) by (auto simp del: image_iff)
      moreover have "set to_add \<subseteq> fst ` set (out_num_scheduled_tokens so)" using upd(5) unfolding ids(4) by auto
      ultimately show ?thesis by blast
    qed
    ultimately have "num_reqs b' + length to_add \<le> card (fst ` set (out_num_scheduled_tokens so))"
      by (metis List.finite_set card_Un_disjoint card_mono finite_dom_map_of finite_imageI)
    also have "\<dots> \<le> ib_max_num_reqs b'"
      using msg r(2) update_loop_ok [OF up(1) start(2,3) ids(2)] by (simp add: accepted_message_def)
    finally show ?thesis .
  qed
  obtain removed' b'' where add: "rfold (add_next reqs) to_add (rev (sort removed), b') = Inr (removed', b'')" "side_ok V b''"
    using add_loop_total [OF upd' srt upd(3,4) states up(2,3) room] by blast
  then show ?thesis using that up add_loop_ok [OF add(1) upd' srt upd(3,4)] by blast
qed

lemma update_states_total:
  assumes ok: "worker_ok ml mb V mr" and msg: "accepted_message ml mb V params so mr"
  shows "\<exists>mr'. update_states params seed so mr = Inr mr' \<and> side_ok V (mr_batch mr') \<and> params_ok V (mr_requests mr')"
proof -
  obtain removed0 b0 removed b where 1: "rfold drop_finished (out_finished_req_ids so) ([], mr_batch mr) = Inr (removed0, b0)"
    "rfold drop_unscheduled (filter (\<lambda>rid. map_of (out_num_scheduled_tokens so) rid = None) (map fst (req_id_to_index b0))) (removed0, b0) = Inr (removed, b)"
    "side_ok V b" using ok by (rule removal_total)
  obtain reqs to_add b' removed' b'' where 2: "rfold (update_cached (out_spec_decode_tokens so)) (scheduled_cached_reqs so)
       (start_states params seed so mr, map nrd_req_id (scheduled_new_reqs so), b) = Inr (reqs, to_add, b')"
    "rfold (add_next reqs) to_add (rev (sort removed), b') = Inr (removed', b'')" "side_ok V b''" "params_ok V (map_of reqs)"
    "updating ml mb (set removed') (map_of reqs) b''" "sorted_wrt (>) removed'"
    using ok msg 1 by (rule update_total)
  obtain b3 where b3: "(if removed' \<noteq> [] then condense removed' b'' else Inr b'') = Inr b3" "side_ok V b3"
    using condense_total [of removed' b'' ml mb V] 2(3,5,6) by (cases "removed' = []") (auto simp: updating_def)
  then obtain md where "make_sampling_metadata b3 = Inr md" using make_metadata_total b3(2) by blast
  then obtain md' where "(if removed \<noteq> [] \<or> to_add \<noteq> [] then make_sampling_metadata b3 else Inr (mr_metadata mr)) = Inr md'" by (cases "removed \<noteq> [] \<or> to_add \<noteq> []") auto
  then have "update_states params seed so mr =
      Inr \<lparr>mr_states = reqs, mr_encoder_cache = fold free_encoder_output (free_encoder_input_ids so) (fold AList.delete (out_finished_req_ids so) (mr_encoder_cache mr)),
           mr_batch = b3, mr_metadata = md'\<rparr>"
    unfolding update_states_def Let_def by (simp only: 1 2 b3 rbind_simps prod.case)
  then show ?thesis using b3(2) 2(4) by simp
qed

lemma runner_init_worker_ok:
  assumes "runner_init max_reqs max_len max_blocks vocab = Inr mr"
  shows "worker_ok max_len max_blocks vocab mr"
  using assms runner_init_ok [OF assms]
  by (auto simp: runner_init_def Let_def worker_ok_def side_ok_def lora_ok_def params_ok_def penalty_reqs_def input_batch_init_def block_table_init_def)

section \<open>Properties\<close>

text \<open>
  C7. The worker follows the scheduler. From a consistent state, a message that can be carried out never makes
  \<open>_update_states\<close> raise. Afterwards the state is consistent again, that is, every row holds the tokens, the
  number of computed tokens and the block ids of the cached state of its request; the rows are exactly the scheduled requests,
  without gaps; new requests have the state of the message, and the states of the others are updated by their entries.
\<close>

theorem worker_follows_scheduler:
  assumes "worker_ok max_len max_blocks vocab mr" and "accepted_message max_len max_blocks vocab params so mr"
  shows "\<exists>mr'. update_states params seed so mr = Inr mr' \<and> worker_ok max_len max_blocks vocab mr' \<and>
    (\<forall>rid. (\<exists>i < num_reqs (mr_batch mr'). ib_req_ids (mr_batch mr') ! i = Some rid) \<longleftrightarrow> rid \<in> fst ` set (out_num_scheduled_tokens so)) \<and>
    length (ib_req_ids (mr_batch mr')) = num_reqs (mr_batch mr') \<and>
    (\<forall>d \<in> set (scheduled_new_reqs so). mr_requests mr' (nrd_req_id d) = Some (new_state params seed d)) \<and>
    (\<forall>d \<in> set (scheduled_cached_reqs so). \<exists>c c'. mr_requests mr (crd_req_id d) = Some c \<and> update_state d c = Inr c' \<and> mr_requests mr' (crd_req_id d) = Some c')"
proof -
  obtain mr' where up: "update_states params seed so mr = Inr mr'" "side_ok vocab (mr_batch mr')" "params_ok vocab (mr_requests mr')"
    using update_states_total [OF assms] by blast
  have "runner_ok max_len max_blocks mr" "message_ok max_len max_blocks so mr" using assms by (simp_all add: worker_ok_def accepted_message_def)
  note ok = update_states_ok [OF up(1) this]
  have sl: "slots_ok {} (mr_batch mr')" using ok(1) by (simp add: runner_ok_def)
  then have len: "length (ib_req_ids (mr_batch mr')) = num_reqs (mr_batch mr')" using slots_count by fastforce
  have "(\<exists>i < num_reqs (mr_batch mr'). ib_req_ids (mr_batch mr') ! i = Some rid) \<longleftrightarrow> map_of (req_id_to_index (mr_batch mr')) rid \<noteq> None" for rid
    using sl len by (auto simp: slots_ok_def)
  then show ?thesis using ok len up by (auto simp: worker_ok_def)
qed

definition plain_params :: worker_sampling where
  "plain_params = \<lparr>sampling_type_of = RANDOM, temperature = 1, top_p = 1, top_k = -1, min_p = 0, frequency_penalty = 0, presence_penalty = 0,
     repetition_penalty = 1, min_tokens = 0, all_stop_token_ids = [], logprobs = None, ws_prompt_logprobs = None, logit_bias = None,
     allowed_token_ids = None, bad_words_token_ids = None\<rparr>"

definition no_sampling :: sampling_params where
  "no_sampling = \<lparr>sp_max_tokens = Some 10, ignore_eos = False, stop_token_ids = None, prompt_logprobs = None, guided_decoding = False\<rparr>"

definition new_data :: "string \<Rightarrow> int list \<Rightarrow> nat list \<Rightarrow> new_request_data" where
  "new_data rid ts bs = \<lparr>nrd_req_id = rid, nrd_prompt_token_ids = ts, nrd_mm_hashes = [], nrd_mm_positions = [], nrd_sampling = no_sampling,
     nrd_block_ids = bs, nrd_num_computed_tokens = 0, nrd_lora_request = None\<rparr>"

definition message :: "new_request_data list \<Rightarrow> cached_request_data list \<Rightarrow> (string \<times> int) list \<Rightarrow> string list \<Rightarrow> scheduler_output" where
  "message new old sched fin = \<lparr>scheduled_new_reqs = new, scheduled_cached_reqs = old, out_num_scheduled_tokens = sched,
     total_num_scheduled_tokens = sum_list (map snd sched), out_spec_decode_tokens = [], out_encoder_inputs = [], num_common_prefix_blocks = 0,
     out_finished_req_ids = fin, free_encoder_input_ids = [], out_structured_ids = []\<rparr>"

definition next_data :: "string \<Rightarrow> int list \<Rightarrow> int \<Rightarrow> cached_request_data" where
  "next_data rid ts n = \<lparr>crd_req_id = rid, resumed_from_preemption = False, crd_new_token_ids = ts, new_block_ids = [], crd_num_computed_tokens = n\<rparr>"


theorem worker_follows_scheduler_witness:
  "\<exists>mr mr'. runner_init 2 6 2 5 = Inr mr \<and> update_states (\<lambda>_. plain_params) (\<lambda>_. 0) (message [new_data ''a'' [1, 2] [1]] [] [(''a'', 2)] []) mr = Inr mr' \<and>
     num_reqs (mr_batch mr') = 1 \<and> ib_req_ids (mr_batch mr') = [Some ''a'']"
proof -
  obtain mr where init: "runner_init 2 6 2 5 = Inr mr" "mr_batch mr = input_batch_init 2 6 2 5" "mr_states mr = []"
    by (simp add: runner_init_def Let_def make_sampling_metadata_def no_penalties_def input_batch_init_def)
  have ok: "worker_ok 6 2 5 mr" by (rule runner_init_worker_ok [OF init(1)])
  have msg: "accepted_message 6 2 5 (\<lambda>_. plain_params) (message [new_data ''a'' [1, 2] [1]] [] [(''a'', 2)] []) mr"
    by (simp add: accepted_message_def message_ok_def message_def new_data_def init(2,3) plain_params_def input_batch_init_def)
  obtain mr' where mr': "update_states (\<lambda>_. plain_params) (\<lambda>_. 0) (message [new_data ''a'' [1, 2] [1]] [] [(''a'', 2)] []) mr = Inr mr'"
    "\<forall>rid. (\<exists>i < num_reqs (mr_batch mr'). ib_req_ids (mr_batch mr') ! i = Some rid) \<longleftrightarrow> rid = ''a''"
    "length (ib_req_ids (mr_batch mr')) = num_reqs (mr_batch mr')" "worker_ok 6 2 5 mr'"
    using worker_follows_scheduler [OF ok msg, of "\<lambda>_. 0"] by (auto simp: message_def)
  have sl: "slots_ok {} (mr_batch mr')" using mr'(4) by (simp add: worker_ok_def runner_ok_def)
  have "map_of (req_id_to_index (mr_batch mr')) rid \<noteq> None \<longleftrightarrow> (\<exists>i < num_reqs (mr_batch mr'). ib_req_ids (mr_batch mr') ! i = Some rid)" for rid
    using sl mr'(3) by (auto simp: slots_ok_def)
  then have "dom (map_of (req_id_to_index (mr_batch mr'))) = {''a''}" unfolding mr'(2) [rule_format] by blast
  then have n: "num_reqs (mr_batch mr') = 1" using card_index [OF sl] by simp
  obtain x where x: "ib_req_ids (mr_batch mr') = [x]" using mr'(3) n by (cases "ib_req_ids (mr_batch mr')") simp_all
  have "ib_req_ids (mr_batch mr') ! 0 = Some ''a''" using mr'(2) [rule_format, of "''a''"] n by (metis less_one)
  then have "ib_req_ids (mr_batch mr') = [Some ''a'']" by (simp add: x)
  with init(1) mr'(1) n show ?thesis by blast
qed

end
