(* ===== verification/Worker_Corner_Cases.thy ===== *)
theory Worker_Corner_Cases
  imports Worker_Progress
begin

text \<open>
  Behaviours of the worker that its own comments rule out: parameters of a former request in a row, and accepted draft tokens
  that are missing in the cached states.
\<close>

section \<open>Rows that condensing leaves behind\<close>

text \<open>A row that was not empty keeps its contents, whether its request has moved or not.\<close>

lemma condense_loop_rows:
  "condense_loop n es b = Inr b' \<Longrightarrow> l \<notin> set es \<Longrightarrow> ib_rows b' l = ib_rows b l"
proof (induction n es b arbitrary: b' rule: condense_loop.induct)
  case (1 n es b)
  show ?case
  proof (cases "b' = b")
    case False
    obtain k b1 where k: "es \<noteq> []" "last_used es n = Some k" "\<not> k \<le> last es" "move_state k (last es) b = Inr b1" "condense_loop (k - 1) (butlast es) b1 = Inr b'"
      using "1.prems"(1) False by (subst (asm) condense_loop.simps) (auto split: if_splits option.splits)
    have "l \<notin> set (butlast es)" "l \<noteq> last es" using "1.prems"(2) k(1) in_set_butlastD [of l es] by auto
    moreover from this have "ib_rows b' l = ib_rows b1 l" using "1.IH" [OF k(1,2,3) k(5)] by blast
    ultimately show ?thesis using k(4) by (elim move_state_frame) simp
  qed simp
qed

lemma condense_rows: "condense es b = Inr b' \<Longrightarrow> l \<notin> set es \<Longrightarrow> ib_rows b' l = ib_rows b l"
  by (auto simp: condense_def dest: condense_loop_rows split: if_splits)

text \<open>The parameters of a row that \<open>add_request\<close> only writes when the request has them.\<close>

definition row_options :: "batch_row \<Rightarrow> (int \<times> rat) list option \<times> bool list" where
  "row_options r = (row_logit_bias r, row_allowed_mask r)"

lemma add_without_options:
  assumes add: "batch_add_request c idx b = Inr b'" and c: "logit_bias (cs_sampling c) = None" "allowed_token_ids (cs_sampling c) = None"
  shows "row_options (ib_rows b' i) = row_options (ib_rows b i)"
proof -
  define j where "j = (case idx of None \<Rightarrow> num_reqs b | Some i \<Rightarrow> i)"
  obtain b1 r t b3 where s: "take_slot (cs_req_id c) j b = Inr b1" "add_tokens c (ib_rows b1 j) = Inr r"
    "add_options c j (add_sampling (cs_req_id c) j (cs_sampling c) ((upd_row j (\<lambda>_. r) b1)\<lparr>ib_block_table := t\<rparr>)) = Inr b3"
    "b' = batch_add_lora (cs_req_id c) j (cs_lora_request c) b3"
    using add by (auto simp: batch_add_request_def Let_def j_def split: if_splits)
  have slot: "ib_rows b1 = ib_rows b" using s(1) by (auto simp: take_slot_def split: if_splits)
  have r: "row_options r = row_options (ib_rows b j)" using s(2) by (auto simp: add_tokens_def Let_def row_options_def slot)
  have "row_options (ib_rows b3 i) = row_options (ib_rows (add_sampling (cs_req_id c) j (cs_sampling c) ((upd_row j (\<lambda>_. r) b1)\<lparr>ib_block_table := t\<rparr>)) i)"
    using s(3) c by (auto simp: add_options_def Let_def split: option.splits list.splits)
  also have "\<dots> = row_options (ib_rows b i)"
    using r by (simp add: add_sampling_def Let_def upd_row_def row_options_def slot)
  finally show ?thesis by (auto simp: s(4) batch_add_lora_def Let_def upd_row_def row_options_def split: option.splits)
qed

lemma add_request_count:
  assumes "batch_add_request c None b = Inr b'" "map_of (req_id_to_index b) (cs_req_id c) = None"
  shows "num_reqs b' = Suc (num_reqs b)"
proof -
  obtain b1 where "take_slot (cs_req_id c) (num_reqs b) b = Inr b1" "req_id_to_index b' = req_id_to_index b1"
    using assms(1) by (rule add_request_frame) simp
  then show ?thesis using assms(2) by (auto simp: take_slot_def num_reqs_def length_update_new split: if_splits)
qed

text \<open>
  C22. \<open>condense\<close> copies the logit bias and the mask of allowed tokens to the new row of a request, and leaves
  them in the old one. When the next request without these parameters is added at the old row, \<open>add_request\<close> does not reset them,
  so the metadata that the sampler receives gives the new request the bias, and the mask when a mask is in use, of the request that moved.
\<close>

theorem stale_row_options:
  assumes "condense removed b = Inr b1" and "l \<notin> set removed" and "num_reqs b1 = l"
    and "batch_add_request c None b1 = Inr b2" and "map_of (req_id_to_index b1) (cs_req_id c) = None"
    and "logit_bias (cs_sampling c) = None" and "allowed_token_ids (cs_sampling c) = None"
    and "make_sampling_metadata b2 = Inr md"
  shows "md_logit_bias md ! l = row_logit_bias (ib_rows b l) \<and> (\<forall>m. md_allowed_mask md = Some m \<longrightarrow> m ! l = row_allowed_mask (ib_rows b l))"
proof -
  have "row_options (ib_rows b2 l) = row_options (ib_rows b l)"
    using add_without_options [OF assms(4,6,7)] condense_rows [OF assms(1,2)] by simp
  moreover have "l < num_reqs b2" using add_request_count [OF assms(4,5)] assms(3) by simp
  ultimately show ?thesis using assms(8) by (auto simp: make_sampling_metadata_def column_def row_options_def split: if_splits)
qed

text \<open>A batch in which request \<open>a\<close> has just been removed from row 0, and request \<open>b\<close> with a bias is in row 1.\<close>

definition biased_row :: batch_row where
  "biased_row = (aget (ib_row_arr (input_batch_init 4 6 2 5)) 1)\<lparr>row_logit_bias := Some [(3, - 100)]\<rparr>"

definition gap_batch :: input_batch where
  "gap_batch = (input_batch_init 4 6 2 5)\<lparr>ib_req_ids := [None, Some ''b''], req_output_token_ids := [None, Some ''b''], req_id_to_index := [(''b'', 1)],
     ib_row_arr := aset (ib_row_arr (input_batch_init 4 6 2 5)) 1 biased_row, random_reqs := [''b'']\<rparr>"

definition plain_state :: cached_request_state where
  "plain_state = new_state (\<lambda>_. plain_params) (\<lambda>_. 0) (new_data ''c'' [1] [3])"

lemma gap_batch_ok: "slots_ok {0} gap_batch" "dims_ok 6 2 gap_batch" "side_ok 5 gap_batch"
proof -
  have "map_of (req_id_to_index gap_batch) rid = Some i \<longleftrightarrow> i < length (ib_req_ids gap_batch) \<and> ib_req_ids gap_batch ! i = Some rid" for rid i
    by (auto simp: gap_batch_def nth_Cons' split: if_splits)
  then show "slots_ok {0} gap_batch" unfolding slots_ok_def by (auto simp: gap_batch_def nth_Cons' split: if_splits)
  show "dims_ok 6 2 gap_batch" by (simp add: dims_ok_def gap_batch_def biased_row_def input_batch_init_def block_table_init_def)
  show "side_ok 5 gap_batch"
    by (auto simp: side_ok_def lora_ok_def penalty_reqs_def gap_batch_def biased_row_def input_batch_init_def block_table_init_def)
qed

theorem stale_row_options_witness:
  "\<exists>b1 b2 md. condense [0] gap_batch = Inr b1 \<and> batch_add_request plain_state None b1 = Inr b2 \<and> make_sampling_metadata b2 = Inr md \<and>
     logit_bias (cs_sampling plain_state) = None \<and> md_logit_bias md ! 1 = Some [(3, - 100)]"
proof -
  obtain b1 where b1: "condense [0] gap_batch = Inr b1" "side_ok 5 b1" using condense_total [of "[0]" gap_batch 6 2 5] gap_batch_ok by auto
  have ok: "slots_ok {} b1 \<and> dims_ok 6 2 b1 \<and> rows_kept gap_batch b1 \<and> ib_max_num_reqs b1 = ib_max_num_reqs gap_batch"
    using condense_ok [OF b1(1)] gap_batch_ok by simp
  have n: "num_reqs b1 = 1" "ib_max_num_reqs b1 = 4" "map_of (req_id_to_index b1) ''c'' = None"
    using ok by (simp_all add: rows_kept_def gap_batch_def num_reqs_def input_batch_init_def)
  have c: "cs_req_id plain_state = ''c''" "logit_bias (cs_sampling plain_state) = None" "allowed_token_ids (cs_sampling plain_state) = None"
    "length (tokens_of plain_state) \<le> 6" "length (cs_block_ids plain_state) \<le> 2"
    by (simp_all add: plain_state_def new_state_def new_data_def plain_params_def tokens_of_def Let_def)
  have len: "length (ib_req_ids b1) = 1" using ok n(1) slots_count by fastforce
  have "\<exists>b2. batch_add_request plain_state None b1 = Inr b2 \<and> side_ok 5 b2"
    by (rule batch_add_total [where H = "{}" and ml = 6 and mb = 2 and i = 1]) (use ok b1(2) n c len in simp_all)
  then obtain b2 where b2: "batch_add_request plain_state None b1 = Inr b2" "side_ok 5 b2" by blast
  obtain md where md: "make_sampling_metadata b2 = Inr md" using make_metadata_total [OF b2(2)] by blast
  have "md_logit_bias md ! 1 = row_logit_bias (ib_rows gap_batch 1)"
    using stale_row_options [OF b1(1) _ n(1) b2(1) _ c(2,3) md] c(1) n(3) by simp
  then show ?thesis using b1(1) b2(1) md c(2) by (auto simp: gap_batch_def biased_row_def)
qed

section \<open>Accepted draft tokens\<close>

text \<open>
  C14. The scheduler sends the tokens from the number of computed tokens on, and after a step that accepted draft tokens this is only the
  last one. The worker appends at most the tokens of the message, although it knows how many are missing, so the accepted tokens before
  the last never reach its cached list of output tokens, which penalties, bad words and the minimal number of tokens refer to.
\<close>

theorem accepted_drafts_lost:
  assumes "all_token_ids r = tokens_of c @ accepted @ [t]" and "num_computed_tokens r = int (length (tokens_of c) + length accepted)"
    and "make_cached_request_data r (1 + int n_drafts) n_drafts block_ids False s = (d, s')"
  shows "\<exists>c'. update_state d c = Inr c' \<and> tokens_of c' = tokens_of c @ [t] \<and> (accepted \<noteq> [] \<longrightarrow> tokens_of c' \<noteq> all_token_ids r)"
proof -
  define n where "n = length (tokens_of c) + length accepted"
  have "py_islice (int n) (int n + 1) (all_token_ids r) = [t]"
    by (simp add: py_islice_def py_slice_def py_bound_def assms(1) n_def nat_add_distrib)
  then have d: "crd_new_token_ids d = [t]" "crd_num_computed_tokens d = int n"
    using assms(2,3) by (auto simp: make_cached_request_data_def cached_request_data_of_def Let_def n_def split: list.splits)
  have k: "int n + 1 - int (cs_num_tokens c) = int (length accepted) + 1" by (simp add: n_def tokens_of_def cs_num_tokens_def)
  have "py_islice (- (int (length accepted) + 1)) 1 [t] = [t]" by (simp add: py_islice_def py_slice_def py_bound_def)
  then obtain c' where c': "update_state d c = Inr c'" "tokens_of c' = tokens_of c @ [t]"
    by (simp add: update_state_def Let_def d k tokens_of_def)
  then show ?thesis using assms(1) by auto
qed

definition drafted_state :: cached_request_state where
  "drafted_state = new_state (\<lambda>_. plain_params) (\<lambda>_. 0) (new_data ''a'' [1, 2] [1])"

definition drafted_request :: "request result" where
  "drafted_request = rbind (new_request ''a'' [1, 2] 0 [] [] no_sampling None None True)
     (\<lambda>r. Inr ((append_output_token_ids [4, 5, 6] r)\<lparr>num_computed_tokens := 4\<rparr>))"

theorem accepted_drafts_lost_witness:
  "\<exists>r. drafted_request = Inr r \<and> (\<forall>s. \<exists>d s' c'. make_cached_request_data r 3 2 [] False s = (d, s') \<and>
     update_state d drafted_state = Inr c' \<and> tokens_of c' = [1, 2, 6] \<and> all_token_ids r = [1, 2, 4, 5, 6])"
proof -
  obtain r where r: "drafted_request = Inr r" "all_token_ids r = [1, 2, 4, 5, 6]" "num_computed_tokens r = 4"
    by (simp add: drafted_request_def new_request_def append_output_token_ids_def no_sampling_def)
  have c: "tokens_of drafted_state = [1, 2]" by (simp add: drafted_state_def new_state_def new_data_def tokens_of_def Let_def)
  have "\<exists>d s' c'. make_cached_request_data r 3 2 [] False s = (d, s') \<and> update_state d drafted_state = Inr c' \<and> tokens_of c' = [1, 2, 6]" for s
  proof -
    obtain d s' where d: "make_cached_request_data r 3 2 [] False s = (d, s')" by fastforce
    then have "make_cached_request_data r (1 + int 2) 2 [] False s = (d, s')" by simp
    from accepted_drafts_lost [OF _ _ this, of drafted_state "[4, 5]" 6] show ?thesis using d r(2,3) c by auto
  qed
  then show ?thesis using r by blast
qed

end
