(* ===== verification/Torch_Functional.thy ===== *)
theory Torch_Functional
  imports Complex_Main Prelude "HOL-Library.AList" "HOL-Library.List_Lexorder" "HOL-Library.Char_ord"
begin

text \<open>
  The masked statistics of \<open>verl/utils/torch_functional.py\<close> and the group statistics of \<open>verl/utils/groupwise.py\<close>.

  Floating-point numbers are reals: rounding, infinities and nan are left out. A tensor of two dimensions is the list of its rows, and
  the tensors of one call have one shape. A division whose denominator the code does not keep from zero is \<open>tdiv\<close>, with result
  \<open>None\<close> for the nan or infinity of the code.
\<close>

type_synonym vec = "real list"
type_synonym mat = "real list list"

definition tdiv :: "real \<Rightarrow> real \<Rightarrow> real option" where
  "tdiv x y = (if y = 0 then None else Some (x / y))"

definition shaped :: "nat \<Rightarrow> nat \<Rightarrow> 'a list list \<Rightarrow> bool" where
  "shaped n k xss \<longleftrightarrow> length xss = n \<and> (\<forall>xs \<in> set xss. length xs = k)"

abbreviation mat2 :: "('a \<Rightarrow> 'b \<Rightarrow> 'c) \<Rightarrow> 'a list list \<Rightarrow> 'b list list \<Rightarrow> 'c list list" where
  "mat2 f \<equiv> map2 (map2 f)"

text \<open>A value per row, spread over the columns.\<close>

definition spread :: "vec \<Rightarrow> mat \<Rightarrow> mat" where
  "spread ss m = map2 (\<lambda>s. map ((*) s)) ss m"

text \<open>\<open>torch.clamp\<close> applies the lower bound first, \<open>clip_by_value\<close> the upper one.\<close>

definition clamp :: "real \<Rightarrow> real \<Rightarrow> real \<Rightarrow> real" where
  "clamp lo hi x = min (max x lo) hi"

definition clip_by_value :: "real \<Rightarrow> real \<Rightarrow> real \<Rightarrow> real" where
  "clip_by_value lo hi x = max (min x hi) lo"

section \<open>Masked statistics\<close>

definition masked_sum :: "vec \<Rightarrow> vec \<Rightarrow> real" where
  "masked_sum values m = sum_list (map2 (\<lambda>v k. (if k \<noteq> 0 then v else 0) * k) values m)"

definition masked_mean :: "vec \<Rightarrow> vec \<Rightarrow> real" where
  "masked_mean values m = masked_sum values m / (sum_list m + 1 / 10 ^ 8)"

definition masked_var :: "bool \<Rightarrow> vec \<Rightarrow> vec \<Rightarrow> real result" where
  "masked_var unbiased values m =
     (let mean = masked_mean values m;
          variance = masked_mean (map (\<lambda>v. (v - mean)\<^sup>2) values) m;
          mask_sum = sum_list m
      in if \<not> unbiased then Inr variance
         else if mask_sum = 0 then Inl ValueError
         else if mask_sum = 1 then Inl ValueError
         else Inr (variance * (mask_sum / (mask_sum - 1))))"

definition masked_whiten :: "bool \<Rightarrow> mat \<Rightarrow> mat \<Rightarrow> mat result" where
  "masked_whiten shift_mean values m =
     (let mean = masked_mean (concat values) (concat m)
      in rbind (masked_var True (concat values) (concat m)) (\<lambda>var.
           Inr (map (map (\<lambda>v. (v - mean) * (1 / sqrt (var + 1 / 10 ^ 8)) + (if shift_mean then 0 else mean))) values)))"

text \<open>The mask of the tokens up to the first end token, and \<open>torch.Tensor.cumsum\<close>.\<close>

fun cumsum_from :: "'a::monoid_add \<Rightarrow> 'a list \<Rightarrow> 'a list" where
  "cumsum_from a [] = []"
| "cumsum_from a (x # xs) = (a + x) # cumsum_from (a + x) xs"

abbreviation cumsum :: "'a::monoid_add list \<Rightarrow> 'a list" where
  "cumsum \<equiv> cumsum_from 0"

lemma length_cumsum_from [simp]: "length (cumsum_from a xs) = length xs"
  by (induction xs arbitrary: a) auto

definition get_response_mask :: "int list \<Rightarrow> int list list \<Rightarrow> int list list" where
  "get_response_mask eos rows =
     map (\<lambda>row. let e = map (\<lambda>t. if t \<in> set eos then 1 else 0 :: int) row
                in map2 (\<lambda>c x. if c - x = 0 then 1 else 0) (cumsum e) e) rows"

text \<open>\<open>torch.mean\<close> and \<open>torch.std\<close>, for one respectively two and more elements.\<close>

definition t_mean :: "vec \<Rightarrow> real" where
  "t_mean xs = sum_list xs / real (length xs)"

definition t_std :: "vec \<Rightarrow> real" where
  "t_std xs = sqrt (sum_list (map (\<lambda>x. (x - t_mean xs)\<^sup>2) xs) / (real (length xs) - 1))"

section \<open>Groups\<close>

text \<open>
  Labels of groups: \<open>as_torch_index\<close> numbers them. \<open>parse\<close> is the conversion of numpy from strings to integers. The trainer passes the uids of the prompts, an array of strings; a label
  is a string or an integer here. Left out are the fast path for labels in a torch tensor and labels that are floating-point numbers, which the code rounds if they are nearly integers.
\<close>

datatype label = LInt int | LStr string

text \<open>\<open>np.unique(\<dots>, return_inverse=True)\<close>.\<close>

definition unique_inverse :: "'a::linorder list \<Rightarrow> nat list" where
  "unique_inverse xs = map (\<lambda>x. length (filter (\<lambda>y. y < x) (remdups xs))) xs"

fun label_str :: "(int \<Rightarrow> string) \<Rightarrow> label \<Rightarrow> string" where
  "label_str show_int (LInt i) = show_int i"
| "label_str show_int (LStr s) = s"

fun label_int :: "(string \<Rightarrow> int option) \<Rightarrow> label \<Rightarrow> int option" where
  "label_int parse (LInt i) = Some i"
| "label_int parse (LStr s) = parse s"

definition as_torch_index :: "(string \<Rightarrow> int option) \<Rightarrow> (int \<Rightarrow> string) \<Rightarrow> label list \<Rightarrow> int list" where
  "as_torch_index parse show_int labels =
     (if \<forall>l \<in> set labels. label_int parse l \<noteq> None then map (the \<circ> label_int parse) labels
      else map int (unique_inverse (map (label_str show_int) labels)))"

text \<open>\<open>index_add_\<close> raises on an index that is out of range.\<close>

definition index_add :: "nat \<Rightarrow> int list \<Rightarrow> vec \<Rightarrow> vec result" where
  "index_add n idx xs =
     rfold (\<lambda>(k, x) a. if 0 \<le> k \<and> k < int n then Inr (a[nat k := a ! nat k + x]) else Inl IndexError) (zip idx xs) (replicate n 0)"

definition group_mean_std :: "real \<Rightarrow> vec \<Rightarrow> int list \<Rightarrow> (vec \<times> vec \<times> vec) result" where
  "group_mean_std eps scores gidx =
     (if length scores \<noteq> length gidx then Inl ValueError
      else if gidx = [] \<or> Max (set gidx) + 1 = 0 then Inr ([], [], [])
      else let G = nat (Max (set gidx) + 1)
        in rbind (index_add G gidx (map (\<lambda>_. 1) scores)) (\<lambda>count.
           rbind (index_add G gidx scores) (\<lambda>s1.
           let mean = map2 (\<lambda>s c. s / max c 1) s1 count
           in rbind (index_add G gidx (map2 (\<lambda>s g. (s - mean ! nat g)\<^sup>2) scores gidx)) (\<lambda>var_num.
           let std = map2 (\<lambda>v c. sqrt (max (v / max (c - 1) 1) eps)) var_num count
           in Inr (map2 (\<lambda>m c. if c \<le> 1 then 0 else m) mean count, map2 (\<lambda>s c. if c \<le> 1 then 1 else s) std count, count)))))"

section \<open>Lemmas on groups\<close>

text \<open>The members of group \<open>k\<close>.\<close>

definition members :: "'k \<Rightarrow> 'k list \<Rightarrow> 'a list \<Rightarrow> 'a list" where
  "members k idx xs = map snd (filter (\<lambda>p. fst p = k) (zip idx xs))"

lemma members_Nil [simp]: "members k [] xs = []" "members k idx [] = []"
  by (simp_all add: members_def)

lemma members_Cons [simp]: "members k (i # idx) (x # xs) = (if i = k then x # members k idx xs else members k idx xs)"
  by (simp add: members_def)

lemma members_map: "members k idx (map f xs) = map f (members k idx xs)"
proof (induction idx arbitrary: xs)
  case (Cons i idx)
  then show ?case by (cases xs) auto
qed simp

lemma length_members_map2:
  "length idx = length xs \<Longrightarrow> members k idx (map2 f xs idx) = map (\<lambda>x. f x k) (members k idx xs)"
  by (induction idx xs rule: list_induct2) auto

text \<open>An injective relabelling does not change the members.\<close>

lemma members_relabel:
  assumes "length g = length idx" "length idx = length xs" "\<forall>i < length idx. g ! i = k' \<longleftrightarrow> idx ! i = k"
  shows "members k' g xs = members k idx xs"
  using assms
proof (induction g idx xs rule: list_induct3)
  case (Cons a g b idx x xs)
  have "a = k' \<longleftrightarrow> b = k" using Cons.prems by (metis length_greater_0_conv list.distinct(1) nth_Cons_0)
  moreover have "\<forall>i < length idx. g ! i = k' \<longleftrightarrow> idx ! i = k" using Cons.prems by (metis Suc_less_eq length_Cons nth_Cons_Suc)
  ultimately show ?case using Cons.IH by simp
qed simp

lemma index_add_loop:
  assumes "\<forall>k \<in> set idx. 0 \<le> k \<and> k < int n" "length a = n"
  shows "rfold (\<lambda>(k, x) a. if 0 \<le> k \<and> k < int n then Inr (a[nat k := a ! nat k + x]) else Inl IndexError) (zip idx xs) a =
    Inr (map (\<lambda>j. a ! j + sum_list (members (int j) idx xs)) [0..<n])"
  using assms
proof (induction idx arbitrary: xs a)
  case Nil
  have "map ((!) a) [0..<n] = a" using Nil.prems(2) map_nth by blast
  then show ?case by simp
next
  case (Cons k idx)
  show ?case
  proof (cases xs)
    case Nil
    have "map ((!) a) [0..<n] = a" using Cons.prems(2) map_nth by blast
    then show ?thesis by (simp add: Nil)
  next
    case xs: (Cons x ys)
    have k: "0 \<le> k" "k < int n" and rest: "\<forall>k \<in> set idx. 0 \<le> k \<and> k < int n" using Cons.prems(1) by simp_all
    have "rfold (\<lambda>(k, x) a. if 0 \<le> k \<and> k < int n then Inr (a[nat k := a ! nat k + x]) else Inl IndexError) (zip idx ys) (a[nat k := a ! nat k + x]) =
      Inr (map (\<lambda>j. (a[nat k := a ! nat k + x]) ! j + sum_list (members (int j) idx ys)) [0..<n])"
      by (rule Cons.IH [OF rest]) (use Cons.prems(2) in simp)
    moreover have "(a[nat k := a ! nat k + x]) ! j + sum_list (members (int j) idx ys) = a ! j + sum_list (members (int j) (k # idx) (x # ys))"
      if "j < n" for j
    proof (cases "j = nat k")
      case True
      then show ?thesis using that k Cons.prems(2) by (simp add: add.assoc)
    next
      case False
      then have "k \<noteq> int j" using k by auto
      then show ?thesis using False by simp
    qed
    ultimately show ?thesis using k by (simp add: xs del: members_Cons cong: map_cong)
  qed
qed

lemma index_add_members:
  "\<forall>k \<in> set idx. 0 \<le> k \<and> k < int n \<Longrightarrow> index_add n idx xs = Inr (map (\<lambda>j. sum_list (members (int j) idx xs)) [0..<n])"
  by (simp add: index_add_def index_add_loop)

lemma unique_inverse_eq_iff:
  assumes "x \<in> set xs" "y \<in> set xs"
  shows "length (filter (\<lambda>z. z < x) (remdups xs)) = length (filter (\<lambda>z. z < y) (remdups xs)) \<longleftrightarrow> x = (y :: 'a::linorder)"
proof -
  have len: "length (filter (\<lambda>z. z < u) (remdups xs)) = card {z \<in> set xs. z < u}" for u
    using distinct_card [of "filter (\<lambda>z. z < u) (remdups xs)"] by simp
  have "card {z \<in> set xs. z < u} < card {z \<in> set xs. z < v}" if "u < v" "u \<in> set xs" for u v
    by (rule psubset_card_mono) (use that in auto)
  from this [of x y] this [of y x] show ?thesis unfolding len using assms by (cases x y rule: linorder_cases) auto
qed

text \<open>Numbering keeps the groups apart, if integers that strings denote do.\<close>

lemma as_torch_index_groups:
  assumes "\<forall>l \<in> set labels. label_int parse l \<noteq> None \<Longrightarrow> inj_on (label_int parse) (set labels)" "inj_on (label_str show_int) (set labels)" "i < length labels" "j < length labels"
  shows "as_torch_index parse show_int labels ! i = as_torch_index parse show_int labels ! j \<longleftrightarrow> labels ! i = labels ! j"
proof (cases "\<forall>l \<in> set labels. label_int parse l \<noteq> None")
  case True
  then have "the (label_int parse (labels ! i)) = the (label_int parse (labels ! j)) \<longleftrightarrow> labels ! i = labels ! j"
    using assms(1) [OF True] assms(3,4) by (metis inj_onD nth_mem option.expand)
  then show ?thesis using True assms(3,4) by (simp add: as_torch_index_def)
next
  case False
  have "label_str show_int (labels ! i) = label_str show_int (labels ! j) \<longleftrightarrow> labels ! i = labels ! j"
    using assms by (metis inj_onD nth_mem)
  moreover have "label_str show_int (labels ! i) \<in> set (map (label_str show_int) labels)" "label_str show_int (labels ! j) \<in> set (map (label_str show_int) labels)"
    using assms(3,4) by simp_all
  note unique_inverse_eq_iff [OF this]
  ultimately show ?thesis using assms(3,4)
    by (simp only: as_torch_index_def False if_False unique_inverse_def nth_map length_map of_nat_eq_iff)
qed

text \<open>What \<open>group_mean_std\<close> returns for the group of a member.\<close>

lemma group_mean_std_members:
  assumes len: "length scores = length gidx" and pos: "\<forall>k \<in> set gidx. 0 \<le> k" and ne: "gidx \<noteq> []"
  obtains mean std count where "group_mean_std eps scores gidx = Inr (mean, std, count)"
    "\<forall>k \<in> set gidx. 0 \<le> k \<and> k < int (length mean)"
    "\<And>k xs. k \<in> set gidx \<Longrightarrow> xs = members k gidx scores \<Longrightarrow>
       mean ! nat k = (if length xs \<le> 1 then 0 else t_mean xs) \<and>
       std ! nat k = (if length xs \<le> 1 then 1 else sqrt (max (sum_list (map (\<lambda>x. (x - t_mean xs)\<^sup>2) xs) / (real (length xs) - 1)) eps))"
proof -
  define G where "G = nat (Max (set gidx) + 1)"
  have le: "k \<le> Max (set gidx)" if "k \<in> set gidx" for k using that by simp
  have top: "0 \<le> Max (set gidx)" using ne pos by (metis Max_in List.finite_set set_empty)
  have rng: "\<forall>k \<in> set gidx. 0 \<le> k \<and> k < int G" using pos le top by (fastforce simp: G_def)
  define count where "count = map (\<lambda>j. real (length (members (int j) gidx scores))) [0..<G]"
  define mean where "mean = map (\<lambda>j. let xs = members (int j) gidx scores in sum_list xs / max (real (length xs)) 1) [0..<G]"
  define var_num where "var_num = map (\<lambda>j. let xs = members (int j) gidx scores in sum_list (map (\<lambda>x. (x - mean ! j)\<^sup>2) xs)) [0..<G]"
  have c: "index_add G gidx (map (\<lambda>_. 1) scores) = Inr count"
    unfolding index_add_members [OF rng] by (simp add: count_def members_map sum_list_triv)
  have s: "index_add G gidx scores = Inr (map (\<lambda>j. sum_list (members (int j) gidx scores)) [0..<G])" by (rule index_add_members [OF rng])
  have m: "map2 (\<lambda>s c. s / max c 1) (map (\<lambda>j. sum_list (members (int j) gidx scores)) [0..<G]) count = mean"
    by (simp add: mean_def count_def Let_def map2_map_map)
  have "members (int j) gidx (map2 (\<lambda>s g. (s - mean ! nat g)\<^sup>2) scores gidx) = map (\<lambda>x. (x - mean ! j)\<^sup>2) (members (int j) gidx scores)" for j
    using length_members_map2 [OF len [symmetric], of "int j" "\<lambda>s g. (s - mean ! nat g)\<^sup>2"] by simp
  then have v: "index_add G gidx (map2 (\<lambda>s g. (s - mean ! nat g)\<^sup>2) scores gidx) = Inr var_num"
    unfolding index_add_members [OF rng] by (simp add: var_num_def Let_def)
  have eq: "group_mean_std eps scores gidx = Inr (map2 (\<lambda>m c. if c \<le> 1 then 0 else m) mean count,
      map2 (\<lambda>s c. if c \<le> 1 then 1 else s) (map2 (\<lambda>v c. sqrt (max (v / max (c - 1) 1) eps)) var_num count) count, count)"
    using len ne top by (simp add: group_mean_std_def Let_def c s m v flip: G_def)
  show ?thesis
  proof (rule that [OF eq])
    show "\<forall>k \<in> set gidx. 0 \<le> k \<and> k < int (length (map2 (\<lambda>m c. if c \<le> 1 then 0 else m) mean count))"
      using rng by (simp add: mean_def count_def)
  next
    fix k xs assume k: "k \<in> set gidx" and xs: "xs = members k gidx scores"
    have j: "nat k < G" "int (nat k) = k" using rng k by auto
    have n: "count ! nat k = real (length xs)" "mean ! nat k = sum_list xs / max (real (length xs)) 1" "length count = G" "length mean = G" "length var_num = G"
      "var_num ! nat k = sum_list (map (\<lambda>x. (x - mean ! nat k)\<^sup>2) xs)"
      using j by (simp_all add: count_def mean_def var_num_def Let_def xs)
    have big: "max (real (length xs)) 1 = real (length xs)" "max (real (length xs) - 1) 1 = real (length xs) - 1" if "\<not> length xs \<le> 1" using that by auto
    show "map2 (\<lambda>m c. if c \<le> 1 then 0 else m) mean count ! nat k = (if length xs \<le> 1 then 0 else t_mean xs) \<and>
      map2 (\<lambda>s c. if c \<le> 1 then 1 else s) (map2 (\<lambda>v c. sqrt (max (v / max (c - 1) 1) eps)) var_num count) count ! nat k =
        (if length xs \<le> 1 then 1 else sqrt (max (sum_list (map (\<lambda>x. (x - t_mean xs)\<^sup>2) xs) / (real (length xs) - 1)) eps))"
      using j(1) n big by (cases "length xs \<le> 1") (auto simp: t_mean_def)
  qed
qed

end
