(* ===== verification/Advantages.thy ===== *)
theory Advantages
  imports Torch_Functional
begin

text \<open>
  The advantage estimators of \<open>verl/trainer/ppo/core_algos.py\<close>, for outcome rewards per response and for token rewards with values.

  Each estimator returns the pair of advantages and returns, or the exception that it raises. The dicts from group labels to scores are association
  lists in the order of insertion. Options that an estimator reads from its configuration are arguments.
\<close>

section \<open>KL controllers\<close>

datatype kl_controller =
    FixedKLController (ctrl_value: real)
  | AdaptiveKLController (ctrl_value: real) (ctrl_target: real) (ctrl_horizon: real)

definition get_kl_controller :: "string \<Rightarrow> real \<Rightarrow> real \<Rightarrow> real \<Rightarrow> kl_controller result" where
  "get_kl_controller typ kl_coef target_kl horizon =
     (if typ = ''fixed'' then Inr (FixedKLController kl_coef)
      else if typ = ''adaptive'' then if 0 < horizon then Inr (AdaptiveKLController kl_coef target_kl horizon) else Inl AssertionError
      else Inl NotImplementedError)"

fun kl_update :: "real \<Rightarrow> real \<Rightarrow> kl_controller \<Rightarrow> kl_controller" where
  "kl_update current_kl n_steps (FixedKLController v) = FixedKLController v"
| "kl_update current_kl n_steps (AdaptiveKLController v target horizon) =
     (let proportional_error = clamp (- 1 / 5) (1 / 5) (current_kl / target - 1);
          mult = 1 + proportional_error * n_steps / horizon
      in AdaptiveKLController (v * mult) target horizon)"

section \<open>Generalized advantage estimation\<close>

text \<open>
  One response: the loop runs from the last token to the first, with the next value, the running advantage and the advantages so far.
\<close>

fun gae_row :: "real \<Rightarrow> real \<Rightarrow> (real \<times> real \<times> real) list \<Rightarrow> real \<times> real \<times> real list" where
  "gae_row gamma lam [] = (0, 0, [])"
| "gae_row gamma lam ((reward, v, m) # toks) =
     (case gae_row gamma lam toks of (nextvalues, lastgaelam, advs) \<Rightarrow>
        let delta = reward + gamma * nextvalues - v;
            lastgaelam' = delta + gamma * lam * lastgaelam;
            nextvalues = v * m + (1 - m) * nextvalues;
            lastgaelam = lastgaelam' * m + (1 - m) * lastgaelam
        in (nextvalues, lastgaelam, lastgaelam # advs))"

definition gae_advantages :: "real \<Rightarrow> real \<Rightarrow> mat \<Rightarrow> mat \<Rightarrow> mat \<Rightarrow> mat" where
  "gae_advantages gamma lam rewards values response_mask =
     map (\<lambda>(rs, vs, ms). snd (snd (gae_row gamma lam (zip rs (zip vs ms))))) (zip rewards (zip values response_mask))"

definition compute_gae_advantage_return :: "mat \<Rightarrow> mat \<Rightarrow> mat \<Rightarrow> real \<Rightarrow> real \<Rightarrow> (mat \<times> mat) result" where
  "compute_gae_advantage_return rewards values response_mask gamma lam =
     (let advantages = gae_advantages gamma lam rewards values response_mask; returns = mat2 (+) advantages values
      in rbind (masked_whiten True advantages response_mask) (\<lambda>advantages. Inr (advantages, returns)))"

section \<open>Groups of responses\<close>

definition group_append :: "'k \<Rightarrow> 'a \<Rightarrow> ('k \<times> 'a list) list \<Rightarrow> ('k \<times> 'a list) list" where
  "group_append k x d = AList.update k ((case map_of d k of None \<Rightarrow> [] | Some xs \<Rightarrow> xs) @ [x]) d"

definition id2score :: "'k list \<Rightarrow> 'a list \<Rightarrow> ('k \<times> 'a list) list" where
  "id2score index scores = fold (\<lambda>(k, x). group_append k x) (zip index scores) []"

definition row_sums :: "mat \<Rightarrow> vec" where
  "row_sums rewards = map sum_list rewards"

definition group_mean :: "vec \<Rightarrow> real result" where
  "group_mean xs = (if length xs = 1 then Inr 0 else if 1 < length xs then Inr (t_mean xs) else Inl ValueError)"

definition group_stats :: "vec \<Rightarrow> (real \<times> real) result" where
  "group_stats xs = (if length xs = 1 then Inr (0, 1) else if 1 < length xs then Inr (t_mean xs, t_std xs) else Inl ValueError)"

text \<open>A statistic for every group, then a loop over the responses that looks it up.\<close>

definition per_group :: "('a list \<Rightarrow> 's result) \<Rightarrow> ('a \<Rightarrow> nat \<Rightarrow> 's \<Rightarrow> 'b) \<Rightarrow> 'k list \<Rightarrow> 'a list \<Rightarrow> 'b list result" where
  "per_group stat f index scores =
     (if length index < length scores then Inl IndexError
      else let d = id2score index scores
        in rbind (rmap (\<lambda>(k, xs). rbind (stat xs) (\<lambda>s. Inr (k, length xs, s))) d) (\<lambda>stats.
             rmap (\<lambda>(k, x). case map_of stats k of None \<Rightarrow> Inl KeyError | Some (n, s) \<Rightarrow> Inr (f x n s)) (zip index scores)))"

definition outcome :: "vec result \<Rightarrow> mat \<Rightarrow> (mat \<times> mat) result" where
  "outcome scores response_mask = rbind scores (\<lambda>scores. let a = spread scores response_mask in Inr (a, a))"

definition compute_grpo_outcome_advantage :: "mat \<Rightarrow> mat \<Rightarrow> 'k list \<Rightarrow> real \<Rightarrow> bool \<Rightarrow> (mat \<times> mat) result" where
  "compute_grpo_outcome_advantage rewards response_mask index epsilon norm_adv_by_std =
     outcome (per_group group_stats (\<lambda>x n (mu, sd). if norm_adv_by_std then (x - mu) / (sd + epsilon) else x - mu) index (row_sums rewards)) response_mask"

text \<open>
  \<open>group_mean_std\<close> raises on negative indices, unless the largest one is \<open>-1\<close>: then it returns empty tensors, and indexing them raises.
\<close>

definition compute_grpo_vectorized_outcome_advantage ::
  "(string \<Rightarrow> int option) \<Rightarrow> (int \<Rightarrow> string) \<Rightarrow> mat \<Rightarrow> mat \<Rightarrow> label list \<Rightarrow> real \<Rightarrow> bool \<Rightarrow> (mat \<times> mat) result" where
  "compute_grpo_vectorized_outcome_advantage parse show_int rewards response_mask index epsilon norm_adv_by_std =
     (let scores = row_sums rewards; g = as_torch_index parse show_int index
      in rbind (group_mean_std 0 scores g) (\<lambda>(mean_g, std_g, _).
         if \<exists>k \<in> set g. k < 0 \<or> int (length mean_g) \<le> k then Inl IndexError
         else outcome (Inr (map2 (\<lambda>s k. if norm_adv_by_std then (s - mean_g ! nat k) / (std_g ! nat k + epsilon) else s - mean_g ! nat k) scores g)) response_mask))"

text \<open>
  GDPO: \<open>comps\<close> are the scores per reward key, placed on the last valid token of each response; without them the token rewards are used.
\<close>

definition place_score :: "int \<Rightarrow> nat \<Rightarrow> real \<Rightarrow> vec result" where
  "place_score pos n score =
     (let j = (if pos < 0 then pos + int n else pos)
      in if 0 \<le> j \<and> j < int n then Inr ((replicate n 0)[nat j := score]) else Inl IndexError)"

definition gdpo_score_list :: "mat \<Rightarrow> mat \<Rightarrow> (int list \<times> vec option list) option \<Rightarrow> mat list result" where
  "gdpo_score_list rewards response_mask comps =
     (case comps of None \<Rightarrow> Inr [rewards]
      | Some (lengths, keys) \<Rightarrow>
          if keys = [] then Inl AssertionError
          else rmap (\<lambda>comp. case comp of None \<Rightarrow> Inl AssertionError
                 | Some scores \<Rightarrow> rmap (\<lambda>(m, l, s). place_score (l - 1) (length m) s) (zip response_mask (zip lengths scores))) keys)"

definition compute_gdpo_outcome_advantage ::
  "mat \<Rightarrow> mat \<Rightarrow> 'k list \<Rightarrow> real \<Rightarrow> bool \<Rightarrow> (int list \<times> vec option list) option \<Rightarrow> vec option \<Rightarrow> (mat \<times> mat) result" where
  "compute_gdpo_outcome_advantage rewards response_mask index epsilon norm_adv_by_std comps weights =
     rbind (gdpo_score_list rewards response_mask comps) (\<lambda>score_list.
       let ws = (case weights of None \<Rightarrow> map (\<lambda>_. 1) score_list | Some ws \<Rightarrow> ws)
       in rbind (rmap (\<lambda>(i, s). rbind (compute_grpo_outcome_advantage s response_mask index epsilon norm_adv_by_std) (\<lambda>(a, _).
                    if i < length ws then Inr (map (map ((*) (ws ! i))) a) else Inl IndexError)) (enumerate 0 score_list)) (\<lambda>parts.
          rbind (masked_whiten True (foldl (mat2 (+)) (hd parts) (tl parts)) response_mask) (\<lambda>a.
            let a = mat2 (*) a response_mask in Inr (a, a))))"

text \<open>Pass@k: \<open>top2\<close> is \<open>torch.topk(rewards, 2).indices\<close>, whose order among equal rewards is open.\<close>

definition passk_step :: "(vec \<Rightarrow> nat \<times> nat) \<Rightarrow> real \<Rightarrow> bool \<Rightarrow> 'k \<times> (nat \<times> real) list \<Rightarrow> vec \<Rightarrow> vec result" where
  "passk_step top2 epsilon norm_adv_by_std = (\<lambda>(k, samples) advantages.
     let rs = map snd samples
     in if length rs < 2 then Inl ValueError
        else case top2 rs of (i, j) \<Rightarrow>
          let advantage = rs ! i - rs ! j;
              advantage = (if norm_adv_by_std then advantage / (t_std rs + epsilon) else advantage)
          in Inr (advantages[fst (samples ! i) := advantage]))"

definition compute_grpo_passk_outcome_advantage ::
  "(vec \<Rightarrow> nat \<times> nat) \<Rightarrow> mat \<Rightarrow> mat \<Rightarrow> 'k list \<Rightarrow> real \<Rightarrow> bool option \<Rightarrow> (mat \<times> mat) result" where
  "compute_grpo_passk_outcome_advantage top2 rewards response_mask index epsilon config =
     (case config of None \<Rightarrow> Inl AssertionError
      | Some norm_adv_by_std \<Rightarrow>
          let scores = row_sums rewards
          in if length index < length scores then Inl IndexError
             else outcome (rfold (passk_step top2 epsilon norm_adv_by_std) (id2score index (enumerate 0 scores)) (map (\<lambda>_. 0) scores)) response_mask)"

definition compute_reinforce_plus_plus_baseline_outcome_advantage :: "mat \<Rightarrow> mat \<Rightarrow> 'k list \<Rightarrow> (mat \<times> mat) result" where
  "compute_reinforce_plus_plus_baseline_outcome_advantage rewards response_mask index =
     rbind (per_group group_mean (\<lambda>x n mu. x - mu) index (row_sums rewards)) (\<lambda>scores.
     rbind (masked_whiten True (spread scores response_mask) response_mask) (\<lambda>a.
       let a = mat2 (*) a response_mask in Inr (a, a)))"

definition compute_rloo_outcome_advantage :: "mat \<Rightarrow> mat \<Rightarrow> 'k list \<Rightarrow> (mat \<times> mat) result" where
  "compute_rloo_outcome_advantage rewards response_mask index =
     outcome (per_group group_mean
       (\<lambda>x n mu. if 1 < n then x * real n / (real n - 1) - mu * real n / (real n - 1) else x) index (row_sums rewards)) response_mask"

definition opo_baseline :: "(real \<times> real) list \<Rightarrow> real option result" where
  "opo_baseline xs =
     (if length xs = 1 then Inr (Some 0)
      else if 1 < length xs then Inr (tdiv (sum_list (map (\<lambda>(s, l). l * s) xs)) (sum_list (map snd xs)))
      else Inl ValueError)"

text \<open>A group whose responses are all empty has no baseline (nan).\<close>

definition compute_opo_outcome_advantage :: "mat \<Rightarrow> mat \<Rightarrow> 'k list \<Rightarrow> (real option list list \<times> real option list list) result" where
  "compute_opo_outcome_advantage rewards response_mask index =
     rbind (per_group opo_baseline (\<lambda>(s, l) n b. map_option ((-) s) b) index (zip (row_sums rewards) (row_sums response_mask))) (\<lambda>scores.
       let a = map2 (\<lambda>s. map (\<lambda>m. map_option (\<lambda>s. s * m) s)) scores response_mask in Inr (a, a))"

definition gpg_scores :: "real \<Rightarrow> 'k list \<Rightarrow> vec \<Rightarrow> vec result" where
  "gpg_scores f_norm index scores =
     (let alpha = real (length scores) / max (real (length (filter (\<lambda>s. s \<noteq> 0) scores))) 1
      in per_group group_stats (\<lambda>x n (mu, sd). alpha * (x - mu) / f_norm) index scores)"

definition compute_gpg_outcome_advantage :: "mat \<Rightarrow> mat \<Rightarrow> 'k list \<Rightarrow> real \<Rightarrow> (mat \<times> mat) result" where
  "compute_gpg_outcome_advantage rewards response_mask index f_norm = outcome (gpg_scores f_norm index (row_sums rewards)) response_mask"

definition bincount :: "nat list \<Rightarrow> vec \<Rightarrow> nat \<Rightarrow> real" where
  "bincount inverse_ix weights k = sum_list (members k inverse_ix weights)"

definition compute_rloo_vectorized_outcome_advantage :: "mat \<Rightarrow> mat \<Rightarrow> 'k::linorder list \<Rightarrow> mat \<times> mat" where
  "compute_rloo_vectorized_outcome_advantage rewards response_mask index =
     (let scores = row_sums rewards; inverse_ix = unique_inverse index;
          c = map (bincount inverse_ix (map (\<lambda>_. 1) inverse_ix)) inverse_ix;
          total = map (bincount inverse_ix scores) inverse_ix;
          adv = map2 (\<lambda>(c, s) t. ((c * s - t) / max (c - 1) 1) * (if 1 < c then 1 else 0)) (zip c scores) total;
          adv = spread adv response_mask
      in (adv, adv))"

section \<open>Returns per token\<close>

fun reinforce_row :: "real \<Rightarrow> (real \<times> real) list \<Rightarrow> real \<times> vec" where
  "reinforce_row gamma [] = (0, [])"
| "reinforce_row gamma ((reward, m) # toks) =
     (case reinforce_row gamma toks of (running_return, returns) \<Rightarrow>
        let running_return = reward + gamma * running_return in (running_return * m, running_return # returns))"

definition compute_reinforce_plus_plus_outcome_advantage :: "mat \<Rightarrow> mat \<Rightarrow> real option \<Rightarrow> (mat \<times> mat) result" where
  "compute_reinforce_plus_plus_outcome_advantage rewards response_mask config =
     (case config of None \<Rightarrow> Inl AssertionError
      | Some gamma \<Rightarrow>
          let returns = map2 (\<lambda>rs ms. snd (reinforce_row gamma (zip rs ms))) rewards response_mask
          in rbind (masked_whiten True returns response_mask) (\<lambda>a. Inr (mat2 (*) a response_mask, returns)))"

text \<open>Rewards to go: the sums of the rewards from a token on.\<close>

definition reward_to_go :: "mat \<Rightarrow> mat \<Rightarrow> mat" where
  "reward_to_go rewards response_mask = map (\<lambda>row. rev (cumsum (rev row))) (mat2 (*) rewards response_mask)"

definition compute_remax_outcome_advantage :: "mat \<Rightarrow> vec \<Rightarrow> mat \<Rightarrow> mat \<times> mat" where
  "compute_remax_outcome_advantage rewards reward_baselines response_mask =
     (let returns = reward_to_go rewards response_mask
      in (mat2 (-) returns (spread reward_baselines response_mask), returns))"

section \<open>Optimal token baseline\<close>

definition path_variance :: "mat \<Rightarrow> mat \<Rightarrow> mat \<Rightarrow> mat option \<Rightarrow> mat" where
  "path_variance old_log_probs sum_pi_squared response_mask is_weights =
     (let w = mat2 (\<lambda>lp sp. 1 - 2 * exp lp + sp) old_log_probs sum_pi_squared;
          w = (case is_weights of None \<Rightarrow> w | Some iw \<Rightarrow> mat2 (\<lambda>w x. w * x\<^sup>2) w iw)
      in map cumsum (mat2 (*) w response_mask))"

definition sum_columns :: "nat \<Rightarrow> mat \<Rightarrow> vec" where
  "sum_columns n rows = map (\<lambda>t. sum_list (map (\<lambda>r. r ! t) rows)) [0..<n]"

text \<open>
  The row to cut and the place: the longest response, if there is one, behind the length of the second longest.
\<close>

definition zero_tail :: "nat list \<Rightarrow> (nat \<times> nat) option" where
  "zero_tail lengths =
     (let srt = sort lengths; mx = last srt; second = srt ! (length srt - 2); pos = filter (\<lambda>i. lengths ! i = mx) [0..<length lengths]
      in if length pos = 1 \<and> second < mx then Some (hd pos, second) else None)"

definition cut_tail :: "nat \<Rightarrow> vec \<Rightarrow> vec" where
  "cut_tail n xs = take n xs @ map (\<lambda>_. 0) (drop n xs)"

definition assign_group :: "bool \<Rightarrow> nat list \<Rightarrow> nat list \<Rightarrow> vec \<Rightarrow> mat \<Rightarrow> mat" where
  "assign_group handle_zero_tail traj lengths b baselines =
     (let bl = fold (\<lambda>i bl. bl[i := b]) traj baselines
      in case (if handle_zero_tail then zero_tail lengths else None) of None \<Rightarrow> bl
         | Some (j, n) \<Rightarrow> bl[traj ! j := cut_tail n (bl ! (traj ! j))])"

definition otb_group :: "real \<Rightarrow> bool \<Rightarrow> nat \<Rightarrow> mat \<Rightarrow> mat \<Rightarrow> mat \<Rightarrow> nat list \<Rightarrow> mat \<Rightarrow> mat" where
  "otb_group epsilon handle_zero_tail seq_len returns w response_mask traj baselines =
     (if length traj = 1 then baselines
      else let rg = map ((!) returns) traj; wg = map ((!) w) traj; mg = map ((!) response_mask) traj;
               numerator = sum_columns seq_len (mat2 (*) (mat2 (*) rg wg) mg);
               denominator = map (\<lambda>x. x + epsilon) (sum_columns seq_len (mat2 (*) wg mg))
        in assign_group handle_zero_tail traj (map (\<lambda>m. nat \<lfloor>sum_list m\<rfloor>) mg) (map2 (/) numerator denominator) baselines)"

definition compute_optimal_token_baseline_advantage ::
  "mat \<Rightarrow> mat \<Rightarrow> 'k list \<Rightarrow> mat \<Rightarrow> mat \<Rightarrow> mat option \<Rightarrow> bool \<Rightarrow> real \<Rightarrow> (mat \<times> mat) result" where
  "compute_optimal_token_baseline_advantage rewards response_mask index old_log_probs sum_pi_squared is_weights handle_zero_tail epsilon =
     (if length index < length rewards then Inl IndexError
      else let seq_len = (case rewards of [] \<Rightarrow> 0 | r # _ \<Rightarrow> length r);
               returns = reward_to_go rewards response_mask;
               w = path_variance old_log_probs sum_pi_squared response_mask is_weights;
               groups = id2score index [0..<length rewards];
               baselines = fold (\<lambda>(_, traj). otb_group epsilon handle_zero_tail seq_len returns w response_mask traj) groups (map (map (\<lambda>_. 0)) returns)
        in Inr (mat2 (*) (mat2 (-) returns baselines) response_mask, returns))"

text \<open>
  The version for several turns works on the tokens of the policy only: \<open>compress\<close> takes the entries under the mask, \<open>scatter\<close> puts them back.
\<close>

definition compress :: "nat \<Rightarrow> vec \<Rightarrow> vec \<Rightarrow> vec" where
  "compress n ms row = (let xs = map snd (filter (\<lambda>(m, x). m \<noteq> 0) (zip ms row)) in xs @ replicate (n - length xs) 0)"

fun scatter :: "vec \<Rightarrow> vec \<Rightarrow> vec" where
  "scatter [] xs = []"
| "scatter (m # ms) xs = (if m \<noteq> 0 then hd xs # scatter ms (tl xs) else 0 # scatter ms xs)"

definition tir_group :: "real \<Rightarrow> bool \<Rightarrow> nat \<Rightarrow> mat \<Rightarrow> mat \<Rightarrow> nat list \<Rightarrow> nat list \<Rightarrow> mat \<Rightarrow> mat" where
  "tir_group epsilon handle_zero_tail max_len all_returns all_w lengths traj baselines =
     (if length traj = 1 then baselines[hd traj := replicate max_len 0]
      else let wg = map ((!) all_w) traj; rg = map ((!) all_returns) traj;
               b_star = map2 (/) (sum_columns max_len (mat2 (*) rg wg)) (map (\<lambda>x. x + epsilon) (sum_columns max_len wg))
        in assign_group handle_zero_tail traj (map ((!) lengths) traj) b_star baselines)"

definition compute_multi_turn_optimal_token_baseline_advantage ::
  "mat \<Rightarrow> mat \<Rightarrow> 'k list \<Rightarrow> mat \<Rightarrow> mat \<Rightarrow> mat option \<Rightarrow> bool \<Rightarrow> real \<Rightarrow> (mat \<times> mat) result" where
  "compute_multi_turn_optimal_token_baseline_advantage rewards response_mask index old_log_probs sum_pi_squared is_weights handle_zero_tail epsilon =
     (if length index < length rewards then Inl IndexError
      else let token_returns = reward_to_go rewards response_mask;
               w = path_variance old_log_probs sum_pi_squared response_mask is_weights;
               lengths = map (\<lambda>m. nat \<lfloor>sum_list m\<rfloor>) response_mask;
               max_len = (if lengths = [] then 0 else Max (set lengths));
               all_w = map2 (compress max_len) response_mask w;
               all_returns = map2 (compress max_len) response_mask token_returns;
               rows = filter (\<lambda>i. lengths ! i \<noteq> 0) [0..<length lengths];
               groups = id2score (map ((!) index) rows) rows;
               baselines = fold (\<lambda>(_, traj). tir_group epsilon handle_zero_tail max_len all_returns all_w lengths traj) groups (map (map (\<lambda>_. 0)) all_returns);
               all_advantages = mat2 (-) all_returns baselines
        in Inr (mat2 (*) (map2 scatter response_mask all_advantages) response_mask, token_returns))"

section \<open>The registry of estimators\<close>

datatype advantage_estimator =
    GAE | GRPO | REINFORCE_PLUS_PLUS | REINFORCE_PLUS_PLUS_BASELINE | REMAX | RLOO | OPO | GRPO_PASSK | GPG
  | RLOO_VECTORIZED | GRPO_VECTORIZED | OPTIMAL_TOKEN_BASELINE | TIR_OPTIMAL_TOKEN_BASELINE | GDPO

record adv_batch =
  token_level_rewards :: mat
  adv_values :: mat
  adv_mask :: mat
  adv_index :: "label list"
  reward_baselines :: vec
  adv_log_probs :: mat
  adv_sum_pi_squared :: mat
  adv_is_weights :: "mat option"
  adv_comps :: "(int list \<times> vec option list) option"

record adv_config =
  adv_gamma :: real
  adv_lam :: real
  adv_epsilon :: real
  adv_norm :: bool
  adv_f_norm :: real
  adv_zero_tail :: bool
  adv_weights :: "vec option"
  adv_top2 :: "vec \<Rightarrow> nat \<times> nat"
  adv_parse :: "string \<Rightarrow> int option"
  adv_show :: "int \<Rightarrow> string"

type_synonym nan_mat = "real option list list"

definition plain_nan :: "mat \<times> mat \<Rightarrow> nan_mat \<times> nan_mat" where
  "plain_nan = (\<lambda>(a, r). (map (map Some) a, map (map Some) r))"

fun adv_estimator_fn :: "advantage_estimator \<Rightarrow> adv_config \<Rightarrow> adv_batch \<Rightarrow> (nan_mat \<times> nan_mat) result" where
  "adv_estimator_fn GAE c b = rbind (compute_gae_advantage_return (token_level_rewards b) (adv_values b) (adv_mask b) (adv_gamma c) (adv_lam c)) (Inr \<circ> plain_nan)"
| "adv_estimator_fn GRPO c b = rbind (compute_grpo_outcome_advantage (token_level_rewards b) (adv_mask b) (adv_index b) (adv_epsilon c) (adv_norm c)) (Inr \<circ> plain_nan)"
| "adv_estimator_fn REINFORCE_PLUS_PLUS c b = rbind (compute_reinforce_plus_plus_outcome_advantage (token_level_rewards b) (adv_mask b) (Some (adv_gamma c))) (Inr \<circ> plain_nan)"
| "adv_estimator_fn REINFORCE_PLUS_PLUS_BASELINE c b =
     rbind (compute_reinforce_plus_plus_baseline_outcome_advantage (token_level_rewards b) (adv_mask b) (adv_index b)) (Inr \<circ> plain_nan)"
| "adv_estimator_fn REMAX c b = Inr (plain_nan (compute_remax_outcome_advantage (token_level_rewards b) (reward_baselines b) (adv_mask b)))"
| "adv_estimator_fn RLOO c b = rbind (compute_rloo_outcome_advantage (token_level_rewards b) (adv_mask b) (adv_index b)) (Inr \<circ> plain_nan)"
| "adv_estimator_fn OPO c b = compute_opo_outcome_advantage (token_level_rewards b) (adv_mask b) (adv_index b)"
| "adv_estimator_fn GRPO_PASSK c b =
     rbind (compute_grpo_passk_outcome_advantage (adv_top2 c) (token_level_rewards b) (adv_mask b) (adv_index b) (adv_epsilon c) (Some (adv_norm c))) (Inr \<circ> plain_nan)"
| "adv_estimator_fn GPG c b = rbind (compute_gpg_outcome_advantage (token_level_rewards b) (adv_mask b) (adv_index b) (adv_f_norm c)) (Inr \<circ> plain_nan)"
| "adv_estimator_fn RLOO_VECTORIZED c b =
     Inr (plain_nan (compute_rloo_vectorized_outcome_advantage (token_level_rewards b) (adv_mask b) (map (label_str (adv_show c)) (adv_index b))))"
| "adv_estimator_fn GRPO_VECTORIZED c b =
     rbind (compute_grpo_vectorized_outcome_advantage (adv_parse c) (adv_show c) (token_level_rewards b) (adv_mask b) (adv_index b) (adv_epsilon c) (adv_norm c)) (Inr \<circ> plain_nan)"
| "adv_estimator_fn OPTIMAL_TOKEN_BASELINE c b =
     rbind (compute_optimal_token_baseline_advantage (token_level_rewards b) (adv_mask b) (adv_index b) (adv_log_probs b) (adv_sum_pi_squared b)
       (adv_is_weights b) (adv_zero_tail c) (adv_epsilon c)) (Inr \<circ> plain_nan)"
| "adv_estimator_fn TIR_OPTIMAL_TOKEN_BASELINE c b =
     rbind (compute_multi_turn_optimal_token_baseline_advantage (token_level_rewards b) (adv_mask b) (adv_index b) (adv_log_probs b) (adv_sum_pi_squared b)
       (adv_is_weights b) (adv_zero_tail c) (adv_epsilon c)) (Inr \<circ> plain_nan)"
| "adv_estimator_fn GDPO c b =
     rbind (compute_gdpo_outcome_advantage (token_level_rewards b) (adv_mask b) (adv_index b) (adv_epsilon c) (adv_norm c) (adv_comps b) (adv_weights c)) (Inr \<circ> plain_nan)"

section \<open>Lemmas on groups\<close>

lemma map_of_group_append:
  "map_of (group_append k x d) j = (if j = k then Some ((case map_of d k of None \<Rightarrow> [] | Some xs \<Rightarrow> xs) @ [x]) else map_of d j)"
  by (simp add: group_append_def update_conv')

lemma map_of_groups:
  "map_of (fold (\<lambda>(k, x). group_append k x) (zip idx xs) d) k =
     (if members k idx xs = [] then map_of d k else Some ((case map_of d k of None \<Rightarrow> [] | Some ys \<Rightarrow> ys) @ members k idx xs))"
proof (induction idx arbitrary: xs d)
  case (Cons i idx)
  then show ?case by (cases xs) (auto simp: map_of_group_append split: option.splits)
qed simp

lemma distinct_groups: "distinct (map fst d) \<Longrightarrow> distinct (map fst (fold (\<lambda>(k, x). group_append k x) ps d))"
  by (induction ps arbitrary: d) (auto simp: group_append_def distinct_update)

lemma map_of_id2score: "map_of (id2score idx xs) k = (if members k idx xs = [] then None else Some (members k idx xs))"
  by (simp add: id2score_def map_of_groups)

lemma id2score_member: "(k, ys) \<in> set (id2score idx xs) \<Longrightarrow> ys = members k idx xs \<and> ys \<noteq> []"
proof -
  assume a: "(k, ys) \<in> set (id2score idx xs)"
  have "distinct (map fst (id2score idx xs))" unfolding id2score_def by (rule distinct_groups) simp
  then have "map_of (id2score idx xs) k = Some ys" using a by simp
  then show ?thesis by (simp add: map_of_id2score split: if_splits)
qed

lemma members_ne: "(k, x) \<in> set (zip idx xs) \<Longrightarrow> x \<in> set (members k idx xs)"
  by (force simp: members_def)

lemma length_members: "length (members k idx xs) = 0 \<or> members k idx xs \<noteq> []"
  by auto

lemma map_of_map_val: "map_of (map (\<lambda>(k, xs). (k, f xs)) d) k = map_option f (map_of d k)"
  by (induction d) auto

text \<open>A statistic that is defined on groups with members gives a value for every response.\<close>

lemma per_group_eq:
  assumes len: "length index = length scores" and stat: "\<And>xs. xs \<noteq> [] \<Longrightarrow> stat xs = Inr (st xs)"
  shows "per_group stat f index scores =
    Inr (map2 (\<lambda>k x. let xs = members k index scores in f x (length xs) (st xs)) index scores)"
proof -
  have "rmap (\<lambda>(k, xs). rbind (stat xs) (\<lambda>s. Inr (k, length xs, s))) (id2score index scores) = Inr (map (\<lambda>(k, xs). (k, length xs, st xs)) (id2score index scores))"
    by (rule rmap_pure) (auto dest: id2score_member simp: stat)
  moreover have "rmap (\<lambda>(k, x). case map_of (map (\<lambda>(k, xs). (k, length xs, st xs)) (id2score index scores)) k of None \<Rightarrow> Inl KeyError | Some (n, s) \<Rightarrow> Inr (f x n s)) (zip index scores) =
    Inr (map (\<lambda>(k, x). let xs = members k index scores in f x (length xs) (st xs)) (zip index scores))"
  proof (rule rmap_pure)
    fix p assume p: "p \<in> set (zip index scores)"
    obtain k x where kx: "p = (k, x)" by (cases p)
    then have "members k index scores \<noteq> []" using p members_ne by fastforce
    then show "(case p of (k, x) \<Rightarrow> case map_of (map (\<lambda>(k, xs). (k, length xs, st xs)) (id2score index scores)) k of None \<Rightarrow> Inl KeyError | Some (n, s) \<Rightarrow> Inr (f x n s)) =
      Inr (case p of (k, x) \<Rightarrow> let xs = members k index scores in f x (length xs) (st xs))"
      by (simp add: kx map_of_map_val map_of_id2score Let_def)
  qed
  ultimately show ?thesis using len by (simp add: per_group_def)
qed

lemma group_stats_eq: "xs \<noteq> [] \<Longrightarrow> group_stats xs = Inr (if length xs = 1 then (0, 1) else (t_mean xs, t_std xs))"
  by (cases xs) (auto simp: group_stats_def)

lemma group_mean_eq: "xs \<noteq> [] \<Longrightarrow> group_mean xs = Inr (if length xs = 1 then 0 else t_mean xs)"
  by (cases xs) (auto simp: group_mean_def)

lemma length_row_sums [simp]: "length (row_sums rewards) = length rewards"
  by (simp add: row_sums_def)

section \<open>Group relative advantages\<close>

lemma grpo_eq:
  assumes "length index = length rewards"
  shows "compute_grpo_outcome_advantage rewards response_mask index epsilon nrm =
    outcome (Inr (map2 (\<lambda>k x. let xs = members k index (row_sums rewards); mu = (if length xs = 1 then 0 else t_mean xs); sd = (if length xs = 1 then 1 else t_std xs)
                              in if nrm then (x - mu) / (sd + epsilon) else x - mu) index (row_sums rewards))) response_mask"
proof -
  have "per_group group_stats (\<lambda>x n (mu, sd). if nrm then (x - mu) / (sd + epsilon) else x - mu) index (row_sums rewards) =
    Inr (map2 (\<lambda>k x. let xs = members k index (row_sums rewards) in (\<lambda>n (mu, sd). if nrm then (x - mu) / (sd + epsilon) else x - mu) (length xs)
      (if length xs = 1 then (0, 1) else (t_mean xs, t_std xs))) index (row_sums rewards))"
    using assms by (intro per_group_eq) (simp_all add: group_stats_eq)
  also have "\<dots> = Inr (map2 (\<lambda>k x. let xs = members k index (row_sums rewards); mu = (if length xs = 1 then 0 else t_mean xs); sd = (if length xs = 1 then 1 else t_std xs)
                              in if nrm then (x - mu) / (sd + epsilon) else x - mu) index (row_sums rewards))"
    by (auto simp: Let_def)
  finally show ?thesis by (simp only: compute_grpo_outcome_advantage_def)
qed

lemma sum_list_squares_nonneg: "0 \<le> sum_list (map (\<lambda>x. (x - m)\<^sup>2) (xs :: real list))"
  by (rule sum_list_nonneg) auto

text \<open>
  C4. The vectorized version of GRPO computes the same advantages as the loop over the groups, for any labels of the groups that \<open>as_torch_index\<close> maps to
  non-negative indices, the documented ones, as long as no two labels denote the same integer. (Negative integers as labels make the vectorized version raise.)
\<close>

theorem grpo_vectorized_equal:
  assumes "length index = length rewards" and "(\<forall>l \<in> set index. label_int parse l \<noteq> None) \<Longrightarrow> inj_on (label_int parse) (set index)" and "inj_on (label_str show_int) (set index)"
    and "\<forall>k \<in> set (as_torch_index parse show_int index). 0 \<le> k"
  shows "compute_grpo_vectorized_outcome_advantage parse show_int rewards response_mask index epsilon norm_adv_by_std =
    compute_grpo_outcome_advantage rewards response_mask index epsilon norm_adv_by_std"
proof (cases "index = []")
  case True
  then show ?thesis using assms(1)
    by (simp add: compute_grpo_vectorized_outcome_advantage_def compute_grpo_outcome_advantage_def as_torch_index_def group_mean_std_def per_group_def id2score_def row_sums_def)
next
  case False
  define g where "g = as_torch_index parse show_int index"
  define scores where "scores = row_sums rewards"
  have g: "length g = length index" "length scores = length g" "g \<noteq> []"
    using False assms(1) by (auto simp: g_def scores_def as_torch_index_def unique_inverse_def)
  obtain mean std count where m: "group_mean_std 0 scores g = Inr (mean, std, count)" and rng: "\<forall>k \<in> set g. 0 \<le> k \<and> k < int (length mean)"
    and m2: "\<And>k xs. k \<in> set g \<Longrightarrow> xs = members k g scores \<Longrightarrow>
       mean ! nat k = (if length xs \<le> 1 then 0 else t_mean xs) \<and>
       std ! nat k = (if length xs \<le> 1 then 1 else sqrt (max (sum_list (map (\<lambda>x. (x - t_mean xs)\<^sup>2) xs) / (real (length xs) - 1)) 0))"
    using group_mean_std_members [OF g(2) _ g(3)] assms(4) by (metis g_def)
  have ok: "\<not> (\<exists>k \<in> set g. k < 0 \<or> int (length mean) \<le> k)" using rng by (auto simp: not_le)
  have "map2 (\<lambda>s k. if norm_adv_by_std then (s - mean ! nat k) / (std ! nat k + epsilon) else s - mean ! nat k) scores g =
    map2 (\<lambda>k x. let xs = members k index scores; mu = (if length xs = 1 then 0 else t_mean xs); sd = (if length xs = 1 then 1 else t_std xs)
                in if norm_adv_by_std then (x - mu) / (sd + epsilon) else x - mu) index scores" (is "map2 ?F scores g = map2 ?G index scores")
  proof (rule nth_equalityI)
    fix i assume i: "i < length (map2 ?F scores g)"
    define xs where "xs = members (index ! i) index scores"
    have ii: "i < length g" "i < length index" using i g by simp_all
    have xs: "xs = members (g ! i) g scores"
      unfolding xs_def by (rule members_relabel [symmetric]) (use g ii as_torch_index_groups [OF assms(2,3)] in \<open>auto simp: g_def\<close>)
    have "scores ! i \<in> set xs" unfolding xs_def using ii g by (intro members_ne) (auto simp: set_zip)
    then have ne: "length xs \<le> 1 \<longleftrightarrow> length xs = 1" by (cases xs) auto
    have "0 \<le> sum_list (map (\<lambda>x. (x - t_mean xs)\<^sup>2) xs) / (real (length xs) - 1)" if "length xs \<noteq> 1"
      using that ne sum_list_squares_nonneg by (intro divide_nonneg_nonneg) auto
    then have "mean ! nat (g ! i) = (if length xs = 1 then 0 else t_mean xs)" "std ! nat (g ! i) = (if length xs = 1 then 1 else t_std xs)"
      using m2 [OF nth_mem [OF ii(1)] xs] ne by (auto simp: t_std_def max_absorb1)
    then show "map2 ?F scores g ! i = map2 ?G index scores ! i"
      using i ii g(2) by (simp add: Let_def xs_def)
  qed (use g in simp)
  then show ?thesis using assms(1) m unfolding grpo_eq [OF assms(1)] compute_grpo_vectorized_outcome_advantage_def Let_def
    by (simp only: scores_def [symmetric] g_def [symmetric] rbind_simps prod.case ok if_False)
qed

definition two_groups :: "label list" where
  "two_groups = [LStr ''a'', LStr ''b'', LStr ''a'']"

theorem grpo_vectorized_equal_witness:
  "compute_grpo_vectorized_outcome_advantage (\<lambda>_. None) (\<lambda>_. []) [[1], [2], [3]] [[1], [1], [1]] two_groups (1 / 1000000) False =
     Inr ([[- 1], [2], [1]], [[- 1], [2], [1]])"
proof -
  have "compute_grpo_vectorized_outcome_advantage (\<lambda>_. None) (\<lambda>_. []) [[1], [2], [3]] [[1], [1], [1]] two_groups (1 / 1000000) False =
    compute_grpo_outcome_advantage [[1], [2], [3]] [[1], [1], [1]] two_groups (1 / 1000000) False"
    by (rule grpo_vectorized_equal) (auto simp: two_groups_def inj_on_def as_torch_index_def)
  also have "\<dots> = Inr ([[- 1], [2], [1]], [[- 1], [2], [1]])"
    by (subst grpo_eq) (simp_all add: two_groups_def members_def row_sums_def outcome_def spread_def t_mean_def Let_def)
  finally show ?thesis .
qed

section \<open>Leave one out\<close>

text \<open>The reference: the score minus the mean of the other scores of the group, and \<open>z\<close> for a response without others.\<close>

definition leave_one_out :: "(real \<Rightarrow> real) \<Rightarrow> vec \<Rightarrow> real \<Rightarrow> real" where
  "leave_one_out z xs s = (if length xs = 1 then z s else s - (sum_list xs - s) / (real (length xs) - 1))"

lemma rloo_score:
  assumes "xs \<noteq> []"
  shows "(if 1 < length xs then x * real (length xs) / (real (length xs) - 1) - (if length xs = 1 then 0 else t_mean xs) * real (length xs) / (real (length xs) - 1) else x) =
    leave_one_out id xs x"
proof (cases "length xs = 1")
  case False
  then have n: "1 < length xs" using assms by (cases xs) auto
  have "x * real (length xs) / (real (length xs) - 1) - t_mean xs * real (length xs) / (real (length xs) - 1) = (x * real (length xs) - sum_list xs) / (real (length xs) - 1)"
    using n by (simp add: t_mean_def diff_divide_distrib)
  also have "\<dots> = x - (sum_list xs - x) / (real (length xs) - 1)" using n by (simp add: field_simps)
  finally show ?thesis using n by (simp add: leave_one_out_def)
qed (simp add: leave_one_out_def)

lemma unique_inverse_nth:
  "i < length idx \<Longrightarrow> j < length idx \<Longrightarrow> unique_inverse idx ! i = unique_inverse idx ! j \<longleftrightarrow> idx ! i = idx ! j"
  using unique_inverse_eq_iff [of "idx ! i" idx "idx ! j"] by (simp add: unique_inverse_def)

lemma members_inverse:
  assumes "length index = length xs" "i < length index"
  shows "members (unique_inverse index ! i) (unique_inverse index) xs = members (index ! i) index xs"
proof (rule members_relabel)
  show "length (unique_inverse index) = length index" by (simp add: unique_inverse_def)
  show "\<forall>j < length index. unique_inverse index ! j = unique_inverse index ! i \<longleftrightarrow> index ! j = index ! i" using unique_inverse_nth assms(2) by blast
qed (rule assms)

lemma members_const: "length idx = length xs \<Longrightarrow> sum_list (members k idx (map (\<lambda>_. 1) idx)) = real (length (members k idx xs))"
  by (induction idx xs rule: list_induct2) auto

definition leave_one_out_advantage :: "(real \<Rightarrow> real) \<Rightarrow> mat \<Rightarrow> mat \<Rightarrow> 'k list \<Rightarrow> mat" where
  "leave_one_out_advantage z rewards response_mask index =
     spread (map2 (\<lambda>k s. leave_one_out z (members k index (row_sums rewards)) s) index (row_sums rewards)) response_mask"

text \<open>
  C36. RLOO subtracts from every score the mean of the other scores of its group. The vectorized version agrees with it on all groups with
  two or more responses; for a group with one response the loop keeps the score as advantage, the vectorized version gives zero.
\<close>

theorem rloo_leave_one_out:
  fixes index :: "'k::linorder list"
  assumes "length index = length rewards"
  shows "compute_rloo_outcome_advantage rewards response_mask index =
      (let a = leave_one_out_advantage id rewards response_mask index in Inr (a, a)) \<and>
    compute_rloo_vectorized_outcome_advantage rewards response_mask index =
      (let a = leave_one_out_advantage (\<lambda>_. 0) rewards response_mask index in (a, a))"
proof
  define scores where "scores = row_sums rewards"
  have len: "length index = length scores" using assms(1) by (simp add: scores_def)
  have ne: "members k index scores \<noteq> []" if "(k, s) \<in> set (zip index scores)" for k s using members_ne [OF that] by auto
  have "per_group group_mean (\<lambda>x n mu. if 1 < n then x * real n / (real n - 1) - mu * real n / (real n - 1) else x) index scores =
    Inr (map2 (\<lambda>k x. leave_one_out id (members k index scores) x) index scores)"
    using ne rloo_score by (subst per_group_eq [OF len group_mean_eq]) (auto simp: Let_def)
  then show "compute_rloo_outcome_advantage rewards response_mask index = (let a = leave_one_out_advantage id rewards response_mask index in Inr (a, a))"
    by (simp add: compute_rloo_outcome_advantage_def outcome_def leave_one_out_advantage_def Let_def scores_def)
  define u where "u = unique_inverse index"
  have "map2 (\<lambda>(c, s) t. ((c * s - t) / max (c - 1) 1) * (if 1 < c then 1 else 0)) (zip (map (bincount u (map (\<lambda>_. 1) u)) u) scores) (map (bincount u scores) u) =
    map2 (\<lambda>k s. leave_one_out (\<lambda>_. 0) (members k index scores) s) index scores" (is "?l = ?r")
  proof (rule nth_equalityI)
    fix i assume "i < length ?l"
    then have i: "i < length index" "i < length u" "i < length scores" by (simp_all add: u_def unique_inverse_def len)
    define xs where "xs = members (index ! i) index scores"
    have xs: "members (u ! i) u scores = xs" using members_inverse [OF len i(1)] by (simp add: u_def xs_def)
    have c: "bincount u (map (\<lambda>_. 1) u) (u ! i) = real (length xs)"
      using members_const [of u scores] xs len by (simp add: bincount_def u_def unique_inverse_def)
    have "xs \<noteq> []" unfolding xs_def using i by (intro ne [of _ "scores ! i"]) (auto simp: set_zip)
    then have "((real (length xs) * scores ! i - sum_list xs) / max (real (length xs) - 1) 1) * (if 1 < real (length xs) then 1 else 0) = leave_one_out (\<lambda>_. 0) xs (scores ! i)"
    proof (cases "length xs = 1")
      case False
      then have "2 \<le> length xs" using \<open>xs \<noteq> []\<close> by (cases xs) (auto simp: Suc_le_eq)
      then show ?thesis by (simp add: leave_one_out_def field_simps max_def)
    qed (simp add: leave_one_out_def)
    then show "?l ! i = ?r ! i" using i c xs by (simp add: bincount_def xs_def)
  qed (simp add: u_def unique_inverse_def len)
  then show "compute_rloo_vectorized_outcome_advantage rewards response_mask index =
      (let a = leave_one_out_advantage (\<lambda>_. 0) rewards response_mask index in (a, a))"
    by (simp add: compute_rloo_vectorized_outcome_advantage_def Let_def leave_one_out_advantage_def u_def scores_def)
qed

theorem rloo_leave_one_out_witness:
  "compute_rloo_outcome_advantage [[1], [2], [3]] [[1], [1], [1]] [0 :: nat, 1, 0] = Inr ([[- 2], [2], [2]], [[- 2], [2], [2]]) \<and>
   compute_rloo_vectorized_outcome_advantage [[1], [2], [3]] [[1], [1], [1]] [0 :: nat, 1, 0] = ([[- 2], [0], [2]], [[- 2], [0], [2]])"
  using rloo_leave_one_out [of "[0, 1, 0 :: nat]" "[[1], [2], [3]]" "[[1], [1], [1]]"]
  by (simp add: leave_one_out_advantage_def leave_one_out_def members_def row_sums_def spread_def Let_def)

section \<open>Generalized advantage estimation\<close>

text \<open>The reference, on the tokens of the policy only: temporal differences, and their discounted sum.\<close>

definition td_error :: "real \<Rightarrow> (real \<times> real) list \<Rightarrow> nat \<Rightarrow> real" where
  "td_error gamma toks t = fst (toks ! t) + gamma * (if Suc t < length toks then snd (toks ! Suc t) else 0) - snd (toks ! t)"

definition gae :: "real \<Rightarrow> real \<Rightarrow> (real \<times> real) list \<Rightarrow> nat \<Rightarrow> real" where
  "gae gamma lam toks t = (\<Sum>l < length toks - t. (gamma * lam) ^ l * td_error gamma toks (t + l))"

definition policy_tokens :: "(real \<times> real \<times> real) list \<Rightarrow> (real \<times> real) list" where
  "policy_tokens toks = map (\<lambda>(r, v, m). (r, v)) (filter (\<lambda>(r, v, m). m = 1) toks)"

definition policy_entries :: "(real \<times> real \<times> real) list \<Rightarrow> 'a list \<Rightarrow> 'a list" where
  "policy_entries toks xs = map snd (filter (\<lambda>((r, v, m), x). m = 1) (zip toks xs))"

lemma td_error_Suc: "td_error gamma (x # toks) (Suc t) = td_error gamma toks t"
  by (simp add: td_error_def)

lemma gae_Suc: "gae gamma lam (x # toks) (Suc t) = gae gamma lam toks t"
  by (simp add: gae_def td_error_Suc)

lemma gae_0: "gae gamma lam (x # toks) 0 = td_error gamma (x # toks) 0 + gamma * lam * (if toks = [] then 0 else gae gamma lam toks 0)"
proof -
  have "gae gamma lam (x # toks) 0 = td_error gamma (x # toks) 0 + (\<Sum>l < length toks. (gamma * lam) ^ Suc l * td_error gamma (x # toks) (Suc l))"
    by (simp add: gae_def sum.lessThan_Suc_shift del: sum.lessThan_Suc)
  also have "(\<Sum>l < length toks. (gamma * lam) ^ Suc l * td_error gamma (x # toks) (Suc l)) = gamma * lam * gae gamma lam toks 0"
    by (simp add: gae_def td_error_Suc sum_distrib_left mult.assoc)
  finally show ?thesis by (simp add: gae_def)
qed

lemma gae_row_ok:
  assumes "\<forall>(r, v, m) \<in> set toks. m = 0 \<or> m = 1"
  shows "fst (gae_row gamma lam toks) = (case policy_tokens toks of [] \<Rightarrow> 0 | (r, v) # _ \<Rightarrow> v)"
    "fst (snd (gae_row gamma lam toks)) = (if policy_tokens toks = [] then 0 else gae gamma lam (policy_tokens toks) 0)"
    "length (snd (snd (gae_row gamma lam toks))) = length toks"
    "policy_entries toks (snd (snd (gae_row gamma lam toks))) = map (gae gamma lam (policy_tokens toks)) [0..<length (policy_tokens toks)]"
  using assms
proof (induction toks)
  case Nil
  case 1 show ?case by (simp add: policy_tokens_def)
  case 2 show ?case by (simp add: policy_tokens_def)
  case 3 show ?case by simp
  case 4 show ?case by (simp add: policy_tokens_def policy_entries_def)
next
  case (Cons x toks)
  obtain r v m where x: "x = (r, v, m)" by (cases x)
  obtain nv lg as where row: "gae_row gamma lam toks = (nv, lg, as)" by (cases "gae_row gamma lam toks")
  define ps where "ps = policy_tokens toks"
  have upt: "[0..<Suc n] = 0 # map Suc [0..<n]" for n by (simp add: map_Suc_upt upt_conv_Cons)
  {
    assume m: "\<forall>(r, v, m) \<in> set (x # toks). m = 0 \<or> m = 1"
    then have m': "\<forall>(r, v, m) \<in> set toks. m = 0 \<or> m = 1" and mm: "m = 0 \<or> m = 1" by (simp_all add: x)
    note IH = Cons.IH [OF m', unfolded row, simplified]
    have p0: "policy_tokens (x # toks) = ps" if "m = 0" using that by (simp add: policy_tokens_def x ps_def)
    have p1: "policy_tokens (x # toks) = (r, v) # ps" if "m = 1" using that by (simp add: policy_tokens_def x ps_def)
    have td: "td_error gamma ((r, v) # ps) 0 = r + gamma * nv - v"
      using IH(1) by (cases ps) (auto simp: td_error_def ps_def)
    have lg: "gae gamma lam ((r, v) # ps) 0 = r + gamma * nv - v + gamma * lam * lg" unfolding gae_0 td using IH(2) by (simp add: ps_def)
    have A: "fst (gae_row gamma lam (x # toks)) = (case policy_tokens (x # toks) of [] \<Rightarrow> 0 | (r, v) # _ \<Rightarrow> v)"
      using mm IH(1) p0 p1 by (auto simp: x row Let_def ps_def)
    have B: "fst (snd (gae_row gamma lam (x # toks))) = (if policy_tokens (x # toks) = [] then 0 else gae gamma lam (policy_tokens (x # toks)) 0)"
      using mm IH(2) p0 p1 lg by (auto simp: x row Let_def ps_def)
    have C: "length (snd (snd (gae_row gamma lam (x # toks)))) = length (x # toks)" using IH(3) by (simp add: x row Let_def)
    have D: "policy_entries (x # toks) (snd (snd (gae_row gamma lam (x # toks)))) =
      map (gae gamma lam (policy_tokens (x # toks))) [0..<length (policy_tokens (x # toks))]"
    proof (cases "m = 1")
      case True
      have "map (gae gamma lam ((r, v) # ps)) [0..<Suc (length ps)] = gae gamma lam ((r, v) # ps) 0 # map (gae gamma lam ps) [0..<length ps]"
        unfolding upt by (simp add: gae_Suc)
      then show ?thesis using IH(4) lg p1 [OF True] by (simp add: True policy_entries_def x row Let_def ps_def)
    next
      case False
      then show ?thesis using mm IH(4) p0 by (simp add: policy_entries_def x row Let_def ps_def)
    qed
    note A B C D
  }
  note all = this
  case 1 show ?case by (rule all(1) [OF 1])
  case 2 show ?case by (rule all(2) [OF 2])
  case 3 show ?case by (rule all(3) [OF 3])
  case 4 show ?case by (rule all(4) [OF 4])
qed

text \<open>
  C6. With a mask of zeros and ones, the advantages before whitening that \<open>compute_gae_advantage_return\<close> gives to the tokens of the policy are the
  generalized advantage estimates, discounted sums of temporal differences, of the sequence of these tokens alone: rewards and values of
  observation tokens in between play no role. The returns are the advantages plus the values.
\<close>

theorem gae_skips_observations:
  assumes "shaped n k rewards" and "shaped n k values" and "shaped n k response_mask" and "\<forall>ms \<in> set response_mask. set ms \<subseteq> {0, 1}"
    and "compute_gae_advantage_return rewards values response_mask gamma lam = Inr (advantages, returns)" and "i < n"
  shows "let toks = zip (rewards ! i) (zip (values ! i) (response_mask ! i)); adv = gae_advantages gamma lam rewards values response_mask ! i
    in length adv = k \<and> returns ! i = map2 (+) adv (values ! i) \<and>
       policy_entries toks adv = map (gae gamma lam (policy_tokens toks)) [0..<length (policy_tokens toks)]"
proof -
  define toks where "toks = zip (rewards ! i) (zip (values ! i) (response_mask ! i))"
  have len: "length rewards = n" "length values = n" "length response_mask = n" using assms(1-3) by (simp_all add: shaped_def)
  have rows: "length (rewards ! i) = k" "length (values ! i) = k" "length (response_mask ! i) = k"
    using assms(1-3,6) len by (simp_all add: shaped_def)
  have adv: "gae_advantages gamma lam rewards values response_mask ! i = snd (snd (gae_row gamma lam toks))"
    using len assms(6) by (simp add: gae_advantages_def toks_def)
  have "set (response_mask ! i) \<subseteq> {0, 1}" using assms(4,6) len(3) by simp
  then have "\<forall>(r, v, m) \<in> set toks. m = 0 \<or> m = 1" by (auto simp: toks_def dest!: set_zip_rightD)
  note g = gae_row_ok(3,4) [OF this, of gamma lam]
  have "returns ! i = map2 (+) (gae_advantages gamma lam rewards values response_mask ! i) (values ! i)"
    using assms(5,6) len by (auto simp: compute_gae_advantage_return_def Let_def gae_advantages_def)
  moreover have "length toks = k" using rows by (simp add: toks_def)
  ultimately show ?thesis using g adv by (simp add: Let_def toks_def)
qed

theorem gae_skips_observations_witness:
  "\<exists>advantages returns. compute_gae_advantage_return [[1, 5, 2]] [[1, 7, 1]] [[1, 0, 1]] 1 1 = Inr (advantages, returns) \<and>
     gae_advantages 1 1 [[1, 5, 2]] [[1, 7, 1]] [[1, 0, 1]] ! 0 = [2, 1, 1] \<and> returns ! 0 = [3, 8, 2]"
proof -
  obtain a r where ar: "compute_gae_advantage_return [[1, 5, 2]] [[1, 7, 1]] [[1, 0, 1]] 1 1 = Inr (a, r)"
    by (simp add: compute_gae_advantage_return_def gae_advantages_def masked_whiten_def masked_var_def Let_def)
  have "\<forall>ms \<in> set [[1, 0, 1 :: real]]. set ms \<subseteq> {0, 1}" by simp
  from gae_skips_observations [of 1 3, OF _ _ _ this ar, of 0] show ?thesis using ar
    by (simp add: shaped_def gae_advantages_def Let_def)
qed

section \<open>Shapes\<close>

definition batch_shaped :: "nat \<Rightarrow> nat \<Rightarrow> adv_batch \<Rightarrow> bool" where
  "batch_shaped n k b \<longleftrightarrow> shaped n k (token_level_rewards b) \<and> shaped n k (adv_values b) \<and> shaped n k (adv_mask b) \<and>
     length (adv_index b) = n \<and> length (reward_baselines b) = n \<and> shaped n k (adv_log_probs b) \<and> shaped n k (adv_sum_pi_squared b) \<and>
     (\<forall>w. adv_is_weights b = Some w \<longrightarrow> shaped n k w) \<and>
     (\<forall>ls cs. adv_comps b = Some (ls, cs) \<longrightarrow> length ls = n \<and> (\<forall>c xs. c \<in> set cs \<longrightarrow> c = Some xs \<longrightarrow> length xs = n))"

lemma shaped_length: "shaped n k xss \<Longrightarrow> length xss = n"
  by (simp add: shaped_def)

lemma shaped_map2: "shaped n k xss \<Longrightarrow> length ys = n \<Longrightarrow> (\<And>y xs. length (f y xs) = length xs) \<Longrightarrow> shaped n k (map2 f ys xss)"
  by (auto simp: shaped_def dest: set_zip_rightD)

lemma shaped_rows: "shaped n k xss \<Longrightarrow> xs \<in> set xss \<Longrightarrow> length xs = k"
  by (simp add: shaped_def)

lemma shaped_map2I:
  "length xss = n \<Longrightarrow> length yss = n \<Longrightarrow> (\<And>x y. x \<in> set xss \<Longrightarrow> y \<in> set yss \<Longrightarrow> length (f x y) = k) \<Longrightarrow> shaped n k (map2 f xss yss)"
  by (auto simp: shaped_def dest: set_zip_rightD set_zip_leftD)

lemma shaped_mat2: "shaped n k xss \<Longrightarrow> shaped n k yss \<Longrightarrow> shaped n k (mat2 f xss yss)"
  by (rule shaped_map2I) (simp_all add: shaped_def)

lemma shaped_spread: "shaped n k ms \<Longrightarrow> length xs = n \<Longrightarrow> shaped n k (spread xs ms)"
  unfolding spread_def by (rule shaped_map2) simp_all

lemma shaped_map: "shaped n k xss \<Longrightarrow> (\<And>xs. length (f xs) = length xs) \<Longrightarrow> shaped n k (map f xss)"
  by (auto simp: shaped_def)

lemma shaped_whiten: "masked_whiten b xss ms = Inr yss \<Longrightarrow> shaped n k xss \<Longrightarrow> shaped n k yss"
  by (auto simp: masked_whiten_def Let_def intro!: shaped_map)

lemma per_group_length: "per_group stat f index scores = Inr ys \<Longrightarrow> length ys = length scores"
  by (auto simp: per_group_def Let_def split: if_splits dest!: length_rmap)

lemma outcome_shaped: "outcome r ms = Inr (a, x) \<Longrightarrow> (\<And>ys. r = Inr ys \<Longrightarrow> length ys = n) \<Longrightarrow> shaped n k ms \<Longrightarrow> shaped n k a \<and> shaped n k x"
  by (auto simp: outcome_def Let_def intro: shaped_spread)

lemma shaped_reward_to_go: "shaped n k xss \<Longrightarrow> shaped n k ms \<Longrightarrow> shaped n k (reward_to_go xss ms)"
  unfolding reward_to_go_def by (rule shaped_map [OF shaped_mat2]) simp_all

lemma shaped_gae:
  assumes "shaped n k rs" "shaped n k vs" "shaped n k ms"
  shows "shaped n k (gae_advantages gamma lam rs vs ms)"
proof -
  have len: "length (snd (snd (gae_row gamma lam toks))) = length toks" for toks
    by (induction gamma lam toks rule: gae_row.induct) (auto simp: Let_def split: prod.splits)
  have "length a = k \<and> length v = k \<and> length m = k" if "(a, v, m) \<in> set (zip rs (zip vs ms))" for a v m
    using that assms [THEN shaped_rows] by (metis set_zip_leftD set_zip_rightD)
  then show ?thesis using assms len by (auto simp: shaped_def gae_advantages_def)
qed

lemma shaped_reinforce:
  assumes "shaped n k rs" "shaped n k ms"
  shows "shaped n k (map2 (\<lambda>rs ms. snd (reinforce_row gamma (zip rs ms))) rs ms)"
proof -
  have len: "length (snd (reinforce_row gamma toks)) = length toks" for toks
    by (induction gamma toks rule: reinforce_row.induct) (auto simp: Let_def split: prod.splits)
  show ?thesis by (rule shaped_map2I) (use assms len in \<open>simp_all add: shaped_def\<close>)
qed

lemma grpo_shaped:
  "compute_grpo_outcome_advantage rs ms idx eps nrm = Inr (a, x) \<Longrightarrow> length rs = n \<Longrightarrow> shaped n k ms \<Longrightarrow> shaped n k a \<and> shaped n k x"
  unfolding compute_grpo_outcome_advantage_def by (erule outcome_shaped) (auto dest: per_group_length)

lemma passk_length: "rfold (passk_step top2 eps nrm) d xs = Inr ys \<Longrightarrow> length ys = length xs"
  by (erule rfold_invariant [where P = "\<lambda>ys. length ys = length xs"]) (auto simp: passk_step_def Let_def split: if_splits prod.splits)

lemma passk_shaped:
  "compute_grpo_passk_outcome_advantage top2 rs ms idx eps (Some nrm) = Inr (a, x) \<Longrightarrow> length rs = n \<Longrightarrow> shaped n k ms \<Longrightarrow> shaped n k a \<and> shaped n k x"
  unfolding compute_grpo_passk_outcome_advantage_def Let_def option.case
  by (auto split: if_splits elim!: outcome_shaped dest!: passk_length)

lemma foldl_shaped: "shaped n k a \<Longrightarrow> (\<And>x. x \<in> set xs \<Longrightarrow> shaped n k x) \<Longrightarrow> shaped n k (foldl (mat2 f) a xs)"
  by (induction xs arbitrary: a) (auto intro: shaped_mat2)

lemma assign_group_shaped:
  assumes "shaped n k bl" "length b = k"
  shows "shaped n k (assign_group z traj ls b bl)"
proof -
  have upd: "shaped n k (bl[i := c])" if "shaped n k bl" "length c = k" for bl i c
    using that by (auto simp: shaped_def dest!: set_update_subset_insert [THEN subsetD])
  have f: "shaped n k (fold (\<lambda>i bl. bl[i := b]) traj bl)" if "shaped n k bl" for bl
    using that by (induction traj arbitrary: bl) (simp_all add: upd assms(2))
  have cut: "shaped n k (bl[j := cut_tail m (bl ! j)])" if "shaped n k bl" for bl j m
  proof (cases "j < length bl")
    case True
    then show ?thesis using that by (intro upd) (auto simp: shaped_def cut_tail_def)
  qed (simp add: that list_update_beyond)
  show ?thesis using cut [OF f [OF assms(1)]] f [OF assms(1)] by (auto simp: assign_group_def Let_def split: option.splits)
qed

lemma otb_group_shaped: "shaped n k bl \<Longrightarrow> shaped n k (otb_group eps z k rs w ms traj bl)"
  by (auto simp: otb_group_def Let_def sum_columns_def intro!: assign_group_shaped)

lemma otb_shaped:
  assumes "compute_optimal_token_baseline_advantage rs ms idx lp sp iw z eps = Inr (a, x)" "shaped n k rs" "shaped n k ms"
  shows "shaped n k a \<and> shaped n k x"
proof (cases "rs = []")
  case True
  then show ?thesis using assms by (auto simp: compute_optimal_token_baseline_advantage_def Let_def reward_to_go_def shaped_def)
next
  case False
  then have seq: "(case rs of [] \<Rightarrow> 0 | r # _ \<Rightarrow> length r) = k" using assms(2) by (cases rs) (auto simp: shaped_def)
  have ret: "shaped n k (reward_to_go rs ms)" by (rule shaped_reward_to_go [OF assms(2,3)])
  have "shaped n k (fold (\<lambda>(_, traj). otb_group eps z k (reward_to_go rs ms) w ms traj) gs bl)" if "shaped n k bl" for gs w bl
    using that by (induction gs arbitrary: bl) (auto intro: otb_group_shaped)
  from this [OF shaped_map [OF ret], of "\<lambda>xs. map (\<lambda>_. 0) xs"] show ?thesis
    using assms ret unfolding compute_optimal_token_baseline_advantage_def Let_def seq by (auto split: if_splits intro!: shaped_mat2)
qed

lemma length_scatter: "length (scatter ms xs) = length ms"
  by (induction ms arbitrary: xs) auto

lemma length_fold_tir: "length (fold (\<lambda>(_, traj). tir_group eps z m ar aw ls traj) gs bl) = length bl"
proof (induction gs arbitrary: bl)
  case (Cons g gs)
  have "length (fold (\<lambda>i bl. bl[i := b]) traj bl) = length bl" for b traj and bl :: mat
    by (induction traj arbitrary: bl) auto
  then have "length (tir_group eps z m ar aw ls traj bl) = length bl" for traj bl
    by (auto simp: tir_group_def assign_group_def Let_def split: option.splits)
  then show ?case using Cons.IH by (simp split: prod.splits)
qed simp

lemma tir_shaped:
  assumes "compute_multi_turn_optimal_token_baseline_advantage rs ms idx lp sp iw z eps = Inr (a, x)" "shaped n k rs" "shaped n k ms"
    "length (path_variance lp sp ms iw) = n"
  shows "shaped n k a \<and> shaped n k x"
proof -
  have ret: "shaped n k (reward_to_go rs ms)" by (rule shaped_reward_to_go [OF assms(2,3)])
  have sc: "shaped n k (map2 scatter ms (mat2 (-) ar bl))" if "length ar = n" "length bl = n" for ar bl :: mat
    by (rule shaped_map2I) (use assms(3) that in \<open>simp_all add: shaped_def length_scatter\<close>)
  define ls where "ls = map (\<lambda>m. nat \<lfloor>sum_list m\<rfloor>) ms"
  define ml where "ml = (if ls = [] then 0 else Max (set ls))"
  define ar where "ar = map2 (compress ml) ms (reward_to_go rs ms)"
  define aw where "aw = map2 (compress ml) ms (path_variance lp sp ms iw)"
  define gs where "gs = id2score (map ((!) idx) (filter (\<lambda>i. ls ! i \<noteq> 0) [0..<length ls])) (filter (\<lambda>i. ls ! i \<noteq> 0) [0..<length ls])"
  define bl where "bl = fold (\<lambda>(_, traj). tir_group eps z ml ar aw ls traj) gs (map (map (\<lambda>_. 0)) ar)"
  have "compute_multi_turn_optimal_token_baseline_advantage rs ms idx lp sp iw z eps =
    (if length idx < length rs then Inl IndexError else Inr (mat2 (*) (map2 scatter ms (mat2 (-) ar bl)) ms, reward_to_go rs ms))"
    unfolding compute_multi_turn_optimal_token_baseline_advantage_def Let_def bl_def gs_def ar_def aw_def ml_def ls_def by (rule refl)
  then have "a = mat2 (*) (map2 scatter ms (mat2 (-) ar bl)) ms" "x = reward_to_go rs ms" using assms(1) by (auto split: if_splits)
  moreover have "length ar = n" "length bl = n" using shaped_length [OF ret] shaped_length [OF assms(3)] by (simp_all add: bl_def ar_def length_fold_tir)
  ultimately show ?thesis using ret shaped_mat2 [OF sc assms(3)] by blast
qed

lemma gdpo_shaped:
  assumes "compute_gdpo_outcome_advantage rs ms idx eps nrm comps ws = Inr (a, x)" "shaped n k rs" "shaped n k ms"
    "\<And>ls cs. comps = Some (ls, cs) \<Longrightarrow> length ls = n \<and> (\<forall>c xs. c \<in> set cs \<longrightarrow> c = Some xs \<longrightarrow> length xs = n)"
  shows "shaped n k a \<and> shaped n k x"
proof -
  obtain sl where sl: "gdpo_score_list rs ms comps = Inr sl" using assms(1) by (auto simp: compute_gdpo_outcome_advantage_def)
  have len: "length s = n" if s: "s \<in> set sl" for s
  proof (cases comps)
    case None
    then show ?thesis using sl s assms(2) by (auto simp: gdpo_score_list_def shaped_def)
  next
    case (Some p)
    obtain ls cs where p: "p = (ls, cs)" by (cases p)
    have "list_all2 (\<lambda>comp y. (case comp of None \<Rightarrow> Inl AssertionError | Some scores \<Rightarrow> rmap (\<lambda>(m, l, s). place_score (l - 1) (length m) s) (zip ms (zip ls scores))) = Inr y) cs sl"
      using sl Some p by (auto simp: gdpo_score_list_def rmap_Inr_iff split: if_splits)
    note all = this
    obtain c where c: "c \<in> set cs" "(case c of None \<Rightarrow> Inl AssertionError | Some scores \<Rightarrow> rmap (\<lambda>(m, l, s). place_score (l - 1) (length m) s) (zip ms (zip ls scores))) = Inr s"
    proof -
      obtain j where "j < length sl" "s = sl ! j" using s by (metis in_set_conv_nth)
      then show thesis using all by (intro that [of "cs ! j"]) (auto simp: list_all2_conv_all_nth)
    qed
    obtain xs where xs: "c = Some xs" using c(2) by (auto split: option.splits)
    have "length xs = n" "length ls = n" using assms(4) Some p c(1) xs by auto
    then show ?thesis using c(2) xs shaped_length [OF assms(3)] by (auto dest: length_rmap)
  qed
  have ne: "sl \<noteq> []" using sl by (auto simp: gdpo_score_list_def split: option.splits if_splits prod.splits dest!: length_rmap)
  obtain w parts y where parts: "rmap (\<lambda>(i, s). rbind (compute_grpo_outcome_advantage s ms idx eps nrm) (\<lambda>(a, _).
                    if i < length w then Inr (map (map ((*) (w ! i))) a) else Inl IndexError)) (enumerate 0 sl) = Inr parts"
    "masked_whiten True (foldl (mat2 (+)) (hd parts) (tl parts)) ms = Inr y" "a = mat2 (*) y ms" "x = a"
    using assms(1) unfolding compute_gdpo_outcome_advantage_def sl rbind_simps Let_def rbind_Inr_iff sum.inject prod.inject by blast
  have "shaped n k q" if q: "q \<in> set parts" for q
  proof -
    obtain i s where "s \<in> set sl" "rbind (compute_grpo_outcome_advantage s ms idx eps nrm) (\<lambda>(a, _). if i < length w then Inr (map (map ((*) (w ! i))) a) else Inl IndexError) = Inr q"
    proof -
      obtain j where j: "j < length parts" "q = parts ! j" using q by (metis in_set_conv_nth)
      have "j < length sl" using j(1) length_rmap [OF parts(1)] by simp
      then have "sl ! j \<in> set sl" "enumerate 0 sl ! j = (j, sl ! j)" by (simp_all add: nth_enumerate_eq)
      then show thesis using that [of "sl ! j" j] parts(1) j unfolding rmap_Inr_iff list_all2_conv_all_nth by auto
    qed
    then obtain a' x' where "s \<in> set sl" "compute_grpo_outcome_advantage s ms idx eps nrm = Inr (a', x')" "q = map (map ((*) (w ! i))) a'"
      by (auto split: if_splits)
    moreover from this have "shaped n k a'" using grpo_shaped [OF _ len assms(3)] by blast
    ultimately show ?thesis by (auto intro: shaped_map)
  qed
  moreover have "parts \<noteq> []" using length_rmap [OF parts(1)] ne by auto
  ultimately have "shaped n k (foldl (mat2 (+)) (hd parts) (tl parts))" by (intro foldl_shaped) (auto dest: list.set_sel(2))
  then show ?thesis using parts(2,3,4) assms(3) shaped_whiten shaped_mat2 by blast
qed

lemma plain_nan_shaped: "plain_nan p = (a, r) \<Longrightarrow> shaped n k (fst p) \<and> shaped n k (snd p) \<Longrightarrow> shaped n k a \<and> shaped n k r"
  by (cases p) (auto simp: plain_nan_def intro!: shaped_map)

lemma estimator_shaped:
  assumes "rbind e (Inr \<circ> plain_nan) = Inr (a, r)" "\<And>x y. e = Inr (x, y) \<Longrightarrow> shaped n k x \<and> shaped n k y"
  shows "shaped n k a \<and> shaped n k r"
proof -
  obtain p where "e = Inr p" "plain_nan p = (a, r)" using assms(1) by auto
  then show ?thesis using assms(2) [of "fst p" "snd p"] plain_nan_shaped by simp
qed

lemma opo_shaped:
  assumes "compute_opo_outcome_advantage rs ms idx = Inr (a, r)" "length rs = n" "shaped n k ms"
  shows "shaped n k a \<and> shaped n k r"
proof -
  obtain ss where "per_group opo_baseline (\<lambda>(s, l) n b. map_option ((-) s) b) idx (zip (row_sums rs) (row_sums ms)) = Inr ss"
    and eq: "a = map2 (\<lambda>s. map (\<lambda>m. map_option (\<lambda>s. s * m) s)) ss ms" "r = a"
    using assms(1) by (auto simp: compute_opo_outcome_advantage_def Let_def)
  then have "length ss = n" using assms(2) shaped_length [OF assms(3)] by (auto dest!: per_group_length)
  then have "shaped n k a" unfolding eq by (rule shaped_map2 [OF assms(3)]) simp
  then show ?thesis by (simp add: eq(2))
qed

lemma length_unique_inverse [simp]: "length (unique_inverse xs) = length xs"
  by (simp add: unique_inverse_def)

lemma rloo_vectorized_shaped:
  assumes "length rs = n" "length idx = n" "shaped n k ms"
  shows "\<exists>a. compute_rloo_vectorized_outcome_advantage rs ms idx = (a, a) \<and> shaped n k a"
  unfolding compute_rloo_vectorized_outcome_advantage_def Let_def
  by (intro exI conjI, rule refl, rule shaped_spread [OF assms(3)]) (simp add: assms)

lemma gae_shaped:
  assumes "compute_gae_advantage_return rs vs ms gamma lam = Inr (a, r)" "shaped n k rs" "shaped n k vs" "shaped n k ms"
  shows "shaped n k a \<and> shaped n k r"
proof -
  have g: "shaped n k (gae_advantages gamma lam rs vs ms)" by (rule shaped_gae [OF assms(2-4)])
  moreover obtain w where "masked_whiten True (gae_advantages gamma lam rs vs ms) ms = Inr w" "a = w" "r = mat2 (+) (gae_advantages gamma lam rs vs ms) vs"
    using assms(1) by (auto simp: compute_gae_advantage_return_def Let_def)
  ultimately show ?thesis using shaped_whiten shaped_mat2 [OF g assms(3)] by blast
qed

lemma reinforce_shaped:
  assumes "compute_reinforce_plus_plus_outcome_advantage rs ms (Some gamma) = Inr (a, r)" "shaped n k rs" "shaped n k ms"
  shows "shaped n k a \<and> shaped n k r"
proof -
  define x where "x = map2 (\<lambda>rs ms. snd (reinforce_row gamma (zip rs ms))) rs ms"
  have g: "shaped n k x" unfolding x_def by (rule shaped_reinforce [OF assms(2,3)])
  moreover obtain w where "masked_whiten True x ms = Inr w" "a = mat2 (*) w ms" "r = x"
    using assms(1) by (auto simp: compute_reinforce_plus_plus_outcome_advantage_def Let_def x_def)
  ultimately show ?thesis using shaped_whiten shaped_mat2 [OF _ assms(3)] by blast
qed

lemma reinforce_baseline_shaped:
  assumes "compute_reinforce_plus_plus_baseline_outcome_advantage rs ms idx = Inr (a, r)" "length rs = n" "shaped n k ms"
  shows "shaped n k a \<and> shaped n k r"
proof -
  obtain ss w where "per_group group_mean (\<lambda>x n mu. x - mu) idx (row_sums rs) = Inr ss" and w: "masked_whiten True (spread ss ms) ms = Inr w" "a = mat2 (*) w ms" "r = a"
    using assms(1) by (auto simp: compute_reinforce_plus_plus_baseline_outcome_advantage_def Let_def)
  then have "shaped n k (spread ss ms)" using assms(2) by (intro shaped_spread assms(3)) (auto dest: per_group_length)
  then show ?thesis using w shaped_whiten shaped_mat2 [OF _ assms(3)] by blast
qed

lemma batch_shapedD:
  assumes "batch_shaped n k b"
  shows "shaped n k (token_level_rewards b)" "shaped n k (adv_values b)" "shaped n k (adv_mask b)" "length (adv_index b) = n" "length (reward_baselines b) = n"
    "shaped n k (adv_log_probs b)" "shaped n k (adv_sum_pi_squared b)" "\<And>w. adv_is_weights b = Some w \<Longrightarrow> shaped n k w"
    "\<And>ls cs. adv_comps b = Some (ls, cs) \<Longrightarrow> length ls = n \<and> (\<forall>c xs. c \<in> set cs \<longrightarrow> c = Some xs \<longrightarrow> length xs = n)"
    "length (token_level_rewards b) = n"
  using assms by (auto simp: batch_shaped_def shaped_def)

text \<open>Estimators with one advantage per response, and with one per token.\<close>

lemma outcome_estimator_shaped:
  assumes "batch_shaped n k b" and "adv_estimator_fn e c b = Inr (advantages, returns)" and e: "e \<in> {GRPO, RLOO, OPO, GRPO_PASSK, GPG, RLOO_VECTORIZED, GRPO_VECTORIZED, GDPO}"
  shows "shaped n k advantages \<and> shaped n k returns"
proof -
  note b = batch_shapedD [OF assms(1)]
  note len = b(10)
  from e consider (c_grpo) "e = GRPO" | (c_rloo) "e = RLOO" | (c_opo) "e = OPO" | (c_grpo_passk) "e = GRPO_PASSK" | (c_gpg) "e = GPG" | (c_rloo_vectorized) "e = RLOO_VECTORIZED" | (c_grpo_vectorized) "e = GRPO_VECTORIZED" | (c_gdpo) "e = GDPO" by blast
  then show ?thesis
  proof cases
    case c_grpo
    show ?thesis by (rule estimator_shaped [OF assms(2) [unfolded c_grpo adv_estimator_fn.simps]]) (rule grpo_shaped [OF _ len b(3)])
  next
    case c_rloo
    show ?thesis by (rule estimator_shaped [OF assms(2) [unfolded c_rloo adv_estimator_fn.simps compute_rloo_outcome_advantage_def]])
        (erule outcome_shaped, auto simp: len b(3) dest: per_group_length)
  next
    case c_opo
    show ?thesis by (rule opo_shaped [OF assms(2) [unfolded c_opo adv_estimator_fn.simps] len b(3)])
  next
    case c_grpo_passk
    show ?thesis by (rule estimator_shaped [OF assms(2) [unfolded c_grpo_passk adv_estimator_fn.simps]]) (rule passk_shaped [OF _ len b(3)])
  next
    case c_gpg
    show ?thesis by (rule estimator_shaped [OF assms(2) [unfolded c_gpg adv_estimator_fn.simps compute_gpg_outcome_advantage_def]])
        (erule outcome_shaped, auto simp: len b(3) gpg_scores_def Let_def dest: per_group_length)
  next
    case c_rloo_vectorized
    obtain a where "compute_rloo_vectorized_outcome_advantage (token_level_rewards b) (adv_mask b) (map (label_str (adv_show c)) (adv_index b)) = (a, a)" "shaped n k a"
      using rloo_vectorized_shaped [OF len _ b(3), of "map (label_str (adv_show c)) (adv_index b)"] b(4) by auto
    then show ?thesis using assms(2) c_rloo_vectorized plain_nan_shaped by simp
  next
    case c_grpo_vectorized
    have g: "length (as_torch_index p s (adv_index b)) = n" for p s using b(4) by (simp add: as_torch_index_def unique_inverse_def)
    show ?thesis by (rule estimator_shaped [OF assms(2) [unfolded c_grpo_vectorized adv_estimator_fn.simps]])
        (auto simp: compute_grpo_vectorized_outcome_advantage_def Let_def len g elim!: outcome_shaped intro: b(3) split: prod.splits if_split_asm)
  next
    case c_gdpo
    show ?thesis by (rule estimator_shaped [OF assms(2) [unfolded c_gdpo adv_estimator_fn.simps]]) (erule gdpo_shaped, rule b(1), rule b(3), rule b(9))
  qed
qed

lemma token_estimator_shaped:
  assumes "batch_shaped n k b" and "adv_estimator_fn e c b = Inr (advantages, returns)" and e: "e \<in> {GAE, REINFORCE_PLUS_PLUS, REINFORCE_PLUS_PLUS_BASELINE, REMAX, OPTIMAL_TOKEN_BASELINE, TIR_OPTIMAL_TOKEN_BASELINE}"
  shows "shaped n k advantages \<and> shaped n k returns"
proof -
  note b = batch_shapedD [OF assms(1)]
  note len = b(10)
  have pv: "length (path_variance (adv_log_probs b) (adv_sum_pi_squared b) (adv_mask b) (adv_is_weights b)) = n"
    using b(3,6,7,8) [THEN shaped_length] by (simp add: path_variance_def Let_def split: option.splits)
  from e consider (c_gae) "e = GAE" | (c_reinforce_plus_plus) "e = REINFORCE_PLUS_PLUS" | (c_reinforce_plus_plus_baseline) "e = REINFORCE_PLUS_PLUS_BASELINE" | (c_remax) "e = REMAX" | (c_optimal_token_baseline) "e = OPTIMAL_TOKEN_BASELINE" | (c_tir_optimal_token_baseline) "e = TIR_OPTIMAL_TOKEN_BASELINE" by blast
  then show ?thesis
  proof cases
    case c_gae
    show ?thesis by (rule estimator_shaped [OF assms(2) [unfolded c_gae adv_estimator_fn.simps]]) (erule gae_shaped, rule b(1), rule b(2), rule b(3))
  next
    case c_reinforce_plus_plus
    show ?thesis by (rule estimator_shaped [OF assms(2) [unfolded c_reinforce_plus_plus adv_estimator_fn.simps]]) (erule reinforce_shaped, rule b(1), rule b(3))
  next
    case c_reinforce_plus_plus_baseline
    show ?thesis by (rule estimator_shaped [OF assms(2) [unfolded c_reinforce_plus_plus_baseline adv_estimator_fn.simps]]) (erule reinforce_baseline_shaped, rule len, rule b(3))
  next
    case c_remax
    have "shaped n k (reward_to_go (token_level_rewards b) (adv_mask b))" by (rule shaped_reward_to_go [OF b(1,3)])
    moreover from this have "shaped n k (mat2 (-) (reward_to_go (token_level_rewards b) (adv_mask b)) (spread (reward_baselines b) (adv_mask b)))"
      by (rule shaped_mat2) (rule shaped_spread [OF b(3,5)])
    ultimately show ?thesis using assms(2) c_remax plain_nan_shaped by (simp add: compute_remax_outcome_advantage_def Let_def)
  next
    case c_optimal_token_baseline
    show ?thesis by (rule estimator_shaped [OF assms(2) [unfolded c_optimal_token_baseline adv_estimator_fn.simps]]) (erule otb_shaped, rule b(1), rule b(3))
  next
    case c_tir_optimal_token_baseline
    show ?thesis by (rule estimator_shaped [OF assms(2) [unfolded c_tir_optimal_token_baseline adv_estimator_fn.simps]]) (erule tir_shaped, rule b(1), rule b(3), rule pv)
  qed
qed

text \<open>
  Every registered estimator that returns keeps the shape of the batch: advantages and returns have one entry per token of every response.
\<close>

lemma advantage_shapes:
  assumes "batch_shaped n k b" and "adv_estimator_fn e c b = Inr (advantages, returns)"
  shows "shaped n k advantages \<and> shaped n k returns"
  using outcome_estimator_shaped [OF assms] token_estimator_shaped [OF assms] by (cases e) simp_all

definition small_batch :: adv_batch where
  "small_batch = \<lparr>token_level_rewards = [[1], [3]], adv_values = [[0], [0]], adv_mask = [[1], [1]], adv_index = [LInt 0, LInt 0], reward_baselines = [0, 0],
     adv_log_probs = [[0], [0]], adv_sum_pi_squared = [[1], [1]], adv_is_weights = None, adv_comps = None\<rparr>"

definition small_config :: adv_config where
  "small_config = \<lparr>adv_gamma = 1, adv_lam = 1, adv_epsilon = 1 / 10 ^ 6, adv_norm = False, adv_f_norm = 1, adv_zero_tail = True, adv_weights = None,
     adv_top2 = (\<lambda>_. (1, 0)), adv_parse = (\<lambda>_. None), adv_show = (\<lambda>_. [])\<rparr>"

lemma advantage_shapes_witness:
  "\<exists>advantages returns. adv_estimator_fn GRPO small_config small_batch = Inr (advantages, returns) \<and>
     shaped 2 1 advantages \<and> advantages = [[Some (- 1)], [Some 1]]"
proof -
  have "adv_estimator_fn GRPO small_config small_batch = Inr ([[Some (- 1)], [Some 1]], [[Some (- 1)], [Some 1]])"
    by (simp add: small_batch_def small_config_def grpo_eq members_def row_sums_def outcome_def spread_def t_mean_def plain_nan_def Let_def)
  moreover from advantage_shapes [OF _ this, of 2 1] have "shaped 2 1 [[Some (- 1 :: real)], [Some 1]]"
    by (simp add: batch_shaped_def small_batch_def shaped_def)
  ultimately show ?thesis by blast
qed

section \<open>Further estimators\<close>

text \<open>REINFORCE++: the rewards are discounted, and nothing behind a token with mask zero is added to an earlier return.\<close>

lemma reinforce_returns:
  "snd (reinforce_row gamma toks) = map (\<lambda>t. \<Sum>l < length toks - t. gamma ^ l * fst (toks ! (t + l)) * (\<Prod>j \<in> {1..l}. snd (toks ! (t + j)))) [0..<length toks] \<and>
   fst (reinforce_row gamma toks) = (if toks = [] then 0 else snd (hd toks) * hd (snd (reinforce_row gamma toks)))"
proof (induction toks)
  case (Cons x toks)
  obtain r m where x: "x = (r, m)" by (cases x)
  obtain run rs where row: "reinforce_row gamma toks = (run, rs)" by (cases "reinforce_row gamma toks")
  have rs: "rs = map (\<lambda>t. \<Sum>l < length toks - t. gamma ^ l * fst (toks ! (t + l)) * (\<Prod>j \<in> {1..l}. snd (toks ! (t + j)))) [0..<length toks]"
    using Cons.IH [THEN conjunct1] by (simp only: row snd_conv)
  have run: "run = (if toks = [] then 0 else snd (hd toks) * hd rs)" using Cons.IH [THEN conjunct2] by (simp only: row fst_conv snd_conv)
  have upt: "[0..<Suc n] = 0 # map Suc [0..<n]" for n by (simp add: map_Suc_upt upt_conv_Cons)
  have prod: "(\<Prod>j \<in> {1..Suc l}. snd ((x # toks) ! j)) = snd (toks ! 0) * (\<Prod>j \<in> {1..l}. snd (toks ! j))" for l
  proof -
    have "(\<Prod>j \<in> {1..Suc l}. snd ((x # toks) ! j)) = (\<Prod>j \<in> {0..l}. snd ((x # toks) ! Suc j))"
      unfolding One_nat_def by (rule prod.shift_bounds_cl_Suc_ivl)
    also have "\<dots> = snd (toks ! 0) * (\<Prod>j \<in> {1..l}. snd (toks ! j))" by (simp add: prod.atLeast_Suc_atMost)
    finally show ?thesis .
  qed
  have "(\<Sum>l < Suc (length toks). gamma ^ l * fst ((x # toks) ! l) * (\<Prod>j \<in> {1..l}. snd ((x # toks) ! j))) = r + gamma * run"
  proof (cases "toks = []")
    case False
    then have h: "hd rs = (\<Sum>l < length toks. gamma ^ l * fst (toks ! l) * (\<Prod>j \<in> {1..l}. snd (toks ! j)))" by (simp add: rs hd_map)
    have "(\<Sum>l < Suc (length toks). gamma ^ l * fst ((x # toks) ! l) * (\<Prod>j \<in> {1..l}. snd ((x # toks) ! j))) =
      r + (\<Sum>l < length toks. gamma ^ Suc l * fst (toks ! l) * (\<Prod>j \<in> {1..Suc l}. snd ((x # toks) ! j)))"
      by (subst sum.lessThan_Suc_shift) (simp add: x)
    also have "(\<Sum>l < length toks. gamma ^ Suc l * fst (toks ! l) * (\<Prod>j \<in> {1..Suc l}. snd ((x # toks) ! j))) = gamma * (snd (toks ! 0) * hd rs)"
      unfolding prod h sum_distrib_left by (rule sum.cong) (simp_all add: mult_ac)
    finally show ?thesis using False by (simp add: run hd_conv_nth)
  qed (simp add: run x)
  then show ?case by (simp add: x row Let_def upt rs del: upt_Suc)
qed simp

text \<open>Subtracting the mean of a group leaves advantages that add up to zero.\<close>

lemma centered_sum: "xs \<noteq> [] \<Longrightarrow> sum_list (map (\<lambda>x. x - t_mean xs) xs) = 0"
proof -
  assume "xs \<noteq> []"
  have "sum_list (map (\<lambda>x. x - m) xs) = sum_list xs - real (length xs) * m" for m by (induction xs) (auto simp: algebra_simps)
  then show ?thesis using \<open>xs \<noteq> []\<close> by (simp add: t_mean_def)
qed

text \<open>
  The factor of the adaptive controller: the coefficient stays positive for every measured divergence exactly if fewer than five times \<open>horizon\<close> steps
  are reported at once.
\<close>

lemma kl_update_positive:
  assumes "0 < v" "0 < target" "0 < horizon" "0 \<le> n_steps"
  shows "(\<forall>current_kl. 0 < ctrl_value (kl_update current_kl n_steps (AdaptiveKLController v target horizon))) \<longleftrightarrow> n_steps < 5 * horizon"
proof -
  have e: "0 < ctrl_value (kl_update kl n_steps (AdaptiveKLController v target horizon)) \<longleftrightarrow> - horizon < clamp (- 1 / 5) (1 / 5) (kl / target - 1) * n_steps" for kl
  proof -
    define x where "x = clamp (- 1 / 5) (1 / 5) (kl / target - 1)"
    have "0 < v * (1 + x * n_steps / horizon) \<longleftrightarrow> 0 < 1 + x * n_steps / horizon" using assms(1) by (simp add: zero_less_mult_iff)
    also have "\<dots> \<longleftrightarrow> - horizon < x * n_steps" using assms(3) by (simp add: field_simps) linarith
    finally show ?thesis by (simp add: Let_def x_def)
  qed
  have "- horizon < clamp (- 1 / 5) (1 / 5) x * n_steps" if "n_steps < 5 * horizon" for x
  proof -
    have "- 1 / 5 \<le> clamp (- 1 / 5) (1 / 5) x" by (simp add: clamp_def)
    then have "- 1 / 5 * n_steps \<le> clamp (- 1 / 5) (1 / 5) x * n_steps" using assms(4) by (rule mult_right_mono)
    then show ?thesis using that by linarith
  qed
  moreover have "n_steps < 5 * horizon" if "- horizon < clamp (- 1 / 5) (1 / 5) (0 / target - 1) * n_steps" using that by (simp add: clamp_def)
  ultimately show ?thesis unfolding e by blast
qed

end
