(* ===== verification/Policy_Loss.thy ===== *)
theory Policy_Loss
  imports Torch_Functional
begin

text \<open>
  The losses of \<open>verl/trainer/ppo/core_algos.py\<close>: aggregation of a matrix of token losses, the policy losses, the losses of entropy and
  values, the penalties for the distance to a reference policy.

  As in \<^theory_text>\<open>Torch_Functional\<close> numbers are reals, the tensors of a call have one shape, and a loss that the code computes as nan is \<open>None\<close>. Values
  only: \<open>detach\<close> does not change a value. An actor configuration is always given, and log-probabilities are at most 0.
\<close>

section \<open>Aggregation\<close>

text \<open>The keyword arguments of \<open>agg_loss\<close>, kept by the actor configuration as \<open>global_batch_info\<close>.\<close>

record batch_info =
  dp_size :: nat
  batch_num_tokens :: "real option"
  global_batch_size :: "real option"
  loss_scale_factor :: "real option"

definition no_batch_info :: batch_info where
  "no_batch_info = \<lparr>dp_size = 1, batch_num_tokens = None, global_batch_size = None, loss_scale_factor = None\<rparr>"

definition token_count :: "mat \<Rightarrow> real" where
  "token_count m = sum_list (concat m)"

definition seq_valid :: "mat \<Rightarrow> vec" where
  "seq_valid m = map (\<lambda>r. if 0 < sum_list r then 1 else 0) m"

text \<open>A count that is not given is the one of the batch, which is right on one rank only.\<close>

definition global_count :: "nat \<Rightarrow> real option \<Rightarrow> real \<Rightarrow> real result" where
  "global_count dp given own = (case given of Some n \<Rightarrow> Inr n | None \<Rightarrow> if 1 < dp then Inl ValueError else Inr own)"

definition horizon :: "mat \<Rightarrow> nat" where
  "horizon m = (case m of [] \<Rightarrow> 0 | r # _ \<Rightarrow> length r)"

definition agg_loss :: "mat \<Rightarrow> mat \<Rightarrow> string \<Rightarrow> batch_info \<Rightarrow> real option result" where
  "agg_loss loss_mat loss_mask loss_agg_mode info =
     (if loss_agg_mode = ''token-mean'' then
        rbind (global_count (dp_size info) (batch_num_tokens info) (token_count loss_mask)) (\<lambda>n.
          Inr (map_option (\<lambda>x. x * real (dp_size info)) (tdiv (masked_sum (concat loss_mat) (concat loss_mask)) n)))
      else if loss_agg_mode = ''seq-mean-token-sum'' \<or> loss_agg_mode = ''seq-mean-token-sum-norm'' then
        let seq_losses = map2 (\<lambda>l m. sum_list (map2 (*) l m)) loss_mat loss_mask;
            seq_mask = seq_valid loss_mask
        in rbind (global_count (dp_size info) (global_batch_size info) (sum_list seq_mask)) (\<lambda>n.
          let loss = map_option (\<lambda>x. x * real (dp_size info)) (tdiv (masked_sum seq_losses seq_mask) n)
          in Inr (if loss_agg_mode = ''seq-mean-token-sum-norm''
               then Option.bind loss (\<lambda>l. tdiv l (case loss_scale_factor info of None \<Rightarrow> real (horizon loss_mask) | Some f \<Rightarrow> f))
               else loss))
      else if loss_agg_mode = ''seq-mean-token-mean'' then
        let seq_losses = map2 (\<lambda>l m. sum_list (map2 (*) l m) / (sum_list m + 1 / 10 ^ 8)) loss_mat loss_mask;
            seq_mask = seq_valid loss_mask
        in rbind (global_count (dp_size info) (global_batch_size info) (sum_list seq_mask)) (\<lambda>n.
          Inr (map_option (\<lambda>x. x * real (dp_size info)) (tdiv (masked_sum seq_losses seq_mask) n)))
      else Inl ValueError)"

section \<open>Policy losses\<close>

record policy_loss_config =
  clip_cov_ratio :: "real option"
  clip_cov_lb :: "real option"
  clip_cov_ub :: "real option"
  kl_cov_ratio :: "real option"
  ppo_kl_coef :: "real option"

text \<open>\<open>clip_ratio_c\<close> is read with \<open>config.get\<close>: an optional key.\<close>

record actor_config =
  clip_ratio :: real
  clip_ratio_low :: "real option"
  clip_ratio_high :: "real option"
  clip_ratio_c :: "real option"
  tau_pos :: real
  tau_neg :: real
  policy_loss :: policy_loss_config
  global_batch_info :: batch_info

text \<open>The defaults of \<open>PolicyLossConfig\<close> and \<open>ActorConfig\<close>.\<close>

definition default_policy_loss :: policy_loss_config where
  "default_policy_loss = \<lparr>clip_cov_ratio = Some (2 / 10000), clip_cov_lb = Some 1, clip_cov_ub = Some 5, kl_cov_ratio = Some (2 / 10000), ppo_kl_coef = Some (1 / 10)\<rparr>"

definition default_actor :: actor_config where
  "default_actor = \<lparr>clip_ratio = 1 / 5, clip_ratio_low = Some (1 / 5), clip_ratio_high = Some (1 / 5), clip_ratio_c = Some 3,
     tau_pos = 1, tau_neg = 105 / 100, policy_loss = default_policy_loss, global_batch_info = no_batch_info\<rparr>"

type_synonym metrics = "(string \<times> real) list"
type_synonym loss = "(real option \<times> metrics) result"

definition get_opt :: "'a \<Rightarrow> 'a option \<Rightarrow> 'a" where
  "get_opt d x = (case x of None \<Rightarrow> d | Some y \<Rightarrow> y)"

abbreviation cfg_low :: "actor_config \<Rightarrow> real" where
  "cfg_low config \<equiv> get_opt (clip_ratio config) (clip_ratio_low config)"

abbreviation cfg_high :: "actor_config \<Rightarrow> real" where
  "cfg_high config \<equiv> get_opt (clip_ratio config) (clip_ratio_high config)"

abbreviation flag :: "bool \<Rightarrow> real" where
  "flag b \<equiv> if b then 1 else 0"

abbreviation mat3 :: "('a \<Rightarrow> 'b \<Rightarrow> 'c \<Rightarrow> 'd) \<Rightarrow> 'a list list \<Rightarrow> 'b list list \<Rightarrow> 'c list list \<Rightarrow> 'd list list" where
  "mat3 f a b c \<equiv> mat2 (\<lambda>x (y, z). f x y z) a (mat2 Pair b c)"

definition mat_mean :: "mat \<Rightarrow> mat \<Rightarrow> real" where
  "mat_mean values m = masked_mean (concat values) (concat m)"

text \<open>The weights of rollout correction, if provided.\<close>

definition weighted :: "mat option \<Rightarrow> mat \<Rightarrow> mat" where
  "weighted weights losses = (case weights of None \<Rightarrow> losses | Some w \<Rightarrow> mat2 (*) losses w)"

definition clamped_kl :: "mat \<Rightarrow> mat \<Rightarrow> mat" where
  "clamped_kl old_log_prob log_prob = mat2 (\<lambda>old new. clamp (- 20) 20 (new - old)) old_log_prob log_prob"

definition ppo_kl_of :: "mat \<Rightarrow> mat \<Rightarrow> real" where
  "ppo_kl_of negative_approx_kl response_mask = mat_mean (map (map uminus) negative_approx_kl) response_mask"

subsection \<open>Clipped objective of PPO\<close>

text \<open>The loss of a token: \<open>pg_losses1\<close>, \<open>pg_losses2\<close>, \<open>clip_pg_losses1\<close>, \<open>pg_losses3\<close>, \<open>pg_losses\<close>.\<close>

definition pg_losses2 :: "real \<Rightarrow> real \<Rightarrow> real \<Rightarrow> real \<Rightarrow> real" where
  "pg_losses2 low high adv ratio = - adv * clamp (1 - low) (1 + high) ratio"

definition clip_pg_losses1 :: "real \<Rightarrow> real \<Rightarrow> real \<Rightarrow> real \<Rightarrow> real" where
  "clip_pg_losses1 low high adv ratio = max (- adv * ratio) (pg_losses2 low high adv ratio)"

definition ppo_token_loss :: "real \<Rightarrow> real \<Rightarrow> real \<Rightarrow> real \<Rightarrow> real \<Rightarrow> real" where
  "ppo_token_loss low high c adv ratio =
     (if adv < 0 then min (- adv * c) (clip_pg_losses1 low high adv ratio) else clip_pg_losses1 low high adv ratio)"

definition compute_policy_loss ::
  "mat \<Rightarrow> mat \<Rightarrow> mat \<Rightarrow> mat \<Rightarrow> real option \<Rightarrow> real option \<Rightarrow> real option \<Rightarrow> real \<Rightarrow> string \<Rightarrow> (real option \<times> real \<times> real \<times> real) result" where
  "compute_policy_loss old_log_prob log_prob advantages response_mask cliprange cliprange_low cliprange_high c loss_agg_mode =
     (if \<not> 1 < c then Inl AssertionError
      else case (if cliprange_low = None then cliprange else cliprange_low, if cliprange_high = None then cliprange else cliprange_high) of
        (Some low, Some high) \<Rightarrow>
          let negative_approx_kl = clamped_kl old_log_prob log_prob;
              ratio = map (map exp) negative_approx_kl;
              pg_clipfrac = mat_mean (mat2 (\<lambda>a r. flag (- a * r < pg_losses2 low high a r)) advantages ratio) response_mask;
              pg_clipfrac_lower = mat_mean (mat2 (\<lambda>a r. flag (- a * c < clip_pg_losses1 low high a r) * flag (a < 0)) advantages ratio) response_mask
          in rbind (agg_loss (mat2 (ppo_token_loss low high c) advantages ratio) response_mask loss_agg_mode no_batch_info) (\<lambda>pg_loss.
               Inr (pg_loss, pg_clipfrac, ppo_kl_of negative_approx_kl response_mask, pg_clipfrac_lower))
      | _ \<Rightarrow> Inl TypeError)"

definition compute_policy_loss_vanilla :: "mat \<Rightarrow> mat \<Rightarrow> mat \<Rightarrow> mat \<Rightarrow> string \<Rightarrow> actor_config \<Rightarrow> mat option \<Rightarrow> loss" where
  "compute_policy_loss_vanilla old_log_prob log_prob advantages response_mask loss_agg_mode config rollout_is_weights =
     (let low = cfg_low config; high = cfg_high config; c = get_opt 3 (clip_ratio_c config)
      in if \<not> 1 < c then Inl AssertionError
      else let
          negative_approx_kl = clamped_kl old_log_prob log_prob;
          ratio = map (map exp) negative_approx_kl;
          pg_clipfrac = mat_mean (mat2 (\<lambda>a r. flag (- a * r < pg_losses2 low high a r)) advantages ratio) response_mask;
          pg_clipfrac_lower = mat_mean (mat2 (\<lambda>a r. flag (- a * c < clip_pg_losses1 low high a r) * flag (a < 0)) advantages ratio) response_mask;
          pg_losses = weighted rollout_is_weights (mat2 (ppo_token_loss low high c) advantages ratio)
        in rbind (agg_loss pg_losses response_mask loss_agg_mode (global_batch_info config)) (\<lambda>pg_loss.
             Inr (pg_loss, [(''actor/pg_clipfrac'', pg_clipfrac),
                            (''actor/ppo_kl'', ppo_kl_of negative_approx_kl response_mask),
                            (''actor/pg_clipfrac_lower'', pg_clipfrac_lower)])))"

subsection \<open>Divergence thresholds\<close>

text \<open>The two losses of DPPO share all but the mask of the valid tokens.\<close>

definition dppo_loss :: "(real \<Rightarrow> real \<Rightarrow> real \<Rightarrow> bool) \<Rightarrow> mat \<Rightarrow> mat \<Rightarrow> mat \<Rightarrow> mat \<Rightarrow> string \<Rightarrow> actor_config \<Rightarrow> mat option \<Rightarrow> loss" where
  "dppo_loss valid old_log_prob log_prob advantages response_mask loss_agg_mode config rollout_is_weights =
     (let negative_approx_kl = clamped_kl old_log_prob log_prob;
          ratio = map (map exp) negative_approx_kl;
          c = get_opt 20 (clip_ratio_c config);
          valid_mask = mat3 (\<lambda>a old new. flag (valid a old new)) advantages old_log_prob log_prob;
          pg_losses = weighted rollout_is_weights
            (mat2 (*) (mat3 (\<lambda>a r lp. - a * min r c * lp) advantages ratio log_prob) valid_mask)
      in rbind (agg_loss pg_losses response_mask loss_agg_mode (global_batch_info config)) (\<lambda>pg_loss.
           Inr (pg_loss, [(''actor/pg_clipfrac'', mat_mean (map (map (\<lambda>v. 1 - v)) valid_mask) response_mask),
                          (''actor/ppo_kl'', ppo_kl_of negative_approx_kl response_mask),
                          (''actor/pg_clipfrac_lower'', mat_mean (mat2 (\<lambda>r v. flag (c < r) * v) ratio valid_mask) response_mask)])))"

definition valid_tv :: "real \<Rightarrow> real \<Rightarrow> real \<Rightarrow> real \<Rightarrow> real \<Rightarrow> bool" where
  "valid_tv low high adv old_log_prob log_prob =
     (if 0 < adv then exp log_prob - exp old_log_prob \<le> high else - low \<le> exp log_prob - exp old_log_prob)"

definition compute_policy_loss_dppo_tv :: "mat \<Rightarrow> mat \<Rightarrow> mat \<Rightarrow> mat \<Rightarrow> string \<Rightarrow> actor_config \<Rightarrow> mat option \<Rightarrow> loss" where
  "compute_policy_loss_dppo_tv old_log_prob log_prob advantages response_mask loss_agg_mode config rollout_is_weights =
     dppo_loss (valid_tv (cfg_low config) (cfg_high config))
       old_log_prob log_prob advantages response_mask loss_agg_mode config rollout_is_weights"

definition binary_kl :: "real \<Rightarrow> real \<Rightarrow> real" where
  "binary_kl old_log_prob log_prob =
     exp old_log_prob * (old_log_prob - log_prob)
     + (1 - exp old_log_prob) * ln ((1 - exp old_log_prob + 1 / 10 ^ 8) / (1 - exp log_prob + 1 / 10 ^ 8))"

definition valid_kl :: "real \<Rightarrow> real \<Rightarrow> real \<Rightarrow> real \<Rightarrow> real \<Rightarrow> bool" where
  "valid_kl low high adv old_log_prob log_prob =
     (if 0 < adv then binary_kl old_log_prob log_prob \<le> high \<or> exp log_prob \<le> exp old_log_prob
      else binary_kl old_log_prob log_prob \<le> low \<or> exp old_log_prob \<le> exp log_prob)"

definition compute_policy_loss_dppo_kl :: "mat \<Rightarrow> mat \<Rightarrow> mat \<Rightarrow> mat \<Rightarrow> string \<Rightarrow> actor_config \<Rightarrow> mat option \<Rightarrow> loss" where
  "compute_policy_loss_dppo_kl old_log_prob log_prob advantages response_mask loss_agg_mode config rollout_is_weights =
     dppo_loss (valid_kl (cfg_low config) (cfg_high config))
       old_log_prob log_prob advantages response_mask loss_agg_mode config rollout_is_weights"

subsection \<open>Sequence-level and smoothed ratios\<close>

definition seq_ratio :: "vec \<Rightarrow> vec \<Rightarrow> vec \<Rightarrow> vec" where
  "seq_ratio old_log_prob log_prob response_mask =
     (let negative_approx_kl_seq = sum_list (map2 (*) (map2 (-) log_prob old_log_prob) response_mask) / max (sum_list response_mask) 1
      in map (\<lambda>lp. exp (min (lp - lp + negative_approx_kl_seq) 10)) log_prob)"

definition compute_policy_loss_gspo :: "mat \<Rightarrow> mat \<Rightarrow> mat \<Rightarrow> mat \<Rightarrow> string \<Rightarrow> actor_config \<Rightarrow> mat option \<Rightarrow> loss" where
  "compute_policy_loss_gspo old_log_prob log_prob advantages response_mask loss_agg_mode config rollout_is_weights =
     (let low = cfg_low config; high = cfg_high config;
          ratio = map (\<lambda>(old, new, m). seq_ratio old new m) (zip old_log_prob (zip log_prob response_mask));
          pg_losses = weighted rollout_is_weights (mat2 (clip_pg_losses1 low high) advantages ratio)
      in rbind (agg_loss pg_losses response_mask ''seq-mean-token-mean'' (global_batch_info config)) (\<lambda>pg_loss.
           Inr (pg_loss, [(''actor/pg_clipfrac'', mat_mean (mat2 (\<lambda>a r. flag (- a * r < pg_losses2 low high a r)) advantages ratio) response_mask),
                          (''actor/ppo_kl'', ppo_kl_of (mat2 (-) log_prob old_log_prob) response_mask),
                          (''actor/pg_clipfrac_lower'', 0)])))"

definition gate_function :: "real \<Rightarrow> real \<Rightarrow> real" where
  "gate_function x tau = 1 / (1 + exp (- (tau * (x - 1)))) * (4 / tau)"

text \<open>The temperatures of SAPO are not 0.\<close>

definition compute_policy_loss_sapo :: "mat \<Rightarrow> mat \<Rightarrow> mat \<Rightarrow> mat \<Rightarrow> string \<Rightarrow> actor_config \<Rightarrow> mat option \<Rightarrow> loss" where
  "compute_policy_loss_sapo old_log_prob log_prob advantages response_mask loss_agg_mode config rollout_is_weights =
     (let negative_approx_kl = clamped_kl old_log_prob log_prob;
          ratio = map (map exp) negative_approx_kl;
          gates = mat2 (\<lambda>a r. gate_function r (if 0 < a then tau_pos config else tau_neg config)) advantages ratio;
          pg_losses = weighted rollout_is_weights (mat2 (\<lambda>g a. - g * a) gates advantages)
      in rbind (agg_loss pg_losses response_mask ''seq-mean-token-mean'' (global_batch_info config)) (\<lambda>pg_loss.
           Inr (pg_loss, [(''actor/pg_clipfrac'', 0),
                          (''actor/ppo_kl'', ppo_kl_of negative_approx_kl response_mask),
                          (''actor/pg_clipfrac_lower'', 0)])))"

definition compute_policy_loss_gpg :: "mat \<Rightarrow> mat \<Rightarrow> mat \<Rightarrow> mat \<Rightarrow> string \<Rightarrow> actor_config \<Rightarrow> mat option \<Rightarrow> loss" where
  "compute_policy_loss_gpg old_log_prob log_prob advantages response_mask loss_agg_mode config rollout_is_weights =
     rbind (agg_loss (weighted rollout_is_weights (mat2 (\<lambda>lp a. - lp * a) log_prob advantages)) response_mask loss_agg_mode (global_batch_info config))
       (\<lambda>pg_loss. Inr (pg_loss, []))"

subsection \<open>Covariance of advantages and log-probabilities\<close>

text \<open>\<open>torch.nonzero\<close>: the positions of the true entries, row by row.\<close>

definition nonzero :: "bool list list \<Rightarrow> (nat \<times> nat) list" where
  "nonzero m = concat (map (\<lambda>(i, row). map (\<lambda>(j, _). (i, j)) (filter snd (enumerate 0 row))) (enumerate 0 m))"

text \<open>\<open>cov_all\<close>, with \<open>None\<close> for the infinity of masked and of clipped tokens.\<close>

definition cov_all :: "real \<Rightarrow> real \<Rightarrow> mat \<Rightarrow> mat \<Rightarrow> mat \<Rightarrow> mat \<Rightarrow> real option list list" where
  "cov_all low high ratio log_prob advantages response_mask =
     (let adv_mean = mat_mean advantages response_mask; lp_mean = mat_mean log_prob response_mask
      in mat3 (\<lambda>a r (lp, m). if m = 0 \<or> (- a * r < pg_losses2 low high a r \<and> 0 < m) then None else Some ((a - adv_mean) * (lp - lp_mean)))
           advantages ratio (mat2 Pair log_prob response_mask))"

text \<open>\<open>randperm n\<close> is the permutation that \<open>torch.randperm(n)\<close> draws.\<close>

definition clip_cov_corr :: "(nat \<Rightarrow> nat list) \<Rightarrow> real \<Rightarrow> real \<Rightarrow> nat \<Rightarrow> real option list list \<Rightarrow> mat \<Rightarrow> mat" where
  "clip_cov_corr randperm lb ub clip_num cov response_mask =
     (let cand = nonzero (mat2 (\<lambda>c m. (case c of None \<Rightarrow> False | Some x \<Rightarrow> x < ub \<and> lb < x) \<and> 0 < m) cov response_mask);
          top_k_idx = map ((!) cand) (take (min clip_num (length cand)) (randperm (length cand)))
      in map (\<lambda>(i, row). map (\<lambda>(j, _). flag ((i, j) \<notin> set top_k_idx)) (enumerate 0 row)) (enumerate 0 cov))"

definition compute_policy_loss_clip_cov :: "(nat \<Rightarrow> nat list) \<Rightarrow> mat \<Rightarrow> mat \<Rightarrow> mat \<Rightarrow> mat \<Rightarrow> string \<Rightarrow> actor_config \<Rightarrow> mat option \<Rightarrow> loss" where
  "compute_policy_loss_clip_cov randperm old_log_prob log_prob advantages response_mask loss_agg_mode config rollout_is_weights =
     (let cov_ratio = get_opt (2 / 10000) (clip_cov_ratio (policy_loss config));
          low = cfg_low config; high = cfg_high config;
          ub = get_opt 5 (clip_cov_ub (policy_loss config));
          lb = get_opt 1 (clip_cov_lb (policy_loss config))
      in if \<not> 0 < cov_ratio then Inl AssertionError
      else let
          negative_approx_kl = mat2 (-) log_prob old_log_prob;
          ratio = map (map exp) negative_approx_kl;
          cov = cov_all low high ratio log_prob advantages response_mask;
          clip_num = max (nat \<lfloor>cov_ratio * token_count response_mask\<rfloor>) 1;
          corr = clip_cov_corr randperm lb ub clip_num cov response_mask;
          pg_losses = weighted rollout_is_weights (mat2 (*) (mat2 (clip_pg_losses1 low high) advantages ratio) corr)
        in rbind (agg_loss pg_losses response_mask loss_agg_mode (global_batch_info config)) (\<lambda>pg_loss.
             Inr (pg_loss, [(''actor/pg_clipfrac'', mat_mean (map (map (\<lambda>c. flag (c = 0))) corr) response_mask),
                            (''actor/ppo_kl'', ppo_kl_of negative_approx_kl response_mask)])))"

text \<open>\<open>topk xs k\<close> are the indices that \<open>torch.topk(xs, k, largest=True)\<close> returns, which raises when \<open>k\<close> exceeds the number of entries.\<close>

definition kl_cov_tokens :: "(vec \<Rightarrow> nat \<Rightarrow> nat list) \<Rightarrow> real \<Rightarrow> mat \<Rightarrow> mat \<Rightarrow> mat \<Rightarrow> (nat \<times> nat) list result" where
  "kl_cov_tokens topk cov_ratio log_prob advantages response_mask =
     (let all_valid_idx = nonzero (map (map (\<lambda>m. 0 < m)) response_mask);
          all_valid_adv = map (\<lambda>(i, j). advantages ! i ! j) all_valid_idx;
          all_valid_logp = map (\<lambda>(i, j). log_prob ! i ! j) all_valid_idx
      in if min cov_ratio (real (length all_valid_adv)) = 0 then Inr []
      else let
          cov_lst_all = map2 (\<lambda>a lp. (a - t_mean all_valid_adv) * (lp - t_mean all_valid_logp)) all_valid_adv all_valid_logp;
          k_percent_nums = max 1 (nat \<lfloor>real (length cov_lst_all) * cov_ratio\<rfloor>)
        in if length cov_lst_all < k_percent_nums then Inl RuntimeError
           else Inr (map ((!) all_valid_idx) (topk cov_lst_all k_percent_nums)))"

definition compute_policy_loss_kl_cov :: "(vec \<Rightarrow> nat \<Rightarrow> nat list) \<Rightarrow> mat \<Rightarrow> mat \<Rightarrow> mat \<Rightarrow> mat \<Rightarrow> string \<Rightarrow> actor_config \<Rightarrow> mat option \<Rightarrow> loss" where
  "compute_policy_loss_kl_cov topk old_log_prob log_prob advantages response_mask loss_agg_mode config rollout_is_weights =
     (let cov_ratio = get_opt (2 / 10000) (kl_cov_ratio (policy_loss config));
          kl_coef = get_opt 1 (ppo_kl_coef (policy_loss config))
      in if \<not> 0 < cov_ratio then Inl AssertionError
      else let
          negative_approx_kl = mat2 (-) log_prob old_log_prob;
          abs_kl = map (map abs) negative_approx_kl;
          pg_losses1 = mat2 (\<lambda>a d. - a * exp d) advantages negative_approx_kl;
          pg_losses_kl = mat2 (\<lambda>l d. l + kl_coef * d) pg_losses1 abs_kl
        in rbind (kl_cov_tokens topk cov_ratio log_prob advantages response_mask) (\<lambda>idx.
           let pg_losses = map (\<lambda>(i, row). map (\<lambda>(j, l, l'). if (i, j) \<in> set idx then l' else l) (enumerate 0 row))
                 (enumerate 0 (mat2 Pair pg_losses1 pg_losses_kl))
           in rbind (agg_loss (weighted rollout_is_weights pg_losses) response_mask loss_agg_mode (global_batch_info config)) (\<lambda>pg_loss.
             Inr (pg_loss, [(''actor/ppo_kl'', mat_mean abs_kl response_mask)]))))"

subsection \<open>Geometric mean, clipped weights and REINFORCE\<close>

definition geo_token :: "real \<Rightarrow> real \<Rightarrow> real \<Rightarrow> real \<Rightarrow> real" where
  "geo_token low high adv d = sgn adv * min (sgn adv * d) (sgn adv * clamp (- low) high d)"

definition geo_row :: "real \<Rightarrow> real \<Rightarrow> vec \<Rightarrow> vec \<Rightarrow> vec \<Rightarrow> real" where
  "geo_row low high advs ds ms =
     (let n = sum_list ms + 1 / 10 ^ 8;
          ratio = exp (sum_list (map2 (*) (map2 (geo_token low high) advs ds) ms) / n);
          advantage = sum_list (map2 (*) advs ms) / n
      in - advantage * ratio)"

definition geo_weights :: "vec \<Rightarrow> vec \<Rightarrow> real" where
  "geo_weights ws ms = exp (sum_list (map2 (*) (map (\<lambda>w. ln (w + 1 / 10 ^ 10)) ws) ms) / (sum_list ms + 1 / 10 ^ 8))"

definition compute_policy_loss_geo_mean :: "mat \<Rightarrow> mat \<Rightarrow> mat \<Rightarrow> mat \<Rightarrow> string \<Rightarrow> actor_config \<Rightarrow> mat option \<Rightarrow> loss" where
  "compute_policy_loss_geo_mean old_log_prob log_prob advantages response_mask loss_agg_mode config rollout_is_weights =
     (let low = cfg_low config; high = cfg_high config;
          negative_approx_kl = mat2 (-) log_prob old_log_prob;
          pg_losses = map (\<lambda>(as, ds, ms). geo_row low high as ds ms) (zip advantages (zip negative_approx_kl response_mask));
          pg_losses = (case rollout_is_weights of None \<Rightarrow> pg_losses | Some w \<Rightarrow> map2 (*) pg_losses (map2 geo_weights w response_mask));
          clipped = map (map (\<lambda>d. d \<noteq> clamp (- low) high d)) negative_approx_kl
      in Inr (tdiv (sum_list pg_losses) (real (length pg_losses)),
              [(''actor/pg_clipfrac'', mat_mean (mat2 (\<lambda>c a. flag (c \<and> 0 < a)) clipped advantages) response_mask),
               (''actor/ppo_kl'', ppo_kl_of negative_approx_kl response_mask),
               (''actor/pg_clipfrac_lower'', mat_mean (mat2 (\<lambda>c a. flag (c \<and> a < 0)) clipped advantages) response_mask)]))"

definition compute_policy_loss_cispo :: "mat \<Rightarrow> mat \<Rightarrow> mat \<Rightarrow> mat \<Rightarrow> string \<Rightarrow> actor_config \<Rightarrow> mat option \<Rightarrow> loss" where
  "compute_policy_loss_cispo old_log_prob log_prob advantages response_mask loss_agg_mode config rollout_is_weights =
     (let negative_approx_kl = clamped_kl old_log_prob log_prob;
          ratio = map (map exp) negative_approx_kl;
          clipped_ratio = map (map (clamp (1 - cfg_low config) (1 + cfg_high config))) ratio;
          pg_losses = weighted rollout_is_weights (mat3 (\<lambda>r a lp. - r * a * lp) clipped_ratio advantages log_prob)
      in rbind (agg_loss pg_losses response_mask loss_agg_mode (global_batch_info config)) (\<lambda>pg_loss.
           Inr (pg_loss, [(''actor/pg_clipfrac'', mat_mean (mat2 (\<lambda>r r'. flag (r \<noteq> r')) ratio clipped_ratio) response_mask),
                          (''actor/ppo_kl'', ppo_kl_of negative_approx_kl response_mask),
                          (''actor/pg_clipfrac_lower'', 0)])))"

definition compute_policy_loss_reinforce :: "mat \<Rightarrow> mat \<Rightarrow> mat \<Rightarrow> mat \<Rightarrow> string \<Rightarrow> actor_config \<Rightarrow> mat option \<Rightarrow> loss" where
  "compute_policy_loss_reinforce rollout_log_prob log_prob advantages response_mask loss_agg_mode config rollout_is_weights =
     rbind (agg_loss (weighted rollout_is_weights (mat2 (\<lambda>a lp. - a * lp) advantages log_prob)) response_mask loss_agg_mode (global_batch_info config))
       (\<lambda>pg_loss. Inr (pg_loss, [(''actor/ppo_kl'', ppo_kl_of (mat2 (-) log_prob rollout_log_prob) response_mask)]))"

section \<open>Entropy, values and penalties\<close>

text \<open>\<open>torch.logsumexp\<close> and \<open>torch.softmax\<close> of a non-empty vector.\<close>

definition logsumexp :: "vec \<Rightarrow> real" where
  "logsumexp xs = ln (sum_list (map exp xs))"

definition softmax :: "vec \<Rightarrow> vec" where
  "softmax xs = map (\<lambda>x. exp x / sum_list (map exp xs)) xs"

definition entropy_from_logits :: "vec \<Rightarrow> real" where
  "entropy_from_logits logits = logsumexp logits - sum_list (map2 (*) (softmax logits) logits)"

text \<open>The chunked version: each chunk overwrites its slice of a tensor of zeros.\<close>

fun entropy_chunks :: "nat \<Rightarrow> nat \<Rightarrow> vec list \<Rightarrow> nat \<Rightarrow> vec \<Rightarrow> vec" where
  "entropy_chunks 0 chunk_size logits i entropy = entropy"
| "entropy_chunks (Suc n) chunk_size logits i entropy =
     (if i < length logits
      then let entropy_chunk = map entropy_from_logits (py_slice i (i + chunk_size) logits)
           in entropy_chunks n chunk_size logits (i + chunk_size) (take i entropy @ entropy_chunk @ drop (i + chunk_size) entropy)
      else entropy)"

definition entropy_from_logits_with_chunking :: "vec list \<Rightarrow> nat \<Rightarrow> vec result" where
  "entropy_from_logits_with_chunking logits chunk_size =
     (if chunk_size = 0 then Inl ValueError
      else Inr (entropy_chunks (length logits) chunk_size logits 0 (replicate (length logits) 0)))"

definition logprobs_from_logits_naive :: "vec \<Rightarrow> nat \<Rightarrow> real result" where
  "logprobs_from_logits_naive logits lab = rbind (py_get (softmax logits) lab) (\<lambda>p. Inr (ln p))"

definition logprobs_from_logits_v2 :: "vec \<Rightarrow> nat \<Rightarrow> real result" where
  "logprobs_from_logits_v2 logits lab = rbind (py_get logits lab) (\<lambda>x. Inr (x - logsumexp logits))"

definition compute_entropy_loss :: "vec list list \<Rightarrow> mat \<Rightarrow> string \<Rightarrow> real option result" where
  "compute_entropy_loss logits response_mask loss_agg_mode =
     agg_loss (map (map entropy_from_logits) logits) response_mask loss_agg_mode no_batch_info"

definition vf_token_loss :: "real \<Rightarrow> real \<Rightarrow> real \<Rightarrow> real \<Rightarrow> real" where
  "vf_token_loss cliprange_value vpred ret v =
     max ((vpred - ret)\<^sup>2) ((clip_by_value (v - cliprange_value) (v + cliprange_value) vpred - ret)\<^sup>2)"

definition compute_value_loss :: "mat \<Rightarrow> mat \<Rightarrow> mat \<Rightarrow> mat \<Rightarrow> real \<Rightarrow> string \<Rightarrow> (real option \<times> real) result" where
  "compute_value_loss vpreds returns values response_mask cliprange_value loss_agg_mode =
     rbind (agg_loss (mat3 (vf_token_loss cliprange_value) vpreds returns values) response_mask loss_agg_mode no_batch_info) (\<lambda>l.
       Inr (map_option (\<lambda>x. 1 / 2 * x) l,
            mat_mean (mat3 (\<lambda>vpred ret v. flag ((vpred - ret)\<^sup>2 < (clip_by_value (v - cliprange_value) (v + cliprange_value) vpred - ret)\<^sup>2))
              vpreds returns values) response_mask))"

definition compute_rewards :: "mat \<Rightarrow> mat \<Rightarrow> mat \<Rightarrow> real \<Rightarrow> mat" where
  "compute_rewards token_level_scores old_log_prob ref_log_prob kl_ratio =
     mat3 (\<lambda>s old ref. s - (old - ref) * kl_ratio) token_level_scores old_log_prob ref_log_prob"

definition k3_estimate :: "real \<Rightarrow> real \<Rightarrow> real" where
  "k3_estimate logprob ref_logprob =
     (let kl = clamp (- 20) 20 (ref_logprob - logprob) in clamp (- 10) 10 (exp kl - kl - 1))"

definition kl_penalty_forward :: "mat \<Rightarrow> mat \<Rightarrow> string \<Rightarrow> mat result" where
  "kl_penalty_forward logprob ref_logprob penalty =
     (if penalty \<in> {''kl'', ''k1''} then Inr (mat2 (-) logprob ref_logprob)
      else if penalty = ''abs'' then Inr (mat2 (\<lambda>l r. \<bar>l - r\<bar>) logprob ref_logprob)
      else if penalty \<in> {''mse'', ''k2''} then Inr (mat2 (\<lambda>l r. 1 / 2 * (l - r)\<^sup>2) logprob ref_logprob)
      else if penalty \<in> {''low_var_kl'', ''k3''} then Inr (mat2 k3_estimate logprob ref_logprob)
      else Inl NotImplementedError)"

definition kl_penalty :: "mat \<Rightarrow> mat \<Rightarrow> string \<Rightarrow> mat result" where
  "kl_penalty logprob ref_logprob penalty =
     (let plus = penalty \<noteq> [] \<and> last penalty = CHR ''+'';
          base_kl_penalty = (if plus then butlast penalty else penalty)
      in rbind (kl_penalty_forward logprob ref_logprob base_kl_penalty) (\<lambda>forward_score.
           if \<not> plus \<or> penalty \<in> {''mse'', ''k2''} then Inr forward_score
           else let backward_score = mat2 (\<lambda>l r. 1 / 2 * (l - r)\<^sup>2) logprob ref_logprob
                in Inr (mat3 (\<lambda>b b' f. b - b' + f) backward_score backward_score forward_score)))"

section \<open>Resampling\<close>

definition compute_weights :: "vec \<Rightarrow> string \<Rightarrow> real \<Rightarrow> vec result" where
  "compute_weights scores reweight_method weight_pow =
     (if reweight_method = ''pow'' then Inr (map (\<lambda>s. if s = 0 \<and> weight_pow = 0 then 1 else \<bar>s\<bar> powr weight_pow) scores)
      else if reweight_method = ''max_min'' then
        if scores = [] then Inl RuntimeError
        else Inr (map (\<lambda>s. if s = Max (set scores) \<or> s = Min (set scores) then 1 else 0) scores)
      else if reweight_method = ''max_random'' then
        if scores = [] then Inl RuntimeError else Inr (map (\<lambda>s. if s = Max (set scores) then 4 / 10 else 1 / 10) scores)
      else Inl ValueError)"

datatype ('a, 'b) meta = PList "'a list" | POther 'b

record ('t, 'a, 'b) pf_data =
  pf_batch :: "(string \<times> 't list) list"
  pf_non_tensor :: "(string \<times> 'a list) list"
  pf_meta :: "(string \<times> ('a, 'b) meta) list"

definition take_rows :: "nat list \<Rightarrow> 'a list \<Rightarrow> 'a list result" where
  "take_rows idx xs = rmap (py_get xs) idx"

text \<open>
  \<open>scores\<close> are the rows of \<open>token_level_scores\<close>, an entry of the batch; \<open>multinomial w n\<close> are the indices that \<open>torch.multinomial\<close> draws.
\<close>

definition compute_pf_ppo_reweight_data ::
  "(vec \<Rightarrow> nat \<Rightarrow> nat list) \<Rightarrow> mat \<Rightarrow> ('t, 'a, 'b) pf_data \<Rightarrow> string \<Rightarrow> real \<Rightarrow> ('t, 'a, 'b) pf_data result" where
  "compute_pf_ppo_reweight_data multinomial token_level_scores data reweight_method weight_pow =
     (let scores = map sum_list token_level_scores; batch_size = length scores
      in rbind (compute_weights scores reweight_method weight_pow) (\<lambda>weights.
         let weights = map (\<lambda>w. max (w + 1 / 10 ^ 8) (1 / 10 ^ 8)) weights;
             sample_indices = multinomial weights batch_size
         in rbind (rmap (\<lambda>(k, t). rbind (take_rows sample_indices t) (\<lambda>t'. Inr (k, t'))) (pf_batch data)) (\<lambda>resampled_batch.
            rbind (rmap (\<lambda>(k, t). rbind (take_rows sample_indices t) (\<lambda>t'. Inr (k, t'))) (pf_non_tensor data)) (\<lambda>resampled_non_tensor_batch.
            rbind (rmap (\<lambda>(k, v). case v of
                PList xs \<Rightarrow> if length xs = batch_size then rbind (take_rows sample_indices xs) (\<lambda>xs'. Inr (k, PList xs')) else Inr (k, v)
              | POther y \<Rightarrow> Inr (k, v)) (pf_meta data)) (\<lambda>resampled_meta_info.
            Inr \<lparr>pf_batch = resampled_batch, pf_non_tensor = resampled_non_tensor_batch, pf_meta = resampled_meta_info\<rparr>)))))"

section \<open>Aggregation of micro-batches\<close>

definition agg_modes :: "string list" where
  "agg_modes = [''token-mean'', ''seq-mean-token-sum'', ''seq-mean-token-sum-norm'', ''seq-mean-token-mean'']"

text \<open>The share of a row in the loss, before the division by the count of the batch.\<close>

definition agg_row :: "string \<Rightarrow> vec \<Rightarrow> vec \<Rightarrow> real" where
  "agg_row mode l m =
     (let s = sum_list (map2 (*) l m)
      in if mode = ''token-mean'' then s
         else if 0 < sum_list m then if mode = ''seq-mean-token-mean'' then s / (sum_list m + 1 / 10 ^ 8) else s
         else 0)"

definition agg_count :: "string \<Rightarrow> mat \<Rightarrow> real" where
  "agg_count mode m = (if mode = ''token-mean'' then token_count m else sum_list (seq_valid m))"

definition agg_scale :: "string \<Rightarrow> batch_info \<Rightarrow> mat \<Rightarrow> real" where
  "agg_scale mode info m =
     (if mode = ''seq-mean-token-sum-norm'' then case loss_scale_factor info of None \<Rightarrow> real (horizon m) | Some f \<Rightarrow> f else 1)"

abbreviation same_rows :: "mat \<Rightarrow> mat \<Rightarrow> bool" where
  "same_rows \<equiv> list_all2 (\<lambda>l m. length l = length m)"

lemma masked_sum_eq: "masked_sum values m = sum_list (map2 (*) values m)"
  unfolding masked_sum_def by (rule arg_cong [where f = sum_list]) (auto intro!: map_cong)

lemma map2_append: "length xs = length ys \<Longrightarrow> map2 f (xs @ xs') (ys @ ys') = map2 f xs ys @ map2 f xs' ys'"
  by simp

lemma masked_sum_concat:
  "same_rows L M \<Longrightarrow> masked_sum (concat L) (concat M) = sum_list (map2 (\<lambda>l m. sum_list (map2 (*) l m)) L M)"
  unfolding masked_sum_eq by (induction rule: list_all2_induct) simp_all

lemma masked_sum_valid:
  "length L = length M \<Longrightarrow> masked_sum (map2 f L M) (seq_valid M) = sum_list (map2 (\<lambda>l m. if 0 < sum_list m then f l m else 0) L M)"
  unfolding masked_sum_eq seq_valid_def by (induction L M rule: list_induct2) simp_all

lemma agg_loss_given:
  assumes "same_rows L M" "mode \<in> set agg_modes" and "N = (if mode = ''token-mean'' then batch_num_tokens info else global_batch_size info)"
    and cnt: "global_count (dp_size info) N (agg_count mode M) = Inr n" "n \<noteq> 0" and "agg_scale mode info M \<noteq> 0"
  shows "agg_loss L M mode info = Inr (Some (sum_list (map2 (agg_row mode) L M) / n * real (dp_size info) / agg_scale mode info M))"
proof -
  have len: "length L = length M" using assms(1) by (rule list_all2_lengthD)
  consider "mode = ''token-mean''" | "mode = ''seq-mean-token-sum''" | "mode = ''seq-mean-token-sum-norm''" | "mode = ''seq-mean-token-mean''"
    using assms(2) by (auto simp: agg_modes_def)
  then show ?thesis
  proof cases
    case 1
    then have "global_count (dp_size info) (batch_num_tokens info) (token_count M) = Inr n" using cnt assms(3) by (simp add: agg_count_def)
    moreover have "agg_row mode = (\<lambda>l m. sum_list (map2 (*) l m))" using 1 by (simp add: agg_row_def fun_eq_iff)
    ultimately show ?thesis using 1 cnt(2)
      by (simp add: agg_loss_def masked_sum_concat [OF assms(1)] tdiv_def rbind_def agg_scale_def)
  next
    case 2
    then have "global_count (dp_size info) (global_batch_size info) (sum_list (seq_valid M)) = Inr n" using cnt assms(3) by (simp add: agg_count_def)
    moreover have "agg_row mode = (\<lambda>l m. if 0 < sum_list m then sum_list (map2 (*) l m) else 0)" using 2 by (simp add: agg_row_def fun_eq_iff Let_def)
    ultimately show ?thesis using 2 cnt(2)
      by (simp add: agg_loss_def masked_sum_valid [OF len] tdiv_def rbind_def agg_scale_def Let_def)
  next
    case 3
    then have "global_count (dp_size info) (global_batch_size info) (sum_list (seq_valid M)) = Inr n" using cnt assms(3) by (simp add: agg_count_def)
    moreover have "agg_row mode = (\<lambda>l m. if 0 < sum_list m then sum_list (map2 (*) l m) else 0)" using 3 by (simp add: agg_row_def fun_eq_iff Let_def)
    ultimately show ?thesis using 3 cnt(2) assms(6)
      by (simp add: agg_loss_def masked_sum_valid [OF len] tdiv_def rbind_def agg_scale_def Let_def)
  next
    case 4
    then have "global_count (dp_size info) (global_batch_size info) (sum_list (seq_valid M)) = Inr n" using cnt assms(3) by (simp add: agg_count_def)
    moreover have "agg_row mode = (\<lambda>l m. if 0 < sum_list m then sum_list (map2 (*) l m) / (sum_list m + 1 / 10 ^ 8) else 0)" using 4 by (simp add: agg_row_def fun_eq_iff Let_def)
    ultimately show ?thesis using 4 cnt(2)
      by (simp add: agg_loss_def masked_sum_valid [OF len] tdiv_def rbind_def agg_scale_def Let_def cong: if_cong)
  qed
qed

lemma map2_concat:
  "\<forall>(l, m) \<in> set parts. length l = length m \<Longrightarrow>
   map2 f (concat (map fst parts)) (concat (map snd parts)) = concat (map (\<lambda>(l, m). map2 f l m) parts)"
  by (induction parts) auto

lemma sum_list_concat: "sum_list (concat xss) = sum_list (map sum_list xss)"
  by (induction xss) auto

lemma same_rows_concat:
  "\<forall>(l, m) \<in> set parts. same_rows l m \<Longrightarrow> same_rows (concat (map fst parts)) (concat (map snd parts))"
  by (induction parts) (auto intro: list_all2_appendI)

lemma horizon_shaped: "m \<noteq> [] \<Longrightarrow> \<forall>r \<in> set m. length r = k \<Longrightarrow> horizon m = k"
  by (cases m) (simp_all add: horizon_def)

text \<open>
  C10. Aggregation does not depend on how a global batch is cut. In each of the four modes, for given counts \<open>N\<close> of tokens and \<open>B\<close> of sequences
  (not 0), every micro-batch of every rank has a loss, and the mean over the \<open>dp\<close> ranks of the sum of these losses is the loss of the whole batch on one
  rank with the same counts. The loss with no counts given is this one with the actual count, of the tokens to train on or of the sequences that have
  some, in place of the given one: both agree when the given count is the actual one, and otherwise differ by the quotient of the counts. (The trainer gives the number of all
  sequences as \<open>B\<close>, so fully masked ones count there.) The micro-batches have one width, or a scale factor is given.
\<close>

theorem agg_loss_parallel:
  fixes parts :: "(mat \<times> mat) list"
  assumes mode: "mode \<in> set agg_modes" and dp: "0 < dp" and given: "N \<noteq> 0" "B \<noteq> 0"
    and parts: "\<forall>(l, m) \<in> set parts. same_rows l m \<and> (sc = None \<longrightarrow> m \<noteq> [] \<and> (\<forall>r \<in> set m. length r = k))"
    and L: "L = concat (map fst parts)" and M: "M = concat (map snd parts)"
    and pos: "token_count M \<noteq> 0" "sum_list (seq_valid M) \<noteq> 0"
    and sc: "case sc of None \<Rightarrow> 0 < k | Some f \<Rightarrow> f \<noteq> 0"
    and info: "info = \<lparr>dp_size = dp, batch_num_tokens = Some N, global_batch_size = Some B, loss_scale_factor = sc\<rparr>"
  shows "\<exists>losses loss. map (\<lambda>(l, m). agg_loss l m mode info) parts = map (\<lambda>x. Inr (Some x)) losses \<and>
    agg_loss L M mode (info\<lparr>dp_size := 1\<rparr>) = Inr (Some (sum_list losses / real dp)) \<and>
    agg_loss L M mode (no_batch_info\<lparr>loss_scale_factor := sc\<rparr>) = Inr (Some loss) \<and>
    loss * (if mode = ''token-mean'' then token_count M else sum_list (seq_valid M)) = sum_list losses / real dp * (if mode = ''token-mean'' then N else B)"
proof -
  define n scale where "n = (if mode = ''token-mean'' then N else B)"
    and "scale = (if mode = ''seq-mean-token-sum-norm'' then case sc of None \<Rightarrow> real k | Some f \<Rightarrow> f else 1)"
  define total where "total l m = sum_list (map2 (agg_row mode) l m)" for l m
  have n: "n \<noteq> 0" and scale: "scale \<noteq> 0" using given sc by (auto simp: n_def scale_def split: option.splits)
  have scale_eq: "agg_scale mode i m = scale" if "sc = None \<longrightarrow> m \<noteq> [] \<and> (\<forall>r \<in> set m. length r = k)" "loss_scale_factor i = sc" for i m
    using that horizon_shaped [of m k] by (simp add: agg_scale_def scale_def split: option.splits)
  have cnt: "global_count (dp_size i) (if mode = ''token-mean'' then batch_num_tokens i else global_batch_size i) own = Inr n"
    if "batch_num_tokens i = Some N" "global_batch_size i = Some B" for i own
    using that by (simp add: global_count_def n_def)
  have "agg_loss l m mode info = Inr (Some (total l m / n * real dp / scale))" if "(l, m) \<in> set parts" for l m
  proof -
    have lm: "same_rows l m" "sc = None \<longrightarrow> m \<noteq> [] \<and> (\<forall>r \<in> set m. length r = k)" using parts that by auto
    have "agg_scale mode info m = scale" using scale_eq lm by (simp add: info)
    then show ?thesis using agg_loss_given [OF lm(1) mode refl cnt n, of info] scale by (simp add: total_def info)
  qed
  then have each: "map (\<lambda>(l, m). agg_loss l m mode info) parts = map (\<lambda>x. Inr (Some x)) (map (\<lambda>(l, m). total l m / n * real dp / scale) parts)"
    by auto
  have rows: "same_rows L M" unfolding L M using parts by (intro same_rows_concat) auto
  have "M \<noteq> []" using pos(1) by (auto simp: token_count_def)
  moreover have "sc = None \<longrightarrow> (\<forall>r \<in> set M. length r = k)" using parts by (auto simp: M)
  ultimately have one: "agg_scale mode i M = scale" if "loss_scale_factor i = sc" for i using that by (intro scale_eq) simp_all
  have whole: "agg_loss L M mode (info\<lparr>dp_size := 1\<rparr>) = Inr (Some (total L M / n / scale))"
    using agg_loss_given [OF rows mode refl cnt n, of "info\<lparr>dp_size := 1\<rparr>"] scale one [of "info\<lparr>dp_size := 1\<rparr>"] by (simp add: total_def info)
  define own where "own = agg_count mode M"
  have own: "own = (if mode = ''token-mean'' then token_count M else sum_list (seq_valid M))" "own \<noteq> 0" using pos by (simp_all add: own_def agg_count_def)
  have default: "agg_loss L M mode (no_batch_info\<lparr>loss_scale_factor := sc\<rparr>) = Inr (Some (total L M / own / scale))"
    using agg_loss_given [OF rows mode refl _ own(2), of "no_batch_info\<lparr>loss_scale_factor := sc\<rparr>"] scale one [of "no_batch_info\<lparr>loss_scale_factor := sc\<rparr>"]
    by (simp add: global_count_def no_batch_info_def own_def total_def)
  have "total L M = sum_list (map (\<lambda>(l, m). total l m) parts)"
  proof -
    have "\<forall>(l, m) \<in> set parts. length l = length m" using parts by (auto dest: list_all2_lengthD)
    then have "map2 (agg_row mode) L M = concat (map (\<lambda>(l, m). map2 (agg_row mode) l m) parts)" unfolding L M by (rule map2_concat)
    then show ?thesis unfolding total_def by (simp only: sum_list_concat map_map comp_def case_prod_unfold)
  qed
  moreover have "sum_list (map (\<lambda>(l, m). total l m / n * real dp / scale) parts) / real dp = sum_list (map (\<lambda>(l, m). total l m) parts) / n / scale"
    using dp n scale by (induction parts) (simp_all add: field_simps case_prod_unfold)
  ultimately have mean: "sum_list (map (\<lambda>(l, m). total l m / n * real dp / scale) parts) / real dp = total L M / n / scale" by simp
  have "total L M / own / scale * own = total L M / n / scale * n" using n own(2) by simp
  with each whole default mean own(1) n_def show ?thesis
    by (intro exI [of _ "map (\<lambda>(l, m). total l m / n * real dp / scale) parts"] exI [of _ "total L M / own / scale"]) simp
qed

text \<open>Two ranks with a micro-batch each. One of the three responses is fully masked: the trainer gives 3 sequences, and two have tokens to train on.\<close>

theorem agg_loss_parallel_witness:
  "\<exists>losses loss. map (\<lambda>(l, m). agg_loss l m ''seq-mean-token-mean'' \<lparr>dp_size = 2, batch_num_tokens = Some 3, global_batch_size = Some 3, loss_scale_factor = None\<rparr>)
      [([[1, 2], [3, 4]], [[1, 1], [0, 0]]), ([[5, 6]], [[0, 1]])] = map (\<lambda>x. Inr (Some x)) losses \<and>
    agg_loss [[1, 2], [3, 4], [5, 6]] [[1, 1], [0, 0], [0, 1]] ''seq-mean-token-mean''
      \<lparr>dp_size = 1, batch_num_tokens = Some 3, global_batch_size = Some 3, loss_scale_factor = None\<rparr> = Inr (Some (sum_list losses / 2)) \<and>
    agg_loss [[1, 2], [3, 4], [5, 6]] [[1, 1], [0, 0], [0, 1]] ''seq-mean-token-mean'' (no_batch_info\<lparr>loss_scale_factor := None\<rparr>) = Inr (Some loss) \<and>
    loss * 2 = sum_list losses / 2 * 3"
  using agg_loss_parallel [where mode = "''seq-mean-token-mean''" and dp = 2 and N = 3 and B = 3 and k = 2 and sc = None and
      parts = "[([[1, 2], [3, 4]], [[1, 1], [0, 0]]), ([[5, 6]], [[0, 1]])]" and L = "[[1, 2], [3, 4], [5, 6]]" and M = "[[1, 1], [0, 0], [0, 1]]", OF _ _ _ _ _ _ _ _ _ _ refl]
  by (simp add: agg_modes_def token_count_def seq_valid_def)

section \<open>Clipping\<close>

text \<open>The surrogate in closed form.\<close>

definition surrogate :: "real \<Rightarrow> real \<Rightarrow> real \<Rightarrow> real \<Rightarrow> real \<Rightarrow> real" where
  "surrogate low high c adv ratio = - adv * (if adv < 0 then min c (max ratio (1 - low)) else min ratio (1 + high))"

lemma neg_mult_max: "(0 :: real) \<le> a \<Longrightarrow> max (- a * x) (- a * y) = - a * min x y"
  by (simp add: min_def max_def mult_left_mono) (metis mult_left_mono mult_le_cancel_left_pos antisym linear order_le_less)

lemma pos_mult_max: "a < (0 :: real) \<Longrightarrow> max (- a * x) (- a * y) = - a * max x y"
  by (auto simp: max_def)

lemma pos_mult_min: "a < (0 :: real) \<Longrightarrow> min (- a * x) (- a * y) = - a * min x y"
  by (auto simp: min_def)

lemma clip_pg_losses1_eq:
  assumes "0 \<le> low + high"
  shows "clip_pg_losses1 low high adv ratio = - adv * (if adv < 0 then max ratio (1 - low) else min ratio (1 + high))"
proof (cases "adv < 0")
  case True
  have "max ratio (clamp (1 - low) (1 + high) ratio) = max ratio (1 - low)" using assms by (auto simp: clamp_def)
  then show ?thesis using True pos_mult_max [OF True, of ratio] by (simp add: clip_pg_losses1_def pg_losses2_def)
next
  case False
  have "min ratio (clamp (1 - low) (1 + high) ratio) = min ratio (1 + high)" by (auto simp: clamp_def)
  then show ?thesis using False neg_mult_max [of adv ratio] by (simp add: clip_pg_losses1_def pg_losses2_def)
qed

lemma ppo_token_loss_eq: "0 \<le> low + high \<Longrightarrow> ppo_token_loss low high c adv ratio = surrogate low high c adv ratio"
  using pos_mult_min [of adv c] by (simp add: ppo_token_loss_def clip_pg_losses1_eq surrogate_def)

text \<open>
  The dual clip of PPO. The policy loss is the aggregate of the surrogate in closed form, and a token's loss is bounded: a ratio above \<open>1 + high\<close> is
  no gain for a good action, one below \<open>1 - low\<close> none for a bad action, whose loss never exceeds \<open>c\<close> times the size of its advantage. Where the
  policies agree the loss of a token is its negated advantage.
\<close>

theorem vanilla_clip_bounds:
  assumes "low = cfg_low config" "high = cfg_high config" "c = get_opt 3 (clip_ratio_c config)" and ok: "0 \<le> low" "0 \<le> high" "1 < c"
  shows "map_sum id fst (compute_policy_loss_vanilla old_log_prob log_prob advantages response_mask mode config ws) =
      agg_loss (weighted ws (mat2 (surrogate low high c) advantages (map (map exp) (clamped_kl old_log_prob log_prob)))) response_mask mode (global_batch_info config) \<and>
    (\<forall>adv ratio. if adv < 0 then - adv * (1 - low) \<le> ppo_token_loss low high c adv ratio \<and> ppo_token_loss low high c adv ratio \<le> - adv * c
       else - adv * (1 + high) \<le> ppo_token_loss low high c adv ratio) \<and>
    (\<forall>adv. ppo_token_loss low high c adv 1 = - adv)"
proof (intro conjI allI)
  have eq: "ppo_token_loss low high c = surrogate low high c" using ok by (simp add: fun_eq_iff ppo_token_loss_eq)
  show "map_sum id fst (compute_policy_loss_vanilla old_log_prob log_prob advantages response_mask mode config ws) =
      agg_loss (weighted ws (mat2 (surrogate low high c) advantages (map (map exp) (clamped_kl old_log_prob log_prob)))) response_mask mode (global_batch_info config)"
    using ok(3) unfolding compute_policy_loss_vanilla_def Let_def assms(1-3) [symmetric] eq by (simp add: rbind_def split: sum.split)
  show "if adv < 0 then - adv * (1 - low) \<le> ppo_token_loss low high c adv ratio \<and> ppo_token_loss low high c adv ratio \<le> - adv * c
       else - adv * (1 + high) \<le> ppo_token_loss low high c adv ratio" for adv ratio
    unfolding eq using ok by (simp add: surrogate_def mult_left_mono)
  show "ppo_token_loss low high c adv 1 = - adv" for adv unfolding eq using ok by (simp add: surrogate_def)
qed

theorem vanilla_clip_bounds_witness:
  "map_sum id fst (compute_policy_loss_vanilla [[0, - 1]] [[0, - 2]] [[1, - 1]] [[1, 1]] ''token-mean'' default_actor None) =
     agg_loss (weighted None (mat2 (surrogate (1 / 5) (1 / 5) 3) [[1, - 1]] (map (map exp) (clamped_kl [[0, - 1]] [[0, - 2]])))) [[1, 1]] ''token-mean'' (global_batch_info default_actor) \<and>
   (\<forall>adv ratio. if adv < 0 then - adv * (1 - 1 / 5) \<le> ppo_token_loss (1 / 5) (1 / 5) 3 adv ratio \<and> ppo_token_loss (1 / 5) (1 / 5) 3 adv ratio \<le> - adv * 3
      else - adv * (1 + 1 / 5) \<le> ppo_token_loss (1 / 5) (1 / 5) 3 adv ratio) \<and>
   (\<forall>adv. ppo_token_loss (1 / 5) (1 / 5) 3 adv 1 = - adv)"
  by (rule vanilla_clip_bounds) (simp_all add: default_actor_def get_opt_def)

section \<open>Entropy and log-probabilities\<close>

lemma exp_sum_pos: "xs \<noteq> [] \<Longrightarrow> 0 < sum_list (map exp (xs :: real list))"
  by (cases xs) (auto intro!: add_pos_nonneg sum_list_nonneg)

lemma exp_le_sum: "x \<in> set xs \<Longrightarrow> exp x \<le> sum_list (map exp (xs :: real list))"
  by (rule member_le_sum_list) auto

lemma sum_list_softmax: "xs \<noteq> [] \<Longrightarrow> sum_list (softmax xs) = 1"
  using exp_sum_pos [of xs] sum_list_mult_const [of exp "inverse (sum_list (map exp xs))" xs] by (simp add: softmax_def divide_inverse)

lemma softmax_sum: "sum_list (map2 (*) (softmax xs) ys) = sum_list (map2 (\<lambda>x y. exp x / sum_list (map exp xs) * y) xs ys)"
  unfolding softmax_def by (simp add: zip_map1 comp_def case_prod_unfold)

text \<open>The entropy lies between 0 and the logarithm of the number of classes.\<close>

lemma entropy_bounds:
  assumes "xs \<noteq> []"
  shows "0 \<le> entropy_from_logits xs" "entropy_from_logits xs \<le> ln (real (length xs))"
proof -
  define Z where "Z = sum_list (map exp xs)"
  have Z: "0 < Z" using exp_sum_pos [OF assms] by (simp add: Z_def)
  have one: "(\<Sum>x\<leftarrow>xs. exp x / Z) = 1" using sum_list_softmax [OF assms] by (simp add: softmax_def Z_def)
  have ent: "entropy_from_logits xs = (\<Sum>x\<leftarrow>xs. exp x / Z * (ln Z - x))"
  proof -
    have "(\<Sum>x\<leftarrow>xs. exp x / Z * (ln Z - x)) = (\<Sum>x\<leftarrow>xs. exp x / Z * ln Z) - (\<Sum>x\<leftarrow>xs. exp x / Z * x)"
      by (simp only: right_diff_distrib sum_list_subtractf)
    also have "(\<Sum>x\<leftarrow>xs. exp x / Z * ln Z) = ln Z" using one by (simp only: sum_list_mult_const mult_1)
    also have "(\<Sum>x\<leftarrow>xs. exp x / Z * x) = sum_list (map2 (*) (softmax xs) xs)" by (simp add: softmax_sum Z_def zip_same_conv_map comp_def)
    finally show ?thesis by (simp add: entropy_from_logits_def logsumexp_def Z_def)
  qed
  have "x \<le> ln Z" if "x \<in> set xs" for x using exp_le_sum [OF that] Z by (metis Z_def exp_le_cancel_iff exp_ln)
  then show "0 \<le> entropy_from_logits xs" unfolding ent using Z by (intro sum_list_nonneg) auto
  let ?n = "real (length xs)"
  have n: "0 < ?n" using assms by simp
  have "exp x / Z * (ln Z - x) \<le> 1 / ?n - exp x / Z + exp x / Z * ln ?n" for x
  proof -
    have "ln (Z / (?n * exp x)) \<le> Z / (?n * exp x) - 1" using Z n by (intro ln_le_minus_one) simp
    moreover have "ln (Z / (?n * exp x)) = ln Z - (ln ?n + x)" using Z n by (simp add: ln_div ln_mult)
    ultimately have "exp x / Z * (ln Z - (ln ?n + x)) \<le> exp x / Z * (Z / (?n * exp x) - 1)" using Z by (intro mult_left_mono) simp_all
    also have "\<dots> = 1 / ?n - exp x / Z" using Z n by (simp add: field_simps)
    finally show ?thesis unfolding right_diff_distrib distrib_left by linarith
  qed
  then have "entropy_from_logits xs \<le> (\<Sum>x\<leftarrow>xs. 1 / ?n - exp x / Z + exp x / Z * ln ?n)" unfolding ent by (rule sum_list_mono)
  also have "\<dots> = (\<Sum>x\<leftarrow>xs. 1 / ?n) - (\<Sum>x\<leftarrow>xs. exp x / Z) + (\<Sum>x\<leftarrow>xs. exp x / Z) * ln ?n"
    by (simp only: sum_list_addf sum_list_subtractf sum_list_mult_const)
  also have "\<dots> = ln ?n" using n by (simp add: one sum_list_triv)
  finally show "entropy_from_logits xs \<le> ln ?n" .
qed

text \<open>Both ways to compute the log-probability of a label agree.\<close>

lemma logprobs_agree: "logprobs_from_logits_naive logits lab = logprobs_from_logits_v2 logits lab"
proof (cases "lab < length logits")
  case True
  then have "0 < sum_list (map exp logits)" by (intro exp_sum_pos) auto
  then show ?thesis using True by (simp add: logprobs_from_logits_naive_def logprobs_from_logits_v2_def py_get_def rbind_def softmax_def logsumexp_def ln_div)
qed (simp add: logprobs_from_logits_naive_def logprobs_from_logits_v2_def py_get_def rbind_def softmax_def)

lemma entropy_chunks_ok:
  assumes "0 < c" "length logits \<le> i + n" "e = map entropy_from_logits (take i logits) @ replicate (length logits - i) 0"
  shows "entropy_chunks n c logits i e = map entropy_from_logits logits"
  using assms(2,3)
proof (induction n arbitrary: i e)
  case (Suc n)
  show ?case
  proof (cases "i < length logits")
    case True
    have "take i e = map entropy_from_logits (take i logits)" "drop (i + c) e = replicate (length logits - (i + c)) 0"
      using True Suc.prems(2) by simp_all
    then have "take i e @ map entropy_from_logits (py_slice i (i + c) logits) @ drop (i + c) e =
        map entropy_from_logits (take (i + c) logits) @ replicate (length logits - (i + c)) 0"
      by (simp add: py_slice_def take_add)
    then show ?thesis using True Suc.IH [of "i + c"] Suc.prems(1) assms(1) by simp
  qed (use Suc.prems in simp)
qed simp

lemma entropy_chunking: "0 < chunk_size \<Longrightarrow> entropy_from_logits_with_chunking logits chunk_size = Inr (map entropy_from_logits logits)"
  by (simp add: entropy_from_logits_with_chunking_def entropy_chunks_ok)

section \<open>Values and penalties\<close>

lemma vf_token_loss_ge: "(vpred - ret)\<^sup>2 \<le> vf_token_loss c vpred ret v"
  by (simp add: vf_token_loss_def)

lemma vf_token_loss_near: "\<bar>vpred - v\<bar> \<le> c \<Longrightarrow> vf_token_loss c vpred ret v = (vpred - ret)\<^sup>2"
  by (auto simp: vf_token_loss_def clip_by_value_def)

text \<open>The estimator \<open>k3\<close> is a non-negative penalty, which is 0 exactly where the policies agree.\<close>

lemma k3_bounds: "0 \<le> k3_estimate l r" "k3_estimate l r \<le> 10"
proof -
  have "0 \<le> exp d - d - 1" for d :: real using exp_ge_add_one_self [of d] by linarith
  moreover have "0 \<le> clamp (- 10) 10 e" if "0 \<le> e" for e using that by (simp add: clamp_def)
  ultimately show "0 \<le> k3_estimate l r" by (simp only: k3_estimate_def Let_def)
  show "k3_estimate l r \<le> 10" by (simp add: k3_estimate_def Let_def clamp_def)
qed

lemma clamp_zero_iff: "lo < 0 \<Longrightarrow> 0 < hi \<Longrightarrow> clamp lo hi x = 0 \<longleftrightarrow> x = 0"
  by (auto simp: clamp_def min_def max_def)

lemma exp_gt_add_one: "x \<noteq> (0 :: real) \<Longrightarrow> x + 1 < exp x"
  using exp_minus_greater [of "- x"] by simp

lemma k3_zero_iff: "k3_estimate l r = 0 \<longleftrightarrow> l = r"
proof -
  let ?d = "clamp (- 20) 20 (r - l)"
  have "?d = 0 \<longleftrightarrow> l = r" by (auto simp: clamp_zero_iff)
  moreover have "k3_estimate l r = 0 \<longleftrightarrow> exp ?d - ?d - 1 = 0" by (simp add: k3_estimate_def Let_def clamp_zero_iff)
  moreover have "exp ?d - ?d - 1 = 0 \<longleftrightarrow> ?d = 0" using exp_gt_add_one [of ?d] by force
  ultimately show ?thesis by simp
qed

text \<open>A suffix \<open>+\<close> changes gradients only: the value is the one of the penalty without it.\<close>

lemma straight_through_row:
  "map2 (\<lambda>b (b', f). b - b' + f) (map2 g ls rs) (zip (map2 g ls rs) (map2 f ls rs)) = (map2 f ls rs :: real list)"
proof (induction ls arbitrary: rs)
  case (Cons l ls)
  then show ?case by (cases rs) auto
qed simp

lemma straight_through:
  "mat2 (\<lambda>b (b', f). b - b' + f) (mat2 g ls rs) (map2 zip (mat2 g ls rs) (mat2 f ls rs)) = (mat2 f ls rs :: mat)"
proof (induction ls arbitrary: rs)
  case (Cons l ls)
  then show ?case by (cases rs) (auto simp: straight_through_row)
qed simp

lemma kl_forward_elementwise: "kl_penalty_forward l r penalty = Inr m \<Longrightarrow> \<exists>f. m = mat2 f l r"
  by (simp only: kl_penalty_forward_def sum.inject sum.distinct split: if_split_asm; intro exI; erule sym)

lemma kl_penalty_plus: "penalty = [] \<or> last penalty \<noteq> CHR ''+'' \<Longrightarrow> kl_penalty l r (penalty @ ''+'') = kl_penalty l r penalty"
  by (cases "kl_penalty_forward l r penalty") (auto simp: kl_penalty_def Let_def rbind_def straight_through dest!: kl_forward_elementwise)

text \<open>Resampling gives every tensor as many rows as there are scores, under the same keys.\<close>

lemma take_rows_length: "take_rows idx xs = Inr ys \<Longrightarrow> length ys = length idx"
  unfolding take_rows_def by (rule length_rmap)

lemma take_entries:
  "rmap (\<lambda>(k, t). rbind (take_rows idx t) (\<lambda>t'. Inr (k, t'))) entries = Inr out \<Longrightarrow>
   map fst out = map fst entries \<and> (\<forall>(k, t) \<in> set out. length t = length idx)"
proof (induction entries arbitrary: out)
  case (Cons e entries)
  then show ?case by (cases e) (fastforce simp: rbind_def dest: take_rows_length split: sum.splits)
qed simp

lemma reweight_rows:
  assumes "compute_pf_ppo_reweight_data multinomial scores data how p = Inr d" "\<And>ws n. length (multinomial ws n) = n"
  shows "map fst (pf_batch d) = map fst (pf_batch data) \<and> (\<forall>(k, t) \<in> set (pf_batch d). length t = length scores)"
proof -
  from assms(1) obtain ws where "rmap (\<lambda>(k, t). rbind (take_rows (multinomial ws (length scores)) t) (\<lambda>t'. Inr (k, t'))) (pf_batch data) = Inr (pf_batch d)"
    unfolding compute_pf_ppo_reweight_data_def Let_def by (auto simp: rbind_def split: sum.splits)
  from take_entries [OF this] show ?thesis by (simp add: assms(2))
qed

end
