(* ===== verification/Rollout_Correction.thy ===== *)
theory Rollout_Correction
  imports Policy_Loss Data_Proto "HOL-Library.Sublist"
begin

text \<open>
  Correction for the difference between the policy that generated the responses and the one that is trained: \<open>verl/trainer/ppo/rollout_corr_helper.py\<close>, and
  the policy loss \<open>bypass_mode\<close> and the registry of policy losses of \<open>core_algos.py\<close>, which use it.

  The conversions \<open>float(\<dots>)\<close> and \<open>str(\<dots>)\<close> of numbers are the arguments \<open>float_of\<close> and \<open>str_of\<close>. Metrics are association lists in the order of insertion.
\<close>

section \<open>Thresholds\<close>

text \<open>The types a threshold can have.\<close>

datatype spec = SBool bool | SNum real | SStr string | SOther

definition py_space :: "char \<Rightarrow> bool" where
  "py_space c = (let n = (of_char c :: nat) in 9 \<le> n \<and> n \<le> 13 \<or> 28 \<le> n \<and> n \<le> 32 \<or> n = 133 \<or> n = 160)"

definition py_strip :: "string \<Rightarrow> string" where
  "py_strip s = rev (dropWhile py_space (rev (dropWhile py_space s)))"

fun py_split :: "char \<Rightarrow> string \<Rightarrow> string list" where
  "py_split c [] = [[]]"
| "py_split c (x # xs) = (if x = c then [] # py_split c xs else case py_split c xs of [] \<Rightarrow> [[x]] | y # ys \<Rightarrow> (x # y) # ys)"

text \<open>\<open>s.split(c, 1)\<close> for a string that contains \<open>c\<close>.\<close>

definition split_once :: "char \<Rightarrow> string \<Rightarrow> string \<times> string" where
  "split_once c s = (takeWhile (\<lambda>x. x \<noteq> c) s, tl (dropWhile (\<lambda>x. x \<noteq> c) s))"

definition comma_parts :: "string \<Rightarrow> string list" where
  "comma_parts s = filter (\<lambda>p. p \<noteq> []) (map py_strip (py_split (CHR '','') s))"

definition py_float :: "(string \<Rightarrow> real option) \<Rightarrow> string \<Rightarrow> real result" where
  "py_float float_of s = (case float_of s of None \<Rightarrow> Inl ValueError | Some x \<Rightarrow> Inr x)"

definition parse_is_bounds :: "(string \<Rightarrow> real option) \<Rightarrow> spec \<Rightarrow> (real \<times> real option) result" where
  "parse_is_bounds float_of threshold_spec =
     (case threshold_spec of
        SBool _ \<Rightarrow> Inl TypeError
      | SNum x \<Rightarrow> Inr (x, None)
      | SStr s \<Rightarrow> let sp = py_strip s
          in if sp = [] then Inl ValueError
             else if CHR ''_'' \<in> set sp then
               case split_once (CHR ''_'') sp of (lower_str, upper_str) \<Rightarrow>
                 rbind (py_float float_of lower_str) (\<lambda>lower. rbind (py_float float_of upper_str) (\<lambda>upper. Inr (upper, Some lower)))
             else rbind (py_float float_of sp) (\<lambda>upper. Inr (upper, None))
      | SOther \<Rightarrow> Inl TypeError)"

definition parse_rollout_is_threshold :: "(string \<Rightarrow> real option) \<Rightarrow> spec \<Rightarrow> (real \<times> real option) result" where
  "parse_rollout_is_threshold float_of threshold_spec =
     rbind (parse_is_bounds float_of threshold_spec) (\<lambda>(upper, lower).
       if upper \<le> 0 then Inl ValueError
       else case lower of None \<Rightarrow> Inr (upper, None)
         | Some l \<Rightarrow> if l \<le> 0 then Inl ValueError else if upper < l then Inl ValueError else Inr (upper, Some l))"

text \<open>The thresholds of one option: for \<open>k1\<close> a lower and an upper bound, otherwise an upper one.\<close>

definition parse_rs_option :: "(string \<Rightarrow> real option) \<Rightarrow> (real \<Rightarrow> string) \<Rightarrow> string \<Rightarrow> string \<Rightarrow> (real option \<times> real) result" where
  "parse_rs_option float_of str_of opt sp =
     (if suffix ''k1'' opt then
        rbind (if CHR ''_'' \<in> set sp then Inr (split_once (CHR ''_'') sp)
               else rbind (py_float float_of sp) (\<lambda>u. if u = 0 then Inl ZeroDivisionError else Inr (str_of (1 / u), sp))) (\<lambda>(lower_str, upper_str).
        rbind (py_float float_of lower_str) (\<lambda>lower. rbind (py_float float_of upper_str) (\<lambda>upper.
          if lower \<le> 0 \<or> upper \<le> 0 then Inl ValueError else Inr (Some lower, upper))))
      else if CHR ''_'' \<in> set sp then Inl ValueError
      else rbind (py_float float_of sp) (\<lambda>upper. if upper \<le> 0 then Inl ValueError else Inr (None, upper)))"

definition parse_rollout_rs_thresholds ::
  "(string \<Rightarrow> real option) \<Rightarrow> (real \<Rightarrow> string) \<Rightarrow> string list \<Rightarrow> spec option \<Rightarrow> (string \<times> real option \<times> real) list result" where
  "parse_rollout_rs_thresholds float_of str_of opts threshold_spec =
     rbind (case threshold_spec of
         None \<Rightarrow> Inl ValueError
       | Some (SNum x) \<Rightarrow> Inr [str_of x]
       | Some (SBool b) \<Rightarrow> Inr [if b then ''True'' else ''False'']
       | Some (SStr s) \<Rightarrow> Inr (comma_parts s)
       | Some SOther \<Rightarrow> Inl TypeError) (\<lambda>raw_specs.
     if raw_specs = [] then Inl ValueError
     else if length raw_specs \<noteq> 1 \<and> length raw_specs \<noteq> length opts then Inl ValueError
     else let raw_specs = (if length raw_specs = 1 \<and> 1 < length opts then concat (replicate (length opts) raw_specs) else raw_specs)
       in rfold (\<lambda>(opt, sp) d. rbind (parse_rs_option float_of str_of opt sp) (\<lambda>t. Inr (AList.update opt t d))) (zip opts raw_specs) [])"

section \<open>Rejection\<close>

abbreviation safe :: "real \<Rightarrow> real" where
  "safe \<equiv> clamp (- 20) 20"

definition SUPPORTED_ROLLOUT_RS_OPTIONS :: "string list" where
  "SUPPORTED_ROLLOUT_RS_OPTIONS =
     [''token_k1'', ''token_k2'', ''token_k3'', ''seq_sum_k1'', ''seq_sum_k2'', ''seq_sum_k3'', ''seq_mean_k1'', ''seq_mean_k2'', ''seq_mean_k3'',
      ''seq_max_k2'', ''seq_max_k3'']"

definition TOKEN_LEVEL_ROLLOUT_RS_OPTIONS :: "string list" where
  "TOKEN_LEVEL_ROLLOUT_RS_OPTIONS = [''token_k1'', ''token_k2'', ''token_k3'']"

text \<open>The divergence of a token, from the clamped log-ratio.\<close>

definition token_stat :: "string \<Rightarrow> real \<Rightarrow> real" where
  "token_stat opt d = (if suffix ''k1'' opt then - d else if suffix ''k2'' opt then 1 / 2 * d\<^sup>2 else exp d - 1 - d)"

definition sequence_max :: "vec \<Rightarrow> vec \<Rightarrow> real" where
  "sequence_max values m = (let vs = map fst (filter (\<lambda>p. snd p \<noteq> 0) (zip values m)) in if vs = [] then 0 else Max (set vs))"

definition sequence_stat :: "string \<Rightarrow> vec \<Rightarrow> vec \<Rightarrow> real" where
  "sequence_stat opt values m =
     (if prefix ''seq_sum'' opt then masked_sum values m
      else if prefix ''seq_mean'' opt then masked_mean values m
      else sequence_max values m)"

definition rs_keep :: "string \<Rightarrow> real option \<Rightarrow> real \<Rightarrow> real \<Rightarrow> bool" where
  "rs_keep opt lower upper v =
     (if suffix ''k1'' opt then (case lower of None \<Rightarrow> False | Some l \<Rightarrow> ln l \<le> v) \<and> v \<le> ln upper else v \<le> upper)"

text \<open>The statistic of every token, the statistic of every sequence, and which tokens an option keeps.\<close>

definition rs_option :: "string \<Rightarrow> real option \<Rightarrow> real \<Rightarrow> mat \<Rightarrow> mat \<Rightarrow> mat \<times> vec option \<times> bool list list" where
  "rs_option opt lower upper log_ratio_safe response_mask =
     (let stat = map (map (token_stat opt)) log_ratio_safe
      in if opt \<in> set TOKEN_LEVEL_ROLLOUT_RS_OPTIONS then (stat, None, map (map (rs_keep opt lower upper)) stat)
         else let seq_stat = map2 (sequence_stat opt) stat response_mask
           in (map2 (\<lambda>s m. replicate (length m) s) seq_stat response_mask, Some seq_stat,
               map2 (\<lambda>s m. replicate (length m) (rs_keep opt lower upper s)) seq_stat response_mask))"

definition any_token :: "mat \<Rightarrow> bool" where
  "any_token m = list_ex (list_ex (\<lambda>x. x \<noteq> 0)) m"

definition masked_values :: "mat \<Rightarrow> mat \<Rightarrow> vec" where
  "masked_values values m = map fst (filter (\<lambda>p. snd p \<noteq> 0) (zip (concat values) (concat m)))"

abbreviation fraction :: "(real \<Rightarrow> bool) \<Rightarrow> vec \<Rightarrow> real" where
  "fraction P xs \<equiv> t_mean (map (\<lambda>x. flag (P x)) xs)"

definition seq_summary :: "string \<Rightarrow> vec \<Rightarrow> real \<Rightarrow> real \<Rightarrow> bool \<Rightarrow> metrics" where
  "seq_summary pre seq_values_valid upper lower apply_lower =
     (if seq_values_valid \<noteq> [] then
        [(pre @ ''_seq_mean'', t_mean seq_values_valid),
         (pre @ ''_seq_std'', if 1 < length seq_values_valid then t_std seq_values_valid else 0),
         (pre @ ''_seq_max'', Max (set seq_values_valid)),
         (pre @ ''_seq_min'', Min (set seq_values_valid)),
         (pre @ ''_seq_max_deviation'', Max (abs ` set seq_values_valid)),
         (pre @ ''_seq_fraction_high'', fraction (\<lambda>v. upper < v) seq_values_valid)]
        @ (if apply_lower then [(pre @ ''_seq_fraction_low'', fraction (\<lambda>v. v < lower) seq_values_valid)] else [])
      else [(pre @ ''_seq_mean'', 0), (pre @ ''_seq_std'', 0), (pre @ ''_seq_max'', 0), (pre @ ''_seq_min'', 0), (pre @ ''_seq_max_deviation'', 0),
            (pre @ ''_seq_fraction_high'', 0), (pre @ ''_seq_fraction_low'', 0)])"

text \<open>The standard deviation of the clamped values under a mask.\<close>

definition clamped_std :: "real \<Rightarrow> real \<Rightarrow> mat \<Rightarrow> mat \<Rightarrow> real" where
  "clamped_std lo hi values m =
     (if 1 < token_count m then
        let stat_for_std = map (map (clamp lo hi)) values;
            mean_clamped = mat_mean stat_for_std m;
            stat_var = mat_mean (map (map (\<lambda>v. v\<^sup>2)) stat_for_std) m - mean_clamped\<^sup>2
        in sqrt (max stat_var 0)
      else 0)"

definition compute_rs_metrics :: "string \<Rightarrow> mat \<Rightarrow> mat \<Rightarrow> bool \<Rightarrow> vec option \<Rightarrow> real \<Rightarrow> real \<Rightarrow> bool \<Rightarrow> metrics result" where
  "compute_rs_metrics opt rs_statistic response_mask sequence_level per_sequence_values upper lower apply_lower =
     (if \<not> any_token response_mask then Inl ValueError
      else let
          pre = ''rollout_rs_'' @ opt;
          seq_values = (case per_sequence_values of Some vs \<Rightarrow> vs | None \<Rightarrow> map2 masked_mean rs_statistic response_mask);
          seq_values_valid = map fst (filter (\<lambda>(v, m). 0 < sum_list m) (zip seq_values response_mask));
          by_sequence = (sequence_level \<and> seq_values_valid \<noteq> []);
          extremes = (if by_sequence then seq_values_valid else masked_values rs_statistic response_mask)
        in Inr ([(pre @ ''_mean'', mat_mean rs_statistic response_mask),
              (pre @ ''_max'', Max (set extremes)),
              (pre @ ''_min'', Min (set extremes)),
              (pre @ ''_fraction_high'', if by_sequence then fraction (\<lambda>v. upper < v) seq_values_valid
                 else mat_mean (map (map (\<lambda>v. flag (upper < v))) rs_statistic) response_mask),
              (pre @ ''_fraction_low'', if \<not> apply_lower then 0 else if by_sequence then fraction (\<lambda>v. v < lower) seq_values_valid
                 else mat_mean (map (map (\<lambda>v. flag (v < lower))) rs_statistic) response_mask),
              (pre @ ''_std'', clamped_std (if apply_lower then lower else 0) upper rs_statistic response_mask)]
            @ seq_summary pre seq_values_valid upper lower apply_lower))"

definition dict_update :: "metrics \<Rightarrow> metrics \<Rightarrow> metrics" where
  "dict_update d new = fold (\<lambda>(k, v). AList.update k v) new d"

text \<open>One pass of the loop over the options: the combined mask and the metrics so far.\<close>

definition rs_step :: "(string \<times> real option \<times> real) list \<Rightarrow> mat \<Rightarrow> mat \<Rightarrow> string \<Rightarrow> mat \<times> metrics \<Rightarrow> (mat \<times> metrics) result" where
  "rs_step threshold_specs log_ratio_safe response_mask opt st =
     (case map_of threshold_specs opt of None \<Rightarrow> Inl KeyError
      | Some (lower, upper) \<Rightarrow>
        if suffix ''k1'' opt \<and> lower = None then Inl ValueError
        else case (st, rs_option opt lower upper log_ratio_safe response_mask) of ((combined_mask, ms), (per_token_stat, per_sequence_stat, keep)) \<Rightarrow>
          let k1 = suffix ''k1'' opt;
              token_keep_mask = map (map flag) keep;
              seq_keep = map2 (\<lambda>ks m. list_all (\<lambda>(k, x). k \<or> x = 0) (zip ks m)) keep response_mask;
              valid = seq_valid response_mask
          in rbind (compute_rs_metrics opt per_token_stat response_mask (opt \<notin> set TOKEN_LEVEL_ROLLOUT_RS_OPTIONS) per_sequence_stat
                (if k1 then ln upper else upper) (if k1 then ln (the lower) else 0) k1) (\<lambda>option_metrics.
             Inr (mat2 (*) combined_mask token_keep_mask,
               dict_update (dict_update ms option_metrics)
                 [(''rollout_rs_'' @ opt @ ''_masked_fraction'', mat_mean (map (map (\<lambda>k. 1 - k)) token_keep_mask) response_mask),
                  (''rollout_rs_'' @ opt @ ''_seq_masked_fraction'',
                     if 0 < sum_list valid then sum_list (map2 (\<lambda>k v. (1 - flag k) * v) seq_keep valid) / sum_list valid else 0)])))"

definition normalize_options :: "string \<Rightarrow> string list result" where
  "normalize_options rollout_rs =
     (let option_modes = comma_parts rollout_rs
      in if option_modes = [] then Inl ValueError
         else rfold (\<lambda>opt acc. if opt \<notin> set SUPPORTED_ROLLOUT_RS_OPTIONS then Inl ValueError
                               else Inr (if opt \<in> set acc then acc else acc @ [opt])) option_modes [])"

definition compute_rollout_rejection_mask ::
  "(string \<Rightarrow> real option) \<Rightarrow> (real \<Rightarrow> string) \<Rightarrow> mat \<Rightarrow> mat \<Rightarrow> string option \<Rightarrow> spec option \<Rightarrow> (mat \<times> metrics) result" where
  "compute_rollout_rejection_mask float_of str_of log_ratio response_mask rollout_rs rollout_rs_threshold =
     (case rollout_rs of None \<Rightarrow> Inl ValueError
      | Some rs \<Rightarrow>
        if rollout_rs_threshold = None then Inl ValueError
        else if log_ratio = [] then Inr (response_mask, [])
        else rbind (normalize_options rs) (\<lambda>normalized_options.
          rbind (parse_rollout_rs_thresholds float_of str_of normalized_options rollout_rs_threshold) (\<lambda>threshold_specs.
          rbind (rfold (rs_step threshold_specs (map (map safe) log_ratio) response_mask) normalized_options
              (map (map (\<lambda>_. 1)) response_mask, [])) (\<lambda>(final_mask, ms).
          let seq_has_masked = map2 (\<lambda>fs m. list_ex (\<lambda>(f, x). \<not> 1 / 2 < f \<and> x \<noteq> 0) (zip fs m)) final_mask response_mask
          in Inr (mat2 (*) response_mask final_mask,
               dict_update ms [(''rollout_rs_masked_fraction'', mat_mean (map (map (\<lambda>f. 1 - f)) final_mask) response_mask),
                 (''rollout_rs_seq_masked_fraction'', t_mean (map flag seq_has_masked))])))))"

section \<open>Importance weights\<close>

text \<open>The weights before the threshold, and the log-ratios that the metrics read: of every token, or one per sequence.\<close>

definition raw_weights :: "string \<Rightarrow> mat \<Rightarrow> mat \<Rightarrow> (mat \<times> mat) result" where
  "raw_weights rollout_is log_ratio response_mask =
     (if rollout_is = ''token'' then Inr (mat2 (\<lambda>d m. exp (safe d) * m) log_ratio response_mask, log_ratio)
      else if rollout_is = ''sequence'' then
        let log_ratio_sum = map2 masked_sum log_ratio response_mask
        in Inr (map2 (\<lambda>s. map (\<lambda>m. exp (safe s) * m)) log_ratio_sum response_mask, map (\<lambda>s. [s]) log_ratio_sum)
      else Inl ValueError)"

definition truncate_weight :: "real \<Rightarrow> real option \<Rightarrow> real \<Rightarrow> real" where
  "truncate_weight upper lower w = (case lower of None \<Rightarrow> min w upper | Some l \<Rightarrow> if l \<le> w \<and> w \<le> upper then w else 0)"

text \<open>The reciprocal in the effective sample size is a division of Python floats.\<close>

definition eff_sample_size :: "real \<Rightarrow> mat \<Rightarrow> mat \<Rightarrow> real result" where
  "eff_sample_size upper weights response_mask =
     (let weights_for_ess = map (map (clamp 0 upper)) weights;
          mean_for_ess = mat_mean weights_for_ess response_mask;
          is_weights_normalized = map (map (\<lambda>w. w / (mean_for_ess + 1 / 10 ^ 8))) weights_for_ess;
          mean_square = mat_mean (map (map (\<lambda>w. w\<^sup>2)) is_weights_normalized) response_mask
      in if mean_square = 0 then Inl ZeroDivisionError else Inr (1 / mean_square))"

definition compute_is_metrics :: "mat \<Rightarrow> mat \<Rightarrow> mat \<Rightarrow> mat \<Rightarrow> string \<Rightarrow> real \<Rightarrow> real option \<Rightarrow> metrics result" where
  "compute_is_metrics weights raw log_ratio_for_metrics response_mask rollout_is upper lower_opt =
     (if \<not> any_token response_mask then Inl ValueError
      else let
          lower = get_opt (1 / upper) lower_opt;
          lrs = concat log_ratio_for_metrics;
          level = (if rollout_is = ''sequence'' then
              [(''rollout_is_max'', exp (min (Max (set lrs)) 20)),
               (''rollout_is_min'', exp (Min (set lrs))),
               (''rollout_is_mean'', mat_mean weights response_mask),
               (''rollout_is_ratio_fraction_high'', fraction (\<lambda>d. ln upper < d) lrs),
               (''rollout_is_ratio_fraction_low'', fraction (\<lambda>d. d < ln lower) lrs)]
            else
              [(''rollout_is_mean'', mat_mean weights response_mask),
               (''rollout_is_ratio_fraction_high'', mat_mean (map (map (\<lambda>w. flag (upper < w))) raw) response_mask),
               (''rollout_is_ratio_fraction_low'', mat_mean (map (map (\<lambda>w. flag (w < lower))) raw) response_mask),
               (''rollout_is_max'', Max (set (masked_values weights response_mask))),
               (''rollout_is_min'', Min (set (masked_values weights response_mask)))]);
          seq_mean_weights = map2 masked_mean weights response_mask
        in rbind (eff_sample_size upper weights response_mask) (\<lambda>ess.
           Inr (level @
             [(''rollout_is_std'', clamped_std 0 upper weights response_mask),
              (''rollout_is_eff_sample_size'', ess),
              (''rollout_is_seq_mean'', t_mean seq_mean_weights),
              (''rollout_is_seq_std'', if 1 < length seq_mean_weights then t_std seq_mean_weights else 0),
              (''rollout_is_seq_max'', Max (set seq_mean_weights)),
              (''rollout_is_seq_min'', Min (set seq_mean_weights)),
              (''rollout_is_seq_max_deviation'', Max ((\<lambda>w. \<bar>w - 1\<bar>) ` set seq_mean_weights)),
              (''rollout_is_seq_fraction_high'', fraction (\<lambda>w. upper < w) seq_mean_weights),
              (''rollout_is_seq_fraction_low'', fraction (\<lambda>w. w < lower) seq_mean_weights)])))"

text \<open>
  The sums that the other ranks contribute to the mean, if \<open>torch.distributed\<close> is in use. The mean over no tokens is nan.
\<close>

definition distributed_masked_mean :: "real \<times> real \<Rightarrow> vec \<Rightarrow> vec \<Rightarrow> real option" where
  "distributed_masked_mean others local_tensor local_mask =
     tdiv (sum_list (map2 (*) local_tensor local_mask) + fst others) (sum_list local_mask + snd others)"

definition weights_mean :: "(real \<times> real) option \<Rightarrow> string \<Rightarrow> mat \<Rightarrow> mat \<Rightarrow> real option" where
  "weights_mean peers rollout_is weights response_mask =
     (if rollout_is = ''token'' then
        case peers of Some others \<Rightarrow> distributed_masked_mean others (concat weights) (concat response_mask)
        | None \<Rightarrow> Some (mat_mean weights response_mask)
      else let
          seq_weights = map2 masked_mean weights response_mask;
          seq_mask = seq_valid response_mask
        in case peers of Some others \<Rightarrow> distributed_masked_mean others seq_weights seq_mask
        | None \<Rightarrow> Some (sum_list (map2 (*) seq_weights seq_mask) / max (sum_list seq_mask) (1 / 10 ^ 8)))"

definition compute_rollout_correction_weights ::
  "(string \<Rightarrow> real option) \<Rightarrow> (real \<times> real) option \<Rightarrow> mat \<Rightarrow> mat \<Rightarrow> string \<Rightarrow> spec \<Rightarrow> bool \<Rightarrow> (mat \<times> metrics) result" where
  "compute_rollout_correction_weights float_of peers log_ratio response_mask rollout_is rollout_is_threshold batch_normalize =
     (if rollout_is \<notin> {''token'', ''sequence''} then Inl ValueError
      else rbind (parse_rollout_is_threshold float_of rollout_is_threshold) (\<lambda>(upper, lower).
        rbind (raw_weights rollout_is log_ratio response_mask) (\<lambda>(raw, log_ratio_for_metrics).
        let weights = map (map (truncate_weight upper lower)) raw
        in rbind (compute_is_metrics weights raw log_ratio_for_metrics response_mask rollout_is upper lower) (\<lambda>ms.
           let ms = (case lower of None \<Rightarrow> ms
                 | Some l \<Rightarrow> dict_update ms [(''rollout_is_oob_ratio'', mat_mean (map (map (\<lambda>w. flag (w < l \<or> upper < w))) raw) response_mask)])
           in Inr (if \<not> batch_normalize then (weights, ms)
                else case weights_mean peers rollout_is weights response_mask of
                  Some mu \<Rightarrow> if 1 / 10 ^ 8 < mu then (map (map (\<lambda>w. w / mu)) weights, dict_update ms [(''rollout_is_batch_norm_factor'', mu)])
                    else (weights, dict_update ms [(''rollout_is_batch_norm_factor'', 1)])
                | None \<Rightarrow> (weights, dict_update ms [(''rollout_is_batch_norm_factor'', 1)]))))))"

section \<open>Diagnostics\<close>

definition compute_offpolicy_metrics :: "mat \<Rightarrow> mat option \<Rightarrow> mat \<Rightarrow> metrics result" where
  "compute_offpolicy_metrics old_log_prob rollout_log_prob response_mask =
     (if \<not> any_token response_mask then Inl AssertionError
      else let mean_training = map2 masked_mean old_log_prob response_mask;
          training = [(''training_ppl'', t_mean (map (\<lambda>x. exp (- x)) mean_training)), (''training_log_ppl'', t_mean (map uminus mean_training))]
        in case rollout_log_prob of None \<Rightarrow> Inr training
        | Some rollout \<Rightarrow> let
            log_ratio = mat2 (-) old_log_prob rollout;
            mean_rollout = map2 masked_mean rollout response_mask;
            log_ppl_diff = map2 (-) mean_rollout mean_training;
            log_ratio_sum = map2 masked_sum log_ratio response_mask
          in Inr (training @
            [(''kl'', mat_mean (mat2 (-) rollout old_log_prob) response_mask),
             (''k3_kl'', mat_mean (map (map (\<lambda>d. exp d - d - 1)) log_ratio) response_mask),
             (''rollout_ppl'', t_mean (map (\<lambda>x. exp (- x)) mean_rollout)),
             (''rollout_log_ppl'', t_mean (map uminus mean_rollout)),
             (''log_ppl_diff'', t_mean log_ppl_diff),
             (''log_ppl_abs_diff'', t_mean (map abs log_ppl_diff)),
             (''log_ppl_diff_max'', Max (set log_ppl_diff)),
             (''log_ppl_diff_min'', Min (set log_ppl_diff)),
             (''ppl_ratio'', t_mean (map exp log_ppl_diff)),
             (''chi2_token'', mat_mean (map (map (\<lambda>d. (exp (safe d))\<^sup>2)) log_ratio) response_mask - 1),
             (''chi2_seq'', t_mean (map (\<lambda>s. exp (2 * safe s)) log_ratio_sum) - 1)]))"

definition prefix_metrics :: "metrics \<Rightarrow> metrics" where
  "prefix_metrics ms = map (\<lambda>(k, v). (''rollout_corr/'' @ k, v)) ms"

definition compute_rollout_corr_metrics_from_logprobs :: "mat \<Rightarrow> mat \<Rightarrow> mat \<Rightarrow> metrics result" where
  "compute_rollout_corr_metrics_from_logprobs log_prob rollout_log_prob response_mask =
     rbind (compute_offpolicy_metrics log_prob (Some rollout_log_prob) response_mask) (\<lambda>ms. Inr (prefix_metrics ms))"

section \<open>The whole correction\<close>

text \<open>The values that the configuration has, or the defaults that the code reads instead.\<close>

record rollout_corr =
  loss_type :: string
  rollout_is :: "string option"
  rollout_is_threshold :: "spec option"
  rollout_is_batch_normalize :: bool
  rollout_rs :: "string option"
  rollout_rs_threshold :: "spec option"

definition compute_rollout_correction_and_rejection_mask ::
  "(string \<Rightarrow> real option) \<Rightarrow> (real \<Rightarrow> string) \<Rightarrow> (real \<times> real) option \<Rightarrow> mat \<Rightarrow> mat \<Rightarrow> mat \<Rightarrow> rollout_corr \<Rightarrow> (mat option \<times> mat \<times> metrics) result" where
  "compute_rollout_correction_and_rejection_mask float_of str_of peers old_log_prob rollout_log_prob response_mask cfg =
     (if \<not> any_token response_mask then Inl ValueError
      else if map length old_log_prob \<noteq> map length rollout_log_prob then Inl ValueError
      else if map length old_log_prob \<noteq> map length response_mask then Inl ValueError
      else let log_ratio = mat2 (-) old_log_prob rollout_log_prob
        in rbind (case (rollout_is cfg, rollout_is_threshold cfg) of
              (Some level, Some th) \<Rightarrow> rbind (compute_rollout_correction_weights float_of peers log_ratio response_mask level th (rollout_is_batch_normalize cfg))
                 (\<lambda>(w, ms). Inr (Some w, ms))
            | _ \<Rightarrow> Inr (None, [])) (\<lambda>(weights, is_metrics).
           rbind (case rollout_rs cfg of None \<Rightarrow> Inr (response_mask, [])
            | Some rs \<Rightarrow> if rollout_rs_threshold cfg = None then Inl ValueError
                else compute_rollout_rejection_mask float_of str_of log_ratio response_mask (Some rs) (rollout_rs_threshold cfg)) (\<lambda>(modified_response_mask, rs_metrics).
           rbind (compute_offpolicy_metrics old_log_prob (Some rollout_log_prob) response_mask) (\<lambda>offpolicy_metrics.
             Inr (weights, modified_response_mask,
                  prefix_metrics (dict_update (dict_update (dict_update [] is_metrics) rs_metrics) offpolicy_metrics))))))"

definition get_tensor :: "string \<Rightarrow> ('t, 'n) data_proto \<Rightarrow> 't list result" where
  "get_tensor k d = (case batch d of None \<Rightarrow> Inl TypeError
     | Some t \<Rightarrow> (case map_of (td_items t) k of None \<Rightarrow> Inl KeyError | Some x \<Rightarrow> Inr x))"

text \<open>Assigning a tensor to a \<open>TensorDict\<close> checks its first dimension.\<close>

definition set_tensor :: "string \<Rightarrow> 't list \<Rightarrow> ('t, 'n) data_proto \<Rightarrow> ('t, 'n) data_proto result" where
  "set_tensor k x d = (case batch d of None \<Rightarrow> Inl TypeError
     | Some t \<Rightarrow> if length x \<noteq> td_size t then Inl RuntimeError else Inr (d\<lparr>batch := Some (t\<lparr>td_items := AList.update k x (td_items t)\<rparr>)\<rparr>))"

definition compute_rollout_correction_and_add_to_batch ::
  "(string \<Rightarrow> real option) \<Rightarrow> (real \<Rightarrow> string) \<Rightarrow> (real \<times> real) option \<Rightarrow> (vec, 'n) data_proto \<Rightarrow> rollout_corr \<Rightarrow> ((vec, 'n) data_proto \<times> metrics) result" where
  "compute_rollout_correction_and_add_to_batch float_of str_of peers d cfg =
     rbind (get_tensor ''old_log_probs'' d) (\<lambda>old.
     rbind (get_tensor ''rollout_log_probs'' d) (\<lambda>rollout.
     rbind (get_tensor ''response_mask'' d) (\<lambda>response_mask.
     rbind (compute_rollout_correction_and_rejection_mask float_of str_of peers old rollout response_mask cfg) (\<lambda>(weights, modified_response_mask, ms).
     rbind (set_tensor ''response_mask'' modified_response_mask d) (\<lambda>d.
     rbind (case weights of None \<Rightarrow> Inr d
            | Some w \<Rightarrow> rbind (from_dict False [(''rollout_is_weights'', w)] [] []) (dp_union d)) (\<lambda>d.
       Inr (d, ms)))))))"

section \<open>Bypass mode\<close>

definition apply_bypass_mode :: "('t, 'n) data_proto \<Rightarrow> rollout_corr option \<Rightarrow> (('t, 'n) data_proto \<times> rollout_corr option \<times> string) result" where
  "apply_bypass_mode d rollout_corr_config =
     (case batch d of None \<Rightarrow> Inl TypeError
      | Some t \<Rightarrow> (case map_of (td_items t) ''rollout_log_probs'' of None \<Rightarrow> Inl ValueError
          | Some x \<Rightarrow> rbind (set_tensor ''old_log_probs'' x d) (\<lambda>d. Inr (d, rollout_corr_config, ''bypass_mode''))))"

definition compute_policy_loss_bypass_mode ::
  "(string \<Rightarrow> real option) \<Rightarrow> (real \<Rightarrow> string) \<Rightarrow> (real \<times> real) option \<Rightarrow> rollout_corr option \<Rightarrow> mat \<Rightarrow> mat \<Rightarrow> mat \<Rightarrow> mat \<Rightarrow> string \<Rightarrow> actor_config \<Rightarrow> mat option \<Rightarrow> loss" where
  "compute_policy_loss_bypass_mode float_of str_of peers corr old_log_prob log_prob advantages response_mask loss_agg_mode config rollout_is_weights =
     (case corr of None \<Rightarrow> Inl ValueError
      | Some cfg \<Rightarrow>
        rbind (compute_rollout_correction_and_rejection_mask float_of str_of peers log_prob old_log_prob response_mask cfg)
          (\<lambda>(computed_is_weights, effective_mask, rollout_metrics).
        rbind (if loss_type cfg = ''reinforce'' then
                 compute_policy_loss_reinforce old_log_prob log_prob advantages effective_mask loss_agg_mode config computed_is_weights
               else if loss_type cfg = ''ppo_clip'' then
                 compute_policy_loss_vanilla old_log_prob log_prob advantages effective_mask loss_agg_mode config None
               else Inl ValueError) (\<lambda>(pg_loss, pg_metrics).
          Inr (pg_loss, dict_update pg_metrics rollout_metrics))))"

text \<open>The registry of policy losses. The random permutations, \<open>torch.topk\<close> and the conversions are the arguments of the losses that use them.\<close>

record torch_env =
  env_randperm :: "nat \<Rightarrow> nat list"
  env_topk :: "vec \<Rightarrow> nat \<Rightarrow> nat list"
  env_float :: "string \<Rightarrow> real option"
  env_str :: "real \<Rightarrow> string"
  env_peers :: "(real \<times> real) option"

definition get_policy_loss_fn ::
  "torch_env \<Rightarrow> rollout_corr option \<Rightarrow> string \<Rightarrow> (mat \<Rightarrow> mat \<Rightarrow> mat \<Rightarrow> mat \<Rightarrow> string \<Rightarrow> actor_config \<Rightarrow> mat option \<Rightarrow> loss) result" where
  "get_policy_loss_fn env corr name =
     (case map_of
        [(''vanilla'', compute_policy_loss_vanilla),
         (''dppo_tv'', compute_policy_loss_dppo_tv),
         (''dppo_kl'', compute_policy_loss_dppo_kl),
         (''gspo'', compute_policy_loss_gspo),
         (''sapo'', compute_policy_loss_sapo),
         (''gpg'', compute_policy_loss_gpg),
         (''clip_cov'', compute_policy_loss_clip_cov (env_randperm env)),
         (''kl_cov'', compute_policy_loss_kl_cov (env_topk env)),
         (''geo_mean'', compute_policy_loss_geo_mean),
         (''cispo'', compute_policy_loss_cispo),
         (''bypass_mode'', compute_policy_loss_bypass_mode (env_float env) (env_str env) (env_peers env) corr)] name
      of None \<Rightarrow> Inl ValueError | Some f \<Rightarrow> Inr f)"

section \<open>Weights are bounded\<close>

lemma list_all2_concat: "list_all2 (list_all2 P) A B \<Longrightarrow> list_all2 P (concat A) (concat B)"
  by (induction rule: list_all2_induct) (simp_all add: list_all2_appendI)

lemma list_all2_zip: "list_all2 P xs ys \<Longrightarrow> (x, y) \<in> set (zip xs ys) \<Longrightarrow> P x y"
  by (auto simp: list_all2_iff)

text \<open>The sum of non-negative terms.\<close>

lemma sum_list_zero_iff: "\<forall>x \<in> set xs. (0 :: real) \<le> x \<Longrightarrow> sum_list xs = 0 \<longleftrightarrow> (\<forall>x \<in> set xs. x = 0)"
  by (rule sum_list_nonneg_eq_0_iff) simp

lemma masked_mean_zero_iff:
  assumes "\<forall>m \<in> set ms. 0 \<le> m" "\<forall>v \<in> set vs. 0 \<le> v"
  shows "masked_mean vs ms = 0 \<longleftrightarrow> (\<forall>(v, m) \<in> set (zip vs ms). v * m = 0)"
proof -
  have "0 \<le> sum_list ms" using assms(1) by (intro sum_list_nonneg) simp
  then have "sum_list ms + 1 / 10 ^ 8 \<noteq> 0" by (smt (verit) divide_pos_pos zero_less_power zero_less_numeral zero_less_one)
  then have "masked_mean vs ms = 0 \<longleftrightarrow> sum_list (map2 (*) vs ms) = 0" by (simp add: masked_mean_def masked_sum_eq)
  also have "\<dots> \<longleftrightarrow> (\<forall>x \<in> set (map2 (*) vs ms). x = 0)"
    using assms by (intro sum_list_zero_iff) (auto intro!: mult_nonneg_nonneg dest: set_zip_leftD set_zip_rightD)
  finally show ?thesis by auto
qed

lemma masked_mean_nonneg: "\<forall>m \<in> set ms. 0 \<le> m \<Longrightarrow> \<forall>v \<in> set vs. 0 \<le> v \<Longrightarrow> 0 \<le> masked_mean vs ms"
  unfolding masked_mean_def masked_sum_eq by (intro divide_nonneg_nonneg sum_list_nonneg add_nonneg_nonneg) (auto intro!: mult_nonneg_nonneg dest: set_zip_leftD set_zip_rightD)

text \<open>The effective sample size is undefined exactly when every valid token has weight 0.\<close>

lemma eff_sample_size_zero:
  assumes "0 < upper" and ws: "\<forall>r \<in> set W. \<forall>w \<in> set r. 0 \<le> w \<and> w \<le> upper" and ms: "\<forall>r \<in> set M. \<forall>m \<in> set r. (0 :: real) \<le> m"
  shows "eff_sample_size upper W M = Inl ZeroDivisionError \<longleftrightarrow> (\<forall>(w, m) \<in> set (zip (concat W) (concat M)). w * m = 0)"
    and "eff_sample_size upper W M = Inl e \<Longrightarrow> e = ZeroDivisionError"
proof -
  have same: "map (map (clamp 0 upper)) W = W" using ws by (auto simp: clamp_def map_idI)
  define n where "n = mat_mean W M + 1 / 10 ^ 8"
  have "0 \<le> mat_mean W M" unfolding mat_mean_def using ws ms by (intro masked_mean_nonneg) auto
  then have n: "0 < n" unfolding n_def by (smt (verit) divide_pos_pos zero_less_power zero_less_numeral zero_less_one)
  define sq where "sq = map (\<lambda>w. (w / n)\<^sup>2) (concat W)"
  have sq: "mat_mean (map (map (\<lambda>w. w\<^sup>2)) (map (map (\<lambda>w. w / n)) W)) M = masked_mean sq (concat M)"
    by (simp add: mat_mean_def sq_def map_concat comp_def)
  have "masked_mean sq (concat M) = 0 \<longleftrightarrow> (\<forall>(v, m) \<in> set (zip sq (concat M)). v * m = 0)"
    using ms by (intro masked_mean_zero_iff) (auto simp: sq_def)
  also have "\<dots> \<longleftrightarrow> (\<forall>(w, m) \<in> set (zip (concat W) (concat M)). w * m = 0)" using n by (auto simp: sq_def zip_map1)
  finally have iff: "masked_mean sq (concat M) = 0 \<longleftrightarrow> (\<forall>(w, m) \<in> set (zip (concat W) (concat M)). w * m = 0)" .
  have eq: "eff_sample_size upper W M = (if masked_mean sq (concat M) = 0 then Inl ZeroDivisionError else Inr (1 / masked_mean sq (concat M)))"
    unfolding eff_sample_size_def Let_def same n_def [symmetric] sq ..
  show "eff_sample_size upper W M = Inl ZeroDivisionError \<longleftrightarrow> (\<forall>(w, m) \<in> set (zip (concat W) (concat M)). w * m = 0)"
    unfolding eq iff by simp
  show "eff_sample_size upper W M = Inl e \<Longrightarrow> e = ZeroDivisionError" unfolding eq by (simp split: if_splits)
qed

text \<open>A raw weight is a positive ratio under the mask.\<close>

lemma raw_weights_shape:
  assumes "raw_weights level lr ms = Inr (raw, lrm)" "map length lr = map length ms"
  shows "list_all2 (list_all2 (\<lambda>w m. \<exists>e. 0 < e \<and> w = e * m)) raw ms"
proof -
  have len: "length lr = length ms" "\<And>i. i < length ms \<Longrightarrow> length (lr ! i) = length (ms ! i)"
    using assms(2) by (metis length_map, metis assms(2) length_map nth_map)
  consider "level = ''token''" "raw = mat2 (\<lambda>d m. exp (safe d) * m) lr ms"
    | "raw = map2 (\<lambda>s. map (\<lambda>m. exp (safe s) * m)) (map2 masked_sum lr ms) ms"
    using assms(1) by (auto simp: raw_weights_def Let_def split: if_splits)
  then show ?thesis
  proof cases
    case 1
    show ?thesis unfolding 1(2) using len by (auto simp: list_all2_conv_all_nth intro!: exI exp_gt_zero)
  next
    case 2
    show ?thesis unfolding 2 using len by (auto simp: list_all2_conv_all_nth intro!: exI exp_gt_zero)
  qed
qed

abbreviation binary :: "mat \<Rightarrow> bool" where
  "binary m \<equiv> \<forall>r \<in> set m. set r \<subseteq> {0, 1}"

definition weight_ok :: "real \<Rightarrow> real option \<Rightarrow> real \<Rightarrow> real \<Rightarrow> bool" where
  "weight_ok upper lower w m \<longleftrightarrow> 0 \<le> w \<and> w \<le> upper \<and> (m = 0 \<longrightarrow> w = 0) \<and> (w \<noteq> 0 \<longrightarrow> (\<forall>l. lower = Some l \<longrightarrow> l \<le> w))"

lemma parse_is_positive: "parse_rollout_is_threshold float_of th = Inr (upper, lower) \<Longrightarrow> 0 < upper \<and> (\<forall>l. lower = Some l \<longrightarrow> 0 < l)"
  by (auto simp: parse_rollout_is_threshold_def rbind_def split: sum.splits if_splits option.splits)

lemma truncate_weight_ok:
  assumes "parse_rollout_is_threshold float_of th = Inr (upper, lower)" "0 < e" "m = 0 \<or> m = 1"
  shows "weight_ok upper lower (truncate_weight upper lower (e * m)) m"
  using assms(2,3) parse_is_positive [OF assms(1)] by (auto simp: weight_ok_def truncate_weight_def split: option.splits)

lemma truncated_ok:
  assumes "parse_rollout_is_threshold float_of th = Inr (upper, lower)" "binary ms"
    and "list_all2 (list_all2 (\<lambda>w m. \<exists>e. 0 < e \<and> w = e * m)) raw ms"
  shows "list_all2 (list_all2 (weight_ok upper lower)) (map (map (truncate_weight upper lower)) raw) ms"
proof -
  have one: "weight_ok upper lower (truncate_weight upper lower w) m" if "m \<in> set r" "r \<in> set ms" "\<exists>e. 0 < e \<and> w = e * m" for w m r
    using that assms(2) truncate_weight_ok [OF assms(1)] by blast
  have "list_all2 (weight_ok upper lower) (map (truncate_weight upper lower) ws) r"
    if "r \<in> set ms" "list_all2 (\<lambda>w m. \<exists>e. 0 < e \<and> w = e * m) ws r" for ws r
    unfolding list_all2_map1 by (rule list.rel_mono_strong [OF that(2)]) (use one that(1) in blast)
  with assms(3) show ?thesis unfolding list_all2_map1 [of _ "map (truncate_weight upper lower)"] by (rule list.rel_mono_strong) blast
qed

lemma is_metrics_total:
  "any_token ms \<Longrightarrow> \<exists>F. compute_is_metrics ws raw lrm ms level upper lower = rbind (eff_sample_size upper ws ms) (\<lambda>ess. Inr (F ess))"
  unfolding compute_is_metrics_def Let_def by (simp only: if_False simp_thms) (rule exI, rule refl)

text \<open>
  C8. Importance weights are bounded, and when they cannot be computed. Without batch normalization every weight lies between 0 and the upper threshold, is 0 on a masked token
  and, with a lower threshold, 0 or at least that threshold. With an upper threshold alone the call succeeds; with both it raises \<open>ZeroDivisionError\<close>, in the metric
  of the effective sample size, when no valid token has a ratio between the thresholds.
\<close>

theorem correction_weights_spec:
  assumes level: "level \<in> {''token'', ''sequence''}" and th: "parse_rollout_is_threshold float_of th = Inr (upper, lower)"
    and raw: "raw_weights level lr ms = Inr (raw, lrm)" and len: "map length lr = map length ms" and bin: "binary ms" and tok: "any_token ms"
    and ws: "ws = map (map (truncate_weight upper lower)) raw"
    and r: "r = compute_rollout_correction_weights float_of peers lr ms level th False"
  shows "list_all2 (list_all2 (weight_ok upper lower)) ws ms \<and>
    (if \<exists>(w, m) \<in> set (zip (concat ws) (concat ms)). w \<noteq> 0 \<and> m \<noteq> 0 then \<exists>metrics. r = Inr (ws, metrics) else r = Inl ZeroDivisionError) \<and>
    (lower = None \<longrightarrow> (\<exists>metrics. r = Inr (ws, metrics)))"
proof -
  note shape = raw_weights_shape [OF raw len]
  have ok: "list_all2 (list_all2 (weight_ok upper lower)) ws ms" unfolding ws by (rule truncated_ok [OF th bin shape])
  have up: "0 < upper" using parse_is_positive [OF th] by simp
  have W: "\<forall>row \<in> set ws. \<forall>w \<in> set row. 0 \<le> w \<and> w \<le> upper"
    using ok by (fastforce simp: list_all2_conv_all_nth in_set_conv_nth weight_ok_def)
  have M: "\<forall>row \<in> set ms. \<forall>m \<in> set row. 0 \<le> m" using bin by fastforce
  have unfold: "r = rbind (compute_is_metrics ws raw lrm ms level upper lower) (\<lambda>metrics.
      Inr (ws, case lower of None \<Rightarrow> metrics
        | Some l \<Rightarrow> dict_update metrics [(''rollout_is_oob_ratio'', mat_mean (map (map (\<lambda>w. flag (w < l \<or> upper < w))) raw) ms)]))"
    unfolding r compute_rollout_correction_weights_def using level by (simp add: th raw rbind_def ws Let_def)
  have main: "if \<exists>(w, m) \<in> set (zip (concat ws) (concat ms)). w \<noteq> 0 \<and> m \<noteq> 0 then \<exists>metrics. r = Inr (ws, metrics) else r = Inl ZeroDivisionError"
  proof (cases "eff_sample_size upper ws ms")
    case (Inl e)
    then have z: "e = ZeroDivisionError" by (rule eff_sample_size_zero(2) [OF up W M])
    then have "\<forall>(w, m) \<in> set (zip (concat ws) (concat ms)). w * m = 0" using Inl eff_sample_size_zero(1) [OF up W M] by simp
    moreover have "r = Inl ZeroDivisionError" using is_metrics_total [OF tok, of ws raw lrm level upper lower] Inl z unfold by (auto simp: rbind_def)
    ultimately show ?thesis by auto
  next
    case (Inr x)
    then have "\<not> (\<forall>(w, m) \<in> set (zip (concat ws) (concat ms)). w * m = 0)" using eff_sample_size_zero(1) [OF up W M] by simp
    moreover have "\<exists>metrics. r = Inr (ws, metrics)" using is_metrics_total [OF tok, of ws raw lrm level upper lower] Inr unfold by (auto simp: rbind_def)
    ultimately show ?thesis by auto
  qed
  have "\<exists>(w, m) \<in> set (zip (concat ws) (concat ms)). w \<noteq> 0 \<and> m \<noteq> 0" if "lower = None"
  proof -
    have rel: "list_all2 (\<lambda>w m. \<exists>e. 0 < e \<and> w = e * m) (concat raw) (concat ms)" by (rule list_all2_concat [OF shape])
    obtain j where j: "j < length (concat ms)" "concat ms ! j \<noteq> 0" using tok unfolding any_token_def list_ex_iff by (metis in_set_conv_nth concat_map_singleton set_concat UN_I)
    then obtain e where "0 < e" "concat raw ! j = e * concat ms ! j" using rel by (auto simp: list_all2_conv_all_nth)
    moreover have "concat ws ! j = min (concat raw ! j) upper" "length (concat ws) = length (concat ms)"
      using j rel that by (simp_all add: ws truncate_weight_def list_all2_lengthD flip: map_concat)
    moreover have "concat ms ! j = 1" using j bin nth_mem [OF j(1)] by auto
    ultimately have "zip (concat ws) (concat ms) ! j = (concat ws ! j, concat ms ! j)" "j < length (zip (concat ws) (concat ms))" "concat ws ! j \<noteq> 0"
      using j(1) up by simp_all
    then show ?thesis using j(2) nth_mem by (metis (mono_tags, lifting) case_prodI)
  qed
  with main ok show ?thesis by auto
qed

text \<open>A ratio of 1: outside the thresholds 2 and 3, and below the upper threshold 2.\<close>

definition example_float :: "string \<Rightarrow> real option" where
  "example_float s = map_of [(''2'', 2), (''3'', 3), (''0.5'', 1 / 2), (''1.5'', 3 / 2)] s"

lemma example_is_threshold: "parse_rollout_is_threshold example_float (SStr ''2_3'') = Inr (3, Some 2)" "parse_rollout_is_threshold example_float (SNum 2) = Inr (2, None)"
proof -
  have "py_strip ''2_3'' = ''2_3''" "split_once (CHR ''_'') ''2_3'' = (''2'', ''3'')" by code_simp+
  then show "parse_rollout_is_threshold example_float (SStr ''2_3'') = Inr (3, Some 2)"
    by (simp add: parse_rollout_is_threshold_def parse_is_bounds_def rbind_def py_float_def example_float_def Let_def)
qed (simp add: parse_rollout_is_threshold_def parse_is_bounds_def rbind_def)

lemma example_raw: "raw_weights ''token'' [[0]] [[1]] = Inr ([[1]], [[0]])"
  by (simp add: raw_weights_def clamp_def)

theorem correction_weights_spec_witness:
  "compute_rollout_correction_weights example_float None [[0]] [[1]] ''token'' (SStr ''2_3'') False = Inl ZeroDivisionError \<and>
   (\<exists>metrics. compute_rollout_correction_weights example_float None [[0]] [[1]] ''token'' (SNum 2) False = Inr ([[1]], metrics))"
  using correction_weights_spec [OF _ example_is_threshold(1) example_raw _ _ _ refl refl, of None]
    correction_weights_spec [OF _ example_is_threshold(2) example_raw _ _ _ refl refl, of None]
  by (simp add: any_token_def truncate_weight_def)

text \<open>Batch normalization on one process makes the mean of the weights 1.\<close>

lemma batch_normalized_mean:
  assumes "weights_mean None ''token'' W M = Some mu" "1 / 10 ^ 8 < mu"
  shows "weights_mean None ''token'' (map (map (\<lambda>w. w / mu)) W) M = Some 1"
proof -
  have "masked_mean (map (\<lambda>w. w / mu) vs) ms = masked_mean vs ms / mu" for vs ms
  proof -
    have "sum_list (map2 (*) (map (\<lambda>w. w / mu) vs) ms) = sum_list (map2 (*) vs ms) / mu"
    proof (induction vs arbitrary: ms)
      case (Cons v vs)
      then show ?case by (cases ms) (simp_all add: add_divide_distrib)
    qed simp
    then show ?thesis by (simp add: masked_mean_def masked_sum_eq)
  qed
  then show ?thesis using assms by (simp add: weights_mean_def mat_mean_def flip: map_concat)
qed

section \<open>Rejection only removes tokens\<close>

text \<open>What an option says of the token at row \<open>i\<close> and column \<open>j\<close>.\<close>

definition token_kept :: "string \<Rightarrow> real option \<times> real \<Rightarrow> mat \<Rightarrow> mat \<Rightarrow> nat \<Rightarrow> nat \<Rightarrow> bool" where
  "token_kept opt t lr ms i j =
     rs_keep opt (fst t) (snd t)
       (if opt \<in> set TOKEN_LEVEL_ROLLOUT_RS_OPTIONS then token_stat opt (safe (lr ! i ! j))
        else sequence_stat opt (map (\<lambda>d. token_stat opt (safe d)) (lr ! i)) (ms ! i))"

definition spec_ok :: "(string \<times> real option \<times> real) list \<Rightarrow> string \<Rightarrow> bool" where
  "spec_ok specs opt \<longleftrightarrow> (\<exists>l u. map_of specs opt = Some (l, u) \<and> (suffix ''k1'' opt \<longrightarrow> l \<noteq> None))"

lemma parse_rs_option_k1: "parse_rs_option float_of str_of opt sp = Inr (l, u) \<Longrightarrow> suffix ''k1'' opt \<Longrightarrow> l \<noteq> None"
  by (auto simp: parse_rs_option_def rbind_def split: if_splits sum.splits prod.splits)

lemma parse_rs_loop:
  assumes "rfold (\<lambda>(opt, sp) d. rbind (parse_rs_option float_of str_of opt sp) (\<lambda>t. Inr (AList.update opt t d))) ps d = Inr specs"
    "opt \<in> fst ` set ps \<or> spec_ok d opt"
  shows "spec_ok specs opt"
  using assms
proof (induction ps arbitrary: d)
  case (Cons p ps)
  obtain o' sp where p: "p = (o', sp)" by (cases p)
  from Cons.prems(1) obtain l u where t: "parse_rs_option float_of str_of o' sp = Inr (l, u)"
    and rest: "rfold (\<lambda>(opt, sp) d. rbind (parse_rs_option float_of str_of opt sp) (\<lambda>t. Inr (AList.update opt t d))) ps (AList.update o' (l, u) d) = Inr specs"
    unfolding p by (cases "parse_rs_option float_of str_of o' sp") (auto simp: rbind_def)
  have "spec_ok (AList.update o' (l, u) d) o'" using parse_rs_option_k1 [OF t] by (auto simp: spec_ok_def update_conv')
  moreover have "spec_ok d opt \<Longrightarrow> opt \<noteq> o' \<Longrightarrow> spec_ok (AList.update o' (l, u) d) opt" by (simp add: spec_ok_def update_conv')
  ultimately show ?case using Cons.prems(2) by (intro Cons.IH [OF rest]) (auto simp: p)
qed simp

lemma parse_rs_specs:
  assumes "parse_rollout_rs_thresholds float_of str_of opts th = Inr specs" "opt \<in> set opts"
  shows "spec_ok specs opt"
proof -
  from assms(1) obtain raw where "length raw = 1 \<or> length raw = length opts" and
    run: "rfold (\<lambda>(opt, sp) d. rbind (parse_rs_option float_of str_of opt sp) (\<lambda>t. Inr (AList.update opt t d)))
      (zip opts (if length raw = 1 \<and> 1 < length opts then concat (replicate (length opts) raw) else raw)) [] = Inr specs"
    unfolding parse_rollout_rs_thresholds_def by (auto simp: rbind_def Let_def split: sum.splits if_splits)
  moreover have "length (concat (replicate n xs)) = n * length xs" for n and xs :: "string list" by (induction n) simp_all
  ultimately have "length (if length raw = 1 \<and> 1 < length opts then concat (replicate (length opts) raw) else raw) = length opts"
    using assms(2) by (cases opts) (auto simp: le_Suc_eq not_less)
  then have "opt \<in> fst ` set (zip opts (if length raw = 1 \<and> 1 < length opts then concat (replicate (length opts) raw) else raw))"
    using assms(2) by (metis set_map map_fst_zip)
  then show ?thesis using parse_rs_loop [OF run] by blast
qed

definition keep_mask :: "(string \<times> real option \<times> real) list \<Rightarrow> mat \<Rightarrow> mat \<Rightarrow> string \<Rightarrow> mat" where
  "keep_mask specs lr ms opt =
     (case the (map_of specs opt) of (l, u) \<Rightarrow> map (map flag) (snd (snd (rs_option opt l u (map (map safe) lr) ms))))"

lemma rs_step_keep:
  assumes "spec_ok specs opt" "any_token ms"
  shows "\<exists>mt'. rs_step specs (map (map safe) lr) ms opt (cm, mt) = Inr (mat2 (*) cm (keep_mask specs lr ms opt), mt')"
proof -
  obtain l u where lu: "map_of specs opt = Some (l, u)" "suffix ''k1'' opt \<longrightarrow> l \<noteq> None" using assms(1) by (auto simp: spec_ok_def)
  obtain st sq keep where o: "rs_option opt l u (map (map safe) lr) ms = (st, sq, keep)" by (rule prod_cases3)
  have metrics: "\<exists>mt. compute_rs_metrics opt st ms b sq x y c = Inr mt" for b x y c using assms(2) by (simp add: compute_rs_metrics_def Let_def)
  have guard: "\<not> (suffix ''k1'' opt \<and> l = None)" using lu(2) by blast
  obtain mt1 where "compute_rs_metrics opt st ms (opt \<notin> set TOKEN_LEVEL_ROLLOUT_RS_OPTIONS) sq
      (if suffix ''k1'' opt then ln u else u) (if suffix ''k1'' opt then ln (the l) else 0) (suffix ''k1'' opt) = Inr mt1"
    using metrics by blast
  then show ?thesis unfolding rs_step_def lu(1) option.case prod.case o
    by (simp only: guard if_False Let_def rbind_def sum.case keep_mask_def lu(1) option.sel prod.case o snd_conv) blast
qed

lemma rs_loop:
  assumes "\<forall>opt \<in> set opts. spec_ok specs opt" "any_token ms"
  shows "\<exists>mt'. rfold (rs_step specs (map (map safe) lr) ms) opts (cm, mt) = Inr (fold (\<lambda>opt cm. mat2 (*) cm (keep_mask specs lr ms opt)) opts cm, mt')"
  using assms(1)
proof (induction opts arbitrary: cm mt)
  case (Cons opt opts)
  obtain mt1 where "rs_step specs (map (map safe) lr) ms opt (cm, mt) = Inr (mat2 (*) cm (keep_mask specs lr ms opt), mt1)"
    using rs_step_keep [OF _ assms(2)] Cons.prems by (metis list.set_intros(1))
  then show ?case using Cons by (simp add: rbind_def)
qed simp

text \<open>The entries of the masks.\<close>

lemma keep_mask_shape: "map length lr = map length ms \<Longrightarrow> map length (keep_mask specs lr ms opt) = map length ms"
  by (auto simp: keep_mask_def rs_option_def Let_def list_eq_iff_nth_eq split: prod.splits)

lemma keep_mask_entry:
  assumes "map length lr = map length ms" "i < length ms" "j < length (ms ! i)"
  shows "keep_mask specs lr ms opt ! i ! j = flag (token_kept opt (the (map_of specs opt)) lr ms i j)"
proof -
  have "length lr = length ms" "length (lr ! i) = length (ms ! i)" using assms by (metis length_map, metis assms(1,2) length_map nth_map)
  then show ?thesis using assms by (simp add: keep_mask_def rs_option_def token_kept_def Let_def comp_def split: prod.split)
qed

lemma mat2_shape: "map length a = map length b \<Longrightarrow> map length (mat2 f a b) = map length b"
  by (auto simp: list_eq_iff_nth_eq)

lemma mat2_entry:
  assumes "map length a = map length b" "i < length b" "j < length (b ! i)"
  shows "mat2 f a b ! i ! j = f (a ! i ! j) (b ! i ! j)"
proof -
  have "length a = length b" "length (a ! i) = length (b ! i)" using assms by (metis length_map, metis assms(1,2) length_map nth_map)
  then show ?thesis using assms by simp
qed

lemma fold_keep:
  assumes "map length lr = map length ms" "map length cm = map length ms"
  shows "map length (fold (\<lambda>opt cm. mat2 (*) cm (keep_mask specs lr ms opt)) opts cm) = map length ms \<and>
    (\<forall>i < length ms. \<forall>j < length (ms ! i). fold (\<lambda>opt cm. mat2 (*) cm (keep_mask specs lr ms opt)) opts cm ! i ! j =
       (if \<forall>opt \<in> set opts. token_kept opt (the (map_of specs opt)) lr ms i j then cm ! i ! j else 0))"
  using assms(2)
proof (induction opts arbitrary: cm)
  case (Cons opt opts)
  let ?k = "keep_mask specs lr ms opt"
  have k: "map length ?k = map length ms" by (rule keep_mask_shape [OF assms(1)])
  have len: "length ?k = length ms" "\<And>i. i < length ms \<Longrightarrow> length (?k ! i) = length (ms ! i)" using k by (metis length_map, metis k length_map nth_map)
  have "map length (mat2 (*) cm ?k) = map length ms" using mat2_shape [of cm ?k] Cons.prems k by simp
  moreover have "mat2 (*) cm ?k ! i ! j = cm ! i ! j * flag (token_kept opt (the (map_of specs opt)) lr ms i j)" if "i < length ms" "j < length (ms ! i)" for i j
    using mat2_entry [of cm ?k i j "(*)"] Cons.prems k len that keep_mask_entry [OF assms(1) that] by (simp only:)
  ultimately show ?case using Cons.IH [of "mat2 (*) cm ?k"] by simp
qed simp

lemma nonempty_any: "any_token ms \<Longrightarrow> map length lr = map length ms \<Longrightarrow> lr \<noteq> []"
  by (auto simp: any_token_def)

text \<open>
  C27. Rejection sampling never adds a token. When the options and the thresholds parse, the call succeeds and returns a mask of the same shape, in which a token keeps its entry
  if every requested option keeps it, and is 0 otherwise.
\<close>

theorem rejection_mask_spec:
  assumes opts: "normalize_options rs = Inr opts" and specs: "parse_rollout_rs_thresholds float_of str_of opts (Some th) = Inr specs"
    and len: "map length lr = map length ms" and tok: "any_token ms"
  shows "\<exists>m' mt. compute_rollout_rejection_mask float_of str_of lr ms (Some rs) (Some th) = Inr (m', mt) \<and> map length m' = map length ms \<and>
    (\<forall>i < length ms. \<forall>j < length (ms ! i). m' ! i ! j =
       (if \<forall>opt \<in> set opts. token_kept opt (the (map_of specs opt)) lr ms i j then ms ! i ! j else 0))"
proof -
  let ?one = "map (map (\<lambda>_. 1 :: real)) ms"
  define fm where "fm = fold (\<lambda>opt cm. mat2 (*) cm (keep_mask specs lr ms opt)) opts ?one"
  have "\<forall>opt \<in> set opts. spec_ok specs opt" using parse_rs_specs [OF specs] by blast
  from rs_loop [OF this tok] obtain mt where run: "rfold (rs_step specs (map (map safe) lr) ms) opts (?one, []) = Inr (fm, mt)" unfolding fm_def by blast
  have one: "map length ?one = map length ms" by simp
  note fold_keep [OF len one, of specs opts, folded fm_def]
  then have shape: "map length fm = map length ms" and entry: "\<And>i j. i < length ms \<Longrightarrow> j < length (ms ! i) \<Longrightarrow>
      fm ! i ! j = (if \<forall>opt \<in> set opts. token_kept opt (the (map_of specs opt)) lr ms i j then 1 else 0)" by simp_all
  have row: "length fm = length ms" "\<And>i. i < length ms \<Longrightarrow> length (fm ! i) = length (ms ! i)" using shape by (metis length_map, metis shape length_map nth_map)
  have "\<exists>mt. compute_rollout_rejection_mask float_of str_of lr ms (Some rs) (Some th) = Inr (mat2 (*) ms fm, mt)"
    using nonempty_any [OF tok len] by (simp add: compute_rollout_rejection_mask_def opts specs run rbind_def Let_def)
  moreover have "map length (mat2 (*) ms fm) = map length ms" using mat2_shape [of ms fm] shape by simp
  moreover have "mat2 (*) ms fm ! i ! j = (if \<forall>opt \<in> set opts. token_kept opt (the (map_of specs opt)) lr ms i j then ms ! i ! j else 0)"
    if "i < length ms" "j < length (ms ! i)" for i j
    using mat2_entry [of ms fm i j "(*)"] shape row that entry [OF that] by simp
  ultimately show ?thesis by blast
qed

lemma example_options: "normalize_options ''token_k1'' = Inr [''token_k1'']"
  by code_simp

lemma example_rs_threshold: "parse_rollout_rs_thresholds example_float str_of [''token_k1''] (Some (SStr ''0.5_1.5'')) = Inr [(''token_k1'', Some (1 / 2), 3 / 2)]"
proof -
  have "comma_parts ''0.5_1.5'' = [''0.5_1.5'']" "split_once (CHR ''_'') ''0.5_1.5'' = (''0.5'', ''1.5'')" by code_simp+
  then show ?thesis
    by (simp add: parse_rollout_rs_thresholds_def parse_rs_option_def rbind_def py_float_def example_float_def Let_def suffix_def)
qed

text \<open>The thresholds of \<open>token_k1\<close> bound the inverse of the ratio of the trained policy to the rollout policy.\<close>

lemma k1_bounds_inverse:
  assumes "0 < l" "0 < u"
  shows "token_kept ''token_k1'' (Some l, u) lr ms i j \<longleftrightarrow> 1 / u \<le> exp (safe (lr ! i ! j)) \<and> exp (safe (lr ! i ! j)) \<le> 1 / l"
proof -
  have "token_kept ''token_k1'' (Some l, u) lr ms i j \<longleftrightarrow> ln l \<le> - safe (lr ! i ! j) \<and> - safe (lr ! i ! j) \<le> ln u"
    by (simp add: token_kept_def rs_keep_def token_stat_def TOKEN_LEVEL_ROLLOUT_RS_OPTIONS_def suffix_def)
  also have "\<dots> \<longleftrightarrow> l \<le> exp (- safe (lr ! i ! j)) \<and> exp (- safe (lr ! i ! j)) \<le> u" using assms by (metis exp_le_cancel_iff exp_ln)
  also have "\<dots> \<longleftrightarrow> 1 / u \<le> exp (safe (lr ! i ! j)) \<and> exp (safe (lr ! i ! j)) \<le> 1 / l" using assms by (auto simp: exp_minus field_simps)
  finally show ?thesis .
qed

lemma example_kept:
  "token_kept ''token_k1'' (Some (1 / 2), 3 / 2) [[0, ln (1 / 2)]] ms 0 0" "\<not> token_kept ''token_k1'' (Some (1 / 2), 3 / 2) [[0, ln (1 / 2)]] ms 0 1"
proof -
  have "safe 0 = 0" by (simp add: clamp_def)
  moreover have "safe (ln (1 / 2)) = ln (1 / 2)"
  proof -
    have "ln (2 :: real) \<le> 1" "0 < ln (2 :: real)" using ln_le_minus_one [of "2 :: real"] by simp_all
    then have "max (- ln 2) (- 20) = - ln (2 :: real)" "min (- ln 2) 20 = - ln (2 :: real)" by linarith+
    then show ?thesis by (simp add: clamp_def ln_div)
  qed
  ultimately show "token_kept ''token_k1'' (Some (1 / 2), 3 / 2) [[0, ln (1 / 2)]] ms 0 0" "\<not> token_kept ''token_k1'' (Some (1 / 2), 3 / 2) [[0, ln (1 / 2)]] ms 0 1"
    by (simp_all add: k1_bounds_inverse)
qed

text \<open>
  Ratios 1 and 1/2 with the thresholds \<open>0.5_1.5\<close>: the second token has a ratio that is not outside these numbers, and is rejected because its inverse is.
\<close>

theorem rejection_mask_spec_witness:
  "\<exists>m' mt. compute_rollout_rejection_mask example_float (\<lambda>_. ''1'') [[0, ln (1 / 2)]] [[1, 1]] (Some ''token_k1'') (Some (SStr ''0.5_1.5'')) = Inr (m', mt) \<and> map length m' = [2] \<and>
    m' ! 0 ! 0 = 1 \<and> m' ! 0 ! 1 = 0"
proof -
  have "map length [[0, ln (1 / 2)]] = map length [[1, 1 :: real]]" "any_token [[1, 1 :: real]]" by (simp_all add: any_token_def)
  from rejection_mask_spec [OF example_options example_rs_threshold this, of "\<lambda>_. ''1''"] show ?thesis
    by (elim exE conjE, intro exI conjI) (assumption, simp_all add: example_kept [unfolded One_nat_def] less_Suc_eq)
qed
end
