(* ===== verification/Sampler.thy ===== *)
theory Sampler
  imports Input_Batch Torch_Functional "HOL-Library.Option_ord"
begin

text \<open>
  The sampler of vllm: \<open>v1/sample/sampler.py\<close> with \<open>v1/sample/ops\<close>, and the penalties of \<open>model_executor/layers/utils.py\<close>.

  A logit is a real number or \<open>None\<close>, for minus infinity, which is the least logit. Metadata is the record \<open>sampling_metadata\<close> that the input batch makes; the lists of output
  tokens, which it shares with the cached requests, are an argument. The random numbers are an argument \<open>noise\<close>, one row of positive numbers per request.
  \<open>torch.sort\<close> does not say in which order equal logits come: the sorting permutation is the argument \<open>argsort\<close>.
\<close>

type_synonym logits = "real option list"

section \<open>Masks, biases and penalties\<close>

definition apply_allowed_token_ids :: "bool list list option \<Rightarrow> logits list \<Rightarrow> logits list" where
  "apply_allowed_token_ids allowed_token_ids_mask logits =
     (case allowed_token_ids_mask of None \<Rightarrow> logits | Some m \<Rightarrow> map2 (map2 (\<lambda>b x. if b then None else x)) m logits)"

text \<open>Assigning minus infinity at an index, negative ones counting from the end.\<close>

definition exclude :: "int \<Rightarrow> logits \<Rightarrow> logits result" where
  "exclude t row = (let j = (if t < 0 then t + int (length row) else t)
     in if 0 \<le> j \<and> j < int (length row) then Inr (row[nat j := None]) else Inl IndexError)"

definition bad_word_applies :: "int list \<Rightarrow> int list \<Rightarrow> bool" where
  "bad_word_applies bad_word_ids past_tokens_ids =
     (let prefix_length = length bad_word_ids - 1;
          actual_prefix = (if 0 < prefix_length then drop (length past_tokens_ids - prefix_length) past_tokens_ids else [])
      in length bad_word_ids \<le> length past_tokens_ids + 1 \<and> actual_prefix = take prefix_length bad_word_ids)"

definition apply_bad_words_single_batch :: "int list list \<Rightarrow> int list \<Rightarrow> logits \<Rightarrow> logits result" where
  "apply_bad_words_single_batch bad_words past_tokens_ids row =
     rfold (\<lambda>bad_word_ids row.
       if bad_word_ids = [] then Inl IndexError
       else if bad_word_applies bad_word_ids past_tokens_ids then exclude (last bad_word_ids) row else Inr row) bad_words row"

text \<open>A change of one row, which may raise.\<close>

definition on_row :: "nat \<Rightarrow> (logits \<Rightarrow> logits result) \<Rightarrow> logits list \<Rightarrow> logits list result" where
  "on_row i f logits = (if i < length logits then rbind (f (logits ! i)) (\<lambda>row. Inr (logits[i := row])) else Inl IndexError)"

definition apply_bad_words :: "(nat \<times> int list list) list \<Rightarrow> int list list \<Rightarrow> logits list \<Rightarrow> logits list result" where
  "apply_bad_words bad_words past_tokens_ids logits =
     rfold (\<lambda>(i, words) logits. rbind (py_get past_tokens_ids i) (\<lambda>past. on_row i (apply_bad_words_single_batch words past) logits)) bad_words logits"

definition add_bias :: "real \<Rightarrow> real option \<Rightarrow> real option" where
  "add_bias b x = map_option (\<lambda>x. x + b) x"

definition apply_bias_row :: "(int \<times> rat) list \<Rightarrow> logits \<Rightarrow> logits result" where
  "apply_bias_row bias row =
     rfold (\<lambda>(token_id, b) row. if token_id < 0 \<or> int (length row) \<le> token_id then Inl ValueError
       else Inr (row[nat token_id := add_bias (of_rat b) (row ! nat token_id)])) bias row"

definition apply_logits_bias :: "(int \<times> rat) list option list \<Rightarrow> logits list \<Rightarrow> logits list result" where
  "apply_logits_bias biases logits =
     rfold (\<lambda>(i, bias) logits. case bias of None \<Rightarrow> Inr logits | Some b \<Rightarrow> if b = [] then Inr logits else on_row i (apply_bias_row b) logits)
       (enumerate 0 biases) logits"

definition apply_min_token_penalties :: "int list list \<Rightarrow> (nat \<times> int \<times> int list) list \<Rightarrow> logits list \<Rightarrow> logits list result" where
  "apply_min_token_penalties outputs min_toks logits =
     rfold (\<lambda>(i, min_token, stop_token_ids) logits. rbind (py_get outputs i) (\<lambda>out.
       if int (length out) < min_token then rfold (\<lambda>t. on_row i (exclude t)) stop_token_ids logits else Inr logits)) min_toks logits"

text \<open>\<open>get_token_bin_counts_and_mask\<close> counts in \<open>vocab_size + 1\<close> bins and drops the last one, of the padding.\<close>

definition get_token_bin_counts_and_mask :: "int list \<Rightarrow> nat \<Rightarrow> (nat list \<times> bool list) result" where
  "get_token_bin_counts_and_mask tokens n =
     (if \<forall>t \<in> set tokens. 0 \<le> t \<and> t \<le> int n
      then let bin_counts = map (\<lambda>v. count_list tokens (int v)) [0..<n] in Inr (bin_counts, map (\<lambda>c. 0 < c) bin_counts)
      else Inl RuntimeError)"

definition penalize :: "real \<Rightarrow> real \<Rightarrow> real \<Rightarrow> bool \<Rightarrow> nat \<Rightarrow> real option \<Rightarrow> real option" where
  "penalize presence frequency repetition in_prompt output_count x =
     map_option (\<lambda>x. let penalty = (if in_prompt \<or> 0 < output_count then repetition else 1);
                         scaled = x * (if 0 < x then 1 / penalty else penalty)
                     in scaled - frequency * real output_count - presence * (if 0 < output_count then 1 else 0)) x"

definition penalize_row :: "int list \<Rightarrow> int list \<Rightarrow> real \<Rightarrow> real \<Rightarrow> real \<Rightarrow> logits \<Rightarrow> logits result" where
  "penalize_row prompt_tokens output_tokens presence frequency repetition row =
     rbind (get_token_bin_counts_and_mask prompt_tokens (length row)) (\<lambda>(_, prompt_mask).
     rbind (get_token_bin_counts_and_mask output_tokens (length row)) (\<lambda>(output_bin_counts, _).
       Inr (map2 (\<lambda>x (p, c). penalize presence frequency repetition p c x) row (zip prompt_mask output_bin_counts))))"

text \<open>The output tokens are padded with the size of the vocabulary.\<close>

definition pad_tokens :: "int list list \<Rightarrow> nat \<Rightarrow> int list list" where
  "pad_tokens rows n = (let w = fold max (map length rows) 0 in map (\<lambda>r. r @ replicate (w - length r) (int n)) rows)"

definition apply_all_penalties :: "int list list \<Rightarrow> rat list \<times> rat list \<times> rat list \<Rightarrow> int list list \<Rightarrow> logits list \<Rightarrow> logits list result" where
  "apply_all_penalties prompts penalties outputs logits =
     (case penalties of (frequency, presence, repetition) \<Rightarrow>
        rmap (\<lambda>((row, p, out), f, pr, r). penalize_row p out (of_rat pr) (of_rat f) (of_rat r) row)
          (zip (zip logits (zip prompts (pad_tokens outputs (case logits of [] \<Rightarrow> 0 | r # _ \<Rightarrow> length r))))
            (zip frequency (zip presence repetition))))"

section \<open>Top-k and top-p\<close>

definition weight :: "real option \<Rightarrow> real" where
  "weight x = (case x of None \<Rightarrow> 0 | Some x \<Rightarrow> exp x)"

text \<open>\<open>torch.softmax\<close> of a row with a finite logit.\<close>

definition lsoftmax :: "logits \<Rightarrow> vec" where
  "lsoftmax row = map (\<lambda>x. weight x / sum_list (map weight row)) row"

definition mask_below :: "real option \<Rightarrow> logits \<Rightarrow> logits" where
  "mask_below cutoff row = map (\<lambda>x. if x < cutoff then None else x) row"

definition apply_top_k_only :: "int list \<Rightarrow> logits list \<Rightarrow> logits list result" where
  "apply_top_k_only ks logits =
     (if ks = [] then Inl RuntimeError
      else rmap (\<lambda>(k, row). let no_top_k = (k = int (length row)); k = (if no_top_k then 1 else k)
       in if 1 \<le> k \<and> k \<le> int (length row)
          then Inr (mask_below (if no_top_k then None else rev (sort row) ! nat (k - 1)) row) else Inl RuntimeError) (zip ks logits))"

definition top_k_sorted :: "int \<Rightarrow> logits \<Rightarrow> logits result" where
  "top_k_sorted k srt = (if 1 \<le> k \<and> k \<le> int (length srt) then Inr (mask_below (srt ! nat (int (length srt) - k)) srt) else Inl RuntimeError)"

definition top_p_mask :: "real \<Rightarrow> logits \<Rightarrow> bool list" where
  "top_p_mask p srt = map (\<lambda>(j, c). c \<le> 1 - p \<and> j \<noteq> length srt - 1) (enumerate 0 (cumsum (lsoftmax srt)))"

definition top_p_sorted :: "real \<Rightarrow> logits \<Rightarrow> logits" where
  "top_p_sorted p srt = map2 (\<lambda>b x. if b then None else x) (top_p_mask p srt) srt"

definition scatter_row :: "nat list \<Rightarrow> logits \<Rightarrow> logits" where
  "scatter_row idx src = fold (\<lambda>(i, x) row. row[i := x]) (zip idx src) src"

definition top_k_top_p_row :: "(logits \<Rightarrow> nat list) \<Rightarrow> int option \<Rightarrow> real \<Rightarrow> logits \<Rightarrow> logits result" where
  "top_k_top_p_row argsort k p row =
     (let logits_idx = argsort row; logits_sort = map ((!) row) logits_idx
      in rbind (case k of None \<Rightarrow> Inr logits_sort | Some k \<Rightarrow> top_k_sorted k logits_sort) (\<lambda>logits_sort.
           Inr (scatter_row logits_idx (top_p_sorted p logits_sort))))"

definition apply_top_k_top_p :: "(logits \<Rightarrow> nat list) \<Rightarrow> int list option \<Rightarrow> rat list option \<Rightarrow> logits list \<Rightarrow> logits list result" where
  "apply_top_k_top_p argsort k p logits =
     (case p of None \<Rightarrow> (case k of None \<Rightarrow> Inr logits | Some ks \<Rightarrow> apply_top_k_only ks logits)
      | Some ps \<Rightarrow> rmap (\<lambda>(k, p, row). top_k_top_p_row argsort k (of_rat p) row)
          (zip (case k of None \<Rightarrow> map (\<lambda>_. None) logits | Some ks \<Rightarrow> map Some ks) (zip ps logits)))"

text \<open>The version for TPUs compares probabilities with the cut-off instead of scattering. Its cut-off for \<open>p\<close> ignores the effect of \<open>k\<close>.\<close>

definition top_k_top_p_tpu_row :: "int option \<Rightarrow> real option \<Rightarrow> logits \<Rightarrow> logits result" where
  "top_k_top_p_tpu_row k p row =
     (let probs = lsoftmax row; probs_sort = sort probs
      in rbind (case k of None \<Rightarrow> Inr row
           | Some k \<Rightarrow> if 1 \<le> k \<and> k \<le> int (length row)
               then Inr (if k = int (length row) then row
                 else map2 (\<lambda>q x. if q < probs_sort ! nat (int (length row) - k) then None else x) probs row)
               else Inl RuntimeError) (\<lambda>row.
         Inr (case p of None \<Rightarrow> row
           | Some p \<Rightarrow> let top_p_count = length (filter id (map (\<lambda>(j, c). c \<le> 1 - p \<and> j \<noteq> length row - 1) (enumerate 0 (cumsum probs_sort))))
               in map2 (\<lambda>q x. if q < probs_sort ! top_p_count then None else x) probs row)))"

definition apply_top_k_top_p_tpu :: "int list option \<Rightarrow> rat list option \<Rightarrow> logits list \<Rightarrow> logits list result" where
  "apply_top_k_top_p_tpu k p logits =
     rmap (\<lambda>(k, p, row). top_k_top_p_tpu_row k (map_option of_rat p) row)
       (zip (case k of None \<Rightarrow> map (\<lambda>_. None) logits | Some ks \<Rightarrow> map Some ks)
         (zip (case p of None \<Rightarrow> map (\<lambda>_. None) logits | Some ps \<Rightarrow> map Some ps) logits))"

section \<open>Sampling\<close>

text \<open>\<open>argmax\<close>: the first index of the greatest entry.\<close>

definition argmax :: "'a::linorder list \<Rightarrow> nat" where
  "argmax xs = length (takeWhile (\<lambda>x. x \<noteq> Max (set xs)) xs)"

definition random_sample :: "mat \<Rightarrow> mat \<Rightarrow> nat list" where
  "random_sample noise probs = map2 (\<lambda>q p. argmax (map2 (/) p q)) noise probs"

definition forward_native :: "(logits \<Rightarrow> nat list) \<Rightarrow> mat \<Rightarrow> int list option \<Rightarrow> rat list option \<Rightarrow> logits list \<Rightarrow> nat list result" where
  "forward_native argsort noise k p logits =
     rbind (apply_top_k_top_p argsort k p logits) (\<lambda>logits. Inr (random_sample noise (map lsoftmax logits)))"

text \<open>
  A logit of minus infinity stays one, as division by a positive temperature has it. Rows of greedy requests in a mixed batch carry the temperature \<open>-1\<close>, for which the code
  computes plus infinity there; \<open>sample\<close> takes the greedy token for every row with a temperature below \<open>_SAMPLING_EPS\<close> and drops what comes of the scaled row, and all
  later operations work on each row alone.
\<close>

definition apply_temperature :: "rat list \<Rightarrow> logits list \<Rightarrow> logits list" where
  "apply_temperature temp logits = map2 (\<lambda>t. map (map_option (\<lambda>x. x / of_rat t))) temp logits"

definition min_p_row :: "real \<Rightarrow> logits \<Rightarrow> logits" where
  "min_p_row threshold row =
     (let probability_values = lsoftmax row; adjusted_min_p = threshold * Max (set probability_values)
      in map2 (\<lambda>q x. if adjusted_min_p \<le> q then x else None) probability_values row)"

definition apply_min_p :: "rat list \<Rightarrow> logits list \<Rightarrow> logits list" where
  "apply_min_p threshold logits = map2 (\<lambda>m. min_p_row (of_rat m)) threshold logits"

definition greedy_sample :: "logits list \<Rightarrow> nat list" where
  "greedy_sample logits = map argmax logits"

text \<open>Rows with a temperature below \<open>1e-5\<close> take the greedy token.\<close>

definition sample :: "(logits \<Rightarrow> nat list) \<Rightarrow> mat \<Rightarrow> sampling_metadata \<Rightarrow> logits list \<Rightarrow> nat list result" where
  "sample argsort noise md logits =
     (if all_greedy md \<and> all_random md then Inl AssertionError
      else if \<not> all_random md \<and> all_greedy md then Inr (greedy_sample logits)
      else case md_temperature md of None \<Rightarrow> Inl AssertionError
        | Some temp \<Rightarrow>
          let scaled = apply_temperature temp logits;
              scaled = (case md_min_p md of None \<Rightarrow> scaled | Some mp \<Rightarrow> apply_min_p mp scaled)
          in rbind (forward_native argsort noise (md_top_k md) (md_top_p md) scaled) (\<lambda>random_sampled.
             Inr (if all_random md then random_sampled
                  else map2 (\<lambda>t (g, r). if t < 1 / 10 ^ 5 then g else r) temp (zip (greedy_sample logits) random_sampled))))"

text \<open>The dictionaries from rows to options are arrays in the model of the batch; their items in the order of the rows.\<close>

definition arr_items :: "'a option arr \<Rightarrow> (nat \<times> 'a) list" where
  "arr_items a = concat (map (\<lambda>i. case aget a i of None \<Rightarrow> [] | Some x \<Rightarrow> [(i, x)]) [0..<length (entries a)])"

definition apply_penalties :: "int list list \<Rightarrow> sampling_metadata \<Rightarrow> logits list \<Rightarrow> logits list result" where
  "apply_penalties outputs md logits =
     rbind (apply_min_token_penalties outputs (arr_items (md_min_tokens md)) logits) (\<lambda>logits.
       case md_penalties md of None \<Rightarrow> Inr logits
       | Some penalties \<Rightarrow> (case md_prompt_token_ids md of None \<Rightarrow> Inl AssertionError
           | Some prompts \<Rightarrow> apply_all_penalties prompts penalties outputs logits))"

definition process_logits :: "int list list \<Rightarrow> sampling_metadata \<Rightarrow> logits list \<Rightarrow> logits list result" where
  "process_logits outputs md logits =
     rbind (apply_bad_words (arr_items (md_bad_words md)) outputs (apply_allowed_token_ids (md_allowed_mask md) logits)) (\<lambda>logits.
     rbind (apply_logits_bias (md_logit_bias md) logits) (apply_penalties outputs md))"

text \<open>The log-probabilities are those of the logits before all changes. \<open>topk\<close> is \<open>torch.topk(\<dots>).indices\<close>.\<close>

definition compute_logprobs :: "logits \<Rightarrow> logits" where
  "compute_logprobs row = map (map_option (\<lambda>x. x - ln (sum_list (map weight row)))) row"

definition gather_logprobs_row :: "(logits \<Rightarrow> nat \<Rightarrow> nat list) \<Rightarrow> nat \<Rightarrow> logits \<Rightarrow> nat \<Rightarrow> nat list \<times> logits \<times> nat" where
  "gather_logprobs_row topk num lps token =
     (let topk_indices = topk lps num
      in (token # topk_indices, lps ! token # map ((!) lps) topk_indices, length (filter (\<lambda>x. lps ! token \<le> x) lps)))"

definition gather_logprobs :: "(logits \<Rightarrow> nat \<Rightarrow> nat list) \<Rightarrow> nat \<Rightarrow> logits list \<Rightarrow> nat list \<Rightarrow> (nat list \<times> logits \<times> nat) list" where
  "gather_logprobs topk num lps tokens = map2 (gather_logprobs_row topk num) lps tokens"

record sampler_output =
  so_sampled_token_ids :: "nat list list"
  so_logprobs_tensors :: "(nat list \<times> logits \<times> nat) list option"

definition sampler_forward :: "(logits \<Rightarrow> nat list) \<Rightarrow> (logits \<Rightarrow> nat \<Rightarrow> nat list) \<Rightarrow> mat \<Rightarrow> int list list \<Rightarrow> sampling_metadata \<Rightarrow> logits list \<Rightarrow> sampler_output result" where
  "sampler_forward argsort topk noise outputs md logits =
     rbind (process_logits outputs md logits) (\<lambda>processed.
     rbind (sample argsort noise md processed) (\<lambda>sampled.
       Inr \<lparr>so_sampled_token_ids = map (\<lambda>t. [t]) sampled,
            so_logprobs_tensors = map_option (\<lambda>n. gather_logprobs topk (nat n) (map compute_logprobs logits) sampled) (max_num_logprobs md)\<rparr>))"

section \<open>What the processing of logits removes\<close>

definition dead :: "logits \<Rightarrow> nat \<Rightarrow> bool" where
  "dead row t \<longleftrightarrow> row ! t = None"

definition wrap_index :: "nat \<Rightarrow> int \<Rightarrow> int" where
  "wrap_index n t = (if t < 0 then t + int n else t)"

text \<open>
  A token of a row is excluded by the mask of the allowed tokens, by a bad word that it would complete, or as a stop token before the minimal number of
  tokens.
\<close>

definition excluded :: "sampling_metadata \<Rightarrow> int list list \<Rightarrow> nat \<Rightarrow> nat \<Rightarrow> nat \<Rightarrow> bool" where
  "excluded md outputs n i t \<longleftrightarrow>
     (\<exists>m. md_allowed_mask md = Some m \<and> m ! i ! t)
     \<or> (\<exists>words. (i, words) \<in> set (arr_items (md_bad_words md))
          \<and> (\<exists>w \<in> set words. bad_word_applies w (outputs ! i) \<and> wrap_index n (last w) = int t))
     \<or> (\<exists>min_token stops. (i, min_token, stops) \<in> set (arr_items (md_min_tokens md)) \<and> int (length (outputs ! i)) < min_token
          \<and> (\<exists>s \<in> set stops. wrap_index n s = int t))"

text \<open>Processing \<open>l\<close> to \<open>l'\<close> keeps the shape and makes exactly the cells of \<open>P\<close> minus infinity.\<close>

definition masks :: "nat \<Rightarrow> nat \<Rightarrow> (nat \<Rightarrow> nat \<Rightarrow> bool) \<Rightarrow> logits list \<Rightarrow> logits list \<Rightarrow> bool" where
  "masks n v P l l' \<longleftrightarrow> shaped n v l' \<and> (\<forall>i < n. \<forall>t < v. dead (l' ! i) t \<longleftrightarrow> dead (l ! i) t \<or> P i t)"

lemma masks_refl: "shaped n v l \<Longrightarrow> masks n v (\<lambda>_ _. False) l l"
  by (simp add: masks_def)

lemma masks_trans: "masks n v P l l' \<Longrightarrow> masks n v Q l' l'' \<Longrightarrow> masks n v (\<lambda>i t. P i t \<or> Q i t) l l''"
  by (auto simp: masks_def)

lemma masks_cong: "masks n v P l l' \<Longrightarrow> (\<And>i t. i < n \<Longrightarrow> t < v \<Longrightarrow> P i t \<longleftrightarrow> Q i t) \<Longrightarrow> masks n v Q l l'"
  by (simp add: masks_def)

lemma masks_shaped: "masks n v P l l' \<Longrightarrow> shaped n v l'"
  by (simp add: masks_def)

lemma shaped_nth: "shaped n v l \<Longrightarrow> i < n \<Longrightarrow> length (l ! i) = v"
  by (simp add: shaped_def)

lemma shaped_iff: "shaped n v l \<longleftrightarrow> length l = n \<and> (\<forall>i < n. length (l ! i) = v)"
  unfolding shaped_def by (metis in_set_conv_nth)

lemma shaped_update: "shaped n v l \<Longrightarrow> length r = v \<Longrightarrow> shaped n v (l[i := r])"
  by (auto simp: shaped_def dest: subsetD [OF set_update_subset_insert])

text \<open>A loop of such steps.\<close>

lemma rfold_masks:
  assumes "rfold f xs l = Inr l'" and "shaped n v l"
    and "\<And>x l l'. x \<in> set xs \<Longrightarrow> shaped n v l \<Longrightarrow> f x l = Inr l' \<Longrightarrow> masks n v (P x) l l'"
  shows "masks n v (\<lambda>i t. \<exists>x \<in> set xs. P x i t) l l'"
  using assms
proof (induction xs arbitrary: l)
  case Nil
  then show ?case by (simp add: masks_refl)
next
  case (Cons x xs)
  then obtain k where "f x l = Inr k" and k: "rfold f xs k = Inr l'" by auto
  then have "masks n v (P x) l k" using Cons.prems by simp
  moreover from this have "masks n v (\<lambda>i t. \<exists>x \<in> set xs. P x i t) k l'"
    using k Cons.prems(3) by (intro Cons.IH) (simp_all add: masks_shaped)
  ultimately show ?case by (drule_tac masks_trans) (auto elim!: masks_cong)
qed

lemma masks_on_row:
  assumes "on_row i f l = Inr l'" and "shaped n v l"
    and "\<And>row. length (l ! i) = v \<Longrightarrow> f (l ! i) = Inr row \<Longrightarrow> masks 1 v (\<lambda>_. p) [l ! i] [row]"
  shows "masks n v (\<lambda>j t. j = i \<and> p t) l l'"
proof -
  from assms(1,2) obtain row where i: "i < n" and row: "f (l ! i) = Inr row" and l': "l' = l[i := row]"
    by (auto simp: on_row_def shaped_def split: if_splits)
  from assms(3) [OF shaped_nth [OF assms(2) i] row] have "length row = v" and "\<forall>t < v. dead row t \<longleftrightarrow> dead (l ! i) t \<or> p t"
    by (simp_all add: masks_def shaped_def)
  then show ?thesis
    using i assms(2) shaped_update [OF assms(2), of row i] by (auto simp: masks_def l' nth_list_update shaped_def)
qed

lemma masks_exclude:
  assumes "exclude t row = Inr row'" and "length row = v"
  shows "masks 1 v (\<lambda>_ j. wrap_index v t = int j) [row] [row']"
  using assms by (auto simp: masks_def shaped_def exclude_def wrap_index_def dead_def Let_def nth_list_update split: if_splits)

lemma masks_bad_words_row:
  assumes "apply_bad_words_single_batch words past row = Inr row'" and "length row = v"
  shows "masks 1 v (\<lambda>_ t. \<exists>w \<in> set words. bad_word_applies w past \<and> wrap_index v (last w) = int t) [row] [row']"
proof -
  let ?f = "\<lambda>w l. rbind (if w = [] then Inl IndexError else if bad_word_applies w past then exclude (last w) (hd l) else Inr (hd l)) (\<lambda>r. Inr [r])"
  have "rfold ?f ws [r] = rbind (apply_bad_words_single_batch ws past r) (\<lambda>r. Inr [r])" for ws r
    unfolding apply_bad_words_single_batch_def
  proof (induction ws arbitrary: r)
    case (Cons w ws)
    then show ?case by (cases "exclude (last w) r") simp_all
  qed simp
  then have "rfold ?f words [row] = Inr [row']" using assms(1) by simp
  then show ?thesis
    by (rule rfold_masks) (auto simp: assms(2) shaped_def length_Suc_conv masks_refl intro: masks_exclude [simplified] split: if_splits)
qed

lemma masks_bad_words:
  assumes "apply_bad_words words outputs l = Inr l'" and "shaped n v l"
  shows "masks n v (\<lambda>i t. \<exists>ws. (i, ws) \<in> set words \<and> (\<exists>w \<in> set ws. bad_word_applies w (outputs ! i) \<and> wrap_index v (last w) = int t)) l l'"
proof -
  have "masks n v (\<lambda>i t. \<exists>x \<in> set words. i = fst x \<and> (\<exists>w \<in> set (snd x). bad_word_applies w (outputs ! fst x) \<and> wrap_index v (last w) = int t)) l l'"
    using assms unfolding apply_bad_words_def
    by (rule rfold_masks) (auto simp: case_prod_beta intro: masks_on_row masks_bad_words_row)
  then show ?thesis by (rule masks_cong) force
qed

lemma masks_min_tokens:
  assumes "apply_min_token_penalties outputs toks l = Inr l'" and "shaped n v l"
  shows "masks n v (\<lambda>i t. \<exists>min_token stops. (i, min_token, stops) \<in> set toks \<and> int (length (outputs ! i)) < min_token
           \<and> (\<exists>s \<in> set stops. wrap_index v s = int t)) l l'"
proof -
  have step: "masks n v (\<lambda>j t. \<exists>s \<in> set stops. j = i \<and> wrap_index v s = int t) l l'"
    if "rfold (\<lambda>t. on_row i (exclude t)) stops l = Inr l'" and "shaped n v l" for i stops l l'
    using that by (rule rfold_masks) (auto intro: masks_on_row masks_exclude)
  have "masks n v (\<lambda>i t. \<exists>x \<in> set toks. i = fst x \<and> int (length (outputs ! fst x)) < fst (snd x) \<and> (\<exists>s \<in> set (snd (snd x)). wrap_index v s = int t)) l l'"
    using assms unfolding apply_min_token_penalties_def
  proof (rule rfold_masks)
    fix x l l'
    assume "shaped n v l" and "(case x of (i, min_token, stops) \<Rightarrow> \<lambda>logits. rbind (py_get outputs i) (\<lambda>out.
      if int (length out) < min_token then rfold (\<lambda>t. on_row i (exclude t)) stops logits else Inr logits)) l = Inr l'"
    then show "masks n v (\<lambda>i t. i = fst x \<and> int (length (outputs ! fst x)) < fst (snd x) \<and> (\<exists>s \<in> set (snd (snd x)). wrap_index v s = int t)) l l'"
      by (cases x) (auto simp: masks_refl split: if_splits dest!: step elim!: masks_cong)
  qed
  then show ?thesis by (rule masks_cong) force
qed

lemma masks_bias_row:
  assumes "apply_bias_row bias row = Inr row'" and "length row = v"
  shows "masks 1 v (\<lambda>_ _. False) [row] [row']"
proof -
  have "length row' = v \<and> (\<forall>t. dead row' t \<longleftrightarrow> dead row t)"
    using assms(1) unfolding apply_bias_row_def
    by (rule rfold_invariant) (auto simp: assms(2) dead_def add_bias_def nth_list_update split: if_splits)
  then show ?thesis by (simp add: masks_def shaped_def)
qed

lemma masks_bias:
  assumes "apply_logits_bias biases l = Inr l'" and "shaped n v l"
  shows "masks n v (\<lambda>_ _. False) l l'"
proof -
  have step: "masks n v (\<lambda>_ _. False) l l'" if "on_row i (apply_bias_row b) l = Inr l'" "shaped n v l" for i b l l'
    using masks_on_row [OF that, of "\<lambda>_. False"] masks_bias_row by simp
  have "masks n v (\<lambda>i t. \<exists>x \<in> set (enumerate 0 biases). False) l l'"
    using assms unfolding apply_logits_bias_def
    by (rule rfold_masks) (auto simp: case_prod_beta masks_refl split: option.splits if_splits intro: step)
  then show ?thesis by (rule masks_cong) simp
qed

lemma penalize_row_dead:
  assumes "penalize_row p out pr f r row = Inr row'"
  shows "length row' = length row \<and> (\<forall>t < length row. dead row' t \<longleftrightarrow> dead row t)"
  using assms by (auto simp: penalize_row_def get_token_bin_counts_and_mask_def Let_def dead_def penalize_def split: if_splits)

lemma masks_all_penalties:
  assumes ok: "apply_all_penalties prompts (frequency, presence, repetition) outputs l = Inr l'" and l: "shaped n v l"
    and len: "length prompts = n" "length outputs = n" "length frequency = n" "length presence = n" "length repetition = n"
  shows "masks n v (\<lambda>_ _. False) l l'"
proof -
  let ?xs = "zip (zip l (zip prompts (pad_tokens outputs (case l of [] \<Rightarrow> 0 | r # _ \<Rightarrow> length r)))) (zip frequency (zip presence repetition))"
  have pad: "length (pad_tokens outputs k) = n" for k by (simp add: pad_tokens_def Let_def len)
  have "length l' = n" using ok l by (auto simp: apply_all_penalties_def len pad shaped_def dest: length_rmap)
  moreover have "length (l' ! i) = v \<and> (\<forall>t < v. dead (l' ! i) t \<longleftrightarrow> dead (l ! i) t)" if "i < n" for i
  proof -
    have "list_all2 (\<lambda>((row, p, out), f, pr, r) y. penalize_row p out (of_rat pr) (of_rat f) (of_rat r) row = Inr y) ?xs l'"
      using ok by (simp add: apply_all_penalties_def rmap_Inr_iff case_prod_unfold)
    from list_all2_nthD [OF this, of i] have "\<exists>p out pr f r. penalize_row p out pr f r (l ! i) = Inr (l' ! i)"
      using that l by (simp add: len pad shaped_def) blast
    then show ?thesis using penalize_row_dead shaped_nth [OF l that] by blast
  qed
  ultimately show ?thesis by (auto simp: masks_def shaped_def in_set_conv_nth)
qed

lemma masks_allowed:
  assumes l: "shaped n v l" and "\<And>m. allowed = Some m \<Longrightarrow> shaped n v m"
  shows "masks n v (\<lambda>i t. \<exists>m. allowed = Some m \<and> m ! i ! t) l (apply_allowed_token_ids allowed l)"
proof (cases allowed)
  case None
  then show ?thesis using l by (simp add: apply_allowed_token_ids_def masks_refl)
next
  case (Some m)
  with assms show ?thesis
    by (auto simp: apply_allowed_token_ids_def masks_def shaped_iff dead_def)
qed

text \<open>The metadata of a batch of \<open>n\<close> rows.\<close>

definition md_shaped :: "nat \<Rightarrow> nat \<Rightarrow> int list list \<Rightarrow> sampling_metadata \<Rightarrow> bool" where
  "md_shaped n v outputs md \<longleftrightarrow> length outputs = n
     \<and> (case md_allowed_mask md of None \<Rightarrow> True | Some m \<Rightarrow> shaped n v m)
     \<and> (case md_penalties md of None \<Rightarrow> True | Some (f, pr, r) \<Rightarrow> length f = n \<and> length pr = n \<and> length r = n)
     \<and> (case md_prompt_token_ids md of None \<Rightarrow> True | Some p \<Rightarrow> length p = n)
     \<and> (case md_temperature md of None \<Rightarrow> True | Some t \<Rightarrow> length t = n)
     \<and> (case md_min_p md of None \<Rightarrow> True | Some m \<Rightarrow> length m = n \<and> (\<forall>x \<in> set m. x \<le> 1))
     \<and> (case md_top_k md of None \<Rightarrow> True | Some k \<Rightarrow> length k = n)
     \<and> (case md_top_p md of None \<Rightarrow> True | Some p \<Rightarrow> length p = n)"

lemma process_logits_masks:
  assumes ok: "process_logits outputs md l = Inr l'" and l: "shaped n v l" and md: "md_shaped n v outputs md"
  shows "masks n v (excluded md outputs v) l l'"
proof -
  let ?l0 = "apply_allowed_token_ids (md_allowed_mask md) l"
  from ok obtain l1 l2 l3 where 1: "apply_bad_words (arr_items (md_bad_words md)) outputs ?l0 = Inr l1"
    and 2: "apply_logits_bias (md_logit_bias md) l1 = Inr l2"
    and 3: "apply_min_token_penalties outputs (arr_items (md_min_tokens md)) l2 = Inr l3"
    and 4: "(md_penalties md = None \<and> l' = l3) \<or> (\<exists>pen prompts. md_penalties md = Some pen \<and> md_prompt_token_ids md = Some prompts \<and> apply_all_penalties prompts pen outputs l3 = Inr l')"
    unfolding process_logits_def apply_penalties_def rbind_Inr_iff
    by (cases "md_penalties md"; cases "md_prompt_token_ids md") auto
  have m0: "masks n v (\<lambda>i t. \<exists>m. md_allowed_mask md = Some m \<and> m ! i ! t) l ?l0"
    using l md by (intro masks_allowed) (auto simp: md_shaped_def)
  note m1 = masks_bad_words [OF 1 masks_shaped [OF m0]]
  note m2 = masks_bias [OF 2 masks_shaped [OF m1]]
  note m3 = masks_min_tokens [OF 3 masks_shaped [OF m2]]
  have m4: "masks n v (\<lambda>_ _. False) l3 l'"
    using 4 md masks_shaped [OF m3] by (auto simp: masks_refl md_shaped_def intro: masks_all_penalties)
  from masks_trans [OF masks_trans [OF masks_trans [OF masks_trans [OF m0 m1] m2] m3] m4] show ?thesis
    by (rule masks_cong) (simp only: excluded_def, blast)
qed

section \<open>What is sampled\<close>

lemma argmax_nth:
  assumes "xs \<noteq> []"
  shows "argmax xs < length xs" and "xs ! argmax xs = Max (set xs)"
proof -
  have "Max (set xs) \<in> set xs" using assms by simp
  then have "takeWhile (\<lambda>x. x \<noteq> Max (set xs)) xs \<noteq> xs" by (metis set_takeWhileD)
  then show *: "argmax xs < length xs"
    unfolding argmax_def by (metis length_takeWhile_le nat_less_le takeWhile_eq_take take_all_iff)
  show "xs ! argmax xs = Max (set xs)"
    using nth_length_takeWhile [of "\<lambda>x. x \<noteq> Max (set xs)" xs] * by (simp add: argmax_def)
qed

lemma argmax_ge: "x \<in> set xs \<Longrightarrow> x \<le> xs ! argmax xs"
  by (metis List.finite_set Max_ge argmax_nth(2) emptyE list.set(1))

text \<open>\<open>row'\<close> keeps some logits of \<open>row\<close>, among them a finite one.\<close>

definition alive :: "logits \<Rightarrow> bool" where
  "alive row \<longleftrightarrow> (\<exists>t < length row. \<not> dead row t)"

definition thins :: "logits \<Rightarrow> logits \<Rightarrow> bool" where
  "thins row row' \<longleftrightarrow> length row' = length row \<and> (\<forall>t < length row. dead row t \<longrightarrow> dead row' t) \<and> (alive row \<longrightarrow> alive row')"

lemma thins_trans: "thins r s \<Longrightarrow> thins s t \<Longrightarrow> thins r t"
  by (simp add: thins_def)

lemma thinsI:
  assumes "length row' = length row" and "\<And>t. t < length row \<Longrightarrow> dead row t \<Longrightarrow> dead row' t"
    and "alive row \<Longrightarrow> a < length row \<and> \<not> dead row' a"
  shows "thins row row'"
  unfolding thins_def using assms by (metis alive_def)

lemma thins_refl: "thins r r"
  by (simp add: thins_def)

lemma greatest_finite:
  assumes "alive row"
  shows "argmax row < length row" and "\<not> dead row (argmax row)"
proof -
  from assms obtain t where t: "t < length row" "row ! t \<noteq> None" by (auto simp: alive_def dead_def)
  then show "argmax row < length row" by (intro argmax_nth) auto
  have "row ! t \<le> row ! argmax row" using t by (intro argmax_ge) simp
  then show "\<not> dead row (argmax row)" using t by (cases "row ! argmax row") (auto simp: dead_def)
qed

lemma weight_nonneg: "0 \<le> weight x"
  by (simp add: weight_def split: option.split)

lemma weight_pos_iff: "0 < weight x \<longleftrightarrow> x \<noteq> None"
  by (simp add: weight_def split: option.split)

lemma length_lsoftmax [simp]: "length (lsoftmax row) = length row"
  by (simp add: lsoftmax_def)

lemma total_weight_pos:
  assumes "alive row"
  shows "0 < sum_list (map weight row)"
proof -
  from assms obtain x where x: "x \<in> set row" "x \<noteq> None" unfolding alive_def dead_def using nth_mem by blast
  then have "weight x \<le> sum_list (map weight row)"
    by (intro member_le_sum_list) (auto simp: weight_nonneg)
  then show ?thesis using x(2) weight_pos_iff [of x] by linarith
qed

lemma lsoftmax_nth: "t < length row \<Longrightarrow> lsoftmax row ! t = weight (row ! t) / sum_list (map weight row)"
  by (simp add: lsoftmax_def)

lemma lsoftmax_pos_iff: "alive row \<Longrightarrow> t < length row \<Longrightarrow> 0 < lsoftmax row ! t \<longleftrightarrow> \<not> dead row t"
  using total_weight_pos [of row] by (simp add: lsoftmax_nth zero_less_divide_iff weight_pos_iff dead_def)

lemma sum_lsoftmax: "alive row \<Longrightarrow> sum_list (lsoftmax row) = 1"
proof -
  assume "alive row"
  have "sum_list (map (\<lambda>x. weight x / c) row) = sum_list (map weight row) / c" for c
    by (induction row) (simp_all add: add_divide_distrib)
  then show ?thesis using total_weight_pos [OF \<open>alive row\<close>] by (simp add: lsoftmax_def)
qed

text \<open>The race of the exponential noise never ends at a token without probability.\<close>

lemma random_sample_finite:
  assumes "alive row" and "length q = length row" and "\<forall>x \<in> set q. 0 < x"
  shows "argmax (map2 (/) (lsoftmax row) q) < length row" and "\<not> dead row (argmax (map2 (/) (lsoftmax row) q))"
proof -
  let ?xs = "map2 (/) (lsoftmax row) q"
  let ?a = "argmax ?xs"
  from assms(1) obtain t where t: "t < length row" "\<not> dead row t" by (auto simp: alive_def)
  then have ne: "?xs \<noteq> []" using assms(2) by (auto simp flip: length_greater_0_conv)
  from argmax_nth(1) [OF ne] show a: "?a < length row" using assms(2) by simp
  have q: "0 < q ! j" if "j < length row" for j using assms that by simp
  have "0 < ?xs ! t" using t q assms by (simp add: lsoftmax_pos_iff)
  also have "?xs ! t \<le> ?xs ! ?a" using t assms(2) by (intro argmax_ge nth_mem) simp
  also have "?xs ! ?a = lsoftmax row ! ?a / q ! ?a" using a assms(2) by simp
  finally show "\<not> dead row ?a" using a q [OF a] assms(1) by (simp add: zero_less_divide_iff lsoftmax_pos_iff)
qed

section \<open>Top-k and top-p keep the greatest logit\<close>

text \<open>A sorting permutation, as \<open>torch.sort\<close> returns one.\<close>

definition sorts :: "nat list \<Rightarrow> logits \<Rightarrow> bool" where
  "sorts idx row \<longleftrightarrow> mset idx = mset [0..<length row] \<and> sorted (map ((!) row) idx)"

lemma sortsD:
  assumes "sorts idx row"
  shows "length idx = length row" and "distinct idx" and "set idx = {..<length row}" and "map ((!) row) idx = sort row"
proof -
  from assms have m: "mset idx = mset [0..<length row]" and srt: "sorted (map ((!) row) idx)" by (simp_all add: sorts_def)
  show "length idx = length row" "distinct idx" "set idx = {..<length row}"
    using m by (rule length_mset_upt distinct_mset_upt set_mset_upt)+
  have "mset (map ((!) row) idx) = mset (map ((!) row) [0..<length row])" using m by (metis mset_map)
  also have "\<dots> = mset row" by (simp only: map_nth)
  finally show "map ((!) row) idx = sort row" using srt by (metis properties_for_sort)
qed

lemma length_writes [simp]: "length (fold (\<lambda>(i, x) row. row[i := x]) ps row) = length row"
  by (induction ps arbitrary: row) auto

lemma writes_other: "j \<notin> fst ` set ps \<Longrightarrow> fold (\<lambda>(i, x) row. row[i := x]) ps row ! j = row ! j"
  by (induction ps arbitrary: row) (auto simp: case_prod_beta)

lemma writes_nth:
  "distinct (map fst ps) \<Longrightarrow> (j, x) \<in> set ps \<Longrightarrow> j < length row \<Longrightarrow> fold (\<lambda>(i, x) row. row[i := x]) ps row ! j = x"
proof (induction ps arbitrary: row)
  case (Cons p ps)
  then show ?case by (cases "p = (j, x)") (auto simp: case_prod_beta writes_other [unfolded case_prod_beta])
qed simp

lemma length_scatter_row [simp]: "length (scatter_row idx src) = length src"
  by (simp add: scatter_row_def)

lemma scatter_row_nth:
  assumes "distinct idx" and "length idx = length src" and "set idx \<subseteq> {..<length src}" and "j < length src"
  shows "scatter_row idx src ! (idx ! j) = src ! j"
  unfolding scatter_row_def
proof (rule writes_nth)
  show "(idx ! j, src ! j) \<in> set (zip idx src)" using assms by (auto simp: set_zip)
  have "idx ! j \<in> set idx" using assms by simp
  then show "idx ! j < length src" using assms(3) by blast
qed (simp add: assms)

text \<open>Changing the sorted row and scattering it is changing the row.\<close>

lemma scatter_row_inverse:
  assumes "sorts idx row" and "length row' = length row"
  shows "scatter_row idx (map ((!) row') idx) = row'"
proof (rule nth_equalityI)
  note d = sortsD [OF assms(1)]
  show "length (scatter_row idx (map ((!) row') idx)) = length row'" using d assms(2) by simp
  fix t assume "t < length (scatter_row idx (map ((!) row') idx))"
  then have "t \<in> set idx" using d by simp
  then obtain j where j: "j < length idx" "t = idx ! j" by (auto simp: in_set_conv_nth)
  then show "scatter_row idx (map ((!) row') idx) ! t = row' ! t" using d by (simp add: scatter_row_nth)
qed

lemma mask_below_thins:
  assumes "cutoff \<in> set row \<or> cutoff = None"
  shows "thins row (mask_below cutoff row)"
proof -
  have "alive (mask_below cutoff row)" if "alive row"
  proof -
    have "cutoff \<le> row ! argmax row" using assms argmax_ge [of cutoff row] by auto
    then show ?thesis
      using greatest_finite [OF that] unfolding alive_def
      by (intro exI [of _ "argmax row"]) (auto simp: dead_def mask_below_def)
  qed
  then show ?thesis by (simp add: thins_def) (simp add: dead_def mask_below_def)
qed

lemma top_k_only_thins:
  assumes "apply_top_k_only ks l = Inr l'" and "length ks = length l" and "i < length l"
  shows "thins (l ! i) (l' ! i)"
proof -
  have cutoff: "rev (sort row) ! nat (k - 1) \<in> set row" if "1 \<le> k" "k \<le> int (length row)" for k and row :: logits
    using nth_mem [of "nat (k - 1)" "rev (sort row)"] that by simp
  have "list_all2 (\<lambda>(k, row) y. thins row y) (zip ks l) l'"
    using assms(1) unfolding apply_top_k_only_def
    by (auto simp: Let_def rmap_Inr_iff elim!: list_all2_mono split: if_splits intro!: mask_below_thins cutoff)
  from list_all2_nthD [OF this, of i] show ?thesis using assms by simp
qed

text \<open>Masking the sorted row from below is masking the row, which the same permutation sorts.\<close>

lemma length_mask_below [simp]: "length (mask_below c row) = length row"
  by (simp add: mask_below_def)

lemma mask_below_map_nth:
  assumes "sorts idx row"
  shows "mask_below c (map ((!) row) idx) = map ((!) (mask_below c row)) idx"
  using sortsD(3) [OF assms] by (auto simp: mask_below_def)

lemma sorts_mask_below:
  assumes "sorts idx row"
  shows "sorts idx (mask_below c row)"
proof -
  have "sorted (map ((!) row) idx)" using assms by (simp add: sorts_def)
  then have "sorted (mask_below c (map ((!) row) idx))"
    unfolding mask_below_def sorted_iff_nth_mono by (auto dest: order_le_less_trans)
  then show ?thesis using assms by (simp add: sorts_def mask_below_map_nth [OF assms])
qed

definition top_k_cutoff :: "int option \<Rightarrow> logits \<Rightarrow> real option \<Rightarrow> bool" where
  "top_k_cutoff k row c \<longleftrightarrow> (case k of None \<Rightarrow> c = None | Some k \<Rightarrow> 1 \<le> k \<and> k \<le> int (length row) \<and> c = sort row ! nat (int (length row) - k))"

lemma top_k_cutoff_mem: "top_k_cutoff k row c \<Longrightarrow> c \<in> set row \<or> c = None"
  using nth_mem [of "nat (int (length row) - the k)" "sort row"] by (auto simp: top_k_cutoff_def split: option.splits)

lemma mask_below_None [simp]: "mask_below None row = row"
  by (simp add: mask_below_def)

lemma top_k_top_p_row_Inr:
  assumes "sorts (argsort row) row"
  shows "top_k_top_p_row argsort k p row = Inr row' \<longleftrightarrow>
    (\<exists>c. top_k_cutoff k row c \<and> row' = scatter_row (argsort row) (top_p_sorted p (map ((!) (mask_below c row)) (argsort row))))"
  using sortsD(1,4) [OF assms]
  by (cases k) (auto simp: top_k_top_p_row_def top_k_cutoff_def top_k_sorted_def Let_def mask_below_map_nth [OF assms, symmetric])

lemma length_top_p_sorted [simp]: "length (top_p_sorted p srt) = length srt"
  by (simp add: top_p_sorted_def top_p_mask_def)

lemma top_p_sorted_nth:
  "j < length srt \<Longrightarrow> top_p_sorted p srt ! j = (if cumsum (lsoftmax srt) ! j \<le> 1 - p \<and> j \<noteq> length srt - 1 then None else srt ! j)"
  by (simp add: top_p_sorted_def top_p_mask_def nth_enumerate_eq)

lemma top_p_thins:
  assumes "sorts idx row"
  shows "thins row (scatter_row idx (top_p_sorted p (map ((!) row) idx)))"
    (is "thins row ?out")
proof -
  note d = sortsD [OF assms]
  have out: "?out ! (idx ! j) = top_p_sorted p (map ((!) row) idx) ! j" if "j < length row" for j
    using that d by (intro scatter_row_nth) auto
  have "alive ?out" if "alive row"
  proof -
    let ?j = "length row - 1"
    have a: "argmax row < length row" and fin: "\<not> dead row (argmax row)" using greatest_finite [OF that] by simp_all
    then have j: "?j < length row" by linarith
    have "argmax row \<in> set idx" using a by (simp only: d(3) lessThan_iff)
    then obtain i where i: "i < length row" "argmax row = idx ! i" by (metis in_set_conv_nth d(1))
    have "map ((!) row) idx ! i \<le> map ((!) row) idx ! ?j"
    proof (rule sorted_nth_mono)
      show "sorted (map ((!) row) idx)" using assms by (simp add: sorts_def)
    qed (use i(1) d(1) in simp_all)
    then have "row ! argmax row \<le> row ! (idx ! ?j)" using i(1) j by (simp add: d(1) i(2))
    then have "\<not> dead ?out (idx ! ?j)"
      using fin out [OF j] j d(1) by (cases "row ! (idx ! ?j)") (auto simp: dead_def top_p_sorted_nth)
    moreover have "idx ! ?j < length row" using d j nth_mem [of ?j idx] by auto
    ultimately show ?thesis using d(1) by (auto simp: alive_def)
  qed
  moreover have "dead ?out t" if "t < length row" "dead row t" for t
  proof -
    from that d obtain j where "j < length row" "t = idx ! j" by (metis in_set_conv_nth lessThan_iff)
    then show ?thesis using that out [of j] d(1) by (auto simp: dead_def top_p_sorted_nth)
  qed
  ultimately show ?thesis using d(1) by (simp add: thins_def)
qed

lemma apply_top_k_top_p_thins:
  assumes ok: "apply_top_k_top_p argsort k p l = Inr l'" and srt: "\<And>row. sorts (argsort row) row" and i: "i < length l"
    and len: "\<And>ks. k = Some ks \<Longrightarrow> length ks = length l" "\<And>ps. p = Some ps \<Longrightarrow> length ps = length l"
  shows "thins (l ! i) (l' ! i)"
proof (cases p)
  case None
  then show ?thesis using ok i len by (cases k) (auto simp: apply_top_k_top_p_def thins_refl intro: top_k_only_thins)
next
  case (Some ps)
  have row: "thins row row'" if "top_k_top_p_row argsort k p row = Inr row'" for k p row row'
    using that by (auto simp: top_k_top_p_row_Inr [OF srt]
      intro: thins_trans [OF mask_below_thins [OF top_k_cutoff_mem] top_p_thins [OF sorts_mask_below [OF srt]]])
  let ?k = "case k of None \<Rightarrow> map (\<lambda>_. None) l | Some ks \<Rightarrow> map Some ks"
  have "length ?k = length l" using len(1) by (cases k) simp_all
  moreover have "list_all2 (\<lambda>(k, p, row) y. top_k_top_p_row argsort k (of_rat p) row = Inr y) (zip ?k (zip ps l)) l'"
    using ok Some by (simp add: apply_top_k_top_p_def rmap_Inr_iff case_prod_unfold)
  ultimately have "top_k_top_p_row argsort (?k ! i) (of_rat (ps ! i)) (l ! i) = Inr (l' ! i)"
    using i len(2) [OF Some] by (auto dest: list_all2_nthD [of _ _ _ i])
  then show ?thesis by (rule row)
qed

lemma length_apply_top_k_top_p:
  assumes "apply_top_k_top_p argsort k p l = Inr l'"
    and "\<And>ks. k = Some ks \<Longrightarrow> length ks = length l" "\<And>ps. p = Some ps \<Longrightarrow> length ps = length l"
  shows "length l' = length l"
  using assms by (cases k; cases p) (auto simp: apply_top_k_top_p_def apply_top_k_only_def dest!: length_rmap split: if_splits)

lemma min_p_thins:
  assumes "m \<le> 1"
  shows "thins row (min_p_row m row)"
proof -
  have "argmax (lsoftmax row) < length row \<and> \<not> dead (min_p_row m row) (argmax (lsoftmax row))" if al: "alive row"
  proof -
    have ne: "lsoftmax row \<noteq> []" using al by (auto simp: alive_def lsoftmax_def)
    let ?a = "argmax (lsoftmax row)"
    note a = argmax_nth [OF ne]
    obtain t where t: "t < length row" "\<not> dead row t" using al by (auto simp: alive_def)
    then have "0 < lsoftmax row ! t" using al by (simp add: lsoftmax_pos_iff)
    also have "\<dots> \<le> lsoftmax row ! ?a" using t by (intro argmax_ge nth_mem) simp
    finally have pos: "0 < lsoftmax row ! ?a" .
    then have "m * Max (set (lsoftmax row)) \<le> lsoftmax row ! ?a"
      using assms mult_right_mono [of m 1 "lsoftmax row ! ?a"] a(2) by simp
    then show ?thesis
      using a(1) pos al by (simp add: min_p_row_def dead_def Let_def lsoftmax_pos_iff [unfolded dead_def])
  qed
  then show ?thesis by (rule thinsI [rotated 2]) (simp_all add: dead_def min_p_row_def Let_def)
qed

lemma scaled_thins:
  assumes md: "md_shaped n v outputs md" and t: "md_temperature md = Some temp" and l: "length l = n" and i: "i < n"
  shows "thins (l ! i) ((case md_min_p md of None \<Rightarrow> apply_temperature temp l | Some mp \<Rightarrow> apply_min_p mp (apply_temperature temp l)) ! i)"
proof -
  have len: "length temp = n" using md t by (simp add: md_shaped_def)
  have temp: "apply_temperature temp l ! i = map (map_option (\<lambda>x. x / of_rat (temp ! i))) (l ! i)"
    using l i len by (simp add: apply_temperature_def)
  have 1: "thins (l ! i) (apply_temperature temp l ! i)" using greatest_finite [of "l ! i"] by (intro thinsI [of _ _ "argmax (l ! i)"]) (simp_all add: temp dead_def)
  show ?thesis
  proof (cases "md_min_p md")
    case None
    then show ?thesis using 1 by simp
  next
    case (Some mp)
    then have mp: "length mp = n" "\<forall>x \<in> set mp. x \<le> 1" using md by (simp_all add: md_shaped_def)
    then have "apply_min_p mp (apply_temperature temp l) ! i = min_p_row (of_rat (mp ! i)) (apply_temperature temp l ! i)"
      using l i len by (simp add: apply_min_p_def apply_temperature_def)
    moreover have "real_of_rat (mp ! i) \<le> 1" using mp i by simp
    ultimately show ?thesis using Some thins_trans [OF 1 min_p_thins] by simp
  qed
qed

lemma forward_native_finite:
  assumes ok: "forward_native argsort noise (md_top_k md) (md_top_p md) sc = Inr r" and md: "md_shaped n v outputs md" and sc: "length sc = n"
    and srt: "\<And>row. sorts (argsort row) row" and noise: "shaped n v noise" "\<forall>q \<in> set noise. \<forall>x \<in> set q. 0 < x"
    and i: "i < n" and thins: "thins row (sc ! i)" and row: "alive row" "length row = v"
  shows "length r = n \<and> r ! i < v \<and> \<not> dead row (r ! i)"
proof -
  from ok obtain l' where l': "apply_top_k_top_p argsort (md_top_k md) (md_top_p md) sc = Inr l'" and r: "r = random_sample noise (map lsoftmax l')"
    by (auto simp: forward_native_def)
  have len: "\<And>ks. md_top_k md = Some ks \<Longrightarrow> length ks = length sc" "\<And>ps. md_top_p md = Some ps \<Longrightarrow> length ps = length sc"
    using md sc by (auto simp: md_shaped_def)
  note n = length_apply_top_k_top_p [OF l' len]
  have "thins (sc ! i) (l' ! i)" using l' srt len i sc by (intro apply_top_k_top_p_thins) auto
  with thins have th: "thins row (l' ! i)" by (rule thins_trans)
  then have al: "alive (l' ! i)" and v: "length (l' ! i) = v" using row by (simp_all add: thins_def)
  have q: "length (noise ! i) = length (l' ! i)" "\<forall>x \<in> set (noise ! i). 0 < x" using noise i v by (auto simp: shaped_def)
  have "r ! i = argmax (map2 (/) (lsoftmax (l' ! i)) (noise ! i))"
    using r i n sc noise(1) by (simp add: random_sample_def shaped_def)
  moreover have "length r = n" using r n sc noise(1) by (simp add: random_sample_def shaped_def)
  ultimately show ?thesis using random_sample_finite [OF al q] th v row(2) by (auto simp: thins_def)
qed

text \<open>Every row with a finite logit gets a token with a finite logit, greedily or by the race.\<close>

lemma sample_finite:
  assumes ok: "sample argsort noise md l = Inr ts" and md: "md_shaped n v outputs md" and l: "shaped n v l"
    and srt: "\<And>row. sorts (argsort row) row" and noise: "shaped n v noise" "\<forall>q \<in> set noise. \<forall>x \<in> set q. 0 < x"
    and i: "i < n" "alive (l ! i)"
  shows "length ts = n \<and> ts ! i < v \<and> \<not> dead (l ! i) (ts ! i)"
proof -
  have ll: "length l = n" "length (l ! i) = v" using l i by (auto simp: shaped_iff)
  have greedy: "length (greedy_sample l) = n \<and> greedy_sample l ! i < v \<and> \<not> dead (l ! i) (greedy_sample l ! i)"
    using greatest_finite [OF i(2)] ll i(1) by (simp add: greedy_sample_def)
  show ?thesis
  proof (cases "\<not> all_random md \<and> all_greedy md")
    case True
    then show ?thesis using ok greedy by (simp add: sample_def)
  next
    case False
    then obtain temp r where t: "md_temperature md = Some temp"
      and r: "forward_native argsort noise (md_top_k md) (md_top_p md)
        (case md_min_p md of None \<Rightarrow> apply_temperature temp l | Some mp \<Rightarrow> apply_min_p mp (apply_temperature temp l)) = Inr r"
      and ts: "ts = (if all_random md then r else map2 (\<lambda>t (g, r). if t < 1 / 10 ^ 5 then g else r) temp (zip (greedy_sample l) r))"
      using ok by (auto simp: sample_def Let_def split: if_splits option.splits)
    have temp: "length temp = n" using md t by (simp add: md_shaped_def)
    have sc: "length (case md_min_p md of None \<Rightarrow> apply_temperature temp l | Some mp \<Rightarrow> apply_min_p mp (apply_temperature temp l)) = n"
      using md temp ll by (auto simp: md_shaped_def apply_temperature_def apply_min_p_def split: option.splits)
    have "length r = n \<and> r ! i < v \<and> \<not> dead (l ! i) (r ! i)"
      using r md sc srt noise i(1) scaled_thins [OF md t ll(1) i(1)] i(2) ll(2) by (rule forward_native_finite)
    then show ?thesis using ts temp greedy i(1) by simp
  qed
qed

section \<open>The nucleus\<close>

lemma cumsum_from_nth: "j < length xs \<Longrightarrow> cumsum_from a xs ! j = a + sum_list (take (Suc j) xs)"
proof (induction xs arbitrary: a j)
  case (Cons x xs)
  then show ?case by (cases j) (simp_all add: add.assoc)
qed simp

lemma cumsum_nth_sum: "j < length xs \<Longrightarrow> cumsum xs ! j = (\<Sum>i \<le> j. xs ! i :: real)"
  by (simp add: cumsum_from_nth sum_list_sum_nth lessThan_Suc_atMost atLeast0LessThan min_absorb2 del: take_Suc)

text \<open>The tokens that keep a finite logit, and the probability of a set of tokens.\<close>

definition kept :: "logits \<Rightarrow> nat set" where
  "kept row = {t. t < length row \<and> \<not> dead row t}"

definition mass :: "logits \<Rightarrow> nat set \<Rightarrow> real" where
  "mass row A = (\<Sum>t \<in> A. lsoftmax row ! t)"

text \<open>
  \<open>row'\<close> keeps a nucleus of \<open>row\<close>: logits that are at least as great as those it drops, with a mass of at least \<open>p\<close>, and with less than \<open>p\<close>
  after removing any of them.
\<close>

definition nucleus :: "real \<Rightarrow> logits \<Rightarrow> logits \<Rightarrow> bool" where
  "nucleus p row row' \<longleftrightarrow> length row' = length row \<and> (\<forall>t \<in> kept row'. row' ! t = row ! t)
     \<and> (\<forall>t \<in> kept row'. \<forall>u < length row. u \<notin> kept row' \<longrightarrow> row ! u \<le> row ! t)
     \<and> p \<le> mass row (kept row') \<and> (\<forall>t \<in> kept row'. mass row (kept row' - {t}) < p)"

lemma weight_mono: "x \<le> y \<Longrightarrow> weight x \<le> weight y"
  by (cases x; cases y) (simp_all add: weight_def)

lemma total_weight_nonneg: "0 \<le> sum_list (map weight row)"
  by (rule sum_list_nonneg) (auto simp: weight_nonneg)

lemma lsoftmax_mono: "i < length row \<Longrightarrow> j < length row \<Longrightarrow> row ! i \<le> row ! j \<Longrightarrow> lsoftmax row ! i \<le> lsoftmax row ! j"
  by (simp add: lsoftmax_nth divide_right_mono weight_mono total_weight_nonneg)

lemma lsoftmax_nonneg: "t < length row \<Longrightarrow> 0 \<le> lsoftmax row ! t"
  by (simp add: lsoftmax_nth total_weight_nonneg weight_nonneg)

lemma lsoftmax_sorted:
  assumes "sorts idx row" and "j < length row"
  shows "lsoftmax (map ((!) row) idx) ! j = lsoftmax row ! (idx ! j)"
proof -
  note d = sortsD [OF assms(1)]
  have "sum_list (map weight (sort row)) = sum_list (map weight row)"
    by (simp flip: sum_mset_sum_list)
  moreover have "idx ! j < length row" using d(1,3) assms(2) nth_mem [of j idx] by simp
  ultimately show ?thesis using assms(2) d(1) by (simp add: lsoftmax_nth flip: d(4))
qed

text \<open>The tail of a sorted row that the comparison with \<open>1 - p\<close> keeps.\<close>

lemma top_p_tail:
  fixes q :: "nat \<Rightarrow> real"
  assumes n: "0 < n" and q: "\<And>j. j < n \<Longrightarrow> 0 \<le> q j" and total: "(\<Sum>j < n. q j) = 1" and p: "0 < p" "p \<le> 1"
  obtains d where "d < n" and "\<And>j. j < n \<Longrightarrow> (\<Sum>i \<le> j. q i) \<le> 1 - p \<and> j \<noteq> n - 1 \<longleftrightarrow> j < d"
    and "p \<le> (\<Sum>j \<in> {d..<n}. q j)" and "(\<Sum>j \<in> {d..<n}. q j) - q d < p"
proof -
  let ?m = "\<lambda>j. (\<Sum>i \<le> j. q i) \<le> 1 - p \<and> j \<noteq> n - 1"
  define d where "d = (LEAST j. \<not> ?m j)"
  have last: "\<not> ?m (n - 1)" by simp
  have d: "\<not> ?m d" unfolding d_def by (rule LeastI [of _ "n - 1"]) simp
  have below: "?m j" if "j < d" for j using not_less_Least [of j "\<lambda>j. \<not> ?m j"] that unfolding d_def by blast
  have "d \<le> n - 1" unfolding d_def by (rule Least_le) simp
  then have dn: "d < n" using n by simp
  have mono: "(\<Sum>i \<le> d. q i) \<le> (\<Sum>i \<le> j. q i)" if "d \<le> j" "j < n" for j
    using that q by (intro sum_mono2) auto
  have above: "\<not> ?m j" if "d \<le> j" "j < n" for j
    using mono [OF that] d that dn by (auto simp: not_le)
  have split: "(\<Sum>j < n. q j) = (\<Sum>j < d. q j) + (\<Sum>j \<in> {d..<n}. q j)"
    using dn by (metis atLeast0LessThan less_imp_le_nat sum.atLeastLessThan_concat zero_le)
  have low: "(\<Sum>j < d. q j) \<le> 1 - p"
  proof (cases d)
    case (Suc k)
    then show ?thesis using below [of k] by (simp add: lessThan_Suc_atMost)
  qed (use p in simp)
  have "(\<Sum>j < d. q j) + q d > 1 - p"
  proof (cases "d = n - 1")
    case True
    then have "{d..<n} = {d}" using n by auto
    then show ?thesis using split total p by simp
  next
    case False
    then show ?thesis using d by (simp add: lessThan_Suc_atMost [symmetric])
  qed
  with low split total have "p \<le> (\<Sum>j \<in> {d..<n}. q j)" and "(\<Sum>j \<in> {d..<n}. q j) - q d < p" by linarith+
  moreover have "?m j \<longleftrightarrow> j < d" if "j < n" for j using below above that by (cases "j < d") auto
  ultimately show ?thesis using that [of d] dn by blast
qed

lemma sorts_nth: "sorts idx row \<Longrightarrow> j < length row \<Longrightarrow> idx ! j < length row"
  using sortsD(1,3) [of idx row] nth_mem [of j idx] by simp

lemma sum_sorted:
  assumes srt: "sorts idx row" and "A \<subseteq> {..<length row}"
  shows "(\<Sum>j \<in> A. lsoftmax row ! (idx ! j)) = mass row ((!) idx ` A)"
proof -
  note d = sortsD [OF srt]
  have "inj_on ((!) idx) A" using assms(2) by (intro inj_on_nth [OF d(2)]) (auto simp: d(1))
  then show ?thesis unfolding mass_def by (simp add: sum.reindex)
qed

text \<open>Top-p keeps a tail of the sorted row.\<close>

lemma top_p_scatter:
  assumes srt: "sorts idx row" and al: "alive row" and p: "0 < p" "p \<le> 1"
  obtains k where "k < length row"
    and "\<And>j. j < length row \<Longrightarrow> scatter_row idx (top_p_sorted p (map ((!) row) idx)) ! (idx ! j) = (if j < k then None else row ! (idx ! j))"
    and "p \<le> (\<Sum>j \<in> {k..<length row}. lsoftmax row ! (idx ! j))"
    and "(\<Sum>j \<in> {k..<length row}. lsoftmax row ! (idx ! j)) - lsoftmax row ! (idx ! k) < p"
proof -
  note d = sortsD [OF srt]
  let ?n = "length row" and ?out = "scatter_row idx (top_p_sorted p (map ((!) row) idx))"
  let ?q = "\<lambda>j. lsoftmax row ! (idx ! j)"
  have n: "0 < ?n" using al by (auto simp: alive_def)
  have "(!) idx ` {..<?n} = {..<?n}" using bij_betw_nth [OF d(2) refl refl] unfolding bij_betw_def d(1,3) by simp
  then have "(\<Sum>j < ?n. ?q j) = sum_list (lsoftmax row)"
    by (simp add: sum_sorted [OF srt] mass_def sum_list_sum_nth atLeast0LessThan)
  then have total: "(\<Sum>j < ?n. ?q j) = 1" using sum_lsoftmax [OF al] by simp
  obtain k where k: "k < ?n" and masked: "\<And>j. j < ?n \<Longrightarrow> (\<Sum>i \<le> j. ?q i) \<le> 1 - p \<and> j \<noteq> ?n - 1 \<longleftrightarrow> j < k"
    and big: "p \<le> (\<Sum>j \<in> {k..<?n}. ?q j)" and small: "(\<Sum>j \<in> {k..<?n}. ?q j) - ?q k < p"
    using top_p_tail [of ?n ?q p] n lsoftmax_nonneg [OF sorts_nth [OF srt]] total p by blast
  have "?out ! (idx ! j) = (if j < k then None else row ! (idx ! j))" if "j < ?n" for j
  proof -
    have "cumsum (lsoftmax (map ((!) row) idx)) ! j = (\<Sum>i \<le> j. ?q i)"
      using that d(1) lsoftmax_sorted [OF srt] by (simp add: cumsum_nth_sum)
    then show ?thesis using that d(1-3) masked [OF that] by (simp add: scatter_row_nth top_p_sorted_nth)
  qed
  then show ?thesis using that k big small by blast
qed

lemma nucleus_top_p:
  assumes srt: "sorts idx row" and al: "alive row" and p: "0 < p" "p \<le> 1"
  shows "nucleus p row (scatter_row idx (top_p_sorted p (map ((!) row) idx)))" (is "nucleus p row ?out")
proof -
  note d = sortsD [OF srt] and idx = sorts_nth [OF srt]
  let ?n = "length row" and ?q = "\<lambda>j. lsoftmax row ! (idx ! j)"
  obtain k where k: "k < ?n" and out: "\<And>j. j < ?n \<Longrightarrow> ?out ! (idx ! j) = (if j < k then None else row ! (idx ! j))"
    and big: "p \<le> (\<Sum>j \<in> {k..<?n}. ?q j)" and small: "(\<Sum>j \<in> {k..<?n}. ?q j) - ?q k < p"
    using top_p_scatter [OF assms] by blast
  have le: "row ! (idx ! i) \<le> row ! (idx ! j)" if "i \<le> j" "j < ?n" for i j
    using srt sorted_nth_mono [of "map ((!) row) idx" i j] that d(1) by (simp add: sorts_def)
  have fin: "\<not> dead row (idx ! j)" if "k \<le> j" "j < ?n" for j
  proof -
    have "0 < ?q k" using big small by linarith
    then have "0 < ?q j" using lsoftmax_mono [OF idx [OF k] idx le] that by fastforce
    then show ?thesis using lsoftmax_pos_iff [OF al idx] that by blast
  qed
  have K: "kept ?out = (!) idx ` {k..<?n}"
  proof (rule set_eqI)
    fix t
    show "t \<in> kept ?out \<longleftrightarrow> t \<in> (!) idx ` {k..<?n}"
    proof (cases "t < ?n")
      case True
      then obtain j where j: "j < ?n" "t = idx ! j" by (metis d(1,3) in_set_conv_nth lessThan_iff)
      have "t \<in> (!) idx ` {k..<?n} \<longleftrightarrow> k \<le> j" using j d(1,2) by (auto simp: nth_eq_iff_index_eq)
      then show ?thesis using j out [OF j(1)] fin [OF _ j(1)] True d(1) by (auto simp: kept_def dead_def)
    qed (use idx d(1) in \<open>auto simp: kept_def\<close>)
  qed
  have mK: "mass row (kept ?out) = (\<Sum>j \<in> {k..<?n}. ?q j)" unfolding K by (rule sum_sorted [OF srt, symmetric]) auto
  show ?thesis
    unfolding nucleus_def
  proof (intro conjI ballI allI impI)
    fix t assume t: "t \<in> kept ?out"
    then obtain j where j: "k \<le> j" "j < ?n" "t = idx ! j" by (auto simp: K)
    then show "?out ! t = row ! t" by (simp add: out)
    have "?q k \<le> lsoftmax row ! t" using lsoftmax_mono [OF idx [OF k] idx le] j by simp
    moreover have "mass row (kept ?out - {t}) = mass row (kept ?out) - lsoftmax row ! t"
      using t by (simp add: mass_def sum_diff1 kept_def)
    ultimately show "mass row (kept ?out - {t}) < p" using small mK by linarith
    fix u assume u: "u < ?n" "u \<notin> kept ?out"
    then obtain i where "i < ?n" "u = idx ! i" by (metis d(1,3) in_set_conv_nth lessThan_iff)
    with u j show "row ! u \<le> row ! t" by (auto simp: K intro!: le)
  qed (use big mK d(1) in simp_all)
qed

section \<open>The two top-k routines\<close>

lemma top_p_one:
  assumes "sorts idx row"
  shows "top_p_sorted 1 (map ((!) row) idx) = map ((!) row) idx"
proof (rule nth_equalityI)
  note d = sortsD [OF assms]
  let ?s = "map ((!) row) idx"
  fix j assume "j < length (top_p_sorted 1 ?s)"
  then have j: "j < length ?s" by simp
  have "?s ! j = None" if c: "cumsum (lsoftmax ?s) ! j \<le> 0"
  proof (cases "alive ?s")
    case True
    have "lsoftmax ?s ! j \<le> (\<Sum>i \<le> j. lsoftmax ?s ! i)"
      using j by (intro member_le_sum) (auto simp: lsoftmax_nonneg)
    then have "\<not> 0 < lsoftmax ?s ! j" using c j by (simp add: cumsum_nth_sum)
    then show ?thesis using lsoftmax_pos_iff [OF True j] by (simp add: dead_def)
  qed (use j in \<open>auto simp: alive_def dead_def\<close>)
  then show "top_p_sorted 1 ?s ! j = ?s ! j" using j by (simp add: top_p_sorted_nth)
qed simp

lemma top_k_row_equal:
  assumes srt: "sorts (argsort row) row"
  shows "top_k_top_p_row argsort (Some k) 1 row =
    (if 1 \<le> k \<and> k \<le> int (length row) then Inr (mask_below (sort row ! nat (int (length row) - k)) row) else Inl RuntimeError)"
  using sortsD(1,4) [OF srt]
  by (simp add: top_k_top_p_row_def top_k_sorted_def Let_def mask_below_map_nth [OF srt] top_p_one [OF sorts_mask_below [OF srt]]
      scatter_row_inverse [OF srt] flip: sortsD(4) [OF srt])

text \<open>The cut-off found by \<open>torch.topk\<close>. A \<open>k\<close> of the size of the vocabulary disables it.\<close>

lemma mask_below_least: "row \<noteq> [] \<Longrightarrow> mask_below (sort row ! 0) row = row"
proof -
  assume "row \<noteq> []"
  have "\<not> x < sort row ! 0" if "x \<in> set row" for x
  proof -
    from that obtain j where "j < length row" "sort row ! j = x" by (metis in_set_conv_nth length_sort set_sort)
    then show ?thesis using sorted_nth_mono [OF sorted_sort, of 0 j row] by auto
  qed
  then show ?thesis by (simp add: mask_below_def map_idI)
qed

lemma topk_cutoff_row:
  assumes "1 \<le> k" and "k \<le> int (length row)"
  shows "mask_below (if k = int (length row) then None else rev (sort row) ! nat ((if k = int (length row) then 1 else k) - 1)) row
    = mask_below (sort row ! nat (int (length row) - k)) row"
proof (cases "k = int (length row)")
  case True
  then have "row \<noteq> []" using assms by auto
  then show ?thesis using True by (simp add: mask_below_least)
next
  case False
  have "length row - Suc (nat (k - 1)) = nat (int (length row) - k)" using assms by linarith
  then show ?thesis using assms False by (simp add: rev_nth)
qed

lemma apply_top_k_only_rows:
  assumes "ks \<noteq> []"
  shows "apply_top_k_only ks l = rmap (\<lambda>(k, row). if 1 \<le> k \<and> k \<le> int (length row)
    then Inr (mask_below (sort row ! nat (int (length row) - k)) row) else Inl RuntimeError) (zip ks l)"
proof -
  have "(let no_top_k = (k = int (length row)); k = (if no_top_k then 1 else k)
      in if 1 \<le> k \<and> k \<le> int (length row)
         then Inr (mask_below (if no_top_k then None else rev (sort row) ! nat (k - 1)) row) else Inl RuntimeError)
    = (if 1 \<le> k \<and> k \<le> int (length row) then Inr (mask_below (sort row ! nat (int (length row) - k)) row) else Inl RuntimeError)"
    for k :: int and row :: logits
    using topk_cutoff_row [of k row] by (auto simp: Let_def)
  then show ?thesis using assms by (simp add: apply_top_k_only_def)
qed

lemma top_k_sorted_rows:
  assumes "\<And>row. sorts (argsort row) row" and "length ks = length l"
  shows "apply_top_k_top_p argsort (Some ks) (Some (replicate (length l) 1)) l = rmap (\<lambda>(k, row). if 1 \<le> k \<and> k \<le> int (length row)
    then Inr (mask_below (sort row ! nat (int (length row) - k)) row) else Inl RuntimeError) (zip ks l)"
  using assms(2) unfolding apply_top_k_top_p_def option.case
proof (induction ks l rule: list_induct2)
  case (Cons k ks row l)
  then show ?case by (simp add: top_k_row_equal [OF assms(1)] cong: if_cong)
qed simp

text \<open>The TPU routine compares probabilities. For top-k alone it removes the same tokens.\<close>

lemma weight_less_iff: "weight x < weight y \<longleftrightarrow> x < y"
  by (cases x; cases y) (simp_all add: weight_def not_less less_imp_le)

lemma sort_lsoftmax: "sort (lsoftmax row) = map (\<lambda>x. weight x / sum_list (map weight row)) (sort row)"
proof (rule properties_for_sort)
  show "sorted (map (\<lambda>x. weight x / sum_list (map weight row)) (sort row))"
    using sorted_sort [of row] by (auto simp: sorted_iff_nth_mono intro!: divide_right_mono weight_mono total_weight_nonneg)
qed (simp add: lsoftmax_def)

lemma tpu_top_k_equal:
  assumes "alive row" and "1 \<le> k" and "k \<le> int (length row)"
  shows "top_k_top_p_tpu_row (Some k) None row = Inr (mask_below (sort row ! nat (int (length row) - k)) row)"
proof (cases "k = int (length row)")
  case True
  then have "row \<noteq> []" using assms by auto
  then show ?thesis using True assms by (simp add: top_k_top_p_tpu_row_def mask_below_least Let_def)
next
  case False
  have "map2 (\<lambda>q x. if q < sort (lsoftmax row) ! nat (int (length row) - k) then None else x) (lsoftmax row) row
      = mask_below (sort row ! nat (int (length row) - k)) row"
    using assms total_weight_pos [OF assms(1)] unfolding sort_lsoftmax
    by (intro nth_equalityI) (simp_all add: mask_below_def lsoftmax_nth divide_less_cancel weight_less_iff)
  then show ?thesis using False assms by (simp add: top_k_top_p_tpu_row_def Let_def)
qed

text \<open>
  With both options the routines differ: the TPU routine sums the probabilities of all tokens, the sorting one those of the top-k tokens. For weights 2, 3
  and 5, top-k 2 and top-p 0.6 the one keeps two tokens and the other one.
\<close>

lemma tpu_top_k_top_p_differs:
  defines "row \<equiv> [Some (ln 2), Some (ln 3), Some (ln 5)]"
  shows "top_k_top_p_tpu_row (Some 2) (Some (6 / 10)) row = Inr [None, Some (ln 3), Some (ln 5)]"
    and "top_k_top_p_row (\<lambda>row. sort_key ((!) row) [0..<length row]) (Some 2) (6 / 10) row = Inr [None, None, Some (ln 5)]"
  unfolding row_def
  by (simp_all add: top_k_top_p_tpu_row_def top_k_top_p_row_def Let_def lsoftmax_def weight_def top_k_sorted_def mask_below_def top_p_sorted_def
      top_p_mask_def scatter_row_def)

section \<open>Claims\<close>

lemma excluded_never_sampled_rows:
  assumes ok: "sampler_forward argsort topk noise outputs md logits = Inr out"
    and shapes: "shaped n v logits" "md_shaped n v outputs md" "shaped n v noise"
    and noise: "\<forall>q \<in> set noise. \<forall>x \<in> set q. 0 < x" and srt: "\<And>row. sorts (argsort row) row"
    and i: "i < n" and free: "\<exists>t < v. logits ! i ! t \<noteq> None \<and> \<not> excluded md outputs v i t"
  shows "length (so_sampled_token_ids out) = n
    \<and> (\<exists>t < v. so_sampled_token_ids out ! i = [t] \<and> logits ! i ! t \<noteq> None \<and> \<not> excluded md outputs v i t)"
proof -
  from ok obtain l' ts where l': "process_logits outputs md logits = Inr l'" and ts: "sample argsort noise md l' = Inr ts"
    and out: "so_sampled_token_ids out = map (\<lambda>t. [t]) ts"
    by (auto simp: sampler_forward_def)
  note m = process_logits_masks [OF l' shapes(1,2)]
  have iff: "dead (l' ! i) t \<longleftrightarrow> logits ! i ! t = None \<or> excluded md outputs v i t" if "t < v" for t
    using m i that by (simp add: masks_def dead_def)
  have "alive (l' ! i)" using free iff shaped_nth [OF masks_shaped [OF m] i] by (auto simp: alive_def)
  from sample_finite [OF ts shapes(2) masks_shaped [OF m] srt shapes(3) noise i this] show ?thesis
    using iff i by (auto simp: out)
qed

text \<open>
  C28. The sampler returns one token per request. When some token of a row has a finite logit and is not excluded, the sampled token has a finite logit and is
  not excluded: it is allowed, completes no bad word, and is no stop token before the minimal number of tokens. This holds for greedy and random rows,
  whatever the biases, penalties, the top-k, top-p and min-p cut-offs and the positive noise are.
\<close>

theorem excluded_never_sampled:
  assumes ok: "sampler_forward argsort topk noise outputs md logits = Inr out"
    and shapes: "shaped n v logits" "md_shaped n v outputs md" "shaped n v noise"
    and noise: "\<forall>q \<in> set noise. \<forall>x \<in> set q. 0 < x" and srt: "\<And>row. sorts (argsort row) row"
    and i: "i < n" and free: "\<exists>t < v. logits ! i ! t \<noteq> None \<and> \<not> excluded md outputs v i t"
  shows "length (so_sampled_token_ids out) = n
    \<and> (\<exists>t < v. so_sampled_token_ids out ! i = [t] \<and> logits ! i ! t \<noteq> None \<and> \<not> excluded md outputs v i t)"
  using assms by (rule excluded_never_sampled_rows)

definition example_metadata :: sampling_metadata where
  "example_metadata = \<lparr>md_temperature = None, all_greedy = True, all_random = False, md_top_p = None, md_top_k = None, md_min_p = None,
     md_generators = Arr [] None, max_num_logprobs = None, md_prompt_token_ids = None, md_penalties = None, md_output_token_ids = [Some ''r''],
     md_min_tokens = Arr [Some (3, [1])] None, md_logit_bias = [None], md_allowed_mask = Some [[True, False, False, False]],
     md_bad_words = Arr [Some [[5, 2]]] None\<rparr>"

theorem excluded_never_sampled_witness:
  "\<exists>t < 4. so_sampled_token_ids \<lparr>so_sampled_token_ids = [[3]], so_logprobs_tensors = None\<rparr> ! 0 = [t] \<and> [[Some 4, Some 3, Some 2, Some (1 :: real)]] ! 0 ! t \<noteq> None
     \<and> \<not> excluded example_metadata [[5]] 4 0 t"
proof -
  have ok: "sampler_forward (\<lambda>row. sort_key ((!) row) [0..<length row]) (\<lambda>_ _. []) [[1, 1, 1, 1]] [[5]] example_metadata [[Some 4, Some 3, Some 2, Some 1]]
      = Inr \<lparr>so_sampled_token_ids = [[3]], so_logprobs_tensors = None\<rparr>"
    by (simp add: example_metadata_def sampler_forward_def process_logits_def apply_allowed_token_ids_def arr_items_def aget_def apply_bad_words_def
        apply_bad_words_single_batch_def bad_word_applies_def on_row_def exclude_def apply_logits_bias_def apply_penalties_def
        apply_min_token_penalties_def sample_def greedy_sample_def argmax_def Let_def)
  have sh: "shaped 1 4 [[Some 4, Some 3, Some 2, Some (1 :: real)]]" "md_shaped 1 4 [[5]] example_metadata" "shaped 1 4 [[1, 1, 1, 1 :: real]]"
    by (simp_all add: shaped_def md_shaped_def example_metadata_def)
  have free: "\<exists>t < 4. [[Some 4, Some 3, Some 2, Some (1 :: real)]] ! 0 ! t \<noteq> None \<and> \<not> excluded example_metadata [[5]] 4 0 t"
    by (intro exI [of _ 3]) (simp add: excluded_def example_metadata_def arr_items_def aget_def wrap_index_def)
  have noise: "\<forall>q \<in> set [[1, 1, 1, 1]]. \<forall>x \<in> set q. 0 < (x :: real)" by simp
  have srt: "sorts (sort_key ((!) row) [0..<length row]) row" for row by (simp add: sorts_def)
  show ?thesis using excluded_never_sampled [OF ok sh noise srt _ free] by simp
qed

text \<open>
  C17. For requests with a top-k the routine without sorting computes exactly what the sorting routine computes with a top-p of one, errors included; and
  with a top-p the sorting routine keeps in every row a nucleus of the top-k logits: tokens with at least the mass \<open>p\<close> after renormalising, no less
  likely than those it drops, and none of which can be left out.
\<close>

theorem top_k_top_p_spec:
  assumes srt: "\<And>row. sorts (argsort row) row" and ks: "length ks = length l" "l \<noteq> []"
  shows "apply_top_k_top_p argsort (Some ks) None l = apply_top_k_top_p argsort (Some ks) (Some (replicate (length l) 1)) l
    \<and> (\<forall>ps l'. apply_top_k_top_p argsort (Some ks) (Some ps) l = Inr l' \<and> length ps = length l \<longrightarrow>
        (\<forall>i < length l. 0 < ps ! i \<and> ps ! i \<le> 1 \<and> alive (l ! i) \<longrightarrow>
          nucleus (of_rat (ps ! i)) (mask_below (sort (l ! i) ! nat (int (length (l ! i)) - ks ! i)) (l ! i)) (l' ! i)))"
proof (intro conjI allI impI; (elim conjE)?)
  have "ks \<noteq> []" using ks by auto
  then show "apply_top_k_top_p argsort (Some ks) None l = apply_top_k_top_p argsort (Some ks) (Some (replicate (length l) 1)) l"
    by (simp add: top_k_sorted_rows [OF srt ks(1)] apply_top_k_only_rows apply_top_k_top_p_def [of _ _ None])
next
  fix ps l' i
  assume ok: "apply_top_k_top_p argsort (Some ks) (Some ps) l = Inr l'" and len: "length ps = length l" and i: "i < length l"
    and p: "0 < ps ! i" "ps ! i \<le> 1" and al: "alive (l ! i)"
  have "list_all2 (\<lambda>(k, p, row) y. top_k_top_p_row argsort k (of_rat p) row = Inr y) (zip (map Some ks) (zip ps l)) l'"
    using ok by (simp add: apply_top_k_top_p_def rmap_Inr_iff case_prod_unfold)
  then have "top_k_top_p_row argsort (Some (ks ! i)) (of_rat (ps ! i)) (l ! i) = Inr (l' ! i)"
    using i len ks(1) by (auto dest: list_all2_nthD [of _ _ _ i])
  then obtain c where c: "top_k_cutoff (Some (ks ! i)) (l ! i) c"
    and l': "l' ! i = scatter_row (argsort (l ! i)) (top_p_sorted (of_rat (ps ! i)) (map ((!) (mask_below c (l ! i))) (argsort (l ! i))))"
    unfolding top_k_top_p_row_Inr [OF srt] by blast
  have "alive (mask_below c (l ! i))" using mask_below_thins [OF top_k_cutoff_mem [OF c]] al by (simp add: thins_def)
  then have "nucleus (of_rat (ps ! i)) (mask_below c (l ! i)) (l' ! i)"
    unfolding l' using p by (intro nucleus_top_p sorts_mask_below srt) simp_all
  moreover have "c = sort (l ! i) ! nat (int (length (l ! i)) - ks ! i)" using c by (simp add: top_k_cutoff_def)
  ultimately show "nucleus (of_rat (ps ! i)) (mask_below (sort (l ! i) ! nat (int (length (l ! i)) - ks ! i)) (l ! i)) (l' ! i)" by simp
qed

theorem top_k_top_p_spec_witness:
  "apply_top_k_top_p (\<lambda>row. sort_key ((!) row) [0..<length row]) (Some [2]) None [[Some 1, Some 5, None, Some 3]] = Inr [[None, Some 5, None, Some 3]]
   \<and> apply_top_k_top_p (\<lambda>row. sort_key ((!) row) [0..<length row]) (Some [2]) (Some [1]) [[Some 1, Some 5, None, Some 3]] = Inr [[None, Some 5, None, Some 3]]"
proof -
  have srt: "sorts (sort_key ((!) row) [0..<length row]) row" for row by (simp add: sorts_def)
  have "apply_top_k_top_p (\<lambda>row. sort_key ((!) row) [0..<length row]) (Some [2]) None [[Some 1, Some 5, None, Some 3]] = Inr [[None, Some 5, None, Some 3]]"
    by (simp add: apply_top_k_top_p_def apply_top_k_only_def mask_below_def)
  then show ?thesis using top_k_top_p_spec [OF srt, of "[2]" "[[Some 1, Some 5, None, Some 3]]"] by simp
qed

end
