(* ===== verification/Prepare_Inputs.thy ===== *)
theory Prepare_Inputs
  imports Model_Runner Torch_Functional
begin

text \<open>
  \<open>GPUModelRunner._prepare_inputs\<close> of \<open>vllm/v1/worker/gpu_model_runner.py\<close>, with \<open>_calc_spec_decode_metadata\<close>, \<open>_compute_cascade_attn_prefix_len\<close>
  and the heuristic \<open>use_cascade_attention\<close> of the flash attention backend: the flat arrays of one step are computed from the persistent batch.

  \<open>arange\<close> is the size of the array \<open>arange_np\<close>, \<open>buffer\<close> the old contents of the persistent array of input ids. Positions of M-RoPE models and LoRA adapters are left out.
  The code stores slots in an array of 32-bit integers (\<open>slot_mapping_np\<close>); the model does not wrap them, which is the same while the number of blocks times the block size,
  which bounds every slot, is below \<open>2^31\<close>.
  \<open>flat f ns\<close> is the array that has the entries \<open>f r 0, \<dots>, f r (ns ! r - 1)\<close> for every request \<open>r\<close>; the lemmas show that the numpy arithmetic of the
  code computes such arrays.
\<close>

section \<open>Numpy operations\<close>

text \<open>An elementwise operation. An array with one entry is broadcast.\<close>

definition np2 :: "('a \<Rightarrow> 'b \<Rightarrow> 'c) \<Rightarrow> 'a list \<Rightarrow> 'b list \<Rightarrow> 'c list result" where
  "np2 f xs ys =
     (if length xs = length ys then Inr (map2 f xs ys)
      else if length xs = 1 then Inr (map (f (hd xs)) ys)
      else if length ys = 1 then Inr (map (\<lambda>x. f x (hd ys)) xs)
      else Inl ValueError)"

definition np_repeat :: "'a list \<Rightarrow> int list \<Rightarrow> 'a list result" where
  "np_repeat xs ns =
     (if \<exists>n \<in> set ns. n < 0 then Inl ValueError
      else if length ns = length xs then Inr (concat (map2 (\<lambda>x n. replicate (nat n) x) xs ns))
      else if length ns = 1 then Inr (concat (map (replicate (nat (hd ns))) xs))
      else Inl ValueError)"

definition np_arange :: "nat \<Rightarrow> int \<Rightarrow> int list" where
  "np_arange n stop = py_islice 0 stop (map int [0..<n])"

text \<open>Indexing with an array of indices, and the entry of a flattened matrix of \<open>m\<close> rows with \<open>k\<close> columns.\<close>

definition np_index :: "'a list \<Rightarrow> int list \<Rightarrow> 'a list result" where
  "np_index xs is = rmap (py_iget xs) is"

definition flat_get :: "nat \<Rightarrow> nat \<Rightarrow> (nat \<Rightarrow> 'a list) \<Rightarrow> int \<Rightarrow> 'a result" where
  "flat_get m k rows i =
     (if 0 \<le> i \<and> i < int (m * k) then Inr (rows (nat i div k) ! (nat i mod k)) else Inl IndexError)"

definition flat_iget :: "nat \<Rightarrow> nat \<Rightarrow> (nat \<Rightarrow> 'a list) \<Rightarrow> int \<Rightarrow> 'a result" where
  "flat_iget m k rows i = flat_get m k rows (if i < 0 then i + int (m * k) else i)"

section \<open>Draft tokens\<close>

record spec_decode_metadata =
  sd_draft_token_ids :: "int list"
  sd_num_draft_tokens :: "int list"
  sd_cu_num_draft_tokens :: "int list"
  target_logits_indices :: "int list"
  bonus_logits_indices :: "int list"
  sd_logits_indices :: "int list"
  max_spec_len :: int

definition py_last :: "'a list \<Rightarrow> 'a result" where
  "py_last xs = (if xs = [] then Inl IndexError else Inr (last xs))"

definition calc_spec_decode_metadata :: "nat \<Rightarrow> int list \<Rightarrow> int list \<Rightarrow> int list \<Rightarrow> spec_decode_metadata result" where
  "calc_spec_decode_metadata arange input_ids drafts_per_req cu_num_scheduled_tokens =
     (let num_sampled_tokens = map (\<lambda>n. n + 1) drafts_per_req;
          cu_num_sampled_tokens = cumsum num_sampled_tokens
      in rbind (py_last cu_num_sampled_tokens) (\<lambda>total_num_sampled_tokens.
         rbind (np2 (-) cu_num_sampled_tokens num_sampled_tokens) (\<lambda>starts.
         rbind (np_repeat starts num_sampled_tokens) (\<lambda>cumsums_offsets.
         rbind (np2 (-) (np_arange arange total_num_sampled_tokens) cumsums_offsets) (\<lambda>batched.
         rbind (np2 (-) cu_num_scheduled_tokens num_sampled_tokens) (\<lambda>firsts.
         rbind (np_repeat firsts num_sampled_tokens) (\<lambda>logits_indices.
         rbind (np2 (+) logits_indices batched) (\<lambda>logits_indices.
         let bonus = map (\<lambda>c. c - 1) cu_num_sampled_tokens;
             cu_num_draft_tokens = cumsum drafts_per_req
         in rbind (py_last cu_num_draft_tokens) (\<lambda>total_num_draft_tokens.
            rbind (np2 (-) cu_num_draft_tokens drafts_per_req) (\<lambda>draft_starts.
            rbind (np_repeat draft_starts drafts_per_req) (\<lambda>cumsums_offsets.
            rbind (np2 (-) (np_arange arange total_num_draft_tokens) cumsums_offsets) (\<lambda>batched.
            rbind (np_repeat starts drafts_per_req) (\<lambda>target.
            rbind (np2 (+) target batched) (\<lambda>target.
            rbind (np_index input_ids logits_indices) (\<lambda>sampled_ids.
            rbind (np_index sampled_ids (map (\<lambda>i. i + 1) target)) (\<lambda>draft_token_ids.
              Inr \<lparr>sd_draft_token_ids = draft_token_ids, sd_num_draft_tokens = drafts_per_req, sd_cu_num_draft_tokens = cu_num_draft_tokens,
                   target_logits_indices = target, bonus_logits_indices = bonus, sd_logits_indices = logits_indices,
                   max_spec_len = Max (set drafts_per_req)\<rparr>))))))))))))))))"

section \<open>Cascade attention\<close>

text \<open>\<open>use_cascade_attention\<close> of \<open>v1/attention/backends/flash_attn.py\<close>.\<close>

definition use_cascade_attention :: "int \<Rightarrow> int \<Rightarrow> bool \<Rightarrow> bool \<Rightarrow> int \<Rightarrow> int \<Rightarrow> int list \<Rightarrow> bool" where
  "use_cascade_attention num_query_heads num_kv_heads use_alibi use_sliding_window num_sms common_prefix_len query_lens =
     (if common_prefix_len < 256 then False
      else if use_alibi \<or> use_sliding_window then False
      else let n = int (length query_lens)
      in if n < 8 then False
         else let num_queries_per_kv = num_query_heads div num_kv_heads;
                  use_flash_decoding = (num_queries_per_kv > 1 \<and> \<not> use_sliding_window \<and> \<not> use_alibi \<and> (\<forall>q \<in> set query_lens. q = 1))
         in if \<not> use_flash_decoding then True
            else let num_prefix_tiles = cdiv common_prefix_len 128;
                     cascade_ctas = num_query_heads * cdiv n 128;
                     cascade_time = cdiv cascade_ctas num_sms * num_prefix_tiles;
                     flash_decoding_ctas = n * num_kv_heads * cdiv num_queries_per_kv 128 * num_prefix_tiles;
                     flash_decoding_time = cdiv flash_decoding_ctas num_sms
                 in cascade_time < flash_decoding_time)"

text \<open>The backend's \<open>use_cascade_attention\<close> is an argument.\<close>

definition compute_cascade_attn_prefix_len :: "(int \<Rightarrow> int list \<Rightarrow> bool) \<Rightarrow> nat \<Rightarrow> input_batch \<Rightarrow> int list \<Rightarrow> nat \<Rightarrow> int" where
  "compute_cascade_attn_prefix_len use_cascade bs b query_lens shared_blocks =
     (let common_prefix_len = shared_blocks * bs
      in if common_prefix_len = 0 then 0
         else let common_prefix_len = min (int common_prefix_len) (Min ((\<lambda>i. row_num_computed_tokens (ib_rows b i)) ` {..<length query_lens}));
                  common_prefix_len = common_prefix_len div int bs * int bs
              in if use_cascade common_prefix_len query_lens then common_prefix_len else 0)"

section \<open>The inputs of a step\<close>

record step_inputs =
  in_positions :: "int list"
  in_input_ids :: "int list"
  in_slot_mapping :: "int list"
  query_start_loc :: "int list"
  seq_lens :: "int list"
  max_query_len :: int
  common_prefix_len :: int
  in_logits_indices :: "int list"
  in_spec_decode :: "spec_decode_metadata option"

definition scheduled_tokens_of :: "scheduler_output \<Rightarrow> string option \<Rightarrow> int result" where
  "scheduled_tokens_of so r = (case r of None \<Rightarrow> Inl KeyError
     | Some rid \<Rightarrow> (case map_of (out_num_scheduled_tokens so) rid of None \<Rightarrow> Inl KeyError | Some n \<Rightarrow> Inr n))"

definition draft_counts :: "input_batch \<Rightarrow> (string \<times> int list) list \<Rightarrow> int list result" where
  "draft_counts b spec =
     rfold (\<lambda>(rid, drafts) counts. case map_of (req_id_to_index b) rid of None \<Rightarrow> Inl KeyError
       | Some i \<Rightarrow> py_set counts i (int (length drafts))) spec (replicate (num_reqs b) 0)"

definition prepare_inputs ::
  "(int \<Rightarrow> int list \<Rightarrow> bool) option \<Rightarrow> nat \<Rightarrow> nat \<Rightarrow> int list \<Rightarrow> nat \<Rightarrow> scheduler_output \<Rightarrow> input_batch \<Rightarrow> (step_inputs \<times> input_batch) result" where
  "prepare_inputs cascade bs arange buffer max_len so b =
     (let total = total_num_scheduled_tokens so
      in if \<not> 0 < total then Inl AssertionError
      else if \<not> 0 < num_reqs b then Inl AssertionError
      else let b = b\<lparr>ib_block_table := bt_commit (num_reqs b) (ib_block_table b)\<rparr>;
               computed = (\<lambda>r. row_num_computed_tokens (ib_rows b (nat r)));
               t = ib_block_table b
      in rbind (rmap (scheduled_tokens_of so) (ib_req_ids b)) (\<lambda>tokens.
         rbind (np_repeat (np_arange arange (int (num_reqs b))) tokens) (\<lambda>req_indices.
         let cu_num_tokens = cumsum tokens
         in rbind (np2 (-) cu_num_tokens tokens) (\<lambda>starts.
         rbind (np_repeat starts tokens) (\<lambda>cumsums_offsets.
         rbind (np2 (-) (np_arange arange total) cumsums_offsets) (\<lambda>batched.
         rbind (np2 (+) (map computed req_indices) batched) (\<lambda>positions.
         if int (length positions) \<noteq> min total (int (length buffer)) then Inl ValueError
         else rbind (np2 (\<lambda>p r. p + r * int max_len) positions req_indices) (\<lambda>token_indices.
         rbind (rmap (flat_get (ib_max_num_reqs b) max_len (\<lambda>i. row_token_ids (ib_rows b i))) token_indices) (\<lambda>input_ids.
         rbind (np2 (\<lambda>r p. r * int (max_num_blocks_per_req t) + p div int bs) req_indices positions) (\<lambda>block_table_indices.
         rbind (rmap (flat_iget (bt_max_num_reqs t) (max_num_blocks_per_req t) (bt_np t)) block_table_indices) (\<lambda>block_numbers.
         rbind (np2 (\<lambda>n p. int n * int bs + p mod int bs) block_numbers positions) (\<lambda>slot_mapping.
         let spec = out_spec_decode_tokens so
         in rbind (if spec = [] then Inr (map (\<lambda>c. c - 1) cu_num_tokens, None)
               else rbind (draft_counts b spec) (\<lambda>drafts_per_req.
                    rbind (calc_spec_decode_metadata arange (input_ids @ drop (length input_ids) buffer) drafts_per_req cu_num_tokens) (\<lambda>md. Inr (sd_logits_indices md, Some md))))
            (\<lambda>(logits_indices, md).
            Inr (\<lparr>in_positions = positions, in_input_ids = input_ids, in_slot_mapping = slot_mapping, query_start_loc = 0 # cu_num_tokens,
                  seq_lens = map2 (+) (map computed (map int [0..<num_reqs b])) tokens, max_query_len = Max (set tokens),
                  common_prefix_len = (case cascade of None \<Rightarrow> 0
                    | Some uc \<Rightarrow> compute_cascade_attn_prefix_len uc bs b tokens (num_common_prefix_blocks so)),
                  in_logits_indices = logits_indices, in_spec_decode = md\<rparr>, b))))))))))))))"

section \<open>Flat arrays\<close>

definition off :: "nat list \<Rightarrow> nat \<Rightarrow> nat" where
  "off ns r = sum_list (take r ns)"

definition flat :: "(nat \<Rightarrow> nat \<Rightarrow> 'a) \<Rightarrow> nat list \<Rightarrow> 'a list" where
  "flat f ns = concat (map (\<lambda>r. map (f r) [0..<ns ! r]) [0..<length ns])"

named_theorems flat_simps \<open>numpy arithmetic on flat arrays\<close>

lemma flat_Nil [simp]: "flat f [] = []"
  by (simp add: flat_def)

lemma flat_cong: "(\<And>r j. r < length ns \<Longrightarrow> j < ns ! r \<Longrightarrow> f r j = g r j) \<Longrightarrow> flat f ns = flat g ns"
  by (auto simp: flat_def intro!: arg_cong [where f = concat])

lemma flat_snoc: "flat f (ns @ [n]) = flat f ns @ map (f (length ns)) [0..<n]"
proof -
  have "map (\<lambda>r. map (f r) [0..<(ns @ [n]) ! r]) [0..<length ns] = map (\<lambda>r. map (f r) [0..<ns ! r]) [0..<length ns]"
    by (simp add: nth_append)
  then show ?thesis unfolding flat_def length_append_singleton upt_Suc_append [OF le0] map_append concat_append by (simp del: map_eq_conv)
qed

lemma map_flat [flat_simps]: "map g (flat f ns) = flat (\<lambda>r j. g (f r j)) ns"
  by (simp add: flat_def map_concat comp_def)

lemma length_flat [simp]: "length (flat f ns) = sum_list ns"
  by (induction ns rule: rev_induct) (simp_all add: flat_snoc)

lemma map2_flat [flat_simps]: "map2 g (flat f ns) (flat h ns) = flat (\<lambda>r j. g (f r j) (h r j)) ns"
  by (induction ns rule: rev_induct) (simp_all add: flat_snoc map2_map_map)

lemma off_le: "r < length ns \<Longrightarrow> off ns r + ns ! r \<le> sum_list ns"
  by (induction ns arbitrary: r) (auto simp: off_def take_Cons' nth_Cons' split: if_splits)

lemma off_snoc: "r \<le> length ns \<Longrightarrow> off (ns @ [n]) r = off ns r"
  by (simp add: off_def)

lemma off_length [simp]: "off ns (length ns) = sum_list ns"
  by (simp add: off_def)

lemma off_Suc: "r < length ns \<Longrightarrow> off ns (Suc r) = off ns r + ns ! r"
  by (simp add: off_def take_Suc_conv_app_nth)

lemma flat_nth:
  "r < length ns \<Longrightarrow> j < ns ! r \<Longrightarrow> flat f ns ! (off ns r + j) = f r j"
proof (induction ns rule: rev_induct)
  case (snoc n ns)
  show ?case
  proof (cases "r = length ns")
    case True
    then show ?thesis using snoc.prems by (simp add: flat_snoc off_snoc nth_append)
  next
    case False
    then have "r < length ns" "j < ns ! r" using snoc.prems by (simp_all add: nth_append split: if_splits)
    then show ?thesis using snoc.IH off_le [of r ns] by (simp add: flat_snoc off_snoc nth_append)
  qed
qed simp

lemma upt_flat: "[0..<sum_list ns] = flat (\<lambda>r j. off ns r + j) ns"
proof (induction ns rule: rev_induct)
  case (snoc n ns)
  have "flat (\<lambda>r j. off (ns @ [n]) r + j) ns = flat (\<lambda>r j. off ns r + j) ns" by (rule flat_cong) (simp add: off_snoc)
  moreover have "[0..<sum_list ns + n] = [0..<sum_list ns] @ map (\<lambda>j. sum_list ns + j) [0..<n]"
    using upt_add_eq_append [of 0 "sum_list ns" n] map_add_upt [of "sum_list ns" n] by (simp add: add.commute)
  ultimately show ?case using snoc by (simp add: flat_snoc off_snoc)
qed simp

lemma repeat_flat: "length xs = length ns \<Longrightarrow> concat (map2 (\<lambda>x n. replicate n x) xs ns) = flat (\<lambda>r j. xs ! r) ns"
proof (induction xs ns rule: rev_induct2)
  case (4 x xs n ns)
  have "flat (\<lambda>r j. (xs @ [x]) ! r) ns = flat (\<lambda>r j. xs ! r) ns" using 4 by (intro flat_cong) (simp add: nth_append)
  moreover have "(xs @ [x]) ! length ns = x" using 4 by (metis nth_append_length length_append_singleton Suc_inject)
  ultimately show ?case using 4 by (simp add: flat_snoc map_replicate_const)
qed simp_all

lemma cumsum_off: "cumsum (map int ns) = map (\<lambda>r. int (off ns (Suc r))) [0..<length ns]"
proof -
  have "cumsum_from (int a) (map int ns) = map (\<lambda>r. int (a + off ns (Suc r))) [0..<length ns]" for a
  proof (induction ns arbitrary: a)
    case (Cons n ns)
    show ?case using Cons [of "a + n"] by (simp add: off_def upt_conv_Cons map_Suc_upt [symmetric] del: upt_Suc map_Suc_upt)
  qed simp
  from this [of 0] show ?thesis by simp
qed

section \<open>The batched arithmetic\<close>

lemma np_repeat_flat [flat_simps]: "length xs = length ns \<Longrightarrow> np_repeat xs (map int ns) = Inr (flat (\<lambda>r j. xs ! r) ns)"
  by (simp add: np_repeat_def repeat_flat [symmetric] zip_map2 comp_def split_def)

lemma np2_flat [flat_simps]: "np2 g (flat f ns) (flat h ns) = Inr (flat (\<lambda>r j. g (f r j) (h r j)) ns)"
  by (simp add: np2_def map2_flat)

lemma np_arange_flat: "sum_list ns \<le> a \<Longrightarrow> np_arange a (int (sum_list ns)) = flat (\<lambda>r j. int (off ns r + j)) ns"
  by (simp add: np_arange_def py_islice_def py_bound_def py_slice_def take_map upt_flat map_flat)

lemma starts_flat [flat_simps]: "np2 (-) (cumsum (map int ns)) (map int ns) = Inr (map (\<lambda>r. int (off ns r)) [0..<length ns])"
  by (simp add: np2_def cumsum_off) (auto simp: off_Suc intro!: nth_equalityI)

text \<open>As the comment says: the concatenation of \<open>arange(n)\<close> for all requests.\<close>

lemma batched_arange [flat_simps]:
  "sum_list ns \<le> a \<Longrightarrow> np2 (-) (np_arange a (int (sum_list ns))) (flat (\<lambda>r j. int (off ns r)) ns) = Inr (flat (\<lambda>r j. int j) ns)"
  by (simp add: np_arange_flat np2_flat)

lemma rmap_flat: "(\<And>r j. r < length ns \<Longrightarrow> j < ns ! r \<Longrightarrow> h (f r j) = Inr (g r j)) \<Longrightarrow> rmap h (flat f ns) = Inr (flat g ns)"
proof (induction ns rule: rev_induct)
  case (snoc n ns)
  then have "rmap h (flat f ns) = Inr (flat g ns)" by (simp add: nth_append)
  moreover have "rmap h (map (f (length ns)) [0..<n]) = Inr (map (g (length ns)) [0..<n])"
    using snoc.prems [of "length ns"] by (simp add: rmap_Inr_iff list_all2_conv_all_nth)
  ultimately show ?case by (auto simp: flat_snoc rmap_Inr_iff intro: list_all2_appendI)
qed simp

lemma np_repeat_map [flat_simps]: "length ns = n \<Longrightarrow> np_repeat (map f [0..<n]) (map int ns) = Inr (flat (\<lambda>r j. f r) ns)"
proof -
  assume n: "length ns = n"
  have "np_repeat (map f [0..<n]) (map int ns) = Inr (flat (\<lambda>r j. map f [0..<n] ! r) ns)" using n by (intro np_repeat_flat) simp
  also have "flat (\<lambda>r j. map f [0..<n] ! r) ns = flat (\<lambda>r j. f r) ns" using n by (intro flat_cong) simp
  finally show ?thesis .
qed

lemma py_last_cumsum [flat_simps]: "ns \<noteq> [] \<Longrightarrow> py_last (cumsum (map int ns)) = Inr (int (sum_list ns))"
proof -
  assume ns: "ns \<noteq> []"
  then have "last (map (\<lambda>r. int (off ns (Suc r))) [0..<length ns]) = int (off ns (length ns))"
    by (simp add: last_map)
  then show ?thesis using ns by (simp add: py_last_def cumsum_off)
qed

lemma firsts_flat:
  assumes len: "length ds = length ns" and ds: "\<And>r. r < length ns \<Longrightarrow> ds ! r < ns ! r"
  shows "np2 (-) (cumsum (map int ns)) (map int (map Suc ds)) = Inr (map (\<lambda>r. int (off ns r + ns ! r - Suc (ds ! r))) [0..<length ns])"
proof -
  have "map2 (-) (cumsum (map int ns)) (map int (map Suc ds)) = map (\<lambda>r. int (off ns r + ns ! r - Suc (ds ! r))) [0..<length ns]"
  proof (rule nth_equalityI)
    fix r assume "r < length (map2 (-) (cumsum (map int ns)) (map int (map Suc ds)))"
    then have r: "r < length ns" using len by simp
    then show "map2 (-) (cumsum (map int ns)) (map int (map Suc ds)) ! r = map (\<lambda>r. int (off ns r + ns ! r - Suc (ds ! r))) [0..<length ns] ! r"
      using len ds [OF r] by (simp add: cumsum_off off_Suc of_nat_diff)
  qed (simp add: len)
  then show ?thesis using len by (simp add: np2_def)
qed

text \<open>
  The rows of the logits: the last \<open>ds ! r + 1\<close> scheduled tokens of request \<open>r\<close>. The draft tokens follow the first of them.
\<close>

lemma calc_spec_decode_metadata_flat:
  assumes len: "length ds = length ns" "ns \<noteq> []" and ds: "\<And>r. r < length ns \<Longrightarrow> ds ! r < ns ! r"
    and buf: "sum_list (map Suc ds) \<le> a" "sum_list ns \<le> length ids"
  shows "calc_spec_decode_metadata a ids (map int ds) (cumsum (map int ns)) =
    Inr \<lparr>sd_draft_token_ids = flat (\<lambda>r j. ids ! (off ns r + ns ! r - ds ! r + j)) ds, sd_num_draft_tokens = map int ds,
         sd_cu_num_draft_tokens = cumsum (map int ds), target_logits_indices = flat (\<lambda>r j. int (off (map Suc ds) r + j)) ds,
         bonus_logits_indices = map (\<lambda>r. int (off (map Suc ds) r + ds ! r)) [0..<length ds],
         sd_logits_indices = flat (\<lambda>r j. int (off ns r + ns ! r - Suc (ds ! r) + j)) (map Suc ds),
         max_spec_len = Max (int ` set ds)\<rparr>"
proof -
  let ?S = "map Suc ds"
  have S: "map (\<lambda>n. n + 1) (map int ds) = map int ?S" by simp
  have ne: "ds \<noteq> []" "?S \<noteq> []" using len by auto
  have buf': "sum_list ds \<le> a" using buf(1) sum_list_mono [of ds "\<lambda>n. n" Suc] by simp
  have firsts: "np2 (-) (cumsum (map int ns)) (map int ?S) = Inr (map (\<lambda>r. int (off ns r + ns ! r - Suc (ds ! r))) [0..<length ns])"
    using ds by (rule firsts_flat [OF len(1)])
  have idx: "flat (\<lambda>r j. int (off ns r + ns ! r - Suc (ds ! r)) + int j) ?S = flat (\<lambda>r j. int (off ns r + ns ! r - Suc (ds ! r) + j)) ?S"
    by (rule flat_cong) simp
  have tgt: "flat (\<lambda>r j. int (off ?S r) + int j) ds = flat (\<lambda>r j. int (off ?S r + j)) ds" by (rule flat_cong) simp
  have ids: "np_index ids (flat (\<lambda>r j. int (off ns r + ns ! r - Suc (ds ! r) + j)) ?S) = Inr (flat (\<lambda>r j. ids ! (off ns r + ns ! r - Suc (ds ! r) + j)) ?S)"
    unfolding np_index_def
  proof (rule rmap_flat)
    fix r j assume r: "r < length ?S" "j < ?S ! r"
    then have "off ns r + ns ! r - Suc (ds ! r) + j < length ids" using off_le [of r ns] ds [of r] buf(2) len by simp
    then show "py_iget ids (int (off ns r + ns ! r - Suc (ds ! r) + j)) = Inr (ids ! (off ns r + ns ! r - Suc (ds ! r) + j))" by (rule py_iget_nat)
  qed
  have drafts: "np_index (flat (\<lambda>r j. ids ! (off ns r + ns ! r - Suc (ds ! r) + j)) ?S) (map (\<lambda>i. i + 1) (flat (\<lambda>r j. int (off ?S r + j)) ds))
      = Inr (flat (\<lambda>r j. ids ! (off ns r + ns ! r - ds ! r + j)) ds)"
    unfolding np_index_def map_flat
  proof (rule rmap_flat)
    fix r j assume r: "r < length ds" "j < ds ! r"
    then have "flat (\<lambda>r j. ids ! (off ns r + ns ! r - Suc (ds ! r) + j)) ?S ! (off ?S r + Suc j) = ids ! (off ns r + ns ! r - Suc (ds ! r) + Suc j)"
      by (intro flat_nth) simp_all
    moreover have "off ns r + ns ! r - Suc (ds ! r) + Suc j = off ns r + ns ! r - ds ! r + j" using ds [of r] r len by simp
    moreover have "off ?S r + Suc j < length (flat (\<lambda>r j. ids ! (off ns r + ns ! r - Suc (ds ! r) + j)) ?S)" using off_le [of r ?S] r by simp
    moreover have e: "int (off ?S r + j) + 1 = int (off ?S r + Suc j)" by simp
    ultimately show "py_iget (flat (\<lambda>r j. ids ! (off ns r + ns ! r - Suc (ds ! r) + j)) ?S) (int (off ?S r + j) + 1) = Inr (ids ! (off ns r + ns ! r - ds ! r + j))"
      unfolding e by (simp only: py_iget_nat)
  qed
  have bonus: "map (\<lambda>c. c - 1) (cumsum (map int ?S)) = map (\<lambda>r. int (off ?S r + ds ! r)) [0..<length ds]"
    unfolding cumsum_off by (simp add: off_Suc)
  have L: "length ?S = length ds" and L': "length ?S = length ns" using len by simp_all
  show ?thesis
    unfolding calc_spec_decode_metadata_def Let_def S py_last_cumsum [OF ne(2)] py_last_cumsum [OF ne(1)] starts_flat firsts rbind_simps L
      np_repeat_map [OF L] np_repeat_map [OF refl] np_repeat_map [OF L'] batched_arange [OF buf(1)] batched_arange [OF buf'] np2_flat idx tgt ids drafts bonus
    by simp
qed

section \<open>The inputs are those of the scheduled tokens\<close>

text \<open>The position of the \<open>j\<close>-th scheduled token of row \<open>r\<close>, and the slot of the KV cache for a position.\<close>

definition token_pos :: "input_batch \<Rightarrow> nat \<Rightarrow> nat \<Rightarrow> nat" where
  "token_pos b r j = nat (row_num_computed_tokens (ib_rows b r)) + j"

definition kv_slot :: "nat \<Rightarrow> input_batch \<Rightarrow> nat \<Rightarrow> nat \<Rightarrow> nat" where
  "kv_slot bs b r p = bt_np (ib_block_table b) r ! (p div bs) * bs + p mod bs"

text \<open>
  What the step relies on: every row belongs to a scheduled request, with \<open>ns ! r\<close> tokens of which \<open>ds ! r\<close> are drafts, and the arrays are large enough.
\<close>

definition row_sched :: "nat \<Rightarrow> scheduler_output \<Rightarrow> input_batch \<Rightarrow> nat list \<Rightarrow> nat list \<Rightarrow> nat \<Rightarrow> bool" where
  "row_sched max_len so b ns ds r \<longleftrightarrow>
     (case ib_req_ids b ! r of None \<Rightarrow> False
      | Some rid \<Rightarrow> map_of (out_num_scheduled_tokens so) rid = Some (int (ns ! r)) \<and> ds ! r = length (spec_of so rid))
     \<and> ds ! r < ns ! r \<and> 0 \<le> row_num_computed_tokens (ib_rows b r) \<and> token_pos b r (ns ! r) \<le> max_len"

definition step_ok :: "nat \<Rightarrow> nat \<Rightarrow> int list \<Rightarrow> nat \<Rightarrow> scheduler_output \<Rightarrow> input_batch \<Rightarrow> nat list \<Rightarrow> nat list \<Rightarrow> bool" where
  "step_ok bs arange buffer max_len so b ns ds \<longleftrightarrow>
     ns \<noteq> [] \<and> length ns = num_reqs b \<and> length ds = num_reqs b \<and> slots_ok {} b \<and> (\<forall>r < num_reqs b. row_sched max_len so b ns ds r)
     \<and> num_reqs b \<le> ib_max_num_reqs b \<and> num_reqs b \<le> bt_max_num_reqs (ib_block_table b) \<and> 0 < bs
     \<and> max_len \<le> max_num_blocks_per_req (ib_block_table b) * bs
     \<and> total_num_scheduled_tokens so = int (sum_list ns) \<and> sum_list ns \<le> length buffer \<and> length buffer \<le> arange \<and> num_reqs b \<le> arange
     \<and> distinct (map fst (out_spec_decode_tokens so)) \<and> (\<forall>rid \<in> fst ` set (out_spec_decode_tokens so). map_of (req_id_to_index b) rid \<noteq> None)"

lemma step_okD:
  assumes "step_ok bs arange buffer max_len so b ns ds" and "r < num_reqs b"
  shows "row_sched max_len so b ns ds r"
  using assms by (simp add: step_ok_def)

lemma slots_length: "slots_ok {} b \<Longrightarrow> length (ib_req_ids b) = num_reqs b"
  using slots_count [of "{}" b] by simp

lemma scheduled_tokens_ok:
  assumes "step_ok bs arange buffer max_len so b ns ds"
  shows "rmap (scheduled_tokens_of so) (ib_req_ids b) = Inr (map int ns)"
proof -
  have "length (ib_req_ids b) = num_reqs b" using assms by (simp add: step_ok_def slots_length)
  moreover have "scheduled_tokens_of so (ib_req_ids b ! r) = Inr (int (ns ! r))" if "r < num_reqs b" for r
    using step_okD [OF assms that] by (auto simp: row_sched_def scheduled_tokens_of_def split: option.splits)
  ultimately show ?thesis using assms by (auto simp: rmap_Inr_iff list_all2_conv_all_nth step_ok_def)
qed

lemma draft_counts_loop:
  assumes "\<And>rid ts. (rid, ts) \<in> set spec \<Longrightarrow> \<exists>i < length counts. index rid = Some i"
    and "distinct (map fst spec)" and inj: "\<And>rid rid' i. index rid = Some i \<Longrightarrow> index rid' = Some i \<Longrightarrow> rid = rid'"
  shows "\<exists>out. rfold (\<lambda>(rid, drafts) counts. case index rid of None \<Rightarrow> Inl KeyError | Some i \<Rightarrow> py_set counts i (int (length drafts))) spec counts = Inr out
    \<and> length out = length counts \<and> (\<forall>rid i. index rid = Some i \<longrightarrow> i < length counts \<longrightarrow>
        out ! i = (case map_of spec rid of None \<Rightarrow> counts ! i | Some ts \<Rightarrow> int (length ts)))"
  using assms(1,2)
proof (induction spec arbitrary: counts)
  case (Cons x spec)
  obtain rid ts where x: "x = (rid, ts)" by (cases x)
  with Cons.prems(1) [of rid ts] obtain i where i: "i < length counts" "index rid = Some i" by auto
  let ?c = "counts[i := int (length ts)]"
  obtain out where out: "rfold (\<lambda>(rid, drafts) counts. case index rid of None \<Rightarrow> Inl KeyError | Some i \<Rightarrow> py_set counts i (int (length drafts))) spec ?c = Inr out"
    "length out = length counts" and each: "\<And>rid' j. index rid' = Some j \<Longrightarrow> j < length counts \<Longrightarrow>
        out ! j = (case map_of spec rid' of None \<Rightarrow> ?c ! j | Some ts \<Rightarrow> int (length ts))"
    using Cons.IH [of ?c] Cons.prems by force
  have "map_of spec rid = None" using Cons.prems(2) x by (simp add: map_of_eq_None_iff)
  then have "out ! j = (case map_of (x # spec) rid' of None \<Rightarrow> counts ! j | Some ts \<Rightarrow> int (length ts))"
    if "index rid' = Some j" "j < length counts" for rid' j
    using each [OF that] that i x inj [of rid j rid'] by (auto simp: nth_list_update split: option.splits)
  then show ?case using out i x by (simp add: py_set_def)
qed simp

lemma draft_counts_ok:
  assumes "step_ok bs arange buffer max_len so b ns ds"
  shows "draft_counts b (out_spec_decode_tokens so) = Inr (map int ds)"
proof -
  have sl: "slots_ok {} b" and ds: "length ds = num_reqs b" using assms by (simp_all add: step_ok_def)
  then have index: "map_of (req_id_to_index b) rid = Some i \<longleftrightarrow> i < num_reqs b \<and> ib_req_ids b ! i = Some rid" for rid i
    by (simp add: slots_ok_def slots_length [OF sl])
  obtain out where out: "draft_counts b (out_spec_decode_tokens so) = Inr out" "length out = num_reqs b"
    and each: "\<And>rid i. map_of (req_id_to_index b) rid = Some i \<Longrightarrow> i < num_reqs b \<Longrightarrow> out ! i = (case map_of (out_spec_decode_tokens so) rid of None \<Rightarrow> replicate (num_reqs b) 0 ! i | Some ts \<Rightarrow> int (length ts))"
    using draft_counts_loop [of "out_spec_decode_tokens so" "replicate (num_reqs b) 0" "map_of (req_id_to_index b)"] assms index
    unfolding draft_counts_def step_ok_def by (fastforce simp del: of_nat_eq_iff)
  have "out ! r = int (ds ! r)" if "r < num_reqs b" for r
    using step_okD [OF assms that] each [of _ r] that index
    by (auto simp: row_sched_def spec_of_def split: option.splits)
  then have "out = map int ds" using out(2) ds by (intro nth_equalityI) simp_all
  then show ?thesis using out(1) by simp
qed

lemma flat_row:
  assumes "r < m" and "p < k"
  shows "int p + int r * int k = int (r * k + p)" and "r * k + p < m * k" and "(r * k + p) div k = r" and "(r * k + p) mod k = p"
proof -
  have "r * k + p < Suc r * k" using assms(2) by simp
  also have "Suc r * k \<le> m * k" using assms(1) by (intro mult_le_mono1) simp
  finally show "r * k + p < m * k" .
qed (use assms(2) in \<open>simp_all add: add.commute\<close>)

lemma flat_get_row: "r < m \<Longrightarrow> p < k \<Longrightarrow> flat_get m k rows (int p + int r * int k) = Inr (rows r ! p)"
  using flat_row [of r m p k] by (simp add: flat_get_def nat_int del: of_nat_add of_nat_mult)

lemma flat_iget_row: "r < m \<Longrightarrow> p < k \<Longrightarrow> flat_iget m k rows (int r * int k + int p) = Inr (rows r ! p)"
proof -
  assume "r < m" "p < k"
  moreover have "\<not> int r * int k + int p < 0" by (simp add: not_less)
  ultimately show ?thesis using flat_get_row [of r m p k rows] by (simp add: flat_iget_def add.commute)
qed

definition committed :: "input_batch \<Rightarrow> input_batch" where
  "committed b = b\<lparr>ib_block_table := bt_commit (num_reqs b) (ib_block_table b)\<rparr>"

lemma committed_simps [simp]:
  "ib_row_arr (committed b) = ib_row_arr b" "num_reqs (committed b) = num_reqs b" "ib_req_ids (committed b) = ib_req_ids b"
  "req_id_to_index (committed b) = req_id_to_index b" "ib_max_num_reqs (committed b) = ib_max_num_reqs b"
  "bt_rows (ib_block_table (committed b)) = bt_rows (ib_block_table b)"
  "bt_max_num_reqs (ib_block_table (committed b)) = bt_max_num_reqs (ib_block_table b)"
  "max_num_blocks_per_req (ib_block_table (committed b)) = max_num_blocks_per_req (ib_block_table b)"
  by (simp_all add: committed_def bt_commit_def num_reqs_def)

lemma draft_counts_committed [simp]: "draft_counts (committed b) spec = draft_counts b spec"
  by (simp add: draft_counts_def)

lemma np_arange_upt: "n \<le> a \<Longrightarrow> np_arange a (int n) = map int [0..<n]"
  by (simp add: np_arange_def py_islice_def py_bound_def py_slice_def take_map)

text \<open>The single steps of the computation, for the batch of a step.\<close>

lemma step_arrays:
  assumes ok: "step_ok bs arange buffer max_len so b ns ds"
  shows "np_repeat (np_arange arange (int (num_reqs b))) (map int ns) = Inr (flat (\<lambda>r j. int r) ns)"
    and "np2 (+) (map (\<lambda>r. row_num_computed_tokens (ib_rows b (nat r))) (flat (\<lambda>r j. int r) ns)) (flat (\<lambda>r j. int j) ns) = Inr (flat (\<lambda>r j. int (token_pos b r j)) ns)"
    and "rmap (flat_get (ib_max_num_reqs b) max_len (\<lambda>i. row_token_ids (ib_rows b i))) (flat (\<lambda>r j. int (token_pos b r j) + int r * int max_len) ns)
      = Inr (flat (\<lambda>r j. row_token_ids (ib_rows b r) ! token_pos b r j) ns)"
    and "rmap (flat_iget (bt_max_num_reqs (ib_block_table b)) (max_num_blocks_per_req (ib_block_table b)) (bt_np (ib_block_table b)))
        (flat (\<lambda>r j. int r * int (max_num_blocks_per_req (ib_block_table b)) + int (token_pos b r j) div int bs) ns)
      = Inr (flat (\<lambda>r j. bt_np (ib_block_table b) r ! (token_pos b r j div bs)) ns)"
    and "map2 (+) (map (\<lambda>r. row_num_computed_tokens (ib_rows b (nat r))) (map int [0..<num_reqs b])) (map int ns) = map (\<lambda>r. int (token_pos b r (ns ! r))) [0..<num_reqs b]"
proof -
  have n: "length ns = num_reqs b" "num_reqs b \<le> arange" and K: "max_len \<le> max_num_blocks_per_req (ib_block_table b) * bs"
    and m: "num_reqs b \<le> ib_max_num_reqs b" "num_reqs b \<le> bt_max_num_reqs (ib_block_table b)"
    using ok by (simp_all add: step_ok_def)
  have c: "0 \<le> row_num_computed_tokens (ib_rows b r)" and le: "token_pos b r (ns ! r) \<le> max_len" if "r < length ns" for r
    using step_okD [OF ok, of r] that n by (simp_all add: row_sched_def)
  then have lt: "token_pos b r j < max_len" if "r < length ns" "j < ns ! r" for r j using that(2) le [OF that(1)] unfolding token_pos_def by linarith
  show "np_repeat (np_arange arange (int (num_reqs b))) (map int ns) = Inr (flat (\<lambda>r j. int r) ns)"
    unfolding np_arange_upt [OF n(2)] by (rule np_repeat_map) (rule n)
  show "np2 (+) (map (\<lambda>r. row_num_computed_tokens (ib_rows b (nat r))) (flat (\<lambda>r j. int r) ns)) (flat (\<lambda>r j. int j) ns) = Inr (flat (\<lambda>r j. int (token_pos b r j)) ns)"
    unfolding map_flat np2_flat using c by (auto simp: token_pos_def intro!: flat_cong)
  show "rmap (flat_get (ib_max_num_reqs b) max_len (\<lambda>i. row_token_ids (ib_rows b i))) (flat (\<lambda>r j. int (token_pos b r j) + int r * int max_len) ns)
      = Inr (flat (\<lambda>r j. row_token_ids (ib_rows b r) ! token_pos b r j) ns)"
    using m n lt by (intro rmap_flat flat_get_row) auto
  have "token_pos b r j div bs < max_num_blocks_per_req (ib_block_table b)" if "r < length ns" "j < ns ! r" for r j
    using lt [OF that] K by (simp add: less_mult_imp_div_less)
  then show "rmap (flat_iget (bt_max_num_reqs (ib_block_table b)) (max_num_blocks_per_req (ib_block_table b)) (bt_np (ib_block_table b)))
        (flat (\<lambda>r j. int r * int (max_num_blocks_per_req (ib_block_table b)) + int (token_pos b r j) div int bs) ns)
      = Inr (flat (\<lambda>r j. bt_np (ib_block_table b) r ! (token_pos b r j div bs)) ns)"
    using m n unfolding zdiv_int [symmetric] by (intro rmap_flat flat_iget_row) auto
  show "map2 (+) (map (\<lambda>r. row_num_computed_tokens (ib_rows b (nat r))) (map int [0..<num_reqs b])) (map int ns) = map (\<lambda>r. int (token_pos b r (ns ! r))) [0..<num_reqs b]"
    using c n(1) by (intro nth_equalityI) (simp_all add: token_pos_def)
qed

lemma prepare_inputs_flat:
  assumes ok: "step_ok bs arange buffer max_len so b ns ds"
  defines "ids \<equiv> flat (\<lambda>r j. row_token_ids (ib_rows b r) ! token_pos b r j) ns"
  defines "idx \<equiv> (if out_spec_decode_tokens so = [] then Inr (map (\<lambda>c. c - 1) (cumsum (map int ns)), None)
     else rbind (calc_spec_decode_metadata arange (ids @ drop (sum_list ns) buffer) (map int ds) (cumsum (map int ns))) (\<lambda>md. Inr (sd_logits_indices md, Some md)))"
  shows "prepare_inputs cascade bs arange buffer max_len so b = rbind idx (\<lambda>(logits_indices, md).
    Inr (\<lparr>in_positions = flat (\<lambda>r j. int (token_pos b r j)) ns, in_input_ids = ids, in_slot_mapping = flat (\<lambda>r j. int (kv_slot bs b r (token_pos b r j))) ns,
          query_start_loc = 0 # cumsum (map int ns), seq_lens = map (\<lambda>r. int (token_pos b r (ns ! r))) [0..<num_reqs b], max_query_len = Max (int ` set ns),
          common_prefix_len = (case cascade of None \<Rightarrow> 0 | Some uc \<Rightarrow> compute_cascade_attn_prefix_len uc bs (committed b) (map int ns) (num_common_prefix_blocks so)),
          in_logits_indices = logits_indices, in_spec_decode = md\<rparr>, committed b))"
proof -
  have buf: "sum_list ns \<le> length buffer" "length buffer \<le> arange" and len: "length ns = num_reqs b" "ns \<noteq> []"
    and total: "total_num_scheduled_tokens so = int (sum_list ns)"
    using ok by (simp_all add: step_ok_def)
  then have some: "0 < num_reqs b" by (simp flip: len(1))
  then have "0 < ns ! 0" using step_okD [OF ok, of 0] by (simp add: row_sched_def)
  then have "0 < sum_list ns" using member_le_sum_list [of "ns ! 0" ns] len(2) by simp
  note n = some this buf len(1)
  have slot: "flat (\<lambda>r j. int (bt_np (ib_block_table b) r ! (token_pos b r j div bs)) * int bs + int (token_pos b r j) mod int bs) ns = flat (\<lambda>r j. int (kv_slot bs b r (token_pos b r j))) ns"
    by (rule flat_cong) (simp add: kv_slot_def zmod_int)
  have ids: "length ids = sum_list ns" by (simp add: ids_def)
  note arrays = step_arrays [OF ok, folded ids_def]
  have "sum_list ns \<le> arange" using n by simp
  then show ?thesis
    unfolding prepare_inputs_def Let_def committed_def [symmetric] committed_simps total
    using n arrays
    by (simp add: scheduled_tokens_ok [OF ok] arrays starts_flat np_repeat_map batched_arange np2_flat slot draft_counts_ok [OF ok] ids idx_def)
qed

lemma set_flat: "set (flat f ns) = {f r j | r j. r < length ns \<and> j < ns ! r}"
  unfolding flat_def by (auto, blast)

lemma distinct_flat:
  assumes "\<And>r j r' j'. r < length ns \<Longrightarrow> j < ns ! r \<Longrightarrow> r' < length ns \<Longrightarrow> j' < ns ! r' \<Longrightarrow> f r j = f r' j' \<Longrightarrow> r = r' \<and> j = j'"
  shows "distinct (flat f ns)"
  using assms
proof (induction ns rule: rev_induct)
  case (snoc n ns)
  have "distinct (flat f ns)"
  proof (rule snoc.IH)
    fix r j r' j' assume "r < length ns" "j < ns ! r" "r' < length ns" "j' < ns ! r'" "f r j = f r' j'"
    then show "r = r' \<and> j = j'" using snoc.prems [of r j r' j'] by (simp add: nth_append)
  qed
  moreover have "inj_on (f (length ns)) {0..<n}"
    using snoc.prems [of "length ns" _ "length ns"] by (intro inj_onI) simp
  moreover have "set (flat f ns) \<inter> f (length ns) ` {0..<n} = {}"
  proof (rule ccontr)
    assume "set (flat f ns) \<inter> f (length ns) ` {0..<n} \<noteq> {}"
    then obtain r j j' where "r < length ns" "j < ns ! r" "j' < n" "f r j = f (length ns) j'" by (auto simp: set_flat) metis
    then show False using snoc.prems [of r j "length ns" j'] by (simp add: nth_append)
  qed
  ultimately show ?case by (simp add: flat_snoc distinct_map)
qed simp

lemma kv_slot_inj:
  assumes "kv_slot bs b r p = kv_slot bs b r' p'" and "0 < bs"
  shows "bt_np (ib_block_table b) r ! (p div bs) = bt_np (ib_block_table b) r' ! (p' div bs) \<and> p mod bs = p' mod bs"
proof -
  have "(x * bs + p mod bs) div bs = x \<and> (x * bs + p mod bs) mod bs = p mod bs" for x p using assms(2) by simp
  then show ?thesis using assms(1) unfolding kv_slot_def by metis
qed

lemma slots_distinct:
  assumes bs: "0 < bs"
    and excl: "inj_on (\<lambda>(r, k). bt_np (ib_block_table b) r ! k) {(r, token_pos b r j div bs) | r j. r < length ns \<and> j < ns ! r}"
  shows "distinct (flat (\<lambda>r j. int (kv_slot bs b r (token_pos b r j))) ns)"
proof (rule distinct_flat)
  fix r j r' j'
  assume in_range: "r < length ns" "j < ns ! r" "r' < length ns" "j' < ns ! r'" and "int (kv_slot bs b r (token_pos b r j)) = int (kv_slot bs b r' (token_pos b r' j'))"
  then have "kv_slot bs b r (token_pos b r j) = kv_slot bs b r' (token_pos b r' j')" by simp
  note same = kv_slot_inj [OF this bs]
  have "(r, token_pos b r j div bs) = (r', token_pos b r' j' div bs)" using in_range same by (intro inj_onD [OF excl]) auto
  then show "r = r' \<and> j = j'" using same by (metis Pair_inject add_left_cancel div_mult_mod_eq token_pos_def)
qed

text \<open>The draft tokens are the last tokens of their row.\<close>

lemma flat_tail:
  assumes "length ds = length ns" and ds: "\<And>r. r < length ns \<Longrightarrow> ds ! r < ns ! r"
  shows "flat (\<lambda>r j. (flat f ns @ ys) ! (off ns r + ns ! r - ds ! r + j)) ds = flat (\<lambda>r j. f r (ns ! r - ds ! r + j)) ds"
proof (rule flat_cong)
  fix r j assume r: "r < length ds" "j < ds ! r"
  then have e: "off ns r + ns ! r - ds ! r + j = off ns r + (ns ! r - ds ! r + j)" and lt: "ns ! r - ds ! r + j < ns ! r"
    using ds [of r] assms(1) by simp_all
  show "(flat f ns @ ys) ! (off ns r + ns ! r - ds ! r + j) = f r (ns ! r - ds ! r + j)"
    unfolding e using flat_nth [OF _ lt] lt off_le [of r ns] r assms(1) by (simp add: nth_append)
qed

text \<open>
  C12. The arrays of a step are those of the scheduled tokens: the \<open>j\<close>-th token of row \<open>r\<close> has its position, its token id, and the slot of the KV cache
  that its block table gives; when no two rows write to a shared block, all slots are different. The logits rows are the last scheduled token of each row
  and, for a row with \<open>d\<close> draft tokens, the \<open>d\<close> tokens before it; the target rows, the bonus rows and the draft token ids are those of the row.
\<close>

theorem prepare_inputs_spec:
  assumes ok: "step_ok bs arange buffer max_len so b ns ds"
    and excl: "inj_on (\<lambda>(r, k). bt_np (ib_block_table b) r ! k) {(r, token_pos b r j div bs) | r j. r < length ns \<and> j < ns ! r}"
    and buf: "sum_list (map Suc ds) \<le> arange"
  shows "\<exists>inp. prepare_inputs cascade bs arange buffer max_len so b = Inr (inp, committed b)
    \<and> in_positions inp = flat (\<lambda>r j. int (token_pos b r j)) ns
    \<and> in_input_ids inp = flat (\<lambda>r j. row_token_ids (ib_rows b r) ! token_pos b r j) ns
    \<and> in_slot_mapping inp = flat (\<lambda>r j. int (kv_slot bs b r (token_pos b r j))) ns \<and> distinct (in_slot_mapping inp)
    \<and> (if out_spec_decode_tokens so = []
       then in_spec_decode inp = None \<and> in_logits_indices inp = map (\<lambda>r. int (off ns r + ns ! r) - 1) [0..<length ns]
       else in_logits_indices inp = flat (\<lambda>r j. int (off ns r + ns ! r - Suc (ds ! r) + j)) (map Suc ds)
         \<and> (\<exists>md. in_spec_decode inp = Some md \<and> sd_num_draft_tokens md = map int ds \<and> sd_cu_num_draft_tokens md = cumsum (map int ds)
            \<and> target_logits_indices md = flat (\<lambda>r j. int (off (map Suc ds) r + j)) ds
            \<and> bonus_logits_indices md = map (\<lambda>r. int (off (map Suc ds) r + ds ! r)) [0..<length ds]
            \<and> sd_draft_token_ids md = flat (\<lambda>r j. row_token_ids (ib_rows b r) ! token_pos b r (ns ! r - ds ! r + j)) ds))"
proof -
  let ?ids = "flat (\<lambda>r j. row_token_ids (ib_rows b r) ! token_pos b r j) ns"
  have bs: "0 < bs" and len: "length ns = num_reqs b" "length ds = num_reqs b" "ns \<noteq> []" using ok by (simp_all add: step_ok_def)
  have ds: "ds ! r < ns ! r" if "r < length ns" for r using step_okD [OF ok, of r] that len by (simp add: row_sched_def)
  note slots_distinct [OF bs excl]
  moreover have "calc_spec_decode_metadata arange (?ids @ drop (sum_list ns) buffer) (map int ds) (cumsum (map int ns)) =
    Inr \<lparr>sd_draft_token_ids = flat (\<lambda>r j. (?ids @ drop (sum_list ns) buffer) ! (off ns r + ns ! r - ds ! r + j)) ds, sd_num_draft_tokens = map int ds,
         sd_cu_num_draft_tokens = cumsum (map int ds), target_logits_indices = flat (\<lambda>r j. int (off (map Suc ds) r + j)) ds,
         bonus_logits_indices = map (\<lambda>r. int (off (map Suc ds) r + ds ! r)) [0..<length ds],
         sd_logits_indices = flat (\<lambda>r j. int (off ns r + ns ! r - Suc (ds ! r) + j)) (map Suc ds), max_spec_len = Max (int ` set ds)\<rparr>"
    using len ds buf by (intro calc_spec_decode_metadata_flat) simp_all
  moreover have "flat (\<lambda>r j. (?ids @ drop (sum_list ns) buffer) ! (off ns r + ns ! r - ds ! r + j)) ds
      = flat (\<lambda>r j. row_token_ids (ib_rows b r) ! token_pos b r (ns ! r - ds ! r + j)) ds"
    using len ds by (intro flat_tail) simp_all
  ultimately show ?thesis
    unfolding prepare_inputs_flat [OF ok] using len by (cases "out_spec_decode_tokens so = []") (simp_all add: cumsum_off off_Suc)
qed

definition example_batch :: input_batch where
  "example_batch = (input_batch_init 2 8 4 10)\<lparr>ib_req_ids := [Some ''a'', Some ''b''], req_output_token_ids := [Some ''a'', Some ''b''],
     req_id_to_index := [(''a'', 0), (''b'', 1)],
     ib_row_arr := Arr (map (\<lambda>(ts, c). (ib_rows (input_batch_init 2 8 4 10) 0)\<lparr>row_token_ids := ts, row_num_computed_tokens := c\<rparr>)
       [([7, 8, 9, 5, 0, 0, 0, 0], 1), ([3, 4, 0, 0, 0, 0, 0, 0], 0)]) (ib_rows (input_batch_init 2 8 4 10) 0),
     ib_block_table := (block_table_init 2 4)\<lparr>bt_rows := Arr [[6, 2, 0, 0], [5, 0, 0, 0]] [0, 0, 0, 0]\<rparr>\<rparr>"

definition example_message :: scheduler_output where
  "example_message = \<lparr>scheduled_new_reqs = [], scheduled_cached_reqs = [], out_num_scheduled_tokens = [(''a'', 3), (''b'', 2)], total_num_scheduled_tokens = 5,
     out_spec_decode_tokens = [(''a'', [5])], out_encoder_inputs = [], num_common_prefix_blocks = 0, out_finished_req_ids = [],
     free_encoder_input_ids = [], out_structured_ids = []\<rparr>"

lemma example_step_ok: "step_ok 2 8 (replicate 8 0) 8 example_message example_batch [3, 2] [1, 0]"
proof -
  have "slots_ok {} example_batch"
    by (auto simp: slots_ok_def example_batch_def less_Suc_eq numeral_2_eq_2 nth_Cons' split: if_splits)
  then show ?thesis
    by (simp add: step_ok_def row_sched_def example_message_def example_batch_def num_reqs_def input_batch_init_def block_table_init_def
        aget_def spec_of_def token_pos_def less_Suc_eq numeral_2_eq_2)
qed

theorem prepare_inputs_spec_witness:
  "\<exists>inp. prepare_inputs None 2 8 (replicate 8 0) 8 example_message example_batch = Inr (inp, committed example_batch)
     \<and> in_positions inp = [1, 2, 3, 0, 1] \<and> in_input_ids inp = [8, 9, 5, 3, 4] \<and> in_slot_mapping inp = [13, 4, 5, 10, 11] \<and> in_logits_indices inp = [1, 2, 4]"
proof -
  have three: "Suc (Suc (Suc 0)) div Suc (Suc 0) = Suc 0" by (rule div_nat_eqI) simp_all
  have idx: "{(r, token_pos example_batch r j div 2) | r j. r < length [3, 2 :: nat] \<and> j < [3, 2] ! r} \<subseteq> {(0, 0), (0, 1), (1, 0)}"
    by (auto simp: less_Suc_eq numeral_eq_Suc three token_pos_def example_batch_def input_batch_init_def aget_def)
  have "inj_on (\<lambda>(r, k). bt_np (ib_block_table example_batch) r ! k) {(0, 0), (0, 1), (1, 0)}"
    by (auto simp: inj_on_def example_batch_def block_table_init_def aget_def)
  from prepare_inputs_spec [OF example_step_ok inj_on_subset [OF this idx], of None] show ?thesis
    by (auto simp: example_message_def flat_def off_def upt_rec token_pos_def kv_slot_def example_batch_def input_batch_init_def block_table_init_def aget_def)
qed

end
