(* ===== verification/Ngram_Proposer.thy ===== *)
theory Ngram_Proposer
  imports Prelude
begin

text \<open>
  The n-gram proposer of vllm \<open>v1/spec_decode/ngram_proposer.py\<close>: draft tokens are the tokens that followed an earlier occurrence of the last
  \<open>n\<close> tokens, found with the algorithm of Knuth, Morris and Pratt.

  Both loops move back in the pattern with the table of borders, so that no measure decreases for every table: they are partial functions, where
  \<open>None\<close> means that the loop does not end.
\<close>

section \<open>The proposer\<close>

partial_function (option) kmp_lps_loop :: "'a list \<Rightarrow> nat list \<Rightarrow> nat \<Rightarrow> nat \<Rightarrow> nat list option" where
  "kmp_lps_loop pattern lps prev_lps i =
     (if i < length pattern then
        if pattern ! i = pattern ! prev_lps then kmp_lps_loop pattern (lps[i := prev_lps + 1]) (prev_lps + 1) (i + 1)
        else if prev_lps \<noteq> 0 then kmp_lps_loop pattern lps (lps ! (prev_lps - 1)) i
        else kmp_lps_loop pattern (lps[i := 0]) prev_lps (i + 1)
      else Some lps)"

definition kmp_lps_array :: "'a list \<Rightarrow> nat list option" where
  "kmp_lps_array pattern = kmp_lps_loop pattern (replicate (length pattern) 0) 0 1"

text \<open>The position behind the first match, or \<open>None\<close>; \<open>bound\<close> is \<open>context_len - n\<close>.\<close>

partial_function (option) kmp_search_loop :: "'a list \<Rightarrow> 'a list \<Rightarrow> nat list \<Rightarrow> nat \<Rightarrow> int \<Rightarrow> nat \<Rightarrow> nat \<Rightarrow> nat option option" where
  "kmp_search_loop context_token_ids pattern lps n bound i j =
     (if int i < bound then
        if context_token_ids ! i = pattern ! j then
          if j + 1 = n then Some (Some (i + 1))
          else kmp_search_loop context_token_ids pattern lps n bound (i + 1) (j + 1)
        else if j \<noteq> 0 then kmp_search_loop context_token_ids pattern lps n bound i (lps ! (j - 1))
        else kmp_search_loop context_token_ids pattern lps n bound (i + 1) j
      else Some None)"

definition last_tokens :: "nat \<Rightarrow> 'a list \<Rightarrow> 'a list" where
  "last_tokens n xs = drop (length xs - n) xs"

definition find_subarray_kmp :: "'a list \<Rightarrow> nat \<Rightarrow> nat \<Rightarrow> 'a list option result option" where
  "find_subarray_kmp context_token_ids n k =
     (if n = 0 then Some (Inl AssertionError)
      else let pattern = last_tokens n context_token_ids
        in Option.bind (kmp_lps_array pattern) (\<lambda>lps.
           Option.bind (kmp_search_loop context_token_ids pattern lps n (int (length context_token_ids) - int n) 0 0) (\<lambda>found.
             Some (Inr (map_option (\<lambda>i. take k (drop i context_token_ids)) found)))))"

record ngram_proposer =
  min_n :: nat
  max_n :: nat
  num_spec :: nat
  ngram_max_model_len :: nat

text \<open>The loop over the lengths, from \<open>max_n\<close> down to \<open>min_n\<close>.\<close>

fun propose_loop :: "'a list \<Rightarrow> nat \<Rightarrow> nat list \<Rightarrow> 'a list option result option" where
  "propose_loop context_token_ids k [] = Some (Inr None)"
| "propose_loop context_token_ids k (n # ns) =
     (case find_subarray_kmp context_token_ids n k of
        Some (Inr None) \<Rightarrow> propose_loop context_token_ids k ns
      | r \<Rightarrow> r)"

definition propose :: "ngram_proposer \<Rightarrow> 'a list \<Rightarrow> 'a list option result option" where
  "propose p context_token_ids =
     (let k = min (int (num_spec p)) (int (ngram_max_model_len p) - int (length context_token_ids))
      in if k \<le> 0 then Some (Inr None)
         else propose_loop context_token_ids (nat k) (rev [min_n p..<max_n p + 1]))"

section \<open>Borders\<close>

text \<open>\<open>border k xs\<close>: the prefix of length \<open>k\<close> is a proper suffix.\<close>

definition border :: "nat \<Rightarrow> 'a list \<Rightarrow> bool" where
  "border k xs \<longleftrightarrow> k < length xs \<and> take k xs = drop (length xs - k) xs"

text \<open>A border read by index, on a prefix of a list.\<close>

lemma border_take:
  assumes "i \<le> length p"
  shows "border k (take i p) \<longleftrightarrow> k < i \<and> (\<forall>t < k. p ! t = p ! (i - k + t))"
proof (cases "k < i")
  case True
  have "take k (take i p) = drop (length (take i p) - k) (take i p) \<longleftrightarrow> (\<forall>t < k. take k (take i p) ! t = drop (i - k) (take i p) ! t)"
    using True assms by (auto simp: list_eq_iff_nth_eq)
  also have "\<dots> \<longleftrightarrow> (\<forall>t < k. p ! t = p ! (i - k + t))" using True assms by auto
  finally show ?thesis using True assms by (simp add: border_def)
qed (use assms in \<open>simp add: border_def\<close>)

lemma border_zero: "0 < i \<Longrightarrow> i \<le> length p \<Longrightarrow> border 0 (take i p)"
  by (simp add: border_take)

text \<open>A border grows by a matching element, and loses one.\<close>

lemma border_extend:
  assumes "i < length p" "0 < i"
  shows "border (Suc k) (take (Suc i) p) \<longleftrightarrow> border k (take i p) \<and> p ! k = p ! i"
proof -
  have "(\<forall>t < Suc k. p ! t = p ! (Suc i - Suc k + t)) \<longleftrightarrow> (\<forall>t < k. p ! t = p ! (i - k + t)) \<and> p ! k = p ! i" if "k < i"
    using that by (auto simp: less_Suc_eq)
  then show ?thesis using assms by (auto simp: border_take)
qed

text \<open>Borders of borders.\<close>

lemma border_trans:
  assumes "border k (take i p)" "border b (take i p)" "b < k" "i \<le> length p"
  shows "border b (take k p)"
proof -
  from assms have "k < i" "\<forall>t < k. p ! t = p ! (i - k + t)" "\<forall>t < b. p ! t = p ! (i - b + t)" by (simp_all add: border_take)
  moreover have "p ! (k - b + t) = p ! (i - b + t)" if "t < b" for t
    using calculation(2) [rule_format, of "k - b + t"] calculation(1) assms(3) that by simp
  ultimately show ?thesis using assms by (simp add: border_take)
qed

lemma border_lift:
  assumes "border k (take i p)" "border b (take k p)" "i \<le> length p"
  shows "border b (take i p)"
proof -
  have k: "k < i" "\<forall>t < k. p ! t = p ! (i - k + t)" using assms(1,3) by (simp_all add: border_take)
  have b: "b < k" "\<forall>t < b. p ! t = p ! (k - b + t)" using assms(2,3) k(1) by (simp_all add: border_take)
  have "p ! t = p ! (i - b + t)" if "t < b" for t
    using k(2) [rule_format, of "k - b + t"] b(2) [rule_format, of t] k(1) b(1) that by simp
  then show ?thesis using k b assms(3) by (simp add: border_take)
qed

definition longest_border :: "nat \<Rightarrow> 'a list \<Rightarrow> bool" where
  "longest_border k xs \<longleftrightarrow> border k xs \<and> (\<forall>b. border b xs \<longrightarrow> b \<le> k)"

text \<open>The table is right up to \<open>i\<close>.\<close>

definition lps_ok :: "'a list \<Rightarrow> nat list \<Rightarrow> nat \<Rightarrow> bool" where
  "lps_ok p lps i \<longleftrightarrow> length lps = length p \<and> (\<forall>t < i. longest_border (lps ! t) (take (Suc t) p))"

lemma lps_ok_step: "lps_ok p lps i \<Longrightarrow> i < length p \<Longrightarrow> longest_border v (take (Suc i) p) \<Longrightarrow> lps_ok p (lps[i := v]) (Suc i)"
  by (auto simp: lps_ok_def less_Suc_eq)

text \<open>The loop over the pattern ends with the right table.\<close>

lemma kmp_lps_loop_ok:
  assumes "lps_ok p lps i" "0 < i" "i \<le> length p" "border k (take i p)" "\<forall>b. border b (take i p) \<and> i < length p \<and> p ! b = p ! i \<longrightarrow> b \<le> k"
  shows "\<exists>lps'. kmp_lps_loop p lps k i = Some lps' \<and> lps_ok p lps' (length p)"
  using assms
proof (induction "2 * (length p - i) + k" arbitrary: lps i k rule: less_induct)
  case less
  show ?case
  proof (cases "i < length p")
    case False
    then show ?thesis using less.prems by (subst kmp_lps_loop.simps) simp
  next
    case i: True
    note prems = less.prems
    consider (hit) "p ! i = p ! k" | (shift) "p ! i \<noteq> p ! k" "k \<noteq> 0" | (zero) "p ! i \<noteq> p ! k" "k = 0" by blast
    then show ?thesis
    proof cases
      case hit
      have "longest_border (Suc k) (take (Suc i) p)" unfolding longest_border_def
      proof (intro conjI allI impI)
        show "border (Suc k) (take (Suc i) p)" using border_extend [OF i prems(2)] prems(4) hit by simp
        show "b \<le> Suc k" if "border b (take (Suc i) p)" for b
          using that border_extend [OF i prems(2)] prems(5) i by (cases b) auto
      qed
      then have "lps_ok p (lps[i := Suc k]) (Suc i)" "border (Suc k) (take (Suc i) p)" "\<forall>b. border b (take (Suc i) p) \<longrightarrow> b \<le> Suc k"
        using lps_ok_step [OF prems(1) i] by (auto simp: longest_border_def)
      then show ?thesis using i hit less.hyps [of "Suc i" "Suc k" "lps[i := Suc k]"] by (subst kmp_lps_loop.simps) simp
    next
      case shift
      let ?k = "lps ! (k - 1)"
      have "k < i" using prems(3,4) by (simp add: border_take)
      then have lb: "longest_border ?k (take k p)" using prems(1) shift(2) unfolding lps_ok_def by (metis Suc_pred' less_imp_diff_less not_gr_zero)
      then have "?k < k" using prems(3) \<open>k < i\<close> by (simp add: longest_border_def border_take)
      moreover have "border ?k (take i p)" using lb border_lift [OF prems(4) _ prems(3)] by (simp add: longest_border_def)
      moreover have "b \<le> ?k" if "border b (take i p)" "p ! b = p ! i" for b
      proof -
        have "b \<le> k" using prems(5) i that by blast
        then have "b < k" using that(2) shift(1) by (cases "b = k") auto
        then show ?thesis using lb border_trans [OF prems(4) that(1) _ prems(3)] by (simp add: longest_border_def)
      qed
      ultimately show ?thesis using i shift less.hyps [of i ?k lps] prems(1-3) by (subst kmp_lps_loop.simps) simp
    next
      case zero
      have "longest_border 0 (take (Suc i) p)" unfolding longest_border_def
      proof (intro conjI allI impI)
        show "border 0 (take (Suc i) p)" using i by (intro border_zero) simp_all
        show "b \<le> 0" if "border b (take (Suc i) p)" for b
          using that border_extend [OF i prems(2)] prems(5) i zero by (cases b) auto
      qed
      then have "lps_ok p (lps[i := 0]) (Suc i)" "border 0 (take (Suc i) p)" "\<forall>b. border b (take (Suc i) p) \<longrightarrow> b \<le> 0"
        using lps_ok_step [OF prems(1) i] by (auto simp: longest_border_def)
      then show ?thesis using i zero less.hyps [of "Suc i" 0 "lps[i := 0]"] by (subst kmp_lps_loop.simps) simp
    qed
  qed
qed

lemma kmp_lps_array_ok: "\<exists>lps. kmp_lps_array p = Some lps \<and> lps_ok p lps (length p)"
proof (cases p)
  case Nil
  then show ?thesis by (subst kmp_lps_array_def, subst kmp_lps_loop.simps) (simp add: lps_ok_def)
next
  case (Cons x xs)
  have one: "border b (take 1 p) \<longleftrightarrow> b = 0" for b using Cons by (auto simp: border_def)
  have "lps_ok p (replicate (length p) 0) 1" using Cons one [of 0] one by (simp add: lps_ok_def longest_border_def)
  then show ?thesis unfolding kmp_lps_array_def using Cons one by (intro kmp_lps_loop_ok) simp_all
qed

section \<open>The search\<close>

definition occurs :: "'a list \<Rightarrow> 'a list \<Rightarrow> nat \<Rightarrow> bool" where
  "occurs xs p m \<longleftrightarrow> (\<forall>t < length p. xs ! (m + t) = p ! t)"

lemma occurs_take: "m + length p \<le> length xs \<Longrightarrow> take (length p) (drop m xs) = p \<longleftrightarrow> occurs xs p m"
  by (auto simp: occurs_def list_eq_iff_nth_eq)

text \<open>The state of the search: \<open>j\<close> tokens of the pattern end before \<open>i\<close>, and there is no earlier occurrence.\<close>

definition matched :: "'a list \<Rightarrow> 'a list \<Rightarrow> nat \<Rightarrow> nat \<Rightarrow> bool" where
  "matched xs p i j \<longleftrightarrow> j \<le> i \<and> j < length p \<and> (\<forall>t < j. xs ! (i - j + t) = p ! t) \<and> (\<forall>m < i - j. \<not> occurs xs p m)"

lemma matched_step: "matched xs p i j \<Longrightarrow> xs ! i = p ! j \<Longrightarrow> Suc j < length p \<Longrightarrow> matched xs p (Suc i) (Suc j)"
  by (auto simp: matched_def less_Suc_eq)

lemma matched_found:
  assumes "matched xs p i j" "xs ! i = p ! j" "Suc j = length p"
  shows "occurs xs p (Suc i - length p)"
  unfolding occurs_def
proof (intro allI impI)
  fix t assume "t < length p"
  then consider "t < j" | "t = j" using assms(3) by linarith
  moreover have "Suc i - length p + t = i - j + t" "j \<le> i" using assms(1) unfolding matched_def by (simp_all flip: assms(3))
  ultimately show "xs ! (Suc i - length p + t) = p ! t" using assms(1,2) unfolding matched_def by cases auto
qed

lemma matched_skip:
  assumes "matched xs p i 0" "xs ! i \<noteq> p ! 0"
  shows "matched xs p (Suc i) 0"
proof -
  have "\<not> occurs xs p i" using assms by (auto simp: matched_def occurs_def)
  then show ?thesis using assms(1) by (auto simp: matched_def less_Suc_eq)
qed

text \<open>Moving the pattern to its longest border misses no occurrence.\<close>

lemma matched_shift:
  assumes m: "matched xs p i j" and lb: "longest_border k (take j p)" and ne: "xs ! i \<noteq> p ! j"
  shows "matched xs p i k"
proof -
  have j: "j \<le> i" "j < length p" "\<And>t. t < j \<Longrightarrow> xs ! (i - j + t) = p ! t" "\<And>m. m < i - j \<Longrightarrow> \<not> occurs xs p m"
    using m unfolding matched_def by blast+
  have k: "k < j" "\<And>t. t < k \<Longrightarrow> p ! t = p ! (j - k + t)" using lb j(2) by (simp_all add: longest_border_def border_take)
  have "xs ! (i - k + t) = p ! t" if "t < k" for t
    using j(3) [of "j - k + t"] k(2) [OF that] k(1) j(1) that by simp
  moreover have "\<not> occurs xs p q" if "q < i - k" for q
  proof
    assume occ: "occurs xs p q"
    have "i - j \<le> q" using j(4) occ by (meson not_le)
    moreover have "q \<noteq> i - j" using occ ne j(1,2) by (auto simp: occurs_def)
    ultimately have q: "i - j < q" "i - q < j" "k < i - q" using that j(1) by simp_all
    have "p ! t = p ! (j - (i - q) + t)" if "t < i - q" for t
    proof -
      have "xs ! (q + t) = p ! t" using occ that q(2) j(2) by (simp add: occurs_def)
      moreover have "xs ! (i - j + (j - (i - q) + t)) = p ! (j - (i - q) + t)" by (rule j(3)) (use that q(2) in simp)
      moreover have "i - j + (j - (i - q) + t) = q + t" using q j(1) that by simp
      ultimately show ?thesis by metis
    qed
    then have "border (i - q) (take j p)" using q(2) j(2) by (simp add: border_take)
    then show False using lb q(3) by (auto simp: longest_border_def)
  qed
  ultimately show ?thesis using j(1,2) k(1) by (simp add: matched_def)
qed

definition found_ok :: "'a list \<Rightarrow> 'a list \<Rightarrow> int \<Rightarrow> nat option \<Rightarrow> bool" where
  "found_ok xs p bound r \<longleftrightarrow>
     (case r of Some e \<Rightarrow> length p \<le> e \<and> int e \<le> bound \<and> occurs xs p (e - length p) \<and> (\<forall>m < e - length p. \<not> occurs xs p m)
      | None \<Rightarrow> \<forall>m. int (m + length p) \<le> bound \<longrightarrow> \<not> occurs xs p m)"

lemma kmp_search_loop_ok:
  assumes "lps_ok p lps (length p)" "matched xs p i j"
  shows "\<exists>r. kmp_search_loop xs p lps (length p) bound i j = Some r \<and> found_ok xs p bound r"
  using assms(2)
proof (induction "2 * nat (bound - int i) + j" arbitrary: i j rule: less_induct)
  case less
  note m = less.prems
  show ?case
  proof (cases "int i < bound")
    case False
    have "\<not> occurs xs p q" if "int (q + length p) \<le> bound" for q using that False m by (auto simp: matched_def)
    then show ?thesis using False by (subst kmp_search_loop.simps) (simp add: found_ok_def)
  next
    case b: True
    consider (found) "xs ! i = p ! j" "Suc j = length p" | (hit) "xs ! i = p ! j" "Suc j < length p" | (shift) "xs ! i \<noteq> p ! j" "j \<noteq> 0" | (skip) "xs ! i \<noteq> p ! j" "j = 0"
      using m unfolding matched_def by (metis Suc_lessI)
    then show ?thesis
    proof cases
      case found
      have "occurs xs p (Suc i - length p)" using matched_found [OF m found] .
      moreover have "\<not> occurs xs p q" if "q < Suc i - length p" for q using m that by (auto simp: matched_def simp flip: found(2))
      ultimately show ?thesis using b found m by (subst kmp_search_loop.simps) (auto simp: found_ok_def matched_def)
    next
      case hit
      then show ?thesis using b less.hyps [of "Suc i" "Suc j"] matched_step [OF m] by (subst kmp_search_loop.simps) simp
    next
      case shift
      have "j < length p" using m by (simp add: matched_def)
      then have "longest_border (lps ! (j - 1)) (take j p)" using assms(1) shift(2) unfolding lps_ok_def by (metis Suc_pred' less_imp_diff_less not_gr_zero)
      moreover from this have "lps ! (j - 1) < j" using \<open>j < length p\<close> by (simp add: longest_border_def border_take)
      ultimately show ?thesis using b shift less.hyps [of i "lps ! (j - 1)"] matched_shift [OF m _ shift(1)] by (subst kmp_search_loop.simps) simp
    next
      case skip
      then show ?thesis using b less.hyps [of "Suc i" 0] matched_skip [of xs p i] m by (subst kmp_search_loop.simps) simp
    qed
  qed
qed

text \<open>The plain search: try every position, so that the occurrence ends before the last \<open>n\<close> tokens begin.\<close>

definition first_match :: "'a list \<Rightarrow> nat \<Rightarrow> nat option" where
  "first_match xs n = find (\<lambda>m. take n (drop m xs) = last_tokens n xs) [0..<length xs + 1 - 2 * n]"

lemma find_upt_Some:
  "find P [0..<l] = Some x \<longleftrightarrow> x < l \<and> P x \<and> (\<forall>y < x. \<not> P y)"
  by (auto simp: find_Some_iff)

lemma first_match_found:
  assumes "0 < n" "found_ok xs (last_tokens n xs) (int (length xs) - int n) r" "n \<le> length xs"
  shows "map_option (\<lambda>m. m + n) (first_match xs n) = r"
proof -
  let ?p = "last_tokens n xs"
  have len: "length ?p = n" using assms(3) by (simp add: last_tokens_def)
  have occ: "take n (drop m xs) = ?p \<longleftrightarrow> occurs xs ?p m" if "m < length xs + 1 - 2 * n" for m
    using occurs_take [of m ?p xs] that len by simp
  show ?thesis
  proof (cases r)
    case None
    have "\<not> occurs xs ?p m" if "m < length xs + 1 - 2 * n" for m
      using assms(2) that len unfolding None found_ok_def by simp
    then have "first_match xs n = None" using occ by (auto simp: first_match_def find_None_iff)
    then show ?thesis using None by simp
  next
    case (Some e)
    have e: "n \<le> e" "int e \<le> int (length xs) - int n" "occurs xs ?p (e - n)" "\<forall>m < e - n. \<not> occurs xs ?p m"
      using assms(2) len unfolding Some found_ok_def by simp_all
    have "first_match xs n = Some (e - n)" unfolding first_match_def find_upt_Some using e occ by auto
    then show ?thesis using e(1) Some by simp
  qed
qed

text \<open>The search ends, and finds what the plain search finds.\<close>

lemma find_subarray_kmp_ok:
  "find_subarray_kmp xs n k =
     Some (if n = 0 then Inl AssertionError else Inr (map_option (\<lambda>m. take k (drop (m + n) xs)) (first_match xs n)))"
proof (cases "n = 0")
  case n: False
  obtain lps where lps: "kmp_lps_array (last_tokens n xs) = Some lps" "lps_ok (last_tokens n xs) lps (length (last_tokens n xs))"
    using kmp_lps_array_ok by blast
  have "\<exists>r. kmp_search_loop xs (last_tokens n xs) lps n (int (length xs) - int n) 0 0 = Some r \<and> map_option (\<lambda>m. m + n) (first_match xs n) = r"
  proof (cases "n \<le> length xs")
    case True
    then have len: "length (last_tokens n xs) = n" by (simp add: last_tokens_def)
    have "matched xs (last_tokens n xs) 0 0" using n len by (simp add: matched_def)
    from kmp_search_loop_ok [OF lps(2) this] show ?thesis using first_match_found [of n xs] n True len by auto
  next
    case False
    then show ?thesis by (subst kmp_search_loop.simps) (simp add: first_match_def)
  qed
  then show ?thesis using n lps by (cases "first_match xs n") (auto simp: find_subarray_kmp_def Let_def)
qed (simp add: find_subarray_kmp_def)

text \<open>The tokens to propose: behind the first match of the longest n-gram that has one.\<close>

definition followers :: "'a list \<Rightarrow> nat \<Rightarrow> nat list \<Rightarrow> 'a list option" where
  "followers xs k ns =
     (case find (\<lambda>n. first_match xs n \<noteq> None) ns of None \<Rightarrow> None | Some n \<Rightarrow> Some (take k (drop (the (first_match xs n) + n) xs)))"

lemma propose_loop_ok: "0 \<notin> set ns \<Longrightarrow> propose_loop xs k ns = Some (Inr (followers xs k ns))"
proof (induction ns)
  case (Cons n ns)
  then show ?case by (cases "first_match xs n") (auto simp: find_subarray_kmp_ok followers_def)
qed (simp add: followers_def)

lemma followers_SomeD:
  assumes "followers xs k ns = Some ds"
  obtains n m where "n \<in> set ns" "m + 2 * n \<le> length xs" "take n (drop m xs) = last_tokens n xs" "ds = take k (drop (m + n) xs)"
proof -
  obtain n where n: "find (\<lambda>n. first_match xs n \<noteq> None) ns = Some n" using assms by (auto simp: followers_def split: option.splits)
  then have mem: "n \<in> set ns" and "first_match xs n \<noteq> None" by (auto simp: find_Some_iff)
  then obtain m where m: "first_match xs n = Some m" by blast
  then have "m < length xs + 1 - 2 * n" "take n (drop m xs) = last_tokens n xs" unfolding first_match_def find_upt_Some by simp_all
  moreover have "ds = take k (drop (m + n) xs)" using assms n m by (simp add: followers_def)
  ultimately show ?thesis using that [of n m] mem by simp
qed

lemma propose_followers:
  assumes "0 < min_n p"
  shows "propose p xs = Some (Inr (let k = min (num_spec p) (ngram_max_model_len p - length xs) in if k = 0 then None else followers xs k (rev [min_n p..<max_n p + 1])))"
proof -
  define k where "k = min (num_spec p) (ngram_max_model_len p - length xs)"
  have "min (int (num_spec p)) (int (ngram_max_model_len p) - int (length xs)) \<le> 0 \<longleftrightarrow> k = 0"
    "nat (min (int (num_spec p)) (int (ngram_max_model_len p) - int (length xs))) = k" by (auto simp: k_def)
  then show ?thesis
    using propose_loop_ok [of "rev [min_n p..<max_n p + 1]" xs k] assms by (simp add: propose_def Let_def k_def [symmetric])
qed

lemma proposal_bounds:
  assumes "0 < min_n p" and "propose p xs = Some (Inr (Some ds))"
  shows "ds \<noteq> [] \<and> length ds \<le> num_spec p \<and> length xs + length ds \<le> ngram_max_model_len p"
proof -
  define k where "k = min (num_spec p) (ngram_max_model_len p - length xs)"
  have k: "k \<noteq> 0" "followers xs k (rev [min_n p..<max_n p + 1]) = Some ds"
    using assms(2) unfolding propose_followers [OF assms(1)] by (simp_all add: k_def [symmetric] Let_def split: if_splits)
  from k(2) obtain n m where n: "n \<in> set (rev [min_n p..<max_n p + 1])" "m + 2 * n \<le> length xs" "ds = take k (drop (m + n) xs)" by (rule followers_SomeD)
  then have "0 < n" using assms(1) by auto
  then show ?thesis using n k(1) by (auto simp: k_def)
qed

text \<open>
  C20. The n-gram proposer. For positive lengths of n-grams it always ends and raises nothing. Its result is the one of the plain search: the tokens behind the first
  earlier occurrence of the last \<open>n\<close> tokens, for the greatest \<open>n\<close> that has one. A proposal has between one and \<open>k\<close> tokens, and does not pass the maximal model length.
\<close>

theorem ngram_propose_spec:
  assumes "0 < min_n p"
  shows "\<exists>r. propose p xs = Some (Inr r) \<and>
    (let k = min (num_spec p) (ngram_max_model_len p - length xs)
     in r = (if k = 0 then None else followers xs k (rev [min_n p..<max_n p + 1])) \<and>
        (\<forall>ds. r = Some ds \<longrightarrow> ds \<noteq> [] \<and> length ds \<le> num_spec p \<and> length xs + length ds \<le> ngram_max_model_len p))"
  using propose_followers [OF assms, of xs] proposal_bounds [OF assms, of xs] by (simp add: Let_def)

text \<open>The example of the source, and a length that the assertion rejects.\<close>

theorem ngram_propose_spec_witness:
  "propose \<lparr>min_n = 2, max_n = 3, num_spec = 4, ngram_max_model_len = 100\<rparr> [1, 2, 3, 4, 2, 3 :: int] = Some (Inr (Some [4, 2, 3]))"
proof -
  have "followers [1, 2, 3, 4, 2, 3 :: int] 4 (rev [2..<3 + 1]) = Some [4, 2, 3]" by code_simp
  then show ?thesis using ngram_propose_spec [of "\<lparr>min_n = 2, max_n = 3, num_spec = 4, ngram_max_model_len = 100\<rparr>" "[1, 2, 3, 4, 2, 3 :: int]"]
    by (auto simp: Let_def)
qed

end
