(* ===== verification/Rejection_Sampler.thy ===== *)
theory Rejection_Sampler
  imports Sampler Prepare_Inputs Ngram_Proposer
begin

text \<open>
  Speculative decoding of vllm: the rejection sampler (\<open>v1/sample/rejection_sampler.py\<close>), the sampling part of \<open>GPUModelRunner.execute_model\<close> and
  \<open>generate_draft_token_ids\<close> (\<open>v1/worker/gpu_model_runner.py\<close>), and \<open>is_spec_decode_supported\<close> (\<open>v1/spec_decode/utils.py\<close>).

  A kernel is a function of the request that it runs for; its loads and stores are list accesses, and one outside of a tensor raises \<open>IndexError\<close> in the
  model. A token is an \<open>int\<close>. The uniform numbers, the exponential noise and the contents of fresh tensors are arguments.
\<close>

section \<open>Kernels\<close>

definition PLACEHOLDER_TOKEN_ID :: int where
  "PLACEHOLDER_TOKEN_ID = -1"

definition GREEDY_TEMPERATURE :: rat where
  "GREEDY_TEMPERATURE = -1"

definition MAX_SPEC_LEN :: nat where
  "MAX_SPEC_LEN = 32"

text \<open>The first token of a request in the flat tensors, and the number of its tokens.\<close>

definition token_range :: "int list \<Rightarrow> nat \<Rightarrow> (nat \<times> nat) result" where
  "token_range cu_num_tokens req_idx =
     rbind (if req_idx = 0 then Inr 0 else py_get cu_num_tokens (req_idx - 1)) (\<lambda>start_idx.
     rbind (py_get cu_num_tokens req_idx) (\<lambda>end_idx. Inr (nat start_idx, nat (end_idx - start_idx))))"

definition greedy_step :: "int list \<Rightarrow> nat list \<Rightarrow> nat \<Rightarrow> nat \<Rightarrow> bool \<times> int list \<Rightarrow> (bool \<times> int list) result" where
  "greedy_step draft_token_ids target_argmax start_idx pos = (\<lambda>(rejected, row).
     if rejected then Inr (rejected, row)
     else rbind (py_get draft_token_ids (start_idx + pos)) (\<lambda>draft_token_id.
          rbind (py_get target_argmax (start_idx + pos)) (\<lambda>target_argmax_id.
          rbind (py_set row pos (int target_argmax_id)) (\<lambda>row. Inr (draft_token_id \<noteq> int target_argmax_id, row)))))"

definition append_bonus :: "int list \<Rightarrow> nat \<Rightarrow> nat \<Rightarrow> bool \<times> int list \<Rightarrow> int list result" where
  "append_bonus bonus_token_ids req_idx n = (\<lambda>(rejected, row).
     if rejected then Inr row else rbind (py_get bonus_token_ids req_idx) (py_set row n))"

definition rejection_greedy_sample_kernel ::
  "int list \<Rightarrow> int list \<Rightarrow> nat list \<Rightarrow> int list \<Rightarrow> bool list option \<Rightarrow> nat \<Rightarrow> int list \<Rightarrow> int list result" where
  "rejection_greedy_sample_kernel cu_num_draft_tokens draft_token_ids target_argmax bonus_token_ids is_greedy req_idx row =
     rbind (case is_greedy of None \<Rightarrow> Inr True | Some gs \<Rightarrow> py_get gs req_idx) (\<lambda>greedy.
     if \<not> greedy then Inr row
     else rbind (token_range cu_num_draft_tokens req_idx) (\<lambda>(start_idx, n).
          rbind (rfold (greedy_step draft_token_ids target_argmax start_idx) [0..<n] (False, row)) (append_bonus bonus_token_ids req_idx n)))"

text \<open>The test of the random kernel. Without draft probabilities the draft token has probability one.\<close>

definition accepts :: "real \<Rightarrow> real \<Rightarrow> real \<Rightarrow> bool" where
  "accepts draft_prob target_prob uniform_prob \<longleftrightarrow> draft_prob > 0 \<and> target_prob / draft_prob \<ge> uniform_prob"

definition prob_at :: "mat \<Rightarrow> nat \<Rightarrow> int \<Rightarrow> real result" where
  "prob_at probs i t = rbind (py_get probs i) (\<lambda>row. if 0 \<le> t then py_get row (nat t) else Inl IndexError)"

definition random_step ::
  "int list \<Rightarrow> mat option \<Rightarrow> mat \<Rightarrow> nat list \<Rightarrow> vec \<Rightarrow> nat \<Rightarrow> nat \<Rightarrow> bool \<times> int list \<Rightarrow> (bool \<times> int list) result" where
  "random_step draft_token_ids draft_probs target_probs recovered_token_ids uniform_probs start_idx pos = (\<lambda>(rejected, row).
     if rejected then Inr (rejected, row)
     else rbind (py_get draft_token_ids (start_idx + pos)) (\<lambda>draft_token_id.
          rbind (case draft_probs of None \<Rightarrow> Inr 1 | Some ps \<Rightarrow> prob_at ps (start_idx + pos) draft_token_id) (\<lambda>draft_prob.
          rbind (prob_at target_probs (start_idx + pos) draft_token_id) (\<lambda>target_prob.
          rbind (py_get uniform_probs (start_idx + pos)) (\<lambda>uniform_prob.
          if accepts draft_prob target_prob uniform_prob
          then rbind (py_set row pos draft_token_id) (\<lambda>row. Inr (False, row))
          else rbind (py_get recovered_token_ids (start_idx + pos)) (\<lambda>t. rbind (py_set row pos (int t)) (\<lambda>row. Inr (True, row))))))))"

definition rejection_random_sample_kernel ::
  "int list \<Rightarrow> int list \<Rightarrow> mat option \<Rightarrow> mat \<Rightarrow> int list \<Rightarrow> nat list \<Rightarrow> vec \<Rightarrow> bool list \<Rightarrow> nat \<Rightarrow> int list \<Rightarrow> int list result" where
  "rejection_random_sample_kernel cu_num_draft_tokens draft_token_ids draft_probs target_probs bonus_token_ids recovered_token_ids uniform_probs is_greedy req_idx row =
     rbind (py_get is_greedy req_idx) (\<lambda>greedy.
     if greedy then Inr row
     else rbind (token_range cu_num_draft_tokens req_idx) (\<lambda>(start_idx, n).
          rbind (rfold (random_step draft_token_ids draft_probs target_probs recovered_token_ids uniform_probs start_idx) [0..<n] (False, row))
            (append_bonus bonus_token_ids req_idx n)))"

text \<open>The kernel runs once per row of the output.\<close>

definition launch :: "(nat \<Rightarrow> 'a \<Rightarrow> 'a result) \<Rightarrow> 'a list \<Rightarrow> 'a list result" where
  "launch krn rows = rmap (\<lambda>(req_idx, row). krn req_idx row) (enumerate 0 rows)"

text \<open>Stores of the first \<open>MAX_SPEC_LEN\<close> tokens only.\<close>

definition expand_kernel :: "'a list \<Rightarrow> int list \<Rightarrow> 'a \<Rightarrow> 'a \<Rightarrow> nat \<Rightarrow> 'a list \<Rightarrow> 'a list result" where
  "expand_kernel x cu_num_tokens replace_from replace_to req_idx out =
     rbind (token_range cu_num_tokens req_idx) (\<lambda>(start_idx, n).
     rbind (py_get x req_idx) (\<lambda>src_val.
       rfold (\<lambda>offset out. py_set out (start_idx + offset) (if src_val = replace_from then replace_to else src_val)) (filter (\<lambda>offset. offset < n) [0..<MAX_SPEC_LEN]) out))"

definition expand_batch_to_tokens :: "'a list \<Rightarrow> 'a list \<Rightarrow> int list \<Rightarrow> 'a \<Rightarrow> 'a \<Rightarrow> 'a list result" where
  "expand_batch_to_tokens fresh x cu_num_tokens replace_from replace_to =
     (if length cu_num_tokens \<noteq> length x then Inl AssertionError
      else rfold (expand_kernel x cu_num_tokens replace_from replace_to) [0..<length x] fresh)"

text \<open>
  The recovered token of a position. The vocabulary is padded to \<open>padded\<close> entries with probability 0 and noise minus infinity, so with quotient 0.
\<close>

definition residual :: "vec option \<Rightarrow> vec \<Rightarrow> nat \<Rightarrow> vec" where
  "residual draft_prob target_prob draft_token_id =
     (case draft_prob of None \<Rightarrow> target_prob[draft_token_id := 0] | Some d \<Rightarrow> map2 (\<lambda>t d. max (t - d) 0) target_prob d)"

definition recovered_id :: "nat \<Rightarrow> vec \<Rightarrow> vec \<Rightarrow> nat" where
  "recovered_id padded q prob = argmax (map2 (/) prob q @ replicate (padded - length prob) 0)"

definition sample_recovered_tokens_kernel ::
  "int list \<Rightarrow> int list \<Rightarrow> mat option \<Rightarrow> mat \<Rightarrow> mat \<Rightarrow> nat \<Rightarrow> nat \<times> nat \<Rightarrow> nat list \<Rightarrow> nat list result" where
  "sample_recovered_tokens_kernel cu_num_draft_tokens draft_token_ids draft_probs target_probs q padded = (\<lambda>(req_idx, pos) out.
     rbind (token_range cu_num_draft_tokens req_idx) (\<lambda>(start_idx, n).
     if n \<le> pos then Inr out
     else rbind (py_get draft_token_ids (start_idx + pos)) (\<lambda>draft_token_id.
          rbind (prob_at target_probs (start_idx + pos) draft_token_id) (\<lambda>_.
          rbind (py_get target_probs (start_idx + pos)) (\<lambda>target_prob.
          rbind (case draft_probs of None \<Rightarrow> Inr None | Some ps \<Rightarrow> rbind (py_get ps (start_idx + pos)) (\<lambda>d. Inr (Some d))) (\<lambda>draft_prob.
          rbind (py_get q req_idx) (\<lambda>q.
            py_set out (start_idx + pos) (recovered_id padded q (residual draft_prob target_prob (nat draft_token_id))))))))))"

section \<open>The rejection sampler\<close>

text \<open>
  What the device supplies: \<open>torch.rand\<close>, \<open>exponential_\<close> and the numbers of the generators of seeded requests, the padded size of the vocabulary, and the
  contents of uninitialised tensors.
\<close>

record device =
  dev_rand :: "nat \<Rightarrow> vec"
  dev_seeded_rand :: "nat \<Rightarrow> nat \<Rightarrow> vec"
  dev_exponential :: "nat \<Rightarrow> nat \<Rightarrow> mat"
  dev_seeded_exponential :: "nat \<Rightarrow> nat \<Rightarrow> vec"
  dev_next_power_of_2 :: "nat \<Rightarrow> nat"
  dev_junk :: "nat \<Rightarrow> int"

definition generate_uniform_probs :: "device \<Rightarrow> int option arr \<Rightarrow> nat \<Rightarrow> int list \<Rightarrow> vec" where
  "generate_uniform_probs dev generators n_tokens counts =
     snd (fold (\<lambda>(req_idx, n) (start_idx, u).
       if n = 0 then (start_idx, u)
       else let end_idx = start_idx + n
            in (end_idx, case aget generators req_idx of None \<Rightarrow> u
                 | Some _ \<Rightarrow> take start_idx u @ dev_seeded_rand dev req_idx (length (py_slice start_idx end_idx u)) @ drop end_idx u))
       (enumerate 0 (map nat counts)) (0, dev_rand dev n_tokens))"

definition sample_recovered_tokens ::
  "device \<Rightarrow> sampling_metadata \<Rightarrow> nat \<Rightarrow> int list \<Rightarrow> int list \<Rightarrow> int list \<Rightarrow> mat option \<Rightarrow> mat \<Rightarrow> nat list result" where
  "sample_recovered_tokens dev md max_len counts cu_num_draft_tokens draft_token_ids draft_probs target_probs =
     (let v = (case target_probs of [] \<Rightarrow> 0 | row # _ \<Rightarrow> length row)
      in rbind (rfold (\<lambda>(i, _) q. rbind (py_get counts i) (\<lambda>n. if 0 < n then py_set q i (dev_seeded_exponential dev i v) else Inr q))
           (arr_items (md_generators md)) (dev_exponential dev (length counts) v)) (\<lambda>q.
         rfold (sample_recovered_tokens_kernel cu_num_draft_tokens draft_token_ids draft_probs target_probs q (dev_next_power_of_2 dev v))
           (List.product [0..<length counts] [0..<max_len]) (map (\<lambda>i. nat (dev_junk dev i)) [0..<length draft_token_ids])))"

text \<open>The target values are probabilities, or for a greedy batch the logits themselves.\<close>

definition compute_probs :: "(logits \<Rightarrow> nat list) \<Rightarrow> device \<Rightarrow> sampling_metadata \<Rightarrow> int list \<Rightarrow> logits list \<Rightarrow> logits list result" where
  "compute_probs argsort dev md cu_num_draft_tokens logits =
     (if all_greedy md then Inr logits
      else let fresh = map (\<lambda>i. of_int (dev_junk dev i)) [0..<length logits]
      in rbind (case md_temperature md of None \<Rightarrow> Inl AttributeError
           | Some t \<Rightarrow> expand_batch_to_tokens fresh t cu_num_draft_tokens GREEDY_TEMPERATURE 1) (\<lambda>temp.
         let logits = apply_temperature temp logits
         in rbind (case md_top_k md of None \<Rightarrow> Inr None
              | Some k \<Rightarrow> rbind (expand_batch_to_tokens (map (dev_junk dev) [0..<length logits]) k cu_num_draft_tokens 0 0) (\<lambda>k. Inr (Some k))) (\<lambda>ks.
            rbind (case md_top_p md of None \<Rightarrow> Inr None
              | Some p \<Rightarrow> rbind (expand_batch_to_tokens fresh p cu_num_draft_tokens 0 0) (\<lambda>p. Inr (Some p))) (\<lambda>ps.
            rbind (apply_top_k_top_p argsort ks ps logits) (\<lambda>logits. Inr (map (\<lambda>row. map Some (lsoftmax row)) logits))))))"

definition prob_rows :: "logits list \<Rightarrow> mat" where
  "prob_rows = map (map (\<lambda>x. case x of None \<Rightarrow> 0 | Some p \<Rightarrow> p))"

definition rejection_sample ::
  "device \<Rightarrow> sampling_metadata \<Rightarrow> int list \<Rightarrow> int list \<Rightarrow> nat \<Rightarrow> int list \<Rightarrow> mat option \<Rightarrow> logits list \<Rightarrow> int list \<Rightarrow> int list list result" where
  "rejection_sample dev md draft_token_ids counts max_len cu_num_draft_tokens draft_probs target_probs bonus_token_ids =
     (if length target_probs \<noteq> length draft_token_ids then Inl AssertionError
      else let out = replicate (length counts) (replicate (max_len + 1) PLACEHOLDER_TOKEN_ID);
               is_greedy = (if all_greedy md then None
                 else Some (case md_temperature md of None \<Rightarrow> [] | Some t \<Rightarrow> map (\<lambda>x. x = GREEDY_TEMPERATURE) t))
      in rbind (if \<not> all_random md
           then launch (rejection_greedy_sample_kernel cu_num_draft_tokens draft_token_ids (map argmax target_probs) bonus_token_ids is_greedy) out
           else Inr out) (\<lambda>out.
         if \<not> all_random md \<and> all_greedy md then Inr out
         else let probs = prob_rows target_probs;
                  uniform_probs = generate_uniform_probs dev (md_generators md) (length draft_token_ids) counts
         in rbind (sample_recovered_tokens dev md max_len counts cu_num_draft_tokens draft_token_ids draft_probs probs) (\<lambda>recovered_token_ids.
            launch (rejection_random_sample_kernel cu_num_draft_tokens draft_token_ids draft_probs probs bonus_token_ids recovered_token_ids
              uniform_probs (case is_greedy of None \<Rightarrow> [] | Some gs \<Rightarrow> gs)) out)))"

definition rejection_forward ::
  "(logits \<Rightarrow> nat list) \<Rightarrow> device \<Rightarrow> spec_decode_metadata \<Rightarrow> mat option \<Rightarrow> logits list \<Rightarrow> int list \<Rightarrow> sampling_metadata \<Rightarrow> int list list result" where
  "rejection_forward argsort dev sd draft_probs target_logits bonus_token_ids md =
     (if \<not> max_spec_len sd \<le> int MAX_SPEC_LEN then Inl AssertionError
      else rbind (compute_probs argsort dev md (sd_cu_num_draft_tokens sd) target_logits) (\<lambda>target_probs.
        rejection_sample dev md (sd_draft_token_ids sd) (sd_num_draft_tokens sd) (nat (max_spec_len sd)) (sd_cu_num_draft_tokens sd) draft_probs target_probs
          bonus_token_ids))"

definition parse_output :: "int list list \<Rightarrow> nat \<Rightarrow> int list list" where
  "parse_output rows v = map (filter (\<lambda>t. t \<noteq> PLACEHOLDER_TOKEN_ID \<and> t < int v)) rows"

section \<open>Sampling of a step\<close>

text \<open>
  The requests whose prompt is not computed completely: their sampled tokens are dropped. (Their generators are set back, which the model leaves out.)
\<close>

definition partial_prefills :: "scheduler_output \<Rightarrow> model_runner \<Rightarrow> nat list result" where
  "partial_prefills so mr =
     rfold (\<lambda>(i, r) is. case r of None \<Rightarrow> Inl KeyError
       | Some rid \<Rightarrow> (case mr_requests mr rid of None \<Rightarrow> Inl KeyError
         | Some c \<Rightarrow> (case map_of (out_num_scheduled_tokens so) rid of None \<Rightarrow> Inl KeyError
           | Some n \<Rightarrow> Inr (if cs_num_computed_tokens c + n < int (cs_num_tokens c) then is @ [i] else is))))
       (enumerate 0 (ib_req_ids (mr_batch mr))) []"

definition sample_tokens ::
  "(logits \<Rightarrow> nat list) \<Rightarrow> (logits \<Rightarrow> nat \<Rightarrow> nat list) \<Rightarrow> device \<Rightarrow> mat \<Rightarrow> int list list \<Rightarrow> sampling_metadata \<Rightarrow> spec_decode_metadata option \<Rightarrow> nat \<Rightarrow> nat list \<Rightarrow>
   logits list \<Rightarrow> int list list result" where
  "sample_tokens argsort topk dev noise past md spec v discard logits =
     rbind (case spec of None \<Rightarrow> rbind (sampler_forward argsort topk noise past md logits) (\<lambda>so. Inr (map (map int) (so_sampled_token_ids so)))
       | Some sd \<Rightarrow>
           rbind (np_index logits (bonus_logits_indices sd)) (\<lambda>bonus_logits.
           rbind (sampler_forward argsort topk noise past md bonus_logits) (\<lambda>so.
           rbind (np_index logits (target_logits_indices sd)) (\<lambda>target_logits.
             rejection_forward argsort dev sd None target_logits (map int (concat (so_sampled_token_ids so))) md)))) (\<lambda>rows.
       let valid = (if \<forall>row \<in> set rows. length row = 1 then rows else parse_output rows v)
       in rfold (\<lambda>i valid. py_set valid i []) discard valid)"

text \<open>The rows of the bitmask in the order of the batch. \<open>xgr.apply_token_bitmask_inplace\<close> is the argument \<open>apply_bitmask\<close>.\<close>

definition bitmask_rows :: "scheduler_output \<Rightarrow> input_batch \<Rightarrow> ((string \<times> nat) list \<times> bool) result" where
  "bitmask_rows so b =
     rfold (\<lambda>r (rows, indices_match). case r of None \<Rightarrow> Inr (rows, indices_match)
       | Some rid \<Rightarrow> (case map_of (out_structured_ids so) rid of None \<Rightarrow> Inr (rows, indices_match)
         | Some mask_index \<Rightarrow> (case map_of (input_batch.req_id_to_index b) rid of None \<Rightarrow> Inl KeyError
           | Some batch_index \<Rightarrow> Inr (AList.update rid batch_index rows, indices_match \<and> batch_index = mask_index))))
       (ib_req_ids b) ([], True)"

definition apply_grammar_bitmask ::
  "(int list list \<Rightarrow> nat list \<Rightarrow> logits list \<Rightarrow> logits list) \<Rightarrow> int list list option \<Rightarrow> scheduler_output \<Rightarrow> input_batch \<Rightarrow> logits list \<Rightarrow> logits list result" where
  "apply_grammar_bitmask apply_bitmask bitmask so b logits =
     (case bitmask of None \<Rightarrow> Inr logits
      | Some bitmask \<Rightarrow>
          rbind (bitmask_rows so b) (\<lambda>(rows, indices_match).
          rbind (if indices_match then Inr bitmask
            else rfold (\<lambda>(rid, batch_index) out. case map_of (out_structured_ids so) rid of None \<Rightarrow> Inl KeyError
              | Some orig_index \<Rightarrow> rbind (py_get bitmask orig_index) (py_set out batch_index)) rows (map (map (\<lambda>_. 0)) bitmask)) (\<lambda>bitmask.
            Inr (apply_bitmask bitmask (map snd rows) logits))))"

section \<open>Draft tokens of the n-gram proposer\<close>

definition is_spec_decode_supported :: "string option \<Rightarrow> input_batch \<Rightarrow> bool" where
  "is_spec_decode_supported r b =
     (case r of None \<Rightarrow> True
      | Some rid \<Rightarrow>
          if rid \<in> set (min_p_reqs b) then False
          else if rid \<in> set (frequency_penalties_reqs b) \<or> rid \<in> set (presence_penalties_reqs b) \<or> rid \<in> set (repetition_penalties_reqs b) then False
          else if rid \<in> fst ` set (num_logprobs b) then False
          else True)"

fun draft_loop :: "ngram_proposer \<Rightarrow> nat \<Rightarrow> nat \<Rightarrow> int list list \<Rightarrow> input_batch \<Rightarrow> (int list list \<times> input_batch) result option" where
  "draft_loop p max_len i [] b = Some (Inr ([], b))"
| "draft_loop p max_len i (ids # idss) b =
     (let skip = map_option (map_sum id (apfst ((#) []))) (draft_loop p max_len (Suc i) idss b)
      in if ids = [] then skip
         else if length (ib_req_ids b) \<le> i then Some (Inl IndexError)
         else if \<not> is_spec_decode_supported (ib_req_ids b ! i) b then skip
         else let start_idx = row_num_tokens_no_spec (ib_rows b i); end_idx = start_idx + int (length ids)
         in if int max_len \<le> end_idx then skip
            else case np_assign start_idx end_idx ids (row_token_ids (ib_rows b i)) of Inl e \<Rightarrow> Some (Inl e)
              | Inr ts \<Rightarrow> let b = upd_row i (\<lambda>r. r\<lparr>row_token_ids := ts\<rparr>) b
                in (case propose p (py_islice 0 end_idx ts) of None \<Rightarrow> None
                   | Some (Inl e) \<Rightarrow> Some (Inl e)
                   | Some (Inr drafts) \<Rightarrow>
                       map_option (map_sum id (apfst ((#) (case drafts of None \<Rightarrow> [] | Some ds \<Rightarrow> ds)))) (draft_loop p max_len (Suc i) idss b)))"

definition generate_draft_token_ids :: "ngram_proposer \<Rightarrow> nat \<Rightarrow> int list list \<Rightarrow> input_batch \<Rightarrow> (int list list \<times> input_batch) result option" where
  "generate_draft_token_ids p max_len sampled b = draft_loop p max_len 0 sampled b"

section \<open>The loop over the draft tokens\<close>

text \<open>The tokens that a request emits: \<open>vals\<close> up to and including the first rejected position, or all of them and the bonus token.\<close>

definition emit :: "(nat \<Rightarrow> int) \<Rightarrow> (nat \<Rightarrow> bool) \<Rightarrow> nat \<Rightarrow> int \<Rightarrow> int list" where
  "emit vals rej n bonus =
     (let k = length (takeWhile (\<lambda>j. \<not> rej j) [0..<n]) in map vals [0..<min n (Suc k)] @ (if k = n then [bonus] else []))"

lemma length_emit: "0 < length (emit vals rej n bonus) \<and> length (emit vals rej n bonus) \<le> Suc n"
proof -
  have "length (takeWhile (\<lambda>j. \<not> rej j) [0..<n]) \<le> n" by (metis diff_zero length_takeWhile_le length_upt)
  then show ?thesis by (auto simp: emit_def Let_def)
qed

lemma emit_loop:
  fixes placeholder :: int
  assumes run: "\<And>j row. j < n \<Longrightarrow> step j (False, row) = rbind (py_set row j (vals j)) (\<lambda>row. Inr (rej j, row))"
    and stop: "\<And>j row. j < n \<Longrightarrow> step j (True, row) = Inr (True, row)" and i: "i \<le> n" "n \<le> m"
  shows "rfold step [0..<i] (False, replicate (Suc m) placeholder) =
    (let k = length (takeWhile (\<lambda>j. \<not> rej j) [0..<i]); w = min i (Suc k) in Inr (k < i, map vals [0..<w] @ replicate (Suc m - w) placeholder))"
  using i
proof (induction i)
  case (Suc i)
  let ?k = "length (takeWhile (\<lambda>j. \<not> rej j) [0..<i])" and ?k' = "length (takeWhile (\<lambda>j. \<not> rej j) [0..<Suc i])"
  have le: "?k \<le> i" by (metis diff_zero length_takeWhile_le length_upt)
  have IH: "rfold step [0..<i] (False, replicate (Suc m) placeholder) = Inr (?k < i, map vals [0..<min i (Suc ?k)] @ replicate (Suc m - min i (Suc ?k)) placeholder)"
    using Suc by (simp add: Let_def)
  show ?case
  proof (cases "?k < i")
    case True
    then have "takeWhile (\<lambda>j. \<not> rej j) [0..<Suc i] = takeWhile (\<lambda>j. \<not> rej j) [0..<i]"
      by (metis diff_zero length_upt less_irrefl_nat takeWhile_append1 takeWhile_eq_all_conv upt_Suc_append zero_le)
    then show ?thesis using IH True stop [of i] Suc.prems by (simp add: rfold_append Let_def)
  next
    case False
    then have k: "?k = i" using le by simp
    then have all: "\<forall>j < i. \<not> rej j" by (metis atLeast0LessThan diff_zero length_upt lessThan_iff set_upt takeWhile_eq_all_conv takeWhile_eq_take take_all_iff order_refl)
    then have k': "?k' = (if rej i then i else Suc i)" by (simp add: takeWhile_append)
    have "(map vals [0..<i] @ replicate (Suc m - i) placeholder)[i := vals i] = map vals [0..<Suc i] @ replicate (m - i) placeholder"
      using Suc.prems by (simp add: list_update_append Suc_diff_le)
    then show ?thesis using IH k k' run [of i] Suc.prems by (auto simp: rfold_append Let_def py_set_def)
  qed
qed simp

definition padded_row :: "nat \<Rightarrow> int list \<Rightarrow> int list" where
  "padded_row m ts = ts @ replicate (Suc m - length ts) PLACEHOLDER_TOKEN_ID"

text \<open>The loop followed by the bonus token writes what is emitted.\<close>

lemma emit_row:
  assumes "\<And>j row. j < n \<Longrightarrow> step j (False, row) = rbind (py_set row j (vals j)) (\<lambda>row. Inr (rej j, row))"
    and "\<And>j row. j < n \<Longrightarrow> step j (True, row) = Inr (True, row)" and "n \<le> m" and "r < length bonus"
  shows "rbind (rfold step [0..<n] (False, replicate (Suc m) PLACEHOLDER_TOKEN_ID)) (append_bonus bonus r n) = Inr (padded_row m (emit vals rej n (bonus ! r)))"
proof -
  let ?k = "length (takeWhile (\<lambda>j. \<not> rej j) [0..<n])"
  have k: "?k \<le> n" by (metis diff_zero length_takeWhile_le length_upt)
  have loop: "rfold step [0..<n] (False, replicate (Suc m) PLACEHOLDER_TOKEN_ID)
      = Inr (?k < n, map vals [0..<min n (Suc ?k)] @ replicate (Suc m - min n (Suc ?k)) PLACEHOLDER_TOKEN_ID)"
    using emit_loop [of n step vals rej n m PLACEHOLDER_TOKEN_ID] assms by (simp add: Let_def)
  show ?thesis
  proof (cases "?k = n")
    case True
    have "(map vals [0..<n] @ replicate (Suc m - n) PLACEHOLDER_TOKEN_ID)[n := b] = map vals [0..<n] @ b # replicate (m - n) PLACEHOLDER_TOKEN_ID" for b
      using assms(3) by (simp add: list_update_append Suc_diff_le)
    then show ?thesis using loop True assms(3,4) by (simp add: append_bonus_def emit_def padded_row_def py_get_def py_set_def)
  next
    case False
    then have "?k < n" using k by simp
    then show ?thesis using loop by (simp add: append_bonus_def emit_def padded_row_def Let_def)
  qed
qed

lemma token_range_flat: "r < length ds \<Longrightarrow> token_range (cumsum (map int ds)) r = Inr (off ds r, ds ! r)"
  by (cases r) (simp_all add: token_range_def cumsum_off py_get_def off_Suc, simp add: off_def)

lemma py_get_flat: "r < length ds \<Longrightarrow> j < ds ! r \<Longrightarrow> py_get (flat f ds) (off ds r + j) = Inr (f r j)"
  using off_le [of r ds] by (simp add: py_get_def flat_nth)

lemma launch_rows:
  assumes "\<And>r. r < n \<Longrightarrow> krn r (rows ! r) = Inr (f r)" and "length rows = n"
  shows "launch krn rows = Inr (map f [0..<n])"
  using assms by (simp add: launch_def rmap_Inr_iff list_all2_conv_all_nth nth_enumerate_eq)

lemma launch_replicate: "(\<And>r. r < n \<Longrightarrow> krn r row = Inr (f r)) \<Longrightarrow> launch krn (replicate n row) = Inr (map f [0..<n])"
  by (rule launch_rows) simp_all

lemma greedy_kernel_row:
  assumes "r < length ds" and "ds ! r \<le> m" and "r < length bonus" and "case is_greedy of None \<Rightarrow> True | Some gs \<Rightarrow> r < length gs \<and> gs ! r"
  shows "rejection_greedy_sample_kernel (cumsum (map int ds)) (flat d ds) (flat t ds) bonus is_greedy r (replicate (Suc m) PLACEHOLDER_TOKEN_ID)
    = Inr (padded_row m (emit (\<lambda>j. int (t r j)) (\<lambda>j. d r j \<noteq> int (t r j)) (ds ! r) (bonus ! r)))"
proof -
  have "rbind (rfold (greedy_step (flat d ds) (flat t ds) (off ds r)) [0..<ds ! r] (False, replicate (Suc m) PLACEHOLDER_TOKEN_ID)) (append_bonus bonus r (ds ! r))
      = Inr (padded_row m (emit (\<lambda>j. int (t r j)) (\<lambda>j. d r j \<noteq> int (t r j)) (ds ! r) (bonus ! r)))"
    using assms by (intro emit_row) (simp_all add: greedy_step_def py_get_flat)
  moreover have "(case is_greedy of None \<Rightarrow> Inr True | Some gs \<Rightarrow> py_get gs r) = Inr True" using assms(4) by (cases is_greedy) (simp_all add: py_get_def)
  ultimately show ?thesis using assms(1) by (simp add: rejection_greedy_sample_kernel_def token_range_flat)
qed

section \<open>The random kernel\<close>




text \<open>The recovered tokens: one store per draft token.\<close>

lemma py_set_loop:
  assumes "\<And>x out. x \<in> set xs \<Longrightarrow> length out = n \<Longrightarrow> f x out = (case g x of None \<Rightarrow> Inr out | Some (i, v) \<Rightarrow> py_set out i v)"
    and "\<And>x i v. x \<in> set xs \<Longrightarrow> g x = Some (i, v) \<Longrightarrow> i < n \<and> v = h i" and "length out = n"
  shows "\<exists>out'. rfold f xs out = Inr out' \<and> length out' = n \<and> (\<forall>i < n. out' ! i = (if \<exists>x \<in> set xs. \<exists>v. g x = Some (i, v) then h i else out ! i))"
  using assms
proof (induction xs arbitrary: out)
  case (Cons x xs)
  obtain out1 where out1: "f x out = Inr out1" "length out1 = n" "\<forall>i < n. out1 ! i = (if \<exists>v. g x = Some (i, v) then h i else out ! i)"
    using Cons.prems by (cases "g x") (force simp: py_set_def nth_list_update)+
  have "\<exists>out2. rfold f xs out1 = Inr out2 \<and> length out2 = n \<and> (\<forall>i < n. out2 ! i = (if \<exists>x \<in> set xs. \<exists>v. g x = Some (i, v) then h i else out1 ! i))"
  proof (rule Cons.IH)
    fix y i v assume "y \<in> set xs" "g y = Some (i, v)"
    then show "i < n \<and> v = h i" by (intro Cons.prems(2) [of y]) simp_all
  qed (simp_all add: Cons.prems(1) out1(2))
  with out1 show ?case by auto
qed auto



lemma emit_nth: "j < length (emit vals rej n bonus) \<Longrightarrow> emit vals rej n bonus ! j = (if j < n then vals j else bonus)"
  by (auto simp: emit_def Let_def nth_append split: if_splits)







section \<open>Random numbers\<close>








section \<open>Emitted tokens are possible\<close>










text \<open>The metadata of a batch with the draft tokens \<open>drafts\<close>, as \<open>_calc_spec_decode_metadata\<close> makes it.\<close>

definition metadata_for :: "int list list \<Rightarrow> spec_decode_metadata \<Rightarrow> bool" where
  "metadata_for drafts sd \<longleftrightarrow>
     (let ds = map length drafts
      in sd_draft_token_ids sd = flat (\<lambda>r j. drafts ! r ! j) ds \<and> sd_num_draft_tokens sd = map int ds \<and> sd_cu_num_draft_tokens sd = cumsum (map int ds)
         \<and> target_logits_indices sd = flat (\<lambda>r j. int (off (map Suc ds) r + j)) ds
         \<and> bonus_logits_indices sd = map (\<lambda>r. int (off (map Suc ds) r + ds ! r)) [0..<length ds] \<and> max_spec_len sd = Max (int ` set ds))"









text \<open>A uniform number of zero, which \<open>torch.rand\<close> may return, accepts a token of probability zero.\<close>

lemma zero_accepts_impossible: "accepts 1 0 0"
  by (simp add: accepts_def)

section \<open>Greedy speculative decoding\<close>

text \<open>Decoding one token after the other, for a model that continues a context with \<open>next\<close>.\<close>

fun gen :: "(int list \<Rightarrow> nat) \<Rightarrow> int list \<Rightarrow> nat \<Rightarrow> int list" where
  "gen next ctx 0 = []"
| "gen next ctx (Suc n) = int (next ctx) # gen next (ctx @ [int (next ctx)]) n"

text \<open>The number of leading draft tokens that agree with it.\<close>

fun accepted :: "(int list \<Rightarrow> nat) \<Rightarrow> int list \<Rightarrow> int list \<Rightarrow> nat" where
  "accepted next ctx [] = 0"
| "accepted next ctx (d # ds) = (if d = int (next ctx) then Suc (accepted next (ctx @ [d]) ds) else 0)"

lemma emit_Cons:
  "emit vals rej (Suc n) bonus = vals 0 # (if rej 0 then [] else emit (\<lambda>j. vals (Suc j)) (\<lambda>j. rej (Suc j)) n bonus)"
proof -
  have upt: "[0..<Suc n] = 0 # map Suc [0..<n]" for n by (simp add: upt_conv_Cons map_Suc_upt del: upt_Suc)
  show ?thesis
    by (cases "rej 0") (simp_all add: emit_def Let_def upt takeWhile_map comp_def min_def del: upt_Suc)
qed

lemma emit_cong:
  assumes "\<And>j. j < n \<Longrightarrow> vals j = vals' j" and "\<And>j. j < n \<Longrightarrow> rej j = rej' j" and "n = n'" and "bonus = bonus'"
  shows "emit vals rej n bonus = emit vals' rej' n' bonus'"
proof -
  have "takeWhile (\<lambda>j. \<not> rej j) [0..<n] = takeWhile (\<lambda>j. \<not> rej' j) [0..<n]" using assms(2) by (intro takeWhile_cong) simp_all
  then show ?thesis using assms by (simp add: emit_def Let_def)
qed

lemma emit_gen:
  "emit (\<lambda>j. int (next (ctx @ take j ds))) (\<lambda>j. ds ! j \<noteq> int (next (ctx @ take j ds))) (length ds) (int (next (ctx @ ds)))
    = gen next ctx (Suc (accepted next ctx ds))"
proof (induction ds arbitrary: ctx)
  case Nil
  then show ?case by (simp add: emit_def)
next
  case (Cons d ds)
  then show ?case using Cons [of "ctx @ [d]"] by (cases "d = int (next ctx)") (simp_all add: emit_Cons)
qed

lemma in_emit: "t \<in> set (emit vals rej n bonus) \<Longrightarrow> (\<exists>j < n. t = vals j) \<or> t = bonus"
  by (auto simp: emit_def Let_def split: if_splits)

lemma parse_padded_row:
  assumes "\<And>t. t \<in> set ts \<Longrightarrow> 0 \<le> t \<and> t < int v"
  shows "filter (\<lambda>t. t \<noteq> PLACEHOLDER_TOKEN_ID \<and> t < int v) (padded_row m ts) = ts"
  using assms by (force simp: padded_row_def PLACEHOLDER_TOKEN_ID_def filter_id_conv)

text \<open>A batch of greedy requests without further options: the sampler takes the greatest logit.\<close>

definition plain_greedy :: "sampling_metadata \<Rightarrow> bool" where
  "plain_greedy md \<longleftrightarrow> all_greedy md \<and> \<not> all_random md \<and> md_allowed_mask md = None \<and> arr_items (md_bad_words md) = []
     \<and> arr_items (md_min_tokens md) = [] \<and> (\<forall>bias \<in> set (md_logit_bias md). bias = None) \<and> md_penalties md = None"

lemma plain_greedy_forward:
  assumes "plain_greedy md"
  shows "\<exists>so. sampler_forward argsort topk noise past md logits = Inr so \<and> so_sampled_token_ids so = map (\<lambda>row. [argmax row]) logits"
proof -
  have "rfold (\<lambda>(i, bias) logits. case bias of None \<Rightarrow> Inr logits | Some b \<Rightarrow> if b = [] then Inr logits else on_row i (apply_bias_row b) logits)
      xs logits = Inr logits" if "\<forall>x \<in> set xs. snd x = None" for xs
    using that by (induction xs) auto
  moreover have "\<forall>x \<in> set (enumerate 0 (md_logit_bias md)). snd x = None"
    using assms by (auto simp: plain_greedy_def enumerate_eq_zip dest: set_zip_rightD)
  ultimately have "apply_logits_bias (md_logit_bias md) logits = Inr logits" by (simp add: apply_logits_bias_def)
  then show ?thesis
    using assms by (simp add: plain_greedy_def sampler_forward_def process_logits_def apply_allowed_token_ids_def apply_bad_words_def apply_penalties_def
        apply_min_token_penalties_def sample_def greedy_sample_def comp_def)
qed

text \<open>The rows of the logits that a request with draft tokens uses.\<close>

lemma logits_rows:
  assumes "length logits = sum_list (map Suc ds)"
  shows "np_index logits (map (\<lambda>r. int (off (map Suc ds) r + ds ! r)) [0..<length ds]) = Inr (map (\<lambda>r. logits ! (off (map Suc ds) r + ds ! r)) [0..<length ds])"
    and "np_index logits (flat (\<lambda>r j. int (off (map Suc ds) r + j)) ds) = Inr (flat (\<lambda>r j. logits ! (off (map Suc ds) r + j)) ds)"
proof -
  have *: "off (map Suc ds) r + j < length logits" if "r < length ds" "j \<le> ds ! r" for r j
    using off_le [of r "map Suc ds"] that assms by simp
  show "np_index logits (map (\<lambda>r. int (off (map Suc ds) r + ds ! r)) [0..<length ds]) = Inr (map (\<lambda>r. logits ! (off (map Suc ds) r + ds ! r)) [0..<length ds])"
    unfolding np_index_def rmap_Inr_iff list_all2_conv_all_nth using py_iget_nat [OF *] by simp
  show "np_index logits (flat (\<lambda>r j. int (off (map Suc ds) r + j)) ds) = Inr (flat (\<lambda>r j. logits ! (off (map Suc ds) r + j)) ds)"
    unfolding np_index_def by (intro rmap_flat py_iget_nat *) simp_all
qed

lemma rows_or_parsed:
  assumes "\<And>r. r < n \<Longrightarrow> ts r \<noteq> []" and "\<And>r t. r < n \<Longrightarrow> t \<in> set (ts r) \<Longrightarrow> 0 \<le> t \<and> t < int v"
  shows "(let rows = map (\<lambda>r. padded_row m (ts r)) [0..<n] in if \<forall>row \<in> set rows. length row = 1 then rows else parse_output rows v) = map ts [0..<n]"
proof -
  have "padded_row m (ts r) = ts r" if "r < n" "length (padded_row m (ts r)) = 1" for r
    using that assms(1) [OF that(1)] by (cases "ts r") (auto simp: padded_row_def)
  moreover have "filter (\<lambda>t. t \<noteq> PLACEHOLDER_TOKEN_ID \<and> t < int v) (padded_row m (ts r)) = ts r" if "r < n" for r
    using assms(2) [OF that] by (rule parse_padded_row)
  ultimately show ?thesis by (auto simp: parse_output_def Let_def)
qed

lemma rejection_forward_greedy:
  fixes drafts :: "int list list"
  defines "ds \<equiv> map length drafts"
  assumes greedy: "all_greedy md" "\<not> all_random md" and sd: "metadata_for drafts sd" and ne: "drafts \<noteq> []" "\<forall>ds \<in> set drafts. length ds \<le> MAX_SPEC_LEN"
    and bonus: "length bonus = length drafts"
  shows "rejection_forward argsort dev sd None (flat row ds) bonus md = Inr (map (\<lambda>r. padded_row (nat (max_spec_len sd))
      (emit (\<lambda>j. int (argmax (row r j))) (\<lambda>j. drafts ! r ! j \<noteq> int (argmax (row r j))) (ds ! r) (bonus ! r))) [0..<length drafts])"
proof -
  let ?m = "nat (max_spec_len sd)"
  have max: "max_spec_len sd = Max (int ` set ds)" using sd by (simp add: metadata_for_def ds_def Let_def)
  have m: "ds ! r \<le> ?m" if "r < length drafts" for r
  proof -
    have "int (ds ! r) \<le> Max (int ` set ds)" using that by (intro Max_ge) (auto simp: ds_def)
    then show ?thesis unfolding max by linarith
  qed
  have m32: "max_spec_len sd \<le> int MAX_SPEC_LEN" unfolding max ds_def using ne by (subst Max_le_iff) auto
  have "launch (rejection_greedy_sample_kernel (cumsum (map int ds)) (flat (\<lambda>r j. drafts ! r ! j) ds) (flat (\<lambda>r j. argmax (row r j)) ds) bonus None)
      (replicate (length drafts) (replicate (Suc ?m) PLACEHOLDER_TOKEN_ID)) = Inr (map (\<lambda>r. padded_row ?m
        (emit (\<lambda>j. int (argmax (row r j))) (\<lambda>j. drafts ! r ! j \<noteq> int (argmax (row r j))) (ds ! r) (bonus ! r))) [0..<length drafts])"
    using m bonus by (intro launch_replicate greedy_kernel_row) (simp_all add: ds_def)
  then show ?thesis
    using sd greedy m32
    by (simp add: rejection_forward_def compute_probs_def rejection_sample_def metadata_for_def ds_def Let_def map_flat del: replicate_Suc)
qed

text \<open>What a step of a greedy batch emits: the greatest logits of the target rows, and the bonus tokens \<open>b\<close> of the sampler.\<close>

lemma sample_tokens_greedy:
  fixes drafts :: "int list list" and lgs :: "logits list"
  defines "row r j \<equiv> lgs ! (off (map Suc (map length drafts)) r + j)"
  assumes greedy: "all_greedy md" "\<not> all_random md" and sd: "metadata_for drafts sd" and ne: "drafts \<noteq> []" "\<forall>ds \<in> set drafts. length ds \<le> MAX_SPEC_LEN"
    and lgs: "shaped (sum_list (map Suc (map length drafts))) v lgs" "0 < v"
    and so: "sampler_forward argsort topk noise past md (map (\<lambda>r. row r (length (drafts ! r))) [0..<length drafts]) = Inr so"
      "so_sampled_token_ids so = map (\<lambda>r. [b r]) [0..<length drafts]" "\<And>r. r < length drafts \<Longrightarrow> b r < v"
  shows "sample_tokens argsort topk dev noise past md (Some sd) v [] lgs
    = Inr (map (\<lambda>r. emit (\<lambda>j. int (argmax (row r j))) (\<lambda>j. drafts ! r ! j \<noteq> int (argmax (row r j))) (length (drafts ! r)) (int (b r))) [0..<length drafts])"
proof -
  let ?ds = "map length drafts" and ?n = "length drafts" and ?bonus = "map (\<lambda>r. int (b r)) [0..<length drafts]"
  let ?emit = "\<lambda>r. emit (\<lambda>j. int (argmax (row r j))) (\<lambda>j. drafts ! r ! j \<noteq> int (argmax (row r j))) (length (drafts ! r)) (int (b r))"
  have len: "length lgs = sum_list (map Suc ?ds)" using lgs(1) by (simp add: shaped_def comp_def)
  have fwd: "rejection_forward argsort dev sd None (flat row ?ds) ?bonus md = Inr (map (\<lambda>r. padded_row (nat (max_spec_len sd)) (?emit r)) [0..<?n])"
    using rejection_forward_greedy [OF greedy sd ne, of ?bonus argsort dev row] by (simp cong: map_cong)
  have token: "0 \<le> t \<and> t < int v" if r: "r < ?n" and t: "t \<in> set (?emit r)" for r t
  proof -
    have "argmax (row r j) < v" if "j < length (drafts ! r)" for j
    proof -
      have "off (map Suc ?ds) r + j < length lgs" using off_le [of r "map Suc ?ds"] r that len by simp
      then have "length (row r j) = v" using lgs(1) len by (simp add: shaped_iff row_def)
      then show ?thesis using argmax_nth(1) [of "row r j"] lgs(2) by (metis length_greater_0_conv)
    qed
    then show ?thesis using in_emit [OF t] so(3) [OF r] by auto
  qed
  have bonus: "map int (concat (so_sampled_token_ids so)) = ?bonus" by (simp add: so(2) comp_def)
  have idx: "np_index lgs (bonus_logits_indices sd) = Inr (map (\<lambda>r. row r (length (drafts ! r))) [0..<?n])" "np_index lgs (target_logits_indices sd) = Inr (flat row ?ds)"
    using logits_rows [OF len] sd unfolding metadata_for_def row_def by (simp_all add: Let_def cong: map_cong)
  have "sample_tokens argsort topk dev noise past md (Some sd) v [] lgs
      = Inr (let rows = map (\<lambda>r. padded_row (nat (max_spec_len sd)) (?emit r)) [0..<?n] in if \<forall>row \<in> set rows. length row = 1 then rows else parse_output rows v)"
    using so(1) fwd idx unfolding sample_tokens_def by (simp add: bonus Let_def)
  also have "\<dots> = Inr (map ?emit [0..<?n])"
    using token length_emit by (intro arg_cong [where f = Inr] rows_or_parsed) auto
  finally show ?thesis .
qed

text \<open>
  C3. In a batch of greedy requests without options that change the logits (\<open>plain_greedy\<close>: all requests are greedy, and none has allowed token ids, bad
  words, a minimal number of tokens, a logit bias or penalties) speculative decoding is lossless: whatever tokens are drafted, every request gets the
  tokens that decoding one token at a time gives it, at least one, and one more than the number of its leading draft tokens that agree with them. The model is
  any function \<open>next\<close> from contexts to tokens such that the logits row of a position has its greatest entry at the continuation of the tokens before it.
\<close>

theorem greedy_speculation_lossless:
  assumes plain: "plain_greedy md" and sd: "metadata_for drafts sd" and ne: "drafts \<noteq> []" "\<forall>ds \<in> set drafts. length ds \<le> MAX_SPEC_LEN"
    and logits: "shaped (sum_list (map (\<lambda>ds. Suc (length ds)) drafts)) v logits" "0 < v"
    and model: "\<And>r j. r < length drafts \<Longrightarrow> j \<le> length (drafts ! r) \<Longrightarrow>
      argmax (logits ! (off (map (\<lambda>ds. Suc (length ds)) drafts) r + j)) = next (ctx r @ take j (drafts ! r))"
  shows "sample_tokens argsort topk dev noise past md (Some sd) v [] logits
    = Inr (map (\<lambda>r. gen next (ctx r) (Suc (accepted next (ctx r) (drafts ! r)))) [0..<length drafts])"
proof -
  let ?ds = "map length drafts" and ?n = "length drafts"
  let ?row = "\<lambda>r j. logits ! (off (map Suc ?ds) r + j)"
  let ?emit = "\<lambda>r. emit (\<lambda>j. int (argmax (?row r j))) (\<lambda>j. drafts ! r ! j \<noteq> int (argmax (?row r j))) (length (drafts ! r)) (int (argmax (?row r (length (drafts ! r)))))"
  have S: "map Suc ?ds = map (\<lambda>ds. Suc (length ds)) drafts" by simp
  have shape: "shaped (sum_list (map Suc ?ds)) v logits" using logits(1) by (simp only: S)
  have last: "argmax (?row r (length (drafts ! r))) < v" if r: "r < ?n" for r
  proof -
    have "off (map Suc ?ds) r + length (drafts ! r) < length logits" using off_le [of r "map Suc ?ds"] r shape by (simp add: shaped_def)
    then have "length (?row r (length (drafts ! r))) = v" using shape by (simp add: shaped_iff)
    then show ?thesis using argmax_nth(1) [of "?row r (length (drafts ! r))"] logits(2) by (metis length_greater_0_conv)
  qed
  obtain so where so: "sampler_forward argsort topk noise past md (map (\<lambda>r. ?row r (length (drafts ! r))) [0..<?n]) = Inr so"
    "so_sampled_token_ids so = map (\<lambda>r. [argmax (?row r (length (drafts ! r)))]) [0..<?n]"
    using plain_greedy_forward [OF plain, of argsort topk noise past "map (\<lambda>r. ?row r (length (drafts ! r))) [0..<?n]"] by (auto simp: comp_def)
  have "?emit r = gen next (ctx r) (Suc (accepted next (ctx r) (drafts ! r)))" if r: "r < ?n" for r
  proof -
    have "?emit r = emit (\<lambda>j. int (next (ctx r @ take j (drafts ! r)))) (\<lambda>j. drafts ! r ! j \<noteq> int (next (ctx r @ take j (drafts ! r))))
        (length (drafts ! r)) (int (next (ctx r @ drafts ! r)))"
      unfolding S by (intro emit_cong) (simp_all add: model [OF r])
    then show ?thesis by (simp only: emit_gen)
  qed
  then show ?thesis
    using sample_tokens_greedy [OF _ _ sd ne shape logits(2) so last, of dev] plain by (simp add: plain_greedy_def cong: map_cong)
qed

definition greedy_metadata :: sampling_metadata where
  "greedy_metadata = \<lparr>md_temperature = None, all_greedy = True, all_random = False, md_top_p = None, md_top_k = None, md_min_p = None,
     md_generators = Arr [] None, max_num_logprobs = None, md_prompt_token_ids = None, md_penalties = None, md_output_token_ids = [Some ''r''],
     md_min_tokens = Arr [] None, md_logit_bias = [None], md_allowed_mask = None, md_bad_words = Arr [] None\<rparr>"

definition example_drafts :: spec_decode_metadata where
  "example_drafts = \<lparr>sd_draft_token_ids = [1, 0], sd_num_draft_tokens = [2], sd_cu_num_draft_tokens = [2], target_logits_indices = [0, 1],
     bonus_logits_indices = [2], sd_logits_indices = [0, 1, 2], max_spec_len = 2\<rparr>"

text \<open>A model that counts: it continues a context with its length modulo 3. The second draft token is wrong.\<close>

theorem greedy_speculation_lossless_witness:
  "\<forall>argsort topk dev noise past.
     sample_tokens argsort topk dev noise past greedy_metadata (Some example_drafts) 3 [] [[Some 0, Some 1, None], [Some 0, None, Some 1], [Some 1, None, None]]
     = Inr [[1, 2]]"
proof (intro allI)
  fix argsort topk dev noise past
  have "metadata_for [[1, 0]] example_drafts"
    by (simp add: metadata_for_def example_drafts_def Let_def flat_def off_def upt_rec)
  moreover have "plain_greedy greedy_metadata" by (simp add: plain_greedy_def greedy_metadata_def arr_items_def)
  moreover have "argmax ([[Some (0 :: real), Some 1, None], [Some 0, None, Some 1], [Some 1, None, None]] ! (off (map (\<lambda>ds. Suc (length ds)) [[1, 0]]) r + j))
      = length ([7] @ take j ([[1, 0]] ! r)) mod 3" if "r < length [[1, 0 :: int]]" "j \<le> length ([[1, 0 :: int]] ! r)" for r j
    using that by (auto simp: off_def argmax_def le_Suc_eq numeral_2_eq_2)
  ultimately show "sample_tokens argsort topk dev noise past greedy_metadata (Some example_drafts) 3 []
      [[Some 0, Some 1, None], [Some 0, None, Some 1], [Some 1, None, None]] = Inr [[1, 2]]"
    using greedy_speculation_lossless [of greedy_metadata "[[1, 0]]" example_drafts 3 "[[Some 0, Some 1, None], [Some 0, None, Some 1], [Some 1, None, None]]"
        "\<lambda>ctx. length ctx mod 3" "\<lambda>_. [7]" argsort topk dev noise past]
    by (simp add: shaped_def MAX_SPEC_LEN_def)
qed

section \<open>From the inputs of a step to its drafts\<close>

text \<open>The draft tokens of the rows: the last \<open>ds ! r\<close> of the \<open>ns ! r\<close> scheduled tokens.\<close>

definition drafts_of :: "input_batch \<Rightarrow> nat list \<Rightarrow> nat list \<Rightarrow> int list list" where
  "drafts_of b ns ds = map (\<lambda>r. map (\<lambda>j. row_token_ids (ib_rows b r) ! token_pos b r (ns ! r - ds ! r + j)) [0..<ds ! r]) [0..<length ds]"

lemma length_drafts_of: "map length (drafts_of b ns ds) = ds"
  by (rule nth_equalityI) (simp_all add: drafts_of_def)

lemma prepared_metadata:
  assumes ok: "step_ok bs arange buffer max_len so b ns ds" and spec: "out_spec_decode_tokens so \<noteq> []" and buf: "sum_list (map Suc ds) \<le> arange"
  shows "\<exists>inp sd. prepare_inputs cascade bs arange buffer max_len so b = Inr (inp, committed b) \<and> in_spec_decode inp = Some sd \<and> metadata_for (drafts_of b ns ds) sd"
proof -
  have len: "length ds = length ns" "ns \<noteq> []" using ok by (simp_all add: step_ok_def)
  have ds: "ds ! r < ns ! r" if "r < length ns" for r using step_okD [OF ok, of r] ok that by (simp add: row_sched_def step_ok_def)
  let ?ids = "flat (\<lambda>r j. row_token_ids (ib_rows b r) ! token_pos b r j) ns @ drop (sum_list ns) buffer"
  have "sum_list ns \<le> length ?ids" by simp
  note calc = calc_spec_decode_metadata_flat [OF len _ buf this, simplified ds simp_thms]
  have "flat (\<lambda>r j. ?ids ! (off ns r + ns ! r - ds ! r + j)) ds = flat (\<lambda>r j. drafts_of b ns ds ! r ! j) ds"
  proof -
    have "flat (\<lambda>r j. ?ids ! (off ns r + ns ! r - ds ! r + j)) ds = flat (\<lambda>r j. row_token_ids (ib_rows b r) ! token_pos b r (ns ! r - ds ! r + j)) ds"
      using ds by (rule flat_tail [OF len(1)])
    also have "\<dots> = flat (\<lambda>r j. drafts_of b ns ds ! r ! j) ds" by (rule flat_cong) (simp add: drafts_of_def)
    finally show ?thesis .
  qed
  then show ?thesis
    using spec calc unfolding prepare_inputs_flat [OF ok] metadata_for_def length_drafts_of Let_def by simp
qed

section \<open>The bitmask of structured output\<close>

lemma bitmask_rows_loop:
  assumes "\<And>r rid. r \<in> set xs \<Longrightarrow> r = Some rid \<Longrightarrow> index rid \<noteq> None"
  shows "\<exists>rows'. rfold (\<lambda>r (rows, indices_match). case r of None \<Rightarrow> Inr (rows, indices_match)
       | Some rid \<Rightarrow> (case structured rid of None \<Rightarrow> Inr (rows, indices_match)
         | Some mask_index \<Rightarrow> (case index rid of None \<Rightarrow> Inl KeyError
           | Some batch_index \<Rightarrow> Inr (AList.update rid batch_index rows, indices_match \<and> batch_index = mask_index)))) xs (rows, ok)
     = Inr (rows', ok \<and> (\<forall>rid. Some rid \<in> set xs \<and> structured rid \<noteq> None \<longrightarrow> index rid = structured rid))
     \<and> (\<forall>rid. map_of rows' rid = (if Some rid \<in> set xs \<and> structured rid \<noteq> None then index rid else map_of rows rid))
     \<and> (distinct (map fst rows) \<longrightarrow> distinct (map fst rows'))"
  using assms
proof (induction xs arbitrary: rows ok)
  case (Cons r xs)
  have IH: "\<And>rows ok. \<exists>rows'. rfold (\<lambda>r (rows, indices_match). case r of None \<Rightarrow> Inr (rows, indices_match)
       | Some rid \<Rightarrow> (case structured rid of None \<Rightarrow> Inr (rows, indices_match)
         | Some mask_index \<Rightarrow> (case index rid of None \<Rightarrow> Inl KeyError
           | Some batch_index \<Rightarrow> Inr (AList.update rid batch_index rows, indices_match \<and> batch_index = mask_index)))) xs (rows, ok)
     = Inr (rows', ok \<and> (\<forall>rid. Some rid \<in> set xs \<and> structured rid \<noteq> None \<longrightarrow> index rid = structured rid))
     \<and> (\<forall>rid. map_of rows' rid = (if Some rid \<in> set xs \<and> structured rid \<noteq> None then index rid else map_of rows rid))
     \<and> (distinct (map fst rows) \<longrightarrow> distinct (map fst rows'))"
    using Cons by simp
  show ?case
  proof (cases "\<exists>rid m. r = Some rid \<and> structured rid = Some m")
    case True
    then obtain rid m i where r: "r = Some rid" "structured rid = Some m" "index rid = Some i" using Cons.prems [of r] by auto
    then show ?thesis using IH [of "AList.update rid i rows" "ok \<and> i = m"] by (auto simp: update_conv' distinct_update)
  next
    case False
    then show ?thesis using IH [of rows ok] by (auto split: option.splits)
  qed
qed simp

lemma bitmask_sorted:
  assumes ok: "\<And>rid i. (rid, i) \<in> set rows \<Longrightarrow> i < length bitmask \<and> (\<exists>m < length bitmask. str rid = Some m)"
    and owner: "\<And>rid i. (rid, i) \<in> set rows \<Longrightarrow> own i = rid" and out: "length out = length bitmask"
  shows "\<exists>masks. rfold (\<lambda>(rid, batch_index) out. case str rid of None \<Rightarrow> Inl KeyError
      | Some orig_index \<Rightarrow> rbind (py_get bitmask orig_index) (py_set out batch_index)) rows out = Inr masks
    \<and> (\<forall>rid i m. (rid, i) \<in> set rows \<and> str rid = Some m \<longrightarrow> masks ! i = bitmask ! m)"
proof -
  let ?f = "\<lambda>(rid, batch_index) out. case str rid of None \<Rightarrow> Inl KeyError | Some orig_index \<Rightarrow> rbind (py_get bitmask orig_index) (py_set out batch_index)"
  let ?g = "\<lambda>x. Some (snd x, bitmask ! the (str (fst x)))" and ?h = "\<lambda>i. bitmask ! the (str (own i))"
  have step: "?f x o1 = (case ?g x of None \<Rightarrow> Inr o1 | Some (i, v) \<Rightarrow> py_set o1 i v)" if "x \<in> set rows" for x o1
    using ok [of "fst x" "snd x"] that by (auto simp: py_get_ok case_prod_beta)
  have target: "i < length bitmask \<and> v = ?h i" if "x \<in> set rows" "?g x = Some (i, v)" for x i v
    using ok [of "fst x" "snd x"] owner [of "fst x" "snd x"] that by auto
  obtain masks where masks: "rfold ?f rows out = Inr masks"
    "\<forall>i < length bitmask. masks ! i = (if \<exists>x \<in> set rows. \<exists>v. ?g x = Some (i, v) then ?h i else out ! i)"
    using py_set_loop [of rows "length bitmask" ?f ?g ?h out] step target out by blast
  have "masks ! i = bitmask ! m" if x: "(rid, i) \<in> set rows" "str rid = Some m" for rid i m
  proof -
    have "\<exists>x \<in> set rows. \<exists>v. ?g x = Some (i, v)" using x(1) by force
    then show ?thesis using masks(2) ok [OF x(1)] owner [OF x(1)] x(2) by simp
  qed
  with masks(1) show ?thesis by blast
qed

text \<open>Every structured request is masked with its own row of the bitmask, in whatever order the worker has the requests.\<close>

lemma grammar_bitmask_aligned:
  assumes sl: "slots_ok {} b" and struct: "\<And>rid m. map_of (out_structured_ids so) rid = Some m \<Longrightarrow> m < length bitmask" and n: "num_reqs b \<le> length bitmask"
  shows "\<exists>masks rows. apply_grammar_bitmask apply_bitmask (Some bitmask) so b logits = Inr (apply_bitmask masks rows logits)
    \<and> (\<forall>rid i m. map_of (input_batch.req_id_to_index b) rid = Some i \<and> map_of (out_structured_ids so) rid = Some m \<longrightarrow> i \<in> set rows \<and> masks ! i = bitmask ! m)"
proof -
  let ?index = "map_of (input_batch.req_id_to_index b)" and ?str = "map_of (out_structured_ids so)"
  have idx: "?index rid = Some i \<longleftrightarrow> i < num_reqs b \<and> ib_req_ids b ! i = Some rid" for rid i
    using sl by (simp add: slots_ok_def slots_length [OF sl])
  then have mem: "Some rid \<in> set (ib_req_ids b) \<longleftrightarrow> ?index rid \<noteq> None" for rid
    by (auto simp: in_set_conv_nth slots_length [OF sl])
  obtain rows same where rows: "bitmask_rows so b = Inr (rows, same)" and same: "same \<longleftrightarrow> (\<forall>rid. ?index rid \<noteq> None \<and> ?str rid \<noteq> None \<longrightarrow> ?index rid = ?str rid)"
    and of: "\<And>rid. map_of rows rid = (if ?index rid \<noteq> None \<and> ?str rid \<noteq> None then ?index rid else None)" and dist: "distinct (map fst rows)"
    using bitmask_rows_loop [of "ib_req_ids b" ?index ?str "[]" True] mem unfolding bitmask_rows_def by auto
  have in_rows: "(rid, i) \<in> set rows \<longleftrightarrow> ?index rid = Some i \<and> ?str rid \<noteq> None" for rid i
    unfolding map_of_eq_Some_iff [OF dist, symmetric] of by auto
  have member: "i \<in> set (map snd rows)" if "?index rid = Some i" "?str rid = Some m" for rid i m using that in_rows [of rid i] by force
  show ?thesis
  proof (cases same)
    case True
    then have "apply_grammar_bitmask apply_bitmask (Some bitmask) so b logits = Inr (apply_bitmask bitmask (map snd rows) logits)"
      using rows by (simp add: apply_grammar_bitmask_def)
    moreover have "bitmask ! i = bitmask ! m" if "?index rid = Some i" "?str rid = Some m" for rid i m
      using True same that by (metis option.discI option.inject)
    ultimately show ?thesis using member by blast
  next
    case False
    obtain masks where loop: "rfold (\<lambda>(rid, batch_index) out. case ?str rid of None \<Rightarrow> Inl KeyError
          | Some orig_index \<Rightarrow> rbind (py_get bitmask orig_index) (py_set out batch_index)) rows (map (map (\<lambda>_. 0)) bitmask) = Inr masks"
      and each: "\<forall>rid i m. (rid, i) \<in> set rows \<and> ?str rid = Some m \<longrightarrow> masks ! i = bitmask ! m"
      using bitmask_sorted [of rows bitmask ?str "\<lambda>i. the (ib_req_ids b ! i)" "map (map (\<lambda>_. 0)) bitmask"] in_rows idx struct n by fastforce
    then have "apply_grammar_bitmask apply_bitmask (Some bitmask) so b logits = Inr (apply_bitmask masks (map snd rows) logits)"
      using rows False by (simp add: apply_grammar_bitmask_def)
    moreover have "masks ! i = bitmask ! m" if "?index rid = Some i" "?str rid = Some m" for rid i m
      using each that in_rows by blast
    ultimately show ?thesis using member by blast
  qed
qed

section \<open>Drafting\<close>

text \<open>
  The draft tokens fit: the loop ends without an error, proposes tokens only for requests that sampled some and are supported, at most \<open>num_spec\<close> of them,
  and a request with its sampled and its draft tokens does not pass the maximal length.
\<close>

definition drafts_fit :: "ngram_proposer \<Rightarrow> input_batch \<Rightarrow> nat \<Rightarrow> int list \<Rightarrow> int list \<Rightarrow> bool" where
  "drafts_fit p b i ids drafts \<longleftrightarrow> drafts = [] \<or> (ids \<noteq> [] \<and> is_spec_decode_supported (ib_req_ids b ! i) b \<and> length drafts \<le> num_spec p
     \<and> row_num_tokens_no_spec (ib_rows b i) + int (length ids + length drafts) \<le> int (ngram_max_model_len p))"

lemma supported_upd_row [simp]: "is_spec_decode_supported r (upd_row i f b) = is_spec_decode_supported r b"
  by (cases r) (simp_all add: is_spec_decode_supported_def upd_row_def)

lemma draft_proposal:
  assumes p: "0 < min_n p" and row: "0 \<le> n" "length ts = ngram_max_model_len p" and e: "n + int (length ids) < int (ngram_max_model_len p)"
  shows "\<exists>ts' r. np_assign n (n + int (length ids)) ids ts = Inr ts' \<and> propose p (py_islice 0 (n + int (length ids)) ts') = Some (Inr r)
    \<and> (\<forall>ds. r = Some ds \<longrightarrow> length ds \<le> num_spec p \<and> n + int (length ids + length ds) \<le> int (ngram_max_model_len p))"
proof -
  let ?ts = "take (nat n) ts @ ids @ drop (nat (n + int (length ids))) ts"
  let ?ctx = "py_islice 0 (n + int (length ids)) ?ts"
  have ts: "np_assign n (n + int (length ids)) ids ts = Inr ?ts" using e row by (intro np_assign_fits) simp_all
  obtain r where r: "propose p ?ctx = Some (Inr r)" using propose_followers [OF p] by blast
  have "nat n + length ids = nat (n + int (length ids))" "nat (n + int (length ids)) \<le> ngram_max_model_len p" using e row(1) by linarith+
  then have "length ?ctx = nat (n + int (length ids))" using row by (simp add: py_islice_def py_bound_def)
  then have "length ds \<le> num_spec p \<and> n + int (length ids + length ds) \<le> int (ngram_max_model_len p)" if "r = Some ds" for ds
    using proposal_bounds [OF p, of ?ctx ds] r row(1) that by simp linarith
  with ts r show ?thesis by blast
qed

lemma draft_loop_ok:
  assumes p: "0 < min_n p" and "i + length idss \<le> length (ib_req_ids b)"
    and "\<And>j. i \<le> j \<Longrightarrow> 0 \<le> row_num_tokens_no_spec (ib_rows b j) \<and> length (row_token_ids (ib_rows b j)) = ngram_max_model_len p"
  shows "\<exists>out b'. draft_loop p (ngram_max_model_len p) i idss b = Some (Inr (out, b')) \<and> length out = length idss
    \<and> (\<forall>j < length idss. drafts_fit p b (i + j) (idss ! j) (out ! j))"
  using assms(2,3)
proof (induction idss arbitrary: i b)
  case (Cons ids idss)
  let ?M = "ngram_max_model_len p" and ?n = "row_num_tokens_no_spec (ib_rows b i)"
  have step: "\<exists>out b''. draft_loop p ?M (Suc i) idss b' = Some (Inr (out, b'')) \<and> length out = length idss \<and> (\<forall>j < length idss. drafts_fit p b (Suc i + j) (idss ! j) (out ! j))"
    if b': "b' = b \<or> (\<exists>ts. b' = upd_row i (\<lambda>r. r\<lparr>row_token_ids := ts\<rparr>) b)" for b'
  proof -
    have same: "ib_req_ids b' = ib_req_ids b" "is_spec_decode_supported r b' = is_spec_decode_supported r b" for r
      using b' by (auto, simp add: upd_row_def)
    have rows: "ib_rows b' j = ib_rows b j" if "Suc i \<le> j" for j using b' that by (auto simp: upd_row_def)
    have "drafts_fit p b' (Suc i + j) = drafts_fit p b (Suc i + j)" for j by (simp add: drafts_fit_def fun_eq_iff same rows)
    then show ?thesis using Cons.IH [of "Suc i" b'] Cons.prems by (simp add: same rows)
  qed
  have each: "\<forall>j < length (ids # idss). drafts_fit p b (i + j) ((ids # idss) ! j) ((x # out) ! j)"
    if "drafts_fit p b i ids x" "\<forall>j < length idss. drafts_fit p b (Suc i + j) (idss ! j) (out ! j)" for x out
    using that by (auto simp: nth_Cons' less_Suc_eq_0_disj)
  obtain out b'' where skip: "draft_loop p ?M (Suc i) idss b = Some (Inr (out, b''))" "length out = length idss" "\<forall>j < length idss. drafts_fit p b (Suc i + j) (idss ! j) (out ! j)"
    using step [of b] by blast
  have i: "i < length (ib_req_ids b)" and row: "0 \<le> ?n" "length (row_token_ids (ib_rows b i)) = ?M" using Cons.prems by auto
  show ?case
  proof (cases "ids = [] \<or> \<not> is_spec_decode_supported (ib_req_ids b ! i) b \<or> int ?M \<le> ?n + int (length ids)")
    case True
    then have "draft_loop p ?M i (ids # idss) b = Some (Inr ([] # out, b''))" using skip(1) i by (auto simp: Let_def)
    then show ?thesis using skip(2) each [of "[]"] skip(3) by (auto simp: drafts_fit_def)
  next
    case False
    then obtain ts r where ts: "np_assign ?n (?n + int (length ids)) ids (row_token_ids (ib_rows b i)) = Inr ts"
      and r: "propose p (py_islice 0 (?n + int (length ids)) ts) = Some (Inr r)"
      and fit: "\<forall>ds. r = Some ds \<longrightarrow> length ds \<le> num_spec p \<and> ?n + int (length ids + length ds) \<le> int ?M"
      using draft_proposal [OF p row] by (metis not_le)
    obtain out b'' where rest: "draft_loop p ?M (Suc i) idss (upd_row i (\<lambda>r. r\<lparr>row_token_ids := ts\<rparr>) b) = Some (Inr (out, b''))" "length out = length idss"
      "\<forall>j < length idss. drafts_fit p b (Suc i + j) (idss ! j) (out ! j)"
      using step by blast
    have "draft_loop p ?M i (ids # idss) b = Some (Inr ((case r of None \<Rightarrow> [] | Some ds \<Rightarrow> ds) # out, b''))"
      using False i ts r rest(1) by (simp add: Let_def)
    moreover have "drafts_fit p b i ids (case r of None \<Rightarrow> [] | Some ds \<Rightarrow> ds)"
      using fit False by (cases r) (simp_all add: drafts_fit_def)
    ultimately show ?thesis using rest(2) each rest(3) by auto
  qed
qed simp

section \<open>Options that speculative decoding ignores\<close>

text \<open>A batch with one greedy request that may not generate token 1.\<close>

definition restricted_batch :: input_batch where
  "restricted_batch = (input_batch_init 1 8 4 3)\<lparr>ib_req_ids := [Some ''r''], req_output_token_ids := [Some ''r''], input_batch.req_id_to_index := [(''r'', 0)],
     greedy_reqs := [''r''], has_allowed_token_ids := [''r''], mask_allocated := True,
     ib_row_arr := Arr [(ib_rows (input_batch_init 1 8 4 3) 0)\<lparr>row_allowed_mask := [False, True, False]\<rparr>] (ib_rows (input_batch_init 1 8 4 3) 0)\<rparr>"

text \<open>
  C39. Speculative decoding ignores the options that exclude tokens, since only the bonus token passes through the sampler. Take a batch of greedy requests, and a
  request with draft tokens for which the greatest logit of its next position belongs to an excluded token: one that is not allowed, completes a bad
  word, or is a stop token before the minimal length. Then its first token in the step with drafts is the excluded one; while the step without drafts, from the
  same logits of that position, gives it a token that is not excluded (when there is one with a finite logit).
\<close>

theorem speculation_emits_excluded_token:
  fixes drafts :: "int list list" and lgs :: "logits list"
  defines "row r j \<equiv> lgs ! (off (map Suc (map length drafts)) r + j)"
  assumes greedy: "all_greedy md" "\<not> all_random md" and sd: "metadata_for drafts sd" "\<forall>ds \<in> set drafts. length ds \<le> MAX_SPEC_LEN"
    and r: "r < length drafts" "drafts ! r \<noteq> []"
    and lgs: "shaped (sum_list (map Suc (map length drafts))) v lgs" "0 < v" and md: "md_shaped (length drafts) v past md"
    and bonus: "sampler_forward argsort topk noise past md (map (\<lambda>r. row r (length (drafts ! r))) [0..<length drafts]) = Inr so"
    and plain: "sampler_forward argsort topk noise past md (map (\<lambda>r. row r 0) [0..<length drafts]) = Inr so'"
    and noise: "shaped (length drafts) v noise" "\<forall>q \<in> set noise. \<forall>x \<in> set q. 0 < x" and srt: "\<And>row. sorts (argsort row) row"
    and excl: "excluded md past v r (argmax (row r 0))" and free: "\<exists>u < v. row r 0 ! u \<noteq> None \<and> \<not> excluded md past v r u"
  shows "\<exists>rows rows' u. sample_tokens argsort topk dev noise past md (Some sd) v [] lgs = Inr rows \<and> rows ! r \<noteq> [] \<and> hd (rows ! r) = int (argmax (row r 0))
    \<and> sample_tokens argsort topk dev noise past md None v [] (map (\<lambda>r. row r 0) [0..<length drafts]) = Inr rows' \<and> rows' ! r = [int u] \<and> \<not> excluded md past v r u"
proof -
  let ?n = "length drafts"
  have ne: "drafts \<noteq> []" using r(1) by auto
  have inside: "row r j \<in> set lgs" if "r < ?n" "j \<le> length (drafts ! r)" for r j
    unfolding row_def using off_le [of r "map Suc (map length drafts)"] that lgs(1) by (intro nth_mem) (simp add: shaped_def)
  have rows: "shaped ?n v (map (\<lambda>r. row r (f r)) [0..<?n])" if "\<And>r. f r \<le> length (drafts ! r)" for f
    using inside [OF _ that] lgs(1) by (auto simp: shaped_def)
  obtain l' where l': "process_logits past md (map (\<lambda>r. row r (length (drafts ! r))) [0..<?n]) = Inr l'" "so_sampled_token_ids so = map (\<lambda>t. [t]) (map argmax l')"
    using bonus greedy by (auto simp: sampler_forward_def sample_def greedy_sample_def)
  have sh: "shaped ?n v l'" using masks_shaped [OF process_logits_masks [OF l'(1) rows md]] by simp
  define b where "b r = argmax (l' ! r)" for r
  have "map argmax l' = map b [0..<?n]" using sh by (intro nth_equalityI) (simp_all add: shaped_def b_def)
  then have b: "so_sampled_token_ids so = map (\<lambda>r. [b r]) [0..<?n]" using l'(2) by simp
  have bv: "b r < v" if "r < ?n" for r
    using argmax_nth(1) [of "l' ! r"] sh that lgs(2) by (metis b_def length_greater_0_conv shaped_iff)
  let ?emit = "\<lambda>r. emit (\<lambda>j. int (argmax (row r j))) (\<lambda>j. drafts ! r ! j \<noteq> int (argmax (row r j))) (length (drafts ! r)) (int (b r))"
  have spec: "sample_tokens argsort topk dev noise past md (Some sd) v [] lgs = Inr (map ?emit [0..<?n])"
    unfolding row_def by (rule sample_tokens_greedy [OF greedy sd(1) ne sd(2) lgs bonus [unfolded row_def] b bv])
  have pos: "0 < length (?emit r)" using length_emit by blast
  then have "?emit r ! 0 = int (argmax (row r 0))" using r(2) by (simp add: emit_nth)
  then have first: "?emit r \<noteq> [] \<and> hd (?emit r) = int (argmax (row r 0))" using pos by (simp add: hd_conv_nth)
  obtain u where u: "so_sampled_token_ids so' ! r = [u]" "\<not> excluded md past v r u" and len: "length (so_sampled_token_ids so') = ?n"
    using excluded_never_sampled_rows [OF plain rows md noise(1,2) srt r(1)] free r(1) by auto
  have "sample_tokens argsort topk dev noise past md None v [] (map (\<lambda>r. row r 0) [0..<?n]) = Inr (map (map int) (so_sampled_token_ids so'))"
  proof -
    have "\<forall>x \<in> set (map (map int) (so_sampled_token_ids so')). length x = 1" using plain by (auto simp: sampler_forward_def)
    then show ?thesis using plain by (simp add: sample_tokens_def Let_def)
  qed
  then show ?thesis using spec first u len r(1) by (intro exI [of _ "map ?emit [0..<?n]"] exI [of _ "map (map int) (so_sampled_token_ids so')"] exI [of _ u]) simp
qed

text \<open>A request that may only generate tokens 0 and 2, with token 1 as draft; the batch makes its metadata, and it counts as supported.\<close>

theorem speculation_emits_excluded_token_witness:
  "\<exists>md. is_spec_decode_supported (Some ''r'') restricted_batch \<and> make_sampling_metadata restricted_batch = Inr md \<and> excluded md [[7]] 3 0 1
    \<and> (\<forall>topk dev. \<exists>rows rows' u. sample_tokens (\<lambda>row. sort_key ((!) row) [0..<length row]) topk dev [[1, 1, 1]] [[7]] md (Some example_drafts) 3 []
          [[Some 0, Some 1, None], [Some 0, None, Some 1], [Some 1, None, None]] = Inr rows \<and> hd (rows ! 0) = 1
        \<and> sample_tokens (\<lambda>row. sort_key ((!) row) [0..<length row]) topk dev [[1, 1, 1]] [[7]] md None 3 [] [[Some 0, Some 1, None]] = Inr rows' \<and> rows' ! 0 = [int u] \<and> u \<noteq> 1)"
proof -
  obtain md where md: "make_sampling_metadata restricted_batch = Inr md" "all_greedy md" "\<not> all_random md" "md_allowed_mask md = Some [[False, True, False]]"
    "arr_items (md_bad_words md) = []" "arr_items (md_min_tokens md) = []" "md_logit_bias md = [None]" "md_penalties md = None"
    "md_prompt_token_ids md = None" "md_temperature md = None" "md_min_p md = None" "md_top_k md = None" "md_top_p md = None"
    by (simp add: make_sampling_metadata_def restricted_batch_def input_batch_init_def no_penalties_def num_reqs_def column_def aget_def arr_items_def)
  let ?srt = "\<lambda>row :: logits. sort_key ((!) row) [0..<length row]"
  let ?lgs = "[[Some 0, Some 1, None], [Some 0, None, Some 1], [Some 1, None, None]] :: logits list"
  have sd: "metadata_for [[1, 0]] example_drafts" by (simp add: metadata_for_def example_drafts_def Let_def flat_def off_def upt_rec)
  have srt: "sorts (?srt row) row" for row by (simp add: sorts_def)
  have run: "\<exists>so. sampler_forward ?srt topk [[1, 1, 1]] [[7]] md [row] = Inr so" for topk row
    using md by (simp add: sampler_forward_def process_logits_def apply_allowed_token_ids_def apply_bad_words_def apply_logits_bias_def apply_penalties_def
        apply_min_token_penalties_def sample_def)
  have ex: "excluded md [[7]] 3 0 1" "\<not> excluded md [[7]] 3 0 0" using md by (simp_all add: excluded_def)
  have am: "argmax [Some 0, Some (1 :: real), None] = 1" by (simp add: argmax_def)
  have shape: "shaped (Suc (Suc (Suc 0))) 3 ?lgs" "shaped 1 3 [[1, 1, 1 :: real]]" "md_shaped 1 3 [[7]] md" using md by (simp_all add: shaped_def md_shaped_def)
  have "\<exists>rows rows' u. sample_tokens ?srt topk dev [[1, 1, 1]] [[7]] md (Some example_drafts) 3 [] ?lgs = Inr rows \<and> hd (rows ! 0) = 1
        \<and> sample_tokens ?srt topk dev [[1, 1, 1]] [[7]] md None 3 [] [[Some 0, Some 1, None]] = Inr rows' \<and> rows' ! 0 = [int u] \<and> u \<noteq> 1" for topk dev
  proof -
    obtain so so' where run': "sampler_forward ?srt topk [[1, 1, 1]] [[7]] md [[Some 1, None, None]] = Inr so"
      "sampler_forward ?srt topk [[1, 1, 1]] [[7]] md [[Some 0, Some 1, None]] = Inr so'" using run by blast
    have free: "\<exists>u < 3. [Some 0, Some (1 :: real), None] ! u \<noteq> None \<and> \<not> excluded md [[7]] 3 0 u" using ex(2) by (intro exI [of _ 0]) simp
    obtain rows rows' u where w: "sample_tokens ?srt topk dev [[1, 1, 1]] [[7]] md (Some example_drafts) 3 [] ?lgs = Inr rows" "hd (rows ! 0) = 1"
      "sample_tokens ?srt topk dev [[1, 1, 1]] [[7]] md None 3 [] [[Some 0, Some 1, None]] = Inr rows'" "rows' ! 0 = [int u]" "\<not> excluded md [[7]] 3 0 u"
      using speculation_emits_excluded_token [OF md(2,3) sd, of 0 3 ?lgs "[[7]]" ?srt topk "[[1, 1, 1]]" so so' dev] run' ex(1) free shape srt am
      by (auto simp: MAX_SPEC_LEN_def off_def)
    then show ?thesis using ex(1) by blast
  qed
  moreover have "is_spec_decode_supported (Some ''r'') restricted_batch"
    by (simp add: is_spec_decode_supported_def restricted_batch_def input_batch_init_def)
  ultimately show ?thesis using md(1) ex(1) by blast
qed

end
