(* ===== verification/Detokenizer.thy ===== *)
theory Detokenizer
  imports Request
begin

text \<open>
  Incremental detokenization of vllm: \<open>v1/engine/detokenizer.py\<close>, \<open>transformers_utils/detokenizer_utils.py\<close> and the search for stop strings in
  \<open>engine/output_processor/stop_checker.py\<close>.

  A text is a list of code points. The tokenizer is third-party code, a record of functions; \<open>'s\<close> is the state of its \<open>DecodeStream\<close>. The classes of
  detokenizers are the constructors of \<open>decoder\<close>. A token without string (\<open>None\<close> in the lists of the tokenizer) is \<open>None\<close>.
\<close>

section \<open>Tokens and texts\<close>

type_synonym ustring = "int list"

definition REPLACEMENT :: int where
  "REPLACEMENT = 0xFFFD"

record 's tokenizer =
  tk_len :: int
  tk_is_fast :: bool
  tk_decode_stream :: bool
  tk_added_vocab :: "ustring list"
  tk_special_tokens :: "ustring list"
  tk_added_tokens :: "(int \<times> ustring) list"
  tk_ids_to_tokens :: "int list \<Rightarrow> bool \<Rightarrow> ustring option list"
  tk_tokens_to_string :: "ustring option list \<Rightarrow> ustring result"
  tk_decode :: "int list \<Rightarrow> ustring"
  tk_stream :: "bool \<Rightarrow> 's"
  tk_stream_step :: "'s \<Rightarrow> int \<Rightarrow> ('s \<times> ustring option) result"

definition replace_none_with_empty :: "ustring option list \<Rightarrow> ustring option list" where
  "replace_none_with_empty tokens = map (\<lambda>t. case t of None \<Rightarrow> Some [] | Some s \<Rightarrow> Some s) tokens"

fun join :: "ustring \<Rightarrow> ustring list \<Rightarrow> ustring" where
  "join sep [] = []"
| "join sep [t] = t"
| "join sep (t # u # ts) = t @ sep @ join sep (u # ts)"

definition flush_sub_text :: "'s tokenizer \<Rightarrow> ustring list \<times> ustring option list \<Rightarrow> ustring list result" where
  "flush_sub_text tk = (\<lambda>(sub_texts, current_sub_text).
     if current_sub_text = [] then Inr sub_texts
     else rbind (tk_tokens_to_string tk current_sub_text) (\<lambda>sub_text. Inr (sub_texts @ [sub_text])))"

definition sub_text_step :: "'s tokenizer \<Rightarrow> bool \<Rightarrow> ustring option \<Rightarrow> ustring list \<times> ustring option list \<Rightarrow> (ustring list \<times> ustring option list) result" where
  "sub_text_step tk skip_special_tokens token = (\<lambda>(sub_texts, current_sub_text).
     if skip_special_tokens \<and> token \<in> Some ` set (tk_special_tokens tk) then Inr (sub_texts, current_sub_text)
     else case token of
       Some t \<Rightarrow> if t \<in> set (tk_added_vocab tk)
         then rbind (flush_sub_text tk (sub_texts, current_sub_text)) (\<lambda>sub_texts. Inr (sub_texts @ [t], []))
         else Inr (sub_texts, current_sub_text @ [token])
     | None \<Rightarrow> Inr (sub_texts, current_sub_text @ [token]))"

definition convert_tokens_to_string_with_added_encoders :: "'s tokenizer \<Rightarrow> ustring option list \<Rightarrow> bool \<Rightarrow> bool \<Rightarrow> ustring result" where
  "convert_tokens_to_string_with_added_encoders tk output_tokens skip_special_tokens spaces_between_special_tokens =
     rbind (rfold (sub_text_step tk skip_special_tokens) output_tokens ([], [])) (\<lambda>s.
     rbind (flush_sub_text tk s) (\<lambda>sub_texts. Inr (join (if spaces_between_special_tokens then [32] else []) sub_texts)))"

definition INITIAL_OFFSET :: nat where
  "INITIAL_OFFSET = 5"

definition convert_prompt_ids_to_tokens :: "'s tokenizer \<Rightarrow> int list \<Rightarrow> bool \<Rightarrow> ustring option list \<times> nat \<times> nat" where
  "convert_prompt_ids_to_tokens tk prompt_ids skip_special_tokens =
     (let new_tokens = tk_ids_to_tokens tk (drop (length prompt_ids - (INITIAL_OFFSET + 2)) prompt_ids) skip_special_tokens;
          read_offset = length new_tokens
      in (replace_none_with_empty new_tokens, read_offset - INITIAL_OFFSET, read_offset))"

definition convert_ids_list_to_tokens :: "'s tokenizer \<Rightarrow> int list \<Rightarrow> ustring option list" where
  "convert_ids_list_to_tokens tk ids = replace_none_with_empty (tk_ids_to_tokens tk ids False)"

definition tokens_to_text :: "'s tokenizer \<Rightarrow> bool \<Rightarrow> bool \<Rightarrow> ustring option list \<Rightarrow> ustring result" where
  "tokens_to_text tk skip_special_tokens spaces_between_special_tokens tokens =
     (if tk_is_fast tk \<or> tk_added_vocab tk = [] then tk_tokens_to_string tk tokens
      else convert_tokens_to_string_with_added_encoders tk tokens skip_special_tokens spaces_between_special_tokens)"

definition detokenize_incrementally ::
  "'s tokenizer \<Rightarrow> int list \<Rightarrow> ustring option list option \<Rightarrow> nat \<Rightarrow> nat \<Rightarrow> bool \<Rightarrow> bool \<Rightarrow> (ustring option list \<times> ustring \<times> nat \<times> nat) result" where
  "detokenize_incrementally tk all_input_ids prev_tokens prefix_offset read_offset skip_special_tokens spaces_between_special_tokens =
     rbind (py_iget all_input_ids (- 1)) (\<lambda>new_token_id.
       let (prev, prefix_offset, read_offset) =
             (case prev_tokens of None \<Rightarrow> convert_prompt_ids_to_tokens tk (butlast all_input_ids) skip_special_tokens
              | Some ts \<Rightarrow> (ts, prefix_offset, read_offset));
           new_tokens = (if 0 \<le> new_token_id \<and> new_token_id < tk_len tk then tk_ids_to_tokens tk [new_token_id] skip_special_tokens else [Some []]);
           output_tokens = prev @ new_tokens;
           new_tokens = (if prev_tokens = None then output_tokens else new_tokens)
       in rbind (tokens_to_text tk skip_special_tokens spaces_between_special_tokens (py_slice prefix_offset read_offset output_tokens)) (\<lambda>prefix_text.
          rbind (tokens_to_text tk skip_special_tokens spaces_between_special_tokens (drop prefix_offset output_tokens)) (\<lambda>new_text.
          if length new_text \<le> length prefix_text \<or> (new_text \<noteq> [] \<and> last new_text = REPLACEMENT)
          then Inr (new_tokens, [], prefix_offset, read_offset)
          else Inr (new_tokens, drop (length prefix_text) new_text, read_offset, length output_tokens))))"

section \<open>Stop strings\<close>

definition occurs_at :: "'a list \<Rightarrow> 'a list \<Rightarrow> nat \<Rightarrow> bool" where
  "occurs_at s t i \<longleftrightarrow> i + length s \<le> length t \<and> take (length s) (drop i t) = s"

text \<open>\<open>t.find(s, start)\<close> for a negative \<open>start\<close>, which counts from the end; \<open>None\<close> stands for the result -1.\<close>

definition py_find :: "ustring \<Rightarrow> ustring \<Rightarrow> int \<Rightarrow> nat option" where
  "py_find t s start = find (\<lambda>i. start + int (length t) \<le> int i \<and> occurs_at s t i) [0..<length t + 1]"

text \<open>The matched stop string with the length to which the text is cut, -1 for no cut.\<close>

fun stop_strings_loop :: "ustring \<Rightarrow> nat \<Rightarrow> bool \<Rightarrow> ustring list \<Rightarrow> (ustring \<times> int) option" where
  "stop_strings_loop t new_char_count include_in_output [] = None"
| "stop_strings_loop t new_char_count include_in_output (s # ss) =
     (case py_find t s (1 - int new_char_count - int (length s)) of
        None \<Rightarrow> stop_strings_loop t new_char_count include_in_output ss
      | Some stop_index \<Rightarrow>
          if include_in_output then
            if stop_index + length s \<ge> length t then Some (s, -1) else Some (s, int (stop_index + length s))
          else Some (s, int stop_index))"

definition check_stop_strings :: "ustring \<Rightarrow> nat \<Rightarrow> ustring list \<Rightarrow> bool \<Rightarrow> (ustring \<times> int) option" where
  "check_stop_strings t new_char_count ss include_in_output =
     (if new_char_count = 0 \<or> ss = [] then None else stop_strings_loop t new_char_count include_in_output ss)"

section \<open>Detokenizers\<close>

record slow_decoder =
  sl_tokens :: "ustring option list"
  sl_prefix_offset :: nat
  sl_read_offset :: nat
  sl_prompt_len :: nat
  sl_skip_special_tokens :: bool
  sl_spaces_between_special_tokens :: bool

record 's fast_decoder =
  fs_stream :: 's
  fs_spaces_between_special_tokens :: bool
  fs_last_special :: bool

text \<open>\<open>Plain\<close> is the class \<open>IncrementalDetokenizer\<close>, which only collects the tokens.\<close>

datatype 's decoder = Plain | Slow slow_decoder | Fast "'s fast_decoder"

record 's detok =
  dk_token_ids :: "int list"
  dk_stop :: "ustring list"
  dk_include_stop :: bool
  dk_stop_buffer_length :: nat
  dk_last_output_text_offset :: nat
  dk_output_text :: ustring
  dk_decoder :: "'s decoder"

record text_params =
  tp_stop :: "ustring list"
  tp_include_stop :: bool
  tp_skip_special_tokens :: bool
  tp_spaces_between_special_tokens :: bool

text \<open>The first suffix of 4 to 23 tokens whose text has no replacement character, else the whole prompt.\<close>

definition prompt_suffix :: "'s tokenizer \<Rightarrow> int list \<Rightarrow> int list" where
  "prompt_suffix tk prompt_ids =
     (let n = length prompt_ids
      in if 4 < n then
           case find (\<lambda>i. REPLACEMENT \<notin> set (tk_decode tk (drop (n - i) prompt_ids))) [4..<min (n + 1) 24] of
             None \<Rightarrow> prompt_ids | Some i \<Rightarrow> drop (n - i) prompt_ids
         else prompt_ids)"

definition fast_init :: "'s tokenizer \<Rightarrow> text_params \<Rightarrow> int list \<Rightarrow> 's fast_decoder result" where
  "fast_init tk params prompt_ids =
     rbind (rfold (\<lambda>tid stream. rbind (tk_stream_step tk stream tid) (\<lambda>(stream, _). Inr stream)) (prompt_suffix tk prompt_ids)
        (tk_stream tk (tp_skip_special_tokens params))) (\<lambda>stream.
       let spaces = (tp_skip_special_tokens params \<or> tp_spaces_between_special_tokens params)
       in Inr \<lparr>fs_stream = stream, fs_spaces_between_special_tokens = (spaces \<or> tk_added_tokens tk = []), fs_last_special = False\<rparr>)"

definition slow_init :: "'s tokenizer \<Rightarrow> text_params \<Rightarrow> int list \<Rightarrow> slow_decoder" where
  "slow_init tk params prompt_ids =
     (case convert_prompt_ids_to_tokens tk prompt_ids (tp_skip_special_tokens params) of (tokens, prefix_offset, read_offset) \<Rightarrow>
        \<lparr>sl_tokens = tokens, sl_prefix_offset = prefix_offset, sl_read_offset = read_offset, sl_prompt_len = length prompt_ids,
         sl_skip_special_tokens = tp_skip_special_tokens params, sl_spaces_between_special_tokens = tp_spaces_between_special_tokens params\<rparr>)"

text \<open>The characters that are held back while a stop string may be under way. Stop strings are not empty.\<close>

definition stop_buffer :: "ustring list \<Rightarrow> bool \<Rightarrow> nat" where
  "stop_buffer ss include_stop = (if ss \<noteq> [] \<and> \<not> include_stop then Max (set (map length ss)) - 1 else 0)"

definition detok_new :: "text_params \<Rightarrow> int list \<Rightarrow> 's decoder \<Rightarrow> 's detok" where
  "detok_new params ids dec =
     \<lparr>dk_token_ids = ids, dk_stop = tp_stop params, dk_include_stop = tp_include_stop params,
      dk_stop_buffer_length = stop_buffer (tp_stop params) (tp_include_stop params), dk_last_output_text_offset = 0, dk_output_text = [],
      dk_decoder = dec\<rparr>"

definition detok_from_new_request :: "'s tokenizer option \<Rightarrow> text_params \<Rightarrow> int list \<Rightarrow> 's detok result" where
  "detok_from_new_request tokenizer params prompt_ids =
     (case tokenizer of None \<Rightarrow> Inr (detok_new params [] Plain)
      | Some tk \<Rightarrow> if tk_decode_stream tk then rbind (fast_init tk params prompt_ids) (\<lambda>f. Inr (detok_new params [] (Fast f)))
          else Inr (detok_new params prompt_ids (Slow (slow_init tk params prompt_ids))))"

definition detok_output_token_ids :: "'s detok \<Rightarrow> int list" where
  "detok_output_token_ids d = (case dk_decoder d of Slow s \<Rightarrow> drop (sl_prompt_len s) (dk_token_ids d) | _ \<Rightarrow> dk_token_ids d)"

definition fast_decode_next :: "'s tokenizer \<Rightarrow> int \<Rightarrow> 's fast_decoder \<Rightarrow> (ustring \<times> 's fast_decoder) result" where
  "fast_decode_next tk next_token_id f =
     rbind (tk_stream_step tk (fs_stream f) next_token_id) (\<lambda>(stream, token).
       let f = f\<lparr>fs_stream := stream\<rparr>;
           special_token = map_of (tk_added_tokens tk) next_token_id
       in if fs_spaces_between_special_tokens f then Inr (case token of None \<Rightarrow> [] | Some t \<Rightarrow> t, f)
          else Inr (case (if special_token \<noteq> None \<and> fs_last_special f then special_token else token) of None \<Rightarrow> [] | Some t \<Rightarrow> t,
                    f\<lparr>fs_last_special := special_token \<noteq> None\<rparr>))"

definition slow_decode_next :: "'s tokenizer \<Rightarrow> int list \<Rightarrow> slow_decoder \<Rightarrow> (ustring \<times> slow_decoder) result" where
  "slow_decode_next tk all_ids s =
     rbind (detokenize_incrementally tk all_ids (Some (sl_tokens s)) (sl_prefix_offset s) (sl_read_offset s)
        (sl_skip_special_tokens s) (sl_spaces_between_special_tokens s)) (\<lambda>(new_tokens, decoded_text, prefix_offset, read_offset).
       Inr (decoded_text, s\<lparr>sl_tokens := sl_tokens s @ new_tokens, sl_prefix_offset := prefix_offset, sl_read_offset := read_offset\<rparr>))"

definition decode_next :: "'s tokenizer \<Rightarrow> int \<Rightarrow> 's detok \<Rightarrow> (ustring \<times> 's detok) result" where
  "decode_next tk next_token_id d =
     (case dk_decoder d of
        Plain \<Rightarrow> Inl NotImplementedError
      | Slow s \<Rightarrow> rbind (slow_decode_next tk (dk_token_ids d) s) (\<lambda>(t, s). Inr (t, d\<lparr>dk_decoder := Slow s\<rparr>))
      | Fast f \<Rightarrow> rbind (fast_decode_next tk next_token_id f) (\<lambda>(t, f). Inr (t, d\<lparr>dk_decoder := Fast f\<rparr>)))"

definition decode_token :: "'s tokenizer \<Rightarrow> int \<Rightarrow> 's detok \<Rightarrow> 's detok result" where
  "decode_token tk new_token_id d =
     rbind (decode_next tk new_token_id (d\<lparr>dk_token_ids := dk_token_ids d @ [new_token_id]\<rparr>)) (\<lambda>(t, d).
       Inr (d\<lparr>dk_output_text := dk_output_text d @ t\<rparr>))"

definition cut_at_stop :: "nat \<Rightarrow> 's detok \<Rightarrow> ustring option \<times> 's detok" where
  "cut_at_stop offset_before d =
     (case check_stop_strings (dk_output_text d) (length (dk_output_text d) - offset_before) (dk_stop d) (dk_include_stop d) of
        None \<Rightarrow> (None, d)
      | Some (stop_string, truncate_to) \<Rightarrow>
          (Some stop_string, if truncate_to \<noteq> -1 then d\<lparr>dk_output_text := take (nat truncate_to) (dk_output_text d)\<rparr> else d))"

definition detok_update :: "'s tokenizer \<Rightarrow> int list \<Rightarrow> bool \<Rightarrow> 's detok \<Rightarrow> (ustring option \<times> 's detok) result" where
  "detok_update tk new_token_ids stop_terminated d =
     (if dk_decoder d = Plain then Inr (None, d\<lparr>dk_token_ids := dk_token_ids d @ new_token_ids\<rparr>)
      else if new_token_ids = [] then Inr (None, d)
      else let skip = (stop_terminated \<and> \<not> dk_include_stop d)
      in rbind (rfold (decode_token tk) (if skip then butlast new_token_ids else new_token_ids) d) (\<lambda>d1.
         if stop_terminated
         then Inr (None, if skip then d1\<lparr>dk_token_ids := dk_token_ids d1 @ [last new_token_ids]\<rparr> else d1)
         else Inr (cut_at_stop (length (dk_output_text d)) d1)))"

definition get_next_output_text :: "bool \<Rightarrow> bool \<Rightarrow> 's detok \<Rightarrow> ustring \<times> 's detok" where
  "get_next_output_text finished delta d =
     (if dk_decoder d = Plain then ([], d)
      else let buffer_length = (if finished then 0 else dk_stop_buffer_length d)
      in if \<not> delta then (take (length (dk_output_text d) - buffer_length) (dk_output_text d), d)
         else let len = int (length (dk_output_text d)) - int buffer_length
         in if int (dk_last_output_text_offset d) < len
            then (py_slice (dk_last_output_text_offset d) (nat len) (dk_output_text d), d\<lparr>dk_last_output_text_offset := nat len\<rparr>)
            else ([], d))"

section \<open>The search for stop strings\<close>

definition stop_free :: "'a list list \<Rightarrow> 'a list \<Rightarrow> bool" where
  "stop_free ss t \<longleftrightarrow> (\<forall>s \<in> set ss. \<forall>i. \<not> occurs_at s t i)"

definition first_at :: "'a list \<Rightarrow> 'a list \<Rightarrow> nat \<Rightarrow> bool" where
  "first_at s t i \<longleftrightarrow> occurs_at s t i \<and> (\<forall>j < i. \<not> occurs_at s t j)"

lemma occurs_at_append: "occurs_at s (t @ u) i \<Longrightarrow> i + length s \<le> length t \<Longrightarrow> occurs_at s t i"
  by (simp add: occurs_at_def)

lemma occurs_at_bound: "occurs_at s t i \<Longrightarrow> i \<le> length t"
  by (simp add: occurs_at_def)

lemma stop_free_window: "stop_free ss t \<Longrightarrow> s \<in> set ss \<Longrightarrow> occurs_at s (t @ u) i \<Longrightarrow> length t < i + length s"
  using occurs_at_append by (force simp: stop_free_def)

lemma py_find_None: "py_find t s start = None \<longleftrightarrow> (\<forall>i. start + int (length t) \<le> int i \<longrightarrow> \<not> occurs_at s t i)"
  using occurs_at_bound by (fastforce simp: py_find_def find_None_iff)

lemma py_find_Some:
  "py_find t s start = Some i \<Longrightarrow>
   start + int (length t) \<le> int i \<and> occurs_at s t i \<and> (\<forall>j < i. start + int (length t) \<le> int j \<longrightarrow> \<not> occurs_at s t j)"
  by (auto simp: py_find_def find_Some_iff simp del: upt_Suc)

text \<open>When the old text has no stop string, the search from the given start finds exactly the first occurrence.\<close>

lemma find_stop_string:
  assumes "stop_free ss t" "s \<in> set ss"
  shows "py_find (t @ u) s (1 - int (length u) - int (length s)) = None \<longleftrightarrow> (\<forall>i. \<not> occurs_at s (t @ u) i)"
    and "py_find (t @ u) s (1 - int (length u) - int (length s)) = Some i \<Longrightarrow> first_at s (t @ u) i \<and> length t < i + length s"
proof -
  have late: "1 - int (length u) - int (length s) + int (length (t @ u)) \<le> int j" if "occurs_at s (t @ u) j" for j
    using stop_free_window [OF assms that] by simp
  then show "py_find (t @ u) s (1 - int (length u) - int (length s)) = None \<longleftrightarrow> (\<forall>i. \<not> occurs_at s (t @ u) i)"
    by (auto simp: py_find_None)
  assume "py_find (t @ u) s (1 - int (length u) - int (length s)) = Some i"
  from py_find_Some [OF this] show "first_at s (t @ u) i \<and> length t < i + length s"
    using late stop_free_window [OF assms] by (auto simp: first_at_def)
qed

definition stop_cut :: "bool \<Rightarrow> 'a list \<Rightarrow> nat \<Rightarrow> nat" where
  "stop_cut include_stop s i = (if include_stop then i + length s else i)"

lemma stop_strings_loop_spec:
  assumes "stop_free ss0 t" "set ss \<subseteq> set ss0"
  shows "case stop_strings_loop (t @ u) (length u) incl ss of
      None \<Rightarrow> stop_free ss (t @ u)
    | Some (s, c) \<Rightarrow> s \<in> set ss \<and> (\<exists>i. first_at s (t @ u) i \<and> length t < i + length s
        \<and> (if c = -1 then t @ u else take (nat c) (t @ u)) = take (stop_cut incl s i) (t @ u))"
  using assms(2)
proof (induction ss)
  case Nil
  then show ?case by (simp add: stop_free_def)
next
  case (Cons s ss)
  show ?case
  proof (cases "py_find (t @ u) s (1 - int (length u) - int (length s))")
    case None
    then have "\<forall>i. \<not> occurs_at s (t @ u) i" using find_stop_string(1) [OF assms(1)] Cons.prems by simp
    then show ?thesis using Cons None by (auto simp: stop_free_def split: option.splits)
  next
    case (Some i)
    then have "first_at s (t @ u) i \<and> length t < i + length s" using find_stop_string(2) [OF assms(1)] Cons.prems by simp
    then show ?thesis using Some by (auto simp: stop_cut_def nat_add_distrib)
  qed
qed

lemma check_stop_strings_spec:
  assumes "stop_free ss t"
  shows "case check_stop_strings (t @ u) (length u) ss incl of
      None \<Rightarrow> stop_free ss (t @ u)
    | Some (s, c) \<Rightarrow> s \<in> set ss \<and> (\<exists>i. first_at s (t @ u) i \<and> length t < i + length s
        \<and> (if c = -1 then t @ u else take (nat c) (t @ u)) = take (stop_cut incl s i) (t @ u))"
proof (cases "length u = 0 \<or> ss = []")
  case True
  then show ?thesis using assms by (auto simp: check_stop_strings_def stop_free_def)
next
  case False
  then show ?thesis using stop_strings_loop_spec [OF assms, of ss u incl] by (simp add: check_stop_strings_def)
qed

section \<open>Streaming\<close>

text \<open>The parameters of a detokenizer, which decoding does not change.\<close>

definition same_settings :: "'s detok \<Rightarrow> 's detok \<Rightarrow> bool" where
  "same_settings d d' \<longleftrightarrow> dk_stop d' = dk_stop d \<and> dk_include_stop d' = dk_include_stop d \<and> dk_stop_buffer_length d' = dk_stop_buffer_length d
     \<and> (dk_decoder d' = Plain \<longleftrightarrow> dk_decoder d = Plain)"

lemma same_settings_trans: "same_settings d d' \<Longrightarrow> same_settings d' d'' \<Longrightarrow> same_settings d d''"
  by (simp add: same_settings_def)

lemma decode_token_appends:
  "decode_token tk t d = Inr d' \<Longrightarrow>
   same_settings d d' \<and> dk_last_output_text_offset d' = dk_last_output_text_offset d \<and> (\<exists>u. dk_output_text d' = dk_output_text d @ u)"
  by (auto simp: decode_token_def decode_next_def same_settings_def split: decoder.splits)

lemma decode_tokens_append:
  "rfold (decode_token tk) ids d = Inr d' \<Longrightarrow>
   same_settings d d' \<and> dk_last_output_text_offset d' = dk_last_output_text_offset d \<and> (\<exists>u. dk_output_text d' = dk_output_text d @ u)"
proof (induction ids arbitrary: d)
  case Nil
  then show ?case by (simp add: same_settings_def)
next
  case (Cons t ids)
  then obtain d1 where "decode_token tk t d = Inr d1" "rfold (decode_token tk) ids d1 = Inr d'" by auto
  with decode_token_appends [OF this(1)] Cons.IH [OF this(2)] show ?case
    by (auto intro: same_settings_trans)
qed

lemma decode_token_offset:
  "decode_token tk t (d\<lparr>dk_last_output_text_offset := x\<rparr>) = map_sum id (\<lambda>e. e\<lparr>dk_last_output_text_offset := x\<rparr>) (decode_token tk t d)"
  by (cases "dk_decoder d") (auto simp: decode_token_def decode_next_def rbind_def split: sum.splits)

lemma decode_tokens_offset:
  "rfold (decode_token tk) ids (d\<lparr>dk_last_output_text_offset := x\<rparr>) = map_sum id (\<lambda>e. e\<lparr>dk_last_output_text_offset := x\<rparr>) (rfold (decode_token tk) ids d)"
proof (induction ids arbitrary: d)
  case Nil
  then show ?case by simp
next
  case (Cons t ids)
  then show ?case by (cases "decode_token tk t d") (simp_all add: decode_token_offset)
qed

text \<open>
  The deltas that a client receives. A step has the new tokens and the finish reason that the scheduler reports; it ends the stream when there is a reason
  or a stop string is found, as in \<open>OutputProcessor.process_outputs\<close>.
\<close>

fun delta_stream :: "'s tokenizer \<Rightarrow> (int list \<times> finish_reason option) list \<Rightarrow> 's detok \<Rightarrow> (ustring list \<times> bool \<times> 's detok) result" where
  "delta_stream tk [] d = Inr ([], False, d)"
| "delta_stream tk ((ids, reason) # steps) d =
     rbind (detok_update tk ids (reason = Some STOP) d) (\<lambda>(stop_string, d).
       let finished = (stop_string \<noteq> None \<or> reason \<noteq> None); (t, d) = get_next_output_text finished True d
       in if finished then Inr ([t], True, d)
          else rbind (delta_stream tk steps d) (\<lambda>(ts, finished, d). Inr (t # ts, finished, d)))"

text \<open>The tokens that are decoded: a stop token is not, unless stop strings are included.\<close>

definition shown_ids :: "bool \<Rightarrow> int list \<times> finish_reason option \<Rightarrow> int list" where
  "shown_ids include_stop = (\<lambda>(ids, reason). if reason = Some STOP \<and> \<not> include_stop then butlast ids else ids)"

definition streaming :: "'s detok \<Rightarrow> bool" where
  "streaming d \<longleftrightarrow> dk_decoder d \<noteq> Plain \<and> [] \<notin> set (dk_stop d) \<and> stop_free (dk_stop d) (dk_output_text d)
     \<and> dk_stop_buffer_length d = stop_buffer (dk_stop d) (dk_include_stop d)
     \<and> dk_last_output_text_offset d = length (dk_output_text d) - dk_stop_buffer_length d"

lemma cut_at_stop_spec:
  assumes "stop_free (dk_stop e) t" "dk_output_text e = t @ u" "cut_at_stop (length t) e = (r, d)"
  shows "same_settings e d \<and> dk_last_output_text_offset d = dk_last_output_text_offset e
    \<and> (case r of None \<Rightarrow> d = e \<and> stop_free (dk_stop e) (dk_output_text e)
       | Some s \<Rightarrow> s \<in> set (dk_stop e) \<and> (\<exists>i. first_at s (dk_output_text e) i \<and> length t < i + length s
           \<and> dk_output_text d = take (stop_cut (dk_include_stop e) s i) (dk_output_text e)))"
proof (cases "check_stop_strings (t @ u) (length u) (dk_stop e) (dk_include_stop e)")
  case None
  then show ?thesis using check_stop_strings_spec [OF assms(1), of u "dk_include_stop e"] assms(2,3)
    by (auto simp: cut_at_stop_def same_settings_def)
next
  case (Some p)
  obtain s c where p: "p = (s, c)" by force
  then have d: "r = Some s" "d = (if c = -1 then e else e\<lparr>dk_output_text := take (nat c) (t @ u)\<rparr>)"
    using Some assms(2,3) by (auto simp: cut_at_stop_def)
  from check_stop_strings_spec [OF assms(1), of u "dk_include_stop e"] Some p obtain i where
    "s \<in> set (dk_stop e)" "first_at s (t @ u) i" "length t < i + length s"
    "(if c = -1 then t @ u else take (nat c) (t @ u)) = take (stop_cut (dk_include_stop e) s i) (t @ u)" by auto
  moreover have "dk_output_text d = (if c = -1 then t @ u else take (nat c) (t @ u))" using d(2) assms(2) by simp
  moreover have "same_settings e d" "dk_last_output_text_offset d = dk_last_output_text_offset e" using d(2) by (simp_all add: same_settings_def)
  ultimately show ?thesis using d(1) unfolding assms(2) by (simp only: option.case) blast
qed

lemma update_running:
  assumes "streaming d" "detok_update tk ids (reason = Some STOP) d = Inr (r, d1)"
  obtains e where "rfold (decode_token tk) (shown_ids (dk_include_stop d) (ids, reason)) d = Inr e" "same_settings d d1"
    "dk_last_output_text_offset d1 = dk_last_output_text_offset d" "same_settings d e"
    "r = None \<Longrightarrow> dk_output_text d1 = dk_output_text e \<and> (reason = None \<longrightarrow> d1 = e \<and> stop_free (dk_stop d) (dk_output_text e))"
    "\<And>s. r = Some s \<Longrightarrow> s \<in> set (dk_stop d) \<and> (\<exists>i. first_at s (dk_output_text e) i \<and> length (dk_output_text d) < i + length s
       \<and> dk_output_text d1 = take (stop_cut (dk_include_stop d) s i) (dk_output_text e))"
proof (cases "ids = []")
  case True
  then have "r = None" "d1 = d" using assms by (auto simp: detok_update_def streaming_def)
  then show thesis using that [of d] True assms(1) by (simp add: shown_ids_def same_settings_def streaming_def)
next
  case False
  then obtain e where e: "rfold (decode_token tk) (shown_ids (dk_include_stop d) (ids, reason)) d = Inr e"
    and d1: "if reason = Some STOP
      then (r, d1) = (None, if dk_include_stop d then e else e\<lparr>dk_token_ids := dk_token_ids e @ [last ids]\<rparr>)
      else (r, d1) = cut_at_stop (length (dk_output_text d)) e"
    using assms by (auto simp: detok_update_def streaming_def shown_ids_def Let_def split: if_splits)
  from decode_tokens_append [OF e] obtain u where ss: "same_settings d e"
    and off: "dk_last_output_text_offset e = dk_last_output_text_offset d" and u: "dk_output_text e = dk_output_text d @ u" by auto
  show thesis
  proof (cases "reason = Some STOP")
    case True
    then show ?thesis using that [OF e] d1 ss off by (auto simp: same_settings_def split: if_splits)
  next
    case False
    then have cs: "cut_at_stop (length (dk_output_text d)) e = (r, d1)" using d1 by auto
    have sf: "stop_free (dk_stop e) (dk_output_text d)" using assms(1) ss by (simp add: streaming_def same_settings_def)
    show ?thesis using that [OF e] cut_at_stop_spec [OF sf u cs] ss off
      by (cases r) (auto simp: same_settings_def)
  qed
qed

text \<open>A cut never removes characters that were sent.\<close>

lemma cut_after_offset:
  assumes "streaming d" "s \<in> set (dk_stop d)" "length (dk_output_text d) < i + length s"
  shows "dk_last_output_text_offset d \<le> stop_cut (dk_include_stop d) s i"
proof (cases "dk_include_stop d")
  case True
  then show ?thesis using assms by (simp add: streaming_def stop_cut_def)
next
  case False
  define m where "m = Max (set (map length (dk_stop d)))"
  have "length s \<le> m" using assms(2) by (simp add: m_def)
  moreover have "s \<noteq> []" using assms(1,2) by (auto simp: streaming_def)
  moreover have "dk_stop_buffer_length d = m - 1" using assms(1,2) False by (auto simp: streaming_def stop_buffer_def m_def)
  moreover have "dk_last_output_text_offset d = length (dk_output_text d) - dk_stop_buffer_length d" using assms(1) by (simp add: streaming_def)
  moreover have "0 < length s" using \<open>s \<noteq> []\<close> by simp
  ultimately show ?thesis using assms(3) False by (simp add: stop_cut_def)
qed

lemma py_slice_from_0: "py_slice 0 b xs = take b xs"
  by (simp add: py_slice_def)

lemma decode_tokens_offset_Inr:
  "rfold (decode_token tk) ids (d\<lparr>dk_last_output_text_offset := x\<rparr>) = Inr e \<Longrightarrow>
   \<exists>e0. rfold (decode_token tk) ids d = Inr e0 \<and> dk_output_text e0 = dk_output_text e"
  by (cases "rfold (decode_token tk) ids d") (auto simp: decode_tokens_offset)

lemma final_text:
  assumes "get_next_output_text True True d = (t, d')" "dk_decoder d \<noteq> Plain" "dk_last_output_text_offset d \<le> length (dk_output_text d)"
  shows "take (dk_last_output_text_offset d) (dk_output_text d) @ t = dk_output_text d \<and> dk_output_text d' = dk_output_text d"
  using assms py_slice_append [of 0 "dk_last_output_text_offset d" "length (dk_output_text d)" "dk_output_text d"]
  by (auto simp: get_next_output_text_def py_slice_from_0 Let_def split: if_splits)

lemma running_text:
  assumes "get_next_output_text False True d1 = (t, d')" "dk_decoder d1 \<noteq> Plain"
    "dk_last_output_text_offset d1 \<le> length (dk_output_text d1) - dk_stop_buffer_length d1"
  shows "d' = d1\<lparr>dk_last_output_text_offset := length (dk_output_text d1) - dk_stop_buffer_length d1\<rparr>
    \<and> take (dk_last_output_text_offset d1) (dk_output_text d1) @ t = take (length (dk_output_text d1) - dk_stop_buffer_length d1) (dk_output_text d1)"
proof (cases "int (dk_last_output_text_offset d1) < int (length (dk_output_text d1)) - int (dk_stop_buffer_length d1)")
  case True
  then have "nat (int (length (dk_output_text d1)) - int (dk_stop_buffer_length d1)) = length (dk_output_text d1) - dk_stop_buffer_length d1" by simp
  then show ?thesis using True assms py_slice_append [of 0 "dk_last_output_text_offset d1" _ "dk_output_text d1"]
    by (auto simp: get_next_output_text_def py_slice_from_0)
next
  case False
  then have "length (dk_output_text d1) - dk_stop_buffer_length d1 = dk_last_output_text_offset d1" using assms(3) by linarith
  then show ?thesis using False assms by (auto simp: get_next_output_text_def)
qed

definition ended_text :: "ustring list \<Rightarrow> bool \<Rightarrow> ustring \<Rightarrow> ustring \<Rightarrow> bool" where
  "ended_text ss include_stop full t \<longleftrightarrow> t = full \<or> (\<exists>s \<in> set ss. \<exists>i. first_at s full i \<and> t = take (stop_cut include_stop s i) full)"

lemma delta_stream_spec:
  assumes "streaming d" "delta_stream tk steps d = Inr (ts, fin, d')"
  shows "\<exists>e. rfold (decode_token tk) (concat (map (shown_ids (dk_include_stop d)) (take (length ts) steps))) d = Inr e
    \<and> (if fin then ended_text (dk_stop d) (dk_include_stop d) (dk_output_text e) (dk_output_text d')
          \<and> take (dk_last_output_text_offset d) (dk_output_text d) @ concat ts = dk_output_text d'
       else streaming d' \<and> dk_output_text d' = dk_output_text e \<and> dk_stop d' = dk_stop d \<and> dk_stop_buffer_length d' = dk_stop_buffer_length d
          \<and> take (dk_last_output_text_offset d) (dk_output_text d) @ concat ts = take (dk_last_output_text_offset d') (dk_output_text d'))"
  using assms
proof (induction steps arbitrary: d ts)
  case Nil
  then show ?case by simp
next
  case (Cons step steps)
  obtain ids reason where step: "step = (ids, reason)" by force
  from Cons.prems(2) obtain r d1 where upd: "detok_update tk ids (reason = Some STOP) d = Inr (r, d1)"
    by (auto simp: step)
  obtain e where e: "rfold (decode_token tk) (shown_ids (dk_include_stop d) step) d = Inr e" and set1: "same_settings d d1"
    and off: "dk_last_output_text_offset d1 = dk_last_output_text_offset d" and sete: "same_settings d e"
    and none: "r = None \<Longrightarrow> dk_output_text d1 = dk_output_text e \<and> (reason = None \<longrightarrow> d1 = e \<and> stop_free (dk_stop d) (dk_output_text e))"
    and some: "\<And>s. r = Some s \<Longrightarrow> s \<in> set (dk_stop d) \<and> (\<exists>i. first_at s (dk_output_text e) i \<and> length (dk_output_text d) < i + length s
       \<and> dk_output_text d1 = take (stop_cut (dk_include_stop d) s i) (dk_output_text e))"
    using update_running [OF Cons.prems(1) upd] unfolding step by blast
  have dec: "dk_decoder d1 \<noteq> Plain" "dk_decoder d \<noteq> Plain" using Cons.prems(1) set1 by (simp_all add: streaming_def same_settings_def)
  obtain u where u: "dk_output_text e = dk_output_text d @ u" using decode_tokens_append [OF e] by auto
  have offd: "dk_last_output_text_offset d \<le> length (dk_output_text d)" using Cons.prems(1) by (simp add: streaming_def)
  show ?case
  proof (cases "r \<noteq> None \<or> reason \<noteq> None")
    case True
    obtain t d2 where t: "get_next_output_text True True d1 = (t, d2)" by force
    have "ts = [t]" "fin" "d' = d2" using Cons.prems(2) upd True t by (auto simp: step)
    moreover have le: "dk_last_output_text_offset d \<le> length (dk_output_text d1)
       \<and> take (dk_last_output_text_offset d) (dk_output_text d1) = take (dk_last_output_text_offset d) (dk_output_text d)"
    proof (cases r)
      case None
      then show ?thesis using none u offd by simp
    next
      case (Some s)
      then obtain i where i: "first_at s (dk_output_text e) i" "length (dk_output_text d) < i + length s" "s \<in> set (dk_stop d)"
        "dk_output_text d1 = take (stop_cut (dk_include_stop d) s i) (dk_output_text e)" using some by blast
      then show ?thesis using cut_after_offset [OF Cons.prems(1) i(3,2)] u offd by simp
    qed
    moreover have "ended_text (dk_stop d) (dk_include_stop d) (dk_output_text e) (dk_output_text d1)"
      using none some by (cases r) (auto simp: ended_text_def)
    ultimately show ?thesis
      using final_text [OF t dec(1)] e off by simp
  next
    case False
    then have d1: "d1 = e" "stop_free (dk_stop d) (dk_output_text d1)" using none by auto
    obtain t d2 where t: "get_next_output_text False True d1 = (t, d2)" by force
    have "dk_last_output_text_offset d1 \<le> length (dk_output_text d1) - dk_stop_buffer_length d1"
      using Cons.prems(1) off set1 u by (simp add: d1 streaming_def same_settings_def)
    from running_text [OF t dec(1) this] have
      d2: "d2 = d1\<lparr>dk_last_output_text_offset := length (dk_output_text d1) - dk_stop_buffer_length d1\<rparr>" and
      sent: "take (dk_last_output_text_offset d) (dk_output_text d) @ t = take (dk_last_output_text_offset d2) (dk_output_text d2)"
      using off offd u by (auto simp: d1)
    from Cons.prems(2) upd False t obtain ts' where ts: "ts = t # ts'" "delta_stream tk steps d2 = Inr (ts', fin, d')"
      by (auto simp: step)
    have "streaming d2" "dk_include_stop d2 = dk_include_stop d" "dk_stop d2 = dk_stop d" "dk_stop_buffer_length d2 = dk_stop_buffer_length d"
      using Cons.prems(1) d1(2) set1 by (auto simp: d2 streaming_def same_settings_def)
    note d2s = this
    from Cons.IH [OF d2s(1) ts(2), unfolded d2s(2-4)] obtain e2 where
      e2: "rfold (decode_token tk) (concat (map (shown_ids (dk_include_stop d)) (take (length ts') steps))) d2 = Inr e2" and
      rest: "if fin then ended_text (dk_stop d) (dk_include_stop d) (dk_output_text e2) (dk_output_text d')
          \<and> take (dk_last_output_text_offset d2) (dk_output_text d2) @ concat ts' = dk_output_text d'
       else streaming d' \<and> dk_output_text d' = dk_output_text e2 \<and> dk_stop d' = dk_stop d \<and> dk_stop_buffer_length d' = dk_stop_buffer_length d
          \<and> take (dk_last_output_text_offset d2) (dk_output_text d2) @ concat ts' = take (dk_last_output_text_offset d') (dk_output_text d')"
      by blast
    obtain e3 where "rfold (decode_token tk) (concat (map (shown_ids (dk_include_stop d)) (take (length ts') steps))) e = Inr e3"
      "dk_output_text e3 = dk_output_text e2" using decode_tokens_offset_Inr [OF e2 [unfolded d2]] d1 by auto
    moreover have sent2: "take (dk_last_output_text_offset d) (dk_output_text d) @ concat ts = take (dk_last_output_text_offset d2) (dk_output_text d2) @ concat ts'"
      using sent by (simp add: ts(1) flip: append_assoc)
    ultimately show ?thesis using rest e unfolding sent2 by (simp add: ts(1) rfold_append split: if_splits)
  qed
qed

section \<open>The Python detokenizer decodes like the whole text\<close>

text \<open>
  \<open>decodes_in_context tk D\<close>: the text of tokens does not depend on what precedes them, once something complete does. This is an idealised tokenizer: no library
  documents it, and the comments of \<open>detokenizer_utils.py\<close> name cleanup algorithms that decide to add a space or not depending on the surrounding ids. The lemmas of this section
  are about the bookkeeping of offsets for such a tokenizer. \<open>D\<close> is the text of tokens behind other ones
  (a sentence-piece tokenizer drops a space at the start of a text, so that \<open>D\<close> differs from its text there).
\<close>

definition whole :: "ustring \<Rightarrow> bool" where
  "whole t \<longleftrightarrow> t \<noteq> [] \<and> last t \<noteq> REPLACEMENT"

definition decodes_in_context :: "'s tokenizer \<Rightarrow> (ustring option list \<Rightarrow> ustring) \<Rightarrow> bool" where
  "decodes_in_context tk D \<longleftrightarrow> (\<forall>Q R. whole (D Q) \<longrightarrow>
     (\<exists>t. tk_tokens_to_string tk Q = Inr t \<and> tk_tokens_to_string tk (Q @ R) = Inr (t @ D R)) \<and> D (Q @ R) = D Q @ D R)"

definition id_tokens :: "'s tokenizer \<Rightarrow> bool \<Rightarrow> int \<Rightarrow> ustring option list" where
  "id_tokens tk skip i = (if 0 \<le> i \<and> i < tk_len tk then tk_ids_to_tokens tk [i] skip else [Some []])"

lemma decodes_in_contextD:
  assumes "decodes_in_context tk D" "whole (D Q)"
  shows "\<exists>t. tk_tokens_to_string tk Q = Inr t \<and> tk_tokens_to_string tk (Q @ R) = Inr (t @ D R)" "D (Q @ R) = D Q @ D R"
  using assms unfolding decodes_in_context_def by blast+

lemma decodes_Nil: "decodes_in_context tk D \<Longrightarrow> whole (D Q) \<Longrightarrow> D [] = []"
  using decodes_in_contextD(2) [of tk D Q "[]"] by simp

lemma whole_append: "whole u \<Longrightarrow> whole (t @ u)"
  by (simp add: whole_def)

lemma detokenize_step:
  assumes law: "decodes_in_context tk D" and fast: "tk_is_fast tk \<or> tk_added_vocab tk = []" and P: "whole (D P)" and ids: "ids \<noteq> []"
  shows "detokenize_incrementally tk ids (Some (A @ P @ Q)) (length A) (length A + length P) skip spaces =
    (let N = id_tokens tk skip (last ids)
     in Inr (if whole (D (Q @ N)) then (N, D (Q @ N), length A + length P, length (A @ P @ Q @ N)) else (N, [], length A, length A + length P)))"
proof -
  define N where "N = id_tokens tk skip (last ids)"
  obtain t where t: "tk_tokens_to_string tk P = Inr t" "tk_tokens_to_string tk (P @ Q @ N) = Inr (t @ D (Q @ N))"
    using decodes_in_contextD(1) [OF law P, of "Q @ N"] by auto
  have "py_iget ids (- 1) = Inr (last ids)"
    using ids by (simp add: py_iget_def last_conv_nth nat_diff_distrib' Suc_leI)
  moreover have "tokens_to_text tk skip spaces ts = tk_tokens_to_string tk ts" for ts
    using fast by (auto simp: tokens_to_text_def)
  moreover have "(length (t @ u) \<le> length t \<or> t @ u \<noteq> [] \<and> last (t @ u) = REPLACEMENT) \<longleftrightarrow> \<not> whole u" for u
    by (cases "u = []") (auto simp: whole_def)
  ultimately show ?thesis
    using t by (simp add: detokenize_incrementally_def py_slice_def Let_def flip: id_tokens_def N_def)
qed

definition slow_at :: "(ustring option list \<Rightarrow> ustring) \<Rightarrow> bool \<Rightarrow> ustring option list \<Rightarrow> 's detok \<Rightarrow> bool" where
  "slow_at D skip gen d \<longleftrightarrow> (\<exists>s A P B out Q. dk_decoder d = Slow s \<and> sl_skip_special_tokens s = skip \<and> sl_tokens s = A @ P @ Q
     \<and> sl_prefix_offset s = length A \<and> sl_read_offset s = length A + length P \<and> whole (D P) \<and> A @ P = B @ out \<and> gen = out @ Q
     \<and> dk_output_text d = D out \<and> (out = [] \<or> whole (D out)) \<and> \<not> whole (D Q))"

lemma slow_atI:
  assumes "dk_decoder d = Slow s" "sl_skip_special_tokens s = skip" "sl_tokens s = A @ P @ Q" "sl_prefix_offset s = length A"
    "sl_read_offset s = length A + length P" "whole (D P)" "A @ P = B @ out" "gen = out @ Q" "dk_output_text d = D out"
    "out = [] \<or> whole (D out)" "\<not> whole (D Q)"
  shows "slow_at D skip gen d"
  unfolding slow_at_def using assms by blast

lemma slow_at_step:
  assumes law: "decodes_in_context tk D" and fast: "tk_is_fast tk \<or> tk_added_vocab tk = []" and d: "slow_at D skip gen d"
  shows "\<exists>d'. decode_token tk i d = Inr d' \<and> slow_at D skip (gen @ id_tokens tk skip i) d'"
proof -
  from d obtain s A P B out Q where s: "dk_decoder d = Slow s" "sl_skip_special_tokens s = skip" "sl_tokens s = A @ P @ Q"
    "sl_prefix_offset s = length A" "sl_read_offset s = length A + length P" and P: "whole (D P)" and B: "A @ P = B @ out"
    and gen: "gen = out @ Q" and t: "dk_output_text d = D out" and out: "out = [] \<or> whole (D out)"
    unfolding slow_at_def by blast
  define N where "N = id_tokens tk skip i"
  note step = detokenize_step [OF law fast P, of "dk_token_ids d @ [i]" A Q skip "sl_spaces_between_special_tokens s"]
  have app: "D (out @ R) = D out @ D R" for R
    using out decodes_in_contextD(2) [OF law] decodes_Nil [OF law P] by auto
  show ?thesis
  proof (cases "whole (D (Q @ N))")
    case True
    define s' where "s' = s\<lparr>sl_tokens := (A @ P) @ (Q @ N) @ [], sl_prefix_offset := length (A @ P), sl_read_offset := length (A @ P) + length (Q @ N)\<rparr>"
    define d' where "d' = d\<lparr>dk_token_ids := dk_token_ids d @ [i], dk_output_text := D out @ D (Q @ N), dk_decoder := Slow s'\<rparr>"
    have "decode_token tk i d = Inr d'"
      using step s t True by (simp add: decode_token_def decode_next_def slow_decode_next_def Let_def d'_def s'_def flip: N_def)
    moreover have "slow_at D skip (gen @ N) d'"
      by (rule slow_atI [where s = s' and A = "A @ P" and P = "Q @ N" and Q = "[]" and B = B and out = "out @ Q @ N"])
        (use True s(2) B gen decodes_Nil [OF law P] in \<open>simp_all add: d'_def s'_def app whole_append\<close>, simp add: whole_def)
    ultimately show ?thesis by (auto simp: N_def)
  next
    case False
    define s' where "s' = s\<lparr>sl_tokens := A @ P @ Q @ N\<rparr>"
    define d' where "d' = d\<lparr>dk_token_ids := dk_token_ids d @ [i], dk_decoder := Slow s'\<rparr>"
    have "decode_token tk i d = Inr d'"
      using step s False by (simp add: decode_token_def decode_next_def slow_decode_next_def Let_def d'_def s'_def flip: N_def)
    moreover have "slow_at D skip (gen @ N) d'"
      by (rule slow_atI [where s = s' and A = A and P = P and Q = "Q @ N" and B = B and out = out]) (use False s B gen t out P in \<open>simp_all add: d'_def s'_def\<close>)
    ultimately show ?thesis by (auto simp: N_def)
  qed
qed

lemma slow_at_fresh:
  assumes law: "decodes_in_context tk D" and P: "whole (D (drop (length ts - INITIAL_OFFSET) ts))"
    and ts: "ts = fst (convert_prompt_ids_to_tokens tk prompt (tp_skip_special_tokens params))"
  shows "slow_at D (tp_skip_special_tokens params) [] (detok_new params prompt (Slow (slow_init tk params prompt)))"
proof -
  have "convert_prompt_ids_to_tokens tk prompt (tp_skip_special_tokens params) = (ts, length ts - INITIAL_OFFSET, length ts)"
    using ts by (simp add: convert_prompt_ids_to_tokens_def Let_def replace_none_with_empty_def)
  then show ?thesis using P decodes_Nil [OF law P]
    by (intro slow_atI [where A = "take (length ts - INITIAL_OFFSET) ts" and P = "drop (length ts - INITIAL_OFFSET) ts" and B = ts and out = "[]" and Q = "[]"])
      (auto simp: detok_new_def slow_init_def whole_def)
qed

lemma slow_at_run:
  assumes law: "decodes_in_context tk D" and fast: "tk_is_fast tk \<or> tk_added_vocab tk = []" and "slow_at D skip gen d"
  shows "\<exists>d'. rfold (decode_token tk) ids d = Inr d' \<and> slow_at D skip (gen @ concat (map (id_tokens tk skip) ids)) d'"
  using assms(3)
proof (induction ids arbitrary: gen d)
  case Nil
  then show ?case by simp
next
  case (Cons i ids)
  from slow_at_step [OF law fast Cons.prems, of i] obtain d1 where "decode_token tk i d = Inr d1" "slow_at D skip (gen @ id_tokens tk skip i) d1" by blast
  with Cons.IH [OF this(2)] show ?case by simp
qed

lemma decode_token_ids:
  "decode_token tk i d = Inr e \<Longrightarrow>
   dk_token_ids e = dk_token_ids d @ [i] \<and> (case dk_decoder d of Slow s \<Rightarrow> \<exists>s'. dk_decoder e = Slow s' \<and> sl_prompt_len s' = sl_prompt_len s | _ \<Rightarrow> True)"
  by (auto simp: decode_token_def decode_next_def slow_decode_next_def split: decoder.splits)

lemma decode_tokens_ids:
  "rfold (decode_token tk) ids d = Inr e \<Longrightarrow> dk_decoder d = Slow s \<Longrightarrow>
   dk_token_ids e = dk_token_ids d @ ids \<and> (\<exists>s'. dk_decoder e = Slow s' \<and> sl_prompt_len s' = sl_prompt_len s)"
proof (induction ids arbitrary: d s)
  case Nil
  then show ?case by simp
next
  case (Cons i ids)
  then obtain d1 where d1: "decode_token tk i d = Inr d1" "rfold (decode_token tk) ids d1 = Inr e" by auto
  from decode_token_ids [OF d1(1)] Cons.prems(2) obtain s1 where "dk_decoder d1 = Slow s1" "sl_prompt_len s1 = sl_prompt_len s"
    "dk_token_ids d1 = dk_token_ids d @ [i]" by auto
  with Cons.IH [OF d1(2)] show ?case by auto
qed

section \<open>Properties\<close>

text \<open>A tokenizer whose tokens are single code points, for examples.\<close>

definition char_tokenizer :: "bool \<Rightarrow> unit tokenizer" where
  "char_tokenizer stream = \<lparr>tk_len = 100000, tk_is_fast = True, tk_decode_stream = stream, tk_added_vocab = [], tk_special_tokens = [], tk_added_tokens = [],
     tk_ids_to_tokens = (\<lambda>ids skip. map (\<lambda>i. Some [i]) ids), tk_tokens_to_string = (\<lambda>ts. Inr (concat (map (case_option [] id) ts))),
     tk_decode = id, tk_stream = (\<lambda>skip. ()), tk_stream_step = (\<lambda>s i. Inr (s, Some [i]))\<rparr>"

text \<open>
  C13. Streaming. For non-empty stop strings, the deltas that a client receives make up, at every time, the decoded text without the characters that are held
  back, and no stop string is in the decoded text while the request runs. When the request ends, the deltas make up exactly the final text: nothing that was
  sent is taken back. The final text is the decoded text, or the decoded text up to the first occurrence of a stop string (up to its end if stop strings are included).
\<close>

theorem streamed_text_spec:
  assumes "detok_from_new_request (Some tk) params prompt = Inr d" "[] \<notin> set (tp_stop params)"
    and "delta_stream tk steps d = Inr (ts, finished, d')"
  shows "\<exists>e. rfold (decode_token tk) (concat (map (shown_ids (tp_include_stop params)) (take (length ts) steps))) d = Inr e
    \<and> (if finished then concat ts = dk_output_text d' \<and> ended_text (tp_stop params) (tp_include_stop params) (dk_output_text e) (concat ts)
       else concat ts = take (length (dk_output_text e) - stop_buffer (tp_stop params) (tp_include_stop params)) (dk_output_text e)
         \<and> stop_free (tp_stop params) (dk_output_text e))"
proof -
  have d: "streaming d" "dk_stop d = tp_stop params" "dk_include_stop d = tp_include_stop params" "dk_last_output_text_offset d = 0"
    "dk_stop_buffer_length d = stop_buffer (tp_stop params) (tp_include_stop params)"
    using assms(1,2) by (auto simp: detok_from_new_request_def detok_new_def streaming_def stop_free_def occurs_at_def split: if_splits)
  from delta_stream_spec [OF d(1) assms(3)] obtain e where
    e: "rfold (decode_token tk) (concat (map (shown_ids (dk_include_stop d)) (take (length ts) steps))) d = Inr e" and
    r: "if finished then ended_text (dk_stop d) (dk_include_stop d) (dk_output_text e) (dk_output_text d') \<and> concat ts = dk_output_text d'
      else streaming d' \<and> dk_output_text d' = dk_output_text e \<and> dk_stop d' = dk_stop d \<and> dk_stop_buffer_length d' = dk_stop_buffer_length d
        \<and> concat ts = take (dk_last_output_text_offset d') (dk_output_text d')"
    unfolding d(4) take_0 append_Nil by blast
  show ?thesis
    using e r d by (intro exI [of _ e]) (auto simp: streaming_def)
qed

definition example_params :: text_params where
  "example_params = \<lparr>tp_stop = [[98, 99]], tp_include_stop = False, tp_skip_special_tokens = True, tp_spaces_between_special_tokens = True\<rparr>"

theorem streamed_text_spec_witness:
  "\<exists>d d' e. detok_from_new_request (Some (char_tokenizer True)) example_params [1] = Inr d
     \<and> delta_stream (char_tokenizer True) [([97], None), ([98], None), ([99, 100], None)] d = Inr ([[], [97], []], True, d')
     \<and> rfold (decode_token (char_tokenizer True)) [97, 98, 99, 100] d = Inr e \<and> ended_text [[98, 99]] False (dk_output_text e) [97]"
proof -
  have "case detok_from_new_request (Some (char_tokenizer True)) example_params [1] of Inl x \<Rightarrow> False
    | Inr d \<Rightarrow> (case delta_stream (char_tokenizer True) [([97], None), ([98], None), ([99, 100], None)] d of Inl x \<Rightarrow> False
        | Inr (ts, fin, d') \<Rightarrow> ts = [[], [97], []] \<and> fin)"
    by code_simp
  then obtain d d' where d: "detok_from_new_request (Some (char_tokenizer True)) example_params [1] = Inr d"
    "delta_stream (char_tokenizer True) [([97], None), ([98], None), ([99, 100], None)] d = Inr ([[], [97], []], True, d')"
    by (auto split: sum.splits prod.splits)
  from streamed_text_spec [OF d(1) _ d(2)] d show ?thesis by (auto simp: example_params_def shown_ids_def)
qed

text \<open>
  The Python detokenizer, for an idealised tokenizer that is fast or has no added tokens. Let \<open>D\<close> be the text of tokens in context. If the last tokens of the prompt are whole, detokenization raises nothing, the output tokens are
  the given ones, and the text is that of the first \<open>k\<close> tokens, where the others do not end in a complete character: the text grows by whole pieces and nothing
  is lost. When the text of all tokens ends in a complete character, it is the output.
\<close>

lemma slow_detokenizer_exact:
  fixes tk :: "'s tokenizer"
  assumes law: "decodes_in_context tk D" and fast: "tk_is_fast tk \<or> tk_added_vocab tk = []" and slow: "\<not> tk_decode_stream tk"
    and ts: "ts = fst (convert_prompt_ids_to_tokens tk prompt (tp_skip_special_tokens params))"
    and prompt: "whole (D (drop (length ts - INITIAL_OFFSET) ts))"
    and gen: "gen = concat (map (id_tokens tk (tp_skip_special_tokens params)) ids)"
  shows "\<exists>d e k. detok_from_new_request (Some tk) params prompt = Inr d \<and> rfold (decode_token tk) ids d = Inr e \<and> detok_output_token_ids e = ids
    \<and> k \<le> length gen \<and> dk_output_text e = D (take k gen) \<and> \<not> whole (D (drop k gen)) \<and> (whole (D gen) \<longrightarrow> dk_output_text e = D gen)"
proof -
  define d :: "'s detok" where "d = detok_new params prompt (Slow (slow_init tk params prompt))"
  have d: "detok_from_new_request (Some tk) params prompt = Inr d" using slow by (simp add: detok_from_new_request_def d_def)
  from slow_at_run [OF law fast slow_at_fresh [OF law prompt ts], of ids] obtain e where e: "rfold (decode_token tk) ids d = Inr e"
    and at: "slow_at D (tp_skip_special_tokens params) gen e" by (auto simp: d_def gen)
  have ids: "detok_output_token_ids e = ids" using decode_tokens_ids [OF e]
    by (auto simp: d_def detok_new_def slow_init_def detok_output_token_ids_def split: prod.splits)
  from at obtain out Q where q: "gen = out @ Q" "dk_output_text e = D out" "out = [] \<or> whole (D out)" "\<not> whole (D Q)" unfolding slow_at_def by blast
  have "D out @ D Q = D gen" using q(1,3) decodes_in_contextD(2) [OF law] decodes_Nil [OF law prompt] by auto
  then have "whole (D gen) \<longrightarrow> D gen = D out" using q(4) by (metis append_Nil2 last_appendR whole_def)
  then show ?thesis using d e ids q by (intro exI [of _ d] exI [of _ e] exI [of _ "length out"]) auto
qed

lemma slow_detokenizer_exact_witness:
  "\<exists>d e. detok_from_new_request (Some (char_tokenizer False)) example_params [1, 2] = Inr d
     \<and> rfold (decode_token (char_tokenizer False)) [97, 65533, 98] d = Inr e \<and> dk_output_text e = [97, 65533, 98]"
proof -
  define D :: "ustring option list \<Rightarrow> ustring" where "D = (\<lambda>ts. concat (map (case_option [] id) ts))"
  have "decodes_in_context (char_tokenizer False) D" by (auto simp: decodes_in_context_def D_def char_tokenizer_def)
  moreover have "whole (D (drop (length ts - INITIAL_OFFSET) ts))" if "ts = fst (convert_prompt_ids_to_tokens (char_tokenizer False) [1, 2] (tp_skip_special_tokens example_params))" for ts
    using that by (simp add: convert_prompt_ids_to_tokens_def char_tokenizer_def replace_none_with_empty_def INITIAL_OFFSET_def D_def whole_def REPLACEMENT_def)
  moreover have "concat (map (id_tokens (char_tokenizer False) (tp_skip_special_tokens example_params)) [97, 65533, 98]) = [Some [97], Some [65533], Some [98]]"
    by (simp add: id_tokens_def char_tokenizer_def)
  moreover have "tk_is_fast (char_tokenizer False)" "\<not> tk_decode_stream (char_tokenizer False)" by (simp_all add: char_tokenizer_def)
  ultimately have "\<exists>d e k. detok_from_new_request (Some (char_tokenizer False)) example_params [1, 2] = Inr d \<and> rfold (decode_token (char_tokenizer False)) [97, 65533, 98] d = Inr e
      \<and> (whole (D [Some [97], Some [65533], Some [98]]) \<longrightarrow> dk_output_text e = D [Some [97], Some [65533], Some [98]])"
    using slow_detokenizer_exact [of "char_tokenizer False" D _ "[1, 2]" example_params _ "[97, 65533, 98]", OF _ _ _ refl _ refl] by metis
  then show ?thesis by (simp add: D_def whole_def REPLACEMENT_def)
qed

text \<open>
  The stop strings are tried in their order, so that the text may keep another stop string: with the stop strings \<open>b\<close> and \<open>a\<close> the text \<open>xaybz\<close>, decoded in one step,
  is cut to \<open>xay\<close>.
\<close>

lemma earlier_stop_string_kept:
  "check_stop_strings [120, 97, 121, 98, 122] 5 [[98], [97]] False = Some ([98], 3) \<and> \<not> stop_free [[98], [97]] (take 3 [120, 97, 121, 98, 122 :: int])"
proof -
  have "occurs_at [97] (take 3 [120, 97, 121, 98, 122 :: int]) 1" by code_simp
  then show ?thesis by (auto simp: stop_free_def) code_simp
qed

end
