(* ===== verification/Output_Processor.thy ===== *)
theory Output_Processor
  imports Complex_Main Detokenizer "HOL-Library.AList"
begin

text \<open>
  From the outputs of the scheduler to the outputs of requests: vllm \<open>v1/engine/output_processor.py\<close>, \<open>v1/engine/parallel_sampling.py\<close>,
  \<open>v1/engine/logprobs.py\<close>, the outputs of \<open>outputs.py\<close>, the statistics of \<open>v1/metrics/stats.py\<close> and the fan-out of \<open>v1/engine/llm_engine.py\<close>.

  Parent requests and output collectors are shared objects: requests hold their addresses, indices in the lists \<open>op_heap\<close> and \<open>op_queues\<close> of the processor.
  Times are reals. The class of tokenizers for LoRA adapters is the argument \<open>op_tokenizer\<close>.
\<close>

section \<open>Log-probabilities\<close>

record logprob =
  lg_logprob :: real
  lg_rank :: nat
  lg_decoded_token :: "ustring option"

type_synonym logprob_dict = "(int \<times> logprob) list"

record logprobs_processor =
  lp_logprobs :: "logprob_dict list option"
  lp_prompt_logprobs :: "logprob_dict option list option"
  lp_cumulative_logprob :: "real option"
  lp_num_logprobs :: "nat option"
  lp_num_prompt_logprobs :: "nat option"

definition logprobs_from_new_request :: "nat option \<Rightarrow> nat option \<Rightarrow> logprobs_processor" where
  "logprobs_from_new_request num num_prompt =
     \<lparr>lp_logprobs = (case num of None \<Rightarrow> None | Some _ \<Rightarrow> Some []), lp_prompt_logprobs = (case num_prompt of None \<Rightarrow> None | Some _ \<Rightarrow> Some [None]),
      lp_cumulative_logprob = (case num of None \<Rightarrow> None | Some _ \<Rightarrow> Some 0), lp_num_logprobs = num, lp_num_prompt_logprobs = num_prompt\<rparr>"

definition make_logprob_dict :: "real list \<Rightarrow> int list \<Rightarrow> ustring option list \<Rightarrow> nat \<Rightarrow> nat \<Rightarrow> logprob_dict" where
  "make_logprob_dict logprobs logprob_token_ids decoded_tokens rank num =
     fold (\<lambda>(token_id, l, r, t) m. AList.update token_id \<lparr>lg_logprob = l, lg_rank = r, lg_decoded_token = t\<rparr> m)
       (zip logprob_token_ids (zip logprobs (zip (rank # [1..<num + 1]) decoded_tokens))) []"

definition decoded_tokens :: "'s tokenizer option \<Rightarrow> int list \<Rightarrow> ustring option list" where
  "decoded_tokens tokenizer ids = (case tokenizer of None \<Rightarrow> map (\<lambda>_. None) ids | Some tk \<Rightarrow> convert_ids_list_to_tokens tk ids)"

definition sample_logprob_step :: "'s tokenizer option \<Rightarrow> nat \<times> real list \<times> int list \<Rightarrow> logprobs_processor \<Rightarrow> logprobs_processor result" where
  "sample_logprob_step tokenizer = (\<lambda>(rank, logprobs, token_ids) lp.
     rbind (py_get logprobs 0) (\<lambda>sampled_token_logprob.
       Inr (lp\<lparr>lp_cumulative_logprob := map_option (\<lambda>c. c + sampled_token_logprob) (lp_cumulative_logprob lp),
               lp_logprobs := map_option (\<lambda>l. l @ [make_logprob_dict logprobs token_ids (decoded_tokens tokenizer token_ids) rank
                                (case lp_num_logprobs lp of None \<Rightarrow> 0 | Some n \<Rightarrow> n)]) (lp_logprobs lp)\<rparr>)))"

type_synonym logprobs_lists = "int list list \<times> real list list \<times> nat list"

definition update_sample_logprobs :: "'s tokenizer option \<Rightarrow> logprobs_lists \<Rightarrow> logprobs_processor \<Rightarrow> logprobs_processor result" where
  "update_sample_logprobs tokenizer = (\<lambda>(token_ids_lst, logprobs_lst, ranks_lst) lp.
     if lp_num_logprobs lp = None \<or> lp_logprobs lp = None \<or> lp_cumulative_logprob lp = None then Inl AssertionError
     else rfold (sample_logprob_step tokenizer) (zip ranks_lst (zip logprobs_lst token_ids_lst)) lp)"

text \<open>The decoded tokens of all positions form one flat list, from which each position takes its part.\<close>

definition prompt_logprob_dicts :: "'s tokenizer option \<Rightarrow> logprobs_lists \<Rightarrow> nat \<Rightarrow> logprob_dict list" where
  "prompt_logprob_dicts tokenizer = (\<lambda>(token_ids, logprobs, ranks) num.
     let flat = decoded_tokens tokenizer (concat token_ids); width = (case logprobs of [] \<Rightarrow> 0 | l # _ \<Rightarrow> length l)
     in map (\<lambda>pos. make_logprob_dict (logprobs ! pos) (token_ids ! pos) (py_slice (pos * width) (pos * width + width) flat) (ranks ! pos) num) [0..<length logprobs])"

definition update_prompt_logprobs :: "'s tokenizer option \<Rightarrow> logprobs_lists \<Rightarrow> logprobs_processor \<Rightarrow> logprobs_processor result" where
  "update_prompt_logprobs tokenizer tensors lp =
     (case (lp_num_prompt_logprobs lp, lp_prompt_logprobs lp) of
        (Some num, Some plp) \<Rightarrow> Inr (lp\<lparr>lp_prompt_logprobs := Some (plp @ map Some (prompt_logprob_dicts tokenizer tensors num))\<rparr>)
      | _ \<Rightarrow> Inl AssertionError)"

definition pop_prompt_logprobs :: "logprobs_processor \<Rightarrow> logprob_dict option list option \<times> logprobs_processor" where
  "pop_prompt_logprobs lp =
     (case lp_prompt_logprobs lp of None \<Rightarrow> (None, lp)
      | Some plp \<Rightarrow> (Some plp, if plp = [] then lp else lp\<lparr>lp_prompt_logprobs := Some []\<rparr>))"

section \<open>Outputs\<close>

datatype output_kind = CUMULATIVE | DELTA | FINAL_ONLY

datatype stop_cause = StopToken int | StopText ustring

record completion_output =
  co_index :: nat
  co_text :: ustring
  co_token_ids :: "int list"
  co_cumulative_logprob :: "real option"
  co_logprobs :: "logprob_dict list option"
  co_finish_reason :: "finish_reason option"
  co_stop_reason :: "stop_cause option"

record request_output =
  ro_request_id :: string
  ro_prompt :: "ustring option"
  ro_prompt_token_ids :: "int list"
  ro_prompt_logprobs :: "logprob_dict option list option"
  ro_outputs :: "completion_output option list"
  ro_finished :: bool

definition merge_completion :: "completion_output \<Rightarrow> completion_output \<Rightarrow> completion_output result" where
  "merge_completion nxt c =
     rbind (case co_logprobs nxt of None \<Rightarrow> Inr (co_logprobs c)
       | Some [] \<Rightarrow> Inr (co_logprobs c)
       | Some ls \<Rightarrow> (case co_logprobs c of None \<Rightarrow> Inl AssertionError | Some l \<Rightarrow> Inr (Some (l @ ls)))) (\<lambda>lps.
     Inr (c\<lparr>co_text := co_text c @ co_text nxt, co_token_ids := co_token_ids c @ co_token_ids nxt, co_logprobs := lps,
            co_cumulative_logprob := co_cumulative_logprob nxt, co_finish_reason := co_finish_reason nxt, co_stop_reason := co_stop_reason nxt\<rparr>))"

text \<open>An entry \<open>None\<close> in the list of outputs has no attribute \<open>index\<close>.\<close>

fun add_completion :: "bool \<Rightarrow> completion_output option \<Rightarrow> completion_output option list \<Rightarrow> completion_output option list result" where
  "add_completion aggregate nxt [] = Inr [nxt]"
| "add_completion aggregate nxt (c # cs) =
     (case (c, nxt) of
        (Some c', Some n) \<Rightarrow>
          if co_index c' = co_index n
          then if aggregate then rbind (merge_completion n c') (\<lambda>m. Inr (Some m # cs)) else Inr (nxt # cs)
          else rbind (add_completion aggregate nxt cs) (\<lambda>cs. Inr (c # cs))
      | _ \<Rightarrow> Inl AttributeError)"

definition request_output_add :: "bool \<Rightarrow> request_output \<Rightarrow> request_output \<Rightarrow> request_output result" where
  "request_output_add aggregate nxt ro =
     rbind (rfold (add_completion aggregate) (ro_outputs nxt) (ro_outputs ro)) (\<lambda>cs.
       Inr (ro\<lparr>ro_outputs := cs, ro_finished := (ro_finished ro \<or> ro_finished nxt)\<rparr>))"

section \<open>The output collector\<close>

datatype collected = Output request_output | Failure py_error

record collector =
  cl_aggregate :: bool
  cl_output :: "collected option"
  cl_ready :: bool

definition collector_new :: "output_kind \<Rightarrow> collector" where
  "collector_new kind = \<lparr>cl_aggregate = (kind = DELTA), cl_output = None, cl_ready = False\<rparr>"

definition collector_put :: "collected \<Rightarrow> collector \<Rightarrow> collector result" where
  "collector_put out c =
     (case (cl_output c, out) of
        (None, _) \<Rightarrow> Inr (c\<lparr>cl_output := Some out, cl_ready := True\<rparr>)
      | (_, Failure _) \<Rightarrow> Inr (c\<lparr>cl_output := Some out, cl_ready := True\<rparr>)
      | (Some (Output ro), Output nxt) \<Rightarrow> rbind (request_output_add (cl_aggregate c) nxt ro) (\<lambda>ro. Inr (c\<lparr>cl_output := Some (Output ro)\<rparr>))
      | (Some (Failure _), Output _) \<Rightarrow> Inr c)"

definition collector_get_nowait :: "collector \<Rightarrow> request_output option result \<times> collector" where
  "collector_get_nowait c =
     (case cl_output c of None \<Rightarrow> (Inr None, c)
      | Some (Output ro) \<Rightarrow> (Inr (Some ro), c\<lparr>cl_output := None, cl_ready := False\<rparr>)
      | Some (Failure e) \<Rightarrow> (Inl e, c\<lparr>cl_output := None, cl_ready := False\<rparr>))"

text \<open>\<open>get\<close> waits for the event; \<open>None\<close> means that it is suspended.\<close>

definition collector_get :: "collector \<Rightarrow> (request_output result \<times> collector) option" where
  "collector_get c =
     (case cl_output c of None \<Rightarrow> None
      | Some (Output ro) \<Rightarrow> Some (Inr ro, c\<lparr>cl_output := None, cl_ready := False\<rparr>)
      | Some (Failure e) \<Rightarrow> Some (Inl e, c\<lparr>cl_output := None, cl_ready := False\<rparr>))"

section \<open>Statistics\<close>

record request_state_stats =
  rss_num_generation_tokens :: nat
  rss_arrival_time :: real
  rss_queued_ts :: real
  rss_scheduled_ts :: real
  rss_first_token_ts :: real
  rss_last_token_ts :: real

record finished_request_stats =
  frs_finish_reason :: finish_reason
  frs_e2e_latency :: real
  frs_num_prompt_tokens :: nat
  frs_num_generation_tokens :: nat
  frs_max_tokens_param :: "int option"
  frs_queued_time :: real
  frs_prefill_time :: real
  frs_inference_time :: real
  frs_decode_time :: real

record iteration_stats =
  it_timestamp :: real
  it_num_generation_tokens :: nat
  it_num_prompt_tokens :: nat
  it_num_preempted_reqs :: nat
  it_finished_requests :: "finished_request_stats list"
  it_max_num_generation_tokens :: "nat list"
  it_n_params :: "nat list"
  it_time_to_first_tokens :: "real list"
  it_time_per_output_tokens :: "real list"
  it_waiting_lora_adapters :: "(string \<times> nat) list"
  it_running_lora_adapters :: "(string \<times> nat) list"

record lora_stats =
  ls_waiting :: "string list"
  ls_running :: "string list"

type_synonym lora_states = "(string \<times> lora_stats) list"

definition set_remove :: "'a \<Rightarrow> 'a list \<Rightarrow> 'a list result" where
  "set_remove x xs = (if x \<in> set xs then Inr (removeAll x xs) else Inl KeyError)"

definition lora_get_stats :: "string \<Rightarrow> lora_states \<Rightarrow> lora_stats \<times> lora_states" where
  "lora_get_stats name ls = (case map_of ls name of Some s \<Rightarrow> (s, ls) | None \<Rightarrow> let s = \<lparr>ls_waiting = [], ls_running = []\<rparr> in (s, AList.update name s ls))"

definition lora_add_request :: "string option \<Rightarrow> string \<Rightarrow> lora_states \<Rightarrow> lora_states" where
  "lora_add_request name rid ls = (case name of None \<Rightarrow> ls
     | Some nm \<Rightarrow> (case lora_get_stats nm ls of (s, ls) \<Rightarrow> AList.update nm (s\<lparr>ls_waiting := List.insert rid (ls_waiting s)\<rparr>) ls))"

definition lora_finish_request :: "string option \<Rightarrow> string \<Rightarrow> lora_states \<Rightarrow> lora_states result" where
  "lora_finish_request name rid ls = (case name of None \<Rightarrow> Inr ls
     | Some nm \<Rightarrow> (case map_of ls nm of None \<Rightarrow> Inl KeyError
       | Some s \<Rightarrow> rbind (set_remove rid (ls_running s)) (\<lambda>r. Inr (AList.update nm (s\<lparr>ls_running := r\<rparr>) ls))))"

definition lora_abort_request :: "string option \<Rightarrow> string \<Rightarrow> lora_states \<Rightarrow> lora_states result" where
  "lora_abort_request name rid ls = (case name of None \<Rightarrow> Inr ls
     | Some nm \<Rightarrow> (case map_of ls nm of None \<Rightarrow> Inl KeyError
       | Some s \<Rightarrow> Inr (AList.update nm (s\<lparr>ls_waiting := removeAll rid (ls_waiting s), ls_running := removeAll rid (ls_running s)\<rparr>) ls)))"

definition lora_scheduled_request :: "string \<Rightarrow> lora_stats \<Rightarrow> lora_stats result" where
  "lora_scheduled_request rid s = rbind (set_remove rid (ls_waiting s)) (\<lambda>w. Inr (s\<lparr>ls_waiting := w, ls_running := List.insert rid (ls_running s)\<rparr>))"

definition lora_preempted_request :: "string \<Rightarrow> lora_stats \<Rightarrow> lora_stats result" where
  "lora_preempted_request rid s = rbind (set_remove rid (ls_running s)) (\<lambda>r. Inr (s\<lparr>ls_running := r, ls_waiting := List.insert rid (ls_waiting s)\<rparr>))"

definition on_lora :: "(lora_stats \<Rightarrow> lora_stats result) \<Rightarrow> lora_stats option \<Rightarrow> lora_stats option result" where
  "on_lora f s = (case s of None \<Rightarrow> Inr None | Some s \<Rightarrow> rbind (f s) (\<lambda>s. Inr (Some s)))"

definition lora_update_iteration_stats :: "lora_states \<Rightarrow> iteration_stats \<Rightarrow> iteration_stats" where
  "lora_update_iteration_stats ls it =
     fold (\<lambda>(name, s) it.
       let it = (if ls_waiting s = [] then it else it\<lparr>it_waiting_lora_adapters := AList.update name (length (ls_waiting s)) (it_waiting_lora_adapters it)\<rparr>)
       in if ls_running s = [] then it else it\<lparr>it_running_lora_adapters := AList.update name (length (ls_running s)) (it_running_lora_adapters it)\<rparr>) ls it"

type_synonym stats_state = "iteration_stats \<times> request_state_stats \<times> lora_stats option"

definition event_step :: "string \<Rightarrow> event_type \<times> real \<Rightarrow> stats_state \<Rightarrow> stats_state result" where
  "event_step rid = (\<lambda>(ev, timestamp) (it, rss, ls).
     case ev of
       QUEUED \<Rightarrow> Inr (it, rss\<lparr>rss_queued_ts := timestamp\<rparr>, map_option (\<lambda>s. s\<lparr>ls_waiting := List.insert rid (ls_waiting s)\<rparr>) ls)
     | SCHEDULED \<Rightarrow> rbind (on_lora (lora_scheduled_request rid) ls) (\<lambda>ls.
         Inr (it, if rss_scheduled_ts rss = 0 then rss\<lparr>rss_scheduled_ts := timestamp\<rparr> else rss, ls))
     | PREEMPTED_EV \<Rightarrow> rbind (on_lora (lora_preempted_request rid) ls) (\<lambda>ls.
         Inr (it\<lparr>it_num_preempted_reqs := it_num_preempted_reqs it + 1\<rparr>, rss, ls)))"

definition stats_update_from_output ::
  "string \<Rightarrow> nat \<Rightarrow> (event_type \<times> real) list option \<Rightarrow> real \<Rightarrow> bool \<Rightarrow> nat \<Rightarrow> stats_state \<Rightarrow> stats_state result" where
  "stats_update_from_output rid num_new evs engine_core_timestamp is_prefilling prompt_len = (\<lambda>(it, rss, ls).
     let it = it\<lparr>it_num_generation_tokens := it_num_generation_tokens it + num_new\<rparr>
     in if is_prefilling \<and> \<not> 0 < num_new then Inl AssertionError
     else let it = (if is_prefilling then it\<lparr>it_num_prompt_tokens := it_num_prompt_tokens it + prompt_len,
                it_time_to_first_tokens := it_time_to_first_tokens it @ [it_timestamp it - rss_arrival_time rss]\<rparr> else it);
              rss = rss\<lparr>rss_num_generation_tokens := rss_num_generation_tokens rss + num_new\<rparr>
     in rbind (case evs of None \<Rightarrow> Inr (it, rss, ls) | Some evs \<Rightarrow> rfold (event_step rid) evs (it, rss, ls)) (\<lambda>(it, rss, ls).
          if is_prefilling then Inr (it, rss\<lparr>rss_first_token_ts := engine_core_timestamp, rss_last_token_ts := engine_core_timestamp\<rparr>, ls)
          else Inr (it\<lparr>it_time_per_output_tokens := it_time_per_output_tokens it @ [engine_core_timestamp - rss_last_token_ts rss]\<rparr>,
                    rss\<lparr>rss_last_token_ts := engine_core_timestamp\<rparr>, ls)))"

definition update_from_finished_request :: "finish_reason \<Rightarrow> nat \<Rightarrow> int option \<Rightarrow> request_state_stats \<Rightarrow> iteration_stats \<Rightarrow> iteration_stats" where
  "update_from_finished_request reason num_prompt max_tokens_param rss it =
     it\<lparr>it_finished_requests := it_finished_requests it @
       [\<lparr>frs_finish_reason = reason, frs_e2e_latency = it_timestamp it - rss_arrival_time rss, frs_num_prompt_tokens = num_prompt,
         frs_num_generation_tokens = rss_num_generation_tokens rss, frs_max_tokens_param = max_tokens_param,
         frs_queued_time = rss_scheduled_ts rss - rss_queued_ts rss, frs_prefill_time = rss_first_token_ts rss - rss_scheduled_ts rss,
         frs_inference_time = rss_last_token_ts rss - rss_scheduled_ts rss, frs_decode_time = rss_last_token_ts rss - rss_first_token_ts rss\<rparr>]\<rparr>"

section \<open>Parallel sampling\<close>

record gen_params = text_params +
  gp_n :: nat
  gp_seed :: "int option"
  gp_output_kind :: output_kind
  gp_detokenize :: bool
  gp_logprobs :: "nat option"
  gp_prompt_logprobs :: "nat option"
  gp_max_tokens :: "int option"

record parent_request =
  pr_request_id :: string
  pr_params :: gen_params
  pr_child_requests :: "string list"
  pr_output_aggregator :: "completion_output option list"
  pr_max_num_generation_tokens :: nat
  pr_cached_child_params :: "gen_params option"

definition parent_new :: "string \<Rightarrow> gen_params \<Rightarrow> parent_request" where
  "parent_new rid params =
     \<lparr>pr_request_id = rid, pr_params = params, pr_child_requests = [],
      pr_output_aggregator = (if gp_output_kind params = FINAL_ONLY then replicate (gp_n params) None else []),
      pr_max_num_generation_tokens = 0, pr_cached_child_params = None\<rparr>"

definition get_child_sampling_params :: "nat \<Rightarrow> parent_request \<Rightarrow> gen_params \<times> parent_request" where
  "get_child_sampling_params index p =
     (case pr_cached_child_params p of Some ps \<Rightarrow> (ps, p)
      | None \<Rightarrow> let child = (pr_params p)\<lparr>gp_n := 1\<rparr>
          in (case gp_seed (pr_params p) of None \<Rightarrow> (child, p\<lparr>pr_cached_child_params := Some child\<rparr>)
              | Some seed \<Rightarrow> (child\<lparr>gp_seed := Some (seed + int index)\<rparr>, p)))"

text \<open>The decimal digits of a number, \<open>str(n)\<close>, and the id of a child.\<close>

definition digit :: "nat \<Rightarrow> char" where
  "digit n = char_of (48 + n)"

fun nat_str :: "nat \<Rightarrow> string" where
  "nat_str n = (if n < 10 then [digit n] else nat_str (n div 10) @ [digit (n mod 10)])"

declare nat_str.simps [simp del]

definition child_id :: "nat \<Rightarrow> string \<Rightarrow> string" where
  "child_id index rid = nat_str index @ ''_'' @ rid"

definition get_child_info :: "nat \<Rightarrow> parent_request \<Rightarrow> (string \<times> gen_params) \<times> parent_request" where
  "get_child_info index p =
     (let child_req_id = child_id index (pr_request_id p);
          (params, p) = get_child_sampling_params index (p\<lparr>pr_child_requests := List.insert child_req_id (pr_child_requests p)\<rparr>)
      in ((child_req_id, params), p))"

definition parent_get_outputs :: "string \<Rightarrow> completion_output \<Rightarrow> parent_request \<Rightarrow> ((string \<times> completion_output option list \<times> bool) \<times> parent_request) result" where
  "parent_get_outputs child_request_id c p =
     rbind (if co_finish_reason c \<noteq> None then rbind (set_remove child_request_id (pr_child_requests p)) (\<lambda>cs. Inr (p\<lparr>pr_child_requests := cs\<rparr>)) else Inr p) (\<lambda>p.
     if gp_output_kind (pr_params p) \<noteq> FINAL_ONLY then Inr ((pr_request_id p, [Some c], pr_child_requests p = []), p)
     else rbind (py_set (pr_output_aggregator p) (co_index c) (Some c)) (\<lambda>agg.
       let p = p\<lparr>pr_output_aggregator := agg\<rparr>
       in Inr ((pr_request_id p, if pr_child_requests p \<noteq> [] then [] else agg, pr_child_requests p = []), p)))"

definition observe_num_generation_tokens :: "nat \<Rightarrow> parent_request \<Rightarrow> nat \<times> parent_request" where
  "observe_num_generation_tokens num p =
     (let m = max num (pr_max_num_generation_tokens p) in (m, p\<lparr>pr_max_num_generation_tokens := m\<rparr>))"

definition observe_finished_request :: "nat \<Rightarrow> parent_request option \<Rightarrow> iteration_stats \<Rightarrow> iteration_stats \<times> parent_request option" where
  "observe_finished_request num parent it =
     (case parent of
        None \<Rightarrow> (it\<lparr>it_max_num_generation_tokens := it_max_num_generation_tokens it @ [num], it_n_params := it_n_params it @ [1]\<rparr>, None)
      | Some p \<Rightarrow> (case observe_num_generation_tokens num p of (m, p) \<Rightarrow>
          (if pr_child_requests p = []
           then it\<lparr>it_max_num_generation_tokens := it_max_num_generation_tokens it @ [m], it_n_params := it_n_params it @ [gp_n (pr_params p)]\<rparr> else it, Some p)))"

section \<open>The state of a request\<close>

record engine_request =
  er_request_id :: string
  er_prompt_token_ids :: "int list"
  er_params :: gen_params
  er_arrival_time :: real
  er_lora_name :: "string option"

record engine_output =
  eo_request_id :: string
  eo_new_token_ids :: "int list"
  eo_new_logprobs :: "logprobs_lists option"
  eo_new_prompt_logprobs :: "logprobs_lists option"
  eo_finish_reason :: "finish_reason option"
  eo_stop_reason :: "int option"
  eo_events :: "(event_type \<times> real) list option"

record 's request_state =
  rs_request_id :: string
  rs_parent :: "nat option"
  rs_index :: nat
  rs_lora_name :: "string option"
  rs_output_kind :: output_kind
  rs_prompt :: "ustring option"
  rs_prompt_token_ids :: "int list"
  rs_tokenizer :: "'s tokenizer option"
  rs_logprobs :: logprobs_processor
  rs_detok :: "'s detok"
  rs_max_tokens_param :: "int option"
  rs_is_prefilling :: bool
  rs_queue :: "nat option"
  rs_stats :: "request_state_stats option"

definition state_from_new_request ::
  "'s tokenizer option \<Rightarrow> engine_request \<Rightarrow> ustring option \<Rightarrow> nat option \<Rightarrow> nat \<Rightarrow> nat option \<Rightarrow> bool \<Rightarrow> 's request_state result" where
  "state_from_new_request tokenizer request prompt parent index q log_stats =
     (let params = er_params request; tokenizer = (if gp_detokenize params then tokenizer else None)
      in rbind (detok_from_new_request tokenizer (text_params.truncate params) (er_prompt_token_ids request)) (\<lambda>d.
         Inr \<lparr>rs_request_id = er_request_id request, rs_parent = parent, rs_index = index, rs_lora_name = er_lora_name request,
              rs_output_kind = gp_output_kind params, rs_prompt = prompt, rs_prompt_token_ids = er_prompt_token_ids request, rs_tokenizer = tokenizer,
              rs_logprobs = logprobs_from_new_request (gp_logprobs params) (gp_prompt_logprobs params), rs_detok = d,
              rs_max_tokens_param = gp_max_tokens params, rs_is_prefilling = True, rs_queue = q,
              rs_stats = (if log_stats then Some \<lparr>rss_num_generation_tokens = 0, rss_arrival_time = er_arrival_time request, rss_queued_ts = 0,
                rss_scheduled_ts = 0, rss_first_token_ts = 0, rss_last_token_ts = 0\<rparr> else None)\<rparr>))"

text \<open>\<open>xs[-k:]\<close>, the whole list for \<open>k = 0\<close>.\<close>

definition last_entries :: "nat \<Rightarrow> 'a list \<Rightarrow> 'a list" where
  "last_entries k xs = (if k = 0 then xs else drop (length xs - k) xs)"

definition new_completion_output ::
  "int list \<Rightarrow> finish_reason option \<Rightarrow> stop_cause option \<Rightarrow> 's request_state \<Rightarrow> completion_output \<times> 's request_state" where
  "new_completion_output token_ids reason stop s =
     (let delta = (rs_output_kind s = DELTA);
          (t, d) = get_next_output_text (reason \<noteq> None) delta (rs_detok s);
          ids = (if delta then token_ids else detok_output_token_ids d);
          lps = lp_logprobs (rs_logprobs s)
      in (\<lparr>co_index = rs_index s, co_text = t, co_token_ids = ids, co_cumulative_logprob = lp_cumulative_logprob (rs_logprobs s),
           co_logprobs = (if delta then map_option (last_entries (length ids)) lps else lps), co_finish_reason = reason,
           co_stop_reason = (if reason \<noteq> None then stop else None)\<rparr>, s\<lparr>rs_detok := d\<rparr>))"

definition new_request_output :: "string \<Rightarrow> completion_output option list \<Rightarrow> bool \<Rightarrow> 's request_state \<Rightarrow> request_output \<times> 's request_state" where
  "new_request_output rid outs finished s =
     (let (plp, lp) = (if rs_output_kind s = DELTA then pop_prompt_logprobs (rs_logprobs s) else (lp_prompt_logprobs (rs_logprobs s), rs_logprobs s))
      in (\<lparr>ro_request_id = rid, ro_prompt = rs_prompt s, ro_prompt_token_ids = rs_prompt_token_ids s, ro_prompt_logprobs = plp, ro_outputs = outs,
           ro_finished = finished\<rparr>, s\<lparr>rs_logprobs := lp\<rparr>))"

text \<open>The parents are in \<open>heap\<close>.\<close>

definition make_request_output ::
  "int list \<Rightarrow> finish_reason option \<Rightarrow> stop_cause option \<Rightarrow> 's request_state \<Rightarrow> parent_request list \<Rightarrow>
   (request_output option \<times> 's request_state \<times> parent_request list) result" where
  "make_request_output new_token_ids reason stop s heap =
     (if reason = None \<and> rs_output_kind s = FINAL_ONLY then Inr (None, s, heap)
      else case new_completion_output new_token_ids reason stop s of (c, s) \<Rightarrow>
        (case rs_parent s of
           None \<Rightarrow> (case new_request_output (rs_request_id s) [Some c] (reason \<noteq> None) s of (ro, s) \<Rightarrow> Inr (Some ro, s, heap))
         | Some a \<Rightarrow> rbind (parent_get_outputs (rs_request_id s) c (heap ! a)) (\<lambda>((rid, outs, finished), p).
             if outs = [] then Inr (None, s, heap[a := p])
             else case new_request_output rid outs finished s of (ro, s) \<Rightarrow> Inr (Some ro, s, heap[a := p]))))"

section \<open>The output processor\<close>

record 's output_processor =
  op_log_stats :: bool
  op_tokenizer :: "string option \<Rightarrow> 's tokenizer option"
  op_states :: "(string \<times> 's request_state) list"
  op_parents :: "(string \<times> nat) list"
  op_lora :: lora_states
  op_heap :: "parent_request list"
  op_queues :: "collector list"

definition op_new :: "(string option \<Rightarrow> 's tokenizer option) \<Rightarrow> bool \<Rightarrow> 's output_processor" where
  "op_new tokenizer log_stats = \<lparr>op_log_stats = log_stats, op_tokenizer = tokenizer, op_states = [], op_parents = [], op_lora = [], op_heap = [], op_queues = []\<rparr>"

definition has_unfinished_requests :: "'s output_processor \<Rightarrow> bool" where
  "has_unfinished_requests p \<longleftrightarrow> length (op_states p) > 0"

definition queue_put :: "nat \<Rightarrow> collected \<Rightarrow> 's output_processor \<Rightarrow> 's output_processor result" where
  "queue_put q out p = rbind (collector_put out (op_queues p ! q)) (\<lambda>c. Inr (p\<lparr>op_queues := (op_queues p)[q := c]\<rparr>))"

definition propagate_error :: "py_error \<Rightarrow> 's output_processor \<Rightarrow> 's output_processor result" where
  "propagate_error e p =
     rfold (\<lambda>(_, s) p. case rs_queue s of None \<Rightarrow> Inl AssertionError | Some q \<Rightarrow> queue_put q (Failure e) p) (op_states p) p"

definition op_add_request ::
  "engine_request \<Rightarrow> ustring option \<Rightarrow> nat option \<Rightarrow> nat \<Rightarrow> nat option \<Rightarrow> 's output_processor \<Rightarrow> 's output_processor result" where
  "op_add_request request prompt parent index q p =
     (if er_request_id request \<in> fst ` set (op_states p) then Inl ValueError
      else rbind (state_from_new_request (op_tokenizer p (er_lora_name request)) request prompt parent index q (op_log_stats p)) (\<lambda>s.
        Inr (p\<lparr>op_states := AList.update (er_request_id request) s (op_states p), op_lora := lora_add_request (er_lora_name request) (er_request_id request) (op_lora p),
               op_parents := (case parent of None \<Rightarrow> op_parents p | Some a \<Rightarrow> AList.update (pr_request_id (op_heap p ! a)) a (op_parents p))\<rparr>)))"

text \<open>The statistics of a step; \<open>timestamp\<close> may be missing.\<close>

definition update_stats_from_output ::
  "engine_output \<Rightarrow> real option \<Rightarrow> iteration_stats option \<Rightarrow> 's request_state \<Rightarrow> lora_states \<Rightarrow> (iteration_stats option \<times> 's request_state \<times> lora_states) result" where
  "update_stats_from_output eo timestamp stats s ls =
     (case stats of None \<Rightarrow> Inr (None, s, ls)
      | Some it \<Rightarrow>
          let (lstats, ls) = (case rs_lora_name s of None \<Rightarrow> (None, ls) | Some nm \<Rightarrow> apfst Some (lora_get_stats nm ls))
          in (case (timestamp, rs_stats s) of
                (Some ts, Some rss) \<Rightarrow>
                  rbind (stats_update_from_output (eo_request_id eo) (length (eo_new_token_ids eo)) (eo_events eo) ts (rs_is_prefilling s)
                     (length (rs_prompt_token_ids s)) (it, rss, lstats)) (\<lambda>(it, rss, lstats).
                    Inr (Some it, s\<lparr>rs_stats := Some rss\<rparr>, case (rs_lora_name s, lstats) of (Some nm, Some l) \<Rightarrow> AList.update nm l ls | _ \<Rightarrow> ls))
              | _ \<Rightarrow> Inl AssertionError))"

definition update_stats_from_finished ::
  "finish_reason \<Rightarrow> iteration_stats option \<Rightarrow> 's request_state \<Rightarrow> 's output_processor \<Rightarrow> (iteration_stats option \<times> 's output_processor) result" where
  "update_stats_from_finished reason stats s p =
     (case stats of None \<Rightarrow> Inr (None, p)
      | Some it \<Rightarrow> (case rs_stats s of None \<Rightarrow> Inl AssertionError
        | Some rss \<Rightarrow>
            let it = update_from_finished_request reason (length (rs_prompt_token_ids s)) (rs_max_tokens_param s) rss it
            in rbind (lora_finish_request (rs_lora_name s) (rs_request_id s) (op_lora p)) (\<lambda>ls.
               case observe_finished_request (rss_num_generation_tokens rss) (map_option ((!) (op_heap p)) (rs_parent s)) it of (it, par) \<Rightarrow>
                 Inr (Some it, p\<lparr>op_lora := ls, op_heap := (case (rs_parent s, par) of (Some a, Some pr) \<Rightarrow> (op_heap p)[a := pr] | _ \<Rightarrow> op_heap p)\<rparr>))))"

definition free_completed ::
  "engine_output \<Rightarrow> finish_reason \<Rightarrow> iteration_stats option \<Rightarrow> 's request_state \<Rightarrow> string list \<Rightarrow> 's output_processor \<Rightarrow>
   (string list \<times> iteration_stats option \<times> 's output_processor) result" where
  "free_completed eo reason stats s reqs_to_abort p =
     (let p = p\<lparr>op_states := AList.delete (eo_request_id eo) (op_states p),
               op_parents := (case rs_parent s of None \<Rightarrow> op_parents p
                 | Some a \<Rightarrow> if pr_child_requests (op_heap p ! a) = [] then AList.delete (pr_request_id (op_heap p ! a)) (op_parents p) else op_parents p)\<rparr>
      in rbind (update_stats_from_finished reason stats s p) (\<lambda>(stats, p).
         Inr (if eo_finish_reason eo = None then reqs_to_abort @ [eo_request_id eo] else reqs_to_abort, stats, p)))"

definition update_logprobs :: "engine_output \<Rightarrow> 's request_state \<Rightarrow> 's request_state result" where
  "update_logprobs eo s =
     rbind (case eo_new_logprobs eo of None \<Rightarrow> Inr (rs_logprobs s) | Some l \<Rightarrow> update_sample_logprobs (rs_tokenizer s) l (rs_logprobs s)) (\<lambda>lp.
     rbind (case eo_new_prompt_logprobs eo of None \<Rightarrow> Inr lp | Some l \<Rightarrow> update_prompt_logprobs (rs_tokenizer s) l lp) (\<lambda>lp.
       Inr (s\<lparr>rs_logprobs := lp\<rparr>)))"

definition detokenize_output :: "engine_output \<Rightarrow> 's request_state \<Rightarrow> (ustring option \<times> 's request_state) result" where
  "detokenize_output eo s =
     (case rs_tokenizer s of
        None \<Rightarrow> Inr (None, s\<lparr>rs_detok := (rs_detok s)\<lparr>dk_token_ids := dk_token_ids (rs_detok s) @ eo_new_token_ids eo\<rparr>\<rparr>)
      | Some tk \<Rightarrow> rbind (detok_update tk (eo_new_token_ids eo) (eo_finish_reason eo = Some STOP) (rs_detok s)) (\<lambda>(r, d). Inr (r, s\<lparr>rs_detok := d\<rparr>)))"

definition deliver :: "request_output option \<Rightarrow> 's request_state \<Rightarrow> request_output list \<Rightarrow> 's output_processor \<Rightarrow> (request_output list \<times> 's output_processor) result" where
  "deliver ro s request_outputs p =
     (case ro of None \<Rightarrow> Inr (request_outputs, p)
      | Some ro \<Rightarrow> (case rs_queue s of Some q \<Rightarrow> rbind (queue_put q (Output ro) p) (\<lambda>p. Inr (request_outputs, p))
          | None \<Rightarrow> Inr (request_outputs @ [ro], p)))"

type_synonym 's process_state = "request_output list \<times> string list \<times> iteration_stats option \<times> 's output_processor"

definition process_output :: "real option \<Rightarrow> engine_output \<Rightarrow> 's process_state \<Rightarrow> 's process_state result" where
  "process_output timestamp eo = (\<lambda>(request_outputs, reqs_to_abort, stats, p).
     case map_of (op_states p) (eo_request_id eo) of None \<Rightarrow> Inr (request_outputs, reqs_to_abort, stats, p)
     | Some s \<Rightarrow>
         rbind (update_stats_from_output eo timestamp stats s (op_lora p)) (\<lambda>(stats, s, ls).
         rbind (detokenize_output eo (s\<lparr>rs_is_prefilling := False\<rparr>)) (\<lambda>(stop_string, s).
         let stopped = (stop_string \<noteq> None \<and> stop_string \<noteq> Some []);
             reason = (if stopped then Some STOP else eo_finish_reason eo);
             stop = (if stopped then map_option StopText stop_string else map_option StopToken (eo_stop_reason eo))
         in rbind (update_logprobs eo s) (\<lambda>s.
            rbind (make_request_output (eo_new_token_ids eo) reason stop s (op_heap p)) (\<lambda>(ro, s, heap).
            let p = p\<lparr>op_lora := ls, op_heap := heap, op_states := AList.update (eo_request_id eo) s (op_states p)\<rparr>
            in rbind (deliver ro s request_outputs p) (\<lambda>(request_outputs, p).
               case reason of None \<Rightarrow> Inr (request_outputs, reqs_to_abort, stats, p)
               | Some reason \<Rightarrow> rbind (free_completed eo reason stats s reqs_to_abort p) (\<lambda>(reqs_to_abort, stats, p).
                   Inr (request_outputs, reqs_to_abort, stats, p))))))))"

definition process_outputs :: "engine_output list \<Rightarrow> real option \<Rightarrow> iteration_stats option \<Rightarrow> 's output_processor \<Rightarrow> 's process_state result" where
  "process_outputs outs timestamp stats p =
     rbind (rfold (process_output timestamp) outs ([], [], stats, p)) (\<lambda>(request_outputs, reqs_to_abort, stats, p).
       Inr (request_outputs, reqs_to_abort, map_option (lora_update_iteration_stats (op_lora p)) stats, p))"

text \<open>Aborting the id of a parent aborts its children, in a call of its own.\<close>

lemma rbind_cong [fundef_cong]: "r = r' \<Longrightarrow> (\<And>x. r' = Inr x \<Longrightarrow> f x = g x) \<Longrightarrow> rbind r f = rbind r' g"
  by (cases r') auto

function (sequential) abort_requests :: "string list \<Rightarrow> 's output_processor \<Rightarrow> (string list \<times> 's output_processor) result" where
  "abort_requests [] p = Inr ([], p)"
| "abort_requests (rid # rids) p =
     (case map_of (op_states p) rid of
        Some s \<Rightarrow> rbind (lora_abort_request (rs_lora_name s) (rs_request_id s) (op_lora p)) (\<lambda>ls.
          rbind (abort_requests rids (p\<lparr>op_states := AList.delete rid (op_states p), op_lora := ls\<rparr>)) (\<lambda>(ids, p). Inr (rid # ids, p)))
      | None \<Rightarrow> (case map_of (op_parents p) rid of
          None \<Rightarrow> abort_requests rids p
        | Some a \<Rightarrow>
            let p1 = p\<lparr>op_parents := AList.delete rid (op_parents p)\<rparr>; children = pr_child_requests (op_heap p ! a)
            in if children = [] then abort_requests rids p1
               else rbind (abort_requests children p1) (\<lambda>(_, p2).
                    rbind (abort_requests rids p2) (\<lambda>(ids, p). Inr (children @ ids, p)))))"
  by pat_completeness auto

text \<open>The fan-out of \<open>LLMEngine.add_request\<close>; the engine core gets the requests of the result.\<close>

definition fan_out_step ::
  "engine_request \<Rightarrow> ustring option \<Rightarrow> nat \<Rightarrow> nat option \<Rightarrow> nat \<Rightarrow> engine_request list \<times> 's output_processor \<Rightarrow> (engine_request list \<times> 's output_processor) result" where
  "fan_out_step request prompt a q idx = (\<lambda>(reqs, p).
     case get_child_info idx (op_heap p ! a) of ((rid, params), pr) \<Rightarrow>
       let child = request\<lparr>er_request_id := rid, er_params := params\<rparr>
       in rbind (op_add_request child prompt (Some a) idx q (p\<lparr>op_heap := (op_heap p)[a := pr]\<rparr>)) (\<lambda>p. Inr (reqs @ [child], p)))"

definition llm_add_request :: "engine_request \<Rightarrow> ustring option \<Rightarrow> nat option \<Rightarrow> 's output_processor \<Rightarrow> (engine_request list \<times> 's output_processor) result" where
  "llm_add_request request prompt q p =
     (if gp_n (er_params request) = 1
      then rbind (op_add_request request prompt None 0 q p) (\<lambda>p. Inr ([request], p))
      else rfold (fan_out_step request prompt (length (op_heap p)) q) [0..<gp_n (er_params request)]
        ([], p\<lparr>op_heap := op_heap p @ [parent_new (er_request_id request) (er_params request)]\<rparr>))"

section \<open>Aborting\<close>

lemma length_delete_less: "map_of al k = Some v \<Longrightarrow> length (AList.delete k al) < length al"
  by (induction al) (auto simp: AList.delete_eq le_imp_less_Suc)

lemma abort_requests_parents:
  "abort_requests_dom (rids, p) \<Longrightarrow> abort_requests rids p = Inr (ids, p') \<Longrightarrow> length (op_parents p') \<le> length (op_parents p)"
proof (induction rids p arbitrary: ids p' rule: abort_requests.pinduct)
  case (1 p)
  then show ?case by (simp add: abort_requests.psimps)
next
  case (2 rid rids p)
  show ?case
  proof (cases "map_of (op_states p) rid")
    case (Some s)
    then show ?thesis using "2.prems" "2.IH"(5) [OF Some] by (fastforce simp: abort_requests.psimps(2) [OF "2.hyps"])
  next
    case states: None
    show ?thesis
    proof (cases "map_of (op_parents p) rid")
      case None
      then show ?thesis using "2.prems" "2.IH"(1) [OF states None] states by (auto simp: abort_requests.psimps(2) [OF "2.hyps"])
    next
      case (Some a)
      note le = length_delete_less [OF Some]
      show ?thesis
      proof (cases "pr_child_requests (op_heap p ! a) = []")
        case True
        then show ?thesis using "2.prems" "2.IH"(2) [OF states Some refl refl True] states Some le by (fastforce simp: abort_requests.psimps(2) [OF "2.hyps"])
      next
        case False
        then obtain ids1 p2 ids2 where p2: "abort_requests (pr_child_requests (op_heap p ! a)) (p\<lparr>op_parents := AList.delete rid (op_parents p)\<rparr>) = Inr (ids1, p2)"
          "abort_requests rids p2 = Inr (ids2, p')"
          using "2.prems" states Some by (auto simp: abort_requests.psimps(2) [OF "2.hyps"] Let_def)
        have "length (op_parents p2) \<le> length (AList.delete rid (op_parents p))"
          using "2.IH"(3) [OF states Some refl refl False p2(1)] by simp
        moreover have "length (op_parents p') \<le> length (op_parents p2)"
          using "2.IH"(4) [OF states Some refl refl False p2(1) refl p2(2)] by simp
        ultimately show ?thesis using le by simp
      qed
    qed
  qed
qed

termination abort_requests
proof (relation "measures [\<lambda>(rids, p). length (op_parents p), \<lambda>(rids, p). length rids]", goal_cases)
  case (5 rid rids p a p1 children r ids p2)
  then have "length (op_parents p2) < length (op_parents p)" using abort_requests_parents [of children p1 ids p2] length_delete_less [of "op_parents p" rid a] by auto
  then show ?case by simp
qed (auto dest!: length_delete_less)

section \<open>Children of a parallel-sampling request\<close>

lemma digit_inj: "i < 10 \<Longrightarrow> j < 10 \<Longrightarrow> digit i = digit j \<Longrightarrow> i = j"
proof -
  assume "i < 10" "j < 10" "digit i = digit j"
  then have "of_char (char_of (48 + i) :: char) = (of_char (char_of (48 + j) :: char) :: nat)" by (simp add: digit_def)
  then show "i = j" using \<open>i < 10\<close> \<open>j < 10\<close> by simp
qed

lemma nat_str_not_Nil: "nat_str n \<noteq> []"
  by (subst nat_str.simps) simp

lemma nat_str_inj: "nat_str i = nat_str j \<Longrightarrow> i = j"
proof (induction i arbitrary: j rule: less_induct)
  case (less i)
  show ?case
  proof (cases "i < 10 \<or> j < 10")
    case True
    then show ?thesis using less.prems nat_str_not_Nil
      by (subst (asm) (1 2) nat_str.simps) (auto simp: digit_inj Cons_eq_append_conv append_eq_Cons_conv split: if_splits)
  next
    case False
    then have "nat_str (i div 10) = nat_str (j div 10) \<and> digit (i mod 10) = digit (j mod 10)"
      using less.prems by (subst (asm) (1 2) nat_str.simps) simp
    then have "i div 10 = j div 10" "i mod 10 = j mod 10" using less.IH [of "i div 10" "j div 10"] False by (auto intro: digit_inj)
    then show ?thesis by (metis div_mult_mod_eq)
  qed
qed

lemma child_id_inj [simp]: "child_id i r = child_id j r \<longleftrightarrow> i = j"
  by (auto simp: child_id_def dest: nat_str_inj)

text \<open>
  What holds of a parent with all its children: for the mode without streaming there is an entry for every child, and the entry is empty exactly while
  the child runs. A child that runs knows its parent and its index.
\<close>

definition entry_ok :: "parent_request \<Rightarrow> nat \<Rightarrow> bool" where
  "entry_ok pr i \<longleftrightarrow> (case pr_output_aggregator pr ! i of
       None \<Rightarrow> child_id i (pr_request_id pr) \<in> set (pr_child_requests pr)
     | Some c \<Rightarrow> co_index c = i \<and> co_finish_reason c \<noteq> None \<and> child_id i (pr_request_id pr) \<notin> set (pr_child_requests pr))"

definition parent_ok :: "parent_request \<Rightarrow> bool" where
  "parent_ok pr \<longleftrightarrow> (gp_output_kind (pr_params pr) = FINAL_ONLY \<longrightarrow>
     length (pr_output_aggregator pr) = gp_n (pr_params pr) \<and> (\<forall>i < gp_n (pr_params pr). entry_ok pr i))"

definition child_of :: "string \<Rightarrow> 's request_state \<Rightarrow> parent_request \<Rightarrow> bool" where
  "child_of rid s pr \<longleftrightarrow> rid = child_id (rs_index s) (pr_request_id pr) \<and> rs_index s < gp_n (pr_params pr) \<and> rid \<in> set (pr_child_requests pr)
     \<and> rs_output_kind s = gp_output_kind (pr_params pr)"

definition state_ok :: "parent_request list \<Rightarrow> nat \<Rightarrow> string \<Rightarrow> 's request_state \<Rightarrow> bool" where
  "state_ok heap queues rid s \<longleftrightarrow> rs_request_id s = rid \<and> (\<forall>a. rs_parent s = Some a \<longrightarrow> a < length heap \<and> child_of rid s (heap ! a))
     \<and> (\<forall>q. rs_queue s = Some q \<longrightarrow> q < queues)"

definition op_inv :: "'s output_processor \<Rightarrow> bool" where
  "op_inv p \<longleftrightarrow> (\<forall>pr \<in> set (op_heap p). parent_ok pr)
     \<and> (\<forall>rid s. map_of (op_states p) rid = Some s \<longrightarrow> state_ok (op_heap p) (length (op_queues p)) rid s)"

lemma op_inv_state: "op_inv p \<Longrightarrow> map_of (op_states p) rid = Some s \<Longrightarrow> state_ok (op_heap p) (length (op_queues p)) rid s"
  by (simp add: op_inv_def)

text \<open>The identity of a request, which processing does not change.\<close>

definition same_request :: "'s request_state \<Rightarrow> 's request_state \<Rightarrow> bool" where
  "same_request s s' \<longleftrightarrow> rs_request_id s' = rs_request_id s \<and> rs_parent s' = rs_parent s \<and> rs_index s' = rs_index s
     \<and> rs_output_kind s' = rs_output_kind s \<and> rs_queue s' = rs_queue s"

lemma same_request_trans: "same_request s s' \<Longrightarrow> same_request s' s'' \<Longrightarrow> same_request s s''"
  by (simp add: same_request_def)

lemma same_request_refl [simp]: "same_request s s"
  by (simp add: same_request_def)

lemma state_ok_same: "state_ok heap n rid s \<Longrightarrow> same_request s s' \<Longrightarrow> state_ok heap n rid s'"
  by (auto simp: state_ok_def same_request_def child_of_def)

lemma new_completion_output_same:
  "new_completion_output ids reason stop s = (c, s') \<Longrightarrow> same_request s s' \<and> co_index c = rs_index s \<and> co_finish_reason c = reason"
  by (auto simp: new_completion_output_def same_request_def Let_def split: prod.splits)

lemma new_request_output_same:
  "new_request_output rid outs finished s = (ro, s') \<Longrightarrow> same_request s s' \<and> ro_request_id ro = rid \<and> ro_outputs ro = outs \<and> ro_finished ro = finished"
  by (auto simp: new_request_output_def same_request_def Let_def split: prod.splits)

lemma update_stats_same: "update_stats_from_output eo ts stats s ls = Inr (stats', s', ls') \<Longrightarrow> same_request s s'"
  by (auto simp: update_stats_from_output_def same_request_def Let_def split: option.splits prod.splits)

lemma detokenize_output_same: "detokenize_output eo s = Inr (r, s') \<Longrightarrow> same_request s s'"
  by (auto simp: detokenize_output_def same_request_def split: option.splits)

lemma update_logprobs_same: "update_logprobs eo s = Inr s' \<Longrightarrow> same_request s s'"
  by (auto simp: update_logprobs_def same_request_def)

text \<open>The outputs of a parent for one completion.\<close>

definition parent_answer :: "completion_output \<Rightarrow> parent_request \<Rightarrow> completion_output option list \<Rightarrow> bool" where
  "parent_answer c pr outs \<longleftrightarrow>
     (if gp_output_kind (pr_params pr) \<noteq> FINAL_ONLY then outs = [Some c]
      else if pr_child_requests pr \<noteq> [] then outs = []
      else length outs = gp_n (pr_params pr) \<and> (\<forall>i < gp_n (pr_params pr). \<exists>c. outs ! i = Some c \<and> co_index c = i \<and> co_finish_reason c \<noteq> None))"

lemma parent_get_outputs_ok:
  assumes ok: "parent_ok pr" and s: "child_of rid s pr" and c: "co_index c = rs_index s"
    and fin: "co_finish_reason c \<noteq> None \<or> gp_output_kind (pr_params pr) \<noteq> FINAL_ONLY"
  shows "\<exists>outs pr'. parent_get_outputs rid c pr = Inr ((pr_request_id pr, outs, pr_child_requests pr' = []), pr')
    \<and> pr_request_id pr' = pr_request_id pr \<and> pr_params pr' = pr_params pr \<and> parent_ok pr' \<and> parent_answer c pr' outs
    \<and> set (pr_child_requests pr') = (if co_finish_reason c \<noteq> None then set (pr_child_requests pr) - {rid} else set (pr_child_requests pr))"
proof -
  define pr1 where "pr1 = (if co_finish_reason c \<noteq> None then pr\<lparr>pr_child_requests := removeAll rid (pr_child_requests pr)\<rparr> else pr)"
  have rid: "rid \<in> set (pr_child_requests pr)" "rid = child_id (rs_index s) (pr_request_id pr)" "rs_index s < gp_n (pr_params pr)"
    using s by (auto simp: child_of_def)
  show ?thesis
  proof (cases "gp_output_kind (pr_params pr) = FINAL_ONLY")
    case False
    then show ?thesis using rid(1)
      by (intro exI [of _ "[Some c]"] exI [of _ pr1]) (auto simp: parent_get_outputs_def pr1_def set_remove_def parent_ok_def parent_answer_def)
  next
    case True
    define pr2 where "pr2 = pr1\<lparr>pr_output_aggregator := (pr_output_aggregator pr)[rs_index s := Some c]\<rparr>"
    have len: "length (pr_output_aggregator pr) = gp_n (pr_params pr)" using ok True by (simp add: parent_ok_def)
    have same: "pr_request_id pr2 = pr_request_id pr" "pr_params pr2 = pr_params pr" "set (pr_child_requests pr2) = set (pr_child_requests pr) - {rid}"
      "pr_output_aggregator pr2 = (pr_output_aggregator pr)[rs_index s := Some c]" using fin True by (auto simp: pr2_def pr1_def)
    have entry: "entry_ok pr2 i" if "i < gp_n (pr_params pr)" for i
    proof (cases "i = rs_index s")
      case True
      then show ?thesis using fin rid len same c \<open>gp_output_kind (pr_params pr) = FINAL_ONLY\<close> by (simp add: entry_ok_def)
    next
      case False
      have "entry_ok pr i" using ok True that by (simp add: parent_ok_def)
      then show ?thesis using False rid(2) same by (auto simp: entry_ok_def split: option.splits)
    qed
    have "\<exists>c'. pr_output_aggregator pr2 ! i = Some c' \<and> co_index c' = i \<and> co_finish_reason c' \<noteq> None"
      if "pr_child_requests pr2 = []" "i < gp_n (pr_params pr)" for i
      using entry [OF that(2)] that(1) by (auto simp: entry_ok_def split: option.splits)
    then have "parent_answer c pr2 (if pr_child_requests pr2 \<noteq> [] then [] else pr_output_aggregator pr2)"
      using len same True by (auto simp: parent_answer_def)
    moreover have "parent_ok pr2" using entry len same by (simp add: parent_ok_def)
    moreover have "parent_get_outputs rid c pr = Inr ((pr_request_id pr, if pr_child_requests pr2 \<noteq> [] then [] else pr_output_aggregator pr2, pr_child_requests pr2 = []), pr2)"
      using fin True rid(1,3) len c by (auto simp: parent_get_outputs_def set_remove_def pr2_def pr1_def py_set_def)
    ultimately show ?thesis using same fin True by auto
  qed
qed

text \<open>One output of the engine core. \<open>final_reason\<close> is the finish reason after the stop strings are checked.\<close>

definition final_reason :: "engine_output \<Rightarrow> ustring option \<Rightarrow> finish_reason option" where
  "final_reason eo stop_string = (if stop_string \<noteq> None \<and> stop_string \<noteq> Some [] then Some STOP else eo_finish_reason eo)"

definition final_stop :: "engine_output \<Rightarrow> ustring option \<Rightarrow> stop_cause option" where
  "final_stop eo stop_string = (if stop_string \<noteq> None \<and> stop_string \<noteq> Some [] then map_option StopText stop_string else map_option StopToken (eo_stop_reason eo))"

definition request_answer :: "finish_reason option \<Rightarrow> 's request_state \<Rightarrow> parent_request list \<Rightarrow> request_output option \<Rightarrow> bool" where
  "request_answer reason s heap ro \<longleftrightarrow>
     (if reason = None \<and> rs_output_kind s = FINAL_ONLY then ro = None
      else \<exists>c. co_index c = rs_index s \<and> co_finish_reason c = reason \<and>
        (case rs_parent s of
           None \<Rightarrow> (\<exists>r. ro = Some r \<and> ro_request_id r = rs_request_id s \<and> ro_outputs r = [Some c] \<and> ro_finished r = (reason \<noteq> None))
         | Some a \<Rightarrow> (\<exists>outs. parent_answer c (heap ! a) outs \<and> (if outs = [] then ro = None
             else \<exists>r. ro = Some r \<and> ro_request_id r = pr_request_id (heap ! a) \<and> ro_outputs r = outs \<and> ro_finished r = (pr_child_requests (heap ! a) = [])))))"

text \<open>\<open>heap'\<close> is \<open>heap\<close> after a completion of \<open>s\<close>.\<close>

definition heap_step :: "finish_reason option \<Rightarrow> 's request_state \<Rightarrow> parent_request list \<Rightarrow> parent_request list \<Rightarrow> bool" where
  "heap_step reason s heap heap' \<longleftrightarrow> length heap' = length heap \<and> (\<forall>pr \<in> set heap'. parent_ok pr)
     \<and> (\<forall>a < length heap. pr_request_id (heap' ! a) = pr_request_id (heap ! a) \<and> pr_params (heap' ! a) = pr_params (heap ! a)
         \<and> set (pr_child_requests (heap' ! a)) =
             (if rs_parent s = Some a \<and> reason \<noteq> None then set (pr_child_requests (heap ! a)) - {rs_request_id s} else set (pr_child_requests (heap ! a))))"

lemma make_request_output_ok:
  assumes heap: "\<forall>pr \<in> set heap. parent_ok pr" and s: "state_ok heap n (rs_request_id s) s"
  shows "\<exists>ro s' heap'. make_request_output ids reason stop s heap = Inr (ro, s', heap') \<and> same_request s s'
    \<and> heap_step reason s heap heap' \<and> request_answer reason s heap' ro"
proof (cases "reason = None \<and> rs_output_kind s = FINAL_ONLY")
  case True
  then show ?thesis using heap by (auto simp: make_request_output_def heap_step_def request_answer_def)
next
  case False
  obtain c s1 where c: "new_completion_output ids reason stop s = (c, s1)" by force
  note c1 = new_completion_output_same [OF c]
  show ?thesis
  proof (cases "rs_parent s")
    case None
    obtain ro s2 where ro: "new_request_output (rs_request_id s1) [Some c] (reason \<noteq> None) s1 = (ro, s2)" by force
    show ?thesis
      using False None c c1 ro new_request_output_same [OF ro] heap
      by (auto simp: make_request_output_def same_request_def heap_step_def request_answer_def)
  next
    case (Some a)
    then have a: "a < length heap" "child_of (rs_request_id s) s (heap ! a)" using s by (auto simp: state_ok_def)
    have fin: "co_finish_reason c \<noteq> None \<or> gp_output_kind (pr_params (heap ! a)) \<noteq> FINAL_ONLY" using False c1 a(2) by (auto simp: child_of_def)
    have pok: "parent_ok (heap ! a)" and ci: "co_index c = rs_index s" using heap a(1) c1 by simp_all
    from parent_get_outputs_ok [OF pok a(2) ci fin] obtain outs pr' where
      g: "parent_get_outputs (rs_request_id s) c (heap ! a) = Inr ((pr_request_id (heap ! a), outs, pr_child_requests pr' = []), pr')" and
      pr': "pr_request_id pr' = pr_request_id (heap ! a)" "pr_params pr' = pr_params (heap ! a)" "parent_ok pr'" "parent_answer c pr' outs"
        "set (pr_child_requests pr') = (if co_finish_reason c \<noteq> None then set (pr_child_requests (heap ! a)) - {rs_request_id s} else set (pr_child_requests (heap ! a)))"
      by blast
    have hs: "heap_step reason s heap (heap[a := pr'])"
      using heap pr' Some c1 a(1) set_update_subset_insert [of heap a pr'] by (auto simp: heap_step_def nth_list_update)
    obtain ro s2 where ro: "new_request_output (pr_request_id (heap ! a)) outs (pr_child_requests pr' = []) s1 = (ro, s2)" by force
    have s1: "rs_parent s1 = Some a" "rs_request_id s1 = rs_request_id s" using Some c1 by (auto simp: same_request_def)
    have m: "make_request_output ids reason stop s heap =
        Inr (if outs = [] then (None, s1, heap[a := pr']) else (Some ro, s2, heap[a := pr']))"
      using False c s1 g ro by (auto simp: make_request_output_def)
    have "request_answer reason s (heap[a := pr']) (if outs = [] then None else Some ro)"
      using False Some c1 a(1) pr'(1,4) new_request_output_same [OF ro] by (auto simp: request_answer_def intro!: exI [of _ c] exI [of _ outs])
    moreover have "same_request s s1" "same_request s s2" using c1 new_request_output_same [OF ro] by (auto intro: same_request_trans)
    ultimately show ?thesis using m hs by (cases "outs = []") auto
  qed
qed

text \<open>States survive a change of the heap, except for the finished request.\<close>

lemma state_ok_heap_step:
  assumes "heap_step reason s heap heap'" "state_ok heap n rid s'" "reason \<noteq> None \<longrightarrow> rid \<noteq> rs_request_id s"
  shows "state_ok heap' n rid s'"
  using assms by (auto simp: state_ok_def heap_step_def child_of_def)

lemma op_inv_heap_step:
  assumes inv: "op_inv p" and s: "map_of (op_states p) rid = Some s" and hs: "heap_step reason s (op_heap p) (op_heap p')" and s': "same_request s s'"
    and q: "length (op_queues p') = length (op_queues p)"
    and st: "map_of (op_states p') = (map_of (op_states p))(rid := (if reason = None then Some s' else None))"
  shows "op_inv p'"
proof -
  have rid: "rs_request_id s = rid" using op_inv_state [OF inv s] by (simp add: state_ok_def)
  have old: "state_ok (op_heap p') (length (op_queues p)) r t" if "map_of (op_states p) r = Some t" "reason \<noteq> None \<longrightarrow> r \<noteq> rid" for r t
    using state_ok_heap_step [OF hs op_inv_state [OF inv that(1)]] that(2) rid by simp
  have new: "state_ok (op_heap p') (length (op_queues p)) rid s'" if "reason = None"
    using old [OF s] that s' by (auto intro: state_ok_same)
  show ?thesis using hs old new by (auto simp: op_inv_def heap_step_def st q split: if_splits)
qed

text \<open>Statistics change only the observed number of tokens of a parent.\<close>

definition unobserved :: "parent_request \<Rightarrow> parent_request" where
  "unobserved pr = pr\<lparr>pr_max_num_generation_tokens := 0\<rparr>"

definition same_parents :: "parent_request list \<Rightarrow> parent_request list \<Rightarrow> bool" where
  "same_parents h h' \<longleftrightarrow> map unobserved h' = map unobserved h"

lemma unobserved_eqD:
  assumes "unobserved pr = unobserved pr'"
  shows "pr_request_id pr = pr_request_id pr'" "pr_params pr = pr_params pr'" "pr_child_requests pr = pr_child_requests pr'" "parent_ok pr = parent_ok pr'"
proof -
  have eq: "pr_request_id (unobserved q) = pr_request_id q" "pr_params (unobserved q) = pr_params q" "pr_child_requests (unobserved q) = pr_child_requests q"
    "parent_ok (unobserved q) = parent_ok q" for q by (simp_all add: unobserved_def parent_ok_def entry_ok_def cong: option.case_cong)
  show "pr_request_id pr = pr_request_id pr'" "pr_params pr = pr_params pr'" "pr_child_requests pr = pr_child_requests pr'" "parent_ok pr = parent_ok pr'"
    using assms eq by metis+
qed

lemma heap_step_same_parents:
  assumes "heap_step reason s h h1" "same_parents h1 h2"
  shows "heap_step reason s h h2"
proof -
  have len: "length h2 = length h1" using assms(2) unfolding same_parents_def by (rule map_eq_imp_length_eq)
  have eq: "unobserved (h2 ! a) = unobserved (h1 ! a)" if "a < length h1" for a
    using assms(2) that len unfolding same_parents_def by (metis nth_map)
  have "parent_ok (h2 ! a)" if "a < length h2" for a
    using assms(1) that len unobserved_eqD(4) [OF eq] by (simp add: heap_step_def)
  then have "\<forall>pr \<in> set h2. parent_ok pr" by (auto simp: in_set_conv_nth)
  then show ?thesis using assms(1) len unobserved_eqD(1-3) [OF eq] by (simp add: heap_step_def)
qed

lemma deliver_same:
  "deliver ro s outs p = Inr (outs', p') \<Longrightarrow>
   op_heap p' = op_heap p \<and> op_states p' = op_states p \<and> length (op_queues p') = length (op_queues p)"
  by (auto simp: deliver_def queue_put_def split: option.splits)

lemma same_parents_observe:
  assumes "observe_finished_request n (map_option ((!) h) parent) it = (it', par)"
  shows "same_parents h (case (parent, par) of (Some a, Some pr) \<Rightarrow> h[a := pr] | _ \<Rightarrow> h)"
proof (cases parent)
  case None
  then show ?thesis by (simp add: same_parents_def)
next
  case (Some a)
  then have "\<exists>m. par = Some ((h ! a)\<lparr>pr_max_num_generation_tokens := m\<rparr>)"
    using assms by (auto simp: observe_finished_request_def observe_num_generation_tokens_def Let_def split: if_splits)
  then obtain m where "par = Some ((h ! a)\<lparr>pr_max_num_generation_tokens := m\<rparr>)" ..
  then show ?thesis using Some by (cases "a < length h") (auto simp: same_parents_def map_update unobserved_def list_update_same_conv list_update_beyond)
qed

lemma stats_finished_effect:
  assumes "update_stats_from_finished reason stats s p = Inr (stats', p')"
  shows "op_states p' = op_states p \<and> length (op_queues p') = length (op_queues p) \<and> same_parents (op_heap p) (op_heap p')"
proof (cases stats)
  case None
  then show ?thesis using assms by (simp add: update_stats_from_finished_def same_parents_def)
next
  case (Some it)
  then obtain rss where rss: "rs_stats s = Some rss" using assms by (auto simp: update_stats_from_finished_def split: option.splits)
  obtain it' par where o: "observe_finished_request (rss_num_generation_tokens rss) (map_option ((!) (op_heap p)) (rs_parent s))
      (update_from_finished_request reason (length (rs_prompt_token_ids s)) (rs_max_tokens_param s) rss it) = (it', par)" by force
  show ?thesis using assms Some rss o same_parents_observe [OF o] by (auto simp: update_stats_from_finished_def Let_def)
qed

lemma free_completed_effect:
  assumes "free_completed eo reason stats s ab p = Inr (ab', stats', p')"
  shows "op_states p' = AList.delete (eo_request_id eo) (op_states p)" "length (op_queues p') = length (op_queues p)" "same_parents (op_heap p) (op_heap p')"
    "ab' = (if eo_finish_reason eo = None then ab @ [eo_request_id eo] else ab)"
  using assms by (auto simp: free_completed_def Let_def dest!: stats_finished_effect)

lemma process_output_ok:
  assumes inv: "op_inv p" and s: "map_of (op_states p) (eo_request_id eo) = Some s"
    and st: "update_stats_from_output eo ts stats s (op_lora p) = Inr (stats1, s1, ls)"
    and de: "detokenize_output eo (s1\<lparr>rs_is_prefilling := False\<rparr>) = Inr (stop_string, s2)" and lp: "update_logprobs eo s2 = Inr s3"
  obtains ro s4 heap' where "same_request s s4" "heap_step (final_reason eo stop_string) s (op_heap p) heap'"
    "request_answer (final_reason eo stop_string) s heap' ro"
    "process_output ts eo (outs, ab, stats, p) =
       (let p = p\<lparr>op_lora := ls, op_heap := heap', op_states := AList.update (eo_request_id eo) s4 (op_states p)\<rparr>
        in rbind (deliver ro s4 outs p) (\<lambda>(outs, p).
           case final_reason eo stop_string of None \<Rightarrow> Inr (outs, ab, stats1, p)
           | Some reason \<Rightarrow> rbind (free_completed eo reason stats1 s4 ab p) (\<lambda>(ab, stats, p). Inr (outs, ab, stats, p))))"
proof -
  have s3: "same_request s s3"
    using update_stats_same [OF st] detokenize_output_same [OF de] update_logprobs_same [OF lp] by (simp add: same_request_def)
  have ok: "state_ok (op_heap p) (length (op_queues p)) (rs_request_id s3) s3"
    using state_ok_same [OF op_inv_state [OF inv s] s3] s3 op_inv_state [OF inv s] by (simp add: state_ok_def same_request_def)
  have "\<forall>pr \<in> set (op_heap p). parent_ok pr" using inv by (simp add: op_inv_def)
  from make_request_output_ok [OF this ok] obtain ro s4 heap' where
    m: "make_request_output (eo_new_token_ids eo) (final_reason eo stop_string) (final_stop eo stop_string) s3 (op_heap p) = Inr (ro, s4, heap')" and
    r: "same_request s3 s4" "heap_step (final_reason eo stop_string) s3 (op_heap p) heap'" "request_answer (final_reason eo stop_string) s3 heap' ro" by blast
  have "heap_step (final_reason eo stop_string) s (op_heap p) heap'" "request_answer (final_reason eo stop_string) s heap' ro"
    using r(2,3) s3 by (simp_all add: heap_step_def request_answer_def same_request_def cong: if_cong option.case_cong)
  moreover have "same_request s s4" using s3 r(1) by (rule same_request_trans)
  moreover have "process_output ts eo (outs, ab, stats, p) =
       (let p = p\<lparr>op_lora := ls, op_heap := heap', op_states := AList.update (eo_request_id eo) s4 (op_states p)\<rparr>
        in rbind (deliver ro s4 outs p) (\<lambda>(outs, p).
           case final_reason eo stop_string of None \<Rightarrow> Inr (outs, ab, stats1, p)
           | Some reason \<Rightarrow> rbind (free_completed eo reason stats1 s4 ab p) (\<lambda>(ab, stats, p). Inr (outs, ab, stats, p))))"
    using s st de lp m unfolding process_output_def final_reason_def final_stop_def Let_def by simp
  ultimately show thesis using that by blast
qed

lemma process_output_inv:
  assumes inv: "op_inv p" and r: "process_output ts eo (outs, ab, stats, p) = Inr (outs', ab', stats', p')"
  shows "op_inv p' \<and> length (op_queues p') = length (op_queues p)"
proof (cases "map_of (op_states p) (eo_request_id eo)")
  case None
  then show ?thesis using assms by (simp add: process_output_def)
next
  case s: (Some s)
  obtain stats1 s1 ls where st: "update_stats_from_output eo ts stats s (op_lora p) = Inr (stats1, s1, ls)"
    using r s by (cases "update_stats_from_output eo ts stats s (op_lora p)") (simp add: process_output_def, metis prod_cases3)
  obtain stop_string s2 where de: "detokenize_output eo (s1\<lparr>rs_is_prefilling := False\<rparr>) = Inr (stop_string, s2)"
    using r s st by (cases "detokenize_output eo (s1\<lparr>rs_is_prefilling := False\<rparr>)") (simp add: process_output_def, metis surj_pair)
  obtain s3 where lp: "update_logprobs eo s2 = Inr s3"
    using r s st de by (cases "update_logprobs eo s2") (simp add: process_output_def Let_def, blast)
  obtain ro s4 heap' where ok: "same_request s s4" "heap_step (final_reason eo stop_string) s (op_heap p) heap'" and
    eq: "process_output ts eo (outs, ab, stats, p) =
       (let p = p\<lparr>op_lora := ls, op_heap := heap', op_states := AList.update (eo_request_id eo) s4 (op_states p)\<rparr>
        in rbind (deliver ro s4 outs p) (\<lambda>(outs, p).
           case final_reason eo stop_string of None \<Rightarrow> Inr (outs, ab, stats1, p)
           | Some reason \<Rightarrow> rbind (free_completed eo reason stats1 s4 ab p) (\<lambda>(ab, stats, p). Inr (outs, ab, stats, p))))"
    by (rule process_output_ok [OF inv s st de lp, of outs ab]) blast
  define p1 where "p1 = p\<lparr>op_lora := ls, op_heap := heap', op_states := AList.update (eo_request_id eo) s4 (op_states p)\<rparr>"
  from r eq obtain outs2 p2 where d: "deliver ro s4 outs p1 = Inr (outs2, p2)" unfolding Let_def p1_def [symmetric] by auto
  note d2 = deliver_same [OF d]
  show ?thesis
  proof (cases "final_reason eo stop_string")
    case None
    then have "p' = p2" using r eq d by (simp add: Let_def flip: p1_def)
    moreover have "map_of (op_states p2) = (map_of (op_states p))(eo_request_id eo := Some s4)" using d2 by (simp add: p1_def AList.update_conv')
    moreover have "length (op_queues p2) = length (op_queues p)" "op_heap p2 = heap'" using d2 by (simp_all add: p1_def)
    ultimately show ?thesis using op_inv_heap_step [OF inv s _ ok(1), of "final_reason eo stop_string" p2] ok(2) None by simp
  next
    case (Some reason)
    then obtain ab2 stats2 where f: "free_completed eo reason stats1 s4 ab p2 = Inr (ab2, stats2, p')"
      using r eq d by (auto simp: Let_def simp flip: p1_def)
    note f2 = free_completed_effect [OF f]
    have hs: "heap_step (final_reason eo stop_string) s (op_heap p) (op_heap p')"
      using heap_step_same_parents [OF ok(2), of "op_heap p'"] f2(3) d2 by (simp add: p1_def)
    have len: "length (op_queues p') = length (op_queues p)" using f2(2) d2 by (simp add: p1_def)
    have "map_of (op_states p') = (map_of (op_states p))(eo_request_id eo := None)"
      using f2(1) d2 by (auto simp: p1_def AList.update_conv' AList.delete_conv')
    then show ?thesis using op_inv_heap_step [OF inv s hs ok(1) len] len Some by simp
  qed
qed

section \<open>Reachable states\<close>

lemma process_outputs_inv:
  assumes inv: "op_inv p" and r: "process_outputs outs ts stats p = Inr (ros, ab, stats', p')"
  shows "op_inv p'"
proof -
  let ?P = "\<lambda>(_ :: request_output list, _ :: string list, _ :: iteration_stats option, p). op_inv p"
  from r obtain ros0 ab0 stats0 where "rfold (process_output ts) outs ([], [], stats, p) = Inr (ros0, ab0, stats0, p')"
    by (auto simp: process_outputs_def)
  then have "?P (ros0, ab0, stats0, p')"
  proof (rule rfold_invariant)
    show "?P ([], [], stats, p)" using inv by simp
  next
    fix eo s t assume "?P s" "process_output ts eo s = Inr t"
    moreover obtain a b c d a' b' c' d' where "s = (a, b, c, d)" "t = (a', b', c', d')" by (metis prod_cases4)
    ultimately show "?P t" using process_output_inv [of d ts eo a b c a' b' c' d'] by auto
  qed
  then show ?thesis by simp
qed

lemma op_inv_fewer:
  "op_inv p \<Longrightarrow> op_heap p' = op_heap p \<Longrightarrow> op_queues p' = op_queues p \<Longrightarrow> map_of (op_states p') \<subseteq>\<^sub>m map_of (op_states p) \<Longrightarrow> op_inv p'"
  by (fastforce simp: op_inv_def map_le_def dom_def)

lemma map_le_delete: "map_of (AList.delete k al) \<subseteq>\<^sub>m map_of al"
  by (auto simp: map_le_def AList.delete_conv')

text \<open>Aborting removes the requests, and nothing is added.\<close>

lemma abort_requests_effect:
  "abort_requests rids p = Inr (ids, p') \<Longrightarrow>
   op_heap p' = op_heap p \<and> op_queues p' = op_queues p \<and> map_of (op_states p') \<subseteq>\<^sub>m map_of (op_states p) \<and> (\<forall>rid \<in> set rids. map_of (op_states p') rid = None)"
proof (induction rids p arbitrary: ids p' rule: abort_requests.induct)
  case (1 p)
  then show ?case by simp
next
  case (2 rid rids p)
  have gone: "map_of m rid = None" if "map_of m \<subseteq>\<^sub>m map_of n" "map_of n rid = None" for m n :: "(string \<times> 'a request_state) list"
    using that by (auto simp: map_le_def dom_def)
  show ?case
  proof (cases "map_of (op_states p) rid")
    case (Some s)
    then obtain ls ids1 where ls: "lora_abort_request (rs_lora_name s) (rs_request_id s) (op_lora p) = Inr ls"
      "abort_requests rids (p\<lparr>op_states := AList.delete rid (op_states p), op_lora := ls\<rparr>) = Inr (ids1, p')" using "2.prems" by auto
    note IH = "2.IH"(5) [OF Some ls]
    have "map_of (op_states p') \<subseteq>\<^sub>m map_of (AList.delete rid (op_states p))" using IH by simp
    then have "map_of (op_states p') rid = None" by (rule gone) (simp add: AList.delete_conv')
    then show ?thesis using IH map_le_delete [of rid "op_states p"] by (auto intro: map_le_trans)
  next
    case states: None
    show ?thesis
    proof (cases "map_of (op_parents p) rid")
      case None
      then show ?thesis using "2.IH"(1) [OF states None] "2.prems" states gone by auto
    next
      case (Some a)
      show ?thesis
      proof (cases "pr_child_requests (op_heap p ! a) = []")
        case True
        then show ?thesis using "2.IH"(2) [OF states Some refl refl True] "2.prems" states Some gone by auto
      next
        case False
        then obtain ids1 p2 ids2 where p2: "abort_requests (pr_child_requests (op_heap p ! a)) (p\<lparr>op_parents := AList.delete rid (op_parents p)\<rparr>) = Inr (ids1, p2)"
          "abort_requests rids p2 = Inr (ids2, p')"
          using "2.prems" states Some by (auto simp: Let_def)
        from "2.IH"(3) [OF states Some refl refl False p2(1)] "2.IH"(4) [OF states Some refl refl False p2(1) refl p2(2)]
        show ?thesis using states gone by (auto intro: map_le_trans)
      qed
    qed
  qed
qed

text \<open>The fan-out after \<open>k\<close> children; \<open>H\<close> are the older parents.\<close>

definition fanned_out :: "parent_request list \<Rightarrow> string \<Rightarrow> gen_params \<Rightarrow> nat \<Rightarrow> nat \<Rightarrow> 's output_processor \<Rightarrow> bool" where
  "fanned_out H rid params nq k p \<longleftrightarrow> (\<exists>pr. op_heap p = H @ [pr] \<and> pr_request_id pr = rid \<and> pr_params pr = params
     \<and> set (pr_child_requests pr) = (\<lambda>i. child_id i rid) ` {..<k} \<and> pr_output_aggregator pr = pr_output_aggregator (parent_new rid params)
     \<and> (\<forall>c. pr_cached_child_params pr = Some c \<longrightarrow> gp_output_kind c = gp_output_kind params))
     \<and> length (op_queues p) = nq \<and> (\<forall>r s. map_of (op_states p) r = Some s \<longrightarrow> state_ok (op_heap p) nq r s)"

lemma get_child_info_ok:
  assumes "get_child_info idx pr = ((r, ps), pr')" "\<forall>c. pr_cached_child_params pr = Some c \<longrightarrow> gp_output_kind c = gp_output_kind (pr_params pr)"
  shows "r = child_id idx (pr_request_id pr)" "gp_output_kind ps = gp_output_kind (pr_params pr)" "pr_request_id pr' = pr_request_id pr"
    "pr_params pr' = pr_params pr" "set (pr_child_requests pr') = insert r (set (pr_child_requests pr))" "pr_output_aggregator pr' = pr_output_aggregator pr"
    "\<forall>c. pr_cached_child_params pr' = Some c \<longrightarrow> gp_output_kind c = gp_output_kind (pr_params pr)"
  using assms by (auto simp: get_child_info_def get_child_sampling_params_def Let_def split: option.splits)

lemma op_add_request_effect:
  assumes "op_add_request er prompt par idx q p = Inr p'"
  shows "op_heap p' = op_heap p" "op_queues p' = op_queues p"
    "\<exists>s. map_of (op_states p') = (map_of (op_states p))(er_request_id er := Some s) \<and> rs_request_id s = er_request_id er \<and> rs_parent s = par \<and> rs_index s = idx
       \<and> rs_output_kind s = gp_output_kind (er_params er) \<and> rs_queue s = q"
  using assms by (auto simp: op_add_request_def state_from_new_request_def Let_def AList.update_conv' split: if_splits)

lemma state_ok_grow:
  assumes "state_ok (H @ [pr]) nq r s" "pr_request_id pr' = pr_request_id pr" "pr_params pr' = pr_params pr" "set (pr_child_requests pr) \<subseteq> set (pr_child_requests pr')"
  shows "state_ok (H @ [pr']) nq r s"
proof -
  have "child_of r s ((H @ [pr']) ! a)" if "rs_parent s = Some a" for a
  proof (cases "a < length H")
    case True
    then show ?thesis using assms(1) that by (auto simp: state_ok_def nth_append)
  next
    case False
    then show ?thesis using assms that by (auto simp: state_ok_def child_of_def nth_append)
  qed
  then show ?thesis using assms(1) by (auto simp: state_ok_def)
qed

lemma fan_out_step_ok:
  assumes f: "fanned_out H rid params nq k p" and st: "fan_out_step er prompt (length H) q k (reqs, p) = Inr (reqs', p')"
    and k: "k < gp_n params" and q: "\<forall>j. q = Some j \<longrightarrow> j < nq"
  shows "fanned_out H rid params nq (Suc k) p'"
proof -
  from f obtain pr where pr: "op_heap p = H @ [pr]" "pr_request_id pr = rid" "pr_params pr = params"
    "set (pr_child_requests pr) = (\<lambda>i. child_id i rid) ` {..<k}" "pr_output_aggregator pr = pr_output_aggregator (parent_new rid params)"
    "\<forall>c. pr_cached_child_params pr = Some c \<longrightarrow> gp_output_kind c = gp_output_kind params"
    and nq: "length (op_queues p) = nq" and sts: "\<forall>r s. map_of (op_states p) r = Some s \<longrightarrow> state_ok (op_heap p) nq r s"
    unfolding fanned_out_def by blast
  obtain r ps pr' where info: "get_child_info k pr = ((r, ps), pr')" by (metis prod.exhaust)
  have cached: "\<forall>c. pr_cached_child_params pr = Some c \<longrightarrow> gp_output_kind c = gp_output_kind (pr_params pr)" using pr(3,6) by simp
  note i = get_child_info_ok [OF info cached]
  from st info pr(1) have add: "op_add_request (er\<lparr>er_request_id := r, er_params := ps\<rparr>) prompt (Some (length H)) k q (p\<lparr>op_heap := H @ [pr']\<rparr>) = Inr p'"
    by (auto simp: fan_out_step_def Let_def)
  note a = op_add_request_effect [OF add]
  from a(3) obtain s where s: "map_of (op_states p') = (map_of (op_states p))(r := Some s)" "rs_request_id s = r" "rs_parent s = Some (length H)" "rs_index s = k"
    "rs_output_kind s = gp_output_kind ps" "rs_queue s = q" by auto
  have "state_ok (H @ [pr']) nq r s" using s i pr q k by (auto simp: state_ok_def child_of_def)
  moreover have "state_ok (H @ [pr']) nq r1 s1" if "map_of (op_states p) r1 = Some s1" for r1 s1
    using state_ok_grow [of H pr nq r1 s1 pr'] sts that pr(1) i by auto
  ultimately have "\<forall>r1 s1. map_of (op_states p') r1 = Some s1 \<longrightarrow> state_ok (op_heap p') nq r1 s1" using s(1) a(1) by auto
  moreover have "set (pr_child_requests pr') = (\<lambda>i. child_id i rid) ` {..<Suc k}" using i(1,5) pr(2,4) by (auto simp: lessThan_Suc)
  ultimately show ?thesis using a(1,2) i pr nq unfolding fanned_out_def by auto
qed

lemma llm_add_request_inv:
  assumes inv: "op_inv p" and q: "\<forall>j. q = Some j \<longrightarrow> j < length (op_queues p)" and r: "llm_add_request er prompt q p = Inr (reqs, p')"
  shows "op_inv p'"
proof (cases "gp_n (er_params er) = 1")
  case True
  then have "op_add_request er prompt None 0 q p = Inr p'" using r by (auto simp: llm_add_request_def)
  from op_add_request_effect [OF this] show ?thesis using inv q by (auto simp: op_inv_def state_ok_def split: if_splits)
next
  case False
  let ?n = "gp_n (er_params er)" and ?H = "op_heap p" and ?rid = "er_request_id er"
  let ?p0 = "p\<lparr>op_heap := ?H @ [parent_new ?rid (er_params er)]\<rparr>"
  have run: "fanned_out ?H ?rid (er_params er) (length (op_queues p)) k p1"
    if "rfold (fan_out_step er prompt (length ?H) q) [0..<k] ([], ?p0) = Inr (reqs1, p1)" "k \<le> ?n" for k reqs1 p1
    using that
  proof (induction k arbitrary: reqs1 p1)
    case 0
    have "state_ok (?H @ [parent_new ?rid (er_params er)]) (length (op_queues p)) r s" if "map_of (op_states p) r = Some s" for r s
      using op_inv_state [OF inv that] by (auto simp: state_ok_def nth_append)
    then show ?case using 0 by (auto simp: fanned_out_def parent_new_def)
  next
    case (Suc k)
    then obtain reqs2 p2 where "rfold (fan_out_step er prompt (length ?H) q) [0..<k] ([], ?p0) = Inr (reqs2, p2)"
      "fan_out_step er prompt (length ?H) q k (reqs2, p2) = Inr (reqs1, p1)" by (auto simp: rfold_append)
    then show ?case using Suc.IH Suc.prems(2) fan_out_step_ok q by (metis Suc_le_eq less_imp_le)
  qed
  have "rfold (fan_out_step er prompt (length ?H) q) [0..<?n] ([], ?p0) = Inr (reqs, p')" using r False by (simp add: llm_add_request_def)
  from run [OF this] obtain pr where pr: "op_heap p' = ?H @ [pr]" "pr_request_id pr = ?rid" "pr_params pr = er_params er"
    "set (pr_child_requests pr) = (\<lambda>i. child_id i ?rid) ` {..<?n}" "pr_output_aggregator pr = pr_output_aggregator (parent_new ?rid (er_params er))"
    and st: "length (op_queues p') = length (op_queues p)" "\<forall>r s. map_of (op_states p') r = Some s \<longrightarrow> state_ok (op_heap p') (length (op_queues p)) r s"
    by (auto simp: fanned_out_def)
  have "parent_ok pr" using pr by (auto simp: parent_ok_def entry_ok_def parent_new_def)
  then show ?thesis using inv pr(1) st by (auto simp: op_inv_def)
qed

text \<open>The states of an output processor. A queue is made for a request and read by the task that waits for the request.\<close>

inductive op_reach :: "'s output_processor \<Rightarrow> bool" where
  init: "op_reach (op_new tokenizer log_stats)"
| new_queue: "op_reach p \<Longrightarrow> op_reach (p\<lparr>op_queues := op_queues p @ [collector_new kind]\<rparr>)"
| get: "op_reach p \<Longrightarrow> op_reach (p\<lparr>op_queues := (op_queues p)[k := snd (collector_get_nowait (op_queues p ! k))]\<rparr>)"
| add: "op_reach p \<Longrightarrow> \<forall>j. q = Some j \<longrightarrow> j < length (op_queues p) \<Longrightarrow> llm_add_request er prompt q p = Inr (reqs, p') \<Longrightarrow> op_reach p'"
| process: "op_reach p \<Longrightarrow> process_outputs outs ts stats p = Inr (ros, ab, stats', p') \<Longrightarrow> op_reach p'"
| abort: "op_reach p \<Longrightarrow> abort_requests rids p = Inr (ids, p') \<Longrightarrow> op_reach p'"

lemma op_reach_inv: "op_reach p \<Longrightarrow> op_inv p"
proof (induction rule: op_reach.induct)
  case (init tokenizer log_stats)
  then show ?case by (simp add: op_inv_def op_new_def)
next
  case (new_queue p kind)
  then show ?case by (fastforce simp: op_inv_def state_ok_def)
next
  case (abort p rids ids p')
  then show ?case using abort_requests_effect [OF abort(2)] by (auto intro: op_inv_fewer)
next
  case (get p k)
  then show ?case by (simp add: op_inv_def)
qed (auto intro: llm_add_request_inv process_outputs_inv)

section \<open>Properties\<close>

text \<open>
  C37. The outputs of requests. In a reachable state, if the tokenizer and the log-probabilities of an output raise nothing, processing the output of a running request without queue
  raises nothing. Other requests are unchanged; the request is removed exactly when it has a finish reason or a stop string was found, and then its id is sent
  back to be aborted exactly when the engine core does not know yet. The answer (\<open>request_answer\<close>): in the mode without streaming nothing before the end, else one completion. For a child
  of a parallel-sampling request without streaming (\<open>parent_answer\<close>) there is no answer while another child runs, and then a single finished one, with
  the finished completions of all \<open>n\<close> children in their order; with streaming every completion is passed on, and only that of the last child is marked as finished.
\<close>

theorem process_output_answers:
  assumes reach: "op_reach p" and s: "map_of (op_states p) (eo_request_id eo) = Some s" and q: "rs_queue s = None"
    and de: "detokenize_output eo (s\<lparr>rs_is_prefilling := False\<rparr>) = Inr (stop_string, s2)" and lp: "update_logprobs eo s2 = Inr s3"
    and reason: "reason = final_reason eo stop_string"
  shows "\<exists>ro p'. process_output ts eo (outs, ab, None, p) =
       Inr (case ro of None \<Rightarrow> outs | Some r \<Rightarrow> outs @ [r], if reason \<noteq> None \<and> eo_finish_reason eo = None then ab @ [eo_request_id eo] else ab, None, p')
    \<and> request_answer reason s (op_heap p') ro \<and> heap_step reason s (op_heap p) (op_heap p')
    \<and> (\<forall>rid. rid \<noteq> eo_request_id eo \<longrightarrow> map_of (op_states p') rid = map_of (op_states p) rid)
    \<and> (map_of (op_states p') (eo_request_id eo) = None \<longleftrightarrow> reason \<noteq> None)"
proof -
  have st: "update_stats_from_output eo ts None s (op_lora p) = Inr (None, s, op_lora p)" by (simp add: update_stats_from_output_def)
  obtain ro s4 heap' where ok: "same_request s s4" "heap_step reason s (op_heap p) heap'" "request_answer reason s heap' ro" and
    eq: "process_output ts eo (outs, ab, None, p) =
       (let p = p\<lparr>op_lora := op_lora p, op_heap := heap', op_states := AList.update (eo_request_id eo) s4 (op_states p)\<rparr>
        in rbind (deliver ro s4 outs p) (\<lambda>(outs, p).
           case reason of None \<Rightarrow> Inr (outs, ab, None, p)
           | Some reason \<Rightarrow> rbind (free_completed eo reason None s4 ab p) (\<lambda>(ab, stats, p). Inr (outs, ab, stats, p))))"
    unfolding reason by (rule process_output_ok [OF op_reach_inv [OF reach] s st de lp, of outs ab]) blast
  define p1 where "p1 = p\<lparr>op_lora := op_lora p, op_heap := heap', op_states := AList.update (eo_request_id eo) s4 (op_states p)\<rparr>"
  have d: "deliver ro s4 outs p1 = Inr (case ro of None \<Rightarrow> outs | Some r \<Rightarrow> outs @ [r], p1)"
    using ok(1) q by (auto simp: deliver_def same_request_def split: option.splits)
  define p2 where "p2 = (if reason = None then p1 else p1\<lparr>op_states := AList.delete (eo_request_id eo) (op_states p1),
      op_parents := (case rs_parent s4 of None \<Rightarrow> op_parents p1
        | Some a \<Rightarrow> if pr_child_requests (op_heap p1 ! a) = [] then AList.delete (pr_request_id (op_heap p1 ! a)) (op_parents p1) else op_parents p1)\<rparr>)"
  have "process_output ts eo (outs, ab, None, p) =
       Inr (case ro of None \<Rightarrow> outs | Some r \<Rightarrow> outs @ [r], if reason \<noteq> None \<and> eo_finish_reason eo = None then ab @ [eo_request_id eo] else ab, None, p2)"
    using d unfolding eq Let_def p1_def [symmetric]
    by (cases reason) (auto simp: p2_def free_completed_def update_stats_from_finished_def Let_def)
  moreover have "op_heap p2 = heap'" by (simp add: p2_def p1_def)
  moreover have "map_of (op_states p2) = (map_of (op_states p))(eo_request_id eo := (if reason = None then Some s4 else None))"
    by (auto simp: p2_def p1_def AList.update_conv' AList.delete_conv')
  ultimately show ?thesis using ok by (intro exI [of _ ro] exI [of _ p2]) simp
qed

definition two_samples :: engine_request where
  "two_samples = \<lparr>er_request_id = ''r'', er_prompt_token_ids = [1, 2],
     er_params = \<lparr>tp_stop = [], tp_include_stop = False, tp_skip_special_tokens = True, tp_spaces_between_special_tokens = True, gp_n = 2, gp_seed = None,
       gp_output_kind = FINAL_ONLY, gp_detokenize = False, gp_logprobs = None, gp_prompt_logprobs = None, gp_max_tokens = None\<rparr>,
     er_arrival_time = 0, er_lora_name = None\<rparr>"

definition last_token :: "string \<Rightarrow> engine_output" where
  "last_token rid = \<lparr>eo_request_id = rid, eo_new_token_ids = [7], eo_new_logprobs = None, eo_new_prompt_logprobs = None, eo_finish_reason = Some LENGTH,
     eo_stop_reason = None, eo_events = None\<rparr>"

definition child_runs :: "string \<Rightarrow> unit output_processor \<Rightarrow> bool" where
  "child_runs rid p \<longleftrightarrow> (case map_of (op_states p) rid of None \<Rightarrow> False
     | Some s \<Rightarrow> rs_queue s = None \<and> rs_parent s = Some 0 \<and> rs_output_kind s = FINAL_ONLY \<and> (case rs_tokenizer s of None \<Rightarrow> True | Some _ \<Rightarrow> False))"

text \<open>The first of two samples has ended; the output for the second one is the answer with both.\<close>

theorem process_output_answers_witness:
  "\<exists>p :: unit output_processor. \<exists>r p'. op_reach p \<and> child_runs ''1_r'' p
     \<and> process_output None (last_token ''1_r'') ([], [], None, p) = Inr ([r], [], None, p')
     \<and> ro_request_id r = ''r'' \<and> ro_finished r \<and> map (map_option co_index) (ro_outputs r) = [Some 0, Some 1]"
proof -
  let ?A = "llm_add_request two_samples None None (op_new (\<lambda>_. None) False :: unit output_processor)"
  have main: "case ?A of Inl e \<Rightarrow> False
    | Inr (reqs, p) \<Rightarrow> (case process_outputs [last_token ''0_r''] None None p of Inl e \<Rightarrow> False
      | Inr (ros, ab, stats, p1) \<Rightarrow> ros = [] \<and> child_runs ''1_r'' p1 \<and> length (op_heap p1) = 1 \<and> pr_child_requests (op_heap p1 ! 0) = [''1_r'']
          \<and> gp_n (pr_params (op_heap p1 ! 0)) = 2 \<and> gp_output_kind (pr_params (op_heap p1 ! 0)) = FINAL_ONLY \<and> pr_request_id (op_heap p1 ! 0) = ''r'')"
    by code_simp
  then obtain reqs p where A: "?A = Inr (reqs, p)" by (cases ?A) auto
  obtain ros ab stats p1 where B: "process_outputs [last_token ''0_r''] None None p = Inr (ros, ab, stats, p1)"
    using main A by (cases "process_outputs [last_token ''0_r''] None None p") (simp, metis prod_cases4)
  have run: "child_runs ''1_r'' p1" and h: "length (op_heap p1) = 1" "pr_child_requests (op_heap p1 ! 0) = [''1_r'']" "gp_n (pr_params (op_heap p1 ! 0)) = 2"
      "gp_output_kind (pr_params (op_heap p1 ! 0)) = FINAL_ONLY" "pr_request_id (op_heap p1 ! 0) = ''r''"
    using main A B by auto
  have reach: "op_reach p1" using op_reach.init op_reach.add [OF _ _ A] op_reach.process [OF _ B] by fastforce
  from run obtain s where s: "map_of (op_states p1) (eo_request_id (last_token ''1_r'')) = Some s" "rs_queue s = None" "rs_parent s = Some 0"
    "rs_output_kind s = FINAL_ONLY" "rs_tokenizer s = None" by (auto simp: child_runs_def last_token_def split: option.splits)
  have rid: "rs_request_id s = ''1_r''" using op_inv_state [OF op_reach_inv [OF reach] s(1)] by (simp add: state_ok_def last_token_def)
  from s(5) obtain s2 where d: "detokenize_output (last_token ''1_r'') (s\<lparr>rs_is_prefilling := False\<rparr>) = Inr (None, s2)" by (simp add: detokenize_output_def)
  then obtain s3 where l: "update_logprobs (last_token ''1_r'') s2 = Inr s3" by (simp add: update_logprobs_def last_token_def)
  have reason: "Some LENGTH = final_reason (last_token ''1_r'') None" by (simp add: final_reason_def last_token_def)
  from process_output_answers [OF reach s(1,2) d l reason, of None "[]" "[]"] obtain ro p' where
    r: "process_output None (last_token ''1_r'') ([], [], None, p1) = Inr (case ro of None \<Rightarrow> [] | Some r \<Rightarrow> [] @ [r], [], None, p')"
    "request_answer (Some LENGTH) s (op_heap p') ro" "heap_step (Some LENGTH) s (op_heap p1) (op_heap p')" by (auto simp: last_token_def)
  have h': "pr_child_requests (op_heap p' ! 0) = []" "gp_n (pr_params (op_heap p' ! 0)) = 2" "gp_output_kind (pr_params (op_heap p' ! 0)) = FINAL_ONLY"
    "pr_request_id (op_heap p' ! 0) = ''r''" using r(3) h s(3) rid by (auto simp: heap_step_def)
  from r(2) s(3) obtain c cs where "parent_answer c (op_heap p' ! 0) cs" "if cs = [] then ro = None
      else \<exists>r. ro = Some r \<and> ro_request_id r = ''r'' \<and> ro_outputs r = cs \<and> ro_finished r" by (auto simp: request_answer_def h' cong: if_cong)
  note ans = this
  have "length cs = 2" "\<And>i. i < 2 \<Longrightarrow> \<exists>c. cs ! i = Some c \<and> co_index c = i" using ans(1) h' by (auto simp: parent_answer_def)
  note cs = this
  obtain c0 where c0: "cs ! 0 = Some c0" "co_index c0 = 0" using cs(2) [of 0] by auto
  obtain c1 where c1: "cs ! 1 = Some c1" "co_index c1 = 1" using cs(2) [of 1] by auto
  have "cs = [cs ! 0, cs ! 1]" using cs(1) by (auto simp: list_eq_iff_nth_eq less_2_cases_iff)
  then have "cs = [Some c0, Some c1]" unfolding c0 c1 .
  with ans(2) c0 c1 obtain r0 where "ro = Some r0" "ro_request_id r0 = ''r''" "ro_finished r0" "map (map_option co_index) (ro_outputs r0) = [Some 0, Some 1]" by auto
  then show ?thesis using reach run r(1) by auto
qed

section \<open>The collector loses nothing\<close>

text \<open>What the puts of one request carry: one completion each, all with or all without log-probabilities.\<close>

definition delta_output :: "bool \<Rightarrow> request_output \<Rightarrow> bool" where
  "delta_output lp ro \<longleftrightarrow> (\<exists>c. ro_outputs ro = [Some c] \<and> (co_logprobs c \<noteq> None) = lp)"

definition cpart :: "(completion_output \<Rightarrow> 'a list) \<Rightarrow> nat \<Rightarrow> completion_output option list \<Rightarrow> 'a list" where
  "cpart f i cs = concat (map (\<lambda>c. case c of None \<Rightarrow> [] | Some c \<Rightarrow> if co_index c = i then f c else []) cs)"

definition part :: "(completion_output \<Rightarrow> 'a list) \<Rightarrow> nat \<Rightarrow> request_output \<Rightarrow> 'a list" where
  "part f i ro = cpart f i (ro_outputs ro)"

definition log_entries :: "completion_output \<Rightarrow> logprob_dict list" where
  "log_entries c = (case co_logprobs c of None \<Rightarrow> [] | Some l \<Rightarrow> l)"

datatype collector_event = Put request_output | Get

fun collect :: "collector_event list \<Rightarrow> collector \<Rightarrow> (request_output list \<times> collector) result" where
  "collect [] c = Inr ([], c)"
| "collect (Put ro # es) c = rbind (collector_put (Output ro) c) (collect es)"
| "collect (Get # es) c = (case collector_get_nowait c of
     (Inl e, c) \<Rightarrow> Inl e
   | (Inr None, c) \<Rightarrow> collect es c
   | (Inr (Some ro), c) \<Rightarrow> rbind (collect es c) (\<lambda>(ros, c). Inr (ro # ros, c)))"

definition puts :: "collector_event list \<Rightarrow> request_output list" where
  "puts es = concat (map (\<lambda>e. case e of Put ro \<Rightarrow> [ro] | Get \<Rightarrow> []) es)"

definition pending :: "collector \<Rightarrow> request_output list" where
  "pending c = (case cl_output c of Some (Output ro) \<Rightarrow> [ro] | _ \<Rightarrow> [])"

text \<open>Completions with distinct indices, each with log-probabilities or none.\<close>

definition merged :: "bool \<Rightarrow> completion_output option list \<Rightarrow> bool" where
  "merged lp cs \<longleftrightarrow> (\<forall>c \<in> set cs. \<exists>d. c = Some d \<and> (co_logprobs d \<noteq> None) = lp) \<and> distinct (map (\<lambda>c. co_index (the c)) cs)"

definition extends :: "(completion_output \<Rightarrow> 'a list) \<Rightarrow> bool" where
  "extends f \<longleftrightarrow> (\<forall>n c m. merge_completion n c = Inr m \<longrightarrow> f m = f c @ f n)"

lemma merge_completion_ok:
  assumes "(co_logprobs n \<noteq> None) = lp" "(co_logprobs c \<noteq> None) = lp"
  shows "\<exists>m. merge_completion n c = Inr m \<and> co_index m = co_index c \<and> (co_logprobs m \<noteq> None) = lp"
  using assms by (auto simp: merge_completion_def split: option.splits list.splits)

lemma cpart_simps [simp]:
  "cpart f i [] = []"
  "cpart f i (Some c # cs) = (if co_index c = i then f c else []) @ cpart f i cs"
  by (simp_all add: cpart_def)

lemma cpart_absent:
  assumes "co_index (the c) \<notin> (\<lambda>c. co_index (the c)) ` set cs"
  shows "cpart f (co_index (the c)) cs = []"
proof -
  have "co_index e \<noteq> co_index (the c)" if "Some e \<in> set cs" for e
    using assms imageI [OF that, of "\<lambda>c. co_index (the c)"] by auto
  then show ?thesis by (auto simp: cpart_def split: option.splits)
qed

lemma add_completion_ok:
  assumes "merged lp cs" "(co_logprobs n \<noteq> None) = lp" "extends f"
  shows "\<exists>cs'. add_completion True (Some n) cs = Inr cs' \<and> merged lp cs' \<and> (\<lambda>c. co_index (the c)) ` set cs' = insert (co_index n) ((\<lambda>c. co_index (the c)) ` set cs)
    \<and> cpart f i cs' = cpart f i cs @ (if co_index n = i then f n else [])"
  using assms(1)
proof (induction cs)
  case Nil
  then show ?case using assms(2) by (simp add: merged_def)
next
  case (Cons c cs)
  then obtain d where c: "c = Some d" "(co_logprobs d \<noteq> None) = lp" by (auto simp: merged_def)
  have cs: "merged lp cs" "co_index d \<notin> (\<lambda>c. co_index (the c)) ` set cs" using Cons.prems c(1) by (auto simp: merged_def)
  show ?case
  proof (cases "co_index d = co_index n")
    case True
    obtain m where m: "merge_completion n d = Inr m" "co_index m = co_index d" "(co_logprobs m \<noteq> None) = lp" using merge_completion_ok [OF assms(2) c(2)] by blast
    have "f m = f d @ f n" using assms(3) m(1) by (auto simp: extends_def)
    moreover have "cpart f (co_index n) cs = []" using cpart_absent [of "Some d" cs f] cs(2) True by simp
    moreover have "merged lp (Some m # cs)" using cs m(2,3) by (auto simp: merged_def)
    ultimately show ?thesis using True c(1) m(1,2) by auto
  next
    case False
    from Cons.IH [OF cs(1)] obtain cs' where cs': "add_completion True (Some n) cs = Inr cs'" "merged lp cs'"
      "(\<lambda>c. co_index (the c)) ` set cs' = insert (co_index n) ((\<lambda>c. co_index (the c)) ` set cs)"
      "cpart f i cs' = cpart f i cs @ (if co_index n = i then f n else [])" by blast
    then have "merged lp (c # cs')" using False c cs by (auto simp: merged_def)
    then show ?thesis using False c(1) cs' by auto
  qed
qed

text \<open>Between the calls a collector of deltas holds merged completions, and the event is set exactly while it holds something.\<close>

definition collecting :: "bool \<Rightarrow> collector \<Rightarrow> bool" where
  "collecting lp c \<longleftrightarrow> cl_aggregate c \<and> (cl_ready c \<longleftrightarrow> cl_output c \<noteq> None)
     \<and> (case cl_output c of None \<Rightarrow> True | Some (Output ro) \<Rightarrow> merged lp (ro_outputs ro) | Some (Failure _) \<Rightarrow> False)"

lemma collector_put_delta:
  assumes c: "collecting lp c" and ro: "delta_output lp ro" and f: "extends f"
  shows "\<exists>c'. collector_put (Output ro) c = Inr c' \<and> collecting lp c'
    \<and> concat (map (part f i) (pending c')) = concat (map (part f i) (pending c)) @ part f i ro
    \<and> (list_ex ro_finished (pending c') \<longleftrightarrow> list_ex ro_finished (pending c) \<or> ro_finished ro)"
proof -
  from ro obtain n where n: "ro_outputs ro = [Some n]" "(co_logprobs n \<noteq> None) = lp" by (auto simp: delta_output_def)
  show ?thesis
  proof (cases "cl_output c")
    case None
    then show ?thesis using c n by (auto simp: collector_put_def collecting_def pending_def merged_def)
  next
    case (Some out)
    then obtain old where old: "cl_output c = Some (Output old)" "merged lp (ro_outputs old)" using c by (auto simp: collecting_def split: collected.splits)
    from add_completion_ok [OF old(2) n(2) f, of i] obtain cs' where "add_completion True (Some n) (ro_outputs old) = Inr cs'" "merged lp cs'"
      "cpart f i cs' = cpart f i (ro_outputs old) @ (if co_index n = i then f n else [])" by blast
    then show ?thesis using c old n by (auto simp: collector_put_def collecting_def pending_def request_output_add_def part_def)
  qed
qed

lemma puts_simps [simp]: "puts [] = []" "puts (Put ro # es) = ro # puts es" "puts (Get # es) = puts es"
  by (simp_all add: puts_def)

lemma collect_delta:
  assumes "collecting lp c" "\<forall>ro \<in> set (puts es). delta_output lp ro" "extends f"
  shows "\<exists>ros c'. collect es c = Inr (ros, c') \<and> collecting lp c'
    \<and> concat (map (part f i) (ros @ pending c')) = concat (map (part f i) (pending c @ puts es))
    \<and> (list_ex ro_finished (ros @ pending c') \<longleftrightarrow> list_ex ro_finished (pending c @ puts es))"
  using assms(1,2)
proof (induction es arbitrary: c)
  case Nil
  then show ?case by simp
next
  case (Cons e es)
  show ?case
  proof (cases e)
    case (Put ro)
    from collector_put_delta [OF Cons.prems(1) _ assms(3), of ro i] Cons.prems(2) Put obtain c1 where
      c1: "collector_put (Output ro) c = Inr c1" "collecting lp c1"
      "concat (map (part f i) (pending c1)) = concat (map (part f i) (pending c)) @ part f i ro"
      "list_ex ro_finished (pending c1) \<longleftrightarrow> list_ex ro_finished (pending c) \<or> ro_finished ro" by auto
    from Cons.IH [OF c1(2)] Cons.prems(2) Put c1 show ?thesis by auto
  next
    case Get
    show ?thesis
    proof (cases "cl_output c")
      case None
      then show ?thesis using Cons.IH [OF Cons.prems(1)] Cons.prems(2) Get by (simp add: collector_get_nowait_def)
    next
      case (Some out)
      then obtain ro where ro: "cl_output c = Some (Output ro)" using Cons.prems(1) by (auto simp: collecting_def split: collected.splits)
      have "collecting lp (c\<lparr>cl_output := None, cl_ready := False\<rparr>)" using Cons.prems(1) by (simp add: collecting_def)
      from Cons.IH [OF this] Cons.prems(2) Get ro show ?thesis by (auto simp: collector_get_nowait_def pending_def)
    qed
  qed
qed

lemma extends_parts: "extends co_text" "extends co_token_ids" "extends log_entries"
  by (auto simp: extends_def merge_completion_def log_entries_def split: option.splits list.splits)

lemma get_pending:
  assumes "collecting lp c"
  shows "\<exists>r. collector_get_nowait c = (Inr r, collector_new DELTA) \<and> pending c = (case r of None \<Rightarrow> [] | Some ro \<Rightarrow> [ro])"
    and "cl_ready c \<longleftrightarrow> collector_get c \<noteq> None"
proof -
  have new: "c\<lparr>cl_output := None, cl_ready := False\<rparr> = collector_new DELTA" "cl_output c = None \<Longrightarrow> c = collector_new DELTA"
    using assms by (auto simp: collecting_def collector_new_def intro: collector.equality)
  show "\<exists>r. collector_get_nowait c = (Inr r, collector_new DELTA) \<and> pending c = (case r of None \<Rightarrow> [] | Some ro \<Rightarrow> [ro])"
    using assms new by (cases "cl_output c") (auto simp: collecting_def collector_get_nowait_def pending_def split: collected.splits)
  show "cl_ready c \<longleftrightarrow> collector_get c \<noteq> None"
    using assms by (cases "cl_output c") (auto simp: collecting_def collector_get_def split: collected.splits)
qed

text \<open>
  C26. The collector of a stream of deltas, for any interleaving of puts and gets. The puts carry one completion each, all with or all without log-probabilities, as the output
  processor makes them for one request. No call raises. What the consumer has got and what is still in the collector carry, for every index, exactly the text, the tokens and the log-probabilities of the
  puts, in their order; one of them is finished exactly if a put was. The event is set exactly while there is something to get, so that \<open>get\<close> does not wait in vain, and one more get
  returns all that is still there and leaves the collector as new: a slow consumer loses nothing and gets nothing twice.
\<close>

theorem collector_lossless:
  assumes "\<forall>ro \<in> set (puts es). delta_output lp ro"
  shows "\<exists>ros c r. collect es (collector_new DELTA) = Inr (ros, c) \<and> (cl_ready c \<longleftrightarrow> collector_get c \<noteq> None)
    \<and> collector_get_nowait c = (Inr r, collector_new DELTA) \<and> pending c = (case r of None \<Rightarrow> [] | Some ro \<Rightarrow> [ro])
    \<and> concat (map (part co_text i) (ros @ pending c)) = concat (map (part co_text i) (puts es))
    \<and> concat (map (part co_token_ids i) (ros @ pending c)) = concat (map (part co_token_ids i) (puts es))
    \<and> concat (map (part log_entries i) (ros @ pending c)) = concat (map (part log_entries i) (puts es))
    \<and> (list_ex ro_finished (ros @ pending c) \<longleftrightarrow> list_ex ro_finished (puts es))"
proof -
  have new: "collecting lp (collector_new DELTA)" "pending (collector_new DELTA) = []" by (simp_all add: collecting_def collector_new_def pending_def)
  note run = collect_delta [OF new(1) assms]
  from run [OF extends_parts(1), of i] new(2) obtain ros c where c: "collect es (collector_new DELTA) = Inr (ros, c)" "collecting lp c"
    "concat (map (part co_text i) (ros @ pending c)) = concat (map (part co_text i) (puts es))"
    "list_ex ro_finished (ros @ pending c) \<longleftrightarrow> list_ex ro_finished (puts es)" by auto
  moreover have "concat (map (part co_token_ids i) (ros @ pending c)) = concat (map (part co_token_ids i) (puts es))"
    using run [OF extends_parts(2), of i] new(2) c(1) by auto
  moreover have "concat (map (part log_entries i) (ros @ pending c)) = concat (map (part log_entries i) (puts es))"
    using run [OF extends_parts(3), of i] new(2) c(1) by auto
  ultimately show ?thesis using get_pending [OF c(2)] by blast
qed

definition delta_of :: "nat \<Rightarrow> ustring \<Rightarrow> int \<Rightarrow> bool \<Rightarrow> request_output" where
  "delta_of i t tok fin = \<lparr>ro_request_id = ''r'', ro_prompt = None, ro_prompt_token_ids = [1], ro_prompt_logprobs = None,
     ro_outputs = [Some \<lparr>co_index = i, co_text = t, co_token_ids = [tok], co_cumulative_logprob = None, co_logprobs = None, co_finish_reason = None, co_stop_reason = None\<rparr>],
     ro_finished = fin\<rparr>"

text \<open>A get, then three puts for two indices that are merged, a get, and a put that is still to be got.\<close>

definition slow_consumer :: "collector_event list" where
  "slow_consumer = [Get, Put (delta_of 0 [97] 5 False), Put (delta_of 1 [120] 6 False), Put (delta_of 0 [98] 7 False), Get, Put (delta_of 0 [99] 8 True)]"

theorem collector_lossless_witness:
  "\<exists>ro c. collect slow_consumer (collector_new DELTA) = Inr ([ro], c) \<and> part co_text 0 ro = [97, 98] \<and> part co_token_ids 1 ro = [6] \<and> \<not> ro_finished ro
     \<and> cl_ready c \<and> concat (map (part co_text 0) ([ro] @ pending c)) = [97, 98, 99] \<and> list_ex ro_finished ([ro] @ pending c)"
proof -
  have "\<forall>ro \<in> set (puts slow_consumer). delta_output False ro" by (simp add: slow_consumer_def delta_of_def delta_output_def)
  from collector_lossless [OF this, of 0] obtain ros c where c: "collect slow_consumer (collector_new DELTA) = Inr (ros, c)"
    "concat (map (part co_text 0) (ros @ pending c)) = [97, 98, 99]" "list_ex ro_finished (ros @ pending c)"
    by (auto simp: slow_consumer_def delta_of_def part_def)
  have "case collect slow_consumer (collector_new DELTA) of Inl e \<Rightarrow> False | Inr (ros, c) \<Rightarrow>
      length ros = 1 \<and> part co_text 0 (hd ros) = [97, 98] \<and> part co_token_ids 1 (hd ros) = [6] \<and> \<not> ro_finished (hd ros) \<and> cl_ready c" by code_simp
  with c show ?thesis by (cases ros) auto
qed

text \<open>
  The statistics of LoRA adapters. \<open>LLMEngine.step\<close> processes outputs without statistics: a finished request then stays among the waiting ones of its adapter
  forever.
\<close>

lemma lora_stats_not_released:
  "case llm_add_request (two_samples\<lparr>er_lora_name := Some ''a'', er_params := (er_params two_samples)\<lparr>gp_n := 1\<rparr>\<rparr>) None None (op_new (\<lambda>_. None) False :: unit output_processor) of
     Inl e \<Rightarrow> False
   | Inr (reqs, p) \<Rightarrow> (case process_outputs [last_token ''r''] None None p of Inl e \<Rightarrow> False
       | Inr (ros, ab, stats, p1) \<Rightarrow> \<not> has_unfinished_requests p1 \<and> map_of (op_lora p1) ''a'' = Some \<lparr>ls_waiting = [''r''], ls_running = []\<rparr>)"
  by code_simp

end
