(* ===== verification/Spec2Isabelle.thy ===== *)
theory Spec2Isabelle
  imports Karmarkar_Karp Greedy_Partition Micro_Batches Cache_Corner_Cases Message_Queue Load_Balancer
    KV_Cache_Config Scheduler_Reachable Dispatch Worker_Corner_Cases Advantages Rollout_Correction
    Rejection_Sampler Output_Processor
begin

text \<open>
  A verification development for the reinforcement-learning framework verl (\<open>src/task/verl\<close>) and its
  rollout engine vLLM (\<open>src/task/vllm-src\<close>, the V1 engine).

  \<^bold>\<open>The program.\<close> A trainer (verl) sends batches of prompts, \<open>DataProto\<close> objects, to groups of workers. The
  dispatch layer cuts a batch into parts, runs a method on every worker, and puts the results together.
  Inside a worker the samples are sorted into micro-batches of similar token counts. Rollout workers
  hand prompts to inference servers, chosen by a load balancer; in asynchronous training a bounded message
  queue carries finished samples back. In the server, the V1 scheduler decides in every step which
  requests run and for how many tokens. It allocates KV-cache blocks through the cache manager, which uses the
  block pool (reference counts, prefix-cache index), the free-block queue (eviction order) and block hashes
  (which blocks hold the same prefix); an encoder cache holds the encoder outputs of multi-modal inputs. The worker applies the scheduler's
  message to its cached request states and to the rows of its persistent batch, computes from it the flat arrays of the forward pass, samples the
  next tokens from the logits, and drafts tokens that the next step verifies (speculative decoding). The front end turns the tokens into text, which it streams, and joins the samples of one request. At start-up the memory of
  the devices is divided into blocks. From the rewards of the responses the trainer computes advantages, corrects for the difference
  between the rollout policy and the trained one, and aggregates the policy loss over micro-batches and data-parallel ranks.

  \<^bold>\<open>Theories and sources.\<close> Paths are relative to \<open>src/task/verl/verl\<close> (verl) and \<open>src/task/vllm-src/vllm\<close> (vllm).

  \<^item> \<open>Prelude\<close>: Python exceptions as values of \<open>'a result\<close>, list access, slices, integer division, and the
    generic lemmas and simp collections of the other theories.
  \<^item> \<open>Heapq\<close>: the standard library's \<open>heapq\<close> with its two sift loops. The locale \<open>priority_bag\<close> is the contract of a
    priority queue, \<open>heap_order\<close> the hypotheses on the comparison under which the list heap meets it.
  \<^item> \<open>Karmarkar_Karp\<close>, \<open>Greedy_Partition\<close>, \<open>Micro_Batches\<close>: verl \<open>utils/seqlen_balancing.py\<close>. C1, C2,
    \<open>get_seqlen_balanced_partitions_ok\<close> and \<open>greedy_partition_ok\<close>: the partitioning routines return partitions of the indices, of equal size where asked, with bounded imbalance.
    C5: micro-batching loses and reorders nothing after \<open>restore_dynamic_batch\<close>; \<open>num_micro_batches_bounds\<close>,
    \<open>get_group_balanced_partitions_ok\<close>: bounds on the number of micro-batches, groups that stay together;
    \<open>max_token_len_exceeded\<close> is a micro-batch beyond the documented limit.
  \<^item> \<open>Data_Proto\<close>: verl \<open>protocol.py\<close>, class \<open>DataProto\<close>, and \<open>utils/py_functional.py\<close>. C38, \<open>chunk_concat_roundtrip\<close>: padding and
    chunking are undone by unpadding and concatenation. The locale \<open>row_batch\<close> is what clients rely on: selections
    of rows compose, and concatenation selects the concatenated indices; \<open>dp_pick\<close> and \<open>dp_concat\<close> satisfy it.
  \<^item> \<open>Dispatch\<close>: verl \<open>single_controller/base/decorator.py\<close>, mesh information of \<open>base/worker.py\<close>,
    \<open>func_generator\<close> and \<open>execute_all_async\<close> of \<open>ray/base.py\<close>, \<open>utils/ray_utils.py\<close>. C40: a distributed call of a row-wise
    method equals the local call.
  \<^item> \<open>Message_Queue\<close>: verl \<open>experimental/fully_async_policy/message_queue.py\<close> as a step relation of an actor with
    suspended consumers. C24, C25: order, and exact accounting of returned, dropped, cleared and queued samples; no lost wake-up; \<open>put_sample_always_stores\<close>: what its result means.
  \<^item> \<open>Load_Balancer\<close>: verl \<open>workers/rollout/llm_server.py\<close>. \<open>acquire_server_spec\<close>, \<open>balancer_spreads\<close>: routing and balance.
  \<^item> \<open>Request\<close>: vllm \<open>v1/request.py\<close> and \<open>v1/core/sched/utils.py\<close>.
  \<^item> \<open>Block_Hash\<close>, \<open>Free_Block_Queue\<close>: vllm \<open>v1/core/kv_cache_utils.py\<close>. C9: the intrusive linked list refines
    a plain list; the locale \<open>block_queue\<close> is the contract, its interpretation \<open>fq\<close> the linked list. \<open>hash_request_tokens_ok\<close>, C11: hashes
    are chained, and without collisions equal hashes mean equal prefixes.
  \<^item> \<open>Block_Pool\<close>: vllm \<open>v1/core/block_pool.py\<close>, over \<open>fq\<close>. \<open>get_new_blocks_spec\<close>, \<open>allocate_free_roundtrip\<close>: allocation and freeing.
  \<^item> \<open>KV_Cache_Manager\<close>, \<open>Cache_Corner_Cases\<close>: vllm \<open>v1/core/kv_cache_manager.py\<close> and
    \<open>v1/core/specialized_manager.py\<close>. C15, C16, C18, C19 and \<open>kvm_free_total\<close> hold in all states that the operations reach: reference counts
    are the occurrences in block tables, allocation is exclusive, freeing is total; with full attention allocation for a running request without draft tokens does not raise, and
    cache hits are sound. \<open>sliding_window_longest_hit\<close>
    is the sliding-window search. C21: after an allocation that cuts draft tokens, caching the next block of the request fails an assertion. C23: blocks completed
    by generation get one hash for requests that differ in an earlier image.
  \<^item> \<open>Encoder_Cache\<close>: vllm \<open>v1/core/encoder_cache_manager.py\<close>. C29: slots are accounted for.
  \<^item> \<open>KV_Cache_Config\<close>: vllm \<open>v1/kv_cache_interface.py\<close> and the sizing part of \<open>v1/core/kv_cache_utils.py\<close>. C30,
    C31: the binary search for the model length, configurations fit the memory. \<open>hybrid_config_too_small\<close>: hybrid models can be accepted wrongly.
  \<^item> \<open>Scheduler\<close>, \<open>Scheduler_Invariants\<close>, \<open>Scheduler_Safety\<close>, \<open>Scheduler_Reachable\<close>: vllm \<open>v1/core/sched/scheduler.py\<close>
    and \<open>output.py\<close>, with every method that changes state. The theories hold in turn the definitions, the queues, the
    use of the two caches, and the reachable states. C33 to C35: limits of a step, queues and status agree, aborting is total
    and releases all blocks; \<open>encoder_cache_overcommitted\<close>: the slots of the encoder cache can become negative; \<open>cached_request_data_fresh\<close>: kept message objects equal new ones.
  \<^item> \<open>Input_Batch\<close>: vllm \<open>v1/worker/block_table.py\<close> and \<open>v1/worker/gpu_input_batch.py\<close>, the arrays with one row per running
    request: adding, removing, condensing and swapping rows, and the metadata for the sampler.
  \<^item> \<open>Model_Runner\<close>, \<open>Worker_Progress\<close>, \<open>Worker_Corner_Cases\<close>: \<open>_update_states\<close> of vllm \<open>v1/worker/gpu_model_runner.py\<close>, which applies
    the message of the scheduler. C7: it does not raise, and rows, cached states and message agree afterwards; \<open>Model_Runner\<close> has the
    agreement, \<open>Worker_Progress\<close> the absence of exceptions. C22: a row that condensing has vacated hands its logit bias and token mask
    to the next request. C14: accepted draft tokens are missing in the cached states.
  \<^item> \<open>Prepare_Inputs\<close>: \<open>_prepare_inputs\<close>, \<open>_calc_spec_decode_metadata\<close> and the prefix of cascade attention of \<open>gpu_model_runner.py\<close>. C12: the
    numpy arithmetic gives every scheduled token its position, token id and cache slot, and finds the logits of the draft tokens.
  \<^item> \<open>Sampler\<close>: vllm \<open>v1/sample/sampler.py\<close> and \<open>v1/sample/ops\<close>. C28: an excluded token is never sampled. C17: top-k without sorting equals top-k
    with sorting, and top-p keeps a smallest set of most probable tokens. \<open>tpu_top_k_equal\<close>, \<open>tpu_top_k_top_p_differs\<close>: the version for TPUs.
  \<^item> \<open>Ngram_Proposer\<close>: vllm \<open>v1/spec_decode/ngram_proposer.py\<close>. C20: both loops end, and the result is the one of the plain search.
  \<^item> \<open>Rejection_Sampler\<close>: vllm \<open>v1/sample/rejection_sampler.py\<close>, and sampling, grammar masks and drafting of \<open>gpu_model_runner.py\<close>. C3: in batches of
    greedy requests without options that change logits, speculative decoding emits what decoding token by token emits. C32: random requests emit only tokens of positive probability at the positions of drafts,
    unless a uniform number is exactly 0. C39: with drafts, greedy requests get tokens that their options exclude, and without drafts not. \<open>prepared_metadata\<close>, \<open>draft_loop_ok\<close>, \<open>grammar_bitmask_aligned\<close> connect it with \<open>Prepare_Inputs\<close>, the proposer and the batch.
  \<^item> \<open>Detokenizer\<close>: vllm \<open>v1/engine/detokenizer.py\<close>, \<open>transformers_utils/detokenizer_utils.py\<close> and the stop strings of
    \<open>engine/output_processor/stop_checker.py\<close>. C13: the streamed deltas make up the final text, and stop strings are never sent in part.
    \<open>slow_detokenizer_exact\<close>: for an idealised tokenizer, whose text of tokens does not depend on the tokens before, the Python detokenizer gives the text of the whole output.
  \<^item> \<open>Output_Processor\<close>: vllm \<open>v1/engine/output_processor.py\<close>, \<open>parallel_sampling.py\<close>, \<open>logprobs.py\<close>, the fan-out of \<open>llm_engine.py\<close>, and the outputs and
    statistics they use (\<open>outputs.py\<close>, \<open>v1/metrics/stats.py\<close>). C37: every engine output is answered for the right request or parent, in all reachable states.
    C26: a slow consumer loses no text, tokens or log-probabilities; \<open>abort_requests_effect\<close>: what aborting removes; \<open>lora_stats_not_released\<close>:
    without statistics the entries of finished requests with adapters remain.
  \<^item> \<open>Torch_Functional\<close>: masked statistics of verl \<open>utils/torch_functional.py\<close>, group statistics of \<open>utils/groupwise.py\<close>.
  \<^item> \<open>Advantages\<close>: KL controllers and all advantage estimators of verl \<open>trainer/ppo/core_algos.py\<close>. C4, C36: vectorized and plain versions of GRPO and RLOO
    agree (and where they do not), and RLOO subtracts the mean of the others. C6: generalized advantage estimation ignores observations between the turns. \<open>advantage_shapes\<close>: every estimator
    keeps the shape of the batch.
  \<^item> \<open>Policy_Loss\<close>: loss aggregation, policy, value and entropy losses, KL penalties of \<open>core_algos.py\<close>. C10: with given global counts the loss does not depend on
    how the batch is spread over micro-batches and ranks; the loss without given counts differs by the quotient of the counts. \<open>vanilla_clip_bounds\<close>: the dual clip in closed form. Lemmas: bounds of the entropy and of the
    estimator \<open>k3\<close>, agreement of the chunked entropy and of the two log-probability routines with the plain ones.
  \<^item> \<open>Rollout_Correction\<close>: verl \<open>trainer/ppo/rollout_corr_helper.py\<close>, the policy loss \<open>bypass_mode\<close> and the registry of policy losses. C8:
    importance weights are bounded, and when their metrics divide by zero. C27: rejection removes exactly the tokens that an option rejects.

  \<^bold>\<open>State and errors.\<close> Objects are records, updates return the new record, raised exceptions are \<open>Inl\<close> values. Linked
  blocks and request objects that several components share live in stores indexed by their ids. Sets and dicts whose order
  shows are lists and association lists. Reachable states are inductive predicates over the public operations.

  \<^bold>\<open>Parameters.\<close> The hash function and \<open>NONE_HASH\<close>; the number of tokens that a KV connector can load; the LRU cache of the
  load balancer; random permutations, samples and ties of \<open>topk\<close> and \<open>sort\<close> in torch; the random numbers and the fresh memory of a device; the
  choice of the attention backend for cascade attention; the application of a grammar bitmask; the tokenizer; conversion of strings to floats; the sizes into which torch and numpy cut a dimension (\<open>split_law\<close>); the order in which threads
  finish (\<open>completion_law\<close>); the answer of a worker or of the model. A law is a hypothesis of the theorems that need it, and their
  witnesses instantiate it with a function that follows the documentation.

  \<^bold>\<open>Termination.\<close> Loops are recursive functions with a measure: distance to the heap's leaves, number of heap elements, remaining
  tokens or inputs, length of the queues, entries of parents (aborting a parent aborts its children recursively). Only the walk over the linked list may run forever, on a cyclic list; it is a
  partial function into \<open>option\<close>, and C9 proves that it returns. The two loops of Knuth, Morris and
  Pratt move back in the pattern and are partial functions as well; C20 proves that they return. The chunked entropy counts its passes with the number of rows as fuel, and
  \<open>entropy_chunking\<close> proves that this is enough.

  \<^bold>\<open>Numbers.\<close> Token counts, lengths and sizes are integers of Python, without bound. The floating-point numbers of losses and advantages are reals:
  rounding, overflow and gradients are left out, and a result that the code computes as nan is \<open>None\<close> where the code can reach it. A logit of minus infinity is \<open>None\<close>,
  which is below all reals
  and which a temperature does not change (rows with a temperature below the epsilon of the sampler take the greedy token). Cache slots, 32-bit integers in the code, are not wrapped. Labels of groups are strings or integers.

  \<^bold>\<open>Not modelled.\<close> Models, kernels and training engines (\<open>workers\<close>, \<open>model_executor\<close>, \<open>attention\<close>):
  code on devices. Processes, actors, sockets, files and configuration (trainers, engine core, executors, entry points,
  checkpoints): glue around third-party systems. Of \<open>DataProto\<close>: slice steps, boolean masks, \<open>rename\<close>, folding of dimensions,
  serialization, data loaders and futures. Of the scheduler: grammar bitmasks, connector metadata, timestamps and log-probability payloads.
  Of \<open>torch_functional.py\<close>: padding helpers, learning-rate schedules, collective operations. Of the worker: positions of M-RoPE models, LoRA adapters, prompt
  log-probabilities, the neural drafter and the FlashInfer sampling kernels. The V0 engine (\<open>core\<close>, \<open>engine\<close>, \<open>worker\<close>), the predecessor of the modelled one, is left out.
\<close>

end
